(* ===== verification/Kernel_Prelude.thy ===== *)
theory Kernel_Prelude
  imports Main "HOL-Library.Word"
begin

text \<open>
  The prelude of the development: the types and conventions every component shares.

  \<^item> \<open>size_t\<close> and \<open>uintptr_t\<close> of the 64-bit targets are natural numbers below
    \<open>size_limit\<close>; the C++ operators that can wrap are \<open>sz_add\<close>, \<open>sz_sub\<close> and
    \<open>sz_mul\<close>, with the reduction modulo \<open>2 ^ 64\<close> written out. Their simplification
    rules (collection \<open>sz_simps\<close>) replace them by the plain operators where the result
    is in range. Code that works on bits uses \<open>64 word\<close>, \<open>32 word\<close>, \<open>16 word\<close>
    and \<open>8 word\<close>.
  \<^item> A failed \<open>ASSERT\<close>, an \<open>ASSERT_UNREACHABLE\<close>, a dereference of \<open>nullptr\<close> and an
    access outside a buffer are values of \<open>fault\<close>, as is a loop that never ends; fallible code returns \<open>'a res\<close>
    and is sequenced with \<open>res_bind\<close>.
  \<^item> Pointers into a heap are addresses wrapped in \<open>option\<close>, with \<open>None\<close> for
    \<open>nullptr\<close>; \<open>linked\<close> and \<open>segment\<close> relate a heap of
    hooks to the list of the addresses reached, up to \<open>nullptr\<close> or to a given pointer.
\<close>

named_theorems sz_simps \<open>size_t arithmetic in range\<close>
named_theorems res_simps \<open>sequencing of fallible code\<close>

subsection \<open>size_t arithmetic\<close>

type_synonym size_t = nat
type_synonym u8 = "8 word"
type_synonym u16 = "16 word"
type_synonym u32 = "32 word"
type_synonym u64 = "64 word"

definition size_limit :: nat where
  "size_limit = 2 ^ 64"

definition sz_add :: "size_t \<Rightarrow> size_t \<Rightarrow> size_t" where
  "sz_add a b = (a + b) mod size_limit"

definition sz_sub :: "size_t \<Rightarrow> size_t \<Rightarrow> size_t" where
  "sz_sub a b = (a + size_limit - b) mod size_limit"

definition sz_mul :: "size_t \<Rightarrow> size_t \<Rightarrow> size_t" where
  "sz_mul a b = (a * b) mod size_limit"

lemma size_limit_pos [simp]: "0 < size_limit"
  by (simp add: size_limit_def)

lemma sz_add_eq [sz_simps]: "a + b < size_limit \<Longrightarrow> sz_add a b = a + b"
  by (simp add: sz_add_def)

lemma sz_sub_eq [sz_simps]: "b \<le> a \<Longrightarrow> a < size_limit \<Longrightarrow> sz_sub a b = a - b"
  by (simp add: sz_sub_def flip: add_diff_assoc2)

lemma sz_mul_eq [sz_simps]: "a * b < size_limit \<Longrightarrow> sz_mul a b = a * b"
  by (simp add: sz_mul_def)

lemma sz_sub_wrap: "a < b \<Longrightarrow> b \<le> size_limit \<Longrightarrow> sz_sub a b = a + size_limit - b"
  by (simp add: sz_sub_def)

lemma sz_less_limit [simp]:
  "sz_add a b < size_limit" "sz_sub a b < size_limit" "sz_mul a b < size_limit"
  by (simp_all add: sz_add_def sz_sub_def sz_mul_def)

subsection \<open>Faults and fallible code\<close>

datatype fault =
    Assert_Failed
  | Unreachable_Hit
  | Null_Deref
  | Bad_Index
  | Diverges

type_synonym 'a res = "fault + 'a"

definition res_bind :: "'a res \<Rightarrow> ('a \<Rightarrow> 'b res) \<Rightarrow> 'b res" where
  "res_bind m f = (case m of Inl e \<Rightarrow> Inl e | Inr x \<Rightarrow> f x)"

lemma res_bind_simps [simp, res_simps]:
  "res_bind (Inl e) f = Inl e"
  "res_bind (Inr x) f = f x"
  by (simp_all add: res_bind_def)

lemma res_bind_Inr [res_simps]:
  "res_bind m f = Inr y \<longleftrightarrow> (\<exists>x. m = Inr x \<and> f x = Inr y)"
  by (cases m) auto

lemma res_bind_assoc: "res_bind (res_bind m f) g = res_bind m (\<lambda>x. res_bind (f x) g)"
  by (cases m) auto

text \<open>A bounded loop over a list of indices whose body may fault.\<close>

primrec res_fold :: "('a \<Rightarrow> 's \<Rightarrow> 's res) \<Rightarrow> 'a list \<Rightarrow> 's \<Rightarrow> 's res" where
  "res_fold f [] s = Inr s"
| "res_fold f (x # xs) s = res_bind (f x s) (res_fold f xs)"

lemma res_fold_append: "res_fold f (xs @ ys) s = res_bind (res_fold f xs s) (res_fold f ys)"
  by (induction xs arbitrary: s) (auto simp: res_bind_assoc res_bind_def split: sum.split)

subsection \<open>Searches\<close>

lemma find_append: "find P (xs @ ys) = (case find P xs of None \<Rightarrow> find P ys | Some x \<Rightarrow> Some x)"
  by (induction xs) auto

lemma find_none: "\<forall>x \<in> set xs. \<not> P x \<Longrightarrow> find P xs = None"
  by (induction xs) auto

subsection \<open>Linked structures on a heap\<close>

primrec linked :: "('p \<Rightarrow> 'p option) \<Rightarrow> 'p option \<Rightarrow> 'p list \<Rightarrow> bool" where
  "linked nx p [] = (p = None)"
| "linked nx p (x # xs) = (p = Some x \<and> linked nx (nx x) xs)"

primrec segment :: "('p \<Rightarrow> 'p option) \<Rightarrow> 'p option \<Rightarrow> 'p list \<Rightarrow> 'p option \<Rightarrow> bool" where
  "segment nx p [] q = (p = q)"
| "segment nx p (x # xs) q = (p = Some x \<and> segment nx (nx x) xs q)"

lemma segment_append:
  "segment nx p (xs @ ys) q \<longleftrightarrow> (\<exists>r. segment nx p xs r \<and> segment nx r ys q)"
  by (induction xs arbitrary: p) auto

lemma linked_segment: "linked nx p xs \<longleftrightarrow> segment nx p xs None"
  by (induction xs arbitrary: p) auto

lemma linked_append:
  "linked nx p (xs @ ys) \<longleftrightarrow> (\<exists>r. segment nx p xs r \<and> linked nx r ys)"
  by (simp add: linked_segment segment_append)

lemma linked_None [simp]: "linked nx None xs \<longleftrightarrow> xs = []"
  by (cases xs) auto

lemma linked_Some: "linked nx (Some x) xs \<longleftrightarrow> (\<exists>ys. xs = x # ys \<and> linked nx (nx x) ys)"
  by (cases xs) auto

lemma segment_upd [simp]: "x \<notin> set xs \<Longrightarrow> segment (nx(x := v)) p xs q = segment nx p xs q"
  by (induction xs arbitrary: p) auto

lemma linked_upd [simp]: "x \<notin> set xs \<Longrightarrow> linked (nx(x := v)) p xs = linked nx p xs"
  by (simp add: linked_segment)

lemma linked_unique: "linked nx p xs \<Longrightarrow> linked nx p ys \<Longrightarrow> xs = ys"
  by (induction xs arbitrary: p ys) (auto simp: linked_Some)

lemma linked_distinct: "linked nx p xs \<Longrightarrow> distinct xs"
proof (induction xs arbitrary: p)
  case Nil
  then show ?case by simp
next
  case (Cons x xs)
  have "x \<notin> set xs"
  proof
    assume "x \<in> set xs"
    then obtain as bs where xs: "xs = as @ x # bs" by (meson split_list)
    with Cons.prems have "linked nx (nx x) bs" by (auto simp: linked_append)
    moreover from Cons.prems have "linked nx (nx x) xs" by simp
    ultimately have "xs = bs" using linked_unique by metis
    with xs show False by (metis append_Cons append_self_conv2 list.discI)
  qed
  with Cons show ?case by auto
qed

end
