(* ===== verification/Syslib_Maths.thy ===== *)
theory Syslib_Maths
  imports Kernel_Prelude
begin

unbundle bit_operations_syntax

text \<open>
  \<open>libs/np-syslib/include/Maths.h\<close>: alignment, clamping, byte swapping, the integer
  square root and the power-of-two test. The templates are instantiated at \<open>size_t\<close>
  (addresses and lengths of the kernel); the byte swaps keep their word widths. A division
  by zero is undefined in C++; the kernel calls these functions with non-zero alignments,
  which the theorems assume.
\<close>

subsection \<open>Alignment and clamping\<close>

definition AlignDown :: "size_t \<Rightarrow> size_t \<Rightarrow> size_t" where
  "AlignDown addr alignment = sz_mul (addr div alignment) alignment"

definition AlignUp :: "size_t \<Rightarrow> size_t \<Rightarrow> size_t" where
  "AlignUp addr alignment =
     sz_mul (sz_sub (sz_add addr alignment) 1 div alignment) alignment"

definition Min :: "size_t \<Rightarrow> size_t \<Rightarrow> size_t" where
  "Min a b = (if a < b then a else b)"

definition Max :: "size_t \<Rightarrow> size_t \<Rightarrow> size_t" where
  "Max a b = (if a > b then a else b)"

definition Clamp :: "size_t \<Rightarrow> size_t \<Rightarrow> size_t \<Rightarrow> size_t" where
  "Clamp v low high = (if v < low then low else if v > high then high else v)"

lemma Min_min [simp]: "Min a b = min a b"
  by (simp add: Min_def min_def)

lemma Max_max [simp]: "Max a b = max a b"
  by (simp add: Max_def max_def)

lemma AlignDown_plain [sz_simps]:
  "a < size_limit \<Longrightarrow> AlignDown a b = a div b * b"
  unfolding AlignDown_def
  by (rule sz_mul_eq) (meson div_times_less_eq_dividend le_less_trans)

lemma AlignUp_plain:
  assumes "0 < b" and "a + b \<le> size_limit"
  shows "AlignUp a b = (a + b - 1) div b * b"
proof -
  have sum: "sz_sub (sz_add a b) 1 = a + b - 1"
  proof (cases "a + b = size_limit")
    case True
    then show ?thesis by (simp add: sz_add_def sz_sub_def size_limit_def)
  next
    case False
    with assms show ?thesis by (simp add: sz_simps)
  qed
  have "(a + b - 1) div b * b \<le> a + b - 1" by simp
  also have "\<dots> < size_limit" using assms by linarith
  finally show ?thesis unfolding AlignUp_def sum by (rule sz_mul_eq)
qed

lemma AlignDown_le: "a < size_limit \<Longrightarrow> AlignDown a b \<le> a"
  by (simp add: AlignDown_plain)

lemma AlignDown_dvd: "a < size_limit \<Longrightarrow> b dvd AlignDown a b"
  by (simp add: AlignDown_plain)

lemma AlignDown_greatest:
  "a < size_limit \<Longrightarrow> 0 < b \<Longrightarrow> b dvd m \<Longrightarrow> m \<le> a \<Longrightarrow> m \<le> AlignDown a b"
  by (auto simp: AlignDown_plain dvd_def div_le_mono less_eq_div_iff_mult_less_eq
      mult.commute)

lemma AlignUp_dvd: "0 < b \<Longrightarrow> a + b \<le> size_limit \<Longrightarrow> b dvd AlignUp a b"
  by (simp add: AlignUp_plain)

lemma AlignUp_ge:
  assumes "0 < b" and "a + b \<le> size_limit"
  shows "a \<le> AlignUp a b" "AlignUp a b < a + b"
proof -
  have "(a + b - 1) div b * b + (a + b - 1) mod b = a + b - 1"
    by (rule div_mult_mod_eq)
  moreover have "(a + b - 1) mod b < b" using assms by simp
  ultimately show "a \<le> AlignUp a b" "AlignUp a b < a + b"
    using assms unfolding AlignUp_plain [OF assms] by linarith+
qed

lemma AlignUp_least:
  assumes "0 < b" and "a + b \<le> size_limit" and "b dvd m" and "a \<le> m"
  shows "AlignUp a b \<le> m"
proof (rule ccontr)
  assume "\<not> AlignUp a b \<le> m"
  moreover have "b dvd AlignUp a b" using assms by (simp add: AlignUp_dvd)
  ultimately have "b \<le> AlignUp a b - m"
    using assms(3) by (simp add: dvd_imp_le)
  moreover have "m < AlignUp a b" using \<open>\<not> AlignUp a b \<le> m\<close> by simp
  ultimately have "m + b \<le> AlignUp a b" by linarith
  moreover have "AlignUp a b < a + b" using assms AlignUp_ge by blast
  ultimately show False using assms(4) by linarith
qed

lemma AlignUp_aligned: "0 < b \<Longrightarrow> a + b \<le> size_limit \<Longrightarrow> b dvd a \<Longrightarrow> AlignUp a b = a"
  by (meson AlignUp_ge(1) AlignUp_least le_antisym order_refl)

lemma AlignUp_zero [simp]: "0 < b \<Longrightarrow> b \<le> size_limit \<Longrightarrow> AlignUp 0 b = 0"
  by (simp add: AlignUp_aligned)

subsection \<open>Byte swapping\<close>

definition ByteSwap16 :: "u16 \<Rightarrow> u16" where
  "ByteSwap16 x = push_bit 8 x OR drop_bit 8 x"

definition ByteSwap32 :: "u32 \<Rightarrow> u32" where
  "ByteSwap32 x =
     push_bit 24 (x AND 0xFF) OR push_bit 8 (x AND 0xFF00)
     OR drop_bit 8 (x AND 0xFF0000) OR drop_bit 24 (x AND 0xFF000000)"

definition ByteSwap64 :: "u64 \<Rightarrow> u64" where
  "ByteSwap64 x =
     push_bit 56 (x AND 0xFF) OR push_bit 40 (x AND 0xFF00)
     OR push_bit 24 (x AND 0xFF0000) OR push_bit 8 (x AND 0xFF000000)
     OR drop_bit 8 (x AND 0xFF00000000) OR drop_bit 24 (x AND 0xFF0000000000)
     OR drop_bit 40 (x AND 0xFF000000000000) OR drop_bit 56 (x AND 0xFF00000000000000)"

text \<open>
  The endianness conversions are the identity or a byte swap, by the byte order of the
  host (\<open>__BYTE_ORDER__\<close>), which is a parameter.
\<close>

datatype byte_order = Little_Endian | Big_Endian

definition LeToHost16 :: "byte_order \<Rightarrow> u16 \<Rightarrow> u16" where
  "LeToHost16 host x = (if host = Little_Endian then x else ByteSwap16 x)"

definition HostToLe16 :: "byte_order \<Rightarrow> u16 \<Rightarrow> u16" where
  "HostToLe16 host x = LeToHost16 host x"

definition BeToHost16 :: "byte_order \<Rightarrow> u16 \<Rightarrow> u16" where
  "BeToHost16 host x = (if host = Big_Endian then x else ByteSwap16 x)"

definition HostToBe16 :: "byte_order \<Rightarrow> u16 \<Rightarrow> u16" where
  "HostToBe16 host x = BeToHost16 host x"

definition LeToHost32 :: "byte_order \<Rightarrow> u32 \<Rightarrow> u32" where
  "LeToHost32 host x = (if host = Little_Endian then x else ByteSwap32 x)"

definition HostToLe32 :: "byte_order \<Rightarrow> u32 \<Rightarrow> u32" where
  "HostToLe32 host x = LeToHost32 host x"

definition BeToHost32 :: "byte_order \<Rightarrow> u32 \<Rightarrow> u32" where
  "BeToHost32 host x = (if host = Big_Endian then x else ByteSwap32 x)"

definition HostToBe32 :: "byte_order \<Rightarrow> u32 \<Rightarrow> u32" where
  "HostToBe32 host x = BeToHost32 host x"

definition LeToHost64 :: "byte_order \<Rightarrow> u64 \<Rightarrow> u64" where
  "LeToHost64 host x = (if host = Little_Endian then x else ByteSwap64 x)"

definition HostToLe64 :: "byte_order \<Rightarrow> u64 \<Rightarrow> u64" where
  "HostToLe64 host x = LeToHost64 host x"

definition BeToHost64 :: "byte_order \<Rightarrow> u64 \<Rightarrow> u64" where
  "BeToHost64 host x = (if host = Big_Endian then x else ByteSwap64 x)"

definition HostToBe64 :: "byte_order \<Rightarrow> u64 \<Rightarrow> u64" where
  "HostToBe64 host x = BeToHost64 host x"

text \<open>A byte swap keeps the position within the byte and mirrors the byte's index.\<close>

lemma upt_0_rec:
  "[0..<numeral k] = 0 # [1..<numeral k]"
  "[Suc 0..<numeral k] = (if 1 < (numeral k :: nat) then 1 # [2..<numeral k] else [])"
  by (simp_all add: upt_rec numeral_2_eq_2)

lemma bit_beyond: "LENGTH('a) \<le> n \<Longrightarrow> \<not> bit (w :: 'a::len word) n"
  using bit_imp_le_length not_less by blast

lemma ByteSwap16_bit:
  assumes "n < 16"
  shows "bit (ByteSwap16 x) n = bit x (8 - 8 * (n div 8) + n mod 8)"
proof -
  have "list_all (\<lambda>n. bit (ByteSwap16 x) n = bit x (8 - 8 * (n div 8) + n mod 8)) [0..<16]"
    unfolding ByteSwap16_def by (simp add: upt_0_rec upt_rec_numeral bit_simps bit_beyond flip: numeral_2_eq_2)
  with assms show ?thesis by (simp add: list_all_iff)
qed

lemma ByteSwap32_bit:
  assumes "n < 32"
  shows "bit (ByteSwap32 x) n = bit x (24 - 8 * (n div 8) + n mod 8)"
proof -
  have "list_all (\<lambda>n. bit (ByteSwap32 x) n = bit x (24 - 8 * (n div 8) + n mod 8)) [0..<32]"
    unfolding ByteSwap32_def by (simp add: upt_0_rec upt_rec_numeral bit_simps bit_beyond flip: numeral_2_eq_2)
  with assms show ?thesis by (simp add: list_all_iff)
qed

lemma ByteSwap64_bit:
  assumes "n < 64"
  shows "bit (ByteSwap64 x) n = bit x (56 - 8 * (n div 8) + n mod 8)"
proof -
  have "list_all (\<lambda>n. bit (ByteSwap64 x) n = bit x (56 - 8 * (n div 8) + n mod 8)) [0..<64]"
    unfolding ByteSwap64_def by (simp add: upt_0_rec upt_rec_numeral bit_simps bit_beyond flip: numeral_2_eq_2)
  with assms show ?thesis by (simp add: list_all_iff)
qed

lemma mirror_index:
  assumes "n < 8 * Suc k"
  defines "m \<equiv> 8 * k - 8 * (n div 8) + n mod 8"
  shows "m < 8 * Suc k" "8 * k - 8 * (m div 8) + m mod 8 = n"
proof -
  have "n div 8 < Suc k"
    using assms(1) by (metis less_mult_imp_div_less mult.commute)
  then have le: "n div 8 \<le> k" by simp
  then have "m = (k - n div 8) * 8 + n mod 8" by (simp add: m_def algebra_simps diff_mult_distrib2)
  then have "m div 8 = k - n div 8" "m mod 8 = n mod 8" by simp_all
  with le show "8 * k - 8 * (m div 8) + m mod 8 = n" by (simp add: diff_mult_distrib2)
  from le show "m < 8 * Suc k" unfolding m_def by (simp add: add_le_less_mono)
qed

lemma ByteSwap16_invol: "ByteSwap16 (ByteSwap16 x) = x"
  using mirror_index [of _ 1] by (intro bit_word_eqI) (simp add: ByteSwap16_bit)

lemma ByteSwap32_invol: "ByteSwap32 (ByteSwap32 x) = x"
  using mirror_index [of _ 3] by (intro bit_word_eqI) (simp add: ByteSwap32_bit)

lemma ByteSwap64_invol: "ByteSwap64 (ByteSwap64 x) = x"
  using mirror_index [of _ 7] by (intro bit_word_eqI) (simp add: ByteSwap64_bit)

text \<open>On every host one of the two orders is the identity and the other swaps the bytes.\<close>

lemma endian_roundtrip:
  "HostToBe16 h (BeToHost16 h x) = x" "HostToLe16 h (LeToHost16 h x) = x"
  "HostToBe32 h (BeToHost32 h y) = y" "HostToLe32 h (LeToHost32 h y) = y"
  "HostToBe64 h (BeToHost64 h z) = z" "HostToLe64 h (LeToHost64 h z) = z"
  by (simp_all add: HostToBe16_def BeToHost16_def HostToLe16_def LeToHost16_def HostToBe32_def
      BeToHost32_def HostToLe32_def LeToHost32_def HostToBe64_def BeToHost64_def HostToLe64_def
      LeToHost64_def ByteSwap16_invol ByteSwap32_invol ByteSwap64_invol)

subsection \<open>Square root and powers of two\<close>

text \<open>
  The loop of \<open>SquareRoot\<close> with its three variables. The values stay below \<open>size_limit\<close>
  (\<open>left\<close>, \<open>right\<close> and \<open>mid\<close> never exceed \<open>value / 2 + 2\<close>) and \<open>right\<close> is at least
  \<open>mid - 1 \<ge> 0\<close>, so no operator wraps.
\<close>

function sqrt_loop :: "size_t \<Rightarrow> size_t \<Rightarrow> size_t \<Rightarrow> size_t \<Rightarrow> size_t" where
  "sqrt_loop v left right result =
     (if left \<le> right
      then let mid = left + (right - left) div 2
           in if mid \<le> v div mid then sqrt_loop v (mid + 1) right mid
              else sqrt_loop v left (mid - 1) result
      else result)"
  by auto
termination
  by (relation "measure (\<lambda>(v, left, right, result). Suc right - left)") (auto simp: Let_def)

definition SquareRoot :: "size_t \<Rightarrow> size_t" where
  "SquareRoot v = (if v = 0 then 0 else sqrt_loop v 1 (v div 2 + 1) 0)"

declare sqrt_loop.simps [simp del]

lemma le_div_self: "0 < m \<Longrightarrow> m \<le> v div m \<longleftrightarrow> m * m \<le> (v :: nat)"
  by (simp add: less_eq_div_iff_mult_less_eq)

lemma sqrt_loop_correct:
  assumes "0 < left" "left \<le> right + 1" "result = left - 1"
    and "result * result \<le> v" "v < (right + 1) * (right + 1)"
  shows "let s = sqrt_loop v left right result in s * s \<le> v \<and> v < (s + 1) * (s + 1)"
  using assms
proof (induction v left right result rule: sqrt_loop.induct)
  case (1 v left right result)
  define mid where "mid = left + (right - left) div 2"
  show ?case
  proof (cases "left \<le> right")
    case False
    with "1.prems" have "left = right + 1" "result = right" by simp_all
    with "1.prems" show ?thesis by (subst sqrt_loop.simps) simp
  next
    case True
    then have mid: "0 < mid" "left \<le> mid" "mid \<le> right" using "1.prems" by (auto simp: mid_def)
    show ?thesis
    proof (cases "mid * mid \<le> v")
      case True
      then show ?thesis
        using "1.IH"(1) [OF \<open>left \<le> right\<close> mid_def] mid "1.prems"
        by (subst sqrt_loop.simps) (simp add: \<open>left \<le> right\<close> le_div_self flip: mid_def)
    next
      case False
      then have "left \<le> mid - 1 + 1" "v < (mid - 1 + 1) * (mid - 1 + 1)" using mid by simp_all
      then show ?thesis
        using "1.IH"(2) [OF \<open>left \<le> right\<close> mid_def] mid "1.prems" False
        by (subst sqrt_loop.simps) (simp add: \<open>left \<le> right\<close> le_div_self flip: mid_def)
    qed
  qed
qed

lemma half_square: "(v::nat) < (v div 2 + 1 + 1) * (v div 2 + 1 + 1)"
proof -
  have "v < (v div 2 + 1 + 1) * 2" by simp
  also have "\<dots> \<le> (v div 2 + 1 + 1) * (v div 2 + 1 + 1)" by (intro mult_le_mono2) simp
  finally show ?thesis .
qed

lemma SquareRoot_floor: "SquareRoot v * SquareRoot v \<le> v \<and> v < (SquareRoot v + 1) * (SquareRoot v + 1)"
  using sqrt_loop_correct [of 1 "v div 2 + 1" 0 v] half_square [of v]
  by (simp add: SquareRoot_def Let_def)

definition IsPowerOfTwo :: "u64 \<Rightarrow> bool" where
  "IsPowerOfTwo test = (test \<noteq> 0 \<and> test AND (test - 1) = 0)"

lemma and_pred_nat: "n > 0 \<Longrightarrow> n AND (n - 1) = 0 \<longleftrightarrow> (\<exists>k. n = 2 ^ k)" for n :: nat
proof (induction n rule: less_induct)
  case (less n)
  show ?case
  proof (cases "even n")
    case True
    then obtain m where n: "n = 2 * m" by blast
    with less.prems have m: "0 < m" "m < n" by auto
    have "(n - 1) div 2 = m - 1" "n div 2 = m" using m n by linarith+
    then have "n AND (n - 1) = 2 * (m AND (m - 1))"
      using True by (subst and_rec) simp
    then have "n AND (n - 1) = 0 \<longleftrightarrow> (\<exists>k. m = 2 ^ k)" using less.IH m by simp
    also have "\<dots> \<longleftrightarrow> (\<exists>k. n = 2 ^ k)"
      using n True less.prems
      by (metis even_power even_Suc nat_mult_eq_cancel1 not0_implies_Suc odd_one power_0 power_Suc
          zero_less_numeral)
    finally show ?thesis .
  next
    case False
    then obtain m where n: "n = 2 * m + 1" using oddE by blast
    then have "n AND (n - 1) = 2 * m" by (subst and_rec) auto
    moreover have "(\<exists>k. n = 2 ^ k) \<longleftrightarrow> n = 1"
      using False by (metis even_power bot_nat_0.not_eq_extremum even_numeral power_0)
    ultimately show ?thesis using n by simp
  qed
qed

lemma IsPowerOfTwo_iff: "IsPowerOfTwo x \<longleftrightarrow> (\<exists>k. unat x = 2 ^ k)"
proof (cases "x = 0")
  case True
  then show ?thesis by (simp add: IsPowerOfTwo_def)
next
  case False
  then have "unat x > 0" "unat (x - 1) = unat x - 1"
    by (simp_all add: unat_gt_0 unat_minus_one)
  moreover have "x AND (x - 1) = 0 \<longleftrightarrow> unat x AND unat (x - 1) = 0"
    by (metis unat_eq_zero unsigned_and_eq)
  ultimately show ?thesis using False and_pred_nat [of "unat x"] by (simp add: IsPowerOfTwo_def)
qed

subsection \<open>Properties\<close>

text \<open>For a non-zero alignment and an address whose rounding does not leave the address
  space, \<open>AlignDown\<close> is the greatest multiple not above the address and \<open>AlignUp\<close> the least
  multiple not below it.\<close>

lemma align_correct:
  assumes "0 < b" and "a + b \<le> size_limit"
  shows "b dvd AlignDown a b \<and> AlignDown a b \<le> a \<and> (\<forall>m. b dvd m \<and> m \<le> a \<longrightarrow> m \<le> AlignDown a b) \<and>
    b dvd AlignUp a b \<and> a \<le> AlignUp a b \<and> (\<forall>m. b dvd m \<and> a \<le> m \<longrightarrow> AlignUp a b \<le> m)"
  using assms AlignUp_ge [OF assms] by (simp add: AlignDown_dvd AlignDown_le AlignDown_greatest AlignUp_dvd AlignUp_least)

lemma align_correct_example: "AlignDown 0x1234 0x1000 \<le> 0x1234 \<and> 0x1000 dvd AlignUp 0x1234 0x1000"
  using align_correct [of "0x1000" "0x1234"] by (simp add: size_limit_def)

text \<open>\<open>SquareRoot\<close> returns the integer part of the square root of every value.\<close>

lemma SquareRoot_correct:
  "SquareRoot v * SquareRoot v \<le> v \<and> v < (SquareRoot v + 1) * (SquareRoot v + 1)"
  by (rule SquareRoot_floor)

text \<open>Converting from big or little endian to the host's order and back is the identity at
  every width and on both kinds of host.\<close>

lemma endian_roundtrip_all:
  "HostToBe16 h (BeToHost16 h x) = x \<and> HostToLe16 h (LeToHost16 h x) = x \<and>
   HostToBe32 h (BeToHost32 h y) = y \<and> HostToLe32 h (LeToHost32 h y) = y \<and>
   HostToBe64 h (BeToHost64 h z) = z \<and> HostToLe64 h (LeToHost64 h z) = z"
  by (simp add: endian_roundtrip)

end
