(* ===== verification/RB_Tree.thy ===== *)
theory RB_Tree
  imports Kernel_Prelude "HOL-Library.Monad_Syntax"
begin

text \<open>
  \<open>libs/np-syslib/include/containers/RBTree.h\<close>: the intrusive red-black tree that the virtual
  memory manager, the interrupt router and the file cache are built on. The hooks live in an
  explicit store that maps the address of a node to its hook; the data of the nodes is a second
  store that only the aggregator writes. An operation returns \<open>None\<close> if it dereferences \<open>nullptr\<close> or
  does not return. The aggregator \<open>A\<close> of the template is an argument: what \<open>A::Aggregate\<close> returns,
  and the data it leaves in the node, as a function of the hooks and the data.
\<close>

subsection \<open>Hooks and trees\<close>

datatype rb_color = Null | Red | Black

record 'p rb_hook =
  hk_parent :: "'p option"
  hk_left :: "'p option"
  hk_right :: "'p option"
  hk_predecessor :: "'p option"
  hk_successor :: "'p option"
  hk_color :: rb_color

definition HookStruct :: "'p rb_hook" where
  "HookStruct = \<lparr> hk_parent = None, hk_left = None, hk_right = None, hk_predecessor = None,
     hk_successor = None, hk_color = Null \<rparr>"

record ('p, 'd) rb_tree =
  rb_root :: "'p option"
  rb_hooks :: "'p \<Rightarrow> 'p rb_hook"
  rb_data :: "'p \<Rightarrow> 'd"

type_synonym ('p, 'd) aggregator = "('p \<Rightarrow> 'p rb_hook) \<Rightarrow> ('p \<Rightarrow> 'd) \<Rightarrow> 'p \<Rightarrow> bool \<times> 'd"

definition NullAggregator :: "('p, 'd) aggregator" where
  "NullAggregator hooks dat node = (False, dat node)"

definition hk :: "('p, 'd) rb_tree \<Rightarrow> 'p option \<Rightarrow> 'p rb_hook option" where
  "hk s item = (case item of None \<Rightarrow> None | Some a \<Rightarrow> Some (rb_hooks s a))"

definition hk_upd ::
  "'p option \<Rightarrow> ('p rb_hook \<Rightarrow> 'p rb_hook) \<Rightarrow> ('p, 'd) rb_tree \<Rightarrow> ('p, 'd) rb_tree option" where
  "hk_upd item f s =
     (case item of None \<Rightarrow> None
      | Some a \<Rightarrow> Some (s\<lparr> rb_hooks := (rb_hooks s)(a := f (rb_hooks s a)) \<rparr>))"

definition GetParent :: "('p, 'd) rb_tree \<Rightarrow> 'p option \<Rightarrow> 'p option option" where
  "GetParent s item = map_option hk_parent (hk s item)"

definition GetLeft :: "('p, 'd) rb_tree \<Rightarrow> 'p option \<Rightarrow> 'p option option" where
  "GetLeft s item = map_option hk_left (hk s item)"

definition GetRight :: "('p, 'd) rb_tree \<Rightarrow> 'p option \<Rightarrow> 'p option option" where
  "GetRight s item = map_option hk_right (hk s item)"

definition Predecessor :: "('p, 'd) rb_tree \<Rightarrow> 'p option \<Rightarrow> 'p option option" where
  "Predecessor s item = map_option hk_predecessor (hk s item)"

definition Successor :: "('p, 'd) rb_tree \<Rightarrow> 'p option \<Rightarrow> 'p option option" where
  "Successor s item = map_option hk_successor (hk s item)"

definition get_color :: "('p, 'd) rb_tree \<Rightarrow> 'p option \<Rightarrow> rb_color option" where
  "get_color s item = map_option hk_color (hk s item)"

definition set_color :: "'p option \<Rightarrow> rb_color \<Rightarrow> ('p, 'd) rb_tree \<Rightarrow> ('p, 'd) rb_tree option" where
  "set_color item c s = hk_upd item (\<lambda>k. k\<lparr> hk_color := c \<rparr>) s"

definition IsRed :: "('p, 'd) rb_tree \<Rightarrow> 'p option \<Rightarrow> bool" where
  "IsRed s node = (case node of None \<Rightarrow> False | Some a \<Rightarrow> hk_color (rb_hooks s a) = Red)"

definition IsBlack :: "('p, 'd) rb_tree \<Rightarrow> 'p option \<Rightarrow> bool" where
  "IsBlack s node = (case node of None \<Rightarrow> True | Some a \<Rightarrow> hk_color (rb_hooks s a) = Black)"

partial_function (option) leftmost :: "('p, 'd) rb_tree \<Rightarrow> 'p option \<Rightarrow> 'p option option" where
  "leftmost s current =
     do { l \<leftarrow> GetLeft s current;
          if l \<noteq> None then leftmost s l else Some current }"

definition First :: "('p, 'd) rb_tree \<Rightarrow> 'p option option" where
  "First s = (if rb_root s = None then Some None else leftmost s (rb_root s))"

subsection \<open>Aggregation and rotations\<close>

definition AggregateNode ::
  "('p, 'd) aggregator \<Rightarrow> 'p option \<Rightarrow> ('p, 'd) rb_tree \<Rightarrow> ('p, 'd) rb_tree option" where
  "AggregateNode agg node s =
     (case node of None \<Rightarrow> None
      | Some a \<Rightarrow> Some (s\<lparr> rb_data := (rb_data s)(a := snd (agg (rb_hooks s) (rb_data s) a)) \<rparr>))"

partial_function (option) AggregatePath ::
  "('p, 'd) aggregator \<Rightarrow> 'p option \<Rightarrow> ('p, 'd) rb_tree \<Rightarrow> ('p, 'd) rb_tree option" where
  "AggregatePath agg current s =
     (case current of None \<Rightarrow> Some s
      | Some a \<Rightarrow>
          do { s1 \<leftarrow> AggregateNode agg current s;
               if \<not> fst (agg (rb_hooks s) (rb_data s) a) then Some s1
               else do { p \<leftarrow> GetParent s1 current; AggregatePath agg p s1 } })"

text \<open>The link from \<open>parent\<close>, or from the root, to \<open>node\<close> is redirected to \<open>new\<close>.\<close>

definition replace_child ::
  "'p option \<Rightarrow> 'p option \<Rightarrow> 'p option \<Rightarrow> ('p, 'd) rb_tree \<Rightarrow> ('p, 'd) rb_tree option" where
  "replace_child parent node new s =
     (if parent = None then Some (s\<lparr> rb_root := new \<rparr>)
      else do { l \<leftarrow> GetLeft s parent;
                if l = node then hk_upd parent (\<lambda>k. k\<lparr> hk_left := new \<rparr>) s
                else hk_upd parent (\<lambda>k. k\<lparr> hk_right := new \<rparr>) s })"

definition RotateLeft ::
  "('p, 'd) aggregator \<Rightarrow> 'p option \<Rightarrow> ('p, 'd) rb_tree \<Rightarrow> ('p, 'd) rb_tree option" where
  "RotateLeft agg n s =
     do { u \<leftarrow> GetParent s n;
          v \<leftarrow> GetLeft s n;
          w \<leftarrow> GetParent s u;
          s \<leftarrow> (if v \<noteq> None then hk_upd v (\<lambda>k. k\<lparr> hk_parent := u \<rparr>) s else Some s);
          s \<leftarrow> hk_upd u (\<lambda>k. k\<lparr> hk_right := v \<rparr>) s;
          s \<leftarrow> hk_upd u (\<lambda>k. k\<lparr> hk_parent := n \<rparr>) s;
          s \<leftarrow> hk_upd n (\<lambda>k. k\<lparr> hk_left := u \<rparr>) s;
          s \<leftarrow> hk_upd n (\<lambda>k. k\<lparr> hk_parent := w \<rparr>) s;
          s \<leftarrow> replace_child w u n s;
          s \<leftarrow> AggregateNode agg u s;
          AggregateNode agg n s }"

definition RotateRight ::
  "('p, 'd) aggregator \<Rightarrow> 'p option \<Rightarrow> ('p, 'd) rb_tree \<Rightarrow> ('p, 'd) rb_tree option" where
  "RotateRight agg n s =
     do { u \<leftarrow> GetParent s n;
          v \<leftarrow> GetRight s n;
          w \<leftarrow> GetParent s u;
          s \<leftarrow> (if v \<noteq> None then hk_upd v (\<lambda>k. k\<lparr> hk_parent := u \<rparr>) s else Some s);
          s \<leftarrow> hk_upd u (\<lambda>k. k\<lparr> hk_left := v \<rparr>) s;
          s \<leftarrow> hk_upd u (\<lambda>k. k\<lparr> hk_parent := n \<rparr>) s;
          s \<leftarrow> hk_upd n (\<lambda>k. k\<lparr> hk_right := u \<rparr>) s;
          s \<leftarrow> hk_upd n (\<lambda>k. k\<lparr> hk_parent := w \<rparr>) s;
          s \<leftarrow> replace_child w u n s;
          s \<leftarrow> AggregateNode agg u s;
          AggregateNode agg n s }"

subsection \<open>Insertion\<close>

partial_function (option) FixInsert ::
  "('p, 'd) aggregator \<Rightarrow> 'p option \<Rightarrow> ('p, 'd) rb_tree \<Rightarrow> ('p, 'd) rb_tree option" where
  "FixInsert agg n s =
     do { parent \<leftarrow> GetParent s n;
          if parent = None then set_color n Black s
          else do {
            s \<leftarrow> set_color n Red s;
            pc \<leftarrow> get_color s parent;
            if pc = Black then Some s
            else do {
              grand \<leftarrow> GetParent s parent;
              gl \<leftarrow> GetLeft s grand;
              gr \<leftarrow> GetRight s grand;
              if gl = parent \<and> IsRed s gr
              then do { s \<leftarrow> set_color grand Red s; s \<leftarrow> set_color parent Black s; s \<leftarrow> set_color gr Black s;
                        FixInsert agg grand s }
              else if gr = parent \<and> IsRed s gl
              then do { s \<leftarrow> set_color grand Red s; s \<leftarrow> set_color parent Black s; s \<leftarrow> set_color gl Black s;
                        FixInsert agg grand s }
              else if parent = gl
              then do {
                pr \<leftarrow> GetRight s parent;
                s \<leftarrow> (if n = pr
                     then do { s \<leftarrow> RotateLeft agg n s; s \<leftarrow> RotateRight agg n s; set_color n Black s }
                     else do { s \<leftarrow> RotateRight agg parent s; set_color parent Black s });
                set_color grand Red s }
              else do {
                pl \<leftarrow> GetLeft s parent;
                s \<leftarrow> (if n = pl
                     then do { s \<leftarrow> RotateRight agg n s; s \<leftarrow> RotateLeft agg n s; set_color n Black s }
                     else do { s \<leftarrow> RotateLeft agg parent s; set_color parent Black s });
                set_color grand Red s } } } }"

definition InsertRoot ::
  "('p, 'd) aggregator \<Rightarrow> 'p option \<Rightarrow> ('p, 'd) rb_tree \<Rightarrow> ('p, 'd) rb_tree option" where
  "InsertRoot agg node s =
     do { s \<leftarrow> AggregateNode agg node (s\<lparr> rb_root := node \<rparr>);
          FixInsert agg node s }"

definition InsertLeft ::
  "('p, 'd) aggregator \<Rightarrow> 'p option \<Rightarrow> 'p option \<Rightarrow> ('p, 'd) rb_tree \<Rightarrow> ('p, 'd) rb_tree option" where
  "InsertLeft agg parent node s =
     do { s \<leftarrow> hk_upd parent (\<lambda>k. k\<lparr> hk_left := node \<rparr>) s;
          s \<leftarrow> hk_upd node (\<lambda>k. k\<lparr> hk_parent := parent \<rparr>) s;
          pred \<leftarrow> Predecessor s parent;
          s \<leftarrow> (if pred \<noteq> None then hk_upd pred (\<lambda>k. k\<lparr> hk_successor := node \<rparr>) s else Some s);
          s \<leftarrow> hk_upd node (\<lambda>k. k\<lparr> hk_predecessor := pred \<rparr>) s;
          s \<leftarrow> hk_upd node (\<lambda>k. k\<lparr> hk_successor := parent \<rparr>) s;
          s \<leftarrow> hk_upd parent (\<lambda>k. k\<lparr> hk_predecessor := node \<rparr>) s;
          s \<leftarrow> AggregateNode agg node s;
          s \<leftarrow> AggregatePath agg parent s;
          FixInsert agg node s }"

definition InsertRight ::
  "('p, 'd) aggregator \<Rightarrow> 'p option \<Rightarrow> 'p option \<Rightarrow> ('p, 'd) rb_tree \<Rightarrow> ('p, 'd) rb_tree option" where
  "InsertRight agg parent node s =
     do { s \<leftarrow> hk_upd parent (\<lambda>k. k\<lparr> hk_right := node \<rparr>) s;
          s \<leftarrow> hk_upd node (\<lambda>k. k\<lparr> hk_parent := parent \<rparr>) s;
          succ \<leftarrow> Successor s parent;
          s \<leftarrow> hk_upd parent (\<lambda>k. k\<lparr> hk_successor := node \<rparr>) s;
          s \<leftarrow> hk_upd node (\<lambda>k. k\<lparr> hk_predecessor := parent \<rparr>) s;
          s \<leftarrow> hk_upd node (\<lambda>k. k\<lparr> hk_successor := succ \<rparr>) s;
          s \<leftarrow> (if succ \<noteq> None then hk_upd succ (\<lambda>k. k\<lparr> hk_predecessor := node \<rparr>) s else Some s);
          s \<leftarrow> AggregateNode agg node s;
          s \<leftarrow> AggregatePath agg parent s;
          FixInsert agg node s }"

text \<open>The descent of \<open>TreeStruct::Insert\<close>; \<open>lt\<close> is \<open>less\<close>, the comparison of two nodes.\<close>

partial_function (option) insert_loop ::
  "('p, 'd) aggregator \<Rightarrow> ('p \<Rightarrow> 'p \<Rightarrow> bool) \<Rightarrow> 'p \<Rightarrow> 'p \<Rightarrow> ('p, 'd) rb_tree \<Rightarrow> ('p, 'd) rb_tree option" where
  "insert_loop agg lt node current s =
     (if lt node current
      then do { l \<leftarrow> GetLeft s (Some current);
                case l of None \<Rightarrow> InsertLeft agg (Some current) (Some node) s
                | Some c \<Rightarrow> insert_loop agg lt node c s }
      else do { r \<leftarrow> GetRight s (Some current);
                case r of None \<Rightarrow> InsertRight agg (Some current) (Some node) s
                | Some c \<Rightarrow> insert_loop agg lt node c s })"

definition rb_Insert ::
  "('p, 'd) aggregator \<Rightarrow> ('p \<Rightarrow> 'p \<Rightarrow> bool) \<Rightarrow> 'p \<Rightarrow> ('p, 'd) rb_tree \<Rightarrow> ('p, 'd) rb_tree option" where
  "rb_Insert agg lt node s =
     (case rb_root s of None \<Rightarrow> InsertRoot agg (Some node) s
      | Some current \<Rightarrow> insert_loop agg lt node current s)"

partial_function (option) rightmost :: "('p, 'd) rb_tree \<Rightarrow> 'p option \<Rightarrow> 'p option option" where
  "rightmost s current =
     do { r \<leftarrow> GetRight s current;
          if r \<noteq> None then rightmost s r else Some current }"

text \<open>\<open>TreeOrderStruct::Insert\<close>: in front of a given node, or at the end.\<close>

definition rb_InsertBefore ::
  "('p, 'd) aggregator \<Rightarrow> 'p option \<Rightarrow> 'p option \<Rightarrow> ('p, 'd) rb_tree \<Rightarrow> ('p, 'd) rb_tree option" where
  "rb_InsertBefore agg before node s =
     (if before = None
      then if rb_root s = None then InsertRoot agg node s
           else do { current \<leftarrow> rightmost s (rb_root s); InsertRight agg current node s }
      else do { current \<leftarrow> GetLeft s before;
                if current = None then InsertLeft agg before node s
                else do { c \<leftarrow> rightmost s current; InsertRight agg c node s } })"

subsection \<open>Removal\<close>

partial_function (option) FixRemove ::
  "('p, 'd) aggregator \<Rightarrow> 'p option \<Rightarrow> ('p, 'd) rb_tree \<Rightarrow> ('p, 'd) rb_tree option" where
  "FixRemove agg n s =
     do { parent \<leftarrow> GetParent s n;
          if parent = None then Some s
          else do {
            pl \<leftarrow> GetLeft s parent;
            pr \<leftarrow> GetRight s parent;
            s \<leftarrow> (if pl = n
                 then do { c \<leftarrow> get_color s pr;
                           if c = Red
                           then do { s \<leftarrow> RotateLeft agg pr s; s \<leftarrow> set_color parent Red s; set_color pr Black s }
                           else Some s }
                 else do { c \<leftarrow> get_color s pl;
                           if c = Red
                           then do { s \<leftarrow> RotateRight agg pl s; s \<leftarrow> set_color parent Red s; set_color pl Black s }
                           else Some s });
            sib \<leftarrow> (if pl = n then GetRight s parent else GetLeft s parent);
            sl \<leftarrow> GetLeft s sib;
            sr \<leftarrow> GetRight s sib;
            pc \<leftarrow> get_color s parent;
            if IsBlack s sl \<and> IsBlack s sr
            then if pc = Black
                 then do { s \<leftarrow> set_color sib Red s; FixRemove agg parent s }
                 else do { s \<leftarrow> set_color parent Black s; set_color sib Red s }
            else do {
              pl \<leftarrow> GetLeft s parent;
              if pl = n
              then do {
                (sib, s) \<leftarrow>
                  (if IsRed s sl \<and> IsBlack s sr
                   then do { s \<leftarrow> RotateRight agg sl s; s \<leftarrow> set_color sib Red s; s \<leftarrow> set_color sl Black s; Some (sl, s) }
                   else Some (sib, s));
                s \<leftarrow> RotateLeft agg sib s;
                s \<leftarrow> set_color parent Black s;
                s \<leftarrow> set_color sib pc s;
                r \<leftarrow> GetRight s sib;
                set_color r Black s }
              else do {
                (sib, s) \<leftarrow>
                  (if IsRed s sr \<and> IsBlack s sl
                   then do { s \<leftarrow> RotateLeft agg sr s; s \<leftarrow> set_color sib Red s; s \<leftarrow> set_color sr Black s; Some (sr, s) }
                   else Some (sib, s));
                s \<leftarrow> RotateRight agg sib s;
                s \<leftarrow> set_color parent Black s;
                s \<leftarrow> set_color sib pc s;
                l \<leftarrow> GetLeft s sib;
                set_color l Black s } } } }"

definition clear_hook :: "'p option \<Rightarrow> ('p, 'd) rb_tree \<Rightarrow> ('p, 'd) rb_tree option" where
  "clear_hook node s =
     hk_upd node (\<lambda>k. k\<lparr> hk_left := None, hk_right := None, hk_parent := None,
                         hk_predecessor := None, hk_successor := None \<rparr>) s"

definition RemoveHalfLeaf ::
  "('p, 'd) aggregator \<Rightarrow> 'p option \<Rightarrow> 'p option \<Rightarrow> ('p, 'd) rb_tree \<Rightarrow> ('p, 'd) rb_tree option" where
  "RemoveHalfLeaf agg node child s =
     do { pred \<leftarrow> Predecessor s node;
          succ \<leftarrow> Successor s node;
          s \<leftarrow> (if pred \<noteq> None then hk_upd pred (\<lambda>k. k\<lparr> hk_successor := succ \<rparr>) s else Some s);
          s \<leftarrow> (if succ \<noteq> None then hk_upd succ (\<lambda>k. k\<lparr> hk_predecessor := pred \<rparr>) s else Some s);
          c \<leftarrow> get_color s node;
          s \<leftarrow> (if c = Black
               then if IsRed s child then set_color child Black s else FixRemove agg node s
               else Some s);
          parent \<leftarrow> GetParent s node;
          s \<leftarrow> replace_child parent node child s;
          s \<leftarrow> (if child \<noteq> None then hk_upd child (\<lambda>k. k\<lparr> hk_parent := parent \<rparr>) s else Some s);
          s \<leftarrow> clear_hook node s;
          if parent \<noteq> None then AggregatePath agg parent s else Some s }"

definition ReplaceNode ::
  "('p, 'd) aggregator \<Rightarrow> 'p option \<Rightarrow> 'p option \<Rightarrow> ('p, 'd) rb_tree \<Rightarrow> ('p, 'd) rb_tree option" where
  "ReplaceNode agg node replacement s =
     do { parent \<leftarrow> GetParent s node;
          left \<leftarrow> GetLeft s node;
          right \<leftarrow> GetRight s node;
          s \<leftarrow> replace_child parent node replacement s;
          s \<leftarrow> hk_upd replacement (\<lambda>k. k\<lparr> hk_parent := parent \<rparr>) s;
          c \<leftarrow> get_color s node;
          s \<leftarrow> set_color replacement c s;
          s \<leftarrow> hk_upd replacement (\<lambda>k. k\<lparr> hk_left := left \<rparr>) s;
          s \<leftarrow> (if left \<noteq> None then hk_upd left (\<lambda>k. k\<lparr> hk_parent := replacement \<rparr>) s else Some s);
          s \<leftarrow> hk_upd replacement (\<lambda>k. k\<lparr> hk_right := right \<rparr>) s;
          s \<leftarrow> (if right \<noteq> None then hk_upd right (\<lambda>k. k\<lparr> hk_parent := replacement \<rparr>) s else Some s);
          pred \<leftarrow> Predecessor s node;
          s \<leftarrow> (if pred \<noteq> None then hk_upd pred (\<lambda>k. k\<lparr> hk_successor := replacement \<rparr>) s else Some s);
          pred \<leftarrow> Predecessor s node;
          s \<leftarrow> hk_upd replacement (\<lambda>k. k\<lparr> hk_predecessor := pred \<rparr>) s;
          succ \<leftarrow> Successor s node;
          s \<leftarrow> hk_upd replacement (\<lambda>k. k\<lparr> hk_successor := succ \<rparr>) s;
          s \<leftarrow> (if succ \<noteq> None then hk_upd succ (\<lambda>k. k\<lparr> hk_predecessor := replacement \<rparr>) s else Some s);
          s \<leftarrow> clear_hook node s;
          s \<leftarrow> AggregateNode agg replacement s;
          AggregatePath agg parent s }"

definition rb_Remove ::
  "('p, 'd) aggregator \<Rightarrow> 'p option \<Rightarrow> ('p, 'd) rb_tree \<Rightarrow> ('p, 'd) rb_tree option" where
  "rb_Remove agg node s =
     do { leftPtr \<leftarrow> GetLeft s node;
          rightPtr \<leftarrow> GetRight s node;
          if leftPtr = None then RemoveHalfLeaf agg node rightPtr s
          else if rightPtr = None then RemoveHalfLeaf agg node leftPtr s
          else do {
            pred \<leftarrow> Predecessor s node;
            pl \<leftarrow> GetLeft s pred;
            s \<leftarrow> RemoveHalfLeaf agg pred pl s;
            ReplaceNode agg node pred s } }"

subsection \<open>The invariant check of the library\<close>

text \<open>
  The result is the black depth and the first and last node of the subtree, \<open>None\<close> inside if the check
  fails. \<open>check\<close> is \<open>A::CheckInvariant\<close>.
\<close>

partial_function (option) CheckInvariant ::
  "('p \<Rightarrow> bool) \<Rightarrow> ('p, 'd) rb_tree \<Rightarrow> 'p \<Rightarrow> (nat \<times> 'p \<times> 'p) option option" where
  "CheckInvariant check s node =
     do { l \<leftarrow> GetLeft s (Some node);
          r \<leftarrow> GetRight s (Some node);
          c \<leftarrow> get_color s (Some node);
          if c = Red \<and> (\<not> IsBlack s l \<or> \<not> IsBlack s r) then Some None
          else do {
            lres \<leftarrow> (case l of None \<Rightarrow> Some (Some (0, node))
                    | Some ln \<Rightarrow>
                        do { x \<leftarrow> CheckInvariant check s ln;
                             case x of None \<Rightarrow> Some None
                             | Some (d, minimal, pred) \<Rightarrow>
                                 if hk_successor (rb_hooks s pred) \<noteq> Some node \<or>
                                    hk_predecessor (rb_hooks s node) \<noteq> Some pred
                                 then Some None else Some (Some (d, minimal)) });
            case lres of None \<Rightarrow> Some None
            | Some (ld, minimal) \<Rightarrow>
                do {
                  rres \<leftarrow> (case r of None \<Rightarrow> Some (Some (0, node))
                          | Some rn \<Rightarrow>
                              do { x \<leftarrow> CheckInvariant check s rn;
                                   case x of None \<Rightarrow> Some None
                                   | Some (d, succ, maximal) \<Rightarrow>
                                       if hk_successor (rb_hooks s node) \<noteq> Some succ \<or>
                                          hk_predecessor (rb_hooks s succ) \<noteq> Some node
                                       then Some None else Some (Some (d, maximal)) });
                  case rres of None \<Rightarrow> Some None
                  | Some (rd, maximal) \<Rightarrow>
                      if ld \<noteq> rd then Some None
                      else if \<not> check node then Some None
                      else Some (Some (if c = Black then ld + 1 else ld, minimal, maximal)) } } }"

subsection \<open>Trees in the store\<close>

datatype 'p rbt = Tip | Bin rb_color "'p rbt" 'p "'p rbt"

primrec ptr :: "'p rbt \<Rightarrow> 'p option" where
  "ptr Tip = None"
| "ptr (Bin c l a r) = Some a"

primrec inord :: "'p rbt \<Rightarrow> 'p list" where
  "inord Tip = []"
| "inord (Bin c l a r) = inord l @ a # inord r"

text \<open>The hooks of a subtree whose root has the given parent; the order links are described apart.\<close>

primrec tr :: "('p \<Rightarrow> 'p rb_hook) \<Rightarrow> 'p option \<Rightarrow> 'p rbt \<Rightarrow> bool" where
  "tr h par Tip = True"
| "tr h par (Bin c l a r) =
     (hk_parent (h a) = par \<and> hk_left (h a) = ptr l \<and> hk_right (h a) = ptr r \<and> hk_color (h a) = c \<and>
      tr h (Some a) l \<and> tr h (Some a) r)"

text \<open>
  The surroundings of a subtree, from its parent up to the root: the subtree is the left child of a
  node with a right sibling (\<open>LF\<close>), or the right child of a node with a left sibling (\<open>RF\<close>).
\<close>

datatype 'p frame = LF rb_color 'p "'p rbt" | RF rb_color "'p rbt" 'p

primrec fnode :: "'p frame \<Rightarrow> 'p" where
  "fnode (LF c x r) = x"
| "fnode (RF c l x) = x"

primrec fcol :: "'p frame \<Rightarrow> rb_color" where
  "fcol (LF c x r) = c"
| "fcol (RF c l x) = c"

primrec fnodes :: "'p frame \<Rightarrow> 'p list" where
  "fnodes (LF c x r) = x # inord r"
| "fnodes (RF c l x) = inord l @ [x]"

definition top_of :: "'p frame list \<Rightarrow> 'p option" where
  "top_of cs = (case cs of [] \<Rightarrow> None | f # _ \<Rightarrow> Some (fnode f))"

lemma top_of_simps [simp]: "top_of [] = None" "top_of (f # cs) = Some (fnode f)"
  by (simp_all add: top_of_def)

primrec plug1 :: "'p frame \<Rightarrow> 'p rbt \<Rightarrow> 'p rbt" where
  "plug1 (LF c x r) t = Bin c t x r"
| "plug1 (RF c l x) t = Bin c l x t"

primrec plug :: "'p rbt \<Rightarrow> 'p frame list \<Rightarrow> 'p rbt" where
  "plug t [] = t"
| "plug t (f # cs) = plug (plug1 f t) cs"

fun cx :: "('p \<Rightarrow> 'p rb_hook) \<Rightarrow> 'p option \<Rightarrow> 'p option \<Rightarrow> 'p frame list \<Rightarrow> bool" where
  "cx h root hole [] = (root = hole)"
| "cx h root hole (LF c x r # cs) =
     (hk_parent (h x) = top_of cs \<and> hk_left (h x) = hole \<and> hk_right (h x) = ptr r \<and> hk_color (h x) = c \<and>
      tr h (Some x) r \<and> cx h root (Some x) cs)"
| "cx h root hole (RF c l x # cs) =
     (hk_parent (h x) = top_of cs \<and> hk_left (h x) = ptr l \<and> hk_right (h x) = hole \<and> hk_color (h x) = c \<and>
      tr h (Some x) l \<and> cx h root (Some x) cs)"

definition cnodes :: "'p frame list \<Rightarrow> 'p list" where
  "cnodes cs = concat (map fnodes cs)"

lemma cnodes_simps [simp]: "cnodes [] = []" "cnodes (f # cs) = fnodes f @ cnodes cs"
  by (simp_all add: cnodes_def)

definition zip_ok :: "('p, 'd) rb_tree \<Rightarrow> 'p rbt \<Rightarrow> 'p frame list \<Rightarrow> bool" where
  "zip_ok s t cs \<longleftrightarrow> tr (rb_hooks s) (top_of cs) t \<and> cx (rb_hooks s) (rb_root s) (ptr t) cs \<and>
     distinct (inord t @ cnodes cs)"

lemma tr_upd [simp]: "a \<notin> set (inord t) \<Longrightarrow> tr (h(a := v)) par t = tr h par t"
  by (induction t arbitrary: par) auto

lemma cx_upd [simp]: "a \<notin> set (cnodes cs) \<Longrightarrow> cx (h(a := v)) root hole cs = cx h root hole cs"
  by (induction h root hole cs rule: cx.induct) auto

lemma cx_fnode_in [simp]: "fnode f \<in> set (fnodes f)"
  by (cases f) auto

text \<open>Operations that leave the order links alone.\<close>

definition same_order :: "('p, 'd) rb_tree \<Rightarrow> ('p, 'd) rb_tree \<Rightarrow> bool" where
  "same_order s s' \<longleftrightarrow> (\<forall>a. hk_predecessor (rb_hooks s' a) = hk_predecessor (rb_hooks s a) \<and>
     hk_successor (rb_hooks s' a) = hk_successor (rb_hooks s a))"

lemma same_order_refl [simp]: "same_order s s"
  by (simp add: same_order_def)

lemma same_order_trans [trans]: "same_order s s' \<Longrightarrow> same_order s' s'' \<Longrightarrow> same_order s s''"
  by (simp add: same_order_def)

lemmas hook_ops = hk_def hk_upd_def GetParent_def GetLeft_def GetRight_def get_color_def set_color_def
  Predecessor_def Successor_def AggregateNode_def IsRed_def IsBlack_def

lemma frame_cases:
  obtains "cs = []" | c x r cs' where "cs = LF c x r # cs'" | c l x cs' where "cs = RF c l x # cs'"
  by (metis frame.exhaust neq_Nil_conv)

lemma tr_cong: "\<forall>a \<in> set (inord t). h' a = h a \<Longrightarrow> tr h' par t = tr h par t"
  by (induction t arbitrary: par) auto

lemma cx_cong: "\<forall>a \<in> set (cnodes cs). h' a = h a \<Longrightarrow> cx h' root hole cs = cx h root hole cs"
proof (induction h root hole cs rule: cx.induct)
  case (2 h root hole c x r cs)
  then have "tr h' (Some x) r = tr h (Some x) r" by (intro tr_cong) auto
  with 2 show ?case by simp
next
  case (3 h root hole c l x cs)
  then have "tr h' (Some x) l = tr h (Some x) l" by (intro tr_cong) auto
  with 3 show ?case by simp
qed simp

lemma ptr_in: "ptr t = Some a \<Longrightarrow> a \<in> set (inord t)"
  by (cases t) auto

lemma replace_child_ok:
  assumes "cx (rb_hooks s) (rb_root s) (Some u) cs" "distinct (cnodes cs)" "u \<notin> set (cnodes cs)"
  shows "\<exists>s'. replace_child (top_of cs) (Some u) new s = Some s' \<and> cx (rb_hooks s') (rb_root s') new cs \<and>
    (\<forall>a. a \<notin> set (cnodes cs) \<longrightarrow> rb_hooks s' a = rb_hooks s a) \<and> same_order s s'"
proof (cases cs rule: frame_cases)
  case (3 c l x cs')
  with assms ptr_in [of l u] have "ptr l \<noteq> Some u" by auto
  with 3 assms show ?thesis by (simp add: replace_child_def hook_ops same_order_def)
qed (use assms in \<open>simp_all add: replace_child_def hook_ops same_order_def\<close>)

lemma RotateLeft_ok:
  assumes "zip_ok s (Bin c v n r) (RF cu l u # cs)"
  shows "\<exists>s'. RotateLeft agg (Some n) s = Some s' \<and> zip_ok s' (Bin c (Bin cu l u v) n r) cs \<and> same_order s s'"
proof -
  let ?h = "rb_hooks s"
  have p: "hk_parent (?h n) = Some u" "hk_left (?h n) = ptr v" "hk_parent (?h u) = top_of cs"
    using assms by (simp_all add: zip_ok_def)
  define hv where "hv = (case v of Tip \<Rightarrow> ?h | Bin _ _ a _ \<Rightarrow> ?h(a := (?h a)\<lparr> hk_parent := Some u \<rparr>))"
  define h1 where "h1 = hv(u := (hv u)\<lparr> hk_right := ptr v, hk_parent := Some n \<rparr>,
    n := (hv n)\<lparr> hk_left := Some u, hk_parent := top_of cs \<rparr>)"
  have nu: "n \<noteq> u" using assms by (auto simp: zip_ok_def)
  have red: "RotateLeft agg (Some n) s =
      do { s \<leftarrow> replace_child (top_of cs) (Some u) (Some n) (s\<lparr> rb_hooks := h1 \<rparr>);
           s \<leftarrow> AggregateNode agg (Some u) s; AggregateNode agg (Some n) s }"
    using nu p by (cases v) (auto simp: RotateLeft_def hook_ops h1_def hv_def fun_upd_twist)
  have out: "a \<notin> set (inord (Bin c v n r)) \<Longrightarrow> a \<noteq> u \<Longrightarrow> h1 a = ?h a" for a
    by (cases v) (auto simp: h1_def hv_def)
  have "\<forall>a \<in> set (cnodes cs). h1 a = ?h a"
    using assms by (intro ballI out) (auto simp: zip_ok_def)
  then have "cx h1 (rb_root s) (Some u) cs"
    using assms by (subst cx_cong [of cs h1 ?h]) (simp_all add: zip_ok_def)
  then obtain s1 where s1: "replace_child (top_of cs) (Some u) (Some n) (s\<lparr> rb_hooks := h1 \<rparr>) = Some s1"
    "cx (rb_hooks s1) (rb_root s1) (Some n) cs" "\<forall>a. a \<notin> set (cnodes cs) \<longrightarrow> rb_hooks s1 a = h1 a"
    "same_order (s\<lparr> rb_hooks := h1 \<rparr>) s1"
    using replace_child_ok [of "s\<lparr> rb_hooks := h1 \<rparr>" u cs "Some n"] assms by (auto simp: zip_ok_def)
  have t: "tr h1 (top_of cs) (Bin c (Bin cu l u v) n r)"
    using assms nu by (cases v) (auto simp: zip_ok_def h1_def hv_def)
  have "tr (rb_hooks s1) (top_of cs) (Bin c (Bin cu l u v) n r)"
    using assms s1(3) by (subst tr_cong [OF _, of _ _ h1]) (auto simp: zip_ok_def t [simplified])
  moreover have "same_order s (s\<lparr> rb_hooks := h1 \<rparr>)"
    using nu by (cases v) (auto simp: same_order_def h1_def hv_def)
  ultimately show ?thesis
    using s1 same_order_trans assms unfolding red
    by (auto simp: zip_ok_def AggregateNode_def same_order_def)
qed

lemma RotateRight_ok:
  assumes "zip_ok s (Bin c l n v) (LF cu u r # cs)"
  shows "\<exists>s'. RotateRight agg (Some n) s = Some s' \<and> zip_ok s' (Bin c l n (Bin cu v u r)) cs \<and> same_order s s'"
proof -
  let ?h = "rb_hooks s"
  have p: "hk_parent (?h n) = Some u" "hk_right (?h n) = ptr v" "hk_parent (?h u) = top_of cs"
    using assms by (simp_all add: zip_ok_def)
  define hv where "hv = (case v of Tip \<Rightarrow> ?h | Bin _ _ a _ \<Rightarrow> ?h(a := (?h a)\<lparr> hk_parent := Some u \<rparr>))"
  define h1 where "h1 = hv(u := (hv u)\<lparr> hk_left := ptr v, hk_parent := Some n \<rparr>,
    n := (hv n)\<lparr> hk_right := Some u, hk_parent := top_of cs \<rparr>)"
  have nu: "n \<noteq> u" using assms by (auto simp: zip_ok_def)
  have red: "RotateRight agg (Some n) s =
      do { s \<leftarrow> replace_child (top_of cs) (Some u) (Some n) (s\<lparr> rb_hooks := h1 \<rparr>);
           s \<leftarrow> AggregateNode agg (Some u) s; AggregateNode agg (Some n) s }"
    using nu p by (cases v) (auto simp: RotateRight_def hook_ops h1_def hv_def fun_upd_twist)
  have out: "a \<notin> set (inord (Bin c l n v)) \<Longrightarrow> a \<noteq> u \<Longrightarrow> h1 a = ?h a" for a
    by (cases v) (auto simp: h1_def hv_def)
  have "\<forall>a \<in> set (cnodes cs). h1 a = ?h a"
    using assms by (intro ballI out) (auto simp: zip_ok_def)
  then have "cx h1 (rb_root s) (Some u) cs"
    using assms by (subst cx_cong [of cs h1 ?h]) (simp_all add: zip_ok_def)
  then obtain s1 where s1: "replace_child (top_of cs) (Some u) (Some n) (s\<lparr> rb_hooks := h1 \<rparr>) = Some s1"
    "cx (rb_hooks s1) (rb_root s1) (Some n) cs" "\<forall>a. a \<notin> set (cnodes cs) \<longrightarrow> rb_hooks s1 a = h1 a"
    "same_order (s\<lparr> rb_hooks := h1 \<rparr>) s1"
    using replace_child_ok [of "s\<lparr> rb_hooks := h1 \<rparr>" u cs "Some n"] assms by (auto simp: zip_ok_def)
  have t: "tr h1 (top_of cs) (Bin c l n (Bin cu v u r))"
    using assms nu by (cases v) (auto simp: zip_ok_def h1_def hv_def)
  have "tr (rb_hooks s1) (top_of cs) (Bin c l n (Bin cu v u r))"
    using assms s1(3) by (subst tr_cong [OF _, of _ _ h1]) (auto simp: zip_ok_def t [simplified])
  moreover have "same_order s (s\<lparr> rb_hooks := h1 \<rparr>)"
    using nu by (cases v) (auto simp: same_order_def h1_def hv_def)
  ultimately show ?thesis
    using s1 same_order_trans assms unfolding red
    by (auto simp: zip_ok_def AggregateNode_def same_order_def)
qed

subsection \<open>Moving around\<close>

lemma ptr_plug1 [simp]: "ptr (plug1 f t) = Some (fnode f)"
  by (cases f) auto

lemma zip_up: "zip_ok s t (f # cs) \<longleftrightarrow> zip_ok s (plug1 f t) cs"
  by (cases f) (auto simp: zip_ok_def)

lemma zip_plug: "zip_ok s t cs \<longleftrightarrow> zip_ok s (plug t cs) []"
  by (induction cs arbitrary: t) (auto simp: zip_up)

lemma zip_read:
  assumes "zip_ok s (Bin c l n r) cs"
  shows "GetParent s (Some n) = Some (top_of cs)" "GetLeft s (Some n) = Some (ptr l)"
    "GetRight s (Some n) = Some (ptr r)" "get_color s (Some n) = Some c"
  using assms by (simp_all add: zip_ok_def hook_ops)

primrec is_red :: "'p rbt \<Rightarrow> bool" where
  "is_red Tip = False"
| "is_red (Bin c l a r) = (c = Red)"

primrec is_blk :: "'p rbt \<Rightarrow> bool" where
  "is_blk Tip = True"
| "is_blk (Bin c l a r) = (c = Black)"

lemma zip_colors: "zip_ok s t cs \<Longrightarrow> IsRed s (ptr t) = is_red t" "zip_ok s t cs \<Longrightarrow> IsBlack s (ptr t) = is_blk t"
  by (cases t; simp add: zip_ok_def hook_ops)+

lemma set_color_ok:
  assumes "zip_ok s (Bin c l n r) cs"
  shows "\<exists>s'. set_color (Some n) c' s = Some s' \<and> zip_ok s' (Bin c' l n r) cs \<and> same_order s s'"
  using assms by (auto simp: zip_ok_def hook_ops same_order_def)

lemma zip_distinct: "zip_ok s t cs \<Longrightarrow> distinct (inord t @ cnodes cs)"
  by (simp add: zip_ok_def)

text \<open>A subtree is determined by its root among the nodes of a tree.\<close>

lemma zip_ne: "zip_ok s (Bin c l n r) cs \<Longrightarrow> ptr l \<noteq> Some n \<and> ptr r \<noteq> Some n \<and> (ptr l = ptr r \<longrightarrow> l = Tip)"
  using ptr_in [of l n] ptr_in [of r n] by (cases l; cases r) (auto simp: zip_ok_def)

subsection \<open>Red-black trees\<close>

primrec bh :: "'p rbt \<Rightarrow> nat" where
  "bh Tip = 0"
| "bh (Bin c l a r) = bh l + (if c = Black then 1 else 0)"

primrec rbi :: "'p rbt \<Rightarrow> bool" where
  "rbi Tip = True"
| "rbi (Bin c l a r) =
     (c \<noteq> Null \<and> (c = Red \<longrightarrow> is_blk l \<and> is_blk r) \<and> bh l = bh r \<and> rbi l \<and> rbi r)"

primrec fsib :: "'p frame \<Rightarrow> 'p rbt" where
  "fsib (LF c x r) = r"
| "fsib (RF c l x) = l"

text \<open>Surroundings for a subtree of black height \<open>b\<close>; a red frame has a black one above it.\<close>

primrec cinv :: "nat \<Rightarrow> 'p frame list \<Rightarrow> bool" where
  "cinv b [] = True"
| "cinv b (f # cs) =
     (fcol f \<noteq> Null \<and> rbi (fsib f) \<and> bh (fsib f) = b \<and>
      (fcol f = Red \<longrightarrow> is_blk (fsib f) \<and> cs \<noteq> [] \<and> fcol (hd cs) = Black) \<and>
      cinv (b + (if fcol f = Black then 1 else 0)) cs)"

definition under_red :: "'p frame list \<Rightarrow> bool" where
  "under_red cs \<longleftrightarrow> (case cs of [] \<Rightarrow> False | f # _ \<Rightarrow> fcol f = Red)"

lemma under_red_simps [simp]: "\<not> under_red []" "under_red (f # cs) \<longleftrightarrow> fcol f = Red"
  by (simp_all add: under_red_def)

lemma red_or_black: "rbi t \<Longrightarrow> is_red t \<longleftrightarrow> \<not> is_blk t"
  by (cases t) (auto intro: rb_color.exhaust)

lemma plug_rbi:
  "rbi t \<Longrightarrow> cinv (bh t) cs \<Longrightarrow> (under_red cs \<longrightarrow> is_blk t) \<Longrightarrow>
   rbi (plug t cs) \<and> (cs \<noteq> [] \<or> is_blk t \<longrightarrow> is_blk (plug t cs))"
proof (induction cs arbitrary: t)
  case (Cons f cs)
  let ?t = "plug1 f t"
  have "rbi ?t" "bh ?t = bh t + (if fcol f = Black then 1 else 0)" "is_blk ?t \<longleftrightarrow> fcol f = Black"
    using Cons.prems by (cases f; auto)+
  moreover have "under_red cs \<longrightarrow> is_blk ?t"
    using Cons.prems(2) calculation(3) by (cases cs; cases "fcol f") auto
  moreover have "cs = [] \<longrightarrow> is_blk ?t" using Cons.prems(2) calculation(3) by (cases "fcol f") auto
  ultimately show ?case using Cons.IH [of ?t] Cons.prems(2) by auto
qed simp

definition rb_ok :: "'p rbt \<Rightarrow> bool" where
  "rb_ok t \<longleftrightarrow> rbi t \<and> is_blk t"

lemma inord_plug1: "inord t = inord t' \<Longrightarrow> inord (plug1 f t) = inord (plug1 f t')"
  by (cases f) auto

lemma inord_plug: "inord t = inord t' \<Longrightarrow> inord (plug t cs) = inord (plug t' cs)"
proof (induction cs arbitrary: t t')
  case (Cons f cs)
  show ?case using Cons.IH [OF inord_plug1 [OF Cons.prems]] by simp
qed simp

subsection \<open>Insertion keeps the tree balanced\<close>

text \<open>The outcome of rebalancing: a red-black tree with the same order of nodes.\<close>

definition rebalanced ::
  "('p, 'd) rb_tree \<Rightarrow> 'p list \<Rightarrow> ('p, 'd) rb_tree option \<Rightarrow> bool" where
  "rebalanced s xs res \<longleftrightarrow>
     (\<exists>s' T. res = Some s' \<and> zip_ok s' T [] \<and> inord T = xs \<and> rb_ok T \<and> same_order s s')"

lemma rebalancedI:
  assumes "res = Some s'" "zip_ok s' t cs" "inord (plug t cs) = xs" "rbi t" "cinv (bh t) cs"
    "under_red cs \<longrightarrow> is_blk t" "cs \<noteq> [] \<or> is_blk t" "same_order s s'"
  shows "rebalanced s xs res"
  using assms plug_rbi [OF assms(4-6)] zip_plug unfolding rebalanced_def rb_ok_def by blast

lemma rebalanced_step: "same_order s s' \<Longrightarrow> rebalanced s' xs res \<Longrightarrow> rebalanced s xs res"
  unfolding rebalanced_def using same_order_trans by blast

text \<open>The uncle of \<open>n\<close> is red: recolour and go on at the grandparent.\<close>

lemma recolour_left:
  assumes "zip_ok s (Bin cg (Bin cp t p u1) g (Bin cu a u b)) cs"
  shows "\<exists>s'. do { s \<leftarrow> set_color (Some g) Red s; s \<leftarrow> set_color (Some p) Black s; set_color (Some u) Black s } = Some s' \<and>
    zip_ok s' (Bin Red (Bin Black t p u1) g (Bin Black a u b)) cs \<and> same_order s s'"
proof -
  obtain s1 where 1: "set_color (Some g) Red s = Some s1" "same_order s s1"
    "zip_ok s1 (Bin Red (Bin cp t p u1) g (Bin cu a u b)) cs" using set_color_ok [OF assms] by blast
  then obtain s2 where 2: "set_color (Some p) Black s1 = Some s2" "same_order s1 s2"
    "zip_ok s2 (Bin Red (Bin Black t p u1) g (Bin cu a u b)) cs"
    using set_color_ok [of s1 cp t p u1 "LF Red g (Bin cu a u b) # cs"] by (auto simp: zip_up)
  then obtain s3 where 3: "set_color (Some u) Black s2 = Some s3" "same_order s2 s3"
    "zip_ok s3 (Bin Red (Bin Black t p u1) g (Bin Black a u b)) cs"
    using set_color_ok [of s2 cu a u b "RF Red (Bin Black t p u1) g # cs"] by (auto simp: zip_up)
  show ?thesis using 1 2 3 same_order_trans by (metis bind.bind_lunit)
qed

lemma recolour_right:
  assumes "zip_ok s (Bin cg (Bin cu a u b) g (Bin cp u1 p t)) cs"
  shows "\<exists>s'. do { s \<leftarrow> set_color (Some g) Red s; s \<leftarrow> set_color (Some p) Black s; set_color (Some u) Black s } = Some s' \<and>
    zip_ok s' (Bin Red (Bin Black a u b) g (Bin Black u1 p t)) cs \<and> same_order s s'"
proof -
  obtain s1 where 1: "set_color (Some g) Red s = Some s1" "same_order s s1"
    "zip_ok s1 (Bin Red (Bin cu a u b) g (Bin cp u1 p t)) cs" using set_color_ok [OF assms] by blast
  then obtain s2 where 2: "set_color (Some p) Black s1 = Some s2" "same_order s1 s2"
    "zip_ok s2 (Bin Red (Bin cu a u b) g (Bin Black u1 p t)) cs"
    using set_color_ok [of s1 cp u1 p t "RF Red (Bin cu a u b) g # cs"] by (auto simp: zip_up)
  then obtain s3 where 3: "set_color (Some u) Black s2 = Some s3" "same_order s2 s3"
    "zip_ok s3 (Bin Red (Bin Black a u b) g (Bin Black u1 p t)) cs"
    using set_color_ok [of s2 cu a u b "LF Red g (Bin Black u1 p t) # cs"] by (auto simp: zip_up)
  show ?thesis using 1 2 3 same_order_trans by (metis bind.bind_lunit)
qed

text \<open>The uncle is black: one or two rotations, then the colours of the new top and the grandparent.\<close>

lemma paint_right:
  assumes "zip_ok s (Bin c l n (Bin cg a g b)) cs"
  shows "\<exists>s'. do { s \<leftarrow> set_color (Some n) Black s; set_color (Some g) Red s } = Some s' \<and>
    zip_ok s' (Bin Black l n (Bin Red a g b)) cs \<and> same_order s s'"
proof -
  obtain s1 where 1: "set_color (Some n) Black s = Some s1" "same_order s s1"
    "zip_ok s1 (Bin Black l n (Bin cg a g b)) cs" using set_color_ok [OF assms] by blast
  then obtain s2 where "set_color (Some g) Red s1 = Some s2" "same_order s1 s2"
    "zip_ok s2 (Bin Black l n (Bin Red a g b)) cs"
    using set_color_ok [of s1 cg a g b "RF Black l n # cs"] by (auto simp: zip_up)
  with 1 show ?thesis using same_order_trans by (metis bind.bind_lunit)
qed

lemma paint_left:
  assumes "zip_ok s (Bin c (Bin cg a g b) n r) cs"
  shows "\<exists>s'. do { s \<leftarrow> set_color (Some n) Black s; set_color (Some g) Red s } = Some s' \<and>
    zip_ok s' (Bin Black (Bin Red a g b) n r) cs \<and> same_order s s'"
proof -
  obtain s1 where 1: "set_color (Some n) Black s = Some s1" "same_order s s1"
    "zip_ok s1 (Bin Black (Bin cg a g b) n r) cs" using set_color_ok [OF assms] by blast
  then obtain s2 where "set_color (Some g) Red s1 = Some s2" "same_order s1 s2"
    "zip_ok s2 (Bin Black (Bin Red a g b) n r) cs"
    using set_color_ok [of s1 cg a g b "LF Black n r # cs"] by (auto simp: zip_up)
  with 1 show ?thesis using same_order_trans by (metis bind.bind_lunit)
qed

lemma single_right:
  assumes "zip_ok s (Bin cg (Bin cp t p u1) g u) cs"
  shows "\<exists>s'. do { s \<leftarrow> RotateRight agg (Some p) s; s \<leftarrow> set_color (Some p) Black s; set_color (Some g) Red s } = Some s' \<and>
    zip_ok s' (Bin Black t p (Bin Red u1 g u)) cs \<and> same_order s s'"
proof -
  obtain s1 where 1: "RotateRight agg (Some p) s = Some s1" "same_order s s1"
    "zip_ok s1 (Bin cp t p (Bin cg u1 g u)) cs"
    using RotateRight_ok [of s cp t p u1 cg g u cs agg] assms by (auto simp: zip_up)
  from paint_right [OF 1(3)] 1 show ?thesis using same_order_trans by (metis bind.bind_lunit)
qed

lemma single_left:
  assumes "zip_ok s (Bin cg u g (Bin cp u1 p t)) cs"
  shows "\<exists>s'. do { s \<leftarrow> RotateLeft agg (Some p) s; s \<leftarrow> set_color (Some p) Black s; set_color (Some g) Red s } = Some s' \<and>
    zip_ok s' (Bin Black (Bin Red u g u1) p t) cs \<and> same_order s s'"
proof -
  obtain s1 where 1: "RotateLeft agg (Some p) s = Some s1" "same_order s s1"
    "zip_ok s1 (Bin cp (Bin cg u g u1) p t) cs"
    using RotateLeft_ok [of s cp u1 p t cg u g cs agg] assms by (auto simp: zip_up)
  from paint_left [OF 1(3)] 1 show ?thesis using same_order_trans by (metis bind.bind_lunit)
qed

lemma double_right:
  assumes "zip_ok s (Bin cg (Bin cp pl p (Bin c l n r)) g u) cs"
  shows "\<exists>s'. do { s \<leftarrow> RotateLeft agg (Some n) s; s \<leftarrow> RotateRight agg (Some n) s;
      s \<leftarrow> set_color (Some n) Black s; set_color (Some g) Red s } = Some s' \<and>
    zip_ok s' (Bin Black (Bin cp pl p l) n (Bin Red r g u)) cs \<and> same_order s s'"
proof -
  obtain s1 where 1: "RotateLeft agg (Some n) s = Some s1" "same_order s s1"
    "zip_ok s1 (Bin cg (Bin c (Bin cp pl p l) n r) g u) cs"
    using RotateLeft_ok [of s c l n r cp pl p "LF cg g u # cs" agg] assms by (auto simp: zip_up)
  from single_right [OF 1(3), of agg] 1 show ?thesis using same_order_trans by (metis bind.bind_lunit)
qed

lemma double_left:
  assumes "zip_ok s (Bin cg u g (Bin cp (Bin c l n r) p pr)) cs"
  shows "\<exists>s'. do { s \<leftarrow> RotateRight agg (Some n) s; s \<leftarrow> RotateLeft agg (Some n) s;
      s \<leftarrow> set_color (Some n) Black s; set_color (Some g) Red s } = Some s' \<and>
    zip_ok s' (Bin Black (Bin Red u g l) n (Bin cp r p pr)) cs \<and> same_order s s'"
proof -
  obtain s1 where 1: "RotateRight agg (Some n) s = Some s1" "same_order s s1"
    "zip_ok s1 (Bin cg u g (Bin c l n (Bin cp r p pr))) cs"
    using RotateRight_ok [of s c l n r cp p pr "RF cg u g # cs" agg] assms by (auto simp: zip_up)
  from single_left [OF 1(3), of agg] 1 show ?thesis using same_order_trans by (metis bind.bind_lunit)
qed

text \<open>The start of \<open>FixInsert\<close> at a node with a parent.\<close>

lemma FixInsert_root:
  assumes "zip_ok s (Bin c l n r) []" "rbi l" "rbi r" "bh l = bh r"
  shows "rebalanced s (inord (Bin c l n r)) (FixInsert agg (Some n) s)"
proof -
  obtain s1 where "set_color (Some n) Black s = Some s1" "zip_ok s1 (Bin Black l n r) []" "same_order s s1"
    using set_color_ok [OF assms(1)] by blast
  with assms zip_read(1) [OF assms(1)] show ?thesis
    by (intro rebalancedI [of _ s1 "Bin Black l n r" "[]"]) (subst FixInsert.simps, simp_all)
qed

lemma FixInsert_under_black:
  assumes "zip_ok s (Bin c l n r) (f # cs)" "fcol f = Black" "rbi (Bin Red l n r)" "cinv (bh l) (f # cs)"
  shows "rebalanced s (inord (plug (Bin c l n r) (f # cs))) (FixInsert agg (Some n) s)"
proof -
  obtain s1 where s1: "set_color (Some n) Red s = Some s1" "zip_ok s1 (Bin Red l n r) (f # cs)" "same_order s s1"
    using set_color_ok [OF assms(1)] by blast
  have "get_color s1 (Some (fnode f)) = Some Black"
    using s1(2) assms(2) by (cases f) (simp_all add: zip_ok_def hook_ops)
  with zip_read(1) [OF assms(1)] s1(1) have "FixInsert agg (Some n) s = Some s1"
    by (subst FixInsert.simps) simp
  then show ?thesis
    using s1 assms inord_plug [of "Bin Red l n r" "Bin c l n r" "f # cs"]
    by (intro rebalancedI [of _ s1 "Bin Red l n r" "f # cs"]) auto
qed

lemma FixInsert_LL:
  assumes "zip_ok s (Bin c l n r) (LF Red p w # LF Black g u # cs)"
  shows "\<not> is_red u \<Longrightarrow> \<exists>s'. FixInsert agg (Some n) s = Some s' \<and> same_order s s' \<and>
      zip_ok s' (Bin Black (Bin Red l n r) p (Bin Red w g u)) cs"
    "u = Bin Red a u0 b \<Longrightarrow> \<exists>s'. FixInsert agg (Some n) s = FixInsert agg (Some g) s' \<and> same_order s s' \<and>
      zip_ok s' (Bin Red (Bin Black (Bin Red l n r) p w) g (Bin Black a u0 b)) cs"
proof -
  obtain s1 where s1: "set_color (Some n) Red s = Some s1" "same_order s s1"
    "zip_ok s1 (Bin Red l n r) (LF Red p w # LF Black g u # cs)"
    using set_color_ok [OF assms] by blast
  have zp: "zip_ok s1 (Bin Red (Bin Red l n r) p w) (LF Black g u # cs)" and zg: "zip_ok s1 (Bin Black (Bin Red (Bin Red l n r) p w) g u) cs"
    and zu: "zip_ok s1 u (RF Black (Bin Red (Bin Red l n r) p w) g # cs)"
    using s1(3) by (simp_all add: zip_up)
  note rd = zip_read(1) [OF assms] s1(1) zip_read [OF zp] zip_read [OF zg] zip_colors [OF zu]
    zip_ne [OF zp] zip_ne [OF zg]
  show "\<exists>s'. FixInsert agg (Some n) s = Some s' \<and> same_order s s' \<and> zip_ok s' (Bin Black (Bin Red l n r) p (Bin Red w g u)) cs"
    if "\<not> is_red u"
  proof -
    have "FixInsert agg (Some n) s =
      do { s \<leftarrow> RotateRight agg (Some p) s1; s \<leftarrow> set_color (Some p) Black s; set_color (Some g) Red s }"
      using that rd by (subst FixInsert.simps) (auto simp: Option.bind_assoc)
    then obtain s2 where s2: "FixInsert agg (Some n) s = Some s2" "zip_ok s2 (Bin Black (Bin Red l n r) p (Bin Red w g u)) cs" "same_order s1 s2"
      using single_right [OF zg, of agg] by auto
    with s1(2) show ?thesis using same_order_trans by blast
  qed
  show "\<exists>s'. FixInsert agg (Some n) s = FixInsert agg (Some g) s' \<and> same_order s s' \<and> zip_ok s' (Bin Red (Bin Black (Bin Red l n r) p w) g (Bin Black a u0 b)) cs"
    if u: "u = Bin Red a u0 b"
  proof -
    obtain s2 where s2: "do { s \<leftarrow> set_color (Some g) Red s1; s \<leftarrow> set_color (Some p) Black s; set_color (Some u0) Black s } = Some s2"
      "zip_ok s2 (Bin Red (Bin Black (Bin Red l n r) p w) g (Bin Black a u0 b)) cs" "same_order s1 s2"
      using recolour_left [OF zg [unfolded u]] by blast
    have "FixInsert agg (Some n) s = FixInsert agg (Some g) s2"
      using rd s2(1) u by (subst FixInsert.simps) (auto simp: Option.bind_eq_Some_conv)
    with s2 s1(2) show ?thesis using same_order_trans by blast
  qed
qed

lemma FixInsert_LR:
  assumes "zip_ok s (Bin c l n r) (RF Red w p # LF Black g u # cs)"
  shows "\<not> is_red u \<Longrightarrow> \<exists>s'. FixInsert agg (Some n) s = Some s' \<and> same_order s s' \<and>
      zip_ok s' (Bin Black (Bin Red w p l) n (Bin Red r g u)) cs"
    "u = Bin Red a u0 b \<Longrightarrow> \<exists>s'. FixInsert agg (Some n) s = FixInsert agg (Some g) s' \<and> same_order s s' \<and>
      zip_ok s' (Bin Red (Bin Black w p (Bin Red l n r)) g (Bin Black a u0 b)) cs"
proof -
  obtain s1 where s1: "set_color (Some n) Red s = Some s1" "same_order s s1"
    "zip_ok s1 (Bin Red l n r) (RF Red w p # LF Black g u # cs)"
    using set_color_ok [OF assms] by blast
  have zp: "zip_ok s1 (Bin Red w p (Bin Red l n r)) (LF Black g u # cs)" and zg: "zip_ok s1 (Bin Black (Bin Red w p (Bin Red l n r)) g u) cs"
    and zu: "zip_ok s1 u (RF Black (Bin Red w p (Bin Red l n r)) g # cs)"
    using s1(3) by (simp_all add: zip_up)
  note rd = zip_read(1) [OF assms] s1(1) zip_read [OF zp] zip_read [OF zg] zip_colors [OF zu]
    zip_ne [OF zp] zip_ne [OF zg]
  show "\<exists>s'. FixInsert agg (Some n) s = Some s' \<and> same_order s s' \<and> zip_ok s' (Bin Black (Bin Red w p l) n (Bin Red r g u)) cs"
    if "\<not> is_red u"
  proof -
    have "FixInsert agg (Some n) s =
      do { s \<leftarrow> RotateLeft agg (Some n) s1; s \<leftarrow> RotateRight agg (Some n) s; s \<leftarrow> set_color (Some n) Black s; set_color (Some g) Red s }"
      using that rd by (subst FixInsert.simps) (auto simp: Option.bind_assoc)
    then obtain s2 where s2: "FixInsert agg (Some n) s = Some s2" "zip_ok s2 (Bin Black (Bin Red w p l) n (Bin Red r g u)) cs" "same_order s1 s2"
      using double_right [OF zg, of agg] by auto
    with s1(2) show ?thesis using same_order_trans by blast
  qed
  show "\<exists>s'. FixInsert agg (Some n) s = FixInsert agg (Some g) s' \<and> same_order s s' \<and> zip_ok s' (Bin Red (Bin Black w p (Bin Red l n r)) g (Bin Black a u0 b)) cs"
    if u: "u = Bin Red a u0 b"
  proof -
    obtain s2 where s2: "do { s \<leftarrow> set_color (Some g) Red s1; s \<leftarrow> set_color (Some p) Black s; set_color (Some u0) Black s } = Some s2"
      "zip_ok s2 (Bin Red (Bin Black w p (Bin Red l n r)) g (Bin Black a u0 b)) cs" "same_order s1 s2"
      using recolour_left [OF zg [unfolded u]] by blast
    have "FixInsert agg (Some n) s = FixInsert agg (Some g) s2"
      using rd s2(1) u by (subst FixInsert.simps) (auto simp: Option.bind_eq_Some_conv)
    with s2 s1(2) show ?thesis using same_order_trans by blast
  qed
qed

lemma FixInsert_RL:
  assumes "zip_ok s (Bin c l n r) (LF Red p w # RF Black u g # cs)"
  shows "\<not> is_red u \<Longrightarrow> \<exists>s'. FixInsert agg (Some n) s = Some s' \<and> same_order s s' \<and>
      zip_ok s' (Bin Black (Bin Red u g l) n (Bin Red r p w)) cs"
    "u = Bin Red a u0 b \<Longrightarrow> \<exists>s'. FixInsert agg (Some n) s = FixInsert agg (Some g) s' \<and> same_order s s' \<and>
      zip_ok s' (Bin Red (Bin Black a u0 b) g (Bin Black (Bin Red l n r) p w)) cs"
proof -
  obtain s1 where s1: "set_color (Some n) Red s = Some s1" "same_order s s1"
    "zip_ok s1 (Bin Red l n r) (LF Red p w # RF Black u g # cs)"
    using set_color_ok [OF assms] by blast
  have zp: "zip_ok s1 (Bin Red (Bin Red l n r) p w) (RF Black u g # cs)" and zg: "zip_ok s1 (Bin Black u g (Bin Red (Bin Red l n r) p w)) cs"
    and zu: "zip_ok s1 u (LF Black g (Bin Red (Bin Red l n r) p w) # cs)"
    using s1(3) by (simp_all add: zip_up)
  note rd = zip_read(1) [OF assms] s1(1) zip_read [OF zp] zip_read [OF zg] zip_colors [OF zu]
    zip_ne [OF zp] zip_ne [OF zg]
  show "\<exists>s'. FixInsert agg (Some n) s = Some s' \<and> same_order s s' \<and> zip_ok s' (Bin Black (Bin Red u g l) n (Bin Red r p w)) cs"
    if "\<not> is_red u"
  proof -
    have "FixInsert agg (Some n) s =
      do { s \<leftarrow> RotateRight agg (Some n) s1; s \<leftarrow> RotateLeft agg (Some n) s; s \<leftarrow> set_color (Some n) Black s; set_color (Some g) Red s }"
      using that rd by (subst FixInsert.simps) (auto simp: Option.bind_assoc)
    then obtain s2 where s2: "FixInsert agg (Some n) s = Some s2" "zip_ok s2 (Bin Black (Bin Red u g l) n (Bin Red r p w)) cs" "same_order s1 s2"
      using double_left [OF zg, of agg] by auto
    with s1(2) show ?thesis using same_order_trans by blast
  qed
  show "\<exists>s'. FixInsert agg (Some n) s = FixInsert agg (Some g) s' \<and> same_order s s' \<and> zip_ok s' (Bin Red (Bin Black a u0 b) g (Bin Black (Bin Red l n r) p w)) cs"
    if u: "u = Bin Red a u0 b"
  proof -
    obtain s2 where s2: "do { s \<leftarrow> set_color (Some g) Red s1; s \<leftarrow> set_color (Some p) Black s; set_color (Some u0) Black s } = Some s2"
      "zip_ok s2 (Bin Red (Bin Black a u0 b) g (Bin Black (Bin Red l n r) p w)) cs" "same_order s1 s2"
      using recolour_right [OF zg [unfolded u]] by blast
    have "FixInsert agg (Some n) s = FixInsert agg (Some g) s2"
      using rd s2(1) u by (subst FixInsert.simps) (auto simp: Option.bind_eq_Some_conv)
    with s2 s1(2) show ?thesis using same_order_trans by blast
  qed
qed

lemma FixInsert_RR:
  assumes "zip_ok s (Bin c l n r) (RF Red w p # RF Black u g # cs)"
  shows "\<not> is_red u \<Longrightarrow> \<exists>s'. FixInsert agg (Some n) s = Some s' \<and> same_order s s' \<and>
      zip_ok s' (Bin Black (Bin Red u g w) p (Bin Red l n r)) cs"
    "u = Bin Red a u0 b \<Longrightarrow> \<exists>s'. FixInsert agg (Some n) s = FixInsert agg (Some g) s' \<and> same_order s s' \<and>
      zip_ok s' (Bin Red (Bin Black a u0 b) g (Bin Black w p (Bin Red l n r))) cs"
proof -
  obtain s1 where s1: "set_color (Some n) Red s = Some s1" "same_order s s1"
    "zip_ok s1 (Bin Red l n r) (RF Red w p # RF Black u g # cs)"
    using set_color_ok [OF assms] by blast
  have zp: "zip_ok s1 (Bin Red w p (Bin Red l n r)) (RF Black u g # cs)" and zg: "zip_ok s1 (Bin Black u g (Bin Red w p (Bin Red l n r))) cs"
    and zu: "zip_ok s1 u (LF Black g (Bin Red w p (Bin Red l n r)) # cs)"
    using s1(3) by (simp_all add: zip_up)
  note rd = zip_read(1) [OF assms] s1(1) zip_read [OF zp] zip_read [OF zg] zip_colors [OF zu]
    zip_ne [OF zp] zip_ne [OF zg]
  show "\<exists>s'. FixInsert agg (Some n) s = Some s' \<and> same_order s s' \<and> zip_ok s' (Bin Black (Bin Red u g w) p (Bin Red l n r)) cs"
    if "\<not> is_red u"
  proof -
    have "FixInsert agg (Some n) s =
      do { s \<leftarrow> RotateLeft agg (Some p) s1; s \<leftarrow> set_color (Some p) Black s; set_color (Some g) Red s }"
      using that rd by (subst FixInsert.simps) (auto simp: Option.bind_assoc)
    then obtain s2 where s2: "FixInsert agg (Some n) s = Some s2" "zip_ok s2 (Bin Black (Bin Red u g w) p (Bin Red l n r)) cs" "same_order s1 s2"
      using single_left [OF zg, of agg] by auto
    with s1(2) show ?thesis using same_order_trans by blast
  qed
  show "\<exists>s'. FixInsert agg (Some n) s = FixInsert agg (Some g) s' \<and> same_order s s' \<and> zip_ok s' (Bin Red (Bin Black a u0 b) g (Bin Black w p (Bin Red l n r))) cs"
    if u: "u = Bin Red a u0 b"
  proof -
    obtain s2 where s2: "do { s \<leftarrow> set_color (Some g) Red s1; s \<leftarrow> set_color (Some p) Black s; set_color (Some u0) Black s } = Some s2"
      "zip_ok s2 (Bin Red (Bin Black a u0 b) g (Bin Black w p (Bin Red l n r))) cs" "same_order s1 s2"
      using recolour_right [OF zg [unfolded u]] by blast
    have "FixInsert agg (Some n) s = FixInsert agg (Some g) s2"
      using rd s2(1) u by (subst FixInsert.simps) (auto simp: Option.bind_eq_Some_conv)
    with s2 s1(2) show ?thesis using same_order_trans by blast
  qed
qed

lemma is_redE: "is_red u \<Longrightarrow> (\<And>a x b. u = Bin Red a x b \<Longrightarrow> thesis) \<Longrightarrow> thesis"
  by (cases u) auto

lemma red_frame:
  assumes "cinv b (f # cs)" "fcol f = Red"
  obtains g cs' where "cs = g # cs'" "fcol g = Black"
  using assms by (cases cs) auto

text \<open>
  With a red parent, one step of \<open>FixInsert\<close> either finishes with a black subtree in the place of the
  grandparent's, or moves on to the grandparent, whose children have become black.
\<close>

lemma FixInsert_step:
  assumes "zip_ok s (Bin c l n r) (f # g # cs)" "fcol f = Red" "fcol g = Black"
    "rbi (Bin Red l n r)" "cinv (bh l) (f # g # cs)"
  shows "(\<exists>s' t. FixInsert agg (Some n) s = Some s' \<and> same_order s s' \<and> zip_ok s' t cs \<and> rbi t \<and> is_blk t \<and>
      bh t = bh l + 1 \<and> inord t = inord (plug (Bin c l n r) [f, g])) \<or>
    (\<exists>s' l' r'. FixInsert agg (Some n) s = FixInsert agg (Some (fnode g)) s' \<and> same_order s s' \<and>
      zip_ok s' (Bin Red l' (fnode g) r') cs \<and> rbi (Bin Red l' (fnode g) r') \<and> bh l' = bh l + 1 \<and>
      inord (Bin Red l' (fnode g) r') = inord (plug (Bin c l n r) [f, g]))"
proof -
  have blk: "\<not> is_red u \<Longrightarrow> rbi u \<Longrightarrow> is_blk u" for u :: "'a rbt" by (simp add: red_or_black)
  show ?thesis
  proof (cases g)
    case gl: (LF c1 gn u)
    show ?thesis
    proof (cases f)
      case fl: (LF c2 p w)
      note A = assms [unfolded gl fl, simplified]
      show ?thesis
      proof (cases "is_red u")
        case True
        then obtain a x b where u: "u = Bin Red a x b" by (rule is_redE)
        show ?thesis using FixInsert_LL(2) [of s c l n r p w gn u cs a x b agg] A u gl fl by fastforce
      next
        case False
        show ?thesis using FixInsert_LL(1) [of s c l n r p w gn u cs agg] False A gl fl blk by fastforce
      qed
    next
      case fr: (RF c2 w p)
      note A = assms [unfolded gl fr, simplified]
      show ?thesis
      proof (cases "is_red u")
        case True
        then obtain a x b where u: "u = Bin Red a x b" by (rule is_redE)
        show ?thesis using FixInsert_LR(2) [of s c l n r w p gn u cs a x b agg] A u gl fr by fastforce
      next
        case False
        show ?thesis using FixInsert_LR(1) [of s c l n r w p gn u cs agg] False A gl fr blk by fastforce
      qed
    qed
  next
    case gr: (RF c1 u gn)
    show ?thesis
    proof (cases f)
      case fl: (LF c2 p w)
      note A = assms [unfolded gr fl, simplified]
      show ?thesis
      proof (cases "is_red u")
        case True
        then obtain a x b where u: "u = Bin Red a x b" by (rule is_redE)
        show ?thesis using FixInsert_RL(2) [of s c l n r p w u gn cs a x b agg] A u gr fl by fastforce
      next
        case False
        show ?thesis using FixInsert_RL(1) [of s c l n r p w u gn cs agg] False A gr fl blk by fastforce
      qed
    next
      case fr: (RF c2 w p)
      note A = assms [unfolded gr fr, simplified]
      show ?thesis
      proof (cases "is_red u")
        case True
        then obtain a x b where u: "u = Bin Red a x b" by (rule is_redE)
        show ?thesis using FixInsert_RR(2) [of s c l n r w p u gn cs a x b agg] A u gr fr by fastforce
      next
        case False
        show ?thesis using FixInsert_RR(1) [of s c l n r w p u gn cs agg] False A gr fr blk by fastforce
      qed
    qed
  qed
qed

lemma FixInsert_ok:
  assumes "zip_ok s (Bin c l n r) cs" "rbi (Bin Red l n r)" "cinv (bh l) cs"
  shows "rebalanced s (inord (plug (Bin c l n r) cs)) (FixInsert agg (Some n) s)"
  using assms
proof (induction "length cs" arbitrary: s c l n r cs rule: less_induct)
  case less
  show ?case
  proof (cases cs)
    case Nil
    then show ?thesis using FixInsert_root less.prems by fastforce
  next
    case (Cons f cs1)
    show ?thesis
    proof (cases "fcol f = Red")
      case False
      then have "fcol f = Black" using less.prems(3) Cons by (cases "fcol f") auto
      then show ?thesis
        using less.prems unfolding Cons by (intro FixInsert_under_black)
    next
      case True
      then obtain g cs' where cs: "cs = f # g # cs'" and g: "fcol g = Black"
        using red_frame [of "bh l" f cs1] less.prems(3) Cons by blast
      have up: "cinv (bh l + 1) cs'" using less.prems(3) True g by (simp add: cs)
      have io: "inord t = inord (plug (Bin c l n r) [f, g]) \<Longrightarrow>
          inord (plug t cs') = inord (plug (Bin c l n r) cs)" for t
        using inord_plug [of t "plug (Bin c l n r) [f, g]" cs'] by (simp add: cs)
      from FixInsert_step [OF less.prems(1) [unfolded cs] True g less.prems(2) less.prems(3) [unfolded cs], of agg]
      show ?thesis
      proof (elim disjE exE conjE)
        fix s' t
        assume "FixInsert agg (Some n) s = Some s'" "same_order s s'" "zip_ok s' t cs'" "rbi t" "is_blk t"
          "bh t = bh l + 1" "inord t = inord (plug (Bin c l n r) [f, g])"
        then show ?thesis using io up by (intro rebalancedI [of _ s' t cs']) auto
      next
        fix s' l' r'
        assume a: "FixInsert agg (Some n) s = FixInsert agg (Some (fnode g)) s'" "same_order s s'"
          "zip_ok s' (Bin Red l' (fnode g) r') cs'" "rbi (Bin Red l' (fnode g) r')" "bh l' = bh l + 1"
          "inord (Bin Red l' (fnode g) r') = inord (plug (Bin c l n r) [f, g])"
        have "rebalanced s' (inord (plug (Bin Red l' (fnode g) r') cs')) (FixInsert agg (Some (fnode g)) s')"
          using a up by (intro less.hyps) (auto simp: cs)
        then show ?thesis using a io rebalanced_step by (metis (no_types, lifting))
      qed
    qed
  qed
qed

subsection \<open>Order links\<close>

text \<open>
  The predecessor and successor links along a list of nodes; \<open>bef\<close> and \<open>aft\<close> are the links at its ends.
\<close>

definition hd_or :: "'p list \<Rightarrow> 'p option \<Rightarrow> 'p option" where
  "hd_or xs aft = (case xs of [] \<Rightarrow> aft | x # _ \<Rightarrow> Some x)"

definition last_or :: "'p option \<Rightarrow> 'p list \<Rightarrow> 'p option" where
  "last_or bef xs = (if xs = [] then bef else Some (last xs))"

lemma end_simps [simp]:
  "hd_or [] aft = aft" "hd_or (x # xs) aft = Some x" "last_or bef [] = bef" "last_or bef (xs @ [x]) = Some x"
  "last_or bef (x # xs) = last_or (Some x) xs"
  by (auto simp: hd_or_def last_or_def)

primrec olinks :: "('p \<Rightarrow> 'p rb_hook) \<Rightarrow> 'p option \<Rightarrow> 'p list \<Rightarrow> 'p option \<Rightarrow> bool" where
  "olinks h bef [] aft = True"
| "olinks h bef (x # xs) aft =
     (hk_predecessor (h x) = bef \<and> hk_successor (h x) = hd_or xs aft \<and> olinks h (Some x) xs aft)"

lemma hd_or_append: "hd_or (xs @ ys) aft = hd_or xs (hd_or ys aft)"
  by (cases xs) auto

lemma olinks_append:
  "olinks h bef (xs @ ys) aft \<longleftrightarrow> olinks h bef xs (hd_or ys aft) \<and> olinks h (last_or bef xs) ys aft"
  by (induction xs arbitrary: bef) (auto simp: hd_or_append)

lemma olinks_cong:
  "\<forall>a \<in> set xs. hk_predecessor (h' a) = hk_predecessor (h a) \<and> hk_successor (h' a) = hk_successor (h a) \<Longrightarrow>
   olinks h' bef xs aft = olinks h bef xs aft"
  by (induction xs arbitrary: bef) auto

lemma olinks_upd [simp]: "a \<notin> set xs \<Longrightarrow> olinks (h(a := v)) bef xs aft = olinks h bef xs aft"
  by (rule olinks_cong) auto

lemma olinks_same_order: "same_order s s' \<Longrightarrow> olinks (rb_hooks s') bef xs aft = olinks (rb_hooks s) bef xs aft"
  by (rule olinks_cong) (simp add: same_order_def)

text \<open>What the tree in the store represents: a red-black tree with consistent order links.\<close>

definition rb_rep :: "('p, 'd) rb_tree \<Rightarrow> 'p rbt \<Rightarrow> bool" where
  "rb_rep s T \<longleftrightarrow> zip_ok s T [] \<and> rb_ok T \<and> olinks (rb_hooks s) None (inord T) None"

lemma rebalanced_rep:
  assumes "rebalanced s xs res" "olinks (rb_hooks s) None xs None"
  shows "\<exists>s' T. res = Some s' \<and> rb_rep s' T \<and> inord T = xs \<and> same_order s s'"
  using assms olinks_same_order unfolding rebalanced_def rb_rep_def by blast

subsection \<open>Aggregation does not touch the hooks\<close>

lemma AggregatePath_ok:
  "zip_ok s t cs \<Longrightarrow> \<exists>s'. AggregatePath agg (top_of cs) s = Some s' \<and> rb_hooks s' = rb_hooks s \<and> rb_root s' = rb_root s"
proof (induction cs arbitrary: s t)
  case Nil
  then show ?case by (subst AggregatePath.simps) simp
next
  case (Cons f cs)
  let ?s1 = "s\<lparr> rb_data := (rb_data s)(fnode f := snd (agg (rb_hooks s) (rb_data s) (fnode f))) \<rparr>"
  have z: "zip_ok ?s1 (plug1 f t) cs" using Cons.prems by (simp add: zip_up) (simp add: zip_ok_def)
  have p: "GetParent ?s1 (Some (fnode f)) = Some (top_of cs)"
    using z by (cases f) (simp_all add: zip_read)
  obtain s' where "AggregatePath agg (top_of cs) ?s1 = Some s'" "rb_hooks s' = rb_hooks ?s1" "rb_root s' = rb_root ?s1"
    using Cons.IH [OF z] by blast
  with p show ?case by (subst AggregatePath.simps) (auto simp: AggregateNode_def)
qed

lemma zip_ok_hooks:
  "rb_hooks s' = rb_hooks s \<Longrightarrow> rb_root s' = rb_root s \<Longrightarrow> zip_ok s' t cs = zip_ok s t cs"
  "rb_hooks s' = rb_hooks s \<Longrightarrow> same_order s s'"
  by (simp_all add: zip_ok_def same_order_def)

subsection \<open>Linking a new node\<close>

definition unhooked :: "'p rb_hook \<Rightarrow> bool" where
  "unhooked k \<longleftrightarrow> hk_parent k = None \<and> hk_left k = None \<and> hk_right k = None \<and>
     hk_predecessor k = None \<and> hk_successor k = None"

definition same_struct :: "'p rb_hook \<Rightarrow> 'p rb_hook \<Rightarrow> bool" where
  "same_struct k k' \<longleftrightarrow> hk_parent k = hk_parent k' \<and> hk_left k = hk_left k' \<and> hk_right k = hk_right k' \<and>
     hk_color k = hk_color k'"

lemma tr_struct: "\<forall>a \<in> set (inord t). same_struct (h' a) (h a) \<Longrightarrow> tr h' par t = tr h par t"
  by (induction t arbitrary: par) (auto simp: same_struct_def)

lemma cx_struct: "\<forall>a \<in> set (cnodes cs). same_struct (h' a) (h a) \<Longrightarrow> cx h' root hole cs = cx h root hole cs"
proof (induction h root hole cs rule: cx.induct)
  case (2 h root hole c x r cs)
  then have "tr h' (Some x) r = tr h (Some x) r" by (intro tr_struct) auto
  with 2 show ?case by (simp add: same_struct_def)
next
  case (3 h root hole c l x cs)
  then have "tr h' (Some x) l = tr h (Some x) l" by (intro tr_struct) auto
  with 3 show ?case by (simp add: same_struct_def)
qed simp

lemma set_fnodes_plug1: "set (inord (plug1 f t)) = set (inord t) \<union> set (fnodes f)"
  by (cases f) auto

lemma set_plug: "set (inord (plug t cs)) = set (inord t) \<union> set (cnodes cs)"
  by (induction cs arbitrary: t) (auto simp: set_fnodes_plug1)

lemma black_color: "c \<noteq> Red \<Longrightarrow> c \<noteq> Null \<Longrightarrow> c = Black"
  by (cases c) auto

lemma plug_rbiD:
  "rbi (plug t cs) \<Longrightarrow> is_blk (plug t cs) \<Longrightarrow>
   rbi t \<and> cinv (bh t) cs \<and> (under_red cs \<longrightarrow> is_blk t) \<and> (cs = [] \<longrightarrow> is_blk t)"
proof (induction cs arbitrary: t)
  case (Cons f cs)
  have IH: "rbi (plug1 f t)" "cinv (bh (plug1 f t)) cs" "under_red cs \<longrightarrow> is_blk (plug1 f t)"
    "cs = [] \<longrightarrow> is_blk (plug1 f t)"
    using Cons.IH [of "plug1 f t"] Cons.prems by auto
  then show ?case by (cases f; cases cs; cases "fcol f") (auto simp: add.commute intro: black_color)
qed simp

text \<open>The new leaf \<open>z\<close> as the left or right child of \<open>p\<close>: the hooks of all other nodes keep their structure.\<close>

lemma link_left:
  assumes "zip_ok s (Bin cp Tip p r) cs" "z \<notin> set (inord (plug (Bin cp Tip p r) cs))"
    "\<forall>a. a \<noteq> p \<and> a \<noteq> z \<longrightarrow> same_struct (h a) (rb_hooks s a)" "same_struct (h p) ((rb_hooks s p)\<lparr> hk_left := Some z \<rparr>)"
    "hk_parent (h z) = Some p" "hk_left (h z) = None" "hk_right (h z) = None"
  shows "zip_ok (s\<lparr> rb_hooks := h \<rparr>) (Bin (hk_color (h z)) Tip z Tip) (LF cp p r # cs)"
proof -
  have d: "distinct (inord (Bin cp Tip p r) @ cnodes cs)" "z \<notin> set (inord (Bin cp Tip p r) @ cnodes cs)"
    using assms(1,2) by (auto simp: zip_ok_def set_plug)
  have "tr h (Some p) r = tr (rb_hooks s) (Some p) r" using assms(3) d by (intro tr_struct) auto
  moreover have "cx h (rb_root s) (Some p) cs = cx (rb_hooks s) (rb_root s) (Some p) cs"
    using assms(3) d by (intro cx_struct) auto
  ultimately show ?thesis using assms d by (auto simp: zip_ok_def same_struct_def)
qed

lemma link_right:
  assumes "zip_ok s (Bin cp l p Tip) cs" "z \<notin> set (inord (plug (Bin cp l p Tip) cs))"
    "\<forall>a. a \<noteq> p \<and> a \<noteq> z \<longrightarrow> same_struct (h a) (rb_hooks s a)" "same_struct (h p) ((rb_hooks s p)\<lparr> hk_right := Some z \<rparr>)"
    "hk_parent (h z) = Some p" "hk_left (h z) = None" "hk_right (h z) = None"
  shows "zip_ok (s\<lparr> rb_hooks := h \<rparr>) (Bin (hk_color (h z)) Tip z Tip) (RF cp l p # cs)"
proof -
  have d: "distinct (inord (Bin cp l p Tip) @ cnodes cs)" "z \<notin> set (inord (Bin cp l p Tip) @ cnodes cs)"
    using assms(1,2) by (auto simp: zip_ok_def set_plug)
  have "tr h (Some p) l = tr (rb_hooks s) (Some p) l" using assms(3) d by (intro tr_struct) auto
  moreover have "cx h (rb_root s) (Some p) cs = cx (rb_hooks s) (rb_root s) (Some p) cs"
    using assms(3) d by (intro cx_struct) auto
  ultimately show ?thesis using assms d by (auto simp: zip_ok_def same_struct_def)
qed

text \<open>After the links are set, the new node is aggregated, the path above it too, and the tree rebalanced.\<close>

lemma insert_finish:
  assumes "zip_ok s (Bin c Tip z Tip) (f # cs)" "cinv 0 (f # cs)" "olinks (rb_hooks s) None xs None"
    "inord (plug (Bin c Tip z Tip) (f # cs)) = xs"
  shows "\<exists>s' T. do { s \<leftarrow> AggregateNode agg (Some z) s; s \<leftarrow> AggregatePath agg (Some (fnode f)) s; FixInsert agg (Some z) s } =
    Some s' \<and> rb_rep s' T \<and> inord T = xs \<and> same_order s s'"
proof -
  let ?s1 = "s\<lparr> rb_data := (rb_data s)(z := snd (agg (rb_hooks s) (rb_data s) z)) \<rparr>"
  have z1: "zip_ok ?s1 (Bin c Tip z Tip) (f # cs)" using assms(1) by (simp add: zip_ok_def)
  from AggregatePath_ok [OF z1, of agg] obtain s2 where
    "AggregatePath agg (top_of (f # cs)) ?s1 = Some s2" "rb_hooks s2 = rb_hooks ?s1" "rb_root s2 = rb_root ?s1"
    by blast
  then have s2: "AggregatePath agg (Some (fnode f)) ?s1 = Some s2" "rb_hooks s2 = rb_hooks s" "rb_root s2 = rb_root s"
    by simp_all
  have "zip_ok s2 (Bin c Tip z Tip) (f # cs)" using assms(1) zip_ok_hooks(1) [OF s2(2,3)] by blast
  from FixInsert_ok [OF this, of agg] assms(2,4)
  have "rebalanced s2 xs (FixInsert agg (Some z) s2)" by simp
  moreover have "same_order s s2" using s2(2) by (simp add: same_order_def)
  ultimately have "rebalanced s xs (FixInsert agg (Some z) s2)" using rebalanced_step by blast
  with rebalanced_rep [OF _ assms(3)] s2(1) show ?thesis by (simp add: AggregateNode_def)
qed

lemma InsertLeft_ok:
  assumes "zip_ok s (Bin cp Tip p r) cs" "cinv 0 (LF cp p r # cs)" "z \<notin> set (inord (plug (Bin cp Tip p r) cs))"
    "unhooked (rb_hooks s z)" "inord (plug (Bin cp Tip p r) cs) = A @ p # B"
    "inord (plug (Bin c Tip z Tip) (LF cp p r # cs)) = A @ z # p # B"
    "olinks (rb_hooks s) None (A @ p # B) None"
  shows "\<exists>s' T. InsertLeft agg (Some p) (Some z) s = Some s' \<and> rb_rep s' T \<and> inord T = A @ z # p # B"
proof -
  let ?h = "rb_hooks s"
  define P where "P = last_or None A"
  define hA where "hA = ?h(p := (?h p)\<lparr> hk_left := Some z \<rparr>, z := (?h z)\<lparr> hk_parent := Some p \<rparr>)"
  define hB where "hB = (case P of None \<Rightarrow> hA | Some q \<Rightarrow> hA(q := (hA q)\<lparr> hk_successor := Some z \<rparr>))"
  define hC where "hC = hB(z := (hB z)\<lparr> hk_predecessor := P, hk_successor := Some p \<rparr>,
    p := (hB p)\<lparr> hk_predecessor := Some z \<rparr>)"
  have d: "distinct (A @ p # B)" "z \<notin> set (A @ p # B)"
    using assms(1,3,5) zip_plug [of s "Bin cp Tip p r" cs] by (auto simp: zip_ok_def)
  have pz: "p \<noteq> z" using d by auto
  have P: "hk_predecessor (?h p) = P" using assms(7) by (simp add: olinks_append P_def)
  have Pne: "P = Some q \<Longrightarrow> q \<noteq> p \<and> q \<noteq> z \<and> q \<in> set A" for q
    using d by (auto simp: P_def last_or_def split: if_splits)
  have ins: "InsertLeft agg (Some p) (Some z) s =
      do { s \<leftarrow> AggregateNode agg (Some z) (s\<lparr> rb_hooks := hC \<rparr>); s \<leftarrow> AggregatePath agg (Some p) s; FixInsert agg (Some z) s }"
    using pz P Pne by (cases P) (auto simp: InsertLeft_def hk_upd_def Predecessor_def hk_def hA_def hB_def hC_def fun_upd_twist)
  have "zip_ok (s\<lparr> rb_hooks := hC \<rparr>) (Bin (hk_color (hC z)) Tip z Tip) (LF cp p r # cs)"
    using assms(4) pz Pne by (intro link_left [OF assms(1,3)]; cases P)
      (auto simp: hA_def hB_def hC_def same_struct_def unhooked_def)
  moreover have "olinks hC None (A @ z # p # B) None"
  proof (cases A rule: rev_cases)
    case Nil
    with assms(7) d pz show ?thesis by (auto simp: hA_def hB_def hC_def P_def)
  next
    case (snoc A' q)
    with assms(7) d pz show ?thesis
      by (auto simp: hA_def hB_def hC_def P_def olinks_append)
  qed
  ultimately show ?thesis
    unfolding ins using insert_finish [of "s\<lparr> rb_hooks := hC \<rparr>" "hk_color (hC z)" z "LF cp p r" cs "A @ z # p # B" agg]
      assms(2,6) inord_plug [of "Bin (hk_color (hC z)) Tip z Tip" "Bin c Tip z Tip" "LF cp p r # cs"] by auto
qed

lemma InsertRight_ok:
  assumes "zip_ok s (Bin cp l p Tip) cs" "cinv 0 (RF cp l p # cs)" "z \<notin> set (inord (plug (Bin cp l p Tip) cs))"
    "unhooked (rb_hooks s z)" "inord (plug (Bin cp l p Tip) cs) = A @ p # B"
    "inord (plug (Bin c Tip z Tip) (RF cp l p # cs)) = A @ p # z # B"
    "olinks (rb_hooks s) None (A @ p # B) None"
  shows "\<exists>s' T. InsertRight agg (Some p) (Some z) s = Some s' \<and> rb_rep s' T \<and> inord T = A @ p # z # B"
proof -
  let ?h = "rb_hooks s"
  define Q where "Q = hd_or B None"
  define hA where "hA = ?h(p := (?h p)\<lparr> hk_right := Some z, hk_successor := Some z \<rparr>,
    z := (?h z)\<lparr> hk_parent := Some p, hk_predecessor := Some p, hk_successor := Q \<rparr>)"
  define hC where "hC = (case Q of None \<Rightarrow> hA | Some q \<Rightarrow> hA(q := (hA q)\<lparr> hk_predecessor := Some z \<rparr>))"
  have d: "distinct (A @ p # B)" "z \<notin> set (A @ p # B)"
    using assms(1,3,5) zip_plug [of s "Bin cp l p Tip" cs] by (auto simp: zip_ok_def)
  have pz: "p \<noteq> z" using d by auto
  have Q: "hk_successor (?h p) = Q" using assms(7) by (simp add: olinks_append Q_def)
  have Qne: "Q = Some q \<Longrightarrow> q \<noteq> p \<and> q \<noteq> z \<and> q \<in> set B" for q
    using d by (auto simp: Q_def hd_or_def split: list.splits)
  have ins: "InsertRight agg (Some p) (Some z) s =
      do { s \<leftarrow> AggregateNode agg (Some z) (s\<lparr> rb_hooks := hC \<rparr>); s \<leftarrow> AggregatePath agg (Some p) s; FixInsert agg (Some z) s }"
    using pz Q Qne by (cases Q) (auto simp: InsertRight_def hk_upd_def Successor_def hk_def hA_def hC_def fun_upd_twist)
  have "zip_ok (s\<lparr> rb_hooks := hC \<rparr>) (Bin (hk_color (hC z)) Tip z Tip) (RF cp l p # cs)"
    using assms(4) pz Qne by (intro link_right [OF assms(1,3)]; cases Q)
      (auto simp: hA_def hC_def same_struct_def unhooked_def)
  moreover have "olinks hC None (A @ p # z # B) None"
  proof (cases B)
    case Nil
    with assms(7) d pz show ?thesis by (auto simp: hA_def hC_def Q_def olinks_append)
  next
    case (Cons q B')
    with assms(7) d pz show ?thesis by (auto simp: hA_def hC_def Q_def olinks_append)
  qed
  ultimately show ?thesis
    unfolding ins using insert_finish [of "s\<lparr> rb_hooks := hC \<rparr>" "hk_color (hC z)" z "RF cp l p" cs "A @ p # z # B" agg]
      assms(2,6) inord_plug [of "Bin (hk_color (hC z)) Tip z Tip" "Bin c Tip z Tip" "RF cp l p # cs"] by auto
qed

lemma InsertRoot_ok:
  assumes "rb_rep s Tip" "unhooked (rb_hooks s z)"
  shows "\<exists>s' T'. InsertRoot agg (Some z) s = Some s' \<and> rb_rep s' T' \<and> inord T' = [z]"
proof -
  let ?s = "s\<lparr> rb_root := Some z, rb_data := (rb_data s)(z := snd (agg (rb_hooks s) (rb_data s) z)) \<rparr>"
  let ?c = "hk_color (rb_hooks s z)"
  have "zip_ok ?s (Bin ?c Tip z Tip) []" "olinks (rb_hooks ?s) None [z] None"
    using assms(2) by (simp_all add: zip_ok_def unhooked_def)
  then show ?thesis
    using rebalanced_rep [OF FixInsert_ok [of ?s ?c Tip z Tip "[]" agg]] by (auto simp: InsertRoot_def AggregateNode_def)
qed

subsection \<open>Inserting in order\<close>

primrec cbef :: "'p frame list \<Rightarrow> 'p list" where
  "cbef [] = []"
| "cbef (f # cs) = cbef cs @ (case f of LF c x r \<Rightarrow> [] | RF c l x \<Rightarrow> inord l @ [x])"

primrec caft :: "'p frame list \<Rightarrow> 'p list" where
  "caft [] = []"
| "caft (f # cs) = (case f of LF c x r \<Rightarrow> x # inord r | RF c l x \<Rightarrow> []) @ caft cs"

lemma inord_plug_eq: "inord (plug t cs) = cbef cs @ inord t @ caft cs"
proof (induction cs arbitrary: t)
  case (Cons f cs)
  then show ?case by (cases f) simp_all
qed simp

definition sorted_by :: "('p \<Rightarrow> 'p \<Rightarrow> bool) \<Rightarrow> 'p list \<Rightarrow> bool" where
  "sorted_by lt xs \<longleftrightarrow> sorted_wrt (\<lambda>a b. \<not> lt b a) xs"

text \<open>
  What the comparison of a tree has to satisfy: it is a strict weak order. The trees of the kernel
  compare a key of their nodes.
\<close>

locale node_order =
  fixes lt :: "'p \<Rightarrow> 'p \<Rightarrow> bool"
  assumes asym: "lt a b \<Longrightarrow> \<not> lt b a"
    and cotrans: "lt a b \<Longrightarrow> lt a c \<or> lt c b"
begin

lemma below: "\<not> lt z c \<Longrightarrow> \<not> lt c a \<Longrightarrow> \<not> lt z a"
  using cotrans by blast

lemma above: "lt z c \<Longrightarrow> \<not> lt b c \<Longrightarrow> lt z b"
  using cotrans by blast

lemma sorted_by_insert:
  assumes "sorted_by lt (A @ B)" "\<forall>a \<in> set A. \<not> lt z a" "\<forall>b \<in> set B. lt z b"
  shows "sorted_by lt (A @ z # B)"
  using assms asym by (auto simp: sorted_by_def sorted_wrt_append)

lemma insert_loop_ok:
  assumes "zip_ok s t cs" "rb_ok (plug t cs)" "olinks (rb_hooks s) None (inord (plug t cs)) None"
    "z \<notin> set (inord (plug t cs))" "unhooked (rb_hooks s z)" "sorted_by lt (inord (plug t cs))"
    "\<forall>a \<in> set (cbef cs). \<not> lt z a" "\<forall>b \<in> set (caft cs). lt z b" "ptr t = Some x"
  shows "\<exists>s' T A B. insert_loop agg lt z x s = Some s' \<and> rb_rep s' T \<and> inord (plug t cs) = A @ B \<and>
    inord T = A @ z # B \<and> (\<forall>a \<in> set A. \<not> lt z a) \<and> (\<forall>b \<in> set B. lt z b)"
  using assms
proof (induction t arbitrary: cs x)
  case (Bin c l y r)
  note P = Bin.prems
  have x: "x = y" using P(9) by simp
  have I: "rbi (Bin c l y r)" "cinv (bh l + (if c = Black then 1 else 0)) cs" "under_red cs \<longrightarrow> c = Black" "cs = [] \<longrightarrow> c = Black"
    using plug_rbiD [of "Bin c l y r" cs] P(2) unfolding rb_ok_def by (auto split: if_splits)
  have ci: "cinv (bh l) (LF c y r # cs)" "cinv (bh r) (RF c l y # cs)"
    using I by (cases cs; cases c; auto dest: black_color split: if_splits)+
  have srt: "sorted_by lt (inord l @ y # inord r)"
    using P(6) by (simp add: inord_plug_eq sorted_by_def sorted_wrt_append)
  show ?case
  proof (cases "lt z y")
    case True
    then have hi: "\<forall>b \<in> set (caft (LF c y r # cs)). lt z b"
      using srt above [OF True] True P(8) by (auto simp: sorted_by_def sorted_wrt_append)
    show ?thesis
    proof (cases l)
      case Tip
      obtain s' T where "InsertLeft agg (Some y) (Some z) s = Some s'" "rb_rep s' T"
          "inord T = cbef cs @ z # y # (inord r @ caft cs)"
        using InsertLeft_ok [of s c y r cs z "cbef cs" "inord r @ caft cs" Red agg] P ci(1) Tip
        by (auto simp: inord_plug_eq)
      moreover have "insert_loop agg lt z x s = InsertLeft agg (Some y) (Some z) s"
        using True Tip zip_read(2) [OF P(1)] x by (subst insert_loop.simps) simp
      ultimately show ?thesis
        using P(7) hi Tip by (intro exI [of _ s'] exI [of _ T] exI [of _ "cbef cs"] exI [of _ "y # inord r @ caft cs"])
          (auto simp: inord_plug_eq)
    next
      case l: (Bin c' l' y' r')
      have "insert_loop agg lt z x s = insert_loop agg lt z y' s"
        using True l zip_read(2) [OF P(1)] x by (subst insert_loop.simps) simp
      then show ?thesis
        using Bin.IH(1) [of "LF c y r # cs" y'] P hi l by (simp add: zip_up)
    qed
  next
    case False
    then have lo: "\<forall>a \<in> set (cbef (RF c l y # cs)). \<not> lt z a"
      using srt below [OF False] False P(7) by (auto simp: sorted_by_def sorted_wrt_append)
    show ?thesis
    proof (cases r)
      case Tip
      obtain s' T where "InsertRight agg (Some y) (Some z) s = Some s'" "rb_rep s' T"
          "inord T = (cbef cs @ inord l) @ y # z # caft cs"
        using InsertRight_ok [of s c l y cs z "cbef cs @ inord l" "caft cs" Red agg] P ci(2) Tip
        by (auto simp: inord_plug_eq)
      moreover have "insert_loop agg lt z x s = InsertRight agg (Some y) (Some z) s"
        using False Tip zip_read(3) [OF P(1)] x by (subst insert_loop.simps) simp
      ultimately show ?thesis
        using P(8) lo Tip by (intro exI [of _ s'] exI [of _ T] exI [of _ "cbef cs @ inord l @ [y]"] exI [of _ "caft cs"])
          (auto simp: inord_plug_eq)
    next
      case r: (Bin c' l' y' r')
      have "insert_loop agg lt z x s = insert_loop agg lt z y' s"
        using False r zip_read(3) [OF P(1)] x by (subst insert_loop.simps) simp
      then show ?thesis
        using Bin.IH(2) [of "RF c l y # cs" y'] P lo r by (simp add: zip_up)
    qed
  qed
qed simp

lemma rb_Insert_ok:
  assumes "rb_rep s T" "z \<notin> set (inord T)" "unhooked (rb_hooks s z)" "sorted_by lt (inord T)"
  shows "\<exists>s' T' A B. rb_Insert agg lt z s = Some s' \<and> rb_rep s' T' \<and> inord T = A @ B \<and>
    inord T' = A @ z # B \<and> (\<forall>a \<in> set A. \<not> lt z a) \<and> (\<forall>b \<in> set B. lt z b)"
proof (cases T)
  case Tip
  then have "rb_root s = None" using assms(1) by (simp add: rb_rep_def zip_ok_def)
  with InsertRoot_ok [of s z agg] assms(1,3) Tip show ?thesis by (auto simp: rb_Insert_def)
next
  case (Bin c l y r)
  then have "rb_root s = Some y" using assms(1) by (simp add: rb_rep_def zip_ok_def)
  then show ?thesis
    using insert_loop_ok [of s T "[]" z y agg] assms Bin by (simp add: rb_rep_def rb_Insert_def)
qed

end

end
