(* ===== verification/RB_Remove.thy ===== *)
theory RB_Remove
  imports RB_Tree
begin

text \<open>
  Removal from the red-black tree of \<open>containers/RBTree.h\<close>, whose operations \<open>RB_Tree\<close> models:
  \<open>FixRemove\<close> makes room for the loss of a black node, \<open>RemoveHalfLeaf\<close> unlinks a node with at most one
  child, \<open>ReplaceNode\<close> puts a node in the place of another, and \<open>Remove\<close> composes them.
\<close>

subsection \<open>One step at a position\<close>

text \<open>An operation that returns and leaves the tree \<open>t\<close> below the surroundings \<open>cs\<close>, with the order links as they were.\<close>

definition yields ::
  "('p, 'd) rb_tree option \<Rightarrow> ('p, 'd) rb_tree \<Rightarrow> 'p rbt \<Rightarrow> 'p frame list \<Rightarrow> bool" where
  "yields m s t cs \<longleftrightarrow> (\<exists>s'. m = Some s' \<and> zip_ok s' t cs \<and> same_order s s')"

lemma yields_bind:
  "yields m s t cs \<Longrightarrow> (\<And>s'. zip_ok s' t cs \<Longrightarrow> yields (f s') s' t' cs') \<Longrightarrow> yields (m \<bind> f) s t' cs'"
  unfolding yields_def using same_order_trans by (fastforce simp: Option.bind_eq_Some_conv)

lemma yieldsE:
  assumes "yields m s t cs"
  obtains s' where "m = Some s'" "zip_ok s' t cs" "same_order s s'"
  using assms unfolding yields_def by blast

lemma yields_color:
  "zip_ok s (Bin c l n r) cs \<Longrightarrow> yields (set_color (Some n) c' s) s (Bin c' l n r) cs"
  "zip_ok s (Bin d (Bin c l n r) p q) cs \<Longrightarrow> yields (set_color (Some n) c' s) s (Bin d (Bin c' l n r) p q) cs"
  "zip_ok s (Bin d q p (Bin c l n r)) cs \<Longrightarrow> yields (set_color (Some n) c' s) s (Bin d q p (Bin c' l n r)) cs"
  "zip_ok s (Bin d q p (Bin e (Bin c l n r) x y)) cs \<Longrightarrow>
     yields (set_color (Some n) c' s) s (Bin d q p (Bin e (Bin c' l n r) x y)) cs"
  "zip_ok s (Bin d q p (Bin e y x (Bin c l n r))) cs \<Longrightarrow>
     yields (set_color (Some n) c' s) s (Bin d q p (Bin e y x (Bin c' l n r))) cs"
  "zip_ok s (Bin d (Bin e (Bin c l n r) x y) p q) cs \<Longrightarrow>
     yields (set_color (Some n) c' s) s (Bin d (Bin e (Bin c' l n r) x y) p q) cs"
  "zip_ok s (Bin d (Bin e y x (Bin c l n r)) p q) cs \<Longrightarrow>
     yields (set_color (Some n) c' s) s (Bin d (Bin e y x (Bin c' l n r)) p q) cs"
  using set_color_ok [of s c l n r cs c'] set_color_ok [of s c l n r "LF d p q # cs" c']
    set_color_ok [of s c l n r "RF d q p # cs" c'] set_color_ok [of s c l n r "LF e x y # RF d q p # cs" c']
    set_color_ok [of s c l n r "RF e y x # RF d q p # cs" c']
    set_color_ok [of s c l n r "LF e x y # LF d p q # cs" c']
    set_color_ok [of s c l n r "RF e y x # LF d p q # cs" c']
  by (simp_all add: zip_up yields_def)

lemma yields_rotate_left:
  "zip_ok s (Bin d l u (Bin c v n r)) cs \<Longrightarrow> yields (RotateLeft agg (Some n) s) s (Bin c (Bin d l u v) n r) cs"
  "zip_ok s (Bin e (Bin d l u (Bin c v n r)) p q) cs \<Longrightarrow>
     yields (RotateLeft agg (Some n) s) s (Bin e (Bin c (Bin d l u v) n r) p q) cs"
  using RotateLeft_ok [of s c v n r d l u cs agg] RotateLeft_ok [of s c v n r d l u "LF e p q # cs" agg]
  by (simp_all add: zip_up yields_def)

lemma yields_rotate_right:
  "zip_ok s (Bin d (Bin c l n v) u r) cs \<Longrightarrow> yields (RotateRight agg (Some n) s) s (Bin c l n (Bin d v u r)) cs"
  "zip_ok s (Bin e q p (Bin d (Bin c l n v) u r)) cs \<Longrightarrow>
     yields (RotateRight agg (Some n) s) s (Bin e q p (Bin c l n (Bin d v u r))) cs"
  using RotateRight_ok [of s c l n v d u r cs agg] RotateRight_ok [of s c l n v d u r "RF e q p # cs" agg]
  by (simp_all add: zip_up yields_def)

lemmas yields_steps = yields_color yields_rotate_left yields_rotate_right

subsection \<open>The cases of \<open>FixRemove\<close>\<close>

text \<open>A red sibling is rotated above the parent; the node then has a black sibling.\<close>

lemma red_sibling:
  "zip_ok s (Bin cp t p (Bin ck a x d)) cs \<Longrightarrow>
   yields (do { s \<leftarrow> RotateLeft agg (Some x) s; s \<leftarrow> set_color (Some p) Red s; set_color (Some x) Black s }) s
     (Bin Black (Bin Red t p a) x d) cs"
  "zip_ok s (Bin cp (Bin ck a x d) p t) cs \<Longrightarrow>
   yields (do { s \<leftarrow> RotateRight agg (Some x) s; s \<leftarrow> set_color (Some p) Red s; set_color (Some x) Black s }) s
     (Bin Black a x (Bin Red d p t)) cs"
  by (rule yields_bind, erule yields_steps, rule yields_bind, erule yields_steps, erule yields_steps)+

text \<open>The last rotation when a child of the sibling is red, with the colours it leaves.\<close>

lemma last_rotation:
  "zip_ok s (Bin cp t p (Bin ck a x (Bin cy e y f))) cs \<Longrightarrow>
   yields (do { s \<leftarrow> RotateLeft agg (Some x) s; s \<leftarrow> set_color (Some p) Black s; s \<leftarrow> set_color (Some x) pc s;
     r \<leftarrow> GetRight s (Some x); set_color r Black s }) s (Bin pc (Bin Black t p a) x (Bin Black e y f)) cs"
  "zip_ok s (Bin cp (Bin ck (Bin cy e y f) x a) p t) cs \<Longrightarrow>
   yields (do { s \<leftarrow> RotateRight agg (Some x) s; s \<leftarrow> set_color (Some p) Black s; s \<leftarrow> set_color (Some x) pc s;
     l \<leftarrow> GetLeft s (Some x); set_color l Black s }) s (Bin pc (Bin Black e y f) x (Bin Black a p t)) cs"
  by (rule yields_bind, erule yields_steps, rule yields_bind, erule yields_steps, rule yields_bind, erule yields_steps,
      simp add: zip_read, erule yields_steps)+

lemma inner_rotation:
  "zip_ok s (Bin cp t p (Bin ck (Bin cy e y f) x a)) cs \<Longrightarrow>
   yields (do { s \<leftarrow> RotateRight agg (Some y) s; s \<leftarrow> set_color (Some x) Red s; set_color (Some y) Black s }) s
     (Bin cp t p (Bin Black e y (Bin Red f x a))) cs"
  "zip_ok s (Bin cp (Bin ck a x (Bin cy e y f)) p t) cs \<Longrightarrow>
   yields (do { s \<leftarrow> RotateLeft agg (Some y) s; s \<leftarrow> set_color (Some x) Red s; set_color (Some y) Black s }) s
     (Bin cp (Bin Black (Bin Red a x e) y f) p t) cs"
  by (rule yields_bind, erule yields_steps, rule yields_bind, erule yields_steps, erule yields_steps)+

lemma FixRemove_red_left:
  assumes "zip_ok s (Bin c l n r) (LF Black p (Bin Red a x d) # cs)" "is_blk a" "a \<noteq> Tip"
  shows "\<exists>s'. FixRemove agg (Some n) s = FixRemove agg (Some n) s' \<and> same_order s s' \<and>
    zip_ok s' (Bin c l n r) (LF Red p a # LF Black x d # cs)"
proof -
  let ?t = "Bin c l n r"
  have zp: "zip_ok s (Bin Black ?t p (Bin Red a x d)) cs" using assms(1) by (simp add: zip_up)
  from red_sibling(1) [OF this, of agg] obtain s' where
    r: "do { s \<leftarrow> RotateLeft agg (Some x) s; s \<leftarrow> set_color (Some p) Red s; set_color (Some x) Black s } = Some s'"
    and so: "same_order s s'" and z: "zip_ok s' (Bin Black (Bin Red ?t p a) x d) cs"
    unfolding yields_def by blast
  have z1: "zip_ok s' ?t (LF Red p a # LF Black x d # cs)" "zip_ok s' (Bin Red ?t p a) (LF Black x d # cs)"
    "zip_ok s' a (RF Red ?t p # LF Black x d # cs)"
    using z by (simp_all add: zip_up)
  have zx: "zip_ok s (Bin Red a x d) (RF Black ?t p # cs)" using zp by (simp add: zip_up)
  obtain a1 y a2 where a: "a = Bin Black a1 y a2" using assms(2,3) by (cases a) auto
  have "FixRemove agg (Some n) s = FixRemove agg (Some n) s'"
    using zip_read [OF assms(1)] zip_read [OF zp] zip_read [OF zx] r zip_read [OF z1(1)] zip_read [OF z1(2)]
      zip_read [OF z1(3) [unfolded a]] zip_ne [OF zp] a
    by (subst (1 2) FixRemove.simps) (simp del: bind_assoc)
  with so z1(1) show ?thesis by blast
qed

lemma FixRemove_red_right:
  assumes "zip_ok s (Bin c l n r) (RF Black (Bin Red a x d) p # cs)" "is_blk d" "d \<noteq> Tip"
  shows "\<exists>s'. FixRemove agg (Some n) s = FixRemove agg (Some n) s' \<and> same_order s s' \<and>
    zip_ok s' (Bin c l n r) (RF Red d p # RF Black a x # cs)"
proof -
  let ?t = "Bin c l n r"
  have zp: "zip_ok s (Bin Black (Bin Red a x d) p ?t) cs" using assms(1) by (simp add: zip_up)
  from red_sibling(2) [OF this, of agg] obtain s' where
    r: "do { s \<leftarrow> RotateRight agg (Some x) s; s \<leftarrow> set_color (Some p) Red s; set_color (Some x) Black s } = Some s'"
    and so: "same_order s s'" and z: "zip_ok s' (Bin Black a x (Bin Red d p ?t)) cs"
    unfolding yields_def by blast
  have z1: "zip_ok s' ?t (RF Red d p # RF Black a x # cs)" "zip_ok s' (Bin Red d p ?t) (RF Black a x # cs)"
    "zip_ok s' d (LF Red p ?t # RF Black a x # cs)"
    using z by (simp_all add: zip_up)
  have zx: "zip_ok s (Bin Red a x d) (LF Black p ?t # cs)" using zp by (simp add: zip_up)
  obtain a1 y a2 where d: "d = Bin Black a1 y a2" using assms(2,3) by (cases d) auto
  have "FixRemove agg (Some n) s = FixRemove agg (Some n) s'"
    using zip_read [OF assms(1)] zip_read [OF zp] zip_read [OF zx] r zip_read [OF z1(1)] zip_read [OF z1(2)]
      zip_read [OF z1(3) [unfolded d]] zip_ne [OF zp] zip_ne [OF z1(2)] d
    by (subst (1 2) FixRemove.simps) simp
  with so z1(1) show ?thesis by blast
qed

text \<open>A black sibling with black children loses its blackness; a black parent passes the loss on.\<close>

lemma FixRemove_recolour_left:
  assumes "zip_ok s (Bin c l n r) (LF cp p (Bin Black a x d) # cs)" "is_blk a" "is_blk d"
  shows "cp = Black \<Longrightarrow> \<exists>s'. FixRemove agg (Some n) s = FixRemove agg (Some p) s' \<and> same_order s s' \<and>
      zip_ok s' (Bin c l n r) (LF Black p (Bin Red a x d) # cs)"
    "cp = Red \<Longrightarrow> \<exists>s'. FixRemove agg (Some n) s = Some s' \<and> same_order s s' \<and>
      zip_ok s' (Bin c l n r) (LF Black p (Bin Red a x d) # cs)"
proof -
  let ?t = "Bin c l n r"
  have zp: "zip_ok s (Bin cp ?t p (Bin Black a x d)) cs" and zx: "zip_ok s (Bin Black a x d) (RF cp ?t p # cs)"
    and za: "zip_ok s a (LF Black x d # RF cp ?t p # cs)" and zd: "zip_ok s d (RF Black a x # RF cp ?t p # cs)"
    using assms(1) by (simp_all add: zip_up)
  note rd = zip_read [OF assms(1)] zip_read [OF zp] zip_read [OF zx] zip_colors [OF za] zip_colors [OF zd] zip_ne [OF zp] assms(2,3)
  show "\<exists>s'. FixRemove agg (Some n) s = FixRemove agg (Some p) s' \<and> same_order s s' \<and>
      zip_ok s' ?t (LF Black p (Bin Red a x d) # cs)" if bk: "cp = Black"
  proof -
    obtain s' where s': "set_color (Some x) Red s = Some s'" "zip_ok s' (Bin Black ?t p (Bin Red a x d)) cs" "same_order s s'"
      using yields_color(3) [OF zp, of Red] unfolding bk by (rule yieldsE)
    have "FixRemove agg (Some n) s = FixRemove agg (Some p) s'"
      using rd bk s'(1) by (subst FixRemove.simps) simp
    with s' show ?thesis by (auto simp: zip_up)
  qed
  show "\<exists>s'. FixRemove agg (Some n) s = Some s' \<and> same_order s s' \<and>
      zip_ok s' ?t (LF Black p (Bin Red a x d) # cs)" if "cp = Red"
  proof -
    have "yields (do { s \<leftarrow> set_color (Some p) Black s; set_color (Some x) Red s }) s (Bin Black ?t p (Bin Red a x d)) cs"
      using zp by - (rule yields_bind, erule yields_steps, erule yields_steps)
    with rd that show ?thesis unfolding yields_def by (subst FixRemove.simps) (auto simp: zip_up)
  qed
qed

lemma FixRemove_recolour_right:
  assumes "zip_ok s (Bin c l n r) (RF cp (Bin Black a x d) p # cs)" "is_blk a" "is_blk d"
  shows "cp = Black \<Longrightarrow> \<exists>s'. FixRemove agg (Some n) s = FixRemove agg (Some p) s' \<and> same_order s s' \<and>
      zip_ok s' (Bin c l n r) (RF Black (Bin Red a x d) p # cs)"
    "cp = Red \<Longrightarrow> \<exists>s'. FixRemove agg (Some n) s = Some s' \<and> same_order s s' \<and>
      zip_ok s' (Bin c l n r) (RF Black (Bin Red a x d) p # cs)"
proof -
  let ?t = "Bin c l n r"
  have zp: "zip_ok s (Bin cp (Bin Black a x d) p ?t) cs" and zx: "zip_ok s (Bin Black a x d) (LF cp p ?t # cs)"
    and za: "zip_ok s a (LF Black x d # LF cp p ?t # cs)" and zd: "zip_ok s d (RF Black a x # LF cp p ?t # cs)"
    using assms(1) by (simp_all add: zip_up)
  note rd = zip_read [OF assms(1)] zip_read [OF zp] zip_read [OF zx] zip_colors [OF za] zip_colors [OF zd] zip_ne [OF zp] assms(2,3)
  show "\<exists>s'. FixRemove agg (Some n) s = FixRemove agg (Some p) s' \<and> same_order s s' \<and>
      zip_ok s' ?t (RF Black (Bin Red a x d) p # cs)" if bk: "cp = Black"
  proof -
    obtain s' where s': "set_color (Some x) Red s = Some s'" "zip_ok s' (Bin Black (Bin Red a x d) p ?t) cs" "same_order s s'"
      using yields_color(2) [OF zp, of Red] unfolding bk by (rule yieldsE)
    have "FixRemove agg (Some n) s = FixRemove agg (Some p) s'"
      using rd bk s'(1) by (subst FixRemove.simps) simp
    with s' show ?thesis by (auto simp: zip_up)
  qed
  show "\<exists>s'. FixRemove agg (Some n) s = Some s' \<and> same_order s s' \<and>
      zip_ok s' ?t (RF Black (Bin Red a x d) p # cs)" if "cp = Red"
  proof -
    have "yields (do { s \<leftarrow> set_color (Some p) Black s; set_color (Some x) Red s }) s (Bin Black (Bin Red a x d) p ?t) cs"
      using zp by - (rule yields_bind, erule yields_steps, erule yields_steps)
    with rd that show ?thesis unfolding yields_def by (subst FixRemove.simps) (auto simp: zip_up)
  qed
qed

text \<open>A black sibling with a red child supplies the missing black node by rotation.\<close>

lemma FixRemove_rotate_left:
  assumes "zip_ok s (Bin c l n r) (LF cp p (Bin Black a x d) # cs)"
  shows "d = Bin Red e y f \<Longrightarrow> \<exists>s'. FixRemove agg (Some n) s = Some s' \<and> same_order s s' \<and>
      zip_ok s' (Bin c l n r) (LF Black p a # LF cp x (Bin Black e y f) # cs)"
    "is_blk d \<Longrightarrow> a = Bin Red e y f \<Longrightarrow> \<exists>s'. FixRemove agg (Some n) s = Some s' \<and> same_order s s' \<and>
      zip_ok s' (Bin c l n r) (LF Black p e # LF cp y (Bin Black f x d) # cs)"
proof -
  let ?t = "Bin c l n r"
  have zp: "zip_ok s (Bin cp ?t p (Bin Black a x d)) cs" and zx: "zip_ok s (Bin Black a x d) (RF cp ?t p # cs)"
    and za: "zip_ok s a (LF Black x d # RF cp ?t p # cs)" and zd: "zip_ok s d (RF Black a x # RF cp ?t p # cs)"
    using assms(1) by (simp_all add: zip_up)
  note rd = zip_read [OF assms(1)] zip_read [OF zp] zip_read [OF zx] zip_colors [OF za] zip_colors [OF zd] zip_ne [OF zp]
  show "\<exists>s'. FixRemove agg (Some n) s = Some s' \<and> same_order s s' \<and>
      zip_ok s' ?t (LF Black p a # LF cp x (Bin Black e y f) # cs)" if d: "d = Bin Red e y f"
    using last_rotation(1) [OF zp [unfolded d], of agg cp] rd d unfolding yields_def
    by (subst FixRemove.simps) (auto simp: zip_up)
  show "\<exists>s'. FixRemove agg (Some n) s = Some s' \<and> same_order s s' \<and>
      zip_ok s' ?t (LF Black p e # LF cp y (Bin Black f x d) # cs)" if d: "is_blk d" and a: "a = Bin Red e y f"
  proof -
    let ?rot = "do { s \<leftarrow> RotateRight agg (Some y) s; s \<leftarrow> set_color (Some x) Red s; set_color (Some y) Black s }"
    let ?last = "\<lambda>s. do { s \<leftarrow> RotateLeft agg (Some y) s; s \<leftarrow> set_color (Some p) Black s; s \<leftarrow> set_color (Some y) cp s;
      r \<leftarrow> GetRight s (Some y); set_color r Black s }"
    have "yields (?rot \<bind> ?last) s (Bin cp (Bin Black ?t p e) y (Bin Black f x d)) cs"
      by (rule yields_bind, rule inner_rotation(1) [OF zp [unfolded a]], erule last_rotation(1))
    moreover have "FixRemove agg (Some n) s = ?rot \<bind> ?last"
      using rd d a by (subst FixRemove.simps) simp
    ultimately show ?thesis unfolding yields_def by (auto simp: zip_up)
  qed
qed

lemma FixRemove_rotate_right:
  assumes "zip_ok s (Bin c l n r) (RF cp (Bin Black d x a) p # cs)"
  shows "d = Bin Red e y f \<Longrightarrow> \<exists>s'. FixRemove agg (Some n) s = Some s' \<and> same_order s s' \<and>
      zip_ok s' (Bin c l n r) (RF Black a p # RF cp (Bin Black e y f) x # cs)"
    "is_blk d \<Longrightarrow> a = Bin Red e y f \<Longrightarrow> \<exists>s'. FixRemove agg (Some n) s = Some s' \<and> same_order s s' \<and>
      zip_ok s' (Bin c l n r) (RF Black f p # RF cp (Bin Black d x e) y # cs)"
proof -
  let ?t = "Bin c l n r"
  have zp: "zip_ok s (Bin cp (Bin Black d x a) p ?t) cs" and zx: "zip_ok s (Bin Black d x a) (LF cp p ?t # cs)"
    and zd: "zip_ok s d (LF Black x a # LF cp p ?t # cs)" and za: "zip_ok s a (RF Black d x # LF cp p ?t # cs)"
    using assms(1) by (simp_all add: zip_up)
  note rd = zip_read [OF assms(1)] zip_read [OF zp] zip_read [OF zx] zip_colors [OF za] zip_colors [OF zd] zip_ne [OF zp]
  show "\<exists>s'. FixRemove agg (Some n) s = Some s' \<and> same_order s s' \<and>
      zip_ok s' ?t (RF Black a p # RF cp (Bin Black e y f) x # cs)" if d: "d = Bin Red e y f"
    using last_rotation(2) [OF zp [unfolded d], of agg cp] rd d unfolding yields_def
    by (subst FixRemove.simps) (auto simp: zip_up)
  show "\<exists>s'. FixRemove agg (Some n) s = Some s' \<and> same_order s s' \<and>
      zip_ok s' ?t (RF Black f p # RF cp (Bin Black d x e) y # cs)" if d: "is_blk d" and a: "a = Bin Red e y f"
  proof -
    let ?rot = "do { s \<leftarrow> RotateLeft agg (Some y) s; s \<leftarrow> set_color (Some x) Red s; set_color (Some y) Black s }"
    let ?last = "\<lambda>s. do { s \<leftarrow> RotateRight agg (Some y) s; s \<leftarrow> set_color (Some p) Black s; s \<leftarrow> set_color (Some y) cp s;
      l \<leftarrow> GetLeft s (Some y); set_color l Black s }"
    have "yields (?rot \<bind> ?last) s (Bin cp (Bin Black d x e) y (Bin Black f p ?t)) cs"
      by (rule yields_bind, rule inner_rotation(2) [OF zp [unfolded a]], erule last_rotation(2))
    moreover have "FixRemove agg (Some n) s = ?rot \<bind> ?last"
      using rd d a by (subst FixRemove.simps) simp
    ultimately show ?thesis unfolding yields_def by (auto simp: zip_up)
  qed
qed

subsection \<open>\<open>FixRemove\<close> lowers the black height of a position\<close>

lemma cbef_append: "cbef (fs @ cs) = cbef cs @ cbef fs"
  by (induction fs) auto

lemma caft_append: "caft (fs @ cs) = caft fs @ caft cs"
  by (induction fs) auto

lemma plug_append: "plug t (fs @ cs) = plug (plug t fs) cs"
  by (induction fs arbitrary: t) auto

lemma blk_bin: "is_blk t \<Longrightarrow> bh t = Suc b \<Longrightarrow> (\<And>a x d. t = Bin Black a x d \<Longrightarrow> bh a = b \<Longrightarrow> thesis) \<Longrightarrow> thesis"
  by (cases t) auto

text \<open>One of the ways in which a step ends: the frames \<open>fs\<close> replace the frame of the parent.\<close>

definition settled ::
  "('p, 'd) rb_tree option \<Rightarrow> ('p, 'd) rb_tree \<Rightarrow> 'p rbt \<Rightarrow> nat \<Rightarrow> 'p frame list \<Rightarrow> bool" where
  "settled m s t b cs \<longleftrightarrow> (\<exists>s' cs'. m = Some s' \<and> same_order s s' \<and> zip_ok s' t cs' \<and> cinv b cs' \<and>
     cbef cs' = cbef cs \<and> caft cs' = caft cs)"

lemma settledI:
  "m = Some s' \<Longrightarrow> same_order s s' \<Longrightarrow> zip_ok s' t cs' \<Longrightarrow> cinv b cs' \<Longrightarrow> cbef cs' = cbef cs \<Longrightarrow> caft cs' = caft cs \<Longrightarrow>
   settled m s t b cs"
  unfolding settled_def by blast

lemma settled_step:
  "same_order s s' \<Longrightarrow> settled m s' t b cs' \<Longrightarrow> cbef cs' = cbef cs \<Longrightarrow> caft cs' = caft cs \<Longrightarrow> settled m s t b cs"
  unfolding settled_def using same_order_trans by metis

lemma not_blk: "rbi t \<Longrightarrow> \<not> is_blk t \<Longrightarrow> (\<And>a x d. t = Bin Red a x d \<Longrightarrow> thesis) \<Longrightarrow> thesis"
  using red_or_black [of t] by (auto elim: is_redE)

lemma FixRemove_step_left:
  assumes z: "zip_ok s (Bin c l n r) (LF cp p q # cs)" and inv: "cinv (Suc b) (LF cp p q # cs)" and blk: "is_blk q"
  shows "settled (FixRemove agg (Some n) s) s (Bin c l n r) b (LF cp p q # cs) \<or>
    (cp = Black \<and> (\<exists>s' q'. FixRemove agg (Some n) s = FixRemove agg (Some p) s' \<and> same_order s s' \<and>
      zip_ok s' (Bin c l n r) (LF Black p q' # cs) \<and> rbi q' \<and> bh q' = b \<and> inord q' = inord q))"
proof -
  obtain a x d where q: "q = Bin Black a x d" and a: "bh a = b" using inv blk by (auto elim: blk_bin)
  have i: "rbi a" "rbi d" "bh d = b" "cp \<noteq> Null" "cp = Red \<Longrightarrow> cs \<noteq> [] \<and> fcol (hd cs) = Black"
    "cinv (Suc b + (if cp = Black then 1 else 0)) cs"
    using inv a by (auto simp: q split: if_splits)
  show ?thesis
  proof (cases "is_blk d")
    case False
    then obtain e y f where d: "d = Bin Red e y f" using not_blk [OF i(2)] by blast
    from FixRemove_rotate_left(1) [OF z [unfolded q] d, of agg] obtain s' where
      s': "FixRemove agg (Some n) s = Some s'" "same_order s s'"
        "zip_ok s' (Bin c l n r) (LF Black p a # LF cp x (Bin Black e y f) # cs)" by blast
    show ?thesis by (rule disjI1, rule settledI [OF s']) (use i a in \<open>auto simp: q d\<close>)
  next
    case blkd: True
    show ?thesis
    proof (cases "is_blk a")
      case False
      then obtain e y f where a': "a = Bin Red e y f" using not_blk [OF i(1)] by blast
      from FixRemove_rotate_left(2) [OF z [unfolded q] blkd a', of agg] obtain s' where
        s': "FixRemove agg (Some n) s = Some s'" "same_order s s'"
          "zip_ok s' (Bin c l n r) (LF Black p e # LF cp y (Bin Black f x d) # cs)" by blast
      show ?thesis by (rule disjI1, rule settledI [OF s']) (use i a blkd in \<open>auto simp: q a'\<close>)
    next
      case True
      note R = FixRemove_recolour_left [OF z [unfolded q] True blkd, of agg]
      show ?thesis
      proof (cases "cp = Black")
        case cp: True
        from R(1) [OF cp] obtain s' where "FixRemove agg (Some n) s = FixRemove agg (Some p) s'" "same_order s s'"
          "zip_ok s' (Bin c l n r) (LF Black p (Bin Red a x d) # cs)" by blast
        then show ?thesis using i a True blkd cp by (intro disjI2 conjI exI [of _ s'] exI [of _ "Bin Red a x d"]) (auto simp: q)
      next
        case False
        then have cp: "cp = Red" using i(4) by (cases cp) auto
        from R(2) [OF cp] obtain s' where s': "FixRemove agg (Some n) s = Some s'" "same_order s s'"
          "zip_ok s' (Bin c l n r) (LF Black p (Bin Red a x d) # cs)" by blast
        show ?thesis by (rule disjI1, rule settledI [OF s']) (use i a True blkd cp in \<open>auto simp: q\<close>)
      qed
    qed
  qed
qed

lemma FixRemove_step_right:
  assumes z: "zip_ok s (Bin c l n r) (RF cp q p # cs)" and inv: "cinv (Suc b) (RF cp q p # cs)" and blk: "is_blk q"
  shows "settled (FixRemove agg (Some n) s) s (Bin c l n r) b (RF cp q p # cs) \<or>
    (cp = Black \<and> (\<exists>s' q'. FixRemove agg (Some n) s = FixRemove agg (Some p) s' \<and> same_order s s' \<and>
      zip_ok s' (Bin c l n r) (RF Black q' p # cs) \<and> rbi q' \<and> bh q' = b \<and> inord q' = inord q))"
proof -
  obtain d x a where q: "q = Bin Black d x a" and d: "bh d = b" using inv blk by (auto elim: blk_bin)
  have i: "rbi a" "rbi d" "bh a = b" "cp \<noteq> Null" "cp = Red \<Longrightarrow> cs \<noteq> [] \<and> fcol (hd cs) = Black"
    "cinv (Suc b + (if cp = Black then 1 else 0)) cs"
    using inv d by (auto simp: q split: if_splits)
  show ?thesis
  proof (cases "is_blk d")
    case False
    then obtain e y f where d': "d = Bin Red e y f" using not_blk [OF i(2)] by blast
    from FixRemove_rotate_right(1) [OF z [unfolded q] d', of agg] obtain s' where
      s': "FixRemove agg (Some n) s = Some s'" "same_order s s'"
        "zip_ok s' (Bin c l n r) (RF Black a p # RF cp (Bin Black e y f) x # cs)" by blast
    show ?thesis by (rule disjI1, rule settledI [OF s']) (use i d in \<open>auto simp: q d'\<close>)
  next
    case blkd: True
    show ?thesis
    proof (cases "is_blk a")
      case False
      then obtain e y f where a': "a = Bin Red e y f" using not_blk [OF i(1)] by blast
      from FixRemove_rotate_right(2) [OF z [unfolded q] blkd a', of agg] obtain s' where
        s': "FixRemove agg (Some n) s = Some s'" "same_order s s'"
          "zip_ok s' (Bin c l n r) (RF Black f p # RF cp (Bin Black d x e) y # cs)" by blast
      show ?thesis by (rule disjI1, rule settledI [OF s']) (use i d blkd in \<open>auto simp: q a'\<close>)
    next
      case True
      note R = FixRemove_recolour_right [OF z [unfolded q] blkd True, of agg]
      show ?thesis
      proof (cases "cp = Black")
        case cp: True
        from R(1) [OF cp] obtain s' where "FixRemove agg (Some n) s = FixRemove agg (Some p) s'" "same_order s s'"
          "zip_ok s' (Bin c l n r) (RF Black (Bin Red d x a) p # cs)" by blast
        then show ?thesis using i d True blkd cp by (intro disjI2 conjI exI [of _ s'] exI [of _ "Bin Red d x a"]) (auto simp: q)
      next
        case False
        then have cp: "cp = Red" using i(4) by (cases cp) auto
        from R(2) [OF cp] obtain s' where s': "FixRemove agg (Some n) s = Some s'" "same_order s s'"
          "zip_ok s' (Bin c l n r) (RF Black (Bin Red d x a) p # cs)" by blast
        show ?thesis by (rule disjI1, rule settledI [OF s']) (use i d True blkd cp in \<open>auto simp: q\<close>)
      qed
    qed
  qed
qed

lemma FixRemove_ok:
  assumes "zip_ok s (Bin c l n r) cs" "cinv (Suc b) cs"
  shows "settled (FixRemove agg (Some n) s) s (Bin c l n r) b cs"
  using assms
proof (induction cs arbitrary: s c l n r b)
  case Nil
  then show ?case using zip_read(1) [OF Nil.prems(1)]
    by (intro settledI [of _ s s _ "[]"]) (subst FixRemove.simps, simp_all)
next
  case (Cons f cs)
  let ?t = "Bin c l n r"
  show ?case
  proof (cases f)
    case f: (LF cp p q)
    show ?thesis
    proof (cases "is_blk q")
      case True
      from FixRemove_step_left [OF Cons.prems [unfolded f] True, of agg] show ?thesis
      proof (elim disjE conjE exE)
        fix s' q'
        assume a: "cp = Black" "FixRemove agg (Some n) s = FixRemove agg (Some p) s'" "same_order s s'"
          "zip_ok s' ?t (LF Black p q' # cs)" "rbi q'" "bh q' = b" "inord q' = inord q"
        have "settled (FixRemove agg (Some p) s') s' (Bin Black ?t p q') (Suc b) cs"
          using Cons.prems(2) a(1,4) by (intro Cons.IH) (auto simp: f zip_up)
        then obtain s2 cs' where r: "FixRemove agg (Some p) s' = Some s2" "same_order s' s2"
          "zip_ok s2 (Bin Black ?t p q') cs'" "cinv (Suc b) cs'" "cbef cs' = cbef cs" "caft cs' = caft cs"
          unfolding settled_def by blast
        show ?thesis
          by (rule settledI [of _ s2 _ _ "LF Black p q' # cs'"])
            (use a r same_order_trans in \<open>auto simp: f zip_up\<close>)
      qed (simp add: f)
    next
      case False
      then obtain a x d where q: "q = Bin Red a x d" using Cons.prems(2) f by (auto elim: not_blk)
      have cp: "cp = Black" using Cons.prems(2) by (auto simp: f q intro: black_color)
      have i: "is_blk a" "is_blk d" "rbi a" "rbi d" "bh a = Suc b" "bh d = Suc b" "cinv (Suc (Suc b)) cs"
        using Cons.prems(2) by (auto simp: f q cp)
      then have "a \<noteq> Tip" "d \<noteq> Tip" by auto
      with i obtain s' where s': "FixRemove agg (Some n) s = FixRemove agg (Some n) s'" "same_order s s'"
        "zip_ok s' ?t (LF Red p a # LF Black x d # cs)"
        using FixRemove_red_left [of s c l n r p a x d cs agg] Cons.prems(1) by (auto simp: f q cp)
      have "settled (FixRemove agg (Some n) s') s' ?t b (LF Red p a # LF Black x d # cs)"
        using FixRemove_step_left [OF s'(3), of b agg] i by simp
      then show ?thesis unfolding s'(1) by (rule settled_step [OF s'(2)]) (simp_all add: f q cp)
    qed
  next
    case f: (RF cp q p)
    show ?thesis
    proof (cases "is_blk q")
      case True
      from FixRemove_step_right [OF Cons.prems [unfolded f] True, of agg] show ?thesis
      proof (elim disjE conjE exE)
        fix s' q'
        assume a: "cp = Black" "FixRemove agg (Some n) s = FixRemove agg (Some p) s'" "same_order s s'"
          "zip_ok s' ?t (RF Black q' p # cs)" "rbi q'" "bh q' = b" "inord q' = inord q"
        have "settled (FixRemove agg (Some p) s') s' (Bin Black q' p ?t) (Suc b) cs"
          using Cons.prems(2) a(1,4) by (intro Cons.IH) (auto simp: f zip_up)
        then obtain s2 cs' where r: "FixRemove agg (Some p) s' = Some s2" "same_order s' s2"
          "zip_ok s2 (Bin Black q' p ?t) cs'" "cinv (Suc b) cs'" "cbef cs' = cbef cs" "caft cs' = caft cs"
          unfolding settled_def by blast
        show ?thesis
          by (rule settledI [of _ s2 _ _ "RF Black q' p # cs'"])
            (use a r same_order_trans in \<open>auto simp: f zip_up\<close>)
      qed (simp add: f)
    next
      case False
      then obtain a x d where q: "q = Bin Red a x d" using Cons.prems(2) f by (auto elim: not_blk)
      have cp: "cp = Black" using Cons.prems(2) by (auto simp: f q intro: black_color)
      have i: "is_blk a" "is_blk d" "rbi a" "rbi d" "bh a = Suc b" "bh d = Suc b" "cinv (Suc (Suc b)) cs"
        using Cons.prems(2) by (auto simp: f q cp)
      then have "a \<noteq> Tip" "d \<noteq> Tip" by auto
      with i obtain s' where s': "FixRemove agg (Some n) s = FixRemove agg (Some n) s'" "same_order s s'"
        "zip_ok s' ?t (RF Red d p # RF Black a x # cs)"
        using FixRemove_red_right [of s c l n r a x d p cs agg] Cons.prems(1) by (auto simp: f q cp)
      have "settled (FixRemove agg (Some n) s') s' ?t b (RF Red d p # RF Black a x # cs)"
        using FixRemove_step_right [OF s'(3), of b agg] i by simp
      then show ?thesis unfolding s'(1) by (rule settled_step [OF s'(2)]) (simp_all add: f q cp)
    qed
  qed
qed

subsection \<open>Unlinking a node with at most one child\<close>

lemma zip_struct:
  "\<forall>a. same_struct (h a) (rb_hooks s a) \<Longrightarrow> zip_ok (s\<lparr> rb_hooks := h \<rparr>) t cs = zip_ok s t cs"
  using tr_struct [of t h "rb_hooks s"] cx_struct [of cs h "rb_hooks s"] by (simp add: zip_ok_def)

lemma AggregatePath_top:
  "zip_ok s t cs \<Longrightarrow> \<exists>s'. (if top_of cs \<noteq> None then AggregatePath agg (top_of cs) s else Some s) = Some s' \<and>
     rb_hooks s' = rb_hooks s \<and> rb_root s' = rb_root s"
  using AggregatePath_ok [of s t cs agg] by (auto simp del: not_None_eq)

lemma unlink_ok:
  assumes "zip_ok s (plug1 g t) cs" "fsib g = Tip" "fnode g = n"
  shows "\<exists>s'. do { parent \<leftarrow> GetParent s (Some n);
      s \<leftarrow> replace_child parent (Some n) (ptr t) s;
      s \<leftarrow> (if ptr t \<noteq> None then hk_upd (ptr t) (\<lambda>k. k\<lparr> hk_parent := parent \<rparr>) s else Some s);
      s \<leftarrow> clear_hook (Some n) s;
      if parent \<noteq> None then AggregatePath agg parent s else Some s } = Some s' \<and>
    zip_ok s' t cs \<and> unhooked (rb_hooks s' n) \<and>
    (\<forall>a. a \<noteq> n \<longrightarrow> hk_predecessor (rb_hooks s' a) = hk_predecessor (rb_hooks s a) \<and>
       hk_successor (rb_hooks s' a) = hk_successor (rb_hooks s a))"
proof -
  let ?p = "top_of cs"
  have t: "tr (rb_hooks s) (Some n) t" "cx (rb_hooks s) (rb_root s) (Some n) cs" "hk_parent (rb_hooks s n) = ?p"
    "distinct (inord t @ cnodes cs)" "n \<notin> set (inord t)" "n \<notin> set (cnodes cs)"
    using assms by (cases g; auto simp: zip_ok_def)+
  from replace_child_ok [of s n cs "ptr t"] t obtain s1 where
    s1: "replace_child ?p (Some n) (ptr t) s = Some s1" "cx (rb_hooks s1) (rb_root s1) (ptr t) cs"
      "\<forall>a. a \<notin> set (cnodes cs) \<longrightarrow> rb_hooks s1 a = rb_hooks s a" "same_order s s1" by auto
  let ?h = "rb_hooks s1"
  define h2 where "h2 = (case ptr t of None \<Rightarrow> ?h | Some x \<Rightarrow> ?h(x := (?h x)\<lparr> hk_parent := ?p \<rparr>))"
  define h3 where "h3 = h2(n := (h2 n)\<lparr> hk_left := None, hk_right := None, hk_parent := None,
    hk_predecessor := None, hk_successor := None \<rparr>)"
  have "tr ?h (Some n) t" using t s1(3) by (subst tr_cong [of t _ "rb_hooks s"]) auto
  then have "tr h3 ?p t" using t by (cases t) (auto simp: h2_def h3_def)
  moreover have "cx h3 (rb_root s1) (ptr t) cs"
    using s1(2) t by (subst cx_cong [of cs _ ?h]) (auto simp: h2_def h3_def dest: ptr_in split: option.splits)
  ultimately have z: "zip_ok (s1\<lparr> rb_hooks := h3 \<rparr>) t cs" using t by (simp add: zip_ok_def)
  from AggregatePath_top [OF this, of agg] obtain s' where s':
    "(if ?p \<noteq> None then AggregatePath agg ?p (s1\<lparr> rb_hooks := h3 \<rparr>) else Some (s1\<lparr> rb_hooks := h3 \<rparr>)) = Some s'"
    "rb_hooks s' = h3" "rb_root s' = rb_root s1" by auto
  have "clear_hook (Some n) (s1\<lparr> rb_hooks := h2 \<rparr>) = Some (s1\<lparr> rb_hooks := h3 \<rparr>)"
    by (simp add: clear_hook_def hk_upd_def h3_def)
  moreover have "(if ptr t \<noteq> None then hk_upd (ptr t) (\<lambda>k. k\<lparr> hk_parent := ?p \<rparr>) s1 else Some s1) = Some (s1\<lparr> rb_hooks := h2 \<rparr>)"
    by (cases "ptr t") (simp_all add: hk_upd_def h2_def)
  moreover have "zip_ok s' t cs" using z zip_ok_hooks(1) [of s' "s1\<lparr> rb_hooks := h3 \<rparr>"] s'(2,3) by simp
  moreover have "\<forall>a. a \<noteq> n \<longrightarrow> hk_predecessor (h3 a) = hk_predecessor (rb_hooks s a) \<and> hk_successor (h3 a) = hk_successor (rb_hooks s a)"
    using s1(4) by (auto simp: h3_def h2_def same_order_def split: option.splits)
  moreover have "unhooked (h3 n)" by (simp add: h3_def unhooked_def)
  ultimately show ?thesis using t(3) s1(1) s'(1,2) by (simp add: GetParent_def hk_def)
qed

text \<open>Making the loss of the node \<open>n\<close> harmless; \<open>t\<close> is its only child, if it has one.\<close>

lemma prepare_removal:
  assumes "zip_ok s (plug1 g t) cs" "fsib g = Tip" "fnode g = n" "rb_ok (plug (plug1 g t) cs)"
  shows "\<exists>s' t' cs'. do { c \<leftarrow> get_color s (Some n);
      if c = Black then if IsRed s (ptr t) then set_color (ptr t) Black s else FixRemove agg (Some n) s else Some s } = Some s' \<and>
    same_order s s' \<and> zip_ok s' (plug1 g t') cs' \<and> ptr t' = ptr t \<and> inord t' = inord t \<and> cbef cs' = cbef cs \<and>
    caft cs' = caft cs \<and> rbi t' \<and> is_blk t' \<and> cinv (bh t') cs'"
proof -
  have i: "rbi (plug1 g t)" "cinv (bh (plug1 g t)) cs" using plug_rbiD assms(4) unfolding rb_ok_def by blast+
  then have t: "rbi t" "bh t = 0" "fcol g = Red \<Longrightarrow> is_blk t" "bh (plug1 g t) = (if fcol g = Black then 1 else 0)" "fcol g \<noteq> Null"
    using assms(2) by (cases g; auto)+
  have c: "get_color s (Some n) = Some (fcol g)" and zt: "zip_ok s t (g # cs)"
    using assms(1,3) by (cases g; simp add: zip_read zip_up)+
  have tip: "is_blk t \<Longrightarrow> t = Tip" using t(2) by (cases t) auto
  consider (red) "fcol g = Red" | (child) "fcol g = Black" "is_red t" | (leaf) "fcol g = Black" "\<not> is_red t"
    using t(5) by (cases "fcol g") auto
  then show ?thesis
  proof cases
    case red
    then show ?thesis using c t i assms(1) by (intro exI [of _ s] exI [of _ t] exI [of _ cs]) auto
  next
    case child
    then obtain a x b where t': "t = Bin Red a x b" by (auto elim: is_redE)
    obtain s' where "set_color (Some x) Black s = Some s'" "zip_ok s' (Bin Black a x b) (g # cs)" "same_order s s'"
      using set_color_ok [OF zt [unfolded t']] by blast
    then show ?thesis using c t i child zip_colors(1) [OF zt]
      by (intro exI [of _ s'] exI [of _ "Bin Black a x b"] exI [of _ cs]) (auto simp: t' zip_up)
  next
    case leaf
    then have "t = Tip" using tip red_or_black [OF t(1)] by auto
    have "cinv (Suc 0) cs" using i(2) t(4) leaf by simp
    moreover have "\<exists>c l r. plug1 g t = Bin c l n r" using assms(3) by (cases g) auto
    ultimately have "settled (FixRemove agg (Some n) s) s (plug1 g t) 0 cs" using FixRemove_ok assms(1) by metis
    then obtain s' cs' where "FixRemove agg (Some n) s = Some s'" "same_order s s'" "zip_ok s' (plug1 g t) cs'" "cinv 0 cs'"
      "cbef cs' = cbef cs" "caft cs' = caft cs" unfolding settled_def by blast
    then show ?thesis
      using c leaf zip_colors(1) [OF zt] \<open>t = Tip\<close> by (intro exI [of _ s'] exI [of _ t] exI [of _ cs']) simp
  qed
qed

definition upd_opt :: "'p option \<Rightarrow> ('p rb_hook \<Rightarrow> 'p rb_hook) \<Rightarrow> ('p \<Rightarrow> 'p rb_hook) \<Rightarrow> 'p \<Rightarrow> 'p rb_hook" where
  "upd_opt item f h a = (if item = Some a then f (h a) else h a)"

lemma hk_upd_if: "(if item \<noteq> None then hk_upd item f s else Some s) = Some (s\<lparr> rb_hooks := upd_opt item f (rb_hooks s) \<rparr>)"
  by (cases item) (auto simp: hk_upd_def upd_opt_def fun_eq_iff)

lemma hk_upd_Some: "hk_upd (Some a) f s = Some (s\<lparr> rb_hooks := upd_opt (Some a) f (rb_hooks s) \<rparr>)"
  by (auto simp: hk_upd_def upd_opt_def fun_eq_iff)

text \<open>A node leaves the order links of the list it is in.\<close>

definition bypass :: "'p option \<Rightarrow> 'p option \<Rightarrow> ('p \<Rightarrow> 'p rb_hook) \<Rightarrow> 'p \<Rightarrow> 'p rb_hook" where
  "bypass P S h =
     upd_opt S (\<lambda>k. k\<lparr> hk_predecessor := P \<rparr>) (upd_opt P (\<lambda>k. k\<lparr> hk_successor := S \<rparr>) h)"

lemma bypass_struct: "same_struct (bypass P S h a) (h a)"
  by (auto simp: bypass_def same_struct_def upd_opt_def)

lemma olinks_upd_opt: "(case item of None \<Rightarrow> True | Some a \<Rightarrow> a \<notin> set xs) \<Longrightarrow> olinks (upd_opt item f h) bef xs aft = olinks h bef xs aft"
  by (rule olinks_cong) (auto simp: upd_opt_def)

lemma bypass_links:
  assumes "olinks h None (A @ n # B) None" "distinct (A @ n # B)"
  shows "olinks (bypass (last_or None A) (hd_or B None) h) None (A @ B) None"
proof (cases A rule: rev_cases)
  case Nil
  with assms show ?thesis by (cases B) (auto simp: bypass_def olinks_upd_opt olinks_append upd_opt_def)
next
  case (snoc A' q)
  with assms show ?thesis by (cases B) (auto simp: bypass_def olinks_upd_opt olinks_append upd_opt_def)
qed

lemma split_unique: "X @ n # Y = A @ n # B \<Longrightarrow> distinct (A @ n # B) \<Longrightarrow> X = A \<and> Y = B"
proof (induction X arbitrary: A)
  case Nil
  then show ?case by (cases A) auto
next
  case (Cons x X)
  then show ?case by (cases A) auto
qed

lemma RemoveHalfLeaf_ok:
  assumes z: "zip_ok s (plug1 g t) cs" and g: "fsib g = Tip" "fnode g = n" and ok: "rb_ok (plug (plug1 g t) cs)"
    and io: "inord (plug (plug1 g t) cs) = A @ n # B" and ol: "olinks (rb_hooks s) None (A @ n # B) None"
  shows "\<exists>s' T. RemoveHalfLeaf agg (Some n) (ptr t) s = Some s' \<and> rb_rep s' T \<and> inord T = A @ B \<and> unhooked (rb_hooks s' n)"
proof -
  let ?P = "last_or None A" and ?S = "hd_or B None"
  let ?s1 = "s\<lparr> rb_hooks := bypass ?P ?S (rb_hooks s) \<rparr>"
  have d: "distinct (A @ n # B)" using z zip_plug [of s "plug1 g t" cs] io by (auto simp: zip_ok_def)
  have ps: "hk_predecessor (rb_hooks s n) = ?P" "hk_successor (rb_hooks s n) = ?S"
    using ol by (simp_all add: olinks_append)
  have z1: "zip_ok ?s1 (plug1 g t) cs" using z by (subst zip_struct) (simp_all add: bypass_struct)
  have o1: "olinks (rb_hooks ?s1) None (A @ B) None" using bypass_links [OF ol d] by simp
  from prepare_removal [OF z1 g ok, of agg] obtain s2 t' cs' where s2: "do { c \<leftarrow> get_color ?s1 (Some n);
      if c = Black then if IsRed ?s1 (ptr t) then set_color (ptr t) Black ?s1 else FixRemove agg (Some n) ?s1 else Some ?s1 } = Some s2"
    "same_order ?s1 s2" "zip_ok s2 (plug1 g t') cs'" "ptr t' = ptr t" "inord t' = inord t" "cbef cs' = cbef cs"
    "caft cs' = caft cs" "rbi t'" "is_blk t'" "cinv (bh t') cs'" by blast
  from unlink_ok [OF s2(3) g, of agg] obtain s' where s': "do { parent \<leftarrow> GetParent s2 (Some n);
      s \<leftarrow> replace_child parent (Some n) (ptr t') s2;
      s \<leftarrow> (if ptr t' \<noteq> None then hk_upd (ptr t') (\<lambda>k. k\<lparr> hk_parent := parent \<rparr>) s else Some s);
      s \<leftarrow> clear_hook (Some n) s;
      if parent \<noteq> None then AggregatePath agg parent s else Some s } = Some s'"
    "zip_ok s' t' cs'" "unhooked (rb_hooks s' n)"
    "\<forall>a. a \<noteq> n \<longrightarrow> hk_predecessor (rb_hooks s' a) = hk_predecessor (rb_hooks s2 a) \<and>
       hk_successor (rb_hooks s' a) = hk_successor (rb_hooks s2 a)" by blast
  have AB: "inord (plug t' cs') = A @ B"
  proof -
    have "cbef cs @ inord (plug1 g t) @ caft cs = A @ n # B" using io by (simp add: inord_plug_eq)
    moreover have "\<exists>X Y. inord (plug1 g t) = X @ n # Y \<and> inord t = X @ Y" using g by (cases g) auto
    ultimately obtain X Y where xy: "(cbef cs @ X) @ n # (Y @ caft cs) = A @ n # B" "inord t = X @ Y" by auto
    then have "cbef cs @ X = A" "Y @ caft cs = B" using split_unique d by metis+
    then show ?thesis using s2(5-7) xy(2) by (auto simp: inord_plug_eq)
  qed
  have "rb_ok (plug t' cs')" using plug_rbi [OF s2(8,10)] s2(9) by (simp add: rb_ok_def)
  moreover have "olinks (rb_hooks s') None (A @ B) None"
    using o1 s2(2) s'(4) d by (subst olinks_cong [of _ _ "rb_hooks ?s1"]) (auto simp: same_order_def)
  ultimately have "rb_rep s' (plug t' cs')" using s'(2) zip_plug AB by (auto simp: rb_rep_def)
  moreover have "RemoveHalfLeaf agg (Some n) (ptr t) s = Some s'"
  proof -
    have "RemoveHalfLeaf agg (Some n) (ptr t) s = do { s \<leftarrow> do { c \<leftarrow> get_color ?s1 (Some n);
        if c = Black then if IsRed ?s1 (ptr t) then set_color (ptr t) Black ?s1 else FixRemove agg (Some n) ?s1 else Some ?s1 };
      parent \<leftarrow> GetParent s (Some n);
      s \<leftarrow> replace_child parent (Some n) (ptr t) s;
      s \<leftarrow> (if ptr t \<noteq> None then hk_upd (ptr t) (\<lambda>k. k\<lparr> hk_parent := parent \<rparr>) s else Some s);
      s \<leftarrow> clear_hook (Some n) s;
      if parent \<noteq> None then AggregatePath agg parent s else Some s }"
      unfolding RemoveHalfLeaf_def hk_upd_if using ps by (simp add: bypass_def Predecessor_def Successor_def hk_def cong: if_cong)
    then show ?thesis using s2(1) s'(1) unfolding s2(4) by simp
  qed
  ultimately show ?thesis using s'(3) AB by blast
qed

subsection \<open>Putting a node in the place of another\<close>

definition stand_in ::
  "'p \<Rightarrow> 'p \<Rightarrow> 'p option \<Rightarrow> 'p option \<Rightarrow> 'p option \<Rightarrow> ('p \<Rightarrow> 'p rb_hook) \<Rightarrow> 'p \<Rightarrow> 'p rb_hook" where
  "stand_in n x pa l r h a =
     (if a = n then (h n)\<lparr> hk_left := None, hk_right := None, hk_parent := None, hk_predecessor := None, hk_successor := None \<rparr>
      else if a = x
      then (h x)\<lparr> hk_parent := pa, hk_left := l, hk_right := r, hk_color := hk_color (h n),
             hk_predecessor := hk_predecessor (h n), hk_successor := hk_successor (h n) \<rparr>
      else (h a)\<lparr> hk_parent := (if l = Some a \<or> r = Some a then Some x else hk_parent (h a)),
             hk_successor := (if hk_predecessor (h n) = Some a then Some x else hk_successor (h a)),
             hk_predecessor := (if hk_successor (h n) = Some a then Some x else hk_predecessor (h a)) \<rparr>)"

lemma ReplaceNode_eq:
  assumes "GetParent s (Some n) = Some pa" "GetLeft s (Some n) = Some l" "GetRight s (Some n) = Some r"
    "replace_child pa (Some n) (Some x) s = Some s1" "rb_hooks s1 n = rb_hooks s n" "n \<noteq> x"
    "l \<noteq> Some n" "r \<noteq> Some n" "l \<noteq> Some x" "r \<noteq> Some x" "hk_predecessor (rb_hooks s n) \<notin> {Some n, Some x}"
    "hk_successor (rb_hooks s n) \<notin> {Some n, Some x}"
  shows "ReplaceNode agg (Some n) (Some x) s =
    do { s \<leftarrow> AggregateNode agg (Some x) (s1\<lparr> rb_hooks := stand_in n x pa l r (rb_hooks s1) \<rparr>); AggregatePath agg pa s }"
proof -
  let ?h = "rb_hooks s1"
  have "upd_opt (Some n) (\<lambda>k. k\<lparr> hk_left := None, hk_right := None, hk_parent := None, hk_predecessor := None, hk_successor := None \<rparr>)
      (upd_opt (hk_successor (?h n)) (hk_predecessor_update (\<lambda>_. Some x))
        (upd_opt (Some x) (hk_successor_update (\<lambda>_. hk_successor (?h n)))
          (upd_opt (Some x) (hk_predecessor_update (\<lambda>_. hk_predecessor (?h n)))
            (upd_opt (hk_predecessor (?h n)) (hk_successor_update (\<lambda>_. Some x))
              (upd_opt r (hk_parent_update (\<lambda>_. Some x))
                (upd_opt (Some x) (hk_right_update (\<lambda>_. r))
                  (upd_opt l (hk_parent_update (\<lambda>_. Some x))
                    (upd_opt (Some x) (hk_left_update (\<lambda>_. l))
                      (upd_opt (Some x) (hk_color_update (\<lambda>_. hk_color (?h n)))
                        (upd_opt (Some x) (hk_parent_update (\<lambda>_. pa)) ?h)))))))))) =
    stand_in n x pa l r ?h"
    using assms(5-) by (auto simp: upd_opt_def stand_in_def fun_eq_iff)
  then show ?thesis
    using assms unfolding ReplaceNode_def hk_upd_if clear_hook_def set_color_def hk_upd_Some
    by (simp add: Predecessor_def Successor_def get_color_def hk_def upd_opt_def)
qed

lemma olinks_stand_in:
  "n \<notin> set xs \<Longrightarrow> x \<notin> set xs \<Longrightarrow> (case hk_predecessor (h n) of None \<Rightarrow> True | Some a \<Rightarrow> a \<notin> set xs) \<Longrightarrow>
   (case hk_successor (h n) of None \<Rightarrow> True | Some a \<Rightarrow> a \<notin> set xs) \<Longrightarrow>
   olinks (stand_in n x pa l r h) bef xs aft = olinks h bef xs aft"
  by (rule olinks_cong) (auto simp: stand_in_def)

lemma stand_in_tr:
  assumes "tr h (Some n) t" "distinct (inord t)" "n \<notin> set (inord t)" "x \<notin> set (inord t)"
    "\<forall>q \<in> set (inord t). (l = Some q \<or> r = Some q) \<longleftrightarrow> ptr t = Some q"
  shows "tr (stand_in n x pa l r h) (Some x) t"
proof (cases t)
  case (Bin c a y b)
  have "tr (stand_in n x pa l r h) (Some y) a = tr h (Some y) a" "tr (stand_in n x pa l r h) (Some y) b = tr h (Some y) b"
    using assms Bin by (intro tr_struct; auto simp: same_struct_def stand_in_def)+
  with assms Bin show ?thesis by (auto simp: stand_in_def)
qed simp

lemma stand_in_links:
  assumes "olinks h None (A @ n # B) None" "distinct (A @ n # B)" "x \<notin> set (A @ n # B)"
  shows "olinks (stand_in n x pa l r h) None (A @ x # B) None"
proof (cases A rule: rev_cases)
  case Nil
  with assms show ?thesis
    by (cases B) (auto simp: olinks_stand_in olinks_append stand_in_def)
next
  case (snoc A' q)
  with assms show ?thesis
    by (cases B) (auto simp: olinks_stand_in olinks_append stand_in_def)
qed

lemma rb_ok_relabel:
  assumes "rb_ok (plug (Bin c l n r) cs)"
  shows "rb_ok (plug (Bin c l x r) cs)"
proof -
  have e: "rbi (Bin c l x r) = rbi (Bin c l n r)" "bh (Bin c l x r) = bh (Bin c l n r)" "is_blk (Bin c l x r) = is_blk (Bin c l n r)"
    by simp_all
  have "rbi (Bin c l n r) \<and> cinv (bh (Bin c l n r)) cs \<and> (under_red cs \<longrightarrow> is_blk (Bin c l n r)) \<and> (cs = [] \<longrightarrow> is_blk (Bin c l n r))"
    using assms plug_rbiD unfolding rb_ok_def by blast
  then show ?thesis using plug_rbi [of "Bin c l x r" cs] unfolding rb_ok_def e by blast
qed

lemma ReplaceNode_ok:
  assumes z: "zip_ok s (Bin c l n r) cs" and ok: "rb_ok (plug (Bin c l n r) cs)"
    and io: "inord (plug (Bin c l n r) cs) = A @ n # B" and ol: "olinks (rb_hooks s) None (A @ n # B) None"
    and x: "x \<notin> set (A @ n # B)"
  shows "\<exists>s' T. ReplaceNode agg (Some n) (Some x) s = Some s' \<and> rb_rep s' T \<and> inord T = A @ x # B \<and> unhooked (rb_hooks s' n)"
proof -
  have d: "distinct (inord (Bin c l n r) @ cnodes cs)" "distinct (A @ n # B)"
    using z zip_plug [of s "Bin c l n r" cs] io by (auto simp: zip_ok_def)
  have xn: "x \<notin> set (inord (Bin c l n r) @ cnodes cs)"
    using x set_plug [of "Bin c l n r" cs] unfolding io by auto
  obtain s1 where s1: "replace_child (top_of cs) (Some n) (Some x) s = Some s1" "cx (rb_hooks s1) (rb_root s1) (Some x) cs"
    "\<forall>a. a \<notin> set (cnodes cs) \<longrightarrow> rb_hooks s1 a = rb_hooks s a" "same_order s s1"
    using replace_child_ok [of s n cs "Some x"] z d(1) by (auto simp: zip_ok_def)
  let ?h = "stand_in n x (top_of cs) (ptr l) (ptr r) (rb_hooks s1)"
  have ps: "hk_predecessor (rb_hooks s n) = last_or None A" "hk_successor (rb_hooks s n) = hd_or B None"
    using ol by (simp_all add: olinks_append)
  have "hk_predecessor (rb_hooks s n) \<notin> {Some n, Some x}" "hk_successor (rb_hooks s n) \<notin> {Some n, Some x}"
    using d(2) x ps by (auto simp: last_or_def hd_or_def split: if_splits list.splits)
  then have eq: "ReplaceNode agg (Some n) (Some x) s =
      do { s \<leftarrow> AggregateNode agg (Some x) (s1\<lparr> rb_hooks := ?h \<rparr>); AggregatePath agg (top_of cs) s }"
    using zip_read [OF z] s1(1,3) d(1) xn zip_ne [OF z] by (intro ReplaceNode_eq) (auto dest: ptr_in)
  have "\<forall>a \<in> set (inord l). rb_hooks s1 a = rb_hooks s a" "\<forall>a \<in> set (inord r). rb_hooks s1 a = rb_hooks s a"
    "rb_hooks s1 n = rb_hooks s n"
    using d(1) s1(3) by (auto simp: disjoint_iff)
  then have trs: "tr (rb_hooks s1) (Some n) l" "tr (rb_hooks s1) (Some n) r" "rb_hooks s1 n = rb_hooks s n"
    using z by (auto simp: zip_ok_def tr_cong [of _ "rb_hooks s1" "rb_hooks s"])
  have "\<forall>q \<in> set (inord t). (ptr l = Some q \<or> ptr r = Some q) \<longleftrightarrow> ptr t = Some q" if "t = l \<or> t = r" for t
    using that d(1) by (auto dest: ptr_in)
  then have "tr ?h (Some x) l" "tr ?h (Some x) r"
    using stand_in_tr [OF trs(1)] stand_in_tr [OF trs(2)] d(1) xn by simp_all
  moreover have "cx ?h (rb_root s1) (Some x) cs"
    using s1(2) d(1) xn by (subst cx_struct [of cs _ "rb_hooks s1"]) (auto simp: same_struct_def stand_in_def dest: ptr_in)
  ultimately have zx: "zip_ok (s1\<lparr> rb_hooks := ?h \<rparr>) (Bin c l x r) cs"
    using d(1) xn z trs(3) by (auto simp: zip_ok_def stand_in_def)
  let ?s2 = "s1\<lparr> rb_hooks := ?h, rb_data := (rb_data s1)(x := snd (agg ?h (rb_data s1) x)) \<rparr>"
  have zx2: "zip_ok ?s2 (Bin c l x r) cs" using zx by (simp add: zip_ok_def)
  from AggregatePath_ok [OF this, of agg] obtain s' where
    s': "AggregatePath agg (top_of cs) ?s2 = Some s'" "rb_hooks s' = ?h" "rb_root s' = rb_root ?s2" by auto
  have T: "inord (plug (Bin c l x r) cs) = A @ x # B"
    using split_unique [of "cbef cs @ inord l" n "inord r @ caft cs" A B] io d(2) by (simp add: inord_plug_eq)
  have "olinks ?h None (A @ x # B) None"
    using ol d(2) x olinks_same_order [OF s1(4)] by (intro stand_in_links) auto
  moreover have "rb_ok (plug (Bin c l x r) cs)"
    using ok by (rule rb_ok_relabel)
  moreover have "zip_ok s' (plug (Bin c l x r) cs) []"
    using zx2 zip_ok_hooks(1) [of s' ?s2 "Bin c l x r" cs] s'(2,3) zip_plug [of s' "Bin c l x r" cs] by simp
  ultimately have "rb_rep s' (plug (Bin c l x r) cs)" using T s'(2) by (simp add: rb_rep_def)
  moreover have "unhooked (rb_hooks s' n)" using s'(2) by (simp add: stand_in_def unhooked_def)
  ultimately show ?thesis using eq s'(1) T by (auto simp: AggregateNode_def)
qed

subsection \<open>Removal\<close>

lemma rightmost_of:
  "t \<noteq> Tip \<Longrightarrow> \<exists>c l p cs. t = plug (Bin c l p Tip) cs \<and> caft cs = []"
proof (induction t)
  case (Bin c l y r)
  show ?case
  proof (cases "r = Tip")
    case True
    then show ?thesis by (intro exI [of _ c] exI [of _ l] exI [of _ y] exI [of _ "[]"]) simp
  next
    case False
    then obtain c' l' p cs where r: "r = plug (Bin c' l' p Tip) cs" "caft cs = []" using Bin.IH(2) by blast
    show ?thesis
      by (intro exI [of _ c'] exI [of _ l'] exI [of _ p] exI [of _ "cs @ [RF c l y]"])
        (simp add: r plug_append caft_append)
  qed
qed simp

lemma node_position:
  "n \<in> set (inord t) \<Longrightarrow> \<exists>c l r cs. t = plug (Bin c l n r) cs"
proof (induction t)
  case (Bin c l y r)
  consider "n = y" | "n \<in> set (inord l)" | "n \<in> set (inord r)" using Bin.prems by auto
  then show ?case
  proof cases
    case 1
    then show ?thesis by (intro exI [of _ c] exI [of _ l] exI [of _ r] exI [of _ "[]"]) simp
  next
    case 2
    then obtain c' l' r' cs where "l = plug (Bin c' l' n r') cs" using Bin.IH(1) by blast
    then show ?thesis
      by (intro exI [of _ c'] exI [of _ l'] exI [of _ r'] exI [of _ "cs @ [LF c y r]"]) (simp add: plug_append)
  next
    case 3
    then obtain c' l' r' cs where "r = plug (Bin c' l' n r') cs" using Bin.IH(2) by blast
    then show ?thesis
      by (intro exI [of _ c'] exI [of _ l'] exI [of _ r'] exI [of _ "cs @ [RF c l y]"]) (simp add: plug_append)
  qed
qed simp

lemma rb_Remove_ok:
  assumes "rb_rep s T" "inord T = A @ n # B"
  shows "\<exists>s' T'. rb_Remove agg (Some n) s = Some s' \<and> rb_rep s' T' \<and> inord T' = A @ B \<and> unhooked (rb_hooks s' n)"
proof -
  obtain c l r cs where T: "T = plug (Bin c l n r) cs" using node_position [of n T] assms(2) by auto
  have z: "zip_ok s (Bin c l n r) cs" and ok: "rb_ok (plug (Bin c l n r) cs)" and ol: "olinks (rb_hooks s) None (A @ n # B) None"
    using assms T zip_plug by (auto simp: rb_rep_def)
  have d: "distinct (A @ n # B)" using z zip_plug [of s "Bin c l n r" cs] assms(2) T by (auto simp: zip_ok_def)
  have io: "cbef cs @ inord l = A" "inord r @ caft cs = B"
    using split_unique [of "cbef cs @ inord l" n "inord r @ caft cs" A B] assms(2) d by (auto simp: T inord_plug_eq)
  note rd = zip_read(2,3) [OF z]
  consider "l = Tip" | "l \<noteq> Tip" "r = Tip" | "l \<noteq> Tip" "r \<noteq> Tip" by blast
  then show ?thesis
  proof cases
    case 1
    then have "rb_Remove agg (Some n) s = RemoveHalfLeaf agg (Some n) (ptr r) s" using rd by (simp add: rb_Remove_def)
    then show ?thesis using RemoveHalfLeaf_ok [of s "RF c Tip n" r cs n A B agg] z ok assms(2) ol 1 T by simp
  next
    case 2
    then have "rb_Remove agg (Some n) s = RemoveHalfLeaf agg (Some n) (ptr l) s" using rd by (cases l) (simp_all add: rb_Remove_def)
    then show ?thesis using RemoveHalfLeaf_ok [of s "LF c n Tip" l cs n A B agg] z ok assms(2) ol 2 T by simp
  next
    case 3
    obtain c' l' p cs1 where l: "l = plug (Bin c' l' p Tip) cs1" "caft cs1 = []" using rightmost_of [OF 3(1)] by blast
    let ?cs = "cs1 @ LF c n r # cs"
    let ?A = "cbef cs @ cbef cs1 @ inord l'"
    have A: "A = ?A @ [p]" using io(1) l by (simp add: inord_plug_eq)
    have zp: "zip_ok s (plug1 (LF c' p Tip) l') ?cs" and okp: "rb_ok (plug (plug1 (LF c' p Tip) l') ?cs)"
      and iop: "inord (plug (plug1 (LF c' p Tip) l') ?cs) = ?A @ p # (n # B)"
      using z ok zip_plug [of s "Bin c l n r" cs] zip_plug [of s "Bin c' l' p Tip" ?cs] assms(2) T A
      by (simp_all add: l(1) plug_append)
    obtain s1 T1 where s1: "RemoveHalfLeaf agg (Some p) (ptr l') s = Some s1" "rb_rep s1 T1" "inord T1 = ?A @ n # B"
      using RemoveHalfLeaf_ok [OF zp _ _ okp iop, of agg] ol A by auto
    obtain c2 l2 r2 cs2 where T1: "T1 = plug (Bin c2 l2 n r2) cs2" using node_position [of n T1] s1(3) by auto
    obtain s2 T2 where s2: "ReplaceNode agg (Some n) (Some p) s1 = Some s2" "rb_rep s2 T2" "inord T2 = ?A @ p # B"
      "unhooked (rb_hooks s2 n)"
      using ReplaceNode_ok [of s1 c2 l2 n r2 cs2 ?A B p agg] s1(2,3) d A T1 zip_plug [of s1 "Bin c2 l2 n r2" cs2]
      by (auto simp: rb_rep_def)
    have "Predecessor s (Some n) = Some (Some p)" using ol A by (simp add: Predecessor_def hk_def olinks_append)
    moreover have "GetLeft s (Some p) = Some (ptr l')" using zp by (simp add: zip_read)
    ultimately have "rb_Remove agg (Some n) s = Some s2"
      using rd 3 s1(1) s2(1) by (cases l; cases r) (simp_all add: rb_Remove_def)
    then show ?thesis using s2 A by auto
  qed
qed

end
