(* ===== verification/RB_Check.thy ===== *)
theory RB_Check
  imports RB_Remove
begin

text \<open>
  What the red-black tree of \<open>containers/RBTree.h\<close> promises to its users: insertion in the order of a
  comparison and in front of a given node, removal, the first node, the height, and the run-time check
  of its own invariant.
\<close>

subsection \<open>The run-time check\<close>

primrec coloured :: "'p rbt \<Rightarrow> bool" where
  "coloured Tip = True"
| "coloured (Bin c l a r) = (c \<noteq> Null \<and> coloured l \<and> coloured r)"

primrec balanced :: "'p rbt \<Rightarrow> bool" where
  "balanced Tip = True"
| "balanced (Bin c l a r) = ((c = Red \<longrightarrow> is_blk l \<and> is_blk r) \<and> bh l = bh r \<and> balanced l \<and> balanced r)"

lemma rbi_coloured: "rbi t \<longleftrightarrow> coloured t \<and> balanced t"
  by (induction t) auto

text \<open>Nodes that follow each other are linked in both directions.\<close>

definition order_linked :: "('p, 'd) rb_tree \<Rightarrow> 'p list \<Rightarrow> bool" where
  "order_linked s = successively (\<lambda>a b. hk_successor (rb_hooks s a) = Some b \<and> hk_predecessor (rb_hooks s b) = Some a)"

lemma order_linked_Nil [simp]: "order_linked s []"
  by (simp add: order_linked_def)

lemma order_linked_append:
  "order_linked s (xs @ n # ys) \<longleftrightarrow> order_linked s xs \<and> order_linked s ys \<and>
     (xs = [] \<or> hk_successor (rb_hooks s (last xs)) = Some n \<and> hk_predecessor (rb_hooks s n) = Some (last xs)) \<and>
     (ys = [] \<or> hk_successor (rb_hooks s n) = Some (hd ys) \<and> hk_predecessor (rb_hooks s (hd ys)) = Some n)"
  by (cases ys) (auto simp: order_linked_def successively_append_iff)

definition verdict :: "('p \<Rightarrow> bool) \<Rightarrow> ('p, 'd) rb_tree \<Rightarrow> 'p rbt \<Rightarrow> (nat \<times> 'p \<times> 'p) option" where
  "verdict check s t =
     (if balanced t \<and> order_linked s (inord t) \<and> (\<forall>a \<in> set (inord t). check a) then Some (bh t, hd (inord t), last (inord t)) else None)"

lemma tip_inord: "inord t = [] \<longleftrightarrow> t = Tip"
  by (cases t) auto

lemma CheckInvariant_verdict:
  assumes "zip_ok s (Bin c l n r) cs"
  shows "CheckInvariant check s n = Some (verdict check s (Bin c l n r))"
  using assms
proof (induction "Bin c l n r" arbitrary: c l n r cs)
  case (Bin c l n r)
  have zl: "zip_ok s l (LF c n r # cs)" and zr: "zip_ok s r (RF c l n # cs)" using Bin.prems by (simp_all add: zip_up)
  define lok where "lok \<longleftrightarrow> l = Tip \<or> hk_successor (rb_hooks s (last (inord l))) = Some n \<and> hk_predecessor (rb_hooks s n) = Some (last (inord l))"
  define rok where "rok \<longleftrightarrow> r = Tip \<or> hk_successor (rb_hooks s n) = Some (hd (inord r)) \<and> hk_predecessor (rb_hooks s (hd (inord r))) = Some n"
  have L: "CheckInvariant check s a = Some (verdict check s l)" if "l = Bin c1 l1 a r1" for c1 l1 a r1
    using Bin.hyps(1) [OF that] zl that by simp
  have R: "CheckInvariant check s a = Some (verdict check s r)" if "r = Bin c1 l1 a r1" for c1 l1 a r1
    using Bin.hyps(2) [OF that] zr that by simp
  have lres: "(case ptr l of None \<Rightarrow> Some (Some (0, n))
      | Some ln \<Rightarrow> do { x \<leftarrow> CheckInvariant check s ln;
          case x of None \<Rightarrow> Some None
          | Some (d, minimal, pred) \<Rightarrow>
              if hk_successor (rb_hooks s pred) \<noteq> Some n \<or> hk_predecessor (rb_hooks s n) \<noteq> Some pred
              then Some None else Some (Some (d, minimal)) }) =
    Some (if l = Tip then Some (0, n) else if lok then map_option (\<lambda>(d, a, b). (d, a)) (verdict check s l) else None)"
  proof (cases l)
    case b: (Bin c1 l1 a r1)
    show ?thesis using L [OF b] b by (auto simp: verdict_def lok_def)
  qed simp
  have rres: "(case ptr r of None \<Rightarrow> Some (Some (0, n))
      | Some rn \<Rightarrow> do { x \<leftarrow> CheckInvariant check s rn;
          case x of None \<Rightarrow> Some None
          | Some (d, succ, maximal) \<Rightarrow>
              if hk_successor (rb_hooks s n) \<noteq> Some succ \<or> hk_predecessor (rb_hooks s succ) \<noteq> Some n
              then Some None else Some (Some (d, maximal)) }) =
    Some (if r = Tip then Some (0, n) else if rok then map_option (\<lambda>(d, a, b). (d, b)) (verdict check s r) else None)"
  proof (cases r)
    case b: (Bin c1 l1 a r1)
    show ?thesis using R [OF b] b by (auto simp: verdict_def rok_def)
  qed simp
  note rd = zip_read(2-4) [OF Bin.prems(1)] zip_colors(2) [OF zl] zip_colors(2) [OF zr]
  have "CheckInvariant check s n = Some (
      if c = Red \<and> (\<not> is_blk l \<or> \<not> is_blk r) then None
      else case (if l = Tip then Some (0, n) else if lok then map_option (\<lambda>(d, a, b). (d, a)) (verdict check s l) else None) of None \<Rightarrow> None
        | Some (ld, minimal) \<Rightarrow>
            case (if r = Tip then Some (0, n) else if rok then map_option (\<lambda>(d, a, b). (d, b)) (verdict check s r) else None) of None \<Rightarrow> None
            | Some (rd, maximal) \<Rightarrow>
                if ld \<noteq> rd then None else if \<not> check n then None else Some (if c = Black then ld + 1 else ld, minimal, maximal))"
    unfolding CheckInvariant.simps [of check s n] rd bind.bind_lunit lres rres
    by (simp split: option.split)
  also have "\<dots> = Some (verdict check s (Bin c l n r))"
  proof -
    have "order_linked s (inord (Bin c l n r)) \<longleftrightarrow> order_linked s (inord l) \<and> order_linked s (inord r) \<and> lok \<and> rok"
      by (auto simp: order_linked_append tip_inord lok_def rok_def)
    then show ?thesis unfolding verdict_def
      by (cases "l = Tip"; cases "r = Tip"; cases lok; cases rok) (auto simp: tip_inord hd_append lok_def rok_def)
  qed
  finally show ?case .
qed

subsection \<open>Height\<close>

primrec depth :: "'p rbt \<Rightarrow> nat" where
  "depth Tip = 0"
| "depth (Bin c l a r) = Suc (max (depth l) (depth r))"

lemma bh_size: "rbi t \<Longrightarrow> 2 ^ bh t \<le> length (inord t) + 1"
  by (induction t) auto

lemma depth_bh: "rbi t \<Longrightarrow> depth t \<le> 2 * bh t + (if is_blk t then 0 else 1)"
proof (induction t)
  case (Bin c l a r)
  then show ?case by (cases c) (auto split: if_splits)
qed simp

subsection \<open>Walking through the tree\<close>

lemma leftmost_ok:
  "zip_ok s (Bin c l n r) cs \<Longrightarrow> leftmost s (Some n) = Some (Some (hd (inord (Bin c l n r))))"
proof (induction l arbitrary: c n r cs)
  case Tip
  then show ?case by (subst leftmost.simps) (simp add: zip_read)
next
  case (Bin c1 l1 a r1)
  have z: "zip_ok s (Bin c1 l1 a r1) (LF c n r # cs)" using Bin.prems by (simp add: zip_up)
  show ?case
    using Bin.IH(1) [OF z] zip_read(2) [OF Bin.prems]
    by (subst leftmost.simps) (simp add: hd_append)
qed

lemma rightmost_ok:
  "zip_ok s (Bin c l n r) cs \<Longrightarrow> rightmost s (Some n) = Some (Some (last (inord (Bin c l n r))))"
proof (induction r arbitrary: c l n cs)
  case Tip
  then show ?case by (subst rightmost.simps) (simp add: zip_read)
next
  case (Bin c1 l1 a r1)
  have z: "zip_ok s (Bin c1 l1 a r1) (RF c l n # cs)" using Bin.prems by (simp add: zip_up)
  show ?case
    using Bin.IH(2) [OF z] zip_read(3) [OF Bin.prems]
    by (subst rightmost.simps) simp
qed

lemma First_ok:
  assumes "rb_rep s T"
  shows "First s = Some (hd_or (inord T) None)"
proof (cases T)
  case (Bin c l n r)
  then have "zip_ok s (Bin c l n r) []" "rb_root s = Some n" using assms by (simp_all add: rb_rep_def zip_ok_def)
  with leftmost_ok [OF this(1)] Bin show ?thesis by (simp add: First_def hd_or_def split: list.split)
qed (use assms in \<open>simp add: First_def rb_rep_def zip_ok_def\<close>)

text \<open>The walk \<open>for (n = First(); n != nullptr; n = Successor(n))\<close> visits the nodes in order.\<close>

lemma Successor_ok: "rb_rep s T \<Longrightarrow> inord T = A @ n # B \<Longrightarrow> Successor s (Some n) = Some (hd_or B None)"
  by (simp add: rb_rep_def olinks_append Successor_def hk_def)

subsection \<open>Insertion in front of a node\<close>

lemma free_right_ok:
  assumes "zip_ok s (Bin c l p Tip) cs" "rb_ok (plug (Bin c l p Tip) cs)" "unhooked (rb_hooks s z)"
    "z \<notin> set (inord (plug (Bin c l p Tip) cs))" "olinks (rb_hooks s) None (inord (plug (Bin c l p Tip) cs)) None"
  shows "\<exists>s' T. InsertRight agg (Some p) (Some z) s = Some s' \<and> rb_rep s' T \<and> inord T = cbef cs @ inord l @ p # z # caft cs"
proof -
  have "cinv 0 (RF c l p # cs)"
    using plug_rbiD [of "Bin c Tip p Tip" "cs"] plug_rbiD [of Tip "RF c l p # cs"] assms(2) by (simp add: rb_ok_def)
  then show ?thesis
    using InsertRight_ok [of s c l p cs z "cbef cs @ inord l" "caft cs" Red agg] assms by (simp add: inord_plug_eq)
qed

lemma free_left_ok:
  assumes "zip_ok s (Bin c Tip p r) cs" "rb_ok (plug (Bin c Tip p r) cs)" "unhooked (rb_hooks s z)"
    "z \<notin> set (inord (plug (Bin c Tip p r) cs))" "olinks (rb_hooks s) None (inord (plug (Bin c Tip p r) cs)) None"
  shows "\<exists>s' T. InsertLeft agg (Some p) (Some z) s = Some s' \<and> rb_rep s' T \<and> inord T = cbef cs @ z # p # inord r @ caft cs"
proof -
  have "cinv 0 (LF c p r # cs)"
    using plug_rbiD [of Tip "LF c p r # cs"] assms(2) by (simp add: rb_ok_def)
  then show ?thesis
    using InsertLeft_ok [of s c p r cs z "cbef cs" "inord r @ caft cs" Red agg] assms by (simp add: inord_plug_eq)
qed

lemma after_rightmost:
  assumes "zip_ok s t cs" "t \<noteq> Tip" "rb_ok (plug t cs)" "unhooked (rb_hooks s z)"
    "z \<notin> set (inord (plug t cs))" "olinks (rb_hooks s) None (inord (plug t cs)) None"
  shows "\<exists>s' T. do { c \<leftarrow> rightmost s (ptr t); InsertRight agg c (Some z) s } = Some s' \<and> rb_rep s' T \<and>
    inord T = cbef cs @ inord t @ z # caft cs"
proof -
  obtain c l p fs where t: "t = plug (Bin c l p Tip) fs" "caft fs = []" using rightmost_of [OF assms(2)] by blast
  have z: "zip_ok s (Bin c l p Tip) (fs @ cs)"
    using assms(1) zip_plug [of s t cs] zip_plug [of s "Bin c l p Tip" "fs @ cs"] by (simp add: t plug_append)
  have "last (inord t) = p" by (simp add: t inord_plug_eq)
  then have "rightmost s (ptr t) = Some (Some p)"
    using rightmost_ok [of s _ _ _ _ cs] assms(1,2) by (cases t) (auto simp del: inord.simps)
  moreover obtain s' T where "InsertRight agg (Some p) (Some z) s = Some s'" "rb_rep s' T"
    "inord T = cbef (fs @ cs) @ inord l @ p # z # caft (fs @ cs)"
    using free_right_ok [OF z, of z agg] assms(3-) by (auto simp: t plug_append)
  ultimately show ?thesis by (auto simp: t inord_plug_eq cbef_append caft_append)
qed

lemma rb_InsertBefore_ok:
  assumes "rb_rep s T" "z \<notin> set (inord T)" "unhooked (rb_hooks s z)"
  shows "\<exists>s' T'. rb_InsertBefore agg None (Some z) s = Some s' \<and> rb_rep s' T' \<and> inord T' = inord T @ [z]"
    "inord T = A @ b # B \<Longrightarrow> \<exists>s' T'. rb_InsertBefore agg (Some b) (Some z) s = Some s' \<and> rb_rep s' T' \<and> inord T' = A @ z # b # B"
proof -
  have rep: "zip_ok s T []" "rb_ok T" "olinks (rb_hooks s) None (inord T) None" using assms(1) by (simp_all add: rb_rep_def)
  have root: "rb_root s = ptr T" using rep(1) by (simp add: zip_ok_def)
  show "\<exists>s' T'. rb_InsertBefore agg None (Some z) s = Some s' \<and> rb_rep s' T' \<and> inord T' = inord T @ [z]"
  proof (cases "T = Tip")
    case True
    then show ?thesis using InsertRoot_ok [of s z agg] assms root by (simp add: rb_InsertBefore_def)
  next
    case False
    then show ?thesis
      using after_rightmost [of s T "[]" z agg] rep assms root tip_inord [of T] by (cases T) (simp_all add: rb_InsertBefore_def)
  qed
  assume io: "inord T = A @ b # B"
  obtain c l r cs where T: "T = plug (Bin c l b r) cs" using node_position [of b T] io by auto
  have z: "zip_ok s (Bin c l b r) cs" using rep(1) zip_plug T by metis
  have d: "distinct (A @ b # B)" using rep(1) io by (simp add: zip_ok_def)
  have AB: "cbef cs @ inord l = A" "inord r @ caft cs = B"
    using split_unique [of "cbef cs @ inord l" b "inord r @ caft cs" A B] io d by (auto simp: T inord_plug_eq)
  show "\<exists>s' T'. rb_InsertBefore agg (Some b) (Some z) s = Some s' \<and> rb_rep s' T' \<and> inord T' = A @ z # b # B"
  proof (cases "l = Tip")
    case True
    then show ?thesis
      using free_left_ok [of s c b r cs z agg] z rep assms AB zip_read(2) [OF z] by (simp add: rb_InsertBefore_def T)
  next
    case False
    have "zip_ok s l (LF c b r # cs)" using z by (simp add: zip_up)
    then obtain s' T' where "do { c \<leftarrow> rightmost s (ptr l); InsertRight agg c (Some z) s } = Some s'" "rb_rep s' T'"
      "inord T' = cbef (LF c b r # cs) @ inord l @ z # caft (LF c b r # cs)"
      using after_rightmost [of s l "LF c b r # cs" z agg] False rep assms by (auto simp: T)
    then show ?thesis
      using zip_read(2) [OF z] False AB by (cases l) (auto simp: rb_InsertBefore_def)
  qed
qed

subsection \<open>The comparison of keys\<close>

text \<open>
  The comparisons \<open>VmHoleLess\<close>, \<open>VmRangeLess\<close>, \<open>IntrTreeLess\<close> and \<open>DeviceNodeLess\<close> compare one field of the nodes.
\<close>

definition key_less :: "('p \<Rightarrow> 'k :: linorder) \<Rightarrow> 'p \<Rightarrow> 'p \<Rightarrow> bool" where
  "key_less key a b \<longleftrightarrow> key a < key b"

interpretation kl: node_order "key_less key" for key :: "'p \<Rightarrow> 'k :: linorder"
  by unfold_locales (auto simp: key_less_def)

lemma sorted_key: "sorted_by (key_less key) xs \<longleftrightarrow> sorted (map key xs)"
  by (simp add: sorted_by_def key_less_def sorted_map linorder_not_less)

lemma filter_split:
  "\<forall>a \<in> set A. \<not> z < f a \<Longrightarrow> \<forall>b \<in> set B. z < f b \<Longrightarrow>
   filter (\<lambda>a. f a \<le> (z :: 'k :: linorder)) (A @ B) = A \<and> filter (\<lambda>a. z < f a) (A @ B) = B"
  by (auto simp: filter_empty_conv filter_id_conv leD linorder_not_less)

lemma rb_insert_step:
  assumes "rb_rep s T" "z \<notin> set (inord T)" "unhooked (rb_hooks s z)" "sorted (map key (inord T))"
  shows "\<exists>s' T'. rb_Insert agg (key_less key) z s = Some s' \<and> rb_rep s' T' \<and> sorted (map key (inord T')) \<and>
    inord T' = filter (\<lambda>a. key a \<le> key z) (inord T) @ z # filter (\<lambda>a. key z < key a) (inord T)"
proof -
  obtain s' T' A B where r: "rb_Insert agg (key_less key) z s = Some s'" "rb_rep s' T'" "inord T = A @ B"
    "inord T' = A @ z # B" "\<forall>a \<in> set A. \<not> key_less key z a" "\<forall>b \<in> set B. key_less key z b"
    using kl.rb_Insert_ok [of s T z key agg] assms by (auto simp: sorted_key)
  have "sorted (map key (inord T'))"
    using kl.sorted_by_insert [of key A B z] r assms(4) by (simp add: sorted_key)
  with r filter_split [of A "key z" key B] show ?thesis by (auto simp: key_less_def)
qed

lemma rb_remove_step:
  assumes "rb_rep s T" "n \<in> set (inord T)"
  shows "\<exists>s' T'. rb_Remove agg (Some n) s = Some s' \<and> rb_rep s' T' \<and> inord T' = filter (\<lambda>a. a \<noteq> n) (inord T) \<and>
    unhooked (rb_hooks s' n)"
proof -
  obtain A B where AB: "inord T = A @ n # B" using assms(2) by (auto dest: split_list)
  have "distinct (A @ n # B)" using assms(1) AB by (simp add: rb_rep_def zip_ok_def)
  then have "filter (\<lambda>a. a \<noteq> n) A = A" "filter (\<lambda>a. a \<noteq> n) B = B" by (auto intro!: filter_True)
  then have "filter (\<lambda>a. a \<noteq> n) (inord T) = A @ B" using AB by simp
  with rb_Remove_ok [OF assms(1) AB, of agg] show ?thesis by auto
qed

subsection \<open>Properties\<close>

text \<open>C11: inserting a fresh node into a red-black tree whose nodes are sorted by a key returns, leaves a
  red-black tree with consistent parent, child, predecessor and successor links, and puts the node
  behind every node with a key that is not greater and in front of every node with a greater key.
\<close>

theorem rb_insert_ordered:
  assumes "rb_rep s T" "z \<notin> set (inord T)" "unhooked (rb_hooks s z)" "sorted (map key (inord T))"
  shows "\<exists>s' T'. rb_Insert agg (key_less key) z s = Some s' \<and> rb_rep s' T' \<and> sorted (map key (inord T')) \<and>
    inord T' = filter (\<lambda>a. key a \<le> key z) (inord T) @ z # filter (\<lambda>a. key z < key a) (inord T)"
  using rb_insert_step [OF assms] .

definition sample_tree :: "(nat, nat) rb_tree" where
  "sample_tree = \<lparr> rb_root = Some 5,
     rb_hooks = (\<lambda>_. HookStruct)(5 := HookStruct\<lparr> hk_color := Black, hk_left := Some 3, hk_predecessor := Some 3 \<rparr>,
       3 := HookStruct\<lparr> hk_color := Red, hk_parent := Some 5, hk_successor := Some 5 \<rparr>), rb_data = (\<lambda>a. a) \<rparr>"

lemma sample_rep: "rb_rep sample_tree (Bin Black (Bin Red Tip 3 Tip) 5 Tip)"
  by (simp add: sample_tree_def rb_rep_def zip_ok_def rb_ok_def HookStruct_def)

lemma sample_fresh: "unhooked (rb_hooks sample_tree 4)"
  by (simp add: sample_tree_def unhooked_def HookStruct_def)

theorem rb_insert_ordered_witness:
  "\<exists>s' T'. rb_Insert NullAggregator (key_less (\<lambda>a. a)) 4 sample_tree = Some s' \<and> rb_rep s' T' \<and> inord T' = [3, 4, 5]"
  using rb_insert_ordered [OF sample_rep, of 4 "\<lambda>a. a" NullAggregator] sample_fresh by (auto simp: sample_tree_def)

text \<open>C12: removing a node of a red-black tree returns, takes exactly this node out of the order, clears its
  links and leaves a red-black tree with consistent links.
\<close>

theorem rb_remove_exact:
  assumes "rb_rep s T" "n \<in> set (inord T)"
  shows "\<exists>s' T'. rb_Remove agg (Some n) s = Some s' \<and> rb_rep s' T' \<and> inord T' = filter (\<lambda>a. a \<noteq> n) (inord T) \<and>
    unhooked (rb_hooks s' n)"
  using rb_remove_step [OF assms] .

theorem rb_remove_exact_witness:
  "\<exists>s' T'. rb_Remove NullAggregator (Some 5) sample_tree = Some s' \<and> rb_rep s' T' \<and> inord T' = [3]"
  using rb_remove_exact [OF sample_rep, of 5 NullAggregator] by auto

text \<open>Inserting a fresh node in front of a node puts it there, and without a node at the end; the result
  is again a red-black tree with consistent links.
\<close>

lemma rb_insert_before:
  assumes "rb_rep s T" "z \<notin> set (inord T)" "unhooked (rb_hooks s z)" "inord T = A @ B"
  shows "\<exists>s' T'. rb_InsertBefore agg (hd_or B None) (Some z) s = Some s' \<and> rb_rep s' T' \<and> inord T' = A @ z # B"
  using rb_InsertBefore_ok(1) [OF assms(1-3), of agg] rb_InsertBefore_ok(2) [OF assms(1-3), of A _ _ agg] assms(4)
  by (cases B) auto

lemma rb_insert_before_example:
  "\<exists>s' T'. rb_InsertBefore NullAggregator (Some 5) (Some 4) sample_tree = Some s' \<and> rb_rep s' T' \<and> inord T' = [3, 4, 5]"
  using rb_insert_before [OF sample_rep, of 4 "[3]" "[5]" NullAggregator] sample_fresh by auto

text \<open>C27: on a tree whose parent and child links are consistent and whose nodes are coloured, the run-time check of the library
  returns, and accepts exactly the trees that have no red node with a red child and the same number of black
  nodes on every path, in which every two nodes that follow each other in the order are linked as predecessor and successor, and whose nodes all
  pass the check of the aggregator; it reports the black height, the first and the last node. (The predecessor link of the first node and the
  successor link of the last one are not looked at.) A tree that is accepted is not deeper than twice the logarithm of its size, plus one.
\<close>

theorem rb_check_exact:
  assumes "zip_ok s T []" "T \<noteq> Tip" "coloured T"
  shows "do { n \<leftarrow> rb_root s; CheckInvariant check s n } =
      Some (if rbi T \<and> order_linked s (inord T) \<and> (\<forall>a \<in> set (inord T). check a) then Some (bh T, hd (inord T), last (inord T)) else None) \<and>
    (rbi T \<longrightarrow> 2 ^ bh T \<le> length (inord T) + 1 \<and> depth T \<le> 2 * bh T + 1)"
proof -
  obtain c l n r where T: "T = Bin c l n r" using assms(2) by (cases T) auto
  have "rb_root s = Some n" using assms(1) by (simp add: T zip_ok_def)
  moreover have "CheckInvariant check s n = Some (verdict check s T)"
    using CheckInvariant_verdict [of s c l n r "[]" check] assms by (simp add: T)
  moreover have "depth T \<le> 2 * bh T + 1" if "rbi T" using depth_bh [OF that] by (auto split: if_splits)
  ultimately show ?thesis using bh_size [of T] assms(3) by (simp add: verdict_def rbi_coloured)
qed

definition unlinked_tree :: "(nat, nat) rb_tree" where
  "unlinked_tree = sample_tree\<lparr> rb_hooks := (rb_hooks sample_tree)(3 := (rb_hooks sample_tree 3)\<lparr> hk_successor := None \<rparr>) \<rparr>"

theorem rb_check_exact_witness:
  "do { n \<leftarrow> rb_root sample_tree; CheckInvariant (\<lambda>_. True) sample_tree n } = Some (Some (1, 3, 5)) \<and>
   do { n \<leftarrow> rb_root unlinked_tree; CheckInvariant (\<lambda>_. True) unlinked_tree n } = Some None"
proof
  let ?T = "Bin Black (Bin Red Tip 3 Tip) 5 Tip :: nat rbt"
  have "order_linked sample_tree (inord ?T)" by (simp add: order_linked_def sample_tree_def)
  with rb_check_exact [of sample_tree ?T "\<lambda>_. True"] sample_rep
  show "do { n \<leftarrow> rb_root sample_tree; CheckInvariant (\<lambda>_. True) sample_tree n } = Some (Some (1, 3, 5))"
    by (simp add: rb_rep_def)
  have "zip_ok unlinked_tree ?T []" "\<not> order_linked unlinked_tree (inord ?T)"
    by (simp_all add: order_linked_def unlinked_tree_def sample_tree_def zip_ok_def HookStruct_def)
  with rb_check_exact [of unlinked_tree ?T "\<lambda>_. True"]
  show "do { n \<leftarrow> rb_root unlinked_tree; CheckInvariant (\<lambda>_. True) unlinked_tree n } = Some None"
    by simp
qed

end
