(* ===== verification/RB_Data.thy ===== *)
theory RB_Data
  imports RB_Tree
begin

text \<open>
  What insertion and removal of the red-black tree do to the data of the nodes: only the aggregator
  writes it, so a part of the data that the aggregator leaves alone (base and length of a hole of the
  address space) is left alone by the tree.
\<close>

definition same_data :: "('d \<Rightarrow> 'e) \<Rightarrow> ('p, 'd) rb_tree \<Rightarrow> ('p, 'd) rb_tree \<Rightarrow> bool" where
  "same_data view s s' \<longleftrightarrow> (\<forall>a. view (rb_data s' a) = view (rb_data s a))"

definition keeps_data :: "('d \<Rightarrow> 'e) \<Rightarrow> ('p, 'd) rb_tree \<Rightarrow> ('p, 'd) rb_tree option \<Rightarrow> bool" where
  "keeps_data view s m \<longleftrightarrow> (\<forall>s'. m = Some s' \<longrightarrow> same_data view s s')"

definition views :: "('d \<Rightarrow> 'e) \<Rightarrow> ('p, 'd) aggregator \<Rightarrow> bool" where
  "views view agg \<longleftrightarrow> (\<forall>h d a. view (snd (agg h d a)) = view (d a))"

lemma keeps_dataD: "m = Some s' \<Longrightarrow> keeps_data view s m \<Longrightarrow> same_data view s s'"
  by (simp add: keeps_data_def)

lemma same_data_refl [simp]: "same_data view s s"
  by (simp add: same_data_def)

lemma kd_bind:
  "keeps_data view s m \<Longrightarrow> (\<And>s'. keeps_data view s' (f s')) \<Longrightarrow> keeps_data view s (m \<bind> f)"
  unfolding keeps_data_def same_data_def by (auto simp: Option.bind_eq_Some_conv)

lemma kd_read: "(\<And>x. keeps_data view s (f x)) \<Longrightarrow> keeps_data view s (m \<bind> f)"
  unfolding keeps_data_def by (auto simp: Option.bind_eq_Some_conv)

text \<open>The same for an operation that also returns a node.\<close>

definition keeps_data2 :: "('d \<Rightarrow> 'e) \<Rightarrow> ('p, 'd) rb_tree \<Rightarrow> ('x \<times> ('p, 'd) rb_tree) option \<Rightarrow> bool" where
  "keeps_data2 view s m \<longleftrightarrow> (\<forall>x s'. m = Some (x, s') \<longrightarrow> same_data view s s')"

lemma kd_pair:
  "keeps_data2 view s m \<Longrightarrow> (\<And>x s'. keeps_data view s' (f x s')) \<Longrightarrow> keeps_data view s (m \<bind> (\<lambda>(x, s). f x s))"
  unfolding keeps_data_def keeps_data2_def same_data_def by (auto simp: Option.bind_eq_Some_conv)

lemma kd2_rules:
  "keeps_data2 view s (Some (x, s))"
  "keeps_data2 view s m1 \<Longrightarrow> keeps_data2 view s m2 \<Longrightarrow> keeps_data2 view s (if b then m1 else m2)"
  "keeps_data view s m \<Longrightarrow> (\<And>s'. keeps_data2 view s' (f s')) \<Longrightarrow> keeps_data2 view s (m \<bind> f)"
  by (auto simp: keeps_data2_def keeps_data_def same_data_def Option.bind_eq_Some_conv)

lemma kd_if: "keeps_data view s m \<Longrightarrow> keeps_data view s m' \<Longrightarrow> keeps_data view s (if b then m else m')"
  by simp

lemma kd_Some: "keeps_data view s (Some s)" "keeps_data view s (Some (s\<lparr> rb_root := v \<rparr>))" "keeps_data view s None"
  by (simp_all add: keeps_data_def same_data_def)

lemma kd_upd: "keeps_data view s (hk_upd item f s)" "keeps_data view s (set_color item c s)" "keeps_data view s (clear_hook item s)"
  by (auto simp: keeps_data_def same_data_def hk_upd_def set_color_def clear_hook_def split: option.splits)

lemma kd_replace: "keeps_data view s (replace_child parent node new s)"
  unfolding replace_child_def by (intro kd_if kd_Some kd_read kd_upd)

lemma kd_node: "views view agg \<Longrightarrow> keeps_data view s (AggregateNode agg node s)"
  by (auto simp: keeps_data_def same_data_def views_def AggregateNode_def split: option.splits)

lemma kd_case: "(item = None \<Longrightarrow> keeps_data view s m) \<Longrightarrow> (\<And>a. item = Some a \<Longrightarrow> keeps_data view s (f a)) \<Longrightarrow>
    keeps_data view s (case item of None \<Rightarrow> m | Some a \<Rightarrow> f a)"
  by (cases item) auto

lemmas kd_rules = kd_Some kd_upd kd_replace kd_node kd_if kd_pair kd_bind kd_read

lemma kd_path:
  assumes "views view agg"
  shows "keeps_data view s (AggregatePath agg node s)"
proof -
  have "views view agg \<longrightarrow> same_data view s y" if "AggregatePath agg node s = Some y" for y
  proof (rule AggregatePath.raw_induct [of "\<lambda>agg n s y. views view agg \<longrightarrow> same_data view s y", OF _ that], goal_cases)
    case (1 f agg current s y)
    show ?case
    proof
      assume v: "views view agg"
      have f: "keeps_data view s (f agg p s)" for p s using 1(1) v by (simp add: keeps_data_def)
      show "same_data view s y"
        by (rule 1(2) [THEN keeps_dataD]) (rule kd_case kd_rules v f)+
    qed
  qed
  with assms show ?thesis by (simp add: keeps_data_def)
qed

lemma kd_rotate:
  assumes "views view agg"
  shows "keeps_data view s (RotateLeft agg n s)" "keeps_data view s (RotateRight agg n s)"
  unfolding RotateLeft_def RotateRight_def by (rule kd_rules assms)+

lemmas kd_more = kd_rotate kd_rules

lemma kd_FixInsert:
  assumes "views view agg"
  shows "keeps_data view s (FixInsert agg n s)"
proof -
  have "views view agg \<longrightarrow> same_data view s y" if "FixInsert agg n s = Some y" for y
  proof (rule FixInsert.raw_induct [of "\<lambda>agg n s y. views view agg \<longrightarrow> same_data view s y", OF _ that], goal_cases)
    case (1 f agg n s y)
    show ?case
    proof
      assume v: "views view agg"
      have f: "keeps_data view s (f agg p s)" for p s using 1(1) v by (simp add: keeps_data_def)
      show "same_data view s y"
        by (rule 1(2) [THEN keeps_dataD]) (rule kd_more v f)+
    qed
  qed
  with assms show ?thesis by (simp add: keeps_data_def)
qed

lemma kd_FixRemove:
  assumes "views view agg"
  shows "keeps_data view s (FixRemove agg n s)"
proof -
  have "views view agg \<longrightarrow> same_data view s y" if "FixRemove agg n s = Some y" for y
  proof (rule FixRemove.raw_induct [of "\<lambda>agg n s y. views view agg \<longrightarrow> same_data view s y", OF _ that], goal_cases)
    case (1 f agg n s y)
    show ?case
    proof
      assume v: "views view agg"
      have f: "keeps_data view s (f agg p s)" for p s using 1(1) v by (simp add: keeps_data_def)
      show "same_data view s y"
        by (rule 1(2) [THEN keeps_dataD]) (rule kd_more kd2_rules v f)+
    qed
  qed
  with assms show ?thesis by (simp add: keeps_data_def)
qed

lemma kd_link:
  assumes "views view agg"
  shows "keeps_data view s (InsertRoot agg node s)" "keeps_data view s (InsertLeft agg parent node s)"
    "keeps_data view s (InsertRight agg parent node s)"
proof -
  have "keeps_data view s (m \<bind> f)" if "\<And>s'. m = Some s' \<Longrightarrow> same_data view s s'" "\<And>s'. keeps_data view s' (f s')" for m f
    using that by (intro kd_bind) (auto simp: keeps_data_def)
  moreover have "same_data view s s'" if "AggregateNode agg node (s\<lparr> rb_root := node \<rparr>) = Some s'" for s'
    using keeps_dataD [OF that kd_node [OF assms]] by (simp add: same_data_def)
  ultimately show "keeps_data view s (InsertRoot agg node s)"
    unfolding InsertRoot_def using kd_FixInsert [OF assms] by blast
  show "keeps_data view s (InsertLeft agg parent node s)"
    unfolding InsertLeft_def by (rule kd_rules kd_path kd_FixInsert assms)+
  show "keeps_data view s (InsertRight agg parent node s)"
    unfolding InsertRight_def by (rule kd_rules kd_path kd_FixInsert assms)+
qed

lemma kd_insert_loop:
  assumes "views view agg"
  shows "keeps_data view s (insert_loop agg lt node current s)"
proof -
  have "views view agg \<longrightarrow> same_data view s y" if "insert_loop agg lt node current s = Some y" for y
  proof (rule insert_loop.raw_induct [of "\<lambda>agg lt node current s y. views view agg \<longrightarrow> same_data view s y", OF _ that], goal_cases)
    case (1 f agg lt node current s y)
    show ?case
    proof
      assume v: "views view agg"
      have f: "keeps_data view s (f agg lt node p s)" for p s using 1(1) v by (simp add: keeps_data_def)
      show "same_data view s y"
        by (rule 1(2) [THEN keeps_dataD]) (rule kd_if kd_read kd_case kd_link v f)+
    qed
  qed
  with assms show ?thesis by (simp add: keeps_data_def)
qed

lemma rb_Insert_data:
  "views view agg \<Longrightarrow> rb_Insert agg lt node s = Some s' \<Longrightarrow> view (rb_data s' a) = view (rb_data s a)"
  using keeps_dataD [OF _ kd_link(1) [of view agg s "Some node"], of s']
    keeps_dataD [OF _ kd_insert_loop [of view agg s lt node], of _ s']
  by (auto simp: rb_Insert_def same_data_def split: option.splits)

lemma rb_Remove_data:
  assumes "views view agg" "rb_Remove agg node s = Some s'"
  shows "view (rb_data s' a) = view (rb_data s a)"
proof -
  have half: "keeps_data view s (RemoveHalfLeaf agg n c s)" for n c s
    unfolding RemoveHalfLeaf_def by (rule kd_rules kd_path kd_FixRemove assms(1))+
  have repl: "keeps_data view s (ReplaceNode agg n x s)" for n x s
    unfolding ReplaceNode_def by (rule kd_rules kd_path assms(1))+
  have "keeps_data view s (rb_Remove agg node s)"
    unfolding rb_Remove_def by (rule kd_if kd_bind kd_read half repl)+
  with assms(2) show ?thesis by (simp add: keeps_data_def same_data_def)
qed

subsection \<open>New nodes\<close>

text \<open>\<open>new (ptr) T()\<close>: the node at \<open>ptr\<close> gets a fresh hook.\<close>

definition construct :: "'p \<Rightarrow> 'd \<Rightarrow> ('p, 'd) rb_tree \<Rightarrow> ('p, 'd) rb_tree" where
  "construct p x t = t\<lparr> rb_hooks := (rb_hooks t)(p := HookStruct), rb_data := (rb_data t)(p := x) \<rparr>"

lemma views_null: "views (\<lambda>x. x) NullAggregator"
  by (simp add: views_def NullAggregator_def)

lemma construct_rep: "rb_rep t T \<Longrightarrow> p \<notin> set (inord T) \<Longrightarrow> rb_rep (construct p x t) T"
  by (auto simp: rb_rep_def zip_ok_def construct_def)

lemma construct_fresh: "unhooked (rb_hooks (construct p x t) p)"
  by (simp add: construct_def unhooked_def HookStruct_def)

lemma construct_data [simp]: "rb_data (construct p x t) a = (if a = p then x else rb_data t a)"
  by (simp add: construct_def)

end
