(* ===== verification/RB_Frame.thy ===== *)
theory RB_Frame
  imports RB_Tree
begin

text \<open>
  Insertion and removal of the red-black tree write the hooks of the nodes of the tree, and of the
  node that is inserted, only. Several trees may hence share one store of nodes: the routes of
  the interrupt router, which are objects of the drivers, are spread over one tree per core.
\<close>

definition inside :: "'p set \<Rightarrow> 'p option \<Rightarrow> bool" where
  "inside N p \<longleftrightarrow> set_option p \<subseteq> N"

text \<open>No link leads out of the set of nodes.\<close>

definition hook_inside :: "'p set \<Rightarrow> 'p rb_hook \<Rightarrow> bool" where
  "hook_inside N k \<longleftrightarrow> inside N (hk_parent k) \<and> inside N (hk_left k) \<and> inside N (hk_right k) \<and>
     inside N (hk_predecessor k) \<and> inside N (hk_successor k)"

definition links_inside :: "'p set \<Rightarrow> ('p, 'd) rb_tree \<Rightarrow> bool" where
  "links_inside N s \<longleftrightarrow> inside N (rb_root s) \<and> (\<forall>a \<in> N. hook_inside N (rb_hooks s a))"

definition confined :: "'p set \<Rightarrow> ('p, 'd) rb_tree \<Rightarrow> ('p, 'd) rb_tree \<Rightarrow> bool" where
  "confined N s s' \<longleftrightarrow> links_inside N s' \<and> (\<forall>a. a \<notin> N \<longrightarrow> rb_hooks s' a = rb_hooks s a)"

definition stays :: "'p set \<Rightarrow> ('p, 'd) rb_tree \<Rightarrow> ('p, 'd) rb_tree option \<Rightarrow> bool" where
  "stays N s m \<longleftrightarrow> (\<forall>s'. links_inside N s \<longrightarrow> m = Some s' \<longrightarrow> confined N s s')"

definition stays2 :: "'p set \<Rightarrow> ('p, 'd) rb_tree \<Rightarrow> ('p option \<times> ('p, 'd) rb_tree) option \<Rightarrow> bool" where
  "stays2 N s m \<longleftrightarrow> (\<forall>x s'. links_inside N s \<longrightarrow> m = Some (x, s') \<longrightarrow> inside N x \<and> confined N s s')"

definition reads :: "'p set \<Rightarrow> ('p, 'd) rb_tree \<Rightarrow> 'p option option \<Rightarrow> bool" where
  "reads N s m \<longleftrightarrow> (\<forall>x. links_inside N s \<longrightarrow> m = Some x \<longrightarrow> inside N x)"

lemma staysD: "m = Some s' \<Longrightarrow> stays N s m \<Longrightarrow> links_inside N s \<Longrightarrow> confined N s s'"
  by (simp add: stays_def)

lemma confined_links: "confined N s s' \<Longrightarrow> links_inside N s'"
  by (simp add: confined_def)

lemma confined_refl: "links_inside N s \<Longrightarrow> confined N s s"
  by (simp add: confined_def)

lemma confined_trans: "confined N s t \<Longrightarrow> confined N t u \<Longrightarrow> confined N s u"
  by (simp add: confined_def)

lemma stays_bind:
  assumes "stays N s m" and "\<And>s'. stays N s' (f s')"
  shows "stays N s (m \<bind> f)"
  unfolding stays_def
proof (intro allI impI)
  fix u assume links: "links_inside N s" and "m \<bind> f = Some u"
  then obtain t where t: "m = Some t" "f t = Some u" by (auto simp: Option.bind_eq_Some_conv)
  have "confined N s t" using staysD [OF t(1) assms(1) links] .
  with staysD [OF t(2) assms(2)] show "confined N s u" by (blast intro: confined_trans confined_links)
qed

lemma stays_pair:
  assumes "stays2 N s m" and "\<And>x s'. inside N x \<Longrightarrow> stays N s' (f x s')"
  shows "stays N s (m \<bind> (\<lambda>(x, s). f x s))"
  unfolding stays_def
proof (intro allI impI)
  fix u assume links: "links_inside N s" and "m \<bind> (\<lambda>(x, s). f x s) = Some u"
  then obtain x t where t: "m = Some (x, t)" "f x t = Some u" by (auto simp: Option.bind_eq_Some_conv)
  then have "inside N x" "confined N s t" using assms(1) links by (simp_all add: stays2_def)
  with staysD [OF t(2) assms(2)] show "confined N s u" by (blast intro: confined_trans confined_links)
qed

lemma stays_ptr:
  assumes "reads N s m" and "\<And>x. inside N x \<Longrightarrow> stays N s (f x)"
  shows "stays N s (m \<bind> f)"
proof (cases "links_inside N s \<and> m \<noteq> None")
  case True
  then obtain x where x: "m = Some x" "inside N x" using assms(1) by (auto simp: reads_def)
  show ?thesis using assms(2) [OF x(2)] x(1) by simp
qed (auto simp: stays_def)

lemma stays_color: "(\<And>c. stays N s (f c)) \<Longrightarrow> stays N s (get_color s p \<bind> f)"
  by (cases "get_color s p") (simp_all add: stays_def)

lemma stays_if: "stays N s m \<Longrightarrow> stays N s m' \<Longrightarrow> stays N s (if b then m else m')"
  by simp

lemma stays2_rules:
  "inside N x \<Longrightarrow> stays2 N s (Some (x, s))"
  "stays2 N s m1 \<Longrightarrow> stays2 N s m2 \<Longrightarrow> stays2 N s (if b then m1 else m2)"
  by (simp_all add: stays2_def confined_refl)

lemma stays2_bind:
  assumes "stays N s m" and "\<And>s'. stays2 N s' (f s')"
  shows "stays2 N s (m \<bind> f)"
  unfolding stays2_def
proof (intro allI impI)
  fix x u assume links: "links_inside N s" and "m \<bind> f = Some (x, u)"
  then obtain t where t: "m = Some t" "f t = Some (x, u)" by (auto simp: Option.bind_eq_Some_conv)
  have c: "confined N s t" using staysD [OF t(1) assms(1) links] .
  with t(2) assms(2) [of t] have "inside N x" "confined N t u" by (simp_all add: stays2_def confined_links)
  with c show "inside N x \<and> confined N s u" by (blast intro: confined_trans)
qed

lemma reads_hook: "inside N p \<Longrightarrow> (\<And>k. hook_inside N k \<Longrightarrow> inside N (f k)) \<Longrightarrow> reads N s (map_option f (hk s p))"
  by (cases p) (simp_all add: reads_def hk_def inside_def links_inside_def)

lemma reads_rules:
  "inside N p \<Longrightarrow> reads N s (GetParent s p)" "inside N p \<Longrightarrow> reads N s (GetLeft s p)" "inside N p \<Longrightarrow> reads N s (GetRight s p)"
  "inside N p \<Longrightarrow> reads N s (Predecessor s p)" "inside N p \<Longrightarrow> reads N s (Successor s p)"
  unfolding GetParent_def GetLeft_def GetRight_def Predecessor_def Successor_def
  by (rule reads_hook; simp add: hook_inside_def)+

lemma reads_if: "reads N s m \<Longrightarrow> reads N s m' \<Longrightarrow> reads N s (if b then m else m')"
  by simp

lemma stays_Some: "stays N s (Some s)" "inside N v \<Longrightarrow> stays N s (Some (s\<lparr> rb_root := v \<rparr>))"
  by (simp_all add: stays_def confined_def links_inside_def)

lemma stays_upd:
  "inside N p \<Longrightarrow> (\<And>k. hook_inside N k \<Longrightarrow> hook_inside N (f k)) \<Longrightarrow> stays N s (hk_upd p f s)"
  by (cases p) (simp_all add: stays_def confined_def links_inside_def hk_upd_def inside_def)

lemma stays_link:
  assumes "inside N p" and "inside N v"
  shows "stays N s (hk_upd p (\<lambda>k. k\<lparr> hk_parent := v \<rparr>) s)" "stays N s (hk_upd p (\<lambda>k. k\<lparr> hk_left := v \<rparr>) s)"
    "stays N s (hk_upd p (\<lambda>k. k\<lparr> hk_right := v \<rparr>) s)" "stays N s (hk_upd p (\<lambda>k. k\<lparr> hk_predecessor := v \<rparr>) s)"
    "stays N s (hk_upd p (\<lambda>k. k\<lparr> hk_successor := v \<rparr>) s)"
  using assms by (auto intro!: stays_upd simp: hook_inside_def)

lemma stays_set: "inside N p \<Longrightarrow> stays N s (set_color p c s)" "inside N p \<Longrightarrow> stays N s (clear_hook p s)"
  unfolding set_color_def clear_hook_def by (auto intro!: stays_upd simp: hook_inside_def inside_def)

lemma stays_replace: "inside N p \<Longrightarrow> inside N new \<Longrightarrow> stays N s (replace_child p node new s)"
  unfolding replace_child_def by (intro stays_if stays_Some stays_ptr reads_rules stays_link)

lemma stays_node: "stays N s (AggregateNode agg node s)"
  by (auto simp: stays_def confined_def links_inside_def AggregateNode_def split: option.splits)

lemma stays_case: "(item = None \<Longrightarrow> stays N s m) \<Longrightarrow> (\<And>a. item = Some a \<Longrightarrow> stays N s (f a)) \<Longrightarrow>
    stays N s (case item of None \<Rightarrow> m | Some a \<Rightarrow> f a)"
  by (cases item) auto

lemmas stays_rules = stays_Some stays_link stays_set stays_replace stays_node stays_if stays_pair stays_color stays_ptr stays_bind reads_rules reads_if

lemma stays_path: "stays N s (AggregatePath agg node s)"
proof -
  have "confined N s y" if "AggregatePath agg node s = Some y" and "links_inside N s" for y
  proof -
    have "rb_hooks y = rb_hooks s \<and> rb_root y = rb_root s"
    proof (rule AggregatePath.raw_induct [of "\<lambda>agg n s y. rb_hooks y = rb_hooks s \<and> rb_root y = rb_root s", OF _ that(1)], goal_cases)
      case (1 f agg current s y)
      then show ?case by (fastforce simp: AggregateNode_def Option.bind_eq_Some_conv split: option.splits if_splits)
    qed
    with that(2) show ?thesis by (simp add: confined_def links_inside_def)
  qed
  then show ?thesis by (simp add: stays_def)
qed

lemma stays_rotate:
  assumes "inside N n"
  shows "stays N s (RotateLeft agg n s)" "stays N s (RotateRight agg n s)"
  unfolding RotateLeft_def RotateRight_def by (rule stays_rules assms | assumption)+

lemmas stays_more = stays_rotate stays_rules

lemma stays_FixInsert:
  assumes "inside N n"
  shows "stays N s (FixInsert agg n s)"
proof -
  have "inside N n \<longrightarrow> links_inside N s \<longrightarrow> confined N s y" if "FixInsert agg n s = Some y" for y
  proof (rule FixInsert.raw_induct [of "\<lambda>agg n s y. inside N n \<longrightarrow> links_inside N s \<longrightarrow> confined N s y", OF _ that], goal_cases)
    case (1 f agg n s y)
    show ?case
    proof (intro impI)
      assume n: "inside N n" and links: "links_inside N s"
      have f: "stays N s (f agg p s)" if "inside N p" for p s using 1(1) that by (simp add: stays_def)
      show "confined N s y"
        by (rule 1(2) [THEN staysD, OF _ links]) (rule stays_more n f | assumption)+
    qed
  qed
  with assms show ?thesis by (simp add: stays_def)
qed

lemma stays_FixRemove:
  assumes "inside N n"
  shows "stays N s (FixRemove agg n s)"
proof -
  have "inside N n \<longrightarrow> links_inside N s \<longrightarrow> confined N s y" if "FixRemove agg n s = Some y" for y
  proof (rule FixRemove.raw_induct [of "\<lambda>agg n s y. inside N n \<longrightarrow> links_inside N s \<longrightarrow> confined N s y", OF _ that], goal_cases)
    case (1 f agg n s y)
    show ?case
    proof (intro impI)
      assume n: "inside N n" and links: "links_inside N s"
      have f: "stays N s (f agg p s)" if "inside N p" for p s using 1(1) that by (simp add: stays_def)
      show "confined N s y"
        by (rule 1(2) [THEN staysD, OF _ links]) (rule stays_more stays2_rules stays2_bind n f | assumption)+
    qed
  qed
  with assms show ?thesis by (simp add: stays_def)
qed

lemma stays_insert:
  assumes "inside N parent" and "inside N node"
  shows "stays N s (InsertLeft agg parent node s)" "stays N s (InsertRight agg parent node s)"
  unfolding InsertLeft_def InsertRight_def
  by (rule stays_path stays_FixInsert stays_rules assms | assumption)+

lemma stays_root:
  assumes "inside N node"
  shows "stays N s (InsertRoot agg node s)"
  unfolding stays_def
proof (intro allI impI)
  fix u assume links: "links_inside N s" and "InsertRoot agg node s = Some u"
  then obtain t where t: "AggregateNode agg node (s\<lparr> rb_root := node \<rparr>) = Some t" "FixInsert agg node t = Some u"
    by (auto simp: InsertRoot_def Option.bind_eq_Some_conv)
  have "confined N s (s\<lparr> rb_root := node \<rparr>)" using links assms by (simp add: confined_def links_inside_def)
  moreover from this have "confined N (s\<lparr> rb_root := node \<rparr>) t" using staysD [OF t(1) stays_node] confined_links by blast
  moreover from this have "confined N t u" using staysD [OF t(2) stays_FixInsert [OF assms]] confined_links by blast
  ultimately show "confined N s u" by (blast intro: confined_trans)
qed

lemma stays_insert_loop:
  assumes "inside N (Some node)" and "inside N (Some current)"
  shows "stays N s (insert_loop agg lt node current s)"
proof -
  have "inside N (Some node) \<longrightarrow> inside N (Some current) \<longrightarrow> links_inside N s \<longrightarrow> confined N s y"
    if "insert_loop agg lt node current s = Some y" for y
  proof (rule insert_loop.raw_induct [of "\<lambda>agg lt node current s y. inside N (Some node) \<longrightarrow> inside N (Some current) \<longrightarrow>
      links_inside N s \<longrightarrow> confined N s y", OF _ that], goal_cases)
    case (1 f agg lt node current s y)
    show ?case
    proof (intro impI)
      assume n: "inside N (Some node)" "inside N (Some current)" and links: "links_inside N s"
      have f: "stays N s (f agg lt node p s)" if "inside N x" "x = Some p" for p x s using 1(1) n(1) that by (simp add: stays_def)
      show "confined N s y"
        by (rule 1(2) [THEN staysD, OF _ links]) (rule stays_case stays_insert stays_rules n | rule f, assumption+)+
    qed
  qed
  with assms show ?thesis by (simp add: stays_def)
qed

lemma rb_Insert_confined:
  assumes "rb_Insert agg lt node s = Some s'" and "links_inside N s" and "node \<in> N"
  shows "confined N s s'"
proof -
  have node: "inside N (Some node)" using assms(3) by (simp add: inside_def)
  have "stays N s (rb_Insert agg lt node s)"
    unfolding rb_Insert_def
  proof (rule stays_case)
    fix a assume "rb_root s = Some a"
    then have "inside N (Some a)" using assms(2) by (simp add: links_inside_def)
    with node show "stays N s (insert_loop agg lt node a s)" by (rule stays_insert_loop)
  qed (rule stays_root [OF node])
  with assms(1,2) show ?thesis by (blast intro: staysD)
qed

lemma rb_Remove_confined:
  assumes "rb_Remove agg (Some node) s = Some s'" and "links_inside N s" and "node \<in> N"
  shows "confined N s s'"
proof -
  have node: "inside N (Some node)" using assms(3) by (simp add: inside_def)
  have half: "stays N s (RemoveHalfLeaf agg n c s)" if "inside N n" "inside N c" for n c s
    unfolding RemoveHalfLeaf_def by (rule stays_path stays_FixRemove stays_rules that | assumption)+
  have repl: "stays N s (ReplaceNode agg n x s)" if "inside N n" "inside N x" for n x s
    unfolding ReplaceNode_def by (rule stays_path stays_rules that | assumption)+
  have "stays N s (rb_Remove agg (Some node) s)"
    unfolding rb_Remove_def by (rule half repl stays_rules node | assumption)+
  with assms(1,2) show ?thesis by (blast intro: staysD)
qed

subsection \<open>Trees that share a store\<close>

lemma tr_inside:
  "tr h par T \<Longrightarrow> set (inord T) \<subseteq> N \<Longrightarrow> inside N par \<Longrightarrow> a \<in> set (inord T) \<Longrightarrow>
   inside N (hk_parent (h a)) \<and> inside N (hk_left (h a)) \<and> inside N (hk_right (h a))"
proof (induction T arbitrary: par)
  case (Bin c l x r)
  have "inside N (ptr l)" "inside N (ptr r)" using Bin.prems(2) by (auto simp: inside_def dest!: ptr_in)
  moreover have "inside N (Some x)" using Bin.prems(2) by (simp add: inside_def)
  ultimately show ?case using Bin by auto
qed simp

lemma olinks_inside:
  "olinks h bef xs aft \<Longrightarrow> set xs \<subseteq> N \<Longrightarrow> inside N bef \<Longrightarrow> inside N aft \<Longrightarrow> a \<in> set xs \<Longrightarrow>
   inside N (hk_predecessor (h a)) \<and> inside N (hk_successor (h a))"
proof (induction xs arbitrary: bef)
  case (Cons x xs)
  have "inside N (hd_or xs aft)" using Cons.prems(2,4) by (cases xs) (auto simp: inside_def)
  moreover have "inside N (Some x)" using Cons.prems(2) by (simp add: inside_def)
  ultimately show ?case using Cons by auto
qed simp

lemma rep_links:
  assumes "rb_rep s T" and "\<forall>a \<in> N - set (inord T). unhooked (rb_hooks s a)" and "set (inord T) \<subseteq> N"
  shows "links_inside N s"
proof -
  have t: "tr (rb_hooks s) None T" "olinks (rb_hooks s) None (inord T) None" "rb_root s = ptr T"
    using assms(1) by (simp_all add: rb_rep_def zip_ok_def)
  have none: "inside N None" by (simp add: inside_def)
  have "hook_inside N (rb_hooks s a)" if "a \<in> N" for a
  proof (cases "a \<in> set (inord T)")
    case True
    then show ?thesis using tr_inside [OF t(1) assms(3) none] olinks_inside [OF t(2) assms(3) none none]
      by (simp add: hook_inside_def)
  next
    case False
    with that assms(2) have "unhooked (rb_hooks s a)" by simp
    then show ?thesis by (simp add: hook_inside_def unhooked_def none)
  qed
  moreover have "inside N (rb_root s)" using assms(3) by (auto simp: t(3) inside_def dest!: ptr_in)
  ultimately show ?thesis by (simp add: links_inside_def)
qed

lemma rb_insert_frame:
  assumes "rb_Insert agg lt z s = Some s'" and "rb_rep s T" and "unhooked (rb_hooks s z)" and "a \<noteq> z" and "a \<notin> set (inord T)"
  shows "rb_hooks s' a = rb_hooks s a"
proof -
  have "links_inside (insert z (set (inord T))) s" using assms(2,3) by (intro rep_links) auto
  from rb_Insert_confined [OF assms(1) this] assms(4,5) show ?thesis by (simp add: confined_def)
qed

lemma rb_remove_frame:
  assumes "rb_Remove agg (Some z) s = Some s'" and "rb_rep s T" and "z \<in> set (inord T)" and "a \<notin> set (inord T)"
  shows "rb_hooks s' a = rb_hooks s a"
proof -
  have "links_inside (set (inord T)) s" using assms(2) by (intro rep_links) auto
  from rb_Remove_confined [OF assms(1) this assms(3)] assms(4) show ?thesis by (simp add: confined_def)
qed

lemma rep_cong:
  assumes "rb_rep s T" and "rb_root s' = rb_root s" and "\<forall>a \<in> set (inord T). rb_hooks s' a = rb_hooks s a"
  shows "rb_rep s' T"
proof -
  have "tr (rb_hooks s') None T = tr (rb_hooks s) None T" by (rule tr_cong) (rule assms(3))
  moreover have "olinks (rb_hooks s') None (inord T) None = olinks (rb_hooks s) None (inord T) None"
    using assms(3) by (intro olinks_cong) simp
  ultimately show ?thesis using assms(1,2) by (simp add: rb_rep_def zip_ok_def)
qed

end
