(* ===== verification/RB_Search.thy ===== *)
theory RB_Search
  imports RB_Tree
begin

text \<open>
  The descent through a red-black tree that looks for a node by its key, as the interrupt router does it with the vector of
  a route and the driver manager with the id of a node. \<open>key\<close> is the field of the node that the tree is ordered by.
\<close>

partial_function (option) key_search ::
  "('d \<Rightarrow> nat) \<Rightarrow> nat \<Rightarrow> 'p option \<Rightarrow> ('p, 'd) rb_tree \<Rightarrow> 'p option option" where
  "key_search key k scan t =
     (case scan of
        None \<Rightarrow> Some None
      | Some r \<Rightarrow>
          if key (rb_data t r) = k then Some (Some r)
          else if k < key (rb_data t r) then key_search key k (hk_left (rb_hooks t r)) t
          else key_search key k (hk_right (rb_hooks t r)) t)"

lemma key_search_find:
  assumes "zip_ok t T cs" and "sorted_wrt (<) (map (\<lambda>r. key (rb_data t r)) (inord T))"
  shows "key_search key v (ptr T) t = Some (find (\<lambda>r. key (rb_data t r) = v) (inord T))"
  using assms
proof (induction T arbitrary: cs)
  case Tip
  then show ?case by (subst key_search.simps) simp
next
  case (Bin c l n r)
  let ?k = "\<lambda>r. key (rb_data t r)"
  have z: "zip_ok t l (LF c n r # cs)" "zip_ok t r (RF c l n # cs)" using Bin.prems(1) by (simp_all add: zip_up)
  have s: "sorted_wrt (<) (map ?k (inord l))" "sorted_wrt (<) (map ?k (inord r))"
      "\<forall>a \<in> set (inord l). ?k a < ?k n" "\<forall>b \<in> set (inord r). ?k n < ?k b"
    using Bin.prems(2) by (auto simp: sorted_wrt_append)
  have hooks: "hk_left (rb_hooks t n) = ptr l" "hk_right (rb_hooks t n) = ptr r"
    using zip_read(2,3) [OF Bin.prems(1)] by (simp_all add: GetLeft_def GetRight_def hk_def)
  consider "?k n = v" | "v < ?k n" | "?k n < v" by linarith
  then show ?case
  proof cases
    case 1
    have "find (\<lambda>r. ?k r = v) (inord l) = None" using s(3) 1 by (intro find_none) auto
    with 1 show ?thesis by (subst key_search.simps) (simp add: find_append)
  next
    case 2
    have "find (\<lambda>r. ?k r = v) (n # inord r) = None" using s(4) 2 by (intro find_none) auto
    then have "find (\<lambda>r. ?k r = v) (inord (Bin c l n r)) = find (\<lambda>r. ?k r = v) (inord l)"
      by (simp add: find_append split: option.split)
    with 2 Bin.IH(1) [OF z(1) s(1)] show ?thesis by (subst key_search.simps) (simp add: hooks)
  next
    case 3
    have "find (\<lambda>r. ?k r = v) (inord l @ [n]) = None" using s(3) 3 by (intro find_none) auto
    then have "find (\<lambda>r. ?k r = v) (inord (Bin c l n r)) = find (\<lambda>r. ?k r = v) (inord r)"
      by (simp add: find_append split: option.splits if_splits)
    with 3 Bin.IH(2) [OF z(2) s(2)] show ?thesis by (subst key_search.simps) (simp add: hooks)
  qed
qed

lemma sorted_inj: "sorted_wrt (<) (map (f :: 'a \<Rightarrow> nat) xs) \<Longrightarrow> inj_on f (set xs)"
  by (induction xs) fastforce+

lemma strict_sorted: "sorted_wrt (<) (map (f :: 'a \<Rightarrow> nat) xs) \<longleftrightarrow> sorted (map f xs) \<and> distinct (map f xs)"
  by (simp add: strict_sorted_iff)

text \<open>In a tree with strictly increasing keys the search returns, with the node that has the key or with nothing.\<close>

lemma key_search_ok:
  assumes "rb_rep t T" and "sorted_wrt (<) (map (\<lambda>r. key (rb_data t r)) (inord T))"
  shows "\<exists>found. key_search key v (rb_root t) t = Some found \<and>
    (\<forall>r. found = Some r \<longleftrightarrow> r \<in> set (inord T) \<and> key (rb_data t r) = v)"
proof -
  let ?P = "\<lambda>r. key (rb_data t r) = v"
  have "(find ?P (inord T) = Some r) = (r \<in> set (inord T) \<and> ?P r)" for r
  proof
    assume "r \<in> set (inord T) \<and> ?P r"
    moreover from this obtain r' where "find ?P (inord T) = Some r'" by (cases "find ?P (inord T)") (auto simp: find_None_iff)
    moreover from this have "r' \<in> set (inord T)" "?P r'" by (auto simp: find_Some_iff)
    ultimately show "find ?P (inord T) = Some r" using inj_onD [OF sorted_inj [OF assms(2)], of r r'] by simp
  qed (auto simp: find_Some_iff)
  moreover have "key_search key v (rb_root t) t = Some (find ?P (inord T))"
    using key_search_find [of t T "[]" key v] assms by (simp add: rb_rep_def zip_ok_def)
  ultimately show ?thesis by blast
qed

end
