(* ===== verification/Syslib_Locks.thy ===== *)
theory Syslib_Locks
  imports Kernel_Prelude
begin

text \<open>
  \<open>libs/np-syslib/include/Locks.h\<close>: \<open>SpinLock\<close>, \<open>TicketLock\<close> and \<open>RwLock\<close> as step
  relations in which the atomic accesses of all threads interleave. The counters keep their
  32 bits, so the theorems cover the wrap-around of the tickets; the relation lets a thread draw
  a ticket only while fewer than \<open>2 ^ 32 - 1\<close> threads are inside the lock (\<open>tk_room\<close>), since
  two threads would share a ticket otherwise. The locale \<open>mutex\<close> states
  what a lock promises and is interpreted by both exclusive locks.
\<close>

subsection \<open>The contract of an exclusive lock\<close>

locale mutex =
  fixes init :: 's
    and lstep :: "'s \<Rightarrow> 's \<Rightarrow> bool"
    and linv :: "'s \<Rightarrow> bool"
    and holds :: "'s \<Rightarrow> 't \<Rightarrow> bool"
  assumes inv_init: "linv init"
    and inv_step: "linv s \<Longrightarrow> lstep s s' \<Longrightarrow> linv s'"
    and inv_unique: "linv s \<Longrightarrow> holds s t \<Longrightarrow> holds s t' \<Longrightarrow> t = t'"
begin

lemma reach_inv: "lstep\<^sup>*\<^sup>* init s \<Longrightarrow> linv s"
  by (induction rule: rtranclp_induct) (auto intro: inv_init inv_step)

lemma exclusive: "lstep\<^sup>*\<^sup>* init s \<Longrightarrow> holds s t \<Longrightarrow> holds s t' \<Longrightarrow> t = t'"
  using reach_inv inv_unique by blast

end

subsection \<open>SpinLock\<close>

record 't spin_lock =
  sl_lock :: bool
  sl_holder :: "'t \<Rightarrow> bool"

definition spin_init :: "'t spin_lock" where
  "spin_init = \<lparr> sl_lock = False, sl_holder = (\<lambda>_. False) \<rparr>"

text \<open>
  \<open>__atomic_test_and_set\<close> returns the previous value; a thread holds the lock once it has
  seen it clear. The inner loop of \<open>Lock\<close> only reads and is left to the scheduling of steps.
\<close>

definition spin_TryLock :: "'t \<Rightarrow> 't spin_lock \<Rightarrow> bool \<times> 't spin_lock" where
  "spin_TryLock t s =
     (let prev = sl_lock s
      in (\<not> prev, s\<lparr> sl_lock := True,
                     sl_holder := (if prev then sl_holder s else (sl_holder s)(t := True)) \<rparr>))"

definition spin_Unlock :: "'t \<Rightarrow> 't spin_lock \<Rightarrow> 't spin_lock" where
  "spin_Unlock t s = s\<lparr> sl_lock := False, sl_holder := (sl_holder s)(t := False) \<rparr>"

inductive spin_step :: "'t spin_lock \<Rightarrow> 't spin_lock \<Rightarrow> bool" where
  spin_try: "\<not> sl_holder s t \<Longrightarrow> spin_step s (snd (spin_TryLock t s))"
| spin_unlock: "sl_holder s t \<Longrightarrow> spin_step s (spin_Unlock t s)"

definition spin_inv :: "'t spin_lock \<Rightarrow> bool" where
  "spin_inv s \<longleftrightarrow> (\<forall>t t'. sl_holder s t \<longrightarrow> sl_holder s t' \<longrightarrow> t = t') \<and>
     (sl_lock s \<longleftrightarrow> (\<exists>t. sl_holder s t))"

interpretation spin: mutex spin_init spin_step spin_inv sl_holder
proof
  show "spin_inv spin_init" by (simp add: spin_inv_def spin_init_def)
  show "spin_inv s'" if "spin_inv s" "spin_step s s'" for s s' :: "'a spin_lock"
    using that(2,1)
    by (induction rule: spin_step.induct)
      (auto simp: spin_inv_def spin_TryLock_def spin_Unlock_def Let_def)
  show "t = t'" if "spin_inv s" "sl_holder s t" "sl_holder s t'" for s :: "'a spin_lock" and t t'
    using that by (auto simp: spin_inv_def)
qed

subsection \<open>TicketLock\<close>

datatype ticket_pc = T_Idle | T_Waiting u32 | T_Holding

text \<open>\<open>tk_tickets\<close> and \<open>tk_entered\<close> record who drew a ticket and who entered, in order.\<close>

record 't ticket_lock =
  tk_serving :: u32
  tk_next :: u32
  tk_pc :: "'t \<Rightarrow> ticket_pc"
  tk_tickets :: "'t list"
  tk_entered :: "'t list"

definition tk_init :: "'t ticket_lock" where
  "tk_init = \<lparr> tk_serving = 0, tk_next = 0, tk_pc = (\<lambda>_. T_Idle), tk_tickets = [], tk_entered = [] \<rparr>"

definition tk_draw :: "'t \<Rightarrow> 't ticket_lock \<Rightarrow> 't ticket_lock" where
  "tk_draw t s =
     s\<lparr> tk_next := tk_next s + 1, tk_pc := (tk_pc s)(t := T_Waiting (tk_next s)),
        tk_tickets := tk_tickets s @ [t] \<rparr>"

definition tk_enter :: "'t \<Rightarrow> 't ticket_lock \<Rightarrow> 't ticket_lock" where
  "tk_enter t s = s\<lparr> tk_pc := (tk_pc s)(t := T_Holding), tk_entered := tk_entered s @ [t] \<rparr>"

definition tk_Unlock :: "'t \<Rightarrow> 't ticket_lock \<Rightarrow> 't ticket_lock" where
  "tk_Unlock t s = s\<lparr> tk_serving := tk_serving s + 1, tk_pc := (tk_pc s)(t := T_Idle) \<rparr>"

definition tk_room :: "'t ticket_lock \<Rightarrow> bool" where
  "tk_room s \<longleftrightarrow> card {t. tk_pc s t \<noteq> T_Idle} < 2 ^ 32 - 1"

inductive tk_step :: "'t ticket_lock \<Rightarrow> 't ticket_lock \<Rightarrow> bool" where
  tk_draw: "tk_pc s t = T_Idle \<Longrightarrow> tk_room s \<Longrightarrow> tk_step s (tk_draw t s)"
| tk_enter: "tk_pc s t = T_Waiting (tk_serving s) \<Longrightarrow> tk_step s (tk_enter t s)"
| tk_unlock: "tk_pc s t = T_Holding \<Longrightarrow> tk_step s (tk_Unlock t s)"

text \<open>
  The threads inside the lock form a queue \<open>q\<close>: the \<open>i\<close>-th of them has the ticket
  \<open>serving + i\<close>, and only the first may hold the lock.
\<close>

definition tk_queue :: "'t ticket_lock \<Rightarrow> 't list \<Rightarrow> bool" where
  "tk_queue s q \<longleftrightarrow>
     distinct q \<and> length q < 2 ^ 32 \<and> tk_next s = tk_serving s + of_nat (length q) \<and>
     (\<forall>t. t \<notin> set q \<longrightarrow> tk_pc s t = T_Idle) \<and>
     (\<forall>i<length q. tk_pc s (q ! i) = T_Waiting (tk_serving s + of_nat i) \<or>
        i = 0 \<and> tk_pc s (q ! i) = T_Holding) \<and>
     tk_tickets s = tk_entered s @ (if q \<noteq> [] \<and> tk_pc s (hd q) = T_Holding then tl q else q)"

definition tk_inv :: "'t ticket_lock \<Rightarrow> bool" where
  "tk_inv s \<longleftrightarrow> (\<exists>q. tk_queue s q)"

lemma of_nat_u32_eq: "i < 2 ^ 32 \<Longrightarrow> j < 2 ^ 32 \<Longrightarrow> (of_nat i :: u32) = of_nat j \<longleftrightarrow> i = j"
  by (simp add: word_of_nat_eq_iff take_bit_eq_mod)

lemma tk_queue_holder:
  assumes "tk_queue s q" "tk_pc s t = T_Holding"
  shows "\<exists>q'. q = t # q'"
proof -
  have "t \<in> set q" using assms by (auto simp: tk_queue_def)
  then obtain i where i: "i < length q" "q ! i = t" by (auto simp: in_set_conv_nth)
  with assms have "i = 0" by (auto simp: tk_queue_def)
  with i show ?thesis by (cases q) auto
qed

lemma tk_queue_served:
  assumes "tk_queue s q" "tk_pc s t = T_Waiting (tk_serving s)"
  shows "\<exists>q'. q = t # q'"
proof -
  have "t \<in> set q" using assms by (auto simp: tk_queue_def)
  then obtain i where i: "i < length q" "q ! i = t" by (auto simp: in_set_conv_nth)
  with assms have "(of_nat i :: u32) = of_nat 0" "i < 2 ^ 32" by (auto simp: tk_queue_def)
  then have "i = 0" using of_nat_u32_eq [of i 0] by simp
  with i show ?thesis by (cases q) auto
qed


lemma tk_queue_set:
  assumes "tk_queue s q"
  shows "set q = {t. tk_pc s t \<noteq> T_Idle}"
proof
  show "{t. tk_pc s t \<noteq> T_Idle} \<subseteq> set q" using assms by (auto simp: tk_queue_def)
  show "set q \<subseteq> {t. tk_pc s t \<noteq> T_Idle}"
  proof
    fix t
    assume "t \<in> set q"
    then obtain i where "i < length q" "q ! i = t" by (auto simp: in_set_conv_nth)
    then have "tk_pc s t = T_Waiting (tk_serving s + of_nat i) \<or> tk_pc s t = T_Holding"
      using assms by (auto simp: tk_queue_def)
    then show "t \<in> {t. tk_pc s t \<noteq> T_Idle}" by auto
  qed
qed

lemma tk_queue_draw:
  assumes "tk_queue s q" "tk_pc s t = T_Idle" "tk_room s"
  shows "tk_queue (tk_draw t s) (q @ [t])"
proof -
  have t: "t \<notin> set q" using assms(2) tk_queue_set [OF assms(1)] by simp
  have "distinct q" using assms(1) by (simp add: tk_queue_def)
  then have "length q < 2 ^ 32 - 1"
    using assms(3) tk_queue_set [OF assms(1)] distinct_card [of q] by (simp add: tk_room_def)
  then have "length (q @ [t]) < 2 ^ 32" by simp
  moreover have "tk_pc (tk_draw t s) (hd (q @ [t])) = T_Holding \<longleftrightarrow> q \<noteq> [] \<and> tk_pc s (hd q) = T_Holding"
    using t by (cases q) (auto simp: tk_draw_def)
  moreover have "tk_pc (tk_draw t s) ((q @ [t]) ! i) = T_Waiting (tk_serving s + of_nat i) \<or>
      i = 0 \<and> tk_pc (tk_draw t s) ((q @ [t]) ! i) = T_Holding" if "i < length (q @ [t])" for i
  proof (cases "i < length q")
    case True
    then have "q ! i \<noteq> t" using t nth_mem by metis
    with True assms(1) show ?thesis by (auto simp: tk_queue_def tk_draw_def nth_append)
  next
    case False
    with that have "i = length q" by simp
    then show ?thesis using assms(1) by (auto simp: tk_queue_def tk_draw_def)
  qed
  ultimately show ?thesis using assms(1) t \<open>distinct q\<close>
    unfolding tk_queue_def by (auto simp: tk_draw_def)
qed

lemma tk_queue_enter:
  assumes "tk_queue s q" "tk_pc s t = T_Waiting (tk_serving s)"
  shows "tk_queue (tk_enter t s) q"
proof -
  obtain q' where q: "q = t # q'" using tk_queue_served [OF assms] by blast
  have nq: "t \<notin> set q'" using assms(1) q by (auto simp: tk_queue_def)
  have "tk_pc (tk_enter t s) (q ! i) = T_Waiting (tk_serving s + of_nat i) \<or>
      i = 0 \<and> tk_pc (tk_enter t s) (q ! i) = T_Holding" if "i < length q" for i
  proof (cases i)
    case 0
    then show ?thesis by (simp add: q tk_enter_def)
  next
    case (Suc j)
    then have "q ! i \<in> set q'" using that q by simp
    then have "q ! i \<noteq> t" using nq by blast
    then show ?thesis using assms(1) that Suc by (auto simp: tk_queue_def tk_enter_def)
  qed
  then show ?thesis using assms(1,2) q unfolding tk_queue_def by (auto simp: tk_enter_def)
qed

lemma tk_queue_Unlock:
  assumes "tk_queue s q" "tk_pc s t = T_Holding"
  shows "tk_queue (tk_Unlock t s) (tl q)"
proof -
  obtain q' where q: "q = t # q'" using tk_queue_holder [OF assms] by blast
  have nq: "t \<notin> set q'" using assms(1) q by (auto simp: tk_queue_def)
  have w: "tk_pc (tk_Unlock t s) (q' ! i) = T_Waiting (tk_serving (tk_Unlock t s) + of_nat i)"
    if "i < length q'" for i
  proof -
    have "tk_pc s (q ! Suc i) = T_Waiting (tk_serving s + of_nat (Suc i))"
      using assms(1) that q unfolding tk_queue_def by (metis Suc_less_eq length_Cons nat.distinct(1))
    moreover have "q' ! i \<noteq> t" using nq that nth_mem by metis
    ultimately show ?thesis using q by (simp add: tk_Unlock_def algebra_simps)
  qed
  then have "q' \<noteq> [] \<longrightarrow> tk_pc (tk_Unlock t s) (hd q') \<noteq> T_Holding"
    by (metis hd_conv_nth length_greater_0_conv ticket_pc.distinct(5))
  then show ?thesis using assms q w unfolding tk_queue_def by (auto simp: tk_Unlock_def)
qed

lemma tk_inv_init: "tk_inv tk_init"
  unfolding tk_inv_def by (rule exI [of _ "[]"]) (simp add: tk_queue_def tk_init_def)

lemma tk_inv_step: "tk_inv s \<Longrightarrow> tk_step s s' \<Longrightarrow> tk_inv s'"
  by (auto simp: tk_inv_def elim!: tk_step.cases intro: tk_queue_draw tk_queue_enter tk_queue_Unlock)

interpretation tk: mutex tk_init tk_step tk_inv "\<lambda>s t. tk_pc s t = T_Holding"
proof
  show "t = t'" if "tk_inv s" "tk_pc s t = T_Holding" "tk_pc s t' = T_Holding"
    for s :: "'a ticket_lock" and t t'
    using that tk_queue_holder unfolding tk_inv_def by (metis list.inject)
qed (rule tk_inv_init, rule tk_inv_step)


subsection \<open>RwLock\<close>

text \<open>
  The program counters follow \<open>ReaderLock\<close> (\<open>Rd_Ready\<close> to \<open>Rd_Counted\<close>),
  \<open>ReaderUnlock\<close>, \<open>WriterLock\<close> (\<open>Wr_Counted\<close> to \<open>Wr_Locked\<close>) and \<open>WriterUnlock\<close>
  (\<open>Wr_Leaving\<close>), one per atomic access; the inner lock is the \<open>TicketLock\<close> above.
\<close>

datatype rw_pc =
    RW_Idle
  | Rd_Ready | Rd_Wait | Rd_Locked | Rd_Counted | Rd_Holding
  | Wr_Counted | Wr_Wait | Wr_Locked | Wr_Holding | Wr_Leaving

record 't rw_lock =
  rw_writers :: u32
  rw_readers :: u32
  rw_ticket :: "'t ticket_lock"
  rw_pc :: "'t \<Rightarrow> rw_pc"

definition rw_init :: "'t rw_lock" where
  "rw_init = \<lparr> rw_writers = 0, rw_readers = 0, rw_ticket = tk_init, rw_pc = (\<lambda>_. RW_Idle) \<rparr>"

definition rw_goto :: "'t \<Rightarrow> rw_pc \<Rightarrow> 't rw_lock \<Rightarrow> 't rw_lock" where
  "rw_goto t k s = s\<lparr> rw_pc := (rw_pc s)(t := k) \<rparr>"

definition rw_inside :: "'t rw_lock \<Rightarrow> 't set" where
  "rw_inside s = {t. rw_pc s t \<in> {Rd_Counted, Rd_Holding}}"

inductive rw_step :: "'t rw_lock \<Rightarrow> 't rw_lock \<Rightarrow> bool" where
  rd_check: "rw_pc s t = RW_Idle \<Longrightarrow> rw_writers s = 0 \<Longrightarrow> rw_step s (rw_goto t Rd_Ready s)"
| rd_draw: "rw_pc s t = Rd_Ready \<Longrightarrow> tk_room (rw_ticket s) \<Longrightarrow>
    rw_step s (rw_goto t Rd_Wait (s\<lparr> rw_ticket := tk_draw t (rw_ticket s) \<rparr>))"
| rd_enter: "rw_pc s t = Rd_Wait \<Longrightarrow> tk_pc (rw_ticket s) t = T_Waiting (tk_serving (rw_ticket s)) \<Longrightarrow>
    rw_step s (rw_goto t Rd_Locked (s\<lparr> rw_ticket := tk_enter t (rw_ticket s) \<rparr>))"
| rd_count: "rw_pc s t = Rd_Locked \<Longrightarrow> card (rw_inside s) < 2 ^ 32 - 1 \<Longrightarrow>
    rw_step s (rw_goto t Rd_Counted (s\<lparr> rw_readers := rw_readers s + 1 \<rparr>))"
| rd_unlock: "rw_pc s t = Rd_Counted \<Longrightarrow>
    rw_step s (rw_goto t Rd_Holding (s\<lparr> rw_ticket := tk_Unlock t (rw_ticket s) \<rparr>))"
| rd_release: "rw_pc s t = Rd_Holding \<Longrightarrow>
    rw_step s (rw_goto t RW_Idle (s\<lparr> rw_readers := rw_readers s - 1 \<rparr>))"
| wr_count: "rw_pc s t = RW_Idle \<Longrightarrow>
    rw_step s (rw_goto t Wr_Counted (s\<lparr> rw_writers := rw_writers s + 1 \<rparr>))"
| wr_draw: "rw_pc s t = Wr_Counted \<Longrightarrow> tk_room (rw_ticket s) \<Longrightarrow>
    rw_step s (rw_goto t Wr_Wait (s\<lparr> rw_ticket := tk_draw t (rw_ticket s) \<rparr>))"
| wr_enter: "rw_pc s t = Wr_Wait \<Longrightarrow> tk_pc (rw_ticket s) t = T_Waiting (tk_serving (rw_ticket s)) \<Longrightarrow>
    rw_step s (rw_goto t Wr_Locked (s\<lparr> rw_ticket := tk_enter t (rw_ticket s) \<rparr>))"
| wr_acquire: "rw_pc s t = Wr_Locked \<Longrightarrow> rw_readers s = 0 \<Longrightarrow> rw_step s (rw_goto t Wr_Holding s)"
| wr_uncount: "rw_pc s t = Wr_Holding \<Longrightarrow>
    rw_step s (rw_goto t Wr_Leaving (s\<lparr> rw_writers := rw_writers s - 1 \<rparr>))"
| wr_unlock: "rw_pc s t = Wr_Leaving \<Longrightarrow>
    rw_step s (rw_goto t RW_Idle (s\<lparr> rw_ticket := tk_Unlock t (rw_ticket s) \<rparr>))"

fun rw_pc_ok :: "rw_pc \<Rightarrow> ticket_pc \<Rightarrow> bool" where
  "rw_pc_ok k T_Holding = (k \<in> {Rd_Locked, Rd_Counted, Wr_Locked, Wr_Holding, Wr_Leaving})"
| "rw_pc_ok k (T_Waiting n) = (k \<in> {Rd_Wait, Wr_Wait})"
| "rw_pc_ok k T_Idle = (k \<in> {RW_Idle, Rd_Ready, Rd_Holding, Wr_Counted})"

definition rw_inv :: "'t rw_lock \<Rightarrow> bool" where
  "rw_inv s \<longleftrightarrow>
     tk_inv (rw_ticket s) \<and> (\<forall>t. rw_pc_ok (rw_pc s t) (tk_pc (rw_ticket s) t)) \<and>
     finite (rw_inside s) \<and> card (rw_inside s) < 2 ^ 32 \<and> rw_readers s = of_nat (card (rw_inside s)) \<and>
     (\<forall>t. rw_pc s t \<in> {Wr_Holding, Wr_Leaving} \<longrightarrow> rw_inside s = {})"

lemma rw_invD:
  assumes "rw_inv s"
  shows "tk_inv (rw_ticket s)" "\<And>t. rw_pc_ok (rw_pc s t) (tk_pc (rw_ticket s) t)"
    "finite (rw_inside s)" "card (rw_inside s) < 2 ^ 32" "rw_readers s = of_nat (card (rw_inside s))"
    "\<And>t. rw_pc s t \<in> {Wr_Holding, Wr_Leaving} \<Longrightarrow> rw_inside s = {}"
  using assms by (auto simp: rw_inv_def)

lemma rw_inside_goto:
  "rw_inside (rw_goto t k s) =
     (if k \<in> {Rd_Counted, Rd_Holding} then insert t (rw_inside s) else rw_inside s - {t})"
  by (auto simp: rw_inside_def rw_goto_def)

lemma rw_inside_upd [simp]:
  "rw_inside (s\<lparr> rw_ticket := l \<rparr>) = rw_inside s" "rw_inside (s\<lparr> rw_readers := n \<rparr>) = rw_inside s"
  "rw_inside (s\<lparr> rw_writers := n \<rparr>) = rw_inside s"
  by (simp_all add: rw_inside_def)

lemma rw_pc_ok_holding: "rw_pc_ok k p \<Longrightarrow> k \<in> {Rd_Locked, Rd_Counted, Wr_Locked, Wr_Holding, Wr_Leaving} \<Longrightarrow> p = T_Holding"
  by (cases p) auto

lemma rw_pc_ok_idle: "rw_pc_ok k p \<Longrightarrow> k \<in> {RW_Idle, Rd_Ready, Rd_Holding, Wr_Counted} \<Longrightarrow> p = T_Idle"
  by (cases p) auto

text \<open>The threads that hold the inner lock are at most one.\<close>

lemma rw_locked_unique:
  assumes "rw_inv s" "rw_pc s t \<in> {Rd_Locked, Rd_Counted, Wr_Locked, Wr_Holding, Wr_Leaving}"
    "rw_pc s t' \<in> {Rd_Locked, Rd_Counted, Wr_Locked, Wr_Holding, Wr_Leaving}"
  shows "t = t'"
  using rw_invD(1,2) [OF assms(1)] rw_pc_ok_holding assms(2,3) tk.inv_unique by metis


text \<open>A step that leaves the set of readers as it is.\<close>

lemma rw_inv_move:
  assumes "rw_inv s" "tk_inv (rw_ticket s')" "rw_readers s' = rw_readers s"
    and "rw_pc s' = (rw_pc s)(t := k)"
    and "\<And>t'. t' \<noteq> t \<Longrightarrow> tk_pc (rw_ticket s') t' = tk_pc (rw_ticket s) t'"
    and "rw_pc_ok k (tk_pc (rw_ticket s') t)"
    and "rw_pc s t \<in> {Rd_Counted, Rd_Holding} \<longleftrightarrow> k \<in> {Rd_Counted, Rd_Holding}"
    and "k \<in> {Wr_Holding, Wr_Leaving} \<Longrightarrow> rw_inside s = {}"
  shows "rw_inv s'"
proof -
  note i = rw_invD [OF assms(1)]
  have ins: "rw_inside s' = rw_inside s" using assms(4,7) by (auto simp: rw_inside_def)
  show ?thesis unfolding rw_inv_def ins assms(3)
  proof (intro conjI allI impI)
    show "rw_pc_ok (rw_pc s' t') (tk_pc (rw_ticket s') t')" for t'
      using i(2) [of t'] assms(4-6) by (cases "t' = t") auto
    show "rw_inside s = {}" if "rw_pc s' t' \<in> {Wr_Holding, Wr_Leaving}" for t'
      using that i(6) [of t'] assms(4,8) by (cases "t' = t") auto
  qed (use assms(2) i(3-5) in auto)
qed

lemma tk_pc_upd [simp]:
  "t' \<noteq> t \<Longrightarrow> tk_pc (tk_draw t l) t' = tk_pc l t'" "tk_pc (tk_draw t l) t = T_Waiting (tk_next l)"
  "t' \<noteq> t \<Longrightarrow> tk_pc (tk_enter t l) t' = tk_pc l t'" "tk_pc (tk_enter t l) t = T_Holding"
  "t' \<noteq> t \<Longrightarrow> tk_pc (tk_Unlock t l) t' = tk_pc l t'" "tk_pc (tk_Unlock t l) t = T_Idle"
  by (simp_all add: tk_draw_def tk_enter_def tk_Unlock_def)

lemma rw_goto_simps [simp]:
  "rw_ticket (rw_goto t k s) = rw_ticket s" "rw_readers (rw_goto t k s) = rw_readers s"
  "rw_writers (rw_goto t k s) = rw_writers s" "rw_pc (rw_goto t k s) = (rw_pc s)(t := k)"
  by (simp_all add: rw_goto_def)

lemma rw_inv_draw:
  assumes "rw_inv s" "(rw_pc s t, k) \<in> {(Rd_Ready, Rd_Wait), (Wr_Counted, Wr_Wait)}" "tk_room (rw_ticket s)"
  shows "rw_inv (rw_goto t k (s\<lparr> rw_ticket := tk_draw t (rw_ticket s) \<rparr>))"
proof (rule rw_inv_move [where t = t and k = k, OF assms(1)])
  have "tk_pc (rw_ticket s) t = T_Idle"
    using rw_invD(2) [OF assms(1), of t] assms(2) by (auto intro: rw_pc_ok_idle)
  then show "tk_inv (rw_ticket (rw_goto t k (s\<lparr> rw_ticket := tk_draw t (rw_ticket s) \<rparr>)))"
    using tk_inv_step [OF rw_invD(1) [OF assms(1)] tk_step.tk_draw] assms(3) by simp
qed (use assms(2) in auto)

lemma rw_inv_enter:
  assumes "rw_inv s" "(rw_pc s t, k) \<in> {(Rd_Wait, Rd_Locked), (Wr_Wait, Wr_Locked)}"
    and "tk_pc (rw_ticket s) t = T_Waiting (tk_serving (rw_ticket s))"
  shows "rw_inv (rw_goto t k (s\<lparr> rw_ticket := tk_enter t (rw_ticket s) \<rparr>))"
proof (rule rw_inv_move [where t = t and k = k, OF assms(1)])
  show "tk_inv (rw_ticket (rw_goto t k (s\<lparr> rw_ticket := tk_enter t (rw_ticket s) \<rparr>)))"
    using tk_inv_step [OF rw_invD(1) [OF assms(1)] tk_step.tk_enter] assms(3) by simp
qed (use assms(2) in auto)

lemma rw_inv_unlock:
  assumes "rw_inv s" "(rw_pc s t, k) \<in> {(Rd_Counted, Rd_Holding), (Wr_Leaving, RW_Idle)}"
  shows "rw_inv (rw_goto t k (s\<lparr> rw_ticket := tk_Unlock t (rw_ticket s) \<rparr>))"
proof (rule rw_inv_move [where t = t and k = k, OF assms(1)])
  have "tk_pc (rw_ticket s) t = T_Holding"
    using rw_invD(2) [OF assms(1), of t] assms(2) by (auto intro: rw_pc_ok_holding)
  then show "tk_inv (rw_ticket (rw_goto t k (s\<lparr> rw_ticket := tk_Unlock t (rw_ticket s) \<rparr>)))"
    using tk_inv_step [OF rw_invD(1) [OF assms(1)] tk_step.tk_unlock] by simp
qed (use assms(2) in auto)

text \<open>The steps that count a reader in and out.\<close>

lemma rw_inv_count:
  assumes "rw_inv s" "rw_pc s t = Rd_Locked" "card (rw_inside s) < 2 ^ 32 - 1"
  shows "rw_inv (rw_goto t Rd_Counted (s\<lparr> rw_readers := rw_readers s + 1 \<rparr>))"
proof -
  note i = rw_invD [OF assms(1)]
  have t: "t \<notin> rw_inside s" using assms(2) by (simp add: rw_inside_def)
  have "rw_pc s t' \<notin> {Wr_Holding, Wr_Leaving}" for t'
    using rw_locked_unique [OF assms(1), of t t'] assms(2) by auto
  moreover have "rw_pc_ok Rd_Counted (tk_pc (rw_ticket s) t)"
    using i(2) [of t] assms(2) by (cases "tk_pc (rw_ticket s) t") auto
  ultimately show ?thesis using i(1-5) t assms(3)
    unfolding rw_inv_def rw_inside_goto by (auto simp: algebra_simps)
qed

lemma rw_inv_release:
  assumes "rw_inv s" "rw_pc s t = Rd_Holding"
  shows "rw_inv (rw_goto t RW_Idle (s\<lparr> rw_readers := rw_readers s - 1 \<rparr>))"
proof -
  note i = rw_invD [OF assms(1)]
  have t: "t \<in> rw_inside s" using assms(2) by (simp add: rw_inside_def)
  then have "card (rw_inside s) = Suc (card (rw_inside s - {t}))"
    using i(3) by (metis card.remove)
  moreover have "rw_pc_ok RW_Idle (tk_pc (rw_ticket s) t)"
    using i(2) [of t] assms(2) by (cases "tk_pc (rw_ticket s) t") auto
  ultimately show ?thesis using i t assms(2)
    unfolding rw_inv_def rw_inside_goto by (auto simp: algebra_simps)
qed

lemma rw_inv_acquire:
  assumes "rw_inv s" "rw_pc s t = Wr_Locked" "rw_readers s = 0"
  shows "rw_inv (rw_goto t Wr_Holding s)"
proof (rule rw_inv_move [where t = t and k = Wr_Holding, OF assms(1)])
  note i = rw_invD [OF assms(1)]
  have "(of_nat (card (rw_inside s)) :: u32) = of_nat 0" using i(5) assms(3) by simp
  then have "card (rw_inside s) = 0" using of_nat_u32_eq [OF i(4), of 0] by simp
  then show "rw_inside s = {}" using i(3) by simp
  show "rw_pc_ok Wr_Holding (tk_pc (rw_ticket (rw_goto t Wr_Holding s)) t)"
    using i(2) [of t] assms(2) by (cases "tk_pc (rw_ticket s) t") auto
qed (use rw_invD(1) [OF assms(1)] assms(2) in auto)

lemma rw_inv_local:
  assumes "rw_inv s"
    and "(rw_pc s t, k) \<in> {(RW_Idle, Rd_Ready), (RW_Idle, Wr_Counted), (Wr_Holding, Wr_Leaving)}"
  shows "rw_inv (rw_goto t k (s\<lparr> rw_writers := n \<rparr>))"
proof (rule rw_inv_move [where t = t and k = k, OF assms(1)])
  note i = rw_invD [OF assms(1)]
  show "rw_pc_ok k (tk_pc (rw_ticket (rw_goto t k (s\<lparr> rw_writers := n \<rparr>))) t)"
    using i(2) [of t] assms(2) by (cases "tk_pc (rw_ticket s) t") auto
  show "k \<in> {Wr_Holding, Wr_Leaving} \<Longrightarrow> rw_inside s = {}" using i(6) [of t] assms(2) by auto
qed (use rw_invD(1) [OF assms(1)] assms(2) in auto)

lemma rw_inv_step: "rw_step s s' \<Longrightarrow> rw_inv s \<Longrightarrow> rw_inv s'"
proof (induction rule: rw_step.induct)
  case (rd_check s t)
  have "rw_inv (rw_goto t Rd_Ready (s\<lparr> rw_writers := rw_writers s \<rparr>))"
    using rd_check(1,3) by (intro rw_inv_local) auto
  then show ?case by simp
qed (simp_all add: rw_inv_draw rw_inv_enter rw_inv_count rw_inv_unlock rw_inv_release rw_inv_local
    rw_inv_acquire)

lemma rw_inv_init: "rw_inv rw_init"
  using tk_inv_init by (auto simp: rw_inv_def rw_init_def rw_inside_def tk_init_def)

lemma rw_reach_inv: "rw_step\<^sup>*\<^sup>* rw_init s \<Longrightarrow> rw_inv s"
  by (induction rule: rtranclp_induct) (auto intro: rw_inv_init rw_inv_step)

subsection \<open>Properties\<close>

text \<open>C22: In every interleaving at most one thread holds a \<open>TicketLock\<close>, and the threads enter
  in the order in which they drew their tickets, also after the 32-bit counters wrap.\<close>

theorem ticket_lock_safe:
  assumes "tk_step\<^sup>*\<^sup>* tk_init s"
  shows "(\<forall>t t'. tk_pc s t = T_Holding \<and> tk_pc s t' = T_Holding \<longrightarrow> t = t') \<and>
    (\<exists>waiting. tk_tickets s = tk_entered s @ waiting)"
  using tk.exclusive [OF assms] tk.reach_inv [OF assms] by (auto simp: tk_inv_def tk_queue_def)

theorem ticket_lock_safe_witness:
  "tk_pc (tk_enter True (tk_draw True tk_init)) True = T_Holding \<and>
   tk_pc (tk_enter True (tk_draw True tk_init)) False \<noteq> T_Holding \<and>
   (\<exists>waiting. tk_tickets (tk_enter True (tk_draw True tk_init)) = [True] @ waiting)"
proof -
  have "tk_step tk_init (tk_draw True tk_init)"
    by (rule tk_step.tk_draw) (simp_all add: tk_init_def tk_room_def)
  moreover have "tk_step (tk_draw True tk_init) (tk_enter True (tk_draw True tk_init))"
    by (rule tk_step.tk_enter) (simp add: tk_init_def tk_draw_def)
  ultimately have "tk_step\<^sup>*\<^sup>* tk_init (tk_enter True (tk_draw True tk_init))" by simp
  note safe = ticket_lock_safe [OF this]
  have h: "tk_pc (tk_enter True (tk_draw True tk_init)) True = T_Holding" by simp
  have e: "tk_entered (tk_enter True (tk_draw True tk_init)) = [True]"
    by (simp add: tk_init_def tk_draw_def tk_enter_def)
  from safe h have "tk_pc (tk_enter True (tk_draw True tk_init)) False \<noteq> T_Holding" by blast
  with safe h show ?thesis unfolding e by blast
qed

text \<open>C23: In every interleaving, while a writer holds an \<open>RwLock\<close> no reader and no other writer
  holds it.\<close>

theorem rw_lock_safe:
  assumes "rw_step\<^sup>*\<^sup>* rw_init s" "rw_pc s t = Wr_Holding"
  shows "\<forall>t'. t' \<noteq> t \<longrightarrow> rw_pc s t' \<notin> {Rd_Holding, Wr_Holding}"
proof -
  have i: "rw_inv s" by (rule rw_reach_inv [OF assms(1)])
  have "rw_inside s = {}" using rw_invD(6) [OF i, of t] assms(2) by simp
  then show ?thesis
    using rw_locked_unique [OF i, of t] assms(2) by (auto simp: rw_inside_def)
qed

theorem rw_lock_safe_witness:
  "rw_pc (rw_goto True Wr_Holding (rw_goto True Wr_Locked ((rw_goto True Wr_Wait
      ((rw_goto True Wr_Counted (rw_init\<lparr> rw_writers := 1 \<rparr>))\<lparr> rw_ticket := tk_draw True tk_init \<rparr>))
      \<lparr> rw_ticket := tk_enter True (tk_draw True tk_init) \<rparr>))) False \<notin> {Rd_Holding, Wr_Holding}"
proof -
  let ?s1 = "rw_goto True Wr_Counted (rw_init\<lparr> rw_writers := 1 \<rparr>)"
  let ?s2 = "rw_goto True Wr_Wait (?s1\<lparr> rw_ticket := tk_draw True tk_init \<rparr>)"
  let ?s3 = "rw_goto True Wr_Locked (?s2\<lparr> rw_ticket := tk_enter True (tk_draw True tk_init) \<rparr>)"
  have "rw_step rw_init ?s1" using rw_step.wr_count [of rw_init True] by (simp add: rw_init_def)
  moreover have "rw_step ?s1 ?s2"
    using rw_step.wr_draw [of ?s1 True] by (simp add: rw_init_def tk_room_def tk_init_def)
  moreover have "rw_step ?s2 ?s3"
    using rw_step.wr_enter [of ?s2 True] by (simp add: tk_init_def tk_draw_def)
  moreover have "rw_step ?s3 (rw_goto True Wr_Holding ?s3)"
    using rw_step.wr_acquire [of ?s3 True] by (simp add: rw_init_def)
  ultimately have "rw_step\<^sup>*\<^sup>* rw_init (rw_goto True Wr_Holding ?s3)" by simp
  then have "\<forall>t'. t' \<noteq> True \<longrightarrow> rw_pc (rw_goto True Wr_Holding ?s3) t' \<notin> {Rd_Holding, Wr_Holding}"
    by (rule rw_lock_safe) simp
  then show ?thesis by blast
qed

end
