(* ===== verification/Run_Levels.thy ===== *)
theory Run_Levels
  imports Syslib_Locks
begin

text \<open>
  \<open>kernel/tasking/RunLevels.cpp\<close> and \<open>RunLevelLock\<close> of \<open>Locks.h\<close>: the run levels of a core
  and its queue of deferred procedure calls. The state is the core-local data the code touches.
  What a deferred call does is a parameter: the calls it queues in turn. Running the calls and
  lowering the level may not end, which is \<open>None\<close>. The queue is the FIFO that \<open>Mpsc_Queue\<close>
  shows the multi-producer queue to be.
\<close>

subsection \<open>Levels\<close>

datatype run_level = Normal | Apc | Dpc | Clock | Interrupt

fun rl_rank :: "run_level \<Rightarrow> nat" where
  "rl_rank Normal = 0"
| "rl_rank Apc = 1"
| "rl_rank Dpc = 2"
| "rl_rank Clock = 3"
| "rl_rank Interrupt = 4"

instantiation run_level :: linorder
begin

definition less_eq_run_level :: "run_level \<Rightarrow> run_level \<Rightarrow> bool" where
  "less_eq_run_level a b = (rl_rank a \<le> rl_rank b)"

definition less_run_level :: "run_level \<Rightarrow> run_level \<Rightarrow> bool" where
  "less_run_level a b = (rl_rank a < rl_rank b)"

instance
proof
  fix a b :: run_level
  show "a \<le> b \<Longrightarrow> b \<le> a \<Longrightarrow> a = b"
    by (cases a; cases b) (simp_all add: less_eq_run_level_def)
qed (auto simp: less_eq_run_level_def less_run_level_def)

end

lemmas rl_order = less_eq_run_level_def less_run_level_def

text \<open>\<open>runLevel--\<close>; the loop that uses it never runs at \<open>Normal\<close>.\<close>

fun rl_dec :: "run_level \<Rightarrow> run_level" where
  "rl_dec Interrupt = Clock"
| "rl_dec Clock = Dpc"
| "rl_dec Dpc = Apc"
| "rl_dec Apc = Normal"
| "rl_dec Normal = Normal"

definition GetRunLevelName :: "run_level \<Rightarrow> string" where
  "GetRunLevelName l =
     [''normal'', ''apc'', ''dpc'', ''clock'', ''interrupt''] ! rl_rank l"

subsection \<open>The core\<close>

record 'd core =
  rl_level :: run_level
  rl_hardware :: run_level
  rl_id :: nat
  rl_dpcs :: "'d list"
  rl_apcs :: "'d list"
  rl_mail :: "(nat \<times> 'd) list"
  rl_ran :: "('d \<times> run_level) list"
  rl_switch_pending :: bool
  rl_interrupts :: bool
  rl_switches :: nat

definition set_level :: "run_level \<Rightarrow> 'd core \<Rightarrow> 'd core" where
  "set_level l s = s\<lparr> rl_hardware := l, rl_level := l \<rparr>"

definition RaiseRunLevel :: "run_level \<Rightarrow> 'd core \<Rightarrow> (run_level \<times> 'd core) res" where
  "RaiseRunLevel newLevel s =
     (if newLevel > rl_level s then Inr (rl_level s, set_level newLevel s) else Inl Assert_Failed)"

definition EnsureRunLevel :: "run_level \<Rightarrow> 'd core \<Rightarrow> (run_level option \<times> 'd core) res" where
  "EnsureRunLevel level s =
     (if rl_level s < level
      then res_bind (RaiseRunLevel level s) (\<lambda>(prev, s'). Inr (Some prev, s'))
      else Inr (None, s))"

text \<open>
  The calls that a call queues while it runs at level \<open>Dpc\<close>, behind the ones that wait: \<open>QueueDpc\<close> refuses a call whose \<open>next\<close> is not
  null, which is one that is queued and not the last in the queue.
\<close>

fun accepted :: "'d list \<Rightarrow> 'd list \<Rightarrow> 'd list" where
  "accepted q [] = []"
| "accepted q (d # ds) = (if d \<in> set (butlast q) then accepted q ds else d # accepted (q @ [d]) ds)"

partial_function (option) run_dpcs :: "('d \<Rightarrow> 'd list) \<Rightarrow> 'd core \<Rightarrow> 'd core option" where
  "run_dpcs effect s =
     (case rl_dpcs s of
        [] \<Rightarrow> Some s
      | d # ds \<Rightarrow>
          run_dpcs effect (s\<lparr> rl_dpcs := ds @ accepted ds (effect d), rl_ran := rl_ran s @ [(d, rl_level s)] \<rparr>))"

text \<open>The loop of \<open>LowerRunLevel\<close>, with its two flags.\<close>

partial_function (option) lower_loop ::
  "('d \<Rightarrow> 'd list) \<Rightarrow> run_level \<Rightarrow> bool \<Rightarrow> bool \<Rightarrow> 'd core \<Rightarrow> (bool \<times> bool \<times> 'd core) option" where
  "lower_loop effect newLevel restoreInterrupts doThreadSwitch s =
     (if rl_level s > newLevel
      then
        (case (if rl_level s = Dpc then run_dpcs effect s else Some s) of
           None \<Rightarrow> None
         | Some s1 \<Rightarrow>
             if (rl_level s = Apc \<or> rl_level s = Normal) \<and> rl_switch_pending s1
             then lower_loop effect newLevel (rl_interrupts s1) True
                    (set_level (rl_dec (rl_level s1)) (s1\<lparr> rl_interrupts := False \<rparr>))
             else lower_loop effect newLevel restoreInterrupts doThreadSwitch
                    (set_level (rl_dec (rl_level s1)) s1))
      else Some (restoreInterrupts, doThreadSwitch, s))"

definition LowerRunLevel :: "('d \<Rightarrow> 'd list) \<Rightarrow> run_level \<Rightarrow> 'd core \<Rightarrow> ('d core res) option" where
  "LowerRunLevel effect newLevel s =
     (if \<not> newLevel < rl_level s then Some (Inl Assert_Failed)
      else case lower_loop effect newLevel False False s of
             None \<Rightarrow> None
           | Some (restoreInterrupts, doThreadSwitch, s1) \<Rightarrow>
               if doThreadSwitch
               then let s2 = s1\<lparr> rl_switches := rl_switches s1 + 1, rl_switch_pending := False \<rparr>
                    in Some (Inr (if restoreInterrupts then s2\<lparr> rl_interrupts := True \<rparr> else s2))
               else Some (Inr s1))"

definition QueueDpc :: "('d \<Rightarrow> 'd list) \<Rightarrow> 'd \<Rightarrow> 'd core \<Rightarrow> ('d core res) option" where
  "QueueDpc effect d s =
     (if d \<in> set (butlast (rl_dpcs s)) then Some (Inr s)
      else
        let s1 = s\<lparr> rl_dpcs := rl_dpcs s @ [d] \<rparr>
        in if rl_level s1 \<ge> Dpc then Some (Inr s1)
           else (case RaiseRunLevel Dpc s1 of
                   Inl e \<Rightarrow> Some (Inl e)
                 | Inr (currLevel, s2) \<Rightarrow> LowerRunLevel effect currLevel s2))"

text \<open>Calls queued with \<open>QueueApc\<close> stay queued: lowering the level does not run them yet.\<close>

definition QueueApc :: "('d \<Rightarrow> 'd list) \<Rightarrow> 'd \<Rightarrow> 'd core \<Rightarrow> ('d core res) option" where
  "QueueApc effect a s =
     (if a \<in> set (butlast (rl_apcs s)) then Some (Inr s)
      else
        let s1 = s\<lparr> rl_apcs := rl_apcs s @ [a] \<rparr>
        in if rl_level s1 \<ge> Apc then Some (Inr s1)
           else (case RaiseRunLevel Apc s1 of
                   Inl e \<Rightarrow> Some (Inl e)
                 | Inr (currLevel, s2) \<Rightarrow> LowerRunLevel effect currLevel s2))"

definition QueueRemoteDpc ::
  "('d \<Rightarrow> 'd list) \<Rightarrow> nat \<Rightarrow> 'd \<Rightarrow> 'd core \<Rightarrow> ('d core res) option" where
  "QueueRemoteDpc effect coreId d s =
     (if coreId = rl_id s then QueueDpc effect d s
      else Some (Inr (s\<lparr> rl_mail := rl_mail s @ [(coreId, d)] \<rparr>)))"

subsection \<open>RunLevelLock\<close>

record 't rl_lock =
  rll_prev :: "run_level option"
  rll_spin :: "'t spin_lock"

text \<open>\<open>Lock\<close> on a core whose spin lock attempt succeeds; the level is raised first.\<close>

definition RunLevelLock_Lock ::
  "run_level \<Rightarrow> bool \<Rightarrow> 't \<Rightarrow> 't rl_lock \<Rightarrow> 'd core \<Rightarrow> ((bool \<times> 't rl_lock) \<times> 'd core) res" where
  "RunLevelLock_Lock critical coreLocal t l s =
     res_bind (if coreLocal then res_bind (RaiseRunLevel critical s) (\<lambda>(p, s'). Inr (Some p, s'))
               else Inr (rll_prev l, s))
       (\<lambda>(prev, s'). let (ok, spin) = spin_TryLock t (rll_spin l)
                     in Inr ((ok, l\<lparr> rll_prev := prev, rll_spin := spin \<rparr>), s'))"

definition RunLevelLock_Unlock ::
  "('d \<Rightarrow> 'd list) \<Rightarrow> bool \<Rightarrow> 't \<Rightarrow> 't rl_lock \<Rightarrow> 'd core \<Rightarrow> (('t rl_lock \<times> 'd core) res) option" where
  "RunLevelLock_Unlock effect coreLocal t l s =
     (let l' = l\<lparr> rll_prev := None, rll_spin := spin_Unlock t (rll_spin l) \<rparr>
      in case rll_prev l of
           Some prev \<Rightarrow>
             if coreLocal
             then (case LowerRunLevel effect prev s of
                     None \<Rightarrow> None
                   | Some (Inl e) \<Rightarrow> Some (Inl e)
                   | Some (Inr s') \<Rightarrow> Some (Inr (l', s')))
             else Some (Inr (l', s))
         | None \<Rightarrow> Some (Inr (l', s)))"

subsection \<open>Lowering the level\<close>

lemma rl_dec_rank: "l \<noteq> Normal \<Longrightarrow> rl_rank (rl_dec l) = rl_rank l - 1"
  by (cases l) auto

lemma set_level_simps [simp]:
  "rl_level (set_level l s) = l" "rl_hardware (set_level l s) = l" "rl_dpcs (set_level l s) = rl_dpcs s"
  "rl_apcs (set_level l s) = rl_apcs s" "rl_mail (set_level l s) = rl_mail s" "rl_id (set_level l s) = rl_id s"
  "rl_ran (set_level l s) = rl_ran s" "rl_switch_pending (set_level l s) = rl_switch_pending s"
  "rl_interrupts (set_level l s) = rl_interrupts s" "rl_switches (set_level l s) = rl_switches s"
  by (simp_all add: set_level_def)

text \<open>
  The calls of a core do not queue others forever: each call has a weight above that of the calls
  it queues together. The calls that are run are the queued ones, followed by the ones they queue,
  in the order in which they are queued.
\<close>

definition effect_bounded :: "('d \<Rightarrow> nat) \<Rightarrow> ('d \<Rightarrow> 'd list) \<Rightarrow> bool" where
  "effect_bounded weight effect = (\<forall>d. sum_list (map weight (effect d)) < weight d)"

inductive run_order :: "('d \<Rightarrow> 'd list) \<Rightarrow> 'd list \<Rightarrow> 'd list \<Rightarrow> bool" for effect where
  run_order_Nil: "run_order effect [] []"
| run_order_Cons: "run_order effect (ds @ accepted ds (effect d)) P \<Longrightarrow> run_order effect (d # ds) (d # P)"

inductive_simps run_order_Nil_iff: "run_order effect [] P"
inductive_simps run_order_Cons_iff: "run_order effect (d # ds) P"

lemma accepted_all: "distinct (q @ ds) \<Longrightarrow> accepted q ds = ds"
  by (induction q ds rule: accepted.induct) (auto dest: in_set_butlastD)

lemma accepted_weight: "sum_list (map weight (accepted q ds)) \<le> (sum_list (map weight ds) :: nat)"
  by (induction q ds rule: accepted.induct) auto

text \<open>When no call is queued twice, all are accepted: what is run is what was queued, followed by what
  is queued by each call in turn.\<close>

lemma run_order_distinct:
  assumes "run_order effect q P" and "distinct (q @ concat (map effect P))"
  shows "P = q @ concat (map effect P)"
  using assms
proof (induction rule: run_order.induct)
  case (run_order_Cons ds d P)
  have acc: "accepted ds (effect d) = effect d" using run_order_Cons.prems by (intro accepted_all) auto
  have "distinct ((ds @ accepted ds (effect d)) @ concat (map effect P))" using run_order_Cons.prems acc by auto
  from run_order_Cons.IH [OF this] acc show ?case by simp
qed simp

lemma run_dpcs_ok:
  assumes "effect_bounded weight effect"
  shows "\<exists>P. run_order effect (rl_dpcs s) P \<and>
    run_dpcs effect s = Some (s\<lparr> rl_dpcs := [], rl_ran := rl_ran s @ map (\<lambda>d. (d, rl_level s)) P \<rparr>)"
proof (induction "sum_list (map weight (rl_dpcs s))" arbitrary: s rule: less_induct)
  case less
  show ?case
  proof (cases "rl_dpcs s")
    case Nil
    then show ?thesis
      by (intro exI [of _ "[]"], subst run_dpcs.simps) (cases s, simp add: run_order_Nil)
  next
    case (Cons d ds)
    let ?s1 = "s\<lparr> rl_dpcs := ds @ accepted ds (effect d), rl_ran := rl_ran s @ [(d, rl_level s)] \<rparr>"
    have step: "run_dpcs effect s = run_dpcs effect ?s1"
      using Cons by (subst run_dpcs.simps) simp
    have "sum_list (map weight (rl_dpcs ?s1)) < sum_list (map weight (rl_dpcs s))"
      using assms Cons le_less_trans [OF accepted_weight [of weight ds "effect d"], of "weight d"] by (auto simp: effect_bounded_def)
    from less [OF this] obtain P where P: "run_order effect (ds @ accepted ds (effect d)) P"
      "run_dpcs effect ?s1 = Some (?s1\<lparr> rl_dpcs := [],
         rl_ran := rl_ran ?s1 @ map (\<lambda>d. (d, rl_level s)) P \<rparr>)" by auto
    from step P(2) run_order_Cons [OF P(1)] Cons show ?thesis
      by (intro exI [of _ "d # P"]) simp
  qed
qed

text \<open>What lowering the level from that of \<open>s\<close> to \<open>newLevel\<close> leaves.\<close>

definition dpcs_done :: "('d \<Rightarrow> 'd list) \<Rightarrow> run_level \<Rightarrow> 'd core \<Rightarrow> 'd core \<Rightarrow> bool" where
  "dpcs_done effect newLevel s s' =
     (if newLevel < Dpc \<and> Dpc \<le> rl_level s
      then rl_dpcs s' = [] \<and> (\<exists>P. run_order effect (rl_dpcs s) P \<and>
             rl_ran s' = rl_ran s @ map (\<lambda>d. (d, Dpc)) P)
      else rl_dpcs s' = rl_dpcs s \<and> rl_ran s' = rl_ran s)"

definition lowered ::
  "('d \<Rightarrow> 'd list) \<Rightarrow> run_level \<Rightarrow> bool \<Rightarrow> bool \<Rightarrow> 'd core \<Rightarrow> bool \<times> bool \<times> 'd core \<Rightarrow> bool" where
  "lowered effect newLevel r w s res = (case res of (ri, sw, s') \<Rightarrow>
     rl_level s' = newLevel \<and> (rl_hardware s = rl_level s \<longrightarrow> rl_hardware s' = newLevel) \<and>
     rl_apcs s' = rl_apcs s \<and> rl_mail s' = rl_mail s \<and> rl_switch_pending s' = rl_switch_pending s \<and>
     rl_switches s' = rl_switches s \<and>
     (if newLevel = Normal \<and> newLevel < rl_level s \<and> rl_switch_pending s
      then sw \<and> ri = rl_interrupts s \<and> \<not> rl_interrupts s'
      else sw = w \<and> ri = r \<and> rl_interrupts s' = rl_interrupts s) \<and>
     dpcs_done effect newLevel s s')"

lemma lowered_high:
  assumes "lowered effect newLevel r w (set_level (rl_dec (rl_level s)) s) res"
    "newLevel < rl_level s" "Dpc < rl_level s"
  shows "lowered effect newLevel r w s res"
  using assms
  by (cases newLevel; cases "rl_level s") (auto simp: lowered_def dpcs_done_def rl_order set_level_def)

lemma lowered_dpc:
  assumes "lowered effect newLevel r w
      (set_level Apc (s\<lparr> rl_dpcs := [], rl_ran := rl_ran s @ map (\<lambda>d. (d, Dpc)) P \<rparr>)) res"
    "run_order effect (rl_dpcs s) P" "newLevel < rl_level s" "rl_level s = Dpc"
  shows "lowered effect newLevel r w s res"
  using assms
  by (cases newLevel) (auto simp: lowered_def dpcs_done_def rl_order set_level_def)

lemma lower_loop_ok:
  assumes "effect_bounded weight effect" "newLevel \<le> rl_level s"
  shows "\<exists>res. lower_loop effect newLevel r w s = Some res \<and> lowered effect newLevel r w s res"
  using assms(2)
proof (induction "rl_rank (rl_level s)" arbitrary: s r w)
  case 0
  then have "rl_level s = Normal" by (cases "rl_level s") auto
  moreover from this 0 have "newLevel = Normal" by (cases newLevel) (auto simp: rl_order)
  ultimately show ?case by (subst lower_loop.simps) (simp add: rl_order dpcs_done_def lowered_def)
next
  case (Suc k)
  show ?case
  proof (cases "newLevel < rl_level s")
    case False
    with Suc.prems show ?thesis by (subst lower_loop.simps) (auto simp: dpcs_done_def lowered_def)
  next
    case low: True
    have le: "newLevel \<le> rl_dec (rl_level s)"
      using low by (cases newLevel; cases "rl_level s") (simp_all add: rl_order)
    have k: "k = rl_rank (rl_dec (rl_level s))"
      using Suc.hyps(2) by (cases "rl_level s") auto
    consider (Dpc) "rl_level s = Dpc" | (Apc) "rl_level s = Apc" | (High) "rl_level s > Dpc"
      using low by (cases "rl_level s") (auto simp: rl_order)
    then show ?thesis
    proof cases
      case Dpc
      obtain P where P: "run_order effect (rl_dpcs s) P"
        "run_dpcs effect s = Some (s\<lparr> rl_dpcs := [], rl_ran := rl_ran s @ map (\<lambda>d. (d, rl_level s)) P \<rparr>)"
        using run_dpcs_ok [OF assms(1)] by blast
      let ?s = "set_level Apc (s\<lparr> rl_dpcs := [], rl_ran := rl_ran s @ map (\<lambda>d. (d, Dpc)) P \<rparr>)"
      have step: "lower_loop effect newLevel r w s = lower_loop effect newLevel r w ?s"
        using low Dpc P(2) by (subst lower_loop.simps) simp
      show ?thesis
        unfolding step using Suc.hyps(1) [of ?s r w] k le Dpc lowered_dpc [OF _ P(1) low Dpc] by auto
    next
      case Apc
      then have n: "newLevel = Normal" using low by (cases newLevel) (auto simp: rl_order)
      let ?s = "set_level Normal (if rl_switch_pending s then s\<lparr> rl_interrupts := False \<rparr> else s)"
      have step: "lower_loop effect newLevel r w s =
          Some (if rl_switch_pending s then (rl_interrupts s, True, ?s) else (r, w, ?s))"
        using low Apc n by (subst lower_loop.simps, subst lower_loop.simps, subst lower_loop.simps)
          (simp add: rl_order)
      show ?thesis unfolding step using low Apc n by (auto simp: dpcs_done_def lowered_def rl_order)
    next
      case High
      let ?s = "set_level (rl_dec (rl_level s)) s"
      have step: "lower_loop effect newLevel r w s = lower_loop effect newLevel r w ?s"
        using low High by (subst lower_loop.simps) (auto simp: rl_order)
      show ?thesis
        unfolding step using Suc.hyps(1) [of ?s r w] k le lowered_high [OF _ low High] by auto
    qed
  qed
qed

lemma LowerRunLevel_ok:
  assumes "effect_bounded weight effect" "newLevel < rl_level s" "rl_hardware s = rl_level s"
  shows "\<exists>s'. LowerRunLevel effect newLevel s = Some (Inr s') \<and> rl_level s' = newLevel \<and>
    rl_hardware s' = newLevel \<and> rl_apcs s' = rl_apcs s \<and> rl_interrupts s' = rl_interrupts s \<and>
    (if newLevel = Normal \<and> rl_switch_pending s
     then rl_switches s' = rl_switches s + 1 \<and> \<not> rl_switch_pending s'
     else rl_switches s' = rl_switches s \<and> rl_switch_pending s' = rl_switch_pending s) \<and>
    dpcs_done effect newLevel s s'"
proof -
  obtain ri sw s' where r: "lower_loop effect newLevel False False s = Some (ri, sw, s')"
    "lowered effect newLevel False False s (ri, sw, s')"
    using lower_loop_ok [OF assms(1), of newLevel s False False] assms(2) by fastforce
  then show ?thesis
    using assms(2,3) by (auto simp: LowerRunLevel_def lowered_def dpcs_done_def Let_def)
qed

text \<open>C20: \<open>QueueDpc\<close> from below the \<open>Dpc\<close> level runs the calls that were queued, the new one and
  the calls these queue, in the order they were queued (a call that waits already is refused, unless it is the last one; when no
  call is queued twice, what is run is exactly what was queued followed by what each call queues) and each at level \<open>Dpc\<close>, and returns at
  the level it was called at with the interrupt flag as it was, after one pending thread switch if
  that level is \<open>Normal\<close>. From \<open>Dpc\<close> or above it only queues.\<close>

theorem QueueDpc_runs_in_order:
  assumes "effect_bounded weight effect" "rl_hardware s = rl_level s" "d \<notin> set (butlast (rl_dpcs s))"
  shows "\<exists>s'. QueueDpc effect d s = Some (Inr s') \<and> rl_level s' = rl_level s \<and>
    rl_hardware s' = rl_level s \<and> rl_interrupts s' = rl_interrupts s \<and>
    (if rl_level s < Dpc
     then rl_dpcs s' = [] \<and>
       (\<exists>P. run_order effect (rl_dpcs s @ [d]) P \<and> rl_ran s' = rl_ran s @ map (\<lambda>d. (d, Dpc)) P \<and>
         (distinct (rl_dpcs s @ [d] @ concat (map effect P)) \<longrightarrow> P = rl_dpcs s @ [d] @ concat (map effect P)))
     else rl_dpcs s' = rl_dpcs s @ [d] \<and> rl_ran s' = rl_ran s) \<and>
    (if rl_level s = Normal \<and> rl_switch_pending s
     then rl_switches s' = rl_switches s + 1 \<and> \<not> rl_switch_pending s'
     else rl_switches s' = rl_switches s \<and> rl_switch_pending s' = rl_switch_pending s)"
proof (cases "rl_level s < Dpc")
  case True
  let ?s = "set_level Dpc (s\<lparr> rl_dpcs := rl_dpcs s @ [d] \<rparr>)"
  have "QueueDpc effect d s = LowerRunLevel effect (rl_level s) ?s"
    using True assms(3) by (auto simp: QueueDpc_def RaiseRunLevel_def Let_def)
  moreover have "rl_level s < rl_level ?s" "rl_hardware ?s = rl_level ?s"
    using True by simp_all
  ultimately obtain s' where s': "QueueDpc effect d s = Some (Inr s')" "rl_level s' = rl_level s" "rl_hardware s' = rl_level s"
      "rl_interrupts s' = rl_interrupts s" "dpcs_done effect (rl_level s) ?s s'"
      "if rl_level s = Normal \<and> rl_switch_pending s then rl_switches s' = rl_switches s + 1 \<and> \<not> rl_switch_pending s'
       else rl_switches s' = rl_switches s \<and> rl_switch_pending s' = rl_switch_pending s"
    using LowerRunLevel_ok [OF assms(1), of "rl_level s" ?s] by auto
  from s'(5) True obtain P where P: "rl_dpcs s' = []" "run_order effect (rl_dpcs s @ [d]) P" "rl_ran s' = rl_ran s @ map (\<lambda>d. (d, Dpc)) P"
    by (auto simp: dpcs_done_def)
  have "distinct (rl_dpcs s @ [d] @ concat (map effect P)) \<longrightarrow> P = rl_dpcs s @ [d] @ concat (map effect P)"
    using run_order_distinct [OF P(2)] by simp
  with P have "if rl_level s < Dpc
     then rl_dpcs s' = [] \<and>
       (\<exists>P. run_order effect (rl_dpcs s @ [d]) P \<and> rl_ran s' = rl_ran s @ map (\<lambda>d. (d, Dpc)) P \<and>
         (distinct (rl_dpcs s @ [d] @ concat (map effect P)) \<longrightarrow> P = rl_dpcs s @ [d] @ concat (map effect P)))
     else rl_dpcs s' = rl_dpcs s @ [d] \<and> rl_ran s' = rl_ran s" unfolding if_P [OF True] by blast
  then show ?thesis by (intro exI [of _ s'] conjI s'(1-4,6))
next
  case False
  then have "rl_level s \<noteq> Normal" by (auto simp: rl_order)
  with False assms show ?thesis by (simp add: QueueDpc_def not_less)
qed

definition demo_core :: "run_level \<Rightarrow> bool \<Rightarrow> nat core" where
  "demo_core l sw =
     \<lparr> rl_level = l, rl_hardware = l, rl_id = 0, rl_dpcs = [7], rl_apcs = [], rl_mail = [], rl_ran = [],
       rl_switch_pending = sw, rl_interrupts = True, rl_switches = 0 \<rparr>"

lemma demo_core_simps [simp]:
  "rl_level (demo_core l sw) = l" "rl_hardware (demo_core l sw) = l" "rl_dpcs (demo_core l sw) = [7]"
  "rl_ran (demo_core l sw) = []" "rl_switch_pending (demo_core l sw) = sw"
  "rl_switches (demo_core l sw) = 0"
  by (simp_all add: demo_core_def)

lemma demo_bounded:
  "effect_bounded (\<lambda>d. if d = 8 then 2 else 1) (\<lambda>d. if d = (8::nat) then [2] else [])"
  by (simp add: effect_bounded_def)

theorem QueueDpc_runs_in_order_witness:
  "\<exists>s'. QueueDpc (\<lambda>d. if d = 8 then [2] else []) 8 (demo_core Normal True) = Some (Inr s') \<and>
     rl_ran s' = [(7, Dpc), (8, Dpc), (2, Dpc)] \<and> rl_level s' = Normal \<and> rl_switches s' = 1"
  using QueueDpc_runs_in_order [OF demo_bounded, of "demo_core Normal True" 8]
  by (auto simp: rl_order run_order_Cons_iff run_order_Nil_iff)

subsection \<open>RunLevelLock\<close>

lemma RunLevelLock_Lock_below:
  "rl_level s < critical \<Longrightarrow> RunLevelLock_Lock critical True t l s =
     Inr ((\<not> sl_lock (rll_spin l),
           l\<lparr> rll_prev := Some (rl_level s), rll_spin := snd (spin_TryLock t (rll_spin l)) \<rparr>),
          set_level critical s)"
  by (simp add: RunLevelLock_Lock_def RaiseRunLevel_def spin_TryLock_def Let_def)

text \<open>A core below the critical level that takes a free run level lock holds it at the critical
  level, where taking it again is refused by an assertion; releasing it frees the lock and brings
  the core back to its level.\<close>

lemma RunLevelLock_restores:
  assumes "effect_bounded weight effect" "rl_level s < critical" "\<not> sl_lock (rll_spin l)"
  shows "\<exists>l1 s1 l2 s2. RunLevelLock_Lock critical True t l s = Inr ((True, l1), s1) \<and>
    sl_holder (rll_spin l1) t \<and> rl_level s1 = critical \<and> rl_dpcs s1 = rl_dpcs s \<and>
    RunLevelLock_Lock critical True t l1 s1 = Inl Assert_Failed \<and>
    RunLevelLock_Unlock effect True t l1 s1 = Some (Inr (l2, s2)) \<and>
    \<not> sl_lock (rll_spin l2) \<and> rl_level s2 = rl_level s \<and> rl_hardware s2 = rl_level s \<and>
    dpcs_done effect (rl_level s) s1 s2"
proof -
  let ?l1 = "l\<lparr> rll_prev := Some (rl_level s), rll_spin := snd (spin_TryLock t (rll_spin l)) \<rparr>"
  let ?s1 = "set_level critical s"
  obtain s2 where s2: "LowerRunLevel effect (rl_level s) ?s1 = Some (Inr s2)" "rl_level s2 = rl_level s"
    "rl_hardware s2 = rl_level s" "dpcs_done effect (rl_level s) ?s1 s2"
    using LowerRunLevel_ok [OF assms(1), of "rl_level s" ?s1] assms(2) by auto
  have again: "RunLevelLock_Lock critical True t ?l1 ?s1 = Inl Assert_Failed"
    by (simp add: RunLevelLock_Lock_def RaiseRunLevel_def)
  show ?thesis
    by (intro exI [of _ ?l1] exI [of _ ?s1]
        exI [of _ "?l1\<lparr> rll_prev := None, rll_spin := spin_Unlock t (rll_spin ?l1) \<rparr>"] exI [of _ s2])
      (use s2 again assms in \<open>auto simp: RunLevelLock_Lock_below RunLevelLock_Unlock_def spin_TryLock_def
         spin_Unlock_def Let_def\<close>)
qed

lemma RunLevelLock_restores_example:
  "\<exists>l1 s1 l2 s2.
     RunLevelLock_Lock Dpc True (0::nat) \<lparr> rll_prev = None, rll_spin = spin_init \<rparr> (demo_core Normal False) =
       Inr ((True, l1), s1) \<and>
     RunLevelLock_Unlock (\<lambda>_. []) True 0 l1 s1 = Some (Inr (l2, s2)) \<and> rl_level s2 = Normal \<and> rl_dpcs s2 = []"
proof -
  have "effect_bounded (\<lambda>_. 1) (\<lambda>_::nat. [])" by (simp add: effect_bounded_def)
  from RunLevelLock_restores [OF this, of "demo_core Normal False" Dpc
      "\<lparr> rll_prev = None, rll_spin = spin_init \<rparr>" "0::nat"]
  show ?thesis by (fastforce simp: rl_order spin_init_def dpcs_done_def)
qed

text \<open>\<open>RunLevelLock::Lock\<close> stores the level of its core in the lock before it has the lock. When
  core \<open>b\<close> waits for a lock that core \<open>a\<close> holds, \<open>a\<close> returns to the level of \<open>b\<close>, and \<open>b\<close>, once it
  has had the lock and released it, stays at the critical level.\<close>

lemma RunLevelLock_contended:
  assumes "effect_bounded weight effect" "rl_level sa < critical" "rl_level sb < critical"
    "\<not> sl_lock (rll_spin l)" "a \<noteq> b"
  shows "\<exists>l1 sa1 l2 sb1 l3 sa2 l4.
    RunLevelLock_Lock critical True a l sa = Inr ((True, l1), sa1) \<and>
    RunLevelLock_Lock critical True b l1 sb = Inr ((False, l2), sb1) \<and>
    RunLevelLock_Unlock effect True a l2 sa1 = Some (Inr (l3, sa2)) \<and> rl_level sa2 = rl_level sb \<and>
    fst (spin_TryLock b (rll_spin l3)) \<and>
    RunLevelLock_Unlock effect True b (l3\<lparr> rll_spin := snd (spin_TryLock b (rll_spin l3)) \<rparr>) sb1 =
      Some (Inr (l4, sb1)) \<and> rl_level sb1 = critical"
proof -
  obtain sa2 where sa2: "LowerRunLevel effect (rl_level sb) (set_level critical sa) = Some (Inr sa2)"
    "rl_level sa2 = rl_level sb"
    using LowerRunLevel_ok [OF assms(1), of "rl_level sb" "set_level critical sa"] assms(3) by auto
  show ?thesis
    using assms sa2
    by (simp add: RunLevelLock_Lock_below RunLevelLock_Unlock_def spin_TryLock_def spin_Unlock_def)
qed

lemma RunLevelLock_contended_example:
  "\<exists>l1 sa1 l2 sb1 l3 sa2.
     RunLevelLock_Lock Dpc True (0::nat) \<lparr> rll_prev = None, rll_spin = spin_init \<rparr> (demo_core Normal False) =
       Inr ((True, l1), sa1) \<and>
     RunLevelLock_Lock Dpc True 1 l1 (demo_core Apc False) = Inr ((False, l2), sb1) \<and>
     RunLevelLock_Unlock (\<lambda>_. []) True 0 l2 sa1 = Some (Inr (l3, sa2)) \<and> rl_level sa2 = Apc"
proof -
  have "effect_bounded (\<lambda>_. 1) (\<lambda>_::nat. [])" by (simp add: effect_bounded_def)
  from RunLevelLock_contended [OF this, of "demo_core Normal False" Dpc "demo_core Apc False"
      "\<lparr> rll_prev = None, rll_spin = spin_init \<rparr>" "0::nat" 1]
  show ?thesis by (simp add: rl_order spin_init_def) blast
qed

end
