(* ===== verification/Io_Apic.thy ===== *)
theory Io_Apic
  imports Kernel_Prelude
begin

text \<open>
  \<open>IoApic\<close> of \<open>kernel/arch/x86_64/Apic.cpp\<close>: the controllers that turn the pins of devices into
  interrupt vectors of cores. The registers of a controller are reached through a register that
  selects one of them and a window; a register reads back what was written to it. The table of the firmware that
  names the controllers is read from memory byte by byte. The memory manager that maps the registers
  is an argument: the registers behind a physical address, or \<open>None\<close>.
\<close>

unbundle bit_operations_syntax

subsection \<open>State\<close>

datatype PinPolarity = Polarity_High | Polarity_Low

datatype TriggerMode = Trigger_Edge | Trigger_Level

primrec polarity_bits :: "PinPolarity \<Rightarrow> u64" where
  "polarity_bits Polarity_High = 0"
| "polarity_bits Polarity_Low = 1"

primrec mode_bits :: "TriggerMode \<Rightarrow> u64" where
  "mode_bits Trigger_Edge = 0"
| "mode_bits Trigger_Level = 1"

record io_apic =
  ia_select :: size_t
  ia_regs :: "size_t \<Rightarrow> u32"
  ia_gsiBase :: size_t
  ia_inputCount :: size_t

record ApicSourceOverride =
  so_incoming :: size_t
  so_outgoing :: size_t
  so_polarity :: PinPolarity
  so_mode :: TriggerMode

record io_apics =
  ioapics :: "io_apic list"
  sourceOverrides :: "ApicSourceOverride list"

abbreviation IoApicReg_Version :: size_t where
  "IoApicReg_Version \<equiv> 1"

abbreviation IoApicReg_TableBase :: size_t where
  "IoApicReg_TableBase \<equiv> 0x10"

subsection \<open>Registers\<close>

text \<open>\<open>mmio.Write\<close> selects a register, \<open>mmio.Offset(0x10)\<close> is the selected one.\<close>

definition select_reg :: "size_t \<Rightarrow> io_apic \<Rightarrow> io_apic" where
  "select_reg r a = a\<lparr> ia_select := r \<rparr>"

definition window_read :: "io_apic \<Rightarrow> u32" where
  "window_read a = ia_regs a (ia_select a)"

definition window_write :: "u32 \<Rightarrow> io_apic \<Rightarrow> io_apic" where
  "window_write v a = a\<lparr> ia_regs := (ia_regs a)(ia_select a := v) \<rparr>"

definition ioapic_ReadReg :: "size_t \<Rightarrow> io_apic \<Rightarrow> u32 \<times> io_apic" where
  "ioapic_ReadReg r a = (let a1 = select_reg r a in (window_read a1, a1))"

definition ioapic_WriteReg :: "size_t \<Rightarrow> u32 \<Rightarrow> io_apic \<Rightarrow> io_apic" where
  "ioapic_WriteReg r v a = window_write v (select_reg r a)"

definition ReadRedirect :: "size_t \<Rightarrow> io_apic \<Rightarrow> u64 \<times> io_apic" where
  "ReadRedirect index a =
     (let a1 = select_reg (sz_add (sz_mul index 2) IoApicReg_TableBase) a;
          v1 = 0 OR ucast (window_read a1);
          a2 = select_reg (sz_add (sz_add (sz_mul index 2) IoApicReg_TableBase) 1) a1;
          v2 = v1 OR push_bit 32 (ucast (window_read a2))
      in (v2, a2))"

definition WriteRedirect :: "size_t \<Rightarrow> u64 \<Rightarrow> io_apic \<Rightarrow> io_apic" where
  "WriteRedirect index v a =
     (let a1 = select_reg (sz_add (sz_mul index 2) IoApicReg_TableBase) a;
          a2 = window_write (ucast v) a1;
          a3 = select_reg (sz_add (sz_add (sz_mul index 2) IoApicReg_TableBase) 1) a2
      in window_write (ucast (drop_bit 32 v)) a3)"

subsection \<open>The controllers of the machine\<close>

definition read16 :: "(size_t \<Rightarrow> u8) \<Rightarrow> size_t \<Rightarrow> u16" where
  "read16 mem p = ucast (mem p) OR push_bit 8 (ucast (mem (sz_add p 1)))"

definition read32 :: "(size_t \<Rightarrow> u8) \<Rightarrow> size_t \<Rightarrow> u32" where
  "read32 mem p = ucast (read16 mem p) OR push_bit 16 (ucast (read16 mem (sz_add p 2)))"

definition madt_ioapic ::
  "(size_t \<Rightarrow> u8) \<Rightarrow> (size_t \<Rightarrow> (size_t \<Rightarrow> u32) option) \<Rightarrow> size_t \<Rightarrow> io_apics \<Rightarrow> io_apics res" where
  "madt_ioapic mem mmio scan s =
     (case mmio (unat (read32 mem (sz_add scan 4))) of
        None \<Rightarrow> Inl Assert_Failed
      | Some regs \<Rightarrow>
          let apic = \<lparr> ia_select = 0, ia_regs = regs, ia_gsiBase = unat (read32 mem (sz_add scan 8)), ia_inputCount = 0 \<rparr>;
              (v, apic) = ioapic_ReadReg IoApicReg_Version apic;
              apic = apic\<lparr> ia_inputCount := unat (drop_bit 16 v AND 0xFF) + 1 \<rparr>
          in Inr (s\<lparr> ioapics := ioapics s @ [apic] \<rparr>))"

definition madt_override :: "(size_t \<Rightarrow> u8) \<Rightarrow> size_t \<Rightarrow> io_apics \<Rightarrow> io_apics" where
  "madt_override mem scan s =
     (let flags = read16 mem (sz_add scan 8);
          so = \<lparr> so_incoming = unat (mem (sz_add scan 3)), so_outgoing = unat (read32 mem (sz_add scan 4)),
                 so_polarity = (if flags AND 3 = 3 then Polarity_Low else Polarity_High),
                 so_mode = (if flags AND 12 = 12 then Trigger_Level else Trigger_Edge) \<rparr>
      in s\<lparr> sourceOverrides := sourceOverrides s @ [so] \<rparr>)"

text \<open>The scan over the sources of the table; it does not end at a source of length zero.\<close>

partial_function (option) madt_scan ::
  "(size_t \<Rightarrow> u8) \<Rightarrow> (size_t \<Rightarrow> (size_t \<Rightarrow> u32) option) \<Rightarrow> size_t \<Rightarrow> size_t \<Rightarrow> io_apics \<Rightarrow> io_apics res option" where
  "madt_scan mem mmio limit scan s =
     (if scan < limit
      then case (if mem scan = 1 then madt_ioapic mem mmio scan s
                 else if mem scan = 2 then Inr (madt_override mem scan s)
                 else Inr s) of
             Inl e \<Rightarrow> Some (Inl e)
           | Inr s1 \<Rightarrow> madt_scan mem mmio limit (sz_add scan (unat (mem (sz_add scan 1)))) s1
      else Some (Inr s))"

definition IoApic_InitAll ::
  "(size_t \<Rightarrow> u8) \<Rightarrow> (size_t \<Rightarrow> (size_t \<Rightarrow> u32) option) \<Rightarrow> size_t option \<Rightarrow> io_apics \<Rightarrow> io_apics res option" where
  "IoApic_InitAll mem mmio maybeMadt s =
     (case maybeMadt of
        None \<Rightarrow> Some (Inl Assert_Failed)
      | Some madt \<Rightarrow>
          map_option (\<lambda>r. res_bind r (\<lambda>s1. if 0 < length (ioapics s1) then Inr s1 else Inl Assert_Failed))
            (madt_scan mem mmio (sz_add madt (unat (read32 mem (sz_add madt 4)))) (sz_add madt 44) s))"

subsection \<open>Routing and masking\<close>

fun find_override :: "u8 \<Rightarrow> ApicSourceOverride list \<Rightarrow> ApicSourceOverride option" where
  "find_override irq [] = None"
| "find_override irq (so # sos) = (if so_incoming so = unat irq then Some so else find_override irq sos)"

fun find_ioapic :: "u8 \<Rightarrow> io_apic list \<Rightarrow> nat \<Rightarrow> nat option" where
  "find_ioapic irq [] i = None"
| "find_ioapic irq (a # as) i =
     (if unat irq < ia_gsiBase a \<or> unat irq \<ge> ia_gsiBase a + ia_inputCount a then find_ioapic irq as (i + 1)
      else Some i)"

definition redirect_entry :: "u8 \<Rightarrow> size_t \<Rightarrow> TriggerMode \<Rightarrow> PinPolarity \<Rightarrow> bool \<Rightarrow> u64" where
  "redirect_entry destVector destCpu mode pol masked =
     ucast destVector OR (if masked then push_bit 16 1 else 0) OR push_bit 56 (word_of_nat destCpu) OR
     push_bit 13 (polarity_bits pol) OR push_bit 15 (mode_bits mode)"

definition set_ioapic :: "nat \<Rightarrow> io_apic \<Rightarrow> io_apics \<Rightarrow> io_apics" where
  "set_ioapic i a s = s\<lparr> ioapics := (ioapics s)[i := a] \<rparr>"

text \<open>The result is the returned flag and the pin after the override of the firmware.\<close>

definition Route ::
  "u8 \<Rightarrow> u8 \<Rightarrow> size_t \<Rightarrow> TriggerMode \<Rightarrow> PinPolarity \<Rightarrow> bool \<Rightarrow> io_apics \<Rightarrow> (bool \<times> u8 \<times> io_apics) res" where
  "Route irqNum destVector destCpu mode pol masked s =
     (let so = find_override irqNum (sourceOverrides s);
          irq = (case so of None \<Rightarrow> irqNum | Some x \<Rightarrow> word_of_nat (so_outgoing x))
      in case find_ioapic irq (ioapics s) 0 of
           None \<Rightarrow> Inr (False, irq, s)
         | Some i \<Rightarrow>
             let a = ioapics s ! i;
                 entry = redirect_entry destVector destCpu (case so of None \<Rightarrow> mode | Some x \<Rightarrow> so_mode x)
                           (case so of None \<Rightarrow> pol | Some x \<Rightarrow> so_polarity x) masked;
                 (v, a1) = ReadRedirect (unat irq - ia_gsiBase a) (WriteRedirect (unat irq - ia_gsiBase a) entry a)
             in if entry \<noteq> v then Inl Assert_Failed
                else Inr (True, irq, set_ioapic i a1 s))"

definition Masked :: "u8 \<Rightarrow> io_apics \<Rightarrow> bool \<times> io_apics" where
  "Masked irqNum s =
     (case find_ioapic irqNum (ioapics s) 0 of
        None \<Rightarrow> (True, s)
      | Some i \<Rightarrow>
          let (v, a1) = ReadRedirect (unat irqNum - ia_gsiBase (ioapics s ! i)) (ioapics s ! i)
          in (v AND push_bit 16 1 \<noteq> 0, set_ioapic i a1 s))"

definition Mask :: "u8 \<Rightarrow> bool \<Rightarrow> io_apics \<Rightarrow> io_apics" where
  "Mask irqNum masked s =
     (case find_ioapic irqNum (ioapics s) 0 of
        None \<Rightarrow> s
      | Some i \<Rightarrow>
          let index = unat irqNum - ia_gsiBase (ioapics s ! i);
              (current, a1) = ReadRedirect index (ioapics s ! i);
              new = (if masked then current OR push_bit 16 1 else current AND NOT (push_bit 16 1))
          in set_ioapic i (WriteRedirect index new a1) s)"

definition RoutePinInterrupt :: "size_t \<Rightarrow> size_t \<Rightarrow> size_t \<Rightarrow> io_apics \<Rightarrow> (bool \<times> io_apics) res" where
  "RoutePinInterrupt core vector gsi s =
     res_bind (Route (word_of_nat gsi) (word_of_nat vector) core Trigger_Edge Polarity_High False s) (\<lambda>(b, _, s1). Inr (b, s1))"

subsection \<open>Redirect entries\<close>

definition entry_of :: "io_apic \<Rightarrow> size_t \<Rightarrow> u64" where
  "entry_of a index = fst (ReadRedirect index a)"

lemma halves: "ucast (ucast v :: u32) OR push_bit 32 (ucast (ucast (drop_bit 32 v) :: u32)) = (v :: u64)"
proof (rule bit_word_eqI)
  fix n assume "n < LENGTH(64)"
  then show "bit (ucast (ucast v :: u32) OR push_bit 32 (ucast (ucast (drop_bit 32 v) :: u32)) :: u64) n = bit v n"
    by (cases "n < 32") (auto simp: bit_simps)
qed

lemma redirect_regs:
  assumes "j < 256"
  shows "sz_add (sz_mul j 2) 0x10 = j * 2 + 16" "sz_add (j * 2 + 16) (Suc 0) = j * 2 + 17"
  using assms by (simp_all add: sz_mul_def sz_add_def size_limit_def)

lemmas reg_defs = select_reg_def window_read_def window_write_def Let_def

lemma entry_of_eq: "j < 256 \<Longrightarrow> entry_of a j = ucast (ia_regs a (j * 2 + 16)) OR push_bit 32 (ucast (ia_regs a (j * 2 + 17)))"
  by (simp add: entry_of_def ReadRedirect_def reg_defs redirect_regs)

lemma ReadRedirect_keeps:
  "ia_regs (snd (ReadRedirect j a)) = ia_regs a" "ia_gsiBase (snd (ReadRedirect j a)) = ia_gsiBase a"
  "ia_inputCount (snd (ReadRedirect j a)) = ia_inputCount a" "fst (ReadRedirect j a) = entry_of a j"
  by (simp_all add: ReadRedirect_def reg_defs entry_of_def)

lemma WriteRedirect_keeps:
  "ia_gsiBase (WriteRedirect j v a) = ia_gsiBase a" "ia_inputCount (WriteRedirect j v a) = ia_inputCount a"
  by (simp_all add: WriteRedirect_def reg_defs)

lemma entry_of_regs: "ia_regs a = ia_regs b \<Longrightarrow> entry_of a j = entry_of b j"
  by (simp add: entry_of_def ReadRedirect_def reg_defs)

lemma odd_even_regs: "j * 2 + 16 \<noteq> k * 2 + (17 :: nat)"
  by presburger

lemma entry_of_write:
  assumes "j < 256" and "k < 256"
  shows "entry_of (WriteRedirect k v a) j = (if j = k then v else entry_of a j)"
proof -
  have regs: "ia_regs (WriteRedirect k v a) = (ia_regs a)(k * 2 + 16 := ucast v, k * 2 + 17 := ucast (drop_bit 32 v))"
    using assms(2) by (simp add: WriteRedirect_def reg_defs redirect_regs)
  show ?thesis
    using odd_even_regs [of j k] odd_even_regs [of k j] assms(1) by (auto simp: entry_of_eq regs halves)
qed

lemma find_ioapic_Some:
  "find_ioapic irq as n = Some i \<Longrightarrow>
   n \<le> i \<and> i < n + length as \<and> ia_gsiBase (as ! (i - n)) \<le> unat irq \<and> unat irq < ia_gsiBase (as ! (i - n)) + ia_inputCount (as ! (i - n))"
proof (induction as arbitrary: n)
  case (Cons a as)
  show ?case
  proof (cases "unat irq < ia_gsiBase a \<or> unat irq \<ge> ia_gsiBase a + ia_inputCount a")
    case True
    with Cons.prems Cons.IH [of "n + 1"] show ?thesis by (auto simp: nth_Cons' Suc_diff_le)
  qed (use Cons.prems in auto)
qed simp

text \<open>The pins of a controller, which depend on nothing that routing or masking changes.\<close>

lemma find_ioapic_cong:
  "map ia_gsiBase as = map ia_gsiBase bs \<Longrightarrow> map ia_inputCount as = map ia_inputCount bs \<Longrightarrow> find_ioapic irq as n = find_ioapic irq bs n"
proof (induction as arbitrary: bs n)
  case (Cons a as)
  then show ?case by (cases bs) auto
qed simp

subsection \<open>What a pin does\<close>

text \<open>The redirect entry of a pin, if there is a controller with this pin.\<close>

definition pin_entry :: "u8 \<Rightarrow> io_apics \<Rightarrow> u64 option" where
  "pin_entry irq s = map_option (\<lambda>i. entry_of (ioapics s ! i) (unat irq - ia_gsiBase (ioapics s ! i))) (find_ioapic irq (ioapics s) 0)"

lemma pin_index: "unat (q :: u8) - g < 256"
proof -
  have "unat q < 2 ^ LENGTH(8)" by (rule unsigned_less)
  then show ?thesis by (simp add: less_imp_diff_less)
qed

lemma pin_entry_write:
  assumes i: "find_ioapic irq (ioapics s) 0 = Some i" and a: "a = ioapics s ! i"
    and regs: "\<And>j. j < 256 \<Longrightarrow> entry_of b j = (if j = unat irq - ia_gsiBase a then v else entry_of a j)"
    and same: "ia_gsiBase b = ia_gsiBase a" "ia_inputCount b = ia_inputCount a"
  shows "pin_entry p (set_ioapic i b s) = (if p = irq then Some v else pin_entry p s)"
proof -
  have len: "i < length (ioapics s)" and lo: "ia_gsiBase a \<le> unat irq" using find_ioapic_Some [OF i] a by auto
  have f: "find_ioapic p (ioapics (set_ioapic i b s)) 0 = find_ioapic p (ioapics s) 0"
    by (rule find_ioapic_cong) (simp_all add: set_ioapic_def map_update same a list_update_same_conv len)
  show ?thesis
  proof (cases "find_ioapic p (ioapics s) 0")
    case None
    with i f show ?thesis by (auto simp: pin_entry_def)
  next
    case (Some k)
    have lo': "ia_gsiBase (ioapics s ! k) \<le> unat p" using find_ioapic_Some [OF Some] by simp
    have eq: "(unat p - ia_gsiBase a = unat irq - ia_gsiBase a) = (p = irq)" if "k = i"
      using that lo lo' a by (simp add: eq_diff_iff word_unat_eq_iff)
    show ?thesis
      using Some f i len eq regs [OF pin_index] same a by (cases "k = i") (auto simp: pin_entry_def set_ioapic_def)
  qed
qed

lemma entry_bits [simp]:
  "bit (0x10000 :: int) n \<longleftrightarrow> n = 16" "bit (0x2000 :: int) n \<longleftrightarrow> n = 13" "bit (0x8000 :: int) n \<longleftrightarrow> n = 15"
  "bit (0xA000 :: int) n \<longleftrightarrow> n = 13 \<or> n = 15"
proof -
  have p: "(0x10000 :: int) = 2 ^ 16" "(0x2000 :: int) = 2 ^ 13" "(0x8000 :: int) = 2 ^ 15" "(0xA000 :: int) = 2 ^ 13 OR 2 ^ 15"
    by simp_all
  show "bit (0x10000 :: int) n \<longleftrightarrow> n = 16" "bit (0x2000 :: int) n \<longleftrightarrow> n = 13" "bit (0x8000 :: int) n \<longleftrightarrow> n = 15"
    "bit (0xA000 :: int) n \<longleftrightarrow> n = 13 \<or> n = 15"
    unfolding p bit_or_iff bit_exp_iff by auto
qed

text \<open>What a redirect entry tells the controller.\<close>

definition entry_vector :: "u64 \<Rightarrow> u8" where
  "entry_vector e = ucast e"

definition entry_core :: "u64 \<Rightarrow> u8" where
  "entry_core e = ucast (drop_bit 56 e)"

definition entry_masked :: "u64 \<Rightarrow> bool" where
  "entry_masked e \<longleftrightarrow> bit e 16"

lemma redirect_entry_vector: "entry_vector (redirect_entry v c m p b) = v"
proof (rule bit_word_eqI)
  fix n assume "n < LENGTH(8)"
  then show "bit (entry_vector (redirect_entry v c m p b)) n = bit v n"
    by (cases m; cases p) (auto simp: entry_vector_def redirect_entry_def bit_simps)
qed

lemma redirect_entry_core: "entry_core (redirect_entry v c m p b) = word_of_nat c"
proof (rule bit_word_eqI)
  fix n assume "n < LENGTH(8)"
  moreover have "\<not> bit v (56 + n)" using bit_imp_le_length [of v "56 + n"] by auto
  ultimately show "bit (entry_core (redirect_entry v c m p b)) n = bit (word_of_nat c :: u8) n"
    by (cases m; cases p) (auto simp: entry_core_def redirect_entry_def bit_simps)
qed

lemma redirect_entry_masked: "entry_masked (redirect_entry v c m p b) = b"
  using bit_imp_le_length [of v 16] by (cases m; cases p) (auto simp: entry_masked_def redirect_entry_def bit_simps)

lemma redirect_entry_modes:
  "bit (redirect_entry v c m p b) 13 = (p = Polarity_Low)" "bit (redirect_entry v c m p b) 15 = (m = Trigger_Level)"
  using bit_imp_le_length [of v 13] bit_imp_le_length [of v 15]
  by (cases m; cases p; auto simp: redirect_entry_def bit_simps)+

definition routed_pin :: "u8 \<Rightarrow> io_apics \<Rightarrow> u8" where
  "routed_pin irq s = (case find_override irq (sourceOverrides s) of None \<Rightarrow> irq | Some x \<Rightarrow> word_of_nat (so_outgoing x))"

definition route_entry :: "u8 \<Rightarrow> u8 \<Rightarrow> size_t \<Rightarrow> TriggerMode \<Rightarrow> PinPolarity \<Rightarrow> bool \<Rightarrow> io_apics \<Rightarrow> u64" where
  "route_entry irq v c m p b s =
     (case find_override irq (sourceOverrides s) of
        None \<Rightarrow> redirect_entry v c m p b
      | Some x \<Rightarrow> redirect_entry v c (so_mode x) (so_polarity x) b)"

lemma Route_ok:
  assumes "pin_entry (routed_pin irq s) s \<noteq> None"
  shows "\<exists>s'. Route irq v c m p b s = Inr (True, routed_pin irq s, s') \<and> sourceOverrides s' = sourceOverrides s \<and>
    (\<forall>q. pin_entry q s' = (if q = routed_pin irq s then Some (route_entry irq v c m p b s) else pin_entry q s))"
proof -
  let ?q = "routed_pin irq s" and ?e = "route_entry irq v c m p b s"
  obtain i where i: "find_ioapic ?q (ioapics s) 0 = Some i" using assms by (auto simp: pin_entry_def)
  define a where "a = ioapics s ! i"
  let ?k = "unat ?q - ia_gsiBase a"
  define a1 where "a1 = snd (ReadRedirect ?k (WriteRedirect ?k ?e a))"
  have keeps: "ia_gsiBase a1 = ia_gsiBase a" "ia_inputCount a1 = ia_inputCount a"
    by (simp_all add: a1_def ReadRedirect_keeps WriteRedirect_keeps)
  have entries: "entry_of a1 j = (if j = ?k then ?e else entry_of a j)" if "j < 256" for j
    using entry_of_write [OF that pin_index] entry_of_regs [of a1 "WriteRedirect ?k ?e a"]
    by (simp add: a1_def ReadRedirect_keeps(1))
  have reread: "ReadRedirect ?k (WriteRedirect ?k ?e a) = (?e, a1)"
    using entry_of_write [of ?k ?k ?e a] pin_index [of ?q]
    by (simp add: a1_def ReadRedirect_keeps(4) prod_eq_iff)
  have "Route irq v c m p b s = Inr (True, ?q, set_ioapic i a1 s)"
    using i reread by (cases "find_override irq (sourceOverrides s)")
      (simp_all add: Route_def Let_def routed_pin_def route_entry_def a_def [symmetric])
  moreover have "pin_entry q (set_ioapic i a1 s) = (if q = ?q then Some ?e else pin_entry q s)" for q
    by (rule pin_entry_write [OF i a_def entries keeps])
  ultimately show ?thesis by (simp add: set_ioapic_def)
qed

lemma Route_none:
  "pin_entry (routed_pin irq s) s = None \<Longrightarrow> Route irq v c m p b s = Inr (False, routed_pin irq s, s)"
  by (cases "find_override irq (sourceOverrides s)") (simp_all add: Route_def Let_def routed_pin_def pin_entry_def)

text \<open>Masking a pin changes one bit of its entry.\<close>

definition with_mask :: "bool \<Rightarrow> u64 \<Rightarrow> u64" where
  "with_mask b e = (if b then e OR push_bit 16 1 else e AND NOT (push_bit 16 1))"

lemma with_mask_bits: "bit (with_mask b e) n = (if n = 16 then b else bit e n)"
  by (cases "n = 16"; cases "n < 64") (auto simp: with_mask_def bit_simps dest: bit_imp_le_length)

lemma Mask_ok:
  "pin_entry q (Mask irq b s) = (if q = irq then map_option (with_mask b) (pin_entry q s) else pin_entry q s)"
proof (cases "find_ioapic irq (ioapics s) 0")
  case None
  then show ?thesis by (auto simp: Mask_def pin_entry_def)
next
  case (Some i)
  define a where "a = ioapics s ! i"
  let ?k = "unat irq - ia_gsiBase a"
  let ?e = "with_mask b (entry_of a ?k)" and ?a1 = "snd (ReadRedirect ?k a)"
  have "ReadRedirect ?k a = (entry_of a ?k, ?a1)" by (simp add: ReadRedirect_keeps prod_eq_iff)
  then have mask: "Mask irq b s = set_ioapic i (WriteRedirect ?k ?e ?a1) s"
    using Some by (simp add: Mask_def Let_def a_def [symmetric] with_mask_def prod.case_eq_if ReadRedirect_keeps(4))
  have entries: "entry_of (WriteRedirect ?k ?e ?a1) j = (if j = ?k then ?e else entry_of a j)" if "j < 256" for j
    using entry_of_write [OF that pin_index] entry_of_regs [of ?a1 a] by (simp add: ReadRedirect_keeps(1))
  have "pin_entry q (Mask irq b s) = (if q = irq then Some ?e else pin_entry q s)"
    unfolding mask by (rule pin_entry_write [OF Some a_def entries]) (simp_all add: WriteRedirect_keeps ReadRedirect_keeps)
  moreover have "pin_entry irq s = Some (entry_of a ?k)" using Some by (simp add: pin_entry_def a_def)
  ultimately show ?thesis by simp
qed

lemma Masked_ok:
  "fst (Masked irq s) = (case pin_entry irq s of None \<Rightarrow> True | Some e \<Rightarrow> entry_masked e)" "pin_entry q (snd (Masked irq s)) = pin_entry q s"
proof -
  have bit: "(e AND 0x10000 \<noteq> 0) = bit e 16" for e :: u64
    using bit_iff_and_push_bit_not_eq_0 [of e 16] by simp
  show "fst (Masked irq s) = (case pin_entry irq s of None \<Rightarrow> True | Some e \<Rightarrow> entry_masked e)"
    by (auto simp: Masked_def pin_entry_def Let_def ReadRedirect_keeps(4) [symmetric] bit entry_masked_def split: option.split prod.split)
  show "pin_entry q (snd (Masked irq s)) = pin_entry q s"
  proof (cases "find_ioapic irq (ioapics s) 0")
    case (Some i)
    define a where "a = ioapics s ! i"
    let ?a1 = "snd (ReadRedirect (unat irq - ia_gsiBase a) a)"
    have "snd (Masked irq s) = set_ioapic i ?a1 s" using Some by (simp add: Masked_def Let_def a_def split: prod.split)
    moreover have "pin_entry q (set_ioapic i ?a1 s) = (if q = irq then Some (entry_of a (unat irq - ia_gsiBase a)) else pin_entry q s)"
      by (rule pin_entry_write [OF Some a_def]) (simp_all add: ReadRedirect_keeps entry_of_regs [OF ReadRedirect_keeps(1)])
    moreover have "pin_entry irq s = Some (entry_of a (unat irq - ia_gsiBase a))" using Some by (simp add: pin_entry_def a_def)
    ultimately show ?thesis by simp
  qed (simp add: Masked_def)
qed

text \<open>The scan of the table of the firmware never ends at a source of length zero.\<close>

lemma madt_scan_stuck:
  assumes "scan < limit" and "mem scan \<noteq> 1" and "mem (sz_add scan 1) = 0" and "limit \<le> size_limit" and "mem scan \<noteq> 2"
  shows "madt_scan mem mmio limit scan s = None"
proof (rule ccontr)
  assume "madt_scan mem mmio limit scan s \<noteq> None"
  then obtain r where run: "madt_scan mem mmio limit scan s = Some r" by blast
  have "mem' = mem \<and> scan' = scan \<and> limit' = limit \<longrightarrow> False" if "madt_scan mem' mmio' limit' scan' s' = Some r'" for mem' mmio' limit' scan' s' r'
  proof (rule madt_scan.raw_induct [of "\<lambda>mem' mmio' limit' scan' s' r'. mem' = mem \<and> scan' = scan \<and> limit' = limit \<longrightarrow> False", OF _ that], intro impI, goal_cases)
    case (1 f mem' mmio' limit' scan' s' r')
    have "sz_add scan 0 = scan" using assms(1,4) by (simp add: sz_add_def)
    with 1(2,3) assms have "f mem mmio' limit scan s' = Some r'" by simp
    with 1(1) show ?case by blast
  qed
  with run show False by blast
qed

end
