(* ===== verification/Intr_Router.thy ===== *)
theory Intr_Router
  imports RB_Check RB_Data RB_Frame RB_Search Run_Levels Io_Apic
begin

text \<open>
  \<open>kernel/io/IntrRouter.cpp\<close>: which driver an interrupt belongs to. Each core has a red-black tree of
  routes, ordered by the vector. The routes are objects of the drivers: their hooks and
  contents are one store that the trees of all cores share. The list of the cores' trees is
  in the order of \<open>InitCore\<close>, and \<open>ir_local\<close> is the pointer each core keeps to its own. The core that
  executes an operation is an argument, as are the callbacks of the drivers. An operation returns \<open>None\<close> if it
  dereferences \<open>nullptr\<close>, fails an assertion or does not return.
\<close>

subsection \<open>State\<close>

record interrupt_route =
  rt_core :: size_t
  rt_vector :: size_t
  rt_callbackArg :: size_t
  rt_Callback :: "nat option"
  rt_dpc :: "nat option"

record core_intr_routing =
  cr_coreId :: size_t
  cr_root :: "size_t option"

record intr_router =
  ir_hooks :: "size_t \<Rightarrow> size_t rb_hook"
  ir_routes :: "size_t \<Rightarrow> interrupt_route"
  ir_routings :: "core_intr_routing list"
  ir_local :: "size_t \<Rightarrow> nat option"

record msi_config =
  ms_address :: u64
  ms_data :: u64

text \<open>\<open>NoCoreAffinity\<close>, and the vector of a route that has none, are both \<open>-1ul\<close>.\<close>

definition NoCore :: size_t where
  "NoCore = size_limit - 1"

definition NoVector :: size_t where
  "NoVector = size_limit - 1"

definition IntVectorAllocBase :: size_t where
  "IntVectorAllocBase = 0x30"

definition IntVectorAllocLimit :: size_t where
  "IntVectorAllocLimit = 0xFD"

text \<open>The tree of a routing in the shared store, and the store after an operation on it.\<close>

definition core_tree :: "nat \<Rightarrow> intr_router \<Rightarrow> (size_t, interrupt_route) rb_tree" where
  "core_tree i s = \<lparr> rb_root = cr_root (ir_routings s ! i), rb_hooks = ir_hooks s, rb_data = ir_routes s \<rparr>"

definition put_tree :: "nat \<Rightarrow> (size_t, interrupt_route) rb_tree \<Rightarrow> intr_router \<Rightarrow> intr_router" where
  "put_tree i t s = s\<lparr> ir_hooks := rb_hooks t, ir_routes := rb_data t,
     ir_routings := (ir_routings s)[i := (ir_routings s ! i)\<lparr> cr_root := rb_root t \<rparr>] \<rparr>"

definition upd_route :: "size_t \<Rightarrow> (interrupt_route \<Rightarrow> interrupt_route) \<Rightarrow> intr_router \<Rightarrow> intr_router" where
  "upd_route r f s = s\<lparr> ir_routes := (ir_routes s)(r := f (ir_routes s r)) \<rparr>"

definition IntrTreeLess :: "intr_router \<Rightarrow> size_t \<Rightarrow> size_t \<Rightarrow> bool" where
  "IntrTreeLess s a b = (rt_vector (ir_routes s a) < rt_vector (ir_routes s b))"

subsection \<open>Operations\<close>

fun find_routing :: "size_t \<Rightarrow> core_intr_routing list \<Rightarrow> nat \<Rightarrow> nat option" where
  "find_routing core [] i = None"
| "find_routing core (c # cs) i = (if cr_coreId c \<noteq> core then find_routing core cs (i + 1) else Some i)"

definition GetRouting :: "size_t \<Rightarrow> size_t \<Rightarrow> intr_router \<Rightarrow> nat option" where
  "GetRouting me core s = (if core = me then ir_local s me else find_routing core (ir_routings s) 0)"

definition find_route_loop ::
  "size_t \<Rightarrow> size_t option \<Rightarrow> (size_t, interrupt_route) rb_tree \<Rightarrow> size_t option option" where
  "find_route_loop vector scan t = key_search rt_vector vector scan t"

definition FindRoute :: "size_t \<Rightarrow> size_t \<Rightarrow> size_t \<Rightarrow> intr_router \<Rightarrow> size_t option option" where
  "FindRoute me core vector s =
     (case GetRouting me core s of
        None \<Rightarrow> Some None
      | Some i \<Rightarrow> find_route_loop vector (rb_root (core_tree i s)) (core_tree i s))"

definition InitCore :: "size_t \<Rightarrow> intr_router \<Rightarrow> intr_router" where
  "InitCore me s = s\<lparr> ir_local := (ir_local s)(me := Some (length (ir_routings s))),
     ir_routings := ir_routings s @ [\<lparr> cr_coreId = me, cr_root = None \<rparr>] \<rparr>"

text \<open>What a dispatch does: the callback it calls, with its argument, and the deferred call it queues.\<close>

datatype dispatched = Dispatched "(nat \<times> size_t) option" "nat option" | Dropped

definition run_route :: "(nat \<Rightarrow> size_t \<Rightarrow> bool) \<Rightarrow> interrupt_route \<Rightarrow> dispatched" where
  "run_route callback route =
     (let called = (case rt_Callback route of None \<Rightarrow> None | Some f \<Rightarrow> Some (f, rt_callbackArg route));
          queueDpc = (case rt_Callback route of None \<Rightarrow> True | Some f \<Rightarrow> callback f (rt_callbackArg route))
      in Dispatched called (if rt_dpc route \<noteq> None \<and> queueDpc then rt_dpc route else None))"

definition Dispatch ::
  "(nat \<Rightarrow> size_t \<Rightarrow> bool) \<Rightarrow> run_level \<Rightarrow> size_t \<Rightarrow> size_t \<Rightarrow> intr_router \<Rightarrow> dispatched option" where
  "Dispatch callback runLevel me vector s =
     (if runLevel \<noteq> Interrupt then None
      else if GetRouting me me s = None then None
      else do { route \<leftarrow> FindRoute me me vector s;
                Some (case route of None \<Rightarrow> Dropped | Some r \<Rightarrow> run_route callback (ir_routes s r)) })"

text \<open>The first vector without a route, from \<open>i\<close> on.\<close>

function free_vector :: "size_t \<Rightarrow> size_t \<Rightarrow> size_t \<Rightarrow> intr_router \<Rightarrow> size_t option option" where
  "free_vector me core i s =
     (if i < IntVectorAllocLimit
      then do { found \<leftarrow> FindRoute me core i s;
                if found \<noteq> None then free_vector me core (i + 1) s else Some (Some i) }
      else Some None)"
  by pat_completeness auto
termination by (relation "measure (\<lambda>(_, _, i, _). IntVectorAllocLimit - i)") auto

declare free_vector.simps [simp del]

definition AddRoute :: "size_t \<Rightarrow> size_t option \<Rightarrow> size_t \<Rightarrow> intr_router \<Rightarrow> (bool \<times> intr_router) option" where
  "AddRoute me route core s =
     (case route of
        None \<Rightarrow> Some (False, s)
      | Some r \<Rightarrow>
          let core = (if core = NoCore then me else core);
              s1 = upd_route r (\<lambda>x. x\<lparr> rt_vector := NoVector, rt_core := core \<rparr>) s
          in case GetRouting me core s1 of
               None \<Rightarrow> Some (False, s1)
             | Some i \<Rightarrow>
                 do { free \<leftarrow> free_vector me (cr_coreId (ir_routings s1 ! i)) IntVectorAllocBase s1;
                      case free of
                        None \<Rightarrow> Some (False, s1)
                      | Some v \<Rightarrow>
                          let s2 = upd_route r (\<lambda>x. x\<lparr> rt_vector := v \<rparr>) s1
                          in do { t \<leftarrow> rb_Insert NullAggregator (IntrTreeLess s2) r (core_tree i s2);
                                  Some (True, put_tree i t s2) } })"

definition RemoveRoute :: "size_t \<Rightarrow> size_t option \<Rightarrow> intr_router \<Rightarrow> (bool \<times> intr_router) option" where
  "RemoveRoute me route s =
     (case route of
        None \<Rightarrow> Some (False, s)
      | Some r \<Rightarrow>
          (case GetRouting me (rt_core (ir_routes s r)) s of
             None \<Rightarrow> Some (False, s)
           | Some i \<Rightarrow>
               do { t \<leftarrow> rb_Remove NullAggregator (Some r) (core_tree i s);
                    Some (True, upd_route r (\<lambda>x. x\<lparr> rt_core := NoCore, rt_vector := NoVector \<rparr>) (put_tree i t s)) }))"

text \<open>The interrupt controllers are a second part of the state.\<close>

definition ClaimRoute ::
  "size_t \<Rightarrow> size_t option \<Rightarrow> size_t \<Rightarrow> size_t \<Rightarrow> intr_router \<times> io_apics \<Rightarrow> (bool \<times> intr_router \<times> io_apics) option" where
  "ClaimRoute me route core gsi st =
     (case st of (s, io) \<Rightarrow>
        do { (added, s1) \<leftarrow> AddRoute me route core s;
             if \<not> added then Some (False, s1, io)
             else (case route of
                     None \<Rightarrow> None
                   | Some r \<Rightarrow>
                       (case RoutePinInterrupt (rt_core (ir_routes s1 r)) (rt_vector (ir_routes s1 r)) gsi io of
                          Inl _ \<Rightarrow> None
                        | Inr (ok, io1) \<Rightarrow>
                            if ok then Some (True, s1, io1)
                            else do { (_, s2) \<leftarrow> RemoveRoute me route s1; Some (False, s2, io1) })) })"

definition MsiAddress :: "size_t \<Rightarrow> size_t \<Rightarrow> u64" where
  "MsiAddress core vector = push_bit 12 (word_of_nat core AND 0xFF) OR 0xFEE00000"

definition MsiData :: "size_t \<Rightarrow> size_t \<Rightarrow> u64" where
  "MsiData core vector = word_of_nat vector AND 0xFF"

definition MsiExtract :: "u64 \<Rightarrow> u64 \<Rightarrow> u64 \<times> u64" where
  "MsiExtract addr dat = (drop_bit 12 addr AND 0xFF, dat AND 0xFF)"

definition GetMsi :: "size_t option \<Rightarrow> intr_router \<Rightarrow> msi_config option" where
  "GetMsi route s =
     (case route of
        None \<Rightarrow> None
      | Some r \<Rightarrow> Some \<lparr> ms_address = MsiAddress (rt_core (ir_routes s r)) (rt_vector (ir_routes s r)),
                        ms_data = MsiData (rt_core (ir_routes s r)) (rt_vector (ir_routes s r)) \<rparr>)"

subsection \<open>Invariant\<close>

definition tree_ok :: "intr_router \<Rightarrow> nat \<Rightarrow> size_t rbt \<Rightarrow> bool" where
  "tree_ok s i T \<longleftrightarrow> rb_rep (core_tree i s) T \<and> sorted_wrt (<) (map (\<lambda>r. rt_vector (ir_routes s r)) (inord T)) \<and>
     (\<forall>r \<in> set (inord T). rt_core (ir_routes s r) = cr_coreId (ir_routings s ! i))"

text \<open>
  \<open>Ts\<close> are the trees of the routings. No route is in two trees, no core has two routings,
  and the pointer of a core leads to its own.
\<close>

definition router_inv :: "size_t rbt list \<Rightarrow> intr_router \<Rightarrow> bool" where
  "router_inv Ts s \<longleftrightarrow> length Ts = length (ir_routings s) \<and>
     (\<forall>i < length Ts. tree_ok s i (Ts ! i)) \<and>
     (\<forall>i < length Ts. \<forall>j < length Ts. i \<noteq> j \<longrightarrow> set (inord (Ts ! i)) \<inter> set (inord (Ts ! j)) = {}) \<and>
     distinct (map cr_coreId (ir_routings s)) \<and> (\<forall>c. ir_local s c = find_routing c (ir_routings s) 0)"

definition router_ok :: "intr_router \<Rightarrow> bool" where
  "router_ok s \<longleftrightarrow> (\<exists>Ts. router_inv Ts s)"

text \<open>A route that is in no tree.\<close>

definition unrouted :: "size_t rbt list \<Rightarrow> size_t \<Rightarrow> bool" where
  "unrouted Ts r \<longleftrightarrow> (\<forall>T \<in> set Ts. r \<notin> set (inord T))"

lemma find_routing_Some:
  "find_routing c rs n = Some i \<Longrightarrow> n \<le> i \<and> i < n + length rs \<and> cr_coreId (rs ! (i - n)) = c"
proof (induction rs arbitrary: n)
  case (Cons r rs)
  show ?case
  proof (cases "cr_coreId r = c")
    case False
    with Cons.prems Cons.IH [of "n + 1"] show ?thesis by (auto simp: nth_Cons' Suc_diff_le)
  qed (use Cons.prems in auto)
qed simp

lemma find_routing_nth: "distinct (map cr_coreId rs) \<Longrightarrow> i < length rs \<Longrightarrow> find_routing (cr_coreId (rs ! i)) rs n = Some (n + i)"
proof (induction rs arbitrary: n i)
  case (Cons r rs)
  show ?case
  proof (cases i)
    case (Suc k)
    with Cons.prems have "cr_coreId r \<noteq> cr_coreId (rs ! k)" by (auto dest: nth_mem)
    with Suc Cons.prems Cons.IH [of k "n + 1"] show ?thesis by simp
  qed simp
qed simp

lemma find_routing_cong: "map cr_coreId rs = map cr_coreId rs' \<Longrightarrow> find_routing c rs n = find_routing c rs' n"
proof (induction rs arbitrary: rs' n)
  case (Cons r rs)
  then show ?case by (cases rs') auto
qed simp

text \<open>Every core sees the same routings.\<close>

lemma GetRouting_eq: "router_inv Ts s \<Longrightarrow> GetRouting me core s = find_routing core (ir_routings s) 0"
  by (simp add: GetRouting_def router_inv_def)

lemma routing_index:
  assumes "router_inv Ts s" and "find_routing core (ir_routings s) 0 = Some i"
  shows "i < length Ts" "cr_coreId (ir_routings s ! i) = core" "tree_ok s i (Ts ! i)"
  using find_routing_Some [OF assms(2)] assms(1) by (auto simp: router_inv_def)

subsection \<open>Looking up a route\<close>

text \<open>The routes of a core: a map from vectors to routes.\<close>

definition core_routes :: "size_t rbt list \<Rightarrow> intr_router \<Rightarrow> size_t \<Rightarrow> size_t set" where
  "core_routes Ts s core = (case find_routing core (ir_routings s) 0 of None \<Rightarrow> {} | Some i \<Rightarrow> set (inord (Ts ! i)))"

lemma FindRoute_ok:
  assumes "router_inv Ts s"
  shows "\<exists>found. FindRoute me core v s = Some found \<and>
    (\<forall>r. found = Some r \<longleftrightarrow> r \<in> core_routes Ts s core \<and> rt_vector (ir_routes s r) = v)"
proof (cases "find_routing core (ir_routings s) 0")
  case None
  then show ?thesis using assms by (simp add: FindRoute_def GetRouting_eq core_routes_def)
next
  case (Some i)
  have "rb_rep (core_tree i s) (Ts ! i)" "sorted_wrt (<) (map (\<lambda>r. rt_vector (rb_data (core_tree i s) r)) (inord (Ts ! i)))"
    using routing_index(3) [OF assms Some] by (simp_all add: tree_ok_def core_tree_def)
  from key_search_ok [OF this, of v] show ?thesis
    using assms Some by (simp add: FindRoute_def GetRouting_eq find_route_loop_def core_routes_def) (simp add: core_tree_def)
qed

text \<open>The least vector from \<open>i\<close> on that no route of the core has.\<close>

definition is_free :: "size_t rbt list \<Rightarrow> intr_router \<Rightarrow> size_t \<Rightarrow> size_t \<Rightarrow> bool" where
  "is_free Ts s core v \<longleftrightarrow> (\<forall>r \<in> core_routes Ts s core. rt_vector (ir_routes s r) \<noteq> v)"

lemma free_vector_ok:
  assumes "router_inv Ts s"
  shows "free_vector me core i s = Some (find (is_free Ts s core) [i..<IntVectorAllocLimit])"
proof (induction "IntVectorAllocLimit - i" arbitrary: i)
  case 0
  then show ?case by (subst free_vector.simps) simp
next
  case (Suc n)
  then have i: "i < IntVectorAllocLimit" "[i..<IntVectorAllocLimit] = i # [Suc i..<IntVectorAllocLimit]" by (simp_all add: upt_conv_Cons)
  obtain found where f: "FindRoute me core i s = Some found"
      "\<forall>r. found = Some r \<longleftrightarrow> r \<in> core_routes Ts s core \<and> rt_vector (ir_routes s r) = i"
    using FindRoute_ok [OF assms] by blast
  have "free_vector me core (i + 1) s = Some (find (is_free Ts s core) [i + 1..<IntVectorAllocLimit])" using Suc by simp
  moreover have "(found = None) = is_free Ts s core i"
    using f(2) unfolding is_free_def by (cases found) auto
  ultimately show ?case by (cases found; subst free_vector.simps) (simp_all add: i f(1))
qed

subsection \<open>Changing the tree of one core\<close>

lemma tree_ok_cong:
  assumes "tree_ok s i T" and "ir_routings s' ! i = ir_routings s ! i"
    and "\<And>a. a \<in> set (inord T) \<Longrightarrow> ir_hooks s' a = ir_hooks s a" and "\<And>a. a \<in> set (inord T) \<Longrightarrow> ir_routes s' a = ir_routes s a"
  shows "tree_ok s' i T"
proof -
  have "rb_rep (core_tree i s') T"
    by (rule rep_cong [of "core_tree i s"]) (use assms in \<open>simp_all add: tree_ok_def core_tree_def\<close>)
  moreover have "map (\<lambda>r. rt_vector (ir_routes s' r)) (inord T) = map (\<lambda>r. rt_vector (ir_routes s r)) (inord T)"
    by (simp add: assms(4))
  ultimately show ?thesis using assms(1) unfolding tree_ok_def by (simp only: assms(2,4) cong: ball_cong) simp
qed

lemma router_inv_update:
  assumes inv: "router_inv Ts s" and i: "i < length Ts" and T': "tree_ok s' i T'"
    and routings: "ir_routings s' = (ir_routings s)[i := (ir_routings s ! i)\<lparr> cr_root := root \<rparr>]" and local: "ir_local s' = ir_local s"
    and hooks: "\<And>a. a \<noteq> r \<Longrightarrow> a \<notin> set (inord (Ts ! i)) \<Longrightarrow> ir_hooks s' a = ir_hooks s a"
    and routes: "\<And>a. a \<noteq> r \<Longrightarrow> ir_routes s' a = ir_routes s a"
    and other: "\<And>j. j < length Ts \<Longrightarrow> j \<noteq> i \<Longrightarrow> r \<notin> set (inord (Ts ! j))"
    and sub: "set (inord T') \<subseteq> insert r (set (inord (Ts ! i)))"
  shows "router_inv (Ts[i := T']) s'"
proof -
  have len: "length Ts = length (ir_routings s)" and loc: "\<And>c. ir_local s c = find_routing c (ir_routings s) 0"
    and dis: "\<And>j k. j < length Ts \<Longrightarrow> k < length Ts \<Longrightarrow> j \<noteq> k \<Longrightarrow> set (inord (Ts ! j)) \<inter> set (inord (Ts ! k)) = {}"
    using inv by (simp_all add: router_inv_def)
  have ids: "map cr_coreId (ir_routings s') = map cr_coreId (ir_routings s)"
    using i len by (simp add: routings map_update list_update_same_conv)
  have tree: "tree_ok s' j (Ts ! j)" if j: "j < length Ts" "j \<noteq> i" for j
  proof -
    have ok: "tree_ok s j (Ts ! j)" using inv j by (simp add: router_inv_def)
    have same: "a \<noteq> r" "a \<notin> set (inord (Ts ! i))" if "a \<in> set (inord (Ts ! j))" for a
      using other [OF j] dis [OF j(1) i j(2)] that by auto
    show ?thesis by (rule tree_ok_cong [OF ok]) (use j same in \<open>auto simp: routings hooks routes\<close>)
  qed
  have "set (inord T') \<inter> set (inord (Ts ! j)) = {}" if "j < length Ts" "j \<noteq> i" for j
    using other [OF that] dis [OF that(1) i that(2)] sub by auto
  then have "set (inord (Ts[i := T'] ! j)) \<inter> set (inord (Ts[i := T'] ! k)) = {}" if "j < length Ts" "k < length Ts" "j \<noteq> k" for j k
    using dis that by (cases "j = i"; cases "k = i") auto
  moreover have "tree_ok s' j (Ts[i := T'] ! j)" if "j < length Ts" for j
    using tree T' that by (cases "j = i") auto
  moreover have "find_routing c (ir_routings s') 0 = find_routing c (ir_routings s) 0" for c by (rule find_routing_cong) (rule ids)
  moreover have "distinct (map cr_coreId (ir_routings s'))" using inv unfolding ids by (simp add: router_inv_def)
  moreover have "length (Ts[i := T']) = length (ir_routings s')" by (simp add: routings len)
  ultimately show ?thesis using local loc by (simp add: router_inv_def)
qed

lemma core_routes_update:
  assumes "router_inv Ts s" and "i < length Ts"
    and "ir_routings s' = (ir_routings s)[i := (ir_routings s ! i)\<lparr> cr_root := root \<rparr>]"
  shows "core_routes (Ts[i := T']) s' c = (if c = cr_coreId (ir_routings s ! i) then set (inord T') else core_routes Ts s c)"
proof -
  have len: "i < length (ir_routings s)" "distinct (map cr_coreId (ir_routings s))" using assms(1,2) by (simp_all add: router_inv_def)
  have "map cr_coreId (ir_routings s') = map cr_coreId (ir_routings s)"
    using len(1) by (simp add: assms(3) map_update list_update_same_conv)
  then have f: "find_routing c (ir_routings s') 0 = find_routing c (ir_routings s) 0" by (rule find_routing_cong)
  show ?thesis
  proof (cases "c = cr_coreId (ir_routings s ! i)")
    case True
    then show ?thesis using f find_routing_nth [OF len(2,1), of 0] assms(2) by (simp add: core_routes_def)
  next
    case False
    then have "find_routing c (ir_routings s) 0 \<noteq> Some i" using find_routing_Some [of c "ir_routings s" 0 i] by auto
    with False f show ?thesis by (auto simp: core_routes_def split: option.split)
  qed
qed

text \<open>A route that is in no tree may be written.\<close>

lemma router_inv_unrouted:
  assumes "router_inv Ts s" and "unrouted Ts r"
  shows "router_inv Ts (upd_route r f s)"
proof -
  have "tree_ok (upd_route r f s) i (Ts ! i)" if "i < length Ts" for i
  proof -
    have ok: "tree_ok s i (Ts ! i)" and ne: "r \<notin> set (inord (Ts ! i))"
      using assms that by (auto simp: router_inv_def unrouted_def)
    show ?thesis by (rule tree_ok_cong [OF ok]) (use ne in \<open>auto simp: upd_route_def\<close>)
  qed
  with assms(1) show ?thesis by (simp add: router_inv_def upd_route_def)
qed

lemma core_routes_upd [simp]: "core_routes Ts (upd_route r f s) c = core_routes Ts s c"
  by (simp add: core_routes_def upd_route_def)

lemma core_routes_unrouted: "router_inv Ts s \<Longrightarrow> unrouted Ts r \<Longrightarrow> r \<notin> core_routes Ts s c"
  using routing_index(1) [of Ts s c] by (auto simp: core_routes_def unrouted_def split: option.splits)

subsection \<open>Adding a route\<close>

lemma insert_route:
  assumes inv: "router_inv Ts s" and r: "unrouted Ts r" "unhooked (ir_hooks s r)" and i: "i < length Ts"
    and core: "rt_core (ir_routes s r) = cr_coreId (ir_routings s ! i)"
    and v: "\<forall>x \<in> set (inord (Ts ! i)). rt_vector (ir_routes s x) \<noteq> rt_vector (ir_routes s r)"
  shows "\<exists>t T'. rb_Insert NullAggregator (IntrTreeLess s) r (core_tree i s) = Some t \<and> router_inv (Ts[i := T']) (put_tree i t s) \<and>
    set (inord T') = insert r (set (inord (Ts ! i))) \<and> ir_routes (put_tree i t s) = ir_routes s"
proof -
  let ?key = "\<lambda>x. rt_vector (ir_routes s x)"
  have ok: "tree_ok s i (Ts ! i)" and ne: "r \<notin> set (inord (Ts ! i))" using inv r(1) i by (auto simp: router_inv_def unrouted_def)
  have rep: "rb_rep (core_tree i s) (Ts ! i)" and sorted: "sorted (map ?key (inord (Ts ! i)))" "distinct (map ?key (inord (Ts ! i)))"
    using ok by (simp_all add: tree_ok_def strict_sorted)
  have un: "unhooked (rb_hooks (core_tree i s) r)" using r(2) by (simp add: core_tree_def)
  have "IntrTreeLess s = key_less ?key" by (simp add: IntrTreeLess_def [abs_def] key_less_def [abs_def])
  then obtain t T' where t: "rb_Insert NullAggregator (IntrTreeLess s) r (core_tree i s) = Some t" "rb_rep t T'" "sorted (map ?key (inord T'))"
      "inord T' = filter (\<lambda>a. ?key a \<le> ?key r) (inord (Ts ! i)) @ r # filter (\<lambda>a. ?key r < ?key a) (inord (Ts ! i))"
    using rb_insert_step [OF rep ne un sorted(1), of NullAggregator] by auto
  have data: "rb_data t = ir_routes s"
    using rb_Insert_data [OF views_null t(1)] by (auto simp: core_tree_def)
  have set: "set (inord T') = insert r (set (inord (Ts ! i)))" unfolding t(4) by auto
  have dist: "distinct (map ?key (inord T'))"
    using sorted(2) v unfolding t(4) by (auto simp: distinct_map inj_on_def)
  have hooks: "rb_hooks t a = ir_hooks s a" if "a \<noteq> r" "a \<notin> set (inord (Ts ! i))" for a
    using rb_insert_frame [OF t(1) rep un that] by (simp add: core_tree_def)
  have len: "i < length (ir_routings s)" using inv i by (simp add: router_inv_def)
  have "rb_rep (core_tree i (put_tree i t s)) T'"
    by (rule rep_cong [OF t(2)]) (use len in \<open>simp_all add: core_tree_def put_tree_def\<close>)
  then have "tree_ok (put_tree i t s) i T'"
    using ok core t(3) dist len set by (auto simp: tree_ok_def strict_sorted put_tree_def data)
  then have "router_inv (Ts[i := T']) (put_tree i t s)"
    by (rule router_inv_update [OF inv i, where r = r]) (use hooks r(1) in \<open>auto simp: put_tree_def data set unrouted_def\<close>)
  then show ?thesis using t(1) set data by (auto simp: put_tree_def)
qed

lemma AddRoute_ok:
  assumes inv: "router_inv Ts s" and r: "unrouted Ts r" "unhooked (ir_hooks s r)"
    and target: "target = (if core = NoCore then me else core)" and i: "find_routing target (ir_routings s) 0 = Some i"
  shows "find (is_free Ts s target) [IntVectorAllocBase..<IntVectorAllocLimit] = None \<Longrightarrow>
      AddRoute me (Some r) core s = Some (False, upd_route r (\<lambda>x. x\<lparr> rt_vector := NoVector, rt_core := target \<rparr>) s)"
    and "find (is_free Ts s target) [IntVectorAllocBase..<IntVectorAllocLimit] = Some v \<Longrightarrow>
      \<exists>s' T'. AddRoute me (Some r) core s = Some (True, s') \<and> router_inv (Ts[i := T']) s' \<and>
        set (inord T') = insert r (set (inord (Ts ! i))) \<and>
        ir_routes s' = (ir_routes s)(r := (ir_routes s r)\<lparr> rt_core := target, rt_vector := v \<rparr>) \<and>
        (\<exists>root. ir_routings s' = (ir_routings s)[i := (ir_routings s ! i)\<lparr> cr_root := root \<rparr>])"
proof -
  let ?s1 = "upd_route r (\<lambda>x. x\<lparr> rt_vector := NoVector, rt_core := target \<rparr>) s"
  note idx = routing_index [OF inv i]
  have inv1: "router_inv Ts ?s1" using inv r(1) by (rule router_inv_unrouted)
  have get: "GetRouting me target ?s1 = Some i" using GetRouting_eq [OF inv1] i by (simp add: upd_route_def)
  have core: "cr_coreId (ir_routings ?s1 ! i) = target" using idx(2) by (simp add: upd_route_def)
  have "is_free Ts ?s1 target = is_free Ts s target"
    using core_routes_unrouted [OF inv r(1), of target] by (auto simp: is_free_def [abs_def] upd_route_def core_routes_def)
  then have free: "free_vector me (cr_coreId (ir_routings ?s1 ! i)) IntVectorAllocBase ?s1 =
      Some (find (is_free Ts s target) [IntVectorAllocBase..<IntVectorAllocLimit])"
    using free_vector_ok [OF inv1] core by simp
  show "AddRoute me (Some r) core s = Some (False, ?s1)"
    if "find (is_free Ts s target) [IntVectorAllocBase..<IntVectorAllocLimit] = None"
    using get free that by (simp add: AddRoute_def Let_def target [symmetric])
  show "\<exists>s' T'. AddRoute me (Some r) core s = Some (True, s') \<and> router_inv (Ts[i := T']) s' \<and>
        set (inord T') = insert r (set (inord (Ts ! i))) \<and>
        ir_routes s' = (ir_routes s)(r := (ir_routes s r)\<lparr> rt_core := target, rt_vector := v \<rparr>) \<and>
        (\<exists>root. ir_routings s' = (ir_routings s)[i := (ir_routings s ! i)\<lparr> cr_root := root \<rparr>])"
    if found: "find (is_free Ts s target) [IntVectorAllocBase..<IntVectorAllocLimit] = Some v"
  proof -
    let ?s2 = "upd_route r (\<lambda>x. x\<lparr> rt_vector := v \<rparr>) ?s1"
    have inv2: "router_inv Ts ?s2" using inv1 r(1) by (rule router_inv_unrouted)
    have "is_free Ts s target v" using found by (auto simp: find_Some_iff)
    then have "\<forall>x \<in> set (inord (Ts ! i)). rt_vector (ir_routes ?s2 x) \<noteq> rt_vector (ir_routes ?s2 r)"
      using r(1) idx(1) i by (auto simp: is_free_def core_routes_def upd_route_def unrouted_def)
    moreover have "rt_core (ir_routes ?s2 r) = cr_coreId (ir_routings ?s2 ! i)" using idx(2) by (simp add: upd_route_def)
    moreover have "unhooked (ir_hooks ?s2 r)" using r(2) by (simp add: upd_route_def)
    ultimately obtain t T' where t: "rb_Insert NullAggregator (IntrTreeLess ?s2) r (core_tree i ?s2) = Some t"
        "router_inv (Ts[i := T']) (put_tree i t ?s2)" "set (inord T') = insert r (set (inord (Ts ! i)))"
        "ir_routes (put_tree i t ?s2) = ir_routes ?s2"
      using insert_route [OF inv2 r(1) _ idx(1)] by blast
    have "AddRoute me (Some r) core s = Some (True, put_tree i t ?s2)"
      using get free found t(1) by (simp add: AddRoute_def Let_def target [symmetric])
    moreover have "ir_routes (put_tree i t ?s2) = (ir_routes s)(r := (ir_routes s r)\<lparr> rt_core := target, rt_vector := v \<rparr>)"
      unfolding t(4) by (simp add: upd_route_def)
    moreover have "ir_routings (put_tree i t ?s2) = (ir_routings s)[i := (ir_routings s ! i)\<lparr> cr_root := rb_root t \<rparr>]"
      by (simp add: put_tree_def upd_route_def)
    ultimately show ?thesis using t(2,3) by blast
  qed
qed

subsection \<open>Removing a route\<close>

lemma RemoveRoute_ok:
  assumes inv: "router_inv Ts s" and i: "i < length Ts" and r: "r \<in> set (inord (Ts ! i))"
  shows "\<exists>s' T'. RemoveRoute me (Some r) s = Some (True, s') \<and> router_inv (Ts[i := T']) s' \<and>
    set (inord T') = set (inord (Ts ! i)) - {r} \<and> unhooked (ir_hooks s' r) \<and>
    ir_routes s' = (ir_routes s)(r := (ir_routes s r)\<lparr> rt_core := NoCore, rt_vector := NoVector \<rparr>) \<and>
    (\<exists>root. ir_routings s' = (ir_routings s)[i := (ir_routings s ! i)\<lparr> cr_root := root \<rparr>])"
proof -
  let ?key = "\<lambda>x. rt_vector (ir_routes s x)"
  have ok: "tree_ok s i (Ts ! i)" and len: "i < length (ir_routings s)" and dist: "distinct (map cr_coreId (ir_routings s))"
    and dis: "\<And>j. j < length Ts \<Longrightarrow> j \<noteq> i \<Longrightarrow> set (inord (Ts ! j)) \<inter> set (inord (Ts ! i)) = {}"
    using inv i by (simp_all add: router_inv_def)
  have core: "rt_core (ir_routes s r) = cr_coreId (ir_routings s ! i)" using ok r by (simp add: tree_ok_def)
  have rep: "rb_rep (core_tree i s) (Ts ! i)" using ok by (simp add: tree_ok_def)
  obtain t T' where t: "rb_Remove NullAggregator (Some r) (core_tree i s) = Some t" "rb_rep t T'"
      "inord T' = filter (\<lambda>a. a \<noteq> r) (inord (Ts ! i))" "unhooked (rb_hooks t r)"
    using rb_remove_step [OF rep r, of NullAggregator] by blast
  have data: "rb_data t = ir_routes s" using rb_Remove_data [OF views_null t(1)] by (auto simp: core_tree_def)
  have hooks: "rb_hooks t a = ir_hooks s a" if "a \<notin> set (inord (Ts ! i))" for a
    using rb_remove_frame [OF t(1) rep r that] by (simp add: core_tree_def)
  define s' where "s' = upd_route r (\<lambda>x. x\<lparr> rt_core := NoCore, rt_vector := NoVector \<rparr>) (put_tree i t s)"
  have routes: "ir_routes s' a = ir_routes s a" if "a \<noteq> r" for a using that by (simp add: s'_def upd_route_def put_tree_def data)
  have set: "set (inord T') = set (inord (Ts ! i)) - {r}" unfolding t(3) by auto
  have "rb_rep (core_tree i s') T'"
    by (rule rep_cong [OF t(2)]) (use len in \<open>simp_all add: core_tree_def s'_def put_tree_def upd_route_def\<close>)
  moreover have "sorted_wrt (<) (map (\<lambda>x. rt_vector (ir_routes s' x)) (inord T'))"
  proof -
    have "map (\<lambda>x. rt_vector (ir_routes s' x)) (inord T') = map ?key (inord T')" using set by (auto simp: routes)
    moreover have "sorted_wrt (<) (map ?key (inord T'))"
      using ok unfolding t(3) tree_ok_def sorted_wrt_map by (simp add: sorted_wrt_filter)
    ultimately show ?thesis by (simp only:)
  qed
  moreover have "\<forall>x \<in> set (inord T'). rt_core (ir_routes s' x) = cr_coreId (ir_routings s' ! i)"
    using ok set len by (auto simp: routes tree_ok_def s'_def upd_route_def put_tree_def data)
  ultimately have "tree_ok s' i T'" by (simp add: tree_ok_def)
  then have "router_inv (Ts[i := T']) s'"
  proof (rule router_inv_update [OF inv i, where r = r])
    show "ir_routings s' = (ir_routings s)[i := (ir_routings s ! i)\<lparr> cr_root := rb_root t \<rparr>]"
      by (simp add: s'_def upd_route_def put_tree_def)
  qed (use dis r set hooks routes in \<open>auto simp: s'_def upd_route_def put_tree_def\<close>)
  moreover have "GetRouting me (rt_core (ir_routes s r)) s = Some i"
    using GetRouting_eq [OF inv] find_routing_nth [OF dist len, of 0] by (simp add: core)
  then have "RemoveRoute me (Some r) s = Some (True, s')" using t(1) by (simp add: RemoveRoute_def s'_def)
  moreover have "unhooked (ir_hooks s' r)" using t(4) by (simp add: s'_def upd_route_def put_tree_def)
  moreover have "ir_routes s' = (ir_routes s)(r := (ir_routes s r)\<lparr> rt_core := NoCore, rt_vector := NoVector \<rparr>)"
    by (simp add: s'_def upd_route_def put_tree_def data)
  moreover have "ir_routings s' = (ir_routings s)[i := (ir_routings s ! i)\<lparr> cr_root := rb_root t \<rparr>]"
    by (simp add: s'_def upd_route_def put_tree_def)
  ultimately show ?thesis using set by blast
qed

subsection \<open>Routes as a map\<close>

text \<open>The lookups of a router are determined by the routes of its cores.\<close>

lemma FindRoute_Some:
  assumes "router_inv Ts s"
  shows "FindRoute me c w s = Some (Some r) \<longleftrightarrow> r \<in> core_routes Ts s c \<and> rt_vector (ir_routes s r) = w"
proof -
  obtain found where f: "FindRoute me c w s = Some found"
      "\<forall>r. found = Some r \<longleftrightarrow> r \<in> core_routes Ts s c \<and> rt_vector (ir_routes s r) = w"
    using FindRoute_ok [OF assms, of me c w] by blast
  then show ?thesis by simp
qed

lemma FindRoute_None:
  assumes "router_inv Ts s"
  shows "FindRoute me c w s = Some None \<longleftrightarrow> is_free Ts s c w"
proof -
  obtain found where f: "FindRoute me c w s = Some found"
      "\<forall>r. found = Some r \<longleftrightarrow> r \<in> core_routes Ts s c \<and> rt_vector (ir_routes s r) = w"
    using FindRoute_ok [OF assms, of me c w] by blast
  then show ?thesis unfolding is_free_def by (cases found) auto
qed

lemma FindRoute_ends: "router_inv Ts s \<Longrightarrow> FindRoute me c w s \<noteq> None"
  using FindRoute_ok [of Ts s me c w] by auto

lemma FindRoute_eqI:
  assumes "router_inv Ts s" and "router_inv Ts' s'"
    and "\<And>r. r \<in> core_routes Ts' s' c \<and> rt_vector (ir_routes s' r) = w \<longleftrightarrow> r \<in> core_routes Ts s c \<and> rt_vector (ir_routes s r) = w"
  shows "FindRoute me' c w s' = FindRoute me c w s"
proof -
  obtain f f' where f: "FindRoute me c w s = Some f" "FindRoute me' c w s' = Some f'"
    using FindRoute_ok [OF assms(1), of me c w] FindRoute_ok [OF assms(2), of me' c w] by blast
  have "f' = Some r \<longleftrightarrow> f = Some r" for r
    using FindRoute_Some [OF assms(1), of me c w r] FindRoute_Some [OF assms(2), of me' c w r] assms(3) [of r] f by simp
  then have "f' = f" by (cases f') (cases f; auto)+
  with f show ?thesis by simp
qed

lemma find_least: "find P [a..<b] = Some v \<Longrightarrow> a \<le> v \<and> v < b \<and> P v \<and> (\<forall>w. a \<le> w \<and> w < v \<longrightarrow> \<not> P w)"
proof -
  assume "find P [a..<b] = Some v"
  then obtain k where k: "k < b - a" "P (a + k)" "v = a + k" "\<forall>j < k. \<not> P (a + j)"
    by (fastforce simp: find_Some_iff)
  then have "\<not> P w" if "a \<le> w" "w < v" for w using that by (metis le_add_diff_inverse nat_add_left_cancel_less)
  with k show ?thesis by auto
qed

lemma AddRoute_free:
  assumes inv: "router_inv Ts s" and r: "unrouted Ts r" "unhooked (ir_hooks s r)"
    and target: "target = (if core = NoCore then me else core)" and routing: "GetRouting me target s \<noteq> None"
    and free: "IntVectorAllocBase \<le> w" "w < IntVectorAllocLimit" "FindRoute me target w s = Some None"
  shows "\<exists>s' v Ts'. AddRoute me (Some r) core s = Some (True, s') \<and> router_inv Ts' s' \<and>
      IntVectorAllocBase \<le> v \<and> v < IntVectorAllocLimit \<and> FindRoute me target v s = Some None \<and>
      (\<forall>w. IntVectorAllocBase \<le> w \<and> w < v \<longrightarrow> FindRoute me target w s \<noteq> Some None) \<and>
      (\<forall>me' c w. FindRoute me' c w s' = (if c = target \<and> w = v then Some (Some r) else FindRoute me' c w s)) \<and>
      ir_routes s' = (ir_routes s)(r := (ir_routes s r)\<lparr> rt_core := target, rt_vector := v \<rparr>)"
proof -
  obtain i where i: "find_routing target (ir_routings s) 0 = Some i" using routing GetRouting_eq [OF inv] by auto
  have un: "r \<notin> core_routes Ts s c" for c using core_routes_unrouted [OF inv r(1)] .
  have "is_free Ts s target w" using FindRoute_None [OF inv] free(3) by blast
  then obtain v where Some: "find (is_free Ts s target) [IntVectorAllocBase..<IntVectorAllocLimit] = Some v"
    using free(1,2) by (cases "find (is_free Ts s target) [IntVectorAllocBase..<IntVectorAllocLimit]") (auto simp: find_None_iff)
  obtain s' T' root where s': "AddRoute me (Some r) core s = Some (True, s')" "router_inv (Ts[i := T']) s'"
      "set (inord T') = insert r (set (inord (Ts ! i)))"
      "ir_routes s' = (ir_routes s)(r := (ir_routes s r)\<lparr> rt_core := target, rt_vector := v \<rparr>)"
      "ir_routings s' = (ir_routings s)[i := (ir_routings s ! i)\<lparr> cr_root := root \<rparr>]"
    using AddRoute_ok(2) [OF inv r target i Some] by blast
  have routes: "core_routes (Ts[i := T']) s' c = (if c = target then insert r (core_routes Ts s c) else core_routes Ts s c)" for c
    using core_routes_update [OF inv routing_index(1) [OF inv i] s'(5), of T' c] routing_index(2) [OF inv i] s'(3) i
    by (simp add: core_routes_def)
  have "FindRoute me' target v s' = Some (Some r)" for me' by (simp add: FindRoute_Some [OF s'(2)] routes s'(4))
  moreover have "FindRoute me' c w s' = FindRoute me' c w s" if "\<not> (c = target \<and> w = v)" for me' c w
    by (rule FindRoute_eqI [OF inv s'(2)]) (use that un in \<open>auto simp: routes s'(4)\<close>)
  ultimately have "FindRoute me' c w s' = (if c = target \<and> w = v then Some (Some r) else FindRoute me' c w s)" for me' c w
    by simp
  with s'(1,2,4) find_least [OF Some] FindRoute_None [OF inv, of me target] show ?thesis by blast
qed

lemma AddRoute_full:
  assumes inv: "router_inv Ts s" and r: "unrouted Ts r" "unhooked (ir_hooks s r)"
    and target: "target = (if core = NoCore then me else core)" and routing: "GetRouting me target s \<noteq> None"
    and full: "\<And>w. IntVectorAllocBase \<le> w \<Longrightarrow> w < IntVectorAllocLimit \<Longrightarrow> FindRoute me target w s \<noteq> Some None"
  shows "\<exists>s'. AddRoute me (Some r) core s = Some (False, s') \<and> router_inv Ts s' \<and> (\<forall>me' c w. FindRoute me' c w s' = FindRoute me' c w s) \<and>
      ir_routes s' = (ir_routes s)(r := (ir_routes s r)\<lparr> rt_vector := NoVector, rt_core := target \<rparr>)"
proof -
  obtain i where i: "find_routing target (ir_routings s) 0 = Some i" using routing GetRouting_eq [OF inv] by auto
  let ?s' = "upd_route r (\<lambda>x. x\<lparr> rt_vector := NoVector, rt_core := target \<rparr>) s"
  have None: "find (is_free Ts s target) [IntVectorAllocBase..<IntVectorAllocLimit] = None"
    using full FindRoute_None [OF inv, of me target] by (auto simp: find_None_iff)
  have inv': "router_inv Ts ?s'" using inv r(1) by (rule router_inv_unrouted)
  have "FindRoute me' c w ?s' = FindRoute me' c w s" for me' c w
    by (rule FindRoute_eqI [OF inv inv']) (use core_routes_unrouted [OF inv r(1)] in \<open>auto simp: upd_route_def core_routes_def\<close>)
  moreover have "ir_routes ?s' = (ir_routes s)(r := (ir_routes s r)\<lparr> rt_vector := NoVector, rt_core := target \<rparr>)"
    by (simp add: upd_route_def)
  ultimately show ?thesis using AddRoute_ok(1) [OF inv r target i None] inv' by blast
qed

text \<open>C10: adding a route gives it the least vector that no route of the core has, from the first to the last that may be
  allocated. On every core the new vector then finds this route and all other lookups find what they found
  before; if every vector is taken the call fails and no lookup changes. No other route is written.
\<close>

theorem intr_route_added:
  assumes inv: "router_inv Ts s" and r: "unrouted Ts r" "unhooked (ir_hooks s r)"
    and target: "target = (if core = NoCore then me else core)" and routing: "GetRouting me target s \<noteq> None"
  shows "(\<exists>s' v Ts'. AddRoute me (Some r) core s = Some (True, s') \<and> router_inv Ts' s' \<and>
      IntVectorAllocBase \<le> v \<and> v < IntVectorAllocLimit \<and> FindRoute me target v s = Some None \<and>
      (\<forall>w. IntVectorAllocBase \<le> w \<and> w < v \<longrightarrow> FindRoute me target w s \<noteq> Some None) \<and>
      (\<forall>me' c w. FindRoute me' c w s' = (if c = target \<and> w = v then Some (Some r) else FindRoute me' c w s)) \<and>
      ir_routes s' = (ir_routes s)(r := (ir_routes s r)\<lparr> rt_core := target, rt_vector := v \<rparr>)) \<or>
    ((\<forall>w. IntVectorAllocBase \<le> w \<and> w < IntVectorAllocLimit \<longrightarrow> FindRoute me target w s \<noteq> Some None) \<and>
     (\<exists>s'. AddRoute me (Some r) core s = Some (False, s') \<and> router_inv Ts s' \<and> (\<forall>me' c w. FindRoute me' c w s' = FindRoute me' c w s) \<and>
      ir_routes s' = (ir_routes s)(r := (ir_routes s r)\<lparr> rt_vector := NoVector, rt_core := target \<rparr>)))"
proof (cases "\<exists>w. IntVectorAllocBase \<le> w \<and> w < IntVectorAllocLimit \<and> FindRoute me target w s = Some None")
  case True
  then obtain w where w: "IntVectorAllocBase \<le> w" "w < IntVectorAllocLimit" "FindRoute me target w s = Some None" by blast
  show ?thesis by (rule disjI1) (rule AddRoute_free [OF assms w])
next
  case False
  then have full: "IntVectorAllocBase \<le> w \<Longrightarrow> w < IntVectorAllocLimit \<Longrightarrow> FindRoute me target w s \<noteq> Some None" for w by blast
  with AddRoute_full [OF assms full] show ?thesis by blast
qed

subsection \<open>Starting up\<close>

definition no_route :: interrupt_route where
  "no_route = \<lparr> rt_core = NoCore, rt_vector = NoVector, rt_callbackArg = 0, rt_Callback = None, rt_dpc = None \<rparr>"

definition no_routings :: intr_router where
  "no_routings = \<lparr> ir_hooks = (\<lambda>_. HookStruct), ir_routes = (\<lambda>_. no_route), ir_routings = [], ir_local = (\<lambda>_. None) \<rparr>"

lemma no_routings_inv: "router_inv [] no_routings"
  by (simp add: router_inv_def no_routings_def)

lemma find_routing_append:
  "find_routing c (rs @ rs') n = (case find_routing c rs n of None \<Rightarrow> find_routing c rs' (n + length rs) | Some i \<Rightarrow> Some i)"
  by (induction rs arbitrary: n) (auto simp del: append_Cons simp: append_Cons add.commute split: option.split)

lemma find_routing_new: "find_routing c rs n = None \<Longrightarrow> c \<notin> cr_coreId ` set rs"
  by (induction rs arbitrary: n) (auto split: if_splits)

lemma InitCore_ok:
  assumes "router_inv Ts s" and "GetRouting me me s = None"
  shows "router_inv (Ts @ [Tip]) (InitCore me s)"
proof -
  let ?s = "InitCore me s"
  have none: "find_routing me (ir_routings s) 0 = None" using GetRouting_eq [OF assms(1)] assms(2) by simp
  have len: "length Ts = length (ir_routings s)" using assms(1) by (simp add: router_inv_def)
  have "tree_ok ?s i ((Ts @ [Tip]) ! i)" if "i < Suc (length Ts)" for i
  proof (cases "i = length Ts")
    case True
    then have "(Ts @ [Tip]) ! i = Tip" by simp
    with True show ?thesis using len by (simp add: tree_ok_def core_tree_def InitCore_def rb_rep_def zip_ok_def rb_ok_def)
  next
    case False
    with that have i: "i < length Ts" by simp
    then have ok: "tree_ok s i (Ts ! i)" using assms(1) by (simp add: router_inv_def)
    have "tree_ok ?s i (Ts ! i)" by (rule tree_ok_cong [OF ok]) (use i len in \<open>simp_all add: InitCore_def nth_append\<close>)
    with i show ?thesis by (simp add: nth_append)
  qed
  moreover have "distinct (map cr_coreId (ir_routings ?s))"
    using assms(1) find_routing_new [OF none] by (simp add: router_inv_def InitCore_def)
  moreover have "ir_local ?s c = find_routing c (ir_routings ?s) 0" for c
    using assms(1) none by (auto simp: router_inv_def InitCore_def find_routing_append split: option.split)
  moreover have "set (inord ((Ts @ [Tip]) ! i)) \<inter> set (inord ((Ts @ [Tip]) ! j)) = {}" if "i < Suc (length Ts)" "j < Suc (length Ts)" "i \<noteq> j" for i j
  proof (cases "i = length Ts \<or> j = length Ts")
    case False
    with that assms(1) show ?thesis by (simp add: router_inv_def nth_append)
  qed auto
  moreover have "length (Ts @ [Tip]) = length (ir_routings ?s)" by (simp add: InitCore_def len)
  ultimately show ?thesis by (simp add: router_inv_def)
qed

definition one_core :: intr_router where
  "one_core = InitCore 0 no_routings"

lemma one_core_inv: "router_inv [Tip] one_core"
  using InitCore_ok [OF no_routings_inv, of 0] by (simp add: one_core_def no_routings_def GetRouting_def)

lemma one_core_free: "unrouted [Tip] r" "unhooked (ir_hooks one_core r)" "GetRouting 0 0 one_core = Some 0"
  by (simp_all add: unrouted_def one_core_def InitCore_def no_routings_def unhooked_def HookStruct_def GetRouting_def)

lemma one_core_find: "FindRoute 0 0 w one_core = Some None"
  using FindRoute_None [OF one_core_inv] by (simp add: is_free_def core_routes_def one_core_def InitCore_def no_routings_def)

theorem intr_route_added_witness:
  "\<exists>s'. AddRoute 0 (Some 0x100) NoCore one_core = Some (True, s') \<and> FindRoute 5 0 0x30 s' = Some (Some 0x100)"
proof -
  have "IntVectorAllocBase < IntVectorAllocLimit" by (simp add: IntVectorAllocBase_def IntVectorAllocLimit_def)
  with intr_route_added [OF one_core_inv one_core_free(1,2), of 0 NoCore 0] one_core_find one_core_free(3)
  obtain s' v where "AddRoute 0 (Some 0x100) NoCore one_core = Some (True, s')" "IntVectorAllocBase \<le> v"
      "\<forall>w. IntVectorAllocBase \<le> w \<and> w < v \<longrightarrow> FindRoute 0 0 w one_core \<noteq> Some None"
      "\<forall>me' c w. FindRoute me' c w s' = (if c = 0 \<and> w = v then Some (Some 0x100) else FindRoute me' c w one_core)"
    by fastforce
  moreover from this have "v = 0x30" using one_core_find by (force simp: IntVectorAllocBase_def)
  ultimately show ?thesis by auto
qed

subsection \<open>Routes that are taken back\<close>

lemma core_routes_index:
  assumes "router_inv Ts s" and "r \<in> core_routes Ts s c"
  shows "\<exists>i. find_routing c (ir_routings s) 0 = Some i \<and> i < length Ts \<and> r \<in> set (inord (Ts ! i)) \<and> rt_core (ir_routes s r) = c"
proof -
  obtain i where i: "find_routing c (ir_routings s) 0 = Some i" "r \<in> set (inord (Ts ! i))"
    using assms(2) by (auto simp: core_routes_def split: option.splits)
  with routing_index [OF assms(1) i(1)] show ?thesis by (auto simp: tree_ok_def)
qed

text \<open>A route that is found is removed: its vector finds nothing any more, every other lookup stays, and the route can be added again.\<close>

lemma intr_route_removed:
  assumes inv: "router_inv Ts s" and found: "FindRoute me c v s = Some (Some r)"
  shows "\<exists>s' Ts'. RemoveRoute me (Some r) s = Some (True, s') \<and> router_inv Ts' s' \<and> unrouted Ts' r \<and> unhooked (ir_hooks s' r) \<and>
    (\<forall>me' c' w. FindRoute me' c' w s' = (if c' = c \<and> w = v then Some None else FindRoute me' c' w s))"
proof -
  have r: "r \<in> core_routes Ts s c" "rt_vector (ir_routes s r) = v" using found FindRoute_Some [OF inv] by blast+
  obtain i where i: "find_routing c (ir_routings s) 0 = Some i" "i < length Ts" "r \<in> set (inord (Ts ! i))"
    using core_routes_index [OF inv r(1)] by blast
  note core = routing_index(2) [OF inv i(1)]
  obtain s' T' root where s': "RemoveRoute me (Some r) s = Some (True, s')" "router_inv (Ts[i := T']) s'"
      "set (inord T') = set (inord (Ts ! i)) - {r}" "unhooked (ir_hooks s' r)"
      "ir_routes s' = (ir_routes s)(r := (ir_routes s r)\<lparr> rt_core := NoCore, rt_vector := NoVector \<rparr>)"
      "ir_routings s' = (ir_routings s)[i := (ir_routings s ! i)\<lparr> cr_root := root \<rparr>]"
    using RemoveRoute_ok [OF inv i(2,3)] by blast
  have routes: "core_routes (Ts[i := T']) s' c' = (if c' = c then core_routes Ts s c - {r} else core_routes Ts s c')" for c'
    using core_routes_update [OF inv i(2) s'(6), of T' c'] core s'(3) i(1) by (simp add: core_routes_def)
  have only: "r \<notin> core_routes Ts s c'" if "c' \<noteq> c" for c'
    using core_routes_index [OF inv, of r c'] core_routes_index [OF inv r(1)] that by auto
  have free: "is_free (Ts[i := T']) s' c v"
  proof -
    have "x = r" if "x \<in> core_routes Ts s c" "rt_vector (ir_routes s x) = v" for x
      using FindRoute_Some [OF inv, of me c v x] FindRoute_Some [OF inv, of me c v r] that r by simp
    then show ?thesis by (auto simp: is_free_def routes s'(5))
  qed
  have same: "FindRoute me' c' w s' = FindRoute me' c' w s" if "\<not> (c' = c \<and> w = v)" for me' c' w
    by (rule FindRoute_eqI [OF inv s'(2)]) (use that only r(2) in \<open>auto simp: routes s'(5)\<close>)
  have "r \<notin> set (inord (Ts ! j))" if "j < length Ts" "j \<noteq> i" for j
  proof -
    have "set (inord (Ts ! j)) \<inter> set (inord (Ts ! i)) = {}" using inv i(2) that by (simp add: router_inv_def)
    with i(3) show ?thesis by blast
  qed
  then have "unrouted (Ts[i := T']) r"
    using s'(3) i(2) by (auto simp: unrouted_def all_set_conv_all_nth nth_list_update)
  moreover have "FindRoute me' c' w s' = (if c' = c \<and> w = v then Some None else FindRoute me' c' w s)" for me' c' w
    using same FindRoute_None [OF s'(2)] free by simp
  ultimately show ?thesis using s'(1,2,4) by blast
qed

text \<open>Removing a route that was never added, or whose addition failed, drops every route of the core it names: the
  tree loses its root, although all of its routes are still in use.
\<close>

lemma intr_remove_unadded:
  assumes "router_inv Ts s" and "unrouted Ts r" and "unhooked (ir_hooks s r)" and "GetRouting me (rt_core (ir_routes s r)) s \<noteq> None"
  shows "\<exists>s'. RemoveRoute me (Some r) s = Some (True, s') \<and> (\<forall>w. FindRoute me (rt_core (ir_routes s r)) w s' = Some None)"
proof -
  obtain i where i: "GetRouting me (rt_core (ir_routes s r)) s = Some i" "find_routing (rt_core (ir_routes s r)) (ir_routings s) 0 = Some i"
    using assms(4) GetRouting_eq [OF assms(1)] by auto
  have len: "i < length (ir_routings s)" using find_routing_Some [OF i(2)] by simp
  have "FixRemove NullAggregator (Some r) (core_tree i s) = Some (core_tree i s)"
    using assms(3) by (subst FixRemove.simps) (simp add: core_tree_def unhooked_def hook_ops)
  then obtain t where t: "rb_Remove NullAggregator (Some r) (core_tree i s) = Some t" "rb_root t = None"
    using assms(3) by (auto simp: rb_Remove_def RemoveHalfLeaf_def core_tree_def unhooked_def hook_ops
        Predecessor_def Successor_def IsRed_def replace_child_def clear_hook_def)
  define s' where "s' = upd_route r (\<lambda>x. x\<lparr> rt_core := NoCore, rt_vector := NoVector \<rparr>) (put_tree i t s)"
  have "map cr_coreId (ir_routings s') = map cr_coreId (ir_routings s)"
    using len by (simp add: s'_def upd_route_def put_tree_def map_update list_update_same_conv)
  then have "find_routing c (ir_routings s') 0 = find_routing c (ir_routings s) 0" for c by (rule find_routing_cong)
  then have "GetRouting me (rt_core (ir_routes s r)) s' = Some i"
    using i by (auto simp: GetRouting_def s'_def upd_route_def put_tree_def split: if_splits)
  then have "FindRoute me (rt_core (ir_routes s r)) w s' = Some None" for w
    using t(2) len by (simp add: FindRoute_def s'_def upd_route_def put_tree_def core_tree_def find_route_loop_def key_search.simps)
  moreover have "RemoveRoute me (Some r) s = Some (True, s')" using i(1) t(1) by (simp add: RemoveRoute_def s'_def)
  ultimately show ?thesis by blast
qed

definition one_route :: intr_router where
  "one_route =
     \<lparr> ir_hooks = (\<lambda>_. HookStruct)(0x100 := HookStruct\<lparr> hk_color := Black \<rparr>),
       ir_routes = (\<lambda>_. no_route)(0x100 := no_route\<lparr> rt_core := 0, rt_vector := 0x30 \<rparr>, 0x200 := no_route\<lparr> rt_core := 0 \<rparr>),
       ir_routings = [\<lparr> cr_coreId = 0, cr_root = Some 0x100 \<rparr>], ir_local = (\<lambda>_. None)(0 := Some 0) \<rparr>"

lemma one_route_inv: "router_inv [Bin Black Tip 0x100 Tip] one_route"
  by (simp add: router_inv_def one_route_def tree_ok_def core_tree_def rb_rep_def zip_ok_def rb_ok_def HookStruct_def)

lemma intr_remove_unadded_example:
  "FindRoute 0 0 0x30 one_route = Some (Some 0x100) \<and>
   (\<exists>s'. RemoveRoute 0 (Some 0x200) one_route = Some (True, s') \<and> FindRoute 0 0 0x30 s' = Some None)"
proof
  show "FindRoute 0 0 0x30 one_route = Some (Some 0x100)"
    by (simp add: FindRoute_Some [OF one_route_inv]) (simp add: core_routes_def one_route_def)
  have "rt_core (ir_routes one_route 0x200) = 0" by (simp add: one_route_def)
  with intr_remove_unadded [OF one_route_inv, of "0x200" 0]
  show "\<exists>s'. RemoveRoute 0 (Some 0x200) one_route = Some (True, s') \<and> FindRoute 0 0 0x30 s' = Some None"
    by (auto simp: unrouted_def unhooked_def one_route_def HookStruct_def GetRouting_def)
qed

subsection \<open>From a pin to a driver\<close>

lemma run_route_cong: "run_route cb (x\<lparr> rt_core := c, rt_vector := v \<rparr>) = run_route cb x"
  by (cases "rt_Callback x") (simp_all add: run_route_def)

lemma Dispatch_found:
  "GetRouting me me s \<noteq> None \<Longrightarrow> FindRoute me me v s = Some (Some r) \<Longrightarrow>
   Dispatch cb Interrupt me v s = Some (run_route cb (ir_routes s r))"
  by (simp add: Dispatch_def)

text \<open>C9: a claimed pin reaches the driver. If a vector of the core is free and an interrupt controller has the pin, claiming
  a route for it succeeds; the entry of the pin then names, unmasked, a core and a vector such that dispatching
  this vector on this core runs the callback and the deferred call of the route. No other pin is changed.
\<close>

theorem intr_pin_delivered:
  assumes inv: "router_inv Ts s" and r: "unrouted Ts r" "unhooked (ir_hooks s r)"
    and target: "target = (if core = NoCore then me else core)" and routing: "GetRouting me target s \<noteq> None" and small: "target < 256"
    and free: "IntVectorAllocBase \<le> w" "w < IntVectorAllocLimit" "FindRoute me target w s = Some None"
    and pin: "pin = routed_pin (word_of_nat gsi) io" "pin_entry pin io \<noteq> None"
  shows "\<exists>s' io' e. ClaimRoute me (Some r) core gsi (s, io) = Some (True, s', io') \<and> pin_entry pin io' = Some e \<and>
    \<not> entry_masked e \<and> unat (entry_core e) = target \<and>
    (\<forall>cb. Dispatch cb Interrupt target (unat (entry_vector e)) s' = Some (run_route cb (ir_routes s r))) \<and>
    (\<forall>q. q \<noteq> pin \<longrightarrow> pin_entry q io' = pin_entry q io)"
proof -
  obtain s' v Ts' where s': "AddRoute me (Some r) core s = Some (True, s')" "router_inv Ts' s'" "v < IntVectorAllocLimit"
      "FindRoute target target v s' = Some (Some r)"
      "ir_routes s' = (ir_routes s)(r := (ir_routes s r)\<lparr> rt_core := target, rt_vector := v \<rparr>)"
    using AddRoute_free [OF inv r target routing free] by (metis (no_types, lifting))
  have rt: "rt_core (ir_routes s' r) = target" "rt_vector (ir_routes s' r) = v" by (simp_all add: s'(5))
  obtain io' where io': "Route (word_of_nat gsi) (word_of_nat v) target Trigger_Edge Polarity_High False io = Inr (True, pin, io')"
      "\<forall>q. pin_entry q io' = (if q = pin then Some (route_entry (word_of_nat gsi) (word_of_nat v) target Trigger_Edge Polarity_High False io) else pin_entry q io)"
    using Route_ok [of "word_of_nat gsi" io] pin by blast
  let ?e = "route_entry (word_of_nat gsi) (word_of_nat v) target Trigger_Edge Polarity_High False io"
  have e: "entry_vector ?e = word_of_nat v" "entry_core ?e = word_of_nat target" "\<not> entry_masked ?e"
    by (simp_all add: route_entry_def redirect_entry_vector redirect_entry_core redirect_entry_masked split: option.split)
  have "v < 256" using s'(3) by (simp add: IntVectorAllocLimit_def)
  then have words: "unat (word_of_nat v :: u8) = v" "unat (word_of_nat target :: u8) = target" using small by (simp_all add: unat_of_nat)
  have "GetRouting target target s' \<noteq> None"
    using FindRoute_Some [OF s'(2), of target target v r] s'(4) GetRouting_eq [OF s'(2), of target target]
    by (auto simp: core_routes_def split: option.splits)
  then have "Dispatch cb Interrupt target v s' = Some (run_route cb (ir_routes s r))" for cb
    using Dispatch_found [OF _ s'(4), of cb] by (simp add: s'(5) run_route_cong)
  moreover have "ClaimRoute me (Some r) core gsi (s, io) = Some (True, s', io')"
    using s'(1) io'(1) rt by (simp add: ClaimRoute_def RoutePinInterrupt_def)
  ultimately show ?thesis using io'(2) e words by auto
qed

definition one_ioapic :: io_apics where
  "one_ioapic = \<lparr> ioapics = [\<lparr> ia_select = 0, ia_regs = (\<lambda>_. 0), ia_gsiBase = 0, ia_inputCount = 24 \<rparr>],
     sourceOverrides = [\<lparr> so_incoming = 0, so_outgoing = 2, so_polarity = Polarity_High, so_mode = Trigger_Edge \<rparr>] \<rparr>"

theorem intr_pin_delivered_witness:
  "\<exists>s' io' e. ClaimRoute 0 (Some 0x100) 0 0 (one_core, one_ioapic) = Some (True, s', io') \<and> pin_entry 2 io' = Some e \<and>
    unat (entry_core e) = 0 \<and> Dispatch (\<lambda>_ _. True) Interrupt 0 (unat (entry_vector e)) s' = Some (run_route (\<lambda>_ _. True) no_route)"
proof -
  have pin: "2 = routed_pin (word_of_nat 0) one_ioapic" "pin_entry 2 one_ioapic \<noteq> None"
    by (simp_all add: routed_pin_def pin_entry_def one_ioapic_def)
  have core: "0 = (if (0 :: nat) = NoCore then 0 else 0)" "GetRouting 0 0 one_core \<noteq> None"
    using one_core_free(3) by simp_all
  have v: "IntVectorAllocBase \<le> 0x30" "0x30 < IntVectorAllocLimit" by (simp_all add: IntVectorAllocBase_def IntVectorAllocLimit_def)
  have "ir_routes one_core 0x100 = no_route" by (simp add: one_core_def InitCore_def no_routings_def)
  with intr_pin_delivered [OF one_core_inv one_core_free(1,2) core _ v one_core_find pin, of "0x100"] show ?thesis by fastforce
qed

text \<open>Claiming a pin that no controller has takes the route back: no lookup and no pin changes.\<close>

lemma intr_claim_undone:
  assumes inv: "router_inv Ts s" and r: "unrouted Ts r" "unhooked (ir_hooks s r)"
    and target: "target = (if core = NoCore then me else core)" and routing: "GetRouting me target s \<noteq> None"
    and free: "IntVectorAllocBase \<le> w" "w < IntVectorAllocLimit" "FindRoute me target w s = Some None"
    and pin: "pin_entry (routed_pin (word_of_nat gsi) io) io = None"
  shows "\<exists>s' Ts'. ClaimRoute me (Some r) core gsi (s, io) = Some (False, s', io) \<and> router_inv Ts' s' \<and> unrouted Ts' r \<and>
    (\<forall>me' c w. FindRoute me' c w s' = FindRoute me' c w s)"
proof -
  obtain s1 v Ts1 where s1: "AddRoute me (Some r) core s = Some (True, s1)" "router_inv Ts1 s1" "FindRoute me target v s = Some None"
      "\<forall>me' c w. FindRoute me' c w s1 = (if c = target \<and> w = v then Some (Some r) else FindRoute me' c w s)"
    using AddRoute_free [OF inv r target routing free] by blast
  have "FindRoute me target v s1 = Some (Some r)" using s1(4) by simp
  then obtain s2 Ts2 where s2: "RemoveRoute me (Some r) s1 = Some (True, s2)" "router_inv Ts2 s2" "unrouted Ts2 r"
      "\<forall>me' c' w. FindRoute me' c' w s2 = (if c' = target \<and> w = v then Some None else FindRoute me' c' w s1)"
    using intr_route_removed [OF s1(2)] by blast
  have "FindRoute me' target v s = Some None" for me' using s1(3) FindRoute_None [OF inv] by blast
  then have "FindRoute me' c w s2 = FindRoute me' c w s" for me' c w using s1(4) s2(4) by simp
  moreover have "ClaimRoute me (Some r) core gsi (s, io) = Some (False, s2, io)"
    using s1(1) s2(1) Route_none [OF pin] by (simp add: ClaimRoute_def RoutePinInterrupt_def)
  ultimately show ?thesis using s2(2,3) by blast
qed

text \<open>A message that signals an interrupt names the core and the vector of its route.\<close>

lemma byte_bits: "bit (0xFF :: int) n \<longleftrightarrow> n < 8"
proof -
  have "(0xFF :: int) = mask 8" by (simp add: mask_eq_exp_minus_1)
  then show ?thesis by (simp only: bit_mask_iff possible_bit_int simp_thms)
qed

lemma msi_roundtrip: "MsiExtract (MsiAddress core vector) (MsiData core vector) = (word_of_nat core AND 0xFF, word_of_nat vector AND 0xFF)"
proof -
  let ?x = "word_of_nat core AND 0xFF :: u64"
  have "drop_bit 12 (push_bit 12 ?x) AND 0xFF = ?x"
    by (rule bit_word_eqI) (auto simp: bit_simps byte_bits)
  then have "drop_bit 12 (push_bit 12 ?x OR 0xFEE00000) AND 0xFF = ?x"
    by (simp only: drop_bit_or bit.conj_disj_distrib2) simp
  moreover have "(word_of_nat vector AND 0xFF) AND 0xFF = (word_of_nat vector AND 0xFF :: u64)" by (simp add: and.assoc)
  ultimately show ?thesis by (simp only: MsiExtract_def MsiAddress_def MsiData_def)
qed

end
