(* ===== verification/Fwd_List.thy ===== *)
theory Fwd_List
  imports Kernel_Prelude
begin

text \<open>
  \<open>libs/np-syslib/include/containers/List.h\<close>, class \<open>FwdList\<close>: the intrusive singly linked
  list with a tail pointer. The objects are addresses of type \<open>'p\<close>; the hooks embedded in
  them are one function from an object to its \<open>next\<close> pointer. \<open>flist\<close> relates hooks and
  list header to the sequence of the linked objects, and the locale \<open>fifo\<close> is the queue
  the kernel uses such a list as.

  The kernel names its lists \<open>sl::IntrFwdList\<close>, a type that no file of the repository declares. The theories about the kernel
  take it to be \<open>FwdList\<close>, the only intrusive forward list there is, with the hook embedded in the objects; what they
  show of code that uses such a list holds under that reading.
\<close>

subsection \<open>Operations\<close>

record 'p fwd_list =
  fl_head :: "'p option"
  fl_tail :: "'p option"

type_synonym 'p hooks = "'p \<Rightarrow> 'p option"
type_synonym 'p fl_state = "'p hooks \<times> 'p fwd_list"

definition fl_new :: "'p fwd_list" where
  "fl_new = \<lparr> fl_head = None, fl_tail = None \<rparr>"

definition fl_Empty :: "'p fl_state \<Rightarrow> bool" where
  "fl_Empty s = (fl_head (snd s) = None)"

definition fl_PushFront :: "'p fl_state \<Rightarrow> 'p \<Rightarrow> 'p fl_state" where
  "fl_PushFront s v =
     (case s of (h, l) \<Rightarrow>
       (h(v := fl_head l),
        l\<lparr> fl_head := Some v, fl_tail := (if fl_tail l = None then Some v else fl_tail l) \<rparr>))"

definition fl_PushBack :: "'p fl_state \<Rightarrow> 'p \<Rightarrow> 'p fl_state res" where
  "fl_PushBack s v =
     (case s of (h, l) \<Rightarrow>
       if fl_head l = None
       then Inr (h(v := None), l\<lparr> fl_head := Some v, fl_tail := Some v \<rparr>)
       else case fl_tail l of
              None \<Rightarrow> Inl Null_Deref
            | Some t \<Rightarrow> Inr ((h(v := None))(t := Some v), l\<lparr> fl_tail := Some v \<rparr>))"

definition fl_PopFront :: "'p fl_state \<Rightarrow> 'p option \<times> 'p fl_state" where
  "fl_PopFront s =
     (case s of (h, l) \<Rightarrow>
       case fl_head l of
         None \<Rightarrow> (None, s)
       | Some temp \<Rightarrow>
           (Some temp, h, l\<lparr> fl_head := h temp,
                            fl_tail := (if h temp = None then None else fl_tail l) \<rparr>))"

definition fl_InsertAfter :: "'p fl_state \<Rightarrow> 'p option \<Rightarrow> 'p \<Rightarrow> 'p fl_state res" where
  "fl_InsertAfter s it v =
     (case it of
        None \<Rightarrow> fl_PushBack s v
      | Some p \<Rightarrow>
          (case s of (h, l) \<Rightarrow>
            let h1 = h(v := h p)
            in Inr (h1(p := Some v), if fl_tail l = Some p then l\<lparr> fl_tail := Some v \<rparr> else l)))"

definition fl_EraseAfter :: "'p fl_state \<Rightarrow> 'p option \<Rightarrow> ('p option \<times> 'p fl_state) res" where
  "fl_EraseAfter s it =
     (case it of
        None \<Rightarrow> Inr (None, s)
      | Some p \<Rightarrow>
          (case s of (h, l) \<Rightarrow>
            let temp = h p;
                h1 = (case temp of Some t \<Rightarrow> h(p := h t) | None \<Rightarrow> h(p := None))
            in if temp = fl_tail l
               then case temp of
                      None \<Rightarrow> Inl Null_Deref
                    | Some t \<Rightarrow> Inr (temp, h1, l\<lparr> fl_tail := h1 t \<rparr>)
               else Inr (temp, h1, l)))"

text \<open>
  The scan of \<open>Remove\<close> follows the hooks until the object is found; on cyclic hooks it may
  not return, which is \<open>None\<close>.
\<close>

partial_function (option) fl_remove_scan ::
  "'p fl_state \<Rightarrow> 'p \<Rightarrow> 'p \<Rightarrow> (('p option \<times> 'p fl_state) res) option" where
  "fl_remove_scan s v scan =
     (case fst s scan of
        None \<Rightarrow> Some (Inr (None, s))
      | Some nxt \<Rightarrow> if nxt = v then Some (fl_EraseAfter s (Some scan)) else fl_remove_scan s v nxt)"

definition fl_Remove :: "'p fl_state \<Rightarrow> 'p option \<Rightarrow> (('p option \<times> 'p fl_state) res) option" where
  "fl_Remove s value =
     (case (value, fl_head (snd s)) of
        (Some v, Some first) \<Rightarrow>
          if first = v then let (_, s') = fl_PopFront s in Some (Inr (fl_head (snd s'), s'))
          else fl_remove_scan s v first
      | _ \<Rightarrow> Some (Inr (None, s)))"

subsection \<open>The sequence a list stands for\<close>

definition last_opt :: "'a list \<Rightarrow> 'a option" where
  "last_opt xs = (if xs = [] then None else Some (last xs))"

lemma last_opt_simps [simp]:
  "last_opt [] = None" "last_opt (xs @ y # ys) = last_opt (y # ys)"
  "last_opt (x # xs) = (if xs = [] then Some x else last_opt xs)"
  by (simp_all add: last_opt_def)

lemma last_opt_None [simp]: "last_opt xs = None \<longleftrightarrow> xs = []"
  by (simp add: last_opt_def)

definition flist :: "'p fl_state \<Rightarrow> 'p list \<Rightarrow> bool" where
  "flist s xs \<longleftrightarrow> linked (fst s) (fl_head (snd s)) xs \<and> fl_tail (snd s) = last_opt xs"

lemma flist_distinct: "flist s xs \<Longrightarrow> distinct xs"
  by (auto simp: flist_def dest: linked_distinct)

lemma flist_unique: "flist s xs \<Longrightarrow> flist s ys \<Longrightarrow> xs = ys"
  by (auto simp: flist_def dest: linked_unique)

lemma flist_new: "flist (h, fl_new) []"
  by (simp add: flist_def fl_new_def)

lemma flist_Empty: "flist s xs \<Longrightarrow> fl_Empty s = (xs = [])"
  by (cases xs) (auto simp: flist_def fl_Empty_def)

lemma flist_PushFront: "flist s xs \<Longrightarrow> v \<notin> set xs \<Longrightarrow> flist (fl_PushFront s v) (v # xs)"
  by (cases s) (auto simp: flist_def fl_PushFront_def)

lemma linked_snoc:
  assumes "linked h p (xs @ [t])" and "v \<notin> set (xs @ [t])"
  shows "linked (h(v := None, t := Some v)) p (xs @ [t, v])"
proof -
  have "distinct (xs @ [t])" using assms(1) by (rule linked_distinct)
  moreover from assms(1) obtain r where "segment h p xs r" "linked h r [t]"
    by (auto simp: linked_append)
  ultimately show ?thesis using assms(2) by (auto simp: linked_append)
qed

lemma flist_PushBack:
  assumes "flist s xs" and "v \<notin> set xs"
  shows "\<exists>s'. fl_PushBack s v = Inr s' \<and> flist s' (xs @ [v])"
proof (cases xs rule: rev_cases)
  case Nil
  with assms show ?thesis by (cases s) (auto simp: flist_def fl_PushBack_def)
next
  case (snoc ys t)
  obtain h l where s: "s = (h, l)" by (cases s)
  from assms snoc s have l: "linked h (fl_head l) (ys @ [t])" "fl_tail l = Some t"
    by (auto simp: flist_def)
  then have "fl_head l \<noteq> None" by (cases ys) auto
  with l show ?thesis using assms(2) snoc linked_snoc [OF l(1), of v]
    by (auto simp: s fl_PushBack_def flist_def)
qed

lemma flist_PopFront:
  assumes "flist s xs"
  shows "case xs of [] \<Rightarrow> fl_PopFront s = (None, s)
    | y # ys \<Rightarrow> \<exists>s'. fl_PopFront s = (Some y, s') \<and> flist s' ys"
  using assms
  by (cases s) (auto simp: flist_def fl_PopFront_def split: list.split)


text \<open>Only the hooks of the objects in a list matter to it.\<close>

lemma linked_frame: "\<forall>a \<in> set xs. h' a = h a \<Longrightarrow> linked h' p xs = linked h p xs"
  by (induction xs arbitrary: p) simp_all

lemma flist_frame: "\<forall>a \<in> set xs. h' a = h a \<Longrightarrow> flist (h', l) xs = flist (h, l) xs"
  using linked_frame [of xs h' h "fl_head l"] by (simp add: flist_def)

lemma flist_tail_mem: "flist s xs \<Longrightarrow> fl_tail (snd s) = Some t \<Longrightarrow> t \<in> set xs"
  by (auto simp: flist_def last_opt_def split: if_splits)

lemma PushBack_frame:
  assumes "flist (h, l) xs" and "fl_PushBack (h, l) v = Inr (h', l')" and "a \<noteq> v" and "a \<notin> set xs"
  shows "h' a = h a"
  using assms flist_tail_mem [OF assms(1)]
  by (auto simp: fl_PushBack_def split: if_splits option.splits)

lemma PushBack_snoc:
  assumes "flist (h, l) xs" and "v \<notin> set xs"
  obtains h' l' where "fl_PushBack (h, l) v = Inr (h', l')" "flist (h', l') (xs @ [v])"
    "\<And>a. a \<noteq> v \<Longrightarrow> a \<notin> set xs \<Longrightarrow> h' a = h a"
proof -
  obtain s' where s': "fl_PushBack (h, l) v = Inr s'" "flist s' (xs @ [v])"
    using flist_PushBack [OF assms] by blast
  obtain h' l' where "s' = (h', l')" by (cases s')
  with s' that PushBack_frame [OF assms(1)] show thesis by blast
qed

lemma PopFront_cons:
  assumes "flist (h, l) (x # xs)"
  obtains l' where "fl_PopFront (h, l) = (Some x, h, l')" "flist (h, l') xs"
  using assms flist_PopFront [OF assms]
  by (auto simp: fl_PopFront_def flist_def split: option.splits)

lemma linked_split_hook:
  assumes "linked h p (as @ x # bs)"
  shows "linked h (h x) bs" "x \<notin> set as" "x \<notin> set bs" "set as \<inter> set bs = {}"
  using linked_distinct [OF assms] assms by (auto simp: linked_append)

lemma linked_insert_after:
  assumes "linked h p (as @ x # bs)" and "v \<notin> set (as @ x # bs)"
  shows "linked (h(v := h x, x := Some v)) p (as @ x # v # bs)"
  using assms linked_split_hook [OF assms(1)] by (auto simp: linked_append)

lemma flist_InsertAfter:
  assumes "flist s (as @ x # bs)" and "v \<notin> set (as @ x # bs)"
  shows "\<exists>s'. fl_InsertAfter s (Some x) v = Inr s' \<and> flist s' (as @ x # v # bs)"
proof -
  obtain h l where s: "s = (h, l)" by (cases s)
  with assms have l: "linked h (fl_head l) (as @ x # bs)" "fl_tail l = last_opt (x # bs)"
    by (auto simp: flist_def)
  have "fl_tail l = Some x \<longleftrightarrow> bs = []"
    using l(2) linked_split_hook(3) [OF l(1)] by (auto simp: last_opt_def)
  then show ?thesis
    using linked_insert_after [OF l(1) assms(2)] l(2)
    by (auto simp: s fl_InsertAfter_def flist_def Let_def)
qed

lemma linked_erase_after:
  assumes "linked h p (as @ x # y # bs)"
  shows "linked (h(x := h y)) p (as @ x # bs)"
  using assms linked_split_hook [OF assms] by (auto simp: linked_append)

text \<open>Erasing behind an element keeps the representation if another element follows.\<close>

lemma flist_EraseAfter:
  assumes "flist s (as @ x # y # z # bs)"
  shows "\<exists>s'. fl_EraseAfter s (Some x) = Inr (Some y, s') \<and> flist s' (as @ x # z # bs)"
proof -
  obtain h l where s: "s = (h, l)" by (cases s)
  with assms have l: "linked h (fl_head l) (as @ x # y # z # bs)" "fl_tail l = last_opt (z # bs)"
    by (auto simp: flist_def)
  have "h x = Some y" "y \<notin> set (z # bs)"
    using linked_split_hook [OF l(1)] linked_distinct [OF l(1)] by auto
  moreover from this have "fl_tail l \<noteq> Some y" using l(2) by (auto simp: last_opt_def)
  ultimately show ?thesis
    using linked_erase_after [OF l(1)] l(2) by (auto simp: s fl_EraseAfter_def flist_def Let_def)
qed

text \<open>
  Erasing the last element sets the tail to that element's own \<open>next\<close>, which is
  \<open>nullptr\<close>: the hooks still link the remaining elements, but the tail is lost.
\<close>

lemma EraseAfter_last:
  assumes "flist s (as @ [x, y])"
  shows "\<exists>s'. fl_EraseAfter s (Some x) = Inr (Some y, s') \<and>
    linked (fst s') (fl_head (snd s')) (as @ [x]) \<and> fl_tail (snd s') = None"
proof -
  obtain h l where s: "s = (h, l)" by (cases s)
  with assms have l: "linked h (fl_head l) (as @ [x, y])" "fl_tail l = Some y"
    by (auto simp: flist_def)
  have "h x = Some y" "h y = None" "x \<noteq> y"
    using linked_split_hook [OF l(1)] by auto
  then show ?thesis
    using linked_erase_after [OF l(1)] l(2) by (auto simp: s fl_EraseAfter_def Let_def)
qed

subsection \<open>Removal by value\<close>

lemma remove_scan_finds:
  assumes "linked (fst s) (Some p) (as @ x # y # bs)" and "y \<notin> set (as @ [x])"
  shows "fl_remove_scan s y p = Some (fl_EraseAfter s (Some x))"
  using assms
proof (induction as arbitrary: p)
  case Nil
  then show ?case by (subst fl_remove_scan.simps) auto
next
  case (Cons a as)
  then have p: "p = a" and l: "linked (fst s) (fst s a) (as @ x # y # bs)" by simp_all
  then obtain q where q: "fst s a = Some q" "q \<noteq> y" using Cons.prems by (cases as) auto
  then show ?case using Cons.IH [of q] l Cons.prems p by (subst fl_remove_scan.simps) auto
qed

lemma remove_scan_misses:
  assumes "linked (fst s) (Some p) xs" and "y \<notin> set xs"
  shows "fl_remove_scan s y p = Some (Inr (None, s))"
  using assms
proof (induction xs arbitrary: p)
  case (Cons a xs)
  then show ?case by (subst fl_remove_scan.simps) (cases xs; auto)
qed simp

text \<open>
  \<open>Remove\<close> takes out an element that is not the last one, and leaves a list without the
  value as it is; the removal of the head also covers the list of one element.
\<close>

lemma flist_Remove_head:
  assumes "flist s (x # xs)"
  shows "\<exists>s' r. fl_Remove s (Some x) = Some (Inr (r, s')) \<and> flist s' xs"
proof -
  have "fl_head (snd s) = Some x" using assms by (simp add: flist_def)
  then show ?thesis using flist_PopFront [OF assms] by (auto simp: fl_Remove_def)
qed

lemma flist_Remove_inner:
  assumes "flist s (as @ x # y # z # bs)"
  shows "\<exists>s'. fl_Remove s (Some y) = Some (Inr (Some y, s')) \<and> flist s' (as @ x # z # bs)"
proof -
  have d: "distinct (as @ x # y # z # bs)" using assms by (rule flist_distinct)
  obtain p where p: "fl_head (snd s) = Some p" "p \<noteq> y"
    using assms d by (cases as) (auto simp: flist_def)
  with assms d have "fl_Remove s (Some y) = Some (fl_EraseAfter s (Some x))"
    using remove_scan_finds [of s p as x y "z # bs"] by (auto simp: fl_Remove_def flist_def)
  with flist_EraseAfter [OF assms] show ?thesis by auto
qed

lemma flist_Remove_absent:
  assumes "flist s xs" and "y \<notin> set xs"
  shows "fl_Remove s (Some y) = Some (Inr (None, s))"
proof (cases xs)
  case Nil
  with assms show ?thesis by (auto simp: fl_Remove_def flist_def split: option.split)
next
  case (Cons x ys)
  with assms have "fl_head (snd s) = Some x" "x \<noteq> y" by (auto simp: flist_def)
  with assms Cons show ?thesis
    using remove_scan_misses [of s x xs y] by (auto simp: fl_Remove_def flist_def)
qed

text \<open>After the removal of the last of several elements, \<open>PushBack\<close> dereferences \<open>nullptr\<close>.\<close>

lemma Remove_last_breaks_PushBack:
  assumes "flist s (as @ [x, y])"
  shows "\<exists>s'. fl_Remove s (Some y) = Some (Inr (Some y, s')) \<and> fl_PushBack s' v = Inl Null_Deref"
proof -
  have d: "distinct (as @ [x, y])" using assms by (rule flist_distinct)
  obtain p where p: "fl_head (snd s) = Some p" "p \<noteq> y"
    using assms d by (cases as) (auto simp: flist_def)
  with assms d have "fl_Remove s (Some y) = Some (fl_EraseAfter s (Some x))"
    using remove_scan_finds [of s p as x y "[]"] by (auto simp: fl_Remove_def flist_def)
  moreover obtain s' where s': "fl_EraseAfter s (Some x) = Inr (Some y, s')"
      "linked (fst s') (fl_head (snd s')) (as @ [x])" "fl_tail (snd s') = None"
    using EraseAfter_last [OF assms] by blast
  moreover have "fl_PushBack s' v = Inl Null_Deref"
    using s'(2,3) by (cases s'; cases as) (auto simp: fl_PushBack_def)
  ultimately show ?thesis by simp
qed


subsection \<open>The queue interface\<close>

text \<open>Runs of pushes and of pops, for any queue.\<close>

fun push_all :: "('s \<Rightarrow> 'p \<Rightarrow> 's res) \<Rightarrow> 's \<Rightarrow> 'p list \<Rightarrow> 's res" where
  "push_all push s [] = Inr s"
| "push_all push s (v # vs) = res_bind (push s v) (\<lambda>s'. push_all push s' vs)"

fun pop_n :: "('s \<Rightarrow> 'p option \<times> 's) \<Rightarrow> nat \<Rightarrow> 's \<Rightarrow> 'p list \<times> 's" where
  "pop_n pop 0 s = ([], s)"
| "pop_n pop (Suc n) s =
     (case pop s of
        (None, s') \<Rightarrow> ([], s')
      | (Some x, s') \<Rightarrow> let (ys, s'') = pop_n pop n s' in (x # ys, s''))"

text \<open>
  What the kernel relies on when it uses an intrusive list as a queue: \<open>content\<close> relates a
  state to the sequence of the queued objects, \<open>push\<close> appends an object that is not queued
  and \<open>pop\<close> takes the first one.
\<close>

locale fifo =
  fixes content :: "'s \<Rightarrow> 'p list \<Rightarrow> bool"
    and push :: "'s \<Rightarrow> 'p \<Rightarrow> 's res"
    and pop :: "'s \<Rightarrow> 'p option \<times> 's"
  assumes push_content:
      "content s xs \<Longrightarrow> v \<notin> set xs \<Longrightarrow> \<exists>s'. push s v = Inr s' \<and> content s' (xs @ [v])"
    and pop_empty: "content s [] \<Longrightarrow> pop s = (None, s)"
    and pop_cons: "content s (x # xs) \<Longrightarrow> \<exists>s'. pop s = (Some x, s') \<and> content s' xs"
begin

lemma push_all_content:
  "content s xs \<Longrightarrow> distinct (xs @ vs) \<Longrightarrow> \<exists>s'. push_all push s vs = Inr s' \<and> content s' (xs @ vs)"
proof (induction vs arbitrary: s xs)
  case (Cons v vs)
  then have "v \<notin> set xs" by simp
  then obtain s' where s': "push s v = Inr s'" "content s' (xs @ [v])"
    using Cons.prems push_content by blast
  then show ?case using Cons.IH [OF s'(2)] Cons.prems by simp
qed simp

lemma pop_n_content:
  "content s (xs @ ys) \<Longrightarrow> \<exists>s'. pop_n pop (length xs) s = (xs, s') \<and> content s' ys"
proof (induction xs arbitrary: s)
  case (Cons x xs)
  then obtain s' where "pop s = (Some x, s')" "content s' (xs @ ys)"
    using pop_cons [of s x "xs @ ys"] by auto
  then show ?case using Cons.IH [of s'] by auto
qed simp

text \<open>Objects leave the queue in the order they were pushed.\<close>

lemma fifo_order:
  assumes "content s xs" "distinct (xs @ vs)"
  shows "\<exists>s' s''. push_all push s vs = Inr s' \<and> pop_n pop (length (xs @ vs)) s' = (xs @ vs, s'') \<and>
    content s'' []"
proof -
  obtain s' where "push_all push s vs = Inr s'" "content s' (xs @ vs)"
    using push_all_content [OF assms] by blast
  then show ?thesis using pop_n_content [of s' "xs @ vs" "[]"] by auto
qed

end

interpretation fl: fifo flist fl_PushBack fl_PopFront
proof
  fix s :: "'a fl_state" and xs v
  show "flist s xs \<Longrightarrow> v \<notin> set xs \<Longrightarrow> \<exists>s'. fl_PushBack s v = Inr s' \<and> flist s' (xs @ [v])"
    by (rule flist_PushBack)
  show "flist s [] \<Longrightarrow> fl_PopFront s = (None, s)"
    using flist_PopFront [of s "[]"] by simp
  show "flist s (v # xs) \<Longrightarrow> \<exists>s'. fl_PopFront s = (Some v, s') \<and> flist s' xs"
    using flist_PopFront [of s "v # xs"] by simp
qed

subsection \<open>Properties\<close>

text \<open>Starting from the empty list, pushing distinct objects at the back and popping as many
  from the front never faults, returns the objects in the order of the pushes and leaves the list
  empty.\<close>

lemma fwd_list_fifo:
  assumes "distinct vs"
  shows "\<exists>s' s''. push_all fl_PushBack (h, fl_new) vs = Inr s' \<and> pop_n fl_PopFront (length vs) s' = (vs, s'') \<and> fl_Empty s''"
proof -
  have "distinct ([] @ vs)" using assms by simp
  then obtain s' s'' where "push_all fl_PushBack (h, fl_new) vs = Inr s'" "pop_n fl_PopFront (length ([] @ vs)) s' = ([] @ vs, s'')"
      "flist s'' []"
    using fl.fifo_order [OF flist_new] by blast
  then have "pop_n fl_PopFront (length vs) s' = (vs, s'')" "fl_Empty s''"
    using flist_Empty [of s'' "[]"] by simp_all
  with \<open>push_all fl_PushBack (h, fl_new) vs = Inr s'\<close> show ?thesis by blast
qed

lemma fwd_list_fifo_example:
  "\<exists>s' s''. push_all fl_PushBack (\<lambda>_. None, fl_new) [3, 1, 2 :: nat] = Inr s' \<and>
    pop_n fl_PopFront (length [3, 1, 2 :: nat]) s' = ([3, 1, 2], s'') \<and> fl_Empty s''"
  by (rule fwd_list_fifo) simp

text \<open>\<open>Remove\<close> of the last of several elements leaves a list without a tail pointer, and the
  next \<open>PushBack\<close> dereferences \<open>nullptr\<close>.\<close>

lemma fwd_list_lost_tail:
  assumes "flist s (as @ [x, y])"
  shows "\<exists>s'. fl_Remove s (Some y) = Some (Inr (Some y, s')) \<and> fl_PushBack s' v = Inl Null_Deref"
  by (rule Remove_last_breaks_PushBack [OF assms])

lemma fwd_list_lost_tail_example:
  "\<exists>s'. fl_Remove ((\<lambda>_. None)(1 := Some 2), \<lparr> fl_head = Some 1, fl_tail = Some (2 :: nat) \<rparr>) (Some 2)
      = Some (Inr (Some 2, s')) \<and> fl_PushBack s' 3 = Inl Null_Deref"
proof -
  have "flist ((\<lambda>_. None)(1 := Some 2), \<lparr> fl_head = Some 1, fl_tail = Some (2 :: nat) \<rparr>) ([] @ [1, 2])"
    by (simp add: flist_def)
  then show ?thesis by (rule fwd_list_lost_tail)
qed

end
