(* ===== verification/Scheduler.thy ===== *)
theory Scheduler
  imports Fwd_List Run_Levels
begin

text \<open>
  \<open>kernel/tasking/Scheduler.cpp\<close>: engines (one for each core) in clusters of four, each engine with a queue of the threads bound to
  it and each cluster with a queue its engines share. Threads, engines, clusters and queues are reached through
  addresses; an engine is the number of its cluster and its slot there, and the queues are kept beside the engines and clusters that
  embed them. All threads are linked through one hook. Per-core data, the deferred calls queued and the mail sent to
  other cores are fields of the state; the switch of the register frames itself, the run levels around the critical
  sections and the clock event of an engine are left out: \<open>DoReschedule\<close> takes the event from the queue of the clock, but the line that
  would enter it there is commented out. The lists of threads (\<open>sl::IntrFwdList\<close>, which the repository does not declare) are taken to
  be the \<open>FwdList\<close> of \<open>Fwd_List\<close>.
\<close>

subsection \<open>State\<close>

datatype thread_state = Th_Setup | Th_Dead | Th_Ready | Th_Queued | Th_Running

datatype engine_ref = Engine_Ref (er_cluster: nat) (er_slot: nat)

datatype queue_ref = Shared_Queue nat | Local_Queue engine_ref

datatype engine_or_queue = On_Engine size_t | In_Queue queue_ref

record thread =
  th_state :: thread_state
  th_id :: size_t
  th_affinity :: size_t
  th_place :: engine_or_queue

record work_queue =
  wq_depth :: size_t
  wq_threads :: "nat fwd_list"

record engine =
  en_id :: size_t
  en_ReschedulePending :: bool
  en_localTickets :: size_t
  en_sharedTickets :: size_t
  en_idleThread :: "nat option"
  en_pendingThread :: "nat option"

record scheduler =
  sc_threads :: "nat \<Rightarrow> thread"
  sc_hooks :: "nat hooks"
  sc_queues :: "queue_ref \<Rightarrow> work_queue"
  sc_engine :: "engine_ref \<Rightarrow> engine"
  sc_clusters :: nat
  sc_engineCount :: "nat \<Rightarrow> size_t"
  sc_engines :: "engine_ref option list"
  sc_local :: "size_t \<Rightarrow> engine_ref option"
  sc_current :: "size_t \<Rightarrow> nat option"
  sc_dpcs :: "size_t list"
  sc_mail :: "(size_t \<times> nat) list"

abbreviation EnginesPerCluster :: nat where
  "EnginesPerCluster \<equiv> 4"

abbreviation no_engine :: size_t where
  "no_engine \<equiv> size_limit - 1"

abbreviation NoCoreAffinity :: size_t where
  "NoCoreAffinity \<equiv> size_limit - 1"

definition upd_thread :: "nat \<Rightarrow> (thread \<Rightarrow> thread) \<Rightarrow> scheduler \<Rightarrow> scheduler" where
  "upd_thread t f s = s\<lparr> sc_threads := (sc_threads s)(t := f (sc_threads s t)) \<rparr>"

definition upd_engine :: "engine_ref \<Rightarrow> (engine \<Rightarrow> engine) \<Rightarrow> scheduler \<Rightarrow> scheduler" where
  "upd_engine e f s = s\<lparr> sc_engine := (sc_engine s)(e := f (sc_engine s e)) \<rparr>"

definition set_queue :: "queue_ref \<Rightarrow> work_queue \<Rightarrow> scheduler \<Rightarrow> scheduler" where
  "set_queue q w s = s\<lparr> sc_queues := (sc_queues s)(q := w) \<rparr>"

definition LocalEngine :: "size_t \<Rightarrow> scheduler \<Rightarrow> engine_ref res" where
  "LocalEngine core s = (case sc_local s core of None \<Rightarrow> Inl Null_Deref | Some e \<Rightarrow> Inr e)"

subsection \<open>Choosing the next thread\<close>

partial_function (option) GetRunnableThread ::
  "(nat \<Rightarrow> thread) \<Rightarrow> nat hooks \<Rightarrow> work_queue \<Rightarrow> (nat option \<times> work_queue) option" where
  "GetRunnableThread threads h queue =
     (case fl_PopFront (h, wq_threads queue) of
        (None, _) \<Rightarrow> Some (None, queue)
      | (Some queueHead, _, l) \<Rightarrow>
          let queue1 = queue\<lparr> wq_depth := sz_sub (wq_depth queue) 1, wq_threads := l \<rparr>
          in if th_state (threads queueHead) \<noteq> Th_Queued then GetRunnableThread threads h queue1
             else Some (Some queueHead, queue1))"

text \<open>One attempt: take a thread from a queue and count it against the tickets for that queue.\<close>

definition take_from :: "queue_ref \<Rightarrow> (engine \<Rightarrow> engine) \<Rightarrow> engine_ref \<Rightarrow> scheduler \<Rightarrow> (nat option \<times> scheduler) res" where
  "take_from q charge e s =
     (case GetRunnableThread (sc_threads s) (sc_hooks s) (sc_queues s q) of
        None \<Rightarrow> Inl Diverges
      | Some (None, w) \<Rightarrow> Inr (None, set_queue q w s)
      | Some (Some t, w) \<Rightarrow> Inr (Some t, upd_engine e charge (set_queue q w s)))"

definition reset_tickets :: "engine_ref \<Rightarrow> scheduler \<Rightarrow> scheduler" where
  "reset_tickets e s =
     (if en_sharedTickets (sc_engine s e) = 0
      then upd_engine e (\<lambda>x. x\<lparr>
             en_sharedTickets := wq_depth (sc_queues s (Shared_Queue (er_cluster e))),
             en_localTickets := sz_mul (wq_depth (sc_queues s (Local_Queue e))) (sc_engineCount s (er_cluster e)) \<rparr>) s
      else s)"

definition DoReschedule :: "size_t \<Rightarrow> scheduler \<Rightarrow> scheduler res" where
  "DoReschedule core s =
     res_bind (LocalEngine core s) (\<lambda>e.
     let s0 = reset_tickets e s
     in res_bind (if en_localTickets (sc_engine s0 e) > 0
                  then take_from (Local_Queue e) (\<lambda>x. x\<lparr> en_localTickets := sz_sub (en_localTickets x) 1 \<rparr>) e s0
                  else Inr (None, s0)) (\<lambda>(t1, s1).
     res_bind (case t1 of
                 Some t \<Rightarrow> Inr (Some t, s1)
               | None \<Rightarrow> take_from (Shared_Queue (er_cluster e)) (\<lambda>x. x\<lparr> en_sharedTickets := sz_sub (en_sharedTickets x) 1 \<rparr>) e s1) (\<lambda>(t2, s2).
     case (case t2 of Some t \<Rightarrow> Some t | None \<Rightarrow> en_idleThread (sc_engine s2 e)) of
       None \<Rightarrow> Inl Null_Deref
     | Some nextThread \<Rightarrow>
         let s3 = upd_thread nextThread (\<lambda>t. t\<lparr> th_state := Th_Running, th_place := On_Engine (en_id (sc_engine s2 e)) \<rparr>) s2
         in Inr (upd_engine e (\<lambda>x. x\<lparr> en_pendingThread := Some nextThread, en_ReschedulePending := False \<rparr>) s3))))"

subsection \<open>Queues\<close>

definition push_thread :: "nat \<Rightarrow> queue_ref \<Rightarrow> scheduler \<Rightarrow> scheduler res" where
  "push_thread t q s =
     (let s1 = upd_thread t (\<lambda>x. x\<lparr> th_state := Th_Queued, th_place := In_Queue q \<rparr>) s
      in res_bind (fl_PushBack (sc_hooks s1, wq_threads (sc_queues s1 q)) t) (\<lambda>(h, l).
           let w = sc_queues s1 q
           in Inr (set_queue q (w\<lparr> wq_threads := l, wq_depth := sz_add (wq_depth w) 1 \<rparr>) (s1\<lparr> sc_hooks := h \<rparr>))))"

definition QueueReschedule :: "size_t \<Rightarrow> scheduler \<Rightarrow> scheduler res" where
  "QueueReschedule core s =
     res_bind (LocalEngine core s) (\<lambda>e.
       if \<not> en_ReschedulePending (sc_engine s e)
       then Inr ((upd_engine e (\<lambda>x. x\<lparr> en_ReschedulePending := True \<rparr>) s)\<lparr> sc_dpcs := sc_dpcs s @ [core] \<rparr>)
       else Inr s)"

definition SwitchPending :: "size_t \<Rightarrow> scheduler \<Rightarrow> bool res" where
  "SwitchPending core s = res_bind (LocalEngine core s) (\<lambda>e. Inr (en_pendingThread (sc_engine s e) \<noteq> None))"

text \<open>The caller is at the normal run level with interrupts disabled; the frames to switch are not part of the state.\<close>

definition DoPendingSwitch :: "size_t \<Rightarrow> scheduler \<Rightarrow> scheduler res" where
  "DoPendingSwitch core s =
     res_bind (LocalEngine core s) (\<lambda>e.
     case en_pendingThread (sc_engine s e) of
       None \<Rightarrow> Inl Assert_Failed
     | Some pending \<Rightarrow>
         res_bind (case sc_current s core of
                     None \<Rightarrow> Inr s
                   | Some current \<Rightarrow>
                       (case en_idleThread (sc_engine s e) of
                          None \<Rightarrow> Inl Null_Deref
                        | Some idle \<Rightarrow>
                            let c = sc_threads s current
                            in if th_id c \<noteq> th_id (sc_threads s idle) \<and> th_state c = Th_Running
                               then if th_affinity c \<noteq> NoCoreAffinity
                                    then if th_affinity c = core then push_thread current (Local_Queue e) s else Inl Assert_Failed
                                    else push_thread current (Shared_Queue (er_cluster e)) s
                               else Inr s)) (\<lambda>s1.
           Inr ((upd_engine e (\<lambda>x. x\<lparr> en_pendingThread := None \<rparr>) s1)\<lparr> sc_current := (sc_current s1)(core := Some pending) \<rparr>)))"

fun find_engine :: "size_t \<Rightarrow> engine_ref option list \<Rightarrow> scheduler \<Rightarrow> engine_ref option res" where
  "find_engine affinity [] s = Inr None"
| "find_engine affinity (None # es) s = Inl Null_Deref"
| "find_engine affinity (Some e # es) s =
     (if en_id (sc_engine s e) \<noteq> affinity then find_engine affinity es s else Inr (Some e))"

text \<open>The cluster whose shared queue is shortest, the first one of those.\<close>

fun least_cluster :: "nat list \<Rightarrow> size_t \<Rightarrow> nat option \<Rightarrow> scheduler \<Rightarrow> nat option" where
  "least_cluster [] queueSize selected s = selected"
| "least_cluster (c # cs) queueSize selected s =
     (let d = wq_depth (sc_queues s (Shared_Queue c))
      in if d < queueSize then least_cluster cs d (Some c) s else least_cluster cs queueSize selected s)"

definition EnqueueThread :: "nat option \<Rightarrow> scheduler \<Rightarrow> scheduler res" where
  "EnqueueThread th s =
     (case th of
        None \<Rightarrow> Inr s
      | Some t \<Rightarrow>
          if th_state (sc_threads s t) \<noteq> Th_Ready then Inr s
          else res_bind (if th_affinity (sc_threads s t) \<noteq> NoCoreAffinity
                         then res_bind (find_engine (th_affinity (sc_threads s t)) (sc_engines s) s) (\<lambda>e. Inr (map_option Local_Queue e))
                         else Inr (map_option Shared_Queue (least_cluster [0..<sc_clusters s] (size_limit - 1) None s))) (\<lambda>queue.
               case queue of None \<Rightarrow> Inr s | Some q \<Rightarrow> push_thread t q s))"

text \<open>
  The state of the thread is \<open>Th_Ready\<close> before the mail is sent, so that the remote call (\<open>RemoteDequeue\<close>, the same
  function on the other core) finds it so.
\<close>

definition DequeueThread :: "size_t \<Rightarrow> nat option \<Rightarrow> scheduler \<Rightarrow> scheduler res" where
  "DequeueThread core th s =
     (case th of
        None \<Rightarrow> Inr s
      | Some t \<Rightarrow>
          let prevState = th_state (sc_threads s t)
          in if \<not> (prevState = Th_Running \<or> prevState = Th_Queued) then Inr s
             else res_bind (LocalEngine core s) (\<lambda>e.
               let s1 = upd_thread t (\<lambda>x. x\<lparr> th_state := Th_Ready \<rparr>) s
               in case th_place (sc_threads s t) of
                    On_Engine eid \<Rightarrow>
                      if prevState = Th_Running
                      then if eid = en_id (sc_engine s1 e)
                           then if sc_current s1 core = Some t then QueueReschedule core s1
                                else Inr (upd_engine e (\<lambda>x. x\<lparr> en_pendingThread := None \<rparr>) s1)
                           else Inr (s1\<lparr> sc_mail := sc_mail s1 @ [(eid, t)] \<rparr>)
                      else Inl Null_Deref
                  | In_Queue q \<Rightarrow>
                      if prevState = Th_Running then Inl Bad_Index
                      else case fl_Remove (sc_hooks s1, wq_threads (sc_queues s1 q)) (Some t) of
                             None \<Rightarrow> Inl Diverges
                           | Some r \<Rightarrow> res_bind r (\<lambda>(found, h, l).
                               if found = None then Inl Assert_Failed
                               else let w = sc_queues s1 q
                                    in Inr (set_queue q (w\<lparr> wq_threads := l, wq_depth := sz_sub (wq_depth w) 1 \<rparr>)
                                             (s1\<lparr> sc_hooks := h \<rparr>)))))"

subsection \<open>Threads\<close>

text \<open>\<open>setArg\<close> stands for the copies of the trap frame out of and into the address space of the thread.\<close>

definition thread_Start :: "(nat \<Rightarrow> size_t \<Rightarrow> unit res) \<Rightarrow> nat \<Rightarrow> size_t option \<Rightarrow> scheduler \<Rightarrow> scheduler res" where
  "thread_Start setArg t arg s =
     (if th_state (sc_threads s t) \<noteq> Th_Setup then Inr s
      else let s1 = upd_thread t (\<lambda>x. x\<lparr> th_state := Th_Ready \<rparr>) s
           in res_bind (case arg of None \<Rightarrow> Inr () | Some a \<Rightarrow> setArg t a) (\<lambda>_. EnqueueThread (Some t) s1))"

text \<open>A thread that ends itself requests a reschedule once more; the switch that follows does not return to it.\<close>

definition thread_Exit :: "size_t \<Rightarrow> nat \<Rightarrow> scheduler \<Rightarrow> scheduler res" where
  "thread_Exit core t s =
     res_bind (DequeueThread core (Some t) s) (\<lambda>s1.
       let s2 = upd_thread t (\<lambda>x. x\<lparr> th_state := Th_Dead \<rparr>) s1
       in if sc_current s core = Some t then QueueReschedule core s2 else Inr s2)"

subsection \<open>Engines\<close>

definition empty_queue :: work_queue where
  "empty_queue = \<lparr> wq_depth = 0, wq_threads = fl_new \<rparr>"

definition slots_of :: "nat \<Rightarrow> engine_ref list" where
  "slots_of clusters = concat (map (\<lambda>c. map (Engine_Ref c) [0..<EnginesPerCluster]) [0..<clusters])"

definition new_cluster :: "scheduler \<Rightarrow> engine_ref \<times> scheduler" where
  "new_cluster s =
     (let c = sc_clusters s
      in (Engine_Ref c 0, s\<lparr> sc_clusters := c + 1,
            sc_engineCount := (sc_engineCount s)(c := 1),
            sc_queues := (\<lambda>q. case q of Shared_Queue d \<Rightarrow> if d = c then empty_queue else sc_queues s q
                                      | Local_Queue e \<Rightarrow> if er_cluster e = c then empty_queue else sc_queues s q),
            sc_engine := (\<lambda>e. if er_cluster e = c then (sc_engine s e)\<lparr> en_id := no_engine \<rparr> else sc_engine s e) \<rparr>))"

definition pick_slot :: "scheduler \<Rightarrow> engine_ref \<times> scheduler" where
  "pick_slot s =
     (case find (\<lambda>e. en_id (sc_engine s e) = no_engine) (slots_of (sc_clusters s)) of
        Some e \<Rightarrow> (e, s\<lparr> sc_engineCount := (sc_engineCount s)(er_cluster e := sz_add (sc_engineCount s (er_cluster e)) 1) \<rparr>)
      | None \<Rightarrow> new_cluster s)"

definition emplace_at :: "nat \<Rightarrow> 'a \<Rightarrow> 'a option list \<Rightarrow> 'a option list" where
  "emplace_at i x xs = (if i < length xs then xs[i := Some x] else xs @ replicate (i - length xs) None @ [Some x])"

text \<open>\<open>idle\<close> and \<open>initThread\<close> are the threads the program manager creates, if it can.\<close>

definition AddEngine :: "size_t \<Rightarrow> nat option \<Rightarrow> nat option \<Rightarrow> scheduler \<Rightarrow> scheduler res" where
  "AddEngine core idle initThread s =
     (let (e, s1) = pick_slot s;
          doLateInit = (sc_engines s1 = []);
          s2 = s1\<lparr> sc_engines := emplace_at core e (sc_engines s1), sc_local := (sc_local s1)(core := Some e) \<rparr>;
          s3 = upd_engine e (\<lambda>_. \<lparr> en_id = core, en_ReschedulePending = False, en_localTickets = 0, en_sharedTickets = 0,
                 en_idleThread = idle, en_pendingThread = None \<rparr>) s2
      in if idle = None then Inl Assert_Failed
         else if doLateInit
         then (case initThread of None \<Rightarrow> Inl Null_Deref | Some t \<Rightarrow> thread_Start (\<lambda>_ _. Inr ()) t None s3)
         else Inr s3)"

subsection \<open>What the queues hold\<close>

text \<open>
  \<open>Q\<close> gives the threads in each queue. A thread is in a queue exactly if it is queued there, and the depth of
  a queue is its length.
\<close>

definition queues_ok :: "(queue_ref \<Rightarrow> nat list) \<Rightarrow> scheduler \<Rightarrow> bool" where
  "queues_ok Q s \<longleftrightarrow>
     (\<forall>q. flist (sc_hooks s, wq_threads (sc_queues s q)) (Q q) \<and> wq_depth (sc_queues s q) = length (Q q)) \<and>
     (\<forall>q t. t \<in> set (Q q) \<longrightarrow> th_state (sc_threads s t) = Th_Queued \<and> th_place (sc_threads s t) = In_Queue q) \<and>
     (\<forall>t. th_state (sc_threads s t) = Th_Queued \<longrightarrow> (\<exists>q. t \<in> set (Q q)))"

lemma sc_simps [simp]:
  "sc_threads (upd_thread t f s) = (sc_threads s)(t := f (sc_threads s t))" "sc_hooks (upd_thread t f s) = sc_hooks s"
  "sc_queues (upd_thread t f s) = sc_queues s" "sc_engine (upd_thread t f s) = sc_engine s"
  "sc_current (upd_thread t f s) = sc_current s" "sc_local (upd_thread t f s) = sc_local s"
  "sc_threads (upd_engine e g s) = sc_threads s" "sc_hooks (upd_engine e g s) = sc_hooks s"
  "sc_queues (upd_engine e g s) = sc_queues s" "sc_engine (upd_engine e g s) = (sc_engine s)(e := g (sc_engine s e))"
  "sc_current (upd_engine e g s) = sc_current s" "sc_local (upd_engine e g s) = sc_local s"
  "sc_threads (set_queue q w s) = sc_threads s" "sc_hooks (set_queue q w s) = sc_hooks s"
  "sc_queues (set_queue q w s) = (sc_queues s)(q := w)" "sc_engine (set_queue q w s) = sc_engine s"
  "sc_current (set_queue q w s) = sc_current s" "sc_local (set_queue q w s) = sc_local s"
  by (simp_all add: upd_thread_def upd_engine_def set_queue_def)

lemma queues_disjoint: "queues_ok Q s \<Longrightarrow> t \<in> set (Q q) \<Longrightarrow> t \<in> set (Q r) \<Longrightarrow> q = r"
  unfolding queues_ok_def by (metis engine_or_queue.inject(2))

lemma push_ok:
  assumes ok: "queues_ok Q s" and t: "th_state (sc_threads s t) \<noteq> Th_Queued" and len: "length (Q q) + 1 < size_limit"
  shows "\<exists>s1. push_thread t q s = Inr s1 \<and> queues_ok (Q(q := Q q @ [t])) s1 \<and>
    sc_threads s1 = (sc_threads s)(t := (sc_threads s t)\<lparr> th_state := Th_Queued, th_place := In_Queue q \<rparr>) \<and>
    sc_engine s1 = sc_engine s \<and> sc_current s1 = sc_current s \<and> sc_local s1 = sc_local s"
proof -
  let ?w = "sc_queues s q"
  have l: "flist (sc_hooks s, wq_threads ?w) (Q q)" and dep: "wq_depth ?w = length (Q q)"
    and out: "t \<notin> set (Q r)" for r using ok t by (auto simp: queues_ok_def)
  obtain h l where h: "fl_PushBack (sc_hooks s, wq_threads ?w) t = Inr (h, l)" "flist (h, l) (Q q @ [t])"
      "\<And>a. a \<noteq> t \<Longrightarrow> a \<notin> set (Q q) \<Longrightarrow> h a = sc_hooks s a"
    using PushBack_snoc [OF l out] by blast
  define s1 where "s1 = set_queue q (?w\<lparr> wq_threads := l, wq_depth := sz_add (wq_depth ?w) 1 \<rparr>)
      ((upd_thread t (\<lambda>x. x\<lparr> th_state := Th_Queued, th_place := In_Queue q \<rparr>) s)\<lparr> sc_hooks := h \<rparr>)"
  have push: "push_thread t q s = Inr s1" using h(1) by (simp add: push_thread_def Let_def s1_def)
  have "flist (h, wq_threads (sc_queues s r)) (Q r)" if "r \<noteq> q" for r
  proof -
    have "a \<notin> set (Q q)" if "a \<in> set (Q r)" for a using queues_disjoint [OF ok that] \<open>r \<noteq> q\<close> by blast
    then have "\<forall>a \<in> set (Q r). h a = sc_hooks s a" using h(3) out by metis
    then show ?thesis using flist_frame ok unfolding queues_ok_def by blast
  qed
  moreover have "\<exists>r. a \<in> set ((Q(q := Q q @ [t])) r)" if a: "a \<noteq> t \<Longrightarrow> th_state (sc_threads s a) = Th_Queued" for a
  proof (cases "a = t")
    case False
    then obtain r where "a \<in> set (Q r)" using ok a unfolding queues_ok_def by blast
    then show ?thesis by (intro exI [of _ r]) auto
  qed (intro exI [of _ q], simp)
  ultimately have "queues_ok (Q(q := Q q @ [t])) s1"
    using ok h(2) dep len out unfolding queues_ok_def by (simp add: s1_def sz_simps)
  with push show ?thesis by (simp add: s1_def)
qed

text \<open>Every thread in a queue is runnable, so the head of the queue is taken.\<close>

lemma runnable_head:
  assumes "queues_ok Q s"
  shows "case Q q of
      [] \<Rightarrow> GetRunnableThread (sc_threads s) (sc_hooks s) (sc_queues s q) = Some (None, sc_queues s q)
    | t # ts \<Rightarrow> \<exists>l. GetRunnableThread (sc_threads s) (sc_hooks s) (sc_queues s q) =
          Some (Some t, (sc_queues s q)\<lparr> wq_depth := sz_sub (length (Q q)) 1, wq_threads := l \<rparr>) \<and> flist (sc_hooks s, l) ts"
proof (cases "Q q")
  case Nil
  then have "flist (sc_hooks s, wq_threads (sc_queues s q)) []" using assms unfolding queues_ok_def by metis
  then show ?thesis using Nil by (subst GetRunnableThread.simps) (simp add: flist_def fl_PopFront_def)
next
  case (Cons t ts)
  then have "flist (sc_hooks s, wq_threads (sc_queues s q)) (t # ts)" "th_state (sc_threads s t) = Th_Queued"
    "wq_depth (sc_queues s q) = length (Q q)"
    using assms unfolding queues_ok_def by (metis, metis list.set_intros(1), metis)
  moreover from this(1) obtain l where "fl_PopFront (sc_hooks s, wq_threads (sc_queues s q)) = (Some t, sc_hooks s, l)"
      "flist (sc_hooks s, l) ts" by (rule PopFront_cons)
  ultimately have "GetRunnableThread (sc_threads s) (sc_hooks s) (sc_queues s q) =
      Some (Some t, (sc_queues s q)\<lparr> wq_depth := sz_sub (length (Q q)) 1, wq_threads := l \<rparr>)"
    by (subst GetRunnableThread.simps) (simp add: Let_def)
  with \<open>flist (sc_hooks s, l) ts\<close> Cons show ?thesis by auto
qed

text \<open>A queued thread that is given to an engine leaves its queue.\<close>

lemma run_queued:
  assumes ok: "queues_ok Q s" and q: "Q q = t # ts" and l: "flist (sc_hooks s, l) ts" and len: "length (Q q) < size_limit"
    and s1: "sc_hooks s1 = sc_hooks s" "sc_threads s1 = (sc_threads s)(t := x)" "th_state x = Th_Running"
      "sc_queues s1 = (sc_queues s)(q := (sc_queues s q)\<lparr> wq_depth := sz_sub (length (Q q)) 1, wq_threads := l \<rparr>)"
  shows "queues_ok (Q(q := ts)) s1"
proof -
  have "distinct (t # ts)" using ok q flist_distinct unfolding queues_ok_def by metis
  moreover have "t \<notin> set (Q r)" if "r \<noteq> q" for r using queues_disjoint [OF ok, of t r q] q that by auto
  moreover have "\<exists>r. a \<in> set ((Q(q := ts)) r)" if a: "a \<noteq> t" "th_state (sc_threads s a) = Th_Queued" for a
  proof -
    obtain r where r: "a \<in> set (Q r)" using ok a(2) unfolding queues_ok_def by blast
    show ?thesis
    proof (cases "r = q")
      case True
      then show ?thesis using r q a(1) by (intro exI [of _ q]) auto
    next
      case False
      then show ?thesis using r by (intro exI [of _ r]) simp
    qed
  qed
  moreover have "th_state (sc_threads s a) = Th_Queued \<and> th_place (sc_threads s a) = In_Queue q" if "a \<in> set ts" for a
    using ok q that unfolding queues_ok_def by (metis list.set_intros(2))
  moreover have "sz_sub (length (Q q)) 1 = length ts" using q len by (simp add: sz_simps)
  ultimately show ?thesis using ok q l s1 by (auto simp: queues_ok_def)
qed

lemma run_unqueued:
  assumes "queues_ok Q s" and "th_state (sc_threads s t) \<noteq> Th_Queued" and "th_state x \<noteq> Th_Queued"
    and "sc_hooks s1 = sc_hooks s" "sc_threads s1 = (sc_threads s)(t := x)" "sc_queues s1 = sc_queues s"
  shows "queues_ok Q s1"
  using assms by (auto simp: queues_ok_def)

subsection \<open>Rescheduling\<close>

text \<open>The thread to run next: from the own queue while there are tickets for it, else from the shared queue, else the idle thread.\<close>

definition next_thread :: "(queue_ref \<Rightarrow> nat list) \<Rightarrow> engine_ref \<Rightarrow> scheduler \<Rightarrow> nat option \<times> queue_ref option" where
  "next_thread Q e s =
     (if en_localTickets (sc_engine (reset_tickets e s) e) > 0 \<and> Q (Local_Queue e) \<noteq> []
      then (Some (hd (Q (Local_Queue e))), Some (Local_Queue e))
      else if Q (Shared_Queue (er_cluster e)) \<noteq> [] then (Some (hd (Q (Shared_Queue (er_cluster e)))), Some (Shared_Queue (er_cluster e)))
      else (en_idleThread (sc_engine s e), None))"

definition drop_head :: "queue_ref option \<Rightarrow> (queue_ref \<Rightarrow> nat list) \<Rightarrow> queue_ref \<Rightarrow> nat list" where
  "drop_head q Q = (case q of None \<Rightarrow> Q | Some r \<Rightarrow> Q(r := tl (Q r)))"

lemma reset_simps [simp]:
  "sc_threads (reset_tickets e s) = sc_threads s" "sc_hooks (reset_tickets e s) = sc_hooks s"
  "sc_queues (reset_tickets e s) = sc_queues s" "sc_current (reset_tickets e s) = sc_current s" "sc_local (reset_tickets e s) = sc_local s"
  "en_idleThread (sc_engine (reset_tickets e s) e) = en_idleThread (sc_engine s e)"
  "en_id (sc_engine (reset_tickets e s) e) = en_id (sc_engine s e)"
  "f \<noteq> e \<Longrightarrow> sc_engine (reset_tickets e s) f = sc_engine s f"
  by (auto simp: reset_tickets_def)

lemma take_from_ok:
  assumes "queues_ok Q s"
  shows "case Q q of
      [] \<Rightarrow> take_from q c e s = Inr (None, s)
    | t # ts \<Rightarrow> \<exists>l. take_from q c e s = Inr (Some t, upd_engine e c (set_queue q
          ((sc_queues s q)\<lparr> wq_depth := sz_sub (length (Q q)) 1, wq_threads := l \<rparr>) s)) \<and> flist (sc_hooks s, l) ts"
  using runnable_head [OF assms, of q] by (auto simp: take_from_def set_queue_def split: list.splits)

lemma reschedule_ok:
  assumes ok: "queues_ok Q s" and e: "sc_local s core = Some e" and n: "next_thread Q e s = (Some t, q)"
    and idle: "q = None \<Longrightarrow> th_state (sc_threads s t) \<noteq> Th_Queued" and len: "\<And>r. length (Q r) < size_limit"
  shows "\<exists>s1. DoReschedule core s = Inr s1 \<and> queues_ok (drop_head q Q) s1 \<and>
    sc_threads s1 = (sc_threads s)(t := (sc_threads s t)\<lparr> th_state := Th_Running, th_place := On_Engine (en_id (sc_engine s e)) \<rparr>) \<and>
    sc_current s1 = sc_current s \<and> sc_local s1 = sc_local s \<and> (\<forall>f. f \<noteq> e \<longrightarrow> sc_engine s1 f = sc_engine s f) \<and>
    en_pendingThread (sc_engine s1 e) = Some t \<and> \<not> en_ReschedulePending (sc_engine s1 e) \<and>
    en_idleThread (sc_engine s1 e) = en_idleThread (sc_engine s e) \<and> en_id (sc_engine s1 e) = en_id (sc_engine s e)"
proof -
  let ?s0 = "reset_tickets e s" and ?L = "Local_Queue e" and ?S = "Shared_Queue (er_cluster e)"
  let ?x = "(sc_threads s t)\<lparr> th_state := Th_Running, th_place := On_Engine (en_id (sc_engine s e)) \<rparr>"
  have ok0: "queues_ok Q ?s0" using ok by (simp add: queues_ok_def)
  have le: "LocalEngine core s = Inr e" using e by (simp add: LocalEngine_def)
  note L = take_from_ok [OF ok0, of ?L "\<lambda>x. x\<lparr> en_localTickets := sz_sub (en_localTickets x) 1 \<rparr>" e]
  note S = take_from_ok [OF ok0, of ?S "\<lambda>x. x\<lparr> en_sharedTickets := sz_sub (en_sharedTickets x) 1 \<rparr>" e]
  let ?local = "en_localTickets (sc_engine ?s0 e) > 0"
  have local_none: "(if ?local then take_from ?L (\<lambda>x. x\<lparr> en_localTickets := sz_sub (en_localTickets x) 1 \<rparr>) e ?s0 else Inr (None, ?s0)) = Inr (None, ?s0)"
    if "\<not> (?local \<and> Q ?L \<noteq> [])" using that L by (auto split: list.splits)
  consider (own) ts where "?local" "Q ?L = t # ts" "q = Some ?L"
    | (shared) ts where "\<not> (?local \<and> Q ?L \<noteq> [])" "Q ?S = t # ts" "q = Some ?S"
    | (idle) "\<not> (?local \<and> Q ?L \<noteq> [])" "Q ?S = []" "q = None" "en_idleThread (sc_engine s e) = Some t"
    using n by (cases "Q ?L"; cases "Q ?S") (auto simp: next_thread_def split: if_splits)
  then show ?thesis
  proof cases
    case own
    then obtain l where l: "take_from ?L (\<lambda>x. x\<lparr> en_localTickets := sz_sub (en_localTickets x) 1 \<rparr>) e ?s0 =
        Inr (Some t, upd_engine e (\<lambda>x. x\<lparr> en_localTickets := sz_sub (en_localTickets x) 1 \<rparr>)
          (set_queue ?L ((sc_queues s ?L)\<lparr> wq_depth := sz_sub (length (Q ?L)) 1, wq_threads := l \<rparr>) ?s0))" "flist (sc_hooks s, l) ts"
      using L by auto
    show ?thesis
      using own l le run_queued [OF ok own(2) l(2) len]
      by (simp add: DoReschedule_def Let_def drop_head_def)
  next
    case shared
    then obtain l where l: "take_from ?S (\<lambda>x. x\<lparr> en_sharedTickets := sz_sub (en_sharedTickets x) 1 \<rparr>) e ?s0 =
        Inr (Some t, upd_engine e (\<lambda>x. x\<lparr> en_sharedTickets := sz_sub (en_sharedTickets x) 1 \<rparr>)
          (set_queue ?S ((sc_queues s ?S)\<lparr> wq_depth := sz_sub (length (Q ?S)) 1, wq_threads := l \<rparr>) ?s0))" "flist (sc_hooks s, l) ts"
      using S by auto
    show ?thesis
      using shared l le run_queued [OF ok shared(2) l(2) len] local_none [OF shared(1)]
      by (simp add: DoReschedule_def Let_def drop_head_def)
  next
    case idle': idle
    then have "take_from ?S (\<lambda>x. x\<lparr> en_sharedTickets := sz_sub (en_sharedTickets x) 1 \<rparr>) e ?s0 = Inr (None, ?s0)" using S by simp
    then show ?thesis
      using idle' le local_none [OF idle'(1)]
      by (simp add: DoReschedule_def Let_def drop_head_def) (rule run_unqueued [OF ok idle], simp_all)
  qed
qed

lemma take_from_keeps: "take_from q c e s = Inr (t, s1) \<Longrightarrow> sc_local s1 = sc_local s"
  by (auto simp: take_from_def split: option.splits)

lemma reschedule_keeps: "DoReschedule core s = Inr s1 \<Longrightarrow> sc_local s1 = sc_local s"
  by (auto simp: DoReschedule_def res_bind_Inr Let_def dest!: take_from_keeps split: option.splits if_splits)

subsection \<open>Where the threads are\<close>

definition idle_of :: "scheduler \<Rightarrow> nat \<Rightarrow> bool" where
  "idle_of s t \<longleftrightarrow> (\<exists>e. en_idleThread (sc_engine s e) = Some t)"

definition engines_ok :: "scheduler \<Rightarrow> bool" where
  "engines_ok s \<longleftrightarrow>
     (\<forall>core e. sc_local s core = Some e \<longrightarrow> en_id (sc_engine s e) = core \<and> en_idleThread (sc_engine s e) \<noteq> None) \<and>
     inj (\<lambda>t. th_id (sc_threads s t)) \<and>
     (\<forall>t. idle_of s t \<longrightarrow> th_state (sc_threads s t) = Th_Setup \<or> th_state (sc_threads s t) = Th_Running)"

definition may_run :: "scheduler \<Rightarrow> engine_ref \<Rightarrow> nat \<Rightarrow> bool" where
  "may_run s e t \<longleftrightarrow> th_affinity (sc_threads s t) = NoCoreAffinity \<or> th_affinity (sc_threads s t) = en_id (sc_engine s e)"

definition pending_ok :: "scheduler \<Rightarrow> bool" where
  "pending_ok s \<longleftrightarrow> (\<forall>e t. en_pendingThread (sc_engine s e) = Some t \<longrightarrow>
     en_idleThread (sc_engine s e) = Some t \<or>
     \<not> idle_of s t \<and> th_state (sc_threads s t) = Th_Running \<and> may_run s e t \<and>
       (\<forall>core. sc_current s core \<noteq> Some t) \<and> (\<forall>f. en_pendingThread (sc_engine s f) = Some t \<longrightarrow> f = e))"

definition current_ok :: "scheduler \<Rightarrow> bool" where
  "current_ok s \<longleftrightarrow> (\<forall>core t. sc_current s core = Some t \<longrightarrow>
     (\<exists>e. sc_local s core = Some e \<and>
       (en_idleThread (sc_engine s e) = Some t \<or>
        \<not> idle_of s t \<and> th_state (sc_threads s t) \<noteq> Th_Queued \<and> may_run s e t \<and>
          (\<forall>c. sc_current s c = Some t \<longrightarrow> c = core))))"

text \<open>Every running thread is on a core or about to be.\<close>

definition running_ok :: "scheduler \<Rightarrow> bool" where
  "running_ok s \<longleftrightarrow> (\<forall>t. th_state (sc_threads s t) = Th_Running \<and> \<not> idle_of s t \<longrightarrow>
     (\<exists>core. sc_current s core = Some t) \<or> (\<exists>e. en_pendingThread (sc_engine s e) = Some t))"

definition at_home :: "scheduler \<Rightarrow> queue_ref \<Rightarrow> nat \<Rightarrow> bool" where
  "at_home s q t \<longleftrightarrow>
     (case q of Shared_Queue c \<Rightarrow> th_affinity (sc_threads s t) = NoCoreAffinity
      | Local_Queue e \<Rightarrow> th_affinity (sc_threads s t) = en_id (sc_engine s e))"

definition affinity_ok :: "(queue_ref \<Rightarrow> nat list) \<Rightarrow> scheduler \<Rightarrow> bool" where
  "affinity_ok Q s \<longleftrightarrow> (\<forall>q. \<forall>t \<in> set (Q q). at_home s q t)"

definition sched_inv :: "(queue_ref \<Rightarrow> nat list) \<Rightarrow> scheduler \<Rightarrow> bool" where
  "sched_inv Q s \<longleftrightarrow> queues_ok Q s \<and> engines_ok s \<and> pending_ok s \<and> current_ok s \<and> running_ok s \<and> affinity_ok Q s"

text \<open>What these conditions read of a state.\<close>

lemma sched_cong:
  assumes "\<And>u. th_affinity (sc_threads s1 u) = th_affinity (sc_threads s u)"
    and "\<And>f. en_idleThread (sc_engine s1 f) = en_idleThread (sc_engine s f)" and "\<And>f. en_id (sc_engine s1 f) = en_id (sc_engine s f)"
  shows "idle_of s1 = idle_of s" "may_run s1 = may_run s" "at_home s1 = at_home s"
  using assms by (auto simp: idle_of_def may_run_def at_home_def fun_eq_iff split: queue_ref.split)

text \<open>A thread that is nowhere is put into a queue.\<close>

lemma inv_push:
  assumes inv: "sched_inv Q s" and t: "th_state (sc_threads s t) = Th_Ready" "\<And>c. sc_current s c \<noteq> Some t"
    and q: "at_home s q t"
    and len: "wq_depth (sc_queues s q) + 1 < size_limit"
  shows "\<exists>s1. push_thread t q s = Inr s1 \<and> sched_inv (Q(q := Q q @ [t])) s1"
proof -
  have ok: "queues_ok Q s" and e: "engines_ok s" "pending_ok s" "current_ok s" "running_ok s" "affinity_ok Q s"
    using inv by (simp_all add: sched_inv_def)
  have "length (Q q) + 1 < size_limit" using len ok by (simp add: queues_ok_def)
  moreover have "th_state (sc_threads s t) \<noteq> Th_Queued" using t(1) by simp
  ultimately obtain s1 where s1: "push_thread t q s = Inr s1" "queues_ok (Q(q := Q q @ [t])) s1"
      "sc_threads s1 = (sc_threads s)(t := (sc_threads s t)\<lparr> th_state := Th_Queued, th_place := In_Queue q \<rparr>)"
      "sc_engine s1 = sc_engine s" "sc_current s1 = sc_current s" "sc_local s1 = sc_local s"
    using push_ok [OF ok] by blast
  have ni: "\<not> idle_of s t" using e(1) t(1) by (auto simp: engines_ok_def)
  have same: "th_id (sc_threads s1 u) = th_id (sc_threads s u)" "th_affinity (sc_threads s1 u) = th_affinity (sc_threads s u)"
    "th_state (sc_threads s1 u) = (if u = t then Th_Queued else th_state (sc_threads s u))" for u by (simp_all add: s1(3))
  have i: "idle_of s1 = idle_of s" "may_run s1 = may_run s" "at_home s1 = at_home s" by (rule sched_cong; simp add: s1)+
  have np: "en_pendingThread (sc_engine s f) \<noteq> Some t" for f using e(2) t(1) ni unfolding pending_ok_def idle_of_def by (metis thread_state.distinct)
  have "engines_ok s1" using e(1) ni unfolding engines_ok_def i s1(4,6) same by metis
  moreover have "pending_ok s1" using e(2) np unfolding pending_ok_def i s1(4,5) same by metis
  moreover have "current_ok s1" using e(3) t(2) unfolding current_ok_def i s1(4-6) same by metis
  moreover have "running_ok s1" using e(4) unfolding running_ok_def i s1(4,5) same by (metis thread_state.distinct(19))
  moreover have "affinity_ok (Q(q := Q q @ [t])) s1" using e(5) q unfolding affinity_ok_def i by simp
  ultimately show ?thesis using s1 by (auto simp: sched_inv_def)
qed

text \<open>A queued thread is on no core.\<close>

lemma queued_nowhere:
  assumes "sched_inv Q s" and "th_state (sc_threads s t) = Th_Queued"
  shows "\<not> idle_of s t" "sc_current s c \<noteq> Some t" "en_pendingThread (sc_engine s f) \<noteq> Some t"
proof -
  have i: "engines_ok s" "pending_ok s" "current_ok s" using assms(1) by (simp_all add: sched_inv_def)
  show n: "\<not> idle_of s t" using i(1) assms(2) by (auto simp: engines_ok_def)
  show "sc_current s c \<noteq> Some t" using i(3) n assms(2) unfolding current_ok_def idle_of_def by metis
  show "en_pendingThread (sc_engine s f) \<noteq> Some t" using i(2) n assms(2) unfolding pending_ok_def idle_of_def by (metis thread_state.distinct(19))
qed

lemma next_thread_from:
  assumes "next_thread Q e s = (Some t, q)"
  shows "case q of None \<Rightarrow> en_idleThread (sc_engine s e) = Some t
    | Some r \<Rightarrow> t \<in> set (Q r) \<and> Q r = t # tl (Q r) \<and> (r = Local_Queue e \<or> r = Shared_Queue (er_cluster e))"
  using assms by (auto simp: next_thread_def split: if_splits)

lemma inv_reschedule:
  assumes inv: "sched_inv Q s" and e: "sc_local s core = Some e" and free: "en_pendingThread (sc_engine s e) = None"
    and len: "\<And>r. wq_depth (sc_queues s r) < size_limit"
  shows "\<exists>s1 t q. next_thread Q e s = (Some t, q) \<and> DoReschedule core s = Inr s1 \<and> sched_inv (drop_head q Q) s1 \<and>
    en_pendingThread (sc_engine s1 e) = Some t"
proof -
  have ok: "queues_ok Q s" and i: "engines_ok s" "pending_ok s" "current_ok s" "running_ok s" "affinity_ok Q s"
    using inv by (simp_all add: sched_inv_def)
  have "en_idleThread (sc_engine s e) \<noteq> None" using i(1) e by (simp add: engines_ok_def)
  then have "fst (next_thread Q e s) \<noteq> None" by (simp add: next_thread_def)
  then obtain t q where n: "next_thread Q e s = (Some t, q)" by (cases "next_thread Q e s") auto
  note src = next_thread_from [OF n]
  have idle: "q = None \<Longrightarrow> th_state (sc_threads s t) \<noteq> Th_Queued"
    using src i(1) by (fastforce simp: engines_ok_def idle_of_def)
  have len': "length (Q r) < size_limit" for r using len [of r] ok by (simp add: queues_ok_def)
  obtain s1 where s1: "DoReschedule core s = Inr s1" "queues_ok (drop_head q Q) s1"
      "sc_threads s1 = (sc_threads s)(t := (sc_threads s t)\<lparr> th_state := Th_Running, th_place := On_Engine (en_id (sc_engine s e)) \<rparr>)"
      "sc_current s1 = sc_current s" "sc_local s1 = sc_local s" "\<forall>f. f \<noteq> e \<longrightarrow> sc_engine s1 f = sc_engine s f"
      "en_pendingThread (sc_engine s1 e) = Some t" "en_idleThread (sc_engine s1 e) = en_idleThread (sc_engine s e)"
      "en_id (sc_engine s1 e) = en_id (sc_engine s e)"
    using reschedule_ok [OF ok e n idle len'] by blast
  have ei: "en_idleThread (sc_engine s1 f) = en_idleThread (sc_engine s f)" "en_id (sc_engine s1 f) = en_id (sc_engine s f)"
    "en_pendingThread (sc_engine s1 f) = (if f = e then Some t else en_pendingThread (sc_engine s f))" for f
    using s1(6-9) by (cases "f = e"; simp)+
  have same: "th_id (sc_threads s1 u) = th_id (sc_threads s u)" "th_affinity (sc_threads s1 u) = th_affinity (sc_threads s u)"
    "th_state (sc_threads s1 u) = (if u = t then Th_Running else th_state (sc_threads s u))" for u by (simp_all add: s1(3))
  have eqs: "idle_of s1 = idle_of s" "may_run s1 = may_run s" "at_home s1 = at_home s" by (rule sched_cong; simp add: ei same)+
  have queued: "q = Some r \<Longrightarrow> th_state (sc_threads s t) = Th_Queued" for r using src ok by (auto simp: queues_ok_def)
  have nowhere: "\<not> idle_of s t \<and> (\<forall>c. sc_current s c \<noteq> Some t) \<and> (\<forall>f. en_pendingThread (sc_engine s f) \<noteq> Some t)" if "q \<noteq> None"
    using queued_nowhere [OF inv] queued that by auto
  have may: "may_run s e t" if "q \<noteq> None"
    using that src i(5) by (fastforce simp: affinity_ok_def at_home_def may_run_def)
  have other: "en_idleThread (sc_engine s f) = Some t" if "q = None" "en_pendingThread (sc_engine s f) = Some t" for f
  proof -
    have "idle_of s t" using that(1) src by (auto simp: idle_of_def)
    then show ?thesis using that(2) i(2) unfolding pending_ok_def by blast
  qed
  have "engines_ok s1" using i(1) unfolding engines_ok_def eqs s1(5) ei same by simp
  moreover have "pending_ok s1"
  proof (unfold pending_ok_def eqs s1(4) ei same, intro allI impI)
    fix f u
    assume p: "(if f = e then Some t else en_pendingThread (sc_engine s f)) = Some u"
    show "en_idleThread (sc_engine s f) = Some u \<or> \<not> idle_of s u \<and> (if u = t then Th_Running else th_state (sc_threads s u)) = Th_Running \<and>
        may_run s f u \<and> (\<forall>core. sc_current s core \<noteq> Some u) \<and>
        (\<forall>fa. (if fa = e then Some t else en_pendingThread (sc_engine s fa)) = Some u \<longrightarrow> fa = f)"
    proof (cases "u = t")
      case True
      then show ?thesis using p src nowhere may other by (cases q; cases "f = e") auto
    next
      case False
      then have "en_pendingThread (sc_engine s f) = Some u" "f \<noteq> e" using p by (auto split: if_splits)
      then show ?thesis using i(2) False unfolding pending_ok_def by (smt (verit) option.inject)
    qed
  qed
  moreover have "current_ok s1"
    using i(3) unfolding current_ok_def eqs s1(4,5) ei same by (metis thread_state.distinct(19))
  moreover have "running_ok s1" using i(4) free unfolding running_ok_def eqs s1(4,5) ei same by (metis option.distinct(1))
  moreover have "affinity_ok (drop_head q Q) s1"
    using i(5) unfolding affinity_ok_def eqs by (cases q) (simp_all add: drop_head_def, metis list.sel(2) list.set_sel(2))
  ultimately show ?thesis using s1 n by (auto simp: sched_inv_def)
qed

subsection \<open>Switching\<close>

text \<open>
  The pending thread of an engine becomes the current one of its core. The thread it replaces was queued if it was
  still running.
\<close>

lemma inv_replace:
  assumes inv: "sched_inv Q s" and e: "sc_local s core = Some e" and p: "en_pendingThread (sc_engine s e) = Some p"
    and same: "\<And>u. th_id (sc_threads s1 u) = th_id (sc_threads s u)" "\<And>u. th_affinity (sc_threads s1 u) = th_affinity (sc_threads s u)"
      "\<And>u. th_state (sc_threads s1 u) =
         (if sc_current s core = Some u \<and> th_state (sc_threads s u) = Th_Running \<and> \<not> idle_of s u then Th_Queued else th_state (sc_threads s u))"
    and s1: "sc_engine s1 = (sc_engine s)(e := (sc_engine s e)\<lparr> en_pendingThread := None \<rparr>)"
      "sc_current s1 = (sc_current s)(core := Some p)" "sc_local s1 = sc_local s"
    and ok: "queues_ok R s1" "affinity_ok R s1"
  shows "sched_inv R s1"
proof -
  have i: "engines_ok s" "pending_ok s" "current_ok s" "running_ok s" using inv by (simp_all add: sched_inv_def)
  have ei: "en_idleThread (sc_engine s1 f) = en_idleThread (sc_engine s f)" "en_id (sc_engine s1 f) = en_id (sc_engine s f)"
    "en_pendingThread (sc_engine s1 f) = (if f = e then None else en_pendingThread (sc_engine s f))" for f by (simp_all add: s1)
  have eqs: "idle_of s1 = idle_of s" "may_run s1 = may_run s" by (rule sched_cong; simp add: ei same)+
  have idle: "idle_of s t \<Longrightarrow> th_state (sc_threads s1 t) = th_state (sc_threads s t)" for t by (simp add: same)
  have p': "en_idleThread (sc_engine s e) = Some p \<or> \<not> idle_of s p \<and> th_state (sc_threads s p) = Th_Running \<and> may_run s e p \<and>
      (\<forall>c. sc_current s c \<noteq> Some p) \<and> (\<forall>f. en_pendingThread (sc_engine s f) = Some p \<longrightarrow> f = e)"
    using i(2) p unfolding pending_ok_def by blast
  have "engines_ok s1" using i(1) idle unfolding engines_ok_def eqs s1(3) ei same(1) by simp
  moreover have "pending_ok s1"
  proof (unfold pending_ok_def eqs ei, intro allI impI)
    fix f u
    assume "(if f = e then None else en_pendingThread (sc_engine s f)) = Some u"
    then have f: "f \<noteq> e" "en_pendingThread (sc_engine s f) = Some u" by (simp_all split: if_splits)
    then consider "en_idleThread (sc_engine s f) = Some u"
      | "\<not> idle_of s u" "th_state (sc_threads s u) = Th_Running" "may_run s f u" "\<forall>c. sc_current s c \<noteq> Some u"
        "\<forall>g. en_pendingThread (sc_engine s g) = Some u \<longrightarrow> g = f"
      using i(2) unfolding pending_ok_def by blast
    then show "en_idleThread (sc_engine s f) = Some u \<or> \<not> idle_of s u \<and> th_state (sc_threads s1 u) = Th_Running \<and> may_run s f u \<and>
        (\<forall>core. sc_current s1 core \<noteq> Some u) \<and>
        (\<forall>fa. (if fa = e then None else en_pendingThread (sc_engine s fa)) = Some u \<longrightarrow> fa = f)"
    proof cases
      case 2
      have "u \<noteq> p" using f(1) p 2(5) by metis
      then show ?thesis using 2 by (simp add: same s1)
    qed simp
  qed
  moreover have "current_ok s1"
  proof (unfold current_ok_def eqs ei s1(3), intro allI impI)
    fix c u
    assume c: "sc_current s1 c = Some u"
    show "\<exists>f. sc_local s c = Some f \<and> (en_idleThread (sc_engine s f) = Some u \<or> \<not> idle_of s u \<and>
        th_state (sc_threads s1 u) \<noteq> Th_Queued \<and> may_run s f u \<and> (\<forall>d. sc_current s1 d = Some u \<longrightarrow> d = c))"
    proof (cases "c = core")
      case True
      then have "u = p" using c by (simp add: s1)
      then show ?thesis using True e p' by (auto simp: same s1)
    next
      case False
      then have "sc_current s c = Some u" using c by (simp add: s1)
      then obtain f where "sc_local s c = Some f" "en_idleThread (sc_engine s f) = Some u \<or> \<not> idle_of s u \<and>
          th_state (sc_threads s u) \<noteq> Th_Queued \<and> may_run s f u \<and> (\<forall>d. sc_current s d = Some u \<longrightarrow> d = c)"
        using i(3) unfolding current_ok_def by blast
      moreover have "\<not> idle_of s u \<Longrightarrow> u \<noteq> p" using p' \<open>sc_current s c = Some u\<close> by (auto simp: idle_of_def)
      ultimately show ?thesis using False by (auto simp: same s1)
    qed
  qed
  moreover have "running_ok s1"
  proof (unfold running_ok_def eqs ei, intro allI impI)
    fix u
    assume "th_state (sc_threads s1 u) = Th_Running \<and> \<not> idle_of s u"
    then have u: "th_state (sc_threads s u) = Th_Running" "\<not> idle_of s u" "sc_current s core \<noteq> Some u"
      by (auto simp: same split: if_splits)
    then consider c where "c \<noteq> core" "sc_current s c = Some u" | f where "en_pendingThread (sc_engine s f) = Some u"
      using i(4) unfolding running_ok_def by metis
    then show "(\<exists>c. sc_current s1 c = Some u) \<or> (\<exists>f. (if f = e then None else en_pendingThread (sc_engine s f)) = Some u)"
    proof cases
      case 1
      then show ?thesis by (intro disjI1 exI [of _ c]) (simp add: s1)
    next
      case 2
      then show ?thesis using p by (cases "f = e") (auto simp: s1)
    qed
  qed
  ultimately show ?thesis using ok by (simp add: sched_inv_def)
qed

lemma inv_switch:
  assumes inv: "sched_inv Q s" and e: "sc_local s core = Some e" and p: "en_pendingThread (sc_engine s e) = Some p"
    and len: "\<And>q. wq_depth (sc_queues s q) + 1 < size_limit"
  shows "\<exists>s1 R. DoPendingSwitch core s = Inr s1 \<and> sched_inv R s1 \<and> sc_current s1 core = Some p"
proof -
  have i: "queues_ok Q s" "engines_ok s" "current_ok s" "affinity_ok Q s" using inv by (simp_all add: sched_inv_def)
  have le: "LocalEngine core s = Inr e" using e by (simp add: LocalEngine_def)
  have "en_idleThread (sc_engine s e) \<noteq> None" "en_id (sc_engine s e) = core" using i(2) e by (simp_all add: engines_ok_def)
  then obtain idl where idl: "en_idleThread (sc_engine s e) = Some idl" "en_id (sc_engine s e) = core" by blast
  let ?runs = "\<lambda>c. th_state (sc_threads s c) = Th_Running \<and> \<not> idle_of s c"
  let ?fin = "\<lambda>t. (upd_engine e (\<lambda>x. x\<lparr> en_pendingThread := None \<rparr>) t)\<lparr> sc_current := (sc_current t)(core := Some p) \<rparr>"
  have own: "idle_of s c \<longleftrightarrow> c = idl" "c \<noteq> idl \<Longrightarrow> may_run s e c" if "sc_current s core = Some c" for c
    using i(3) e that idl(1) unfolding current_ok_def idle_of_def by (metis option.inject)+
  have ids: "th_id (sc_threads s c) = th_id (sc_threads s idl) \<longleftrightarrow> c = idl" for c
    using i(2) unfolding engines_ok_def by (meson injD)
  show ?thesis
  proof (cases "\<exists>c. sc_current s core = Some c \<and> ?runs c")
    case False
    then have "DoPendingSwitch core s = Inr (?fin s)"
      using le p idl own ids by (auto simp: DoPendingSwitch_def Let_def split: option.splits)
    moreover have "sched_inv Q (?fin s)"
      using False i by (intro inv_replace [OF inv e p]) (auto simp: queues_ok_def affinity_ok_def at_home_def split: queue_ref.splits)
    ultimately show ?thesis by (intro exI [of _ "?fin s"] exI [of _ Q]) simp
  next
    case True
    then obtain c where c: "sc_current s core = Some c" "?runs c" by blast
    then have "c \<noteq> idl" using own(1) by blast
    define q where "q = (if th_affinity (sc_threads s c) \<noteq> NoCoreAffinity then Local_Queue e else Shared_Queue (er_cluster e))"
    have "length (Q q) + 1 < size_limit" using len [of q] i(1) by (simp add: queues_ok_def)
    then obtain s1 where s1: "push_thread c q s = Inr s1" "queues_ok (Q(q := Q q @ [c])) s1"
        "sc_threads s1 = (sc_threads s)(c := (sc_threads s c)\<lparr> th_state := Th_Queued, th_place := In_Queue q \<rparr>)"
        "sc_engine s1 = sc_engine s" "sc_current s1 = sc_current s" "sc_local s1 = sc_local s"
      using push_ok [OF i(1), of c q] c(2) by auto
    have sw: "DoPendingSwitch core s = Inr (?fin s1)"
      using le p idl own(2) [OF c(1) \<open>c \<noteq> idl\<close>] ids \<open>c \<noteq> idl\<close> c s1(1)
      by (auto simp: DoPendingSwitch_def Let_def may_run_def q_def split: if_splits)
    have "at_home s q c" using own(2) [OF c(1) \<open>c \<noteq> idl\<close>] by (auto simp: at_home_def may_run_def q_def)
    moreover have "at_home (?fin s1) = at_home s" by (rule sched_cong) (simp_all add: s1)
    ultimately have "affinity_ok (Q(q := Q q @ [c])) (?fin s1)" using i(4) by (simp add: affinity_ok_def)
    then have "sched_inv (Q(q := Q q @ [c])) (?fin s1)"
      using c s1 by (intro inv_replace [OF inv e p]) (auto simp: queues_ok_def)
    then show ?thesis using sw by (intro exI [of _ "?fin s1"] exI [of _ "Q(q := Q q @ [c])"]) simp
  qed
qed

subsection \<open>Waking, blocking and ending threads\<close>

text \<open>A thread that is not queued changes to another state in which it is neither queued nor running.\<close>

lemma inv_settle:
  assumes inv: "sched_inv Q s" and t: "\<not> idle_of s t" "th_state (sc_threads s t) \<noteq> Th_Queued" "\<And>f. en_pendingThread (sc_engine s f) \<noteq> Some t"
    and x: "x \<noteq> Th_Queued" "x \<noteq> Th_Running"
    and same: "\<And>u. th_id (sc_threads s1 u) = th_id (sc_threads s u)" "\<And>u. th_affinity (sc_threads s1 u) = th_affinity (sc_threads s u)"
      "\<And>u. th_state (sc_threads s1 u) = (if u = t then x else th_state (sc_threads s u))"
      "\<And>u. u \<noteq> t \<Longrightarrow> th_place (sc_threads s1 u) = th_place (sc_threads s u)"
    and ei: "\<And>f. en_idleThread (sc_engine s1 f) = en_idleThread (sc_engine s f)" "\<And>f. en_id (sc_engine s1 f) = en_id (sc_engine s f)"
      "\<And>f. en_pendingThread (sc_engine s1 f) = en_pendingThread (sc_engine s f)"
    and s1: "sc_current s1 = sc_current s" "sc_local s1 = sc_local s" "sc_hooks s1 = sc_hooks s" "sc_queues s1 = sc_queues s"
  shows "sched_inv Q s1"
proof -
  have ok: "queues_ok Q s" and i: "engines_ok s" "pending_ok s" "current_ok s" "running_ok s" "affinity_ok Q s"
    using inv by (simp_all add: sched_inv_def)
  have eqs: "idle_of s1 = idle_of s" "may_run s1 = may_run s" "at_home s1 = at_home s" by (rule sched_cong; simp add: ei same)+
  have "u \<in> set (Q q) \<Longrightarrow> u \<noteq> t" for u q using ok t(2) by (auto simp: queues_ok_def)
  then have "queues_ok Q s1" using ok x(1) by (auto simp: queues_ok_def s1 same)
  moreover have "engines_ok s1" using i(1) t(1) unfolding engines_ok_def eqs s1(2) ei same(1,3) by metis
  moreover have "pending_ok s1" using i(2) t(3) unfolding pending_ok_def eqs s1(1) ei same(3) by metis
  moreover have "current_ok s1" using i(3) x(1) unfolding current_ok_def eqs s1(1,2) ei same(3) by metis
  moreover have "running_ok s1" using i(4) x(2) unfolding running_ok_def eqs s1(1) ei same(3) by metis
  moreover have "affinity_ok Q s1" using i(5) unfolding affinity_ok_def eqs .
  ultimately show ?thesis by (simp add: sched_inv_def)
qed

lemma not_pending:
  assumes "sched_inv Q s" and "\<not> idle_of s t" and "th_state (sc_threads s t) \<noteq> Th_Running \<or> sc_current s c = Some t"
  shows "en_pendingThread (sc_engine s f) \<noteq> Some t"
proof -
  have "pending_ok s" using assms(1) by (simp add: sched_inv_def)
  then show ?thesis using assms(2,3) unfolding pending_ok_def idle_of_def by metis
qed

lemma find_engine_id: "find_engine a es s = Inr (Some e) \<Longrightarrow> en_id (sc_engine s e) = a"
  by (induction a es s rule: find_engine.induct) (auto split: if_splits)

definition room :: "scheduler \<Rightarrow> bool" where
  "room s \<longleftrightarrow> (\<forall>q. wq_depth (sc_queues s q) + 1 < size_limit)"

lemma inv_enqueue:
  assumes inv: "sched_inv Q s" and t: "\<And>c. sc_current s c \<noteq> Some t" and "room s" and run: "EnqueueThread (Some t) s = Inr s1"
  shows "\<exists>R. sched_inv R s1"
proof (cases "s1 = s \<or> th_state (sc_threads s t) \<noteq> Th_Ready")
  case True
  then show ?thesis using inv run by (auto simp: EnqueueThread_def)
next
  case False
  then obtain q where q: "push_thread t q s = Inr s1" "at_home s q t"
    using run find_engine_id [of "th_affinity (sc_threads s t)" "sc_engines s" s]
    by (auto simp: EnqueueThread_def res_bind_Inr at_home_def split: option.splits if_splits)
  then show ?thesis using inv_push [OF inv _ t q(2)] False \<open>room s\<close> by (auto simp: room_def)
qed

lemma inv_start:
  assumes inv: "sched_inv Q s" and t: "\<not> idle_of s t" "\<And>c. sc_current s c \<noteq> Some t" and "room s" and run: "thread_Start setArg t arg s = Inr s1"
  shows "\<exists>R. sched_inv R s1"
proof (cases "th_state (sc_threads s t) = Th_Setup")
  case True
  let ?s = "upd_thread t (\<lambda>x. x\<lparr> th_state := Th_Ready \<rparr>) s"
  have "EnqueueThread (Some t) ?s = Inr s1" using run True by (auto simp: thread_Start_def Let_def res_bind_Inr)
  moreover have "sched_inv Q ?s"
    using not_pending [OF inv t(1)] True by (intro inv_settle [OF inv t(1), where x = Th_Ready]) simp_all
  moreover have "room ?s" "\<And>c. sc_current ?s c \<noteq> Some t" using \<open>room s\<close> t(2) by (simp_all add: room_def)
  ultimately show ?thesis using inv_enqueue by blast
next
  case False
  then show ?thesis using inv run by (auto simp: thread_Start_def)
qed

lemma inv_request:
  assumes "sched_inv Q s" and "QueueReschedule core s = Inr s1"
  shows "sched_inv Q s1" "sc_threads s1 = sc_threads s" "sc_current s1 = sc_current s" "idle_of s1 = idle_of s"
    "en_pendingThread (sc_engine s1 f) = en_pendingThread (sc_engine s f)"
proof -
  from assms(2) obtain e where s1: "s1 = s \<or>
      s1 = (upd_engine e (\<lambda>x. x\<lparr> en_ReschedulePending := True \<rparr>) s)\<lparr> sc_dpcs := sc_dpcs s @ [core] \<rparr>"
    by (auto simp: QueueReschedule_def res_bind_Inr split: if_splits)
  then have ei: "en_idleThread (sc_engine s1 f) = en_idleThread (sc_engine s f)" "en_id (sc_engine s1 f) = en_id (sc_engine s f)"
      "en_pendingThread (sc_engine s1 f) = en_pendingThread (sc_engine s f)" for f by auto
  have st: "sc_threads s1 = sc_threads s" "sc_current s1 = sc_current s" "sc_local s1 = sc_local s" "sc_hooks s1 = sc_hooks s"
      "sc_queues s1 = sc_queues s" using s1 by auto
  then have eqs: "idle_of s1 = idle_of s" "may_run s1 = may_run s" "at_home s1 = at_home s" by (intro sched_cong; simp add: ei)+
  show "sched_inv Q s1"
    using assms(1) unfolding sched_inv_def queues_ok_def engines_ok_def pending_ok_def current_ok_def running_ok_def affinity_ok_def eqs st ei .
  show "sc_threads s1 = sc_threads s" "sc_current s1 = sc_current s" "idle_of s1 = idle_of s"
    "en_pendingThread (sc_engine s1 f) = en_pendingThread (sc_engine s f)" using st eqs ei by simp_all
qed

lemma inv_block:
  assumes inv: "sched_inv Q s" and c: "sc_current s core = Some t" "\<not> idle_of s t" and run: "DequeueThread core (Some t) s = Inr s1"
  shows "sched_inv Q s1 \<and> th_state (sc_threads s1 t) \<noteq> Th_Queued \<and> \<not> idle_of s1 t \<and> (\<forall>f. en_pendingThread (sc_engine s1 f) \<noteq> Some t)"
proof -
  have "current_ok s" using inv by (simp add: sched_inv_def)
  then have nq: "th_state (sc_threads s t) \<noteq> Th_Queued" using c unfolding current_ok_def idle_of_def by metis
  have np: "en_pendingThread (sc_engine s f) \<noteq> Some t" for f using not_pending [OF inv c(2)] c(1) by blast
  show ?thesis
  proof (cases "th_state (sc_threads s t) = Th_Running")
    case False
    then have "s1 = s" using run nq by (simp add: DequeueThread_def Let_def)
    then show ?thesis using inv nq np c by simp
  next
    case True
    let ?s = "upd_thread t (\<lambda>x. x\<lparr> th_state := Th_Ready \<rparr>) s"
    have i0: "sched_inv Q ?s" using nq np by (intro inv_settle [OF inv c(2), where x = Th_Ready]) simp_all
    have id0: "idle_of ?s = idle_of s" by (rule sched_cong; simp)
    from run True c(1) obtain eid where "QueueReschedule core ?s = Inr s1 \<or> s1 = ?s\<lparr> sc_mail := sc_mail ?s @ [(eid, t)] \<rparr>"
      by (cases "th_place (sc_threads s t)") (auto simp: DequeueThread_def Let_def res_bind_Inr split: if_splits)
    then show ?thesis
    proof
      assume q: "QueueReschedule core ?s = Inr s1"
      show ?thesis using inv_request [OF i0 q] np c(2) id0 by simp
    next
      assume s1: "s1 = ?s\<lparr> sc_mail := sc_mail ?s @ [(eid, t)] \<rparr>"
      have "sched_inv Q s1" using nq np by (intro inv_settle [OF inv c(2), where x = Th_Ready]) (simp_all add: s1)
      moreover have "idle_of s1 = idle_of s" by (rule sched_cong; simp add: s1)
      ultimately show ?thesis using np c(2) by (simp add: s1)
    qed
  qed
qed

lemma inv_exit:
  assumes inv: "sched_inv Q s" and c: "sc_current s core = Some t" "\<not> idle_of s t" and run: "thread_Exit core t s = Inr s1"
  shows "sched_inv Q s1"
proof -
  from run c(1) obtain s2 where s2: "DequeueThread core (Some t) s = Inr s2"
      "QueueReschedule core (upd_thread t (\<lambda>x. x\<lparr> th_state := Th_Dead \<rparr>) s2) = Inr s1"
    by (auto simp: thread_Exit_def res_bind_Inr Let_def)
  have b: "sched_inv Q s2" "\<not> idle_of s2 t" "th_state (sc_threads s2 t) \<noteq> Th_Queued" "\<And>f. en_pendingThread (sc_engine s2 f) \<noteq> Some t"
    using inv_block [OF inv c s2(1)] by blast+
  have "sched_inv Q (upd_thread t (\<lambda>x. x\<lparr> th_state := Th_Dead \<rparr>) s2)"
    by (rule inv_settle [OF b, where x = Th_Dead]) simp_all
  then show ?thesis using inv_request(1) s2(2) by blast
qed

subsection \<open>The scheduler at work\<close>

text \<open>
  One operation at a time, in any order and on any core. \<open>Op_Reschedule\<close> is the deferred call that a request queues,
  \<open>Op_Switch\<close> what lowering the run level does when a switch is pending.
\<close>

datatype sched_op =
    Op_Enqueue nat
  | Op_Start nat "size_t option"
  | Op_Reschedule size_t
  | Op_Switch size_t
  | Op_Dequeue size_t nat
  | Op_Exit size_t nat
  | Op_Request size_t

fun sched_do :: "(nat \<Rightarrow> size_t \<Rightarrow> unit res) \<Rightarrow> sched_op \<Rightarrow> scheduler \<Rightarrow> scheduler res" where
  "sched_do setArg (Op_Enqueue t) s = EnqueueThread (Some t) s"
| "sched_do setArg (Op_Start t arg) s = thread_Start setArg t arg s"
| "sched_do setArg (Op_Reschedule core) s = DoReschedule core s"
| "sched_do setArg (Op_Switch core) s = DoPendingSwitch core s"
| "sched_do setArg (Op_Dequeue core t) s = DequeueThread core (Some t) s"
| "sched_do setArg (Op_Exit core t) s = thread_Exit core t s"
| "sched_do setArg (Op_Request core) s = QueueReschedule core s"

inductive sched_step :: "scheduler \<Rightarrow> sched_op \<Rightarrow> scheduler \<Rightarrow> bool" where
  step_do: "sched_do setArg oper s = Inr s1 \<Longrightarrow> sched_step s oper s1"

text \<open>
  What is asked of the callers in \<open>any_caller\<close>: they do not enqueue or start the idle threads, which belong to the scheduler, and do not take a
  thread back that waits in a queue (which would rest on removing from the middle of a list). \<open>careful_caller\<close> asks for more, which the
  code does not enforce: a thread is made ready for running only after the core it ran on has switched away from it, an
  engine is rescheduled only when its last choice has been switched to, and threads block and end by themselves.
\<close>

fun any_caller :: "sched_op \<Rightarrow> scheduler \<Rightarrow> bool" where
  "any_caller (Op_Enqueue t) s = (\<not> idle_of s t)"
| "any_caller (Op_Start t arg) s = (\<not> idle_of s t)"
| "any_caller (Op_Dequeue core t) s = (th_state (sc_threads s t) \<noteq> Th_Queued)"
| "any_caller (Op_Exit core t) s = (th_state (sc_threads s t) \<noteq> Th_Queued)"
| "any_caller oper s = True"

fun careful_caller :: "sched_op \<Rightarrow> scheduler \<Rightarrow> bool" where
  "careful_caller (Op_Enqueue t) s = (\<forall>c. sc_current s c \<noteq> Some t)"
| "careful_caller (Op_Start t arg) s = (\<not> idle_of s t \<and> (\<forall>c. sc_current s c \<noteq> Some t))"
| "careful_caller (Op_Reschedule core) s = (\<exists>e. sc_local s core = Some e \<and> en_pendingThread (sc_engine s e) = None)"
| "careful_caller (Op_Dequeue core t) s = (sc_current s core = Some t \<and> \<not> idle_of s t)"
| "careful_caller (Op_Exit core t) s = (sc_current s core = Some t \<and> \<not> idle_of s t)"
| "careful_caller oper s = True"

text \<open>Engines are set up and nothing runs or waits.\<close>

definition sched_fresh :: "scheduler \<Rightarrow> bool" where
  "sched_fresh s \<longleftrightarrow> engines_ok s \<and> (\<forall>q. sc_queues s q = empty_queue) \<and> (\<forall>c. sc_current s c = None) \<and>
     (\<forall>e. en_pendingThread (sc_engine s e) = None) \<and>
     (\<forall>t. \<not> idle_of s t \<longrightarrow> th_state (sc_threads s t) \<noteq> Th_Queued \<and> th_state (sc_threads s t) \<noteq> Th_Running)"

text \<open>The states reached when the callers are careful, and with any callers.\<close>

inductive sched_reach :: "scheduler \<Rightarrow> bool" where
  reach_fresh: "sched_fresh s \<Longrightarrow> sched_reach s"
| reach_step: "\<lbrakk> sched_reach s; careful_caller oper s; room s; sched_step s oper s1 \<rbrakk> \<Longrightarrow> sched_reach s1"

inductive sched_any :: "scheduler \<Rightarrow> bool" where
  any_fresh: "sched_fresh s \<Longrightarrow> sched_any s"
| any_step: "\<lbrakk> sched_any s; any_caller oper s; room s; sched_step s oper s1 \<rbrakk> \<Longrightarrow> sched_any s1"

lemma fresh_inv: "sched_fresh s \<Longrightarrow> sched_inv (\<lambda>_. []) s"
  unfolding sched_inv_def queues_ok_def pending_ok_def current_ok_def running_ok_def affinity_ok_def sched_fresh_def
  by (auto simp: empty_queue_def flist_new engines_ok_def)

lemma step_inv:
  assumes "sched_step s oper s1" and "careful_caller oper s" and "room s" and inv: "sched_inv Q s"
  shows "\<exists>R. sched_inv R s1"
proof -
  obtain setArg where run: "sched_do setArg oper s = Inr s1" using assms(1) by cases
  show ?thesis
  proof (cases oper)
    case (Op_Enqueue t)
    then have "EnqueueThread (Some t) s = Inr s1" "\<And>c. sc_current s c \<noteq> Some t" using run assms(2) by simp_all
    then show ?thesis using inv_enqueue [OF inv _ assms(3)] by blast
  next
    case (Op_Start t arg)
    then have "thread_Start setArg t arg s = Inr s1" "\<not> idle_of s t" "\<And>c. sc_current s c \<noteq> Some t" using run assms(2) by simp_all
    then show ?thesis using inv_start [OF inv _ _ assms(3)] by blast
  next
    case (Op_Reschedule core)
    then obtain e where e: "sc_local s core = Some e" "en_pendingThread (sc_engine s e) = None" using assms(2) by auto
    have "wq_depth (sc_queues s r) < size_limit" for r using assms(3) unfolding room_def by (metis add_lessD1)
    then show ?thesis using inv_reschedule [OF inv e] run Op_Reschedule by fastforce
  next
    case (Op_Switch core)
    then obtain e p where "sc_local s core = Some e" "en_pendingThread (sc_engine s e) = Some p"
      using run by (auto simp: DoPendingSwitch_def LocalEngine_def res_bind_Inr split: option.splits)
    then show ?thesis using inv_switch [OF inv] run assms(3) Op_Switch by (fastforce simp: room_def)
  next
    case (Op_Dequeue core t)
    then show ?thesis using inv_block [OF inv, of core t] run assms(2) by auto
  next
    case (Op_Exit core t)
    then show ?thesis using inv_exit [OF inv, of core t] run assms(2) by auto
  next
    case (Op_Request core)
    then show ?thesis using inv_request(1) [OF inv] run by auto
  qed
qed

lemma sched_reach_inv: "sched_reach s \<Longrightarrow> \<exists>Q. sched_inv Q s"
  by (induction rule: sched_reach.induct) (use fresh_inv step_inv in blast)+

subsection \<open>The queues, whatever the callers do\<close>

text \<open>Without careful callers a thread may be on a core and in a queue at once; the queues themselves stay intact.\<close>

definition queue_inv :: "(queue_ref \<Rightarrow> nat list) \<Rightarrow> scheduler \<Rightarrow> bool" where
  "queue_inv Q s \<longleftrightarrow> queues_ok Q s \<and> affinity_ok Q s \<and>
     (\<forall>core e. sc_local s core = Some e \<longrightarrow> en_id (sc_engine s e) = core \<and> en_idleThread (sc_engine s e) \<noteq> None) \<and>
     (\<forall>t. idle_of s t \<longrightarrow> th_state (sc_threads s t) \<noteq> Th_Queued) \<and> inj (\<lambda>t. th_id (sc_threads s t)) \<and>
     (\<forall>e t. en_pendingThread (sc_engine s e) = Some t \<and> idle_of s t \<longrightarrow> en_idleThread (sc_engine s e) = Some t) \<and>
     (\<forall>core t. sc_current s core = Some t \<and> idle_of s t \<longrightarrow>
        (\<exists>e. sc_local s core = Some e \<and> en_idleThread (sc_engine s e) = Some t))"

lemma fresh_queues: "sched_fresh s \<Longrightarrow> queue_inv (\<lambda>_. []) s"
  by (auto simp: sched_fresh_def queue_inv_def queues_ok_def affinity_ok_def engines_ok_def empty_queue_def flist_new)

text \<open>A change that leaves the queues and the engines alone, apart from the thread that an engine has chosen.\<close>

lemma queue_inv_same:
  assumes inv: "queue_inv Q s" and q: "queues_ok Q s1"
    and same: "\<And>u. th_id (sc_threads s1 u) = th_id (sc_threads s u)" "\<And>u. th_affinity (sc_threads s1 u) = th_affinity (sc_threads s u)"
      "\<And>u. th_state (sc_threads s1 u) = Th_Queued \<Longrightarrow> th_state (sc_threads s u) = Th_Queued"
    and ei: "\<And>f. en_idleThread (sc_engine s1 f) = en_idleThread (sc_engine s f)" "\<And>f. en_id (sc_engine s1 f) = en_id (sc_engine s f)"
      "\<And>f t. en_pendingThread (sc_engine s1 f) = Some t \<Longrightarrow> en_pendingThread (sc_engine s f) = Some t \<or> en_idleThread (sc_engine s f) = Some t \<or> \<not> idle_of s t"
    and c: "\<And>core t. sc_current s1 core = Some t \<Longrightarrow> sc_current s core = Some t \<or>
      (\<exists>e. sc_local s core = Some e \<and> en_pendingThread (sc_engine s e) = Some t)" "sc_local s1 = sc_local s"
  shows "queue_inv Q s1"
proof -
  have eqs: "idle_of s1 = idle_of s" "at_home s1 = at_home s" by (rule sched_cong; simp add: ei same)+
  have "en_idleThread (sc_engine s1 e) = Some t" if "en_pendingThread (sc_engine s1 e) = Some t" "idle_of s1 t" for e t
    using ei(3) [OF that(1)] that(2) inv by (auto simp: queue_inv_def eqs ei(1))
  moreover have "\<exists>e. sc_local s1 core = Some e \<and> en_idleThread (sc_engine s1 e) = Some t" if "sc_current s1 core = Some t" "idle_of s1 t" for core t
    using c(1) [OF that(1)] that(2) inv unfolding queue_inv_def eqs c(2) ei(1) by metis
  moreover have "affinity_ok Q s1" using inv by (simp add: queue_inv_def affinity_ok_def eqs)
  ultimately show ?thesis using inv q same(3) unfolding queue_inv_def eqs(1) ei(1,2) same(1) c(2) by blast
qed

lemma queue_settle:
  assumes "queue_inv Q s" and "th_state (sc_threads s t) \<noteq> Th_Queued" and "x \<noteq> Th_Queued"
  shows "queue_inv Q (upd_thread t (\<lambda>y. y\<lparr> th_state := x \<rparr>) s)"
proof -
  have "queues_ok Q (upd_thread t (\<lambda>y. y\<lparr> th_state := x \<rparr>) s)"
    using assms run_unqueued [of Q s t "(sc_threads s t)\<lparr> th_state := x \<rparr>"] by (simp add: queue_inv_def)
  then show ?thesis using assms by (intro queue_inv_same [OF assms(1)]) (auto split: if_splits)
qed

lemma queue_push:
  assumes inv: "queue_inv Q s" and t: "th_state (sc_threads s t) \<noteq> Th_Queued" "\<not> idle_of s t" "at_home s q t"
    and len: "wq_depth (sc_queues s q) + 1 < size_limit"
  shows "\<exists>s1. push_thread t q s = Inr s1 \<and> queue_inv (Q(q := Q q @ [t])) s1 \<and>
    sc_engine s1 = sc_engine s \<and> sc_current s1 = sc_current s \<and> sc_local s1 = sc_local s"
proof -
  have ok: "queues_ok Q s" using inv by (simp add: queue_inv_def)
  have "length (Q q) + 1 < size_limit" using len ok by (simp add: queues_ok_def)
  then obtain s1 where s1: "push_thread t q s = Inr s1" "queues_ok (Q(q := Q q @ [t])) s1"
      "sc_threads s1 = (sc_threads s)(t := (sc_threads s t)\<lparr> th_state := Th_Queued, th_place := In_Queue q \<rparr>)"
      "sc_engine s1 = sc_engine s" "sc_current s1 = sc_current s" "sc_local s1 = sc_local s"
    using push_ok [OF ok t(1)] by blast
  have same: "th_id (sc_threads s1 u) = th_id (sc_threads s u)" for u by (simp add: s1(3))
  have eqs: "idle_of s1 = idle_of s" "at_home s1 = at_home s" by (rule sched_cong; simp add: s1)+
  have "affinity_ok (Q(q := Q q @ [t])) s1" using inv t(3) by (auto simp: queue_inv_def affinity_ok_def eqs)
  moreover have "\<forall>u. idle_of s u \<longrightarrow> th_state (sc_threads s1 u) \<noteq> Th_Queued" using inv t(2) by (auto simp: queue_inv_def s1(3))
  ultimately have "queue_inv (Q(q := Q q @ [t])) s1" using inv s1(2) unfolding queue_inv_def eqs s1(4-6) same by blast
  with s1 show ?thesis by blast
qed

lemma queue_enqueue:
  assumes inv: "queue_inv Q s" and t: "\<not> idle_of s t" and "room s" and run: "EnqueueThread (Some t) s = Inr s1"
  shows "\<exists>R. queue_inv R s1"
proof (cases "s1 = s \<or> th_state (sc_threads s t) \<noteq> Th_Ready")
  case True
  then show ?thesis using inv run by (auto simp: EnqueueThread_def)
next
  case False
  then obtain q where q: "push_thread t q s = Inr s1" "at_home s q t"
    using run find_engine_id [of "th_affinity (sc_threads s t)" "sc_engines s" s]
    by (auto simp: EnqueueThread_def res_bind_Inr at_home_def split: option.splits if_splits)
  then show ?thesis using queue_push [OF inv _ t q(2)] False \<open>room s\<close> by (auto simp: room_def)
qed

lemma queue_start:
  assumes inv: "queue_inv Q s" and t: "\<not> idle_of s t" and "room s" and run: "thread_Start setArg t arg s = Inr s1"
  shows "\<exists>R. queue_inv R s1"
proof (cases "th_state (sc_threads s t) = Th_Setup")
  case True
  let ?s = "upd_thread t (\<lambda>x. x\<lparr> th_state := Th_Ready \<rparr>) s"
  have "EnqueueThread (Some t) ?s = Inr s1" using run True by (auto simp: thread_Start_def Let_def res_bind_Inr)
  moreover have "queue_inv Q ?s" using queue_settle [OF inv] True by simp
  moreover have "room ?s" using \<open>room s\<close> by (simp add: room_def)
  moreover have "idle_of ?s = idle_of s" by (rule sched_cong; simp)
  ultimately show ?thesis using queue_enqueue t by metis
next
  case False
  then show ?thesis using inv run by (auto simp: thread_Start_def)
qed

lemma queue_request:
  assumes inv: "queue_inv Q s" and run: "QueueReschedule core s = Inr s1"
  shows "queue_inv Q s1"
proof -
  from run obtain e where s1: "s1 = s \<or>
      s1 = (upd_engine e (\<lambda>x. x\<lparr> en_ReschedulePending := True \<rparr>) s)\<lparr> sc_dpcs := sc_dpcs s @ [core] \<rparr>"
    by (auto simp: QueueReschedule_def res_bind_Inr split: if_splits)
  have "queues_ok Q s1" using inv s1 by (auto simp: queue_inv_def queues_ok_def)
  then show ?thesis by (rule queue_inv_same [OF inv]) (use s1 in \<open>auto split: if_splits\<close>)
qed

lemma queue_dequeue:
  assumes inv: "queue_inv Q s" and t: "th_state (sc_threads s t) \<noteq> Th_Queued" and run: "DequeueThread core (Some t) s = Inr s1"
  shows "queue_inv Q s1 \<and> th_state (sc_threads s1 t) \<noteq> Th_Queued"
proof (cases "th_state (sc_threads s t) = Th_Running")
  case False
  then have "s1 = s" using run t by (simp add: DequeueThread_def Let_def)
  then show ?thesis using inv t by simp
next
  case True
  let ?s = "upd_thread t (\<lambda>x. x\<lparr> th_state := Th_Ready \<rparr>) s"
  have i0: "queue_inv Q ?s" using queue_settle [OF inv t] by simp
  from run True obtain e eid where "QueueReschedule core ?s = Inr s1 \<or> s1 = upd_engine e (\<lambda>x. x\<lparr> en_pendingThread := None \<rparr>) ?s \<or>
      s1 = ?s\<lparr> sc_mail := sc_mail ?s @ [(eid, t)] \<rparr>"
    by (cases "th_place (sc_threads s t)") (auto simp: DequeueThread_def Let_def res_bind_Inr split: if_splits)
  then show ?thesis
  proof (elim disjE)
    assume q: "QueueReschedule core ?s = Inr s1"
    then have "sc_threads s1 = sc_threads ?s" by (auto simp: QueueReschedule_def res_bind_Inr split: if_splits)
    then show ?thesis using queue_request [OF i0 q] by simp
  next
    assume s1: "s1 = upd_engine e (\<lambda>x. x\<lparr> en_pendingThread := None \<rparr>) ?s"
    have "queues_ok Q s1" using i0 by (simp add: queue_inv_def queues_ok_def s1)
    then have "queue_inv Q s1" by (rule queue_inv_same [OF i0]) (auto simp: s1 split: if_splits)
    then show ?thesis by (simp add: s1)
  next
    assume s1: "s1 = ?s\<lparr> sc_mail := sc_mail ?s @ [(eid, t)] \<rparr>"
    have "queues_ok Q s1" using i0 by (simp add: queue_inv_def queues_ok_def s1)
    then have "queue_inv Q s1" by (rule queue_inv_same [OF i0]) (auto simp: s1 split: if_splits)
    then show ?thesis by (simp add: s1)
  qed
qed

lemma queue_exit:
  assumes inv: "queue_inv Q s" and t: "th_state (sc_threads s t) \<noteq> Th_Queued" and run: "thread_Exit core t s = Inr s1"
  shows "queue_inv Q s1"
proof -
  from run obtain s2 where s2: "DequeueThread core (Some t) s = Inr s2"
      "QueueReschedule core (upd_thread t (\<lambda>x. x\<lparr> th_state := Th_Dead \<rparr>) s2) = Inr s1 \<or> s1 = upd_thread t (\<lambda>x. x\<lparr> th_state := Th_Dead \<rparr>) s2"
    by (auto simp: thread_Exit_def res_bind_Inr Let_def split: if_splits)
  have "queue_inv Q (upd_thread t (\<lambda>x. x\<lparr> th_state := Th_Dead \<rparr>) s2)"
    using queue_dequeue [OF inv t s2(1)] by (intro queue_settle) simp_all
  then show ?thesis using queue_request s2(2) by blast
qed

lemma queue_reschedule:
  assumes inv: "queue_inv Q s" and e: "sc_local s core = Some e" and "room s"
  shows "\<exists>s1 R. DoReschedule core s = Inr s1 \<and> queue_inv R s1"
proof -
  have ok: "queues_ok Q s" using inv by (simp add: queue_inv_def)
  have "en_idleThread (sc_engine s e) \<noteq> None" using inv e by (auto simp: queue_inv_def)
  then have "fst (next_thread Q e s) \<noteq> None" by (simp add: next_thread_def)
  then obtain t q where n: "next_thread Q e s = (Some t, q)" by (cases "next_thread Q e s") auto
  note src = next_thread_from [OF n]
  have idle: "th_state (sc_threads s t) \<noteq> Th_Queued" if "q = None"
  proof -
    have "idle_of s t" using src that by (auto simp: idle_of_def)
    then show ?thesis using inv unfolding queue_inv_def by blast
  qed
  have len: "length (Q r) < size_limit" for r
  proof -
    have "wq_depth (sc_queues s r) + 1 < size_limit" using \<open>room s\<close> by (simp add: room_def)
    then show ?thesis using ok by (simp add: queues_ok_def)
  qed
  obtain s1 where s1: "DoReschedule core s = Inr s1" "queues_ok (drop_head q Q) s1"
      "sc_threads s1 = (sc_threads s)(t := (sc_threads s t)\<lparr> th_state := Th_Running, th_place := On_Engine (en_id (sc_engine s e)) \<rparr>)"
      "sc_current s1 = sc_current s" "sc_local s1 = sc_local s" "\<forall>f. f \<noteq> e \<longrightarrow> sc_engine s1 f = sc_engine s f"
      "en_pendingThread (sc_engine s1 e) = Some t" "en_idleThread (sc_engine s1 e) = en_idleThread (sc_engine s e)"
      "en_id (sc_engine s1 e) = en_id (sc_engine s e)"
    using reschedule_ok [OF ok e n idle len] by blast
  have ei: "en_idleThread (sc_engine s1 f) = en_idleThread (sc_engine s f)" "en_id (sc_engine s1 f) = en_id (sc_engine s f)"
    "en_pendingThread (sc_engine s1 f) = (if f = e then Some t else en_pendingThread (sc_engine s f))" for f
    using s1(6-9) by (cases "f = e"; simp)+
  have eqs: "idle_of s1 = idle_of s" "at_home s1 = at_home s" by (rule sched_cong; simp add: s1 ei)+
  have t: "en_idleThread (sc_engine s e) = Some t \<or> \<not> idle_of s t"
    using src inv ok by (cases q) (auto simp: queue_inv_def queues_ok_def)
  have sub: "set (drop_head q Q r) \<subseteq> set (Q r)" for r by (cases q; cases "Q r") (auto simp: drop_head_def)
  then have "affinity_ok (drop_head q Q) s1" using inv by (auto simp: queue_inv_def affinity_ok_def eqs)
  moreover have "th_state (sc_threads s1 u) \<noteq> Th_Queued" if "idle_of s u" for u using inv that by (auto simp: queue_inv_def s1(3))
  moreover have "inj (\<lambda>u. th_id (sc_threads s1 u))"
  proof -
    have "th_id (sc_threads s1 u) = th_id (sc_threads s u)" for u by (simp add: s1(3))
    then show ?thesis using inv by (simp add: queue_inv_def)
  qed
  moreover have "en_idleThread (sc_engine s f) = Some u" if "en_pendingThread (sc_engine s1 f) = Some u" "idle_of s u" for f u
    using that t inv by (auto simp: queue_inv_def ei(3) split: if_splits)
  ultimately have "queue_inv (drop_head q Q) s1" using inv s1(2) unfolding queue_inv_def eqs(1) ei(1,2) s1(4,5) by blast
  with s1(1) show ?thesis by blast
qed

lemma queue_switch:
  assumes inv: "queue_inv Q s" and "room s" and run: "DoPendingSwitch core s = Inr s1"
  shows "\<exists>R. queue_inv R s1"
proof -
  from run obtain e p where e: "sc_local s core = Some e" and p: "en_pendingThread (sc_engine s e) = Some p"
    by (auto simp: DoPendingSwitch_def LocalEngine_def res_bind_Inr split: option.splits)
  let ?fin = "\<lambda>t. (upd_engine e (\<lambda>x. x\<lparr> en_pendingThread := None \<rparr>) t)\<lparr> sc_current := (sc_current t)(core := Some p) \<rparr>"
  have fin: "queue_inv R (?fin s2)" if i2: "queue_inv R s2" and same: "sc_engine s2 = sc_engine s" "sc_local s2 = sc_local s" for R s2
  proof -
    have "queues_ok R (?fin s2)" using i2 by (simp add: queue_inv_def queues_ok_def)
    then show ?thesis by (rule queue_inv_same [OF i2]) (use e p same in \<open>auto split: if_splits\<close>)
  qed
  have cid: "en_id (sc_engine s e) = core" using inv e by (auto simp: queue_inv_def)
  define body where "body = (case sc_current s core of None \<Rightarrow> Inr s
      | Some c \<Rightarrow> (case en_idleThread (sc_engine s e) of None \<Rightarrow> Inl Null_Deref
          | Some idl \<Rightarrow> if th_id (sc_threads s c) \<noteq> th_id (sc_threads s idl) \<and> th_state (sc_threads s c) = Th_Running
              then if th_affinity (sc_threads s c) \<noteq> NoCoreAffinity
                   then if th_affinity (sc_threads s c) = core then push_thread c (Local_Queue e) s else Inl Assert_Failed
                   else push_thread c (Shared_Queue (er_cluster e)) s
              else Inr s))"
  have "res_bind body (\<lambda>s2. Inr (?fin s2)) = Inr s1"
    using run unfolding DoPendingSwitch_def LocalEngine_def e body_def by (simp only: option.case res_bind_simps p Let_def)
  then obtain s2 where s2: "s1 = ?fin s2" "body = Inr s2" by (cases body) auto
  show ?thesis
  proof (cases "s2 = s")
    case True
    then show ?thesis using fin [OF inv] s2(1) by blast
  next
    case False
    then obtain c idl where c: "sc_current s core = Some c" "en_idleThread (sc_engine s e) = Some idl"
        "th_id (sc_threads s c) \<noteq> th_id (sc_threads s idl)" "th_state (sc_threads s c) = Th_Running"
      using s2(2) by (auto simp: body_def split: option.splits if_splits)
    define q where "q = (if th_affinity (sc_threads s c) \<noteq> NoCoreAffinity then Local_Queue e else Shared_Queue (er_cluster e))"
    have q: "at_home s q c" "push_thread c q s = Inr s2"
      using s2(2) c cid by (auto simp: body_def q_def at_home_def split: if_splits)
    have "\<not> idle_of s c" using inv c(1-3) e unfolding queue_inv_def by (metis option.inject)
    then obtain s3 where "push_thread c q s = Inr s3" "queue_inv (Q(q := Q q @ [c])) s3" "sc_engine s3 = sc_engine s" "sc_local s3 = sc_local s"
      using queue_push [OF inv _ _ q(1)] c(4) \<open>room s\<close> by (auto simp: room_def)
    then show ?thesis using fin q(2) s2(1) by auto
  qed
qed

lemma queue_step:
  assumes "sched_step s oper s1" and "any_caller oper s" and "room s" and inv: "queue_inv Q s"
  shows "\<exists>R. queue_inv R s1"
proof -
  obtain setArg where run: "sched_do setArg oper s = Inr s1" using assms(1) by cases
  show ?thesis
  proof (cases oper)
    case (Op_Enqueue t)
    then show ?thesis using queue_enqueue [OF inv _ assms(3)] run assms(2) by simp
  next
    case (Op_Start t arg)
    then show ?thesis using queue_start [OF inv _ assms(3)] run assms(2) by simp
  next
    case (Op_Reschedule core)
    then obtain e where "sc_local s core = Some e" using run by (auto simp: DoReschedule_def LocalEngine_def res_bind_Inr split: option.splits)
    then show ?thesis using queue_reschedule [OF inv _ assms(3)] run Op_Reschedule by fastforce
  next
    case (Op_Switch core)
    then show ?thesis using queue_switch [OF inv assms(3)] run by simp
  next
    case (Op_Dequeue core t)
    then show ?thesis using queue_dequeue [OF inv] run assms(2) by auto
  next
    case (Op_Exit core t)
    then show ?thesis using queue_exit [OF inv] run assms(2) by auto
  next
    case (Op_Request core)
    then show ?thesis using queue_request [OF inv] run by auto
  qed
qed

lemma sched_any_inv: "sched_any s \<Longrightarrow> \<exists>Q. queue_inv Q s"
  by (induction rule: sched_any.induct) (use fresh_queues queue_step in blast)+

subsection \<open>Properties\<close>

text \<open>C7: whatever sequence of operations runs on whatever cores, as long as nobody enqueues an idle thread or takes a thread back that waits in a
  queue, the queues stay intact: each is a well-formed list without repetitions whose recorded depth is its length, a thread is queued exactly if it
  is in a queue, and then in one only, a thread with an affinity is in the queue of its core and one without in a shared queue, no idle thread is
  queued, and rescheduling any core returns. (That a queued thread is not on a core at the same time does not hold in all these states,
  see \<open>sched_wake_race\<close>.)\<close>

theorem sched_queues_intact:
  assumes "sched_any s"
  shows "\<exists>Q. (\<forall>q. flist (sc_hooks s, wq_threads (sc_queues s q)) (Q q) \<and> distinct (Q q) \<and> wq_depth (sc_queues s q) = length (Q q)) \<and>
    (\<forall>t. th_state (sc_threads s t) = Th_Queued \<longleftrightarrow> (\<exists>q. t \<in> set (Q q))) \<and>
    (\<forall>t q r. t \<in> set (Q q) \<and> t \<in> set (Q r) \<longrightarrow> q = r) \<and>
    (\<forall>q. \<forall>t \<in> set (Q q). case q of Shared_Queue c \<Rightarrow> th_affinity (sc_threads s t) = NoCoreAffinity
       | Local_Queue e \<Rightarrow> th_affinity (sc_threads s t) = en_id (sc_engine s e)) \<and>
    (\<forall>e t. en_idleThread (sc_engine s e) = Some t \<longrightarrow> th_state (sc_threads s t) \<noteq> Th_Queued) \<and>
    (\<forall>core. sc_local s core \<noteq> None \<and> room s \<longrightarrow> (\<exists>s1. DoReschedule core s = Inr s1))"
proof -
  obtain Q where inv: "queue_inv Q s" using sched_any_inv [OF assms] by blast
  then have ok: "queues_ok Q s" by (simp add: queue_inv_def)
  show ?thesis
  proof (intro exI [of _ Q] conjI)
    show "\<forall>q. flist (sc_hooks s, wq_threads (sc_queues s q)) (Q q) \<and> distinct (Q q) \<and> wq_depth (sc_queues s q) = length (Q q)"
      using ok flist_distinct unfolding queues_ok_def by blast
    show "\<forall>t. th_state (sc_threads s t) = Th_Queued \<longleftrightarrow> (\<exists>q. t \<in> set (Q q))" using ok unfolding queues_ok_def by metis
    show "\<forall>t q r. t \<in> set (Q q) \<and> t \<in> set (Q r) \<longrightarrow> q = r" using queues_disjoint [OF ok] by blast
    show "\<forall>q. \<forall>t \<in> set (Q q). case q of Shared_Queue c \<Rightarrow> th_affinity (sc_threads s t) = NoCoreAffinity
       | Local_Queue e \<Rightarrow> th_affinity (sc_threads s t) = en_id (sc_engine s e)"
      using inv unfolding queue_inv_def affinity_ok_def at_home_def by blast
    show "\<forall>e t. en_idleThread (sc_engine s e) = Some t \<longrightarrow> th_state (sc_threads s t) \<noteq> Th_Queued"
      using inv unfolding queue_inv_def idle_of_def by blast
    show "\<forall>core. sc_local s core \<noteq> None \<and> room s \<longrightarrow> (\<exists>s1. DoReschedule core s = Inr s1)"
      using queue_reschedule [OF inv] by blast
  qed
qed

text \<open>Two engines of one cluster with their idle threads 0 and 1, and nothing else.\<close>

definition two_engines :: scheduler where
  "two_engines = \<lparr>
     sc_threads = (\<lambda>t. \<lparr> th_state = Th_Setup, th_id = t + 2, th_affinity = NoCoreAffinity, th_place = On_Engine 0 \<rparr>),
     sc_hooks = (\<lambda>_. None), sc_queues = (\<lambda>_. empty_queue),
     sc_engine = (\<lambda>e. \<lparr> en_id = er_slot e, en_ReschedulePending = False, en_localTickets = 0, en_sharedTickets = 0,
       en_idleThread = (if er_slot e < 2 then Some (er_slot e) else None), en_pendingThread = None \<rparr>),
     sc_clusters = 1, sc_engineCount = (\<lambda>_. 2), sc_engines = [Some (Engine_Ref 0 0), Some (Engine_Ref 0 1)],
     sc_local = [0 \<mapsto> Engine_Ref 0 0, 1 \<mapsto> Engine_Ref 0 1], sc_current = (\<lambda>_. None), sc_dpcs = [], sc_mail = [] \<rparr>"

lemma two_engines_reach: "sched_reach two_engines"
  by (rule reach_fresh) (auto simp: sched_fresh_def engines_ok_def two_engines_def inj_def split: if_splits)

text \<open>A list of operations in turn, and that the callers of all of them are as \<open>any_caller\<close> asks.\<close>

fun sched_run :: "sched_op list \<Rightarrow> scheduler \<Rightarrow> scheduler res" where
  "sched_run [] s = Inr s"
| "sched_run (x # xs) s = res_bind (sched_do (\<lambda>_ _. Inr ()) x s) (sched_run xs)"

fun callers_ok :: "sched_op list \<Rightarrow> scheduler \<Rightarrow> bool" where
  "callers_ok [] s = True"
| "callers_ok (x # xs) s = (any_caller x s \<and> room s \<and> (case sched_do (\<lambda>_ _. Inr ()) x s of Inl f \<Rightarrow> False | Inr s1 \<Rightarrow> callers_ok xs s1))"

lemma any_run: "\<lbrakk> sched_any s; callers_ok xs s \<rbrakk> \<Longrightarrow> \<exists>s1. sched_run xs s = Inr s1 \<and> sched_any s1"
proof (induction xs arbitrary: s)
  case (Cons x xs)
  then obtain s1 where s1: "sched_do (\<lambda>_ _. Inr ()) x s = Inr s1" "callers_ok xs s1" by (auto split: sum.splits)
  then have "sched_any s1" using Cons.prems by (auto intro: any_step step_do)
  then show ?case using Cons.IH s1 by simp
qed simp

text \<open>A thread is started, runs, blocks, and is woken while it is still on the core, and the core reschedules and switches.\<close>

definition race_ops :: "sched_op list" where
  "race_ops = [Op_Start 5 None, Op_Reschedule 0, Op_Switch 0, Op_Dequeue 0 5, Op_Enqueue 5, Op_Reschedule 0, Op_Switch 0]"

lemmas sched_eval = thread_Start_def EnqueueThread_def DequeueThread_def DoReschedule_def DoPendingSwitch_def QueueReschedule_def LocalEngine_def
  push_thread_def take_from_def reset_tickets_def GetRunnableThread.simps fl_PushBack_def fl_PopFront_def upd_thread_def upd_engine_def
  set_queue_def Let_def sz_add_def sz_sub_def sz_mul_def fl_new_def

lemma two_engines_race:
  "callers_ok race_ops two_engines"
  "sched_run race_ops two_engines = Inr s \<Longrightarrow> sc_current s 0 = Some 5 \<and> th_state (sc_threads s 5) = Th_Queued"
  by (auto simp: race_ops_def two_engines_def empty_queue_def idle_of_def room_def sched_eval size_limit_def split: if_splits)

theorem sched_queues_intact_witness:
  "\<exists>s. sched_run race_ops two_engines = Inr s \<and> sc_current s 0 = Some 5 \<and> th_state (sc_threads s 5) = Th_Queued \<and>
     (\<exists>Q. (\<forall>q. flist (sc_hooks s, wq_threads (sc_queues s q)) (Q q) \<and> distinct (Q q)) \<and> (\<exists>q. 5 \<in> set (Q q)))"
proof -
  have "sched_any two_engines"
    by (rule any_fresh) (auto simp: sched_fresh_def engines_ok_def two_engines_def inj_def split: if_splits)
  then obtain s where s: "sched_run race_ops two_engines = Inr s" "sched_any s" using any_run two_engines_race(1) by blast
  have race: "sc_current s 0 = Some 5" "th_state (sc_threads s 5) = Th_Queued" using two_engines_race(2) [OF s(1)] by blast+
  obtain Q where "\<forall>q. flist (sc_hooks s, wq_threads (sc_queues s q)) (Q q) \<and> distinct (Q q) \<and> wq_depth (sc_queues s q) = length (Q q)"
      "\<forall>t. th_state (sc_threads s t) = Th_Queued \<longleftrightarrow> (\<exists>q. t \<in> set (Q q))"
    using sched_queues_intact [OF s(2)] by (elim exE conjE) (rule that, assumption+)
  then show ?thesis using s(1) race by blast
qed

text \<open>With careful callers, queued threads are also on no core, every running thread other than an idle one is on a core or chosen to be next on one, and no
  thread is on two cores.\<close>

lemma sched_places:
  assumes "sched_reach s"
  shows "\<exists>Q. (\<forall>q. flist (sc_hooks s, wq_threads (sc_queues s q)) (Q q) \<and> wq_depth (sc_queues s q) = length (Q q)) \<and>
    (\<forall>t. th_state (sc_threads s t) = Th_Queued \<longleftrightarrow> (\<exists>q. t \<in> set (Q q))) \<and>
    (\<forall>t q r. t \<in> set (Q q) \<and> t \<in> set (Q r) \<longrightarrow> q = r) \<and>
    (\<forall>t core e. th_state (sc_threads s t) = Th_Queued \<longrightarrow> sc_current s core \<noteq> Some t \<and> en_pendingThread (sc_engine s e) \<noteq> Some t) \<and>
    (\<forall>t. th_state (sc_threads s t) = Th_Running \<and> \<not> idle_of s t \<longrightarrow>
       (\<exists>core. sc_current s core = Some t) \<or> (\<exists>e. en_pendingThread (sc_engine s e) = Some t)) \<and>
    (\<forall>t c d. sc_current s c = Some t \<and> sc_current s d = Some t \<and> \<not> idle_of s t \<longrightarrow> c = d)"
proof -
  obtain Q where inv: "sched_inv Q s" using sched_reach_inv [OF assms] by blast
  then have i: "queues_ok Q s" "current_ok s" "running_ok s" by (simp_all add: sched_inv_def)
  have "c = d" if "sc_current s c = Some t" "sc_current s d = Some t" "\<not> idle_of s t" for t c d
    using i(2) that unfolding current_ok_def idle_of_def by metis
  moreover have "th_state (sc_threads s t) = Th_Queued \<longleftrightarrow> (\<exists>q. t \<in> set (Q q))" for t
    using i(1) unfolding queues_ok_def by metis
  moreover have "\<forall>q. flist (sc_hooks s, wq_threads (sc_queues s q)) (Q q) \<and> wq_depth (sc_queues s q) = length (Q q)"
    using i(1) unfolding queues_ok_def by blast
  ultimately show ?thesis
    using i(3) queued_nowhere [OF inv] queues_disjoint [OF i(1)] unfolding running_ok_def by (intro exI [of _ Q]) blast
qed

lemma reach_content:
  assumes "sched_inv Q s" and "flist (sc_hooks s, wq_threads (sc_queues s q)) xs"
  shows "Q q = xs"
  using assms flist_unique unfolding sched_inv_def queues_ok_def by metis

text \<open>C8: rescheduling a core that has no choice outstanding, and then switching, runs the first thread of the queue of
  the core while there are tickets for that queue, otherwise the first thread of the queue its cluster shares, and the
  idle thread only if that is empty.\<close>

theorem sched_next_thread:
  assumes "sched_reach s" and "room s" and "sc_local s core = Some e" and "en_pendingThread (sc_engine s e) = None"
    and "flist (sc_hooks s, wq_threads (sc_queues s (Local_Queue e))) own"
    and "flist (sc_hooks s, wq_threads (sc_queues s (Shared_Queue (er_cluster e)))) shared"
  shows "\<exists>s1 s2 t. DoReschedule core s = Inr s1 \<and> DoPendingSwitch core s1 = Inr s2 \<and> sc_current s2 core = Some t \<and>
    Some t = (if en_localTickets (sc_engine (reset_tickets e s) e) > 0 \<and> own \<noteq> [] then Some (hd own)
              else if shared \<noteq> [] then Some (hd shared) else en_idleThread (sc_engine s e))"
proof -
  obtain Q where inv: "sched_inv Q s" using sched_reach_inv [OF assms(1)] by blast
  have Q: "Q (Local_Queue e) = own" "Q (Shared_Queue (er_cluster e)) = shared"
    using reach_content [OF inv assms(5)] reach_content [OF inv assms(6)] by simp_all
  have len: "wq_depth (sc_queues s r) < size_limit" for r using assms(2) unfolding room_def by (metis add_lessD1)
  obtain s1 t q where s1: "next_thread Q e s = (Some t, q)" "DoReschedule core s = Inr s1" "sched_inv (drop_head q Q) s1"
      "en_pendingThread (sc_engine s1 e) = Some t"
    using inv_reschedule [OF inv assms(3,4) len] by blast
  have "length (drop_head q Q r) \<le> length (Q r)" for r by (cases q) (auto simp: drop_head_def)
  moreover have "wq_depth (sc_queues s1 r) = length (drop_head q Q r)" "wq_depth (sc_queues s r) = length (Q r)" for r
    using s1(3) inv by (simp_all add: sched_inv_def queues_ok_def)
  ultimately have room1: "wq_depth (sc_queues s1 r) + 1 < size_limit" for r
    using assms(2) unfolding room_def by (metis add_le_mono1 le_less_trans)
  have "sc_local s1 core = Some e"
    using reschedule_keeps [OF s1(2)] assms(3) by simp
  then obtain s2 where "DoPendingSwitch core s1 = Inr s2" "sc_current s2 core = Some t"
    using inv_switch [OF s1(3) _ s1(4) room1] by blast
  then show ?thesis using s1(1,2) Q by (auto simp: next_thread_def split: if_splits)
qed

theorem sched_next_thread_witness:
  "\<exists>s1 s2. DoReschedule 0 two_engines = Inr s1 \<and> DoPendingSwitch 0 s1 = Inr s2 \<and> sc_current s2 0 = Some 0"
proof -
  have "room two_engines" "sc_local two_engines 0 = Some (Engine_Ref 0 0)" "en_pendingThread (sc_engine two_engines (Engine_Ref 0 0)) = None"
    "flist (sc_hooks two_engines, wq_threads (sc_queues two_engines q)) []" for q
    by (simp_all add: two_engines_def room_def empty_queue_def flist_new size_limit_def)
  from sched_next_thread [OF two_engines_reach this(1-3) this(4) this(4)] show ?thesis
    by (auto simp: two_engines_def)
qed

text \<open>C37: a thread that blocks and is made ready again before its core has switched away from it (a signal from an
  interrupt or from another core) may end up both on the core and in the shared queue, from which every other core of the cluster
  may take it. This happens in a system of one cluster to a thread without affinity when the queue of its core and the shared queue are
  empty and no reschedule is pending: the core then takes the thread from the shared queue as the next to run, and the switch puts
  the current thread, which is the same one, back into that queue.\<close>

theorem sched_wake_race:
  assumes "sched_inv Q s" and "room s" and "sc_local s core = Some e" and "er_cluster e = 0" and "sc_clusters s = 1"
    and "sc_current s core = Some t" and "th_state (sc_threads s t) = Th_Running" and "\<not> idle_of s t"
    and "th_affinity (sc_threads s t) = NoCoreAffinity" and "th_place (sc_threads s t) = On_Engine core"
    and "en_ReschedulePending (sc_engine s e) = False"
    and "wq_depth (sc_queues s (Local_Queue e)) = 0" and "wq_depth (sc_queues s (Shared_Queue 0)) = 0"
  shows "\<exists>s1 s2 s3 s4. DequeueThread core (Some t) s = Inr s1 \<and> EnqueueThread (Some t) s1 = Inr s2 \<and>
    DoReschedule core s2 = Inr s3 \<and> DoPendingSwitch core s3 = Inr s4 \<and>
    sc_current s4 core = Some t \<and> th_state (sc_threads s4 t) = Th_Queued \<and> th_place (sc_threads s4 t) = In_Queue (Shared_Queue 0)"
proof -
  note inv = assms(1)
  then have i: "queues_ok Q s" "engines_ok s" by (simp_all add: sched_inv_def)
  have Q: "Q (Local_Queue e) = []" "Q (Shared_Queue 0) = []" using i(1) assms(12,13) unfolding queues_ok_def by (metis length_0_conv)+
  have eid: "en_id (sc_engine s e) = core" and "en_idleThread (sc_engine s e) \<noteq> None" using i(2) assms(3) by (simp_all add: engines_ok_def)
  then obtain idl where idl: "en_idleThread (sc_engine s e) = Some idl" by blast
  have "t \<noteq> idl" using assms(8) idl by (auto simp: idle_of_def)
  then have ids: "th_id (sc_threads s t) \<noteq> th_id (sc_threads s idl)" using i(2) unfolding engines_ok_def by (meson injD)
  have len: "length (Q q) + 1 < size_limit" for q using assms(2) i(1) by (simp add: room_def queues_ok_def)
  define s1 where "s1 = (upd_engine e (\<lambda>x. x\<lparr> en_ReschedulePending := True \<rparr>) (upd_thread t (\<lambda>x. x\<lparr> th_state := Th_Ready \<rparr>) s))
      \<lparr> sc_dpcs := sc_dpcs s @ [core] \<rparr>"
  have d: "DequeueThread core (Some t) s = Inr s1"
    using assms(3,6,7,10,11) eid
    by (simp add: DequeueThread_def LocalEngine_def QueueReschedule_def s1_def) (simp add: upd_thread_def)
  have ok1: "queues_ok Q s1" using inv_block [OF inv assms(6,8) d] by (simp add: sched_inv_def)
  have "th_state (sc_threads s1 t) \<noteq> Th_Queued" by (simp add: s1_def)
  then obtain s2 where s2: "push_thread t (Shared_Queue 0) s1 = Inr s2" "queues_ok (Q(Shared_Queue 0 := [t])) s2"
      "sc_threads s2 = (sc_threads s1)(t := (sc_threads s1 t)\<lparr> th_state := Th_Queued, th_place := In_Queue (Shared_Queue 0) \<rparr>)"
      "sc_engine s2 = sc_engine s1" "sc_current s2 = sc_current s1" "sc_local s2 = sc_local s1"
    using push_ok [OF ok1, of t "Shared_Queue 0"] len [of "Shared_Queue 0"] Q by auto
  have en: "EnqueueThread (Some t) s1 = Inr s2"
    using assms(5,9,13) s2(1) by (simp add: EnqueueThread_def s1_def size_limit_def upd_thread_def upd_engine_def)
  let ?Q = "Q(Shared_Queue 0 := [t])"
  have n: "next_thread ?Q e s2 = (Some t, Some (Shared_Queue 0))" using Q assms(4) by (simp add: next_thread_def)
  have l2: "sc_local s2 core = Some e" using s2(6) assms(3) by (simp add: s1_def)
  have len2: "length (?Q r) < size_limit" for r using len [of r] by (auto simp: size_limit_def)
  obtain s3 where s3: "DoReschedule core s2 = Inr s3" "queues_ok (drop_head (Some (Shared_Queue 0)) ?Q) s3"
      "sc_threads s3 = (sc_threads s2)(t := (sc_threads s2 t)\<lparr> th_state := Th_Running, th_place := On_Engine (en_id (sc_engine s2 e)) \<rparr>)"
      "sc_current s3 = sc_current s2" "sc_local s3 = sc_local s2" "en_pendingThread (sc_engine s3 e) = Some t"
      "en_idleThread (sc_engine s3 e) = en_idleThread (sc_engine s2 e)"
    using reschedule_ok [OF s2(2) l2 n _ len2] by blast
  have "th_state (sc_threads s3 t) \<noteq> Th_Queued" by (simp add: s3(3))
  then obtain s4 where s4: "push_thread t (Shared_Queue 0) s3 = Inr s4"
      "sc_threads s4 = (sc_threads s3)(t := (sc_threads s3 t)\<lparr> th_state := Th_Queued, th_place := In_Queue (Shared_Queue 0) \<rparr>)"
      "sc_engine s4 = sc_engine s3" "sc_current s4 = sc_current s3"
    using push_ok [OF s3(2), of t "Shared_Queue 0"] by (auto simp: drop_head_def size_limit_def)
  have "DoPendingSwitch core s3 = Inr ((upd_engine e (\<lambda>x. x\<lparr> en_pendingThread := None \<rparr>) s4)\<lparr> sc_current := (sc_current s4)(core := Some t) \<rparr>)"
    using s3 s2(3-6) l2 idl ids assms(4,6,9) s4(1) \<open>t \<noteq> idl\<close>
    by (simp add: DoPendingSwitch_def LocalEngine_def s1_def Let_def)
  with d en s3(1) s4(2) show ?thesis by (intro exI conjI) auto
qed

text \<open>Thread 5 runs on core 0.\<close>

definition busy_core :: scheduler where
  "busy_core = two_engines\<lparr> sc_current := [0 \<mapsto> 5],
     sc_threads := (sc_threads two_engines)(5 := (sc_threads two_engines 5)\<lparr> th_state := Th_Running \<rparr>) \<rparr>"

lemma busy_core_inv: "sched_inv (\<lambda>_. []) busy_core" "\<not> idle_of busy_core 5"
proof -
  have "idle_of busy_core t \<Longrightarrow> t < 2" for t by (auto simp: idle_of_def busy_core_def two_engines_def split: if_splits)
  then have idle: "idle_of busy_core t \<Longrightarrow> t \<noteq> 5" for t by fastforce
  then show ni: "\<not> idle_of busy_core 5" by blast
  have "queues_ok (\<lambda>_. []) busy_core" by (simp add: queues_ok_def busy_core_def two_engines_def empty_queue_def flist_new)
  moreover have "engines_ok busy_core"
    using idle by (auto simp: engines_ok_def busy_core_def two_engines_def inj_def split: if_splits)
  moreover have "pending_ok busy_core" "affinity_ok (\<lambda>_. []) busy_core" by (simp_all add: pending_ok_def affinity_ok_def busy_core_def two_engines_def)
  moreover have "current_ok busy_core" "running_ok busy_core"
    using ni by (simp_all add: current_ok_def running_ok_def may_run_def busy_core_def two_engines_def)
  ultimately show "sched_inv (\<lambda>_. []) busy_core" by (simp add: sched_inv_def)
qed

theorem sched_wake_race_witness:
  "\<exists>s1 s2 s3 s4. DequeueThread 0 (Some 5) busy_core = Inr s1 \<and> EnqueueThread (Some 5) s1 = Inr s2 \<and> DoReschedule 0 s2 = Inr s3 \<and>
     DoPendingSwitch 0 s3 = Inr s4 \<and> sc_current s4 0 = Some 5 \<and> th_state (sc_threads s4 5) = Th_Queued"
proof -
  have "room busy_core" by (simp add: room_def busy_core_def two_engines_def empty_queue_def size_limit_def)
  then show ?thesis
    using sched_wake_race [OF busy_core_inv(1), of 0 "Engine_Ref 0 0" 5] busy_core_inv(2)
    by (auto simp: busy_core_def two_engines_def empty_queue_def)
qed

text \<open>The call that is mailed to the core of a running thread finds the thread ready and does nothing.\<close>

lemma remote_dequeue_ignored:
  assumes "sc_local s core = Some e" and "th_state (sc_threads s t) = Th_Running" and "th_place (sc_threads s t) = On_Engine eid"
    and "eid \<noteq> en_id (sc_engine s e)"
  shows "\<exists>s1. DequeueThread core (Some t) s = Inr s1 \<and> sc_mail s1 = sc_mail s @ [(eid, t)] \<and>
    sc_current s1 = sc_current s \<and> DequeueThread eid (Some t) s1 = Inr s1"
  using assms by (simp add: DequeueThread_def LocalEngine_def) (simp add: upd_thread_def)

end
