(* ===== verification/Ipi_Mail.thy ===== *)
theory Ipi_Mail
  imports Scheduler "HOL-Library.Multiset"
begin

text \<open>
  \<open>kernel/interrupts/Ipi.cpp\<close>: calls that a core asks another core to make. Each core has a mailbox
  with a fixed number of slots; a sender fills the first empty slot under the lock of the mailbox and signals the
  core, which takes the mail out of the slots one by one. The cores interleave at the granularity of the
  critical sections. \<open>ip_sent\<close> lists the signals sent, and \<open>ip_logged\<close> counts
  the messages about dropped mail. The arguments of empty slots are never read.
\<close>

subsection \<open>State\<close>

definition MailboxQueueDepth :: nat where
  "MailboxQueueDepth = 0x40"

definition EmitErrorOnCount :: size_t where
  "EmitErrorOnCount = 50"

record mailbox_rpc =
  mr_callback :: "nat option"
  mr_arg :: size_t

record ipi_mailbox =
  mb_fullErrorCount :: size_t
  mb_callbacks :: "mailbox_rpc list"

record ipi =
  ip_mailboxes :: "ipi_mailbox option list"
  ip_sent :: "size_t list"
  ip_logged :: nat

subsection \<open>Operations\<close>

definition InitIpiMailbox :: "size_t \<Rightarrow> ipi \<Rightarrow> ipi" where
  "InitIpiMailbox me s =
     s\<lparr> ip_mailboxes := emplace_at me
          \<lparr> mb_fullErrorCount = 0, mb_callbacks = replicate MailboxQueueDepth \<lparr> mr_callback = None, mr_arg = 0 \<rparr> \<rparr> (ip_mailboxes s) \<rparr>"

definition mailbox_of :: "size_t \<Rightarrow> ipi \<Rightarrow> ipi_mailbox res" where
  "mailbox_of core s =
     (if core < length (ip_mailboxes s)
      then case ip_mailboxes s ! core of None \<Rightarrow> Inl Null_Deref | Some mb \<Rightarrow> Inr mb
      else Inl Bad_Index)"

definition set_mailbox :: "size_t \<Rightarrow> ipi_mailbox \<Rightarrow> ipi \<Rightarrow> ipi" where
  "set_mailbox core mb s = s\<lparr> ip_mailboxes := (ip_mailboxes s)[core := Some mb] \<rparr>"

text \<open>One round of the loop of \<open>ProcessIpiMail\<close>; \<open>run\<close> is what a callback does.\<close>

definition process_slot :: "(nat \<Rightarrow> size_t \<Rightarrow> ipi \<Rightarrow> ipi) \<Rightarrow> size_t \<Rightarrow> nat \<Rightarrow> ipi \<Rightarrow> ipi res" where
  "process_slot run me i s =
     res_bind (mailbox_of me s) (\<lambda>mb.
       case mr_callback (mb_callbacks mb ! i) of
         None \<Rightarrow> Inr s
       | Some callback \<Rightarrow>
           let arg = mr_arg (mb_callbacks mb ! i);
               s1 = set_mailbox me (mb\<lparr> mb_callbacks := (mb_callbacks mb)[i := (mb_callbacks mb ! i)\<lparr> mr_callback := None \<rparr>] \<rparr>) s
           in Inr (run callback arg s1))"

definition ProcessIpiMail :: "(nat \<Rightarrow> size_t \<Rightarrow> ipi \<Rightarrow> ipi) \<Rightarrow> size_t \<Rightarrow> ipi \<Rightarrow> ipi res" where
  "ProcessIpiMail run me s = res_bind (mailbox_of me s) (\<lambda>_. res_fold (process_slot run me) [0..<MailboxQueueDepth] s)"

fun empty_slot :: "mailbox_rpc list \<Rightarrow> nat \<Rightarrow> nat option" where
  "empty_slot [] i = None"
| "empty_slot (r # rs) i = (if mr_callback r \<noteq> None then empty_slot rs (i + 1) else Some i)"

definition SendIpiMail :: "size_t \<Rightarrow> nat \<Rightarrow> size_t \<Rightarrow> ipi \<Rightarrow> ipi res" where
  "SendIpiMail dest callback arg s =
     (if \<not> dest < length (ip_mailboxes s) then Inl Assert_Failed
      else res_bind (mailbox_of dest s) (\<lambda>mb.
        case empty_slot (mb_callbacks mb) 0 of
          Some i \<Rightarrow>
            let mb1 = mb\<lparr> mb_callbacks := (mb_callbacks mb)[i := \<lparr> mr_callback = Some callback, mr_arg = arg \<rparr>], mb_fullErrorCount := 0 \<rparr>
            in Inr ((set_mailbox dest mb1 s)\<lparr> ip_sent := ip_sent s @ [dest] \<rparr>)
        | None \<Rightarrow>
            let emitError = (mb_fullErrorCount mb mod EmitErrorOnCount = 0);
                mb1 = mb\<lparr> mb_fullErrorCount := sz_add (mb_fullErrorCount mb) 1 \<rparr>
            in Inr ((set_mailbox dest mb1 s)\<lparr> ip_logged := (if emitError then ip_logged s + 1 else ip_logged s) \<rparr>)))"

definition panic_box :: "nat \<Rightarrow> size_t \<Rightarrow> nat \<Rightarrow> ipi \<Rightarrow> ipi" where
  "panic_box PanicIpiHandler me i s =
     (case ip_mailboxes s ! i of
        None \<Rightarrow> s
      | Some mb \<Rightarrow>
          if i = me then s
          else (set_mailbox i (mb\<lparr> mb_callbacks := map (\<lambda>r. r\<lparr> mr_callback := Some PanicIpiHandler \<rparr>) (mb_callbacks mb) \<rparr>) s)
                 \<lparr> ip_sent := ip_sent s @ [i] \<rparr>)"

definition BroadcastPanicIpi :: "nat \<Rightarrow> size_t \<Rightarrow> ipi \<Rightarrow> ipi" where
  "BroadcastPanicIpi PanicIpiHandler me s = fold (panic_box PanicIpiHandler me) [0..<length (ip_mailboxes s)] s"

subsection \<open>All interleavings\<close>

text \<open>
  \<open>ic_signal\<close> are the cores with a signal that is not yet handled, \<open>ic_pass\<close> the slot each core that handles
  one looks at next. \<open>ic_accepted\<close> and \<open>ic_run\<close> record the mail that got into a slot and the mail that was taken out to be run.
  What a callback does to the mailboxes are further sends.
\<close>

datatype mail = Mail (m_dest: size_t) (m_callback: nat) (m_arg: size_t)

record ipi_system =
  ic_state :: ipi
  ic_signal :: "size_t \<Rightarrow> bool"
  ic_pass :: "size_t \<Rightarrow> nat option"
  ic_accepted :: "mail list"
  ic_run :: "mail list"

definition slot_mail :: "size_t \<Rightarrow> mailbox_rpc \<Rightarrow> mail option" where
  "slot_mail d r = map_option (\<lambda>f. Mail d f (mr_arg r)) (mr_callback r)"

text \<open>The slots of a core, and the mail that waits in them.\<close>

definition slots :: "size_t \<Rightarrow> ipi \<Rightarrow> mail option list" where
  "slots d s = (case mailbox_of d s of Inl _ \<Rightarrow> [] | Inr mb \<Rightarrow> map (slot_mail d) (mb_callbacks mb))"

definition the_mails :: "mail option list \<Rightarrow> mail list" where
  "the_mails xs = map the (filter (\<lambda>x. x \<noteq> None) xs)"

definition pending :: "size_t \<Rightarrow> ipi \<Rightarrow> mail list" where
  "pending d s = the_mails (slots d s)"

inductive ipi_step :: "ipi_system \<Rightarrow> ipi_system \<Rightarrow> bool" where
  send: "SendIpiMail d f a (ic_state c) = Inr s \<Longrightarrow> ip_sent s = ip_sent (ic_state c) @ [d] \<Longrightarrow>
    ipi_step c (c\<lparr> ic_state := s, ic_signal := (ic_signal c)(d := True), ic_accepted := ic_accepted c @ [Mail d f a] \<rparr>)"
| dropped: "SendIpiMail d f a (ic_state c) = Inr s \<Longrightarrow> ip_sent s = ip_sent (ic_state c) \<Longrightarrow> ipi_step c (c\<lparr> ic_state := s \<rparr>)"
| enter: "ic_signal c me \<Longrightarrow> ic_pass c me = None \<Longrightarrow>
    ipi_step c (c\<lparr> ic_signal := (ic_signal c)(me := False), ic_pass := (ic_pass c)(me := Some 0) \<rparr>)"
| slot: "ic_pass c me = Some i \<Longrightarrow> i < MailboxQueueDepth \<Longrightarrow> process_slot (\<lambda>_ _ s. s) me i (ic_state c) = Inr s \<Longrightarrow>
    ipi_step c (c\<lparr> ic_state := s, ic_pass := (ic_pass c)(me := Some (i + 1)),
      ic_run := ic_run c @ the_mails [slots me (ic_state c) ! i] \<rparr>)"
| leave: "ic_pass c me = Some MailboxQueueDepth \<Longrightarrow> ipi_step c (c\<lparr> ic_pass := (ic_pass c)(me := None) \<rparr>)"

definition ipi_boot :: "nat \<Rightarrow> ipi_system" where
  "ipi_boot n =
     \<lparr> ic_state = fold InitIpiMailbox [0..<n] \<lparr> ip_mailboxes = [], ip_sent = [], ip_logged = 0 \<rparr>,
       ic_signal = (\<lambda>_. False), ic_pass = (\<lambda>_. None), ic_accepted = [], ic_run = [] \<rparr>"

inductive ipi_reach :: "nat \<Rightarrow> ipi_system \<Rightarrow> bool" for n where
  boot: "ipi_reach n (ipi_boot n)"
| step: "ipi_reach n c \<Longrightarrow> ipi_step c c' \<Longrightarrow> ipi_reach n c'"

subsection \<open>Slots\<close>

lemma the_mails_append [simp]: "the_mails (xs @ ys) = the_mails xs @ the_mails ys" "the_mails [] = []"
  by (simp_all add: the_mails_def)

lemma the_mails_update:
  assumes "i < length xs"
  shows "mset (the_mails (xs[i := v])) + mset (the_mails [xs ! i]) = mset (the_mails xs) + mset (the_mails [v])"
proof -
  have "the_mails xs = the_mails (take i xs) @ the_mails [xs ! i] @ the_mails (drop (Suc i) xs)"
    using assms by (subst id_take_nth_drop [of i xs]) (simp_all add: the_mails_def)
  moreover have "the_mails (xs[i := v]) = the_mails (take i xs) @ the_mails [v] @ the_mails (drop (Suc i) xs)"
    using assms by (simp add: upd_conv_take_nth_drop the_mails_def)
  ultimately show ?thesis by simp
qed

lemma empty_slot_Some: "empty_slot rs n = Some i \<Longrightarrow> n \<le> i \<and> i < n + length rs \<and> mr_callback (rs ! (i - n)) = None"
proof (induction rs arbitrary: n)
  case (Cons r rs)
  show ?case
  proof (cases "mr_callback r = None")
    case False
    with Cons.prems Cons.IH [of "n + 1"] show ?thesis by (auto simp: nth_Cons' Suc_diff_le)
  qed (use Cons.prems in auto)
qed simp

lemma empty_slot_None: "empty_slot rs n = None \<longleftrightarrow> (\<forall>r \<in> set rs. mr_callback r \<noteq> None)"
  by (induction rs arbitrary: n) auto

lemma slots_set:
  assumes "mailbox_of d s = Inr mb"
  shows "slots e (set_mailbox d mb' s) = (if e = d then map (slot_mail d) (mb_callbacks mb') else slots e s)"
  using assms by (auto simp: slots_def mailbox_of_def set_mailbox_def nth_list_update split: option.splits if_splits)

definition has_box :: "size_t \<Rightarrow> ipi \<Rightarrow> bool" where
  "has_box d s \<longleftrightarrow> (\<exists>mb. mailbox_of d s = Inr mb)"

lemma has_boxI: "mailbox_of d s = Inr mb \<Longrightarrow> has_box d s"
  by (auto simp: has_box_def)

lemma has_box_set: "mailbox_of d s = Inr mb \<Longrightarrow> has_box e (set_mailbox d mb' s) = has_box e s"
  by (auto simp: has_box_def mailbox_of_def set_mailbox_def nth_list_update split: option.splits if_splits)

lemma has_box_upd [simp]: "has_box d (s\<lparr> ip_sent := x \<rparr>) = has_box d s" "has_box d (s\<lparr> ip_logged := k \<rparr>) = has_box d s"
  by (simp_all add: has_box_def mailbox_of_def)

lemma slots_mailboxes: "ip_mailboxes s = ip_mailboxes t \<Longrightarrow> slots d s = slots d t"
  by (simp add: slots_def mailbox_of_def)

text \<open>Sending fills the first empty slot, or changes no slot when there is none.\<close>

lemma SendIpiMail_slots:
  assumes "SendIpiMail d f a s = Inr s'"
  shows "(\<exists>i < length (slots d s). slots d s ! i = None \<and> slots d s' = (slots d s)[i := Some (Mail d f a)] \<and> ip_sent s' = ip_sent s @ [d]) \<or>
      None \<notin> set (slots d s) \<and> slots d s' = slots d s \<and> ip_sent s' = ip_sent s"
    and "e \<noteq> d \<Longrightarrow> slots e s' = slots e s"
proof -
  obtain mb where mb: "mailbox_of d s = Inr mb" using assms by (cases "mailbox_of d s") (auto simp: SendIpiMail_def split: if_splits)
  have d: "d < length (ip_mailboxes s)" using mb by (simp add: mailbox_of_def split: if_splits)
  have sl: "slots d s = map (slot_mail d) (mb_callbacks mb)" using mb by (simp add: slots_def)
  have "((\<exists>i < length (slots d s). slots d s ! i = None \<and> slots d s' = (slots d s)[i := Some (Mail d f a)] \<and> ip_sent s' = ip_sent s @ [d]) \<or>
      None \<notin> set (slots d s) \<and> slots d s' = slots d s \<and> ip_sent s' = ip_sent s) \<and> (e \<noteq> d \<longrightarrow> slots e s' = slots e s)"
  proof (cases "empty_slot (mb_callbacks mb) 0")
    case (Some i)
    let ?mb = "mb\<lparr> mb_callbacks := (mb_callbacks mb)[i := \<lparr> mr_callback = Some f, mr_arg = a \<rparr>], mb_fullErrorCount := 0 \<rparr>"
    have s': "s' = (set_mailbox d ?mb s)\<lparr> ip_sent := ip_sent s @ [d] \<rparr>"
      using assms mb d Some by (simp add: SendIpiMail_def Let_def)
    have "slots e s' = slots e (set_mailbox d ?mb s)" for e by (rule slots_mailboxes) (simp add: s')
    then have "slots e s' = (if e = d then (slots d s)[i := Some (Mail d f a)] else slots e s)" for e
      by (simp add: slots_set [OF mb] sl map_update slot_mail_def)
    moreover have "i < length (slots d s)" "slots d s ! i = None"
      using empty_slot_Some [OF Some] by (simp_all add: sl slot_mail_def)
    ultimately show ?thesis by (auto simp: s')
  next
    case None
    let ?mb = "mb\<lparr> mb_fullErrorCount := sz_add (mb_fullErrorCount mb) 1 \<rparr>"
    obtain k where s': "s' = (set_mailbox d ?mb s)\<lparr> ip_logged := k \<rparr>"
      using assms mb d None by (auto simp: SendIpiMail_def Let_def)
    have "slots e s' = slots e (set_mailbox d ?mb s)" for e by (rule slots_mailboxes) (simp add: s')
    then have "slots e s' = slots e s" for e by (simp add: slots_set [OF mb] sl)
    moreover have "None \<notin> set (slots d s)" using None by (auto simp: sl slot_mail_def empty_slot_None)
    ultimately show ?thesis by (simp add: s' set_mailbox_def)
  qed
  then show "(\<exists>i < length (slots d s). slots d s ! i = None \<and> slots d s' = (slots d s)[i := Some (Mail d f a)] \<and> ip_sent s' = ip_sent s @ [d]) \<or>
      None \<notin> set (slots d s) \<and> slots d s' = slots d s \<and> ip_sent s' = ip_sent s" "e \<noteq> d \<Longrightarrow> slots e s' = slots e s"
    by blast+
qed

text \<open>A core that looks at a slot empties it.\<close>

lemma process_slot_slots:
  assumes "process_slot (\<lambda>_ _ s. s) me i s = Inr s'" and "i < length (slots me s)"
  shows "slots e s' = (if e = me then (slots me s)[i := None] else slots e s)"
proof -
  obtain mb where mb: "mailbox_of me s = Inr mb" using assms(1) by (cases "mailbox_of me s") (auto simp: process_slot_def)
  have sl: "slots me s = map (slot_mail me) (mb_callbacks mb)" using mb by (simp add: slots_def)
  show ?thesis
  proof (cases "mr_callback (mb_callbacks mb ! i)")
    case None
    then have "s' = s" using assms(1) mb by (simp add: process_slot_def)
    moreover have "slots me s ! i = None" using None assms(2) by (simp add: sl slot_mail_def)
    ultimately show ?thesis by (metis list_update_id)
  next
    case (Some f)
    then have "s' = set_mailbox me (mb\<lparr> mb_callbacks := (mb_callbacks mb)[i := (mb_callbacks mb ! i)\<lparr> mr_callback := None \<rparr>] \<rparr>) s"
      using assms mb by (simp add: process_slot_def)
    then show ?thesis by (simp add: slots_set [OF mb] sl map_update slot_mail_def)
  qed
qed

subsection \<open>The invariant\<close>

definition mails_kept :: "ipi_system \<Rightarrow> size_t \<Rightarrow> bool" where
  "mails_kept c d \<longleftrightarrow> mset (filter (\<lambda>m. m_dest m = d) (ic_accepted c)) =
     mset (filter (\<lambda>m. m_dest m = d) (ic_run c)) + mset (pending d (ic_state c))"

definition mails_announced :: "ipi_system \<Rightarrow> size_t \<Rightarrow> bool" where
  "mails_announced c d \<longleftrightarrow> (\<forall>j < length (slots d (ic_state c)). slots d (ic_state c) ! j \<noteq> None \<longrightarrow>
     ic_signal c d \<or> (\<exists>i. ic_pass c d = Some i \<and> i \<le> j))"

definition slots_ok :: "ipi_system \<Rightarrow> size_t \<Rightarrow> bool" where
  "slots_ok c d \<longleftrightarrow> length (slots d (ic_state c)) = (if has_box d (ic_state c) then MailboxQueueDepth else 0)"

definition ipi_inv :: "ipi_system \<Rightarrow> bool" where
  "ipi_inv c \<longleftrightarrow> (\<forall>d. mails_kept c d \<and> mails_announced c d \<and> slots_ok c d)"

lemma SendIpiMail_box: "SendIpiMail d f a s = Inr s' \<Longrightarrow> has_box e s' = has_box e s"
  by (cases "mailbox_of d s") (auto simp: SendIpiMail_def Let_def has_box_set split: if_splits option.splits)

lemma process_slot_box: "process_slot (\<lambda>_ _ s. s) me i s = Inr s' \<Longrightarrow> has_box e s' = has_box e s \<and> has_box me s"
  by (cases "mailbox_of me s") (auto simp: process_slot_def Let_def has_box_set intro: has_boxI split: if_splits option.splits)


lemma slots_dest: "Some m \<in> set (slots d s) \<Longrightarrow> m_dest m = d"
proof (cases "mailbox_of d s")
  case (Inr mb)
  assume "Some m \<in> set (slots d s)"
  then obtain r where "slot_mail d r = Some m" using Inr by (metis (no_types, lifting) imageE list.set_map sum.case(2) slots_def)
  then show ?thesis by (auto simp: slot_mail_def)
qed (simp add: slots_def)

lemma ipi_invD: "ipi_inv c \<Longrightarrow> mails_kept c e" "ipi_inv c \<Longrightarrow> mails_announced c e" "ipi_inv c \<Longrightarrow> slots_ok c e"
  by (simp_all add: ipi_inv_def)

lemma send_inv:
  assumes inv: "ipi_inv c" and run: "SendIpiMail d f a (ic_state c) = Inr s" and sent: "ip_sent s = ip_sent (ic_state c) @ [d]"
  shows "ipi_inv (c\<lparr> ic_state := s, ic_signal := (ic_signal c)(d := True), ic_accepted := ic_accepted c @ [Mail d f a] \<rparr>)"
proof -
  obtain i where i: "i < length (slots d (ic_state c))" "slots d (ic_state c) ! i = None" "slots d s = (slots d (ic_state c))[i := Some (Mail d f a)]"
    using SendIpiMail_slots(1) [OF run] sent by auto
  have d: "mset (pending d s) = mset (pending d (ic_state c)) + {# Mail d f a #}"
    using the_mails_update [OF i(1), of "Some (Mail d f a)"] i(2) by (simp add: pending_def i(3)) (simp add: the_mails_def)
  have o: "slots e s = slots e (ic_state c)" if "e \<noteq> d" for e using SendIpiMail_slots(2) [OF run that] .
  show ?thesis
    unfolding ipi_inv_def
  proof (intro allI conjI)
    fix e
    show "mails_kept (c\<lparr> ic_state := s, ic_signal := (ic_signal c)(d := True), ic_accepted := ic_accepted c @ [Mail d f a] \<rparr>) e"
      using ipi_invD(1) [OF inv, of e] d o [of e] by (cases "e = d") (auto simp: mails_kept_def pending_def)
    show "mails_announced (c\<lparr> ic_state := s, ic_signal := (ic_signal c)(d := True), ic_accepted := ic_accepted c @ [Mail d f a] \<rparr>) e"
      using ipi_invD(2) [OF inv, of e] o [of e] by (cases "e = d") (auto simp: mails_announced_def)
    show "slots_ok (c\<lparr> ic_state := s, ic_signal := (ic_signal c)(d := True), ic_accepted := ic_accepted c @ [Mail d f a] \<rparr>) e"
      using ipi_invD(3) [OF inv, of e] o [of e] i(3) SendIpiMail_box [OF run, of e] by (cases "e = d") (auto simp: slots_ok_def)
  qed
qed

lemma drop_inv:
  assumes inv: "ipi_inv c" and run: "SendIpiMail d f a (ic_state c) = Inr s" and sent: "ip_sent s = ip_sent (ic_state c)"
  shows "ipi_inv (c\<lparr> ic_state := s \<rparr>)"
proof -
  have "slots e s = slots e (ic_state c)" for e
    using SendIpiMail_slots [OF run] sent by (cases "e = d") auto
  with inv SendIpiMail_box [OF run] show ?thesis
    by (simp add: ipi_inv_def mails_kept_def mails_announced_def slots_ok_def pending_def)
qed

lemma slot_inv:
  assumes inv: "ipi_inv c" and at: "ic_pass c me = Some i" "i < MailboxQueueDepth"
    and run: "process_slot (\<lambda>_ _ s. s) me i (ic_state c) = Inr s"
  shows "ipi_inv (c\<lparr> ic_state := s, ic_pass := (ic_pass c)(me := Some (i + 1)), ic_run := ic_run c @ the_mails [slots me (ic_state c) ! i] \<rparr>)"
    (is "ipi_inv ?c")
proof -
  note box = process_slot_box [OF run]
  have i: "i < length (slots me (ic_state c))" using at(2) ipi_invD(3) [OF inv, of me] box by (simp add: slots_ok_def)
  note sl = process_slot_slots [OF run i]
  have me: "mset (pending me s) + mset (the_mails [slots me (ic_state c) ! i]) = mset (pending me (ic_state c))"
    using the_mails_update [OF i, of None] by (simp add: pending_def sl) (simp add: the_mails_def)
  have dest: "filter (\<lambda>m. m_dest m = e) (the_mails [slots me (ic_state c) ! i]) = (if e = me then the_mails [slots me (ic_state c) ! i] else [])" for e
    using slots_dest [of _ me "ic_state c"] nth_mem [OF i] by (cases "slots me (ic_state c) ! i") (auto simp: the_mails_def)
  show ?thesis
    unfolding ipi_inv_def
  proof (intro allI conjI)
    fix e
    show "mails_kept ?c e"
    proof (cases "e = me")
      case True
      then show ?thesis using ipi_invD(1) [OF inv, of me] me dest [of me] by (simp add: mails_kept_def ac_simps)
    next
      case False
      then show ?thesis using ipi_invD(1) [OF inv, of e] dest [of e] by (simp add: mails_kept_def pending_def sl)
    qed
    show "mails_announced ?c e"
    proof (cases "e = me")
      case True
      have "ic_signal c me \<or> i + 1 \<le> j" if "j < length (slots me (ic_state c))" "(slots me (ic_state c))[i := None] ! j \<noteq> None" for j
      proof -
        have "j \<noteq> i" using that by (cases "j = i") simp_all
        moreover from this have "slots me (ic_state c) ! j \<noteq> None" using that(2) by simp
        ultimately show ?thesis using ipi_invD(2) [OF inv, of me] at(1) that(1) by (auto simp: mails_announced_def)
      qed
      with True show ?thesis by (simp add: mails_announced_def sl)
    next
      case False
      then show ?thesis using ipi_invD(2) [OF inv, of e] by (simp add: mails_announced_def sl)
    qed
    show "slots_ok ?c e" using ipi_invD(3) [OF inv, of e] box by (auto simp: slots_ok_def sl)
  qed
qed

lemma boot_boxes:
  "d < n \<Longrightarrow> mailbox_of d (ic_state (ipi_boot n)) = Inr \<lparr> mb_fullErrorCount = 0, mb_callbacks = replicate MailboxQueueDepth \<lparr> mr_callback = None, mr_arg = 0 \<rparr> \<rparr>"
  "n \<le> d \<Longrightarrow> mailbox_of d (ic_state (ipi_boot n)) = Inl Bad_Index"
proof -
  let ?mb = "\<lparr> mb_fullErrorCount = 0, mb_callbacks = replicate MailboxQueueDepth \<lparr> mr_callback = None, mr_arg = 0 \<rparr> \<rparr>"
  have "ip_mailboxes (ic_state (ipi_boot n)) = replicate n (Some ?mb)" for n
    by (induction n) (simp_all add: ipi_boot_def InitIpiMailbox_def emplace_at_def replicate_append_same)
  then show "d < n \<Longrightarrow> mailbox_of d (ic_state (ipi_boot n)) = Inr ?mb" "n \<le> d \<Longrightarrow> mailbox_of d (ic_state (ipi_boot n)) = Inl Bad_Index"
    by (simp_all add: mailbox_of_def)
qed

lemma boot_inv: "ipi_inv (ipi_boot n)"
proof -
  have "slots d (ic_state (ipi_boot n)) = (if d < n then replicate MailboxQueueDepth None else [])" for d
    by (simp add: slots_def boot_boxes slot_mail_def)
  moreover have "has_box d (ic_state (ipi_boot n)) = (d < n)" for d
    by (cases "d < n") (simp_all add: has_box_def boot_boxes)
  moreover have "ic_accepted (ipi_boot n) = []" "ic_run (ipi_boot n) = []" by (simp_all add: ipi_boot_def)
  ultimately show ?thesis
    by (simp add: ipi_inv_def mails_kept_def mails_announced_def slots_ok_def pending_def the_mails_def)
qed

lemma ipi_step_inv: "ipi_step c c' \<Longrightarrow> ipi_inv c \<Longrightarrow> ipi_inv c'"
proof (induction rule: ipi_step.induct)
  case (enter c me)
  then show ?case by (auto simp: ipi_inv_def mails_kept_def mails_announced_def slots_ok_def)
next
  case (leave c me)
  have "ic_signal c me" if "j < length (slots me (ic_state c))" "slots me (ic_state c) ! j \<noteq> None" for j
    using ipi_invD(2,3) [OF leave.prems, of me] that leave.hyps by (force simp: mails_announced_def slots_ok_def split: if_splits)
  with leave show ?case by (auto simp: ipi_inv_def mails_kept_def mails_announced_def slots_ok_def)
qed (blast intro: send_inv drop_inv slot_inv)+

lemma ipi_reach_inv: "ipi_reach n c \<Longrightarrow> ipi_inv c"
  by (induction rule: ipi_reach.induct) (auto intro: boot_inv ipi_step_inv)

subsection \<open>Properties\<close>

text \<open>C25: mail between cores is neither lost nor run twice, and never forgotten. In every state that any interleaving of senders and
  receivers reaches, the mail that got into a slot of a core is the mail that was run there together with the mail that
  still waits, and a core with waiting mail has a signal pending or is looking through its slots and has not yet passed this one.
\<close>

theorem ipi_mail_kept:
  assumes "ipi_reach n c"
  shows "mset (filter (\<lambda>m. m_dest m = d) (ic_accepted c)) = mset (filter (\<lambda>m. m_dest m = d) (ic_run c)) + mset (pending d (ic_state c)) \<and>
    (\<forall>j < length (slots d (ic_state c)). slots d (ic_state c) ! j \<noteq> None \<longrightarrow> ic_signal c d \<or> (\<exists>i. ic_pass c d = Some i \<and> i \<le> j))"
  using ipi_invD(1,2) [OF ipi_reach_inv [OF assms], of d] by (simp add: mails_kept_def mails_announced_def)

lemma boot_send:
  assumes "d < n"
  shows "\<exists>c j. ipi_reach n c \<and> j < length (slots d (ic_state c)) \<and> slots d (ic_state c) ! j = Some (Mail d f a) \<and> ic_pass c d = None \<and>
    ic_accepted c = [Mail d f a] \<and> ic_run c = []"
proof -
  let ?s = "ic_state (ipi_boot n)"
  have len: "d < length (ip_mailboxes ?s)" using boot_boxes(1) [OF assms] by (simp add: mailbox_of_def split: if_splits)
  have sl: "slots d ?s = replicate MailboxQueueDepth None" using assms by (simp add: slots_def boot_boxes slot_mail_def)
  have "empty_slot (replicate MailboxQueueDepth \<lparr> mr_callback = None, mr_arg = 0 \<rparr>) 0 = Some 0"
    by (simp add: MailboxQueueDepth_def numeral_eq_Suc)
  then obtain s where s: "SendIpiMail d f a ?s = Inr s" "ip_sent s = ip_sent ?s @ [d]"
    using len by (simp add: SendIpiMail_def boot_boxes(1) [OF assms] Let_def)
  then obtain j where j: "j < length (slots d ?s)" "slots d s = (slots d ?s)[j := Some (Mail d f a)]"
    using SendIpiMail_slots(1) [OF s(1)] by auto
  have "ipi_reach n ((ipi_boot n)\<lparr> ic_state := s, ic_signal := (ic_signal (ipi_boot n))(d := True),
      ic_accepted := ic_accepted (ipi_boot n) @ [Mail d f a] \<rparr>)" (is "ipi_reach n ?c")
    by (rule ipi_reach.step [OF ipi_reach.boot]) (rule ipi_step.send [OF s])
  moreover have "ic_pass ?c d = None" "ic_accepted ?c = [Mail d f a]" "ic_run ?c = []" by (simp_all add: ipi_boot_def)
  moreover have "j < length (slots d (ic_state ?c))" "slots d (ic_state ?c) ! j = Some (Mail d f a)" using j by simp_all
  ultimately show ?thesis by blast
qed

theorem ipi_mail_kept_witness:
  "\<exists>c. ipi_reach 2 c \<and> ic_accepted c = [Mail 1 7 9] \<and> mset (pending 1 (ic_state c)) = {# Mail 1 7 9 #} \<and> ic_signal c 1"
proof -
  obtain c j where c: "ipi_reach 2 c" "j < length (slots 1 (ic_state c))" "slots 1 (ic_state c) ! j = Some (Mail 1 7 9)"
      "ic_pass c 1 = None" "ic_accepted c = [Mail 1 7 9]" "ic_run c = []"
    using boot_send [of 1 2 7 9] by auto
  with ipi_mail_kept [OF c(1), of 1] show ?thesis by auto
qed

text \<open>A core that handles a signal while nobody sends leaves its mailbox empty.\<close>

lemma process_mail_empties:
  assumes "has_box me s" and "length (slots me s) = MailboxQueueDepth"
  shows "\<exists>s'. ProcessIpiMail (\<lambda>_ _ s. s) me s = Inr s' \<and> slots me s' = replicate MailboxQueueDepth None"
proof -
  have total: "\<exists>s'. process_slot (\<lambda>_ _ s. s) me i s = Inr s'" if "has_box me s" for i s
    using that by (auto simp: process_slot_def has_box_def Let_def split: option.split)
  have "\<exists>s'. res_fold (process_slot (\<lambda>_ _ s. s) me) [0..<k] s = Inr s' \<and> has_box me s' \<and>
      slots me s' = replicate k None @ drop k (slots me s)" if "k \<le> MailboxQueueDepth" for k
    using that
  proof (induction k)
    case 0
    then show ?case using assms(1) by simp
  next
    case (Suc k)
    then obtain t where t: "res_fold (process_slot (\<lambda>_ _ s. s) me) [0..<k] s = Inr t" "has_box me t"
        "slots me t = replicate k None @ drop k (slots me s)" by auto
    obtain u where u: "process_slot (\<lambda>_ _ s. s) me k t = Inr u" using total [OF t(2)] by blast
    have k: "k < length (slots me t)" using Suc.prems assms(2) by (simp add: t(3))
    have "slots me u = replicate (Suc k) None @ drop (Suc k) (slots me s)"
      using process_slot_slots [OF u k, of me] Suc.prems assms(2)
      by (simp add: t(3) list_update_append Cons_nth_drop_Suc [symmetric] replicate_append_same [symmetric])
    with t(1) u process_slot_box [OF u] t(2) show ?case by (auto simp: res_fold_append)
  qed
  from this [of MailboxQueueDepth] assms show ?thesis by (auto simp: ProcessIpiMail_def has_box_def)
qed

text \<open>A panic reaches every other core: all of its slots hold the handler and it gets a signal.\<close>

definition panicked :: "nat \<Rightarrow> ipi_mailbox \<Rightarrow> ipi_mailbox" where
  "panicked h mb = mb\<lparr> mb_callbacks := map (\<lambda>r. r\<lparr> mr_callback := Some h \<rparr>) (mb_callbacks mb) \<rparr>"

lemma panic_boxes:
  assumes "k \<le> length (ip_mailboxes s)"
  shows "length (ip_mailboxes (fold (panic_box h me) [0..<k] s)) = length (ip_mailboxes s) \<and>
    (\<forall>j < length (ip_mailboxes s). ip_mailboxes (fold (panic_box h me) [0..<k] s) ! j =
      (if j < k \<and> j \<noteq> me then map_option (panicked h) (ip_mailboxes s ! j) else ip_mailboxes s ! j)) \<and>
    ip_sent (fold (panic_box h me) [0..<k] s) = ip_sent s @ filter (\<lambda>j. j \<noteq> me \<and> ip_mailboxes s ! j \<noteq> None) [0..<k]"
  using assms
proof (induction k)
  case (Suc k)
  let ?t = "fold (panic_box h me) [0..<k] s"
  have k: "k < length (ip_mailboxes s)" using Suc.prems by simp
  then have same: "ip_mailboxes ?t ! k = ip_mailboxes s ! k" using Suc by simp
  show ?case
  proof (cases "ip_mailboxes s ! k = None \<or> k = me")
    case True
    then have "panic_box h me k ?t = ?t" using same by (auto simp: panic_box_def split: option.split)
    with Suc True show ?thesis by (auto simp: less_Suc_eq)
  next
    case False
    then obtain mb where mb: "ip_mailboxes s ! k = Some mb" "k \<noteq> me" by auto
    then have step: "panic_box h me k ?t = (set_mailbox k (panicked h mb) ?t)\<lparr> ip_sent := ip_sent ?t @ [k] \<rparr>"
      using same by (simp add: panic_box_def panicked_def)
    show ?thesis using Suc mb k by (auto simp: step set_mailbox_def nth_list_update less_Suc_eq)
  qed
qed simp

lemma panic_reaches:
  assumes "mailbox_of d s = Inr mb" and "d \<noteq> me"
  shows "mailbox_of d (BroadcastPanicIpi h me s) = Inr (panicked h mb) \<and> d \<in> set (drop (length (ip_sent s)) (ip_sent (BroadcastPanicIpi h me s)))"
  using panic_boxes [of "length (ip_mailboxes s)" s h me] assms
  by (auto simp: BroadcastPanicIpi_def mailbox_of_def split: if_splits option.splits)

end
