(* ===== verification/Syslib_Bitmap.thy ===== *)
theory Syslib_Bitmap
  imports Kernel_Prelude
begin

unbundle bit_operations_syntax

text \<open>
  \<open>libs/np-syslib/include/Bitmap.h\<close>: bitmaps stored in arrays of bytes. A bitmap is a list
  of bytes; an index outside of it is \<open>Bad_Index\<close>. The abstraction \<open>bits\<close> is the list
  of booleans the bytes stand for, and the locale \<open>bit_store\<close> is what the clients of a
  bitmap (page zones, slabs) rely on.
\<close>

subsection \<open>Operations\<close>

definition BitmapGet :: "u8 list \<Rightarrow> size_t \<Rightarrow> bool res" where
  "BitmapGet bitmap index =
     (let byte = index div 8; b = index AND 7
      in if byte < length bitmap then Inr (bitmap ! byte AND push_bit b 1 \<noteq> 0)
         else Inl Bad_Index)"

definition BitmapSet :: "u8 list \<Rightarrow> size_t \<Rightarrow> (bool \<times> u8 list) res" where
  "BitmapSet bitmap index =
     (let byte = index div 8; b = index AND 7
      in if byte < length bitmap
         then let prev = (bitmap ! byte AND push_bit b 1 \<noteq> 0)
              in Inr (\<not> prev, bitmap[byte := bitmap ! byte OR push_bit b 1])
         else Inl Bad_Index)"

definition BitmapClear :: "u8 list \<Rightarrow> size_t \<Rightarrow> (bool \<times> u8 list) res" where
  "BitmapClear bitmap index =
     (let byte = index div 8; b = index AND 7
      in if byte < length bitmap
         then let prev = (bitmap ! byte AND push_bit b 1 \<noteq> 0)
              in Inr (prev, bitmap[byte := bitmap ! byte AND NOT (push_bit b 1)])
         else Inl Bad_Index)"

text \<open>
  The loop of \<open>BitmapFindClear\<close> from index \<open>i\<close>; \<open>i + 8\<close> is the \<open>i += 7\<close> of the
  byte-wise skip followed by the loop's own increment. A bitmap that fits in memory has
  fewer than \<open>size_limit\<close> bits, so the index does not wrap.
\<close>

function find_clear_from :: "u8 list \<Rightarrow> size_t \<Rightarrow> size_t \<Rightarrow> size_t res" where
  "find_clear_from bitmap limit i =
     (if i < limit
      then if i div 8 < length bitmap
           then if bitmap ! (i div 8) = 0xFF then find_clear_from bitmap limit (i + 8)
                else res_bind (BitmapGet bitmap i)
                       (\<lambda>b. if b then find_clear_from bitmap limit (i + 1) else Inr i)
           else Inl Bad_Index
      else Inr limit)"
  by auto
termination
  by (relation "measure (\<lambda>(bitmap, limit, i). limit - i)") auto

definition BitmapFindClear :: "u8 list \<Rightarrow> size_t \<Rightarrow> size_t res" where
  "BitmapFindClear bitmap limit = find_clear_from bitmap limit 0"

declare find_clear_from.simps [simp del]

subsection \<open>The bits a bitmap stands for\<close>

definition bits :: "u8 list \<Rightarrow> bool list" where
  "bits bitmap = map (\<lambda>i. bit (bitmap ! (i div 8)) (i mod 8)) [0..<8 * length bitmap]"

lemma length_bits [simp]: "length (bits bitmap) = 8 * length bitmap"
  by (simp add: bits_def)

lemma nth_bits: "i < 8 * length bitmap \<Longrightarrow> bits bitmap ! i = bit (bitmap ! (i div 8)) (i mod 8)"
  by (simp add: bits_def)

lemma and_7_mod_8: "i AND 7 = i mod 8" for i :: nat
  using take_bit_eq_mask [of 3 i] by (simp add: take_bit_eq_mod mask_eq_exp_minus_1)

lemma div_8_less: "i div 8 < n \<longleftrightarrow> i < 8 * n" for i n :: nat
  by (simp add: div_less_iff_less_mult mult.commute)

lemma BitmapGet_bits:
  "BitmapGet bitmap i = (if i < length (bits bitmap) then Inr (bits bitmap ! i) else Inl Bad_Index)"
  by (simp add: BitmapGet_def Let_def and_7_mod_8 and_exp_eq_0_iff_not_bit nth_bits div_8_less)

lemma bits_update:
  assumes "i < length (bits bitmap)"
    and "\<And>j. j < 8 \<Longrightarrow> bit w j = (if j = i mod 8 then v else bit (bitmap ! (i div 8)) j)"
  shows "bits (bitmap[i div 8 := w]) = (bits bitmap)[i := v]"
proof (rule nth_equalityI)
  fix j
  assume "j < length (bits (bitmap[i div 8 := w]))"
  then have "j < 8 * length bitmap" by simp
  moreover have "j = i" if "j div 8 = i div 8" "j mod 8 = i mod 8"
    using that by (metis div_mult_mod_eq)
  ultimately show "bits (bitmap[i div 8 := w]) ! j = (bits bitmap)[i := v] ! j"
    using assms by (auto simp: nth_bits nth_list_update div_8_less)
qed simp

lemma BitmapSet_bits:
  "BitmapSet bitmap i =
     (if i < length (bits bitmap)
      then Inr (\<not> bits bitmap ! i, bitmap[i div 8 := bitmap ! (i div 8) OR push_bit (i mod 8) 1])
      else Inl Bad_Index)"
  by (simp add: BitmapSet_def Let_def and_7_mod_8 and_exp_eq_0_iff_not_bit nth_bits div_8_less)

lemma BitmapClear_bits:
  "BitmapClear bitmap i =
     (if i < length (bits bitmap)
      then Inr (bits bitmap ! i, bitmap[i div 8 := bitmap ! (i div 8) AND NOT (push_bit (i mod 8) 1)])
      else Inl Bad_Index)"
  by (simp add: BitmapClear_def Let_def and_7_mod_8 and_exp_eq_0_iff_not_bit nth_bits div_8_less)

lemma bits_set:
  "i < length (bits bitmap) \<Longrightarrow>
   bits (bitmap[i div 8 := bitmap ! (i div 8) OR 2 ^ (i mod 8)]) = (bits bitmap)[i := True]"
  by (rule bits_update) (auto simp: bit_simps)

lemma bits_clear:
  "i < length (bits bitmap) \<Longrightarrow>
   bits (bitmap[i div 8 := bitmap ! (i div 8) AND NOT (2 ^ (i mod 8))])
     = (bits bitmap)[i := False]"
  by (rule bits_update) (auto simp: bit_simps)


subsection \<open>The interface of a bitmap\<close>

locale bit_store =
  fixes view :: "'s \<Rightarrow> bool list"
    and get :: "'s \<Rightarrow> nat \<Rightarrow> bool res"
    and set_bit :: "'s \<Rightarrow> nat \<Rightarrow> (bool \<times> 's) res"
    and clear_bit :: "'s \<Rightarrow> nat \<Rightarrow> (bool \<times> 's) res"
  assumes get_view: "get s i = (if i < length (view s) then Inr (view s ! i) else Inl Bad_Index)"
    and set_view: "i < length (view s) \<Longrightarrow>
      \<exists>s'. set_bit s i = Inr (\<not> view s ! i, s') \<and> view s' = (view s)[i := True]"
    and clear_view: "i < length (view s) \<Longrightarrow>
      \<exists>s'. clear_bit s i = Inr (view s ! i, s') \<and> view s' = (view s)[i := False]"
    and set_range: "\<not> i < length (view s) \<Longrightarrow> set_bit s i = Inl Bad_Index"
    and clear_range: "\<not> i < length (view s) \<Longrightarrow> clear_bit s i = Inl Bad_Index"
begin

lemma set_InrD:
  assumes "set_bit s i = Inr (changed, s')"
  shows "i < length (view s)" "changed = (\<not> view s ! i)" "view s' = (view s)[i := True]"
  using assms set_view [of i s] set_range [of i s] by (cases "i < length (view s)"; auto)+

lemma clear_InrD:
  assumes "clear_bit s i = Inr (changed, s')"
  shows "i < length (view s)" "changed = view s ! i" "view s' = (view s)[i := False]"
  using assms clear_view [of i s] clear_range [of i s] by (cases "i < length (view s)"; auto)+

lemma get_set:
  assumes "set_bit s i = Inr (changed, s')"
  shows "get s' j = (if j = i then Inr True else get s j)"
  using set_InrD [OF assms] by (simp add: get_view)

lemma get_clear:
  assumes "clear_bit s i = Inr (changed, s')"
  shows "get s' j = (if j = i then Inr False else get s j)"
  using clear_InrD [OF assms] by (simp add: get_view)

text \<open>A bit is handed out once: the second \<open>set_bit\<close> reports that nothing changed.\<close>

lemma set_twice:
  assumes "set_bit s i = Inr (changed, s')" and "set_bit s' i = Inr (changed', s'')"
  shows "\<not> changed'"
  using set_InrD [OF assms(1)] set_InrD [OF assms(2)] by simp

lemma clear_set_view:
  assumes "set_bit s i = Inr (True, s')" and "clear_bit s' i = Inr (changed, s'')"
  shows "changed" "view s'' = view s"
  using set_InrD [OF assms(1)] clear_InrD [OF assms(2)]
  by (auto simp: list_update_same_conv)

end

interpretation bm: bit_store bits BitmapGet BitmapSet BitmapClear
  by unfold_locales
    (auto simp: BitmapGet_bits BitmapSet_bits BitmapClear_bits bits_set bits_clear
      simp del: length_bits)

subsection \<open>Finding a clear bit\<close>

lemma full_byte:
  assumes "bitmap ! (i div 8) = 0xFF" and "i < 8 * length bitmap"
  shows "bits bitmap ! i"
proof -
  have "(0xFF :: u8) = -1" by simp
  then have "bit (0xFF :: u8) (i mod 8)" by (simp only: bit_minus_1_iff) simp
  then show ?thesis using assms by (simp add: nth_bits)
qed

lemma same_byte:
  fixes i j :: nat
  assumes "i mod 8 = 0" "i \<le> j" "j < i + 8"
  shows "j div 8 = i div 8"
proof (rule div_nat_eqI)
  have "i = 8 * (i div 8)" using assms(1) by (simp add: minus_mod_eq_mult_div [symmetric])
  with assms show "8 * (i div 8) \<le> j" "j < 8 * Suc (i div 8)" by simp_all
qed

lemma find_clear_from_correct:
  assumes "limit \<le> 8 * length bitmap" and "\<forall>j<i. j < limit \<longrightarrow> bits bitmap ! j"
    and "i < limit \<longrightarrow> i mod 8 = 0 \<or> bitmap ! (i div 8) \<noteq> 0xFF"
  shows "\<exists>r\<le>limit. find_clear_from bitmap limit i = Inr r \<and> (\<forall>j<r. bits bitmap ! j) \<and>
    (r < limit \<longrightarrow> \<not> bits bitmap ! r)"
  using assms
proof (induction bitmap limit i rule: find_clear_from.induct)
  case (1 bitmap limit i)
  show ?case
  proof (cases "i < limit")
    case False
    then show ?thesis using "1.prems" by (subst find_clear_from.simps) auto
  next
    case True
    then have rng: "i div 8 < length bitmap" "i < 8 * length bitmap"
      using "1.prems"(1) by (auto simp: div_8_less)
    consider (full) "bitmap ! (i div 8) = 0xFF"
      | (set) "bitmap ! (i div 8) \<noteq> 0xFF" "bits bitmap ! i"
      | (clear) "bitmap ! (i div 8) \<noteq> 0xFF" "\<not> bits bitmap ! i" by blast
    then show ?thesis
    proof cases
      case full
      with "1.prems"(3) True have al: "i mod 8 = 0" by blast
      have "bits bitmap ! j" if "j < i + 8" "j < limit" for j
      proof (cases "j < i")
        case False
        with al that(1) have "j div 8 = i div 8" by (intro same_byte) auto
        then show ?thesis using full that "1.prems"(1) by (intro full_byte) auto
      qed (use "1.prems"(2) that in blast)
      moreover have "(i + 8) mod 8 = 0" using al by simp
      moreover have "find_clear_from bitmap limit i = find_clear_from bitmap limit (i + 8)"
        by (subst find_clear_from.simps) (simp add: True rng full)
      ultimately show ?thesis
        using "1.IH"(1) [OF True rng(1) full "1.prems"(1)] by (metis (no_types))
    next
      case set
      have "\<forall>j<i + 1. j < limit \<longrightarrow> bits bitmap ! j"
        using "1.prems"(2) set(2) by (metis add.commute less_SucE plus_1_eq_Suc)
      moreover have "(i + 1) mod 8 = 0 \<or> (i + 1) div 8 = i div 8" by (simp add: div_Suc)
      ultimately show ?thesis
        using "1.IH"(2) [OF True rng(1) set(1) _ "1.prems"(1), of True] set True rng
        by (subst find_clear_from.simps) (auto simp: BitmapGet_bits)
    next
      case clear
      then show ?thesis using "1.prems"(2) True rng
        by (subst find_clear_from.simps) (auto simp: BitmapGet_bits)
    qed
  qed
qed

text \<open>
  \<open>BitmapFindClear\<close> returns the first clear bit below \<open>limit\<close>, or \<open>limit\<close> if there is
  none; the byte-wise skip never passes over a clear bit.
\<close>

lemma BitmapFindClear_correct:
  assumes "limit \<le> 8 * length bitmap"
  shows "\<exists>r\<le>limit. BitmapFindClear bitmap limit = Inr r \<and> (\<forall>j<r. bits bitmap ! j) \<and>
    (r < limit \<longrightarrow> \<not> bits bitmap ! r)"
  unfolding BitmapFindClear_def by (rule find_clear_from_correct [OF assms]) simp_all

subsection \<open>Properties\<close>

text \<open>Inside the bitmap, \<open>BitmapSet\<close> and \<open>BitmapClear\<close> change exactly the addressed bit,
  report whether they changed it, and \<open>BitmapGet\<close> reads it back; a bit set twice is reported
  as changed only once.\<close>

lemma bitmap_set_clear_get:
  assumes "i < 8 * length bitmap"
  shows "\<exists>b1 b2. BitmapSet bitmap i = Inr (\<not> bits bitmap ! i, b1) \<and>
    (\<forall>j. BitmapGet b1 j = (if j = i then Inr True else BitmapGet bitmap j)) \<and>
    (\<exists>b. BitmapSet b1 i = Inr (False, b)) \<and>
    BitmapClear b1 i = Inr (True, b2) \<and> bits b2 = (bits bitmap)[i := False] \<and>
    (\<forall>j. BitmapGet b2 j = (if j = i then Inr False else BitmapGet bitmap j))"
proof -
  obtain b1 where b1: "BitmapSet bitmap i = Inr (\<not> bits bitmap ! i, b1)" "bits b1 = (bits bitmap)[i := True]"
    using bm.set_view [of i bitmap] assms by auto
  moreover obtain b where "BitmapSet b1 i = Inr (\<not> bits b1 ! i, b)"
    using bm.set_view [of i b1] b1(2) assms by (metis length_bits length_list_update)
  moreover obtain b2 where b2: "BitmapClear b1 i = Inr (bits b1 ! i, b2)" "bits b2 = (bits b1)[i := False]"
    using bm.clear_view [of i b1] b1(2) assms by (metis length_bits length_list_update)
  moreover have "bits b1 ! i" using b1(2) assms by simp
  ultimately show ?thesis using bm.get_set [OF b1(1)] bm.get_clear [OF b2(1)] by simp
qed

lemma bitmap_set_clear_get_example:
  "\<exists>b1 b2. BitmapSet [0x0F] 6 = Inr (\<not> bits [0x0F] ! 6, b1) \<and>
    (\<forall>j. BitmapGet b1 j = (if j = 6 then Inr True else BitmapGet [0x0F] j)) \<and>
    (\<exists>b. BitmapSet b1 6 = Inr (False, b)) \<and>
    BitmapClear b1 6 = Inr (True, b2) \<and> bits b2 = (bits [0x0F])[6 := False] \<and>
    (\<forall>j. BitmapGet b2 j = (if j = 6 then Inr False else BitmapGet [0x0F] j))"
  by (rule bitmap_set_clear_get) simp

text \<open>\<open>BitmapFindClear\<close> terminates, stays inside the bitmap, and returns the first clear bit
  below the limit, or the limit if every bit below it is set; the byte-wise skip never passes
  over a clear bit.\<close>

lemma BitmapFindClear_first:
  assumes "limit \<le> 8 * length bitmap"
  shows "\<exists>r\<le>limit. BitmapFindClear bitmap limit = Inr r \<and> (\<forall>j<r. bits bitmap ! j) \<and>
    (r < limit \<longrightarrow> \<not> bits bitmap ! r)"
  by (rule BitmapFindClear_correct [OF assms])

lemma BitmapFindClear_first_example:
  "\<exists>r\<le>12. BitmapFindClear [0xFF, 0x07] 12 = Inr r \<and> (\<forall>j<r. bits [0xFF, 0x07] ! j) \<and>
    (r < 12 \<longrightarrow> \<not> bits [0xFF, 0x07] ! r)"
  by (rule BitmapFindClear_first) simp

end
