(* ===== verification/Syslib_Memory.thy ===== *)
theory Syslib_Memory
  imports Kernel_Prelude
begin

text \<open>
  \<open>libs/np-syslib/Memory.cpp\<close>: the byte-wise memory routines. Memory is one address space,
  a function from addresses to bytes, because a copy's ranges may overlap. The loops are
  written over the index the source uses; the specification \<open>copied\<close> is the memory after
  an atomic copy.
\<close>

type_synonym memory = "size_t \<Rightarrow> u8"

subsection \<open>Operations\<close>

fun memset_loop :: "memory \<Rightarrow> size_t \<Rightarrow> u8 \<Rightarrow> size_t \<Rightarrow> size_t \<Rightarrow> memory" where
  "memset_loop m start value i 0 = m"
| "memset_loop m start value i (Suc n) = memset_loop (m(start + i := value)) start value (i + 1) n"

definition memset :: "memory \<Rightarrow> size_t \<Rightarrow> u8 \<Rightarrow> size_t \<Rightarrow> memory" where
  "memset m start value count = memset_loop m start value 0 count"

fun memcopy_loop :: "memory \<Rightarrow> size_t \<Rightarrow> size_t \<Rightarrow> size_t \<Rightarrow> size_t \<Rightarrow> memory" where
  "memcopy_loop m si di i 0 = m"
| "memcopy_loop m si di i (Suc n) = memcopy_loop (m(di + i := m (si + i))) si di (i + 1) n"

definition memcopy :: "memory \<Rightarrow> size_t \<Rightarrow> size_t \<Rightarrow> size_t \<Rightarrow> memory" where
  "memcopy m source dest count = memcopy_loop m source dest 0 count"

definition memcopy_offset :: "memory \<Rightarrow> size_t \<Rightarrow> size_t \<Rightarrow> size_t \<Rightarrow> size_t \<Rightarrow> size_t \<Rightarrow> memory" where
  "memcopy_offset m source sourceOffset dest destOffset count =
     memcopy_loop m (source + sourceOffset) (dest + destOffset) 0 count"

definition memcpy :: "memory \<Rightarrow> size_t \<Rightarrow> size_t \<Rightarrow> size_t \<Rightarrow> memory" where
  "memcpy m dest src len = memcopy m src dest len"

text \<open>\<open>memmove\<close> runs from the last byte down to the first, whatever the ranges are.\<close>

fun memmove_loop :: "memory \<Rightarrow> size_t \<Rightarrow> size_t \<Rightarrow> size_t \<Rightarrow> memory" where
  "memmove_loop m di si 0 = m"
| "memmove_loop m di si (Suc i) = memmove_loop (m(di + i := m (si + i))) di si i"

definition memmove :: "memory \<Rightarrow> size_t \<Rightarrow> size_t \<Rightarrow> size_t \<Rightarrow> memory" where
  "memmove m dest src len = memmove_loop m dest src len"

fun memcmp_loop :: "memory \<Rightarrow> size_t \<Rightarrow> size_t \<Rightarrow> size_t \<Rightarrow> size_t \<Rightarrow> int" where
  "memcmp_loop m ai bi i 0 = 0"
| "memcmp_loop m ai bi i (Suc n) =
     (if m (ai + i) > m (bi + i) then 1
      else if m (bi + i) > m (ai + i) then - 1
      else memcmp_loop m ai bi (i + 1) n)"

definition memcmp :: "memory \<Rightarrow> size_t \<Rightarrow> size_t \<Rightarrow> size_t \<Rightarrow> int" where
  "memcmp m a b count = memcmp_loop m a b 0 count"

definition memcmp_offset :: "memory \<Rightarrow> size_t \<Rightarrow> size_t \<Rightarrow> size_t \<Rightarrow> size_t \<Rightarrow> size_t \<Rightarrow> int" where
  "memcmp_offset m a offsetA b offsetB count = memcmp_loop m (a + offsetA) (b + offsetB) 0 count"

text \<open>
  \<open>memfirst\<close> with an upper limit of 0 searches without a bound, so it returns only if the
  byte is there: not returning is \<open>None\<close>.
\<close>

partial_function (option) memfirst_from :: "memory \<Rightarrow> size_t \<Rightarrow> size_t \<Rightarrow> u8 \<Rightarrow> size_t \<Rightarrow> size_t option" where
  "memfirst_from m start i target upperLimit =
     (if i < upperLimit \<or> upperLimit = 0
      then if m (start + i) = target then Some i
           else memfirst_from m start (i + 1) target upperLimit
      else Some upperLimit)"

definition memfirst :: "memory \<Rightarrow> size_t \<Rightarrow> size_t \<Rightarrow> u8 \<Rightarrow> size_t \<Rightarrow> size_t option" where
  "memfirst m buff offset target upperLimit = memfirst_from m buff offset target upperLimit"

subsection \<open>Copies\<close>

definition copied :: "memory \<Rightarrow> size_t \<Rightarrow> size_t \<Rightarrow> size_t \<Rightarrow> memory" where
  "copied m src dest n = (\<lambda>a. if dest \<le> a \<and> a < dest + n then m (src + (a - dest)) else m a)"

lemma memset_loop_apply:
  "memset_loop m start v i n a = (if start + i \<le> a \<and> a < start + i + n then v else m a)"
proof (induction m start v i n rule: memset_loop.induct)
  case (2 m start v i n)
  have 1: "memset_loop m start v i (Suc n) a = memset_loop (m(start + i := v)) start v (i + 1) n a"
    by simp
  show ?case unfolding 1 by (subst "2.IH") auto
qed auto

lemma memset_correct: "memset m start v n a = (if start \<le> a \<and> a < start + n then v else m a)"
  by (simp add: memset_def memset_loop_apply)

lemma memcopy_loop_apply:
  assumes "di \<le> si \<or> si + i + n \<le> di + i"
  shows "memcopy_loop m si di i n a =
    (if di + i \<le> a \<and> a < di + i + n then m (si + (a - di)) else m a)"
  using assms
proof (induction m si di i n rule: memcopy_loop.induct)
  case (2 m si di i n)
  have 1: "memcopy_loop m si di i (Suc n) a = memcopy_loop (m(di + i := m (si + i))) si di (i + 1) n a"
    by simp
  show ?case unfolding 1 using "2.prems" by (subst "2.IH") auto
qed auto

lemma memcopy_correct:
  assumes "dest \<le> src \<or> src + n \<le> dest"
  shows "memcopy m src dest n = copied m src dest n"
  using assms by (auto simp: memcopy_def copied_def memcopy_loop_apply fun_eq_iff)

lemma memmove_loop_apply:
  assumes "si \<le> di \<or> di + n \<le> si"
  shows "memmove_loop m di si n a = (if di \<le> a \<and> a < di + n then m (si + (a - di)) else m a)"
  using assms
proof (induction m di si n rule: memmove_loop.induct)
  case (2 m di si i)
  have 1: "memmove_loop m di si (Suc i) a = memmove_loop (m(di + i := m (si + i))) di si i a"
    by simp
  show ?case unfolding 1 using "2.prems" by (subst "2.IH") auto
qed auto

lemma memmove_correct:
  assumes "src \<le> dest \<or> dest + n \<le> src"
  shows "memmove m dest src n = copied m src dest n"
  using assms by (auto simp: memmove_def copied_def memmove_loop_apply fun_eq_iff)

text \<open>
  Moving two bytes down by one is not an atomic copy: the byte-wise loop runs from the end
  and overwrites the source of its last step.
\<close>

lemma memmove_overlap_wrong: "memmove (\<lambda>a. of_nat a) 0 1 2 \<noteq> copied (\<lambda>a. of_nat a) 1 0 2"
proof
  assume "memmove (\<lambda>a. of_nat a) 0 1 2 = copied (\<lambda>a. of_nat a) 1 0 2"
  then have "memmove (\<lambda>a. of_nat a) 0 1 2 0 = copied (\<lambda>a. of_nat a) 1 0 2 0" by (rule fun_cong)
  then show False by (simp add: memmove_def copied_def numeral_2_eq_2)
qed

subsection \<open>Comparison and search\<close>

lemma memcmp_loop_zero: "memcmp_loop m a b i n = 0 \<longleftrightarrow> (\<forall>k<n. m (a + i + k) = m (b + i + k))"
proof (induction m a b i n rule: memcmp_loop.induct)
  case (2 m a b i n)
  have "(\<forall>k<Suc n. m (a + i + k) = m (b + i + k)) \<longleftrightarrow>
    m (a + i) = m (b + i) \<and> (\<forall>k<n. m (a + (i + 1) + k) = m (b + (i + 1) + k))"
    by (auto simp: less_Suc_eq_0_disj)
  then show ?case using 2 by (auto simp del: add_Suc_right)
qed simp

lemma memcmp_equal: "memcmp m a b n = 0 \<longleftrightarrow> (\<forall>k<n. m (a + k) = m (b + k))"
  by (simp add: memcmp_def memcmp_loop_zero)

lemma memfirst_from_hit:
  assumes "i \<le> k" "m (start + k) = target" "\<forall>j. i \<le> j \<and> j < k \<longrightarrow> m (start + j) \<noteq> target"
    and "k < limit \<or> limit = 0"
  shows "memfirst_from m start i target limit = Some k"
  using assms
proof (induction "k - i" arbitrary: i)
  case 0
  then show ?case by (subst memfirst_from.simps) auto
next
  case (Suc d)
  then have "memfirst_from m start (i + 1) target limit = Some k" by (intro Suc) auto
  then show ?case using Suc.prems Suc.hyps(2) by (subst memfirst_from.simps) auto
qed

lemma memfirst_from_miss:
  assumes "i \<le> limit" "0 < limit" "\<forall>j. i \<le> j \<and> j < limit \<longrightarrow> m (start + j) \<noteq> target"
  shows "memfirst_from m start i target limit = Some limit"
  using assms
proof (induction "limit - i" arbitrary: i)
  case 0
  then show ?case by (subst memfirst_from.simps) auto
next
  case (Suc d)
  then have "memfirst_from m start (i + 1) target limit = Some limit" by (intro Suc) auto
  then show ?case using Suc.prems Suc.hyps(2) by (subst memfirst_from.simps) auto
qed

subsection \<open>Properties\<close>

text \<open>\<open>memcopy\<close> is an atomic copy when the destination is not above the source or the
  ranges do not overlap; \<open>memmove\<close> is one when the destination is not below the source or the
  ranges do not overlap.\<close>

lemma copies_correct:
  assumes "dest \<le> src \<or> src + n \<le> dest" and "src' \<le> dest' \<or> dest' + n' \<le> src'"
  shows "memcopy m src dest n = copied m src dest n \<and> memmove m dest' src' n' = copied m src' dest' n'"
  using assms by (simp add: memcopy_correct memmove_correct)

lemma copies_correct_example:
  "memcopy (\<lambda>a. of_nat a) 4 2 8 = copied (\<lambda>a. of_nat a) 4 2 8 \<and>
   memmove (\<lambda>a. of_nat a) 4 2 8 = copied (\<lambda>a. of_nat a) 2 4 8"
  by (rule copies_correct) simp_all

end
