(* ===== verification/Linked_List.thy ===== *)
theory Linked_List
  imports Kernel_Prelude
begin

text \<open>
  \<open>libs/np-syslib/include/containers/LinkedList.h\<close>: the intrusive doubly linked list and the
  owning list built on it. A node is an address; the \<open>next\<close> and \<open>prev\<close> fields of all
  nodes are two functions of the list's state. \<open>dlist\<close> relates a state to the sequence of
  its nodes, and every operation is shown to refine the operation on sequences.
\<close>

subsection \<open>The intrusive list\<close>

record 'p dl_state =
  dl_next :: "'p \<Rightarrow> 'p option"
  dl_prev :: "'p \<Rightarrow> 'p option"
  dl_head :: "'p option"
  dl_tail :: "'p option"
  dl_length :: size_t

definition dl_new :: "('p \<Rightarrow> 'p option) \<Rightarrow> ('p \<Rightarrow> 'p option) \<Rightarrow> 'p dl_state" where
  "dl_new nx pv = \<lparr> dl_next = nx, dl_prev = pv, dl_head = None, dl_tail = None, dl_length = 0 \<rparr>"

definition upd_opt :: "('p \<Rightarrow> 'a) \<Rightarrow> 'p option \<Rightarrow> 'a \<Rightarrow> 'p \<Rightarrow> 'a" where
  "upd_opt f p v = (case p of None \<Rightarrow> f | Some q \<Rightarrow> f(q := v))"

definition dl_PushFront :: "'p dl_state \<Rightarrow> 'p \<Rightarrow> 'p dl_state" where
  "dl_PushFront s e =
     s\<lparr> dl_next := (dl_next s)(e := dl_head s),
        dl_prev := upd_opt ((dl_prev s)(e := None)) (dl_head s) (Some e),
        dl_tail := (if dl_tail s = None then Some e else dl_tail s),
        dl_head := Some e,
        dl_length := sz_add (dl_length s) 1 \<rparr>"

definition dl_PushBack :: "'p dl_state \<Rightarrow> 'p \<Rightarrow> 'p dl_state" where
  "dl_PushBack s e =
     s\<lparr> dl_next := upd_opt ((dl_next s)(e := None)) (dl_tail s) (Some e),
        dl_prev := (dl_prev s)(e := dl_tail s),
        dl_head := (if dl_head s = None then Some e else dl_head s),
        dl_tail := Some e,
        dl_length := sz_add (dl_length s) 1 \<rparr>"

definition dl_PopFront :: "'p dl_state \<Rightarrow> ('p \<times> 'p dl_state) res" where
  "dl_PopFront s =
     (case dl_head s of
        None \<Rightarrow> Inl Null_Deref
      | Some e \<Rightarrow>
          let s' = (case dl_next s e of
                      Some n \<Rightarrow> s\<lparr> dl_prev := (dl_prev s)(n := None), dl_head := Some n \<rparr>
                    | None \<Rightarrow> s\<lparr> dl_head := None, dl_tail := None \<rparr>)
          in Inr (e, s'\<lparr> dl_length := sz_sub (dl_length s) 1 \<rparr>))"

definition dl_PopBack :: "'p dl_state \<Rightarrow> ('p \<times> 'p dl_state) res" where
  "dl_PopBack s =
     (case dl_tail s of
        None \<Rightarrow> Inl Null_Deref
      | Some e \<Rightarrow>
          let s' = (case dl_prev s e of
                      Some n \<Rightarrow> s\<lparr> dl_next := (dl_next s)(n := None), dl_tail := Some n \<rparr>
                    | None \<Rightarrow> s\<lparr> dl_head := None, dl_tail := None \<rparr>)
          in Inr (e, s'\<lparr> dl_length := sz_sub (dl_length s) 1 \<rparr>))"

definition dl_Insert :: "'p dl_state \<Rightarrow> 'p option \<Rightarrow> 'p \<Rightarrow> ('p option \<times> 'p dl_state) res" where
  "dl_Insert s pos e =
     (if pos = dl_head s then let s' = dl_PushFront s e in Inr (dl_head s', s')
      else case pos of
        None \<Rightarrow> let s' = dl_PushBack s e in Inr (dl_tail s', s')
      | Some w \<Rightarrow>
          (case dl_prev s w of
             None \<Rightarrow> Inl Null_Deref
           | Some p \<Rightarrow>
               Inr (Some e,
                 s\<lparr> dl_next := (dl_next s)(p := Some e, e := Some w),
                    dl_prev := (dl_prev s)(w := Some e, e := Some p),
                    dl_length := sz_add (dl_length s) 1 \<rparr>)))"

definition dl_Erase :: "'p dl_state \<Rightarrow> 'p \<Rightarrow> ('p \<times> 'p dl_state) res" where
  "dl_Erase s e =
     (if Some e = dl_head s then dl_PopFront s
      else if Some e = dl_tail s then dl_PopBack s
      else case dl_prev s e of
        None \<Rightarrow> Inl Null_Deref
      | Some p \<Rightarrow>
          let nx = (dl_next s)(p := dl_next s e)
          in case nx e of
               None \<Rightarrow> Inl Null_Deref
             | Some n \<Rightarrow>
                 let pv = (dl_prev s)(n := dl_prev s e)
                 in Inr (e, s\<lparr> dl_next := nx(e := None), dl_prev := pv(e := None),
                              dl_length := sz_sub (dl_length s) 1 \<rparr>))"

subsection \<open>Doubly linked segments\<close>

primrec dseg :: "('p \<Rightarrow> 'p option) \<Rightarrow> ('p \<Rightarrow> 'p option) \<Rightarrow> 'p option \<Rightarrow> 'p option \<Rightarrow> 'p list
    \<Rightarrow> 'p option \<Rightarrow> 'p option \<Rightarrow> bool" where
  "dseg nx pv a p [] b q = (a = b \<and> p = q)"
| "dseg nx pv a p (x # xs) b q = (p = Some x \<and> pv x = a \<and> dseg nx pv (Some x) (nx x) xs b q)"

lemma dseg_append:
  "dseg nx pv a p (xs @ ys) b q \<longleftrightarrow> (\<exists>c r. dseg nx pv a p xs c r \<and> dseg nx pv c r ys b q)"
  by (induction xs arbitrary: a p) auto

lemma dseg_segment: "dseg nx pv a p xs b q \<Longrightarrow> segment nx p xs q"
  by (induction xs arbitrary: a p) auto

lemma dseg_distinct: "dseg nx pv a p xs b None \<Longrightarrow> distinct xs"
  using dseg_segment linked_segment linked_distinct by metis

lemma dseg_upd [simp]:
  "x \<notin> set xs \<Longrightarrow> dseg (nx(x := v)) pv a p xs b q = dseg nx pv a p xs b q"
  "x \<notin> set xs \<Longrightarrow> dseg nx (pv(x := v)) a p xs b q = dseg nx pv a p xs b q"
  by (induction xs arbitrary: a p) auto

text \<open>The node before a segment and the node behind it may be exchanged.\<close>

lemma dseg_relink_front:
  "dseg nx pv a (Some x) (x # xs) b q \<Longrightarrow> x \<notin> set xs \<Longrightarrow>
   dseg nx (pv(x := a')) a' (Some x) (x # xs) b q"
  by simp

lemma dseg_relink_back:
  "dseg nx pv a p (xs @ [x]) b q \<Longrightarrow> x \<notin> set xs \<Longrightarrow>
   dseg (nx(x := q')) pv a p (xs @ [x]) (Some x) q'"
  by (auto simp: dseg_append)

definition dlist :: "'p dl_state \<Rightarrow> 'p list \<Rightarrow> bool" where
  "dlist s xs \<longleftrightarrow>
     dseg (dl_next s) (dl_prev s) None (dl_head s) xs (dl_tail s) None \<and>
     dl_length s = length xs \<and> length xs < size_limit"

lemma dlist_distinct: "dlist s xs \<Longrightarrow> distinct xs"
  by (auto simp: dlist_def dest: dseg_distinct)

lemma dlist_new: "dlist (dl_new nx pv) []"
  by (simp add: dlist_def dl_new_def)

lemma dlist_head: "dlist s xs \<Longrightarrow> dl_head s = (case xs of [] \<Rightarrow> None | x # _ \<Rightarrow> Some x)"
  by (auto simp: dlist_def split: list.split)

lemma dlist_tail: "dlist s xs \<Longrightarrow> dl_tail s = (if xs = [] then None else Some (last xs))"
  by (cases xs rule: rev_cases) (auto simp: dlist_def dseg_append)


subsection \<open>Refinement of the operations on sequences\<close>

lemma dlist_PushFront:
  assumes "dlist s xs" "e \<notin> set xs" "length xs + 1 < size_limit"
  shows "dlist (dl_PushFront s e) (e # xs)"
proof (cases xs)
  case Nil
  with assms show ?thesis by (auto simp: dlist_def dl_PushFront_def upd_opt_def sz_simps)
next
  case (Cons y ys)
  then have "y \<notin> set ys" using dlist_distinct [OF assms(1)] by simp
  with assms Cons show ?thesis
    by (auto simp: dlist_tail [OF assms(1)] dlist_def dl_PushFront_def upd_opt_def sz_simps)
qed

lemma dlist_PushBack:
  assumes "dlist s xs" "e \<notin> set xs" "length xs + 1 < size_limit"
  shows "dlist (dl_PushBack s e) (xs @ [e])"
proof (cases xs rule: rev_cases)
  case Nil
  with assms show ?thesis by (auto simp: dlist_def dl_PushBack_def upd_opt_def sz_simps)
next
  case (snoc ys y)
  then have "y \<notin> set ys" "dl_tail s = Some y" "dl_head s \<noteq> None"
    using dlist_distinct [OF assms(1)] dlist_tail [OF assms(1)] dlist_head [OF assms(1)]
    by (auto split: list.split)
  with assms snoc show ?thesis
    by (auto simp: dlist_def dl_PushBack_def upd_opt_def dseg_append sz_simps)
qed

lemma dlist_PopFront:
  assumes "dlist s (x # xs)"
  shows "\<exists>s'. dl_PopFront s = Inr (x, s') \<and> dlist s' xs"
proof (cases xs)
  case Nil
  then have "dl_head s = Some x" "dl_tail s = Some x"
    using dlist_head [OF assms] dlist_tail [OF assms] by simp_all
  with assms Nil show ?thesis by (auto simp: dlist_def dl_PopFront_def sz_simps)
next
  case (Cons y ys)
  then have "y \<notin> set ys" using dlist_distinct [OF assms] by simp
  with assms Cons show ?thesis by (auto simp: dlist_def dl_PopFront_def sz_simps)
qed

lemma dlist_PopBack:
  assumes "dlist s (xs @ [x])"
  shows "\<exists>s'. dl_PopBack s = Inr (x, s') \<and> dlist s' xs"
proof (cases xs rule: rev_cases)
  case Nil
  then have "dl_head s = Some x" "dl_tail s = Some x"
    using dlist_head [OF assms] dlist_tail [OF assms] by simp_all
  with assms Nil show ?thesis by (auto simp: dlist_def dl_PopBack_def sz_simps)
next
  case (snoc ys y)
  then have "y \<notin> set ys" "dl_tail s = Some x"
    using dlist_distinct [OF assms] dlist_tail [OF assms] by simp_all
  with assms snoc show ?thesis by (auto simp: dlist_def dl_PopBack_def dseg_append sz_simps)
qed

lemma dlist_Pop_empty:
  assumes "dlist s []"
  shows "dl_PopFront s = Inl Null_Deref" "dl_PopBack s = Inl Null_Deref"
  using assms by (auto simp: dlist_def dl_PopFront_def dl_PopBack_def)

lemma dlist_Insert_inner:
  assumes "dlist s (as @ a # w # bs)" "e \<notin> set (as @ a # w # bs)"
    and "length (as @ a # w # bs) + 1 < size_limit"
  shows "\<exists>s'. dl_Insert s (Some w) e = Inr (Some e, s') \<and> dlist s' (as @ a # e # w # bs)"
proof -
  have d: "distinct (as @ a # w # bs)" using assms(1) by (rule dlist_distinct)
  then have "dl_head s \<noteq> Some w" using dlist_head [OF assms(1)] by (cases as) auto
  moreover have "dl_prev s w = Some a" using assms(1) by (auto simp: dlist_def dseg_append)
  ultimately show ?thesis
    using assms d by (auto simp: dlist_def dl_Insert_def dseg_append sz_simps)
qed

text \<open>
  \<open>Insert\<close> puts the element before the position, at the end when the position is \<open>End()\<close>.
\<close>

lemma dlist_Insert:
  assumes "dlist s (as @ bs)" "e \<notin> set (as @ bs)" "length (as @ bs) + 1 < size_limit"
  shows "\<exists>s'. dl_Insert s (case bs of [] \<Rightarrow> None | w # _ \<Rightarrow> Some w) e = Inr (Some e, s') \<and>
    dlist s' (as @ e # bs)"
proof (cases as rule: rev_cases)
  case Nil
  with assms have "dl_head s = (case bs of [] \<Rightarrow> None | w # _ \<Rightarrow> Some w)"
    using dlist_head by fastforce
  then show ?thesis using dlist_PushFront [OF assms] Nil
    by (simp add: dl_Insert_def Let_def) (simp add: dl_PushFront_def)
next
  case (snoc as' a)
  show ?thesis
  proof (cases bs)
    case Nil
    then have "None \<noteq> dl_head s" using dlist_head [OF assms(1)] snoc by (auto split: list.split)
    then show ?thesis using dlist_PushBack [OF assms] Nil
      by (simp add: dl_Insert_def Let_def) (simp add: dl_PushBack_def)
  next
    case (Cons w bs')
    then show ?thesis using dlist_Insert_inner [of s as' a w bs' e] assms snoc by simp
  qed
qed

lemma dlist_Erase_inner:
  assumes "dlist s (as @ a # e # b # bs)"
  shows "\<exists>s'. dl_Erase s e = Inr (e, s') \<and> dlist s' (as @ a # b # bs)"
proof -
  have d: "distinct (as @ a # e # b # bs)" using assms(1) by (rule dlist_distinct)
  then have "dl_head s \<noteq> Some e" using dlist_head [OF assms(1)] by (cases as) auto
  moreover have "dl_tail s \<noteq> Some e" using dlist_tail [OF assms(1)] d by auto
  moreover have "dl_prev s e = Some a" "dl_next s e = Some b"
    using assms(1) by (auto simp: dlist_def dseg_append)
  ultimately show ?thesis
    using assms d by (auto simp: dlist_def dl_Erase_def dseg_append sz_simps Let_def)
qed

lemma dlist_Erase:
  assumes "dlist s (as @ e # bs)"
  shows "\<exists>s'. dl_Erase s e = Inr (e, s') \<and> dlist s' (as @ bs)"
proof (cases as rule: rev_cases)
  case Nil
  with assms dlist_head [OF assms] show ?thesis
    using dlist_PopFront [of s e bs] by (simp add: dl_Erase_def)
next
  case (snoc as' a)
  show ?thesis
  proof (cases bs)
    case Nil
    have "distinct (as @ e # bs)" using assms by (rule dlist_distinct)
    then have "dl_head s \<noteq> Some e" using dlist_head [OF assms] snoc by (cases as') auto
    moreover have "dl_tail s = Some e" using dlist_tail [OF assms] Nil by simp
    ultimately show ?thesis
      using dlist_PopBack [of s as e] assms Nil by (simp add: dl_Erase_def)
  next
    case (Cons b bs')
    then show ?thesis using dlist_Erase_inner [of s as' a e b bs'] assms snoc by simp
  qed
qed


subsection \<open>The owning list\<close>

text \<open>
  \<open>sl::LinkedList\<close> allocates a node for every value. The allocator is a template parameter
  of the class, here a record of its two operations on a heap state \<open>'h\<close>; \<open>sz_item\<close> and
  \<open>sz_value\<close> are \<open>sizeof(Item)\<close> and \<open>sizeof(T)\<close>.
\<close>

record ('p, 'h) allocator =
  Allocate :: "'h \<Rightarrow> size_t \<Rightarrow> 'p \<times> 'h"
  Deallocate :: "'h \<Rightarrow> 'p \<Rightarrow> size_t \<Rightarrow> 'h"

record ('p, 'v, 'h) ol_state =
  ol_list :: "'p dl_state"
  ol_entry :: "'p \<Rightarrow> 'v"
  ol_heap :: 'h

definition ol_new_item ::
  "('p, 'h) allocator \<Rightarrow> size_t \<Rightarrow> ('p, 'v, 'h) ol_state \<Rightarrow> 'v \<Rightarrow> 'p \<times> ('p, 'v, 'h) ol_state" where
  "ol_new_item A sz_item s v =
     (let (e, h) = Allocate A (ol_heap s) sz_item
      in (e, s\<lparr> ol_entry := (ol_entry s)(e := v), ol_heap := h \<rparr>))"

definition ol_PushFront ::
  "('p, 'h) allocator \<Rightarrow> size_t \<Rightarrow> ('p, 'v, 'h) ol_state \<Rightarrow> 'v \<Rightarrow> ('p, 'v, 'h) ol_state" where
  "ol_PushFront A sz_item s v =
     (let (e, s1) = ol_new_item A sz_item s v in s1\<lparr> ol_list := dl_PushFront (ol_list s1) e \<rparr>)"

definition ol_PushBack ::
  "('p, 'h) allocator \<Rightarrow> size_t \<Rightarrow> ('p, 'v, 'h) ol_state \<Rightarrow> 'v \<Rightarrow> ('p, 'v, 'h) ol_state" where
  "ol_PushBack A sz_item s v =
     (let (e, s1) = ol_new_item A sz_item s v in s1\<lparr> ol_list := dl_PushBack (ol_list s1) e \<rparr>)"

definition ol_Insert ::
  "('p, 'h) allocator \<Rightarrow> size_t \<Rightarrow> ('p, 'v, 'h) ol_state \<Rightarrow> 'p option \<Rightarrow> 'v
    \<Rightarrow> ('p option \<times> ('p, 'v, 'h) ol_state) res" where
  "ol_Insert A sz_item s pos v =
     (let (e, s1) = ol_new_item A sz_item s v
      in res_bind (dl_Insert (ol_list s1) pos e) (\<lambda>(it, l). Inr (it, s1\<lparr> ol_list := l \<rparr>)))"

definition ol_release ::
  "('p, 'h) allocator \<Rightarrow> size_t \<Rightarrow> ('p, 'v, 'h) ol_state \<Rightarrow> 'p \<times> 'p dl_state
    \<Rightarrow> 'v \<times> ('p, 'v, 'h) ol_state" where
  "ol_release A sz_value s el =
     (case el of (e, l) \<Rightarrow>
       (ol_entry s e, s\<lparr> ol_list := l, ol_heap := Deallocate A (ol_heap s) e sz_value \<rparr>))"

definition ol_PopFront ::
  "('p, 'h) allocator \<Rightarrow> size_t \<Rightarrow> ('p, 'v, 'h) ol_state \<Rightarrow> ('v \<times> ('p, 'v, 'h) ol_state) res" where
  "ol_PopFront A sz_value s = res_bind (dl_PopFront (ol_list s)) (\<lambda>el. Inr (ol_release A sz_value s el))"

definition ol_PopBack ::
  "('p, 'h) allocator \<Rightarrow> size_t \<Rightarrow> ('p, 'v, 'h) ol_state \<Rightarrow> ('v \<times> ('p, 'v, 'h) ol_state) res" where
  "ol_PopBack A sz_value s = res_bind (dl_PopBack (ol_list s)) (\<lambda>el. Inr (ol_release A sz_value s el))"

definition ol_Erase ::
  "('p, 'h) allocator \<Rightarrow> size_t \<Rightarrow> ('p, 'v, 'h) ol_state \<Rightarrow> 'p \<Rightarrow> ('v \<times> ('p, 'v, 'h) ol_state) res" where
  "ol_Erase A sz_value s e =
     res_bind (dl_Erase (ol_list s) e) (\<lambda>(_, l). Inr (ol_release A sz_value s (e, l)))"

text \<open>
  What the list relies on: an allocation is not one of the live blocks, and a deallocation
  ends the life of its block only.
\<close>

definition allocator_ok :: "('p, 'h) allocator \<Rightarrow> ('h \<Rightarrow> 'p set) \<Rightarrow> bool" where
  "allocator_ok A live \<longleftrightarrow>
     (\<forall>h n. fst (Allocate A h n) \<notin> live h \<and>
            live (snd (Allocate A h n)) = insert (fst (Allocate A h n)) (live h)) \<and>
     (\<forall>h p n. live (Deallocate A h p n) = live h - {p})"

definition olist :: "('h \<Rightarrow> 'p set) \<Rightarrow> ('p, 'v, 'h) ol_state \<Rightarrow> 'p list \<Rightarrow> 'v list \<Rightarrow> bool" where
  "olist live s xs vs \<longleftrightarrow>
     dlist (ol_list s) xs \<and> set xs \<subseteq> live (ol_heap s) \<and> vs = map (ol_entry s) xs"

lemma ol_new_item_fresh:
  assumes "allocator_ok A live" "olist live s xs vs" "ol_new_item A n s v = (e, s1)"
  shows "e \<notin> set xs" "dlist (ol_list s1) xs" "insert e (set xs) \<subseteq> live (ol_heap s1)"
    "map (ol_entry s1) xs = vs" "ol_entry s1 e = v"
  using assms by (auto simp: allocator_ok_def olist_def ol_new_item_def fst_def snd_def
      split: prod.splits)


lemma olist_PushFront:
  assumes "allocator_ok A live" "olist live s xs vs" "length xs + 1 < size_limit"
  shows "\<exists>e. olist live (ol_PushFront A n s v) (e # xs) (v # vs)"
proof -
  obtain e s1 where e: "ol_new_item A n s v = (e, s1)" by fastforce
  note f = ol_new_item_fresh [OF assms(1,2) e]
  from dlist_PushFront [OF f(2,1) assms(3)] f(3-5) show ?thesis
    by (auto simp: olist_def ol_PushFront_def e)
qed

lemma olist_PushBack:
  assumes "allocator_ok A live" "olist live s xs vs" "length xs + 1 < size_limit"
  shows "\<exists>e. olist live (ol_PushBack A n s v) (xs @ [e]) (vs @ [v])"
proof -
  obtain e s1 where e: "ol_new_item A n s v = (e, s1)" by fastforce
  note f = ol_new_item_fresh [OF assms(1,2) e]
  from dlist_PushBack [OF f(2,1) assms(3)] f(3-5) show ?thesis
    by (auto simp: olist_def ol_PushBack_def e)
qed

lemma olist_Insert:
  assumes "allocator_ok A live" "olist live s (as @ bs) (us @ ws)" "length us = length as"
    and "length (as @ bs) + 1 < size_limit"
  shows "\<exists>e s'. ol_Insert A n s (case bs of [] \<Rightarrow> None | w # _ \<Rightarrow> Some w) v = Inr (Some e, s') \<and>
    olist live s' (as @ e # bs) (us @ v # ws)"
proof -
  obtain e s1 where e: "ol_new_item A n s v = (e, s1)" by fastforce
  note f = ol_new_item_fresh [OF assms(1,2) e]
  obtain l where l: "dl_Insert (ol_list s1) (case bs of [] \<Rightarrow> None | w # _ \<Rightarrow> Some w) e = Inr (Some e, l)"
      "dlist l (as @ e # bs)"
    using dlist_Insert [OF f(2,1) assms(4)] by blast
  have "map (ol_entry s1) as = us" "map (ol_entry s1) bs = ws" using f(4) assms(3) by auto
  with l f show ?thesis by (auto simp: olist_def ol_Insert_def e)
qed

text \<open>A node that leaves the list is deallocated; the others stay live with their values.\<close>

lemma olist_release:
  assumes "allocator_ok A live" "olist live s (as @ e # bs) (us @ v # ws)" "length us = length as"
    and "dlist l (as @ bs)"
  shows "fst (ol_release A n s (e, l)) = v" "olist live (snd (ol_release A n s (e, l))) (as @ bs) (us @ ws)"
proof -
  have m: "map (ol_entry s) as = us" "ol_entry s e = v" "map (ol_entry s) bs = ws"
    using assms(2,3) by (auto simp: olist_def)
  have "distinct (as @ e # bs)" using assms(2) unfolding olist_def by (blast dest: dlist_distinct)
  with m assms show "fst (ol_release A n s (e, l)) = v"
    "olist live (snd (ol_release A n s (e, l))) (as @ bs) (us @ ws)"
    by (auto simp: olist_def ol_release_def allocator_ok_def)
qed

lemma olist_PopFront:
  assumes "allocator_ok A live" "olist live s xs (v # vs)"
  shows "\<exists>s'. ol_PopFront A n s = Inr (v, s') \<and> olist live s' (tl xs) vs"
proof -
  obtain e ys where xs: "xs = e # ys" using assms(2) by (cases xs) (auto simp: olist_def)
  then obtain l where l: "dl_PopFront (ol_list s) = Inr (e, l)" "dlist l ys"
    using assms(2) dlist_PopFront by (force simp: olist_def)
  have "olist live s ([] @ e # ys) ([] @ v # vs)" using assms(2) xs by simp
  from olist_release [OF assms(1) this, of l n] l xs show ?thesis
    by (auto simp: ol_PopFront_def prod_eq_iff)
qed

lemma olist_PopBack:
  assumes "allocator_ok A live" "olist live s xs (vs @ [v])"
  shows "\<exists>s'. ol_PopBack A n s = Inr (v, s') \<and> olist live s' (butlast xs) vs"
proof -
  obtain e ys where xs: "xs = ys @ [e]" using assms(2) by (cases xs rule: rev_cases) (auto simp: olist_def)
  then obtain l where l: "dl_PopBack (ol_list s) = Inr (e, l)" "dlist l ys"
    using assms(2) dlist_PopBack by (force simp: olist_def)
  have "olist live s (ys @ e # []) (vs @ v # [])" "length vs = length ys"
    using assms(2) xs by (auto simp: olist_def)
  from olist_release [OF assms(1) this, of l n] l xs show ?thesis
    by (auto simp: ol_PopBack_def prod_eq_iff)
qed

lemma olist_Erase:
  assumes "allocator_ok A live" "olist live s (as @ e # bs) (us @ v # ws)" "length us = length as"
  shows "\<exists>s'. ol_Erase A n s e = Inr (v, s') \<and> olist live s' (as @ bs) (us @ ws)"
proof -
  obtain l where l: "dl_Erase (ol_list s) e = Inr (e, l)" "dlist l (as @ bs)"
    using assms(2) dlist_Erase by (force simp: olist_def)
  from olist_release [OF assms l(2), of n] l(1) show ?thesis
    by (auto simp: ol_Erase_def prod_eq_iff)
qed

subsection \<open>Properties\<close>

text \<open>With an allocator that hands out fresh nodes, \<open>Insert\<close> puts the value before the
  position (at the end for \<open>End()\<close>) and \<open>Erase\<close> of the returned iterator gives the value back
  and restores the sequence; neither dereferences \<open>nullptr\<close>, and links, tail and length stay
  consistent.\<close>

lemma linked_list_insert_erase:
  assumes "allocator_ok A live" "olist live s (as @ bs) (us @ ws)" "length us = length as"
    and "length (as @ bs) + 1 < size_limit"
  shows "\<exists>e s' s''. ol_Insert A n s (case bs of [] \<Rightarrow> None | w # _ \<Rightarrow> Some w) v = Inr (Some e, s') \<and>
    olist live s' (as @ e # bs) (us @ v # ws) \<and>
    ol_Erase A m s' e = Inr (v, s'') \<and> olist live s'' (as @ bs) (us @ ws)"
  using olist_Insert [OF assms] olist_Erase [OF assms(1) _ assms(3)] by blast

text \<open>An allocator that counts upwards, for concrete instances.\<close>

definition bump :: "(nat, nat \<times> nat set) allocator" where
  "bump = \<lparr> Allocate = (\<lambda>(next, live) n. (next, (next + 1, insert next live))),
            Deallocate = (\<lambda>(next, live) p n. (next, live - {p})) \<rparr>"

definition bump_live :: "nat \<times> nat set \<Rightarrow> nat set" where
  "bump_live h = {p \<in> snd h. p < fst h}"

lemma bump_ok: "allocator_ok bump bump_live"
  by (auto simp: allocator_ok_def bump_def bump_live_def)

definition ol_empty :: "(nat, 'v, nat \<times> nat set) ol_state" where
  "ol_empty = \<lparr> ol_list = dl_new (\<lambda>_. None) (\<lambda>_. None), ol_entry = (\<lambda>_. undefined), ol_heap = (0, {}) \<rparr>"

lemma ol_empty_olist: "olist bump_live ol_empty [] []"
  by (simp add: olist_def ol_empty_def dlist_new)

lemma linked_list_insert_erase_example:
  "\<exists>e s' s''. ol_Insert bump 24 ol_empty None ''value'' = Inr (Some e, s') \<and>
    olist bump_live s' [e] [''value''] \<and> ol_Erase bump 8 s' e = Inr (''value'', s'') \<and> olist bump_live s'' [] []"
proof -
  have "olist bump_live ol_empty ([] @ []) ([] @ [])" using ol_empty_olist by simp
  from linked_list_insert_erase [OF bump_ok this, of 24 "''value''" 8] show ?thesis
    by (simp add: size_limit_def)
qed

end
