(* ===== verification/Syslib_Vector.thy ===== *)
theory Syslib_Vector
  imports Syslib_Maths
begin

text \<open>
  \<open>libs/np-syslib/include/containers/Vector.h\<close>: the growable array. The buffer is a list of
  slots, \<open>None\<close> where no object lives (raw memory, or an object that was destroyed or moved
  from); an access outside of the buffer is \<open>Bad_Index\<close>. The allocator only provides the
  buffer, so it does not appear. \<open>vec_list\<close> relates a vector to the list of its elements.
\<close>

subsection \<open>Operations\<close>

record 'a vector =
  elements :: "'a option list"
  vsize :: size_t
  capacity :: size_t


definition slot_get :: "'a option list \<Rightarrow> size_t \<Rightarrow> 'a option res" where
  "slot_get els i = (if i < length els then Inr (els ! i) else Inl Bad_Index)"

definition slot_set :: "'a option list \<Rightarrow> size_t \<Rightarrow> 'a option \<Rightarrow> 'a option list res" where
  "slot_set els i x = (if i < length els then Inr (els[i := x]) else Inl Bad_Index)"


definition vec_At :: "'a vector \<Rightarrow> size_t \<Rightarrow> 'a option res" where
  "vec_At v index = slot_get (elements v) (if index > vsize v then vsize v else index)"



definition vec_PopBack :: "'a vector \<Rightarrow> ('a option \<times> 'a vector) res" where
  "vec_PopBack v =
     (let size' = sz_sub (vsize v) 1
      in res_bind (slot_get (elements v) size') (\<lambda>elem.
           res_bind (slot_set (elements v) size' None) (\<lambda>els.
             Inr (elem, v\<lparr> elements := els, vsize := size' \<rparr>))))"

definition vec_Clear :: "'a vector \<Rightarrow> 'a vector res" where
  "vec_Clear v =
     res_bind (res_fold (\<lambda>i els. slot_set els i None) [0..<vsize v] (elements v))
       (\<lambda>els. Inr (v\<lparr> elements := els, vsize := 0 \<rparr>))"

definition vec_EraseRange :: "'a vector \<Rightarrow> size_t \<Rightarrow> size_t \<Rightarrow> 'a vector res" where
  "vec_EraseRange v index cnt =
     (if cnt = 0 \<or> index \<ge> vsize v then Inr v
      else
        let n = (if cnt > index then sz_sub cnt index else cnt);
            at = (\<lambda>i. if i > vsize v then vsize v else i)
        in res_bind (res_fold (\<lambda>i els. slot_set els (at i) None) [index..<index + n] (elements v))
             (\<lambda>els1. res_bind
               (res_fold (\<lambda>i els. res_bind (slot_get els (at i)) (\<lambda>x.
                  res_bind (slot_set els (i - n) x) (\<lambda>els'. slot_set els' (at i) None)))
                 [index + n..<vsize v] els1)
               (\<lambda>els2. Inr (v\<lparr> elements := els2, vsize := sz_sub (vsize v) n \<rparr>))))"




subsection \<open>The list a vector stands for\<close>

definition vec_list :: "'a vector \<Rightarrow> 'a list \<Rightarrow> bool" where
  "vec_list v xs \<longleftrightarrow>
     length (elements v) = capacity v \<and> vsize v = length xs \<and> length xs \<le> capacity v \<and>
     take (length xs) (elements v) = map Some xs \<and> capacity v * 2 < size_limit"

lemma vec_listD:
  assumes "vec_list v xs"
  shows "length (elements v) = capacity v" "vsize v = length xs" "length xs \<le> capacity v"
    "capacity v * 2 < size_limit" "\<And>i. i < length xs \<Longrightarrow> elements v ! i = Some (xs ! i)"
proof -
  show "elements v ! i = Some (xs ! i)" if "i < length xs" for i
    using assms that unfolding vec_list_def by (metis nth_map nth_take)
qed (use assms in \<open>auto simp: vec_list_def\<close>)



text \<open>The loops over slots, index by index.\<close>

lemma res_fold_slots:
  assumes "\<And>i. i \<in> set is \<Longrightarrow> i < length els"
  shows "\<exists>els'. res_fold (\<lambda>i els. slot_set els i (f i)) is els = Inr els' \<and>
    length els' = length els \<and> (\<forall>k<length els. els' ! k = (if k \<in> set is then f k else els ! k))"
  using assms
proof (induction "is" arbitrary: els)
  case (Cons i js)
  then have i: "slot_set els i (f i) = Inr (els[i := f i])" by (simp add: slot_set_def)
  obtain els' where "res_fold (\<lambda>i els. slot_set els i (f i)) js (els[i := f i]) = Inr els'"
      "length els' = length els"
      "\<forall>k<length els. els' ! k = (if k \<in> set js then f k else els[i := f i] ! k)"
    using Cons.IH [of "els[i := f i]"] Cons.prems by auto
  then show ?case using i by (auto simp: nth_list_update)
qed simp



subsection \<open>Refinement of the operations on lists\<close>



lemma vec_At_list: "vec_list v xs \<Longrightarrow> i < length xs \<Longrightarrow> vec_At v i = Inr (Some (xs ! i))"
  using vec_listD [of v xs] by (simp add: vec_At_def slot_get_def)



lemma vec_PopBack_empty: "vec_list v [] \<Longrightarrow> vec_PopBack v = Inl Bad_Index"
  using vec_listD [of v "[]"]
  by (auto simp: vec_PopBack_def slot_get_def sz_sub_wrap Let_def)

lemma vec_list_Clear:
  assumes "vec_list v xs"
  shows "\<exists>v'. vec_Clear v = Inr v' \<and> vec_list v' []"
  using res_fold_slots [of "[0..<vsize v]" "elements v" "\<lambda>_. None"] vec_listD [OF assms]
  by (auto simp: vec_Clear_def vec_list_def)






text \<open>
  A range in the interior that is longer than its start index is shortened by \<open>index\<close>:
  erasing two elements at index 1 erases one.
\<close>

lemma vec_EraseRange_shortened:
  "vec_EraseRange \<lparr> elements = map Some [0, 1, 2, 3 :: nat], vsize = 4, capacity = 4 \<rparr> 1 2 =
     Inr \<lparr> elements = [Some 0, Some 2, Some 3, None], vsize = 3, capacity = 4 \<rparr>"
proof -
  have n: "sz_sub 2 1 = 1" "sz_sub 4 1 = 3" by (simp_all add: sz_sub_def size_limit_def)
  have r: "[1..<2] = [1 :: nat]" "[2..<4] = [2, 3 :: nat]" by (simp_all add: upt_rec)
  show ?thesis
    unfolding vec_EraseRange_def by (simp add: n r Let_def slot_set_def slot_get_def del: One_nat_def) simp
qed






subsection \<open>Properties\<close>



end
