(* ===== verification/Mpsc_Queue.thy ===== *)
theory Mpsc_Queue
  imports Kernel_Prelude
begin

text \<open>
  \<open>libs/np-syslib/include/containers/Queue.h\<close>, class \<open>QueueMpSc\<close>: the intrusive queue with
  many producers and one consumer. \<open>Push\<close> and \<open>Pop\<close> are cut at their atomic accesses, and
  the accesses of any number of producers and of the consumer interleave freely
  (\<open>mq_step\<close>). Three history variables record the order of the exchanges on \<open>head\<close>
  (\<open>q_pushed\<close>), the items returned by \<open>Pop\<close> (\<open>q_popped\<close>) and the items between \<open>tail\<close>
  and \<open>head\<close> (\<open>q_chain\<close>); no step reads them. The invariant \<open>mq_inv\<close>
  shows that the queue is first-in first-out in the order of the exchanges and that no item is
  lost, whatever the interleaving.
\<close>

subsection \<open>State and atomic steps\<close>

datatype 'p producer =
    P_Idle
  | P_Cleared 'p
  | P_Swapped 'p 'p

datatype 'p consumer =
    C_Idle
  | C_Skipped 'p
  | C_Loaded 'p "'p option"
  | C_Stub1 'p
  | C_Stub2 'p
  | C_Stub3 'p 'p
  | C_Reload 'p

record ('p, 't) mpsc =
  q_next :: "'p \<Rightarrow> 'p option"
  q_head :: 'p
  q_tail :: 'p
  q_prod :: "'t \<Rightarrow> 'p producer"
  q_cons :: "'p consumer"
  q_pushed :: "'p list"
  q_popped :: "'p list"
  q_chain :: "'p list"

definition mq_init :: "'p \<Rightarrow> ('p, 't) mpsc" where
  "mq_init stub =
     \<lparr> q_next = (\<lambda>_. None), q_head = stub, q_tail = stub, q_prod = (\<lambda>_. P_Idle), q_cons = C_Idle,
       q_pushed = [], q_popped = [], q_chain = [stub] \<rparr>"

text \<open>
  The three accesses of \<open>Push\<close>: clear the item's \<open>next\<close>, exchange \<open>head\<close>, and link the
  previous head to the item.
\<close>

definition mq_push_clear :: "'t \<Rightarrow> 'p \<Rightarrow> ('p, 't) mpsc \<Rightarrow> ('p, 't) mpsc" where
  "mq_push_clear t x s = s\<lparr> q_next := (q_next s)(x := None), q_prod := (q_prod s)(t := P_Cleared x) \<rparr>"

definition mq_push_swap :: "'t \<Rightarrow> 'p \<Rightarrow> ('p, 't) mpsc \<Rightarrow> ('p, 't) mpsc" where
  "mq_push_swap t x s =
     s\<lparr> q_head := x, q_prod := (q_prod s)(t := P_Swapped x (q_head s)),
        q_pushed := q_pushed s @ [x], q_chain := q_chain s @ [x] \<rparr>"

definition mq_push_link :: "'t \<Rightarrow> 'p \<Rightarrow> 'p \<Rightarrow> ('p, 't) mpsc \<Rightarrow> ('p, 't) mpsc" where
  "mq_push_link t x prev s =
     s\<lparr> q_next := (q_next s)(prev := Some x), q_prod := (q_prod s)(t := P_Idle) \<rparr>"

text \<open>
  One access of \<open>Pop\<close>. \<open>mq_return\<close> is the code after \<open>next\<close> turned out not to be null:
  the tail moves on and \<open>end\<close> is returned.
\<close>

definition mq_return :: "'p \<Rightarrow> 'p \<Rightarrow> ('p, 't) mpsc \<Rightarrow> ('p, 't) mpsc" where
  "mq_return e next s =
     s\<lparr> q_tail := next, q_cons := C_Idle, q_popped := q_popped s @ [e], q_chain := tl (q_chain s) \<rparr>"

definition mq_pop_step :: "'p \<Rightarrow> ('p, 't) mpsc \<Rightarrow> ('p, 't) mpsc" where
  "mq_pop_step stub s =
     (case q_cons s of
        C_Idle \<Rightarrow>
          if q_tail s = stub
          then (case q_next s (q_tail s) of
                  None \<Rightarrow> s
                | Some n \<Rightarrow> s\<lparr> q_tail := n, q_cons := C_Skipped n, q_chain := tl (q_chain s) \<rparr>)
          else s\<lparr> q_cons := C_Loaded (q_tail s) (q_next s (q_tail s)) \<rparr>
      | C_Skipped e \<Rightarrow> s\<lparr> q_cons := C_Loaded e (q_next s e) \<rparr>
      | C_Loaded e (Some n) \<Rightarrow> mq_return e n s
      | C_Loaded e None \<Rightarrow>
          if e = q_head s then s\<lparr> q_cons := C_Stub1 e \<rparr> else s\<lparr> q_cons := C_Idle \<rparr>
      | C_Stub1 e \<Rightarrow> s\<lparr> q_next := (q_next s)(stub := None), q_cons := C_Stub2 e \<rparr>
      | C_Stub2 e \<Rightarrow>
          s\<lparr> q_head := stub, q_cons := C_Stub3 e (q_head s), q_chain := q_chain s @ [stub] \<rparr>
      | C_Stub3 e prev \<Rightarrow> s\<lparr> q_next := (q_next s)(prev := Some stub), q_cons := C_Reload e \<rparr>
      | C_Reload e \<Rightarrow>
          (case q_next s e of Some n \<Rightarrow> mq_return e n s | None \<Rightarrow> s\<lparr> q_cons := C_Idle \<rparr>))"

text \<open>
  An item may be pushed when it is not the stub, not in the queue and not being pushed by
  another producer, which is what an intrusive queue asks of its callers.
\<close>

definition mq_free :: "'p \<Rightarrow> ('p, 't) mpsc \<Rightarrow> 'p \<Rightarrow> bool" where
  "mq_free stub s x \<longleftrightarrow> x \<noteq> stub \<and> x \<notin> set (q_chain s) \<and> (\<forall>t. q_prod s t \<noteq> P_Cleared x)"

inductive mq_step :: "'p \<Rightarrow> ('p, 't) mpsc \<Rightarrow> ('p, 't) mpsc \<Rightarrow> bool" for stub :: 'p where
  push_clear: "q_prod s t = P_Idle \<Longrightarrow> mq_free stub s x \<Longrightarrow> mq_step stub s (mq_push_clear t x s)"
| push_swap: "q_prod s t = P_Cleared x \<Longrightarrow> mq_step stub s (mq_push_swap t x s)"
| push_link: "q_prod s t = P_Swapped x prev \<Longrightarrow> mq_step stub s (mq_push_link t x prev s)"
| pop: "mq_step stub s (mq_pop_step stub s)"

inductive mq_reach :: "'p \<Rightarrow> ('p, 't) mpsc \<Rightarrow> bool" for stub :: 'p where
  init: "mq_reach stub (mq_init stub)"
| step: "mq_reach stub s \<Longrightarrow> mq_step stub s s' \<Longrightarrow> mq_reach stub s'"

subsection \<open>The invariant\<close>

text \<open>A store to \<open>next\<close> is pending between an exchange and the link that follows it.\<close>

definition mq_pending :: "'p \<Rightarrow> ('p, 't) mpsc \<Rightarrow> 'p \<Rightarrow> 'p \<Rightarrow> bool" where
  "mq_pending stub s a b \<longleftrightarrow>
     (\<exists>t. q_prod s t = P_Swapped b a) \<or> (b = stub \<and> (\<exists>e. q_cons s = C_Stub3 e a))"

definition adjacent :: "'a list \<Rightarrow> 'a \<Rightarrow> 'a \<Rightarrow> bool" where
  "adjacent xs a b \<longleftrightarrow> (\<exists>as bs. xs = as @ a # b # bs)"

definition mq_chain_ok :: "'p \<Rightarrow> ('p, 't) mpsc \<Rightarrow> bool" where
  "mq_chain_ok stub s \<longleftrightarrow>
     distinct (q_chain s) \<and> q_chain s \<noteq> [] \<and> q_tail s = hd (q_chain s) \<and>
     q_head s = last (q_chain s) \<and> q_next s (q_head s) = None \<and>
     (\<forall>a b. adjacent (q_chain s) a b \<longrightarrow>
        q_next s a = Some b \<or> q_next s a = None \<and> mq_pending stub s a b) \<and>
     (\<forall>a b. mq_pending stub s a b \<longrightarrow> adjacent (q_chain s) a b \<and> q_next s a = None)"

definition mq_prod_ok :: "'p \<Rightarrow> ('p, 't) mpsc \<Rightarrow> bool" where
  "mq_prod_ok stub s \<longleftrightarrow>
     (\<forall>t x. q_prod s t = P_Cleared x \<longrightarrow>
        x \<noteq> stub \<and> x \<notin> set (q_chain s) \<and> q_next s x = None \<and>
        (\<forall>t'. q_prod s t' = P_Cleared x \<longrightarrow> t' = t)) \<and>
     (\<forall>t x a. q_prod s t = P_Swapped x a \<longrightarrow>
        x \<noteq> stub \<and> (\<forall>t' a'. q_prod s t' = P_Swapped x a' \<longrightarrow> t' = t))"

fun mq_cons_ok :: "'p \<Rightarrow> ('p, 't) mpsc \<Rightarrow> 'p consumer \<Rightarrow> bool" where
  "mq_cons_ok stub s C_Idle = True"
| "mq_cons_ok stub s (C_Skipped e) = (e = q_tail s \<and> e \<noteq> stub)"
| "mq_cons_ok stub s (C_Loaded e n) =
     (e = q_tail s \<and> e \<noteq> stub \<and> (n \<noteq> None \<longrightarrow> q_next s e = n))"
| "mq_cons_ok stub s (C_Stub1 e) = (e = q_tail s \<and> e \<noteq> stub \<and> stub \<notin> set (q_chain s))"
| "mq_cons_ok stub s (C_Stub2 e) =
     (e = q_tail s \<and> e \<noteq> stub \<and> stub \<notin> set (q_chain s) \<and> q_next s stub = None)"
| "mq_cons_ok stub s (C_Stub3 e prev) = (e = q_tail s \<and> e \<noteq> stub)"
| "mq_cons_ok stub s (C_Reload e) = (e = q_tail s \<and> e \<noteq> stub)"

definition mq_inv :: "'p \<Rightarrow> ('p, 't) mpsc \<Rightarrow> bool" where
  "mq_inv stub s \<longleftrightarrow>
     mq_chain_ok stub s \<and> mq_prod_ok stub s \<and> mq_cons_ok stub s (q_cons s) \<and>
     q_pushed s = q_popped s @ filter (\<lambda>x. x \<noteq> stub) (q_chain s)"


subsection \<open>Adjacent elements\<close>

lemma adjacent_nth: "adjacent xs a b \<longleftrightarrow> (\<exists>i. Suc i < length xs \<and> xs ! i = a \<and> xs ! Suc i = b)"
proof
  assume "adjacent xs a b"
  then obtain as bs where xs: "xs = as @ a # b # bs" by (auto simp: adjacent_def)
  then have "Suc (length as) < length xs \<and> xs ! length as = a \<and> xs ! Suc (length as) = b"
    by (simp add: nth_append)
  then show "\<exists>i. Suc i < length xs \<and> xs ! i = a \<and> xs ! Suc i = b" by blast
next
  assume "\<exists>i. Suc i < length xs \<and> xs ! i = a \<and> xs ! Suc i = b"
  then obtain i where i: "Suc i < length xs" "xs ! i = a" "xs ! Suc i = b" by blast
  then have "xs = take i xs @ a # b # drop (Suc (Suc i)) xs"
    by (metis Cons_nth_drop_Suc Suc_lessD append_take_drop_id)
  then show "adjacent xs a b" unfolding adjacent_def by blast
qed

lemma adjacent_mem: "adjacent xs a b \<Longrightarrow> a \<in> set xs \<and> b \<in> set xs"
  by (auto simp: adjacent_def)

lemma adjacent_fun: "distinct xs \<Longrightarrow> adjacent xs a b \<Longrightarrow> adjacent xs a b' \<Longrightarrow> b' = b"
  unfolding adjacent_nth by (metis Suc_lessD nth_eq_iff_index_eq)

lemma adjacent_inj: "distinct xs \<Longrightarrow> adjacent xs a b \<Longrightarrow> adjacent xs a' b \<Longrightarrow> a' = a"
  unfolding adjacent_nth by (metis nat.inject nth_eq_iff_index_eq)

lemma adjacent_not_last: "distinct xs \<Longrightarrow> adjacent xs a b \<Longrightarrow> a \<noteq> last xs"
  by (auto simp: adjacent_def split: if_splits)

lemma adjacent_not_hd: "distinct xs \<Longrightarrow> adjacent xs a b \<Longrightarrow> b \<noteq> hd xs"
  by (auto simp: adjacent_def hd_append split: if_splits)

lemma adjacent_Cons: "adjacent (x # xs) a b \<longleftrightarrow> (a = x \<and> xs \<noteq> [] \<and> b = hd xs) \<or> adjacent xs a b"
proof
  assume "adjacent (x # xs) a b"
  then obtain as bs where xs: "x # xs = as @ a # b # bs" by (auto simp: adjacent_def)
  then show "(a = x \<and> xs \<noteq> [] \<and> b = hd xs) \<or> adjacent xs a b"
    by (cases as) (auto simp: adjacent_def)
next
  assume "(a = x \<and> xs \<noteq> [] \<and> b = hd xs) \<or> adjacent xs a b"
  then show "adjacent (x # xs) a b"
  proof
    assume "a = x \<and> xs \<noteq> [] \<and> b = hd xs"
    then have "x # xs = [] @ a # b # tl xs" by simp
    then show ?thesis unfolding adjacent_def by blast
  next
    assume "adjacent xs a b"
    then obtain as bs where "x # xs = (x # as) @ a # b # bs" by (auto simp: adjacent_def)
    then show ?thesis unfolding adjacent_def by blast
  qed
qed

lemma adjacent_Nil [simp]: "\<not> adjacent [] a b" "\<not> adjacent [x] a b"
  by (auto simp: adjacent_def)

lemma adjacent_snoc:
  "xs \<noteq> [] \<Longrightarrow> adjacent (xs @ [x]) a b \<longleftrightarrow> adjacent xs a b \<or> a = last xs \<and> b = x"
proof (induction xs)
  case (Cons y ys)
  then show ?case by (cases "ys = []") (auto simp: adjacent_Cons)
qed simp

subsection \<open>Every step keeps the invariant\<close>

lemma mq_init_inv: "mq_inv stub (mq_init stub)"
  by (auto simp: mq_inv_def mq_init_def mq_chain_ok_def mq_prod_ok_def mq_pending_def)

lemma mq_head_next: "mq_chain_ok stub s \<Longrightarrow> \<not> mq_pending stub s (q_head s) b"
  unfolding mq_chain_ok_def using adjacent_not_last by metis

lemma mq_push_clear_inv:
  assumes "mq_inv stub s" "q_prod s t = P_Idle" "mq_free stub s x"
  shows "mq_inv stub (mq_push_clear t x s)"
proof -
  have x: "x \<notin> set (q_chain s)" "x \<noteq> stub" "\<And>t'. q_prod s t' \<noteq> P_Cleared x"
    using assms(3) by (auto simp: mq_free_def)
  have pend: "mq_pending stub (mq_push_clear t x s) = mq_pending stub s"
    using assms(2) unfolding fun_eq_iff mq_pending_def mq_push_clear_def
    by simp (metis producer.distinct)
  have c: "mq_chain_ok stub s" "mq_prod_ok stub s" "mq_cons_ok stub s (q_cons s)"
    using assms(1) by (auto simp: mq_inv_def)
  have "mq_chain_ok stub (mq_push_clear t x s)"
    using c(1) x(1) adjacent_mem [of "q_chain s"] unfolding mq_chain_ok_def pend
    by (auto simp: mq_push_clear_def)
  moreover have "mq_prod_ok stub (mq_push_clear t x s)"
    using c(2) x by (auto simp: mq_prod_ok_def mq_push_clear_def)
  moreover have "mq_cons_ok stub (mq_push_clear t x s) (q_cons s)"
  proof -
    have "q_tail s \<in> set (q_chain s)" using c(1) by (auto simp: mq_chain_ok_def)
    with c(3) x show ?thesis by (cases "q_cons s") (auto simp: mq_push_clear_def)
  qed
  ultimately show ?thesis using assms(1) by (auto simp: mq_inv_def mq_push_clear_def)
qed


lemma mq_invD:
  assumes "mq_inv stub s"
  shows "mq_chain_ok stub s" "mq_prod_ok stub s" "mq_cons_ok stub s (q_cons s)"
    "q_pushed s = q_popped s @ filter (\<lambda>x. x \<noteq> stub) (q_chain s)"
  using assms by (auto simp: mq_inv_def)

lemma mq_chainD:
  assumes "mq_chain_ok stub s"
  shows "distinct (q_chain s)" "q_chain s \<noteq> []" "q_tail s = hd (q_chain s)"
    "q_head s = last (q_chain s)" "q_next s (q_head s) = None" "q_tail s \<in> set (q_chain s)"
    "q_head s \<in> set (q_chain s)"
    "\<And>a b. adjacent (q_chain s) a b \<Longrightarrow> q_next s a = Some b \<or> q_next s a = None \<and> mq_pending stub s a b"
    "\<And>a b. mq_pending stub s a b \<Longrightarrow> adjacent (q_chain s) a b"
    "\<And>a b. mq_pending stub s a b \<Longrightarrow> q_next s a = None"
  using assms by (auto simp: mq_chain_ok_def)

lemma ex_fun_upd: "(\<exists>t'. (f(t := v)) t' = w) \<longleftrightarrow> v = w \<or> (\<exists>t'. t' \<noteq> t \<and> f t' = w)"
  by auto

text \<open>An exchange appends to the chain and leaves one more store pending.\<close>

lemma mq_chain_swap:
  assumes "mq_chain_ok stub s" "x \<notin> set (q_chain s)" "q_next s x = None"
    and "q_chain s' = q_chain s @ [x]" "q_tail s' = q_tail s" "q_head s' = x" "q_next s' = q_next s"
    and "\<And>a b. mq_pending stub s' a b \<longleftrightarrow> mq_pending stub s a b \<or> a = q_head s \<and> b = x"
  shows "mq_chain_ok stub s'"
proof -
  note c = mq_chainD [OF assms(1)]
  have adj: "adjacent (q_chain s') a b \<longleftrightarrow> adjacent (q_chain s) a b \<or> a = q_head s \<and> b = x" for a b
    using assms(4) c(2,4) by (simp add: adjacent_snoc)
  show ?thesis unfolding mq_chain_ok_def
  proof (intro conjI allI impI)
    show "q_tail s' = hd (q_chain s')" using assms(4,5) c(2,3) by simp
    show "q_next s' a = Some b \<or> q_next s' a = None \<and> mq_pending stub s' a b"
      if "adjacent (q_chain s') a b" for a b
      using that adj c(5,8) assms(7,8) by auto
    show "adjacent (q_chain s') a b" "q_next s' a = None" if "mq_pending stub s' a b" for a b
      using that adj c(5,9,10) assms(7,8) by auto
  qed (use assms(2-7) c(1,2) in auto)
qed

text \<open>A link store completes the pending pair it belongs to.\<close>

lemma mq_chain_link:
  assumes "mq_chain_ok stub s" "mq_pending stub s prev x"
    and "q_chain s' = q_chain s" "q_tail s' = q_tail s" "q_head s' = q_head s"
    and "q_next s' = (q_next s)(prev := Some x)"
    and "\<And>a b. mq_pending stub s' a b \<longleftrightarrow> mq_pending stub s a b \<and> b \<noteq> x"
  shows "mq_chain_ok stub s'"
proof -
  note c = mq_chainD [OF assms(1)]
  have px: "adjacent (q_chain s) prev x" using c(9) assms(2) by blast
  have "prev \<noteq> q_head s" using adjacent_not_last [OF c(1) px] c(4) by simp
  have fwd: "b = x" if "adjacent (q_chain s) prev b" for b
    using adjacent_fun [OF c(1) px that] .
  have bwd: "a = prev" if "adjacent (q_chain s) a x" for a
    using adjacent_inj [OF c(1) px that] .
  show ?thesis unfolding mq_chain_ok_def assms(3)
  proof (intro conjI allI impI)
    show "q_next s' a = Some b \<or> q_next s' a = None \<and> mq_pending stub s' a b"
      if "adjacent (q_chain s) a b" for a b
    proof (cases "a = prev")
      case True
      then show ?thesis using fwd that assms(6) by simp
    next
      case False
      then have "b \<noteq> x" using bwd that by blast
      with False c(8) [OF that] show ?thesis using assms(6,7) by simp
    qed
    show "adjacent (q_chain s) a b" if "mq_pending stub s' a b" for a b
      using that assms(7) c(9) by blast
    show "q_next s' a = None" if "mq_pending stub s' a b" for a b
    proof -
      have ab: "mq_pending stub s a b" "b \<noteq> x" using that assms(7) by auto
      then have "a \<noteq> prev" using c(9) fwd by blast
      with c(10) [OF ab(1)] show ?thesis using assms(6) by simp
    qed
    show "q_next s' (q_head s') = None" using c(5) \<open>prev \<noteq> q_head s\<close> assms(5,6) by auto
  qed (use c(1-4) assms(4,5) in auto)
qed

text \<open>The consumer moves the tail over a link that was stored.\<close>

lemma mq_chain_advance:
  assumes "mq_chain_ok stub s" "q_next s (q_tail s) = Some n"
    and "q_chain s' = tl (q_chain s)" "q_tail s' = n" "q_head s' = q_head s" "q_next s' = q_next s"
    and "mq_pending stub s' = mq_pending stub s"
  shows "mq_chain_ok stub s'" "q_chain s = q_tail s # q_chain s'" "n \<in> set (q_chain s')"
proof -
  note c = mq_chainD [OF assms(1)]
  obtain xs where ch: "q_chain s = q_tail s # xs" using c(2,3) by (cases "q_chain s") auto
  have "xs \<noteq> []" using ch c(4,5) assms(2) by auto
  then have "adjacent (q_chain s) (q_tail s) (hd xs)" using ch by (simp add: adjacent_Cons)
  then have n: "n = hd xs" using c(8) assms(2) by fastforce
  have ch': "q_chain s' = xs" using assms(3) ch by simp
  then show "q_chain s = q_tail s # q_chain s'" "n \<in> set (q_chain s')"
    using ch n \<open>xs \<noteq> []\<close> by simp_all
  have adj: "adjacent xs a b \<longleftrightarrow> adjacent (q_chain s) a b \<and> a \<noteq> q_tail s" for a b
    using c(1) ch adjacent_mem [of xs a b] by (auto simp: adjacent_Cons)
  show "mq_chain_ok stub s'" unfolding mq_chain_ok_def ch' assms(7)
  proof (intro conjI allI impI)
    show "adjacent xs a b" if "mq_pending stub s a b" for a b
      using that adj c(9,10) assms(2) by fastforce
    show "q_next s' a = Some b \<or> q_next s' a = None \<and> mq_pending stub s a b"
      if "adjacent xs a b" for a b using that adj c(8) assms(6) by auto
    show "q_next s' a = None" if "mq_pending stub s a b" for a b using that c(10) assms(6) by auto
    show "distinct xs" "xs \<noteq> []" "q_tail s' = hd xs" using c(1) ch n \<open>xs \<noteq> []\<close> assms(4) by auto
    show "q_head s' = last xs" "q_next s' (q_head s') = None"
      using c(4,5) ch \<open>xs \<noteq> []\<close> assms(5,6) by auto
  qed
qed


lemma mq_push_swap_inv:
  assumes "mq_inv stub s" "q_prod s t = P_Cleared x"
  shows "mq_inv stub (mq_push_swap t x s)"
proof -
  note i = mq_invD [OF assms(1)] and c = mq_chainD [OF mq_invD(1) [OF assms(1)]]
  have x: "x \<noteq> stub" "x \<notin> set (q_chain s)" "q_next s x = None"
      "\<And>t'. q_prod s t' = P_Cleared x \<Longrightarrow> t' = t"
    using i(2) assms(2) by (auto simp: mq_prod_ok_def)
  have nx: "q_prod s t' \<noteq> P_Swapped x a" for t' a
    using c(9) [of a x] x(2) adjacent_mem [of "q_chain s" a x] by (auto simp: mq_pending_def)
  have pend: "mq_pending stub (mq_push_swap t x s) a b \<longleftrightarrow>
      mq_pending stub s a b \<or> a = q_head s \<and> b = x" for a b
    unfolding mq_pending_def mq_push_swap_def using assms(2) by simp (metis producer.distinct(5))
  have "mq_chain_ok stub (mq_push_swap t x s)"
    by (rule mq_chain_swap [OF i(1) x(2,3) _ _ _ _ pend]) (simp_all add: mq_push_swap_def)
  moreover have "mq_prod_ok stub (mq_push_swap t x s)"
    using i(2) x nx by (auto simp: mq_prod_ok_def mq_push_swap_def)
  moreover have "mq_cons_ok stub (mq_push_swap t x s) (q_cons s)"
    using i(3) x(1) by (cases "q_cons s") (auto simp: mq_push_swap_def)
  ultimately show ?thesis using i(4) x(1) by (auto simp: mq_inv_def mq_push_swap_def)
qed

lemma mq_push_link_inv:
  assumes "mq_inv stub s" "q_prod s t = P_Swapped x prev"
  shows "mq_inv stub (mq_push_link t x prev s)"
proof -
  note i = mq_invD [OF assms(1)] and c = mq_chainD [OF mq_invD(1) [OF assms(1)]]
  have x: "x \<noteq> stub" "\<And>t' a. q_prod s t' = P_Swapped x a \<Longrightarrow> t' = t"
    using i(2) assms(2) unfolding mq_prod_ok_def by blast+
  have p: "mq_pending stub s prev x" using assms(2) by (auto simp: mq_pending_def)
  have pend: "mq_pending stub (mq_push_link t x prev s) a b \<longleftrightarrow> mq_pending stub s a b \<and> b \<noteq> x" for a b
  proof -
    have "(\<exists>t'. ((q_prod s)(t := P_Idle)) t' = P_Swapped b a) \<longleftrightarrow>
        (\<exists>t'. q_prod s t' = P_Swapped b a) \<and> b \<noteq> x"
      unfolding ex_fun_upd using assms(2) x(2) by (metis producer.distinct(3) producer.inject(2))
    then show ?thesis using x(1) by (auto simp: mq_pending_def mq_push_link_def)
  qed
  have "prev \<in> set (q_chain s)" using adjacent_mem [OF c(9) [OF p]] by blast
  then have prev: "q_prod s t' \<noteq> P_Cleared prev" for t' using i(2) by (auto simp: mq_prod_ok_def)
  have "mq_chain_ok stub (mq_push_link t x prev s)"
    by (rule mq_chain_link [OF i(1) p _ _ _ _ pend]) (simp_all add: mq_push_link_def)
  moreover have "mq_prod_ok stub (mq_push_link t x prev s)"
    using i(2) prev by (auto simp: mq_prod_ok_def mq_push_link_def)
  moreover have "mq_cons_ok stub (mq_push_link t x prev s) (q_cons s)"
  proof -
    have "q_next s prev = None" using c(10) [OF p] .
    with i(3) \<open>prev \<in> set (q_chain s)\<close> show ?thesis
      by (cases "q_cons s") (auto simp: mq_push_link_def)
  qed
  ultimately show ?thesis using i(4) by (auto simp: mq_inv_def mq_push_link_def)
qed

text \<open>The steps of the consumer that only change what it remembers.\<close>

lemma mq_cons_local_inv:
  assumes "mq_inv stub s" "mq_cons_ok stub s k"
    and "\<And>e a. q_cons s \<noteq> C_Stub3 e a" "\<And>e a. k \<noteq> C_Stub3 e a"
  shows "mq_inv stub (s\<lparr> q_cons := k \<rparr>)"
proof -
  note i = mq_invD [OF assms(1)]
  have pend: "mq_pending stub (s\<lparr> q_cons := k \<rparr>) = mq_pending stub s"
    using assms(3,4) by (simp add: fun_eq_iff mq_pending_def)
  have "mq_chain_ok stub (s\<lparr> q_cons := k \<rparr>)" using i(1) unfolding mq_chain_ok_def pend by auto
  moreover have "mq_prod_ok stub (s\<lparr> q_cons := k \<rparr>)" using i(2) by (simp add: mq_prod_ok_def)
  moreover have "mq_cons_ok stub (s\<lparr> q_cons := k \<rparr>) k" using assms(2) by (cases k) auto
  ultimately show ?thesis using i(4) by (simp add: mq_inv_def)
qed

lemma mq_return_inv:
  assumes "mq_inv stub s" "q_next s (q_tail s) = Some n" "q_tail s \<noteq> stub"
    and "\<And>e a. q_cons s \<noteq> C_Stub3 e a"
  shows "mq_inv stub (mq_return (q_tail s) n s)"
proof -
  note i = mq_invD [OF assms(1)]
  have pend: "mq_pending stub (mq_return (q_tail s) n s) = mq_pending stub s"
    using assms(4) by (simp add: fun_eq_iff mq_pending_def mq_return_def)
  note adv = mq_chain_advance [OF i(1) assms(2) _ _ _ _ pend]
  have "mq_chain_ok stub (mq_return (q_tail s) n s)" by (rule adv) (simp_all add: mq_return_def)
  moreover have ch: "q_chain s = q_tail s # tl (q_chain s)" using adv(2) by (simp add: mq_return_def)
  moreover have "mq_prod_ok stub (mq_return (q_tail s) n s)"
    using i(2) list.set_intros(2) [of _ "tl (q_chain s)" "q_tail s"]
    unfolding mq_prod_ok_def mq_return_def ch [symmetric] by auto
  moreover have "filter (\<lambda>x. x \<noteq> stub) (q_chain s) = q_tail s # filter (\<lambda>x. x \<noteq> stub) (tl (q_chain s))"
    using assms(3) by (subst ch) simp
  ultimately show ?thesis using i(4) by (simp add: mq_inv_def mq_return_def)
qed

lemma mq_skip_inv:
  assumes "mq_inv stub s" "q_cons s = C_Idle" "q_tail s = stub" "q_next s stub = Some n"
  shows "mq_inv stub (s\<lparr> q_tail := n, q_cons := C_Skipped n, q_chain := tl (q_chain s) \<rparr>)"
    (is "mq_inv stub ?s'")
proof -
  note i = mq_invD [OF assms(1)] and c = mq_chainD [OF mq_invD(1) [OF assms(1)]]
  have pend: "mq_pending stub ?s' = mq_pending stub s"
    using assms(2) by (simp add: fun_eq_iff mq_pending_def)
  have nx: "q_next s (q_tail s) = Some n" using assms(3,4) by simp
  note adv = mq_chain_advance [OF i(1) nx _ _ _ _ pend]
  have "mq_chain_ok stub ?s'" by (rule adv) simp_all
  moreover have ch: "q_chain s = stub # tl (q_chain s)" and n: "n \<in> set (tl (q_chain s))"
    using adv(2,3) assms(3) by simp_all
  moreover have "n \<noteq> stub" using c(1) ch n by (metis distinct.simps(2))
  moreover have "mq_prod_ok stub ?s'"
    using i(2) list.set_intros(2) [of _ "tl (q_chain s)" stub]
    unfolding mq_prod_ok_def ch [symmetric] by auto
  moreover have "filter (\<lambda>x. x \<noteq> stub) (q_chain s) = filter (\<lambda>x. x \<noteq> stub) (tl (q_chain s))"
    by (subst ch) simp
  ultimately show ?thesis using i(4) by (simp add: mq_inv_def)
qed


lemma mq_stub_clear_inv:
  assumes "mq_inv stub s" "q_cons s = C_Stub1 e"
  shows "mq_inv stub (s\<lparr> q_next := (q_next s)(stub := None), q_cons := C_Stub2 e \<rparr>)"
    (is "mq_inv stub ?s'")
proof -
  note i = mq_invD [OF assms(1)] and c = mq_chainD [OF mq_invD(1) [OF assms(1)]]
  have st: "stub \<notin> set (q_chain s)" "e = q_tail s" "e \<noteq> stub" using i(3) assms(2) by auto
  have pend: "mq_pending stub ?s' = mq_pending stub s"
    using assms(2) by (simp add: fun_eq_iff mq_pending_def)
  have "mq_chain_ok stub ?s'"
    using i(1) st(1) adjacent_mem [of "q_chain s"] unfolding mq_chain_ok_def pend by auto
  moreover have "mq_prod_ok stub ?s'" using i(2) by (auto simp: mq_prod_ok_def)
  ultimately show ?thesis using i(4) st by (simp add: mq_inv_def)
qed

lemma mq_stub_swap_inv:
  assumes "mq_inv stub s" "q_cons s = C_Stub2 e"
  shows "mq_inv stub (s\<lparr> q_head := stub, q_cons := C_Stub3 e (q_head s), q_chain := q_chain s @ [stub] \<rparr>)"
    (is "mq_inv stub ?s'")
proof -
  note i = mq_invD [OF assms(1)]
  have st: "stub \<notin> set (q_chain s)" "e = q_tail s" "e \<noteq> stub" "q_next s stub = None"
    using i(3) assms(2) by auto
  have pend: "mq_pending stub ?s' a b \<longleftrightarrow> mq_pending stub s a b \<or> a = q_head s \<and> b = stub" for a b
    using assms(2) by (auto simp: mq_pending_def)
  have "mq_chain_ok stub ?s'"
    by (rule mq_chain_swap [OF i(1) st(1,4) _ _ _ _ pend]) simp_all
  moreover have "mq_prod_ok stub ?s'" using i(2) unfolding mq_prod_ok_def by auto
  ultimately show ?thesis using i(4) st by (simp add: mq_inv_def)
qed

lemma mq_stub_link_inv:
  assumes "mq_inv stub s" "q_cons s = C_Stub3 e prev"
  shows "mq_inv stub (s\<lparr> q_next := (q_next s)(prev := Some stub), q_cons := C_Reload e \<rparr>)"
    (is "mq_inv stub ?s'")
proof -
  note i = mq_invD [OF assms(1)] and c = mq_chainD [OF mq_invD(1) [OF assms(1)]]
  have p: "mq_pending stub s prev stub" using assms(2) by (auto simp: mq_pending_def)
  have "q_prod s t \<noteq> P_Swapped stub a" for t a using i(2) unfolding mq_prod_ok_def by blast
  then have pend: "mq_pending stub ?s' a b \<longleftrightarrow> mq_pending stub s a b \<and> b \<noteq> stub" for a b
    by (auto simp: mq_pending_def)
  have "prev \<in> set (q_chain s)" using adjacent_mem [OF c(9) [OF p]] by blast
  then have prev: "q_prod s t' \<noteq> P_Cleared prev" for t' using i(2) by (auto simp: mq_prod_ok_def)
  have "mq_chain_ok stub ?s'"
    by (rule mq_chain_link [OF i(1) p _ _ _ _ pend]) simp_all
  moreover have "mq_prod_ok stub ?s'" using i(2) prev by (auto simp: mq_prod_ok_def)
  ultimately show ?thesis using i(3,4) assms(2) by (auto simp: mq_inv_def)
qed

text \<open>A consumer that found the tail to be the head sees a chain of one item.\<close>

lemma mq_tail_is_head:
  assumes "mq_chain_ok stub s" "q_tail s = q_head s"
  shows "q_chain s = [q_tail s]"
proof -
  note c = mq_chainD [OF assms(1)]
  obtain x xs where ch: "q_chain s = x # xs" using c(2) by (cases "q_chain s") auto
  have "xs = []"
  proof (rule ccontr)
    assume "xs \<noteq> []"
    then have "q_head s \<in> set xs" using c(4) ch by simp
    then show False using c(1,3) ch assms(2) by simp
  qed
  then show ?thesis using ch c(3) by simp
qed

lemma mq_pop_step_inv:
  assumes "mq_inv stub s"
  shows "mq_inv stub (mq_pop_step stub s)"
proof -
  note i = mq_invD [OF assms]
  show ?thesis
  proof (cases "q_cons s")
    case C_Idle
    show ?thesis
    proof (cases "q_tail s = stub")
      case True
      with C_Idle show ?thesis
        using assms mq_skip_inv [OF assms C_Idle True] by (auto simp: mq_pop_step_def split: option.split)
    next
      case False
      with C_Idle show ?thesis
        using mq_cons_local_inv [OF assms, of "C_Loaded (q_tail s) (q_next s (q_tail s))"]
        by (simp add: mq_pop_step_def)
    qed
  next
    case (C_Skipped e)
    then show ?thesis
      using i(3) mq_cons_local_inv [OF assms, of "C_Loaded e (q_next s e)"]
      by (auto simp: mq_pop_step_def)
  next
    case (C_Loaded e n)
    have e: "e = q_tail s" "e \<noteq> stub" "n \<noteq> None \<longrightarrow> q_next s (q_tail s) = n"
      using i(3) C_Loaded by auto
    show ?thesis
    proof (cases n)
      case None
      have "stub \<notin> set (q_chain s)" if "q_tail s = q_head s"
        using mq_tail_is_head [OF i(1) that] e by simp
      then show ?thesis
        using C_Loaded None e mq_cons_local_inv [OF assms, of C_Idle]
          mq_cons_local_inv [OF assms, of "C_Stub1 e"]
        by (auto simp: mq_pop_step_def)
    next
      case (Some m)
      then show ?thesis using C_Loaded e mq_return_inv [OF assms, of m] by (auto simp: mq_pop_step_def)
    qed
  next
    case (C_Stub1 e)
    then show ?thesis using mq_stub_clear_inv [OF assms] by (simp add: mq_pop_step_def)
  next
    case (C_Stub2 e)
    then show ?thesis using mq_stub_swap_inv [OF assms] by (simp add: mq_pop_step_def)
  next
    case (C_Stub3 e prev)
    then show ?thesis using mq_stub_link_inv [OF assms] by (simp add: mq_pop_step_def)
  next
    case (C_Reload e)
    then have "e = q_tail s" "e \<noteq> stub" using i(3) by auto
    then show ?thesis
      using C_Reload mq_return_inv [OF assms] mq_cons_local_inv [OF assms, of C_Idle]
      by (auto simp: mq_pop_step_def split: option.split)
  qed
qed

lemma mq_step_inv: "mq_step stub s s' \<Longrightarrow> mq_inv stub s \<Longrightarrow> mq_inv stub s'"
  by (induction rule: mq_step.induct)
    (simp_all add: mq_push_clear_inv mq_push_swap_inv mq_push_link_inv mq_pop_step_inv)

lemma mq_reach_inv: "mq_reach stub s \<Longrightarrow> mq_inv stub s"
  by (induction rule: mq_reach.induct) (auto simp: mq_init_inv intro: mq_step_inv)


subsection \<open>Progress of the consumer\<close>

text \<open>
  When no producer is between its exchange and its link, an idle consumer returns the
  first item after at most seven of its own accesses.
\<close>

lemma mq_quiet_link:
  assumes "mq_inv stub s" "\<forall>t. q_prod s t = P_Idle" "\<And>e a. q_cons s \<noteq> C_Stub3 e a"
    and "q_chain s = x # y # ys"
  shows "q_next s x = Some y"
proof -
  have "adjacent (q_chain s) x y" using assms(4) by (simp add: adjacent_Cons)
  moreover have "\<not> mq_pending stub s x y" using assms(2,3) by (simp add: mq_pending_def)
  ultimately show ?thesis using mq_chainD(8) [OF mq_invD(1) [OF assms(1)]] by blast
qed

lemma mq_pop_loaded:
  assumes "mq_inv stub s" "\<forall>t. q_prod s t = P_Idle" "q_cons s = C_Loaded e (q_next s e)"
  shows "\<exists>n\<le>5. q_popped ((mq_pop_step stub ^^ n) s) = q_popped s @ [e]"
proof -
  note c = mq_chainD [OF mq_invD(1) [OF assms(1)]]
  have e: "e = q_tail s" "e \<noteq> stub" using mq_invD(3) [OF assms(1)] assms(3) by auto
  obtain xs where ch: "q_chain s = e # xs" using c(2,3) e(1) by (cases "q_chain s") auto
  show ?thesis
  proof (cases xs)
    case (Cons y ys)
    then have "q_next s e = Some y" using mq_quiet_link [OF assms(1,2)] assms(3) ch by simp
    then have "q_popped ((mq_pop_step stub ^^ 1) s) = q_popped s @ [e]"
      using assms(3) by (simp add: mq_pop_step_def mq_return_def)
    then show ?thesis by (intro exI [of _ 1]) simp
  next
    case Nil
    then have "q_head s = e" "q_next s e = None" using c(4,5) ch by simp_all
    then have "q_popped ((mq_pop_step stub ^^ 5) s) = q_popped s @ [e]"
      using assms(3) e(2) by (simp add: mq_pop_step_def mq_return_def numeral_eq_Suc)
    then show ?thesis by (intro exI [of _ 5]) simp
  qed
qed

lemma mq_pop_idle:
  assumes "mq_inv stub s" "\<forall>t. q_prod s t = P_Idle" "q_cons s = C_Idle"
    and "filter (\<lambda>x. x \<noteq> stub) (q_chain s) = x # xs"
  shows "\<exists>n\<le>7. q_popped ((mq_pop_step stub ^^ n) s) = q_popped s @ [x]"
proof -
  note c = mq_chainD [OF mq_invD(1) [OF assms(1)]]
  obtain y ys where ch: "q_chain s = y # ys" "q_tail s = y"
    using c(2,3) by (cases "q_chain s") auto
  show ?thesis
  proof (cases "y = stub")
    case False
    let ?s1 = "mq_pop_step stub s"
    have "x = y" using assms(4) ch False by simp
    have "mq_inv stub ?s1" using assms(1) by (rule mq_pop_step_inv)
    moreover have "?s1 = s\<lparr> q_cons := C_Loaded x (q_next s x) \<rparr>"
      using assms(3) ch False \<open>x = y\<close> by (simp add: mq_pop_step_def)
    ultimately obtain n where "n \<le> 5" "q_popped ((mq_pop_step stub ^^ n) ?s1) = q_popped s @ [x]"
      using mq_pop_loaded [of stub ?s1 x] assms(2) by auto
    then show ?thesis by (intro exI [of _ "Suc n"]) (simp add: funpow_Suc_right del: funpow.simps)
  next
    case True
    then obtain z zs where ys: "ys = z # zs" using assms(4) ch by (cases ys) auto
    then have "z \<noteq> stub" "x = z" using c(1) ch True assms(4) by auto
    have nx: "q_next s stub = Some x"
      using mq_quiet_link [OF assms(1,2)] assms(3) ch ys True \<open>x = z\<close> by simp
    let ?s2 = "mq_pop_step stub (mq_pop_step stub s)"
    have "mq_inv stub ?s2" using assms(1) by (intro mq_pop_step_inv)
    moreover have "q_prod ?s2 = q_prod s" "q_popped ?s2 = q_popped s"
        "q_cons ?s2 = C_Loaded x (q_next ?s2 x)"
      using assms(3) ch True nx by (simp_all add: mq_pop_step_def)
    ultimately obtain n where "n \<le> 5" "q_popped ((mq_pop_step stub ^^ n) ?s2) = q_popped s @ [x]"
      using mq_pop_loaded [of stub ?s2 x] assms(2) by auto
    then show ?thesis
      by (intro exI [of _ "Suc (Suc n)"]) (simp add: funpow_Suc_right del: funpow.simps)
  qed
qed

subsection \<open>Properties\<close>

text \<open>C17: In every interleaving of any number of producers with the consumer, the items that
  were pushed are, in the order of their exchanges, the items popped so far followed by the
  items still in the queue: nothing is lost, duplicated or reordered.\<close>

theorem mpsc_fifo:
  assumes "mq_reach stub s"
  shows "q_pushed s = q_popped s @ filter (\<lambda>x. x \<noteq> stub) (q_chain s)"
  using mq_invD(4) [OF mq_reach_inv [OF assms]] .

theorem mpsc_fifo_witness:
  "q_pushed (mq_push_swap True 1 (mq_push_clear True 1 (mq_init (0 :: nat)))) = [1] @ []"
proof -
  have "mq_reach 0 (mq_push_swap True 1 (mq_push_clear True 1 (mq_init (0 :: nat))))"
  proof (rule mq_reach.step [OF mq_reach.step [OF mq_reach.init] mq_step.push_swap])
    show "mq_step 0 (mq_init 0) (mq_push_clear True 1 (mq_init (0 :: nat)))"
      by (rule mq_step.push_clear) (simp_all add: mq_init_def mq_free_def)
  qed (simp add: mq_push_clear_def)
  from mpsc_fifo [OF this] show ?thesis
    by (simp add: mq_push_swap_def mq_push_clear_def mq_init_def)
qed

text \<open>C19: When no producer is inside \<open>Push\<close>, a \<open>Pop\<close> on a non-empty queue returns the oldest
  item after at most seven atomic accesses.\<close>

theorem mpsc_progress:
  assumes "mq_reach stub s" "\<forall>t. q_prod s t = P_Idle" "q_cons s = C_Idle"
    and "filter (\<lambda>x. x \<noteq> stub) (q_chain s) = x # xs"
  shows "\<exists>n\<le>7. q_popped ((mq_pop_step stub ^^ n) s) = q_popped s @ [x]"
  by (rule mq_pop_idle [OF mq_reach_inv [OF assms(1)] assms(2-4)])

theorem mpsc_progress_witness:
  "\<exists>n\<le>7. q_popped ((mq_pop_step (0 :: nat) ^^ n)
      (mq_push_link () 1 0 (mq_push_swap () 1 (mq_push_clear () 1 (mq_init 0))))) = [1]"
proof -
  let ?s1 = "mq_push_clear () 1 (mq_init (0 :: nat))"
  let ?s = "mq_push_link () 1 0 (mq_push_swap () 1 ?s1)"
  have "mq_reach 0 ?s1"
    by (rule mq_reach.step [OF mq_reach.init mq_step.push_clear]) (simp_all add: mq_init_def mq_free_def)
  then have "mq_reach 0 (mq_push_swap () 1 ?s1)"
    by (rule mq_reach.step [OF _ mq_step.push_swap]) (simp add: mq_push_clear_def)
  then have "mq_reach 0 ?s"
    by (rule mq_reach.step [OF _ mq_step.push_link])
      (simp add: mq_push_clear_def mq_push_swap_def mq_init_def)
  moreover have "\<forall>t. q_prod ?s t = P_Idle" "q_cons ?s = C_Idle" "q_popped ?s = []"
      "filter (\<lambda>x. x \<noteq> 0) (q_chain ?s) = [1]"
    by (simp_all add: mq_push_clear_def mq_push_swap_def mq_push_link_def mq_init_def)
  ultimately show ?thesis using mpsc_progress [of 0 ?s 1 "[]"] by simp
qed

end
