(* ===== verification/Pmm.thy ===== *)
theory Pmm
  imports Syslib_Maths Syslib_Bitmap "HOL-Library.Multiset"
begin

text \<open>
  \<open>kernel/memory/Pmm.cpp\<close>: the physical memory manager. Zones, segments and the freelist are
  linked lists in the code and lists here, in the order of the links. Addresses are physical (the
  code adds and subtracts the offset of the direct map when it dereferences them). The contents of
  pages are modelled where the manager reads them back: the entries of the freelist lie in the free
  pages, and with the option \<open>kernel.pmm.trash_after_use\<close> \<open>Free\<close> overwrites the entry it has just
  linked. What the two trash options write to pages that hold no entry is left out. Byte counts of
  physical memory stay below \<open>size_limit\<close>; only the loop bounds of the sort can wrap. The
  messages to the kernel log that report an error are returned as values.
\<close>

subsection \<open>State\<close>

abbreviation PageSize :: size_t where
  "PageSize \<equiv> 4096"

record memmap_entry =
  mm_base :: size_t
  mm_length :: size_t

record pm_zone =
  z_bitmap :: "u8 list"
  z_base :: size_t
  z_count :: size_t

record pm_segment =
  sg_base :: size_t
  sg_length :: size_t
  sg_info :: size_t

record pm_free_entry =
  fe_base :: size_t
  runLength :: size_t

text \<open>
  \<open>pm_rng\<close> stands for the generator: the words it delivers to the pages that are freed, from the
  next one on. \<open>pm_lost\<close> tells that the \<open>next\<close> pointer of the last entry of the freelist is such a
  word and not the null pointer.
\<close>

record pmm =
  pm_zones :: "pm_zone list"
  pm_segments :: "pm_segment list"
  pm_freelist :: "pm_free_entry list"
  trashAfterUse :: bool
  pm_rng :: "nat \<Rightarrow> size_t"
  pm_lost :: bool

datatype pm_error =
    Misaligned_Free size_t
  | Double_Free size_t
  | Unknown_Zone size_t size_t

text \<open>The sizes of the structures the manager places in physical memory.\<close>

record pm_layout =
  sz_zone :: size_t
  sz_segment :: size_t
  sz_pageinfo :: size_t

subsection \<open>Sorting and claiming\<close>

function sort_pass :: "memmap_entry list \<Rightarrow> size_t \<Rightarrow> size_t \<Rightarrow> memmap_entry list res" where
  "sort_pass es limit j =
     (if j < limit
      then if j + 1 < length es
           then sort_pass
                  (if mm_length (es ! j) < mm_length (es ! (j + 1))
                   then es[j := es ! (j + 1), j + 1 := es ! j] else es)
                  limit (j + 1)
           else Inl Bad_Index
      else Inr es)"
  by auto
termination
  by (relation "measure (\<lambda>(es, limit, j). limit - j)") auto

declare sort_pass.simps [simp del]

lemma sort_pass_length: "sort_pass es limit j = Inr es' \<Longrightarrow> length es' = length es"
  by (induction es limit j rule: sort_pass.induct)
    (subst (asm) (2) sort_pass.simps, simp split: if_splits)

function sort_passes :: "memmap_entry list \<Rightarrow> size_t \<Rightarrow> memmap_entry list res" where
  "sort_passes es i =
     (if i < sz_sub (length es) 1
      then (case sort_pass es (sz_sub (sz_sub (length es) i) 1) 0 of
              Inl e \<Rightarrow> Inl e
            | Inr es' \<Rightarrow> sort_passes es' (i + 1))
      else Inr es)"
  by auto
termination
  by (relation "measure (\<lambda>(es, i). sz_sub (length es) 1 - i)") (auto dest: sort_pass_length)

declare sort_passes.simps [simp del]

definition SortMemoryMapBySize :: "memmap_entry list \<Rightarrow> memmap_entry list res" where
  "SortMemoryMapBySize es = sort_passes es 0"

text \<open>The scan from the last entry to the first; \<open>i\<close> counts down as in the source.\<close>

fun claim_scan :: "memmap_entry list \<Rightarrow> size_t \<Rightarrow> size_t \<Rightarrow> size_t \<times> memmap_entry list" where
  "claim_scan es bytes 0 = (0, es)"
| "claim_scan es bytes (Suc idx) =
     (if mm_length (es ! idx) < bytes then claim_scan es bytes idx
      else (mm_base (es ! idx),
            es[idx := (es ! idx)\<lparr> mm_base := mm_base (es ! idx) + bytes,
                                   mm_length := mm_length (es ! idx) - bytes \<rparr>]))"

definition ClaimFromSmallest :: "memmap_entry list \<Rightarrow> size_t \<Rightarrow> size_t \<times> memmap_entry list" where
  "ClaimFromSmallest es pages = claim_scan es (pages * PageSize) (length es)"

subsection \<open>Ingesting memory\<close>

text \<open>
  The loop that reserves contiguous zones. It returns the entries that are left and the zones,
  latest first. The loop may not end (\<open>None\<close>) for structures of size 0 only, since it claims at
  least one page in every round.
\<close>

partial_function (option) reserve_zones ::
  "pm_layout \<Rightarrow> size_t \<Rightarrow> memmap_entry list \<Rightarrow> size_t \<Rightarrow> pm_zone list
    \<Rightarrow> ((memmap_entry list \<times> pm_zone list) res) option" where
  "reserve_zones lay quota es i zs =
     (if i < quota
      then case es of
          [] \<Rightarrow> Some (Inl Bad_Index)
        | e0 # _ \<Rightarrow>
            (let n = Min (quota - i) (mm_length e0 div PageSize);
                 es1 = es[0 := e0\<lparr> mm_length := mm_length e0 - n * PageSize \<rparr>];
                 bitmapBytes = AlignUp n 8 div 8;
                 metadataBytes = bitmapBytes + 2 * sz_zone lay;
                 (addr, es2) = ClaimFromSmallest es1 (AlignUp metadataBytes PageSize div PageSize)
             in if addr = 0 then Some (Inl Assert_Failed)
                else
                  let z = \<lparr> z_bitmap = replicate bitmapBytes 0,
                            z_base = mm_base (es2 ! 0) + mm_length (es2 ! 0), z_count = n \<rparr>
                  in (case SortMemoryMapBySize es2 of
                        Inl e \<Rightarrow> Some (Inl e)
                      | Inr es3 \<Rightarrow> reserve_zones lay quota es3 (i + n) (z # zs)))
      else Some (Inr (es, zs)))"

text \<open>The segments of the page information, from \<open>infoIndex\<close> on.\<close>

fun make_segments :: "(size_t \<times> size_t) list \<Rightarrow> size_t \<Rightarrow> pm_segment list" where
  "make_segments [] idx = []"
| "make_segments ((base, len) # rs) idx =
     \<lparr> sg_base = base, sg_length = len, sg_info = idx \<rparr> # make_segments rs (idx + len div PageSize)"

definition IngestMemory ::
  "pm_layout \<Rightarrow> pmm \<Rightarrow> memmap_entry list \<Rightarrow> size_t \<Rightarrow> (pmm res) option" where
  "IngestMemory lay s entries quota =
     (let totalPages = sum_list (map (\<lambda>e. mm_length e div PageSize) entries)
      in case SortMemoryMapBySize entries of
        Inl e \<Rightarrow> Some (Inl e)
      | Inr es0 \<Rightarrow>
          (case reserve_zones lay quota es0 0 [] of
             None \<Rightarrow> None
           | Some (Inl e) \<Rightarrow> Some (Inl e)
           | Some (Inr (es1, zs)) \<Rightarrow>
               (let segmentStoreBytes = sz_segment lay * (length es1 + length zs + 1);
                    infoStoreSize = segmentStoreBytes + sz_pageinfo lay * (totalPages + 1);
                    (addr, es2) = ClaimFromSmallest es1 (AlignUp infoStoreSize PageSize div PageSize)
                in if addr = 0 then Some (Inl Assert_Failed)
                   else
                     let used = filter (\<lambda>e. mm_length e \<noteq> 0) es2;
                         segs = make_segments
                           (map (\<lambda>e. (mm_base e, mm_length e)) used
                            @ map (\<lambda>z. (z_base z, z_count z * PageSize)) zs) 0;
                         free = rev (map (\<lambda>e. \<lparr> fe_base = mm_base e, runLength = mm_length e div PageSize \<rparr>) used)
                     in Some (Inr (s\<lparr> pm_zones := zs,
                                     pm_segments := (if segs = [] then [] else [last segs]),
                                     pm_freelist := free, pm_lost := False \<rparr>)))))"

text \<open>
  \<open>Init\<close> and \<open>ReclaimBootMemory\<close> read the boot loader's memory map (a parameter) in batches
  of \<open>MemmapProcessSize\<close> entries and stop at the first batch that is not full.
\<close>

abbreviation MemmapProcessSize :: size_t where
  "MemmapProcessSize \<equiv> 32"

definition contiguous_quota :: "size_t \<Rightarrow> size_t" where
  "contiguous_quota usablePages = Min (Min (64 * 1024 * 1024 div PageSize) (Max 0 (usablePages div 10))) usablePages"

function ingest_batches ::
  "pm_layout \<Rightarrow> pmm \<Rightarrow> memmap_entry list \<Rightarrow> size_t \<Rightarrow> (pmm res) option" where
  "ingest_batches lay s mmap quota =
     (case IngestMemory lay s (take MemmapProcessSize mmap) quota of
        None \<Rightarrow> None
      | Some (Inl e) \<Rightarrow> Some (Inl e)
      | Some (Inr s') \<Rightarrow>
          if length mmap < MemmapProcessSize then Some (Inr s')
          else ingest_batches lay s' (drop MemmapProcessSize mmap) quota)"
  by auto
termination
  by (relation "measure (\<lambda>(lay, s, mmap, quota). length mmap)") auto

declare ingest_batches.simps [simp del]

text \<open>\<open>Init\<close> also reads the option; \<open>trash_after_use\<close> is the number the configuration has for it.\<close>

definition pm_Init :: "pm_layout \<Rightarrow> size_t \<Rightarrow> pmm \<Rightarrow> memmap_entry list \<Rightarrow> (pmm res) option" where
  "pm_Init lay trash_after_use s mmap =
     (let usablePages = sum_list (map mm_length mmap) div PageSize
      in ingest_batches lay (s\<lparr> trashAfterUse := (trash_after_use \<noteq> 0) \<rparr>) mmap (contiguous_quota usablePages))"

definition ReclaimBootMemory :: "pm_layout \<Rightarrow> pmm \<Rightarrow> memmap_entry list \<Rightarrow> (pmm res) option" where
  "ReclaimBootMemory lay s mmap = ingest_batches lay s mmap 0"

subsection \<open>Lookup, allocation and freeing\<close>

fun lookup_segments :: "pm_segment list \<Rightarrow> size_t \<Rightarrow> size_t option" where
  "lookup_segments [] physAddr = None"
| "lookup_segments (sg # rest) physAddr =
     (if physAddr < sg_base sg \<or> physAddr \<ge> sg_base sg + sg_length sg
      then lookup_segments rest physAddr
      else Some (sg_info sg + (physAddr - sg_base sg) div PageSize))"

definition Lookup :: "pmm \<Rightarrow> size_t \<Rightarrow> size_t option" where
  "Lookup s physAddr = lookup_segments (pm_segments s) physAddr"

text \<open>The search of a zone for \<open>n\<close> clear bits in a row: the running count and its start.\<close>

function zone_scan :: "pm_zone \<Rightarrow> size_t \<Rightarrow> size_t \<Rightarrow> size_t \<Rightarrow> size_t \<Rightarrow> (size_t \<times> size_t) res" where
  "zone_scan z n i running start =
     (if i < z_count z
      then res_bind (BitmapGet (z_bitmap z) i) (\<lambda>used.
        if used then zone_scan z n (i + 1) 0 start
        else let start' = (if running = 0 then i else start)
             in if running + 1 = n then Inr (running + 1, start')
                else zone_scan z n (i + 1) (running + 1) start')
      else Inr (running, start))"
  by auto
termination
  by (relation "measure (\<lambda>(z, n, i, running, start). z_count z - i)") auto

declare zone_scan.simps [simp del]

definition zone_mark :: "pm_zone \<Rightarrow> size_t \<Rightarrow> size_t \<Rightarrow> pm_zone res" where
  "zone_mark z start n =
     res_bind (res_fold (\<lambda>i bm. res_bind (BitmapSet bm i) (\<lambda>(_, bm'). Inr bm'))
        [start..<start + n] (z_bitmap z))
       (\<lambda>bm. Inr (z\<lparr> z_bitmap := bm \<rparr>))"

fun alloc_zones :: "pm_zone list \<Rightarrow> size_t \<Rightarrow> (size_t \<times> pm_zone list) res" where
  "alloc_zones [] n = Inr (0, [])"
| "alloc_zones (z # zs) n =
     res_bind (zone_scan z n 0 0 0) (\<lambda>(running, start).
       if running \<noteq> n then res_bind (alloc_zones zs n) (\<lambda>(p, zs'). Inr (p, z # zs'))
       else res_bind (zone_mark z start n) (\<lambda>z'. Inr (z_base z + start * PageSize, z' # zs)))"

definition Alloc :: "pmm \<Rightarrow> size_t \<Rightarrow> (size_t \<times> pmm) res" where
  "Alloc s n =
     (if n = 0 then Inr (0, s)
      else if n = 1
      then case pm_freelist s of
          [] \<Rightarrow> Inl (if pm_lost s then Bad_Index else Assert_Failed)
        | fe # rest \<Rightarrow>
            if runLength fe > 1
            then Inr (fe_base fe,
                   s\<lparr> pm_freelist := \<lparr> fe_base = fe_base fe + PageSize, runLength = runLength fe - 1 \<rparr> # rest \<rparr>)
            else Inr (fe_base fe, s\<lparr> pm_freelist := rest \<rparr>)
      else res_bind (alloc_zones (pm_zones s) n) (\<lambda>(p, zs). Inr (p, s\<lparr> pm_zones := zs \<rparr>)))"

definition zone_clear :: "pm_zone \<Rightarrow> size_t \<Rightarrow> size_t \<Rightarrow> size_t \<Rightarrow> (pm_error list \<times> pm_zone) res" where
  "zone_clear z base begin n =
     res_bind (res_fold (\<lambda>i (errs, bm). res_bind (BitmapClear bm (begin + i)) (\<lambda>(changed, bm').
          Inr (if changed then errs else errs @ [Double_Free (base + i * PageSize)], bm')))
        [0..<n] ([], z_bitmap z))
       (\<lambda>(errs, bm). Inr (errs, z\<lparr> z_bitmap := bm \<rparr>))"

fun free_zones :: "pm_zone list \<Rightarrow> size_t \<Rightarrow> size_t \<Rightarrow> ((pm_error list \<times> pm_zone list) option) res" where
  "free_zones [] base n = Inr None"
| "free_zones (z # zs) base n =
     (if base < z_base z \<or> base \<ge> z_base z + z_count z * PageSize
      then res_bind (free_zones zs base n)
             (\<lambda>r. Inr (map_option (\<lambda>(errs, zs'). (errs, z # zs')) r))
      else res_bind (zone_clear z base ((base - z_base z) div PageSize) n)
             (\<lambda>(errs, z'). Inr (Some (errs, z' # zs))))"

text \<open>
  The words written to a page that was freed, when the option is set. A page of the freelist holds
  its entry in the first two words, \<open>next\<close> and \<open>runLength\<close>: both become words of the generator, so
  the entries behind it are no longer reachable.
\<close>

abbreviation page_words :: nat where
  "page_words \<equiv> PageSize div 8"

definition draw_pages :: "nat \<Rightarrow> pmm \<Rightarrow> pmm" where
  "draw_pages n s = (if trashAfterUse s then s\<lparr> pm_rng := (\<lambda>k. pm_rng s (k + n * page_words)) \<rparr> else s)"

definition trash_head :: "pmm \<Rightarrow> pmm" where
  "trash_head s =
     (if trashAfterUse s
      then draw_pages 1 (s\<lparr> pm_freelist := [(hd (pm_freelist s))\<lparr> runLength := pm_rng s 1 \<rparr>], pm_lost := True \<rparr>)
      else s)"

definition Free :: "pmm \<Rightarrow> size_t \<Rightarrow> size_t \<Rightarrow> (pm_error list \<times> pmm) res" where
  "Free s base0 n =
     (if base0 = 0 \<or> n = 0 then Inr ([], s)
      else
        let misaligned = (base0 mod PageSize \<noteq> 0);
            base = (if misaligned then base0 - base0 mod PageSize else base0);
            errs0 = (if misaligned then [Misaligned_Free base0] else [])
        in res_bind (free_zones (pm_zones s) base n) (\<lambda>r.
             case r of
               Some (errs, zs) \<Rightarrow> Inr (errs0 @ errs, draw_pages n (s\<lparr> pm_zones := zs \<rparr>))
             | None \<Rightarrow>
                 if n \<noteq> 1 then Inr (errs0 @ [Unknown_Zone n base], s)
                 else Inr (errs0, trash_head (s\<lparr> pm_freelist := \<lparr> fe_base = base, runLength = 1 \<rparr> # pm_freelist s \<rparr>))))"


subsection \<open>The sort\<close>

lemma sort_pass_ok:
  assumes "j \<le> limit" "limit < length es" "\<forall>k\<le>j. mm_length (es ! j) \<le> mm_length (es ! k)"
  shows "\<exists>es'. sort_pass es limit j = Inr es' \<and> length es' = length es \<and> mset es' = mset es \<and>
    (\<forall>k\<le>limit. mm_length (es' ! limit) \<le> mm_length (es' ! k)) \<and>
    (\<forall>k. limit < k \<longrightarrow> es' ! k = es ! k) \<and> (\<forall>k\<le>limit. \<exists>l\<le>limit. es' ! k = es ! l)"
  using assms
proof (induction es limit j rule: sort_pass.induct)
  case (1 es limit j)
  show ?case
  proof (cases "j < limit")
    case False
    with "1.prems" show ?thesis by (subst sort_pass.simps) auto
  next
    case True
    define es1 where "es1 = (if mm_length (es ! j) < mm_length (es ! (j + 1))
      then es[j := es ! (j + 1), j + 1 := es ! j] else es)"
    have len: "j + 1 < length es" using True "1.prems" by simp
    have eq: "sort_pass es limit j = sort_pass es1 limit (j + 1)"
      using True len by (subst sort_pass.simps) (simp add: es1_def)
    have l1: "length es1 = length es" by (simp add: es1_def)
    have m1: "mset es1 = mset es" using len by (simp add: es1_def mset_swap)
    have min1: "\<forall>k\<le>j + 1. mm_length (es1 ! (j + 1)) \<le> mm_length (es1 ! k)"
      using "1.prems"(3) len by (auto simp: es1_def nth_list_update le_Suc_eq)
    have out1: "es1 ! k = es ! k" if "limit < k" for k using that True by (simp add: es1_def)
    have in1: "\<exists>l\<le>limit. es1 ! k = es ! l" if "k \<le> limit" for k
    proof -
      consider "k = j" | "k = j + 1" | "k \<noteq> j" "k \<noteq> j + 1" by blast
      then show ?thesis
        using that True len unfolding es1_def
        by cases (auto simp: nth_list_update intro: exI [of _ j] exI [of _ "j + 1"] exI [of _ k])
    qed
    from "1.IH" [OF True len] "1.prems" True l1 m1 min1 obtain es' where
      es': "sort_pass es1 limit (j + 1) = Inr es'" "length es' = length es1" "mset es' = mset es1"
        "\<forall>k\<le>limit. mm_length (es' ! limit) \<le> mm_length (es' ! k)"
        "\<forall>k. limit < k \<longrightarrow> es' ! k = es1 ! k" "\<forall>k\<le>limit. \<exists>l\<le>limit. es' ! k = es1 ! l"
      unfolding es1_def [symmetric] by auto
    have "\<forall>k\<le>limit. \<exists>l\<le>limit. es' ! k = es ! l" using es'(6) in1 by metis
    with es' show ?thesis unfolding eq using l1 m1 out1 by auto
  qed
qed

lemma sort_passes_ok:
  assumes "es \<noteq> []" "length es < size_limit" "i \<le> length es - 1"
    and "\<forall>a b. a < b \<and> b < length es \<and> length es - i \<le> b \<longrightarrow> mm_length (es ! b) \<le> mm_length (es ! a)"
  shows "\<exists>es'. sort_passes es i = Inr es' \<and> mset es' = mset es \<and>
    (\<forall>a b. a < b \<and> b < length es \<longrightarrow> mm_length (es' ! b) \<le> mm_length (es' ! a))"
  using assms
proof (induction es i rule: sort_passes.induct)
  case (1 es i)
  let ?n = "length es"
  have "1 \<le> ?n" "1 \<le> ?n - i" using "1.prems"(1,3) by (cases es; simp)+
  then have n1: "sz_sub ?n 1 = ?n - 1" "sz_sub (sz_sub ?n i) 1 = ?n - i - 1"
    using "1.prems"(2) by (simp_all add: sz_sub_eq)
  show ?case
  proof (cases "i < ?n - 1")
    case False
    then have "?n - i \<le> 1" by simp
    then show ?thesis using False "1.prems" n1 by (subst sort_passes.simps) auto
  next
    case True
    define lim where "lim = ?n - i - 1"
    have "lim < ?n" using True by (simp add: lim_def)
    then obtain es' where es': "sort_pass es lim 0 = Inr es'" "length es' = ?n" "mset es' = mset es"
        "\<forall>k\<le>lim. mm_length (es' ! lim) \<le> mm_length (es' ! k)"
        "\<forall>k. lim < k \<longrightarrow> es' ! k = es ! k" "\<forall>k\<le>lim. \<exists>l\<le>lim. es' ! k = es ! l"
      using sort_pass_ok [of 0 lim es] by auto
    have ord: "mm_length (es' ! b) \<le> mm_length (es' ! a)" if ab: "a < b" "b < ?n" "?n - (i + 1) \<le> b" for a b
    proof (cases "b = lim")
      case True
      then show ?thesis using es'(4) ab by simp
    next
      case False
      then have b: "lim < b" "?n - i \<le> b" using ab by (auto simp: lim_def)
      obtain l where "l < b" "es' ! a = es ! l"
        using es'(5,6) ab b by (cases "a \<le> lim") (metis le_less_trans, metis not_le)
      then show ?thesis using "1.prems"(4) es'(5) b ab by auto
    qed
    have "i < sz_sub ?n 1" "sort_pass es (sz_sub (sz_sub ?n i) 1) 0 = Inr es'"
      using True n1 es'(1) by (simp_all add: lim_def)
    moreover have "\<exists>es''. sort_passes es' (i + 1) = Inr es'' \<and> mset es'' = mset es' \<and>
        (\<forall>a b. a < b \<and> b < length es' \<longrightarrow> mm_length (es'' ! b) \<le> mm_length (es'' ! a))"
    proof (rule "1.IH" [OF calculation])
      show "es' \<noteq> []" using es'(2) "1.prems"(1) by auto
    qed (use es'(2) "1.prems"(2) True ord in auto)
    ultimately show ?thesis using es' by (subst sort_passes.simps) auto
  qed
qed

lemma SortMemoryMapBySize_ok:
  assumes "es \<noteq> []" "length es < size_limit"
  shows "\<exists>es'. SortMemoryMapBySize es = Inr es' \<and> mset es' = mset es \<and>
    sorted_wrt (\<lambda>a b. mm_length a \<ge> mm_length b) es'"
proof -
  obtain es' where "sort_passes es 0 = Inr es'" "mset es' = mset es"
      "\<forall>a b. a < b \<and> b < length es \<longrightarrow> mm_length (es' ! b) \<le> mm_length (es' ! a)"
    using sort_passes_ok [OF assms, of 0] by auto
  moreover from this(2) have "length es' = length es" by (rule mset_eq_length)
  ultimately show ?thesis by (auto simp: SortMemoryMapBySize_def sorted_wrt_iff_nth_less)
qed


subsection \<open>Runs of free pages in a zone\<close>

definition clear_run :: "pm_zone \<Rightarrow> size_t \<Rightarrow> size_t \<Rightarrow> bool" where
  "clear_run z start n \<longleftrightarrow>
     start + n \<le> z_count z \<and> (\<forall>k. start \<le> k \<and> k < start + n \<longrightarrow> \<not> bits (z_bitmap z) ! k)"

definition zone_ok :: "pm_zone \<Rightarrow> bool" where
  "zone_ok z \<longleftrightarrow> z_count z \<le> 8 * length (z_bitmap z)"

lemma no_run_extend:
  assumes "\<forall>st. st + n \<le> i \<longrightarrow> \<not> clear_run z st n" "bits (z_bitmap z) ! q" "q \<le> i" "i < q + n"
  shows "\<forall>st. st + n \<le> i + 1 \<longrightarrow> \<not> clear_run z st n"
proof (intro allI impI notI)
  fix st
  assume st: "st + n \<le> i + 1" "clear_run z st n"
  show False
  proof (cases "st + n \<le> i")
    case True
    with assms(1) st(2) show False by blast
  next
    case False
    with st(1) have "st \<le> q" "q < st + n" using assms(3,4) by linarith+
    with st(2) assms(2) show False by (auto simp: clear_run_def)
  qed
qed

lemma zone_scan_ok:
  assumes "zone_ok z" "running < n" "running \<le> i" "i \<le> z_count z"
    and "\<forall>k. i - running \<le> k \<and> k < i \<longrightarrow> \<not> bits (z_bitmap z) ! k"
    and "running > 0 \<longrightarrow> start = i - running"
    and "i = running \<or> bits (z_bitmap z) ! (i - running - 1)"
    and "\<forall>st. st + n \<le> i \<longrightarrow> \<not> clear_run z st n"
  shows "\<exists>r st. zone_scan z n i running start = Inr (r, st) \<and>
    (if r = n then clear_run z st n else \<forall>st. \<not> clear_run z st n)"
  using assms
proof (induction z n i running start rule: zone_scan.induct)
  case (1 z n i running start)
  show ?case
  proof (cases "i < z_count z")
    case False
    with "1.prems" have "i = z_count z" by simp
    then have "\<forall>st. \<not> clear_run z st n" using "1.prems"(8) by (auto simp: clear_run_def)
    then show ?thesis using False "1.prems"(2) by (subst zone_scan.simps) simp
  next
    case True
    then have get: "BitmapGet (z_bitmap z) i = Inr (bits (z_bitmap z) ! i)"
      using "1.prems"(1) by (simp add: BitmapGet_bits zone_ok_def)
    show ?thesis
    proof (cases "bits (z_bitmap z) ! i")
      case used: True
      have "\<forall>st. st + n \<le> i + 1 \<longrightarrow> \<not> clear_run z st n"
        using no_run_extend [OF "1.prems"(8) used] "1.prems"(2) by simp
      then have "\<exists>r st. zone_scan z n (i + 1) 0 start = Inr (r, st) \<and>
          (if r = n then clear_run z st n else \<forall>st. \<not> clear_run z st n)"
        using "1.prems" True used by (intro "1.IH"(1)) auto
      then show ?thesis using True get used by (subst zone_scan.simps) simp
    next
      case clear: False
      define start' where "start' = (if running = 0 then i else start)"
      have st': "start' = i - running" using "1.prems"(6) by (auto simp: start'_def)
      have run: "\<not> bits (z_bitmap z) ! k" if "i - running \<le> k" "k < i + 1" for k
        using that "1.prems"(5) clear by (metis less_Suc_eq Suc_eq_plus1)
      show ?thesis
      proof (cases "running + 1 = n")
        case True
        then have "clear_run z start' n"
          using st' run "1.prems"(3) \<open>i < z_count z\<close> by (auto simp: clear_run_def)
        then show ?thesis
          using True get clear \<open>i < z_count z\<close>
          by (subst zone_scan.simps) (simp add: start'_def)
      next
        case False
        have "\<forall>st. st + n \<le> i + 1 \<longrightarrow> \<not> clear_run z st n"
        proof (cases "i = running")
          case True
          then show ?thesis using "1.prems"(2) \<open>running + 1 \<noteq> n\<close> by auto
        next
          case False
          then show ?thesis
            using "1.prems"(2,3,7) \<open>running + 1 \<noteq> n\<close>
            by (intro no_run_extend [OF "1.prems"(8), of "i - running - 1"]) auto
        qed
        then have "\<exists>r st. zone_scan z n (i + 1) (running + 1) start' = Inr (r, st) \<and>
            (if r = n then clear_run z st n else \<forall>st. \<not> clear_run z st n)"
          using "1.prems" \<open>i < z_count z\<close> False clear run st'
          by (intro "1.IH"(2)) (auto simp: start'_def)
        then show ?thesis
          using get clear False \<open>i < z_count z\<close>
          by (subst zone_scan.simps) (simp add: start'_def Let_def)
      qed
    qed
  qed
qed


lemma set_fold_ok:
  assumes "\<forall>i\<in>set is. i < length (bits bm)"
  shows "\<exists>bm'. res_fold (\<lambda>i bm. res_bind (BitmapSet bm i) (\<lambda>(_, bm'). Inr bm')) is bm = Inr bm' \<and>
    length (bits bm') = length (bits bm) \<and>
    (\<forall>k<length (bits bm). bits bm' ! k = (k \<in> set is \<or> bits bm ! k))"
  using assms
proof (induction "is" arbitrary: bm)
  case (Cons i js)
  obtain b where b: "BitmapSet bm i = Inr (\<not> bits bm ! i, b)" "bits b = (bits bm)[i := True]"
    using bm.set_view [of i bm] Cons.prems by auto
  then have len: "length (bits b) = length (bits bm)" by (metis length_list_update)
  with Cons.prems have "\<forall>i\<in>set js. i < length (bits b)" by simp
  then obtain bm' where "res_fold (\<lambda>i bm. res_bind (BitmapSet bm i) (\<lambda>(_, bm'). Inr bm')) js b = Inr bm'"
      "length (bits bm') = length (bits b)"
      "\<forall>k<length (bits b). bits bm' ! k = (k \<in> set js \<or> bits b ! k)"
    using Cons.IH by blast
  moreover have "i < length (bits bm)" using Cons.prems by simp
  ultimately show ?case using b len by (auto simp: nth_list_update simp del: length_bits)
qed simp

lemma clear_fold_ok:
  assumes "distinct is" "\<forall>i\<in>set is. begin + i < length (bits bm)" "\<forall>i\<in>set is. bits bm ! (begin + i)"
  shows "\<exists>bm'. res_fold (\<lambda>i (errs, bm). res_bind (BitmapClear bm (begin + i)) (\<lambda>(changed, bm').
        Inr (if changed then errs else errs @ [Double_Free (base + i * PageSize)], bm'))) is (errs, bm)
      = Inr (errs, bm') \<and> length (bits bm') = length (bits bm) \<and>
    (\<forall>k<length (bits bm). bits bm' ! k = (bits bm ! k \<and> (\<forall>i\<in>set is. k \<noteq> begin + i)))"
  using assms
proof (induction "is" arbitrary: bm)
  case (Cons i js)
  obtain b where b: "BitmapClear bm (begin + i) = Inr (True, b)" "bits b = (bits bm)[begin + i := False]"
    using bm.clear_view [of "begin + i" bm] Cons.prems by auto
  then have len: "length (bits b) = length (bits bm)" by (metis length_list_update)
  have "distinct js" "\<forall>i\<in>set js. begin + i < length (bits b)" "\<forall>i\<in>set js. bits b ! (begin + i)"
    using Cons.prems b(2) len by (auto simp: nth_list_update)
  then obtain bm' where "res_fold (\<lambda>i (errs, bm). res_bind (BitmapClear bm (begin + i)) (\<lambda>(changed, bm').
        Inr (if changed then errs else errs @ [Double_Free (base + i * PageSize)], bm'))) js (errs, b)
      = Inr (errs, bm')" "length (bits bm') = length (bits b)"
      "\<forall>k<length (bits b). bits bm' ! k = (bits b ! k \<and> (\<forall>i\<in>set js. k \<noteq> begin + i))"
    using Cons.IH by blast
  moreover have "begin + i < length (bits bm)" using Cons.prems by simp
  ultimately show ?case using b len by (auto simp: nth_list_update simp del: length_bits)
qed simp

text \<open>Marking and clearing a run in a zone, and the pages of the zone that are free.\<close>

definition zone_free :: "pm_zone \<Rightarrow> size_t set" where
  "zone_free z = {z_base z + i * PageSize | i. i < z_count z \<and> \<not> bits (z_bitmap z) ! i}"

definition pages_at :: "size_t \<Rightarrow> size_t \<Rightarrow> size_t set" where
  "pages_at p n = {p + k * PageSize | k. k < n}"

lemma page_eq: "b + i * PageSize = b + st * PageSize + k * PageSize \<longleftrightarrow> i = st + k" for b :: nat
  by linarith

lemma pages_at_zone:
  "z_base z + i * PageSize \<in> pages_at (z_base z + st * PageSize) n \<longleftrightarrow> st \<le> i \<and> i < st + n"
  unfolding pages_at_def mem_Collect_eq page_eq
proof
  assume "st \<le> i \<and> i < st + n"
  then show "\<exists>k. i = st + k \<and> k < n" by (intro exI [of _ "i - st"]) auto
qed auto

lemma pages_atE:
  assumes "x \<in> pages_at (z_base z + st * PageSize) n"
  obtains i where "st \<le> i" "i < st + n" "x = z_base z + i * PageSize"
proof -
  from assms obtain k where "k < n" "x = z_base z + st * PageSize + k * PageSize"
    by (auto simp: pages_at_def)
  then show thesis by (intro that [of "st + k"]) (simp_all add: add_mult_distrib)
qed

lemma zone_mark_ok:
  assumes "zone_ok z" "clear_run z st n"
  shows "\<exists>z'. zone_mark z st n = Inr z' \<and> zone_ok z' \<and> z_base z' = z_base z \<and> z_count z' = z_count z \<and>
    (\<forall>k. st \<le> k \<and> k < st + n \<longrightarrow> bits (z_bitmap z') ! k) \<and>
    pages_at (z_base z + st * PageSize) n \<subseteq> zone_free z \<and>
    zone_free z' = zone_free z - pages_at (z_base z + st * PageSize) n"
proof -
  have rng: "st + n \<le> z_count z" "z_count z \<le> length (bits (z_bitmap z))"
    using assms by (auto simp: zone_ok_def clear_run_def)
  then obtain b where b: "res_fold (\<lambda>i bm. res_bind (BitmapSet bm i) (\<lambda>(_, bm'). Inr bm'))
        [st..<st + n] (z_bitmap z) = Inr b" "length (bits b) = length (bits (z_bitmap z))"
      "\<forall>k<length (bits (z_bitmap z)). bits b ! k = (k \<in> set [st..<st + n] \<or> bits (z_bitmap z) ! k)"
    using set_fold_ok [of "[st..<st + n]" "z_bitmap z"] by auto
  let ?z' = "z\<lparr> z_bitmap := b \<rparr>"
  have bit: "bits b ! k \<longleftrightarrow> st \<le> k \<and> k < st + n \<or> bits (z_bitmap z) ! k" if "k < z_count z" for k
    using b(3) rng that by (auto simp del: length_bits)
  have "pages_at (z_base z + st * PageSize) n \<subseteq> zone_free z"
  proof
    fix x
    assume "x \<in> pages_at (z_base z + st * PageSize) n"
    then obtain i where "st \<le> i" "i < st + n" "x = z_base z + i * PageSize" by (rule pages_atE)
    then show "x \<in> zone_free z" using assms(2) by (auto simp: zone_free_def clear_run_def)
  qed
  moreover have "zone_free ?z' = zone_free z - pages_at (z_base z + st * PageSize) n"
    unfolding zone_free_def using bit by (auto simp: pages_at_zone)
  moreover have "zone_ok ?z'" using assms(1) b(2) by (simp add: zone_ok_def)
  ultimately show ?thesis using b(1) bit rng(1) by (auto simp: zone_mark_def)
qed

lemma zone_clear_ok:
  assumes "zone_ok z" "st + n \<le> z_count z" "\<forall>k. st \<le> k \<and> k < st + n \<longrightarrow> bits (z_bitmap z) ! k"
  shows "\<exists>z'. zone_clear z base st n = Inr ([], z') \<and> zone_ok z' \<and> z_base z' = z_base z \<and>
    z_count z' = z_count z \<and> zone_free z' = zone_free z \<union> pages_at (z_base z + st * PageSize) n"
proof -
  have rng: "z_count z \<le> length (bits (z_bitmap z))" using assms(1) by (simp add: zone_ok_def)
  then obtain b where b: "res_fold (\<lambda>i (errs, bm). res_bind (BitmapClear bm (st + i)) (\<lambda>(changed, bm').
        Inr (if changed then errs else errs @ [Double_Free (base + i * PageSize)], bm')))
        [0..<n] ([], z_bitmap z) = Inr ([], b)" "length (bits b) = length (bits (z_bitmap z))"
      "\<forall>k<length (bits (z_bitmap z)). bits b ! k =
         (bits (z_bitmap z) ! k \<and> (\<forall>i\<in>set [0..<n]. k \<noteq> st + i))"
    using clear_fold_ok [of "[0..<n]" st "z_bitmap z" base "[]"] assms(2,3) by auto
  let ?z' = "z\<lparr> z_bitmap := b \<rparr>"
  have bit: "bits b ! k \<longleftrightarrow> bits (z_bitmap z) ! k \<and> \<not> (st \<le> k \<and> k < st + n)" if "k < z_count z" for k
  proof -
    have "k < length (bits (z_bitmap z))" using that rng by simp
    then have "bits b ! k = (bits (z_bitmap z) ! k \<and> (\<forall>i<n. k \<noteq> st + i))" using b(3) by auto
    moreover have "(\<forall>i<n. k \<noteq> st + i) \<longleftrightarrow> \<not> (st \<le> k \<and> k < st + n)"
    proof (cases "st \<le> k")
      case True
      then obtain d where "k = st + d" using le_Suc_ex by blast
      then show ?thesis by auto
    qed simp
    ultimately show ?thesis by simp
  qed
  have "zone_free ?z' = zone_free z \<union> pages_at (z_base z + st * PageSize) n" (is "_ = ?r")
  proof (intro set_eqI iffI)
    fix x
    assume "x \<in> zone_free ?z'"
    then obtain i where i: "i < z_count z" "\<not> bits b ! i" "x = z_base z + i * PageSize"
      by (auto simp: zone_free_def)
    show "x \<in> ?r"
    proof (cases "bits (z_bitmap z) ! i")
      case True
      then have "st \<le> i \<and> i < st + n" using bit [OF i(1)] i(2) by blast
      then show ?thesis unfolding i(3) Un_iff pages_at_zone by blast
    next
      case False
      then show ?thesis using i by (auto simp: zone_free_def)
    qed
  next
    fix x
    assume "x \<in> ?r"
    then consider "x \<in> zone_free z" | i where "st \<le> i" "i < st + n" "x = z_base z + i * PageSize"
      by (blast elim: pages_atE)
    then show "x \<in> zone_free ?z'"
    proof cases
      case 1
      then show ?thesis using bit by (auto simp: zone_free_def)
    next
      case 2
      then show ?thesis using bit [of i] assms(2) by (auto simp: zone_free_def)
    qed
  qed
  moreover have "zone_ok ?z'" using assms(1) b(2) by (simp add: zone_ok_def)
  ultimately show ?thesis using b(1) by (auto simp: zone_clear_def)
qed


subsection \<open>The free pages of the manager\<close>

definition run_pages :: "pm_free_entry \<Rightarrow> size_t list" where
  "run_pages fe = map (\<lambda>k. fe_base fe + k * PageSize) [0..<runLength fe]"

definition zone_pages :: "pm_zone \<Rightarrow> size_t list" where
  "zone_pages z = map (\<lambda>k. z_base z + k * PageSize) [0..<z_count z]"

definition free_pages :: "pmm \<Rightarrow> size_t set" where
  "free_pages s = set (concat (map run_pages (pm_freelist s))) \<union> (\<Union>z\<in>set (pm_zones s). zone_free z)"

text \<open>
  No page is in two runs, in two zones, or in a run and in a zone; bases are page aligned and
  the bitmaps are large enough.
\<close>

definition pmm_inv :: "pmm \<Rightarrow> bool" where
  "pmm_inv s \<longleftrightarrow>
     (\<forall>z\<in>set (pm_zones s). zone_ok z \<and> z_base z mod PageSize = 0) \<and>
     (\<forall>fe\<in>set (pm_freelist s). 0 < runLength fe \<and> fe_base fe mod PageSize = 0) \<and>
     distinct (concat (map run_pages (pm_freelist s)) @ concat (map zone_pages (pm_zones s)))"

lemma zone_free_pages: "zone_free z \<subseteq> set (zone_pages z)"
  by (auto simp: zone_free_def zone_pages_def)

lemma run_pages_split:
  assumes "0 < runLength fe"
  shows "run_pages fe = fe_base fe #
    run_pages \<lparr> fe_base = fe_base fe + PageSize, runLength = runLength fe - 1 \<rparr>"
proof -
  have "[0..<runLength fe] = 0 # map Suc [0..<runLength fe - 1]"
    using assms by (simp add: map_Suc_upt upt_conv_Cons)
  then show ?thesis by (simp add: run_pages_def)
qed

text \<open>A single page is taken from the head of the freelist.\<close>

lemma Alloc_one:
  assumes "pmm_inv s" "pm_freelist s \<noteq> []"
  shows "\<exists>p s'. Alloc s 1 = Inr (p, s') \<and> p \<in> free_pages s \<and> free_pages s' = free_pages s - {p} \<and>
    pmm_inv s' \<and> p mod PageSize = 0 \<and> pm_zones s' = pm_zones s \<and> (\<forall>z\<in>set (pm_zones s). p \<notin> set (zone_pages z)) \<and>
    p \<notin> set (concat (map run_pages (pm_freelist s')))"
proof -
  obtain fe rest where fl: "pm_freelist s = fe # rest" using assms(2) by (cases "pm_freelist s") auto
  define fe' where "fe' = \<lparr> fe_base = fe_base fe + PageSize, runLength = runLength fe - 1 \<rparr>"
  define new where "new = (if runLength fe > 1 then fe' # rest else rest)"
  have run: "0 < runLength fe" "fe_base fe mod PageSize = 0" using assms(1) fl by (auto simp: pmm_inv_def)
  have alloc: "Alloc s 1 = Inr (fe_base fe, s\<lparr> pm_freelist := new \<rparr>)"
    by (simp add: Alloc_def fl new_def fe'_def)
  have pages: "concat (map run_pages (pm_freelist s)) = fe_base fe # concat (map run_pages new)"
  proof (cases "runLength fe > 1")
    case False
    with run have "runLength fe = 1" by simp
    then show ?thesis by (simp add: fl new_def run_pages_def)
  qed (use run_pages_split [OF run(1)] in \<open>simp add: fl new_def fe'_def\<close>)
  have d: "distinct (fe_base fe # concat (map run_pages new) @ concat (map zone_pages (pm_zones s)))"
    using assms(1) pages by (simp add: pmm_inv_def)
  have nz: "fe_base fe \<notin> zone_free z" if "z \<in> set (pm_zones s)" for z
    using d that zone_free_pages [of z] by auto
  have "free_pages (s\<lparr> pm_freelist := new \<rparr>) = free_pages s - {fe_base fe}"
    using d nz by (auto simp: free_pages_def pages)
  moreover have "pmm_inv (s\<lparr> pm_freelist := new \<rparr>)"
    using assms(1) d run by (auto simp: pmm_inv_def fl new_def fe'_def mod_add_self2)
  moreover have "fe_base fe \<in> free_pages s" by (simp add: free_pages_def pages)
  ultimately show ?thesis using alloc run(2) d by auto
qed

text \<open>Several pages are taken from the first zone that has a run of clear bits.\<close>

lemma alloc_zones_ok:
  assumes "\<forall>z\<in>set zs. zone_ok z" "0 < n"
  shows "(\<exists>us z vs st z'. zs = us @ z # vs \<and> clear_run z st n \<and> zone_mark z st n = Inr z' \<and>
      alloc_zones zs n = Inr (z_base z + st * PageSize, us @ z' # vs)) \<or>
    (\<forall>z\<in>set zs. \<forall>st. \<not> clear_run z st n) \<and> alloc_zones zs n = Inr (0, zs)"
  using assms(1)
proof (induction zs)
  case (Cons z zs)
  obtain r st where r: "zone_scan z n 0 0 0 = Inr (r, st)"
      "if r = n then clear_run z st n else \<forall>st. \<not> clear_run z st n"
    using zone_scan_ok [of z 0 n 0 0] Cons.prems assms(2) by auto
  show ?case
  proof (cases "r = n")
    case True
    then have "clear_run z st n" using r(2) by simp
    moreover obtain z' where "zone_mark z st n = Inr z'"
      using zone_mark_ok [of z st n] calculation Cons.prems by auto
    ultimately show ?thesis using r(1) True
      by (intro disjI1 exI [of _ "[]"] exI [of _ z] exI [of _ zs] exI [of _ st] exI [of _ z']) simp
  next
    case False
    have "\<forall>z\<in>set zs. zone_ok z" using Cons.prems by simp
    with Cons.IH consider
        (found) us w vs st' w' where "zs = us @ w # vs" "clear_run w st' n" "zone_mark w st' n = Inr w'"
          "alloc_zones zs n = Inr (z_base w + st' * PageSize, us @ w' # vs)"
      | (none) "\<forall>z\<in>set zs. \<forall>st. \<not> clear_run z st n" "alloc_zones zs n = Inr (0, zs)"
      by blast
    then show ?thesis
    proof cases
      case found
      then show ?thesis using r(1) False
        by (intro disjI1 exI [of _ "z # us"] exI [of _ w] exI [of _ vs] exI [of _ st'] exI [of _ w']) simp
    next
      case none
      then show ?thesis using r False by simp
    qed
  qed
qed simp


definition other_pages :: "pmm \<Rightarrow> pm_zone list \<Rightarrow> size_t set" where
  "other_pages s zs = set (concat (map run_pages (pm_freelist s))) \<union> (\<Union>z\<in>set zs. zone_free z)"

lemma free_pages_zone:
  "free_pages (s\<lparr> pm_zones := us @ z # vs \<rparr>) = other_pages s (us @ vs) \<union> zone_free z"
  by (auto simp: free_pages_def other_pages_def)

lemma other_pages_disjoint:
  assumes "pmm_inv s" "pm_zones s = us @ z # vs"
  shows "other_pages s (us @ vs) \<inter> set (zone_pages z) = {}"
proof -
  have "distinct (concat (map run_pages (pm_freelist s)) @ concat (map zone_pages (us @ z # vs)))"
    using assms by (simp add: pmm_inv_def)
  then have "set (zone_pages z) \<inter> set (concat (map run_pages (pm_freelist s))) = {}"
      "set (zone_pages z) \<inter> set (concat (map zone_pages (us @ vs))) = {}" by auto
  moreover have "(\<Union>z\<in>set (us @ vs). zone_free z) \<subseteq> set (concat (map zone_pages (us @ vs)))"
    using zone_free_pages by fastforce
  ultimately show ?thesis unfolding other_pages_def by blast
qed

lemma pmm_inv_zone:
  assumes "pmm_inv s" "pm_zones s = us @ z # vs" "zone_ok z'" "z_base z' = z_base z" "z_count z' = z_count z"
  shows "pmm_inv (s\<lparr> pm_zones := us @ z' # vs \<rparr>)"
proof -
  have "zone_pages z' = zone_pages z" using assms(4,5) by (simp add: zone_pages_def)
  with assms show ?thesis by (simp add: pmm_inv_def)
qed

lemma Alloc_contig:
  assumes "pmm_inv s" "2 \<le> n" "z0 \<in> set (pm_zones s)" "clear_run z0 st0 n"
  shows "\<exists>us z vs st z'. pm_zones s = us @ z # vs \<and> clear_run z st n \<and> zone_mark z st n = Inr z' \<and>
    Alloc s n = Inr (z_base z + st * PageSize, s\<lparr> pm_zones := us @ z' # vs \<rparr>)"
proof -
  have "\<forall>z\<in>set (pm_zones s). zone_ok z" using assms(1) by (auto simp: pmm_inv_def)
  from alloc_zones_ok [OF this, of n] obtain us z vs st z' where
      "pm_zones s = us @ z # vs" "clear_run z st n" "zone_mark z st n = Inr z'"
      "alloc_zones (pm_zones s) n = Inr (z_base z + st * PageSize, us @ z' # vs)"
    using assms(2-4) by auto
  moreover from this(4) have
    "Alloc s n = Inr (z_base z + st * PageSize, s\<lparr> pm_zones := us @ z' # vs \<rparr>)"
    using assms(2) by (simp add: Alloc_def)
  ultimately show ?thesis by blast
qed

lemma contig_taken:
  assumes "pmm_inv s" "pm_zones s = us @ z # vs" "clear_run z st n" "zone_mark z st n = Inr z'"
  shows "pages_at (z_base z + st * PageSize) n \<subseteq> free_pages s \<and>
    free_pages (s\<lparr> pm_zones := us @ z' # vs \<rparr>) = free_pages s - pages_at (z_base z + st * PageSize) n \<and>
    pmm_inv (s\<lparr> pm_zones := us @ z' # vs \<rparr>)"
proof -
  note a = assms(2-4)
  have "zone_ok z" using assms(1) a(1) by (simp add: pmm_inv_def)
  from zone_mark_ok [OF this a(2)] a(3) have z': "zone_ok z'" "z_base z' = z_base z" "z_count z' = z_count z"
      "pages_at (z_base z + st * PageSize) n \<subseteq> zone_free z"
      "zone_free z' = zone_free z - pages_at (z_base z + st * PageSize) n"
    by auto
  have fs: "free_pages s = other_pages s (us @ vs) \<union> zone_free z"
    unfolding free_pages_zone [symmetric] by (simp add: a(1) [symmetric])
  have "other_pages s (us @ vs) \<inter> pages_at (z_base z + st * PageSize) n = {}"
    using other_pages_disjoint [OF assms(1) a(1)] zone_free_pages [of z] z'(4) by blast
  then have "free_pages (s\<lparr> pm_zones := us @ z' # vs \<rparr>) = free_pages s - pages_at (z_base z + st * PageSize) n"
    unfolding free_pages_zone fs z'(5) by blast
  then show ?thesis using z'(4) pmm_inv_zone [OF assms(1) a(1) z'(1-3)] unfolding fs by blast
qed

subsection \<open>Freeing\<close>

lemma in_zone_range:
  assumes "base mod PageSize = 0" "z_base z mod PageSize = 0" "z_base z \<le> base"
    "base < z_base z + z_count z * PageSize"
  shows "base \<in> set (zone_pages z)"
proof -
  have "(base - z_base z) mod PageSize = 0" using assms(1-3) by (simp add: mod_eq_dvd_iff_nat mod_0_imp_dvd dvd_diff_nat)
  then obtain k where k: "base - z_base z = k * PageSize" by (metis dvd_def mod_0_imp_dvd mult.commute)
  then have "base = z_base z + k * PageSize" using assms(3) by linarith
  moreover from this have "k < z_count z" using assms(4) by simp
  ultimately show ?thesis by (auto simp: zone_pages_def)
qed

lemma free_zones_none:
  assumes "\<forall>z\<in>set zs. base \<notin> set (zone_pages z) \<and> z_base z mod PageSize = 0" "base mod PageSize = 0"
  shows "free_zones zs base n = Inr None"
  using assms(1)
proof (induction zs)
  case (Cons z zs)
  then have "base < z_base z \<or> base \<ge> z_base z + z_count z * PageSize"
    using in_zone_range [OF assms(2), of z] by force
  with Cons show ?case by simp
qed simp

lemma free_zones_skip:
  assumes "\<forall>z\<in>set us. base \<notin> set (zone_pages z) \<and> z_base z mod PageSize = 0" "base mod PageSize = 0"
  shows "free_zones (us @ zs) base n =
    res_bind (free_zones zs base n) (\<lambda>r. Inr (map_option (\<lambda>(errs, zs'). (errs, us @ zs')) r))"
  using assms(1)
proof (induction us)
  case Nil
  then show ?case
    by (cases "free_zones zs base n") (auto simp: option.map_id0 map_option.identity split: option.split)
next
  case (Cons z us)
  then have "base < z_base z \<or> base \<ge> z_base z + z_count z * PageSize"
    using in_zone_range [OF assms(2), of z] by force
  then have step: "free_zones ((z # us) @ zs) base n = res_bind (free_zones (us @ zs) base n)
      (\<lambda>r. Inr (map_option (\<lambda>(errs, zs'). (errs, z # zs')) r))"
    by simp
  have IH: "free_zones (us @ zs) base n =
      res_bind (free_zones zs base n) (\<lambda>r. Inr (map_option (\<lambda>(errs, zs'). (errs, us @ zs')) r))"
    using Cons by simp
  show ?case unfolding step IH
  proof (cases "free_zones zs base n")
    case (Inr r)
    then show "res_bind (res_bind (free_zones zs base n)
        (\<lambda>r. Inr (map_option (\<lambda>(errs, zs'). (errs, us @ zs')) r)))
        (\<lambda>r. Inr (map_option (\<lambda>(errs, zs'). (errs, z # zs')) r)) =
      res_bind (free_zones zs base n) (\<lambda>r. Inr (map_option (\<lambda>(errs, zs'). (errs, (z # us) @ zs')) r))"
      by (cases r) auto
  qed simp
qed


lemma draw_pages_same [simp]:
  "pm_zones (draw_pages n s) = pm_zones s" "pm_freelist (draw_pages n s) = pm_freelist s"
  "free_pages (draw_pages n s) = free_pages s" "pmm_inv (draw_pages n s) = pmm_inv s"
  by (simp_all add: draw_pages_def free_pages_def pmm_inv_def)

lemma Free_one:
  assumes "pmm_inv s" "\<not> trashAfterUse s" "p \<noteq> 0" "p mod PageSize = 0" "\<forall>z\<in>set (pm_zones s). p \<notin> set (zone_pages z)"
    and "p \<notin> set (concat (map run_pages (pm_freelist s)))"
  shows "\<exists>s'. Free s p 1 = Inr ([], s') \<and> free_pages s' = insert p (free_pages s) \<and> pmm_inv s'"
proof -
  let ?fe = "\<lparr> fe_base = p, runLength = 1 \<rparr>"
  let ?s' = "s\<lparr> pm_freelist := ?fe # pm_freelist s \<rparr>"
  have "\<forall>z\<in>set (pm_zones s). z_base z mod PageSize = 0" using assms(1) by (simp add: pmm_inv_def)
  then have "free_zones (pm_zones s) p 1 = Inr None" using assms(4,5) by (intro free_zones_none) auto
  then have "Free s p 1 = Inr ([], ?s')" using assms(2-4) by (simp add: Free_def trash_head_def)
  moreover have rp: "run_pages ?fe = [p]" by (simp add: run_pages_def)
  then have "free_pages ?s' = insert p (free_pages s)" by (simp add: free_pages_def)
  moreover have "pmm_inv ?s'" using assms rp unfolding pmm_inv_def by auto
  ultimately show ?thesis by blast
qed

lemma Free_contig:
  assumes "pmm_inv s" "pm_zones s = us @ z # vs" "clear_run z st n" "zone_mark z st n = Inr z'" "0 < n"
    and "z_base z + st * PageSize \<noteq> 0"
  shows "\<exists>s''. Free (s\<lparr> pm_zones := us @ z' # vs \<rparr>) (z_base z + st * PageSize) n = Inr ([], s'') \<and>
    free_pages s'' = free_pages s \<and> pmm_inv s''"
proof -
  let ?p = "z_base z + st * PageSize"
  have zok: "zone_ok z" "z_base z mod PageSize = 0" using assms(1,2) by (auto simp: pmm_inv_def)
  from zone_mark_ok [OF zok(1) assms(3)] assms(4) have z': "zone_ok z'" "z_base z' = z_base z"
      "z_count z' = z_count z" "\<forall>k. st \<le> k \<and> k < st + n \<longrightarrow> bits (z_bitmap z') ! k"
      "pages_at ?p n \<subseteq> zone_free z" "zone_free z' = zone_free z - pages_at ?p n"
    by auto
  have rng: "st + n \<le> z_count z" using assms(3) by (simp add: clear_run_def)
  obtain z'' where z'': "zone_clear z' ?p st n = Inr ([], z'')" "zone_ok z''" "z_base z'' = z_base z'"
      "z_count z'' = z_count z'" "zone_free z'' = zone_free z' \<union> pages_at ?p n"
    using zone_clear_ok [OF z'(1), of st n ?p] rng z'(2-4) by auto
  have al: "?p mod PageSize = 0" using zok(2) by (simp add: mod_add_right_eq)
  have "?p \<in> zone_free z" using z'(5) assms(5) by (auto simp: pages_at_def)
  then have pz: "?p \<in> set (zone_pages z)" using zone_free_pages by blast
  have "\<forall>u\<in>set us. ?p \<notin> set (zone_pages u) \<and> z_base u mod PageSize = 0"
    using assms(1,2) pz by (auto simp: pmm_inv_def)
  then have "free_zones (us @ z' # vs) ?p n =
      res_bind (free_zones (z' # vs) ?p n) (\<lambda>r. Inr (map_option (\<lambda>(errs, zs'). (errs, us @ zs')) r))"
    using al by (rule free_zones_skip)
  moreover have "free_zones (z' # vs) ?p n = Inr (Some ([], z'' # vs))"
    using z'(2,3) rng assms(5) z''(1) by simp
  ultimately have "free_zones (us @ z' # vs) ?p n = Inr (Some ([], us @ z'' # vs))" by simp
  then have "Free (s\<lparr> pm_zones := us @ z' # vs \<rparr>) ?p n = Inr ([], draw_pages n (s\<lparr> pm_zones := us @ z'' # vs \<rparr>))"
    using al assms(5,6) by (auto simp: Free_def)
  moreover have "zone_free z'' = zone_free z" using z''(5) z'(5,6) by blast
  then have "free_pages (s\<lparr> pm_zones := us @ z'' # vs \<rparr>) = free_pages (s\<lparr> pm_zones := us @ z # vs \<rparr>)"
    by (simp add: free_pages_zone)
  then have "free_pages (s\<lparr> pm_zones := us @ z'' # vs \<rparr>) = free_pages s"
    by (simp add: assms(2) [symmetric])
  moreover have "pmm_inv (s\<lparr> pm_zones := us @ z'' # vs \<rparr>)"
    using pmm_inv_zone [OF assms(1,2) z''(2)] z''(3,4) z'(2,3) by simp
  ultimately show ?thesis by simp
qed

subsection \<open>Properties\<close>

text \<open>C1: From a state in which no page is listed twice, allocating one page returns a page that
  was free and is no longer free, so it is never handed out twice; with the option
  \<open>kernel.pmm.trash_after_use\<close> off, as it is by default, freeing it reports no error and restores the
  set of free pages. Both keep the invariant.\<close>

theorem pmm_page_roundtrip:
  assumes "pmm_inv s" "\<not> trashAfterUse s" "pm_freelist s \<noteq> []"
  shows "\<exists>p s'. Alloc s 1 = Inr (p, s') \<and> p \<in> free_pages s \<and> free_pages s' = free_pages s - {p} \<and>
    pmm_inv s' \<and>
    (p \<noteq> 0 \<longrightarrow> (\<exists>s''. Free s' p 1 = Inr ([], s'') \<and> free_pages s'' = free_pages s \<and> pmm_inv s''))"
proof -
  obtain p s' where a: "Alloc s 1 = Inr (p, s')" "p \<in> free_pages s" "free_pages s' = free_pages s - {p}"
      "pmm_inv s'" "p mod PageSize = 0" "pm_zones s' = pm_zones s"
      "\<forall>z\<in>set (pm_zones s). p \<notin> set (zone_pages z)" "p \<notin> set (concat (map run_pages (pm_freelist s')))"
    using Alloc_one [OF assms(1,3)] by (elim exE conjE) (rule that)
  have off: "\<not> trashAfterUse s'" using a(1) assms(2) by (auto simp: Alloc_def split: list.splits if_splits)
  have f: "\<exists>s''. Free s' p 1 = Inr ([], s'') \<and> free_pages s'' = free_pages s \<and> pmm_inv s''" if nz: "p \<noteq> 0"
  proof -
    have "\<forall>z\<in>set (pm_zones s'). p \<notin> set (zone_pages z)" using a(6,7) by simp
    then obtain s'' where "Free s' p 1 = Inr ([], s'')" "free_pages s'' = insert p (free_pages s')" "pmm_inv s''"
      using Free_one [OF a(4) off nz a(5) _ a(8)] by blast
    moreover have "insert p (free_pages s') = free_pages s" using a(2,3) by blast
    ultimately show ?thesis by simp
  qed
  show ?thesis by (rule exI [of _ p], rule exI [of _ s']) (intro conjI impI a(1-4) f)
qed

definition pmm_example :: pmm where
  "pmm_example = \<lparr> pm_zones = [\<lparr> z_bitmap = [0x01], z_base = 0x8000, z_count = 4 \<rparr>], pm_segments = [],
     pm_freelist = [\<lparr> fe_base = 0x1000, runLength = 2 \<rparr>], trashAfterUse = False, pm_rng = (\<lambda>_. 0), pm_lost = False \<rparr>"

lemma pmm_example_inv: "pmm_inv pmm_example"
  by (simp add: pmm_inv_def pmm_example_def zone_ok_def run_pages_def zone_pages_def upt_rec_numeral
      upt_0_rec)

theorem pmm_page_roundtrip_witness:
  "\<exists>p s'. Alloc pmm_example 1 = Inr (p, s') \<and> p \<in> free_pages pmm_example \<and>
    free_pages s' = free_pages pmm_example - {p} \<and> pmm_inv s' \<and>
    (p \<noteq> 0 \<longrightarrow> (\<exists>s''. Free s' p 1 = Inr ([], s'') \<and> free_pages s'' = free_pages pmm_example \<and> pmm_inv s''))"
  using pmm_page_roundtrip [OF pmm_example_inv] by (simp add: pmm_example_def)

text \<open>
  With the option on, the page that is freed is overwritten after its entry was linked into the
  freelist: whatever was free before is lost to the allocator, and when the words that were
  written say that the run has no second page, taking the freed page leaves a garbage pointer as
  the head, which the next allocation follows.
\<close>

lemma pmm_trash_loses_freelist:
  assumes "pmm_inv s" "trashAfterUse s" "p \<noteq> 0" "p mod PageSize = 0" "\<forall>z\<in>set (pm_zones s). p \<notin> set (zone_pages z)"
  obtains s' where "Free s p 1 = Inr ([], s')" "pm_freelist s' = [\<lparr> fe_base = p, runLength = pm_rng s 1 \<rparr>]" "pm_lost s'"
    "pm_rng s 1 \<le> 1 \<Longrightarrow> \<exists>s2. Alloc s' 1 = Inr (p, s2) \<and> Alloc s2 1 = Inl Bad_Index"
proof -
  have "\<forall>z\<in>set (pm_zones s). z_base z mod PageSize = 0" using assms(1) by (simp add: pmm_inv_def)
  then have z: "free_zones (pm_zones s) p 1 = Inr None" using assms(4,5) by (intro free_zones_none) auto
  let ?s' = "trash_head (s\<lparr> pm_freelist := \<lparr> fe_base = p, runLength = 1 \<rparr> # pm_freelist s \<rparr>)"
  have f: "Free s p 1 = Inr ([], ?s')" using z assms(3,4) by (simp add: Free_def)
  have l: "pm_freelist ?s' = [\<lparr> fe_base = p, runLength = pm_rng s 1 \<rparr>]" "pm_lost ?s'"
    using assms(2) by (simp_all add: trash_head_def draw_pages_def)
  have "\<exists>s2. Alloc ?s' 1 = Inr (p, s2) \<and> Alloc s2 1 = Inl Bad_Index" if "pm_rng s 1 \<le> 1"
    using that l by (simp add: Alloc_def)
  with f l show thesis by (rule that)
qed

text \<open>C2: Allocating several pages succeeds whenever some zone has that many clear bits in a row;
  it returns a run of pages that were free, removes exactly these from the free pages, and freeing
  the run reports no double free and restores them.\<close>

theorem pmm_contig_roundtrip:
  assumes "pmm_inv s" "2 \<le> n" "z \<in> set (pm_zones s)" "clear_run z st n"
  shows "\<exists>p s'. Alloc s n = Inr (p, s') \<and> pages_at p n \<subseteq> free_pages s \<and>
    free_pages s' = free_pages s - pages_at p n \<and> pmm_inv s' \<and>
    (p \<noteq> 0 \<longrightarrow> (\<exists>s''. Free s' p n = Inr ([], s'') \<and> free_pages s'' = free_pages s \<and> pmm_inv s''))"
proof -
  obtain us w vs st' w' where a: "pm_zones s = us @ w # vs" "clear_run w st' n" "zone_mark w st' n = Inr w'"
      "Alloc s n = Inr (z_base w + st' * PageSize, s\<lparr> pm_zones := us @ w' # vs \<rparr>)"
    using Alloc_contig [OF assms] by blast
  have "0 < n" using assms(2) by simp
  note f = Free_contig [OF assms(1) a(1-3) this]
  note c = contig_taken [OF assms(1) a(1-3)]
  show ?thesis
    by (rule exI [of _ "z_base w + st' * PageSize"], rule exI [of _ "s\<lparr> pm_zones := us @ w' # vs \<rparr>"])
      (intro conjI impI a(4) f c [THEN conjunct1] c [THEN conjunct2, THEN conjunct1]
        c [THEN conjunct2, THEN conjunct2])
qed

theorem pmm_contig_roundtrip_witness:
  "\<exists>p s'. Alloc pmm_example 3 = Inr (p, s') \<and> pages_at p 3 \<subseteq> free_pages pmm_example \<and>
    free_pages s' = free_pages pmm_example - pages_at p 3 \<and> pmm_inv s' \<and>
    (p \<noteq> 0 \<longrightarrow> (\<exists>s''. Free s' p 3 = Inr ([], s'') \<and> free_pages s'' = free_pages pmm_example \<and> pmm_inv s''))"
proof -
  have b: "bits [0x01] = [True, False, False, False, False, False, False, False]"
    by (simp add: bits_def upt_rec_numeral upt_0_rec)
  have "clear_run (hd (pm_zones pmm_example)) 1 3"
    by (auto simp: clear_run_def pmm_example_def b nth_Cons' )
  then show ?thesis
    by (intro pmm_contig_roundtrip [OF pmm_example_inv]) (simp_all add: pmm_example_def)
qed

text \<open>\<open>SortMemoryMapBySize\<close> returns a permutation of a non-empty memory map sorted by falling
  length, without leaving the map.\<close>

lemma pmm_sort_correct:
  assumes "es \<noteq> []" "length es < size_limit"
  shows "\<exists>es'. SortMemoryMapBySize es = Inr es' \<and> mset es' = mset es \<and>
    sorted_wrt (\<lambda>a b. mm_length a \<ge> mm_length b) es'"
  by (rule SortMemoryMapBySize_ok [OF assms])

lemma pmm_sort_correct_example:
  "\<exists>es'. SortMemoryMapBySize [\<lparr> mm_base = 0, mm_length = 1 \<rparr>, \<lparr> mm_base = 4096, mm_length = 2 \<rparr>] = Inr es' \<and>
    mset es' = mset [\<lparr> mm_base = 0, mm_length = 1 \<rparr>, \<lparr> mm_base = 4096, mm_length = 2 \<rparr>] \<and>
    sorted_wrt (\<lambda>a b. mm_length a \<ge> mm_length b) es'"
  by (rule pmm_sort_correct) (simp_all add: size_limit_def)


subsection \<open>Properties of ingesting\<close>

lemma sort_empty: "SortMemoryMapBySize [] = Inl Bad_Index"
proof -
  have w: "sz_sub 0 1 = size_limit - 1" "sz_sub (sz_sub 0 0) 1 = size_limit - 1" "1 < size_limit"
    by (simp_all add: sz_sub_def size_limit_def)
  show ?thesis unfolding SortMemoryMapBySize_def
    by (subst sort_passes.simps, subst sort_pass.simps) (use w in simp)
qed

lemma ingest_batches_full:
  assumes "ingest_batches lay s mmap quota = Some (Inr s')"
  shows "length mmap mod MemmapProcessSize \<noteq> 0"
  using assms
proof (induction lay s mmap quota rule: ingest_batches.induct)
  case (1 lay s mmap quota)
  then obtain t where t: "IngestMemory lay s (take MemmapProcessSize mmap) quota = Some (Inr t)"
    by (subst (asm) (2) ingest_batches.simps) (auto split: option.splits sum.splits)
  then have "mmap \<noteq> []" by (auto simp: IngestMemory_def sort_empty)
  show ?case
  proof (cases "length mmap < MemmapProcessSize")
    case True
    with \<open>mmap \<noteq> []\<close> show ?thesis by simp
  next
    case False
    with "1.prems" t have "ingest_batches lay t (drop MemmapProcessSize mmap) quota = Some (Inr s')"
      by (subst (asm) ingest_batches.simps) simp
    with "1.IH" [OF t refl False] have "length (drop MemmapProcessSize mmap) mod MemmapProcessSize \<noteq> 0" by simp
    then show ?thesis using False by (simp add: le_mod_geq)
  qed
qed

text \<open>A memory map whose number of entries is a multiple of the batch size, the empty one
  included, is never ingested: the last batch is empty and the sort of an empty span runs out of
  bounds, its loop limit having wrapped around.\<close>

lemma pmm_empty_batch_faults:
  assumes "length mmap mod MemmapProcessSize = 0"
  shows "ReclaimBootMemory lay s mmap \<noteq> Some (Inr s') \<and> IngestMemory lay s [] q = Some (Inl Bad_Index)"
  using assms ingest_batches_full [of lay s mmap 0 s']
  by (auto simp: ReclaimBootMemory_def IngestMemory_def sort_empty)

lemma pmm_empty_batch_faults_example:
  "ReclaimBootMemory \<lparr> sz_zone = 48, sz_segment = 32, sz_pageinfo = 16 \<rparr> pmm_example [] \<noteq> Some (Inr pmm_example)"
  using pmm_empty_batch_faults [of "[]"] by simp

end
