(* ===== verification/Pool.thy ===== *)
theory Pool
  imports Linked_List Syslib_Maths
begin

text \<open>
  \<open>kernel/memory/Pool.cpp\<close>: the kernel pool, an allocator of variable-sized blocks. A region
  keeps its free blocks in a doubly linked list of \<open>PoolNode\<close> headers that lie in front of the
  blocks; nodes are addresses and their fields one function of the state. The regions form a
  list ordered by base address, and a node refers to its region by that base. The block contents
  (poisoning and trashing) are not modelled; \<open>doBoundsCheck\<close> only matters for the size. Loops
  along the links return \<open>None\<close> when they do not end.
\<close>

subsection \<open>State\<close>

abbreviation sizeof_PoolNode :: size_t where
  "sizeof_PoolNode \<equiv> 32"

abbreviation sizeof_PoolRegion :: size_t where
  "sizeof_PoolRegion \<equiv> 56"

record pool_node =
  pn_prev :: "size_t option"
  pn_next :: "size_t option"
  pn_parent :: size_t
  pn_length :: size_t

record pool_region =
  pr_base :: size_t
  pr_length :: size_t
  pr_first :: "size_t option"
  pr_last :: "size_t option"

record pool =
  pa_nodes :: "size_t \<Rightarrow> pool_node"
  pa_regions :: "pool_region list"
  minAllocSize :: size_t

definition node_Data :: "size_t \<Rightarrow> size_t" where
  "node_Data n = n + sizeof_PoolNode"

definition upd_node :: "size_t \<Rightarrow> (pool_node \<Rightarrow> pool_node) \<Rightarrow> pool \<Rightarrow> pool" where
  "upd_node n f p = p\<lparr> pa_nodes := (pa_nodes p)(n := f (pa_nodes p n)) \<rparr>"

definition upd_region :: "size_t \<Rightarrow> (pool_region \<Rightarrow> pool_region) \<Rightarrow> pool \<Rightarrow> pool" where
  "upd_region b f p = p\<lparr> pa_regions := map (\<lambda>r. if pr_base r = b then f r else r) (pa_regions p) \<rparr>"

text \<open>Linking a node behind \<open>nx\<close>'s place: \<open>next->prev = v\<close>, or \<open>parent->last = v\<close> at the end.\<close>

definition set_prev_of_next :: "size_t option \<Rightarrow> size_t \<Rightarrow> size_t option \<Rightarrow> pool \<Rightarrow> pool" where
  "set_prev_of_next nx parent v p =
     (case nx of
        Some m \<Rightarrow> upd_node m (\<lambda>nd. nd\<lparr> pn_prev := v \<rparr>) p
      | None \<Rightarrow> upd_region parent (\<lambda>r. r\<lparr> pr_last := v \<rparr>) p)"

subsection \<open>Operations\<close>

definition MergePrev :: "size_t \<Rightarrow> pool \<Rightarrow> pool" where
  "MergePrev n p =
     (let nd = pa_nodes p n
      in case pn_prev nd of
           None \<Rightarrow> p
         | Some pv \<Rightarrow>
             if node_Data pv + pn_length (pa_nodes p pv) \<noteq> n then p
             else
               let p1 = upd_node pv (\<lambda>x. x\<lparr> pn_next := pn_next nd \<rparr>) p;
                   p2 = set_prev_of_next (pn_next nd) (pn_parent nd) (Some pv) p1
               in upd_node pv (\<lambda>x. x\<lparr> pn_length := pn_length x + pn_length nd + sizeof_PoolNode \<rparr>) p2)"

definition MergeNext :: "size_t \<Rightarrow> pool \<Rightarrow> pool" where
  "MergeNext n p =
     (let nd = pa_nodes p n
      in case pn_next nd of
           None \<Rightarrow> p
         | Some nx \<Rightarrow>
             if n + pn_length nd \<noteq> nx then p
             else
               let p1 = upd_node n (\<lambda>x. x\<lparr> pn_next := pn_next (pa_nodes p nx) \<rparr>) p;
                   p2 = set_prev_of_next (pn_next (pa_nodes p nx)) (pn_parent nd) (Some n) p1
               in upd_node n (\<lambda>x. x\<lparr> pn_length := pn_length x + pn_length (pa_nodes p nx) + sizeof_PoolNode \<rparr>) p2)"

definition split_at :: "size_t \<Rightarrow> size_t \<Rightarrow> pool \<Rightarrow> pool" where
  "split_at n spaceNeeded p =
     (let nd = pa_nodes p n;
          latest = node_Data n + spaceNeeded;
          p1 = upd_node latest (\<lambda>_. \<lparr> pn_prev = Some n, pn_next = pn_next nd, pn_parent = pn_parent nd,
                 pn_length = pn_length nd - (spaceNeeded + sizeof_PoolNode) \<rparr>) p;
          p2 = set_prev_of_next (pn_next nd) (pn_parent nd) (Some latest) p1
      in upd_node n (\<lambda>x. x\<lparr> pn_next := Some latest, pn_length := spaceNeeded \<rparr>) p2)"

definition Split :: "size_t \<Rightarrow> size_t \<Rightarrow> pool \<Rightarrow> pool" where
  "Split n spaceNeeded0 p =
     (let spaceNeeded = AlignUp spaceNeeded0 sizeof_PoolNode
      in if pn_length (pa_nodes p n) \<le> minAllocSize p + spaceNeeded + sizeof_PoolNode then p
         else split_at n spaceNeeded p)"

text \<open>
  \<open>Expand\<close> gets its memory from the virtual memory manager, whose answer is an argument. The
  new region goes in front of the first region with a base that is not smaller.
\<close>

definition Expand :: "size_t \<Rightarrow> size_t option \<Rightarrow> pool \<Rightarrow> (pool_region \<times> pool) res" where
  "Expand minSize vm p =
     (let expandSize = Max minSize (minAllocSize p * 2) + sizeof_PoolRegion + sizeof_PoolNode
      in case vm of
           None \<Rightarrow> Inl Assert_Failed
         | Some addr \<Rightarrow>
             let reservedSize = AlignUp (addr + sizeof_PoolRegion) sizeof_PoolNode - addr;
                 base = addr + reservedSize;
                 len = expandSize - reservedSize;
                 r = \<lparr> pr_base = base, pr_length = len, pr_first = Some base, pr_last = Some base \<rparr>;
                 nd = \<lparr> pn_prev = None, pn_next = None, pn_parent = base, pn_length = len - sizeof_PoolNode \<rparr>;
                 before = takeWhile (\<lambda>x. pr_base x < base) (pa_regions p);
                 after = dropWhile (\<lambda>x. pr_base x < base) (pa_regions p)
             in Inr (r, p\<lparr> pa_nodes := (pa_nodes p)(base := nd), pa_regions := before @ r # after \<rparr>))"

definition pool_Init :: "(size_t \<Rightarrow> pool_node) \<Rightarrow> size_t \<Rightarrow> pool" where
  "pool_Init mem minAllocBytes = \<lparr> pa_nodes = mem, pa_regions = [], minAllocSize = minAllocBytes \<rparr>"

partial_function (option) find_node :: "pool \<Rightarrow> size_t \<Rightarrow> size_t option \<Rightarrow> (size_t option) option" where
  "find_node p bytes scan =
     (case scan of
        None \<Rightarrow> Some None
      | Some n \<Rightarrow>
          if pn_length (pa_nodes p n) < bytes then find_node p bytes (pn_next (pa_nodes p n))
          else Some (Some n))"

fun find_region :: "pool \<Rightarrow> size_t \<Rightarrow> pool_region list \<Rightarrow> ((size_t \<times> size_t) option) option" where
  "find_region p bytes [] = Some None"
| "find_region p bytes (r # rs) =
     (case find_node p bytes (pr_first r) of
        None \<Rightarrow> None
      | Some (Some n) \<Rightarrow> Some (Some (pr_base r, n))
      | Some None \<Rightarrow> find_region p bytes rs)"

definition unlink :: "size_t \<Rightarrow> size_t \<Rightarrow> pool \<Rightarrow> pool" where
  "unlink rb n p =
     (let nd = pa_nodes p n;
          p1 = (case pn_prev nd of
                  Some pv \<Rightarrow> upd_node pv (\<lambda>x. x\<lparr> pn_next := pn_next nd \<rparr>) p
                | None \<Rightarrow> upd_region rb (\<lambda>r. r\<lparr> pr_first := pn_next nd \<rparr>) p)
      in set_prev_of_next (pn_next nd) rb (pn_prev nd) p1)"

definition pool_Alloc ::
  "bool \<Rightarrow> (size_t \<Rightarrow> size_t option) \<Rightarrow> size_t \<Rightarrow> pool \<Rightarrow> ((size_t \<times> pool) res) option" where
  "pool_Alloc doBoundsCheck vmm bytes0 p =
     (let bytes = (if doBoundsCheck then bytes0 + 0x20 else bytes0)
      in case find_region p bytes (pa_regions p) of
           None \<Rightarrow> None
         | Some (Some (rb, n)) \<Rightarrow> Some (Inr (node_Data n, unlink rb n (Split n bytes p)))
         | Some None \<Rightarrow>
             (case Expand bytes (vmm (Max bytes (minAllocSize p * 2) + sizeof_PoolRegion + sizeof_PoolNode)) p of
                Inl e \<Rightarrow> Some (Inl e)
              | Inr (r, p1) \<Rightarrow>
                  (case pr_first r of
                     None \<Rightarrow> Some (Inl Null_Deref)
                   | Some n \<Rightarrow> Some (Inr (node_Data n, unlink (pr_base r) n (Split n bytes p1))))))"


text \<open>
  \<open>Free\<close> takes the first region whose base is not above the node: the test for a region that
  ends before the node is the negation of the one before it, so the loop never advances.
\<close>

datatype pool_free_result = Not_Ours | Freed | Double_Freed

partial_function (option) free_scan :: "pool \<Rightarrow> size_t \<Rightarrow> size_t option \<Rightarrow> (size_t option) option" where
  "free_scan p n scan =
     (case scan of
        None \<Rightarrow> Some None
      | Some m \<Rightarrow> if n < m then free_scan p n (pn_next (pa_nodes p m)) else Some (Some m))"

definition free_prepend :: "pool_region \<Rightarrow> size_t \<Rightarrow> size_t \<Rightarrow> pool \<Rightarrow> pool" where
  "free_prepend r first n p =
     (let p1 = upd_node first (\<lambda>x. x\<lparr> pn_prev := Some n \<rparr>) p;
          p2 = upd_node n (\<lambda>x. x\<lparr> pn_next := Some first, pn_prev := None \<rparr>) p1;
          p3 = upd_region (pr_base r) (\<lambda>r. r\<lparr> pr_first := Some n \<rparr>) p2
      in MergeNext n p3)"

definition free_append :: "pool_region \<Rightarrow> size_t \<Rightarrow> pool \<Rightarrow> pool" where
  "free_append r n p =
     (let p1 = upd_node n (\<lambda>x. x\<lparr> pn_next := None, pn_prev := pr_last r \<rparr>) p;
          p2 = (case pr_last r of Some l \<Rightarrow> upd_node l (\<lambda>x. x\<lparr> pn_next := Some n \<rparr>) p1 | None \<Rightarrow> p1);
          p3 = upd_region (pr_base r) (\<lambda>r. r\<lparr> pr_last := Some n \<rparr>) p2
      in MergePrev n p3)"

definition free_insert :: "size_t \<Rightarrow> size_t \<Rightarrow> pool \<Rightarrow> pool" where
  "free_insert scan n p =
     (let nx = pn_next (pa_nodes p scan);
          p1 = upd_node n (\<lambda>x. x\<lparr> pn_next := nx, pn_prev := Some scan \<rparr>) p;
          p2 = (case nx of Some m \<Rightarrow> upd_node m (\<lambda>x. x\<lparr> pn_prev := Some n \<rparr>) p1 | None \<Rightarrow> p1);
          p3 = upd_node scan (\<lambda>x. x\<lparr> pn_next := Some n \<rparr>) p2
      in MergePrev n (MergeNext n p3))"

definition pool_Free :: "size_t \<Rightarrow> pool \<Rightarrow> (pool_free_result \<times> pool) option" where
  "pool_Free ptr p =
     (let n = ptr - sizeof_PoolNode
      in case pa_regions p of
           [] \<Rightarrow> Some (Not_Ours, p)
         | r # _ \<Rightarrow>
             if pr_base r > n then Some (Not_Ours, p)
             else if (case pr_first r of None \<Rightarrow> False | Some f \<Rightarrow> n < f)
             then Some (Freed, free_prepend r (the (pr_first r)) n p)
             else (case free_scan p n (pr_first r) of
                     None \<Rightarrow> None
                   | Some None \<Rightarrow> Some (Freed, free_append r n p)
                   | Some (Some m) \<Rightarrow>
                       if m = n then Some (Double_Freed, p) else Some (Freed, free_insert m n p)))"

subsection \<open>The invariant\<close>

definition nx_of :: "pool \<Rightarrow> size_t \<Rightarrow> size_t option" where
  "nx_of p n = pn_next (pa_nodes p n)"

definition pv_of :: "pool \<Rightarrow> size_t \<Rightarrow> size_t option" where
  "pv_of p n = pn_prev (pa_nodes p n)"

lemma pool_upd_simps [simp]:
  "nx_of (upd_node m f p) = (nx_of p)(m := pn_next (f (pa_nodes p m)))"
  "pv_of (upd_node m f p) = (pv_of p)(m := pn_prev (f (pa_nodes p m)))"
  "nx_of (upd_region b g p) = nx_of p" "pv_of (upd_region b g p) = pv_of p"
  "pa_nodes (upd_node m f p) = (pa_nodes p)(m := f (pa_nodes p m))"
  "pa_regions (upd_node m f p) = pa_regions p" "pa_nodes (upd_region b g p) = pa_nodes p"
  "minAllocSize (upd_node m f p) = minAllocSize p" "minAllocSize (upd_region b g p) = minAllocSize p"
  by (auto simp: nx_of_def pv_of_def upd_node_def upd_region_def)

definition block :: "pool \<Rightarrow> size_t \<Rightarrow> size_t set" where
  "block p n = {n..<n + sizeof_PoolNode + pn_length (pa_nodes p n)}"

definition region_list :: "pool \<Rightarrow> pool_region \<Rightarrow> size_t list \<Rightarrow> bool" where
  "region_list p r xs \<longleftrightarrow>
     dseg (nx_of p) (pv_of p) None (pr_first r) xs (pr_last r) None \<and>
     (\<forall>n\<in>set xs. pn_parent (pa_nodes p n) = pr_base r)"

definition pool_inv :: "pool \<Rightarrow> size_t list list \<Rightarrow> bool" where
  "pool_inv p xss \<longleftrightarrow>
     list_all2 (region_list p) (pa_regions p) xss \<and> distinct (map pr_base (pa_regions p)) \<and>
     distinct (concat xss) \<and>
     (\<forall>n\<in>set (concat xss). \<forall>m\<in>set (concat xss). n \<noteq> m \<longrightarrow> block p n \<inter> block p m = {})"

lemma find_node_ok:
  assumes "dseg (nx_of p) pv a scan xs b None"
  shows "(\<exists>as n bs. xs = as @ n # bs \<and> bytes \<le> pn_length (pa_nodes p n) \<and>
      find_node p bytes scan = Some (Some n)) \<or>
    (\<forall>n\<in>set xs. pn_length (pa_nodes p n) < bytes) \<and> find_node p bytes scan = Some None"
  using assms
proof (induction xs arbitrary: a scan)
  case Nil
  then show ?case by (subst find_node.simps) simp
next
  case (Cons x xs)
  then have scan: "scan = Some x" and seg: "dseg (nx_of p) pv (Some x) (nx_of p x) xs b None" by simp_all
  show ?case
  proof (cases "pn_length (pa_nodes p x) < bytes")
    case False
    then have "find_node p bytes scan = Some (Some x)" using scan by (subst find_node.simps) simp
    then show ?thesis using False by (intro disjI1 exI [of _ "[]"]) simp
  next
    case True
    then have eq: "find_node p bytes scan = find_node p bytes (nx_of p x)"
      using scan by (subst find_node.simps) (simp add: nx_of_def)
    from Cons.IH [OF seg] show ?thesis
    proof
      assume "\<exists>as n bs. xs = as @ n # bs \<and> bytes \<le> pn_length (pa_nodes p n) \<and>
        find_node p bytes (nx_of p x) = Some (Some n)"
      then obtain as n bs where "xs = as @ n # bs" "bytes \<le> pn_length (pa_nodes p n)"
          "find_node p bytes (nx_of p x) = Some (Some n)" by blast
      then show ?thesis using eq by (intro disjI1 exI [of _ "x # as"]) simp
    qed (use True eq in auto)
  qed
qed

lemma find_region_ok:
  assumes "list_all2 (region_list p) rs xss" "\<exists>n\<in>set (concat xss). bytes \<le> pn_length (pa_nodes p n)"
  shows "\<exists>rs1 r rs2 yss as n bs zss. rs = rs1 @ r # rs2 \<and> xss = yss @ (as @ n # bs) # zss \<and>
    length yss = length rs1 \<and> bytes \<le> pn_length (pa_nodes p n) \<and> region_list p r (as @ n # bs) \<and>
    find_region p bytes rs = Some (Some (pr_base r, n))"
  using assms
proof (induction rs xss rule: list_all2_induct)
  case (Cons r rs xs xss)
  have seg: "dseg (nx_of p) (pv_of p) None (pr_first r) xs (pr_last r) None"
    using Cons.hyps by (simp add: region_list_def)
  show ?case
  proof (cases "\<exists>n\<in>set xs. bytes \<le> pn_length (pa_nodes p n)")
    case True
    then obtain as n bs where n: "xs = as @ n # bs" "bytes \<le> pn_length (pa_nodes p n)"
        "find_node p bytes (pr_first r) = Some (Some n)"
    proof -
      have "\<not> (\<forall>n\<in>set xs. pn_length (pa_nodes p n) < bytes)" using True by (meson not_le)
      then show thesis using find_node_ok [OF seg, of bytes] that by blast
    qed
    then have "find_region p bytes (r # rs) = Some (Some (pr_base r, n))" by simp
    then show ?thesis using n Cons.hyps(1)
      by (intro exI [of _ "[]"] exI [of _ r] exI [of _ rs] exI [of _ as] exI [of _ n] exI [of _ bs]
          exI [of _ xss]) simp
  next
    case False
    then have none: "find_node p bytes (pr_first r) = Some None"
      using find_node_ok [OF seg, of bytes] by fastforce
    obtain rs1 s rs2 yss as n bs zss where "rs = rs1 @ s # rs2" "xss = yss @ (as @ n # bs) # zss"
        "length yss = length rs1" "bytes \<le> pn_length (pa_nodes p n)" "region_list p s (as @ n # bs)"
        "find_region p bytes rs = Some (Some (pr_base s, n))"
    proof -
      have "\<exists>n\<in>set (concat xss). bytes \<le> pn_length (pa_nodes p n)" using Cons.prems False by auto
      from Cons.IH [OF this] show thesis by (elim exE conjE) (rule that)
    qed
    then show ?thesis using none
      by (intro exI [of _ "r # rs1"] exI [of _ s] exI [of _ rs2] exI [of _ "xs # yss"] exI [of _ as]
          exI [of _ n] exI [of _ bs] exI [of _ zss]) simp
  qed
qed simp


lemma dseg_cong:
  "\<forall>x\<in>set xs. nx x = nx' x \<and> pv x = pv' x \<Longrightarrow> dseg nx pv a p xs b q = dseg nx' pv' a p xs b q"
  by (induction xs arbitrary: a p) auto

lemma region_list_frame:
  assumes "\<forall>m\<in>set xs. pa_nodes q m = pa_nodes p m"
  shows "region_list q r xs = region_list p r xs"
proof -
  have "dseg (nx_of q) (pv_of q) None (pr_first r) xs (pr_last r) None
      = dseg (nx_of p) (pv_of p) None (pr_first r) xs (pr_last r) None"
    using assms by (intro dseg_cong) (simp add: nx_of_def pv_of_def)
  then show ?thesis using assms by (simp add: region_list_def)
qed

lemma node_in_block: "n \<in> block p n"
  by (simp add: block_def)

text \<open>
  One region's list may be replaced by one whose blocks lie inside the blocks of the old list.
\<close>

lemma pool_inv_update:
  assumes inv: "pool_inv p (yss @ xs # zss)" and rs: "pa_regions p = rs1 @ r # rs2" "length yss = length rs1"
    and q: "pa_regions q = rs1 @ r' # rs2" "pr_base r' = pr_base r" "region_list q r' xs'"
    and frame: "\<forall>m\<in>set (concat (yss @ zss)). pa_nodes q m = pa_nodes p m"
    and d: "distinct xs'" "\<forall>n\<in>set xs'. \<exists>m\<in>set xs. block q n \<subseteq> block p m"
      "\<forall>n\<in>set xs'. \<forall>m\<in>set xs'. n \<noteq> m \<longrightarrow> block q n \<inter> block q m = {}"
  shows "pool_inv q (yss @ xs' # zss)"
proof -
  have la: "list_all2 (region_list p) (rs1 @ r # rs2) (yss @ xs # zss)"
      "distinct (concat (yss @ xs # zss))" "distinct (map pr_base (rs1 @ r # rs2))"
    using inv rs(1) by (auto simp: pool_inv_def)
  have dis: "block p n \<inter> block p m = {}"
    if "n \<in> set (concat (yss @ xs # zss))" "m \<in> set (concat (yss @ xs # zss))" "n \<noteq> m" for n m
    using inv that unfolding pool_inv_def by blast
  have out: "block q n \<inter> block q m = {}" if "n \<in> set xs'" "m \<in> set (concat (yss @ zss))" for n m
  proof -
    obtain k where k: "k \<in> set xs" "block q n \<subseteq> block p k" using d(2) \<open>n \<in> set xs'\<close> by blast
    have "k \<noteq> m" using la(2) k(1) that(2) by auto
    then have "block p k \<inter> block p m = {}" using dis [of k m] k(1) that(2) by auto
    moreover have "block q m = block p m" using frame that(2) by (simp add: block_def)
    ultimately show ?thesis using k(2) by blast
  qed
  have "distinct (concat (yss @ xs' # zss))"
  proof -
    have "set xs' \<inter> set (concat (yss @ zss)) = {}" using out node_in_block by fastforce
    then show ?thesis using la(2) d(1) by auto
  qed
  moreover have "list_all2 (region_list q) (rs1 @ r' # rs2) (yss @ xs' # zss)"
  proof -
    have "list_all2 (region_list p) rs1 yss" "list_all2 (region_list p) rs2 zss"
      using la(1) rs(2) by (auto simp: list_all2_append)
    moreover have "region_list q r ys = region_list p r ys" if "ys \<in> set (yss @ zss)" for r ys
      using that frame by (intro region_list_frame) auto
    ultimately have "list_all2 (region_list q) rs1 yss" "list_all2 (region_list q) rs2 zss"
      by (auto simp: list_all2_conv_all_nth)
    then show ?thesis using q(3) by (simp add: list_all2_append rs(2))
  qed
  moreover have "block q n \<inter> block q m = {}"
    if "n \<in> set (concat (yss @ xs' # zss))" "m \<in> set (concat (yss @ xs' # zss))" "n \<noteq> m" for n m
  proof -
    have old: "block q k = block p k" "k \<in> set (concat (yss @ xs # zss))"
      if "k \<in> set (concat (yss @ zss))" for k
      using frame that by (auto simp: block_def)
    have "n \<in> set xs' \<or> n \<in> set (concat (yss @ zss))" "m \<in> set xs' \<or> m \<in> set (concat (yss @ zss))"
      using that(1,2) by auto
    then consider "n \<in> set xs'" "m \<in> set xs'" | "n \<in> set xs'" "m \<in> set (concat (yss @ zss))"
      | "n \<in> set (concat (yss @ zss))" "m \<in> set xs'"
      | "n \<in> set (concat (yss @ zss))" "m \<in> set (concat (yss @ zss))" by blast
    then show ?thesis
    proof cases
      case 1
      then show ?thesis using d(3) that(3) by blast
    next
      case 2
      then show ?thesis by (rule out)
    next
      case 3
      then show ?thesis using out [of m n] by blast
    next
      case 4
      show ?thesis unfolding old(1) [OF 4(1)] old(1) [OF 4(2)]
        by (rule dis [OF old(2) [OF 4(1)] old(2) [OF 4(2)] that(3)])
    qed
  qed
  moreover have "distinct (map pr_base (pa_regions q))" using la(3) q(1,2) by simp
  ultimately show ?thesis unfolding pool_inv_def q(1) by blast
qed

lemma upd_region_at:
  assumes "distinct (map pr_base (rs1 @ r # rs2))" "pa_regions p = rs1 @ r # rs2"
  shows "pa_regions (upd_region (pr_base r) f p) = rs1 @ f r # rs2"
proof -
  have "pr_base x \<noteq> pr_base r" if "x \<in> set rs1 \<union> set rs2" for x
    using assms(1) that by (auto simp: image_iff)
  then show ?thesis using assms(2) by (auto simp: upd_region_def intro!: map_idI)
qed


text \<open>Taking a node out of the middle of a doubly linked list.\<close>

lemma unlink_regions:
  assumes "distinct (map pr_base (rs1 @ r # rs2))" "pa_regions p = rs1 @ r # rs2"
  shows "pa_regions (unlink (pr_base r) n p) = rs1 @
    r\<lparr> pr_first := (if pv_of p n = None then nx_of p n else pr_first r),
       pr_last := (if nx_of p n = None then pv_of p n else pr_last r) \<rparr> # rs2"
proof -
  let ?p1 = "case pv_of p n of Some pv \<Rightarrow> upd_node pv (\<lambda>x. x\<lparr> pn_next := nx_of p n \<rparr>) p
    | None \<Rightarrow> upd_region (pr_base r) (\<lambda>r. r\<lparr> pr_first := nx_of p n \<rparr>) p"
  let ?r1 = "if pv_of p n = None then r\<lparr> pr_first := nx_of p n \<rparr> else r"
  have p1: "pa_regions ?p1 = rs1 @ ?r1 # rs2"
    using upd_region_at [OF assms] assms(2) by (auto split: option.split)
  have u: "unlink (pr_base r) n p = set_prev_of_next (nx_of p n) (pr_base r) (pv_of p n) ?p1"
    unfolding unlink_def nx_of_def pv_of_def Let_def ..
  have d1: "distinct (map pr_base (rs1 @ ?r1 # rs2))" using assms(1) by auto
  show ?thesis
  proof (cases "nx_of p n")
    case None
    have "pa_regions (upd_region (pr_base ?r1) (\<lambda>r. r\<lparr> pr_last := pv_of p n \<rparr>) ?p1)
        = rs1 @ ?r1\<lparr> pr_last := pv_of p n \<rparr> # rs2"
      by (rule upd_region_at [OF d1 p1])
    moreover have "pr_base ?r1 = pr_base r" by simp
    ultimately show ?thesis unfolding u set_prev_of_next_def None by auto
  next
    case (Some m)
    then show ?thesis unfolding u set_prev_of_next_def using p1 by auto
  qed
qed

lemma unlink_nodes:
  "nx_of (unlink b n p) = (case pv_of p n of Some a \<Rightarrow> (nx_of p)(a := nx_of p n) | None \<Rightarrow> nx_of p)"
  "pv_of (unlink b n p) = (case nx_of p n of Some c \<Rightarrow> (pv_of p)(c := pv_of p n) | None \<Rightarrow> pv_of p)"
  "pn_length (pa_nodes (unlink b n p) m) = pn_length (pa_nodes p m)"
  "pn_parent (pa_nodes (unlink b n p) m) = pn_parent (pa_nodes p m)"
  "m \<notin> set_option (pv_of p n) \<union> set_option (nx_of p n) \<Longrightarrow> pa_nodes (unlink b n p) m = pa_nodes p m"
  by (auto simp: unlink_def set_prev_of_next_def Let_def nx_of_def pv_of_def fun_eq_iff
      split: option.splits)

lemma dseg_unlink:
  assumes "dseg nx pv None h (as @ n # bs) t None"
  shows "dseg (case pv n of Some a \<Rightarrow> nx(a := nx n) | None \<Rightarrow> nx)
      (case nx n of Some c \<Rightarrow> pv(c := pv n) | None \<Rightarrow> pv) None
      (if pv n = None then nx n else h) (as @ bs) (if nx n = None then pv n else t) None"
    "set_option (pv n) \<union> set_option (nx n) \<subseteq> set (as @ bs)"
proof -
  have d: "distinct (as @ n # bs)" using assms by (rule dseg_distinct)
  have pvn: "pv n = (if as = [] then None else Some (last as))"
    using assms by (cases as rule: rev_cases) (auto simp: dseg_append)
  have nxn: "nx n = (if bs = [] then None else Some (hd bs))"
    using assms by (cases bs) (auto simp: dseg_append)
  show "set_option (pv n) \<union> set_option (nx n) \<subseteq> set (as @ bs)" using pvn nxn by auto
  show "dseg (case pv n of Some a \<Rightarrow> nx(a := nx n) | None \<Rightarrow> nx)
      (case nx n of Some c \<Rightarrow> pv(c := pv n) | None \<Rightarrow> pv) None
      (if pv n = None then nx n else h) (as @ bs) (if nx n = None then pv n else t) None"
    using assms d pvn nxn
    by (cases as rule: rev_cases; cases bs) (auto simp: dseg_append)
qed


lemma pool_inv_regions:
  assumes "pool_inv p (yss @ xs # zss)" "pa_regions p = rs1 @ r # rs2" "length yss = length rs1"
  shows "region_list p r xs" "distinct (map pr_base (rs1 @ r # rs2))" "distinct (concat (yss @ xs # zss))"
    "set xs \<inter> set (concat (yss @ zss)) = {}"
  using assms by (auto simp: pool_inv_def list_all2_append)

lemma pool_inv_blocks:
  assumes "pool_inv p xss" "n \<in> set (concat xss)" "m \<in> set (concat xss)" "n \<noteq> m"
  shows "block p n \<inter> block p m = {}"
  using assms unfolding pool_inv_def by blast

lemma unlink_inv:
  assumes "pool_inv p (yss @ (as @ n # bs) # zss)" "pa_regions p = rs1 @ r # rs2" "length yss = length rs1"
  shows "pool_inv (unlink (pr_base r) n p) (yss @ (as @ bs) # zss)"
proof (rule pool_inv_update [OF assms unlink_regions])
  note i = pool_inv_regions [OF assms]
  let ?q = "unlink (pr_base r) n p"
  have seg: "dseg (nx_of p) (pv_of p) None (pr_first r) (as @ n # bs) (pr_last r) None"
    and par: "\<forall>m\<in>set (as @ n # bs). pn_parent (pa_nodes p m) = pr_base r"
    using i(1) by (auto simp: region_list_def)
  have blk: "block ?q m = block p m" for m by (simp add: block_def unlink_nodes)
  show "region_list ?q (r\<lparr> pr_first := (if pv_of p n = None then nx_of p n else pr_first r),
       pr_last := (if nx_of p n = None then pv_of p n else pr_last r) \<rparr>) (as @ bs)"
    using dseg_unlink(1) [OF seg] par by (simp add: region_list_def unlink_nodes)
  show "\<forall>m\<in>set (concat (yss @ zss)). pa_nodes ?q m = pa_nodes p m"
  proof (intro ballI unlink_nodes(5))
    fix m
    assume "m \<in> set (concat (yss @ zss))"
    then have "m \<notin> set (as @ bs)" using i(4) by auto
    then show "m \<notin> set_option (pv_of p n) \<union> set_option (nx_of p n)" using dseg_unlink(2) [OF seg] by blast
  qed
  show "distinct (as @ bs)" using i(3) by auto
  show "\<forall>m\<in>set (as @ bs). \<exists>k\<in>set (as @ n # bs). block ?q m \<subseteq> block p k" using blk by auto
  show "\<forall>m\<in>set (as @ bs). \<forall>k\<in>set (as @ bs). m \<noteq> k \<longrightarrow> block ?q m \<inter> block ?q k = {}"
    unfolding blk using pool_inv_blocks [OF assms(1)] by auto
qed (use pool_inv_regions(2) [OF assms] assms(2) in auto)

text \<open>Splitting puts the header of the rest inside the block, behind the space needed.\<close>

lemma split_at_nodes:
  fixes n need :: size_t
  defines "latest \<equiv> n + sizeof_PoolNode + need"
  assumes "nx_of p n \<noteq> Some n" "nx_of p n \<noteq> Some latest"
  shows "nx_of (split_at n need p) = (nx_of p)(latest := nx_of p n, n := Some latest)"
    "pv_of (split_at n need p) = (case nx_of p n of None \<Rightarrow> (pv_of p)(latest := Some n)
       | Some c \<Rightarrow> (pv_of p)(latest := Some n, c := Some latest))"
    "m \<noteq> n \<Longrightarrow> m \<noteq> latest \<Longrightarrow> pn_length (pa_nodes (split_at n need p) m) = pn_length (pa_nodes p m)"
    "pn_length (pa_nodes (split_at n need p) n) = need"
    "pn_length (pa_nodes (split_at n need p) latest) = pn_length (pa_nodes p n) - (need + sizeof_PoolNode)"
    "m \<noteq> latest \<Longrightarrow> pn_parent (pa_nodes (split_at n need p) m) = pn_parent (pa_nodes p m)"
    "pn_parent (pa_nodes (split_at n need p) latest) = pn_parent (pa_nodes p n)"
    "m \<notin> insert n (insert latest (set_option (nx_of p n))) \<Longrightarrow>
       pa_nodes (split_at n need p) m = pa_nodes p m"
  using assms(2,3) unfolding latest_def
  by (auto simp: split_at_def node_Data_def Let_def set_prev_of_next_def nx_of_def pv_of_def fun_eq_iff
      split: option.split if_splits)

lemma split_at_regions:
  assumes "distinct (map pr_base (rs1 @ r # rs2))" "pa_regions p = rs1 @ r # rs2"
    "pn_parent (pa_nodes p n) = pr_base r"
  shows "pa_regions (split_at n need p) =
    rs1 @ (if nx_of p n = None then r\<lparr> pr_last := Some (n + sizeof_PoolNode + need) \<rparr> else r) # rs2"
proof -
  let ?p1 = "upd_node (n + sizeof_PoolNode + need) (\<lambda>_. \<lparr> pn_prev = Some n, pn_next = pn_next (pa_nodes p n),
    pn_parent = pn_parent (pa_nodes p n), pn_length = pn_length (pa_nodes p n) - (need + sizeof_PoolNode) \<rparr>) p"
  have "pa_regions ?p1 = rs1 @ r # rs2" using assms(2) by simp
  from upd_region_at [OF assms(1) this] show ?thesis using assms(2,3)
    by (auto simp: split_at_def node_Data_def Let_def set_prev_of_next_def nx_of_def split: option.split)
qed

lemma dseg_split:
  assumes "dseg nx pv None h (as @ n # bs) t None" "latest \<notin> set (as @ n # bs)"
  shows "dseg (nx(latest := nx n, n := Some latest))
      (case nx n of None \<Rightarrow> pv(latest := Some n) | Some c \<Rightarrow> pv(latest := Some n, c := Some latest))
      None h (as @ n # latest # bs) (if nx n = None then Some latest else t) None"
proof -
  have d: "distinct (as @ n # bs)" using assms(1) by (rule dseg_distinct)
  have nxn: "nx n = (if bs = [] then None else Some (hd bs))"
    using assms(1) by (cases bs) (auto simp: dseg_append)
  show ?thesis using assms d nxn by (cases bs) (auto simp: dseg_append)
qed

lemma split_at_inv:
  fixes n need :: size_t
  defines "latest \<equiv> n + sizeof_PoolNode + need"
  assumes "pool_inv p (yss @ (as @ n # bs) # zss)" "pa_regions p = rs1 @ r # rs2" "length yss = length rs1"
    and "need + sizeof_PoolNode \<le> pn_length (pa_nodes p n)"
  shows "pool_inv (split_at n need p) (yss @ (as @ n # latest # bs) # zss)"
proof -
  let ?q = "split_at n need p"
  note i = pool_inv_regions [OF assms(2-4)]
  have seg: "dseg (nx_of p) (pv_of p) None (pr_first r) (as @ n # bs) (pr_last r) None"
    and par: "\<forall>m\<in>set (as @ n # bs). pn_parent (pa_nodes p m) = pr_base r"
    using i(1) by (auto simp: region_list_def)
  have d: "distinct (as @ n # bs)" using seg by (rule dseg_distinct)
  have nxn: "nx_of p n = (if bs = [] then None else Some (hd bs))"
    using seg by (cases bs) (auto simp: dseg_append)
  have "latest \<in> block p n" "latest \<noteq> n" using assms(5) by (auto simp: block_def latest_def)
  then have fresh: "latest \<notin> set (concat (yss @ (as @ n # bs) # zss))"
    using pool_inv_blocks [OF assms(2), of latest n] node_in_block [of latest p] by auto
  have "nx_of p n \<noteq> Some n" "nx_of p n \<noteq> Some (n + sizeof_PoolNode + need)"
    using d nxn fresh by (cases bs; auto simp: latest_def)+
  note nodes = split_at_nodes [OF this, folded latest_def]
  have blk: "block ?q m = block p m" if "m \<noteq> n" "m \<noteq> latest" for m using that by (simp add: block_def nodes)
  have blk_n: "block ?q n = {n..<latest}" by (simp add: block_def nodes latest_def)
  have blk_l: "block ?q latest = {latest..<n + sizeof_PoolNode + pn_length (pa_nodes p n)}"
    unfolding block_def nodes(5) using assms(5) by (simp add: latest_def ac_simps)
  have sub: "block ?q n \<subseteq> block p n" "block ?q latest \<subseteq> block p n" "block ?q n \<inter> block ?q latest = {}"
    unfolding blk_n blk_l using assms(5) by (auto simp: block_def latest_def)
  define old where "old m = (if m = latest then n else m)" for m
  have old: "old m \<in> set (as @ n # bs)" "block ?q m \<subseteq> block p (old m)" if "m \<in> set (as @ n # latest # bs)" for m
    using that sub blk [of m] by (auto simp: old_def)
  show ?thesis
  proof (rule pool_inv_update [OF assms(2-4) split_at_regions [OF i(2) assms(3), of n need, folded latest_def]])
    have "pn_parent (pa_nodes ?q m) = pr_base r" if "m \<in> set (as @ n # latest # bs)" for m
      using that par nodes(6) [of m] nodes(7) by (cases "m = latest") auto
    then show "region_list ?q (if nx_of p n = None then r\<lparr> pr_last := Some latest \<rparr> else r) (as @ n # latest # bs)"
      using dseg_split [OF seg, of latest] fresh unfolding region_list_def nodes(1,2) by auto
    show "\<forall>m\<in>set (concat (yss @ zss)). pa_nodes ?q m = pa_nodes p m"
    proof (intro ballI nodes(8))
      fix m
      assume m: "m \<in> set (concat (yss @ zss))"
      then have "m \<notin> set (as @ n # bs)" using i(4) by blast
      moreover have "set_option (nx_of p n) \<subseteq> set bs" using nxn by auto
      moreover have "m \<noteq> latest" using fresh m by auto
      ultimately show "m \<notin> insert n (insert latest (set_option (nx_of p n)))" by auto
    qed
    show "distinct (as @ n # latest # bs)" using d fresh by auto
    show "\<forall>m\<in>set (as @ n # latest # bs). \<exists>k\<in>set (as @ n # bs). block ?q m \<subseteq> block p k"
      using old by blast
    show "\<forall>m\<in>set (as @ n # latest # bs). \<forall>k\<in>set (as @ n # latest # bs). m \<noteq> k \<longrightarrow> block ?q m \<inter> block ?q k = {}"
    proof (intro ballI impI)
      fix m k
      assume mk: "m \<in> set (as @ n # latest # bs)" "k \<in> set (as @ n # latest # bs)" "m \<noteq> k"
      show "block ?q m \<inter> block ?q k = {}"
      proof (cases "old m = old k")
        case True
        then have "m = n \<and> k = latest \<or> m = latest \<and> k = n" using mk(3) by (auto simp: old_def split: if_splits)
        then show ?thesis using sub(3) by auto
      next
        case False
        then have "block p (old m) \<inter> block p (old k) = {}"
          using old(1) [OF mk(1)] old(1) [OF mk(2)] by (intro pool_inv_blocks [OF assms(2)]) auto
        then show ?thesis using old(2) [OF mk(1)] old(2) [OF mk(2)] by blast
      qed
    qed
  qed (use par in auto)
qed


lemma Split_inv:
  assumes "pool_inv p (yss @ (as @ n # bs) # zss)" "pa_regions p = rs1 @ r # rs2" "length yss = length rs1"
    and "bytes \<le> pn_length (pa_nodes p n)" "bytes + sizeof_PoolNode \<le> size_limit"
  shows "\<exists>bs' r'. pool_inv (Split n bytes p) (yss @ (as @ n # bs') # zss) \<and>
    pa_regions (Split n bytes p) = rs1 @ r' # rs2 \<and> pr_base r' = pr_base r \<and>
    bytes \<le> pn_length (pa_nodes (Split n bytes p) n) \<and>
    pn_length (pa_nodes (Split n bytes p) n) \<le> pn_length (pa_nodes p n)"
proof -
  define need where "need = AlignUp bytes sizeof_PoolNode"
  have need: "bytes \<le> need" using AlignUp_ge(1) [of sizeof_PoolNode bytes] assms(5) by (simp add: need_def)
  note i = pool_inv_regions [OF assms(1-3)]
  show ?thesis
  proof (cases "pn_length (pa_nodes p n) \<le> minAllocSize p + need + sizeof_PoolNode")
    case True
    then have "Split n bytes p = p" by (simp add: Split_def need_def)
    with assms(1,2,4) show ?thesis by auto
  next
    case False
    then have q: "Split n bytes p = split_at n need p" by (simp add: Split_def need_def)
    have inv: "pool_inv (split_at n need p) (yss @ (as @ n # (n + sizeof_PoolNode + need) # bs) # zss)"
      using split_at_inv [OF assms(1-3), of need] False by simp
    have par: "pn_parent (pa_nodes p n) = pr_base r" using i(1) by (auto simp: region_list_def)
    have "nx_of p n \<noteq> Some n" "nx_of p n \<noteq> Some (n + sizeof_PoolNode + need)"
    proof -
      have "nx_of p n = (if bs = [] then None else Some (hd bs))"
        using i(1) by (cases bs) (auto simp: dseg_append region_list_def)
      moreover have "distinct (as @ n # (n + sizeof_PoolNode + need) # bs)"
        using inv by (auto simp: pool_inv_def)
      ultimately show "nx_of p n \<noteq> Some n" "nx_of p n \<noteq> Some (n + sizeof_PoolNode + need)"
        by (cases bs; auto)+
    qed
    then have "pn_length (pa_nodes (split_at n need p) n) = need" by (rule split_at_nodes)
    with need False inv split_at_regions [OF i(2) assms(2) par, of need] show ?thesis
      unfolding q by (intro exI [of _ "(n + sizeof_PoolNode + need) # bs"]) auto
  qed
qed

subsection \<open>Properties\<close>

text \<open>C3: When some free block of the pool is large enough, \<open>Alloc\<close> returns a block of at least
  the requested size that was free, and afterwards the free lists are still consistent doubly
  linked lists of pairwise disjoint blocks, none of which overlaps the block handed out.\<close>

theorem pool_alloc_disjoint:
  assumes "pool_inv p xss" "m \<in> set (concat xss)" "bytes \<le> pn_length (pa_nodes p m)"
    and "bytes + sizeof_PoolNode \<le> size_limit"
  shows "\<exists>n q yss. pool_Alloc False vmm bytes p = Some (Inr (node_Data n, q)) \<and> n \<in> set (concat xss) \<and>
    bytes \<le> pn_length (pa_nodes q n) \<and> pool_inv q yss \<and>
    (\<forall>k\<in>set (concat yss). block q k \<inter> block q n = {})"
proof -
  have la: "list_all2 (region_list p) (pa_regions p) xss" using assms(1) by (simp add: pool_inv_def)
  have ex: "\<exists>m\<in>set (concat xss). bytes \<le> pn_length (pa_nodes p m)" using assms(2,3) by blast
  obtain rs1 r rs2 yss as n bs zss where f: "pa_regions p = rs1 @ r # rs2" "xss = yss @ (as @ n # bs) # zss"
      "length yss = length rs1" "bytes \<le> pn_length (pa_nodes p n)"
      "find_region p bytes (pa_regions p) = Some (Some (pr_base r, n))"
    using find_region_ok [OF la ex] by (elim exE conjE) (rule that)
  have inv: "pool_inv p (yss @ (as @ n # bs) # zss)" using assms(1) f(2) by simp
  obtain bs' r' where s: "pool_inv (Split n bytes p) (yss @ (as @ n # bs') # zss)"
      "pa_regions (Split n bytes p) = rs1 @ r' # rs2" "pr_base r' = pr_base r"
      "bytes \<le> pn_length (pa_nodes (Split n bytes p) n)"
    using Split_inv [OF inv f(1,3,4) assms(4)] by blast
  let ?q = "unlink (pr_base r) n (Split n bytes p)"
  have qinv: "pool_inv ?q (yss @ (as @ bs') # zss)" using unlink_inv [OF s(1,2) f(3)] s(3) by simp
  have blk: "block ?q k = block (Split n bytes p) k" for k by (simp add: block_def unlink_nodes)
  have "n \<notin> set (concat (yss @ (as @ bs') # zss))" using s(1) by (auto simp: pool_inv_def)
  then have "\<forall>k\<in>set (concat (yss @ (as @ bs') # zss)). block ?q k \<inter> block ?q n = {}"
    unfolding blk by (intro ballI pool_inv_blocks [OF s(1)]) auto
  moreover have "pool_Alloc False vmm bytes p = Some (Inr (node_Data n, ?q))"
    using f(5) by (simp add: pool_Alloc_def)
  moreover have "bytes \<le> pn_length (pa_nodes ?q n)" using s(4) by (simp add: unlink_nodes)
  moreover have "n \<in> set (concat xss)" using f(2) by simp
  ultimately show ?thesis using qinv by blast
qed

definition pool_example :: pool where
  "pool_example =
     \<lparr> pa_nodes = (\<lambda>_. \<lparr> pn_prev = None, pn_next = None, pn_parent = 0x1000, pn_length = 0x100 \<rparr>),
       pa_regions = [\<lparr> pr_base = 0x1000, pr_length = 0x120, pr_first = Some 0x1000, pr_last = Some 0x1000 \<rparr>],
       minAllocSize = 0x20 \<rparr>"

theorem pool_alloc_disjoint_witness:
  "\<exists>n q yss. pool_Alloc False (\<lambda>_. None) 0x40 pool_example = Some (Inr (node_Data n, q)) \<and>
    n \<in> set (concat [[0x1000]]) \<and> 0x40 \<le> pn_length (pa_nodes q n) \<and> pool_inv q yss \<and>
    (\<forall>k\<in>set (concat yss). block q k \<inter> block q n = {})"
proof (rule pool_alloc_disjoint)
  show "pool_inv pool_example [[0x1000]]"
    by (simp add: pool_inv_def pool_example_def region_list_def nx_of_def pv_of_def)
qed (simp_all add: pool_example_def size_limit_def)

text \<open>C34: A request of at least twice the minimum size to a pool without regions, which makes the pool grow, gets a
  block that is eight bytes too short when the new memory is page aligned: \<open>Expand\<close> adds the sizes of its two headers to the request, but the
  region header is rounded up to a multiple of the node size and takes eight bytes more.\<close>

theorem pool_expand_too_short:
  assumes "pa_regions p = []" "minAllocSize p * 2 \<le> bytes" "8 \<le> bytes" "addr mod 4096 = 0"
    and "addr + 4096 \<le> size_limit" "bytes + sizeof_PoolNode \<le> size_limit" "vmm (bytes + 88) = Some addr"
  shows "\<exists>n q. pool_Alloc False vmm bytes p = Some (Inr (node_Data n, q)) \<and>
    pn_length (pa_nodes q n) = bytes - 8"
proof -
  obtain j where "addr = 4096 * j" using assms(4) by (metis mod_0_imp_dvd dvd_def)
  then have e: "addr + 56 + 32 - 1 = 23 + 32 * (128 * j + 2)" "(128 * j + 2) * 32 = addr + 64" by simp_all
  have "addr + 56 + 32 \<le> size_limit" using assms(5) by simp
  then have "AlignUp (addr + 56) 32 = (addr + 56 + 32 - 1) div 32 * 32" by (rule AlignUp_plain [rotated]) simp
  also have "\<dots> = (128 * j + 2) * 32"
  proof -
    have "(23 + 32 * k) div 32 = k" for k :: nat by simp
    then show ?thesis unfolding e(1) by presburger
  qed
  finally have al: "AlignUp (addr + 56) 32 = addr + 64" unfolding e(2) .
  define base where "base = addr + 64"
  define r where "r = \<lparr> pr_base = base, pr_length = bytes + 24, pr_first = Some base, pr_last = Some base \<rparr>"
  define q where "q = p\<lparr> pa_nodes := (pa_nodes p)(base := \<lparr> pn_prev = None, pn_next = None, pn_parent = base,
      pn_length = bytes - 8 \<rparr>), pa_regions := [r] \<rparr>"
  have mx: "max bytes (minAllocSize p * 2) = bytes" using assms(2) by simp
  have ex: "Expand bytes (Some addr) p = Inr (r, q)"
    using al by (simp add: Expand_def mx assms(1) r_def q_def base_def Let_def)
  have "bytes \<le> AlignUp bytes 32" using AlignUp_ge(1) [of 32 bytes] assms(6) by simp
  then have sp: "Split base bytes q = q" by (simp add: Split_def q_def Let_def)
  have "pool_Alloc False vmm bytes p = Some (Inr (node_Data base, unlink base base q))"
    using assms(7) ex sp by (simp add: pool_Alloc_def assms(1) mx r_def add.assoc)
  then show ?thesis by (intro exI [of _ base] exI [of _ "unlink base base q"]) (simp add: unlink_nodes q_def)
qed

theorem pool_expand_too_short_witness:
  "\<exists>n q. pool_Alloc False (\<lambda>_. Some 0x10000) 0x1000 (pool_Init (\<lambda>_. undefined) 0x20) = Some (Inr (node_Data n, q)) \<and>
    pn_length (pa_nodes q n) = 0x1000 - 8"
  by (rule pool_expand_too_short [where addr = "0x10000"]) (simp_all add: pool_Init_def size_limit_def)

text \<open>Freeing a block of the lowest region while that region has no free block loses the
  block: \<open>Free\<close> reports success, but the region's \<open>first\<close> pointer stays null, so no allocation
  can find the block again.\<close>

theorem pool_free_loses_block:
  assumes "pa_regions p = r # rs" "pr_first r = None" "pr_last r = None" "pr_base r \<le> n"
    and "\<forall>s\<in>set rs. pr_base s \<noteq> pr_base r"
  shows "\<exists>q r'. pool_Free (node_Data n) p = Some (Freed, q) \<and> pa_regions q = r' # rs \<and>
    pr_first r' = None \<and> find_node q bytes (pr_first r') = Some None"
proof -
  have scan: "free_scan p n None = Some None" by (subst free_scan.simps) simp
  let ?q = "free_append r n p"
  have "pool_Free (node_Data n) p = Some (Freed, ?q)"
    using assms(1,2,4) scan by (simp add: pool_Free_def node_Data_def)
  moreover have "pa_regions ?q = r\<lparr> pr_last := Some n \<rparr> # rs"
    using assms(1,3,5) by (auto simp: free_append_def MergePrev_def upd_region_def upd_node_def Let_def
        intro: map_idI)
  moreover have "find_node ?q bytes None = Some None" by (subst find_node.simps) simp
  ultimately show ?thesis using assms(2) by auto
qed

theorem pool_free_loses_block_witness:
  "\<exists>q r'. pool_Free (node_Data 0x1000)
      (pool_example\<lparr> pa_regions := [\<lparr> pr_base = 0x1000, pr_length = 0x120, pr_first = None, pr_last = None \<rparr>] \<rparr>)
      = Some (Freed, q) \<and> pa_regions q = r' # [] \<and> pr_first r' = None \<and>
    find_node q 0x40 (pr_first r') = Some None"
  by (rule pool_free_loses_block
      [where r = "\<lparr> pr_base = 0x1000, pr_length = 0x120, pr_first = None, pr_last = None \<rparr>"]) simp_all

end
