(* ===== verification/Syslib_Random.thy ===== *)
theory Syslib_Random
  imports Kernel_Prelude
begin

text \<open>
  \<open>libs/np-syslib/Random.cpp\<close>: the xoshiro256** generator the heap fills its blocks with. The
  static \<open>initState\<close> of splitmix64 is part of the state that is passed on. The update of the
  four state words is injective and leaves only the zero state in place, so a generator whose
  state is not zero never reaches it.
\<close>

unbundle bit_operations_syntax

record xoshiro =
  xs0 :: u64
  xs1 :: u64
  xs2 :: u64
  xs3 :: u64

definition rng_initState :: u64 where
  "rng_initState = 0x6E6F727468706F72"

definition NextInitValue :: "u64 \<Rightarrow> u64 \<times> u64" where
  "NextInitValue initState =
     (let i = initState + 0x9e3779b97f4a7c15;
          z1 = (i XOR drop_bit 30 i) * 0xbf58476d1ce4e5b9;
          z2 = (z1 XOR drop_bit 27 z1) * 0x94d049bb133111eb
      in (z2 XOR drop_bit 31 z2, i))"

definition XoshiroRng_new :: "u64 \<Rightarrow> xoshiro \<times> u64" where
  "XoshiroRng_new i0 =
     (let (a, i1) = NextInitValue i0;
          (b, i2) = NextInitValue i1;
          (c, i3) = NextInitValue i2;
          (d, i4) = NextInitValue i3
      in (\<lparr> xs0 = a, xs1 = b, xs2 = c, xs3 = d \<rparr>, i4))"

definition Rotl :: "u64 \<Rightarrow> nat \<Rightarrow> u64" where
  "Rotl x k = push_bit k x OR drop_bit (64 - k) x"

definition rng_Next :: "xoshiro \<Rightarrow> u64 \<times> xoshiro" where
  "rng_Next s =
     (let result = Rotl (xs1 s * 5) 7 * 9;
          t = push_bit 17 (xs1 s);
          s2 = xs2 s XOR xs0 s;
          s3 = xs3 s XOR xs1 s;
          s1 = xs1 s XOR s2;
          s0 = xs0 s XOR s3
      in (result, \<lparr> xs0 = s0, xs1 = s1, xs2 = s2 XOR t, xs3 = Rotl s3 45 \<rparr>))"

lemma Rotl_inj:
  assumes "Rotl x k = Rotl y k" and "k \<le> 64"
  shows "x = y"
proof (rule bit_word_eqI)
  fix n
  assume n: "n < LENGTH(64)"
  have rot: "bit z n = bit (Rotl z k) (if n + k < 64 then n + k else n + k - 64)" for z :: u64
    using n assms(2) by (auto simp: Rotl_def bit_simps dest: bit_imp_le_length)
  show "bit x n = bit y n" by (simp only: rot [of x] rot [of y] assms(1))
qed

lemma xor_shift_fixed:
  assumes "x = push_bit 17 (x :: u64)"
  shows "x = 0"
proof (rule bit_word_eqI)
  fix n
  show "bit x n = bit (0 :: u64) n"
  proof (induction n rule: less_induct)
    case (less n)
    have "bit x n = bit (push_bit 17 x) n" using assms by simp
    then show ?case using less [of "n - 17"] by (auto simp: bit_simps)
  qed
qed

lemma xor_eq_iff: "a XOR b = c XOR d \<longleftrightarrow> a XOR c = b XOR (d :: 'a::len word)"
  by (simp add: bit_eq_iff bit_xor_iff, intro arg_cong [of _ _ All] ext) blast

lemma xor_cancel:
  "a XOR b = a XOR c \<longleftrightarrow> b = c" "b XOR a = c XOR a \<longleftrightarrow> b = (c :: 'a::len word)"
  by (simp_all add: bit_eq_iff bit_xor_iff) metis+

lemma xor_zero_iff: "a XOR b = 0 \<longleftrightarrow> a = (b :: 'a::len word)"
  by (simp add: bit_eq_iff bit_xor_iff)

text \<open>The step of the generator is one to one.\<close>

lemma rng_Next_inj:
  assumes "snd (rng_Next s) = snd (rng_Next t)"
  shows "s = t"
proof -
  have eqs: "Rotl (xs3 s XOR xs1 s) 45 = Rotl (xs3 t XOR xs1 t) 45"
      "xs0 s XOR (xs3 s XOR xs1 s) = xs0 t XOR (xs3 t XOR xs1 t)"
      "xs1 s XOR (xs2 s XOR xs0 s) = xs1 t XOR (xs2 t XOR xs0 t)"
      "(xs2 s XOR xs0 s) XOR push_bit 17 (xs1 s) = (xs2 t XOR xs0 t) XOR push_bit 17 (xs1 t)"
    using assms by (simp_all add: rng_Next_def Let_def)
  from eqs(1) have d: "xs3 s XOR xs1 s = xs3 t XOR xs1 t" by (rule Rotl_inj) simp
  with eqs(2) have a: "xs0 s = xs0 t" by (simp add: xor_cancel)
  let ?x = "xs1 s XOR xs1 t"
  have bc: "?x = xs2 s XOR xs2 t"
    using eqs(3) a by (simp add: xor_cancel xor_eq_iff [of "xs1 s"] flip: xor.assoc)
  moreover have "xs2 s XOR xs2 t = push_bit 17 ?x"
    using eqs(4) a by (simp add: xor_cancel xor_eq_iff push_bit_xor xor.commute [of _ "xs0 t"] xor.assoc)
  ultimately have "?x = push_bit 17 ?x" by (rule trans)
  then have "?x = 0" by (rule xor_shift_fixed)
  then have b: "xs1 s = xs1 t" by (simp add: xor_zero_iff)
  moreover have "xs2 s = xs2 t" using bc unfolding b xor_self_eq by (simp only: xor_zero_iff [THEN iffD1, OF sym])
  moreover have "xs3 s = xs3 t" using d b by (simp add: xor_cancel)
  ultimately show ?thesis using a by (cases s; cases t) simp
qed

definition rng_zero :: xoshiro where
  "rng_zero = \<lparr> xs0 = 0, xs1 = 0, xs2 = 0, xs3 = 0 \<rparr>"

lemma rng_Next_zero: "snd (rng_Next rng_zero) = rng_zero"
  by (simp add: rng_Next_def rng_zero_def Rotl_def Let_def)

lemma rng_Next_nonzero: "s \<noteq> rng_zero \<Longrightarrow> snd (rng_Next s) \<noteq> rng_zero"
  using rng_Next_inj [of s rng_zero] rng_Next_zero by auto

end
