(* ===== verification/Slab_Alloc.thy ===== *)
theory Slab_Alloc
  imports Fwd_List Syslib_Maths Syslib_Random
begin

text \<open>
  \<open>kernel/memory/Slab.cpp\<close>: allocators of blocks of one size. A segment is a range of memory
  from the virtual memory manager (whose answer is an argument) with its \<open>SlabSegment\<close> header at
  the base, followed by slots; the free slots are linked through their own first word. The memory
  is split into those words (\<open>sm_hooks\<close>) and the bytes that bounds checking poisons
  (\<open>sm_bytes\<close>); it is shared by all allocators of a heap. The locks are released on every path
  and are left out, as is the log. The lists of slots and segments (\<open>sl::IntrFwdList\<close>, which the repository does not declare)
  are taken to be the \<open>FwdList\<close> of \<open>Fwd_List\<close>.

  \<open>slab_rel\<close> relates an allocator to the set of its free slots; allocation takes a member of the set
  or opens a segment, and freeing puts it back. With \<open>trashAfterUse\<close> the word that links a freed
  slot is overwritten.
\<close>

subsection \<open>State\<close>

record heap_flags =
  doBoundsCheck :: bool
  trashAfterUse :: bool
  trashBeforeUse :: bool

record slab_mem =
  sm_hooks :: "size_t hooks"
  sm_bytes :: "size_t \<Rightarrow> u8"
  sm_rng :: xoshiro

record slab_segment =
  sg_base :: size_t
  sg_entries :: "size_t fwd_list"
  sg_freeCount :: size_t

record slab_alloc =
  sa_segments :: "slab_segment list"
  sa_slabSize :: size_t
  sa_slabsPerSeg :: size_t

abbreviation sizeof_SlabSegment :: size_t where
  "sizeof_SlabSegment \<equiv> 48"

definition PoisonValue :: u8 where
  "PoisonValue = 0xA5"

definition poison :: "size_t \<Rightarrow> size_t \<Rightarrow> slab_mem \<Rightarrow> slab_mem" where
  "poison p n m = m\<lparr> sm_bytes := (\<lambda>a. if p \<le> a \<and> a < p + n then PoisonValue else sm_bytes m a) \<rparr>"

text \<open>A product of two 32-bit \<open>unsigned\<close> values.\<close>

definition u32_mul :: "size_t \<Rightarrow> size_t \<Rightarrow> size_t" where
  "u32_mul a b = (a * b) mod 2 ^ 32"

definition slab_Init :: "size_t \<Rightarrow> size_t \<Rightarrow> slab_alloc \<Rightarrow> slab_alloc" where
  "slab_Init slabBytes slabCountPerSeg sa =
     sa\<lparr> sa_slabSize := slabBytes mod 2 ^ 32, sa_slabsPerSeg := slabCountPerSeg mod 2 ^ 32 \<rparr>"

definition slab_totalSize :: "slab_alloc \<Rightarrow> size_t" where
  "slab_totalSize sa = u32_mul (sa_slabSize sa) (sa_slabsPerSeg sa)"

definition slab_header :: "slab_alloc \<Rightarrow> size_t" where
  "slab_header sa = AlignUp sizeof_SlabSegment (sa_slabSize sa)"

subsection \<open>Segments\<close>

definition segment_count :: "heap_flags \<Rightarrow> slab_alloc \<Rightarrow> size_t" where
  "segment_count fl sa =
     (let n = sz_sub (sa_slabsPerSeg sa) (slab_header sa div sa_slabSize sa)
      in if doBoundsCheck fl then n div 2 else n)"

fun fill_segment ::
  "heap_flags \<Rightarrow> size_t \<Rightarrow> size_t \<Rightarrow> nat \<Rightarrow> size_t \<Rightarrow> slab_mem \<times> size_t fwd_list \<Rightarrow>
     (slab_mem \<times> size_t fwd_list) res" where
  "fill_segment fl sz segTop 0 scan (m, l) = Inr (m, l)"
| "fill_segment fl sz segTop (Suc i) scan (m, l) =
     (if \<not> scan < segTop then Inl Assert_Failed
      else res_bind (fl_PushBack (sm_hooks m, l) scan) (\<lambda>(h, l1).
        let m1 = m\<lparr> sm_hooks := h \<rparr>;
            scan1 = scan + sz
        in if doBoundsCheck fl then fill_segment fl sz segTop i (scan1 + sz) (poison scan1 sz m1, l1)
           else fill_segment fl sz segTop i scan1 (m1, l1)))"

definition CreateSegment ::
  "heap_flags \<Rightarrow> (size_t \<Rightarrow> size_t option) \<Rightarrow> slab_alloc \<Rightarrow> slab_mem \<Rightarrow> (slab_segment option \<times> slab_mem) res" where
  "CreateSegment fl vmm sa m =
     (case vmm (slab_totalSize sa) of
        None \<Rightarrow> Inr (None, m)
      | Some base \<Rightarrow>
          res_bind
            (fill_segment fl (sa_slabSize sa) (base + slab_totalSize sa) (segment_count fl sa)
               (base + slab_header sa) (m, fl_new))
            (\<lambda>(m1, l).
               Inr (Some \<lparr> sg_base = base, sg_entries = l, sg_freeCount = segment_count fl sa \<rparr>, m1)))"

definition DestroySegment :: "(size_t \<Rightarrow> 'v) \<Rightarrow> slab_alloc \<Rightarrow> slab_segment \<Rightarrow> 'v res" where
  "DestroySegment vmmFree sa seg =
     (let totalSize = slab_totalSize sa;
          realSize = sz_add (slab_header sa) (sz_mul (sg_freeCount seg) (sa_slabSize sa))
      in if totalSize \<noteq> realSize then Inl Assert_Failed else Inr (vmmFree (sg_base seg)))"

subsection \<open>Bounds checks and trashing\<close>

definition slab_overrun :: "slab_mem \<Rightarrow> size_t \<Rightarrow> size_t \<Rightarrow> bool" where
  "slab_overrun m sz scan = list_ex (\<lambda>i. sm_bytes m (scan + sz + i) \<noteq> PoisonValue) [0..<sz]"

text \<open>The slots whose poison is damaged, as \<open>CheckBounds\<close> logs them; with slots of size zero its loop stays in place.\<close>

function check_segment :: "slab_mem \<Rightarrow> size_t \<Rightarrow> size_t \<Rightarrow> size_t \<Rightarrow> size_t list res" where
  "check_segment m sz segmentTop scan =
     (if scan + sz * 2 < segmentTop then
        if sz = 0 then Inl Diverges
        else res_bind (check_segment m sz segmentTop (scan + sz * 2)) (\<lambda>bad.
          Inr (if slab_overrun m sz scan then scan # bad else bad))
      else Inr [])"
  by pat_completeness auto
termination
  by (relation "measure (\<lambda>(m, sz, t, scan). t - scan)") auto

declare check_segment.simps [simp del]

fun check_segments :: "slab_mem \<Rightarrow> slab_alloc \<Rightarrow> slab_segment list \<Rightarrow> size_t list res" where
  "check_segments m sa [] = Inr []"
| "check_segments m sa (seg # segs) =
     res_bind (check_segment m (sa_slabSize sa) (sg_base seg + slab_totalSize sa) (sg_base seg + slab_header sa))
       (\<lambda>bad. res_bind (check_segments m sa segs) (\<lambda>bads. Inr (bad @ bads)))"

definition CheckBounds :: "heap_flags \<Rightarrow> slab_mem \<Rightarrow> slab_alloc \<Rightarrow> size_t list res" where
  "CheckBounds fl m sa = (if \<not> doBoundsCheck fl then Inr [] else check_segments m sa (sa_segments sa))"

definition as_pointer :: "u64 \<Rightarrow> size_t option" where
  "as_pointer w = (if w = 0 then None else Some (unat w))"

text \<open>The loops write every value to the first word of the block.\<close>

primrec trash_slab :: "nat \<Rightarrow> size_t \<Rightarrow> slab_mem \<Rightarrow> slab_mem" where
  "trash_slab 0 p m = m"
| "trash_slab (Suc i) p m =
     (let (w, rng) = rng_Next (sm_rng m)
      in trash_slab i p (m\<lparr> sm_hooks := (sm_hooks m)(p := as_pointer w), sm_rng := rng \<rparr>))"

subsection \<open>Allocation\<close>

fun take_entry :: "slab_segment list \<Rightarrow> size_t hooks \<Rightarrow> (size_t option \<times> size_t hooks \<times> slab_segment list) res" where
  "take_entry [] h = Inr (None, h, [])"
| "take_entry (seg # segs) h =
     (if sg_freeCount seg = 0
      then res_bind (take_entry segs h) (\<lambda>(p, h1, segs1). Inr (p, h1, seg # segs1))
      else
        let (p, h1, l1) = fl_PopFront (h, sg_entries seg)
        in if p = None then Inl Assert_Failed
           else Inr (p, h1, seg\<lparr> sg_entries := l1, sg_freeCount := sg_freeCount seg - 1 \<rparr> # segs))"

definition before_use :: "heap_flags \<Rightarrow> slab_alloc \<Rightarrow> size_t option \<Rightarrow> slab_mem \<Rightarrow> slab_mem res" where
  "before_use fl sa p m =
     (if trashBeforeUse fl then
        case p of
          None \<Rightarrow> if sa_slabSize sa div 8 = 0 then Inr m else Inl Null_Deref
        | Some a \<Rightarrow> Inr (trash_slab (sa_slabSize sa div 8) a m)
      else Inr m)"

definition slab_Alloc ::
  "heap_flags \<Rightarrow> (size_t \<Rightarrow> size_t option) \<Rightarrow> slab_mem \<times> slab_alloc \<Rightarrow>
     (size_t option \<times> slab_mem \<times> slab_alloc) res" where
  "slab_Alloc fl vmm s =
     (case s of (m, sa) \<Rightarrow>
       res_bind (CheckBounds fl m sa) (\<lambda>_.
       res_bind (take_entry (sa_segments sa) (sm_hooks m)) (\<lambda>(p, h, segs).
         if p \<noteq> None then
           res_bind (before_use fl sa p (m\<lparr> sm_hooks := h \<rparr>)) (\<lambda>m1.
             Inr (p, m1, sa\<lparr> sa_segments := segs \<rparr>))
         else
           res_bind (CreateSegment fl vmm sa m) (\<lambda>(latest, m1).
             case latest of
               None \<Rightarrow> Inr (None, m1, sa)
             | Some seg \<Rightarrow>
                 let (q, h1, l1) = fl_PopFront (sm_hooks m1, sg_entries seg);
                     seg1 = seg\<lparr> sg_entries := l1, sg_freeCount := sz_sub (sg_freeCount seg) 1 \<rparr>
                 in res_bind (before_use fl sa q (m1\<lparr> sm_hooks := h1 \<rparr>)) (\<lambda>m2.
                      Inr (q, m2, sa\<lparr> sa_segments := sa_segments sa @ [seg1] \<rparr>))))))"

subsection \<open>Freeing\<close>

fun free_entry ::
  "heap_flags \<Rightarrow> slab_alloc \<Rightarrow> size_t \<Rightarrow> slab_segment list \<Rightarrow> slab_mem \<Rightarrow>
     (bool \<times> slab_mem \<times> slab_segment list) res" where
  "free_entry fl sa ptr [] m = Inr (False, m, [])"
| "free_entry fl sa ptr (seg # segs) m =
     (if ptr < sg_base seg \<or> sg_base seg + slab_totalSize sa \<le> ptr
      then res_bind (free_entry fl sa ptr segs m) (\<lambda>(b, m1, segs1). Inr (b, m1, seg # segs1))
      else res_bind (fl_PushBack (sm_hooks m, sg_entries seg) ptr) (\<lambda>(h, l).
        let m1 = m\<lparr> sm_hooks := h \<rparr>;
            m2 = (if doBoundsCheck fl then poison (ptr + sa_slabSize sa) (sa_slabSize sa) m1 else m1);
            m3 = (if trashAfterUse fl then trash_slab (sa_slabSize sa div 8) ptr m2 else m2)
        in Inr (True, m3, seg\<lparr> sg_entries := l, sg_freeCount := sg_freeCount seg + 1 \<rparr> # segs)))"

definition slab_Free ::
  "heap_flags \<Rightarrow> size_t \<Rightarrow> slab_mem \<times> slab_alloc \<Rightarrow> (bool \<times> slab_mem \<times> slab_alloc) res" where
  "slab_Free fl ptr s =
     (case s of (m, sa) \<Rightarrow>
       res_bind (CheckBounds fl m sa) (\<lambda>_.
       res_bind (free_entry fl sa ptr (sa_segments sa) m) (\<lambda>(b, m1, segs).
         Inr (b, m1, sa\<lparr> sa_segments := segs \<rparr>))))"

subsection \<open>What the operations leave in place\<close>

lemma poison_simps [simp]: "sm_hooks (poison p n m) = sm_hooks m" "sm_rng (poison p n m) = sm_rng m"
  by (simp_all add: poison_def)

lemma trash_frame: "a \<noteq> p \<Longrightarrow> sm_hooks (trash_slab n p m) a = sm_hooks m a"
  by (induction n arbitrary: m) (simp_all split: prod.split)

subsection \<open>Slots of a segment\<close>

definition slab_stride :: "heap_flags \<Rightarrow> slab_alloc \<Rightarrow> size_t" where
  "slab_stride fl sa = (if doBoundsCheck fl then 2 * sa_slabSize sa else sa_slabSize sa)"

definition slot_at :: "heap_flags \<Rightarrow> slab_alloc \<Rightarrow> size_t \<Rightarrow> nat \<Rightarrow> size_t" where
  "slot_at fl sa base i = base + slab_header sa + i * slab_stride fl sa"

definition slots :: "heap_flags \<Rightarrow> slab_alloc \<Rightarrow> size_t \<Rightarrow> size_t set" where
  "slots fl sa base = slot_at fl sa base ` {..<segment_count fl sa}"

definition slab_geom :: "heap_flags \<Rightarrow> slab_alloc \<Rightarrow> bool" where
  "slab_geom fl sa \<longleftrightarrow> 0 < sa_slabSize sa \<and> 0 < segment_count fl sa \<and> segment_count fl sa < size_limit \<and>
     slab_header sa + segment_count fl sa * slab_stride fl sa \<le> slab_totalSize sa"

definition seg_range :: "slab_alloc \<Rightarrow> size_t \<Rightarrow> size_t set" where
  "seg_range sa base = {base ..< base + slab_totalSize sa}"

lemma stride_ge: "sa_slabSize sa \<le> slab_stride fl sa"
  by (simp add: slab_stride_def)

lemma slot_block:
  assumes "slab_geom fl sa" and "i < segment_count fl sa"
  shows "{slot_at fl sa b i ..< slot_at fl sa b i + sa_slabSize sa} \<subseteq> seg_range sa b"
proof -
  have "Suc i * slab_stride fl sa \<le> segment_count fl sa * slab_stride fl sa"
    using assms(2) by (intro mult_le_mono1) simp
  then show ?thesis
    using assms(1) stride_ge [of sa fl] by (auto simp: slab_geom_def slot_at_def seg_range_def)
qed

lemma slots_range:
  assumes "slab_geom fl sa"
  shows "slots fl sa b \<subseteq> seg_range sa b"
proof
  fix a
  assume "a \<in> slots fl sa b"
  then obtain i where "i < segment_count fl sa" "a = slot_at fl sa b i" by (auto simp: slots_def)
  with slot_block [OF assms, of i b] assms show "a \<in> seg_range sa b" by (auto simp: slab_geom_def)
qed

lemma slot_at_inj: "slab_geom fl sa \<Longrightarrow> slot_at fl sa b i = slot_at fl sa b j \<Longrightarrow> i = j"
  using stride_ge [of sa fl] by (simp add: slot_at_def slab_geom_def)

text \<open>Two different slots of a segment do not overlap.\<close>

lemma slots_apart:
  assumes "slab_geom fl sa" and "p \<in> slots fl sa b" and "q \<in> slots fl sa b" and "p \<noteq> q"
  shows "{p ..< p + sa_slabSize sa} \<inter> {q ..< q + sa_slabSize sa} = {}"
proof -
  obtain i j where ij: "p = slot_at fl sa b i" "q = slot_at fl sa b j" "i \<noteq> j"
    using assms by (auto simp: slots_def)
  have step: "slot_at fl sa b k + sa_slabSize sa \<le> slot_at fl sa b l" if "k < l" for k l
  proof -
    have "Suc k * slab_stride fl sa \<le> l * slab_stride fl sa" using that by (intro mult_le_mono1) simp
    then show ?thesis using stride_ge [of sa fl] by (simp add: slot_at_def)
  qed
  consider "i < j" | "j < i" using ij(3) by linarith
  then show ?thesis using step [of i j] step [of j i] ij(1,2) by cases auto
qed

lemma slab_segments_simps [simp]:
  "slab_totalSize (sa\<lparr> sa_segments := segs \<rparr>) = slab_totalSize sa"
  "slab_header (sa\<lparr> sa_segments := segs \<rparr>) = slab_header sa"
  "segment_count fl (sa\<lparr> sa_segments := segs \<rparr>) = segment_count fl sa"
  "slab_stride fl (sa\<lparr> sa_segments := segs \<rparr>) = slab_stride fl sa"
  "slots fl (sa\<lparr> sa_segments := segs \<rparr>) b = slots fl sa b"
  "slab_geom fl (sa\<lparr> sa_segments := segs \<rparr>) = slab_geom fl sa"
  "seg_range (sa\<lparr> sa_segments := segs \<rparr>) b = seg_range sa b"
  by (simp_all add: slab_totalSize_def slab_header_def segment_count_def slab_stride_def slots_def
      slot_at_def slab_geom_def seg_range_def)

subsection \<open>The free slots of an allocator\<close>

definition seg_rel ::
  "heap_flags \<Rightarrow> slab_alloc \<Rightarrow> size_t hooks \<Rightarrow> slab_segment \<Rightarrow> size_t list \<Rightarrow> bool" where
  "seg_rel fl sa h seg xs \<longleftrightarrow>
     flist (h, sg_entries seg) xs \<and> sg_freeCount seg = length xs \<and> set xs \<subseteq> slots fl sa (sg_base seg)"

definition seg_bases :: "slab_alloc \<Rightarrow> size_t list" where
  "seg_bases sa = map sg_base (sa_segments sa)"

definition apart_bases :: "slab_alloc \<Rightarrow> size_t list \<Rightarrow> bool" where
  "apart_bases sa = sorted_wrt (\<lambda>b c. seg_range sa b \<inter> seg_range sa c = {})"

definition slab_space :: "slab_alloc \<Rightarrow> size_t set" where
  "slab_space sa = (\<Union>b \<in> set (seg_bases sa). seg_range sa b)"

definition all_slots :: "heap_flags \<Rightarrow> slab_alloc \<Rightarrow> size_t set" where
  "all_slots fl sa = (\<Union>b \<in> set (seg_bases sa). slots fl sa b)"

definition slab_rel :: "heap_flags \<Rightarrow> slab_mem \<times> slab_alloc \<Rightarrow> size_t set \<Rightarrow> bool" where
  "slab_rel fl s F \<longleftrightarrow>
     slab_geom fl (snd s) \<and> apart_bases (snd s) (seg_bases (snd s)) \<and>
     (\<exists>xss. list_all2 (seg_rel fl (snd s) (sm_hooks (fst s))) (sa_segments (snd s)) xss \<and> F = set (concat xss))"

lemma slab_bases_simps [simp]:
  "seg_rel fl (sa\<lparr> sa_segments := segs \<rparr>) = seg_rel fl sa"
  "apart_bases (sa\<lparr> sa_segments := segs \<rparr>) = apart_bases sa"
  "seg_bases (sa\<lparr> sa_segments := segs \<rparr>) = map sg_base segs"
  by (simp_all add: seg_rel_def [abs_def] apart_bases_def seg_bases_def)

lemma free_in_slots:
  assumes "list_all2 (seg_rel fl sa h) segs xss"
  shows "set (concat xss) \<subseteq> (\<Union>b \<in> set (map sg_base segs). slots fl sa b)"
  using assms
proof (induction rule: list_all2_induct)
  case (Cons seg segs xs xss)
  then show ?case by (auto simp: seg_rel_def)
qed simp

lemma slab_rel_slots: "slab_rel fl (m, sa) F \<Longrightarrow> F \<subseteq> all_slots fl sa"
  unfolding slab_rel_def all_slots_def seg_bases_def
  by (elim conjE exE) (simp only: snd_conv fst_conv free_in_slots)

lemma all_slots_space: "slab_geom fl sa \<Longrightarrow> all_slots fl sa \<subseteq> slab_space sa"
  using slots_range [of fl sa] by (auto simp: all_slots_def slab_space_def)

lemma free_distinct:
  assumes "list_all2 (seg_rel fl sa h) segs xss" and "slab_geom fl sa" and "apart_bases sa (map sg_base segs)"
  shows "distinct (concat xss)"
  using assms(1,3)
proof (induction rule: list_all2_induct)
  case (Cons seg segs xs xss)
  have "set xs \<subseteq> seg_range sa (sg_base seg)"
    using Cons.hyps(1) slots_range [OF assms(2)] by (fastforce simp: seg_rel_def)
  moreover have "set (concat xss) \<subseteq> (\<Union>b \<in> set (map sg_base segs). seg_range sa b)"
    by (rule order_trans [OF free_in_slots [OF Cons.hyps(2)]]) (intro UN_mono order_refl slots_range assms(2))
  moreover have "seg_range sa (sg_base seg) \<inter> seg_range sa b = {}" if "b \<in> set (map sg_base segs)" for b
    using Cons.prems that by (auto simp: apart_bases_def)
  ultimately have "set xs \<inter> set (concat xss) = {}" by blast
  moreover have "distinct xs" using Cons.hyps(1) by (auto simp: seg_rel_def dest: flist_distinct)
  ultimately show ?case using Cons by (simp add: apart_bases_def)
qed simp

lemma seg_rel_frame:
  assumes "\<forall>a \<in> set xs. h' a = h a"
  shows "seg_rel fl sa h' seg xs = seg_rel fl sa h seg xs"
  using flist_frame [OF assms] by (simp add: seg_rel_def)

lemma segs_rel_frame:
  assumes "list_all2 (seg_rel fl sa h) segs xss" and "\<forall>a \<in> set (concat xss). h' a = h a"
  shows "list_all2 (seg_rel fl sa h') segs xss"
  using assms
proof (induction rule: list_all2_induct)
  case (Cons seg segs xs xss)
  then have "seg_rel fl sa h' seg xs" by (simp add: seg_rel_frame [of xs h' h])
  with Cons show ?case by simp
qed simp

lemma slab_rel_frame:
  assumes "slab_rel fl (m, sa) F" and "\<forall>a \<in> F. sm_hooks m' a = sm_hooks m a"
  shows "slab_rel fl (m', sa) F"
proof -
  from assms(1) obtain xss where xss: "list_all2 (seg_rel fl sa (sm_hooks m)) (sa_segments sa) xss"
      "F = set (concat xss)" "slab_geom fl sa" "apart_bases sa (seg_bases sa)"
    unfolding slab_rel_def by auto
  have "list_all2 (seg_rel fl sa (sm_hooks m')) (sa_segments sa) xss"
    using xss(1) by (rule segs_rel_frame) (use assms(2) xss(2) in simp)
  with xss(2-4) show ?thesis unfolding slab_rel_def by auto
qed

subsection \<open>Allocation\<close>

lemma check_segment_ends: "0 < sz \<Longrightarrow> \<exists>bad. check_segment m sz t scan = Inr bad"
proof (induction m sz t scan rule: check_segment.induct)
  case (1 m sz t scan)
  then show ?case by (subst check_segment.simps) fastforce
qed

lemma check_segments_ends: "0 < sa_slabSize sa \<Longrightarrow> \<exists>bad. check_segments m sa segs = Inr bad"
proof (induction segs)
  case (Cons seg segs)
  then show ?case
    using check_segment_ends [of "sa_slabSize sa" m "sg_base seg + slab_totalSize sa" "sg_base seg + slab_header sa"]
    by auto
qed simp

lemma CheckBounds_ends: "slab_geom fl sa \<Longrightarrow> \<exists>bad. CheckBounds fl m sa = Inr bad"
  using check_segments_ends [of sa m] by (auto simp: CheckBounds_def slab_geom_def)

lemma take_entry_none:
  assumes "list_all2 (seg_rel fl sa h) segs xss" and "concat xss = []"
  shows "take_entry segs h = Inr (None, h, segs)"
  using assms by (induction rule: list_all2_induct) (auto simp: seg_rel_def)

lemma take_entry_some:
  assumes "list_all2 (seg_rel fl sa h) segs xss" and "concat xss = p # ps"
  shows "\<exists>segs' xss'. take_entry segs h = Inr (Some p, h, segs') \<and>
    list_all2 (seg_rel fl sa h) segs' xss' \<and> concat xss' = ps \<and> map sg_base segs' = map sg_base segs"
  using assms
proof (induction arbitrary: rule: list_all2_induct)
  case (Cons seg segs xs xss)
  show ?case
  proof (cases xs)
    case Nil
    with Cons obtain segs' xss' where "take_entry segs h = Inr (Some p, h, segs')"
        "list_all2 (seg_rel fl sa h) segs' xss'" "concat xss' = ps" "map sg_base segs' = map sg_base segs"
      by auto
    moreover have "sg_freeCount seg = 0" using Nil Cons.hyps(1) by (simp add: seg_rel_def)
    ultimately show ?thesis using Nil Cons.hyps(1)
      by (intro exI [of _ "seg # segs'"] exI [of _ "[] # xss'"]) simp
  next
    case (Cons y ys)
    with Cons.prems have y: "y = p" "ys @ concat xss = ps" by simp_all
    have "flist (h, sg_entries seg) (p # ys)" using Cons.hyps(1) Cons y by (simp add: seg_rel_def)
    then obtain l' where l': "fl_PopFront (h, sg_entries seg) = (Some p, h, l')" "flist (h, l') ys"
      by (rule PopFront_cons)
    let ?seg = "seg\<lparr> sg_entries := l', sg_freeCount := length ys \<rparr>"
    have "sg_freeCount seg = Suc (length ys)" using Cons.hyps(1) Cons by (simp add: seg_rel_def)
    moreover have "seg_rel fl sa h ?seg ys" using Cons.hyps(1) Cons l'(2) by (auto simp: seg_rel_def)
    ultimately show ?thesis using l'(1) y(2) Cons.hyps(2)
      by (intro exI [of _ "?seg # segs"] exI [of _ "ys # xss"]) simp
  qed
qed simp

lemma fill_segment_ok:
  assumes "flist (sm_hooks m, l) xs" and "0 < sa_slabSize sa" and "scan + n * slab_stride fl sa \<le> segTop"
    and "\<forall>i < n. scan + i * slab_stride fl sa \<notin> set xs"
  shows "\<exists>m' l'. fill_segment fl (sa_slabSize sa) segTop n scan (m, l) = Inr (m', l') \<and>
    flist (sm_hooks m', l') (xs @ map (\<lambda>i. scan + i * slab_stride fl sa) [0..<n]) \<and>
    (\<forall>a. a \<notin> set xs \<longrightarrow> (\<forall>i < n. a \<noteq> scan + i * slab_stride fl sa) \<longrightarrow> sm_hooks m' a = sm_hooks m a)"
  using assms
proof (induction n arbitrary: scan m l xs)
  case (Suc n)
  let ?st = "slab_stride fl sa"
  have pos: "0 < ?st" using Suc.prems(2) stride_ge [of sa fl] by simp
  have new: "scan \<notin> set xs" using Suc.prems(4) by auto
  obtain h' l' where pb: "fl_PushBack (sm_hooks m, l) scan = Inr (h', l')"
      "flist (h', l') (xs @ [scan])" "\<And>a. a \<noteq> scan \<Longrightarrow> a \<notin> set xs \<Longrightarrow> h' a = sm_hooks m a"
    using PushBack_snoc [OF Suc.prems(1) new] by metis
  define m1 where "m1 = (if doBoundsCheck fl then poison (scan + sa_slabSize sa) (sa_slabSize sa) (m\<lparr> sm_hooks := h' \<rparr>)
    else m\<lparr> sm_hooks := h' \<rparr>)"
  have m1: "sm_hooks m1 = h'" by (simp add: m1_def)
  have shift: "scan + ?st + i * ?st = scan + Suc i * ?st" for i by simp
  have fresh: "\<forall>i<n. scan + ?st + i * ?st \<notin> set (xs @ [scan])"
  proof (intro allI impI)
    fix i
    assume "i < n"
    then have "scan + Suc i * ?st \<notin> set xs" using Suc.prems(4) by blast
    then show "scan + ?st + i * ?st \<notin> set (xs @ [scan])" using pos by (simp add: add.assoc)
  qed
  obtain m' l'' where IH: "fill_segment fl (sa_slabSize sa) segTop n (scan + ?st) (m1, l') = Inr (m', l'')"
      "flist (sm_hooks m', l'') ((xs @ [scan]) @ map (\<lambda>i. scan + ?st + i * ?st) [0..<n])"
      "\<forall>a. a \<notin> set (xs @ [scan]) \<longrightarrow> (\<forall>i<n. a \<noteq> scan + ?st + i * ?st) \<longrightarrow> sm_hooks m' a = sm_hooks m1 a"
    using Suc.IH [of m1 l' "xs @ [scan]" "scan + ?st"] pb(2) m1 Suc.prems(2,3) fresh by (auto simp: algebra_simps)
  have "fill_segment fl (sa_slabSize sa) segTop (Suc n) scan (m, l) = Inr (m', l'')"
    using IH(1) pb(1) Suc.prems(3) pos
    by (auto simp: m1_def slab_stride_def Let_def mult_2 mult_2_right add.assoc split: if_splits)
  moreover have "(xs @ [scan]) @ map (\<lambda>i. scan + ?st + i * ?st) [0..<n] = xs @ map (\<lambda>i. scan + i * ?st) [0..<Suc n]"
    by (simp only: shift upt_rec [of 0 "Suc n"] map_Suc_upt [symmetric]) (simp add: comp_def)
  moreover have "sm_hooks m' a = sm_hooks m a" if "a \<notin> set xs" "\<forall>i < Suc n. a \<noteq> scan + i * ?st" for a
  proof -
    have "a \<noteq> scan" "\<forall>i<n. a \<noteq> scan + ?st + i * ?st" using that(2) shift by fastforce+
    with IH(3) pb(3) m1 that(1) show ?thesis by simp
  qed
  ultimately show ?case using IH(2) by auto
qed simp

lemma CreateSegment_ok:
  assumes "slab_geom fl sa" and "vmm (slab_totalSize sa) = Some base"
  shows "\<exists>m' seg. CreateSegment fl vmm sa m = Inr (Some seg, m') \<and> sg_base seg = base \<and>
    seg_rel fl sa (sm_hooks m') seg (map (slot_at fl sa base) [0..<segment_count fl sa]) \<and>
    (\<forall>a. a \<notin> slots fl sa base \<longrightarrow> sm_hooks m' a = sm_hooks m a)"
proof -
  let ?scan = "base + slab_header sa" and ?n = "segment_count fl sa" and ?st = "slab_stride fl sa"
  obtain m' l' where f: "fill_segment fl (sa_slabSize sa) (base + slab_totalSize sa) ?n ?scan (m, fl_new) = Inr (m', l')"
      "flist (sm_hooks m', l') ([] @ map (\<lambda>i. ?scan + i * ?st) [0..<?n])"
      "\<forall>a. a \<notin> set [] \<longrightarrow> (\<forall>i < ?n. a \<noteq> ?scan + i * ?st) \<longrightarrow> sm_hooks m' a = sm_hooks m a"
    using fill_segment_ok [of m fl_new "[]" sa ?scan ?n fl "base + slab_totalSize sa"] assms(1) flist_new
    by (auto simp: slab_geom_def)
  let ?seg = "\<lparr> sg_base = base, sg_entries = l', sg_freeCount = ?n \<rparr>"
  have "CreateSegment fl vmm sa m = Inr (Some ?seg, m')"
    using assms(2) f(1) by (simp add: CreateSegment_def)
  moreover have "seg_rel fl sa (sm_hooks m') ?seg (map (slot_at fl sa base) [0..<?n])"
    using f(2) by (auto simp: seg_rel_def slots_def slot_at_def [abs_def])
  moreover have "\<forall>a. a \<notin> slots fl sa base \<longrightarrow> sm_hooks m' a = sm_hooks m a"
    using f(3) by (auto simp: slots_def slot_at_def)
  ultimately show ?thesis by (intro exI [of _ m'] exI [of _ ?seg]) simp
qed

text \<open>
  The three outcomes of \<open>Alloc\<close>: a free slot is taken, no slot is free and the memory manager has
  nothing, or a new segment is opened.
\<close>

lemma before_use_ok:
  "\<exists>m'. before_use fl sa (Some p) m = Inr m' \<and> (\<forall>a. a \<noteq> p \<longrightarrow> sm_hooks m' a = sm_hooks m a)"
  by (auto simp: before_use_def trash_frame)

lemma slab_Alloc_reuse:
  assumes "slab_rel fl (m, sa) F" and "F \<noteq> {}"
  shows "\<exists>p m' sa'. slab_Alloc fl vmm (m, sa) = Inr (Some p, m', sa') \<and> p \<in> F \<and>
    slab_rel fl (m', sa') (F - {p}) \<and> (\<exists>segs. sa' = sa\<lparr> sa_segments := segs \<rparr>) \<and> seg_bases sa' = seg_bases sa \<and>
    (\<forall>a. a \<notin> slab_space sa \<longrightarrow> sm_hooks m' a = sm_hooks m a)"
proof -
  from assms(1) obtain xss where xss: "list_all2 (seg_rel fl sa (sm_hooks m)) (sa_segments sa) xss"
      "F = set (concat xss)" "slab_geom fl sa" "apart_bases sa (map sg_base (sa_segments sa))"
    unfolding slab_rel_def seg_bases_def by auto
  obtain p ps where ps: "concat xss = p # ps" using assms(2) xss(2) by (cases "concat xss") auto
  obtain segs' xss' where t: "take_entry (sa_segments sa) (sm_hooks m) = Inr (Some p, sm_hooks m, segs')"
      "list_all2 (seg_rel fl sa (sm_hooks m)) segs' xss'" "concat xss' = ps"
      "map sg_base segs' = map sg_base (sa_segments sa)"
    using take_entry_some [OF xss(1) ps] by blast
  have F': "F - {p} = set (concat xss')"
    using free_distinct [OF xss(1,3,4)] xss(2) ps t(3) by simp
  obtain m' where m': "before_use fl sa (Some p) m = Inr m'" "\<forall>a. a \<noteq> p \<longrightarrow> sm_hooks m' a = sm_hooks m a"
    using before_use_ok by blast
  let ?sa = "sa\<lparr> sa_segments := segs' \<rparr>"
  obtain bad where "CheckBounds fl m sa = Inr bad" using CheckBounds_ends [OF xss(3)] by blast
  with t(1) m'(1) have run: "slab_Alloc fl vmm (m, sa) = Inr (Some p, m', ?sa)"
    by (simp add: slab_Alloc_def)
  have "slab_rel fl (m, ?sa) (F - {p})"
    using t(2,4) xss(3,4) F' by (auto simp: slab_rel_def)
  then have "slab_rel fl (m', ?sa) (F - {p})" by (rule slab_rel_frame) (use m'(2) in simp)
  moreover have p: "p \<in> F" using ps xss(2) by simp
  moreover have "p \<in> slab_space sa"
    using slab_rel_slots [OF assms(1)] all_slots_space [OF xss(3)] p by blast
  then have "\<forall>a. a \<notin> slab_space sa \<longrightarrow> sm_hooks m' a = sm_hooks m a" using m'(2) by metis
  moreover have "seg_bases ?sa = seg_bases sa" using t(4) by (simp add: seg_bases_def)
  ultimately show ?thesis using run by blast
qed

lemma slab_Alloc_empty:
  assumes "slab_rel fl (m, sa) {}" and "vmm (slab_totalSize sa) = None"
  shows "slab_Alloc fl vmm (m, sa) = Inr (None, m, sa)"
proof -
  from assms(1) obtain xss where xss: "list_all2 (seg_rel fl sa (sm_hooks m)) (sa_segments sa) xss"
      "{} = set (concat xss)" "slab_geom fl sa"
    unfolding slab_rel_def by auto
  have "concat xss = []" using xss(2) by auto
  from take_entry_none [OF xss(1) this]
  have "take_entry (sa_segments sa) (sm_hooks m) = Inr (None, sm_hooks m, sa_segments sa)" .
  moreover obtain bad where "CheckBounds fl m sa = Inr bad" using CheckBounds_ends [OF xss(3)] by blast
  ultimately show ?thesis using assms(2) by (simp add: slab_Alloc_def CreateSegment_def)
qed

lemma slab_Alloc_grow:
  assumes "slab_rel fl (m, sa) {}" and "vmm (slab_totalSize sa) = Some base"
    and fresh: "seg_range sa base \<inter> slab_space sa = {}"
  shows "\<exists>p m' sa'. slab_Alloc fl vmm (m, sa) = Inr (Some p, m', sa') \<and> p \<in> slots fl sa base \<and>
    slab_rel fl (m', sa') (slots fl sa base - {p}) \<and> (\<exists>segs. sa' = sa\<lparr> sa_segments := segs \<rparr>) \<and>
    seg_bases sa' = seg_bases sa @ [base] \<and>
    (\<forall>a. a \<notin> seg_range sa base \<longrightarrow> sm_hooks m' a = sm_hooks m a)"
proof -
  from assms(1) obtain xss where xss: "list_all2 (seg_rel fl sa (sm_hooks m)) (sa_segments sa) xss"
      "{} = set (concat xss)" "slab_geom fl sa" "apart_bases sa (map sg_base (sa_segments sa))"
    unfolding slab_rel_def seg_bases_def by auto
  have none: "concat xss = []" using xss(2) by auto
  obtain m1 seg where c: "CreateSegment fl vmm sa m = Inr (Some seg, m1)" "sg_base seg = base"
      "seg_rel fl sa (sm_hooks m1) seg (map (slot_at fl sa base) [0..<segment_count fl sa])"
      "\<forall>a. a \<notin> slots fl sa base \<longrightarrow> sm_hooks m1 a = sm_hooks m a"
    using CreateSegment_ok [where vmm = vmm and m = m, OF xss(3) assms(2)] by blast
  obtain n where n: "segment_count fl sa = Suc n" using xss(3) by (cases "segment_count fl sa") (auto simp: slab_geom_def)
  let ?p = "slot_at fl sa base 0" and ?ps = "map (slot_at fl sa base) [1..<Suc n]"
  have split: "map (slot_at fl sa base) [0..<segment_count fl sa] = ?p # ?ps"
    unfolding n by (subst upt_rec) simp
  obtain l' where l': "fl_PopFront (sm_hooks m1, sg_entries seg) = (Some ?p, sm_hooks m1, l')" "flist (sm_hooks m1, l') ?ps"
    using c(3) unfolding split seg_rel_def by (metis PopFront_cons)
  obtain m' where m': "before_use fl sa (Some ?p) m1 = Inr m'" "\<forall>a. a \<noteq> ?p \<longrightarrow> sm_hooks m' a = sm_hooks m1 a"
    using before_use_ok by blast
  let ?seg = "seg\<lparr> sg_entries := l', sg_freeCount := n \<rparr>"
  let ?sa = "sa\<lparr> sa_segments := sa_segments sa @ [?seg] \<rparr>"
  have count: "sg_freeCount seg = Suc n" using c(3) n by (simp add: seg_rel_def)
  have "Suc n < size_limit" using xss(3) n by (simp add: slab_geom_def)
  then have sub: "sz_sub (Suc n) 1 = n" by (simp add: sz_sub_eq)
  obtain bad where "CheckBounds fl m sa = Inr bad" using CheckBounds_ends [OF xss(3)] by blast
  with take_entry_none [OF xss(1) none] c(1) l'(1) m'(1) count sub
  have run: "slab_Alloc fl vmm (m, sa) = Inr (Some ?p, m', ?sa)"
    by (simp add: slab_Alloc_def)
  have "slots fl sa base = set (?p # ?ps)"
    unfolding split [symmetric] by (simp add: slots_def atLeast0LessThan)
  moreover have "distinct (?p # ?ps)"
    unfolding split [symmetric] by (simp add: distinct_map) (rule inj_onI, erule slot_at_inj [OF xss(3)])
  ultimately have ps: "set ?ps = slots fl sa base - {?p}" by simp
  have "seg_rel fl sa (sm_hooks m1) ?seg ?ps"
    using l'(2) c(2) ps by (auto simp: seg_rel_def)
  then have last: "seg_rel fl sa (sm_hooks m') ?seg ?ps"
    using seg_rel_frame [of ?ps "sm_hooks m'" "sm_hooks m1"] m'(2) ps by blast
  have "list_all2 (seg_rel fl sa (sm_hooks m')) (sa_segments sa) xss"
    using xss(1) by (rule segs_rel_frame) (simp add: none)
  with last have "list_all2 (seg_rel fl sa (sm_hooks m')) (sa_segments ?sa) (xss @ [?ps])"
    by (simp add: list_all2_appendI)
  moreover have "apart_bases sa (seg_bases ?sa)"
    using xss(4) fresh c(2) by (auto simp: apart_bases_def sorted_wrt_append slab_space_def seg_bases_def)
  moreover have "slots fl sa base - {?p} = set (concat (xss @ [?ps]))"
    unfolding concat_append none using ps by simp
  ultimately have rel: "slab_rel fl (m', ?sa) (slots fl sa base - {?p})"
    using xss(3) unfolding slab_rel_def by (intro conjI exI [of _ "xss @ [?ps]"]) (simp_all only: snd_conv fst_conv slab_segments_simps slab_bases_simps)
  have "?p \<in> slots fl sa base" by (simp add: slots_def n)
  moreover have "\<forall>a. a \<notin> seg_range sa base \<longrightarrow> sm_hooks m' a = sm_hooks m a"
    using m'(2) c(4) slots_range [OF xss(3)] \<open>?p \<in> slots fl sa base\<close> by (metis subsetD)
  moreover have "seg_bases ?sa = seg_bases sa @ [base]" using c(2) by (simp add: seg_bases_def)
  ultimately show ?thesis using run rel by blast
qed

subsection \<open>Freeing\<close>

lemma free_entry_foreign:
  assumes "\<forall>b \<in> set (map sg_base segs). ptr \<notin> seg_range sa b"
  shows "free_entry fl sa ptr segs m = Inr (False, m, segs)"
  using assms by (induction segs) (auto simp: seg_range_def)

lemma free_entry_own:
  assumes "list_all2 (seg_rel fl sa (sm_hooks m)) segs xss" and "slab_geom fl sa"
    and "apart_bases sa (map sg_base segs)" and "ptr \<in> (\<Union>b \<in> set (map sg_base segs). slots fl sa b)"
    and "ptr \<notin> set (concat xss)" and "\<not> trashAfterUse fl"
  shows "\<exists>m' segs' xss'. free_entry fl sa ptr segs m = Inr (True, m', segs') \<and>
    list_all2 (seg_rel fl sa (sm_hooks m')) segs' xss' \<and> set (concat xss') = insert ptr (set (concat xss)) \<and>
    map sg_base segs' = map sg_base segs \<and>
    (\<forall>a. a \<notin> (\<Union>b \<in> set (map sg_base segs). seg_range sa b) \<longrightarrow> sm_hooks m' a = sm_hooks m a)"
  using assms(1,3,4,5)
proof (induction rule: list_all2_induct)
  case (Cons seg segs xs xss)
  let ?R = "seg_range sa (sg_base seg)" and ?U = "\<Union>b \<in> set (map sg_base segs). seg_range sa b"
  have apart: "?R \<inter> ?U = {}" using Cons.prems(1) by (auto simp: apart_bases_def)
  have xs: "flist (sm_hooks m, sg_entries seg) xs" "set xs \<subseteq> ?R"
    using Cons.hyps(1) slots_range [OF assms(2)] by (fastforce simp: seg_rel_def)+
  have xss: "set (concat xss) \<subseteq> ?U"
    by (rule order_trans [OF free_in_slots [OF Cons.hyps(2)]]) (intro UN_mono order_refl slots_range assms(2))
  show ?case
  proof (cases "ptr \<in> ?R")
    case True
    with Cons.prems(2) apart slots_range [OF assms(2)] have slot: "ptr \<in> slots fl sa (sg_base seg)" by fastforce
    have new: "ptr \<notin> set xs" using Cons.prems(3) by simp
    obtain h' l' where pb: "fl_PushBack (sm_hooks m, sg_entries seg) ptr = Inr (h', l')"
        "flist (h', l') (xs @ [ptr])" "\<And>a. a \<noteq> ptr \<Longrightarrow> a \<notin> set xs \<Longrightarrow> h' a = sm_hooks m a"
      using PushBack_snoc [OF xs(1) new] by metis
    let ?seg = "seg\<lparr> sg_entries := l', sg_freeCount := sg_freeCount seg + 1 \<rparr>"
    let ?m = "if doBoundsCheck fl then poison (ptr + sa_slabSize sa) (sa_slabSize sa) (m\<lparr> sm_hooks := h' \<rparr>)
      else m\<lparr> sm_hooks := h' \<rparr>"
    have m: "sm_hooks ?m = h'" by simp
    have out: "h' a = sm_hooks m a" if "a \<notin> ?R" for a using pb(3) [of a] that True xs(2) by blast
    have "free_entry fl sa ptr (seg # segs) m = Inr (True, ?m, ?seg # segs)"
      using True pb(1) assms(6) by (simp add: seg_range_def Let_def)
    moreover have "seg_rel fl sa h' ?seg (xs @ [ptr])" using Cons.hyps(1) pb(2) slot by (simp add: seg_rel_def)
    moreover have "list_all2 (seg_rel fl sa h') segs xss"
      using Cons.hyps(2) by (rule segs_rel_frame) (use out xss apart in blast)
    ultimately show ?thesis using out
      by (intro exI [of _ ?m] exI [of _ "?seg # segs"] exI [of _ "(xs @ [ptr]) # xss"]) (simp add: m)
  next
    case False
    then have "ptr \<notin> slots fl sa (sg_base seg)" using slots_range [OF assms(2)] by blast
    with Cons obtain m' segs' xss' where IH: "free_entry fl sa ptr segs m = Inr (True, m', segs')"
        "list_all2 (seg_rel fl sa (sm_hooks m')) segs' xss'" "set (concat xss') = insert ptr (set (concat xss))"
        "map sg_base segs' = map sg_base segs" "\<forall>a. a \<notin> ?U \<longrightarrow> sm_hooks m' a = sm_hooks m a"
      by (auto simp: apart_bases_def)
    have "seg_rel fl sa (sm_hooks m') seg xs"
      using Cons.hyps(1) seg_rel_frame [of xs "sm_hooks m'" "sm_hooks m"] IH(5) xs(2) apart by blast
    moreover have "free_entry fl sa ptr (seg # segs) m = Inr (True, m', seg # segs')"
      using IH(1) False by (auto simp: seg_range_def)
    ultimately show ?thesis using IH
      by (intro exI [of _ m'] exI [of _ "seg # segs'"] exI [of _ "xs # xss'"]) simp
  qed
qed simp

lemma slab_Free_foreign:
  assumes "slab_geom fl sa" and "ptr \<notin> slab_space sa"
  shows "slab_Free fl ptr (m, sa) = Inr (False, m, sa)"
proof -
  obtain bad where "CheckBounds fl m sa = Inr bad" using CheckBounds_ends [OF assms(1)] by blast
  with assms(2) show ?thesis
    by (simp add: slab_Free_def slab_space_def seg_bases_def free_entry_foreign)
qed

lemma slab_Free_own:
  assumes "slab_rel fl (m, sa) F" and "ptr \<in> all_slots fl sa" and "ptr \<notin> F" and "\<not> trashAfterUse fl"
  shows "\<exists>m' sa'. slab_Free fl ptr (m, sa) = Inr (True, m', sa') \<and> slab_rel fl (m', sa') (insert ptr F) \<and>
    (\<exists>segs. sa' = sa\<lparr> sa_segments := segs \<rparr>) \<and> seg_bases sa' = seg_bases sa \<and>
    (\<forall>a. a \<notin> slab_space sa \<longrightarrow> sm_hooks m' a = sm_hooks m a)"
proof -
  from assms(1) obtain xss where xss: "list_all2 (seg_rel fl sa (sm_hooks m)) (sa_segments sa) xss"
      "F = set (concat xss)" "slab_geom fl sa" "apart_bases sa (map sg_base (sa_segments sa))"
    unfolding slab_rel_def seg_bases_def by auto
  obtain m' segs' xss' where f: "free_entry fl sa ptr (sa_segments sa) m = Inr (True, m', segs')"
      "list_all2 (seg_rel fl sa (sm_hooks m')) segs' xss'" "set (concat xss') = insert ptr F"
      "map sg_base segs' = map sg_base (sa_segments sa)" "\<forall>a. a \<notin> slab_space sa \<longrightarrow> sm_hooks m' a = sm_hooks m a"
    using free_entry_own [OF xss(1,3,4) _ _ assms(4), of ptr] assms(2,3) xss(2)
    unfolding all_slots_def slab_space_def seg_bases_def by blast
  let ?sa = "sa\<lparr> sa_segments := segs' \<rparr>"
  obtain bad where "CheckBounds fl m sa = Inr bad" using CheckBounds_ends [OF xss(3)] by blast
  with f(1) have "slab_Free fl ptr (m, sa) = Inr (True, m', ?sa)" by (simp add: slab_Free_def)
  moreover have "slab_rel fl (m', ?sa) (insert ptr F)"
    using f(2-4) xss(3,4) unfolding slab_rel_def by (intro conjI exI [of _ xss']) simp_all
  moreover have "seg_bases ?sa = seg_bases sa" using f(4) by (simp add: seg_bases_def)
  ultimately show ?thesis using f(5) by blast
qed

subsection \<open>The contract of an allocator of blocks\<close>

text \<open>
  A client's script: allocate a block of a size, or free the block it holds at an index. The client
  remembers the size with the block. It stops with a fault when the allocator faults or does not
  accept a block it handed out.
\<close>

datatype block_op = Take size_t | Give nat

type_synonym blocks = "(size_t \<times> size_t) list"

fun run_blocks ::
  "(size_t \<Rightarrow> 's \<Rightarrow> (size_t option \<times> 's) res) \<Rightarrow> (size_t \<Rightarrow> size_t \<Rightarrow> 's \<Rightarrow> (bool \<times> 's) res) \<Rightarrow>
     block_op list \<Rightarrow> blocks \<times> 's \<Rightarrow> (blocks \<times> 's) res" where
  "run_blocks alloc free [] (held, s) = Inr (held, s)"
| "run_blocks alloc free (Take n # ops) (held, s) =
     res_bind (alloc n s) (\<lambda>(p, s1).
       case p of
         None \<Rightarrow> run_blocks alloc free ops (held, s1)
       | Some a \<Rightarrow> run_blocks alloc free ops (held @ [(a, n)], s1))"
| "run_blocks alloc free (Give i # ops) (held, s) =
     (if i < length held then
        res_bind (free (snd (held ! i)) (fst (held ! i)) s) (\<lambda>(b, s1).
          if b then run_blocks alloc free ops (take i held @ drop (Suc i) held, s1) else Inl Assert_Failed)
      else run_blocks alloc free ops (held, s))"

definition op_sizes :: "block_op list \<Rightarrow> size_t set" where
  "op_sizes ops = {n. Take n \<in> set ops}"

text \<open>
  What the kernel relies on: \<open>live s L\<close> says that the blocks in \<open>L\<close> are handed out. An
  allocation of a size the allocator serves fails or adds a block that was not live; a live block can be freed.
\<close>

locale block_source =
  fixes live :: "'s \<Rightarrow> (size_t \<times> size_t) set \<Rightarrow> bool"
    and serves :: "size_t \<Rightarrow> bool"
    and alloc :: "size_t \<Rightarrow> 's \<Rightarrow> (size_t option \<times> 's) res"
    and free :: "size_t \<Rightarrow> size_t \<Rightarrow> 's \<Rightarrow> (bool \<times> 's) res"
  assumes alloc_law: "live s L \<Longrightarrow> serves n \<Longrightarrow>
      (\<exists>s'. alloc n s = Inr (None, s') \<and> live s' L) \<or>
      (\<exists>p s'. alloc n s = Inr (Some p, s') \<and> p \<notin> fst ` L \<and> live s' (insert (p, n) L))"
    and free_law: "live s L \<Longrightarrow> (p, n) \<in> L \<Longrightarrow> \<exists>s'. free n p s = Inr (True, s') \<and> live s' (L - {(p, n)})"
begin

lemma run_ok:
  assumes "live s (set held)" and "distinct (map fst held)" and "\<forall>n \<in> op_sizes ops. serves n"
  shows "\<exists>held' s'. run_blocks alloc free ops (held, s) = Inr (held', s') \<and> distinct (map fst held') \<and> live s' (set held')"
  using assms
proof (induction ops arbitrary: held s)
  case (Cons op ops)
  have sizes: "\<forall>n \<in> op_sizes ops. serves n" using Cons.prems(3) by (simp add: op_sizes_def)
  show ?case
  proof (cases op)
    case (Take n)
    with Cons.prems(3) have "serves n" by (simp add: op_sizes_def)
    from alloc_law [OF Cons.prems(1) this] show ?thesis
    proof (elim disjE exE conjE)
      fix s'
      assume "alloc n s = Inr (None, s')" "live s' (set held)"
      with Cons.IH [of s' held] Cons.prems(2) sizes Take show ?thesis by simp
    next
      fix p s'
      assume a: "alloc n s = Inr (Some p, s')" "p \<notin> fst ` set held" "live s' (insert (p, n) (set held))"
      then show ?thesis using Cons.IH [of s' "held @ [(p, n)]"] Cons.prems(2) sizes Take by simp
    qed
  next
    case (Give i)
    show ?thesis
    proof (cases "i < length held")
      case True
      let ?rest = "take i held @ drop (Suc i) held"
      have split: "held = take i held @ held ! i # drop (Suc i) held" using True by (rule id_take_nth_drop)
      have "distinct (map fst (take i held @ held ! i # drop (Suc i) held))" using Cons.prems(2) split by metis
      moreover have "set held = set (take i held @ held ! i # drop (Suc i) held)" using split by metis
      ultimately have rest: "set ?rest = set held - {held ! i}" "distinct (map fst ?rest)" by auto
      have "(fst (held ! i), snd (held ! i)) \<in> set held" using True by simp
      from free_law [OF Cons.prems(1) this] obtain s' where
        "free (snd (held ! i)) (fst (held ! i)) s = Inr (True, s')" "live s' (set ?rest)" unfolding rest(1) by auto
      then show ?thesis using Cons.IH [of s' ?rest] rest(2) sizes True Give by simp
    next
      case False
      then show ?thesis using Cons.IH [OF Cons.prems(1,2) sizes] Give by simp
    qed
  qed
qed auto

end

text \<open>
  The memory manager answers the requests one after the other: \<open>ans\<close> is the sequence of its
  answers, each the base of a range that is not in use and not given again.
\<close>

definition fresh_supply :: "slab_alloc \<Rightarrow> (nat \<Rightarrow> size_t option) \<Rightarrow> bool" where
  "fresh_supply sa ans \<longleftrightarrow>
     (\<forall>i b. ans i = Some b \<longrightarrow> seg_range sa b \<inter> slab_space sa = {}) \<and>
     (\<forall>i j b c. i < j \<longrightarrow> ans i = Some b \<longrightarrow> ans j = Some c \<longrightarrow> seg_range sa b \<inter> seg_range sa c = {})"

definition slab_live ::
  "heap_flags \<Rightarrow> (nat \<Rightarrow> size_t option) \<times> slab_mem \<times> slab_alloc \<Rightarrow> (size_t \<times> size_t) set \<Rightarrow> bool" where
  "slab_live fl s L \<longleftrightarrow>
     (case s of (ans, m, sa) \<Rightarrow>
       \<not> trashAfterUse fl \<and> fresh_supply sa ans \<and>
       (\<exists>F. slab_rel fl (m, sa) F \<and> fst ` L \<subseteq> all_slots fl sa - F \<and> inj_on fst L))"

definition slab_next ::
  "heap_flags \<Rightarrow> (nat \<Rightarrow> size_t option) \<times> slab_mem \<times> slab_alloc \<Rightarrow>
     (size_t option \<times> (nat \<Rightarrow> size_t option) \<times> slab_mem \<times> slab_alloc) res" where
  "slab_next fl s =
     (case s of (ans, m, sa) \<Rightarrow>
       res_bind (slab_Alloc fl (\<lambda>_. ans 0) (m, sa)) (\<lambda>(p, m1, sa1). Inr (p, (\<lambda>i. ans (Suc i)), m1, sa1)))"

definition slab_back ::
  "heap_flags \<Rightarrow> size_t \<Rightarrow> (nat \<Rightarrow> size_t option) \<times> slab_mem \<times> slab_alloc \<Rightarrow>
     (bool \<times> (nat \<Rightarrow> size_t option) \<times> slab_mem \<times> slab_alloc) res" where
  "slab_back fl p s =
     (case s of (ans, m, sa) \<Rightarrow> res_bind (slab_Free fl p (m, sa)) (\<lambda>(b, m1, sa1). Inr (b, ans, m1, sa1)))"

lemma slab_same_bases:
  assumes "sa' = sa\<lparr> sa_segments := segs \<rparr>" and "seg_bases sa' = bs"
  shows "all_slots fl sa' = (\<Union>b \<in> set bs. slots fl sa b)" "slab_space sa' = (\<Union>b \<in> set bs. seg_range sa b)"
    "seg_range sa' = seg_range sa"
  using assms by (auto simp: all_slots_def slab_space_def fun_eq_iff)

lemma fresh_supply_next:
  assumes "fresh_supply sa ans" and "sa' = sa\<lparr> sa_segments := segs \<rparr>" and "seg_bases sa' = seg_bases sa @ bs"
    and "\<forall>b \<in> set bs. ans 0 = Some b"
  shows "fresh_supply sa' (\<lambda>i. ans (Suc i))"
proof -
  have space: "slab_space sa' = slab_space sa \<union> (\<Union>b \<in> set bs. seg_range sa b)"
    using assms(3) slab_same_bases(2) [OF assms(2) refl] by (simp add: slab_space_def)
  have new: "seg_range sa c \<inter> seg_range sa b = {}" if "b \<in> set bs" "ans (Suc i) = Some c" for b c i
    using assms(1,4) that unfolding fresh_supply_def by (metis inf_commute zero_less_Suc)
  show ?thesis
    unfolding fresh_supply_def slab_same_bases(3) [OF assms(2) refl]
  proof (intro conjI allI impI)
    fix i c
    assume c: "ans (Suc i) = Some c"
    have "seg_range sa c \<inter> slab_space sa = {}" using assms(1) c by (simp add: fresh_supply_def)
    with new [OF _ c] show "seg_range sa c \<inter> slab_space sa' = {}" unfolding space by blast
  next
    fix i j b c
    assume "i < j" "ans (Suc i) = Some b" "ans (Suc j) = Some c"
    with assms(1) show "seg_range sa b \<inter> seg_range sa c = {}" unfolding fresh_supply_def by (metis Suc_less_eq)
  qed
qed

lemma slab_live_alloc:
  assumes "slab_live fl s L"
  shows "(\<exists>s'. slab_next fl s = Inr (None, s') \<and> slab_live fl s' L) \<or>
    (\<exists>p s'. slab_next fl s = Inr (Some p, s') \<and> p \<notin> fst ` L \<and> slab_live fl s' (insert (p, n) L))"
proof -
  obtain ans m sa where s: "s = (ans, m, sa)" by (cases s)
  from assms obtain F where F: "slab_rel fl (m, sa) F" "fst ` L \<subseteq> all_slots fl sa - F" "fresh_supply sa ans" "\<not> trashAfterUse fl" "inj_on fst L"
    unfolding slab_live_def s by auto
  have sub: "F \<subseteq> all_slots fl sa" using slab_rel_slots [OF F(1)] .
  show ?thesis
  proof (cases "F = {}")
    case False
    obtain p m' sa' segs where a: "slab_Alloc fl (\<lambda>_. ans 0) (m, sa) = Inr (Some p, m', sa')" "p \<in> F"
        "slab_rel fl (m', sa') (F - {p})" "sa' = sa\<lparr> sa_segments := segs \<rparr>" "seg_bases sa' = seg_bases sa"
      using slab_Alloc_reuse [OF F(1) False, of "\<lambda>_. ans 0"] by blast
    have "all_slots fl sa' = all_slots fl sa" using slab_same_bases(1) [OF a(4,5)] by (simp add: all_slots_def)
    moreover have "fresh_supply sa' (\<lambda>i. ans (Suc i))"
      using fresh_supply_next [OF F(3) a(4), of "[]"] a(5) by simp
    ultimately have "slab_live fl (\<lambda>i. ans (Suc i), m', sa') (insert (p, n) L)"
      using a(2,3) F(2,4,5) sub unfolding slab_live_def by (auto intro!: exI [of _ "F - {p}"])
    then show ?thesis using a(1,2) F(2) by (auto simp: s slab_next_def)
  next
    case True
    show ?thesis
    proof (cases "ans 0")
      case None
      have "fresh_supply sa (\<lambda>i. ans (Suc i))"
        using F(3) unfolding fresh_supply_def by (metis Suc_less_eq)
      then have "slab_live fl (\<lambda>i. ans (Suc i), m, sa) L" using F unfolding slab_live_def by auto
      then show ?thesis
        using slab_Alloc_empty [of fl m sa "\<lambda>_. ans 0"] F(1) True None by (simp add: s slab_next_def)
    next
      case (Some base)
      have fresh: "seg_range sa base \<inter> slab_space sa = {}" using F(3) Some by (simp add: fresh_supply_def)
      obtain p m' sa' segs where a: "slab_Alloc fl (\<lambda>_. ans 0) (m, sa) = Inr (Some p, m', sa')" "p \<in> slots fl sa base"
          "slab_rel fl (m', sa') (slots fl sa base - {p})" "sa' = sa\<lparr> sa_segments := segs \<rparr>"
          "seg_bases sa' = seg_bases sa @ [base]"
        using slab_Alloc_grow [where vmm = "\<lambda>_. ans 0", OF _ Some fresh] F(1) True by blast
      have geom: "slab_geom fl sa" using F(1) by (simp add: slab_rel_def)
      have disj: "slots fl sa base \<inter> all_slots fl sa = {}"
        using fresh slots_range [OF geom] all_slots_space [OF geom] by blast
      have "all_slots fl sa' = all_slots fl sa \<union> slots fl sa base"
        using slab_same_bases(1) [OF a(4,5)] by (auto simp: all_slots_def)
      moreover have "fresh_supply sa' (\<lambda>i. ans (Suc i))"
        using fresh_supply_next [OF F(3) a(4,5)] Some by simp
      ultimately have "slab_live fl (\<lambda>i. ans (Suc i), m', sa') (insert (p, n) L)"
        using a(2,3) F(2,4,5) True disj unfolding slab_live_def
        by (auto intro!: exI [of _ "slots fl sa base - {p}"])
      then show ?thesis using a(1,2) F(2) disj by (auto simp: s slab_next_def)
    qed
  qed
qed

lemma slab_live_free:
  assumes "slab_live fl s L" and "(p, n) \<in> L"
  shows "\<exists>s'. slab_back fl p s = Inr (True, s') \<and> slab_live fl s' (L - {(p, n)})"
proof -
  obtain ans m sa where s: "s = (ans, m, sa)" by (cases s)
  from assms(1) obtain F where F: "slab_rel fl (m, sa) F" "fst ` L \<subseteq> all_slots fl sa - F" "fresh_supply sa ans" "\<not> trashAfterUse fl" "inj_on fst L"
    unfolding slab_live_def s by auto
  have p: "p \<in> all_slots fl sa" "p \<notin> F" using assms(2) F(2) by force+
  obtain m' sa' segs where a: "slab_Free fl p (m, sa) = Inr (True, m', sa')" "slab_rel fl (m', sa') (insert p F)"
      "sa' = sa\<lparr> sa_segments := segs \<rparr>" "seg_bases sa' = seg_bases sa"
    using slab_Free_own [OF F(1) p F(4)] by blast
  have "all_slots fl sa' = all_slots fl sa" "slab_space sa' = slab_space sa"
    using slab_same_bases(1,2) [OF a(3,4)] by (auto simp: all_slots_def slab_space_def)
  moreover from this(2) have "fresh_supply sa' ans"
    using F(3) slab_same_bases(3) [OF a(3,4)] by (simp add: fresh_supply_def)
  moreover have "fst ` (L - {(p, n)}) \<subseteq> all_slots fl sa - insert p F"
    using F(2) inj_onD [OF F(5) _ _ assms(2)] by fastforce
  ultimately have "slab_live fl (ans, m', sa') (L - {(p, n)})"
    using a(2) F(4,5) unfolding slab_live_def by (auto intro!: exI [of _ "insert p F"] intro: inj_on_diff)
  with a(1) show ?thesis by (simp add: s slab_back_def)
qed

interpretation slab: block_source "slab_live fl" "\<lambda>_. True" "\<lambda>_. slab_next fl" "\<lambda>_. slab_back fl" for fl
  by unfold_locales (rule slab_live_alloc, assumption, rule slab_live_free)

lemma apart_basesD:
  "apart_bases sa bs \<Longrightarrow> b \<in> set bs \<Longrightarrow> c \<in> set bs \<Longrightarrow> b \<noteq> c \<Longrightarrow> seg_range sa b \<inter> seg_range sa c = {}"
  unfolding apart_bases_def by (induction bs) auto

lemma slot_inside:
  assumes "slab_geom fl sa" and "p \<in> slots fl sa b"
  shows "{p ..< p + sa_slabSize sa} \<subseteq> seg_range sa b"
  using assms slot_block [OF assms(1)] by (auto simp: slots_def)

lemma all_slots_inside:
  assumes "slab_geom fl sa" and "p \<in> all_slots fl sa"
  shows "{p ..< p + sa_slabSize sa} \<subseteq> slab_space sa"
proof -
  obtain b where "b \<in> set (seg_bases sa)" "p \<in> slots fl sa b" using assms(2) by (auto simp: all_slots_def)
  with slot_inside [OF assms(1)] show ?thesis unfolding slab_space_def by blast
qed

lemma all_slots_apart:
  assumes "slab_rel fl (m, sa) F" and "p \<in> all_slots fl sa" and "q \<in> all_slots fl sa" and "p \<noteq> q"
  shows "{p ..< p + sa_slabSize sa} \<inter> {q ..< q + sa_slabSize sa} = {}"
proof -
  have g: "slab_geom fl sa" and ap: "apart_bases sa (seg_bases sa)" using assms(1) by (auto simp: slab_rel_def)
  obtain b c where b: "b \<in> set (seg_bases sa)" "p \<in> slots fl sa b" and c: "c \<in> set (seg_bases sa)" "q \<in> slots fl sa c"
    using assms(2,3) by (auto simp: all_slots_def)
  show ?thesis
  proof (cases "b = c")
    case True
    with g b c assms(4) show ?thesis by (intro slots_apart) auto
  next
    case False
    with apart_basesD [OF ap b(1) c(1)] slot_inside [OF g b(2)] slot_inside [OF g c(2)] show ?thesis by blast
  qed
qed

definition slab_fresh :: "size_t \<Rightarrow> size_t \<Rightarrow> slab_alloc" where
  "slab_fresh sz n = slab_Init sz n \<lparr> sa_segments = [], sa_slabSize = 0, sa_slabsPerSeg = 0 \<rparr>"

lemma slab_fresh_rel: "slab_geom fl (slab_fresh sz n) \<Longrightarrow> slab_rel fl (m, slab_fresh sz n) {}"
  by (simp add: slab_rel_def slab_fresh_def slab_Init_def seg_bases_def apart_bases_def)

lemma slab_fresh_live:
  "slab_geom fl (slab_fresh sz n) \<Longrightarrow> \<not> trashAfterUse fl \<Longrightarrow> fresh_supply (slab_fresh sz n) ans \<Longrightarrow>
   slab_live fl (ans, m, slab_fresh sz n) {}"
  using slab_fresh_rel [of fl sz n m] slab_rel_slots [of fl m "slab_fresh sz n" "{}"]
  by (auto simp: slab_live_def all_slots_def slab_fresh_def slab_Init_def seg_bases_def)

text \<open>A slab allocator never hands out overlapping blocks. Whatever sequence of allocations and of
  frees of held blocks a client runs on a new allocator, nothing faults, every free is accepted,
  and the blocks held at the end are different, do not overlap each other or any free slot, and
  lie in the segments of the allocator.
\<close>

lemma slab_blocks_apart:
  assumes "slab_geom fl (slab_fresh sz n)" and "\<not> trashAfterUse fl" and "fresh_supply (slab_fresh sz n) ans"
  shows "\<exists>held ans' m' sa' F.
    run_blocks (\<lambda>_. slab_next fl) (\<lambda>_. slab_back fl) ops ([], ans, m, slab_fresh sz n) = Inr (held, ans', m', sa') \<and>
    distinct (map fst held) \<and> slab_rel fl (m', sa') F \<and> fst ` set held \<inter> F = {} \<and>
    (\<forall>p \<in> fst ` set held. {p ..< p + sa_slabSize sa'} \<subseteq> slab_space sa' \<and>
       (\<forall>q \<in> fst ` set held \<union> F. p \<noteq> q \<longrightarrow> {p ..< p + sa_slabSize sa'} \<inter> {q ..< q + sa_slabSize sa'} = {}))"
proof -
  obtain held ans' m' sa' where run: "distinct (map fst held)" "slab_live fl (ans', m', sa') (set held)"
      "run_blocks (\<lambda>_. slab_next fl) (\<lambda>_. slab_back fl) ops ([], ans, m, slab_fresh sz n) = Inr (held, ans', m', sa')"
    using slab.run_ok [of fl "(ans, m, slab_fresh sz n)" "[]" ops] slab_fresh_live [OF assms] by auto
  from run(2) obtain F where F: "slab_rel fl (m', sa') F" "fst ` set held \<subseteq> all_slots fl sa' - F"
    unfolding slab_live_def by auto
  have geom: "slab_geom fl sa'" using F(1) by (simp add: slab_rel_def)
  have "{p ..< p + sa_slabSize sa'} \<subseteq> slab_space sa' \<and>
      (\<forall>q \<in> fst ` set held \<union> F. p \<noteq> q \<longrightarrow> {p ..< p + sa_slabSize sa'} \<inter> {q ..< q + sa_slabSize sa'} = {})"
    if p: "p \<in> fst ` set held" for p
  proof -
    have "p \<in> all_slots fl sa'" using p F(2) by blast
    moreover have "fst ` set held \<union> F \<subseteq> all_slots fl sa'" using F(2) slab_rel_slots [OF F(1)] by blast
    ultimately show ?thesis
      using all_slots_apart [OF F(1)] all_slots_inside [OF geom] by (meson subsetD)
  qed
  moreover have "fst ` set held \<inter> F = {}" using F(2) by blast
  ultimately show ?thesis using run(1,3) F(1) by blast
qed

definition plain_flags :: heap_flags where
  "plain_flags = \<lparr> doBoundsCheck = False, trashAfterUse = False, trashBeforeUse = False \<rparr>"

definition blank_mem :: slab_mem where
  "blank_mem = \<lparr> sm_hooks = (\<lambda>_. None), sm_bytes = (\<lambda>_. 0), sm_rng = \<lparr> xs0 = 0, xs1 = 1, xs2 = 0, xs3 = 0 \<rparr> \<rparr>"

definition one_answer :: "size_t \<Rightarrow> nat \<Rightarrow> size_t option" where
  "one_answer b i = (if i = 0 then Some b else None)"

lemmas slab_eval = slab_geom_def slab_fresh_def slab_Init_def segment_count_def slab_header_def slab_totalSize_def
  slab_stride_def u32_mul_def AlignUp_def sz_sub_def sz_add_def sz_mul_def size_limit_def

lemma slab_blocks_apart_example:
  "slab_geom plain_flags (slab_fresh 32 64) \<and> fresh_supply (slab_fresh 32 64) (one_answer 0x10000) \<and>
   (\<exists>held ans' m' sa'. run_blocks (\<lambda>_. slab_next plain_flags) (\<lambda>_. slab_back plain_flags) [Take 20, Take 32, Give 0, Take 1]
      ([], one_answer 0x10000, blank_mem, slab_fresh 32 64) = Inr (held, ans', m', sa') \<and> distinct (map fst held))"
proof -
  have g: "slab_geom plain_flags (slab_fresh 32 64)" by (simp add: slab_eval plain_flags_def)
  have f: "fresh_supply (slab_fresh 32 64) (one_answer 0x10000)"
    by (simp add: fresh_supply_def one_answer_def slab_space_def seg_bases_def slab_fresh_def slab_Init_def)
  have t: "\<not> trashAfterUse plain_flags" by (simp add: plain_flags_def)
  from slab_blocks_apart [OF g t f, of "[Take 20, Take 32, Give 0, Take 1]" blank_mem]
  show ?thesis by (elim exE conjE) (intro conjI exI, rule g, rule f, assumption, assumption)
qed

lemma trash_indep:
  "sm_rng m = sm_rng m' \<Longrightarrow> 0 < k \<Longrightarrow> sm_hooks (trash_slab k p m) p = sm_hooks (trash_slab k p m') p"
proof (induction k arbitrary: m m')
  case (Suc k)
  then show ?case by (cases "k = 0") (simp_all split: prod.split)
qed simp

text \<open>With \<open>trashAfterUse\<close> the allocator hands out garbage. The loop that trashes a freed block
  writes to its first word, after the block was linked into the free list through that word. Two
  rounds of freeing and allocating later, \<open>Alloc\<close> returns the value of the random generator.
\<close>

lemma trash_after_use_leaks:
  assumes "trashAfterUse fl" and "\<not> doBoundsCheck fl" and "\<not> trashBeforeUse fl"
    and "sa = \<lparr> sa_segments = [\<lparr> sg_base = b, sg_entries = fl_new, sg_freeCount = 0 \<rparr>], sa_slabSize = sz, sa_slabsPerSeg = n \<rparr>"
    and "p \<in> seg_range sa b" and "q \<in> seg_range sa b" and "p \<noteq> q"
    and "sm_hooks (trash_slab (sz div 8) p m) p = Some r" and "8 \<le> sz"
  shows "\<exists>s1 s2 s3 s4. slab_Free fl p (m, sa) = Inr (True, s1) \<and> slab_Alloc fl vmm s1 = Inr (Some p, s2) \<and>
    slab_Free fl q s2 = Inr (True, s3) \<and> slab_Alloc fl vmm s3 = Inr (Some r, s4)"
proof -
  let ?k = "sz div 8" and ?l = "\<lparr> fl_head = Some p, fl_tail = Some p \<rparr>"
  let ?sa = "\<lambda>l c. sa\<lparr> sa_segments := [\<lparr> sg_base = b, sg_entries = l, sg_freeCount = c \<rparr>] \<rparr>"
  define m1 where "m1 = trash_slab ?k p (m\<lparr> sm_hooks := (sm_hooks m)(p := None) \<rparr>)"
  have k: "0 < ?k" using assms(9) by auto
  have r: "sm_hooks m1 p = Some r"
    unfolding m1_def using assms(8) trash_indep [of "m\<lparr> sm_hooks := (sm_hooks m)(p := None) \<rparr>" m ?k p] k by simp
  define m3 where "m3 = trash_slab ?k q (m1\<lparr> sm_hooks := (sm_hooks m1)(q := None, p := Some q) \<rparr>)"
  have size: "sa_slabSize sa = sz" "sa_segments sa = [\<lparr> sg_base = b, sg_entries = fl_new, sg_freeCount = 0 \<rparr>]"
    using assms(4) by simp_all
  have range: "\<not> p < b" "\<not> b + slab_totalSize sa \<le> p" "\<not> q < b" "\<not> b + slab_totalSize sa \<le> q"
    using assms(5,6) by (simp_all add: seg_range_def not_less not_le)
  have "slab_Free fl p (m, sa) = Inr (True, m1, ?sa ?l 1)"
    using assms(1,2) range by (simp add: slab_Free_def CheckBounds_def size fl_PushBack_def fl_new_def m1_def)
  moreover have "slab_Alloc fl vmm (m1, ?sa ?l 1) = Inr (Some p, m1, ?sa \<lparr> fl_head = Some r, fl_tail = Some p \<rparr> 0)"
    using assms(1-3) r by (simp add: slab_Alloc_def CheckBounds_def size fl_PopFront_def before_use_def)
  moreover have "slab_Free fl q (m1, ?sa \<lparr> fl_head = Some r, fl_tail = Some p \<rparr> 0) =
      Inr (True, m3, ?sa \<lparr> fl_head = Some r, fl_tail = Some q \<rparr> 1)"
    using assms(1,2) range by (simp add: slab_Free_def CheckBounds_def size fl_PushBack_def m3_def)
  moreover have "\<exists>s4. slab_Alloc fl vmm (m3, ?sa \<lparr> fl_head = Some r, fl_tail = Some q \<rparr> 1) = Inr (Some r, s4)"
    using assms(1-3) by (simp add: slab_Alloc_def CheckBounds_def size fl_PopFront_def before_use_def)
  ultimately show ?thesis by blast
qed

definition trash_flags :: heap_flags where
  "trash_flags = \<lparr> doBoundsCheck = False, trashAfterUse = True, trashBeforeUse = False \<rparr>"

definition used_up :: slab_alloc where
  "used_up = \<lparr> sa_segments = [\<lparr> sg_base = 0x10000, sg_entries = fl_new, sg_freeCount = 0 \<rparr>],
     sa_slabSize = 8, sa_slabsPerSeg = 64 \<rparr>"

lemma trash_after_use_leaks_example:
  "\<exists>s1 s2 s3 s4. slab_Free trash_flags 0x10030 (blank_mem, used_up) = Inr (True, s1) \<and>
    slab_Alloc trash_flags (\<lambda>_. None) s1 = Inr (Some 0x10030, s2) \<and>
    slab_Free trash_flags 0x10038 s2 = Inr (True, s3) \<and>
    slab_Alloc trash_flags (\<lambda>_. None) s3 = Inr (Some 5760, s4)"
  by (rule trash_after_use_leaks [of trash_flags used_up "0x10000" 8 64])
     (simp_all add: trash_flags_def used_up_def seg_range_def slab_totalSize_def u32_mul_def blank_mem_def
        rng_Next_def Rotl_def as_pointer_def Let_def)

end
