(* ===== verification/Syslib_String.thy ===== *)
theory Syslib_String
  imports Syslib_Memory
begin

text \<open>
  \<open>libs/np-syslib/include/Span.h\<close> and \<open>String.cpp\<close>. A span is the list of the elements it
  covers, which is all that its operations read. A string keeps its buffer (with everything up to
  the end of the allocation, \<open>None\<close> for \<open>nullptr\<close>) apart from its length, because several
  operations change one without the other. Reading outside of a buffer is \<open>Bad_Index\<close>.
\<close>

subsection \<open>Span\<close>

definition span_Subspan :: "'a list \<Rightarrow> size_t \<Rightarrow> size_t \<Rightarrow> 'a list res" where
  "span_Subspan data begin len =
     (let len' = (if len > length data \<or> sz_add begin len > length data
                  then sz_sub (length data) begin else len)
      in if begin + len' \<le> length data then Inr (take len' (drop begin data)) else Inl Bad_Index)"

fun span_eq_loop :: "'a list \<Rightarrow> 'a list \<Rightarrow> size_t \<Rightarrow> nat \<Rightarrow> bool" where
  "span_eq_loop a b i 0 = True"
| "span_eq_loop a b i (Suc n) = (if a ! i \<noteq> b ! i then False else span_eq_loop a b (i + 1) n)"

definition span_eq :: "'a list \<Rightarrow> 'a list \<Rightarrow> bool" where
  "span_eq a b = (if length a \<noteq> length b then False else span_eq_loop a b 0 (length a))"

definition span_neq :: "'a list \<Rightarrow> 'a list \<Rightarrow> bool" where
  "span_neq a b = (\<not> span_eq a b)"

text \<open>The loops run \<open>n\<close> more times from index \<open>i\<close>; \<open>None\<close> is the empty span.\<close>

fun span_Find_loop :: "'a list \<Rightarrow> 'a list \<Rightarrow> size_t \<Rightarrow> nat \<Rightarrow> 'a list option res" where
  "span_Find_loop data other i 0 = Inr None"
| "span_Find_loop data other i (Suc n) =
     (if data ! i \<noteq> other ! 0 then span_Find_loop data other (i + 1) n
      else res_bind (span_Subspan data i (length other))
             (\<lambda>test. if span_eq test other then Inr (Some test)
                     else span_Find_loop data other (i + 1) n))"

definition span_Find :: "'a list \<Rightarrow> 'a list \<Rightarrow> 'a list option res" where
  "span_Find data other =
     (if length other > length data \<or> other = [] then Inr None
      else span_Find_loop data other 0 (length data - length other))"

fun span_Contains_loop :: "'a list \<Rightarrow> 'a list \<Rightarrow> size_t \<Rightarrow> nat \<Rightarrow> bool res" where
  "span_Contains_loop data other i 0 = Inr False"
| "span_Contains_loop data other i (Suc n) =
     (if data ! i \<noteq> other ! 0 then span_Contains_loop data other (i + 1) n
      else res_bind (span_Subspan data i (length other))
             (\<lambda>test. if span_eq test other then Inr True
                     else span_Contains_loop data other (i + 1) n))"

definition span_Contains :: "'a list \<Rightarrow> 'a list \<Rightarrow> bool res" where
  "span_Contains data other =
     (if length other > length data \<or> other = [] then Inr False
      else span_Contains_loop data other 0 (length data))"

subsection \<open>String\<close>

abbreviation NUL :: char where
  "NUL \<equiv> CHR 0x00"

record sl_string =
  str_buffer :: "char list option"
  str_length :: size_t

text \<open>\<open>memfirst\<close> on a buffer of known extent.\<close>

function buf_first :: "char list \<Rightarrow> size_t \<Rightarrow> char \<Rightarrow> size_t \<Rightarrow> size_t res" where
  "buf_first buf i target upperLimit =
     (if i < upperLimit \<or> upperLimit = 0
      then if i < length buf
           then if buf ! i = target then Inr i else buf_first buf (i + 1) target upperLimit
           else Inl Bad_Index
      else Inr upperLimit)"
  by auto
termination
  by (relation "measure (\<lambda>(buf, i, t, l). length buf - i)") auto

declare buf_first.simps [simp del]

text \<open>\<open>memcopy\<close> of \<open>n\<close> bytes from offset \<open>off\<close> of a buffer, followed by the terminator.\<close>

definition copy_term :: "char list option \<Rightarrow> size_t \<Rightarrow> size_t \<Rightarrow> char list res" where
  "copy_term buf off n =
     (if n = 0 then Inr [NUL]
      else case buf of
             None \<Rightarrow> Inl Null_Deref
           | Some b \<Rightarrow> if off + n \<le> length b then Inr (take n (drop off b) @ [NUL]) else Inl Bad_Index)"

definition String_empty :: sl_string where
  "String_empty = \<lparr> str_buffer = Some [NUL], str_length = 0 \<rparr>"

definition String_cstr :: "char list \<Rightarrow> sl_string res" where
  "String_cstr cstr =
     res_bind (buf_first cstr 0 NUL 0)
       (\<lambda>len. if len > 0
              then res_bind (copy_term (Some cstr) 0 len)
                     (\<lambda>b. Inr \<lparr> str_buffer = Some b, str_length = len \<rparr>)
              else Inr \<lparr> str_buffer = Some [NUL], str_length = len \<rparr>)"

definition String_buf :: "char list \<Rightarrow> bool \<Rightarrow> sl_string res" where
  "String_buf cstr reuseBuffer =
     res_bind (buf_first cstr 0 NUL 0)
       (\<lambda>len. if reuseBuffer then Inr \<lparr> str_buffer = Some cstr, str_length = len \<rparr>
              else res_bind (copy_term (Some cstr) 0 len)
                     (\<lambda>b. Inr \<lparr> str_buffer = Some b, str_length = len \<rparr>))"

definition String_char :: "char \<Rightarrow> sl_string" where
  "String_char c = \<lparr> str_buffer = Some [c, NUL], str_length = 1 \<rparr>"

text \<open>The constructor looks at the last byte of the span before it looks at its size.\<close>

definition String_span :: "char list \<Rightarrow> sl_string res" where
  "String_span span =
     (if span = [] then Inl Bad_Index
      else res_bind (if last span = NUL then span_Subspan span 0 (length span - 1) else Inr span)
             (\<lambda>sp. res_bind (copy_term (Some sp) 0 (length sp))
                     (\<lambda>b. Inr \<lparr> str_buffer = Some b, str_length = length sp \<rparr>)))"

definition String_copy :: "sl_string \<Rightarrow> sl_string res" where
  "String_copy other =
     (if str_length other > 0
      then res_bind (copy_term (str_buffer other) 0 (str_length other))
             (\<lambda>b. Inr \<lparr> str_buffer = Some b, str_length = str_length other \<rparr>)
      else Inr String_empty)"

definition String_assign :: "sl_string \<Rightarrow> sl_string res" where
  "String_assign other =
     res_bind (copy_term (str_buffer other) 0 (str_length other))
       (\<lambda>b. Inr \<lparr> str_buffer = Some b, str_length = str_length other \<rparr>)"

text \<open>The move constructor and the move assignment: the new string and what is left in the source.\<close>

definition String_move :: "sl_string \<Rightarrow> sl_string \<times> sl_string" where
  "String_move from = (from, \<lparr> str_buffer = None, str_length = 0 \<rparr>)"

definition str_IsEmpty :: "sl_string \<Rightarrow> bool" where
  "str_IsEmpty s = (str_length s = 0)"

definition DetachBuffer :: "sl_string \<Rightarrow> char list option \<times> sl_string" where
  "DetachBuffer s = (str_buffer s, \<lparr> str_buffer = None, str_length = 0 \<rparr>)"

definition SubString :: "sl_string \<Rightarrow> size_t \<Rightarrow> size_t \<Rightarrow> sl_string res" where
  "SubString s start len =
     (let len' = (if sz_add start len > str_length s \<or> len = size_limit - 1
                  then sz_sub (str_length s) start else len)
      in res_bind (copy_term (str_buffer s) start len') (\<lambda>b. String_buf b True))"

definition str_Concat :: "sl_string \<Rightarrow> sl_string \<Rightarrow> sl_string res" where
  "str_Concat s other =
     (if str_length s = 0 then String_copy other
      else if str_length other = 0 then String_copy s
      else res_bind (copy_term (str_buffer s) 0 (str_length s))
             (\<lambda>a. res_bind (copy_term (str_buffer other) 0 (str_length other))
                    (\<lambda>b. String_buf (butlast a @ b) True)))"

definition str_append :: "sl_string \<Rightarrow> sl_string \<Rightarrow> sl_string res" where
  "str_append s other = res_bind (str_Concat s other) (\<lambda>t. Inr t)"

definition str_Span :: "sl_string \<Rightarrow> char list res" where
  "str_Span s =
     (if str_length s = 0 then Inr []
      else case str_buffer s of
             None \<Rightarrow> Inl Null_Deref
           | Some b \<Rightarrow> if str_length s \<le> length b then Inr (take (str_length s) b) else Inl Bad_Index)"

definition str_Find :: "sl_string \<Rightarrow> char \<Rightarrow> size_t \<Rightarrow> size_t res" where
  "str_Find s token offset =
     (case str_buffer s of
        None \<Rightarrow> Inl Null_Deref
      | Some b \<Rightarrow> buf_first b offset token (str_length s))"

partial_function (option) FindLast_loop :: "char list \<Rightarrow> size_t \<Rightarrow> char \<Rightarrow> size_t \<Rightarrow> size_t \<Rightarrow> (size_t res) option" where
  "FindLast_loop b len token lastFound nextFound =
     (if nextFound \<noteq> len
      then (case buf_first b (nextFound + 1) token len of
              Inl e \<Rightarrow> Some (Inl e)
            | Inr found \<Rightarrow> FindLast_loop b len token nextFound found)
      else Some (Inr lastFound))"

definition str_FindLast :: "sl_string \<Rightarrow> char \<Rightarrow> (size_t res) option" where
  "str_FindLast s token =
     (case str_buffer s of
        None \<Rightarrow> Some (if str_length s = 0 then Inr 0 else Inl Null_Deref)
      | Some b \<Rightarrow> FindLast_loop b (str_length s) token 0 0)"

definition str_At :: "sl_string \<Rightarrow> size_t \<Rightarrow> char res" where
  "str_At s index =
     (let i = (if index \<ge> str_length s then sz_sub (str_length s) 1 else index)
      in case str_buffer s of
           None \<Rightarrow> Inl Null_Deref
         | Some b \<Rightarrow> if i < length b then Inr (b ! i) else Inl Bad_Index)"

fun BeginsWith_loop :: "sl_string \<Rightarrow> sl_string \<Rightarrow> size_t \<Rightarrow> nat \<Rightarrow> bool res" where
  "BeginsWith_loop s cmp i 0 = Inr True"
| "BeginsWith_loop s cmp i (Suc n) =
     res_bind (str_At s i) (\<lambda>a. res_bind (str_At cmp i)
       (\<lambda>b. if a \<noteq> b then Inr False else BeginsWith_loop s cmp (i + 1) n))"

definition BeginsWith :: "sl_string \<Rightarrow> sl_string \<Rightarrow> bool res" where
  "BeginsWith s cmp =
     (if str_length cmp > str_length s then Inr False
      else BeginsWith_loop s cmp 0 (str_length cmp))"

text \<open>\<open>EndsWith\<close> has the same loop body, from index \<open>Size() - cmp.Size()\<close> on.\<close>

definition EndsWith :: "sl_string \<Rightarrow> sl_string \<Rightarrow> bool res" where
  "EndsWith s cmp =
     (if str_length cmp > str_length s then Inr False
      else BeginsWith_loop s cmp (str_length s - str_length cmp) (str_length cmp))"

definition TrimStart :: "size_t \<Rightarrow> sl_string \<Rightarrow> sl_string" where
  "TrimStart amount s =
     (if str_length s < amount then s\<lparr> str_length := 0 \<rparr>
      else s\<lparr> str_buffer := map_option (drop amount) (str_buffer s) \<rparr>)"

definition TrimEnd :: "size_t \<Rightarrow> sl_string \<Rightarrow> sl_string res" where
  "TrimEnd amount s =
     (let len = (if str_length s < amount then 0 else str_length s - amount)
      in case str_buffer s of
           None \<Rightarrow> Inl Null_Deref
         | Some b \<Rightarrow> if len < length b
                     then Inr (s\<lparr> str_buffer := Some (b[len := NUL]), str_length := len \<rparr>)
                     else Inl Bad_Index)"

definition str_eq :: "sl_string \<Rightarrow> sl_string \<Rightarrow> bool res" where
  "str_eq s other =
     (if str_length other \<noteq> str_length s then Inr False
      else res_bind (str_Span s) (\<lambda>a. res_bind (str_Span other) (\<lambda>b. Inr (span_eq a b))))"

definition str_eq_span :: "sl_string \<Rightarrow> char list \<Rightarrow> bool res" where
  "str_eq_span s span =
     (if length span \<noteq> str_length s then Inr False
      else res_bind (str_Span s) (\<lambda>a. Inr (span_eq a span)))"

subsection \<open>Spans\<close>

lemma span_eq_loop_iff: "span_eq_loop a b i n \<longleftrightarrow> (\<forall>k<n. a ! (i + k) = b ! (i + k))"
proof (induction a b i n rule: span_eq_loop.induct)
  case (2 a b i n)
  have "(\<forall>k<Suc n. a ! (i + k) = b ! (i + k)) \<longleftrightarrow>
    a ! i = b ! i \<and> (\<forall>k<n. a ! (i + 1 + k) = b ! (i + 1 + k))"
    by (auto simp: less_Suc_eq_0_disj)
  then show ?case using 2 by (auto simp del: add_Suc_right)
qed simp

lemma span_eq_iff [simp]: "span_eq a b \<longleftrightarrow> a = b"
  by (auto simp: span_eq_def span_eq_loop_iff intro: nth_equalityI)

lemma span_neq_iff [simp]: "span_neq a b \<longleftrightarrow> a \<noteq> b"
  by (simp add: span_neq_def)

lemma span_Subspan_in:
  assumes "i \<le> length data" "2 * length data < size_limit" "len \<le> length data"
  shows "span_Subspan data i len = Inr (take len (drop i data))"
proof -
  have "i + len < size_limit" using assms by simp
  then show ?thesis using assms by (auto simp: span_Subspan_def Let_def sz_simps)
qed

definition occurs_at :: "'a list \<Rightarrow> 'a list \<Rightarrow> size_t \<Rightarrow> bool" where
  "occurs_at data other i = (take (length other) (drop i data) = other)"

lemma occurs_at_first: "occurs_at data other i \<Longrightarrow> other \<noteq> [] \<Longrightarrow> i < length data \<and> data ! i = other ! 0"
  unfolding occurs_at_def
  by (cases "i < length data") (metis hd_conv_nth hd_drop_conv_nth hd_take length_greater_0_conv, auto)

lemma occurs_at_le: "occurs_at data other i \<Longrightarrow> other \<noteq> [] \<Longrightarrow> i + length other \<le> length data"
  using occurs_at_first [of data other i] unfolding occurs_at_def
  by (metis add.commute drop_eq_Nil2 le_diff_conv2 length_drop length_take less_imp_le min.cobounded1)

lemma span_Find_loop_iff:
  assumes "other \<noteq> []" "length other \<le> length data" "2 * length data < size_limit" "i + n \<le> length data"
  shows "span_Find_loop data other i n =
    Inr (if \<exists>k. i \<le> k \<and> k < i + n \<and> occurs_at data other k then Some other else None)"
  using assms(4)
proof (induction n arbitrary: i)
  case (Suc n)
  have ex: "(\<exists>k. i \<le> k \<and> k < i + Suc n \<and> occurs_at data other k) \<longleftrightarrow>
      occurs_at data other i \<or> (\<exists>k. i + 1 \<le> k \<and> k < i + 1 + n \<and> occurs_at data other k)"
    by (auto simp: less_Suc_eq_le) (metis Suc_leI le_neq_implies_less, metis Suc_leD)
  show ?case
    unfolding ex span_Find_loop.simps(2)
    using Suc assms occurs_at_first [of data other i] occurs_at_def [of data other i]
    by (auto simp: span_Subspan_in)
qed simp

lemma span_Contains_loop_Find:
  "span_Contains_loop data other i n = res_bind (span_Find_loop data other i n) (\<lambda>r. Inr (r \<noteq> None))"
  by (induction data other i n rule: span_Contains_loop.induct)
    (auto simp: res_bind_def split: sum.splits)

text \<open>\<open>Span::Contains\<close> is true exactly for a non-empty span that occurs in the searched one.
  \<open>Span::Find\<close> returns an occurrence exactly when there is one that does not end where the searched
  span ends.\<close>

lemma span_search:
  assumes "2 * length data < size_limit"
  shows "span_Contains data other = Inr (other \<noteq> [] \<and> (\<exists>i. occurs_at data other i)) \<and>
    span_Find data other =
      Inr (if other \<noteq> [] \<and> (\<exists>i. occurs_at data other i \<and> i + length other < length data)
           then Some other else None)"
proof (cases "length other > length data \<or> other = []")
  case True
  then show ?thesis
    using occurs_at_le [of data other] by (fastforce simp: span_Contains_def span_Find_def)
next
  case False
  then have "(\<exists>k. k < length data \<and> occurs_at data other k) \<longleftrightarrow> (\<exists>i. occurs_at data other i)"
    using occurs_at_first by blast
  with False show ?thesis
    using assms span_Find_loop_iff [of other data 0 "length data"]
      span_Find_loop_iff [of other data 0 "length data - length other"]
    by (auto simp: span_Contains_def span_Find_def span_Contains_loop_Find less_diff_conv)
qed

lemma span_search_example:
  "span_Contains ''a.tar'' ''tar'' = Inr True \<and> span_Find ''a.tar'' ''tar'' = Inr None"
proof -
  have l: "2 * length ''a.tar'' < size_limit" by (simp add: size_limit_def)
  have "occurs_at ''a.tar'' ''tar'' 2" by (simp add: occurs_at_def)
  moreover have "\<not> (occurs_at ''a.tar'' ''tar'' i \<and> i + 3 < 5)" for i
  proof (cases "i < 2")
    case True
    then consider "i = 0" | "i = 1" by linarith
    then show ?thesis by cases (simp_all add: occurs_at_def)
  qed simp
  ultimately show ?thesis using span_search [OF l, of "''tar''"] by (auto simp: numeral_2_eq_2)
qed

subsection \<open>Strings\<close>

text \<open>A string in use has a terminated buffer; its text is the list of the bytes before the terminator.\<close>

definition str_wf :: "sl_string \<Rightarrow> bool" where
  "str_wf s = (case str_buffer s of None \<Rightarrow> False
               | Some b \<Rightarrow> str_length s < length b \<and> b ! str_length s = NUL \<and> length b < size_limit)"

definition str_text :: "sl_string \<Rightarrow> char list" where
  "str_text s = (case str_buffer s of None \<Rightarrow> [] | Some b \<Rightarrow> take (str_length s) b)"

lemma str_text_length: "str_wf s \<Longrightarrow> length (str_text s) = str_length s"
  by (auto simp: str_wf_def str_text_def split: option.splits)

lemma str_Span_text: "str_wf s \<Longrightarrow> str_Span s = Inr (str_text s)"
  by (auto simp: str_wf_def str_text_def str_Span_def split: option.splits)

lemma copy_term_text: "str_wf s \<Longrightarrow> copy_term (str_buffer s) 0 (str_length s) = Inr (str_text s @ [NUL])"
  by (auto simp: str_wf_def str_text_def copy_term_def split: option.splits)

lemma copy_term_slice:
  "str_wf s \<Longrightarrow> start + len \<le> str_length s \<Longrightarrow>
   copy_term (str_buffer s) start len = Inr (take len (drop start (str_text s)) @ [NUL])"
  by (auto simp: str_wf_def str_text_def copy_term_def drop_take min_def split: option.splits)

text \<open>The search for the terminator of a buffer.\<close>

lemma buf_first_hit:
  assumes "i \<le> k" "k < length b" "b ! k = t" "\<forall>j. i \<le> j \<and> j < k \<longrightarrow> b ! j \<noteq> t" "k < limit \<or> limit = 0"
  shows "buf_first b i t limit = Inr k"
  using assms
proof (induction b i t limit rule: buf_first.induct)
  case (1 b i t limit)
  show ?case
  proof (cases "i = k")
    case True
    with "1.prems" show ?thesis by (subst buf_first.simps) auto
  next
    case False
    with "1.prems" have "i < k" "b ! i \<noteq> t" by auto
    with 1 show ?thesis by (subst buf_first.simps) auto
  qed
qed

lemma buf_first_miss:
  assumes "i \<le> limit" "0 < limit" "limit \<le> length b" "\<forall>j. i \<le> j \<and> j < limit \<longrightarrow> b ! j \<noteq> t"
  shows "buf_first b i t limit = Inr limit"
  using assms
proof (induction b i t limit rule: buf_first.induct)
  case (1 b i t limit)
  show ?case
  proof (cases "i = limit")
    case True
    with "1.prems" show ?thesis by (subst buf_first.simps) auto
  next
    case False
    with "1.prems" have "i < limit" "b ! i \<noteq> t" by auto
    with 1 show ?thesis by (subst buf_first.simps) auto
  qed
qed

lemma String_buf_terminated:
  assumes "NUL \<notin> set xs"
  shows "String_buf (xs @ [NUL]) True = Inr \<lparr> str_buffer = Some (xs @ [NUL]), str_length = length xs \<rparr>"
proof -
  have "\<forall>j. 0 \<le> j \<and> j < length xs \<longrightarrow> (xs @ [NUL]) ! j \<noteq> NUL"
    using assms by (auto simp: nth_append in_set_conv_nth)
  then have "buf_first (xs @ [NUL]) 0 NUL 0 = Inr (length xs)"
    by (intro buf_first_hit) auto
  then show ?thesis by (simp add: String_buf_def)
qed

definition str_of :: "char list \<Rightarrow> sl_string" where
  "str_of xs = \<lparr> str_buffer = Some (xs @ [NUL]), str_length = length xs \<rparr>"

lemma str_of_simps [simp]:
  "str_text (str_of xs) = xs" "str_length (str_of xs) = length xs"
  "str_wf (str_of xs) \<longleftrightarrow> length xs + 1 < size_limit"
  by (auto simp: str_of_def str_text_def str_wf_def)

lemma String_copy_text: "str_wf s \<Longrightarrow> String_copy s = Inr (str_of (str_text s))"
  by (auto simp: String_copy_def copy_term_text str_of_def str_text_length String_empty_def str_text_def
      str_wf_def split: option.splits)

lemma String_span_text:
  assumes "sp \<noteq> []" "last sp \<noteq> NUL"
  shows "String_span sp = Inr (str_of sp)"
  using assms by (simp add: String_span_def copy_term_def str_of_def)

lemma str_Concat_text:
  assumes "str_wf a" "str_wf b" "NUL \<notin> set (str_text a)" "NUL \<notin> set (str_text b)"
  shows "str_Concat a b = Inr (str_of (str_text a @ str_text b))"
proof -
  consider "str_length a = 0" | "str_length b = 0" | "str_length a \<noteq> 0" "str_length b \<noteq> 0" by blast
  then show ?thesis
  proof cases
    case 3
    have "NUL \<notin> set (str_text a @ str_text b)" using assms by simp
    with 3 assms show ?thesis
      using String_buf_terminated [of "str_text a @ str_text b"]
      by (simp add: str_Concat_def copy_term_text str_of_def)
  qed (use assms str_text_length [of a] str_text_length [of b] in
      \<open>auto simp: str_Concat_def String_copy_text\<close>)
qed

lemma SubString_text:
  assumes "str_wf s" "NUL \<notin> set (str_text s)" "start + len \<le> str_length s"
  shows "SubString s start len = Inr (str_of (take len (drop start (str_text s))))"
proof -
  have lim: "str_length s + 1 < size_limit" using assms(1) by (auto simp: str_wf_def split: option.splits)
  have "NUL \<notin> set (take len (drop start (str_text s)))"
    using assms(2) by (meson in_set_dropD in_set_takeD)
  then show ?thesis
    using assms lim String_buf_terminated [of "take len (drop start (str_text s))"]
    by (auto simp: SubString_def Let_def sz_simps copy_term_slice str_of_def)
qed

lemma str_At_text:
  "str_wf s \<Longrightarrow> i < str_length s \<Longrightarrow> str_At s i = Inr (str_text s ! i)"
  by (auto simp: str_wf_def str_At_def str_text_def Let_def split: option.splits)

lemma str_At_beyond:
  "str_wf s \<Longrightarrow> str_length s \<le> i \<Longrightarrow> 0 < str_length s \<Longrightarrow> str_At s i = Inr (last (str_text s))"
  by (cases "str_text s = []")
    (auto simp: str_wf_def str_At_def str_text_def Let_def sz_simps last_conv_nth split: option.splits)

lemma BeginsWith_loop_iff:
  assumes "\<forall>k<n. str_At s (i + k) = Inr (f k)" "\<forall>k<n. str_At c (i + k) = Inr (g k)"
  shows "BeginsWith_loop s c i n = Inr (\<forall>k<n. f k = g k)"
  using assms
proof (induction n arbitrary: i f g)
  case (Suc n)
  have a: "str_At s i = Inr (f 0)" "str_At c i = Inr (g 0)"
    using Suc.prems by (metis add.right_neutral zero_less_Suc)+
  have IH: "BeginsWith_loop s c (i + 1) n = Inr (\<forall>k<n. f (Suc k) = g (Suc k))"
    using Suc.prems by (intro Suc.IH) auto
  have "(\<forall>k<Suc n. f k = g k) \<longleftrightarrow> f 0 = g 0 \<and> (\<forall>k<n. f (Suc k) = g (Suc k))"
    by (auto simp: less_Suc_eq_0_disj)
  with a IH show ?case by simp
qed simp

lemma BeginsWith_text:
  assumes "str_wf s" "str_wf c"
  shows "BeginsWith s c = Inr (take (str_length c) (str_text s) = str_text c)"
proof (cases "str_length c > str_length s")
  case True
  then show ?thesis
    using str_text_length [OF assms(1)] str_text_length [OF assms(2)]
    by (auto simp: BeginsWith_def)
next
  case False
  then have "BeginsWith_loop s c 0 (str_length c) = Inr (\<forall>k < str_length c. str_text s ! k = str_text c ! k)"
    using assms by (intro BeginsWith_loop_iff) (simp_all add: str_At_text)
  then show ?thesis
    using False str_text_length [OF assms(1)] str_text_length [OF assms(2)]
    by (auto simp: BeginsWith_def list_eq_iff_nth_eq)
qed

lemma str_eq_text:
  assumes "str_wf a" "str_wf b"
  shows "str_eq a b = Inr (str_text a = str_text b)"
  using assms str_text_length [OF assms(1)] str_text_length [OF assms(2)]
  by (auto simp: str_eq_def str_Span_text)

lemma FindLast_loop_ok:
  assumes "nx < len" "len \<le> length b"
  shows "\<exists>k. FindLast_loop b len t la nx = Some (Inr k) \<and> nx \<le> k \<and> k < len \<and>
    (k = nx \<or> b ! k = t) \<and> (\<forall>j. k < j \<and> j < len \<longrightarrow> b ! j \<noteq> t)"
  using assms(1)
proof (induction "len - nx" arbitrary: la nx rule: less_induct)
  case less
  show ?case
  proof (cases "\<exists>k. nx < k \<and> k < len \<and> b ! k = t")
    case True
    define k where "k = (LEAST k. nx < k \<and> k < len \<and> b ! k = t)"
    from True have k: "nx < k" "k < len" "b ! k = t"
      unfolding k_def by (metis (mono_tags, lifting) LeastI_ex)+
    have least: "nx < j \<Longrightarrow> j < k \<Longrightarrow> b ! j \<noteq> t" for j
      using not_less_Least [of j "\<lambda>k. nx < k \<and> k < len \<and> b ! k = t"] k(2) by (auto simp: k_def)
    then have "buf_first b (nx + 1) t len = Inr k"
      using k assms(2) by (intro buf_first_hit) auto
    then have step: "FindLast_loop b len t la nx = FindLast_loop b len t nx k"
      using less.prems by (subst FindLast_loop.simps) simp
    from less.hyps [of k nx] k obtain k' where "FindLast_loop b len t nx k = Some (Inr k')" "k \<le> k'"
      "k' < len" "k' = k \<or> b ! k' = t" "\<forall>j. k' < j \<and> j < len \<longrightarrow> b ! j \<noteq> t"
      by (meson diff_less_mono2 less.prems)
    then show ?thesis using step k by auto
  next
    case False
    then have "buf_first b (nx + 1) t len = Inr len"
      using less.prems assms(2) by (intro buf_first_miss) auto
    then have "FindLast_loop b len t la nx = FindLast_loop b len t nx len"
      using less.prems by (subst FindLast_loop.simps) simp
    also have "\<dots> = Some (Inr nx)" by (subst FindLast_loop.simps) simp
    finally show ?thesis using False less.prems by auto
  qed
qed

text \<open>On well-formed strings without embedded null bytes, concatenation, substrings in range,
  prefix test and equality compute what they compute on the texts, and \<open>FindLast\<close> returns, with the
  last occurrence of its token from index 1 on or else 0.\<close>

lemma string_ops_correct:
  assumes "str_wf a" "str_wf b" "NUL \<notin> set (str_text a)" "NUL \<notin> set (str_text b)"
    "start + len \<le> str_length a" "0 < str_length a"
  shows "str_Concat a b = Inr (str_of (str_text a @ str_text b)) \<and>
    SubString a start len = Inr (str_of (take len (drop start (str_text a)))) \<and>
    BeginsWith a b = Inr (take (str_length b) (str_text a) = str_text b) \<and>
    str_eq a b = Inr (str_text a = str_text b) \<and>
    (\<exists>k. str_FindLast a t = Some (Inr k) \<and> k < str_length a \<and> (k = 0 \<or> str_text a ! k = t) \<and>
      (\<forall>j. k < j \<and> j < str_length a \<longrightarrow> str_text a ! j \<noteq> t))"
proof -
  obtain buf where buf: "str_buffer a = Some buf" "str_length a < length buf"
    using assms(1) by (auto simp: str_wf_def split: option.splits)
  then obtain k where "FindLast_loop buf (str_length a) t 0 0 = Some (Inr k)" "k < str_length a"
    "k = 0 \<or> buf ! k = t" "\<forall>j. k < j \<and> j < str_length a \<longrightarrow> buf ! j \<noteq> t"
    using FindLast_loop_ok [of 0 "str_length a" buf t 0] assms(6) by auto
  then have "\<exists>k. str_FindLast a t = Some (Inr k) \<and> k < str_length a \<and> (k = 0 \<or> str_text a ! k = t) \<and>
      (\<forall>j. k < j \<and> j < str_length a \<longrightarrow> str_text a ! j \<noteq> t)"
    using buf by (intro exI [of _ k]) (auto simp: str_FindLast_def str_text_def)
  with assms show ?thesis
    by (simp add: str_Concat_text SubString_text BeginsWith_text str_eq_text)
qed

lemma string_ops_correct_example:
  "str_Concat (str_of ''ab'') (str_of ''cd'') = Inr (str_of ''abcd'') \<and>
   SubString (str_of ''ab'') 1 1 = Inr (str_of ''b'')"
  using string_ops_correct [of "str_of ''ab''" "str_of ''cd''" 1 1] by (simp add: size_limit_def)

text \<open>\<open>EndsWith\<close> compares the end of the string with the last character of the argument only, when
  the string is at least twice as long; and \<open>TrimStart\<close> moves the buffer on but keeps the length.\<close>

theorem string_ends_wrong:
  assumes "str_wf s" "str_wf c" "0 < str_length c" "2 * str_length c \<le> str_length s"
  shows "EndsWith s c =
      Inr (\<forall>k < str_length c. str_text s ! (str_length s - str_length c + k) = last (str_text c)) \<and>
    str_length (TrimStart (str_length c) s) = str_length s"
proof -
  let ?o = "str_length s - str_length c"
  have "BeginsWith_loop s c ?o (str_length c) =
      Inr (\<forall>k < str_length c. str_text s ! (?o + k) = last (str_text c))"
    using assms by (intro BeginsWith_loop_iff) (auto simp: str_At_text str_At_beyond)
  with assms show ?thesis by (simp add: EndsWith_def TrimStart_def)
qed

theorem string_ends_wrong_witness:
  "EndsWith (str_of ''disk.tar'') (str_of ''tar'') = Inr False \<and>
   EndsWith (str_of ''grrrrr'') (str_of ''tar'') = Inr True \<and>
   str_length (TrimStart 3 (str_of ''disk.tar'')) = 8"
proof -
  have lim: "20 < size_limit" by (simp add: size_limit_def)
  show ?thesis
    using string_ends_wrong [of "str_of ''disk.tar''" "str_of ''tar''"]
      string_ends_wrong [of "str_of ''grrrrr''" "str_of ''tar''"] lim
    by (simp add: All_less_Suc Ex_less_Suc numeral_eq_Suc)
qed

end
