(* ===== verification/Config_Store.thy ===== *)
theory Config_Store
  imports Syslib_String
begin

text \<open>
  \<open>kernel/config/ConfigStore.cpp\<close>: options on the kernel command line, \<open>key=value\<close> words separated
  by spaces. The command line is the list of its characters; reading past its end is \<open>Bad_Index\<close>.
  \<open>char\<close> is a signed byte, so its arithmetic is written on \<open>8 word\<close> values read with \<open>sint\<close>.
\<close>

definition char_val :: "char \<Rightarrow> u8" where
  "char_val c = of_char c"

definition IsDigit :: "char \<Rightarrow> size_t \<Rightarrow> bool" where
  "IsDigit c base =
     (if base \<le> 10
      then sint (char_val c) \<ge> 48 \<and> sint (char_val c) \<le> 48 + sint (of_nat base :: u8)
      else
        let c10 = char_val c - 10; b10 = (of_nat base :: u8) - 10
        in sint (char_val c) \<ge> 48 \<and> sint (char_val c) \<le> 57 \<or>
           sint c10 \<ge> 97 \<and> sint c10 \<le> 97 + sint b10 \<or>
           sint c10 \<ge> 65 \<and> sint c10 \<le> 65 + sint b10)"

text \<open>The digit that is added, as a signed byte.\<close>

definition digit_of :: "char \<Rightarrow> u8" where
  "digit_of c =
     (let d = char_val c
      in if sint d \<ge> 48 \<and> sint d \<le> 57 then d - 10
         else if sint d \<ge> 65 \<and> sint d \<le> 90 then d - (65 - 10)
         else if sint d \<ge> 97 \<and> sint d \<le> 122 then d - (97 - 10)
         else d)"

fun parse_digits :: "char list \<Rightarrow> size_t \<Rightarrow> u64 \<Rightarrow> u64" where
  "parse_digits [] base value = value"
| "parse_digits (c # cs) base value =
     (if IsDigit c base then parse_digits cs base (value * of_nat base + signed (digit_of c)) else value)"

definition ParseNum :: "char list \<Rightarrow> u64 res" where
  "ParseNum input =
     (if input = [] then Inr 0
      else if length input = 1 \<and> input ! 0 = CHR ''0'' then Inr 0
      else if input ! 0 = CHR ''0''
      then res_bind (span_Subspan input 1 (size_limit - 1)) (\<lambda>inp1.
             if inp1 ! 0 = CHR ''x'' \<or> inp1 ! 0 = CHR ''X''
             then res_bind (span_Subspan inp1 1 (size_limit - 1)) (\<lambda>inp2. Inr (parse_digits inp2 16 0))
             else if inp1 ! 0 = CHR ''b'' \<or> inp1 ! 0 = CHR ''B''
             then res_bind (span_Subspan inp1 1 (size_limit - 1)) (\<lambda>inp2. Inr (parse_digits inp2 2 0))
             else Inr (parse_digits inp1 8 0))
      else Inr (parse_digits input 10 0))"

lemma span_Subspan_length: "span_Subspan xs i n = Inr ys \<Longrightarrow> length ys \<le> length xs - i"
  by (auto simp: span_Subspan_def Let_def split: if_splits)

function GetConfig_loop :: "char list \<Rightarrow> char list \<Rightarrow> char list res" where
  "GetConfig_loop key source =
     (if source = [] then Inr []
      else case span_Subspan source 0 (length key) of
        Inl e \<Rightarrow> Inl e
      | Inr compare \<Rightarrow>
          if span_neq compare key
          then (case buf_first source 0 CHR '' '' (length source) of
                  Inl e \<Rightarrow> Inl e
                | Inr nextSpace \<Rightarrow>
                    if nextSpace = length source then Inr []
                    else case span_Subspan source (nextSpace + 1) (size_limit - 1) of
                      Inl e \<Rightarrow> Inl e
                    | Inr source' \<Rightarrow> GetConfig_loop key source')
          else if length source \<le> length compare then Inl Bad_Index
          else if source ! length compare \<noteq> CHR ''=''
          then (case buf_first source 0 CHR '' '' (length source) of
                  Inl e \<Rightarrow> Inl e
                | Inr nextSpace \<Rightarrow>
                    if nextSpace = length source then Inr []
                    else case span_Subspan source (nextSpace + 1) (size_limit - 1) of
                      Inl e \<Rightarrow> Inl e
                    | Inr source' \<Rightarrow> GetConfig_loop key source')
          else
            let begin = length compare + 1
            in res_bind (buf_first (drop begin source) 0 CHR '' '' (length source - begin))
                 (\<lambda>len. span_Subspan source begin len))"
  by pat_completeness auto
termination
proof (relation "measure (\<lambda>(key, source). length source)")
  have dec: "source \<noteq> [] \<Longrightarrow> span_Subspan source (n + 1) m = Inr s \<Longrightarrow> length s < length source"
    for source :: "char list" and n m s
    using span_Subspan_length [of source "n + 1" m s] by (cases source) auto
  then show "source \<noteq> [] \<Longrightarrow> span_Subspan source 0 (length key) = Inr compare \<Longrightarrow> span_neq compare key \<Longrightarrow>
      buf_first source 0 CHR '' '' (length source) = Inr n \<Longrightarrow> n \<noteq> length source \<Longrightarrow>
      span_Subspan source (n + 1) (size_limit - 1) = Inr s \<Longrightarrow>
      ((key, s), key, source) \<in> measure (\<lambda>(key, source). length source)"
    for key source compare n s by simp
  show "source \<noteq> [] \<Longrightarrow> span_Subspan source 0 (length key) = Inr compare \<Longrightarrow> \<not> span_neq compare key \<Longrightarrow>
      \<not> length source \<le> length compare \<Longrightarrow> source ! length compare \<noteq> CHR ''='' \<Longrightarrow>
      buf_first source 0 CHR '' '' (length source) = Inr n \<Longrightarrow> n \<noteq> length source \<Longrightarrow>
      span_Subspan source (n + 1) (size_limit - 1) = Inr s \<Longrightarrow>
      ((key, s), key, source) \<in> measure (\<lambda>(key, source). length source)"
    for key source compare n s using dec by simp
qed simp

declare GetConfig_loop.simps [simp del]

definition GetConfig :: "char list \<Rightarrow> char list \<Rightarrow> char list res" where
  "GetConfig cmdline key =
     (if key = [] then Inr []
      else res_bind (if last key = NUL then span_Subspan key 0 (length key - 1) else Inr key)
             (\<lambda>k. GetConfig_loop k cmdline))"

definition AffirmativeStrs :: "char list list" where
  "AffirmativeStrs = [''true'', ''yes'', ''yeah'']"

definition GetConfigNumber :: "char list \<Rightarrow> char list \<Rightarrow> u64 \<Rightarrow> u64 res" where
  "GetConfigNumber cmdline key orDefault =
     res_bind (GetConfig cmdline key) (\<lambda>raw.
       if raw = [] then Inr orDefault
       else if (orDefault = 1 \<or> orDefault = 0) \<and> list_ex (\<lambda>test. span_eq test raw) AffirmativeStrs then Inr 1
       else ParseNum raw)"

text \<open>
  The command line is taken over from the bootloader and later copied: \<open>owned\<close> tells which of the
  two buffers it is in.
\<close>

record config_store =
  cs_owned :: bool
  cs_cmdline :: "char list"

definition InitConfigStore :: "char list \<Rightarrow> config_store" where
  "InitConfigStore loaderCmdline = \<lparr> cs_owned = False, cs_cmdline = loaderCmdline \<rparr>"

definition LateInitConfigStore :: "config_store \<Rightarrow> config_store" where
  "LateInitConfigStore s = s\<lparr> cs_owned := True, cs_cmdline := take (length (cs_cmdline s)) (cs_cmdline s) \<rparr>"

subsection \<open>Looking up an option\<close>

fun join_words :: "char list list \<Rightarrow> char list" where
  "join_words [] = []"
| "join_words [w] = w"
| "join_words (w # v # ws) = w @ CHR '' '' # join_words (v # ws)"

definition option_word :: "char list \<Rightarrow> char list \<Rightarrow> bool" where
  "option_word key w = (take (length key + 1) w = key @ ''='')"

lemma Subspan_rest:
  "i \<le> length xs \<Longrightarrow> length xs + 1 < size_limit \<Longrightarrow> span_Subspan xs i (size_limit - 1) = Inr (drop i xs)"
  by (auto simp: span_Subspan_def Let_def sz_simps)

text \<open>A word at the start of the command line: what follows is empty or starts with a space.\<close>

definition word_then :: "char list \<Rightarrow> char list \<Rightarrow> bool" where
  "word_then w rest \<longleftrightarrow> CHR '' '' \<notin> set w \<and> (rest = [] \<or> hd rest = CHR '' '')"

lemma next_space:
  assumes "word_then w rest" "w \<noteq> []"
  shows "buf_first (w @ rest) 0 CHR '' '' (length (w @ rest)) = Inr (length w)"
proof -
  have n: "\<forall>j. 0 \<le> j \<and> j < length w \<longrightarrow> (w @ rest) ! j \<noteq> CHR '' ''"
    using assms(1) by (auto simp: word_then_def nth_append in_set_conv_nth)
  show ?thesis
  proof (cases rest)
    case Nil
    then show ?thesis using n assms(2) buf_first_miss [of 0 "length w" w "CHR '' ''"] by simp
  next
    case (Cons r rs)
    with assms(1) have "r = CHR '' ''" by (simp add: word_then_def)
    with Cons n show ?thesis by (intro buf_first_hit) auto
  qed
qed

lemma option_at_start:
  assumes "word_then w rest" "CHR '' '' \<notin> set key"
  shows "take (length key + 1) (w @ rest) = key @ ''='' \<longleftrightarrow> option_word key w"
proof (cases "length key + 1 \<le> length w")
  case True
  then show ?thesis by (simp add: option_word_def)
next
  case False
  then have l: "length w < length (key @ ''='')" by simp
  have "take (length key + 1) (w @ rest) \<noteq> key @ ''=''"
  proof
    assume eq: "take (length key + 1) (w @ rest) = key @ ''=''"
    then have "length w < length (take (length key + 1) (w @ rest))" using l by simp
    then have "rest \<noteq> []" by auto
    then have "(key @ ''='') ! length w = CHR '' ''"
      using assms(1) False unfolding eq [symmetric] by (cases rest) (auto simp: word_then_def nth_append)
    then have "CHR '' '' \<in> set (key @ ''='')" using l by (metis nth_mem)
    with assms(2) show False by simp
  qed
  moreover have "\<not> option_word key w" using l by (auto simp: option_word_def dest: arg_cong [of _ _ length])
  ultimately show ?thesis by simp
qed

lemma compare_key:
  assumes "2 * length source < size_limit" "2 * length key < size_limit"
  shows "span_Subspan source 0 (length key) = Inr (take (length key) source)"
proof (cases "length key \<le> length source")
  case True
  then show ?thesis using assms span_Subspan_in [of 0 source "length key"] by simp
next
  case False
  then show ?thesis using assms by (simp add: span_Subspan_def Let_def sz_simps)
qed

lemma loop_hit:
  assumes "word_then w rest" "CHR '' '' \<notin> set key" "option_word key w"
    "2 * length (w @ rest) < size_limit" "2 * length key < size_limit" "rest \<noteq> [] \<or> w \<noteq> key @ ''=''"
  shows "GetConfig_loop key (w @ rest) = Inr (drop (length key + 1) w)"
proof -
  obtain v where w: "w = key @ CHR ''='' # v"
    using assms(3) by (metis append.assoc append_Cons append_Nil append_take_drop_id option_word_def)
  let ?s = "w @ rest"
  have cmp: "span_Subspan ?s 0 (length key) = Inr key" using compare_key [OF assms(4,5)] w by simp
  have vr: "word_then v rest" "drop (length key + 1) ?s = v @ rest" "length ?s - (length key + 1) = length (v @ rest)"
    using assms(1) w by (auto simp: word_then_def)
  have len: "buf_first (v @ rest) 0 CHR '' '' (length (v @ rest)) = Inr (length v)"
  proof (cases "v = []")
    case True
    with assms(6) w have "rest \<noteq> []" by auto
    with True vr(1) have "hd rest = CHR '' ''" "rest \<noteq> []" by (auto simp: word_then_def)
    then show ?thesis using True by (intro buf_first_hit) (auto simp: hd_conv_nth)
  qed (rule next_space [OF vr(1)])
  have "span_Subspan ?s (length key + 1) (length v) = Inr v"
    using assms(4) w by (subst span_Subspan_in) simp_all
  with cmp len vr w show ?thesis by (subst GetConfig_loop.simps) (simp add: Let_def)
qed

lemma loop_skip:
  assumes "word_then w rest" "w \<noteq> []" "CHR '' '' \<notin> set key" "\<not> option_word key w"
    "2 * length (w @ rest) < size_limit" "2 * length key < size_limit" "rest \<noteq> [] \<or> w \<noteq> key"
  shows "GetConfig_loop key (w @ rest) = (if rest = [] then Inr [] else GetConfig_loop key (tl rest))"
proof -
  define S where "S = w @ rest"
  have cmp: "span_Subspan S 0 (length key) = Inr (take (length key) S)" using compare_key [OF assms(5,6)] by (simp add: S_def)
  have nx: "buf_first S 0 CHR '' '' (length S) = Inr (length w)" using next_space [OF assms(1,2)] by (simp add: S_def)
  have nm: "take (length key + 1) S \<noteq> key @ ''=''" using option_at_start [OF assms(1,3)] assms(4) by (simp add: S_def)
  have hit: "length key < length S \<and> S ! length key \<noteq> CHR ''=''" if t: "take (length key) S = key"
  proof -
    have le: "length key \<le> length S" by (metis t length_take min.cobounded2 min_def nat_le_linear)
    have ne: "length key \<noteq> length S"
    proof
      assume "length key = length S"
      then have "key = w @ rest" using t by (simp add: S_def)
      with assms(1,3,7) show False by (cases rest) (auto simp: word_then_def)
    qed
    with le have lt: "length key < length S" by simp
    moreover have "take (length key + 1) S = key @ [S ! length key]"
      using take_Suc_conv_app_nth [OF lt] t by simp
    ultimately show ?thesis using nm by auto
  qed
  have go: "(if length w = length S then Inr [] else
      case span_Subspan S (length w + 1) (size_limit - 1) of Inl e \<Rightarrow> Inl e | Inr s' \<Rightarrow> GetConfig_loop key s') =
      (if rest = [] then Inr [] else GetConfig_loop key (tl rest))"
    using assms(5) Subspan_rest [of "length w + 1" S] by (cases rest) (auto simp: S_def)
  have ne: "S \<noteq> []" using assms(2) by (simp add: S_def)
  show ?thesis
    unfolding S_def [symmetric]
  proof (cases "take (length key) S = key")
    case True
    with ne hit cmp nx go show "GetConfig_loop key S = (if rest = [] then Inr [] else GetConfig_loop key (tl rest))"
      by (subst GetConfig_loop.simps) simp
  next
    case False
    with ne cmp nx go show "GetConfig_loop key S = (if rest = [] then Inr [] else GetConfig_loop key (tl rest))"
      by (subst GetConfig_loop.simps) simp
  qed
qed

text \<open>For a command line of non-empty words, \<open>GetConfig\<close> returns the text after the equals sign of the
  first word that starts with the key and an equals sign, and nothing if there is none. The last
  word must not be the bare key or the key with an empty value.\<close>

lemma GetConfig_first:
  assumes "\<forall>w \<in> set ws. w \<noteq> [] \<and> CHR '' '' \<notin> set w" "2 * length (join_words ws) < size_limit"
    "key \<noteq> []" "CHR '' '' \<notin> set key" "last key \<noteq> NUL" "2 * length key < size_limit"
    "last ws \<noteq> key" "last ws \<noteq> key @ ''=''"
  shows "GetConfig (join_words ws) key =
    Inr (case find (option_word key) ws of None \<Rightarrow> [] | Some w \<Rightarrow> drop (length key + 1) w)"
proof -
  have "GetConfig_loop key (join_words ws) =
      Inr (case find (option_word key) ws of None \<Rightarrow> [] | Some w \<Rightarrow> drop (length key + 1) w)"
    using assms(1,2,7,8)
  proof (induction ws rule: join_words.induct)
    case 1
    show ?case by (subst GetConfig_loop.simps) simp
  next
    case (2 w)
    then have "word_then w []" by (simp add: word_then_def)
    from loop_hit [OF this assms(4)] loop_skip [OF this _ assms(4)] 2 assms(6) show ?case by auto
  next
    case (3 w v ws)
    let ?r = "CHR '' '' # join_words (v # ws)"
    have wt: "word_then w ?r" using 3 by (simp add: word_then_def)
    have len: "2 * length (w @ ?r) < size_limit" using 3 by simp
    from loop_hit [OF wt assms(4) _ len assms(6)] loop_skip [OF wt _ assms(4) _ len assms(6)] 3
    show ?case by auto
  qed
  then show ?thesis using assms(3,5) by (simp add: GetConfig_def)
qed

lemma GetConfig_first_example:
  "GetConfig ''quiet log=dbg log=all x'' ''log'' = Inr ''dbg''"
proof -
  have "option_word ''log'' ''log=dbg''" "\<not> option_word ''log'' ''quiet''" by (simp_all add: option_word_def)
  then show ?thesis
    using GetConfig_first [of "[''quiet'', ''log=dbg'', ''log=all'', ''x'']" "''log''"] by (simp add: size_limit_def)
qed

subsection \<open>Numbers\<close>

definition digit_char :: "nat \<Rightarrow> char" where
  "digit_char d = ''0123456789'' ! d"

definition dec_value :: "nat list \<Rightarrow> nat" where
  "dec_value ds = foldl (\<lambda>v d. v * 10 + d) 0 ds"

lemma digit_char_facts:
  assumes "d < 10"
  shows "IsDigit (digit_char d) 10" "signed (digit_of (digit_char d)) = (of_nat (d + 38) :: u64)"
    "digit_char d = CHR ''0'' \<longleftrightarrow> d = 0"
proof -
  have "d \<in> {0, 1, 2, 3, 4, 5, 6, 7, 8, 9}" using assms by auto
  then show "IsDigit (digit_char d) 10" "signed (digit_of (digit_char d)) = (of_nat (d + 38) :: u64)"
    "digit_char d = CHR ''0'' \<longleftrightarrow> d = 0"
    by (auto simp: digit_char_def IsDigit_def digit_of_def char_val_def)
qed

lemma parse_digits_dec:
  "\<forall>d \<in> set ds. d < 10 \<Longrightarrow>
   parse_digits (map digit_char ds) 10 (of_nat v) = of_nat (foldl (\<lambda>v d. v * 10 + (d + 38)) v ds)"
proof (induction ds arbitrary: v)
  case (Cons d ds)
  then show ?case using Cons.IH [of "v * 10 + (d + 38)"] digit_char_facts [of d] by simp
qed simp

text \<open>A decimal option is not read as its value: every digit counts 38 more than it should, because
  the code subtracts 10 and not the character zero.\<close>

theorem ParseNum_off_by_38:
  assumes "ds \<noteq> []" "hd ds \<noteq> 0" "\<forall>d \<in> set ds. d < 10"
  shows "ParseNum (map digit_char ds) = Inr (of_nat (dec_value (map (\<lambda>d. d + 38) ds)))"
proof -
  have "hd ds < 10" using assms by simp
  then have "map digit_char ds ! 0 \<noteq> CHR ''0''"
    using assms digit_char_facts(3) [of "hd ds"] by (simp add: hd_conv_nth)
  moreover have "foldl (\<lambda>v d. v * 10 + (d + 38)) v ds = foldl (\<lambda>v d. v * 10 + d) v (map (\<lambda>d. d + 38) ds)" for v
    by (induction ds arbitrary: v) simp_all
  ultimately show ?thesis
    using parse_digits_dec [OF assms(3), of 0] assms(1) by (simp add: ParseNum_def dec_value_def)
qed

theorem ParseNum_off_by_38_witness: "ParseNum ''16'' = Inr 434"
proof -
  have "map digit_char [1, 6] = ''16''" by (simp add: digit_char_def)
  with ParseNum_off_by_38 [of "[1, 6]"] show ?thesis by (simp add: dec_value_def)
qed

end
