(* ===== verification/Kernel_Heap.thy ===== *)
theory Kernel_Heap
  imports Slab_Alloc Pool Config_Store
begin

text \<open>
  \<open>kernel/memory/Heap.cpp\<close> and the allocation operators of \<open>kernel/cpp/New.cpp\<close>: the kernel
  heap, five slab allocators for sizes up to 512 bytes in front of the pool. Each call makes at
  most one request to the virtual memory manager; its answer is an argument. The magazines of the
  per-core caches are only filled (\<open>SwapCache\<close>); \<open>DoSlabAlloc\<close> and \<open>DoSlabFree\<close> return
  before the code that uses them.

  The choice of a size class ends for requests up to \<open>2 ^ 63\<close> bytes and only for those. On a heap
  after \<open>Init\<close>, every sequence of allocations of up to 512 bytes and of frees runs without a
  fault and the blocks that are held never overlap.
\<close>

subsection \<open>State\<close>

abbreviation SlabCount :: nat where
  "SlabCount \<equiv> 5"

abbreviation SlabBaseSize :: size_t where
  "SlabBaseSize \<equiv> 32"

abbreviation SlabCacheSize :: size_t where
  "SlabCacheSize \<equiv> 14"

abbreviation sizeof_SlabCache :: size_t where
  "sizeof_SlabCache \<equiv> 128"

record slab_cache =
  sc_count :: size_t
  sc_ptrs :: "size_t option list"

record cache_depot =
  cd_full :: "slab_cache list"
  cd_free :: "slab_cache list"
  cd_locked :: bool

record heap =
  hp_flags :: heap_flags
  hp_mem :: slab_mem
  hp_slabs :: "slab_alloc list"
  hp_depots :: "cache_depot list"
  hp_pool :: pool

subsection \<open>Initialisation\<close>

fun init_slabs :: "slab_alloc list \<Rightarrow> size_t \<Rightarrow> size_t \<Rightarrow> slab_alloc list" where
  "init_slabs [] nextSlabSize nextSlabCount = []"
| "init_slabs (sl # sls) nextSlabSize nextSlabCount =
     slab_Init nextSlabSize nextSlabCount sl # init_slabs sls (sz_mul nextSlabSize 2) nextSlabCount"

definition config_bool :: "char list \<Rightarrow> char list \<Rightarrow> bool res" where
  "config_bool cmdline key = res_bind (GetConfigNumber cmdline key 0) (\<lambda>v. Inr (v \<noteq> 0))"

definition heap_Init :: "char list \<Rightarrow> u64 \<Rightarrow> heap \<Rightarrow> (heap \<times> u64) res" where
  "heap_Init cmdline initState h =
     res_bind (config_bool cmdline ''kernel.heap.check_bounds'') (\<lambda>bounds.
     res_bind (config_bool cmdline ''kernel.heap.trash_after_use'') (\<lambda>after.
     res_bind (config_bool cmdline ''kernel.heap.trash_before_use'') (\<lambda>before.
     res_bind (config_bool cmdline ''kernel.heap.log_expansion'') (\<lambda>_.
       let (rng, i1) = (if before \<or> after then XoshiroRng_new initState else (sm_rng (hp_mem h), initState));
           sls = init_slabs (hp_slabs h) SlabBaseSize 64
       in Inr (h\<lparr> hp_flags := \<lparr> doBoundsCheck = bounds, trashAfterUse = after, trashBeforeUse = before \<rparr>,
                  hp_mem := (hp_mem h)\<lparr> sm_rng := rng \<rparr>,
                  hp_slabs := sls,
                  hp_pool := pool_Init (pa_nodes (hp_pool h)) (sa_slabSize (sls ! (SlabCount - 1))) \<rparr>, i1)))))"

subsection \<open>Allocation\<close>

text \<open>The loop that doubles \<open>counter\<close> until the size fits; it does not end when \<open>counter\<close> wraps to zero.\<close>

partial_function (option) slab_class :: "size_t \<Rightarrow> size_t \<Rightarrow> nat \<Rightarrow> nat option" where
  "slab_class bytes counter slabIndex =
     (if counter < bytes then slab_class bytes (sz_mul counter 2) (sz_add slabIndex 1) else Some slabIndex)"

definition DoSlabAlloc :: "(size_t \<Rightarrow> size_t option) \<Rightarrow> nat \<Rightarrow> heap \<Rightarrow> (size_t option \<times> heap) res" where
  "DoSlabAlloc vmm i h =
     (if \<not> i < SlabCount then Inl Assert_Failed
      else res_bind (slab_Alloc (hp_flags h) vmm (hp_mem h, hp_slabs h ! i)) (\<lambda>(p, m, sa).
        Inr (p, h\<lparr> hp_mem := m, hp_slabs := (hp_slabs h)[i := sa] \<rparr>)))"

definition DoSlabFree :: "nat \<Rightarrow> size_t \<Rightarrow> heap \<Rightarrow> heap res" where
  "DoSlabFree i ptr h =
     (if \<not> i < SlabCount then Inl Assert_Failed
      else res_bind (slab_Free (hp_flags h) ptr (hp_mem h, hp_slabs h ! i)) (\<lambda>(b, m, sa).
        if \<not> b then Inl Assert_Failed
        else Inr (h\<lparr> hp_mem := m, hp_slabs := (hp_slabs h)[i := sa] \<rparr>)))"

definition heap_Alloc :: "(size_t \<Rightarrow> size_t option) \<Rightarrow> size_t \<Rightarrow> heap \<Rightarrow> (size_t option \<times> heap) res" where
  "heap_Alloc vmm bytes h =
     (if bytes = 0 then Inr (None, h)
      else case slab_class bytes SlabBaseSize 0 of
             None \<Rightarrow> Inl Diverges
           | Some i \<Rightarrow>
               if i < SlabCount then DoSlabAlloc vmm i h
               else case pool_Alloc (doBoundsCheck (hp_flags h)) vmm bytes (hp_pool h) of
                      None \<Rightarrow> Inl Diverges
                    | Some r \<Rightarrow> res_bind r (\<lambda>(p, pl). Inr (Some p, h\<lparr> hp_pool := pl \<rparr>)))"

definition heap_Free :: "size_t option \<Rightarrow> size_t \<Rightarrow> heap \<Rightarrow> heap res" where
  "heap_Free ptr bytes h =
     (case ptr of
        None \<Rightarrow> Inr h
      | Some p \<Rightarrow>
          (case slab_class bytes SlabBaseSize 0 of
             None \<Rightarrow> Inl Diverges
           | Some i \<Rightarrow>
               if i < SlabCount then DoSlabFree i p h
               else case pool_Free p (hp_pool h) of
                      None \<Rightarrow> Inl Diverges
                    | Some (_, pl) \<Rightarrow> Inr (h\<lparr> hp_pool := pl \<rparr>)))"

text \<open>The operators of \<open>New.cpp\<close>: sized deallocation frees, the unsized one must not be called.\<close>

definition operator_new :: "(size_t \<Rightarrow> size_t option) \<Rightarrow> size_t \<Rightarrow> heap \<Rightarrow> (size_t option \<times> heap) res" where
  "operator_new vmm bytes h = heap_Alloc vmm bytes h"

definition operator_delete :: "size_t option \<Rightarrow> heap \<Rightarrow> heap res" where
  "operator_delete ptr h = Inl Unreachable_Hit"

definition operator_delete_sized :: "size_t option \<Rightarrow> size_t \<Rightarrow> heap \<Rightarrow> heap res" where
  "operator_delete_sized ptr len h = heap_Free ptr len h"

subsection \<open>Caches\<close>

text \<open>
  \<open>SwapCache\<close> exchanges a cache with the depot of its size class; caches change hands as values.
  \<open>vmms i\<close> is the memory manager's answer to the request of the \<open>i\<close>-th allocation. Locking a
  depot that is locked does not end.
\<close>

definition depot_Lock :: "nat \<Rightarrow> heap \<Rightarrow> heap res" where
  "depot_Lock i h =
     (if cd_locked (hp_depots h ! i) then Inl Diverges
      else Inr (h\<lparr> hp_depots := (hp_depots h)[i := (hp_depots h ! i)\<lparr> cd_locked := True \<rparr>] \<rparr>))"

definition depot_Unlock :: "nat \<Rightarrow> heap \<Rightarrow> heap" where
  "depot_Unlock i h = h\<lparr> hp_depots := (hp_depots h)[i := (hp_depots h ! i)\<lparr> cd_locked := False \<rparr>] \<rparr>"

definition upd_depot :: "nat \<Rightarrow> (cache_depot \<Rightarrow> cache_depot) \<Rightarrow> heap \<Rightarrow> heap" where
  "upd_depot i f h = h\<lparr> hp_depots := (hp_depots h)[i := f (hp_depots h ! i)] \<rparr>"

definition pop_cache :: "slab_cache list \<Rightarrow> slab_cache option \<times> slab_cache list" where
  "pop_cache cs = (case cs of [] \<Rightarrow> (None, []) | c # cs' \<Rightarrow> (Some c, cs'))"

definition new_cache :: "(size_t \<Rightarrow> size_t option) \<Rightarrow> heap \<Rightarrow> (slab_cache \<times> heap) res" where
  "new_cache vmm h =
     res_bind (operator_new vmm sizeof_SlabCache h) (\<lambda>(p, h1).
       if p = None then Inl Null_Deref
       else Inr (\<lparr> sc_count = 0, sc_ptrs = replicate SlabCacheSize None \<rparr>, h1))"

fun fill_cache ::
  "(nat \<Rightarrow> size_t \<Rightarrow> size_t option) \<Rightarrow> nat \<Rightarrow> nat list \<Rightarrow> slab_cache \<times> heap \<Rightarrow> (slab_cache \<times> heap) res" where
  "fill_cache vmms index [] (c, h) = Inr (c, h)"
| "fill_cache vmms index (i # is) (c, h) =
     res_bind (slab_Alloc (hp_flags h) (vmms i) (hp_mem h, hp_slabs h ! index)) (\<lambda>(p, m, sa).
       fill_cache vmms index is
         (c\<lparr> sc_ptrs := (sc_ptrs c)[i := p] \<rparr>, h\<lparr> hp_mem := m, hp_slabs := (hp_slabs h)[index := sa] \<rparr>))"

definition SwapCache_full ::
  "(nat \<Rightarrow> size_t \<Rightarrow> size_t option) \<Rightarrow> slab_cache option \<Rightarrow> nat \<Rightarrow> heap \<Rightarrow> (slab_cache \<times> heap) res" where
  "SwapCache_full vmms c index h =
     res_bind (depot_Lock index h) (\<lambda>h1.
       let h2 = (case c of None \<Rightarrow> h1 | Some e \<Rightarrow> upd_depot index (\<lambda>d. d\<lparr> cd_free := e # cd_free d \<rparr>) h1);
           (exchange, rest) = pop_cache (cd_full (hp_depots h2 ! index));
           h3 = depot_Unlock index (upd_depot index (\<lambda>d. d\<lparr> cd_full := rest \<rparr>) h2)
       in case exchange of
            Some e \<Rightarrow> Inr (e, h3)
          | None \<Rightarrow>
              res_bind (new_cache (vmms SlabCacheSize) h3) (\<lambda>(e, h4).
                fill_cache vmms index [0..<SlabCacheSize] (e\<lparr> sc_count := SlabCacheSize \<rparr>, h4)))"

definition SwapCache_empty ::
  "(nat \<Rightarrow> size_t \<Rightarrow> size_t option) \<Rightarrow> slab_cache \<Rightarrow> nat \<Rightarrow> heap \<Rightarrow> (slab_cache \<times> heap) res" where
  "SwapCache_empty vmms c index h =
     (if sc_count c \<noteq> SlabCacheSize then Inl Assert_Failed
      else res_bind (depot_Lock index h) (\<lambda>h1.
        let h2 = upd_depot index (\<lambda>d. d\<lparr> cd_full := c # cd_full d \<rparr>) h1;
            (exchange, rest) = pop_cache (cd_free (hp_depots h2 ! index))
        in res_bind (depot_Lock index (upd_depot index (\<lambda>d. d\<lparr> cd_free := rest \<rparr>) h2)) (\<lambda>h3.
             case exchange of
               Some e \<Rightarrow> Inr (e, h3)
             | None \<Rightarrow> new_cache (vmms SlabCacheSize) h3)))"

definition SwapCache ::
  "(nat \<Rightarrow> size_t \<Rightarrow> size_t option) \<Rightarrow> slab_cache option option \<Rightarrow> nat \<Rightarrow> heap \<Rightarrow>
     (bool \<times> slab_cache option option \<times> heap) res" where
  "SwapCache vmms ptr index h =
     (case ptr of
        None \<Rightarrow> Inr (False, ptr, h)
      | Some c \<Rightarrow>
          if SlabCount \<le> index then Inr (False, ptr, h)
          else res_bind
            (case c of
               None \<Rightarrow> SwapCache_full vmms c index h
             | Some e \<Rightarrow> if sc_count e = 0 then SwapCache_full vmms c index h else SwapCache_empty vmms e index h)
            (\<lambda>(e, h1). Inr (True, Some (Some e), h1)))"

text \<open>The caches of a core: per size class a full cache in front of an empty one.\<close>

record magazine =
  mg_loaded :: "slab_cache option"
  mg_prev :: slab_cache

fun create_magazines ::
  "(nat \<Rightarrow> nat \<Rightarrow> size_t \<Rightarrow> size_t option) \<Rightarrow> nat list \<Rightarrow> magazine list \<times> heap \<Rightarrow> (magazine list \<times> heap) res" where
  "create_magazines vmms [] (ms, h) = Inr (ms, h)"
| "create_magazines vmms (i # is) (ms, h) =
     res_bind (new_cache (vmms i (SlabCacheSize + 1)) h) (\<lambda>(prev, h1).
     res_bind (SwapCache (vmms i) (Some None) i h1) (\<lambda>(_, loaded, h2).
       create_magazines vmms is (ms @ [\<lparr> mg_loaded = Option.bind loaded id, mg_prev = prev\<lparr> sc_count := 0 \<rparr> \<rparr>], h2)))"

abbreviation sizeof_HeapCacheData :: size_t where
  "sizeof_HeapCacheData \<equiv> 120"

definition CreateLocalHeapCaches ::
  "bool \<Rightarrow> (size_t \<Rightarrow> size_t option) \<Rightarrow> (nat \<Rightarrow> nat \<Rightarrow> size_t \<Rightarrow> size_t option) \<Rightarrow> magazine list option \<Rightarrow> heap \<Rightarrow>
     (magazine list option \<times> heap) res" where
  "CreateLocalHeapCaches clsAvailable vmm vmms heapCache h =
     (if \<not> clsAvailable \<or> heapCache \<noteq> None then Inl Assert_Failed
      else res_bind (operator_new vmm sizeof_HeapCacheData h) (\<lambda>(p, h1).
        if p = None then Inl Null_Deref
        else res_bind (create_magazines vmms [0..<SlabCount] ([], h1)) (\<lambda>(ms, h2). Inr (Some ms, h2))))"

subsection \<open>Size classes\<close>

lemma class_double: "i < 58 \<Longrightarrow> sz_mul (32 * 2 ^ i) 2 = 32 * 2 ^ Suc i"
proof -
  assume "i < 58"
  then have "(2::nat) ^ Suc i \<le> 2 ^ 58" by (intro power_increasing) simp_all
  then show ?thesis by (subst sz_mul_eq) (simp_all add: size_limit_def)
qed

lemma slab_class_finds:
  assumes "bytes \<le> 2 ^ 63" and "i \<le> 58" and "\<forall>j < i. 32 * 2 ^ j < bytes"
  shows "\<exists>r. slab_class bytes (32 * 2 ^ i) i = Some r \<and> r \<le> 58 \<and> bytes \<le> 32 * 2 ^ r \<and> (\<forall>j < r. 32 * 2 ^ j < bytes)"
  using assms(2,3)
proof (induction "58 - i" arbitrary: i)
  case 0
  then have "i = 58" by simp
  moreover have "(32::nat) * 2 ^ 58 = 2 ^ 63" by simp
  ultimately show ?case using assms(1) "0.prems" by (subst slab_class.simps) (auto simp: not_less)
next
  case (Suc n)
  show ?case
  proof (cases "32 * 2 ^ i < bytes")
    case True
    have "i < 58" using Suc.hyps(2) by linarith
    moreover have "\<forall>j < Suc i. 32 * 2 ^ j < bytes" using True Suc.prems(2) by (simp add: less_Suc_eq)
    ultimately have "\<exists>r. slab_class bytes (32 * 2 ^ Suc i) (Suc i) = Some r \<and> r \<le> 58 \<and> bytes \<le> 32 * 2 ^ r \<and>
        (\<forall>j < r. 32 * 2 ^ j < bytes)"
      using Suc.hyps(2) by (intro Suc.hyps(1)) simp_all
    moreover have "slab_class bytes (32 * 2 ^ i) i = slab_class bytes (32 * 2 ^ Suc i) (Suc i)"
      using True class_double [OF \<open>i < 58\<close>] \<open>i < 58\<close>
      by (subst slab_class.simps) (simp add: sz_add_eq size_limit_def)
    ultimately show ?thesis by simp
  next
    case False
    then have "slab_class bytes (32 * 2 ^ i) i = Some i" by (subst slab_class.simps) simp
    with False Suc.prems show ?thesis by (auto simp: not_less)
  qed
qed

lemma pow_double: "(\<exists>k \<le> 63. c = 2 ^ k) \<or> c = 0 \<Longrightarrow> (\<exists>k \<le> 63. sz_mul c 2 = 2 ^ k) \<or> sz_mul c 2 = 0"
proof (elim disjE exE conjE)
  fix k
  assume k: "k \<le> 63" "c = 2 ^ k"
  show ?thesis
  proof (cases "k = 63")
    case True
    then show ?thesis using k by (simp add: sz_mul_def size_limit_def)
  next
    case False
    then have "(2::nat) ^ Suc k \<le> 2 ^ 63" using k(1) by (intro power_increasing) simp_all
    then have "sz_mul c 2 = 2 ^ Suc k" using k(2) by (subst sz_mul_eq) (simp_all add: size_limit_def)
    then show ?thesis using False k(1) by (intro disjI1 exI [of _ "Suc k"]) simp
  qed
qed (simp add: sz_mul_def)

lemma slab_class_bound:
  assumes "slab_class bytes c i = Some r" and "(\<exists>k \<le> 63. c = 2 ^ k) \<or> c = 0"
  shows "bytes \<le> 2 ^ 63"
proof -
  have "(\<exists>k \<le> 63. c = 2 ^ k) \<or> c = 0 \<longrightarrow> bytes \<le> 2 ^ 63"
  proof (rule slab_class.raw_induct [of "\<lambda>b c i r. (\<exists>k \<le> 63. c = 2 ^ k) \<or> c = 0 \<longrightarrow> b \<le> 2 ^ 63", OF _ assms(1)], rule impI)
    fix f b c i y
    assume IH: "\<And>b c i y. f b c i = Some y \<Longrightarrow> (\<exists>k \<le> 63. c = 2 ^ k) \<or> c = 0 \<longrightarrow> b \<le> (2::nat) ^ 63"
      and run: "(if c < b then f b (sz_mul c 2) (sz_add i 1) else Some i) = Some y"
      and c: "(\<exists>k \<le> 63. c = 2 ^ k) \<or> c = (0::nat)"
    have "c \<le> 2 ^ 63" using c by (metis power_increasing one_le_numeral zero_le)
    then show "b \<le> 2 ^ 63"
      using run IH [of b "sz_mul c 2"] pow_double [OF c] by (cases "c < b") auto
  qed
  with assms(2) show ?thesis by blast
qed

lemma slab_class_eq:
  assumes "0 < bytes" and "bytes \<le> 512"
  shows "\<exists>i < SlabCount. slab_class bytes SlabBaseSize 0 = Some i \<and> bytes \<le> 32 * 2 ^ i"
proof -
  obtain r where r: "slab_class bytes (32 * 2 ^ 0) 0 = Some r" "bytes \<le> 32 * 2 ^ r" "\<forall>j < r. 32 * 2 ^ j < bytes"
    using slab_class_finds [of bytes 0] assms by auto
  have "r < 5"
  proof (rule ccontr)
    assume "\<not> r < 5"
    then have "32 * 2 ^ 4 < bytes" by (intro r(3) [rule_format]) simp
    with assms(2) show False by simp
  qed
  with r show ?thesis by auto
qed

text \<open>The search for a size class ends exactly for sizes up to \<open>2 ^ 63\<close>, and then with the first
  class that holds the size. For a larger size the counter wraps to zero and \<open>Alloc\<close> and
  \<open>Free\<close> never return.
\<close>

lemma heap_size_class:
  assumes "bytes < size_limit"
  shows "if bytes \<le> 2 ^ 63
    then \<exists>i \<le> 58. slab_class bytes SlabBaseSize 0 = Some i \<and> bytes \<le> 32 * 2 ^ i \<and> (\<forall>j < i. 32 * 2 ^ j < bytes)
    else slab_class bytes SlabBaseSize 0 = None \<and> heap_Alloc vmm bytes h = Inl Diverges \<and>
      heap_Free (Some p) bytes h = Inl Diverges"
proof (cases "bytes \<le> 2 ^ 63")
  case True
  then show ?thesis using slab_class_finds [of bytes 0] by auto
next
  case False
  have "\<exists>k \<le> 63. SlabBaseSize = 2 ^ k" by (intro exI [of _ 5]) simp
  then have "slab_class bytes SlabBaseSize 0 = None"
    using False slab_class_bound [of bytes SlabBaseSize 0] by (cases "slab_class bytes SlabBaseSize 0") auto
  with False show ?thesis by (simp add: heap_Alloc_def heap_Free_def)
qed

lemma heap_size_class_example:
  "(\<exists>i \<le> 58. slab_class 513 SlabBaseSize 0 = Some i \<and> (513::nat) \<le> 32 * 2 ^ i \<and> (\<forall>j < i. 32 * 2 ^ j < (513::nat))) \<and>
   slab_class (2 ^ 63 + 1) SlabBaseSize 0 = None"
  using heap_size_class [of 513] heap_size_class [of "2 ^ 63 + 1"] by (simp add: size_limit_def)

subsection \<open>The heap as an allocator of blocks\<close>

definition heap_spaces :: "heap \<Rightarrow> size_t set" where
  "heap_spaces h = (\<Union>i < SlabCount. slab_space (hp_slabs h ! i))"

definition heap_inv :: "heap \<Rightarrow> (nat \<Rightarrow> size_t set) \<Rightarrow> bool" where
  "heap_inv h F \<longleftrightarrow>
     length (hp_slabs h) = SlabCount \<and> \<not> trashAfterUse (hp_flags h) \<and>
     (\<forall>i < SlabCount. sa_slabSize (hp_slabs h ! i) = 32 * 2 ^ i \<and> slab_totalSize (hp_slabs h ! i) \<le> 0x8000 \<and>
        slab_rel (hp_flags h) (hp_mem h, hp_slabs h ! i) (F i)) \<and>
     (\<forall>i < SlabCount. \<forall>j < SlabCount. i \<noteq> j \<longrightarrow> slab_space (hp_slabs h ! i) \<inter> slab_space (hp_slabs h ! j) = {})"

text \<open>
  The memory manager during a run: its answer to the \<open>k\<close>-th request, given what the heap has got from it so far and the size that
  is asked for. What the heap relies on is that the answer to a request for \<open>n\<close> bytes is the start of \<open>n\<close> bytes it has not got before.
\<close>

type_synonym heap_vmm = "nat \<Rightarrow> size_t set \<Rightarrow> size_t \<Rightarrow> size_t option"

definition vmm_fresh :: "heap_vmm \<Rightarrow> bool" where
  "vmm_fresh vmm \<longleftrightarrow> (\<forall>k used n b. vmm k used n = Some b \<longrightarrow> {b ..< b + n} \<inter> used = {})"

text \<open>A step of one slab allocator that stays in its own space keeps the other ones.\<close>

lemma heap_inv_step:
  assumes inv: "heap_inv h F" and i: "i < SlabCount"
    and sa: "sa' = (hp_slabs h ! i)\<lparr> sa_segments := segs \<rparr>"
    and rel: "slab_rel (hp_flags h) (m', sa') F'"
    and space: "slab_space sa' \<subseteq> slab_space (hp_slabs h ! i) \<union> R" and R: "R \<inter> heap_spaces h = {}"
    and frame: "\<forall>a. a \<notin> slab_space (hp_slabs h ! i) \<union> R \<longrightarrow> sm_hooks m' a = sm_hooks (hp_mem h) a"
  shows "heap_inv (h\<lparr> hp_mem := m', hp_slabs := (hp_slabs h)[i := sa'] \<rparr>) (F(i := F'))"
proof -
  let ?sl = "\<lambda>k. (hp_slabs h)[i := sa'] ! k"
  have len: "length (hp_slabs h) = SlabCount" using inv by (simp add: heap_inv_def)
  have others: "slab_space (hp_slabs h ! k) \<inter> (slab_space (hp_slabs h ! i) \<union> R) = {}" if "k < SlabCount" "k \<noteq> i" for k
    using inv i that R unfolding heap_inv_def heap_spaces_def by blast
  have one: "sa_slabSize (?sl k) = 32 * 2 ^ k \<and> slab_totalSize (?sl k) \<le> 0x8000 \<and>
      slab_rel (hp_flags h) (m', ?sl k) ((F(i := F')) k)" if k: "k < SlabCount" for k
  proof (cases "k = i")
    case True
    with inv i len rel show ?thesis by (simp add: heap_inv_def sa)
  next
    case False
    have old: "slab_rel (hp_flags h) (hp_mem h, hp_slabs h ! k) (F k)" using inv k by (simp add: heap_inv_def)
    then have "F k \<subseteq> slab_space (hp_slabs h ! k)"
      using slab_rel_slots [OF old] all_slots_space [of "hp_flags h" "hp_slabs h ! k"] by (auto simp: slab_rel_def)
    then have "\<forall>a \<in> F k. sm_hooks m' a = sm_hooks (hp_mem h) a" using others [OF k False] frame by blast
    from slab_rel_frame [OF old this] inv k False show ?thesis by (simp add: heap_inv_def)
  qed
  have two: "slab_space (?sl k) \<inter> slab_space (?sl l) = {}" if "k < SlabCount" "l < SlabCount" "k \<noteq> l" for k l
  proof -
    consider "k = i" | "l = i" | "k \<noteq> i" "l \<noteq> i" by blast
    then show ?thesis
    proof cases
      case 1
      with others [of l] that space len i show ?thesis by auto
    next
      case 2
      with others [of k] that space len i show ?thesis by auto
    next
      case 3
      with inv that show ?thesis by (simp add: heap_inv_def)
    qed
  qed
  show ?thesis using inv len one two unfolding heap_inv_def by simp
qed

type_synonym heap_run = "nat \<times> heap"

definition heap_block :: "heap \<Rightarrow> (nat \<Rightarrow> size_t set) \<Rightarrow> size_t \<times> size_t \<Rightarrow> bool" where
  "heap_block h F b \<longleftrightarrow> 0 < snd b \<and> snd b \<le> 512 \<and>
     (\<exists>i < SlabCount. slab_class (snd b) SlabBaseSize 0 = Some i \<and> snd b \<le> 32 * 2 ^ i \<and>
        fst b \<in> all_slots (hp_flags h) (hp_slabs h ! i) - F i)"

definition heap_live :: "heap_vmm \<Rightarrow> heap_run \<Rightarrow> (size_t \<times> size_t) set \<Rightarrow> bool" where
  "heap_live vmm s L \<longleftrightarrow>
     vmm_fresh vmm \<and> inj_on fst L \<and> (\<exists>F. heap_inv (snd s) F \<and> (\<forall>b \<in> L. heap_block (snd s) F b))"

definition heap_next :: "heap_vmm \<Rightarrow> size_t \<Rightarrow> heap_run \<Rightarrow> (size_t option \<times> heap_run) res" where
  "heap_next vmm n s =
     (case s of (k, h) \<Rightarrow>
       res_bind (heap_Alloc (vmm k (heap_spaces h)) n h) (\<lambda>(p, h1). Inr (p, Suc k, h1)))"

definition heap_back :: "size_t \<Rightarrow> size_t \<Rightarrow> heap_run \<Rightarrow> (bool \<times> heap_run) res" where
  "heap_back n p s =
     (case s of (k, h) \<Rightarrow> res_bind (heap_Free (Some p) n h) (\<lambda>h1. Inr (True, k, h1)))"

lemma heap_rel:
  "heap_inv h F \<Longrightarrow> i < SlabCount \<Longrightarrow> slab_rel (hp_flags h) (hp_mem h, hp_slabs h ! i) (F i)"
  by (simp add: heap_inv_def)

lemma heap_geom: "heap_inv h F \<Longrightarrow> i < SlabCount \<Longrightarrow> slab_geom (hp_flags h) (hp_slabs h ! i)"
  using heap_rel [of h F i] by (simp add: slab_rel_def)

lemma heap_slot_space:
  assumes "heap_inv h F" and "i < SlabCount" and "p \<in> all_slots (hp_flags h) (hp_slabs h ! i)"
  shows "p \<in> slab_space (hp_slabs h ! i)"
  using all_slots_space [OF heap_geom [OF assms(1,2)]] assms(3) by blast

text \<open>The blocks that stay live over a step of class \<open>i\<close>.\<close>

lemma heap_block_step:
  assumes "heap_block h F b" and "length (hp_slabs h) = SlabCount"
    and "all_slots (hp_flags h) (hp_slabs h ! i) \<subseteq> all_slots (hp_flags h) sa'"
    and "fst b \<in> all_slots (hp_flags h) (hp_slabs h ! i) - F i \<Longrightarrow> fst b \<notin> F'"
  shows "heap_block (h\<lparr> hp_mem := m', hp_slabs := (hp_slabs h)[i := sa'] \<rparr>) (F(i := F')) b"
proof -
  from assms(1) obtain k where k: "k < SlabCount" "slab_class (snd b) SlabBaseSize 0 = Some k"
      "snd b \<le> 32 * 2 ^ k" "fst b \<in> all_slots (hp_flags h) (hp_slabs h ! k) - F k" "0 < snd b" "snd b \<le> 512"
    unfolding heap_block_def by blast
  have "fst b \<in> all_slots (hp_flags h) ((hp_slabs h)[i := sa'] ! k) - (F(i := F')) k"
  proof (cases "k = i")
    case True
    then show ?thesis using k(1,4) assms(2-4) by auto
  qed (use k(4) in simp)
  with k show ?thesis unfolding heap_block_def by auto
qed

lemma heap_Alloc_class:
  "0 < n \<Longrightarrow> slab_class n SlabBaseSize 0 = Some i \<Longrightarrow> i < SlabCount \<Longrightarrow> heap_Alloc vmm n h =
    res_bind (slab_Alloc (hp_flags h) vmm (hp_mem h, hp_slabs h ! i)) (\<lambda>(p, m, sa).
      Inr (p, h\<lparr> hp_mem := m, hp_slabs := (hp_slabs h)[i := sa] \<rparr>))"
  by (simp add: heap_Alloc_def DoSlabAlloc_def)

text \<open>A slab allocation that takes \<open>p\<close> from class \<open>i\<close> is an allocation of the heap.\<close>

lemma heap_live_take:
  assumes live: "vmm_fresh vmm" "inj_on fst L" "heap_inv h F" "\<forall>b \<in> L. heap_block h F b"
    and n: "0 < n" "n \<le> 512" "slab_class n SlabBaseSize 0 = Some i" "i < SlabCount" "n \<le> 32 * 2 ^ i"
    and run: "slab_Alloc (hp_flags h) (vmm k (heap_spaces h)) (hp_mem h, hp_slabs h ! i) = Inr (Some p, m', sa')"
    and sa: "sa' = (hp_slabs h ! i)\<lparr> sa_segments := segs \<rparr>" "seg_bases sa' = seg_bases (hp_slabs h ! i) @ bs"
    and rel: "slab_rel (hp_flags h) (m', sa') F'"
    and p: "p \<in> all_slots (hp_flags h) sa' - F'" "p \<in> F i \<or> p \<notin> heap_spaces h"
    and F': "F' \<inter> all_slots (hp_flags h) (hp_slabs h ! i) \<subseteq> F i"
    and R: "R = (\<Union>b \<in> set bs. seg_range (hp_slabs h ! i) b)" "R \<inter> heap_spaces h = {}"
    and frame: "\<forall>a. a \<notin> slab_space (hp_slabs h ! i) \<union> R \<longrightarrow> sm_hooks m' a = sm_hooks (hp_mem h) a"
  shows "\<exists>s'. heap_next vmm n (k, h) = Inr (Some p, s') \<and> p \<notin> fst ` L \<and> heap_live vmm s' (insert (p, n) L)"
proof -
  let ?h = "h\<lparr> hp_mem := m', hp_slabs := (hp_slabs h)[i := sa'] \<rparr>"
  have len: "length (hp_slabs h) = SlabCount" using live(3) by (simp add: heap_inv_def)
  have space: "slab_space sa' \<subseteq> slab_space (hp_slabs h ! i) \<union> R"
    using slab_same_bases(2) [OF sa] R(1) by (auto simp: slab_space_def)
  have inv: "heap_inv ?h (F(i := F'))" using heap_inv_step [OF live(3) n(4) sa(1) rel space R(2) frame] .
  have "all_slots (hp_flags h) (hp_slabs h ! i) \<subseteq> all_slots (hp_flags h) sa'"
    using slab_same_bases(1) [OF sa] by (auto simp: all_slots_def)
  then have old: "\<forall>b \<in> L. heap_block ?h (F(i := F')) b"
    using heap_block_step [OF _ len] live(4) F' by blast
  have "p \<noteq> fst b" if b: "b \<in> L" for b
  proof -
    from live(4) b obtain k where k: "k < SlabCount" "fst b \<in> all_slots (hp_flags h) (hp_slabs h ! k) - F k"
      unfolding heap_block_def by blast
    have "fst b \<in> slab_space (hp_slabs h ! k)" using heap_slot_space [OF live(3) k(1)] k(2) by blast
    moreover have "p \<in> slab_space (hp_slabs h ! i)" if "p \<in> F i"
      using heap_slot_space [OF live(3) n(4)] slab_rel_slots [OF heap_rel [OF live(3) n(4)]] that by blast
    ultimately show ?thesis using p(2) k live(3) n(4) unfolding heap_inv_def heap_spaces_def by blast
  qed
  then have new: "p \<notin> fst ` L" by blast
  have "heap_block ?h (F(i := F')) (p, n)" using n p(1) len unfolding heap_block_def by auto
  with inv old new live(1,2) have "heap_live vmm (Suc k, ?h) (insert (p, n) L)"
    unfolding heap_live_def by auto
  with new run heap_Alloc_class [OF n(1,3,4)] show ?thesis by (simp add: heap_next_def)
qed

lemma heap_live_alloc:
  assumes "heap_live vmm s L" and "0 < n \<and> n \<le> 512"
  shows "(\<exists>s'. heap_next vmm n s = Inr (None, s') \<and> heap_live vmm s' L) \<or>
    (\<exists>p s'. heap_next vmm n s = Inr (Some p, s') \<and> p \<notin> fst ` L \<and> heap_live vmm s' (insert (p, n) L))"
proof -
  obtain k h where s: "s = (k, h)" by (cases s)
  from assms(1) obtain F where live: "vmm_fresh vmm" "inj_on fst L" "heap_inv h F" "\<forall>b \<in> L. heap_block h F b"
    unfolding heap_live_def s by auto
  obtain i where n: "0 < n" "n \<le> 512" "slab_class n SlabBaseSize 0 = Some i" "i < SlabCount" "n \<le> 32 * 2 ^ i"
    using slab_class_eq assms(2) by blast
  let ?sa = "hp_slabs h ! i" and ?fl = "hp_flags h" and ?v = "vmm k (heap_spaces h)"
  have rel: "slab_rel ?fl (hp_mem h, ?sa) (F i)" using heap_rel [OF live(3) n(4)] .
  have sub: "slab_space ?sa \<subseteq> heap_spaces h" using n(4) unfolding heap_spaces_def by blast
  note take = heap_live_take [OF live n]
  show ?thesis
  proof (cases "F i = {}")
    case False
    obtain p m' sa' segs where a: "slab_Alloc ?fl ?v (hp_mem h, ?sa) = Inr (Some p, m', sa')" "p \<in> F i"
        "slab_rel ?fl (m', sa') (F i - {p})" "sa' = ?sa\<lparr> sa_segments := segs \<rparr>" "seg_bases sa' = seg_bases ?sa @ []"
        "\<forall>a. a \<notin> slab_space ?sa \<union> {} \<longrightarrow> sm_hooks m' a = sm_hooks (hp_mem h) a"
      using slab_Alloc_reuse [OF rel False, of ?v] by auto
    have "all_slots ?fl sa' = all_slots ?fl ?sa" using slab_same_bases(1) [OF a(4,5)] by (simp add: all_slots_def)
    then have "p \<in> all_slots ?fl sa' - (F i - {p})" using slab_rel_slots [OF rel] a(2) by blast
    moreover have "(F i - {p}) \<inter> all_slots ?fl ?sa \<subseteq> F i" by blast
    ultimately show ?thesis using take [OF a(1,4,5,3) _ _ _ _ _ a(6)] a(2) unfolding s by auto
  next
    case True
    show ?thesis
    proof (cases "?v (slab_totalSize ?sa)")
      case None
      have "slab_Alloc ?fl ?v (hp_mem h, ?sa) = Inr (None, hp_mem h, ?sa)"
        using rel True None by (intro slab_Alloc_empty) simp_all
      then have "heap_next vmm n s = Inr (None, Suc k, h)"
        using heap_Alloc_class [OF n(1,3,4)] by (simp add: s heap_next_def)
      then show ?thesis using live unfolding heap_live_def by auto
    next
      case (Some b)
      have free: "seg_range ?sa b \<inter> heap_spaces h = {}"
        using live(1) Some unfolding vmm_fresh_def seg_range_def by blast
      then have fresh: "seg_range ?sa b \<inter> slab_space ?sa = {}" using sub by blast
      obtain p m' sa' segs where a: "slab_Alloc ?fl ?v (hp_mem h, ?sa) = Inr (Some p, m', sa')"
          "p \<in> slots ?fl ?sa b" "slab_rel ?fl (m', sa') (slots ?fl ?sa b - {p})" "sa' = ?sa\<lparr> sa_segments := segs \<rparr>"
          "seg_bases sa' = seg_bases ?sa @ [b]" "\<forall>a. a \<notin> seg_range ?sa b \<longrightarrow> sm_hooks m' a = sm_hooks (hp_mem h) a"
        using slab_Alloc_grow [where vmm = ?v, OF rel [unfolded True] Some fresh] by blast
      have slots: "slots ?fl ?sa b \<subseteq> seg_range ?sa b" using slots_range [OF heap_geom [OF live(3) n(4)]] .
      have "p \<in> all_slots ?fl sa' - (slots ?fl ?sa b - {p})"
        using slab_same_bases(1) [OF a(4,5)] a(2) by auto
      moreover have "p \<notin> heap_spaces h" using a(2) slots free by blast
      moreover have "(slots ?fl ?sa b - {p}) \<inter> all_slots ?fl ?sa \<subseteq> F i"
        using slots all_slots_space [OF heap_geom [OF live(3) n(4)]] fresh by blast
      ultimately show ?thesis
        using take [OF a(1,4,5,3) _ _ _ refl] free a(6) unfolding s by auto
    qed
  qed
qed

lemma heap_live_free:
  assumes "heap_live vmm s L" and "(p, n) \<in> L"
  shows "\<exists>s'. heap_back n p s = Inr (True, s') \<and> heap_live vmm s' (L - {(p, n)})"
proof -
  obtain k h where s: "s = (k, h)" by (cases s)
  from assms(1) obtain F where live: "vmm_fresh vmm" "inj_on fst L" "heap_inv h F" "\<forall>b \<in> L. heap_block h F b"
    unfolding heap_live_def s by auto
  from live(4) assms(2) have "heap_block h F (p, n)" by blast
  then obtain i where n: "slab_class n SlabBaseSize 0 = Some i" "i < SlabCount"
      "p \<in> all_slots (hp_flags h) (hp_slabs h ! i)" "p \<notin> F i"
    unfolding heap_block_def by auto
  let ?sa = "hp_slabs h ! i" and ?fl = "hp_flags h"
  have len: "length (hp_slabs h) = SlabCount" and trash: "\<not> trashAfterUse ?fl"
    using live(3) by (simp_all add: heap_inv_def)
  obtain m' sa' segs where a: "slab_Free ?fl p (hp_mem h, ?sa) = Inr (True, m', sa')"
      "slab_rel ?fl (m', sa') (insert p (F i))" "sa' = ?sa\<lparr> sa_segments := segs \<rparr>" "seg_bases sa' = seg_bases ?sa"
      "\<forall>a. a \<notin> slab_space ?sa \<union> {} \<longrightarrow> sm_hooks m' a = sm_hooks (hp_mem h) a"
    using slab_Free_own [OF heap_rel [OF live(3) n(2)] n(3,4) trash] by auto
  let ?h = "h\<lparr> hp_mem := m', hp_slabs := (hp_slabs h)[i := sa'] \<rparr>"
  have same: "slab_space sa' \<subseteq> slab_space ?sa \<union> {}" "all_slots ?fl ?sa \<subseteq> all_slots ?fl sa'"
    using slab_same_bases(1,2) [OF a(3,4)] by (auto simp: slab_space_def all_slots_def)
  have "heap_inv ?h (F(i := insert p (F i)))"
    using heap_inv_step [OF live(3) n(2) a(3,2) same(1) _ a(5)] by simp
  moreover have "heap_block ?h (F(i := insert p (F i))) b" if b: "b \<in> L - {(p, n)}" for b
  proof -
    have "fst b \<noteq> p" using inj_onD [OF live(2), of b "(p, n)"] b assms(2) by auto
    then show ?thesis using heap_block_step [OF _ len same(2)] live(4) b by blast
  qed
  ultimately have "heap_live vmm (k, ?h) (L - {(p, n)})"
    using live(1) inj_on_subset [OF live(2), of "L - {(p, n)}"]
    unfolding heap_live_def by (auto intro!: exI [of _ "F(i := insert p (F i))"])
  moreover have "heap_Free (Some p) n h = Inr ?h" using n(1,2) a(1) by (simp add: heap_Free_def DoSlabFree_def)
  ultimately show ?thesis by (simp add: s heap_back_def)
qed

interpretation kheap: block_source "heap_live vmm" "\<lambda>n. 0 < n \<and> n \<le> 512" "heap_next vmm" heap_back for vmm
  by unfold_locales (rule heap_live_alloc, assumption, assumption, rule heap_live_free)

subsection \<open>The heap after Init\<close>

definition heap_zero :: "heap \<Rightarrow> bool" where
  "heap_zero h \<longleftrightarrow> length (hp_slabs h) = SlabCount \<and> (\<forall>sa \<in> set (hp_slabs h). sa_segments sa = [])"

lemma double_swap: "((\<lambda>x. sz_mul x 2) ^^ n) (sz_mul c 2) = sz_mul (((\<lambda>x. sz_mul x 2) ^^ n) c) 2"
  by (induction n) simp_all

lemma init_slabs_nth:
  "i < length sls \<Longrightarrow> init_slabs sls sz cnt ! i = slab_Init (((\<lambda>x. sz_mul x 2) ^^ i) sz) cnt (sls ! i)"
  "length (init_slabs sls sz cnt) = length sls"
  by (induction sls arbitrary: i sz) (auto simp: nth_Cons double_swap split: nat.split)

lemma class_double_pow: "i \<le> 58 \<Longrightarrow> ((\<lambda>x. sz_mul x 2) ^^ i) 32 = 32 * 2 ^ i"
  by (induction i) (simp_all add: class_double)

lemma slab_class_geom:
  assumes "i < SlabCount" and "sa_segments sa = []"
  shows "slab_geom fl (slab_Init (32 * 2 ^ i) 64 sa) \<and> slab_totalSize (slab_Init (32 * 2 ^ i) 64 sa) \<le> 0x8000 \<and>
    sa_slabSize (slab_Init (32 * 2 ^ i) 64 sa) = 32 * 2 ^ i \<and> slab_space (slab_Init (32 * 2 ^ i) 64 sa) = {} \<and>
    slab_rel fl (m, slab_Init (32 * 2 ^ i) 64 sa) {}"
proof -
  have "i \<in> {0, 1, 2, 3, 4}" using assms(1) by auto
  then have "slab_geom fl (slab_Init (32 * 2 ^ i) 64 sa) \<and> slab_totalSize (slab_Init (32 * 2 ^ i) 64 sa) \<le> 0x8000 \<and>
      sa_slabSize (slab_Init (32 * 2 ^ i) 64 sa) = 32 * 2 ^ i"
    by (elim insertE emptyE; cases "doBoundsCheck fl"; simp add: slab_eval)
  moreover have "sa_segments (slab_Init (32 * 2 ^ i) 64 sa) = []" using assms(2) by (simp add: slab_Init_def)
  ultimately show ?thesis by (simp add: slab_rel_def seg_bases_def apart_bases_def slab_space_def)
qed

lemma heap_Init_inv:
  assumes "heap_Init cmdline st h0 = Inr (h, st')" and "heap_zero h0" and "\<not> trashAfterUse (hp_flags h)"
  shows "heap_inv h (\<lambda>_. {})" "heap_spaces h = {}"
proof -
  have slabs: "hp_slabs h = init_slabs (hp_slabs h0) SlabBaseSize 64"
    using assms(1) by (auto simp: heap_Init_def res_bind_Inr Let_def case_prod_beta)
  have nth: "hp_slabs h ! i = slab_Init (32 * 2 ^ i) 64 (hp_slabs h0 ! i)" if "i < SlabCount" for i
    using that assms(2) by (simp add: slabs init_slabs_nth class_double_pow heap_zero_def)
  have seg: "sa_segments (hp_slabs h0 ! i) = []" if "i < SlabCount" for i
    using that assms(2) by (auto simp: heap_zero_def)
  note geom = slab_class_geom [OF _ seg]
  have "length (hp_slabs h) = SlabCount" using assms(2) by (simp add: slabs init_slabs_nth(2) heap_zero_def)
  with assms(3) show "heap_inv h (\<lambda>_. {})" unfolding heap_inv_def using nth geom by auto
  show "heap_spaces h = {}" unfolding heap_spaces_def using nth geom by auto
qed

text \<open>Blocks that are live at the same time do not overlap.\<close>

lemma heap_blocks_disjoint:
  assumes "heap_inv h F" and "heap_block h F (p, n)" and "heap_block h F (q, k)" and "p \<noteq> q"
  shows "{p ..< p + n} \<inter> {q ..< q + k} = {}"
proof -
  obtain i where i: "i < SlabCount" "n \<le> 32 * 2 ^ i" "p \<in> all_slots (hp_flags h) (hp_slabs h ! i)"
    using assms(2) unfolding heap_block_def by auto
  obtain j where j: "j < SlabCount" "k \<le> 32 * 2 ^ j" "q \<in> all_slots (hp_flags h) (hp_slabs h ! j)"
    using assms(3) unfolding heap_block_def by auto
  have size: "sa_slabSize (hp_slabs h ! l) = 32 * 2 ^ l" if "l < SlabCount" for l
    using assms(1) that by (simp add: heap_inv_def)
  have sub: "{p ..< p + n} \<subseteq> {p ..< p + sa_slabSize (hp_slabs h ! i)}" "{q ..< q + k} \<subseteq> {q ..< q + sa_slabSize (hp_slabs h ! j)}"
    using i j size by auto
  show ?thesis
  proof (cases "i = j")
    case True
    with all_slots_apart [OF heap_rel [OF assms(1) i(1)] i(3), of q] j(3) assms(4) sub show ?thesis by blast
  next
    case False
    then have "slab_space (hp_slabs h ! i) \<inter> slab_space (hp_slabs h ! j) = {}"
      using assms(1) i(1) j(1) by (simp add: heap_inv_def)
    with all_slots_inside [OF heap_geom [OF assms(1) i(1)] i(3)] all_slots_inside [OF heap_geom [OF assms(1) j(1)] j(3)] sub
    show ?thesis by blast
  qed
qed

text \<open>C6: on a heap after \<open>Init\<close>, without \<open>trash_after_use\<close>, a client may allocate blocks of 1 to 512
  bytes and free the ones it holds, in any order and with any mix of sizes: no call faults, and the
  blocks it holds are pairwise disjoint over their whole size. The memory manager may answer each request as it likes,
  with nothing or with any place where the bytes that were asked for do not overlap what it gave to the heap before.
\<close>

theorem heap_blocks_apart:
  assumes "heap_Init cmdline st h0 = Inr (h, st')" and "heap_zero h0" and "\<not> trashAfterUse (hp_flags h)"
    and "vmm_fresh vmm" and "\<forall>n \<in> op_sizes ops. 0 < n \<and> n \<le> 512"
  shows "\<exists>held s'. run_blocks (heap_next vmm) heap_back ops ([], 0, h) = Inr (held, s') \<and> distinct (map fst held) \<and>
    (\<forall>(p, n) \<in> set held. \<forall>(q, k) \<in> set held. p \<noteq> q \<longrightarrow> {p ..< p + n} \<inter> {q ..< q + k} = {})"
proof -
  have "heap_live vmm (0, h) (set [])"
    using heap_Init_inv [OF assms(1-3)] assms(4) unfolding heap_live_def by auto
  then obtain held k' h' where run: "run_blocks (heap_next vmm) heap_back ops ([], 0, h) = Inr (held, k', h')"
      "distinct (map fst held)" "heap_live vmm (k', h') (set held)"
    using kheap.run_ok [of vmm "(0, h)" "[]" ops] assms(5) by auto
  from run(3) obtain F where F: "heap_inv h' F" "\<forall>b \<in> set held. heap_block h' F b" unfolding heap_live_def by auto
  have "{p ..< p + n} \<inter> {q ..< q + k} = {}" if "(p, n) \<in> set held" "(q, k) \<in> set held" "p \<noteq> q" for p n q k
    using heap_blocks_disjoint [OF F(1)] F(2) that by blast
  with run(1,2) show ?thesis by blast
qed

definition plain_heap :: heap where
  "plain_heap = \<lparr> hp_flags = plain_flags, hp_mem = blank_mem,
     hp_slabs = replicate SlabCount \<lparr> sa_segments = [], sa_slabSize = 0, sa_slabsPerSeg = 0 \<rparr>,
     hp_depots = replicate SlabCount \<lparr> cd_full = [], cd_free = [], cd_locked = False \<rparr>,
     hp_pool = \<lparr> pa_nodes = (\<lambda>_. \<lparr> pn_prev = None, pn_next = None, pn_parent = 0, pn_length = 0 \<rparr>),
                 pa_regions = [], minAllocSize = 0 \<rparr> \<rparr>"

lemma plain_heap_Init: "\<exists>h. heap_Init [] 0 plain_heap = Inr (h, 0) \<and> hp_flags h = plain_flags"
proof -
  have "config_bool [] k = Inr False" if "k \<noteq> []" "last k \<noteq> NUL" for k
    using that by (simp add: config_bool_def GetConfigNumber_def GetConfig_def GetConfig_loop.simps)
  then show ?thesis by (simp add: heap_Init_def plain_flags_def Let_def)
qed

text \<open>A memory manager that hands out whole pages, the first that fit.\<close>

definition first_fit_vmm :: heap_vmm where
  "first_fit_vmm k used n = find (\<lambda>b. {b ..< b + n} \<inter> used = {}) (map (\<lambda>j. 0x10000 + 0x1000 * j) [0..<1024])"

lemma first_fit_fresh: "vmm_fresh first_fit_vmm"
  by (auto simp: vmm_fresh_def first_fit_vmm_def find_Some_iff)

theorem heap_blocks_apart_witness:
  "\<exists>h held s'. heap_Init [] 0 plain_heap = Inr (h, 0) \<and>
     run_blocks (heap_next first_fit_vmm) heap_back [Take 20, Take 500, Take 128, Give 0, Take 64] ([], 0, h) = Inr (held, s') \<and>
     (\<forall>(p, n) \<in> set held. \<forall>(q, k) \<in> set held. p \<noteq> q \<longrightarrow> {p ..< p + n} \<inter> {q ..< q + k} = {})"
proof -
  obtain h where h: "heap_Init [] 0 plain_heap = Inr (h, 0)" "hp_flags h = plain_flags" using plain_heap_Init by blast
  have z: "heap_zero plain_heap" by (simp add: heap_zero_def plain_heap_def)
  have t: "\<not> trashAfterUse (hp_flags h)" using h(2) by (simp add: plain_flags_def)
  have o: "\<forall>n \<in> op_sizes [Take 20, Take 500, Take 128, Give 0, Take 64]. 0 < n \<and> n \<le> 512" by (simp add: op_sizes_def)
  from heap_blocks_apart [OF h(1) z t first_fit_fresh o] h(1) show ?thesis by blast
qed

text \<open>
  Exchanging a full cache locks the depot a second time instead of unlocking it, so it never returns.
\<close>

lemma SwapCache_full_deadlocks:
  assumes "index < SlabCount" and "length (hp_depots h) = SlabCount" and "\<not> cd_locked (hp_depots h ! index)"
    and "sc_count c = SlabCacheSize"
  shows "SwapCache vmms (Some (Some c)) index h = Inl Diverges"
  using assms by (simp add: SwapCache_def SwapCache_empty_def depot_Lock_def upd_depot_def split: prod.split)

end
