(* ===== verification/Io_Manager.thy ===== *)
theory Io_Manager
  imports Kernel_Prelude
begin

text \<open>
  \<open>kernel/io/IoManager.cpp\<close>: I/O packets that travel down a stack of drivers and back. The
  drivers' \<open>begin_op\<close> and \<open>end_op\<close> callbacks and the contexts they change are parameters; the
  calls are recorded in \<open>iop_trace\<close>. The loop of \<open>End\<close> may not end, which is \<open>None\<close>.
\<close>

subsection \<open>Packets\<close>

datatype iop_call = Begin_Op nat bool | End_Op nat bool

text \<open>The nodes of the device stack the driver manager returns, from the top.\<close>

datatype ('d, 'a) stack_node =
    Descriptor_Node 'd
  | Instance_Node "'a option"
  | Other_Node

record ('d, 'a) iop_frame =
  fr_api :: 'a
  fr_descriptor :: "'d option"

record ('d, 'a, 'c) io_packet =
  iop_frames :: "('d, 'a) iop_frame list"
  iop_context :: 'c
  nextIndex :: size_t
  directionMod :: int
  iop_failure :: bool
  iop_complete :: bool
  iop_trace :: "iop_call list"

fun collect_frames ::
  "('d, 'a) stack_node option list \<Rightarrow> 'd option \<Rightarrow> ('d, 'a) iop_frame list \<Rightarrow> ('d, 'a) iop_frame list option" where
  "collect_frames [] desc frames = Some frames"
| "collect_frames (None # rest) desc frames = None"
| "collect_frames (Some (Descriptor_Node d) # rest) desc frames = collect_frames rest (Some d) frames"
| "collect_frames (Some Other_Node # rest) desc frames = collect_frames rest desc frames"
| "collect_frames (Some (Instance_Node transport) # rest) desc frames =
     (case transport of
        None \<Rightarrow> Some frames
      | Some api \<Rightarrow> collect_frames rest None (frames @ [\<lparr> fr_api = api, fr_descriptor = desc \<rparr>]))"

text \<open>
  An empty stack and an invalid handle in it fail validation (\<open>Inr None\<close>); a stack without a
  driver that has a transport leaves no frame for the caller's buffer.
\<close>

definition iop_Begin ::
  "('d, 'a) stack_node option list \<Rightarrow> 'c \<Rightarrow> (('d, 'a, 'c) io_packet option) res" where
  "iop_Begin deviceStack context =
     (if deviceStack = [] then Inr None
      else case collect_frames deviceStack None [] of
             None \<Rightarrow> Inr None
           | Some frames \<Rightarrow>
               if frames = [] then Inl Bad_Index
               else Inr (Some \<lparr> iop_frames = frames, iop_context = context, nextIndex = 0, directionMod = 1,
                                iop_failure = False, iop_complete = False, iop_trace = [] \<rparr>))"

text \<open>
  One step of a packet. The drivers' callbacks get the frame and the context and return success
  and the new context.
\<close>

record ('d, 'a, 'c) io_drivers =
  begin_op :: "('d, 'a) iop_frame \<Rightarrow> 'c \<Rightarrow> bool \<times> 'c"
  end_op :: "('d, 'a) iop_frame \<Rightarrow> 'c \<Rightarrow> bool \<times> 'c"

definition ContinueOne ::
  "('d, 'a, 'c) io_drivers \<Rightarrow> ('d, 'a, 'c) io_packet \<Rightarrow> (bool option \<times> ('d, 'a, 'c) io_packet) res" where
  "ContinueOne drv iop =
     (if nextIndex iop < length (iop_frames iop)
      then
        let i = nextIndex iop;
            frame = iop_frames iop ! i;
            iop1 = (if directionMod iop > 0
                    then let (ok, c) = begin_op drv frame (iop_context iop)
                         in iop\<lparr> iop_context := c, iop_trace := iop_trace iop @ [Begin_Op i ok],
                                 directionMod := (if ok then directionMod iop else - 1),
                                 iop_failure := (if ok then iop_failure iop else True) \<rparr>
                    else let (ok, c) = end_op drv frame (iop_context iop)
                         in iop\<lparr> iop_context := c, iop_trace := iop_trace iop @ [End_Op i ok],
                                 iop_failure := (if ok then iop_failure iop else True) \<rparr>)
        in if directionMod iop1 = - 1 \<and> nextIndex iop1 = 0
           then Inr (Some (\<not> iop_failure iop1), iop1\<lparr> iop_complete := True \<rparr>)
           else if nextIndex iop1 = length (iop_frames iop1) - 1
           then Inr (None, iop1\<lparr> directionMod := - 1 \<rparr>)
           else Inr (None, iop1\<lparr> nextIndex := nat ((int (nextIndex iop1) + directionMod iop1) mod 2 ^ 64) \<rparr>)
      else Inl Bad_Index)"

partial_function (option) iop_End ::
  "('d, 'a, 'c) io_drivers \<Rightarrow> ('d, 'a, 'c) io_packet \<Rightarrow> ((bool \<times> ('d, 'a, 'c) io_packet) res) option" where
  "iop_End drv iop =
     (case ContinueOne drv iop of
        Inl e \<Rightarrow> Some (Inl e)
      | Inr (Some r, iop') \<Rightarrow> Some (Inr (r, iop'))
      | Inr (None, iop') \<Rightarrow> iop_End drv iop')"

subsection \<open>Packets that complete\<close>

text \<open>The frames below an index are unwound in falling order.\<close>

lemma unwind:
  assumes "directionMod iop = - 1" "nextIndex iop = i" "i + 1 < length (iop_frames iop)"
    and "length (iop_frames iop) < size_limit"
  shows "\<exists>iop' oks. iop_End drv iop = Some (Inr (\<not> iop_failure iop', iop')) \<and> length oks = Suc i \<and>
    iop_trace iop' = iop_trace iop @ map2 End_Op (rev [0..<Suc i]) oks \<and>
    (iop_failure iop' \<longleftrightarrow> iop_failure iop \<or> False \<in> set oks)"
  using assms
proof (induction i arbitrary: iop)
  case 0
  obtain ok c where ok: "end_op drv (iop_frames iop ! 0) (iop_context iop) = (ok, c)" by fastforce
  have "0 < length (iop_frames iop)" using "0.prems"(3) by linarith
  then have "ContinueOne drv iop = Inr (Some (\<not> (iop_failure iop \<or> \<not> ok)),
      iop\<lparr> iop_context := c, iop_trace := iop_trace iop @ [End_Op 0 ok],
           iop_failure := iop_failure iop \<or> \<not> ok, iop_complete := True \<rparr>)"
    using "0.prems"(1,2) ok by (auto simp: ContinueOne_def)
  then show ?case by (subst iop_End.simps) (auto intro!: exI [of _ "[ok]"])
next
  case (Suc i)
  obtain ok c where ok: "end_op drv (iop_frames iop ! Suc i) (iop_context iop) = (ok, c)" by fastforce
  define iop1 where "iop1 = iop\<lparr> iop_context := c, iop_trace := iop_trace iop @ [End_Op (Suc i) ok],
      iop_failure := iop_failure iop \<or> \<not> ok, nextIndex := i \<rparr>"
  have "nat ((int (Suc i) + - 1) mod 2 ^ 64) = i"
    using Suc.prems(3,4) by (simp add: size_limit_def)
  then have "ContinueOne drv iop = Inr (None, iop1)"
    using Suc.prems ok by (auto simp: ContinueOne_def iop1_def Let_def)
  then have step: "iop_End drv iop = iop_End drv iop1" by (subst iop_End.simps) simp
  obtain iop' oks where "iop_End drv iop1 = Some (Inr (\<not> iop_failure iop', iop'))" "length oks = Suc i"
      "iop_trace iop' = iop_trace iop1 @ map2 End_Op (rev [0..<Suc i]) oks"
      "iop_failure iop' \<longleftrightarrow> iop_failure iop1 \<or> False \<in> set oks"
  proof -
    have "directionMod iop1 = - 1" "nextIndex iop1 = i" "i + 1 < length (iop_frames iop1)"
        "length (iop_frames iop1) < size_limit"
      using Suc.prems by (simp_all add: iop1_def)
    from Suc.IH [OF this] show thesis by (elim exE conjE) (rule that)
  qed
  then show ?case unfolding step
    by (intro exI [of _ iop'] exI [of _ "ok # oks"]) (auto simp: iop1_def)
qed


lemma descend:
  assumes "directionMod iop = 1" "nextIndex iop = i" "i \<le> k" "k < length (iop_frames iop)"
    and "length (iop_frames iop) < size_limit"
    and "\<forall>j. i \<le> j \<and> j < k \<longrightarrow> (\<forall>c. fst (begin_op drv (iop_frames iop ! j) c))"
  shows "\<exists>iop'. iop_End drv iop = iop_End drv iop' \<and> iop_frames iop' = iop_frames iop \<and>
    directionMod iop' = 1 \<and> nextIndex iop' = k \<and> iop_failure iop' = iop_failure iop \<and>
    iop_trace iop' = iop_trace iop @ map (\<lambda>j. Begin_Op j True) [i..<k]"
  using assms
proof (induction "k - i" arbitrary: i iop)
  case 0
  then show ?case by (intro exI [of _ iop]) simp
next
  case (Suc d)
  obtain ok c where ok: "begin_op drv (iop_frames iop ! i) (iop_context iop) = (ok, c)" by fastforce
  have ok': "ok" using Suc.hyps(2) Suc.prems(6) ok by (metis fst_conv le_refl zero_less_Suc zero_less_diff)
  define iop1 where "iop1 = iop\<lparr> iop_context := c, iop_trace := iop_trace iop @ [Begin_Op i True],
      nextIndex := i + 1 \<rparr>"
  have "nat ((int i + 1) mod 2 ^ 64) = i + 1"
    using Suc.hyps(2) Suc.prems(4,5) by (simp add: size_limit_def nat_add_distrib)
  then have "ContinueOne drv iop = Inr (None, iop1)"
    using Suc.prems(1-5) Suc.hyps(2) ok ok' by (auto simp: ContinueOne_def iop1_def Let_def)
  then have step: "iop_End drv iop = iop_End drv iop1" by (subst iop_End.simps) simp
  have "\<exists>iop'. iop_End drv iop1 = iop_End drv iop' \<and> iop_frames iop' = iop_frames iop1 \<and>
    directionMod iop' = 1 \<and> nextIndex iop' = k \<and> iop_failure iop' = iop_failure iop1 \<and>
    iop_trace iop' = iop_trace iop1 @ map (\<lambda>j. Begin_Op j True) [i + 1..<k]"
    using Suc.hyps(2) Suc.prems by (intro Suc.hyps(1)) (auto simp: iop1_def)
  moreover have "[i..<k] = i # [i + 1..<k]" using Suc.hyps(2) by (simp add: upt_conv_Cons)
  ultimately show ?case unfolding step by (auto simp: iop1_def)
qed

text \<open>A driver that refuses the operation: the drivers above it are unwound in reverse order.\<close>

lemma refused:
  assumes "directionMod iop = 1" "nextIndex iop = 0" "0 < k" "k + 1 < length (iop_frames iop)"
    and "length (iop_frames iop) < size_limit"
    and "\<forall>j<k. \<forall>c. fst (begin_op drv (iop_frames iop ! j) c)"
    and "\<forall>c. \<not> fst (begin_op drv (iop_frames iop ! k) c)"
  shows "\<exists>iop' oks. iop_End drv iop = Some (Inr (False, iop')) \<and> length oks = k \<and>
    iop_trace iop' = iop_trace iop @ map (\<lambda>j. Begin_Op j True) [0..<k] @ [Begin_Op k False]
      @ map2 End_Op (rev [0..<k]) oks"
proof -
  obtain iop1 where iop1: "iop_End drv iop = iop_End drv iop1" "iop_frames iop1 = iop_frames iop"
      "directionMod iop1 = 1" "nextIndex iop1 = k"
      "iop_trace iop1 = iop_trace iop @ map (\<lambda>j. Begin_Op j True) [0..<k]"
    using descend [OF assms(1,2), of k drv] assms(4-6) by auto
  obtain ok c where ok: "begin_op drv (iop_frames iop ! k) (iop_context iop1) = (ok, c)" by fastforce
  then have "\<not> ok" using assms(7) by (metis fst_conv)
  define iop2 where "iop2 = iop1\<lparr> iop_context := c, iop_trace := iop_trace iop1 @ [Begin_Op k False],
      directionMod := - 1, iop_failure := True, nextIndex := k - 1 \<rparr>"
  have "nat ((int k + - 1) mod 2 ^ 64) = k - 1"
    using assms(3-5) by (simp add: size_limit_def nat_diff_distrib')
  then have "ContinueOne drv iop1 = Inr (None, iop2)"
    using assms(3,4) iop1 ok \<open>\<not> ok\<close> by (auto simp: ContinueOne_def iop2_def Let_def)
  then have step: "iop_End drv iop1 = iop_End drv iop2" by (subst iop_End.simps) simp
  have "directionMod iop2 = - 1" "nextIndex iop2 = k - 1" "k - 1 + 1 < length (iop_frames iop2)"
      "length (iop_frames iop2) < size_limit" "iop_failure iop2"
    using assms(3-5) iop1(2) by (auto simp: iop2_def)
  with unwind [of iop2 "k - 1" drv] obtain iop' oks where
      "iop_End drv iop2 = Some (Inr (False, iop'))" "length oks = k"
      "iop_trace iop' = iop_trace iop2 @ map2 End_Op (rev [0..<k]) oks"
    using assms(3) by auto
  then show ?thesis unfolding iop1(1) step using iop1(5) by (auto simp: iop2_def)
qed

subsection \<open>Packets that do not complete\<close>

text \<open>
  On the last frame of several with the direction reversed, a step calls \<open>end_op\<close>, finds the
  index to be the last one, and leaves it there.
\<close>

definition iop_stuck :: "('d, 'a, 'c) io_packet \<Rightarrow> bool" where
  "iop_stuck iop \<longleftrightarrow>
     directionMod iop = - 1 \<and> nextIndex iop = length (iop_frames iop) - 1 \<and> 2 \<le> length (iop_frames iop)"

lemma stuck_step:
  assumes "iop_stuck iop"
  shows "\<exists>iop'. ContinueOne drv iop = Inr (None, iop') \<and> iop_stuck iop'"
proof -
  obtain ok c where "end_op drv (iop_frames iop ! (length (iop_frames iop) - 1)) (iop_context iop) = (ok, c)"
    by fastforce
  moreover have "length (iop_frames iop) - 1 < length (iop_frames iop)" "length (iop_frames iop) - 1 \<noteq> 0"
    using assms by (auto simp: iop_stuck_def)
  ultimately show ?thesis using assms by (auto simp: ContinueOne_def iop_stuck_def Let_def)
qed

lemma stuck_diverges:
  assumes "iop_stuck iop"
  shows "iop_End drv iop = None"
proof -
  have "\<not> iop_stuck iop" if "iop_End drv iop = Some r" for r
  proof (rule iop_End.raw_induct [OF _ that])
    fix f drv and iop :: "('a, 'b, 'c) io_packet" and r
    assume f: "\<And>drv iop r. f drv iop = Some r \<Longrightarrow> \<not> iop_stuck iop"
      and body: "(case ContinueOne drv iop of Inl e \<Rightarrow> Some (Inl e)
        | Inr (Some r, iop') \<Rightarrow> Some (Inr (r, iop')) | Inr (None, iop') \<Rightarrow> f drv iop') = Some r"
    show "\<not> iop_stuck iop"
    proof
      assume "iop_stuck iop"
      then obtain iop' where "ContinueOne drv iop = Inr (None, iop')" "iop_stuck iop'"
        using stuck_step by blast
      with f body show False by auto
    qed
  qed
  with assms show ?thesis by (cases "iop_End drv iop") auto
qed


text \<open>Whatever the driver of the last of several frames answers, \<open>End\<close> stays on that frame.\<close>

lemma last_frame_diverges:
  assumes "directionMod iop = 1" "nextIndex iop = 0" "k + 1 = length (iop_frames iop)" "0 < k"
    and "length (iop_frames iop) < size_limit" "\<forall>j<k. \<forall>c. fst (begin_op drv (iop_frames iop ! j) c)"
  shows "iop_End drv iop = None"
proof -
  obtain iop1 where iop1: "iop_End drv iop = iop_End drv iop1" "iop_frames iop1 = iop_frames iop"
      "directionMod iop1 = 1" "nextIndex iop1 = k"
    using descend [of iop 0 k drv] assms by auto
  obtain ok c where ok: "begin_op drv (iop_frames iop ! k) (iop_context iop1) = (ok, c)" by fastforce
  have "k < length (iop_frames iop)" "length (iop_frames iop) - 1 = k" "k \<noteq> 0" "2 \<le> length (iop_frames iop)" using assms(3,4) by linarith+
  then obtain iop2 where iop2: "ContinueOne drv iop1 = Inr (None, iop2)" "iop_stuck iop2"
    using iop1 ok by (cases ok) (simp_all add: ContinueOne_def iop_stuck_def Let_def)
  then have "iop_End drv iop1 = iop_End drv iop2" by (subst iop_End.simps) simp
  with iop1(1) stuck_diverges [OF iop2(2)] show ?thesis by simp
qed

lemma first_frame_refused:
  assumes "directionMod iop = 1" "nextIndex iop = 0" "iop_frames iop \<noteq> []" "\<forall>c. \<not> fst (begin_op drv (iop_frames iop ! 0) c)"
  shows "\<exists>iop'. iop_End drv iop = Some (Inr (False, iop')) \<and> iop_trace iop' = iop_trace iop @ [Begin_Op 0 False]"
proof -
  obtain ok c where ok: "begin_op drv (iop_frames iop ! 0) (iop_context iop) = (ok, c)" by fastforce
  then have "\<not> ok" using assms(4) by (metis fst_conv)
  with ok assms(1-3) obtain iop' where "ContinueOne drv iop = Inr (Some False, iop')" "iop_trace iop' = iop_trace iop @ [Begin_Op 0 False]"
    by (simp add: ContinueOne_def Let_def)
  then show ?thesis by (subst iop_End.simps) simp
qed

subsection \<open>Properties\<close>

text \<open>C35: When the first \<open>k\<close> drivers of a packet accept the operation and the next one refuses it: if that one
  is not the last of several frames, \<open>End\<close> returns failure after calling \<open>begin_op\<close> once on every frame down to the refusing one
  and \<open>end_op\<close> once on every frame above it, in reverse order; if it is the last of several, \<open>End\<close> never returns.\<close>

theorem iop_refused_unwinds:
  assumes "iop_Begin stack ctx = Inr (Some iop)" "k < length (iop_frames iop)"
    and "length (iop_frames iop) < size_limit"
    and "\<forall>j<k. \<forall>c. fst (begin_op drv (iop_frames iop ! j) c)"
    and "\<forall>c. \<not> fst (begin_op drv (iop_frames iop ! k) c)"
  shows "if k = 0 \<or> k + 1 < length (iop_frames iop)
    then \<exists>iop' oks. iop_End drv iop = Some (Inr (False, iop')) \<and> length oks = k \<and>
      iop_trace iop' = map (\<lambda>j. Begin_Op j True) [0..<k] @ [Begin_Op k False] @ map2 End_Op (rev [0..<k]) oks
    else iop_End drv iop = None"
proof -
  have start: "directionMod iop = 1" "nextIndex iop = 0" "iop_trace iop = []"
    using assms(1) by (auto simp: iop_Begin_def split: if_splits option.splits)
  consider "k = 0" | "0 < k" "k + 1 < length (iop_frames iop)" | "0 < k" "k + 1 = length (iop_frames iop)"
    using assms(2) by linarith
  then show ?thesis
  proof cases
    case 1
    with first_frame_refused [of iop drv] assms(2,5) start show ?thesis by auto
  next
    case 2
    with refused [of iop k drv] assms(3-5) start show ?thesis by simp
  next
    case 3
    with last_frame_diverges [of iop k drv] assms(3,4) start show ?thesis by simp
  qed
qed

theorem iop_refused_unwinds_witness:
  "\<exists>iop iop' oks. iop_Begin [Some (Instance_Node (Some 1)), Some (Descriptor_Node (7 :: nat)),
      Some (Instance_Node (Some 2)), Some (Instance_Node (Some (3 :: nat)))] () = Inr (Some iop) \<and>
    iop_End \<lparr> begin_op = (\<lambda>f c. (fr_api f \<noteq> 2, c)), end_op = (\<lambda>f c. (True, c)) \<rparr> iop = Some (Inr (False, iop')) \<and>
    length oks = 1 \<and> iop_trace iop' = [Begin_Op 0 True, Begin_Op 1 False] @ map2 End_Op [0] oks"
proof -
  let ?drv = "\<lparr> begin_op = (\<lambda>f c. (fr_api f \<noteq> 2, c)), end_op = (\<lambda>f c. (True, c)) \<rparr> :: (nat, nat, unit) io_drivers"
  obtain iop where iop: "iop_Begin [Some (Instance_Node (Some 1)), Some (Descriptor_Node (7 :: nat)),
      Some (Instance_Node (Some 2)), Some (Instance_Node (Some (3 :: nat)))] () = Inr (Some iop)"
      "iop_frames iop = [\<lparr> fr_api = 1, fr_descriptor = None \<rparr>, \<lparr> fr_api = 2, fr_descriptor = Some 7 \<rparr>,
        \<lparr> fr_api = 3, fr_descriptor = None \<rparr>]"
    by (simp add: iop_Begin_def)
  from iop_refused_unwinds [OF iop(1), of 1 ?drv] iop(2) iop(1) show ?thesis
    by (auto simp: size_limit_def split: if_splits)
qed

text \<open>When every driver of a stack of two or more accepts the operation, \<open>End\<close> never returns:
  the packet stays on the last frame, whose \<open>end_op\<close> is called forever.\<close>

lemma iop_accepted_diverges:
  assumes "iop_Begin stack ctx = Inr (Some iop)" "2 \<le> length (iop_frames iop)"
    and "length (iop_frames iop) < size_limit" "\<forall>f c. fst (begin_op drv f c)"
  shows "iop_End drv iop = None"
proof -
  have "directionMod iop = 1" "nextIndex iop = 0"
    using assms(1) by (auto simp: iop_Begin_def split: if_splits option.splits)
  then show ?thesis using last_frame_diverges [of iop "length (iop_frames iop) - 1" drv] assms(2-4) by simp
qed

lemma iop_accepted_diverges_example:
  "\<exists>iop. iop_Begin [Some (Instance_Node (Some ())), Some (Instance_Node (Some ())) :: (nat, unit) stack_node option] () = Inr (Some iop) \<and>
    iop_End \<lparr> begin_op = (\<lambda>f c. (True, c)), end_op = (\<lambda>f c. (True, c)) \<rparr> iop = None"
proof -
  obtain iop where iop: "iop_Begin [Some (Instance_Node (Some ())), Some (Instance_Node (Some ())) :: (nat, unit) stack_node option] () = Inr (Some iop)"
      "iop_frames iop = [\<lparr> fr_api = (), fr_descriptor = None \<rparr>, \<lparr> fr_api = (), fr_descriptor = None \<rparr>]"
    by (simp add: iop_Begin_def)
  from iop_accepted_diverges [OF iop(1), of "\<lparr> begin_op = (\<lambda>f c. (True, c)), end_op = (\<lambda>f c. (True, c)) \<rparr>"] iop
  show ?thesis by (auto simp: size_limit_def)
qed

end
