(* ===== verification/Temp_Fs.thy ===== *)
theory Temp_Fs
  imports Syslib_String
begin

text \<open>
  \<open>kernel/filesystem/TempFs.cpp\<close>: the in-memory filesystem. Nodes live at addresses of an explicit
  store, since a node is reached through the node table, its parent and its children; the
  table holds handles, \<open>None\<close> for an invalid one. Node handles of the driver interface are table
  indices plus one, with the wrap-around of \<open>node_id -= 1\<close> written out; \<open>NPK_INVALID_HANDLE\<close> is 0. The locks of the nodes are taken and released
  around each operation and are left out; the driver manager is an argument.
\<close>

datatype node_type = N_File | N_Directory | N_Link

record tfs_node =
  tn_parent :: "nat option"
  tn_children :: "nat list"
  tn_type :: node_type
  tn_id :: size_t
  tn_name :: "char list"
  tn_size :: size_t

record tfs_data =
  td_store :: "nat \<Rightarrow> tfs_node option"
  td_fresh :: nat
  td_nodes :: "nat option list"
  td_tag :: "char list"

definition NPK_INVALID_HANDLE :: size_t where
  "NPK_INVALID_HANDLE = 0"

definition deref :: "tfs_data \<Rightarrow> nat option \<Rightarrow> (nat \<times> tfs_node) res" where
  "deref d h =
     (case h of None \<Rightarrow> Inl Null_Deref
      | Some a \<Rightarrow> (case td_store d a of None \<Rightarrow> Inl Null_Deref | Some n \<Rightarrow> Inr (a, n)))"

text \<open>The two assertions at the start of most handlers.\<close>

definition node_at :: "tfs_data \<Rightarrow> size_t \<Rightarrow> (nat \<times> tfs_node) res" where
  "node_at d node_id =
     (let i = sz_sub node_id 1
      in if i < length (td_nodes d) \<and> td_nodes d ! i \<noteq> None then deref d (td_nodes d ! i)
         else Inl Assert_Failed)"

definition TempFsEnterCache :: "size_t \<Rightarrow> tfs_data \<Rightarrow> node_type res" where
  "TempFsEnterCache nid d = res_bind (node_at d nid) (\<lambda>(a, n). Inr (tn_type n))"

definition TempFsExitCache :: "size_t \<Rightarrow> tfs_data \<Rightarrow> bool" where
  "TempFsExitCache nid d = True"

definition TempFsGetRoot :: "tfs_data \<Rightarrow> size_t" where
  "TempFsGetRoot d = 1"

definition TempFsMount :: "tfs_data \<Rightarrow> bool" where
  "TempFsMount d = True"

definition TempFsUnmount :: "tfs_data \<Rightarrow> bool" where
  "TempFsUnmount d = False"

definition TempFsGetSummary :: "tfs_data \<Rightarrow> char list" where
  "TempFsGetSummary d = td_tag d"

text \<open>The loop that looks for a free table entry; it does not stop at the first.\<close>

function assign_slots :: "nat \<Rightarrow> nat option list \<Rightarrow> size_t \<Rightarrow> size_t option \<Rightarrow> nat option list \<times> size_t option" where
  "assign_slots child nodes i nid =
     (if i < length nodes
      then if nodes ! i \<noteq> None then assign_slots child nodes (i + 1) nid
           else assign_slots child (nodes[i := Some child]) (i + 1) (Some i)
      else (nodes, nid))"
  by auto
termination
  by (relation "measure (\<lambda>(c, nodes, i, nid). length nodes - i)") auto

declare assign_slots.simps [simp del]

definition TempFsCreate :: "size_t \<Rightarrow> node_type \<Rightarrow> char list \<Rightarrow> tfs_data \<Rightarrow> (size_t \<times> tfs_data) res" where
  "TempFsCreate node_id type name d =
     (let i = sz_sub node_id 1
      in if \<not> i < length (td_nodes d) then Inl Assert_Failed
         else res_bind (deref d (td_nodes d ! i)) (\<lambda>(pa, parent).
           res_bind (String_span name) (\<lambda>nm.
             let ca = td_fresh d;
                 (nodes, nid) = assign_slots ca (td_nodes d) 0 None;
                 (nodes', nid') = (case nid of Some k \<Rightarrow> (nodes, k)
                                  | None \<Rightarrow> (nodes @ [Some ca], length nodes));
                 child = \<lparr> tn_parent = Some pa, tn_children = [], tn_type = type, tn_id = nid',
                           tn_name = str_text nm, tn_size = 0 \<rparr>
             in Inr (sz_add nid' 1,
                     d\<lparr> td_store := (td_store d)(pa \<mapsto> parent\<lparr> tn_children := tn_children parent @ [ca] \<rparr>,
                                                  ca \<mapsto> child),
                        td_fresh := ca + 1, td_nodes := nodes' \<rparr>))))"

definition TempFsRemove :: "size_t \<Rightarrow> size_t \<Rightarrow> tfs_data \<Rightarrow> bool res" where
  "TempFsRemove node_id dir d = Inl Unreachable_Hit"

fun find_child_loop :: "tfs_data \<Rightarrow> char list \<Rightarrow> nat list \<Rightarrow> size_t res" where
  "find_child_loop d name [] = Inr NPK_INVALID_HANDLE"
| "find_child_loop d name (c # cs) =
     res_bind (deref d (Some c)) (\<lambda>(a, child).
       if span_neq (tn_name child) name then find_child_loop d name cs
       else Inr (sz_add (tn_id child) 1))"

text \<open>A null \<open>name.data\<close> behaves as an empty name.\<close>

definition TempFsFindChild :: "size_t \<Rightarrow> char list \<Rightarrow> tfs_data \<Rightarrow> size_t res" where
  "TempFsFindChild node_id name d =
     (if length name = 0 then Inr NPK_INVALID_HANDLE
      else res_bind (node_at d node_id) (\<lambda>(a, node).
        if name ! 0 = CHR ''.'' \<and> length name = 1 then Inr (sz_add (sz_sub node_id 1) 1)
        else if name ! 0 = CHR ''.'' \<and> length name = 2 \<and> name ! 1 = CHR ''.''
        then (case tn_parent node of
                None \<Rightarrow> Inr NPK_INVALID_HANDLE
              | Some p \<Rightarrow> res_bind (deref d (Some p)) (\<lambda>(pa, parent). Inr (sz_add (tn_id parent) 1)))
        else find_child_loop d name (tn_children node)))"

definition TempFsGetAttribs :: "size_t \<Rightarrow> tfs_data \<Rightarrow> (size_t \<times> char list) res" where
  "TempFsGetAttribs node_id d =
     res_bind (node_at d node_id) (\<lambda>(a, node). Inr (tn_size node, tn_name node))"

text \<open>The flags are those for the size and the name; the one for capabilities only logs.\<close>

definition TempFsSetAttribs ::
  "size_t \<Rightarrow> size_t \<times> char list \<Rightarrow> bool \<Rightarrow> bool \<Rightarrow> tfs_data \<Rightarrow> (bool \<times> tfs_data) res" where
  "TempFsSetAttribs node_id attribs flag_size flag_name d =
     (let i = sz_sub node_id 1
      in if \<not> i < length (td_nodes d) then Inl Assert_Failed
         else res_bind (deref d (td_nodes d ! i)) (\<lambda>(a, node).
           let node1 = (if flag_size then node\<lparr> tn_size := fst attribs \<rparr> else node)
           in res_bind (if flag_name
                        then res_bind (String_span (snd attribs)) (\<lambda>s. Inr (node1\<lparr> tn_name := str_text s \<rparr>))
                        else Inr node1)
                (\<lambda>node2. Inr (True, d\<lparr> td_store := (td_store d)(a \<mapsto> node2) \<rparr>))))"

text \<open>The listing is the list of the node handles; \<open>device_id\<close> is that of the filesystem.\<close>

definition child_handle :: "tfs_data \<Rightarrow> nat \<Rightarrow> size_t list \<Rightarrow> size_t list res" where
  "child_handle d c buffer = res_bind (deref d (Some c)) (\<lambda>(a, child). Inr (buffer @ [sz_add (tn_id child) 1]))"

definition TempFsReadDir :: "size_t \<Rightarrow> bool \<Rightarrow> tfs_data \<Rightarrow> (size_t \<times> size_t list) res" where
  "TempFsReadDir node_id wantListing d =
     res_bind (node_at d node_id) (\<lambda>(a, node).
       if \<not> wantListing then Inr (length (tn_children node), [])
       else res_bind (res_fold (child_handle d) (tn_children node) [])
              (\<lambda>buffer. Inr (length (tn_children node), buffer)))"

text \<open>\<open>addApi\<close> is \<open>DriverManager::AddApi\<close>: the id it gives to the new filesystem, if it takes it.\<close>

definition CreateTempFs :: "(tfs_data \<Rightarrow> size_t option) \<Rightarrow> char list \<Rightarrow> (size_t \<times> tfs_data) res" where
  "CreateTempFs addApi tag =
     res_bind (String_span tag) (\<lambda>t.
       let root = \<lparr> tn_parent = None, tn_children = [], tn_type = N_Directory, tn_id = 0, tn_name = [],
                    tn_size = 0 \<rparr>;
           d = \<lparr> td_store = [0 \<mapsto> root], td_fresh = 1, td_nodes = [Some 0], td_tag = str_text t \<rparr>
       in case addApi d of None \<Rightarrow> Inl Assert_Failed | Some nid \<Rightarrow> Inr (nid, d))"

subsection \<open>Well-formed filesystems\<close>

text \<open>
  Every entry of the table is a node of the store that knows its index, all nodes are in the table,
  parents and children are nodes, and the handles fit in 64 bits.
\<close>

definition tfs_wf :: "tfs_data \<Rightarrow> bool" where
  "tfs_wf d \<longleftrightarrow> length (td_nodes d) + 1 < size_limit \<and> 0 < length (td_nodes d) \<and>
     (\<forall>i < length (td_nodes d). \<exists>a n. td_nodes d ! i = Some a \<and> td_store d a = Some n \<and> tn_id n = i) \<and>
     (\<forall>a n. td_store d a = Some n \<longrightarrow> a < td_fresh d \<and> tn_id n < length (td_nodes d) \<and>
        td_nodes d ! tn_id n = Some a \<and>
        (\<forall>p. tn_parent n = Some p \<longrightarrow> td_store d p \<noteq> None) \<and>
        (\<forall>c \<in> set (tn_children n). td_store d c \<noteq> None))"

lemma tfs_wf_node:
  assumes "tfs_wf d" "td_store d a = Some n"
  shows "a < td_fresh d" "tn_id n < length (td_nodes d)" "td_nodes d ! tn_id n = Some a"
    "tn_parent n = Some p \<Longrightarrow> td_store d p \<noteq> None" "\<forall>c \<in> set (tn_children n). td_store d c \<noteq> None"
  using assms unfolding tfs_wf_def by simp_all

definition tfs_valid :: "tfs_data \<Rightarrow> size_t \<Rightarrow> bool" where
  "tfs_valid d h \<longleftrightarrow> 1 \<le> h \<and> h \<le> length (td_nodes d)"

definition tfs_node_of :: "tfs_data \<Rightarrow> size_t \<Rightarrow> tfs_node" where
  "tfs_node_of d h = the (td_store d (the (td_nodes d ! (h - 1))))"

lemma tfs_wf_slot:
  assumes "tfs_wf d" "tfs_valid d h"
  obtains a where "sz_sub h 1 = h - 1" "h - 1 < length (td_nodes d)" "td_nodes d ! (h - 1) = Some a"
    "td_store d a = Some (tfs_node_of d h)" "tn_id (tfs_node_of d h) = h - 1" "a < td_fresh d"
proof -
  have "sz_sub h 1 = h - 1" "h - 1 < length (td_nodes d)"
    using assms by (auto simp: tfs_wf_def tfs_valid_def sz_simps)
  with assms(1) that show ?thesis
    unfolding tfs_wf_def tfs_node_of_def by (metis option.sel)
qed

lemma tn_id_node_of: "tfs_wf d \<Longrightarrow> tfs_valid d h \<Longrightarrow> tn_id (tfs_node_of d h) = h - 1"
  by (erule (1) tfs_wf_slot)

lemma node_at_valid:
  assumes "tfs_wf d" "tfs_valid d h"
  shows "\<exists>a. node_at d h = Inr (a, tfs_node_of d h) \<and> td_nodes d ! (h - 1) = Some a"
  using assms by (rule tfs_wf_slot) (auto simp: node_at_def deref_def Let_def)

lemma assign_slots_full:
  "\<forall>k < length nodes. nodes ! k \<noteq> None \<Longrightarrow> assign_slots child nodes i nid = (nodes, nid)"
  by (induction child nodes i nid rule: assign_slots.induct) (subst assign_slots.simps, auto)


subsection \<open>Creating a node\<close>

text \<open>What \<open>TempFsCreate\<close> makes of a filesystem: the new node \<open>ca\<close> below the one at \<open>pa\<close>.\<close>

definition created :: "nat \<Rightarrow> tfs_node \<Rightarrow> node_type \<Rightarrow> char list \<Rightarrow> tfs_data \<Rightarrow> tfs_data" where
  "created pa parent type name d =
     d\<lparr> td_store := (td_store d)(pa \<mapsto> parent\<lparr> tn_children := tn_children parent @ [td_fresh d] \<rparr>,
          td_fresh d \<mapsto> \<lparr> tn_parent = Some pa, tn_children = [], tn_type = type,
            tn_id = length (td_nodes d), tn_name = name, tn_size = 0 \<rparr>),
        td_fresh := td_fresh d + 1, td_nodes := td_nodes d @ [Some (td_fresh d)] \<rparr>"

lemma TempFsCreate_created:
  assumes "tfs_wf d" "tfs_valid d h" "String_span name = Inr nm"
  shows "\<exists>pa. td_nodes d ! (h - 1) = Some pa \<and> td_store d pa = Some (tfs_node_of d h) \<and>
    TempFsCreate h type name d =
      Inr (length (td_nodes d) + 1, created pa (tfs_node_of d h) type (str_text nm) d)"
proof -
  from assms(1,2) obtain a where a: "sz_sub h 1 = h - 1" "h - 1 < length (td_nodes d)"
    "td_nodes d ! (h - 1) = Some a" "td_store d a = Some (tfs_node_of d h)" "a < td_fresh d"
    by (rule tfs_wf_slot)
  have "\<forall>k < length (td_nodes d). td_nodes d ! k \<noteq> None"
    using assms(1) by (auto simp: tfs_wf_def)
  moreover have "length (td_nodes d) + 1 < size_limit" using assms(1) by (simp add: tfs_wf_def)
  ultimately show ?thesis
    using a assms(3) by (auto simp: TempFsCreate_def deref_def assign_slots_full created_def sz_simps Let_def)
qed

lemma created_wf:
  assumes "tfs_wf d" "td_store d pa = Some parent" "length (td_nodes d) + 2 < size_limit"
  shows "tfs_wf (created pa parent type name d)" (is "tfs_wf ?d")
proof -
  have fresh: "td_store d (td_fresh d) = None"
    using assms(1) unfolding tfs_wf_def by (metis less_irrefl not_Some_eq)
  have pa: "pa < td_fresh d" "tn_id parent < length (td_nodes d)" "td_nodes d ! tn_id parent = Some pa"
    "\<forall>p. tn_parent parent = Some p \<longrightarrow> td_store d p \<noteq> None"
    "\<forall>c \<in> set (tn_children parent). td_store d c \<noteq> None"
    using assms(1,2) unfolding tfs_wf_def by blast+
  have slots: "\<exists>a n. td_nodes d ! i = Some a \<and> td_store d a = Some n \<and> tn_id n = i"
    if "i < length (td_nodes d)" for i
    using assms(1) that by (simp add: tfs_wf_def)
  have 1: "\<exists>a n. td_nodes ?d ! i = Some a \<and> td_store ?d a = Some n \<and> tn_id n = i"
    if "i < length (td_nodes ?d)" for i
  proof (cases "i < length (td_nodes d)")
    case True
    from slots [OF True] obtain a n where "td_nodes d ! i = Some a" "td_store d a = Some n" "tn_id n = i"
      by blast
    with True fresh assms(2) show ?thesis by (auto simp: created_def nth_append)
  next
    case False
    with that have "i = length (td_nodes d)" by (simp add: created_def)
    then show ?thesis by (simp add: created_def)
  qed
  have 2: "a < td_fresh ?d \<and> tn_id n < length (td_nodes ?d) \<and> td_nodes ?d ! tn_id n = Some a \<and>
        (\<forall>p. tn_parent n = Some p \<longrightarrow> td_store ?d p \<noteq> None) \<and>
        (\<forall>c \<in> set (tn_children n). td_store ?d c \<noteq> None)" if "td_store ?d a = Some n" for a n
  proof -
    have old: "td_store d b \<noteq> None \<Longrightarrow> td_store ?d b \<noteq> None" for b by (simp add: created_def)
    consider "a = td_fresh d" | "a = pa" "a \<noteq> td_fresh d" | "a \<noteq> pa" "a \<noteq> td_fresh d" by blast
    then show ?thesis
    proof cases
      case 3
      with that have "td_store d a = Some n" by (simp add: created_def)
      then show ?thesis
        using assms(1) old unfolding tfs_wf_def created_def by (auto simp: nth_append less_Suc_eq)
    qed (use that pa old in \<open>auto simp: created_def nth_append\<close>)
  qed
  show ?thesis
    using 1 2 assms(3) by (simp add: tfs_wf_def created_def)
qed

text \<open>
  The nodes of one filesystem are nodes of another with the same identity: name, index, parent,
  type and size.
\<close>

definition node_face :: "tfs_node \<Rightarrow> nat option \<times> node_type \<times> size_t \<times> char list \<times> size_t" where
  "node_face n = (tn_parent n, tn_type n, tn_id n, tn_name n, tn_size n)"

definition faces_kept :: "tfs_data \<Rightarrow> tfs_data \<Rightarrow> bool" where
  "faces_kept d d' \<longleftrightarrow>
     (\<forall>a n. td_store d a = Some n \<longrightarrow> (\<exists>n'. td_store d' a = Some n' \<and> node_face n' = node_face n))"

lemma find_child_loop_kept:
  assumes "faces_kept d d'" "\<forall>c \<in> set cs. td_store d c \<noteq> None"
  shows "find_child_loop d' x cs = find_child_loop d x cs"
  using assms(2)
proof (induction cs)
  case (Cons c cs)
  then obtain n where n: "td_store d c = Some n" by auto
  with assms(1) obtain n' where "td_store d' c = Some n'" "node_face n' = node_face n"
    by (auto simp: faces_kept_def)
  with n Cons show ?case by (auto simp: deref_def node_face_def)
qed simp

lemma find_child_loop_append:
  assumes "\<forall>c \<in> set cs. td_store d c \<noteq> None"
  shows "find_child_loop d x (cs @ [c]) =
    (if \<exists>c' \<in> set cs. \<exists>n. td_store d c' = Some n \<and> tn_name n = x then find_child_loop d x cs
     else find_child_loop d x [c])"
  using assms
proof (induction cs)
  case (Cons c' cs)
  then obtain n where "td_store d c' = Some n" by auto
  with Cons show ?case by (auto simp: deref_def)
qed simp

lemma find_child_loop_none:
  "\<forall>c \<in> set cs. \<exists>n. td_store d c = Some n \<and> tn_name n \<noteq> x \<Longrightarrow>
   find_child_loop d x cs = Inr NPK_INVALID_HANDLE"
  by (induction cs) (auto simp: deref_def)

lemma read_children:
  assumes "\<forall>c \<in> set cs. td_store d c \<noteq> None"
  shows "res_fold (child_handle d) cs buf = Inr (buf @ map (\<lambda>c. sz_add (tn_id (the (td_store d c))) 1) cs)"
  using assms
proof (induction cs arbitrary: buf)
  case (Cons c cs)
  then obtain n where "td_store d c = Some n" by auto
  with Cons show ?case by (simp add: child_handle_def deref_def)
qed simp

lemma faces_kept_created:
  assumes "tfs_wf d" "td_store d pa = Some parent"
  shows "faces_kept d (created pa parent type name d)"
proof -
  have "td_store d (td_fresh d) = None"
    using assms(1) unfolding tfs_wf_def by (metis less_irrefl not_Some_eq)
  with assms(2) show ?thesis by (auto simp: faces_kept_def created_def node_face_def)
qed

text \<open>What the reading handlers return, in terms of the node a handle stands for.\<close>

definition dot_name :: "char list \<Rightarrow> bool" where
  "dot_name x \<longleftrightarrow> x = ''.'' \<or> x = ''..''"

lemma dot_name_iff:
  "x \<noteq> [] \<Longrightarrow> x ! 0 = CHR ''.'' \<and> length x = 1 \<longleftrightarrow> x = ''.''"
  "x \<noteq> [] \<Longrightarrow> x ! 0 = CHR ''.'' \<and> length x = 2 \<and> x ! 1 = CHR ''.'' \<longleftrightarrow> x = ''..''"
  by (cases x; auto simp: length_Suc_conv numeral_2_eq_2)+

lemma FindChild_valid:
  assumes "tfs_wf d" "tfs_valid d h" "x \<noteq> []"
  shows "TempFsFindChild h x d =
    (if x = ''.'' then Inr h
     else if x = ''..''
     then Inr (case tn_parent (tfs_node_of d h) of None \<Rightarrow> NPK_INVALID_HANDLE
               | Some p \<Rightarrow> tn_id (the (td_store d p)) + 1)
     else find_child_loop d x (tn_children (tfs_node_of d h)))"
proof -
  from assms(1,2) obtain a where a: "sz_sub h 1 = h - 1" "h - 1 < length (td_nodes d)"
    "td_nodes d ! (h - 1) = Some a" "td_store d a = Some (tfs_node_of d h)"
    by (rule tfs_wf_slot)
  then have at: "node_at d h = Inr (a, tfs_node_of d h)" by (simp add: node_at_def deref_def)
  have lim: "length (td_nodes d) + 1 < size_limit" using assms(1) by (simp add: tfs_wf_def)
  have h: "sz_add (h - 1) 1 = h" using assms(2) lim by (simp add: tfs_valid_def sz_simps)
  have par: "\<exists>n. td_store d p = Some n \<and> sz_add (tn_id n) 1 = tn_id n + 1"
    if par: "tn_parent (tfs_node_of d h) = Some p" for p
  proof -
    obtain n where n: "td_store d p = Some n"
      using tfs_wf_node(4) [OF assms(1) a(4) par] by blast
    moreover from tfs_wf_node(2) [OF assms(1) this] have "tn_id n < length (td_nodes d)" .
    ultimately show ?thesis using lim by (simp add: sz_simps)
  qed
  have dots: "(x ! 0 = CHR ''.'' \<and> length x = 1) = (x = ''.'')"
    "(x ! 0 = CHR ''.'' \<and> length x = 2 \<and> x ! 1 = CHR ''.'') = (x = ''..'')"
    using dot_name_iff assms(3) by auto
  have eq: "TempFsFindChild h x d =
      (if x = ''.'' then Inr h
       else if x = ''..''
       then (case tn_parent (tfs_node_of d h) of
               None \<Rightarrow> Inr NPK_INVALID_HANDLE
             | Some p \<Rightarrow> res_bind (deref d (Some p)) (\<lambda>(pa, parent). Inr (sz_add (tn_id parent) 1)))
       else find_child_loop d x (tn_children (tfs_node_of d h)))"
    using assms(3) unfolding TempFsFindChild_def dots at a(1) h by simp
  show ?thesis
  proof (cases "tn_parent (tfs_node_of d h)")
    case (Some p)
    from par [OF Some] obtain n where "td_store d p = Some n" "sz_add (tn_id n) 1 = tn_id n + 1" by blast
    with Some show ?thesis unfolding eq by (simp add: deref_def)
  qed (simp add: eq)
qed

lemma node_of_kept:
  assumes "faces_kept d d'" "tfs_wf d" "tfs_valid d h" "take (length (td_nodes d)) (td_nodes d') = td_nodes d"
  shows "node_face (tfs_node_of d' h) = node_face (tfs_node_of d h)"
proof -
  from assms(2,3) obtain a where a: "h - 1 < length (td_nodes d)"
    "td_nodes d ! (h - 1) = Some a" "td_store d a = Some (tfs_node_of d h)"
    by (rule tfs_wf_slot)
  then have "td_nodes d' ! (h - 1) = Some a" using assms(4) by (metis nth_take)
  moreover obtain n' where "td_store d' a = Some n'" "node_face n' = node_face (tfs_node_of d h)"
    using a assms(1) by (auto simp: faces_kept_def)
  ultimately show ?thesis by (simp add: tfs_node_of_def)
qed

lemma GetAttribs_valid:
  assumes "tfs_wf d" "tfs_valid d h"
  shows "TempFsGetAttribs h d = Inr (tn_size (tfs_node_of d h), tn_name (tfs_node_of d h))"
    "TempFsEnterCache h d = Inr (tn_type (tfs_node_of d h))"
  using node_at_valid [OF assms] by (auto simp: TempFsGetAttribs_def TempFsEnterCache_def)

lemma ReadDir_valid:
  assumes "tfs_wf d" "tfs_valid d h"
  shows "TempFsReadDir h True d =
    Inr (length (tn_children (tfs_node_of d h)),
         map (\<lambda>c. tn_id (the (td_store d c)) + 1) (tn_children (tfs_node_of d h)))"
proof -
  from assms obtain a where a: "td_store d a = Some (tfs_node_of d h)" by (rule tfs_wf_slot)
  have lim: "length (td_nodes d) + 1 < size_limit" using assms(1) by (simp add: tfs_wf_def)
  have ch: "\<forall>c \<in> set (tn_children (tfs_node_of d h)). td_store d c \<noteq> None"
    using tfs_wf_node(5) [OF assms(1) a] .
  have "sz_add (tn_id (the (td_store d c))) 1 = tn_id (the (td_store d c)) + 1"
    if c: "c \<in> set (tn_children (tfs_node_of d h))" for c
  proof -
    obtain n where "td_store d c = Some n" using bspec [OF ch c] by auto
    with tfs_wf_node(2) [OF assms(1) this] lim show ?thesis by (simp add: sz_simps)
  qed
  with node_at_valid [OF assms] read_children [OF ch] show ?thesis
    by (auto simp: TempFsReadDir_def)
qed

lemma FindChild_kept:
  assumes "tfs_wf d" "tfs_wf d'" "faces_kept d d'" "tfs_valid d h"
    and "take (length (td_nodes d)) (td_nodes d') = td_nodes d"
    and "find_child_loop d' x (tn_children (tfs_node_of d' h)) =
         find_child_loop d x (tn_children (tfs_node_of d h))"
  shows "TempFsFindChild h x d' = TempFsFindChild h x d"
proof (cases "x = []")
  case True
  then show ?thesis by (simp add: TempFsFindChild_def)
next
  case False
  have "length (td_nodes d) \<le> length (td_nodes d')" using assms(5) by (metis length_take min.cobounded2 min.commute)
  then have v: "tfs_valid d' h" using assms(4) by (simp add: tfs_valid_def)
  have par: "tn_parent (tfs_node_of d' h) = tn_parent (tfs_node_of d h)"
    using node_of_kept [OF assms(3,1,4,5)] by (simp add: node_face_def)
  from assms(1,4) obtain a where a: "td_store d a = Some (tfs_node_of d h)" by (rule tfs_wf_slot)
  have "tn_id (the (td_store d' p)) = tn_id (the (td_store d p))"
    if "tn_parent (tfs_node_of d h) = Some p" for p
    using tfs_wf_node(4) [OF assms(1) a that] assms(3) by (fastforce simp: faces_kept_def node_face_def)
  then show ?thesis
    unfolding FindChild_valid [OF assms(1,4) False] FindChild_valid [OF assms(2) v False] assms(6) par
    by (auto split: option.splits)
qed

lemma find_child_loop_miss:
  assumes "tfs_wf d" "\<forall>c \<in> set cs. td_store d c \<noteq> None" "find_child_loop d x cs = Inr NPK_INVALID_HANDLE"
  shows "\<forall>c \<in> set cs. \<exists>n. td_store d c = Some n \<and> tn_name n \<noteq> x"
  using assms(2,3)
proof (induction cs)
  case (Cons c cs)
  then obtain n where n: "td_store d c = Some n" by auto
  have "tn_id n + 1 < size_limit"
    using tfs_wf_node(2) [OF assms(1) n] assms(1) by (simp add: tfs_wf_def)
  then have "sz_add (tn_id n) 1 \<noteq> NPK_INVALID_HANDLE" by (simp add: sz_simps NPK_INVALID_HANDLE_def)
  with Cons n show ?case by (auto simp: deref_def split: if_splits)
qed simp

text \<open>Lookups below a node that got the new child \<open>c\<close> at the end of its children.\<close>

lemma find_child_loop_new:
  assumes "tfs_wf d" "faces_kept d d'" "\<forall>c \<in> set cs. td_store d c \<noteq> None"
    "td_store d' ca = Some n" "tn_name n = name"
  shows "x \<noteq> name \<Longrightarrow> find_child_loop d' x (cs @ [ca]) = find_child_loop d x cs"
    and "find_child_loop d name cs = Inr NPK_INVALID_HANDLE \<Longrightarrow>
      find_child_loop d' name (cs @ [ca]) = Inr (sz_add (tn_id n) 1)"
proof -
  have st: "\<forall>c \<in> set cs. td_store d' c \<noteq> None"
    using assms(2,3) by (fastforce simp: faces_kept_def)
  have same: "find_child_loop d' x cs = find_child_loop d x cs" for x
    using find_child_loop_kept [OF assms(2,3)] .
  show "find_child_loop d' x (cs @ [ca]) = find_child_loop d x cs" if "x \<noteq> name"
  proof (cases "\<exists>c' \<in> set cs. \<exists>n. td_store d' c' = Some n \<and> tn_name n = x")
    case True
    then show ?thesis by (simp add: find_child_loop_append [OF st] same)
  next
    case False
    then have "find_child_loop d' x cs = Inr NPK_INVALID_HANDLE"
      using st by (intro find_child_loop_none) auto
    with False that assms(4,5) show ?thesis
      by (simp add: find_child_loop_append [OF st] same [symmetric] deref_def)
  qed
  show "find_child_loop d' name (cs @ [ca]) = Inr (sz_add (tn_id n) 1)"
    if "find_child_loop d name cs = Inr NPK_INVALID_HANDLE"
  proof -
    have "\<forall>c \<in> set cs. \<exists>n. td_store d c = Some n \<and> tn_name n \<noteq> name"
      using find_child_loop_miss [OF assms(1,3) that] .
    then have "\<not> (\<exists>c' \<in> set cs. \<exists>n. td_store d' c' = Some n \<and> tn_name n = name)"
      using assms(2) by (fastforce simp: faces_kept_def node_face_def)
    then show ?thesis
      using assms(4,5) by (auto simp: find_child_loop_append [OF st] deref_def)
  qed
qed

text \<open>The nodes of a filesystem after \<open>TempFsCreate\<close>.\<close>

lemma created_facts:
  assumes "tfs_wf d" "tfs_valid d h" "length (td_nodes d) + 2 < size_limit"
    and "td_nodes d ! (h - 1) = Some pa" "td_store d pa = Some P" "P = tfs_node_of d h"
    and d': "d' = created pa P type name d" and c: "c = length (td_nodes d) + 1"
  shows "tfs_wf d'" "faces_kept d d'" "take (length (td_nodes d)) (td_nodes d') = td_nodes d"
    and "\<not> tfs_valid d c" "tfs_valid d' c" "tfs_valid d' h"
    and "td_store d' (td_fresh d) = Some (tfs_node_of d' c)"
    and "tfs_node_of d' c = \<lparr> tn_parent = Some pa, tn_children = [], tn_type = type, tn_id = c - 1,
      tn_name = name, tn_size = 0 \<rparr>"
    and "td_store d' pa = Some (tfs_node_of d' h)"
    and "tfs_node_of d' h = P\<lparr> tn_children := tn_children P @ [td_fresh d] \<rparr>"
    and "tfs_valid d g \<Longrightarrow> g \<noteq> h \<Longrightarrow> tfs_node_of d' g = tfs_node_of d g"
proof -
  show "tfs_wf d'" unfolding d' using created_wf assms(1,3,5) by blast
  show "faces_kept d d'" unfolding d' using faces_kept_created assms(1,5) .
  show "take (length (td_nodes d)) (td_nodes d') = td_nodes d" by (simp add: d' created_def)
  show "\<not> tfs_valid d c" "tfs_valid d' c" "tfs_valid d' h"
    using assms(2) by (auto simp: tfs_valid_def c d' created_def)
  have fresh: "pa \<noteq> td_fresh d" using tfs_wf_node(1) [OF assms(1,5)] by simp
  show c': "tfs_node_of d' c = \<lparr> tn_parent = Some pa, tn_children = [], tn_type = type, tn_id = c - 1,
      tn_name = name, tn_size = 0 \<rparr>" and "td_store d' (td_fresh d) = Some (tfs_node_of d' c)"
    by (simp_all add: tfs_node_of_def d' c created_def)
  have h: "h - 1 < length (td_nodes d)" using assms(2) by (auto simp: tfs_valid_def)
  show "tfs_node_of d' h = P\<lparr> tn_children := tn_children P @ [td_fresh d] \<rparr>"
    "td_store d' pa = Some (tfs_node_of d' h)"
    using assms(4) h fresh by (simp_all add: tfs_node_of_def d' created_def nth_append)
  assume g: "tfs_valid d g" "g \<noteq> h"
  from assms(1) g(1) obtain a where a: "g - 1 < length (td_nodes d)" "td_nodes d ! (g - 1) = Some a"
    "td_store d a = Some (tfs_node_of d g)" "tn_id (tfs_node_of d g) = g - 1" "a < td_fresh d"
    by (rule tfs_wf_slot)
  have "a \<noteq> pa"
    using a tn_id_node_of [OF assms(1,2)] assms(2,5,6) g by (auto simp: tfs_valid_def)
  with a show "tfs_node_of d' g = tfs_node_of d g"
    by (auto simp: tfs_node_of_def d' created_def nth_append)
qed

text \<open>\<open>TempFsCreate\<close> below a node makes a child that is found under its name, whose \<open>..\<close> is that
  node, with the given type and size 0, listed last; no other lookup, attribute or type
  changes.\<close>

lemma tempfs_create_find:
  assumes "tfs_wf d" "tfs_valid d h" "length (td_nodes d) + 2 < size_limit"
    "name \<noteq> []" "last name \<noteq> NUL" "\<not> dot_name name" "TempFsFindChild h name d = Inr NPK_INVALID_HANDLE"
  shows "\<exists>c d'. TempFsCreate h type name d = Inr (c, d') \<and> tfs_wf d' \<and> \<not> tfs_valid d c \<and> tfs_valid d' c \<and>
    TempFsFindChild h name d' = Inr c \<and> TempFsFindChild c ''..'' d' = Inr h \<and>
    TempFsEnterCache c d' = Inr type \<and> TempFsGetAttribs c d' = Inr (0, name) \<and>
    (\<exists>n listing. TempFsReadDir h True d = Inr (n, listing) \<and>
       TempFsReadDir h True d' = Inr (n + 1, listing @ [c])) \<and>
    (\<forall>g x. tfs_valid d g \<and> (g, x) \<noteq> (h, name) \<longrightarrow> TempFsFindChild g x d' = TempFsFindChild g x d) \<and>
    (\<forall>g. tfs_valid d g \<longrightarrow> TempFsGetAttribs g d' = TempFsGetAttribs g d \<and>
       TempFsEnterCache g d' = TempFsEnterCache g d)"
proof -
  let ?P = "tfs_node_of d h"
  obtain pa where pa: "td_nodes d ! (h - 1) = Some pa" "td_store d pa = Some ?P" and
    create: "TempFsCreate h type name d = Inr (length (td_nodes d) + 1, created pa ?P type name d)"
    using TempFsCreate_created [OF assms(1,2) String_span_text [OF assms(4,5)]] by auto
  define d' c where "d' = created pa ?P type name d" and "c = length (td_nodes d) + 1"
  note F = created_facts [OF assms(1,2,3) pa refl this]
  have ch: "\<forall>c \<in> set (tn_children ?P). td_store d c \<noteq> None" using tfs_wf_node(5) [OF assms(1) pa(2)] .
  have lim: "sz_add (c - 1) 1 = c" "c - 1 + 1 = c" using assms(3) by (simp_all add: c_def sz_simps)
  have h: "tn_id ?P + 1 = h" using tn_id_node_of [OF assms(1,2)] assms(2) by (simp add: tfs_valid_def)
  have old: "find_child_loop d name (tn_children ?P) = Inr NPK_INVALID_HANDLE"
    using assms(4,6,7) FindChild_valid [OF assms(1,2,4)] by (auto simp: dot_name_def)
  have 1: "TempFsFindChild h name d' = Inr c" "TempFsFindChild c ''..'' d' = Inr h"
    using FindChild_valid [OF F(1,6) assms(4)] FindChild_valid [OF F(1,5), of "''..''"] assms(6) h lim F(9)
      find_child_loop_new(2) [OF assms(1) F(2) ch F(7) _ old] by (simp_all add: F(8,10) dot_name_def)
  have 2: "TempFsFindChild g x d' = TempFsFindChild g x d"
    if g: "tfs_valid d g" "(g, x) \<noteq> (h, name)" for g x
  proof (rule FindChild_kept [OF assms(1) F(1,2) g(1) F(3)], cases "g = h")
    case True
    with g show "find_child_loop d' x (tn_children (tfs_node_of d' g)) =
        find_child_loop d x (tn_children (tfs_node_of d g))"
      using find_child_loop_new(1) [OF assms(1) F(2) ch F(7)] by (simp add: F(8,10))
  next
    case False
    from assms(1) g(1) obtain a where "td_store d a = Some (tfs_node_of d g)" by (rule tfs_wf_slot)
    then show "find_child_loop d' x (tn_children (tfs_node_of d' g)) =
        find_child_loop d x (tn_children (tfs_node_of d g))"
      using find_child_loop_kept [OF F(2) tfs_wf_node(5) [OF assms(1)]] F(11) [OF g(1) False] by simp
  qed
  have 3: "TempFsGetAttribs g d' = TempFsGetAttribs g d \<and> TempFsEnterCache g d' = TempFsEnterCache g d"
    if "tfs_valid d g" for g
  proof -
    have "tfs_valid d' g" using that by (simp add: tfs_valid_def d'_def created_def)
    then show ?thesis
      using GetAttribs_valid [OF F(1)] GetAttribs_valid [OF assms(1) that]
        node_of_kept [OF F(2) assms(1) that F(3)] by (simp add: node_face_def)
  qed
  have "map (\<lambda>c. tn_id (the (td_store d' c)) + 1) (tn_children ?P) =
      map (\<lambda>c. tn_id (the (td_store d c)) + 1) (tn_children ?P)"
    using ch F(2) by (fastforce simp: faces_kept_def node_face_def)
  then have 4: "\<exists>n listing. TempFsReadDir h True d = Inr (n, listing) \<and>
      TempFsReadDir h True d' = Inr (n + 1, listing @ [c])"
    using ReadDir_valid [OF F(1,6)] ReadDir_valid [OF assms(1,2)] F(7) lim by (simp add: F(8,10))
  have 5: "TempFsEnterCache c d' = Inr type" "TempFsGetAttribs c d' = Inr (0, name)"
    using GetAttribs_valid [OF F(1,5)] by (simp_all add: F(8))
  show ?thesis
    using create F(1,4,5) 1 2 3 4 5 by (intro exI [of _ c] exI [of _ d']) (simp add: c_def d'_def)
qed

definition tfs_root :: tfs_data where
  "tfs_root = \<lparr> td_store = [0 \<mapsto> \<lparr> tn_parent = None, tn_children = [], tn_type = N_Directory, tn_id = 0,
      tn_name = [], tn_size = 0 \<rparr>], td_fresh = 1, td_nodes = [Some 0], td_tag = ''initdisk'' \<rparr>"

lemma tfs_root_wf: "tfs_wf tfs_root"
  by (auto simp: tfs_wf_def tfs_root_def size_limit_def split: if_splits)

lemma tempfs_create_find_example:
  "\<exists>c d'. TempFsCreate 1 N_File ''init'' tfs_root = Inr (c, d') \<and> tfs_wf d' \<and>
     TempFsFindChild 1 ''init'' d' = Inr c \<and> TempFsGetAttribs c d' = Inr (0, ''init'')"
proof -
  have "tfs_valid tfs_root 1" "length (td_nodes tfs_root) + 2 < size_limit"
    by (simp_all add: tfs_valid_def tfs_root_def size_limit_def)
  moreover have "TempFsFindChild 1 ''init'' tfs_root = Inr NPK_INVALID_HANDLE"
    by (simp add: TempFsFindChild_def node_at_def tfs_root_def deref_def sz_sub_def size_limit_def)
  ultimately show ?thesis
    using tempfs_create_find [OF tfs_root_wf, of 1 "''init''" N_File] by (fastforce simp: dot_name_def)
qed

subsection \<open>Every reachable filesystem\<close>

inductive tfs_reach :: "tfs_data \<Rightarrow> bool" where
  tfs_init: "CreateTempFs addApi tag = Inr (i, d) \<Longrightarrow> tfs_reach d"
| tfs_create: "tfs_reach d \<Longrightarrow> h < size_limit \<Longrightarrow> length (td_nodes d) + 2 < size_limit \<Longrightarrow>
    TempFsCreate h type name d = Inr (c, d') \<Longrightarrow> tfs_reach d'"
| tfs_set: "tfs_reach d \<Longrightarrow> h < size_limit \<Longrightarrow>
    TempFsSetAttribs h attribs fs fn d = Inr (ok, d') \<Longrightarrow> tfs_reach d'"

lemma handle_valid: "h < size_limit \<Longrightarrow> tfs_wf d \<Longrightarrow> sz_sub h 1 < length (td_nodes d) \<Longrightarrow> tfs_valid d h"
  by (cases "h = 0") (auto simp: tfs_valid_def tfs_wf_def sz_simps sz_sub_wrap)

lemma SetAttribs_shape:
  assumes "tfs_wf d" "h < size_limit" "TempFsSetAttribs h attribs fs fn d = Inr (ok, d')"
  shows "\<exists>a n. td_store d a = Some n \<and> tfs_valid d h \<and> n = tfs_node_of d h \<and> (\<exists>sz nm.
    d' = d\<lparr> td_store := (td_store d)(a \<mapsto> n\<lparr> tn_size := sz, tn_name := nm \<rparr>) \<rparr> \<and>
    sz = (if fs then fst attribs else tn_size n) \<and> (\<not> fn \<longrightarrow> nm = tn_name n) \<and>
    (fn \<longrightarrow> (\<exists>s. String_span (snd attribs) = Inr s \<and> nm = str_text s)))"
proof -
  from assms(3) have "sz_sub h 1 < length (td_nodes d)"
    by (auto simp: TempFsSetAttribs_def Let_def split: if_splits)
  then have v: "tfs_valid d h" using handle_valid assms(1,2) by blast
  from assms(1) this obtain a where a: "sz_sub h 1 = h - 1" "h - 1 < length (td_nodes d)"
    "td_nodes d ! (h - 1) = Some a" "td_store d a = Some (tfs_node_of d h)" by (rule tfs_wf_slot)
  have "node\<lparr> tn_name := x, tn_size := y \<rparr> = node\<lparr> tn_size := y, tn_name := x \<rparr>" for node x y
    by (cases node) simp
  moreover have "tfs_node_of d h = (tfs_node_of d h)\<lparr> tn_size := tn_size (tfs_node_of d h),
      tn_name := tn_name (tfs_node_of d h) \<rparr>" by simp
  ultimately show ?thesis
    using assms(3) a v by (cases fs; cases fn)
      (fastforce simp: TempFsSetAttribs_def deref_def res_bind_Inr Let_def)+
qed

lemma SetAttribs_wf:
  assumes "tfs_wf d" "h < size_limit" "TempFsSetAttribs h attribs fs fn d = Inr (ok, d')"
  shows "tfs_wf d'"
proof -
  from SetAttribs_shape [OF assms] obtain a n sz nm where n: "td_store d a = Some n" and
    d': "d' = d\<lparr> td_store := (td_store d)(a \<mapsto> n\<lparr> tn_size := sz, tn_name := nm \<rparr>) \<rparr>" by blast
  have old: "td_store d b \<noteq> None \<longleftrightarrow> td_store d' b \<noteq> None" for b using n by (auto simp: d')
  have same: "td_nodes d' = td_nodes d" "td_fresh d' = td_fresh d" by (simp_all add: d')
  have 1: "\<exists>b m. td_nodes d ! i = Some b \<and> td_store d' b = Some m \<and> tn_id m = i"
    if i: "i < length (td_nodes d)" for i
  proof -
    obtain b m where "td_nodes d ! i = Some b" "td_store d b = Some m" "tn_id m = i"
      using assms(1) i by (auto simp: tfs_wf_def)
    with n show ?thesis by (auto simp: d')
  qed
  have 2: "b < td_fresh d \<and> tn_id m < length (td_nodes d) \<and> td_nodes d ! tn_id m = Some b \<and>
      (\<forall>p. tn_parent m = Some p \<longrightarrow> td_store d' p \<noteq> None) \<and> (\<forall>c \<in> set (tn_children m). td_store d' c \<noteq> None)"
    if m: "td_store d' b = Some m" for b m
  proof -
    obtain m0 where m0: "td_store d b = Some m0" "tn_id m = tn_id m0" "tn_parent m = tn_parent m0"
      "tn_children m = tn_children m0"
      using m n by (cases "b = a") (auto simp: d')
    show ?thesis using tfs_wf_node [OF assms(1) m0(1)] m0 old by (metis (no_types, lifting))
  qed
  show ?thesis using 1 2 assms(1) by (simp add: tfs_wf_def same)
qed

lemma tfs_reach_wf: "tfs_reach d \<Longrightarrow> tfs_wf d"
proof (induction rule: tfs_reach.induct)
  case (tfs_init addApi tag i d)
  then have "d\<lparr> td_tag := [] \<rparr> = tfs_root\<lparr> td_tag := [] \<rparr>"
    by (auto simp: CreateTempFs_def Let_def res_bind_Inr tfs_root_def split: option.splits)
  then have "td_store d = td_store tfs_root" "td_nodes d = td_nodes tfs_root" "td_fresh d = td_fresh tfs_root"
    by (metis tfs_data.select_convs(1-3) tfs_data.surjective tfs_data.update_convs(4))+
  with tfs_root_wf show ?case by (simp add: tfs_wf_def)
next
  case (tfs_create d h type name c d')
  then have "sz_sub h 1 < length (td_nodes d)"
    by (auto simp: TempFsCreate_def Let_def split: if_splits)
  then have "tfs_valid d h" using handle_valid tfs_create by blast
  moreover obtain nm where "String_span name = Inr nm"
    using tfs_create.hyps(4) by (auto simp: TempFsCreate_def Let_def res_bind_Inr split: if_splits)
  ultimately show ?case
    using TempFsCreate_created [of d h name nm type] tfs_create created_wf by fastforce
next
  case (tfs_set d h attribs fs fn ok d')
  then show ?case using SetAttribs_wf by blast
qed

lemma stored_handle_valid:
  assumes "tfs_wf d" "td_store d a = Some n"
  shows "tfs_valid d (tn_id n + 1)" "sz_add (tn_id n) 1 = tn_id n + 1"
  using tfs_wf_node(2) [OF assms] assms(1) by (simp_all add: tfs_valid_def tfs_wf_def sz_simps)

lemma find_child_loop_total:
  assumes "tfs_wf d" "\<forall>c \<in> set cs. td_store d c \<noteq> None"
  shows "\<exists>r. find_child_loop d x cs = Inr r \<and> (r = NPK_INVALID_HANDLE \<or> tfs_valid d r)"
  using assms(2)
proof (induction cs)
  case (Cons c cs)
  then obtain n where "td_store d c = Some n" by auto
  with Cons stored_handle_valid [OF assms(1) this] show ?case by (auto simp: deref_def)
qed simp

lemma FindChild_total:
  assumes wf: "tfs_wf d" and h: "tfs_valid d h"
  shows "\<exists>r. TempFsFindChild h x d = Inr r \<and> (r = NPK_INVALID_HANDLE \<or> tfs_valid d r)"
proof (cases "x = []")
  case True
  then show ?thesis by (simp add: TempFsFindChild_def)
next
  case False
  from wf h obtain a where a: "td_store d a = Some (tfs_node_of d h)" by (rule tfs_wf_slot)
  have "tfs_valid d (tn_id (the (td_store d p)) + 1)" if "tn_parent (tfs_node_of d h) = Some p" for p
    using tfs_wf_node(4) [OF wf a that] stored_handle_valid(1) [OF wf] by auto
  then show ?thesis
    using FindChild_valid [OF wf h False] find_child_loop_total [OF wf tfs_wf_node(5) [OF wf a], of x] h
    by (auto split: option.splits)
qed

lemma SetAttribs_size:
  assumes "tfs_wf d" "tfs_valid d h"
  shows "\<exists>d'. TempFsSetAttribs h (sz, nm) True False d = Inr (True, d') \<and>
    TempFsGetAttribs h d' = Inr (sz, tn_name (tfs_node_of d h))"
proof -
  from assms obtain a where a: "sz_sub h 1 = h - 1" "h - 1 < length (td_nodes d)"
    "td_nodes d ! (h - 1) = Some a" "td_store d a = Some (tfs_node_of d h)" by (rule tfs_wf_slot)
  then show ?thesis by (simp add: TempFsSetAttribs_def TempFsGetAttribs_def node_at_def deref_def)
qed

text \<open>In every filesystem that creating nodes and setting attributes can reach, the handlers for entering the cache, reading a directory, lookup and attributes
  return on every valid handle, the handles in a listing are valid, a lookup returns a valid
  handle or the invalid one, and a size that is set is read back.\<close>

lemma tempfs_reachable_total:
  assumes "tfs_reach d" "tfs_valid d h"
  shows "(\<exists>t. TempFsEnterCache h d = Inr t) \<and>
    (\<exists>listing. TempFsReadDir h True d = Inr (length listing, listing) \<and> list_all (tfs_valid d) listing) \<and>
    (\<exists>r. TempFsFindChild h x d = Inr r \<and> (r = NPK_INVALID_HANDLE \<or> tfs_valid d r)) \<and>
    (\<exists>old name d'. TempFsGetAttribs h d = Inr (old, name) \<and>
       TempFsSetAttribs h (sz, []) True False d = Inr (True, d') \<and> TempFsGetAttribs h d' = Inr (sz, name))"
proof -
  have wf: "tfs_wf d" using tfs_reach_wf assms(1) .
  from wf assms(2) obtain a where a: "td_store d a = Some (tfs_node_of d h)" by (rule tfs_wf_slot)
  note ch = tfs_wf_node(5) [OF wf a]
  have "list_all (tfs_valid d) (map (\<lambda>c. tn_id (the (td_store d c)) + 1) (tn_children (tfs_node_of d h)))"
    using ch stored_handle_valid [OF wf] by (fastforce simp: list_all_iff)
  then have 1: "\<exists>listing. TempFsReadDir h True d = Inr (length listing, listing) \<and> list_all (tfs_valid d) listing"
    using ReadDir_valid [OF wf assms(2)] by fastforce
  show ?thesis
    using 1 FindChild_total [OF wf assms(2), of x] GetAttribs_valid [OF wf assms(2)] SetAttribs_size [OF wf assms(2), of sz "[]"] by simp
qed

lemma tempfs_reachable_total_example:
  "\<exists>r. TempFsFindChild 1 ''etc'' tfs_root = Inr r \<and> (r = NPK_INVALID_HANDLE \<or> tfs_valid tfs_root r)"
proof -
  have "CreateTempFs (\<lambda>_. Some 3) ''initdisk'' = Inr (3, tfs_root)"
    using String_span_text [of "''initdisk''"] by (simp add: CreateTempFs_def tfs_root_def)
  then have "tfs_reach tfs_root" by (rule tfs_init)
  moreover have "tfs_valid tfs_root 1" by (simp add: tfs_valid_def tfs_root_def)
  ultimately show ?thesis using tempfs_reachable_total [of tfs_root 1] by blast
qed

text \<open>C32: in every filesystem that creating nodes and setting attributes can reach, \<open>TempFsCreate\<close> below a valid node, with a
  name that is not empty, does not end in a zero character, is neither of the dot names and is not found there yet, returns a handle that was not in
  use. The new node is found under its name, its \<open>..\<close> is the node it was created in, it has the given type and size zero and is listed
  last; no lookup of another name or in another node, no attribute and no type changes. The new filesystem is reachable again.\<close>

theorem tempfs_created_found:
  assumes "tfs_reach d" "tfs_valid d h" "length (td_nodes d) + 2 < size_limit"
    "name \<noteq> []" "last name \<noteq> NUL" "\<not> dot_name name" "TempFsFindChild h name d = Inr NPK_INVALID_HANDLE"
  shows "\<exists>c d'. TempFsCreate h type name d = Inr (c, d') \<and> tfs_reach d' \<and> \<not> tfs_valid d c \<and> tfs_valid d' c \<and>
    TempFsFindChild h name d' = Inr c \<and> TempFsFindChild c ''..'' d' = Inr h \<and>
    TempFsEnterCache c d' = Inr type \<and> TempFsGetAttribs c d' = Inr (0, name) \<and>
    (\<exists>n listing. TempFsReadDir h True d = Inr (n, listing) \<and>
       TempFsReadDir h True d' = Inr (n + 1, listing @ [c])) \<and>
    (\<forall>g x. tfs_valid d g \<and> (g, x) \<noteq> (h, name) \<longrightarrow> TempFsFindChild g x d' = TempFsFindChild g x d) \<and>
    (\<forall>g. tfs_valid d g \<longrightarrow> TempFsGetAttribs g d' = TempFsGetAttribs g d \<and>
       TempFsEnterCache g d' = TempFsEnterCache g d)"
proof -
  have wf: "tfs_wf d" using tfs_reach_wf assms(1) .
  have "h < size_limit" using wf assms(2) by (simp add: tfs_wf_def tfs_valid_def)
  then have again: "TempFsCreate h type name d = Inr (c, d') \<Longrightarrow> tfs_reach d'" for c d'
    using tfs_create [OF assms(1) _ assms(3)] by blast
  from tempfs_create_find [OF wf assms(2-7), of type] again show ?thesis by blast
qed

theorem tempfs_created_found_witness:
  "\<exists>c d'. TempFsCreate 1 N_Directory ''etc'' tfs_root = Inr (c, d') \<and> TempFsFindChild 1 ''etc'' d' = Inr c \<and>
     TempFsFindChild c ''..'' d' = Inr 1 \<and> TempFsEnterCache c d' = Inr N_Directory \<and> TempFsGetAttribs c d' = Inr (0, ''etc'')"
proof -
  have "CreateTempFs (\<lambda>_. Some 3) ''initdisk'' = Inr (3, tfs_root)"
    using String_span_text [of "''initdisk''"] by (simp add: CreateTempFs_def tfs_root_def)
  then have "tfs_reach tfs_root" by (rule tfs_init)
  moreover have "tfs_valid tfs_root 1" "length (td_nodes tfs_root) + 2 < size_limit"
    by (simp_all add: tfs_valid_def tfs_root_def size_limit_def)
  moreover have "TempFsFindChild 1 ''etc'' tfs_root = Inr NPK_INVALID_HANDLE"
    by (simp add: TempFsFindChild_def node_at_def tfs_root_def deref_def sz_sub_def size_limit_def)
  moreover have "\<not> dot_name ''etc''" by (simp add: dot_name_def)
  ultimately have "\<exists>c d'. TempFsCreate 1 N_Directory ''etc'' tfs_root = Inr (c, d') \<and> tfs_reach d' \<and> \<not> tfs_valid tfs_root c \<and> tfs_valid d' c \<and>
    TempFsFindChild 1 ''etc'' d' = Inr c \<and> TempFsFindChild c ''..'' d' = Inr 1 \<and>
    TempFsEnterCache c d' = Inr N_Directory \<and> TempFsGetAttribs c d' = Inr (0, ''etc'') \<and>
    (\<exists>n listing. TempFsReadDir 1 True tfs_root = Inr (n, listing) \<and>
       TempFsReadDir 1 True d' = Inr (n + 1, listing @ [c])) \<and>
    (\<forall>g x. tfs_valid tfs_root g \<and> (g, x) \<noteq> (1, ''etc'') \<longrightarrow> TempFsFindChild g x d' = TempFsFindChild g x tfs_root) \<and>
    (\<forall>g. tfs_valid tfs_root g \<longrightarrow> TempFsGetAttribs g d' = TempFsGetAttribs g tfs_root \<and>
       TempFsEnterCache g d' = TempFsEnterCache g tfs_root)"
    by (intro tempfs_created_found) simp_all
  then show ?thesis by blast
qed

end
