(* ===== verification/Hat_X86.thy ===== *)
theory Hat_X86
  imports Pmm
begin

unbundle bit_operations_syntax

text \<open>
  \<open>kernel/arch/x86_64/Hat.cpp\<close>: the page tables of x86_64. A table is named by its physical
  address; the code reads and writes it at that address plus \<open>hhdmBase\<close>, a fixed offset that the
  model leaves out. Memory is the entries of all tables. What \<open>HatInit\<close> finds out about the
  processor is a record; the page allocator is an argument, with its contract as the
  locale \<open>page_source\<close>. TLB invalidation and loading \<open>cr3\<close> have no effect on the tables.
\<close>

subsection \<open>Tables\<close>

type_synonym pt_mem = "u64 \<Rightarrow> nat \<Rightarrow> u64"

record hat_cfg =
  pagingLevels :: nat
  modeCount :: nat
  mmu_nx :: bool
  mmu_globalPages :: bool
  addrMask :: u64

record hat_map =
  hm_root :: u64
  hm_generation :: u32
  hm_is_kernel :: bool

record 's hat_state =
  hs_mem :: pt_mem
  hs_pmm :: 's
  hs_kernel_gen :: u32

definition PageTableEntries :: nat where
  "PageTableEntries = 512"

definition PresentFlag :: u64 where
  "PresentFlag = 1"

definition SizeFlag :: u64 where
  "SizeFlag = push_bit 7 1"

definition NxFlag :: u64 where
  "NxFlag = push_bit 63 1"

text \<open>\<open>0xFFF\<close>, the flag bits at the bottom of an entry, and \<open>1 << 5\<close>, which the code clears when there are no global pages.\<close>

definition LowFlags :: u64 where
  "LowFlags = mask 12"

definition GlobalPageBit :: u64 where
  "GlobalPageBit = push_bit 5 1"

definition HatFlags_Write :: u64 where
  "HatFlags_Write = push_bit 1 1"

definition HatFlags_Global :: u64 where
  "HatFlags_Global = push_bit 8 1"

text \<open>Page sizes are numbered from 1; \<open>l\<close> is at least 1.\<close>

definition GetPageSize :: "nat \<Rightarrow> u64" where
  "GetPageSize l = push_bit (12 + 9 * (l - 1)) 1"

definition GetAddressIndices :: "u64 \<Rightarrow> nat \<Rightarrow> nat" where
  "GetAddressIndices vaddr k =
     unat (drop_bit (if k = 5 then 48 else if k = 4 then 39 else if k = 3 then 30
                     else if k = 2 then 21 else 12) vaddr AND 0x1FF)"

record walk_result =
  wr_level :: nat
  wr_pte :: "u64 \<times> nat"
  wr_complete :: bool

text \<open>The loop of \<open>WalkTables\<close>, from level \<open>Suc k\<close> down to 1.\<close>

fun walk_loop :: "hat_cfg \<Rightarrow> pt_mem \<Rightarrow> (nat \<Rightarrow> nat) \<Rightarrow> u64 \<Rightarrow> nat \<Rightarrow> walk_result" where
  "walk_loop c mem indices pt 0 = \<lparr> wr_level = 0, wr_pte = (pt, 0), wr_complete = False \<rparr>"
| "walk_loop c mem indices pt (Suc k) =
     (let e = mem pt (indices (Suc k)); pte = (pt, indices (Suc k))
      in if e AND PresentFlag = 0 then \<lparr> wr_level = Suc k, wr_pte = pte, wr_complete = False \<rparr>
         else if Suc k \<le> modeCount c \<and> e AND SizeFlag \<noteq> 0
         then \<lparr> wr_level = Suc k, wr_pte = pte, wr_complete = True \<rparr>
         else if k = 0 then \<lparr> wr_level = Suc k, wr_pte = pte, wr_complete = (e AND PresentFlag \<noteq> 0) \<rparr>
         else walk_loop c mem indices (e AND addrMask c) k)"

definition WalkTables :: "hat_cfg \<Rightarrow> pt_mem \<Rightarrow> u64 \<Rightarrow> u64 \<Rightarrow> walk_result" where
  "WalkTables c mem root vaddr =
     walk_loop c mem (GetAddressIndices vaddr) root (pagingLevels c)"

definition read_pte :: "pt_mem \<Rightarrow> u64 \<times> nat \<Rightarrow> u64" where
  "read_pte mem p = mem (fst p) (snd p)"

definition write_pte :: "pt_mem \<Rightarrow> u64 \<times> nat \<Rightarrow> u64 \<Rightarrow> pt_mem" where
  "write_pte mem p e = mem(fst p := (mem (fst p))(snd p := e))"

subsection \<open>Operations\<close>

definition zero_page :: "u64 \<Rightarrow> pt_mem \<Rightarrow> pt_mem" where
  "zero_page p mem = mem(p := (\<lambda>_. 0))"

definition addr_mask_of :: "nat \<Rightarrow> u64" where
  "addr_mask_of levels = (push_bit (9 * levels + 12) 1 - 1) AND NOT LowFlags"

text \<open>
  Making the tables down to the level \<open>target\<close>. From level 1 the code would go on to level 0, for
  which there is no index.
\<close>

fun make_tables ::
  "('s \<Rightarrow> (size_t \<times> 's) res) \<Rightarrow> hat_cfg \<Rightarrow> (nat \<Rightarrow> nat) \<Rightarrow> nat \<Rightarrow> nat \<Rightarrow> u64 \<times> nat \<Rightarrow> 's hat_state \<Rightarrow>
   ((u64 \<times> nat) \<times> 's hat_state) res" where
  "make_tables alloc c indices target 0 pte st = Inl Bad_Index"
| "make_tables alloc c indices target (Suc k) pte st =
     (if Suc k = target then Inr (pte, st)
      else res_bind (alloc (hs_pmm st)) (\<lambda>(page, pmm').
        let newPt = of_nat page :: u64;
            mem1 = zero_page newPt (hs_mem st);
            mem2 = write_pte mem1 pte (addrMask c AND newPt);
            mem3 = write_pte mem2 pte (read_pte mem2 pte OR (PresentFlag OR HatFlags_Write))
        in make_tables alloc c indices target k (newPt, indices k)
             (st\<lparr> hs_mem := mem3, hs_pmm := pmm' \<rparr>)))"

definition final_pte :: "hat_cfg \<Rightarrow> u64 \<Rightarrow> nat \<Rightarrow> u64 \<Rightarrow> u64" where
  "final_pte c paddr level flags =
     (let p1 = ((flags AND LowFlags) OR PresentFlag) OR (paddr AND addrMask c);
          p2 = (if level > 1 then p1 OR SizeFlag else p1);
          p3 = (if mmu_nx c \<and> NxFlag AND flags = 0 then p2 OR NxFlag else p2)
      in if \<not> mmu_globalPages c then p3 AND NOT GlobalPageBit else p3)"

definition bump_kernel :: "hat_map \<Rightarrow> 's hat_state \<Rightarrow> 's hat_state" where
  "bump_kernel hmap st = (if hm_is_kernel hmap then st\<lparr> hs_kernel_gen := hs_kernel_gen st + 1 \<rparr> else st)"

definition HatDoMap ::
  "('s \<Rightarrow> (size_t \<times> 's) res) \<Rightarrow> hat_cfg \<Rightarrow> hat_map \<Rightarrow> u64 \<Rightarrow> u64 \<Rightarrow> nat \<Rightarrow> u64 \<Rightarrow> 's hat_state \<Rightarrow>
   (bool \<times> 's hat_state) res" where
  "HatDoMap alloc c hmap vaddr paddr mode flags st =
     (if mode \<ge> modeCount c then Inr (False, st)
      else let path = WalkTables c (hs_mem st) (hm_root hmap) vaddr
           in if wr_complete path then Inr (False, st)
              else res_bind
                     (make_tables alloc c (GetAddressIndices vaddr) (mode + 1) (wr_level path) (wr_pte path) st)
                     (\<lambda>(pte, st1).
                        Inr (True, bump_kernel hmap
                          (st1\<lparr> hs_mem := write_pte (hs_mem st1) pte (final_pte c paddr (mode + 1) flags) \<rparr>))))"

text \<open>The result is the physical address and the mode that the code returns by reference.\<close>

definition HatDoUnmap ::
  "hat_cfg \<Rightarrow> hat_map \<Rightarrow> u64 \<Rightarrow> 's hat_state \<Rightarrow> (u64 \<times> nat) option \<times> 's hat_state" where
  "HatDoUnmap c hmap vaddr st =
     (let path = WalkTables c (hs_mem st) (hm_root hmap) vaddr
      in if \<not> wr_complete path then (None, st)
         else let paddr = read_pte (hs_mem st) (wr_pte path) AND addrMask c;
                  st1 = st\<lparr> hs_mem := write_pte (hs_mem st) (wr_pte path) 0 \<rparr>
              in (Some (paddr, wr_level path - 1),
                  if wr_level path = pagingLevels c then bump_kernel hmap st1 else st1))"

definition HatGetMap :: "hat_cfg \<Rightarrow> pt_mem \<Rightarrow> u64 \<Rightarrow> u64 \<Rightarrow> (u64 \<times> nat) option" where
  "HatGetMap c mem root vaddr =
     (let path = WalkTables c mem root vaddr
      in if \<not> wr_complete path then None
         else let offsetMask = GetPageSize (wr_level path) - 1
              in Some ((read_pte mem (wr_pte path) AND addrMask c) OR (vaddr AND offsetMask),
                       wr_level path - 1))"

text \<open>\<open>PageSize\<close> is the size of a page, \<open>0x1000\<close>.\<close>

definition sync_flags :: "hat_cfg \<Rightarrow> nat \<Rightarrow> u64 \<Rightarrow> u64" where
  "sync_flags c level flags =
     (let n1 = (flags AND LowFlags) OR PresentFlag;
          n2 = (if level > 1 then n1 OR of_nat PageSize else n1);
          n3 = (if mmu_nx c \<and> NxFlag AND flags = 0 then n2 OR NxFlag else n2)
      in if \<not> mmu_globalPages c then n3 AND NOT GlobalPageBit else n3)"

definition HatSyncMap ::
  "hat_cfg \<Rightarrow> hat_map \<Rightarrow> u64 \<Rightarrow> u64 option \<Rightarrow> u64 option \<Rightarrow> 's hat_state \<Rightarrow> bool \<times> 's hat_state" where
  "HatSyncMap c hmap vaddr paddr flags st =
     (let path = WalkTables c (hs_mem st) (hm_root hmap) vaddr
      in if \<not> wr_complete path then (False, st)
         else let mem1 = (case paddr of None \<Rightarrow> hs_mem st
                          | Some p \<Rightarrow> write_pte (hs_mem st) (wr_pte path)
                              ((read_pte (hs_mem st) (wr_pte path) AND NOT (addrMask c)) OR (p AND addrMask c)));
                  mem2 = (case flags of None \<Rightarrow> mem1
                          | Some f \<Rightarrow> write_pte mem1 (wr_pte path)
                              ((read_pte mem1 (wr_pte path) AND addrMask c) OR sync_flags c (wr_level path) f))
              in (True, st\<lparr> hs_mem := mem2 \<rparr>))"

subsection \<open>Maps\<close>

definition HatCreateMap ::
  "('s \<Rightarrow> (size_t \<times> 's) res) \<Rightarrow> u32 \<Rightarrow> 's hat_state \<Rightarrow> (hat_map \<times> 's hat_state) res" where
  "HatCreateMap alloc garbage st =
     res_bind (alloc (hs_pmm st)) (\<lambda>(page, pmm').
       let root = of_nat page :: u64; mem = hs_mem st
       in Inr (\<lparr> hm_root = root, hm_generation = garbage, hm_is_kernel = False \<rparr>,
               st\<lparr> hs_mem := mem(root := (\<lambda>i. if i < PageTableEntries div 2 then 0 else mem root i)),
                   hs_pmm := pmm' \<rparr>))"

text \<open>
  \<open>CleanupPageTable\<close> follows every present entry, at any level. The model follows it to the given
  depth and returns the pages it frees, in order; \<open>None\<close> is that the depth was not enough.
\<close>

fun CleanupPageTable :: "nat \<Rightarrow> hat_cfg \<Rightarrow> pt_mem \<Rightarrow> u64 \<Rightarrow> u64 list option" where
  "CleanupPageTable 0 c mem pt = None"
| "CleanupPageTable (Suc n) c mem pt =
     (case those (map (\<lambda>i. if mem pt i AND PresentFlag = 0 then Some []
                           else CleanupPageTable n c mem (mem pt i AND addrMask c)) [0..<PageTableEntries]) of
        None \<Rightarrow> None
      | Some fs \<Rightarrow> Some (concat fs @ [pt]))"

definition HatDestroyMap :: "nat \<Rightarrow> hat_cfg \<Rightarrow> pt_mem \<Rightarrow> hat_map option \<Rightarrow> u64 list option" where
  "HatDestroyMap n c mem hmap =
     (case hmap of None \<Rightarrow> Some [] | Some m \<Rightarrow> CleanupPageTable n c mem (hm_root m))"

definition SyncWithMasterMap :: "hat_map \<Rightarrow> hat_map \<Rightarrow> 's hat_state \<Rightarrow> hat_map \<times> 's hat_state" where
  "SyncWithMasterMap kmap hmap st =
     (let mem = hs_mem st; dest = hm_root hmap; source = hm_root kmap
      in (hmap\<lparr> hm_generation := hs_kernel_gen st \<rparr>,
          st\<lparr> hs_mem := mem(dest := (\<lambda>i. if PageTableEntries div 2 \<le> i \<and> i < PageTableEntries
                                           then mem source i else mem dest i)) \<rparr>))"

text \<open>The third result is the value loaded into \<open>cr3\<close>.\<close>

definition HatMakeActive :: "hat_map \<Rightarrow> hat_map \<Rightarrow> 's hat_state \<Rightarrow> hat_map \<times> 's hat_state \<times> u64" where
  "HatMakeActive kmap hmap st =
     (let (m, st') = (if hm_is_kernel hmap then (hmap, st) else SyncWithMasterMap kmap hmap st)
      in (m, st', hm_root m))"

definition hat_detect :: "u64 \<Rightarrow> bool \<Rightarrow> bool \<Rightarrow> bool \<Rightarrow> hat_cfg" where
  "hat_detect cr4 pml3 nx globalPages =
     (let levels = (if cr4 AND push_bit 12 1 \<noteq> 0 then 5 else 4)
      in \<lparr> pagingLevels = levels, modeCount = (if pml3 then 3 else 2), mmu_nx = nx,
           mmu_globalPages = globalPages, addrMask = addr_mask_of levels \<rparr>)"

fun hhdm_page_size :: "size_t \<Rightarrow> nat \<Rightarrow> nat" where
  "hhdm_page_size hhdmLength 0 = 0"
| "hhdm_page_size hhdmLength (Suc n) =
     (if unat (GetPageSize (Suc n)) > hhdmLength then hhdm_page_size hhdmLength n else Suc n)"

definition hhdm_map_page ::
  "('s \<Rightarrow> (size_t \<times> 's) res) \<Rightarrow> hat_cfg \<Rightarrow> hat_map \<Rightarrow> u64 \<Rightarrow> nat \<Rightarrow> nat \<Rightarrow> 's hat_state \<Rightarrow> 's hat_state res" where
  "hhdm_map_page alloc c kmap hhdmBase psize n st =
     (let i = GetPageSize psize * of_nat n
      in res_bind (HatDoMap alloc c kmap (hhdmBase + i) i (psize - 1) (HatFlags_Write OR HatFlags_Global) st)
           (\<lambda>(ok, st'). Inr st'))"

definition HatInit ::
  "('s \<Rightarrow> (size_t \<times> 's) res) \<Rightarrow> u64 \<Rightarrow> bool \<Rightarrow> bool \<Rightarrow> bool \<Rightarrow> u64 \<Rightarrow> size_t \<Rightarrow> 's hat_state \<Rightarrow>
   (hat_cfg \<times> hat_map \<times> size_t \<times> 's hat_state) res" where
  "HatInit alloc cr4 pml3 nx globalPages hhdmBase hhdmLength st =
     (let c = hat_detect cr4 pml3 nx globalPages
      in res_bind (alloc (hs_pmm st)) (\<lambda>(page, pmm').
        let root = of_nat page;
            kmap = \<lparr> hm_root = root, hm_generation = 0, hm_is_kernel = True \<rparr>;
            st1 = st\<lparr> hs_mem := zero_page root (hs_mem st), hs_pmm := pmm', hs_kernel_gen := 0 \<rparr>;
            psize = hhdm_page_size hhdmLength (if pml3 then 3 else 2);
            bytes = unat (GetPageSize psize)
        in if \<not> hhdmLength \<ge> unat (GetPageSize 1) then Inl Assert_Failed
           else res_bind (res_fold (hhdm_map_page alloc c kmap hhdmBase psize)
                            [0..<(hhdmLength + bytes - 1) div bytes] st1)
                  (\<lambda>st2. Inr (c, kmap, AlignUp hhdmLength bytes, st2))))"

subsection \<open>Walks\<close>

definition pt_present :: "u64 \<Rightarrow> bool" where
  "pt_present e = (e AND PresentFlag \<noteq> 0)"

definition pt_leaf :: "hat_cfg \<Rightarrow> nat \<Rightarrow> u64 \<Rightarrow> bool" where
  "pt_leaf c k e = (k \<le> modeCount c \<and> e AND SizeFlag \<noteq> 0)"

definition descends :: "hat_cfg \<Rightarrow> nat \<Rightarrow> u64 \<Rightarrow> bool" where
  "descends c k e = (pt_present e \<and> \<not> pt_leaf c k e \<and> 1 < k)"

lemmas pt_defs = pt_present_def pt_leaf_def descends_def

lemma walk_loop_Suc:
  "walk_loop c mem ind pt (Suc k) =
     (if descends c (Suc k) (mem pt (ind (Suc k))) then walk_loop c mem ind (mem pt (ind (Suc k)) AND addrMask c) k
      else \<lparr> wr_level = Suc k, wr_pte = (pt, ind (Suc k)), wr_complete = pt_present (mem pt (ind (Suc k))) \<rparr>)"
  by (simp add: pt_defs Let_def)

text \<open>The walk with the given indices that starts at a table of level \<open>l\<close> visits table \<open>t\<close> at level \<open>k\<close>.\<close>

fun reaches :: "hat_cfg \<Rightarrow> pt_mem \<Rightarrow> (nat \<Rightarrow> nat) \<Rightarrow> u64 \<Rightarrow> nat \<Rightarrow> nat \<Rightarrow> u64 \<Rightarrow> bool" where
  "reaches c mem ind pt 0 k t = False"
| "reaches c mem ind pt (Suc l) k t =
     (k = Suc l \<and> t = pt \<or>
      descends c (Suc l) (mem pt (ind (Suc l))) \<and>
      reaches c mem ind (mem pt (ind (Suc l)) AND addrMask c) l k t)"

declare walk_loop.simps(2) [simp del]

lemma reaches_le: "reaches c mem ind pt l k t \<Longrightarrow> 1 \<le> k \<and> k \<le> l"
  by (induction l arbitrary: pt) force+

lemma walk_loop_end:
  "0 < l \<Longrightarrow> walk_loop c mem ind pt l = r \<Longrightarrow>
   reaches c mem ind pt l (wr_level r) (fst (wr_pte r)) \<and> snd (wr_pte r) = ind (wr_level r) \<and>
   \<not> descends c (wr_level r) (read_pte mem (wr_pte r)) \<and> wr_complete r = pt_present (read_pte mem (wr_pte r))"
proof (induction l arbitrary: pt)
  case (Suc l)
  show ?case
  proof (cases "descends c (Suc l) (mem pt (ind (Suc l)))")
    case True
    then have "0 < l" by (simp add: descends_def)
    with Suc True show ?thesis by (simp add: walk_loop_Suc)
  next
    case False
    with Suc.prems(2) show ?thesis by (auto simp: walk_loop_Suc read_pte_def)
  qed
qed simp

lemma write_pte_read: "write_pte mem (t, i) e t' j = (if t' = t \<and> j = i then e else mem t' j)"
  by (simp add: write_pte_def)

text \<open>A write to an entry that a walk does not read changes neither its result nor its tables.\<close>

lemma walk_other:
  assumes "\<forall>k. reaches c mem ind pt l k t \<longrightarrow> ind k \<noteq> i"
  shows "walk_loop c (write_pte mem (t, i) e) ind pt l = walk_loop c mem ind pt l"
    "reaches c (write_pte mem (t, i) e) ind pt l k2 t2 = reaches c mem ind pt l k2 t2"
  using assms
proof (induction l arbitrary: pt)
  case (Suc l)
  {
    case 1
    then have same: "write_pte mem (t, i) e pt (ind (Suc l)) = mem pt (ind (Suc l))"
      by (auto simp: write_pte_read)
    show ?case using Suc.IH(1) 1 by (simp add: walk_loop_Suc same)
  next
    case 2
    then have same: "write_pte mem (t, i) e pt (ind (Suc l)) = mem pt (ind (Suc l))"
      by (auto simp: write_pte_read)
    show ?case using Suc.IH(2) 2 by (simp add: same) blast
  }
qed auto

text \<open>
  A write to the entry at which a walk ends: every walk that agrees with it down to that level gets
  there as before and goes on with the new entry.
\<close>

lemma walk_through:
  assumes "0 < l" "walk_loop c mem ind pt l = r" "wr_level r = k" "wr_pte r = (t, i)"
    "\<forall>k'. reaches c mem ind pt l k' t \<longrightarrow> k' = k" "\<forall>j. k \<le> j \<and> j \<le> l \<longrightarrow> ind' j = ind j"
  shows "walk_loop c (write_pte mem (t, i) e) ind' pt l = walk_loop c (write_pte mem (t, i) e) ind' t k \<and>
    (reaches c (write_pte mem (t, i) e) ind' pt l k2 t2 \<longleftrightarrow>
       k < k2 \<and> reaches c mem ind pt l k2 t2 \<or> reaches c (write_pte mem (t, i) e) ind' t k k2 t2)"
  using assms
proof (induction l arbitrary: pt)
  case (Suc l)
  let ?m = "write_pte mem (t, i) e" and ?e = "mem pt (ind (Suc l))"
  show ?case
  proof (cases "descends c (Suc l) ?e")
    case True
    let ?p = "?e AND addrMask c"
    have l: "0 < l" using True by (simp add: descends_def)
    have r: "walk_loop c mem ind ?p l = r" using True Suc.prems(2) by (simp add: walk_loop_Suc)
    have k: "k \<le> l" using walk_loop_end [OF l r] reaches_le Suc.prems(3) by blast
    have ne: "pt \<noteq> t" using Suc.prems(5) k by fastforce
    have ind: "ind' (Suc l) = ind (Suc l)" using Suc.prems(6) k by simp
    have "walk_loop c ?m ind' ?p l = walk_loop c ?m ind' t k \<and>
      (reaches c ?m ind' ?p l k2 t2 \<longleftrightarrow> k < k2 \<and> reaches c mem ind ?p l k2 t2 \<or> reaches c ?m ind' t k k2 t2)"
      using Suc.prems True by (intro Suc.IH l r) auto
    moreover have "?m pt (ind' (Suc l)) = ?e" using ne ind by (simp add: write_pte_read)
    ultimately show ?thesis using True k by (auto simp: walk_loop_Suc)
  next
    case False
    with Suc.prems(2) have r: "r = \<lparr> wr_level = Suc l, wr_pte = (pt, ind (Suc l)), wr_complete = pt_present ?e \<rparr>"
      by (simp add: walk_loop_Suc)
    with Suc.prems(3,4) have "k = Suc l" "t = pt" by auto
    then show ?thesis using reaches_le [of c mem ind pt "Suc l" k2 t2] by auto
  qed
qed simp

subsection \<open>Trees of tables\<close>

text \<open>
  The tables of a map form a tree: a table is reached at one level only, and only by addresses that
  agree on the indices above that level.
\<close>

definition agree :: "hat_cfg \<Rightarrow> nat \<Rightarrow> (nat \<Rightarrow> nat) \<Rightarrow> (nat \<Rightarrow> nat) \<Rightarrow> bool" where
  "agree c k i1 i2 \<longleftrightarrow> (\<forall>j. k \<le> j \<and> j \<le> pagingLevels c \<longrightarrow> i1 j = i2 j)"

definition hat_tree :: "hat_cfg \<Rightarrow> pt_mem \<Rightarrow> u64 \<Rightarrow> bool" where
  "hat_tree c mem root \<longleftrightarrow>
     (\<forall>i1 i2 k1 k2 t. reaches c mem i1 root (pagingLevels c) k1 t \<and> reaches c mem i2 root (pagingLevels c) k2 t \<longrightarrow>
        k1 = k2 \<and> agree c (Suc k1) i1 i2)"

definition hat_tables :: "hat_cfg \<Rightarrow> pt_mem \<Rightarrow> u64 \<Rightarrow> u64 set" where
  "hat_tables c mem root = {t. \<exists>ind k. reaches c mem ind root (pagingLevels c) k t}"

lemma agree_sym: "agree c k i1 i2 \<Longrightarrow> agree c k i2 i1"
  by (simp add: agree_def)

lemma agree_trans: "agree c k i1 i2 \<Longrightarrow> agree c k i2 i3 \<Longrightarrow> agree c k i1 i3"
  by (simp add: agree_def)

lemma agree_Suc: "k \<le> pagingLevels c \<Longrightarrow> agree c k i1 i2 \<longleftrightarrow> i1 k = i2 k \<and> agree c (Suc k) i1 i2"
  by (auto simp: agree_def) (metis Suc_leI le_neq_implies_less)

lemma agree_mono: "agree c k i1 i2 \<Longrightarrow> k \<le> k' \<Longrightarrow> agree c k' i1 i2"
  by (auto simp: agree_def)

text \<open>The end of the walk of an address, and a write to its entry seen from all addresses.\<close>

definition ends_at :: "hat_cfg \<Rightarrow> pt_mem \<Rightarrow> u64 \<Rightarrow> (nat \<Rightarrow> nat) \<Rightarrow> nat \<Rightarrow> u64 \<Rightarrow> nat \<Rightarrow> bool" where
  "ends_at c mem root ind k t i \<longleftrightarrow> 0 < pagingLevels c \<and> hat_tree c mem root \<and>
     wr_level (walk_loop c mem ind root (pagingLevels c)) = k \<and>
     wr_pte (walk_loop c mem ind root (pagingLevels c)) = (t, i)"

lemma end_facts:
  assumes "ends_at c mem root ind k t i"
  shows "reaches c mem ind root (pagingLevels c) k t" "i = ind k" "\<not> descends c k (mem t i)"
    "wr_complete (walk_loop c mem ind root (pagingLevels c)) = pt_present (mem t i)" "1 \<le> k" "k \<le> pagingLevels c"
  using walk_loop_end [OF _ refl, of "pagingLevels c" c mem ind root] assms reaches_le
  by (auto simp: read_pte_def ends_at_def)

lemma end_unique:
  "ends_at c mem root ind k t i \<Longrightarrow> reaches c mem ind' root (pagingLevels c) k' t \<Longrightarrow>
   k' = k \<and> agree c (Suc k) ind ind'"
  using end_facts(1) unfolding ends_at_def hat_tree_def by blast

lemma end_not_read:
  assumes "ends_at c mem root ind k t i" "\<not> agree c k ind ind'"
  shows "\<forall>k'. reaches c mem ind' root (pagingLevels c) k' t \<longrightarrow> ind' k' \<noteq> i"
proof (intro allI impI notI)
  fix k' assume "reaches c mem ind' root (pagingLevels c) k' t" and i: "ind' k' = i"
  then have "k' = k" "agree c (Suc k) ind ind'" using end_unique [OF assms(1)] by blast+
  with i end_facts [OF assms(1)] assms(2) show False by (simp add: agree_Suc)
qed

lemma write_other:
  assumes "ends_at c mem root ind k t i" "\<not> agree c k ind ind'"
  shows "walk_loop c (write_pte mem (t, i) e) ind' root (pagingLevels c) = walk_loop c mem ind' root (pagingLevels c)"
    "reaches c (write_pte mem (t, i) e) ind' root (pagingLevels c) k2 t2 =
      reaches c mem ind' root (pagingLevels c) k2 t2"
    "read_pte (write_pte mem (t, i) e) (wr_pte (walk_loop c mem ind' root (pagingLevels c))) =
      read_pte mem (wr_pte (walk_loop c mem ind' root (pagingLevels c)))"
proof -
  note n = end_not_read [OF assms]
  show "walk_loop c (write_pte mem (t, i) e) ind' root (pagingLevels c) = walk_loop c mem ind' root (pagingLevels c)"
    "reaches c (write_pte mem (t, i) e) ind' root (pagingLevels c) k2 t2 =
      reaches c mem ind' root (pagingLevels c) k2 t2"
    using walk_other n by blast+
  obtain t' j where p: "wr_pte (walk_loop c mem ind' root (pagingLevels c)) = (t', j)" by (metis surj_pair)
  have "0 < pagingLevels c" using assms(1) by (simp add: ends_at_def)
  from walk_loop_end [OF this refl, of c mem ind' root] n p have "\<not> (t' = t \<and> j = i)" by auto
  then show "read_pte (write_pte mem (t, i) e) (wr_pte (walk_loop c mem ind' root (pagingLevels c))) =
      read_pte mem (wr_pte (walk_loop c mem ind' root (pagingLevels c)))"
    by (auto simp: p read_pte_def write_pte_read)
qed

lemma write_same:
  assumes "ends_at c mem root ind k t i" "agree c k ind ind'"
  shows "walk_loop c (write_pte mem (t, i) e) ind' root (pagingLevels c) = walk_loop c (write_pte mem (t, i) e) ind' t k"
    "reaches c (write_pte mem (t, i) e) ind' root (pagingLevels c) k2 t2 \<longleftrightarrow>
       k < k2 \<and> reaches c mem ind root (pagingLevels c) k2 t2 \<or> reaches c (write_pte mem (t, i) e) ind' t k k2 t2"
proof -
  have j: "\<forall>j. k \<le> j \<and> j \<le> pagingLevels c \<longrightarrow> ind' j = ind j" using assms(2) by (simp add: agree_def)
  have e: "0 < pagingLevels c" "wr_level (walk_loop c mem ind root (pagingLevels c)) = k"
    "wr_pte (walk_loop c mem ind root (pagingLevels c)) = (t, i)" using assms(1) by (simp_all add: ends_at_def)
  have "\<forall>k'. reaches c mem ind root (pagingLevels c) k' t \<longrightarrow> k' = k" using end_unique [OF assms(1)] by blast
  from walk_through [OF e(1) refl e(2,3) this j]
  show "walk_loop c (write_pte mem (t, i) e) ind' root (pagingLevels c) = walk_loop c (write_pte mem (t, i) e) ind' t k"
    "reaches c (write_pte mem (t, i) e) ind' root (pagingLevels c) k2 t2 \<longleftrightarrow>
       k < k2 \<and> reaches c mem ind root (pagingLevels c) k2 t2 \<or> reaches c (write_pte mem (t, i) e) ind' t k k2 t2"
    by blast+
qed

text \<open>
  Writing an entry that leads to no table: the walks that agree end there, with the new entry, and
  the tables are the same as before.
\<close>

lemma write_end:
  assumes "ends_at c mem root ind k t i" "\<not> descends c k e"
  shows "agree c k ind ind' \<Longrightarrow> walk_loop c (write_pte mem (t, i) e) ind' root (pagingLevels c) =
      \<lparr> wr_level = k, wr_pte = (t, i), wr_complete = pt_present e \<rparr>"
    "reaches c (write_pte mem (t, i) e) ind' root (pagingLevels c) k2 t2 =
      reaches c mem ind' root (pagingLevels c) k2 t2"
    "hat_tree c (write_pte mem (t, i) e) root"
    "hat_tables c (write_pte mem (t, i) e) root = hat_tables c mem root"
proof -
  obtain k0 where k: "k = Suc k0" using end_facts(5) [OF assms(1)] by (cases k) auto
  have i: "i = ind k" using end_facts(2) [OF assms(1)] .
  have here: "write_pte mem (t, i) e t (ind' k) = e" if "agree c k ind ind'" for ind'
    using that i end_facts(6) [OF assms(1)] by (simp add: write_pte_read agree_def)
  show "walk_loop c (write_pte mem (t, i) e) ind' root (pagingLevels c) =
      \<lparr> wr_level = k, wr_pte = (t, i), wr_complete = pt_present e \<rparr>" if a: "agree c k ind ind'"
    unfolding write_same(1) [OF assms(1) a] using here [OF a] assms(2) a i end_facts(6) [OF assms(1)]
    by (simp add: k walk_loop_Suc agree_def)
  have reach: "reaches c (write_pte mem (t, i) e) ind' root (pagingLevels c) k2 t2 =
      reaches c mem ind' root (pagingLevels c) k2 t2" for ind' k2 t2
  proof (cases "agree c k ind ind'")
    case True
    have self: "write_pte mem (t, i) (mem t i) = mem" by (auto simp: write_pte_def)
    have "reaches c mem ind' root (pagingLevels c) k2 t2 \<longleftrightarrow>
       k < k2 \<and> reaches c mem ind root (pagingLevels c) k2 t2 \<or> reaches c mem ind' t k k2 t2"
      using write_same(2) [OF assms(1) True, of "mem t i"] self by simp
    moreover have "reaches c mem ind' t k k2 t2 \<longleftrightarrow> k2 = k \<and> t2 = t"
      using end_facts(3) [OF assms(1)] True i end_facts(6) [OF assms(1)] by (auto simp: k agree_def)
    ultimately show ?thesis
      unfolding write_same(2) [OF assms(1) True] using here [OF True] assms(2) by (auto simp: k)
  qed (rule write_other(2) [OF assms(1)])
  then show "reaches c (write_pte mem (t, i) e) ind' root (pagingLevels c) k2 t2 =
      reaches c mem ind' root (pagingLevels c) k2 t2" .
  show "hat_tree c (write_pte mem (t, i) e) root"
    using assms(1) unfolding ends_at_def hat_tree_def reach by blast
  show "hat_tables c (write_pte mem (t, i) e) root = hat_tables c mem root"
    unfolding hat_tables_def reach ..
qed

subsection \<open>Making a table\<close>

lemma walk_cong:
  assumes "\<forall>k t. reaches c mem ind pt l k t \<longrightarrow> mem' t (ind k) = mem t (ind k)"
  shows "walk_loop c mem' ind pt l = walk_loop c mem ind pt l \<and>
    reaches c mem' ind pt l k2 t2 = reaches c mem ind pt l k2 t2"
  using assms
proof (induction l arbitrary: pt)
  case (Suc l)
  then have same: "mem' pt (ind (Suc l)) = mem pt (ind (Suc l))" by auto
  have "walk_loop c mem' ind (mem pt (ind (Suc l)) AND addrMask c) l =
        walk_loop c mem ind (mem pt (ind (Suc l)) AND addrMask c) l \<and>
      reaches c mem' ind (mem pt (ind (Suc l)) AND addrMask c) l k2 t2 =
        reaches c mem ind (mem pt (ind (Suc l)) AND addrMask c) l k2 t2"
    if "descends c (Suc l) (mem pt (ind (Suc l)))"
    using Suc.prems that by (intro Suc.IH) auto
  then show ?case by (auto simp: walk_loop_Suc same)
qed simp

lemma zero_fresh:
  assumes "p \<notin> hat_tables c mem root"
  shows "walk_loop c (zero_page p mem) ind root (pagingLevels c) = walk_loop c mem ind root (pagingLevels c)"
    "reaches c (zero_page p mem) ind root (pagingLevels c) k2 t2 = reaches c mem ind root (pagingLevels c) k2 t2"
proof -
  have "\<forall>k t. reaches c mem ind root (pagingLevels c) k t \<longrightarrow> zero_page p mem t (ind k) = mem t (ind k)"
    using assms by (auto simp: hat_tables_def zero_page_def)
  from walk_cong [OF this]
  show "walk_loop c (zero_page p mem) ind root (pagingLevels c) = walk_loop c mem ind root (pagingLevels c)"
    "reaches c (zero_page p mem) ind root (pagingLevels c) k2 t2 = reaches c mem ind root (pagingLevels c) k2 t2"
    by blast+
qed

text \<open>A fresh zeroed page \<open>p\<close> is hung into the entry at which a walk ended without finding anything.\<close>

lemma grow_reaches:
  assumes "ends_at c mem root ind k t i" "p \<notin> hat_tables c mem root" "\<not> pt_present (mem t i)"
    "descends c k e" "e AND addrMask c = p"
  shows "reaches c (write_pte (zero_page p mem) (t, i) e) ind' root (pagingLevels c) k2 t2 \<longleftrightarrow>
      reaches c mem ind' root (pagingLevels c) k2 t2 \<or> agree c k ind ind' \<and> k2 = k - 1 \<and> t2 = p" (is ?R)
    and "agree c k ind ind' \<Longrightarrow> walk_loop c (write_pte (zero_page p mem) (t, i) e) ind' root (pagingLevels c) =
      \<lparr> wr_level = k - 1, wr_pte = (p, ind' (k - 1)), wr_complete = False \<rparr>"
    and "ends_at c (zero_page p mem) root ind k t i" "p \<noteq> t"
proof -
  let ?m = "zero_page p mem"
  have tree: "hat_tree c ?m root"
    using assms(1) zero_fresh(2) [OF assms(2)] unfolding ends_at_def hat_tree_def by simp
  then show e: "ends_at c ?m root ind k t i"
    using assms(1) zero_fresh(1) [OF assms(2)] by (simp add: ends_at_def)
  show pt: "p \<noteq> t" using assms(2) end_facts(1) [OF assms(1)] by (auto simp: hat_tables_def)
  have np: "\<not> pt_present (?m t i)" using assms(3) pt by (simp add: zero_page_def)
  have "k = Suc (Suc (k - 2))" using assms(4) by (auto simp: descends_def)
  then obtain k0 where k: "k = Suc (Suc k0)" by blast
  have i: "i = ind k" using end_facts(2) [OF assms(1)] .
  let ?w = "write_pte ?m (t, i) e"
  have zero: "?w p j = 0" for j using pt by (simp add: write_pte_read zero_page_def)
  have below: "\<not> descends c l (?w p j)" for l j by (simp add: zero pt_defs)
  have here: "?w t (ind' k) = e" if "agree c k ind ind'" for ind'
    using that i end_facts(6) [OF assms(1)] by (simp add: write_pte_read agree_def)
  show "walk_loop c ?w ind' root (pagingLevels c) =
      \<lparr> wr_level = k - 1, wr_pte = (p, ind' (k - 1)), wr_complete = False \<rparr>" if a: "agree c k ind ind'"
    unfolding write_same(1) [OF e a] using here [OF a] assms(4,5) below
    by (simp add: k walk_loop_Suc zero pt_present_def)
  show ?R
  proof (cases "agree c k ind ind'")
    case True
    have self: "write_pte ?m (t, i) (?m t i) = ?m" by (auto simp: write_pte_def)
    have "reaches c ?m ind' t k k2 t2 \<longleftrightarrow> k2 = k \<and> t2 = t"
      using end_facts(3) [OF e] True i end_facts(6) [OF assms(1)] by (auto simp: k agree_def)
    then have "reaches c mem ind' root (pagingLevels c) k2 t2 \<longleftrightarrow>
       k < k2 \<and> reaches c ?m ind root (pagingLevels c) k2 t2 \<or> k2 = k \<and> t2 = t"
      using write_same(2) [OF e True, of "?m t i"] zero_fresh(2) [OF assms(2)] unfolding self by simp
    then show ?thesis
      unfolding write_same(2) [OF e True] using here [OF True] assms(4,5) True below by (auto simp: k)
  next
    case False
    then show ?thesis using write_other(2) [OF e False] zero_fresh(2) [OF assms(2)] by simp
  qed
qed

lemma grow_ok:
  assumes "ends_at c mem root ind k t i" "p \<notin> hat_tables c mem root" "\<not> pt_present (mem t i)"
    "descends c k e" "e AND addrMask c = p"
  defines "mem' \<equiv> write_pte (zero_page p mem) (t, i) e"
  shows "ends_at c mem' root ind (k - 1) p (ind (k - 1))" "\<not> pt_present (mem' p j)"
    and "hat_tables c mem' root = insert p (hat_tables c mem root)"
    and "\<not> agree c k ind ind' \<Longrightarrow> walk_loop c mem' ind' root (pagingLevels c) = walk_loop c mem ind' root (pagingLevels c)"
    and "\<not> agree c k ind ind' \<Longrightarrow> read_pte mem' (wr_pte (walk_loop c mem ind' root (pagingLevels c))) =
      read_pte mem (wr_pte (walk_loop c mem ind' root (pagingLevels c)))"
proof -
  note G = grow_reaches [OF assms(1-5), folded mem'_def]
  have fresh: "\<not> reaches c mem i1 root (pagingLevels c) k1 p" for i1 k1
    using assms(2) by (auto simp: hat_tables_def)
  have old: "k1 = k2 \<and> agree c (Suc k1) i1 i2"
    if "reaches c mem i1 root (pagingLevels c) k1 t1" "reaches c mem i2 root (pagingLevels c) k2 t1" for i1 i2 k1 k2 t1
    using assms(1) that unfolding ends_at_def hat_tree_def by blast
  have k: "1 < k" using assms(4) by (simp add: descends_def)
  have new: "agree c (Suc (k - 1)) i1 i2" if "agree c k ind i1" "agree c k ind i2" for i1 i2
    using agree_trans [OF agree_sym [OF that(1)] that(2)] k by simp
  have "hat_tree c mem' root"
    unfolding hat_tree_def
  proof (intro allI impI, elim conjE)
    fix i1 i2 k1 k2 t1
    assume r: "reaches c mem' i1 root (pagingLevels c) k1 t1" "reaches c mem' i2 root (pagingLevels c) k2 t1"
    show "k1 = k2 \<and> agree c (Suc k1) i1 i2"
    proof (cases "t1 = p")
      case True
      with r G(1) fresh have "agree c k ind i1" "agree c k ind i2" "k1 = k - 1" "k2 = k - 1" by auto
      with new show ?thesis by simp
    next
      case False
      with r G(1) have "reaches c mem i1 root (pagingLevels c) k1 t1" "reaches c mem i2 root (pagingLevels c) k2 t1"
        by auto
      with old show ?thesis by blast
    qed
  qed
  moreover have "agree c k ind ind" by (simp add: agree_def)
  ultimately show "ends_at c mem' root ind (k - 1) p (ind (k - 1))"
    using G(2) assms(1) by (simp add: ends_at_def)
  show "\<not> pt_present (mem' p j)" using G(4) by (simp add: mem'_def write_pte_read zero_page_def pt_present_def)
  show "hat_tables c mem' root = insert p (hat_tables c mem root)"
    unfolding hat_tables_def G(1) using \<open>agree c k ind ind\<close> by auto
  assume a: "\<not> agree c k ind ind'"
  show w: "walk_loop c mem' ind' root (pagingLevels c) = walk_loop c mem ind' root (pagingLevels c)"
    using write_other(1) [OF G(3) a] zero_fresh(1) [OF assms(2)] by (simp add: mem'_def)
  have "0 < pagingLevels c" using assms(1) by (simp add: ends_at_def)
  from walk_loop_end [OF this refl, of c mem ind' root] fresh
  have "fst (wr_pte (walk_loop c mem ind' root (pagingLevels c))) \<noteq> p" by metis
  then show "read_pte mem' (wr_pte (walk_loop c mem ind' root (pagingLevels c))) =
      read_pte mem (wr_pte (walk_loop c mem ind' root (pagingLevels c)))"
    using write_other(3) [OF G(3) a, of e] zero_fresh(1) [OF assms(2), of ind']
    by (simp add: mem'_def read_pte_def zero_page_def)
qed

subsection \<open>Configurations\<close>

text \<open>What \<open>HatInit\<close> establishes: 4 or 5 levels, two or three page sizes and the mask of the address bits.\<close>

definition cfg_ok :: "hat_cfg \<Rightarrow> bool" where
  "cfg_ok c \<longleftrightarrow> (pagingLevels c = 4 \<or> pagingLevels c = 5) \<and> (modeCount c = 2 \<or> modeCount c = 3) \<and>
     addrMask c = addr_mask_of (pagingLevels c)"

lemma addr_mask_bit:
  assumes "L \<le> 5"
  shows "bit (addr_mask_of L) n \<longleftrightarrow> 12 \<le> n \<and> n < 9 * L + 12"
proof -
  have "addr_mask_of L = mask (9 * L + 12) AND NOT (mask 12)"
    by (simp add: addr_mask_of_def LowFlags_def mask_eq_exp_minus_1 push_bit_eq_mult)
  then show ?thesis using assms by (auto simp: bit_simps)
qed

lemma cfg_mask_bit: "cfg_ok c \<Longrightarrow> bit (addrMask c) n \<Longrightarrow> 12 \<le> n \<and> n < 57"
  by (auto simp: cfg_ok_def addr_mask_bit)

lemma flag_bits:
  "bit PresentFlag n \<longleftrightarrow> n = 0" "bit SizeFlag n \<longleftrightarrow> n = 7" "bit NxFlag n \<longleftrightarrow> n = 63"
  "bit HatFlags_Write n \<longleftrightarrow> n = 1" "bit LowFlags n \<longleftrightarrow> n < 12" "bit GlobalPageBit n \<longleftrightarrow> n = 5"
  by (simp_all only: PresentFlag_def SizeFlag_def NxFlag_def HatFlags_Write_def LowFlags_def GlobalPageBit_def
      bit_push_bit_iff bit_1_iff bit_mask_iff) auto

lemma and_flag:
  "e AND PresentFlag \<noteq> 0 \<longleftrightarrow> bit e 0" "e AND SizeFlag \<noteq> 0 \<longleftrightarrow> bit e 7"
proof -
  have "e AND push_bit n 1 \<noteq> 0 \<longleftrightarrow> bit e n" for n by (simp add: and_exp_eq_0_iff_not_bit push_bit_eq_mult)
  from this [of 0] this [of 7] show "e AND PresentFlag \<noteq> 0 \<longleftrightarrow> bit e 0" "e AND SizeFlag \<noteq> 0 \<longleftrightarrow> bit e 7"
    by (simp_all add: PresentFlag_def SizeFlag_def)
qed

lemma final_pte_facts:
  assumes "cfg_ok c" "1 \<le> l" "l \<le> modeCount c"
  shows "final_pte c paddr l flags AND addrMask c = paddr AND addrMask c"
    "pt_present (final_pte c paddr l flags)" "\<not> descends c l (final_pte c paddr l flags)"
proof -
  show "final_pte c paddr l flags AND addrMask c = paddr AND addrMask c"
  proof (rule bit_word_eqI)
    fix n
    have "bit (final_pte c paddr l flags) n = bit paddr n" if "bit (addrMask c) n"
      using cfg_mask_bit [OF assms(1) that] that
      by (simp add: final_pte_def Let_def bit_or_iff bit_and_iff bit_not_iff flag_bits possible_bit_word)
    then show "bit (final_pte c paddr l flags AND addrMask c) n = bit (paddr AND addrMask c) n"
      by (auto simp: bit_and_iff)
  qed
  show "pt_present (final_pte c paddr l flags)"
    by (simp add: pt_present_def and_flag final_pte_def Let_def bit_or_iff bit_and_iff bit_not_iff flag_bits)
  show "\<not> descends c l (final_pte c paddr l flags)"
    using assms by (auto simp: descends_def pt_leaf_def and_flag final_pte_def Let_def bit_or_iff bit_and_iff
        bit_not_iff flag_bits)
qed

text \<open>The entry that the walk of an address finds, and its level.\<close>

definition found :: "hat_cfg \<Rightarrow> pt_mem \<Rightarrow> u64 \<Rightarrow> (nat \<Rightarrow> nat) \<Rightarrow> (u64 \<times> nat) option" where
  "found c mem root ind =
     (let w = walk_loop c mem ind root (pagingLevels c)
      in if wr_complete w then Some (read_pte mem (wr_pte w), wr_level w) else None)"

lemma found_write:
  assumes "ends_at c mem root ind k t i" "\<not> descends c k e"
  shows "found c (write_pte mem (t, i) e) root ind' =
    (if agree c k ind ind' then if pt_present e then Some (e, k) else None else found c mem root ind')"
proof (cases "agree c k ind ind'")
  case True
  then show ?thesis
    using write_end(1) [OF assms True] by (simp add: found_def Let_def read_pte_def write_pte_read)
next
  case False
  then show ?thesis using write_other [OF assms(1) False] by (simp add: found_def Let_def)
qed

lemma found_here:
  assumes "ends_at c mem root ind k t i" "agree c k ind ind'"
  shows "found c mem root ind' = (if pt_present (mem t i) then Some (mem t i, k) else None)"
proof -
  have "write_pte mem (t, i) (mem t i) = mem" by (auto simp: write_pte_def)
  with found_write [OF assms(1) end_facts(3) [OF assms(1)], of ind'] assms(2) show ?thesis by simp
qed

lemma found_grow:
  assumes "ends_at c mem root ind k t i" "p \<notin> hat_tables c mem root" "\<not> pt_present (mem t i)"
    "descends c k e" "e AND addrMask c = p"
  shows "found c (write_pte (zero_page p mem) (t, i) e) root ind' = found c mem root ind'"
proof (cases "agree c k ind ind'")
  case True
  have "found c mem root ind' = None" using found_here [OF assms(1) True] assms(3) by simp
  moreover have "found c (write_pte (zero_page p mem) (t, i) e) root ind' = None"
    using grow_reaches(2) [OF assms True] by (simp add: found_def Let_def)
  ultimately show ?thesis by simp
next
  case False
  then show ?thesis using grow_ok(4,5) [OF assms False] by (simp add: found_def Let_def)
qed

lemma table_pte_facts:
  assumes "cfg_ok c" "p AND addrMask c = p"
  defines "e \<equiv> (addrMask c AND p) OR (PresentFlag OR HatFlags_Write)"
  shows "e AND addrMask c = p" "1 < k \<Longrightarrow> descends c k e"
proof -
  show "e AND addrMask c = p"
  proof (rule bit_word_eqI)
    fix n
    have "bit p n = (bit p n \<and> bit (addrMask c) n)" using assms(2) by (metis bit_and_iff)
    with cfg_mask_bit [OF assms(1), of n] show "bit (e AND addrMask c) n = bit p n"
      by (auto simp: e_def bit_and_iff bit_or_iff flag_bits)
  qed
  have "\<not> bit (addrMask c) 7" using cfg_mask_bit [OF assms(1), of 7] by auto
  then have "bit e 0" "\<not> bit e 7" by (auto simp: e_def bit_and_iff bit_or_iff flag_bits)
  then show "1 < k \<Longrightarrow> descends c k e" by (simp add: pt_defs and_flag)
qed

subsection \<open>The page allocator\<close>

text \<open>The free pages can be told apart by their 64-bit addresses and are no tables of the map.\<close>

definition source_ok ::
  "('s \<Rightarrow> bool) \<Rightarrow> ('s \<Rightarrow> size_t set) \<Rightarrow> hat_cfg \<Rightarrow> u64 \<Rightarrow> 's hat_state \<Rightarrow> bool" where
  "source_ok pinv pages c root st \<longleftrightarrow> pinv (hs_pmm st) \<and> inj_on (of_nat :: nat \<Rightarrow> u64) (pages (hs_pmm st)) \<and>
     (\<forall>p \<in> pages (hs_pmm st). (of_nat p :: u64) AND addrMask c = of_nat p \<and>
        of_nat p \<notin> hat_tables c (hs_mem st) root)"

text \<open>
  What the page tables need of the physical memory manager: while pages are available, it hands out
  one that was free and that it does not hand out again.
\<close>

locale page_source =
  fixes alloc :: "'s \<Rightarrow> (size_t \<times> 's) res" and pages :: "'s \<Rightarrow> size_t set" and pinv :: "'s \<Rightarrow> bool"
    and avail :: "'s \<Rightarrow> nat"
  assumes alloc_ok: "pinv s \<Longrightarrow> 0 < avail s \<Longrightarrow>
    \<exists>p s'. alloc s = Inr (p, s') \<and> p \<in> pages s \<and> pages s' = pages s - {p} \<and> pinv s' \<and> avail s' + 1 = avail s"
begin

lemma make_tables_ok:
  assumes "cfg_ok c" "source_ok pinv pages c root st" "ends_at c (hs_mem st) root ind k t i"
    "\<not> pt_present (hs_mem st t i)" "1 \<le> target" "target \<le> k" "k - target \<le> avail (hs_pmm st)"
  shows "\<exists>t' st'. make_tables alloc c ind target k (t, i) st = Inr ((t', ind target), st') \<and>
    source_ok pinv pages c root st' \<and> ends_at c (hs_mem st') root ind target t' (ind target) \<and>
    (\<forall>ind'. found c (hs_mem st') root ind' = found c (hs_mem st) root ind')"
  using assms(2-4,6,7)
proof (induction k arbitrary: t i st)
  case (Suc k)
  show ?case
  proof (cases "Suc k = target")
    case True
    then have "make_tables alloc c ind target (Suc k) (t, i) st = Inr ((t, ind target), st)"
      using end_facts(2) [OF Suc.prems(2)] unfolding True [symmetric] by simp
    with True Suc.prems(1,2) end_facts(2) [OF Suc.prems(2)] show ?thesis by auto
  next
    case False
    with Suc.prems have k: "target \<le> k" "0 < avail (hs_pmm st)" by auto
    obtain p s' where al: "alloc (hs_pmm st) = Inr (p, s')" "p \<in> pages (hs_pmm st)"
      "pages s' = pages (hs_pmm st) - {p}" "pinv s'" "avail s' + 1 = avail (hs_pmm st)"
      using alloc_ok k(2) Suc.prems(1) unfolding source_ok_def by blast
    let ?p = "of_nat p :: u64"
    let ?e = "(addrMask c AND ?p) OR (PresentFlag OR HatFlags_Write)"
    let ?m = "write_pte (zero_page ?p (hs_mem st)) (t, i) ?e"
    let ?st = "st\<lparr> hs_mem := ?m, hs_pmm := s' \<rparr>"
    have p: "?p AND addrMask c = ?p" "?p \<notin> hat_tables c (hs_mem st) root"
      using Suc.prems(1) al(2) by (auto simp: source_ok_def)
    have "1 < Suc k" using k assms(5) by simp
    note e = table_pte_facts(1) [OF assms(1) p(1)] table_pte_facts(2) [OF assms(1) p(1) this]
    note A = Suc.prems(2) p(2) Suc.prems(3) e(2,1)
    have step: "make_tables alloc c ind target (Suc k) (t, i) st = make_tables alloc c ind target k (?p, ind k) ?st"
      using False al(1) by (simp add: read_pte_def write_pte_def Let_def)
    have "source_ok pinv pages c root ?st"
      using Suc.prems(1) al by (auto simp: source_ok_def grow_ok(3) [OF A] inj_on_def)
    moreover have "ends_at c (hs_mem ?st) root ind k ?p (ind k)" "\<not> pt_present (hs_mem ?st ?p (ind k))"
      using grow_ok(1,2) [OF A] by simp_all
    moreover have "k - target \<le> avail (hs_pmm ?st)" using Suc.prems(5) k al(5) by simp
    ultimately show ?thesis
      unfolding step using Suc.IH [of ?st ?p "ind k"] k(1) found_grow [OF A] by simp
  qed
qed (use assms(5) in simp)

lemma HatDoMap_found:
  assumes "cfg_ok c" "hat_tree c (hs_mem st) (hm_root hmap)" "source_ok pinv pages c (hm_root hmap) st"
    "pagingLevels c \<le> avail (hs_pmm st)" "mode < modeCount c"
    "\<not> wr_complete (WalkTables c (hs_mem st) (hm_root hmap) vaddr)"
    "mode + 1 \<le> wr_level (WalkTables c (hs_mem st) (hm_root hmap) vaddr)"
  shows "\<exists>st'. HatDoMap alloc c hmap vaddr paddr mode flags st = Inr (True, st') \<and>
    hat_tree c (hs_mem st') (hm_root hmap) \<and> source_ok pinv pages c (hm_root hmap) st' \<and>
    (\<forall>ind. found c (hs_mem st') (hm_root hmap) ind =
       (if agree c (mode + 1) (GetAddressIndices vaddr) ind then Some (final_pte c paddr (mode + 1) flags, mode + 1)
        else found c (hs_mem st) (hm_root hmap) ind))"
proof -
  let ?ind = "GetAddressIndices vaddr" and ?root = "hm_root hmap" and ?e = "final_pte c paddr (mode + 1) flags"
  define w where "w = WalkTables c (hs_mem st) ?root vaddr"
  obtain t i where pte: "wr_pte w = (t, i)" by (metis surj_pair)
  have "0 < pagingLevels c" using assms(1) by (auto simp: cfg_ok_def)
  then have e: "ends_at c (hs_mem st) ?root ?ind (wr_level w) t i"
    using assms(2) pte by (simp add: ends_at_def w_def WalkTables_def)
  have np: "\<not> pt_present (hs_mem st t i)"
    using end_facts(4) [OF e] assms(6) by (simp add: WalkTables_def)
  have "wr_level w - (mode + 1) \<le> avail (hs_pmm st)" using end_facts(6) [OF e] assms(4) by simp
  then obtain t' st1 where M: "make_tables alloc c ?ind (mode + 1) (wr_level w) (t, i) st = Inr ((t', ?ind (mode + 1)), st1)"
    "source_ok pinv pages c ?root st1" "ends_at c (hs_mem st1) ?root ?ind (mode + 1) t' (?ind (mode + 1))"
    "\<forall>ind'. found c (hs_mem st1) ?root ind' = found c (hs_mem st) ?root ind'"
    using make_tables_ok [OF assms(1,3) e np, of "mode + 1"] assms(7) by (auto simp: w_def)
  have l: "1 \<le> mode + 1" "mode + 1 \<le> modeCount c" using assms(5) by auto
  note F = final_pte_facts [OF assms(1) l, of paddr flags]
  let ?m = "write_pte (hs_mem st1) (t', ?ind (mode + 1)) ?e"
  let ?st = "bump_kernel hmap (st1\<lparr> hs_mem := ?m \<rparr>)"
  have map: "HatDoMap alloc c hmap vaddr paddr mode flags st = Inr (True, ?st)"
    using assms(5,6) M(1) pte by (simp add: HatDoMap_def Let_def w_def)
  have st: "hs_mem ?st = ?m" "hs_pmm ?st = hs_pmm st1" by (simp_all add: bump_kernel_def)
  show ?thesis
    using map st M(2,4) write_end(3,4) [OF M(3) F(3)] found_write [OF M(3) F(3)] F(2)
    by (intro exI [of _ ?st]) (simp add: source_ok_def)
qed

lemma make_tables_down:
  assumes "pinv (hs_pmm st)" "k \<le> avail (hs_pmm st)" "k < target"
  shows "make_tables alloc c ind target k pte st = Inl Bad_Index"
  using assms
proof (induction k arbitrary: pte st)
  case (Suc k)
  then obtain p s' where al: "alloc (hs_pmm st) = Inr (p, s')" "pinv s'" "avail s' + 1 = avail (hs_pmm st)"
    using alloc_ok [of "hs_pmm st"] by auto
  with Suc show ?case by (simp add: Let_def)
qed simp

lemma HatDoMap_below:
  assumes "pinv (hs_pmm st)" "mode < modeCount c" "mode + 1 \<le> avail (hs_pmm st)"
    "\<not> wr_complete (WalkTables c (hs_mem st) (hm_root hmap) vaddr)"
    "wr_level (WalkTables c (hs_mem st) (hm_root hmap) vaddr) < mode + 1"
  shows "HatDoMap alloc c hmap vaddr paddr mode flags st = Inl Bad_Index"
  using assms make_tables_down [OF assms(1) _ assms(5)] by (simp add: HatDoMap_def Let_def)

end

text \<open>The physical memory manager provides the pages.\<close>

definition pmm_avail :: "pmm \<Rightarrow> nat" where
  "pmm_avail s = sum_list (map runLength (pm_freelist s))"

definition pmm_alloc :: "pmm \<Rightarrow> (size_t \<times> pmm) res" where
  "pmm_alloc s = Alloc s 1"

interpretation pmm_pages: page_source pmm_alloc free_pages pmm_inv pmm_avail
proof
  fix s :: pmm
  assume pinv: "pmm_inv s" and av: "0 < pmm_avail s"
  then have ne: "pm_freelist s \<noteq> []" by (auto simp: pmm_avail_def)
  from Alloc_one [OF pinv ne] obtain p s' where a: "Alloc s 1 = Inr (p, s')" "p \<in> free_pages s"
    "free_pages s' = free_pages s - {p}" "pmm_inv s'" by blast
  have "pmm_avail s' + 1 = pmm_avail s"
    using a(1) ne pinv by (auto simp: Alloc_def pmm_avail_def pmm_inv_def neq_Nil_conv split: if_splits)
  with a show "\<exists>p s'. pmm_alloc s = Inr (p, s') \<and> p \<in> free_pages s \<and> free_pages s' = free_pages s - {p} \<and>
      pmm_inv s' \<and> pmm_avail s' + 1 = pmm_avail s"
    by (auto simp: pmm_alloc_def)
qed

subsection \<open>Properties\<close>

lemma HatGetMap_found:
  "HatGetMap c mem root v =
     map_option (\<lambda>(e, l). ((e AND addrMask c) OR (v AND (GetPageSize l - 1)), l - 1))
       (found c mem root (GetAddressIndices v))"
  by (simp add: HatGetMap_def found_def WalkTables_def Let_def)

text \<open>C13: mapping a page at an address whose walk ends at or above the level of the page succeeds with
  enough free pages; afterwards every address of that page translates to the given frame plus its
  offset, every other address translates as before, and the tables are a tree again.\<close>

theorem hat_map_translates:
  assumes "cfg_ok c" "hat_tree c (hs_mem st) (hm_root hmap)"
    "source_ok pmm_inv free_pages c (hm_root hmap) st" "pagingLevels c \<le> pmm_avail (hs_pmm st)"
    "mode < modeCount c" "\<not> wr_complete (WalkTables c (hs_mem st) (hm_root hmap) vaddr)"
    "mode + 1 \<le> wr_level (WalkTables c (hs_mem st) (hm_root hmap) vaddr)"
  shows "\<exists>st'. HatDoMap pmm_alloc c hmap vaddr paddr mode flags st = Inr (True, st') \<and>
    hat_tree c (hs_mem st') (hm_root hmap) \<and> source_ok pmm_inv free_pages c (hm_root hmap) st' \<and>
    (\<forall>v. HatGetMap c (hs_mem st') (hm_root hmap) v =
       (if agree c (mode + 1) (GetAddressIndices vaddr) (GetAddressIndices v)
        then Some ((paddr AND addrMask c) OR (v AND (GetPageSize (mode + 1) - 1)), mode)
        else HatGetMap c (hs_mem st) (hm_root hmap) v))"
proof -
  have "1 \<le> mode + 1" "mode + 1 \<le> modeCount c" using assms(5) by auto
  note F = final_pte_facts(1) [OF assms(1) this, of paddr flags]
  from pmm_pages.HatDoMap_found [OF assms, of paddr flags] show ?thesis
    by (elim exE conjE, intro exI conjI) (assumption | simp add: HatGetMap_found F [simplified])+
qed

definition demo_cfg :: hat_cfg where
  "demo_cfg = \<lparr> pagingLevels = 4, modeCount = 2, mmu_nx = True, mmu_globalPages = True, addrMask = addr_mask_of 4 \<rparr>"

definition demo_map :: hat_map where
  "demo_map = \<lparr> hm_root = 0x1000, hm_generation = 0, hm_is_kernel = False \<rparr>"

definition demo_hat :: "pmm hat_state" where
  "demo_hat = \<lparr> hs_mem = (\<lambda>_ _. 0),
     hs_pmm = \<lparr> pm_zones = [], pm_segments = [], pm_freelist = [\<lparr> fe_base = 0x2000, runLength = 4 \<rparr>], trashAfterUse = False, pm_rng = (\<lambda>_. 0), pm_lost = False \<rparr>,
     hs_kernel_gen = 0 \<rparr>"

lemma demo_simps:
  "pagingLevels demo_cfg = 4" "modeCount demo_cfg = 2" "addrMask demo_cfg = 0xFFFFFFFFF000"
  "hm_root demo_map = 0x1000" "hs_mem demo_hat = (\<lambda>_ _. 0)"
  by (simp_all add: demo_cfg_def demo_map_def demo_hat_def addr_mask_of_def LowFlags_def mask_eq_exp_minus_1)

lemma demo_walk:
  "walk_loop demo_cfg (\<lambda>_ _. 0) ind root 4 = \<lparr> wr_level = 4, wr_pte = (root, ind 4), wr_complete = False \<rparr>"
  by (simp add: walk_loop_Suc numeral_eq_Suc pt_defs)

lemma demo_reaches: "reaches demo_cfg (\<lambda>_ _. 0) ind root 4 k t \<longleftrightarrow> k = 4 \<and> t = root"
  by (simp add: numeral_eq_Suc pt_defs)

lemma demo_pages: "free_pages (hs_pmm demo_hat) = {0x2000, 0x3000, 0x4000, 0x5000}"
proof -
  have "[0..<4] = [0, 1, 2, 3 :: nat]" by (simp add: upt_rec_numeral upt_0_rec)
  then have "run_pages \<lparr> fe_base = 0x2000, runLength = 4 \<rparr> = [0x2000, 0x3000, 0x4000, 0x5000]"
    by (simp add: run_pages_def)
  then show ?thesis by (simp add: demo_hat_def free_pages_def)
qed

lemma demo_ok:
  "cfg_ok demo_cfg" "hat_tree demo_cfg (hs_mem demo_hat) (hm_root demo_map)"
  "source_ok pmm_inv free_pages demo_cfg (hm_root demo_map) demo_hat" "pmm_avail (hs_pmm demo_hat) = 4"
proof -
  show "cfg_ok demo_cfg" by (simp add: cfg_ok_def demo_cfg_def)
  show "hat_tree demo_cfg (hs_mem demo_hat) (hm_root demo_map)"
    by (simp add: hat_tree_def demo_simps demo_reaches agree_def)
  have "hat_tables demo_cfg (hs_mem demo_hat) (hm_root demo_map) = {0x1000}"
    by (auto simp: hat_tables_def demo_simps demo_reaches)
  moreover have "pmm_inv (hs_pmm demo_hat)"
    by (auto simp: demo_hat_def pmm_inv_def run_pages_def distinct_map inj_on_def)
  ultimately show "source_ok pmm_inv free_pages demo_cfg (hm_root demo_map) demo_hat"
    by (simp add: source_ok_def demo_pages demo_simps)
  show "pmm_avail (hs_pmm demo_hat) = 4" by (simp add: pmm_avail_def demo_hat_def)
qed

theorem hat_map_translates_witness:
  "\<exists>st'. HatDoMap pmm_alloc demo_cfg demo_map 0x400000 0x7000 0 2 demo_hat = Inr (True, st') \<and>
     HatGetMap demo_cfg (hs_mem st') 0x1000 0x400123 = Some (0x7123, 0)"
proof -
  have "agree demo_cfg 1 (GetAddressIndices 0x400000) (GetAddressIndices 0x400123)"
    by (auto simp: agree_def GetAddressIndices_def demo_simps)
  then show ?thesis
    using hat_map_translates [OF demo_ok(1-3), of 0 "0x400000" "0x7000" 2] demo_ok(4)
    by (auto simp: demo_simps WalkTables_def demo_walk GetPageSize_def)
qed

text \<open>C18: unmapping an address that translates returns the frame and the mode of its page; afterwards
  no address of that page translates, every other address translates as before, and the tables
  are still a tree.\<close>

theorem hat_unmap_clears:
  assumes "cfg_ok c" "hat_tree c (hs_mem st) (hm_root hmap)"
    "HatGetMap c (hs_mem st) (hm_root hmap) vaddr = Some (pa, mode)"
  shows "\<exists>base st'. HatDoUnmap c hmap vaddr st = (Some (base, mode), st') \<and>
    pa = base OR (vaddr AND (GetPageSize (mode + 1) - 1)) \<and> hat_tree c (hs_mem st') (hm_root hmap) \<and>
    (\<forall>v. HatGetMap c (hs_mem st') (hm_root hmap) v =
       (if agree c (mode + 1) (GetAddressIndices vaddr) (GetAddressIndices v) then None
        else HatGetMap c (hs_mem st) (hm_root hmap) v))"
proof -
  define w where "w = WalkTables c (hs_mem st) (hm_root hmap) vaddr"
  obtain t i where pte: "wr_pte w = (t, i)" by (metis surj_pair)
  have "0 < pagingLevels c" using assms(1) by (auto simp: cfg_ok_def)
  then have e: "ends_at c (hs_mem st) (hm_root hmap) (GetAddressIndices vaddr) (wr_level w) t i"
    using assms(2) pte by (simp add: ends_at_def w_def WalkTables_def)
  have G: "wr_complete w" "mode = wr_level w - 1"
    "pa = (hs_mem st t i AND addrMask c) OR (vaddr AND (GetPageSize (wr_level w) - 1))"
    using assms(3) pte by (auto simp: HatGetMap_def Let_def w_def read_pte_def split: if_splits)
  have l: "wr_level w = mode + 1" using G(2) end_facts(5) [OF e] by simp
  let ?m = "write_pte (hs_mem st) (t, i) 0"
  let ?s1 = "st\<lparr> hs_mem := ?m \<rparr>"
  let ?st = "if wr_level w = pagingLevels c then bump_kernel hmap ?s1 else ?s1"
  have u: "HatDoUnmap c hmap vaddr st = (Some (hs_mem st t i AND addrMask c, mode), ?st)"
    using G(1,2) pte by (simp add: HatDoUnmap_def Let_def w_def read_pte_def)
  have m: "hs_mem ?st = ?m" by (simp add: bump_kernel_def)
  have nd: "\<not> descends c (wr_level w) 0" by (simp add: pt_defs)
  have "found c ?m (hm_root hmap) ind' =
      (if agree c (mode + 1) (GetAddressIndices vaddr) ind' then None else found c (hs_mem st) (hm_root hmap) ind')" for ind'
    using found_write [OF e nd, of ind'] l by (simp add: pt_present_def)
  then show ?thesis
    using u m G(3) l write_end(3) [OF e nd]
    by (intro exI [of _ "hs_mem st t i AND addrMask c"] exI [of _ ?st]) (simp add: HatGetMap_found)
qed

theorem hat_unmap_clears_witness:
  "\<exists>st1 st2. HatDoMap pmm_alloc demo_cfg demo_map 0x400000 0x7000 0 2 demo_hat = Inr (True, st1) \<and>
     HatDoUnmap demo_cfg demo_map 0x400123 st1 = (Some (0x7000, 0), st2) \<and>
     HatGetMap demo_cfg (hs_mem st2) 0x1000 0x400123 = None"
proof -
  have ag: "agree demo_cfg 1 (GetAddressIndices 0x400000) (GetAddressIndices 0x400123)"
    "agree demo_cfg 1 (GetAddressIndices 0x400123) (GetAddressIndices 0x400123)"
    by (auto simp: agree_def GetAddressIndices_def demo_simps)
  have mask: "bit (0xFFFFFFFFF000 :: u64) n \<Longrightarrow> 12 \<le> n" for n
    using cfg_mask_bit [OF demo_ok(1)] by (simp add: demo_simps)
  obtain st1 where st1: "HatDoMap pmm_alloc demo_cfg demo_map 0x400000 0x7000 0 2 demo_hat = Inr (True, st1)"
    "hat_tree demo_cfg (hs_mem st1) (hm_root demo_map)"
    "HatGetMap demo_cfg (hs_mem st1) (hm_root demo_map) 0x400123 = Some (0x7123, 0)"
    using pmm_pages.HatDoMap_found [OF demo_ok(1-3), of 0 "0x400000" "0x7000" 2] demo_ok(4) ag(1)
      final_pte_facts(1) [OF demo_ok(1), of 1 "0x7000" 2]
    by (auto simp: demo_simps WalkTables_def demo_walk GetPageSize_def HatGetMap_found)
  from hat_unmap_clears [OF demo_ok(1) st1(2,3)] obtain base st2 where
    u: "HatDoUnmap demo_cfg demo_map 0x400123 st1 = (Some (base, 0), st2)" "0x7123 = base OR 0x123"
    "HatGetMap demo_cfg (hs_mem st2) 0x1000 0x400123 = None"
    using ag(2) by (auto simp: GetPageSize_def demo_simps)
  have "base = base AND 0xFFFFFFFFF000"
    using u(1) by (auto simp: HatDoUnmap_def Let_def demo_simps and.assoc split: if_splits)
  then have "base = (base OR 0x123) AND 0xFFFFFFFFF000" by (simp add: bit.conj_disj_distrib2)
  then have "base = 0x7000" by (simp flip: u(2))
  with st1(1) u show ?thesis by blast
qed

text \<open>\<open>HatSyncMap\<close> with new flags turns the entry of a large page into one that is not a leaf: the
  size flag is lost and the walk goes on below it, taking the memory of the page for a table.\<close>

lemma hat_sync_drops_size:
  assumes "cfg_ok c" "hat_tree c (hs_mem st) (hm_root hmap)"
    "wr_complete (WalkTables c (hs_mem st) (hm_root hmap) vaddr)"
    "1 < wr_level (WalkTables c (hs_mem st) (hm_root hmap) vaddr)" "flags AND SizeFlag = 0"
  shows "\<exists>st'. HatSyncMap c hmap vaddr None (Some flags) st = (True, st') \<and>
    wr_level (WalkTables c (hs_mem st') (hm_root hmap) vaddr) < wr_level (WalkTables c (hs_mem st) (hm_root hmap) vaddr)"
proof -
  let ?ind = "GetAddressIndices vaddr"
  define w where "w = WalkTables c (hs_mem st) (hm_root hmap) vaddr"
  obtain t i where pte: "wr_pte w = (t, i)" by (metis surj_pair)
  have "0 < pagingLevels c" using assms(1) by (auto simp: cfg_ok_def)
  then have e: "ends_at c (hs_mem st) (hm_root hmap) ?ind (wr_level w) t i"
    using assms(2) pte by (simp add: ends_at_def w_def WalkTables_def)
  obtain k where k: "wr_level w = Suc k" "0 < k"
    using assms(4) less_imp_Suc_add [of 1 "wr_level w"] by (auto simp: w_def)
  let ?f = "sync_flags c (wr_level w) flags"
  define e' where "e' = (hs_mem st t i AND addrMask c) OR ?f"
  have bits: "bit e' 0" "\<not> bit e' 7"
  proof -
    have "\<not> bit (addrMask c) 7" using cfg_mask_bit [OF assms(1), of 7] by auto
    moreover have "\<not> bit flags 7" using assms(5) and_flag(2) by blast
    moreover have "\<not> bit (of_nat PageSize :: u64) 7" by simp
    ultimately show "bit e' 0" "\<not> bit e' 7"
      by (simp_all add: e'_def sync_flags_def Let_def bit_or_iff bit_and_iff bit_not_iff flag_bits)
  qed
  then have d: "descends c (Suc k) e'" using k(2) by (simp add: pt_defs and_flag)
  let ?m = "write_pte (hs_mem st) (t, i) e'"
  have "HatSyncMap c hmap vaddr None (Some flags) st = (True, st\<lparr> hs_mem := ?m \<rparr>)"
    using assms(3) pte by (simp add: HatSyncMap_def Let_def w_def [symmetric] read_pte_def e'_def)
  moreover have "WalkTables c ?m (hm_root hmap) vaddr = walk_loop c ?m ?ind (e' AND addrMask c) k"
    using write_same(1) [OF e, of ?ind e'] end_facts(2) [OF e] d
    by (simp add: WalkTables_def k(1) walk_loop_Suc agree_def write_pte_read)
  moreover have "wr_level (walk_loop c ?m ?ind (e' AND addrMask c) k) \<le> k"
    using walk_loop_end [OF k(2) refl] reaches_le by blast
  ultimately show ?thesis using k(1) by (simp add: w_def)
qed

lemma hat_sync_drops_size_example:
  "\<exists>st1 st2. HatDoMap pmm_alloc demo_cfg demo_map 0x400000 0x600000 1 2 demo_hat = Inr (True, st1) \<and>
     HatSyncMap demo_cfg demo_map 0x400000 None (Some 0) st1 = (True, st2) \<and>
     wr_level (WalkTables demo_cfg (hs_mem st1) 0x1000 0x400000) = 2 \<and>
     wr_level (WalkTables demo_cfg (hs_mem st2) 0x1000 0x400000) < 2"
proof -
  obtain st1 where st1: "HatDoMap pmm_alloc demo_cfg demo_map 0x400000 0x600000 1 2 demo_hat = Inr (True, st1)"
    "hat_tree demo_cfg (hs_mem st1) (hm_root demo_map)"
    "found demo_cfg (hs_mem st1) (hm_root demo_map) (GetAddressIndices 0x400000) =
       Some (final_pte demo_cfg 0x600000 2 2, 2)"
    using pmm_pages.HatDoMap_found [OF demo_ok(1-3), of 1 "0x400000" "0x600000" 2] demo_ok(4)
    by (auto simp: demo_simps WalkTables_def demo_walk agree_def numeral_2_eq_2)
  then have w: "wr_complete (WalkTables demo_cfg (hs_mem st1) (hm_root demo_map) 0x400000)"
    "wr_level (WalkTables demo_cfg (hs_mem st1) (hm_root demo_map) 0x400000) = 2"
    by (auto simp: found_def WalkTables_def Let_def split: if_splits)
  with hat_sync_drops_size [OF demo_ok(1) st1(2) w(1), of 0] st1(1) show ?thesis
    by (auto simp: demo_simps)
qed

text \<open>
  Destroying a map frees what every present entry of a table points to, including the mapped frames
  in the last level.
\<close>

lemma cleanup_frees_entries:
  assumes "CleanupPageTable (Suc n) c mem pt = Some fs" "i < PageTableEntries" "mem pt i AND PresentFlag \<noteq> 0"
  shows "mem pt i AND addrMask c \<in> set fs"
proof -
  let ?f = "\<lambda>i. if mem pt i AND PresentFlag = 0 then Some [] else CleanupPageTable n c mem (mem pt i AND addrMask c)"
  obtain gs where gs: "those (map ?f [0..<PageTableEntries]) = Some gs" "fs = concat gs @ [pt]"
    using assms(1) by (auto split: option.splits)
  have those: "those (map g xs) = Some ys \<Longrightarrow> x \<in> set xs \<Longrightarrow> \<exists>y. g x = Some y \<and> y \<in> set ys" for g xs ys x
    by (induction xs arbitrary: ys) (auto split: option.splits)
  obtain y where y: "CleanupPageTable n c mem (mem pt i AND addrMask c) = Some y" "y \<in> set gs"
    using those [OF gs(1), of i] assms(2,3) by auto
  have "mem pt i AND addrMask c \<in> set y" using y(1) by (cases n) (auto split: option.splits)
  with y(2) gs(2) show ?thesis by auto
qed

end
