(* ===== verification/Vmm_Meta.thy ===== *)
theory Vmm_Meta
  imports Hat_X86 Syslib_Bitmap
begin

text \<open>
  \<open>kernel/memory/Vmm.cpp\<close>, the metadata allocator of a virtual memory manager: ranges and holes are
  slots of slabs, one page each, with a bitmap of the slots in use. The list of slabs is in the order of
  their \<open>next\<close> pointers. Pages come from the page allocator, an argument with the contract
  \<open>page_source\<close>; \<open>hhdm\<close> is \<open>hhdmBase\<close>, where physical memory is mapped.
\<close>

subsection \<open>Operations\<close>

record meta_slab =
  sb_bitmap :: "u8 list"
  sb_data :: size_t
  sb_free :: size_t
  sb_total :: size_t

text \<open>\<open>sizeof(VmmMetaSlab)\<close> on the 64-bit targets.\<close>

definition sizeof_VmmMetaSlab :: size_t where
  "sizeof_VmmMetaSlab = 40"

definition bitmap_bytes :: "size_t \<Rightarrow> size_t" where
  "bitmap_bytes slabCount = AlignUp slabCount 8 div 8"

primrec fit_slots :: "size_t \<Rightarrow> size_t \<Rightarrow> size_t \<Rightarrow> size_t" where
  "fit_slots sz usable 0 = 0"
| "fit_slots sz usable (Suc n) =
     (if sz_add (sz_mul (Suc n) sz) (bitmap_bytes (Suc n)) > usable then fit_slots sz usable n else Suc n)"

definition CreateMetaSlab ::
  "('s \<Rightarrow> (size_t \<times> 's) res) \<Rightarrow> size_t \<Rightarrow> size_t \<Rightarrow> meta_slab list \<Rightarrow> 's \<Rightarrow> (meta_slab list \<times> 's) res" where
  "CreateMetaSlab palloc hhdm sz slabs w =
     res_bind (palloc w) (\<lambda>(page, w').
       let base = sz_add page hhdm;
           totalSpace = PageSize;
           usableBase = AlignUp (sz_add base sizeof_VmmMetaSlab) sz;
           usableSpace = sz_sub totalSpace (sz_sub usableBase base);
           slabCount = fit_slots sz usableSpace (usableSpace div sz)
       in if slabCount = 0 then Inl Assert_Failed
          else Inr (\<lparr> sb_bitmap = replicate (bitmap_bytes slabCount) 0, sb_data = usableBase,
                      sb_free = slabCount, sb_total = slabCount \<rparr> # slabs, w'))"

definition DestroyMetaSlab :: "meta_slab list \<Rightarrow> bool res" where
  "DestroyMetaSlab slabs = Inl Unreachable_Hit"

fun first_free :: "meta_slab list \<Rightarrow> nat option" where
  "first_free [] = None"
| "first_free (sb # sbs) = (if sb_free sb = 0 then map_option Suc (first_free sbs) else Some 0)"

definition AllocMeta ::
  "('s \<Rightarrow> (size_t \<times> 's) res) \<Rightarrow> size_t \<Rightarrow> size_t \<Rightarrow> meta_slab list \<Rightarrow> 's \<Rightarrow>
   (size_t \<times> meta_slab list \<times> 's) res" where
  "AllocMeta palloc hhdm sz slabs w =
     res_bind (case first_free slabs of Some i \<Rightarrow> Inr (i, slabs, w)
               | None \<Rightarrow> res_bind (CreateMetaSlab palloc hhdm sz slabs w) (\<lambda>(slabs, w). Inr (0, slabs, w)))
       (\<lambda>(i, slabs, w).
          let slab = slabs ! i
          in res_bind (BitmapFindClear (sb_bitmap slab) (sb_total slab)) (\<lambda>found.
               if found = sb_total slab then Inl Assert_Failed
               else res_bind (BitmapSet (sb_bitmap slab) found) (\<lambda>(_, bitmap).
                 Inr (sz_add (sb_data slab) (sz_mul found sz),
                      slabs[i := slab\<lparr> sb_bitmap := bitmap, sb_free := sz_sub (sb_free slab) 1 \<rparr>], w))))"

fun FreeMeta :: "size_t \<Rightarrow> size_t \<Rightarrow> meta_slab list \<Rightarrow> meta_slab list res" where
  "FreeMeta sz p [] = Inl Unreachable_Hit"
| "FreeMeta sz p (slab # slabs) =
     (let top = sz_add (sb_data slab) (sz_mul (sb_total slab) sz)
      in if p < sb_data slab \<or> p > top
         then res_bind (FreeMeta sz p slabs) (\<lambda>slabs'. Inr (slab # slabs'))
         else res_bind (BitmapClear (sb_bitmap slab) (sz_sub p (sb_data slab) div sz)) (\<lambda>(_, bitmap).
                Inr (slab\<lparr> sb_bitmap := bitmap \<rparr> # slabs)))"

subsection \<open>Slots in use\<close>

definition slab_slots :: "size_t \<Rightarrow> meta_slab \<Rightarrow> size_t set" where
  "slab_slots sz sb = {sb_data sb + i * sz | i. i < sb_total sb \<and> bits (sb_bitmap sb) ! i}"

definition slots :: "size_t \<Rightarrow> meta_slab list \<Rightarrow> size_t set" where
  "slots sz slabs = (\<Union>sb \<in> set slabs. slab_slots sz sb)"

text \<open>The slab lies inside the page \<open>page\<close>, and has at least as many clear bits as it claims.\<close>

definition slab_ok :: "size_t \<Rightarrow> size_t \<Rightarrow> size_t \<Rightarrow> meta_slab \<Rightarrow> bool" where
  "slab_ok hhdm sz page sb \<longleftrightarrow>
     page + hhdm < sb_data sb \<and> sb_data sb + sb_total sb * sz < page + hhdm + PageSize \<and>
     page + hhdm + PageSize \<le> size_limit \<and> PageSize dvd page \<and>
     sb_total sb \<le> 8 * length (sb_bitmap sb) \<and> 0 < sb_total sb \<and>
     sb_free sb \<le> length (filter Not (take (sb_total sb) (bits (sb_bitmap sb))))"

definition meta_ok :: "size_t \<Rightarrow> size_t \<Rightarrow> size_t list \<Rightarrow> meta_slab list \<Rightarrow> bool" where
  "meta_ok hhdm sz ps slabs \<longleftrightarrow> list_all2 (slab_ok hhdm sz) ps slabs \<and> distinct ps"

lemma meta_simps [simp]:
  "meta_ok hhdm sz [] []"
  "meta_ok hhdm sz (p # ps) (sb # slabs) \<longleftrightarrow> slab_ok hhdm sz p sb \<and> p \<notin> set ps \<and> meta_ok hhdm sz ps slabs"
  "slots sz [] = {}" "slots sz (sb # slabs) = slab_slots sz sb \<union> slots sz slabs"
  by (auto simp: meta_ok_def slots_def)

text \<open>The addresses of a page.\<close>

definition in_page :: "size_t \<Rightarrow> size_t \<Rightarrow> size_t \<Rightarrow> bool" where
  "in_page hhdm page a \<longleftrightarrow> page + hhdm < a \<and> a < page + hhdm + PageSize"

lemma in_page_unique:
  assumes "in_page hhdm p a" "in_page hhdm q a" "PageSize dvd p" "PageSize dvd q"
  shows "p = q"
proof -
  obtain i j where "p = PageSize * i" "q = PageSize * j" using assms(3,4) by (auto elim!: dvdE)
  with assms(1,2) show ?thesis by (auto simp: in_page_def)
qed

lemma slab_slots_in_page: "slab_ok hhdm sz p sb \<Longrightarrow> a \<in> slab_slots sz sb \<Longrightarrow> in_page hhdm p a"
proof -
  assume ok: "slab_ok hhdm sz p sb" and "a \<in> slab_slots sz sb"
  then obtain i where i: "a = sb_data sb + i * sz" "i < sb_total sb" by (auto simp: slab_slots_def)
  then have "i * sz \<le> sb_total sb * sz" by simp
  with ok i(1) show ?thesis unfolding slab_ok_def in_page_def by linarith
qed

lemma slots_in_page: "meta_ok hhdm sz ps slabs \<Longrightarrow> a \<in> slots sz slabs \<Longrightarrow> \<exists>p \<in> set ps. in_page hhdm p a \<and> PageSize dvd p"
proof (induction slabs arbitrary: ps)
  case (Cons sb slabs)
  then obtain p ps' where ps: "ps = p # ps'" by (cases ps) (auto simp: meta_ok_def)
  show ?case
  proof (cases "a \<in> slab_slots sz sb")
    case True
    then show ?thesis using Cons.prems(1) slab_slots_in_page by (auto simp: ps slab_ok_def)
  next
    case False
    then show ?thesis using Cons.IH [of ps'] Cons.prems by (auto simp: ps)
  qed
qed simp

text \<open>Slabs of different pages share no slot.\<close>

lemma slots_disjoint:
  "meta_ok hhdm s1 ps slabs \<Longrightarrow> meta_ok hhdm s2 qs slabs' \<Longrightarrow> set ps \<inter> set qs = {} \<Longrightarrow> slots s1 slabs \<inter> slots s2 slabs' = {}"
  using slots_in_page in_page_unique by (metis (no_types, lifting) disjoint_iff)

subsection \<open>Taking and returning a slot\<close>

lemma clear_bit_exists:
  assumes "0 < length (filter Not (take n bs))"
  shows "\<exists>i < n. i < length bs \<and> \<not> bs ! i"
proof -
  obtain x where "x \<in> set (filter Not (take n bs))" using assms by (cases "filter Not (take n bs)") auto
  then have "False \<in> set (take n bs)" by auto
  then show ?thesis by (auto simp: in_set_conv_nth)
qed

lemma filter_update:
  assumes "i < n" "i < length bs"
  shows "\<not> bs ! i \<Longrightarrow> length (filter Not (take n (bs[i := True]))) + 1 = length (filter Not (take n bs))"
    "length (filter Not (take n bs)) \<le> length (filter Not (take n (bs[i := False])))"
proof -
  let ?ts = "take n bs"
  have i: "i < length ?ts" "?ts ! i = bs ! i" using assms by simp_all
  have e: "take n (bs[i := v]) = take i ?ts @ v # drop (Suc i) ?ts" for v
    using i(1) upd_conv_take_nth_drop [of i ?ts v] by (simp add: take_update_swap)
  have t: "?ts = take i ?ts @ bs ! i # drop (Suc i) ?ts" using i id_take_nth_drop [of i ?ts] by simp
  have c: "length (filter Not ?ts) = length (filter Not (take i ?ts)) + (if bs ! i then 0 else 1) + length (filter Not (drop (Suc i) ?ts))"
    by (subst t) simp
  show "\<not> bs ! i \<Longrightarrow> length (filter Not (take n (bs[i := True]))) + 1 = length (filter Not ?ts)"
    unfolding e using c by simp
  show "length (filter Not ?ts) \<le> length (filter Not (take n (bs[i := False])))"
    unfolding e using c by simp
qed

lemma first_free_Some: "first_free slabs = Some i \<Longrightarrow> i < length slabs \<and> 0 < sb_free (slabs ! i)"
  by (induction slabs arbitrary: i) (auto split: if_splits)

lemma slot_inj: "0 < sz \<Longrightarrow> d + i * sz = d + j * sz \<longleftrightarrow> i = (j :: nat)"
  by simp

lemma slab_take:
  assumes ok: "slab_ok hhdm sz p sb" and f: "0 < sb_free sb" and sz: "0 < sz"
  shows "\<exists>found bitmap. BitmapFindClear (sb_bitmap sb) (sb_total sb) = Inr found \<and> found < sb_total sb \<and>
    BitmapSet (sb_bitmap sb) found = Inr (True, bitmap) \<and>
    (let sb' = sb\<lparr> sb_bitmap := bitmap, sb_free := sz_sub (sb_free sb) 1 \<rparr>; a = sz_add (sb_data sb) (sz_mul found sz)
     in slab_ok hhdm sz p sb' \<and> a \<notin> slab_slots sz sb \<and> slab_slots sz sb' = insert a (slab_slots sz sb))"
proof -
  let ?b = "bits (sb_bitmap sb)" and ?n = "sb_total sb"
  have n: "?n \<le> length ?b" "?n \<le> 8 * length (sb_bitmap sb)" using ok by (simp_all add: slab_ok_def)
  have cnt: "sb_free sb \<le> length (filter Not (take ?n ?b))" using ok by (simp add: slab_ok_def)
  have "0 < length (filter Not (take ?n ?b))" using cnt f by linarith
  then obtain j where j: "j < ?n" "\<not> ?b ! j" using clear_bit_exists by blast
  obtain r where r: "BitmapFindClear (sb_bitmap sb) ?n = Inr r" "r \<le> ?n" "\<forall>j<r. ?b ! j" "r < ?n \<longrightarrow> \<not> ?b ! r"
    using BitmapFindClear_correct [OF n(2)] by blast
  have rn: "r < ?n" using r(2,3) j by (metis le_neq_implies_less)
  obtain bm' where bm': "BitmapSet (sb_bitmap sb) r = Inr (True, bm')" "bits bm' = ?b[r := True]"
    using bm.set_view [of r "sb_bitmap sb"] rn n r(4) by auto
  have "r * sz \<le> ?n * sz" using rn by simp
  then have lim: "sb_data sb + r * sz < size_limit" using ok unfolding slab_ok_def by linarith
  have a: "sz_add (sb_data sb) (sz_mul r sz) = sb_data sb + r * sz" using lim by (simp add: sz_simps)
  have len: "length (sb_bitmap sb) = length bm'" using bm'(2) by (metis length_bits length_list_update mult_cancel1 zero_neq_numeral)
  have fr: "sz_sub (sb_free sb) 1 = sb_free sb - 1"
  proof -
    have "sb_free sb \<le> length (take ?n ?b)" using cnt length_filter_le le_trans by blast
    then have "sb_free sb \<le> ?n" by simp
    also have "?n \<le> ?n * sz" using sz by simp
    also have "\<dots> < size_limit" using ok unfolding slab_ok_def by linarith
    finally show ?thesis using f by (simp add: sz_simps)
  qed
  have "slab_ok hhdm sz p (sb\<lparr> sb_bitmap := bm', sb_free := sz_sub (sb_free sb) 1 \<rparr>)"
    using ok filter_update(1) [of r ?n ?b] rn n r(4) cnt len unfolding fr by (auto simp: slab_ok_def bm'(2))
  moreover have "sb_data sb + r * sz \<notin> slab_slots sz sb" using r(4) rn sz by (auto simp: slab_slots_def)
  moreover have "slab_slots sz (sb\<lparr> sb_bitmap := bm', sb_free := sz_sub (sb_free sb) 1 \<rparr>) = insert (sb_data sb + r * sz) (slab_slots sz sb)"
    using rn n by (auto simp: slab_slots_def bm'(2) nth_list_update)
  ultimately show ?thesis using r(1) rn bm'(1) a by (auto simp: Let_def)
qed

lemma bitmap_bytes_eq: "n + 8 \<le> size_limit \<Longrightarrow> bitmap_bytes n = (n + 7) div 8"
  using AlignUp_plain [of 8 n] by (simp add: bitmap_bytes_def)

lemma fit_slots_ok:
  assumes "n * sz + n + 8 \<le> size_limit"
  shows "fit_slots sz usable n \<le> n"
    "0 < fit_slots sz usable n \<Longrightarrow> fit_slots sz usable n * sz + bitmap_bytes (fit_slots sz usable n) \<le> usable"
    "0 < n \<Longrightarrow> sz + 1 \<le> usable \<Longrightarrow> 0 < fit_slots sz usable n"
proof -
  have plain: "sz_add (sz_mul m sz) (bitmap_bytes m) = m * sz + bitmap_bytes m" if "m \<le> n" for m
  proof -
    have "m * sz \<le> n * sz" using that by (rule mult_le_mono1)
    moreover have "bitmap_bytes m \<le> m + 7" using assms that bitmap_bytes_eq [of m] by simp
    ultimately have "m * sz + bitmap_bytes m < size_limit" using assms that by linarith
    then show ?thesis by (simp add: sz_simps)
  qed
  have "fit_slots sz usable m \<le> m \<and>
      (0 < fit_slots sz usable m \<longrightarrow> fit_slots sz usable m * sz + bitmap_bytes (fit_slots sz usable m) \<le> usable) \<and>
      (0 < m \<longrightarrow> sz + 1 \<le> usable \<longrightarrow> 0 < fit_slots sz usable m)" if "m \<le> n" for m
    using that
  proof (induction m)
    case (Suc m)
    have b1: "bitmap_bytes (Suc 0) = 1" using assms bitmap_bytes_eq [of "Suc 0"] by (simp add: size_limit_def)
    show ?case using Suc plain [of "Suc m"] b1 by (cases "m = 0") auto
  qed simp
  then show "fit_slots sz usable n \<le> n"
    "0 < fit_slots sz usable n \<Longrightarrow> fit_slots sz usable n * sz + bitmap_bytes (fit_slots sz usable n) \<le> usable"
    "0 < n \<Longrightarrow> sz + 1 \<le> usable \<Longrightarrow> 0 < fit_slots sz usable n" by auto
qed

lemma bits_zero: "bits (replicate k 0) = replicate (8 * k) False"
  by (rule nth_equalityI) (auto simp: nth_bits div_8_less)

lemma new_slab:
  assumes "PageSize dvd p" "p + hhdm + PageSize \<le> size_limit" "0 < sz" "sz \<le> 1024" "palloc w = Inr (p, w')"
  shows "\<exists>sb. CreateMetaSlab palloc hhdm sz slabs w = Inr (sb # slabs, w') \<and> slab_ok hhdm sz p sb \<and>
    0 < sb_free sb \<and> slab_slots sz sb = {}"
proof -
  let ?base = "p + hhdm"
  define ub where "ub = AlignUp (?base + sizeof_VmmMetaSlab) sz"
  have ub: "?base + 40 \<le> ub" "ub < ?base + 40 + sz"
    using AlignUp_ge [of sz "?base + sizeof_VmmMetaSlab"] assms by (simp_all add: ub_def sizeof_VmmMetaSlab_def)
  define us where "us = PageSize - (ub - ?base)"
  have us: "3000 \<le> us" "us \<le> PageSize" "ub + us = ?base + PageSize" using ub assms(4) by (simp_all add: us_def)
  define n where "n = fit_slots sz us (us div sz)"
  have small: "us div sz * sz + us div sz + 8 \<le> size_limit"
  proof -
    have "us div sz * sz \<le> us" "us div sz \<le> us" by simp_all
    then have "us div sz * sz + us div sz + 8 \<le> 9000" using us(2) by linarith
    then show ?thesis by (simp add: size_limit_def)
  qed
  have "0 < us div sz" using us(1) assms(3,4) by (simp add: div_greater_zero_iff)
  then have n: "0 < n" "n * sz + bitmap_bytes n \<le> us" "n \<le> us div sz"
    using fit_slots_ok [OF small, of us] us(1) assms(4) by (simp_all add: n_def)
  have bb: "bitmap_bytes n = (n + 7) div 8" using n(3) small by (intro bitmap_bytes_eq) linarith
  have base: "sz_add p hhdm = ?base" "sz_add ?base sizeof_VmmMetaSlab = ?base + sizeof_VmmMetaSlab"
    "sz_sub ub ?base = ub - ?base" "sz_sub PageSize (ub - ?base) = us"
    using assms(2) ub assms(4) by (simp_all add: sz_simps us_def sizeof_VmmMetaSlab_def size_limit_def)
  let ?sb = "\<lparr> sb_bitmap = replicate (bitmap_bytes n) 0, sb_data = ub, sb_free = n, sb_total = n \<rparr>"
  have "CreateMetaSlab palloc hhdm sz slabs w = Inr (?sb # slabs, w')"
    using assms(5) n(1) by (simp add: CreateMetaSlab_def Let_def base flip: ub_def n_def)
  moreover have "slab_ok hhdm sz p ?sb"
    using n us ub assms(1,2) bb by (auto simp: slab_ok_def bits_zero take_replicate)
  moreover have "slab_slots sz ?sb = {}" using bb by (auto simp: slab_slots_def bits_zero)
  ultimately show ?thesis using n(1) by auto
qed

lemma meta_update:
  assumes "meta_ok hhdm sz ps slabs" "i < length slabs" "slab_ok hhdm sz (ps ! i) sb'"
  shows "meta_ok hhdm sz ps (slabs[i := sb'])"
  using assms by (auto simp: meta_ok_def list_all2_conv_all_nth nth_list_update)

lemma slots_update:
  assumes "i < length slabs" "slab_slots sz sb' = insert a (slab_slots sz (slabs ! i))"
  shows "slots sz (slabs[i := sb']) = insert a (slots sz slabs)"
  using assms
proof (induction slabs arbitrary: i)
  case (Cons sb slabs)
  then show ?case by (cases i) auto
qed simp

lemma slot_elsewhere:
  assumes ok: "meta_ok hhdm sz ps slabs" and i: "i < length slabs" and a: "in_page hhdm (ps ! i) a" "a \<notin> slab_slots sz (slabs ! i)"
  shows "a \<notin> slots sz slabs"
proof
  assume "a \<in> slots sz slabs"
  then obtain j where j: "j < length slabs" "a \<in> slab_slots sz (slabs ! j)" by (auto simp: slots_def in_set_conv_nth)
  have s: "slab_ok hhdm sz (ps ! i) (slabs ! i)" "slab_ok hhdm sz (ps ! j) (slabs ! j)" "length ps = length slabs" "distinct ps"
    using ok i j(1) by (auto simp: meta_ok_def list_all2_conv_all_nth)
  have "ps ! i = ps ! j"
    using in_page_unique [OF a(1) slab_slots_in_page [OF s(2) j(2)]] s(1,2) by (simp add: slab_ok_def)
  then have "i = j" using s(3,4) i j(1) by (simp add: nth_eq_iff_index_eq)
  with a(2) j(2) show False by simp
qed

text \<open>What the users of the allocator rely on.\<close>

locale page_supply = page_source +
  fixes hhdm :: size_t
  assumes page_range: "pinv s \<Longrightarrow> p \<in> pages s \<Longrightarrow> PageSize dvd p \<and> p + hhdm + PageSize \<le> size_limit"
begin

lemma AllocMeta_ok:
  assumes ok: "meta_ok hhdm sz ps slabs" and sz: "0 < sz" "sz \<le> 1024" and w: "pinv w" "0 < avail w" "set ps \<inter> pages w = {}"
  shows "\<exists>a slabs' ps' w'. AllocMeta alloc hhdm sz slabs w = Inr (a, slabs', w') \<and> meta_ok hhdm sz ps' slabs' \<and>
    a \<notin> slots sz slabs \<and> slots sz slabs' = insert a (slots sz slabs) \<and> pinv w' \<and> pages w' \<subseteq> pages w \<and>
    avail w \<le> avail w' + 1 \<and> set ps \<subseteq> set ps' \<and> set ps' \<subseteq> set ps \<union> pages w \<and> set ps' \<inter> pages w' = {}"
proof -
  have "\<exists>i sl ps' w'. (case first_free slabs of Some i \<Rightarrow> Inr (i, slabs, w)
      | None \<Rightarrow> res_bind (CreateMetaSlab alloc hhdm sz slabs w) (\<lambda>(slabs, w). Inr (0, slabs, w))) = Inr (i, sl, w') \<and>
    i < length sl \<and> 0 < sb_free (sl ! i) \<and> meta_ok hhdm sz ps' sl \<and> slots sz sl = slots sz slabs \<and> pinv w' \<and>
    pages w' \<subseteq> pages w \<and> avail w \<le> avail w' + 1 \<and> set ps \<subseteq> set ps' \<and> set ps' \<subseteq> set ps \<union> pages w \<and> set ps' \<inter> pages w' = {}"
  proof (cases "first_free slabs")
    case (Some i)
    with first_free_Some [OF Some] ok w show ?thesis
      by (intro exI [of _ i] exI [of _ slabs] exI [of _ ps] exI [of _ w]) simp
  next
    case None
    obtain p w' where p: "alloc w = Inr (p, w')" "p \<in> pages w" "pages w' = pages w - {p}" "pinv w'" "avail w' + 1 = avail w"
      using alloc_ok [OF w(1,2)] by blast
    obtain sb where sb: "CreateMetaSlab alloc hhdm sz slabs w = Inr (sb # slabs, w')" "slab_ok hhdm sz p sb" "0 < sb_free sb"
      "slab_slots sz sb = {}"
      using new_slab [of p hhdm sz alloc w w' slabs] page_range [OF w(1) p(2)] sz p(1) by blast
    have "meta_ok hhdm sz (p # ps) (sb # slabs)" using sb(2) ok p(2) w(3) by auto
    with None sb p w(3) show ?thesis
      by (intro exI [of _ 0] exI [of _ "sb # slabs"] exI [of _ "p # ps"] exI [of _ w']) auto
  qed
  then obtain i sl ps' w' where s: "(case first_free slabs of Some i \<Rightarrow> Inr (i, slabs, w)
      | None \<Rightarrow> res_bind (CreateMetaSlab alloc hhdm sz slabs w) (\<lambda>(slabs, w). Inr (0, slabs, w))) = Inr (i, sl, w')"
    and i: "i < length sl" "0 < sb_free (sl ! i)" and m: "meta_ok hhdm sz ps' sl" "slots sz sl = slots sz slabs"
    and rest: "pinv w'" "pages w' \<subseteq> pages w" "avail w \<le> avail w' + 1" "set ps \<subseteq> set ps'" "set ps' \<subseteq> set ps \<union> pages w"
      "set ps' \<inter> pages w' = {}" by blast
  have sok: "slab_ok hhdm sz (ps' ! i) (sl ! i)" using m(1) i(1) by (auto simp: meta_ok_def list_all2_conv_all_nth)
  from slab_take [OF this i(2) sz(1)] obtain found bitmap where f:
    "BitmapFindClear (sb_bitmap (sl ! i)) (sb_total (sl ! i)) = Inr found" "found < sb_total (sl ! i)"
    "BitmapSet (sb_bitmap (sl ! i)) found = Inr (True, bitmap)" and
    g: "let sb' = (sl ! i)\<lparr> sb_bitmap := bitmap, sb_free := sz_sub (sb_free (sl ! i)) 1 \<rparr>;
         a = sz_add (sb_data (sl ! i)) (sz_mul found sz)
     in slab_ok hhdm sz (ps' ! i) sb' \<and> a \<notin> slab_slots sz (sl ! i) \<and> slab_slots sz sb' = insert a (slab_slots sz (sl ! i))"
    by blast
  define sb' where "sb' = (sl ! i)\<lparr> sb_bitmap := bitmap, sb_free := sz_sub (sb_free (sl ! i)) 1 \<rparr>"
  define a where "a = sz_add (sb_data (sl ! i)) (sz_mul found sz)"
  have g': "slab_ok hhdm sz (ps' ! i) sb'" "a \<notin> slab_slots sz (sl ! i)" "slab_slots sz sb' = insert a (slab_slots sz (sl ! i))"
    using g by (simp_all add: Let_def sb'_def a_def)
  have "a \<notin> slots sz slabs"
    using slot_elsewhere [OF m(1) i(1) slab_slots_in_page [OF g'(1)] g'(2)] g'(3) m(2) by simp
  moreover have "AllocMeta alloc hhdm sz slabs w = Inr (a, sl[i := sb'], w')"
    unfolding AllocMeta_def s using f by (simp add: Let_def sb'_def a_def)
  ultimately show ?thesis
    using meta_update [OF m(1) i(1) g'(1)] slots_update [OF i(1) g'(3)] m(2) rest by blast
qed

end

text \<open>Returning a slot: the slab that owns it is found although the test for the upper end is too weak.\<close>

lemma slab_return:
  assumes ok: "slab_ok hhdm sz p sb" and a: "a \<in> slab_slots sz sb" and sz: "0 < sz"
  shows "\<exists>bitmap. BitmapClear (sb_bitmap sb) (sz_sub a (sb_data sb) div sz) = Inr (True, bitmap) \<and>
    slab_ok hhdm sz p (sb\<lparr> sb_bitmap := bitmap \<rparr>) \<and> slab_slots sz (sb\<lparr> sb_bitmap := bitmap \<rparr>) = slab_slots sz sb - {a}"
proof -
  obtain i where i: "a = sb_data sb + i * sz" "i < sb_total sb" "bits (sb_bitmap sb) ! i" using a by (auto simp: slab_slots_def)
  have "a < size_limit" using slab_slots_in_page [OF ok a] ok by (simp add: slab_ok_def in_page_def)
  then have idx: "sz_sub a (sb_data sb) div sz = i" using i(1) sz by (simp add: sz_simps)
  have n: "sb_total sb \<le> length (bits (sb_bitmap sb))" using ok by (simp add: slab_ok_def)
  obtain bm' where bm': "BitmapClear (sb_bitmap sb) i = Inr (True, bm')" "bits bm' = (bits (sb_bitmap sb))[i := False]"
    using bm.clear_view [of i "sb_bitmap sb"] i n by auto
  have len: "length bm' = length (sb_bitmap sb)" using bm'(2) by (metis length_bits length_list_update mult_cancel1 zero_neq_numeral)
  have "slab_ok hhdm sz p (sb\<lparr> sb_bitmap := bm' \<rparr>)"
    using ok filter_update(2) [of i "sb_total sb" "bits (sb_bitmap sb)"] i n len by (auto simp: slab_ok_def bm'(2))
  moreover have "slab_slots sz (sb\<lparr> sb_bitmap := bm' \<rparr>) = slab_slots sz sb - {a}"
    using i n sz by (auto simp: slab_slots_def bm'(2) nth_list_update)
  ultimately show ?thesis using bm'(1) idx by auto
qed

lemma FreeMeta_ok:
  "meta_ok hhdm sz ps slabs \<Longrightarrow> a \<in> slots sz slabs \<Longrightarrow> 0 < sz \<Longrightarrow>
   \<exists>slabs'. FreeMeta sz a slabs = Inr slabs' \<and> meta_ok hhdm sz ps slabs' \<and> slots sz slabs' = slots sz slabs - {a}"
proof (induction slabs arbitrary: ps)
  case (Cons sb slabs)
  then obtain p ps' where ps: "ps = p # ps'" by (cases ps) (auto simp: meta_ok_def)
  have ok: "slab_ok hhdm sz p sb" "p \<notin> set ps'" "meta_ok hhdm sz ps' slabs" using Cons.prems(1) by (simp_all add: ps)
  have top: "sz_add (sb_data sb) (sz_mul (sb_total sb) sz) = sb_data sb + sb_total sb * sz"
    using ok(1) by (simp add: slab_ok_def sz_simps)
  show ?case
  proof (cases "a \<in> slab_slots sz sb")
    case True
    obtain i where i: "a = sb_data sb + i * sz" "i < sb_total sb" using True by (auto simp: slab_slots_def)
    have "i * sz \<le> sb_total sb * sz" using i(2) by simp
    then have here: "\<not> (a < sb_data sb \<or> a > sb_data sb + sb_total sb * sz)" using i(1) by linarith
    have "a \<notin> slots sz slabs"
    proof
      assume "a \<in> slots sz slabs"
      then obtain q where "q \<in> set ps'" "in_page hhdm q a" "PageSize dvd q" using slots_in_page [OF ok(3)] by blast
      with in_page_unique slab_slots_in_page [OF ok(1) True] ok(1,2) show False by (metis slab_ok_def)
    qed
    with slab_return [OF ok(1) True Cons.prems(3)] here ok show ?thesis by (auto simp: top ps Let_def)
  next
    case False
    then have in_rest: "a \<in> slots sz slabs" using Cons.prems(2) by simp
    then obtain q where q: "q \<in> set ps'" "in_page hhdm q a" "PageSize dvd q" using slots_in_page [OF ok(3)] by blast
    have "a < sb_data sb \<or> a > sb_data sb + sb_total sb * sz"
    proof (rule ccontr)
      assume "\<not> ?thesis"
      then have "in_page hhdm p a" using ok(1) by (auto simp: slab_ok_def in_page_def)
      with in_page_unique q ok(1,2) show False by (metis slab_ok_def)
    qed
    with Cons.IH [OF ok(3) in_rest Cons.prems(3)] ok False show ?thesis by (auto simp: top ps)
  qed
qed simp

text \<open>The physical memory manager, as far as its pages can be addressed at \<open>hhdm\<close>.\<close>

definition pmm_mapped :: "size_t \<Rightarrow> pmm \<Rightarrow> bool" where
  "pmm_mapped hhdm s \<longleftrightarrow> pmm_inv s \<and> (\<forall>p \<in> free_pages s. PageSize dvd p \<and> p + hhdm + PageSize \<le> size_limit)"

interpretation pmm_supply: page_supply pmm_alloc free_pages "pmm_mapped hhdm" pmm_avail hhdm for hhdm
proof
  fix s
  assume m: "pmm_mapped hhdm s" and av: "0 < pmm_avail s"
  obtain p s' where "pmm_alloc s = Inr (p, s')" "p \<in> free_pages s" "free_pages s' = free_pages s - {p}" "pmm_inv s'"
    "pmm_avail s' + 1 = pmm_avail s"
    using pmm_pages.alloc_ok [of s] m av unfolding pmm_mapped_def by blast
  with m show "\<exists>p s'. pmm_alloc s = Inr (p, s') \<and> p \<in> free_pages s \<and> free_pages s' = free_pages s - {p} \<and>
      pmm_mapped hhdm s' \<and> pmm_avail s' + 1 = pmm_avail s"
    by (intro exI [of _ p] exI [of _ s']) (simp add: pmm_mapped_def)
qed (simp add: pmm_mapped_def)

end
