(* ===== verification/Vmm.thy ===== *)
theory Vmm
  imports Vmm_Meta RB_Check RB_Data
begin

text \<open>
  \<open>kernel/memory/Vmm.cpp\<close>: a virtual memory manager. The address space between two bounds is divided
  into ranges, which are in use, and holes; both are kept in red-black trees ordered by their base, the
  holes with the largest hole below each node. Ranges and holes are slots of the metadata allocator
  \<open>Vmm_Meta\<close>. A range is backed by a driver, chosen by the type in its flags; a driver is a record of
  its virtual functions, which read the range and change the statistics and the rest of the machine
  (page tables, physical memory). The locks only order concurrent calls. An operation that does not
  return or dereferences \<open>nullptr\<close> in a tree is \<open>Null_Deref\<close>.
\<close>

subsection \<open>Flags\<close>

type_synonym vm_flags = u64

definition flags_of :: "nat \<Rightarrow> vm_flags" where
  "flags_of index = push_bit index 1"

definition flags_Has :: "vm_flags \<Rightarrow> nat \<Rightarrow> bool" where
  "flags_Has value index \<longleftrightarrow> value AND push_bit index 1 \<noteq> 0"

definition flags_Set :: "nat \<Rightarrow> vm_flags \<Rightarrow> bool \<times> vm_flags" where
  "flags_Set index value = (\<not> flags_Has value index, value OR push_bit index 1)"

definition flags_Clear :: "nat \<Rightarrow> vm_flags \<Rightarrow> bool \<times> vm_flags" where
  "flags_Clear index value = (flags_Has value index, value AND NOT (push_bit index 1))"

datatype vm_flag = VmWrite | VmExecute | VmUser | VmGuarded | VmAnon | VmMmio | VmFile

primrec vm_flag_index :: "vm_flag \<Rightarrow> nat" where
  "vm_flag_index VmWrite = 0"
| "vm_flag_index VmExecute = 1"
| "vm_flag_index VmUser = 2"
| "vm_flag_index VmGuarded = 3"
| "vm_flag_index VmAnon = 24"
| "vm_flag_index VmMmio = 25"
| "vm_flag_index VmFile = 26"

abbreviation Has :: "vm_flags \<Rightarrow> vm_flag \<Rightarrow> bool" where
  "Has value f \<equiv> flags_Has value (vm_flag_index f)"

text \<open>\<open>0xFF << 24\<close> is a negative \<open>int\<close>, so that all higher bits of the mask are set.\<close>

definition VmFlagTypeMask :: vm_flags where
  "VmFlagTypeMask = NOT (mask 24)"

datatype vm_fault_flag = FaultRead | FaultWrite | FaultExecute | FaultUser

primrec vm_fault_index :: "vm_fault_flag \<Rightarrow> nat" where
  "vm_fault_index FaultRead = 0"
| "vm_fault_index FaultWrite = 1"
| "vm_fault_index FaultExecute = 2"
| "vm_fault_index FaultUser = 3"

subsection \<open>Ranges, holes and drivers\<close>

record vm_range =
  rg_base :: size_t
  rg_length :: size_t
  rg_flags :: vm_flags
  rg_offset :: size_t
  rg_token :: size_t
  rg_mdlCount :: size_t

definition Top :: "vm_range \<Rightarrow> size_t" where
  "Top r = sz_add (rg_base r) (rg_length r)"

record vm_hole =
  ho_base :: size_t
  ho_length :: size_t
  ho_largest :: size_t

definition sizeof_VmRange :: size_t where
  "sizeof_VmRange = 96"

definition sizeof_VmHole :: size_t where
  "sizeof_VmHole = 72"

definition subtree_hole :: "('p \<Rightarrow> vm_hole) \<Rightarrow> 'p option \<Rightarrow> size_t \<Rightarrow> size_t" where
  "subtree_hole d child n = (case child of None \<Rightarrow> n | Some c \<Rightarrow> if ho_largest (d c) > n then ho_largest (d c) else n)"

definition hole_Aggregate :: "('p, vm_hole) aggregator" where
  "hole_Aggregate h d hole =
     (let n = subtree_hole d (hk_right (h hole)) (subtree_hole d (hk_left (h hole)) (ho_length (d hole)))
      in if ho_largest (d hole) = n then (False, d hole) else (True, (d hole)\<lparr> ho_largest := n \<rparr>))"

definition hole_CheckInvariant :: "('p, vm_hole) rb_tree \<Rightarrow> 'p \<Rightarrow> bool" where
  "hole_CheckInvariant tree hole =
     (let h = rb_hooks tree; d = rb_data tree;
          n = subtree_hole d (hk_right (h hole)) (subtree_hole d (hk_left (h hole)) (ho_length (d hole)))
      in if ho_largest (d hole) \<noteq> n then False
         else if (case hk_predecessor (h hole) of None \<Rightarrow> False
                  | Some p \<Rightarrow> ho_base (d hole) < sz_add (ho_base (d p)) (ho_length (d p))) then False
         else if (case hk_successor (h hole) of None \<Rightarrow> False
                  | Some q \<Rightarrow> sz_add (ho_base (d hole)) (ho_length (d hole)) > ho_base (d q)) then False
         else True)"

record vmm_stats =
  st_faults :: size_t
  st_anonRanges :: size_t
  st_anonWorkingSize :: size_t
  st_anonResidentSize :: size_t
  st_fileRanges :: size_t
  st_fileWorkingSize :: size_t
  st_fileResidentSize :: size_t
  st_mmioRanges :: size_t
  st_mmioWorkingSize :: size_t

record query_result =
  qr_alignment :: size_t
  qr_length :: size_t
  qr_hatMode :: size_t
  qr_success :: bool

record attach_result =
  ar_token :: size_t
  ar_offset :: size_t
  ar_success :: bool

record modify_args =
  ma_trimStart :: size_t
  ma_trimEnd :: size_t
  ma_setFlags :: vm_flags
  ma_clearFlags :: vm_flags

record split_result =
  sr_offset :: size_t
  sr_tokenLow :: size_t
  sr_tokenHigh :: size_t
  sr_success :: bool

record 's vm_driver =
  dr_HandleFault :: "vm_range \<Rightarrow> size_t \<Rightarrow> vm_flags \<Rightarrow> vmm_stats \<Rightarrow> 's \<Rightarrow> (bool \<times> vmm_stats \<times> 's) res"
  dr_ModifyRange :: "vm_range \<Rightarrow> modify_args \<Rightarrow> vmm_stats \<Rightarrow> 's \<Rightarrow> (bool \<times> vmm_stats \<times> 's) res"
  dr_Split :: "vm_range \<Rightarrow> size_t \<Rightarrow> split_result"
  dr_Query :: "size_t \<Rightarrow> vm_flags \<Rightarrow> size_t \<Rightarrow> query_result"
  dr_Attach :: "vm_range \<Rightarrow> query_result \<Rightarrow> size_t \<Rightarrow> vmm_stats \<Rightarrow> 's \<Rightarrow> (attach_result \<times> vmm_stats \<times> 's) res"
  dr_Detach :: "vm_range \<Rightarrow> vmm_stats \<Rightarrow> 's \<Rightarrow> (bool \<times> vmm_stats \<times> 's) res"

record 's vm_drivers =
  anonDriver :: "'s vm_driver"
  vfsDriver :: "'s vm_driver"
  kernelDriver :: "'s vm_driver"

definition GetDriver :: "'s vm_drivers \<Rightarrow> vm_flags \<Rightarrow> 's vm_driver option" where
  "GetDriver ds flags =
     (if Has flags VmAnon then Some (anonDriver ds)
      else if Has flags VmFile then Some (vfsDriver ds)
      else if Has flags VmMmio then Some (kernelDriver ds)
      else None)"

subsection \<open>The manager and its trees\<close>

record vmm =
  vm_ranges :: "(size_t, vm_range) rb_tree"
  vm_holes :: "(size_t, vm_hole) rb_tree"
  vm_rangeSlabs :: "meta_slab list"
  vm_holeSlabs :: "meta_slab list"
  vm_lower :: size_t
  vm_upper :: size_t
  vm_stats :: vmm_stats

definition returns :: "'a option \<Rightarrow> 'a res" where
  "returns m = (case m of None \<Rightarrow> Inl Null_Deref | Some x \<Rightarrow> Inr x)"

definition holes_Insert :: "size_t \<Rightarrow> vmm \<Rightarrow> vmm res" where
  "holes_Insert hole v =
     res_bind (returns (rb_Insert hole_Aggregate (key_less (\<lambda>a. ho_base (rb_data (vm_holes v) a))) hole (vm_holes v)))
       (\<lambda>t. Inr (v\<lparr> vm_holes := t \<rparr>))"

definition holes_Remove :: "size_t \<Rightarrow> vmm \<Rightarrow> vmm res" where
  "holes_Remove hole v =
     res_bind (returns (rb_Remove hole_Aggregate (Some hole) (vm_holes v))) (\<lambda>t. Inr (v\<lparr> vm_holes := t \<rparr>))"

definition ranges_Insert :: "size_t \<Rightarrow> vmm \<Rightarrow> vmm res" where
  "ranges_Insert rng v =
     res_bind (returns (rb_Insert NullAggregator (key_less (\<lambda>a. rg_base (rb_data (vm_ranges v) a))) rng (vm_ranges v)))
       (\<lambda>t. Inr (v\<lparr> vm_ranges := t \<rparr>))"

definition ranges_Remove :: "size_t \<Rightarrow> vmm \<Rightarrow> vmm res" where
  "ranges_Remove rng v =
     res_bind (returns (rb_Remove NullAggregator (Some rng) (vm_ranges v))) (\<lambda>t. Inr (v\<lparr> vm_ranges := t \<rparr>))"

definition new_hole ::
  "('s \<Rightarrow> (size_t \<times> 's) res) \<Rightarrow> size_t \<Rightarrow> vm_hole \<Rightarrow> vmm \<Rightarrow> 's \<Rightarrow> (size_t \<times> vmm \<times> 's) res" where
  "new_hole palloc hhdm x v w =
     res_bind (AllocMeta palloc hhdm sizeof_VmHole (vm_holeSlabs v) w) (\<lambda>(p, slabs, w).
       Inr (p, v\<lparr> vm_holeSlabs := slabs, vm_holes := construct p x (vm_holes v) \<rparr>, w))"

definition new_range ::
  "('s \<Rightarrow> (size_t \<times> 's) res) \<Rightarrow> size_t \<Rightarrow> vm_range \<Rightarrow> vmm \<Rightarrow> 's \<Rightarrow> (size_t \<times> vmm \<times> 's) res" where
  "new_range palloc hhdm x v w =
     res_bind (AllocMeta palloc hhdm sizeof_VmRange (vm_rangeSlabs v) w) (\<lambda>(p, slabs, w).
       Inr (p, v\<lparr> vm_rangeSlabs := slabs, vm_ranges := construct p x (vm_ranges v) \<rparr>, w))"

definition free_hole :: "size_t \<Rightarrow> vmm \<Rightarrow> vmm res" where
  "free_hole p v = res_bind (FreeMeta sizeof_VmHole p (vm_holeSlabs v)) (\<lambda>slabs. Inr (v\<lparr> vm_holeSlabs := slabs \<rparr>))"

definition free_range :: "size_t \<Rightarrow> vmm \<Rightarrow> vmm res" where
  "free_range p v = res_bind (FreeMeta sizeof_VmRange p (vm_rangeSlabs v)) (\<lambda>slabs. Inr (v\<lparr> vm_rangeSlabs := slabs \<rparr>))"

definition CommonInit ::
  "('s \<Rightarrow> (size_t \<times> 's) res) \<Rightarrow> size_t \<Rightarrow> vmm \<Rightarrow> 's \<Rightarrow> (vmm \<times> 's) res" where
  "CommonInit palloc hhdm v w =
     (let v1 = v\<lparr> vm_rangeSlabs := [], vm_holeSlabs := [] \<rparr>;
          len = sz_sub (vm_upper v1) (vm_lower v1)
      in res_bind (new_hole palloc hhdm \<lparr> ho_base = vm_lower v1, ho_length = len, ho_largest = len \<rparr> v1 w) (\<lambda>(p, v, w).
           res_bind (holes_Insert p v) (\<lambda>v. Inr (v, w))))"

definition AdjustHole ::
  "('s \<Rightarrow> (size_t \<times> 's) res) \<Rightarrow> size_t \<Rightarrow> size_t \<Rightarrow> size_t \<Rightarrow> size_t \<Rightarrow> vmm \<Rightarrow> 's \<Rightarrow> (vmm \<times> 's) res" where
  "AdjustHole palloc hhdm target offset len v w =
     (if sz_add offset len > ho_length (rb_data (vm_holes v) target) then Inl Assert_Failed
      else res_bind (holes_Remove target v) (\<lambda>v.
        res_bind
          (if offset > 0
           then res_bind (new_hole palloc hhdm
                  \<lparr> ho_base = ho_base (rb_data (vm_holes v) target), ho_length = offset, ho_largest = 0 \<rparr> v w) (\<lambda>(p, v, w).
                  res_bind (holes_Insert p v) (\<lambda>v. Inr (v, w)))
           else Inr (v, w))
          (\<lambda>(v, w).
            if sz_add offset len < ho_length (rb_data (vm_holes v) target)
            then res_bind (new_hole palloc hhdm
                   \<lparr> ho_base = sz_add (sz_add (ho_base (rb_data (vm_holes v) target)) offset) len,
                     ho_length = sz_sub (ho_length (rb_data (vm_holes v) target)) (sz_add offset len), ho_largest = 0 \<rparr> v w)
                   (\<lambda>(p, v, w). res_bind (holes_Insert p v) (\<lambda>v. Inr (v, w)))
            else Inr (v, w))))"

partial_function (option) find_range_loop :: "(size_t, vm_range) rb_tree \<Rightarrow> size_t \<Rightarrow> size_t option \<Rightarrow> size_t option option" where
  "find_range_loop t addr scan =
     (case scan of None \<Rightarrow> Some None
      | Some a \<Rightarrow>
          let r = rb_data t a
          in if addr \<ge> rg_base r \<and> addr < Top r then Some (Some a)
             else if addr < rg_base r then find_range_loop t addr (hk_left (rb_hooks t a))
             else if addr \<ge> Top r then find_range_loop t addr (hk_right (rb_hooks t a))
             else find_range_loop t addr (Some a))"

definition FindRange :: "vmm \<Rightarrow> size_t \<Rightarrow> size_t option res" where
  "FindRange v addr =
     (if addr < vm_lower v \<or> addr \<ge> vm_upper v then Inr None
      else returns (find_range_loop (vm_ranges v) addr (rb_root (vm_ranges v))))"

subsection \<open>Allocating and freeing\<close>

partial_function (option) hole_search :: "(size_t, vm_hole) rb_tree \<Rightarrow> size_t \<Rightarrow> size_t \<Rightarrow> size_t option option" where
  "hole_search t len hole =
     (case hk_left (rb_hooks t hole) of
        Some l \<Rightarrow> if ho_largest (rb_data t l) \<ge> len then hole_search t len l
                  else if ho_length (rb_data t hole) \<ge> len then Some (Some hole)
                  else (case hk_right (rb_hooks t hole) of None \<Rightarrow> Some None
                        | Some r \<Rightarrow> if ho_largest (rb_data t r) \<ge> len then hole_search t len r else Some None)
      | None \<Rightarrow> if ho_length (rb_data t hole) \<ge> len then Some (Some hole)
                else (case hk_right (rb_hooks t hole) of None \<Rightarrow> Some None
                      | Some r \<Rightarrow> if ho_largest (rb_data t r) \<ge> len then hole_search t len r else Some None))"

definition count_range :: "(size_t \<Rightarrow> size_t) \<Rightarrow> vm_flags \<Rightarrow> vmm_stats \<Rightarrow> vmm_stats" where
  "count_range f flags st =
     (if Has flags VmAnon then st\<lparr> st_anonRanges := f (st_anonRanges st) \<rparr>
      else if Has flags VmFile then st\<lparr> st_fileRanges := f (st_fileRanges st) \<rparr>
      else if Has flags VmMmio then st\<lparr> st_mmioRanges := f (st_mmioRanges st) \<rparr>
      else st)"

text \<open>The second half of \<open>Alloc\<close>, once the range struct is made.\<close>

definition attach_range ::
  "('s \<Rightarrow> (size_t \<times> 's) res) \<Rightarrow> size_t \<Rightarrow> 's vm_driver \<Rightarrow> query_result \<Rightarrow> size_t \<Rightarrow> vm_flags \<Rightarrow> size_t \<Rightarrow> vmm \<Rightarrow> 's \<Rightarrow>
   (size_t option \<times> vmm \<times> 's) res" where
  "attach_range palloc hhdm driver query initArg flags vmRange v w =
     res_bind (dr_Attach driver (rb_data (vm_ranges v) vmRange) query initArg (vm_stats v) w) (\<lambda>(result, stats, w).
       let v = v\<lparr> vm_stats := stats \<rparr>
       in if \<not> ar_success result
          then res_bind (new_hole palloc hhdm
                 \<lparr> ho_base = rg_base (rb_data (vm_ranges v) vmRange),
                   ho_length = rg_length (rb_data (vm_ranges v) vmRange), ho_largest = 0 \<rparr> v w)
                 (\<lambda>(returnHole, v, w).
                   res_bind (holes_Insert returnHole v) (\<lambda>v.
                   res_bind (free_range vmRange v) (\<lambda>v. Inr (None, v, w))))
          else
            let r = (rb_data (vm_ranges v) vmRange)\<lparr> rg_token := ar_token result, rg_offset := ar_offset result \<rparr>;
                v = v\<lparr> vm_ranges := (vm_ranges v)\<lparr> rb_data := (rb_data (vm_ranges v))(vmRange := r) \<rparr> \<rparr>
            in res_bind (ranges_Insert vmRange v) (\<lambda>v.
                 Inr (Some (sz_add (rg_base r) (rg_offset r)),
                      v\<lparr> vm_stats := count_range (\<lambda>n. sz_add n 1) flags (vm_stats v) \<rparr>, w)))"

definition vmm_Alloc ::
  "('s \<Rightarrow> (size_t \<times> 's) res) \<Rightarrow> size_t \<Rightarrow> 's vm_drivers \<Rightarrow> size_t \<Rightarrow> size_t \<Rightarrow> vm_flags \<Rightarrow> size_t \<Rightarrow> vmm \<Rightarrow> 's \<Rightarrow>
   (size_t option \<times> vmm \<times> 's) res" where
  "vmm_Alloc palloc hhdm ds len initArg flags alignment v w =
     (if len = 0 then Inr (None, v, w)
      else case GetDriver ds flags of None \<Rightarrow> Inr (None, v, w)
      | Some driver \<Rightarrow>
        let query = dr_Query driver len flags initArg
        in if \<not> qr_success query then Inr (None, v, w)
           else if alignment > 1 \<and> qr_alignment query mod alignment \<noteq> 0 then Inr (None, v, w)
           else case rb_root (vm_holes v) of None \<Rightarrow> Inr (None, v, w)
           | Some root \<Rightarrow>
             res_bind (returns (hole_search (vm_holes v) (qr_length query) root)) (\<lambda>found.
               case found of None \<Rightarrow> Inr (None, v, w)
               | Some hole \<Rightarrow>
                 let rangeBase = ho_base (rb_data (vm_holes v) hole)
                 in res_bind (AdjustHole palloc hhdm hole 0 (qr_length query) v w) (\<lambda>(v, w).
                    res_bind (free_hole hole v) (\<lambda>v.
                    if rangeBase = 0 then Inr (None, v, w)
                    else res_bind (new_range palloc hhdm
                        \<lparr> rg_base = rangeBase, rg_length = qr_length query, rg_flags = flags, rg_offset = 0,
                          rg_token = 0, rg_mdlCount = 0 \<rparr> v w) (\<lambda>(vmRange, v, w).
                      attach_range palloc hhdm driver query initArg flags vmRange v w)))))"

definition vmm_Free ::
  "('s \<Rightarrow> (size_t \<times> 's) res) \<Rightarrow> size_t \<Rightarrow> 's vm_drivers \<Rightarrow> size_t \<Rightarrow> vmm \<Rightarrow> 's \<Rightarrow> (bool \<times> vmm \<times> 's) res" where
  "vmm_Free palloc hhdm ds base v w =
     res_bind (FindRange v base) (\<lambda>found.
       case found of None \<Rightarrow> Inr (False, v, w)
       | Some p \<Rightarrow>
         let r = rb_data (vm_ranges v) p
         in if rg_mdlCount r \<noteq> 0 then Inr (False, v, w)
            else res_bind (ranges_Remove p v) (\<lambda>v.
              let v = v\<lparr> vm_stats := count_range (\<lambda>n. sz_sub n 1) (rg_flags r) (vm_stats v) \<rparr>
              in case GetDriver ds (rg_flags r) of None \<Rightarrow> Inr (False, v, w)
                 | Some driver \<Rightarrow>
                   res_bind (dr_Detach driver r (vm_stats v) w) (\<lambda>(detachSuccess, stats, w).
                     let v = v\<lparr> vm_stats := stats \<rparr>
                     in if \<not> detachSuccess
                        then res_bind (free_range p v) (\<lambda>v. Inr (False, v, w))
                        else res_bind (new_hole palloc hhdm
                               \<lparr> ho_base = rg_base r, ho_length = rg_length r, ho_largest = 0 \<rparr> v w) (\<lambda>(hole, v, w).
                               res_bind (free_range p v) (\<lambda>v.
                               res_bind (holes_Insert hole v) (\<lambda>v. Inr (True, v, w)))))))"

subsection \<open>Faults, flags and splitting\<close>

definition set_range :: "size_t \<Rightarrow> vm_range \<Rightarrow> vmm \<Rightarrow> vmm" where
  "set_range p r v = v\<lparr> vm_ranges := (vm_ranges v)\<lparr> rb_data := (rb_data (vm_ranges v))(p := r) \<rparr> \<rparr>"

definition vmm_HandleFault ::
  "'s vm_drivers \<Rightarrow> size_t \<Rightarrow> vm_flags \<Rightarrow> vmm \<Rightarrow> 's \<Rightarrow> (bool \<times> vmm \<times> 's) res" where
  "vmm_HandleFault ds addr flags v w =
     (if addr < vm_lower v \<or> addr \<ge> vm_upper v then Inr (False, v, w)
      else
        let v = v\<lparr> vm_stats := (vm_stats v)\<lparr> st_faults := sz_add (st_faults (vm_stats v)) 1 \<rparr> \<rparr>
        in res_bind (FindRange v addr) (\<lambda>found.
             case found of None \<Rightarrow> Inr (False, v, w)
             | Some p \<Rightarrow>
               let r = rb_data (vm_ranges v) p
               in if flags_Has flags (vm_fault_index FaultWrite) \<and> \<not> Has (rg_flags r) VmWrite then Inr (False, v, w)
                  else if flags_Has flags (vm_fault_index FaultExecute) \<and> \<not> Has (rg_flags r) VmExecute then Inr (False, v, w)
                  else if flags_Has flags (vm_fault_index FaultUser) \<and> \<not> Has (rg_flags r) VmUser then Inr (False, v, w)
                  else case GetDriver ds (rg_flags r) of None \<Rightarrow> Inr (False, v, w)
                  | Some driver \<Rightarrow>
                    res_bind (dr_HandleFault driver r addr flags (vm_stats v) w) (\<lambda>(good, stats, w).
                      Inr (good, v\<lparr> vm_stats := stats \<rparr>, w))))"

definition vmm_GetFlags :: "size_t \<Rightarrow> size_t \<Rightarrow> vmm \<Rightarrow> vm_flags option res" where
  "vmm_GetFlags base len v =
     res_bind (FindRange v base) (\<lambda>found.
       case found of None \<Rightarrow> Inr None
       | Some p \<Rightarrow> if Top (rb_data (vm_ranges v) p) < sz_add base len then Inr None
                   else Inr (Some (rg_flags (rb_data (vm_ranges v) p))))"

definition vmm_SetFlags :: "'s vm_drivers \<Rightarrow> size_t \<Rightarrow> vm_flags \<Rightarrow> vmm \<Rightarrow> 's \<Rightarrow> (bool \<times> vmm \<times> 's) res" where
  "vmm_SetFlags ds base flags v w =
     res_bind (FindRange v base) (\<lambda>found.
       case found of None \<Rightarrow> Inr (False, v, w)
       | Some p \<Rightarrow>
         let r = rb_data (vm_ranges v) p
         in if flags AND VmFlagTypeMask \<noteq> 0 then Inr (False, v, w)
            else case GetDriver ds (rg_flags r) of None \<Rightarrow> Inr (False, v, w)
            | Some driver \<Rightarrow>
              let flags = flags AND NOT VmFlagTypeMask;
                  args = \<lparr> ma_trimStart = 0, ma_trimEnd = 0, ma_setFlags = flags AND NOT (rg_flags r),
                           ma_clearFlags = rg_flags r AND NOT flags \<rparr>
              in res_bind (dr_ModifyRange driver r args (vm_stats v) w) (\<lambda>(good, stats, w).
                   let v = v\<lparr> vm_stats := stats \<rparr>
                   in if \<not> good then Inr (False, v, w)
                      else Inr (True, set_range p (r\<lparr> rg_flags := (rg_flags r AND VmFlagTypeMask) OR flags \<rparr>) v, w)))"

definition vmm_Split ::
  "('s \<Rightarrow> (size_t \<times> 's) res) \<Rightarrow> size_t \<Rightarrow> 's vm_drivers \<Rightarrow> size_t \<Rightarrow> size_t \<Rightarrow> vmm \<Rightarrow> 's \<Rightarrow>
   (size_t option \<times> vmm \<times> 's) res" where
  "vmm_Split palloc hhdm ds base offset v w =
     res_bind (FindRange v base) (\<lambda>found.
       case found of None \<Rightarrow> Inr (None, v, w)
       | Some p \<Rightarrow>
         let r = rb_data (vm_ranges v) p
         in if rg_mdlCount r \<noteq> 0 then Inr (None, v, w)
            else let offset = sz_add offset (sz_sub base (sz_add (rg_base r) (rg_offset r)))
            in case GetDriver ds (rg_flags r) of None \<Rightarrow> Inr (None, v, w)
               | Some driver \<Rightarrow>
                 let result = dr_Split driver r offset
                 in if \<not> sr_success result then Inr (None, v, w)
                    else if sr_offset result = rg_length r then Inr (Some (sz_add (rg_base r) offset), v, w)
                    else
                      res_bind (new_range palloc hhdm
                          \<lparr> rg_base = sz_add (rg_base r) (sr_offset result), rg_length = sz_sub (rg_length r) (sr_offset result),
                            rg_flags = rg_flags r, rg_offset = 0, rg_token = sr_tokenHigh result, rg_mdlCount = 0 \<rparr> v w)
                        (\<lambda>(q, v, w).
                          let v = set_range p (r\<lparr> rg_length := sz_sub (rg_base (rb_data (vm_ranges v) q)) (rg_base r),
                                                  rg_token := sr_tokenLow result \<rparr>) v;
                              v = v\<lparr> vm_stats := count_range (\<lambda>n. sz_add n 1) (rg_flags r) (vm_stats v) \<rparr>
                          in res_bind (ranges_Insert q v) (\<lambda>v.
                               Inr (Some (sz_sub (sr_offset result) (rg_offset r)), v, w))))"

definition vmm_MemoryExists :: "size_t \<Rightarrow> size_t \<Rightarrow> vm_flags option \<Rightarrow> vmm \<Rightarrow> bool res" where
  "vmm_MemoryExists base len flags v =
     res_bind (FindRange v base) (\<lambda>found.
       case found of None \<Rightarrow> Inr False
       | Some p \<Rightarrow>
         if Top (rb_data (vm_ranges v) p) < sz_add base len then Inr False
         else case flags of Some f \<Rightarrow> Inr (f AND rg_flags (rb_data (vm_ranges v) p) = f)
              | None \<Rightarrow> Inr True)"

definition vmm_ReleaseMdl :: "size_t \<Rightarrow> vmm \<Rightarrow> vmm res" where
  "vmm_ReleaseMdl base v =
     res_bind (FindRange v base) (\<lambda>found.
       case found of None \<Rightarrow> Inr v
       | Some p \<Rightarrow>
         let r = rb_data (vm_ranges v) p
         in if rg_mdlCount r = 0 then Inl Assert_Failed
            else Inr (set_range p (r\<lparr> rg_mdlCount := sz_sub (rg_mdlCount r) 1 \<rparr>) v))"

subsection \<open>Extents in order\<close>

text \<open>
  The nodes of a tree as extents of the address space, base and length: each one is not empty, ends
  before the next one begins and lies between the bounds of the manager.
\<close>

definition spaced :: "('p \<Rightarrow> size_t \<times> size_t) \<Rightarrow> 'p list \<Rightarrow> bool" where
  "spaced ext xs \<longleftrightarrow> sorted_wrt (\<lambda>a b. fst (ext a) + snd (ext a) \<le> fst (ext b)) xs \<and> (\<forall>a \<in> set xs. 0 < snd (ext a))"

definition holds :: "('p \<Rightarrow> size_t \<times> size_t) \<Rightarrow> size_t \<Rightarrow> 'p \<Rightarrow> bool" where
  "holds ext addr a \<longleftrightarrow> fst (ext a) \<le> addr \<and> addr < fst (ext a) + snd (ext a)"

definition within :: "size_t \<Rightarrow> size_t \<Rightarrow> ('p \<Rightarrow> size_t \<times> size_t) \<Rightarrow> 'p set \<Rightarrow> bool" where
  "within lo hi ext A \<longleftrightarrow> (\<forall>a \<in> A. lo \<le> fst (ext a) \<and> fst (ext a) + snd (ext a) \<le> hi)"

definition apart :: "size_t \<times> size_t \<Rightarrow> size_t \<times> size_t \<Rightarrow> bool" where
  "apart x y \<longleftrightarrow> fst x + snd x \<le> fst y \<or> fst y + snd y \<le> fst x"

lemma spaced_append:
  "spaced ext (xs @ ys) \<longleftrightarrow> spaced ext xs \<and> spaced ext ys \<and> (\<forall>a \<in> set xs. \<forall>b \<in> set ys. fst (ext a) + snd (ext a) \<le> fst (ext b))"
  by (auto simp: spaced_def sorted_wrt_append)

lemma spaced_Cons:
  "spaced ext (x # xs) \<longleftrightarrow> 0 < snd (ext x) \<and> spaced ext xs \<and> (\<forall>b \<in> set xs. fst (ext x) + snd (ext x) \<le> fst (ext b))"
  by (auto simp: spaced_def)

lemma spaced_cong: "\<forall>a \<in> set xs. ext' a = ext a \<Longrightarrow> spaced ext' xs = spaced ext xs"
  by (induction xs) (auto simp: spaced_Cons spaced_def)

lemma spaced_sorted: "spaced ext xs \<Longrightarrow> sorted (map (\<lambda>a. fst (ext a)) xs)"
  by (induction xs) (auto simp: spaced_Cons spaced_def dest: add_leD1)

lemma spaced_apart: "spaced ext xs \<Longrightarrow> a \<in> set xs \<Longrightarrow> b \<in> set xs \<Longrightarrow> a \<noteq> b \<Longrightarrow> apart (ext a) (ext b)"
  by (induction xs) (auto simp: spaced_Cons spaced_def apart_def)

lemma spaced_filter: "spaced ext xs \<Longrightarrow> spaced ext (filter P xs)"
  by (auto simp: spaced_def sorted_wrt_filter)

text \<open>A new extent that is apart from all others goes where its base puts it.\<close>

lemma spaced_insert:
  assumes "spaced ext xs" "0 < snd (ext z)" "\<forall>a \<in> set xs. apart (ext a) (ext z)"
  shows "spaced ext (filter (\<lambda>a. fst (ext a) \<le> fst (ext z)) xs @ z # filter (\<lambda>a. fst (ext z) < fst (ext a)) xs)"
proof -
  have pos: "\<forall>a \<in> set xs. 0 < snd (ext a)" using assms(1) by (simp add: spaced_def)
  have lo: "fst (ext a) + snd (ext a) \<le> fst (ext z)" if "a \<in> set xs" "fst (ext a) \<le> fst (ext z)" for a
    using assms(2,3) that pos by (fastforce simp: apart_def)
  have hi: "fst (ext z) + snd (ext z) \<le> fst (ext b)" if "b \<in> set xs" "fst (ext z) < fst (ext b)" for b
    using assms(2,3) that pos by (fastforce simp: apart_def)
  show ?thesis
    using assms(1,2) lo hi by (fastforce simp: spaced_append spaced_Cons spaced_filter)
qed

definition range_ext :: "(size_t, vm_range) rb_tree \<Rightarrow> size_t \<Rightarrow> size_t \<times> size_t" where
  "range_ext t a = (rg_base (rb_data t a), rg_length (rb_data t a))"

definition hole_ext :: "(size_t, vm_hole) rb_tree \<Rightarrow> size_t \<Rightarrow> size_t \<times> size_t" where
  "hole_ext t a = (ho_base (rb_data t a), ho_length (rb_data t a))"

lemma ext_simps [simp]:
  "fst (range_ext t a) = rg_base (rb_data t a)" "snd (range_ext t a) = rg_length (rb_data t a)"
  "fst (hole_ext u b) = ho_base (rb_data u b)" "snd (hole_ext u b) = ho_length (rb_data u b)"
  by (simp_all add: range_ext_def hole_ext_def)

subsection \<open>Finding the range of an address\<close>

lemma find_range_loop_ok:
  assumes "zip_ok t T cs" "spaced (range_ext t) (inord T)" "\<forall>a \<in> set (inord T). fst (range_ext t a) + snd (range_ext t a) < size_limit"
  shows "find_range_loop t addr (ptr T) = Some (find (holds (range_ext t) addr) (inord T))"
  using assms
proof (induction T arbitrary: cs)
  case Tip
  show ?case by (subst find_range_loop.simps) simp
next
  case (Bin c l a r)
  let ?r = "rb_data t a" and ?P = "holds (range_ext t) addr"
  have z: "zip_ok t l (LF c a r # cs)" "zip_ok t r (RF c l a # cs)" using Bin.prems(1) by (simp_all add: zip_up)
  have ch: "hk_left (rb_hooks t a) = ptr l" "hk_right (rb_hooks t a) = ptr r"
    using Bin.prems(1) by (simp_all add: zip_ok_def)
  have top: "Top ?r = rg_base ?r + rg_length ?r" using Bin.prems(3) by (simp add: Top_def sz_simps)
  have sp: "spaced (range_ext t) (inord l)" "spaced (range_ext t) (inord r)" "0 < rg_length ?r"
    "\<forall>b \<in> set (inord l). fst (range_ext t b) + snd (range_ext t b) \<le> rg_base ?r"
    "\<forall>b \<in> set (inord r). rg_base ?r + rg_length ?r \<le> fst (range_ext t b)"
    using Bin.prems(2) by (auto simp: spaced_append spaced_Cons)
  have L: "find_range_loop t addr (ptr l) = Some (find ?P (inord l))" using Bin.IH(1) [OF z(1) sp(1)] Bin.prems(3) by simp
  have R: "find_range_loop t addr (ptr r) = Some (find ?P (inord r))" using Bin.IH(2) [OF z(2) sp(2)] Bin.prems(3) by simp
  have nl: "rg_base ?r \<le> addr \<Longrightarrow> find ?P (inord l) = None" using sp(4) by (intro find_none) (fastforce simp: holds_def)
  have nr: "addr < rg_base ?r + rg_length ?r \<Longrightarrow> find ?P (inord r) = None" using sp(5) by (intro find_none) (fastforce simp: holds_def)
  have Pa: "?P a \<longleftrightarrow> rg_base ?r \<le> addr \<and> addr < rg_base ?r + rg_length ?r" by (simp add: holds_def)
  consider "addr < rg_base ?r" | "?P a" | "rg_base ?r + rg_length ?r \<le> addr"
    by (cases "addr < rg_base ?r"; cases "addr < rg_base ?r + rg_length ?r") (auto simp: Pa)
  then show ?case
  proof cases
    case 1
    then have "find_range_loop t addr (ptr (Bin c l a r)) = find_range_loop t addr (ptr l)"
      using ch by (subst find_range_loop.simps) (simp add: Let_def)
    with 1 L nr Pa show ?thesis by (simp add: find_append split: option.split)
  next
    case 2
    then show ?thesis using nl Pa by (subst find_range_loop.simps) (simp add: find_append top)
  next
    case 3
    then have "find_range_loop t addr (ptr (Bin c l a r)) = find_range_loop t addr (ptr r)"
      using ch sp(3) by (subst find_range_loop.simps) (simp add: Let_def top)
    with 3 R nl Pa show ?thesis by (simp add: find_append)
  qed
qed

subsection \<open>The invariant\<close>

text \<open>
  The trees \<open>TR\<close> and \<open>TH\<close> of a manager: every address between the bounds is in at most one extent, and every
  node is a slot in use. \<open>psR\<close> and \<open>psH\<close> are the pages of the slabs, none of them in \<open>pg\<close>, the free pages.
\<close>

definition trees_ok :: "vmm \<Rightarrow> size_t rbt \<Rightarrow> size_t rbt \<Rightarrow> bool" where
  "trees_ok v TR TH \<longleftrightarrow>
     rb_rep (vm_ranges v) TR \<and> rb_rep (vm_holes v) TH \<and>
     spaced (range_ext (vm_ranges v)) (inord TR) \<and> spaced (hole_ext (vm_holes v)) (inord TH) \<and>
     within (vm_lower v) (vm_upper v) (range_ext (vm_ranges v)) (set (inord TR)) \<and>
     within (vm_lower v) (vm_upper v) (hole_ext (vm_holes v)) (set (inord TH)) \<and>
     (\<forall>a \<in> set (inord TR). \<forall>b \<in> set (inord TH). apart (range_ext (vm_ranges v) a) (hole_ext (vm_holes v) b)) \<and>
     0 < vm_lower v \<and> vm_upper v < size_limit"

definition slots_ok :: "size_t \<Rightarrow> size_t set \<Rightarrow> size_t list \<Rightarrow> size_t list \<Rightarrow> size_t set \<Rightarrow> size_t set \<Rightarrow> vmm \<Rightarrow> bool" where
  "slots_ok hhdm pg psR psH A B v \<longleftrightarrow>
     meta_ok hhdm sizeof_VmRange psR (vm_rangeSlabs v) \<and> meta_ok hhdm sizeof_VmHole psH (vm_holeSlabs v) \<and>
     set psR \<inter> set psH = {} \<and> (set psR \<union> set psH) \<inter> pg = {} \<and>
     A \<subseteq> slots sizeof_VmRange (vm_rangeSlabs v) \<and> B \<subseteq> slots sizeof_VmHole (vm_holeSlabs v)"

lemma views_hole: "views (\<lambda>x. (ho_base x, ho_length x)) hole_Aggregate"
  by (simp add: views_def hole_Aggregate_def Let_def)

lemma holes_Remove_ok:
  assumes "rb_rep (vm_holes v) TH" "h \<in> set (inord TH)"
  shows "\<exists>t T'. holes_Remove h v = Inr (v\<lparr> vm_holes := t \<rparr>) \<and> rb_rep t T' \<and>
    inord T' = filter (\<lambda>a. a \<noteq> h) (inord TH) \<and> hole_ext t = hole_ext (vm_holes v)"
proof -
  obtain t T' where t: "rb_Remove hole_Aggregate (Some h) (vm_holes v) = Some t" "rb_rep t T'"
    "inord T' = filter (\<lambda>a. a \<noteq> h) (inord TH)"
    using rb_remove_step [OF assms] by blast
  with rb_Remove_data [OF views_hole t(1)] show ?thesis by (auto simp: holes_Remove_def returns_def hole_ext_def fun_eq_iff)
qed

lemma ranges_Remove_ok:
  assumes "rb_rep (vm_ranges v) TR" "p \<in> set (inord TR)"
  shows "\<exists>t T'. ranges_Remove p v = Inr (v\<lparr> vm_ranges := t \<rparr>) \<and> rb_rep t T' \<and>
    inord T' = filter (\<lambda>a. a \<noteq> p) (inord TR) \<and> rb_data t = rb_data (vm_ranges v)"
proof -
  obtain t T' where t: "rb_Remove NullAggregator (Some p) (vm_ranges v) = Some t" "rb_rep t T'"
    "inord T' = filter (\<lambda>a. a \<noteq> p) (inord TR)"
    using rb_remove_step [OF assms] by blast
  with rb_Remove_data [OF views_null t(1)] show ?thesis by (auto simp: ranges_Remove_def returns_def fun_eq_iff)
qed

lemma holes_Insert_ok:
  assumes "rb_rep (vm_holes v) TH" "h \<notin> set (inord TH)" "unhooked (rb_hooks (vm_holes v) h)"
    "spaced (hole_ext (vm_holes v)) (inord TH)" "0 < snd (hole_ext (vm_holes v) h)"
    "\<forall>a \<in> set (inord TH). apart (hole_ext (vm_holes v) a) (hole_ext (vm_holes v) h)"
  shows "\<exists>t T'. holes_Insert h v = Inr (v\<lparr> vm_holes := t \<rparr>) \<and> rb_rep t T' \<and> set (inord T') = insert h (set (inord TH)) \<and>
    spaced (hole_ext t) (inord T') \<and> hole_ext t = hole_ext (vm_holes v)"
proof -
  let ?key = "\<lambda>a. ho_base (rb_data (vm_holes v) a)"
  have srt: "sorted (map ?key (inord TH))" using spaced_sorted [OF assms(4)] by simp
  obtain t T' where t: "rb_Insert hole_Aggregate (key_less ?key) h (vm_holes v) = Some t" "rb_rep t T'"
    "inord T' = filter (\<lambda>a. ?key a \<le> ?key h) (inord TH) @ h # filter (\<lambda>a. ?key h < ?key a) (inord TH)"
    using rb_insert_step [OF assms(1-3) srt, of hole_Aggregate] by blast
  have ext: "hole_ext t = hole_ext (vm_holes v)"
    using rb_Insert_data [OF views_hole t(1)] by (simp add: hole_ext_def fun_eq_iff)
  have "spaced (hole_ext t) (inord T')" unfolding ext t(3) using spaced_insert [OF assms(4-6)] by simp
  moreover have "set (inord T') = insert h (set (inord TH))" using t(3) by auto
  moreover have "holes_Insert h v = Inr (v\<lparr> vm_holes := t \<rparr>)" using t(1) by (simp add: holes_Insert_def returns_def)
  ultimately show ?thesis using t(2) ext by blast
qed

lemma ranges_Insert_ok:
  assumes "rb_rep (vm_ranges v) TR" "p \<notin> set (inord TR)" "unhooked (rb_hooks (vm_ranges v) p)"
    "spaced (range_ext (vm_ranges v)) (inord TR)" "0 < snd (range_ext (vm_ranges v) p)"
    "\<forall>a \<in> set (inord TR). apart (range_ext (vm_ranges v) a) (range_ext (vm_ranges v) p)"
  shows "\<exists>t T'. ranges_Insert p v = Inr (v\<lparr> vm_ranges := t \<rparr>) \<and> rb_rep t T' \<and> set (inord T') = insert p (set (inord TR)) \<and>
    spaced (range_ext t) (inord T') \<and> rb_data t = rb_data (vm_ranges v)"
proof -
  let ?key = "\<lambda>a. rg_base (rb_data (vm_ranges v) a)"
  have srt: "sorted (map ?key (inord TR))" using spaced_sorted [OF assms(4)] by simp
  obtain t T' where t: "rb_Insert NullAggregator (key_less ?key) p (vm_ranges v) = Some t" "rb_rep t T'"
    "inord T' = filter (\<lambda>a. ?key a \<le> ?key p) (inord TR) @ p # filter (\<lambda>a. ?key p < ?key a) (inord TR)"
    using rb_insert_step [OF assms(1-3) srt, of NullAggregator] by blast
  have data: "rb_data t = rb_data (vm_ranges v)"
    using rb_Insert_data [OF views_null t(1)] by (simp add: fun_eq_iff)
  have ext: "range_ext t = range_ext (vm_ranges v)" by (simp add: range_ext_def fun_eq_iff data)
  have "spaced (range_ext t) (inord T')" unfolding ext t(3) using spaced_insert [OF assms(4-6)] by simp
  moreover have "set (inord T') = insert p (set (inord TR))" using t(3) by auto
  moreover have "ranges_Insert p v = Inr (v\<lparr> vm_ranges := t \<rparr>)" using t(1) by (simp add: ranges_Insert_def returns_def)
  ultimately show ?thesis using t(2) data by blast
qed

text \<open>The trees after one of them has changed.\<close>

lemma trees_drop_hole:
  assumes "trees_ok v TR TH" "rb_rep t T'" "inord T' = filter (\<lambda>a. a \<noteq> h) (inord TH)" "hole_ext t = hole_ext (vm_holes v)"
  shows "trees_ok (v\<lparr> vm_holes := t \<rparr>) TR T'"
  using assms by (auto simp: trees_ok_def spaced_filter within_def)

lemma trees_drop_range:
  assumes "trees_ok v TR TH" "rb_rep t T'" "inord T' = filter (\<lambda>a. a \<noteq> p) (inord TR)" "rb_data t = rb_data (vm_ranges v)"
  shows "trees_ok (v\<lparr> vm_ranges := t \<rparr>) T' TH"
proof -
  have "range_ext t = range_ext (vm_ranges v)" by (simp add: range_ext_def fun_eq_iff assms(4))
  with assms show ?thesis by (auto simp: trees_ok_def spaced_filter within_def)
qed

text \<open>An extent that can be added to the address space.\<close>

definition room :: "vmm \<Rightarrow> size_t rbt \<Rightarrow> size_t rbt \<Rightarrow> size_t \<times> size_t \<Rightarrow> bool" where
  "room v TR TH x \<longleftrightarrow> 0 < snd x \<and> vm_lower v \<le> fst x \<and> fst x + snd x \<le> vm_upper v \<and>
     (\<forall>a \<in> set (inord TR). apart (range_ext (vm_ranges v) a) x) \<and> (\<forall>b \<in> set (inord TH). apart (hole_ext (vm_holes v) b) x)"

lemma apart_sym: "apart x y \<longleftrightarrow> apart y x"
  by (auto simp: apart_def)

lemma trees_add_hole:
  assumes "trees_ok v TR TH" "room v TR TH (hole_ext (vm_holes v) h)" "h \<notin> set (inord TH)" "unhooked (rb_hooks (vm_holes v) h)"
  shows "\<exists>t T'. holes_Insert h v = Inr (v\<lparr> vm_holes := t \<rparr>) \<and> trees_ok (v\<lparr> vm_holes := t \<rparr>) TR T' \<and>
    set (inord T') = insert h (set (inord TH)) \<and> hole_ext t = hole_ext (vm_holes v)"
proof -
  from holes_Insert_ok [of v TH h] assms obtain t T' where t: "holes_Insert h v = Inr (v\<lparr> vm_holes := t \<rparr>)" "rb_rep t T'"
    "set (inord T') = insert h (set (inord TH))" "spaced (hole_ext t) (inord T')" "hole_ext t = hole_ext (vm_holes v)"
    by (auto simp: trees_ok_def room_def)
  have "trees_ok (v\<lparr> vm_holes := t \<rparr>) TR T'"
    using assms(1,2) t by (auto simp: trees_ok_def room_def within_def)
  with t show ?thesis by blast
qed

lemma trees_add_range:
  assumes "trees_ok v TR TH" "room v TR TH (range_ext (vm_ranges v) p)" "p \<notin> set (inord TR)" "unhooked (rb_hooks (vm_ranges v) p)"
  shows "\<exists>t T'. ranges_Insert p v = Inr (v\<lparr> vm_ranges := t \<rparr>) \<and> trees_ok (v\<lparr> vm_ranges := t \<rparr>) T' TH \<and>
    set (inord T') = insert p (set (inord TR)) \<and> rb_data t = rb_data (vm_ranges v)"
proof -
  from ranges_Insert_ok [of v TR p] assms obtain t T' where t: "ranges_Insert p v = Inr (v\<lparr> vm_ranges := t \<rparr>)" "rb_rep t T'"
    "set (inord T') = insert p (set (inord TR))" "spaced (range_ext t) (inord T')" "rb_data t = rb_data (vm_ranges v)"
    by (auto simp: trees_ok_def room_def)
  have e: "range_ext t = range_ext (vm_ranges v)" by (simp add: range_ext_def fun_eq_iff t(5))
  have "trees_ok (v\<lparr> vm_ranges := t \<rparr>) T' TH"
    using assms(1,2) t e by (auto simp: trees_ok_def room_def within_def apart_sym)
  with t show ?thesis by blast
qed

lemma trees_construct_hole:
  assumes "trees_ok v TR TH" "h \<notin> set (inord TH)"
  shows "trees_ok (v\<lparr> vm_holeSlabs := slabs, vm_holes := construct h x (vm_holes v) \<rparr>) TR TH"
proof -
  have e: "\<forall>a \<in> set (inord TH). hole_ext (construct h x (vm_holes v)) a = hole_ext (vm_holes v) a"
    using assms(2) by (auto simp: hole_ext_def)
  have "spaced (hole_ext (construct h x (vm_holes v))) (inord TH)"
    using assms(1) spaced_cong [OF e] by (simp add: trees_ok_def)
  with assms e show ?thesis by (auto simp: trees_ok_def within_def construct_rep)
qed

lemma trees_construct_range:
  assumes "trees_ok v TR TH" "p \<notin> set (inord TR)"
  shows "trees_ok (v\<lparr> vm_rangeSlabs := slabs, vm_ranges := construct p x (vm_ranges v) \<rparr>) TR TH"
proof -
  have e: "\<forall>a \<in> set (inord TR). range_ext (construct p x (vm_ranges v)) a = range_ext (vm_ranges v) a"
    using assms(2) by (auto simp: range_ext_def)
  have "spaced (range_ext (construct p x (vm_ranges v))) (inord TR)"
    using assms(1) spaced_cong [OF e] by (simp add: trees_ok_def)
  with assms e show ?thesis by (auto simp: trees_ok_def within_def construct_rep)
qed

end
