(* ===== verification/Vmm_Alloc.thy ===== *)
theory Vmm_Alloc
  imports Vmm
begin

text \<open>
  The virtual memory manager of \<open>Vmm\<close> keeps its address space consistent: carving a piece out of a
  hole, allocating a range and freeing it. The page allocator has the contract \<open>page_supply\<close>,
  a driver the contract \<open>vm_backing\<close>.
\<close>

definition vmm_ok ::
  "size_t \<Rightarrow> size_t set \<Rightarrow> vmm \<Rightarrow> size_t rbt \<Rightarrow> size_t rbt \<Rightarrow> size_t list \<Rightarrow> size_t list \<Rightarrow> bool" where
  "vmm_ok hhdm pg v TR TH psR psH \<longleftrightarrow>
     trees_ok v TR TH \<and> slots_ok hhdm pg psR psH (set (inord TR)) (set (inord TH)) v"

abbreviation rslots :: "vmm \<Rightarrow> size_t set" where
  "rslots v \<equiv> slots sizeof_VmRange (vm_rangeSlabs v)"

abbreviation hslots :: "vmm \<Rightarrow> size_t set" where
  "hslots v \<equiv> slots sizeof_VmHole (vm_holeSlabs v)"

text \<open>A part of an extent, not empty.\<close>

definition sub_ext :: "size_t \<times> size_t \<Rightarrow> size_t \<times> size_t \<Rightarrow> bool" where
  "sub_ext x y \<longleftrightarrow> 0 < snd x \<and> fst y \<le> fst x \<and> fst x + snd x \<le> fst y + snd y"

lemma apart_sub: "apart z y \<Longrightarrow> sub_ext x y \<Longrightarrow> apart z x"
  by (auto simp: apart_def sub_ext_def)

lemma sizes [simp]: "0 < sizeof_VmHole" "sizeof_VmHole \<le> 1024" "0 < sizeof_VmRange" "sizeof_VmRange \<le> 1024"
  by (simp_all add: sizeof_VmHole_def sizeof_VmRange_def)

lemma drop_hole_step:
  assumes "vmm_ok hhdm pg v TR TH psR psH" "h \<in> set (inord TH)"
  shows "\<exists>t T'. holes_Remove h v = Inr (v\<lparr> vm_holes := t \<rparr>) \<and> vmm_ok hhdm pg (v\<lparr> vm_holes := t \<rparr>) TR T' psR psH \<and>
    set (inord T') = set (inord TH) - {h} \<and> hole_ext t = hole_ext (vm_holes v) \<and>
    (\<forall>x. sub_ext x (hole_ext (vm_holes v) h) \<longrightarrow> room (v\<lparr> vm_holes := t \<rparr>) TR T' x)"
proof -
  have tr: "trees_ok v TR TH" using assms(1) by (simp add: vmm_ok_def)
  obtain t T' where t: "holes_Remove h v = Inr (v\<lparr> vm_holes := t \<rparr>)" "rb_rep t T'" "inord T' = filter (\<lambda>a. a \<noteq> h) (inord TH)"
    "hole_ext t = hole_ext (vm_holes v)"
    using holes_Remove_ok [of v TH h] assms tr by (auto simp: trees_ok_def)
  have ok: "trees_ok (v\<lparr> vm_holes := t \<rparr>) TR T'" using trees_drop_hole [OF tr t(2-4)] .
  have "room (v\<lparr> vm_holes := t \<rparr>) TR T' x" if x: "sub_ext x (hole_ext (vm_holes v) h)" for x
  proof -
    have "apart (range_ext (vm_ranges v) a) (hole_ext (vm_holes v) h)" if "a \<in> set (inord TR)" for a
      using tr that assms(2) by (simp add: trees_ok_def)
    moreover have "apart (hole_ext (vm_holes v) b) (hole_ext (vm_holes v) h)" if "b \<in> set (inord T')" for b
      using tr that assms(2) t(3) by (intro spaced_apart [of "hole_ext (vm_holes v)" "inord TH"]) (auto simp: trees_ok_def)
    ultimately show ?thesis
      using x tr assms(2) t(4) apart_sub [OF _ x] by (auto simp: room_def trees_ok_def within_def sub_ext_def)
  qed
  moreover have "vmm_ok hhdm pg (v\<lparr> vm_holes := t \<rparr>) TR T' psR psH"
    using ok assms(1) t(3) by (auto simp: vmm_ok_def slots_ok_def)
  moreover have "set (inord T') = set (inord TH) - {h}" using t(3) by auto
  ultimately show ?thesis using t(1,4) by blast
qed

lemma free_hole_step:
  assumes "vmm_ok hhdm pg v TR TH psR psH" "h \<in> hslots v" "h \<notin> set (inord TH)"
  shows "\<exists>slabs. free_hole h v = Inr (v\<lparr> vm_holeSlabs := slabs \<rparr>) \<and>
    vmm_ok hhdm pg (v\<lparr> vm_holeSlabs := slabs \<rparr>) TR TH psR psH"
proof -
  obtain slabs where "FreeMeta sizeof_VmHole h (vm_holeSlabs v) = Inr slabs" "meta_ok hhdm sizeof_VmHole psH slabs"
    "slots sizeof_VmHole slabs = hslots v - {h}"
    using FreeMeta_ok [of hhdm sizeof_VmHole psH "vm_holeSlabs v" h] assms by (auto simp: vmm_ok_def slots_ok_def)
  with assms show ?thesis by (intro exI [of _ slabs]) (auto simp: free_hole_def vmm_ok_def slots_ok_def trees_ok_def)
qed

lemma free_range_step:
  assumes "vmm_ok hhdm pg v TR TH psR psH" "p \<in> rslots v" "p \<notin> set (inord TR)"
  shows "\<exists>slabs. free_range p v = Inr (v\<lparr> vm_rangeSlabs := slabs \<rparr>) \<and>
    vmm_ok hhdm pg (v\<lparr> vm_rangeSlabs := slabs \<rparr>) TR TH psR psH"
proof -
  obtain slabs where "FreeMeta sizeof_VmRange p (vm_rangeSlabs v) = Inr slabs" "meta_ok hhdm sizeof_VmRange psR slabs"
    "slots sizeof_VmRange slabs = rslots v - {p}"
    using FreeMeta_ok [of hhdm sizeof_VmRange psR "vm_rangeSlabs v" p] assms by (auto simp: vmm_ok_def slots_ok_def)
  with assms show ?thesis by (intro exI [of _ slabs]) (auto simp: free_range_def vmm_ok_def slots_ok_def trees_ok_def)
qed

subsection \<open>The search for a hole\<close>

lemma hole_search_sound:
  assumes "zip_ok t (Bin c l n r) cs"
  shows "\<exists>found. hole_search t len n = Some found \<and>
    (\<forall>h. found = Some h \<longrightarrow> h \<in> set (inord (Bin c l n r)) \<and> len \<le> ho_length (rb_data t h))"
  using assms
proof (induction "Bin c l n r" arbitrary: c l n r cs)
  case (Bin c l n r)
  have z: "zip_ok t l (LF c n r # cs)" "zip_ok t r (RF c l n # cs)" using Bin.prems by (simp_all add: zip_up)
  have ch: "hk_left (rb_hooks t n) = ptr l" "hk_right (rb_hooks t n) = ptr r" using Bin.prems by (simp_all add: zip_ok_def)
  have L: "\<exists>found. hole_search t len a = Some found \<and> (\<forall>h. found = Some h \<longrightarrow> h \<in> set (inord l) \<and> len \<le> ho_length (rb_data t h))"
    if "ptr l = Some a" for a
    using that Bin.hyps(1) z(1) by (cases l) fastforce+
  have R: "\<exists>found. hole_search t len a = Some found \<and> (\<forall>h. found = Some h \<longrightarrow> h \<in> set (inord r) \<and> len \<le> ho_length (rb_data t h))"
    if "ptr r = Some a" for a
    using that Bin.hyps(2) z(2) by (cases r) fastforce+
  let ?here = "if ho_length (rb_data t n) \<ge> len then Some (Some n)
    else (case ptr r of None \<Rightarrow> Some None | Some r \<Rightarrow> if ho_largest (rb_data t r) \<ge> len then hole_search t len r else Some None)"
  have here: "\<exists>found. ?here = Some found \<and> (\<forall>h. found = Some h \<longrightarrow> h \<in> set (inord (Bin c l n r)) \<and> len \<le> ho_length (rb_data t h))"
    using R by (cases "ptr r") (fastforce split: if_splits)+
  have eq: "hole_search t len n = (case ptr l of None \<Rightarrow> ?here | Some a \<Rightarrow> if ho_largest (rb_data t a) \<ge> len then hole_search t len a else ?here)"
    unfolding hole_search.simps [of t len n] ch by (simp split: option.split)
  show ?case
  proof (cases "ptr l")
    case (Some a)
    then show ?thesis using here L [OF Some] unfolding eq by (cases "ho_largest (rb_data t a) \<ge> len") auto
  qed (use here eq in auto)
qed

text \<open>
  The largest hole below every node is up to date: this is what \<open>VmHoleAggregator::CheckInvariant\<close> tests.
\<close>

primrec largest :: "('p \<Rightarrow> vm_hole) \<Rightarrow> 'p rbt \<Rightarrow> size_t" where
  "largest d Tip = 0"
| "largest d (Bin c l a r) = max (ho_length (d a)) (max (largest d l) (largest d r))"

lemma largest_ge: "len \<le> largest d t \<longleftrightarrow> len = 0 \<or> (\<exists>a \<in> set (inord t). len \<le> ho_length (d a))"
  by (induction t) (auto simp: le_max_iff_disj)

primrec augmented :: "('p \<Rightarrow> vm_hole) \<Rightarrow> 'p rbt \<Rightarrow> bool" where
  "augmented d Tip = True"
| "augmented d (Bin c l a r) = (ho_largest (d a) = largest d (Bin c l a r) \<and> augmented d l \<and> augmented d r)"

lemma subtree_hole_largest:
  "augmented d t \<Longrightarrow> subtree_hole d (ptr t) n = max n (largest d t)"
  by (cases t) (auto simp: subtree_hole_def)

lemma check_augmented:
  "zip_ok s t cs \<Longrightarrow> \<forall>a \<in> set (inord t). hole_CheckInvariant s a \<Longrightarrow> augmented (rb_data s) t"
proof (induction t arbitrary: cs)
  case (Bin c l a r)
  have z: "zip_ok s l (LF c a r # cs)" "zip_ok s r (RF c l a # cs)" using Bin.prems(1) by (simp_all add: zip_up)
  have ch: "hk_left (rb_hooks s a) = ptr l" "hk_right (rb_hooks s a) = ptr r" using Bin.prems(1) by (simp_all add: zip_ok_def)
  have lr: "augmented (rb_data s) l" "augmented (rb_data s) r"
    using Bin.IH(1) [OF z(1)] Bin.IH(2) [OF z(2)] Bin.prems(2) by auto
  have "hole_CheckInvariant s a" using Bin.prems(2) by simp
  then have "ho_largest (rb_data s a) =
      subtree_hole (rb_data s) (ptr r) (subtree_hole (rb_data s) (ptr l) (ho_length (rb_data s a)))"
    unfolding hole_CheckInvariant_def ch Let_def by (auto split: if_splits)
  with lr show ?case by (simp add: subtree_hole_largest max.assoc)
qed simp

lemma hole_search_exact:
  assumes "zip_ok t (Bin c l n r) cs" "augmented (rb_data t) (Bin c l n r)" "0 < len"
  shows "hole_search t len n = Some (find (\<lambda>h. len \<le> ho_length (rb_data t h)) (inord (Bin c l n r)))"
  using assms(1,2)
proof (induction "Bin c l n r" arbitrary: c l n r cs)
  case (Bin c l n r)
  let ?P = "\<lambda>h. len \<le> ho_length (rb_data t h)"
  have z: "zip_ok t l (LF c n r # cs)" "zip_ok t r (RF c l n # cs)" using Bin.prems by (simp_all add: zip_up)
  have ch: "hk_left (rb_hooks t n) = ptr l" "hk_right (rb_hooks t n) = ptr r" using Bin.prems by (simp_all add: zip_ok_def)
  have some: "len \<le> largest (rb_data t) u \<longleftrightarrow> find ?P (inord u) \<noteq> None" for u
    using assms(3) by (auto simp: largest_ge find_None_iff)
  have L: "ho_largest (rb_data t a) = largest (rb_data t) l \<and> hole_search t len a = Some (find ?P (inord l))"
    if "ptr l = Some a" for a
    using that Bin.hyps(1) z(1) Bin.prems(2) by (cases l) auto
  have R: "ho_largest (rb_data t a) = largest (rb_data t) r \<and> hole_search t len a = Some (find ?P (inord r))"
    if "ptr r = Some a" for a
    using that Bin.hyps(2) z(2) Bin.prems(2) by (cases r) auto
  let ?here = "if ho_length (rb_data t n) \<ge> len then Some (Some n)
    else (case ptr r of None \<Rightarrow> Some None | Some r \<Rightarrow> if ho_largest (rb_data t r) \<ge> len then hole_search t len r else Some None)"
  have here: "?here = Some (find ?P (n # inord r))"
  proof (cases "ptr r")
    case None
    then have "r = Tip" by (cases r) auto
    then show ?thesis by simp
  next
    case (Some a)
    then show ?thesis using R [OF Some] some [of r] by auto
  qed
  have eq: "hole_search t len n = (case ptr l of None \<Rightarrow> ?here | Some a \<Rightarrow> if ho_largest (rb_data t a) \<ge> len then hole_search t len a else ?here)"
    unfolding hole_search.simps [of t len n] ch by (simp split: option.split)
  show ?case
  proof (cases "ptr l")
    case None
    then have "l = Tip" by (cases l) auto
    then show ?thesis using eq here by simp
  next
    case (Some a)
    then show ?thesis unfolding eq here using L [OF Some] some [of l] by (auto simp: find_append split: option.splits)
  qed
qed

text \<open>The addresses of the holes.\<close>

definition free_of :: "(size_t \<times> size_t) set \<Rightarrow> size_t set" where
  "free_of E = (\<Union>(b, l) \<in> E. {b..<b + l})"

abbreviation free_addrs :: "vmm \<Rightarrow> size_t rbt \<Rightarrow> size_t set" where
  "free_addrs v TH \<equiv> free_of (hole_ext (vm_holes v) ` set (inord TH))"

lemma free_of_simps [simp]: "free_of {} = {}" "free_of (insert (b, l) E) = {b..<b + l} \<union> free_of E" "free_of (E \<union> E') = free_of E \<union> free_of E'"
  by (auto simp: free_of_def)

lemma free_of_image: "a \<in> free_of (ext ` A) \<longleftrightarrow> (\<exists>k \<in> A. holds ext a k)"
  by (simp add: free_of_def holds_def split_beta)

text \<open>Carving the first \<open>n\<close> bytes out of a hole.\<close>

lemma free_carve:
  assumes "spaced (hole_ext t) xs" "h \<in> set xs" "hole_ext t h = (b, l)" "n \<le> l"
    and "E = hole_ext t ` (set xs - {h}) \<union> (if n < l then {(b + n, l - n)} else {})"
  shows "free_of E = free_of (hole_ext t ` set xs) - {b..<b + n}" "{b..<b + n} \<subseteq> free_of (hole_ext t ` set xs)"
proof -
  let ?R = "free_of (hole_ext t ` (set xs - {h}))"
  have all: "free_of (hole_ext t ` set xs) = {b..<b + l} \<union> ?R"
  proof -
    have "set xs = insert h (set xs - {h})" using assms(2) by blast
    then show ?thesis using assms(3) by (metis free_of_simps(2) image_insert)
  qed
  have "a \<notin> {b..<b + l}" if "a \<in> ?R" for a
  proof -
    obtain k where k: "k \<in> set xs" "k \<noteq> h" "fst (hole_ext t k) \<le> a" "a < fst (hole_ext t k) + snd (hole_ext t k)"
      using \<open>a \<in> ?R\<close> by (auto simp: free_of_image holds_def)
    have "apart (hole_ext t k) (b, l)" using spaced_apart [OF assms(1) k(1) assms(2) k(2)] assms(3) by simp
    with k(3,4) show ?thesis by (auto simp: apart_def)
  qed
  then have "?R \<inter> {b..<b + l} = {}" by blast
  moreover have le: "{b..<b + n} \<subseteq> {b..<b + l}" using assms(4) by simp
  moreover have "free_of E = ?R \<union> {b + n..<b + l}" using assms(4,5) by (simp add: Un_commute)
  moreover have "{b + n..<b + l} = {b..<b + l} - {b..<b + n}" by auto
  ultimately show "free_of E = free_of (hole_ext t ` set xs) - {b..<b + n}" unfolding all by blast
  show "{b..<b + n} \<subseteq> free_of (hole_ext t ` set xs)" unfolding all using le by blast
qed

text \<open>What happens to the page allocator during an operation that takes at most \<open>n\<close> pages.\<close>

definition drawn :: "('s \<Rightarrow> bool) \<Rightarrow> ('s \<Rightarrow> size_t set) \<Rightarrow> ('s \<Rightarrow> nat) \<Rightarrow> nat \<Rightarrow> 's \<Rightarrow> 's \<Rightarrow> bool" where
  "drawn pinv pages avail n w w' \<longleftrightarrow> pinv w' \<and> pages w' \<subseteq> pages w \<and> avail w \<le> avail w' + n"

lemma drawn_refl: "pinv w \<Longrightarrow> drawn pinv pages avail n w w"
  by (simp add: drawn_def)

lemma drawn_trans: "drawn pinv pages avail m w w' \<Longrightarrow> drawn pinv pages avail n w' w'' \<Longrightarrow> drawn pinv pages avail (m + n) w w''"
  by (auto simp: drawn_def)

text \<open>Everything but the holes is as it was.\<close>

definition same_ranges :: "vmm \<Rightarrow> vmm \<Rightarrow> bool" where
  "same_ranges v v' \<longleftrightarrow> vm_ranges v' = vm_ranges v \<and> vm_rangeSlabs v' = vm_rangeSlabs v \<and> vm_lower v' = vm_lower v \<and>
     vm_upper v' = vm_upper v \<and> vm_stats v' = vm_stats v"

lemma same_ranges_refl [simp]: "same_ranges v v" "same_ranges v (v\<lparr> vm_holes := t \<rparr>)" "same_ranges v (v\<lparr> vm_holeSlabs := sl \<rparr>)"
  "same_ranges v (v\<lparr> vm_holeSlabs := sl, vm_holes := t \<rparr>)"
  by (simp_all add: same_ranges_def)

lemma same_ranges_trans: "same_ranges v v' \<Longrightarrow> same_ranges v' v'' \<Longrightarrow> same_ranges v v''"
  by (simp add: same_ranges_def)

context page_supply
begin

lemma new_hole_step:
  assumes ok: "vmm_ok hhdm (pages w) v TR TH psR psH" and w: "pinv w" "0 < avail w"
  shows "\<exists>p slabs w' psH'. new_hole alloc hhdm x v w =
      Inr (p, v\<lparr> vm_holeSlabs := slabs, vm_holes := construct p x (vm_holes v) \<rparr>, w') \<and>
    p \<notin> hslots v \<and> slots sizeof_VmHole slabs = insert p (hslots v) \<and>
    vmm_ok hhdm (pages w') (v\<lparr> vm_holeSlabs := slabs, vm_holes := construct p x (vm_holes v) \<rparr>) TR TH psR psH' \<and>
    drawn pinv pages avail 1 w w'"
proof -
  have m: "meta_ok hhdm sizeof_VmHole psH (vm_holeSlabs v)" "set psH \<inter> pages w = {}" "set psR \<inter> pages w = {}" "set psR \<inter> set psH = {}"
    "set (inord TH) \<subseteq> hslots v"
    using ok by (auto simp: vmm_ok_def slots_ok_def)
  obtain p slabs psH' w' where a: "AllocMeta alloc hhdm sizeof_VmHole (vm_holeSlabs v) w = Inr (p, slabs, w')"
    "meta_ok hhdm sizeof_VmHole psH' slabs" "p \<notin> hslots v" "slots sizeof_VmHole slabs = insert p (hslots v)" "pinv w'"
    "pages w' \<subseteq> pages w" "avail w \<le> avail w' + 1" "set psH' \<subseteq> set psH \<union> pages w" "set psH' \<inter> pages w' = {}"
    using AllocMeta_ok [OF m(1) _ _ w m(2)] by auto
  have "trees_ok (v\<lparr> vm_holeSlabs := slabs, vm_holes := construct p x (vm_holes v) \<rparr>) TR TH"
    using ok m(5) a(3) by (intro trees_construct_hole) (auto simp: vmm_ok_def)
  then have "vmm_ok hhdm (pages w') (v\<lparr> vm_holeSlabs := slabs, vm_holes := construct p x (vm_holes v) \<rparr>) TR TH psR psH'"
    using ok m a by (auto simp: vmm_ok_def slots_ok_def)
  with a show ?thesis by (intro exI [of _ p] exI [of _ slabs] exI [of _ w'] exI [of _ psH']) (simp add: new_hole_def drawn_def)
qed

lemma new_range_step:
  assumes ok: "vmm_ok hhdm (pages w) v TR TH psR psH" and w: "pinv w" "0 < avail w"
  shows "\<exists>p slabs w' psR'. new_range alloc hhdm x v w =
      Inr (p, v\<lparr> vm_rangeSlabs := slabs, vm_ranges := construct p x (vm_ranges v) \<rparr>, w') \<and>
    p \<notin> rslots v \<and> slots sizeof_VmRange slabs = insert p (rslots v) \<and>
    vmm_ok hhdm (pages w') (v\<lparr> vm_rangeSlabs := slabs, vm_ranges := construct p x (vm_ranges v) \<rparr>) TR TH psR' psH \<and>
    drawn pinv pages avail 1 w w'"
proof -
  have m: "meta_ok hhdm sizeof_VmRange psR (vm_rangeSlabs v)" "set psR \<inter> pages w = {}" "set psH \<inter> pages w = {}" "set psR \<inter> set psH = {}"
    "set (inord TR) \<subseteq> rslots v"
    using ok by (auto simp: vmm_ok_def slots_ok_def)
  obtain p slabs psR' w' where a: "AllocMeta alloc hhdm sizeof_VmRange (vm_rangeSlabs v) w = Inr (p, slabs, w')"
    "meta_ok hhdm sizeof_VmRange psR' slabs" "p \<notin> rslots v" "slots sizeof_VmRange slabs = insert p (rslots v)" "pinv w'"
    "pages w' \<subseteq> pages w" "avail w \<le> avail w' + 1" "set psR' \<subseteq> set psR \<union> pages w" "set psR' \<inter> pages w' = {}"
    using AllocMeta_ok [OF m(1) _ _ w m(2)] by auto
  have "trees_ok (v\<lparr> vm_rangeSlabs := slabs, vm_ranges := construct p x (vm_ranges v) \<rparr>) TR TH"
    using ok m(5) a(3) by (intro trees_construct_range) (auto simp: vmm_ok_def)
  then have "vmm_ok hhdm (pages w') (v\<lparr> vm_rangeSlabs := slabs, vm_ranges := construct p x (vm_ranges v) \<rparr>) TR TH psR' psH"
    using ok m a by (auto simp: vmm_ok_def slots_ok_def)
  with a show ?thesis by (intro exI [of _ p] exI [of _ slabs] exI [of _ w'] exI [of _ psR']) (simp add: new_range_def drawn_def)
qed

text \<open>A new hole in the tree.\<close>

lemma add_hole_step:
  assumes ok: "vmm_ok hhdm (pages w) v TR TH psR psH" and w: "pinv w" "0 < avail w"
    and rm: "room v TR TH (ho_base x, ho_length x)"
  shows "\<exists>p v' w' TH' psH'. res_bind (new_hole alloc hhdm x v w) (\<lambda>(p, v, w). res_bind (holes_Insert p v) (\<lambda>v. Inr (v, w))) = Inr (v', w') \<and>
    vmm_ok hhdm (pages w') v' TR TH' psR psH' \<and> same_ranges v v' \<and> drawn pinv pages avail 1 w w' \<and> p \<notin> hslots v \<and>
    hslots v' = insert p (hslots v) \<and> set (inord TH') = insert p (set (inord TH)) \<and>
    hole_ext (vm_holes v') = (hole_ext (vm_holes v))(p := (ho_base x, ho_length x))"
proof -
  obtain p slabs w' psH' where n: "new_hole alloc hhdm x v w =
      Inr (p, v\<lparr> vm_holeSlabs := slabs, vm_holes := construct p x (vm_holes v) \<rparr>, w')" "p \<notin> hslots v"
    "slots sizeof_VmHole slabs = insert p (hslots v)"
    "vmm_ok hhdm (pages w') (v\<lparr> vm_holeSlabs := slabs, vm_holes := construct p x (vm_holes v) \<rparr>) TR TH psR psH'"
    "drawn pinv pages avail 1 w w'"
    using new_hole_step [OF ok w] by blast
  let ?v = "v\<lparr> vm_holeSlabs := slabs, vm_holes := construct p x (vm_holes v) \<rparr>"
  have ext: "hole_ext (vm_holes ?v) = (hole_ext (vm_holes v))(p := (ho_base x, ho_length x))" by (auto simp: hole_ext_def)
  have p: "p \<notin> set (inord TH)" using ok n(2) by (auto simp: vmm_ok_def slots_ok_def)
  have "room ?v TR TH (hole_ext (vm_holes ?v) p)" using rm p unfolding room_def ext by auto
  then obtain t T' where t: "holes_Insert p ?v = Inr (?v\<lparr> vm_holes := t \<rparr>)" "trees_ok (?v\<lparr> vm_holes := t \<rparr>) TR T'"
    "set (inord T') = insert p (set (inord TH))" "hole_ext t = hole_ext (vm_holes ?v)"
    using trees_add_hole [of ?v TR TH p] n(4) p construct_fresh [of p x "vm_holes v"] by (auto simp: vmm_ok_def)
  have "vmm_ok hhdm (pages w') (?v\<lparr> vm_holes := t \<rparr>) TR T' psR psH'"
    using n(3,4) t(2,3) by (auto simp: vmm_ok_def slots_ok_def)
  then show ?thesis
    using n t ext by (intro exI [of _ p] exI [of _ "?v\<lparr> vm_holes := t \<rparr>"] exI [of _ w'] exI [of _ T'] exI [of _ psH'])
      (simp add: same_ranges_def)
qed

text \<open>A new hole that may be empty, and then is not made.\<close>

lemma opt_hole_step:
  assumes ok: "vmm_ok hhdm (pages w) v TR TH psR psH" and w: "pinv w" "0 < avail w"
    and rm: "b \<Longrightarrow> room v TR TH (ho_base x, ho_length x)"
  shows "\<exists>v' w' TH' psH'. (if b then res_bind (new_hole alloc hhdm x v w) (\<lambda>(p, v, w). res_bind (holes_Insert p v) (\<lambda>v. Inr (v, w)))
        else Inr (v, w)) = Inr (v', w') \<and>
    vmm_ok hhdm (pages w') v' TR TH' psR psH' \<and> same_ranges v v' \<and> drawn pinv pages avail 1 w w' \<and>
    hslots v \<subseteq> hslots v' \<and> set (inord TH') \<inter> hslots v = set (inord TH) \<and>
    (\<forall>a \<in> hslots v. hole_ext (vm_holes v') a = hole_ext (vm_holes v) a) \<and>
    hole_ext (vm_holes v') ` set (inord TH') = hole_ext (vm_holes v) ` set (inord TH) \<union> (if b then {(ho_base x, ho_length x)} else {})"
proof (cases b)
  case True
  have sub: "set (inord TH) \<subseteq> hslots v" using ok by (simp add: vmm_ok_def slots_ok_def)
  from add_hole_step [OF ok w rm [OF True]] obtain p v' w' TH' psH' where
    a: "res_bind (new_hole alloc hhdm x v w) (\<lambda>(p, v, w). res_bind (holes_Insert p v) (\<lambda>v. Inr (v, w))) = Inr (v', w')"
    "vmm_ok hhdm (pages w') v' TR TH' psR psH'" "same_ranges v v'" "drawn pinv pages avail 1 w w'" "p \<notin> hslots v"
    "hslots v' = insert p (hslots v)" "set (inord TH') = insert p (set (inord TH))"
    "hole_ext (vm_holes v') = (hole_ext (vm_holes v))(p := (ho_base x, ho_length x))" by blast
  have "hole_ext (vm_holes v') ` set (inord TH') = hole_ext (vm_holes v) ` set (inord TH) \<union> {(ho_base x, ho_length x)}"
    unfolding a(7,8) using a(5) sub by (auto simp: image_iff)
  moreover have "set (inord TH') \<inter> hslots v = set (inord TH)" using a(5,7) sub by auto
  moreover have "\<forall>a \<in> hslots v. hole_ext (vm_holes v') a = hole_ext (vm_holes v) a" using a(5,8) by auto
  ultimately show ?thesis
    using True a(1-4,6) by (intro exI [of _ v'] exI [of _ w'] exI [of _ TH'] exI [of _ psH']) auto
next
  case False
  have "set (inord TH) \<subseteq> hslots v" using ok by (simp add: vmm_ok_def slots_ok_def)
  with False ok w show ?thesis
    by (intro exI [of _ v] exI [of _ w] exI [of _ TH] exI [of _ psH]) (auto simp: drawn_refl)
qed

lemma AdjustHole_ok:
  assumes ok: "vmm_ok hhdm (pages w) v TR TH psR psH" and w: "pinv w" "2 \<le> avail w"
    and h: "h \<in> set (inord TH)" "hole_ext (vm_holes v) h = (b, l)" and on: "off + n \<le> l"
  shows "\<exists>v' w' TH' psH'. AdjustHole alloc hhdm h off n v w = Inr (v', w') \<and>
    vmm_ok hhdm (pages w') v' TR TH' psR psH' \<and> same_ranges v v' \<and> drawn pinv pages avail 2 w w' \<and>
    h \<in> hslots v' \<and> h \<notin> set (inord TH') \<and> (0 < n \<longrightarrow> room v' TR TH' (b + off, n)) \<and>
    hole_ext (vm_holes v') ` set (inord TH') = hole_ext (vm_holes v) ` (set (inord TH) - {h}) \<union>
      (if 0 < off then {(b, off)} else {}) \<union> (if off + n < l then {(b + off + n, l - (off + n))} else {})"
proof -
  have tr: "trees_ok v TR TH" and hs: "h \<in> hslots v" using ok h(1) by (auto simp: vmm_ok_def slots_ok_def)
  have bl: "b + l < size_limit" "ho_base (rb_data (vm_holes v) h) = b" "ho_length (rb_data (vm_holes v) h) = l"
    using tr h by (auto simp: trees_ok_def within_def hole_ext_def)
  have ar: "sz_add off n = off + n" "sz_add b off = b + off" "sz_add (b + off) n = b + off + n"
    "sz_sub l (off + n) = l - (off + n)" using bl(1) on by (simp_all add: sz_simps)
  obtain t1 T1 where d: "holes_Remove h v = Inr (v\<lparr> vm_holes := t1 \<rparr>)" "vmm_ok hhdm (pages w) (v\<lparr> vm_holes := t1 \<rparr>) TR T1 psR psH"
    "set (inord T1) = set (inord TH) - {h}" "hole_ext t1 = hole_ext (vm_holes v)"
    "\<forall>x. sub_ext x (b, l) \<longrightarrow> room (v\<lparr> vm_holes := t1 \<rparr>) TR T1 x"
    using drop_hole_step [OF ok h(1)] h(2) by auto
  let ?v1 = "v\<lparr> vm_holes := t1 \<rparr>"
  let ?x = "\<lparr> ho_base = b, ho_length = off, ho_largest = 0 \<rparr>"
  obtain v2 w2 T2 ps2 where p1: "(if 0 < off then res_bind (new_hole alloc hhdm ?x ?v1 w)
        (\<lambda>(p, v, w). res_bind (holes_Insert p v) (\<lambda>v. Inr (v, w))) else Inr (?v1, w)) = Inr (v2, w2)"
    "vmm_ok hhdm (pages w2) v2 TR T2 psR ps2" "same_ranges ?v1 v2" "drawn pinv pages avail 1 w w2"
    "hslots ?v1 \<subseteq> hslots v2" "set (inord T2) \<inter> hslots ?v1 = set (inord T1)"
    "\<forall>a \<in> hslots ?v1. hole_ext (vm_holes v2) a = hole_ext t1 a"
    "hole_ext (vm_holes v2) ` set (inord T2) = hole_ext t1 ` set (inord T1) \<union> (if 0 < off then {(b, off)} else {})"
    using opt_hole_step [OF d(2) w(1), of "0 < off" ?x] w(2) d(5) on by (auto simp: sub_ext_def)
  have h2: "hole_ext (vm_holes v2) h = (b, l)" using p1(7) hs d(4) h(2) by simp
  then have h2': "ho_base (rb_data (vm_holes v2) h) = b" "ho_length (rb_data (vm_holes v2) h) = l" by (simp_all add: hole_ext_def)
  have rm: "room v2 TR T2 x" if x: "sub_ext x (b + off, l - off)" for x
  proof -
    have "sub_ext x (b, l)" using x on by (auto simp: sub_ext_def)
    then have "room ?v1 TR T1 x" using d(5) by blast
    moreover have "apart e x" if "e \<in> hole_ext (vm_holes v2) ` set (inord T2)" for e
      using that calculation x unfolding p1(8) by (auto simp: room_def apart_def sub_ext_def split: if_splits)
    ultimately show ?thesis using p1(3) by (auto simp: room_def same_ranges_def)
  qed
  let ?y = "\<lparr> ho_base = b + off + n, ho_length = l - (off + n), ho_largest = 0 \<rparr>"
  obtain v3 w3 T3 ps3 where p2: "(if off + n < l then res_bind (new_hole alloc hhdm ?y v2 w2)
        (\<lambda>(p, v, w). res_bind (holes_Insert p v) (\<lambda>v. Inr (v, w))) else Inr (v2, w2)) = Inr (v3, w3)"
    "vmm_ok hhdm (pages w3) v3 TR T3 psR ps3" "same_ranges v2 v3" "drawn pinv pages avail 1 w2 w3"
    "hslots v2 \<subseteq> hslots v3" "set (inord T3) \<inter> hslots v2 = set (inord T2)"
    "hole_ext (vm_holes v3) ` set (inord T3) = hole_ext (vm_holes v2) ` set (inord T2) \<union>
       (if off + n < l then {(b + off + n, l - (off + n))} else {})"
    using opt_hole_step [OF p1(2), of "off + n < l" ?y] p1(4) w(2) rm on by (auto simp: drawn_def sub_ext_def)
  have "AdjustHole alloc hhdm h off n v w = Inr (v3, w3)"
  proof -
    have "ho_base (rb_data (vm_holes ?v1) h) = b" "ho_length (rb_data (vm_holes ?v1) h) = l" "\<not> l < off + n"
      using d(4) bl on by (simp_all add: hole_ext_def fun_eq_iff)
    then show ?thesis
      by (simp only: AdjustHole_def ar bl(2,3) d(1) if_False res_bind_simps p1(1) prod.case h2' p2(1))
  qed
  moreover have "h \<in> hslots v3" "h \<notin> set (inord T3)" using hs p1(5,6) p2(5,6) d(3) by auto
  moreover have "room v3 TR T3 (b + off, n)" if "0 < n"
  proof -
    have "room v2 TR T2 (b + off, n)" using rm that on by (auto simp: sub_ext_def)
    moreover have "apart e (b + off, n)" if "e \<in> hole_ext (vm_holes v3) ` set (inord T3)" for e
      using that calculation unfolding p2(7) by (auto simp: room_def apart_def split: if_splits)
    ultimately show ?thesis using p2(3) by (auto simp: room_def same_ranges_def)
  qed
  moreover have "drawn pinv pages avail 2 w w3" using drawn_trans [OF p1(4) p2(4)] by (simp add: numeral_2_eq_2)
  moreover have "same_ranges v v3" using p1(3) p2(3) by (simp add: same_ranges_def)
  moreover have "hole_ext (vm_holes v3) ` set (inord T3) = hole_ext (vm_holes v) ` (set (inord TH) - {h}) \<union>
      (if 0 < off then {(b, off)} else {}) \<union> (if off + n < l then {(b + off + n, l - (off + n))} else {})"
    by (simp add: p2(7) p1(8) d(3,4))
  ultimately show ?thesis using p2(2) by blast
qed

end

subsection \<open>Allocation\<close>

text \<open>
  What a manager relies on in a driver: for a range of the length that its \<open>Query\<close> returned, \<open>Attach\<close> returns
  and takes at most \<open>need n\<close> pages for \<open>n\<close> bytes; for a range that ends at most at \<open>limit\<close>, \<open>Detach\<close> succeeds;
  and neither hands pages back to the page allocator.
\<close>

locale vm_backing = page_supply +
  fixes driver :: "'a vm_driver" and need :: "size_t \<Rightarrow> nat" and limit :: size_t
  assumes attach_ok: "pinv w \<Longrightarrow> q = dr_Query driver len flags arg \<Longrightarrow> rg_length r = qr_length q \<Longrightarrow> need (rg_length r) \<le> avail w \<Longrightarrow>
      \<exists>result st' w'. dr_Attach driver r q arg st w = Inr (result, st', w') \<and> drawn pinv pages avail (need (rg_length r)) w w'"
    and detach_ok: "pinv w \<Longrightarrow> rg_base r + rg_length r \<le> limit \<Longrightarrow>
      \<exists>st' w'. dr_Detach driver r st w = Inr (True, st', w') \<and> drawn pinv pages avail 0 w w'"

text \<open>The ranges after an attempt to add one.\<close>

definition same_on :: "size_t set \<Rightarrow> vmm \<Rightarrow> vmm \<Rightarrow> bool" where
  "same_on A v v' \<longleftrightarrow> (\<forall>a \<in> A. rb_data (vm_ranges v') a = rb_data (vm_ranges v) a) \<and> vm_lower v' = vm_lower v \<and> vm_upper v' = vm_upper v"

definition alloc_post ::
  "vmm \<Rightarrow> size_t rbt \<Rightarrow> vm_flags \<Rightarrow> size_t \<Rightarrow> size_t \<Rightarrow> size_t option \<Rightarrow> vmm \<Rightarrow> size_t rbt \<Rightarrow> bool" where
  "alloc_post v TR flags b n res v' TR' \<longleftrightarrow> same_on (set (inord TR)) v v' \<and>
     (case res of None \<Rightarrow> set (inord TR') = set (inord TR)
      | Some addr \<Rightarrow> \<exists>p. p \<notin> set (inord TR) \<and> set (inord TR') = insert p (set (inord TR)) \<and>
          (let r = rb_data (vm_ranges v') p
           in rg_base r = b \<and> rg_length r = n \<and> rg_flags r = flags \<and> rg_mdlCount r = 0 \<and> addr = sz_add b (rg_offset r)))"

lemma vmm_ok_cong:
  "vmm_ok hhdm pg v TR TH psR psH \<Longrightarrow> pg' \<subseteq> pg \<Longrightarrow> vmm_ok hhdm pg' (v\<lparr> vm_stats := st \<rparr>) TR TH psR psH"
  by (auto simp: vmm_ok_def slots_ok_def trees_ok_def)

context vm_backing
begin

lemma attach_range_ok:
  assumes ok: "vmm_ok hhdm (pages w) v TR TH psR psH" and w: "pinv w" "need n + 1 \<le> avail w"
    and p: "p \<notin> set (inord TR)" "p \<in> rslots v" "unhooked (rb_hooks (vm_ranges v) p)"
    and r: "rb_data (vm_ranges v) p = \<lparr> rg_base = b, rg_length = n, rg_flags = flags, rg_offset = 0, rg_token = 0, rg_mdlCount = 0 \<rparr>"
    and rm: "room v TR TH (b, n)" and q: "q = dr_Query driver len qf arg" "n = qr_length q"
  shows "\<exists>res v' w' TR' TH' psH'. attach_range alloc hhdm driver q arg flags p v w = Inr (res, v', w') \<and>
    vmm_ok hhdm (pages w') v' TR' TH' psR psH' \<and> drawn pinv pages avail (need n + 1) w w' \<and> alloc_post v TR flags b n res v' TR' \<and>
    free_addrs v' TH' = free_addrs v TH \<union> (if res = None then {b..<b + n} else {})"
proof -
  obtain result st w1 where a: "dr_Attach driver (rb_data (vm_ranges v) p) q arg (vm_stats v) w = Inr (result, st, w1)"
    "drawn pinv pages avail (need n) w w1"
    using attach_ok [OF w(1) q(1), of "rb_data (vm_ranges v) p" "vm_stats v"] w(2) r q(2) by auto
  let ?v1 = "v\<lparr> vm_stats := st \<rparr>"
  have ok1: "vmm_ok hhdm (pages w1) ?v1 TR TH psR psH" using vmm_ok_cong [OF ok] a(2) by (simp add: drawn_def)
  have w1: "pinv w1" "0 < avail w1" using a(2) w(2) by (auto simp: drawn_def)
  have rm1: "room ?v1 TR TH (b, n)" using rm by (simp add: room_def)
  show ?thesis
  proof (cases "ar_success result")
    case False
    let ?x = "\<lparr> ho_base = b, ho_length = n, ho_largest = 0 \<rparr>"
    obtain v2 w2 T2 ps2 where h: "res_bind (new_hole alloc hhdm ?x ?v1 w1) (\<lambda>(p, v, w). res_bind (holes_Insert p v) (\<lambda>v. Inr (v, w))) = Inr (v2, w2)"
      "vmm_ok hhdm (pages w2) v2 TR T2 psR ps2" "same_ranges ?v1 v2" "drawn pinv pages avail 1 w1 w2"
      and ext: "hole_ext (vm_holes v2) ` set (inord T2) = hole_ext (vm_holes v) ` set (inord TH) \<union> {(b, n)}"
      using opt_hole_step [OF ok1 w1, of True ?x] rm1 by auto
    have "p \<in> rslots v2" using h(3) p(2) by (simp add: same_ranges_def)
    then obtain sl where f: "free_range p v2 = Inr (v2\<lparr> vm_rangeSlabs := sl \<rparr>)" "vmm_ok hhdm (pages w2) (v2\<lparr> vm_rangeSlabs := sl \<rparr>) TR T2 psR ps2"
      using free_range_step [OF h(2) _ p(1)] by blast
    have "res_bind (new_hole alloc hhdm ?x ?v1 w1) (\<lambda>(returnHole, v, w). res_bind (holes_Insert returnHole v)
        (\<lambda>v. res_bind (free_range p v) (\<lambda>v. Inr (None, v, w)))) = Inr (None, v2\<lparr> vm_rangeSlabs := sl \<rparr>, w2)"
      using h(1) f(1) by (auto simp: res_bind_Inr)
    then have "attach_range alloc hhdm driver q arg flags p v w = Inr (None, v2\<lparr> vm_rangeSlabs := sl \<rparr>, w2)"
      using a(1) r False by (simp add: attach_range_def)
    moreover have "alloc_post v TR flags b n None (v2\<lparr> vm_rangeSlabs := sl \<rparr>) TR"
      using h(3) by (simp add: alloc_post_def same_on_def same_ranges_def)
    moreover have "free_addrs (v2\<lparr> vm_rangeSlabs := sl \<rparr>) T2 = free_addrs v TH \<union> {b..<b + n}" using ext by (simp add: Un_commute)
    ultimately show ?thesis using f(2) drawn_trans [OF a(2) h(4)]
      by (intro exI [of _ "v2\<lparr> vm_rangeSlabs := sl \<rparr>"] exI [of _ w2] exI [of _ None]) (rule exI [of _ TR], rule exI [of _ T2], rule exI [of _ ps2], simp)
  next
    case True
    let ?r = "(rb_data (vm_ranges v) p)\<lparr> rg_token := ar_token result, rg_offset := ar_offset result \<rparr>"
    let ?t = "(vm_ranges v)\<lparr> rb_data := (rb_data (vm_ranges v))(p := ?r) \<rparr>"
    let ?v2 = "?v1\<lparr> vm_ranges := ?t \<rparr>"
    have ext: "range_ext ?t = range_ext (vm_ranges v)" by (auto simp: range_ext_def)
    have tr2: "trees_ok ?v2 TR TH" using ok1 ext by (auto simp: vmm_ok_def trees_ok_def rb_rep_def zip_ok_def)
    have "room ?v2 TR TH (range_ext (vm_ranges ?v2) p)"
      using rm1 r ext by (simp add: room_def range_ext_def)
    then obtain t T' where t: "ranges_Insert p ?v2 = Inr (?v2\<lparr> vm_ranges := t \<rparr>)" "trees_ok (?v2\<lparr> vm_ranges := t \<rparr>) T' TH"
      "set (inord T') = insert p (set (inord TR))" "rb_data t = rb_data ?t"
      using trees_add_range [OF tr2 _ p(1)] p(3) by auto
    let ?v3 = "?v1\<lparr> vm_ranges := t, vm_stats := count_range (\<lambda>n. sz_add n 1) flags st \<rparr>"
    have "trees_ok ?v3 T' TH" using t(2) by (simp add: trees_ok_def)
    then have ok3: "vmm_ok hhdm (pages w1) ?v3 T' TH psR psH"
      using ok1 t(3) p(2) by (auto simp: vmm_ok_def slots_ok_def)
    have "attach_range alloc hhdm driver q arg flags p v w = Inr (Some (sz_add b (ar_offset result)), ?v3, w1)"
      using a(1) True t(1) r by (simp add: attach_range_def Let_def)
    moreover have "alloc_post v TR flags b n (Some (sz_add b (ar_offset result))) ?v3 T'"
      using t(3,4) p(1) r by (auto simp: alloc_post_def same_on_def intro!: exI [of _ p])
    moreover have "drawn pinv pages avail (need n + 1) w w1" using a(2) by (auto simp: drawn_def)
    ultimately show ?thesis using ok3
      by (intro exI [of _ "Some (sz_add b (ar_offset result))"] exI [of _ ?v3] exI [of _ w1]) (rule exI [of _ T'], rule exI [of _ TH], rule exI [of _ psH], simp)
  qed
qed

lemma vmm_Alloc_ok:
  assumes ok: "vmm_ok hhdm (pages w) v TR TH psR psH" and w: "pinv w" "need (qr_length q) + 4 \<le> avail w"
    and drv: "GetDriver ds flags = Some driver" "q = dr_Query driver len flags arg" "qr_success q" "0 < qr_length q"
    and arg: "0 < len" "al \<le> 1 \<or> qr_alignment q mod al = 0"
  shows "\<exists>res v' w' TR' TH' psR' psH'. vmm_Alloc alloc hhdm ds len arg flags al v w = Inr (res, v', w') \<and>
    vmm_ok hhdm (pages w') v' TR' TH' psR' psH' \<and> drawn pinv pages avail (need (qr_length q) + 4) w w' \<and>
    (\<exists>b. alloc_post v TR flags b (qr_length q) res v' TR' \<and>
      (if res = None then free_addrs v' TH' = free_addrs v TH
       else {b..<b + qr_length q} \<subseteq> free_addrs v TH \<and> free_addrs v' TH' = free_addrs v TH - {b..<b + qr_length q}))"
proof -
  let ?n = "qr_length q"
  have tr: "trees_ok v TR TH" using ok by (simp add: vmm_ok_def)
  have none: ?thesis if "vmm_Alloc alloc hhdm ds len arg flags al v w = Inr (None, v, w)"
    using that ok drawn_refl [where pinv = pinv, OF w(1), of pages avail "need ?n + 4"]
    by (intro exI [of _ None] exI [of _ v] exI [of _ w] exI [of _ TR] exI [of _ TH] exI [of _ psR] exI [of _ psH])
      (simp add: alloc_post_def same_on_def)
  have al: "\<not> (1 < al \<and> 0 < qr_alignment q mod al)" using arg(2) by auto
  show ?thesis
  proof (cases TH)
    case Tip
    then have "rb_root (vm_holes v) = None" using tr by (simp add: trees_ok_def rb_rep_def zip_ok_def)
    then show ?thesis using drv(1,3) arg(1) al by (intro none) (simp add: vmm_Alloc_def Let_def flip: drv(2))
  next
    case (Bin c l root r)
    have z: "zip_ok (vm_holes v) (Bin c l root r) []" using tr Bin by (simp add: trees_ok_def rb_rep_def)
    then have root: "rb_root (vm_holes v) = Some root" by (simp add: zip_ok_def)
    from hole_search_sound [OF z, of ?n] obtain found where fd: "hole_search (vm_holes v) ?n root = Some found"
      "\<forall>h. found = Some h \<longrightarrow> h \<in> set (inord TH) \<and> ?n \<le> ho_length (rb_data (vm_holes v) h)" by (auto simp: Bin)
    show ?thesis
    proof (cases found)
      case None
      then show ?thesis using fd(1) root drv(1,3) arg(1) al by (intro none) (simp add: vmm_Alloc_def Let_def returns_def flip: drv(2))
    next
      case (Some h)
      let ?b = "ho_base (rb_data (vm_holes v) h)" and ?l = "ho_length (rb_data (vm_holes v) h)"
      have h: "h \<in> set (inord TH)" "?n \<le> ?l" using fd(2) Some by auto
      have b: "?b \<noteq> 0" using tr h(1) by (force simp: trees_ok_def within_def)
      have av: "2 \<le> avail w" "0 + ?n \<le> ?l" using w(2) h(2) by simp_all
      obtain v1 w1 T1 ps1 where a1: "AdjustHole alloc hhdm h 0 ?n v w = Inr (v1, w1)" "vmm_ok hhdm (pages w1) v1 TR T1 psR ps1"
        "same_ranges v v1" "drawn pinv pages avail 2 w w1" "h \<in> hslots v1" "h \<notin> set (inord T1)" "room v1 TR T1 (?b, ?n)"
        "hole_ext (vm_holes v1) ` set (inord T1) = hole_ext (vm_holes v) ` (set (inord TH) - {h}) \<union> (if ?n < ?l then {(?b + ?n, ?l - ?n)} else {})"
        using AdjustHole_ok [OF ok w(1) av(1) h(1) _ av(2), of ?b] drv(4) by (auto simp: hole_ext_def)
      obtain sl where a2: "free_hole h v1 = Inr (v1\<lparr> vm_holeSlabs := sl \<rparr>)" "vmm_ok hhdm (pages w1) (v1\<lparr> vm_holeSlabs := sl \<rparr>) TR T1 psR ps1"
        using free_hole_step [OF a1(2,5,6)] by blast
      let ?v2 = "v1\<lparr> vm_holeSlabs := sl \<rparr>"
      let ?x = "\<lparr> rg_base = ?b, rg_length = ?n, rg_flags = flags, rg_offset = 0, rg_token = 0, rg_mdlCount = 0 \<rparr>"
      have w1: "pinv w1" "0 < avail w1" using a1(4) w(2) by (auto simp: drawn_def)
      obtain p rs w2 psR2 where a3: "new_range alloc hhdm ?x ?v2 w1 = Inr (p, ?v2\<lparr> vm_rangeSlabs := rs, vm_ranges := construct p ?x (vm_ranges ?v2) \<rparr>, w2)"
        "p \<notin> rslots ?v2" "slots sizeof_VmRange rs = insert p (rslots ?v2)"
        "vmm_ok hhdm (pages w2) (?v2\<lparr> vm_rangeSlabs := rs, vm_ranges := construct p ?x (vm_ranges ?v2) \<rparr>) TR T1 psR2 ps1"
        "drawn pinv pages avail 1 w1 w2"
        using new_range_step [OF a2(2) w1, of ?x] by blast
      let ?v3 = "?v2\<lparr> vm_rangeSlabs := rs, vm_ranges := construct p ?x (vm_ranges ?v2) \<rparr>"
      have p: "p \<notin> set (inord TR)" using a2(2) a3(2) by (auto simp: vmm_ok_def slots_ok_def)
      have rm: "room ?v3 TR T1 (?b, ?n)" using a1(7) p by (auto simp: room_def range_ext_def)
      have w2: "pinv w2" "need ?n + 1 \<le> avail w2" using a3(5) a1(4) w(2) by (auto simp: drawn_def)
      have sp: "spaced (hole_ext (vm_holes v)) (inord TH)" using tr by (simp add: trees_ok_def)
      have hx: "hole_ext (vm_holes v) h = (?b, ?l)" by (simp add: hole_ext_def)
      note fr = free_carve [OF sp h(1) hx h(2) a1(8)]
      obtain res v4 w4 TR4 TH4 ps4 where a4: "attach_range alloc hhdm driver q arg flags p ?v3 w2 = Inr (res, v4, w4)"
        "vmm_ok hhdm (pages w4) v4 TR4 TH4 psR2 ps4" "drawn pinv pages avail (need ?n + 1) w2 w4" "alloc_post ?v3 TR flags ?b ?n res v4 TR4"
        "free_addrs v4 TH4 = free_addrs ?v3 T1 \<union> (if res = None then {?b..<?b + ?n} else {})"
        using attach_range_ok [OF a3(4) w2 p _ _ _ rm drv(2) refl, of flags] a3(3) construct_fresh [of p ?x "vm_ranges v1"] by auto
      have "vmm_Alloc alloc hhdm ds len arg flags al v w = Inr (res, v4, w4)"
        using fd(1) Some root drv(1,3) arg(1) al a1(1) a2(1) a3(1) a4(1) b
        by (auto simp: vmm_Alloc_def Let_def returns_def drv(2) [symmetric])
      moreover have "alloc_post v TR flags ?b ?n res v4 TR4"
      proof -
        have "same_on (set (inord TR)) v ?v3" using a1(3) p by (auto simp: same_on_def same_ranges_def)
        then show ?thesis using a4(4) by (auto simp: alloc_post_def same_on_def)
      qed
      moreover have "drawn pinv pages avail (need ?n + 4) w w4"
        using drawn_trans [OF a1(4) drawn_trans [OF a3(5) a4(3)]] by (simp add: numeral_eq_Suc)
      moreover have "if res = None then free_addrs v4 TH4 = free_addrs v TH
          else {?b..<?b + ?n} \<subseteq> free_addrs v TH \<and> free_addrs v4 TH4 = free_addrs v TH - {?b..<?b + ?n}"
        using a4(5) fr by auto
      ultimately show ?thesis using a4(2)
        by (intro exI [of _ res] exI [of _ v4] exI [of _ w4])
          (rule exI [of _ TR4], rule exI [of _ TH4], rule exI [of _ psR2], rule exI [of _ ps4], blast)
    qed
  qed
qed

lemma vmm_Free_ok:
  assumes ok: "vmm_ok hhdm (pages w) v TR TH psR psH" and w: "pinv w" "1 \<le> avail w"
    and fd: "FindRange v base = Inr (Some p)" "p \<in> set (inord TR)" and r: "rb_data (vm_ranges v) p = r" "rg_mdlCount r = 0"
    and drv: "GetDriver ds (rg_flags r) = Some driver" and lim: "vm_upper v \<le> limit"
  shows "\<exists>v' w' TR' TH' psH'. vmm_Free alloc hhdm ds base v w = Inr (True, v', w') \<and>
    vmm_ok hhdm (pages w') v' TR' TH' psR psH' \<and> drawn pinv pages avail 1 w w' \<and>
    set (inord TR') = set (inord TR) - {p} \<and> same_on (set (inord TR')) v v' \<and>
    free_addrs v' TH' = free_addrs v TH \<union> {rg_base r..<rg_base r + rg_length r}"
proof -
  have tr: "trees_ok v TR TH" and ps: "p \<in> rslots v" using ok fd(2) by (auto simp: vmm_ok_def slots_ok_def)
  obtain t T1 where d: "ranges_Remove p v = Inr (v\<lparr> vm_ranges := t \<rparr>)" "rb_rep t T1" "inord T1 = filter (\<lambda>a. a \<noteq> p) (inord TR)"
    "rb_data t = rb_data (vm_ranges v)"
    using ranges_Remove_ok [of v TR p] tr fd(2) by (auto simp: trees_ok_def)
  have top: "rg_base r + rg_length r \<le> limit" using tr fd(2) r(1) lim by (auto simp: trees_ok_def within_def)
  let ?st = "count_range (\<lambda>n. sz_sub n 1) (rg_flags r) (vm_stats v)"
  obtain st w1 where e: "dr_Detach driver r ?st w = Inr (True, st, w1)" "drawn pinv pages avail 0 w w1"
    using detach_ok [OF w(1) top] by blast
  let ?v1 = "v\<lparr> vm_ranges := t, vm_stats := st \<rparr>"
  have set1: "set (inord T1) = set (inord TR) - {p}" using d(3) by auto
  have "trees_ok (v\<lparr> vm_ranges := t \<rparr>) T1 TH" using trees_drop_range [OF tr d(2-4)] .
  then have ok1: "vmm_ok hhdm (pages w1) ?v1 T1 TH psR psH"
    using ok e(2) set1 by (auto simp: vmm_ok_def slots_ok_def trees_ok_def drawn_def)
  have w1: "pinv w1" "0 < avail w1" using e(2) w(2) by (auto simp: drawn_def)
  have p1: "p \<notin> set (inord T1)" "p \<in> rslots ?v1" using set1 ps by auto
  let ?x = "\<lparr> ho_base = rg_base r, ho_length = rg_length r, ho_largest = 0 \<rparr>"
  obtain h sl w2 ps2 where n: "new_hole alloc hhdm ?x ?v1 w1 =
      Inr (h, ?v1\<lparr> vm_holeSlabs := sl, vm_holes := construct h ?x (vm_holes ?v1) \<rparr>, w2)" "h \<notin> hslots ?v1"
    "vmm_ok hhdm (pages w2) (?v1\<lparr> vm_holeSlabs := sl, vm_holes := construct h ?x (vm_holes ?v1) \<rparr>) T1 TH psR ps2"
    "slots sizeof_VmHole sl = insert h (hslots ?v1)" "drawn pinv pages avail 1 w1 w2"
    using new_hole_step [OF ok1 w1, of ?x] by blast
  let ?v2 = "?v1\<lparr> vm_holeSlabs := sl, vm_holes := construct h ?x (vm_holes ?v1) \<rparr>"
  have h: "h \<notin> set (inord TH)" using ok n(2) by (auto simp: vmm_ok_def slots_ok_def)
  have rp: "range_ext (vm_ranges v) p = (rg_base r, rg_length r)" using r by (simp add: range_ext_def)
  obtain rs where f: "free_range p ?v2 = Inr (?v2\<lparr> vm_rangeSlabs := rs \<rparr>)" "vmm_ok hhdm (pages w2) (?v2\<lparr> vm_rangeSlabs := rs \<rparr>) T1 TH psR ps2"
    using free_range_step [OF n(3) _ p1(1)] ps by auto
  let ?v3 = "?v2\<lparr> vm_rangeSlabs := rs \<rparr>"
  have ext: "hole_ext (vm_holes ?v3) = (hole_ext (vm_holes v))(h := (rg_base r, rg_length r))" by (auto simp: hole_ext_def)
  have "apart (range_ext (vm_ranges v) a) (rg_base r, rg_length r)" if "a \<in> set (inord T1)" for a
    using tr that set1 fd(2) rp [symmetric] spaced_apart [of "range_ext (vm_ranges v)" "inord TR" a p] by (auto simp: trees_ok_def)
  moreover have "apart (hole_ext (vm_holes v) b) (rg_base r, rg_length r)" if "b \<in> set (inord TH)" for b
    using tr that fd(2) rp by (subst apart_sym) (auto simp: trees_ok_def)
  moreover have "range_ext (vm_ranges ?v3) = range_ext (vm_ranges v)" using d(4) by (simp add: range_ext_def fun_eq_iff)
  moreover have "0 < rg_length r" "vm_lower v \<le> rg_base r" "rg_base r + rg_length r \<le> vm_upper v"
    using tr fd(2) r(1) by (auto simp: trees_ok_def spaced_def within_def)
  ultimately have "room ?v3 T1 TH (hole_ext (vm_holes ?v3) h)"
    using h unfolding room_def ext by auto
  then obtain t2 T2 where g: "holes_Insert h ?v3 = Inr (?v3\<lparr> vm_holes := t2 \<rparr>)" "trees_ok (?v3\<lparr> vm_holes := t2 \<rparr>) T1 T2"
    "set (inord T2) = insert h (set (inord TH))" "hole_ext t2 = hole_ext (vm_holes ?v3)"
    using trees_add_hole [of ?v3 T1 TH h] f(2) h construct_fresh [of h ?x "vm_holes v"] by (auto simp: vmm_ok_def)
  let ?v4 = "?v3\<lparr> vm_holes := t2 \<rparr>"
  have "vmm_ok hhdm (pages w2) ?v4 T1 T2 psR ps2" using f(2) g(2,3) n(4) by (auto simp: vmm_ok_def slots_ok_def)
  moreover have "vmm_Free alloc hhdm ds base v w = Inr (True, ?v4, w2)"
    using fd(1) r drv d(1) e(1) n(1) f(1) g(1) by (simp add: vmm_Free_def Let_def)
  moreover have "same_on (set (inord T1)) v ?v4" using d(4) by (simp add: same_on_def)
  moreover have "drawn pinv pages avail 1 w w2" using drawn_trans [OF e(2) n(5)] by simp
  moreover have "hole_ext (vm_holes ?v4) ` set (inord T2) = hole_ext (vm_holes v) ` set (inord TH) \<union> {(rg_base r, rg_length r)}"
  proof -
    have e4: "hole_ext (vm_holes ?v4) = (hole_ext (vm_holes v))(h := (rg_base r, rg_length r))" using g(4) ext by simp
    show ?thesis unfolding g(3) e4 using h by (auto simp: image_iff)
  qed
  ultimately show ?thesis using set1
    by (intro exI [of _ ?v4] exI [of _ w2]) (rule exI [of _ T1], rule exI [of _ T2], rule exI [of _ ps2], simp add: Un_commute)
qed

end

end
