(* ===== verification/Vm_Drivers.thy ===== *)
theory Vm_Drivers
  imports Vmm_Alloc
begin

text \<open>
  \<open>kernel/memory/virtual\<close>: the drivers that back the ranges of a virtual memory manager. The kernel driver maps
  device memory and the kernel image, the anonymous driver maps pages of the physical memory manager,
  at once, on the first access, or with a shared page of zeroes until the first write. Both work on the
  page tables of \<open>Hat_X86\<close> and the pages of \<open>Pmm\<close>. Flushing the TLB has no effect on the tables.
\<close>

subsection \<open>Flags and loops\<close>

definition HatFlags_User :: u64 where
  "HatFlags_User = push_bit 2 1"

definition HatFlags_Execute :: u64 where
  "HatFlags_Execute = push_bit 63 1"

definition ConvertFlags :: "vm_flags \<Rightarrow> u64" where
  "ConvertFlags flags =
     (if Has flags VmWrite then HatFlags_Write else 0) OR (if Has flags VmExecute then HatFlags_Execute else 0) OR
     (if Has flags VmUser then HatFlags_User else 0)"

text \<open>\<open>HatGetLimits().modes\<close>: three entries are initialised, the others are 0.\<close>

definition granularity :: "nat \<Rightarrow> size_t" where
  "granularity mode = (if mode < 3 then unat (GetPageSize (mode + 1)) else 0)"

text \<open>
  A loop \<open>for (i = ...; i < limit;)\<close> whose body returns the next index. A loop that does not end is
  the fault \<open>Diverges\<close>.
\<close>

partial_function (option) for_loop :: "(nat \<Rightarrow> 's \<Rightarrow> (nat \<times> 's) res) \<Rightarrow> nat \<Rightarrow> nat \<Rightarrow> 's \<Rightarrow> 's res option" where
  "for_loop body limit i s =
     (if i < limit then (case body i s of Inl e \<Rightarrow> Some (Inl e) | Inr (i', s') \<Rightarrow> for_loop body limit i' s')
      else Some (Inr s))"

definition run_loop :: "(nat \<Rightarrow> 's \<Rightarrow> (nat \<times> 's) res) \<Rightarrow> nat \<Rightarrow> nat \<Rightarrow> 's \<Rightarrow> 's res" where
  "run_loop body limit i s = (case for_loop body limit i s of None \<Rightarrow> Inl Diverges | Some r \<Rightarrow> r)"

definition hat_alloc :: "pmm hat_state \<Rightarrow> (size_t \<times> pmm hat_state) res" where
  "hat_alloc st = res_bind (pmm_alloc (hs_pmm st)) (\<lambda>(page, s). Inr (page, st\<lparr> hs_pmm := s \<rparr>))"

text \<open>One page of a loop that maps with \<open>HatDoMap\<close> and ignores the result.\<close>

definition map_page :: "hat_cfg \<Rightarrow> hat_map \<Rightarrow> size_t \<Rightarrow> size_t \<Rightarrow> nat \<Rightarrow> u64 \<Rightarrow> pmm hat_state \<Rightarrow> pmm hat_state res" where
  "map_page c hmap vaddr paddr mode flags st =
     res_bind (HatDoMap pmm_alloc c hmap (of_nat vaddr) (of_nat paddr) mode flags st) (\<lambda>(_, st). Inr st)"

subsection \<open>The kernel driver\<close>

text \<open>The symbols of the linker script and where the loader has put the kernel.\<close>

record kernel_image =
  ki_physBase :: size_t
  ki_blobBegin :: size_t
  ki_blobEnd :: size_t
  ki_text :: "size_t \<times> size_t"
  ki_rodata :: "size_t \<times> size_t"
  ki_data :: "size_t \<times> size_t"

definition MapSection ::
  "hat_cfg \<Rightarrow> hat_map \<Rightarrow> kernel_image \<Rightarrow> size_t \<times> size_t \<Rightarrow> vm_flags \<Rightarrow> u64 \<Rightarrow> pmm hat_state \<Rightarrow>
   (vm_range \<times> pmm hat_state) res" where
  "MapSection c kmap ki sec vmFlags flags st =
     (let len = sz_sub (snd sec) (fst sec);
          top = AlignUp (sz_add (fst sec) len) PageSize;
          addr = AlignDown (fst sec) PageSize;
          len = sz_sub top addr
      in res_bind (run_loop (\<lambda>i st.
             res_bind (map_page c kmap i (sz_add (sz_sub i (ki_blobBegin ki)) (ki_physBase ki)) 0 flags st)
               (\<lambda>st. Inr (sz_add i PageSize, st))) (sz_add addr len) addr st)
           (\<lambda>st. Inr (\<lparr> rg_base = addr, rg_length = len, rg_flags = vmFlags OR flags_of (vm_flag_index VmMmio),
                        rg_offset = 0, rg_token = 0, rg_mdlCount = 1 \<rparr>, st)))"

definition kernel_Init ::
  "hat_cfg \<Rightarrow> hat_map \<Rightarrow> kernel_image \<Rightarrow> pmm hat_state \<Rightarrow> (vm_range list \<times> pmm hat_state) res" where
  "kernel_Init c kmap ki st =
     (if ki_physBase ki = 0 then Inl Assert_Failed
      else res_bind (MapSection c kmap ki (ki_text ki) (flags_of (vm_flag_index VmExecute))
                       (HatFlags_Execute OR HatFlags_Global) st) (\<lambda>(r0, st).
           res_bind (MapSection c kmap ki (ki_rodata ki) 0 HatFlags_Global st) (\<lambda>(r1, st).
           res_bind (MapSection c kmap ki (ki_data ki) (flags_of (vm_flag_index VmWrite))
                       (HatFlags_Write OR HatFlags_Global) st) (\<lambda>(r2, st). Inr ([r0, r1, r2], st)))))"

definition kernel_HandleFault ::
  "vm_range \<Rightarrow> size_t \<Rightarrow> vm_flags \<Rightarrow> vmm_stats \<Rightarrow> 's \<Rightarrow> (bool \<times> vmm_stats \<times> 's) res" where
  "kernel_HandleFault r addr flags stats st = Inl Unreachable_Hit"

definition kernel_ModifyRange :: "vm_range \<Rightarrow> modify_args \<Rightarrow> vmm_stats \<Rightarrow> 's \<Rightarrow> (bool \<times> vmm_stats \<times> 's) res" where
  "kernel_ModifyRange r args stats st = Inl Unreachable_Hit"

definition split_failed :: split_result where
  "split_failed = \<lparr> sr_offset = 0, sr_tokenLow = 0, sr_tokenHigh = 0, sr_success = False \<rparr>"

definition kernel_Split :: "vm_range \<Rightarrow> size_t \<Rightarrow> split_result" where
  "kernel_Split r offset =
     (let offset = AlignUp offset (granularity 0)
      in if offset > rg_length r then split_failed
         else \<lparr> sr_offset = offset, sr_tokenLow = 0, sr_tokenHigh = 0, sr_success = True \<rparr>)"

definition kernel_Query :: "size_t \<Rightarrow> vm_flags \<Rightarrow> size_t \<Rightarrow> query_result" where
  "kernel_Query len flags attachArg =
     (let alignment = granularity 0;
          aligned = AlignUp len alignment
      in \<lparr> qr_alignment = alignment,
           qr_length = (if Has flags VmGuarded then sz_add aligned (sz_mul alignment 2) else aligned),
           qr_hatMode = 0, qr_success = True \<rparr>)"

definition kernel_Attach ::
  "hat_cfg \<Rightarrow> hat_map \<Rightarrow> vm_range \<Rightarrow> query_result \<Rightarrow> size_t \<Rightarrow> vmm_stats \<Rightarrow> pmm hat_state \<Rightarrow>
   (attach_result \<times> vmm_stats \<times> pmm hat_state) res" where
  "kernel_Attach c hmap r query attachArg stats st =
     (let flags = (if Has (rg_flags r) VmWrite then HatFlags_Global OR HatFlags_Write else HatFlags_Global);
          result = \<lparr> ar_token = 0, ar_offset = attachArg mod qr_alignment query, ar_success = True \<rparr>;
          attachArg = AlignDown attachArg (qr_alignment query)
      in res_bind (run_loop (\<lambda>i st.
             res_bind (map_page c hmap (sz_add (rg_base r) i) (sz_add attachArg i) (qr_hatMode query) flags st)
               (\<lambda>st. Inr (sz_add i (qr_alignment query), st))) (rg_length r) 0 st)
           (\<lambda>st. Inr (result, stats\<lparr> st_mmioWorkingSize := sz_add (st_mmioWorkingSize stats) (rg_length r) \<rparr>, st)))"

definition kernel_Detach ::
  "hat_cfg \<Rightarrow> hat_map \<Rightarrow> vm_range \<Rightarrow> vmm_stats \<Rightarrow> 's hat_state \<Rightarrow> (bool \<times> vmm_stats \<times> 's hat_state) res" where
  "kernel_Detach c hmap r stats st =
     res_bind (run_loop (\<lambda>base (stats, st).
         case HatDoUnmap c hmap (of_nat base) st of
           (Some (_, mode), st) \<Rightarrow> Inr (sz_add base (granularity mode),
             stats\<lparr> st_mmioWorkingSize := sz_sub (st_mmioWorkingSize stats) (granularity mode) \<rparr>, st)
         | (None, st) \<Rightarrow> Inr (sz_add base (granularity 0), stats, st))
         (sz_add (rg_base r) (rg_length r)) (rg_base r) (stats, st))
       (\<lambda>(stats, st). Inr (True, stats, st))"

definition kernel_driver :: "hat_cfg \<Rightarrow> hat_map \<Rightarrow> pmm hat_state vm_driver" where
  "kernel_driver c hmap =
     \<lparr> dr_HandleFault = kernel_HandleFault, dr_ModifyRange = kernel_ModifyRange, dr_Split = kernel_Split,
       dr_Query = kernel_Query, dr_Attach = kernel_Attach c hmap, dr_Detach = kernel_Detach c hmap \<rparr>"

subsection \<open>The anonymous driver\<close>

record anon_state =
  an_zeroPage :: size_t
  an_faultHandler :: bool
  an_useZeroPage :: bool

definition AnonFeature_FaultHandler :: u64 where
  "AnonFeature_FaultHandler = push_bit 0 1"

definition AnonFeature_ZeroPage :: u64 where
  "AnonFeature_ZeroPage = push_bit 1 1"

definition FaultMaxMapAhead :: size_t where
  "FaultMaxMapAhead = 8"

text \<open>The member \<open>zeroPage\<close> keeps its old value where it is not set.\<close>

definition anon_Init :: "size_t \<Rightarrow> u64 \<Rightarrow> pmm hat_state \<Rightarrow> (anon_state \<times> pmm hat_state) res" where
  "anon_Init old enableFeatures st =
     (let faultHandler = (enableFeatures AND AnonFeature_FaultHandler \<noteq> 0);
          zeroPage = (enableFeatures AND AnonFeature_ZeroPage \<noteq> 0)
      in if zeroPage
         then res_bind (hat_alloc st) (\<lambda>(page, st).
                Inr (\<lparr> an_zeroPage = page, an_faultHandler = faultHandler, an_useZeroPage = True \<rparr>,
                     st\<lparr> hs_mem := zero_page (of_nat page) (hs_mem st) \<rparr>))
         else Inr (\<lparr> an_zeroPage = old, an_faultHandler = faultHandler, an_useZeroPage = False \<rparr>, st))"

text \<open>The body of the loop of \<open>HandleFault\<close>.\<close>

definition anon_fault_page ::
  "hat_cfg \<Rightarrow> hat_map \<Rightarrow> anon_state \<Rightarrow> nat \<Rightarrow> u64 \<Rightarrow> size_t \<Rightarrow> pmm hat_state \<Rightarrow> pmm hat_state res" where
  "anon_fault_page c hmap d hatMode flags vaddr st =
     res_bind (hat_alloc st) (\<lambda>(paddr, st).
       if granularity hatMode \<noteq> PageSize then Inl Assert_Failed
       else if an_useZeroPage d
       then Inr (snd (HatSyncMap c hmap (of_nat vaddr) (Some (of_nat paddr)) (Some flags) st))
       else res_bind (HatDoMap pmm_alloc c hmap (of_nat vaddr) (of_nat paddr) hatMode flags st) (\<lambda>(ok, st).
              if ok then Inr st else Inl Assert_Failed))"

definition anon_HandleFault ::
  "hat_cfg \<Rightarrow> hat_map \<Rightarrow> anon_state \<Rightarrow> vm_range \<Rightarrow> size_t \<Rightarrow> vm_flags \<Rightarrow> vmm_stats \<Rightarrow> pmm hat_state \<Rightarrow>
   (bool \<times> vmm_stats \<times> pmm hat_state) res" where
  "anon_HandleFault c hmap d r addr flags stats st =
     (let hatMode = rg_token r;
          granuleSize = granularity hatMode;
          mapLength = Min (sz_mul FaultMaxMapAhead granuleSize) (sz_sub (Top r) addr);
          mapCount = AlignUp mapLength granuleSize div granuleSize;
          first = AlignDown addr granuleSize
      in res_bind (res_fold (\<lambda>i. anon_fault_page c hmap d hatMode (ConvertFlags (rg_flags r))
                     (sz_add first (sz_mul i granuleSize))) [0..<mapCount] st)
           (\<lambda>st. Inr (True, stats\<lparr> st_anonResidentSize :=
                        sz_add (st_anonResidentSize stats) (sz_mul mapCount granuleSize) \<rparr>, st)))"

definition anon_ModifyRange ::
  "hat_cfg \<Rightarrow> hat_map \<Rightarrow> vm_range \<Rightarrow> modify_args \<Rightarrow> vmm_stats \<Rightarrow> 's hat_state \<Rightarrow> (bool \<times> vmm_stats \<times> 's hat_state) res" where
  "anon_ModifyRange c hmap r args stats st =
     (if \<not> (ma_trimStart args = 0 \<and> ma_trimEnd args = 0) then Inl Assert_Failed
      else if Has (ma_setFlags args) VmGuarded \<or> Has (ma_clearFlags args) VmGuarded then Inr (False, stats, st)
      else
        let granuleSize = granularity (rg_token r);
            flags = (ConvertFlags (rg_flags r) AND NOT (ConvertFlags (ma_clearFlags args))) OR ConvertFlags (ma_setFlags args)
        in res_bind (run_loop (\<lambda>i st. Inr (sz_add i granuleSize,
               snd (HatSyncMap c hmap (of_nat (sz_add (rg_base r) i)) None (Some flags) st))) (rg_length r) 0 st)
             (\<lambda>st. Inr (True, stats, st)))"

definition anon_Split :: "vm_range \<Rightarrow> size_t \<Rightarrow> split_result" where
  "anon_Split r offset =
     (let offset = AlignUp offset (granularity (rg_token r))
      in if offset > rg_length r then split_failed
         else \<lparr> sr_offset = offset, sr_tokenLow = rg_token r, sr_tokenHigh = rg_token r, sr_success = True \<rparr>)"

definition anon_Query :: "size_t \<Rightarrow> vm_flags \<Rightarrow> size_t \<Rightarrow> query_result" where
  "anon_Query len flags attachArg =
     (let alignment = granularity 0;
          aligned = AlignUp len alignment
      in \<lparr> qr_alignment = alignment,
           qr_length = (if Has flags VmGuarded then sz_add aligned (sz_mul 2 alignment) else aligned),
           qr_hatMode = 0, qr_success = True \<rparr>)"

text \<open>
  \<open>ready\<close> is \<open>!CoresInEarlyInit() && CoreLocalAvailable()\<close>, the state of the processors when the call is made.
\<close>

definition anon_Attach ::
  "hat_cfg \<Rightarrow> hat_map \<Rightarrow> anon_state \<Rightarrow> bool \<Rightarrow> vm_range \<Rightarrow> query_result \<Rightarrow> size_t \<Rightarrow> vmm_stats \<Rightarrow> pmm hat_state \<Rightarrow>
   (attach_result \<times> vmm_stats \<times> pmm hat_state) res" where
  "anon_Attach c hmap d ready r query attachArg stats st =
     (let arg = of_nat attachArg :: u64;
          demandAllowed = (ready \<and> an_faultHandler d);
          doDemand = (demandAllowed \<and> arg AND AnonFeature_FaultHandler = 0);
          doZeroPage = (demandAllowed \<and> an_useZeroPage d \<and> arg AND AnonFeature_ZeroPage = 0);
          result = \<lparr> ar_token = qr_hatMode query, ar_offset = 0, ar_success = True \<rparr>;
          stats = stats\<lparr> st_anonWorkingSize := sz_add (st_anonWorkingSize stats) (sz_sub (rg_length r) (ar_offset result)) \<rparr>
      in if doDemand \<and> \<not> doZeroPage then Inr (result, stats, st)
         else
           let flags = (if doZeroPage then snd (flags_Clear (vm_flag_index VmWrite) (rg_flags r)) else rg_flags r);
               granuleSize = granularity (qr_hatMode query)
           in res_bind (run_loop (\<lambda>i st.
                  res_bind (if doZeroPage then Inr (an_zeroPage d, st) else hat_alloc st) (\<lambda>(phys, st).
                  res_bind (map_page c hmap (sz_add (rg_base r) i) phys 0 (ConvertFlags flags) st) (\<lambda>st.
                  Inr (sz_add i granuleSize, st)))) (rg_length r) 0 st)
                (\<lambda>st. Inr (result,
                   (if doZeroPage then stats
                    else stats\<lparr> st_anonResidentSize := sz_add (st_anonResidentSize stats) (rg_length r) \<rparr>), st)))"

text \<open>One round of the loop of \<open>Detach\<close>. The messages of the page allocator go to the log.\<close>

definition anon_detach_step ::
  "hat_cfg \<Rightarrow> hat_map \<Rightarrow> anon_state \<Rightarrow> vm_range \<Rightarrow> nat \<Rightarrow> vmm_stats \<times> pmm hat_state \<Rightarrow>
   (nat \<times> vmm_stats \<times> pmm hat_state) res" where
  "anon_detach_step c hmap d r i = (\<lambda>(stats, st).
     case HatDoUnmap c hmap (of_nat (rg_base r)) st of
       (Some (phys, mode), st) \<Rightarrow>
         let len = granularity mode
         in res_bind (if unat phys \<noteq> an_zeroPage d
                      then res_bind (Free (hs_pmm st) (unat phys) (len div PageSize)) (\<lambda>(_, s). Inr (st\<lparr> hs_pmm := s \<rparr>))
                      else Inr st)
              (\<lambda>st. Inr (sz_add i len,
                 stats\<lparr> st_anonResidentSize := sz_sub (st_anonResidentSize stats) len \<rparr>, st))
     | (None, st) \<Rightarrow> Inr (sz_add i (granularity 0), stats, st))"

definition anon_Detach ::
  "hat_cfg \<Rightarrow> hat_map \<Rightarrow> anon_state \<Rightarrow> vm_range \<Rightarrow> vmm_stats \<Rightarrow> pmm hat_state \<Rightarrow> (bool \<times> vmm_stats \<times> pmm hat_state) res" where
  "anon_Detach c hmap d r stats st =
     (let stats = stats\<lparr> st_anonWorkingSize := sz_sub (st_anonWorkingSize stats) (sz_sub (rg_length r) (rg_offset r)) \<rparr>
      in res_bind (run_loop (anon_detach_step c hmap d r) (rg_length r) 0 (stats, st))
           (\<lambda>(stats, st). Inr (True, stats, st)))"

definition anon_driver :: "hat_cfg \<Rightarrow> hat_map \<Rightarrow> anon_state \<Rightarrow> bool \<Rightarrow> pmm hat_state vm_driver" where
  "anon_driver c hmap d ready =
     \<lparr> dr_HandleFault = anon_HandleFault c hmap d, dr_ModifyRange = anon_ModifyRange c hmap, dr_Split = anon_Split,
       dr_Query = anon_Query, dr_Attach = anon_Attach c hmap d ready, dr_Detach = anon_Detach c hmap d \<rparr>"

definition InitAll ::
  "hat_cfg \<Rightarrow> hat_map \<Rightarrow> kernel_image \<Rightarrow> size_t \<Rightarrow> pmm hat_state \<Rightarrow> (anon_state \<times> vm_range list \<times> pmm hat_state) res" where
  "InitAll c kmap ki old st =
     res_bind (anon_Init old (NOT 0) st) (\<lambda>(d, st).
     res_bind (kernel_Init c kmap ki st) (\<lambda>(rs, st). Inr (d, rs, st)))"

subsection \<open>Loops end\<close>

text \<open>The rule for total correctness: an invariant of index and state, and a measure that goes down.\<close>

lemma for_loop_total:
  fixes m :: "nat \<Rightarrow> nat"
  assumes "\<And>i s. P i s \<Longrightarrow> i < limit \<Longrightarrow> \<exists>i' s'. body i s = Inr (i', s') \<and> P i' s' \<and> m i' < m i"
  shows "P i s \<Longrightarrow> \<exists>i' s'. for_loop body limit i s = Some (Inr s') \<and> P i' s' \<and> limit \<le> i'"
proof (induction "m i" arbitrary: i s rule: less_induct)
  case less
  show ?case
  proof (cases "i < limit")
    case True
    then obtain i' s' where b: "body i s = Inr (i', s')" "P i' s'" "m i' < m i" using assms less.prems by blast
    with less.hyps [OF b(3,2)] True show ?thesis by (subst for_loop.simps) auto
  next
    case False
    with less.prems show ?thesis by (subst for_loop.simps) auto
  qed
qed

lemma run_loop_total:
  fixes m :: "nat \<Rightarrow> nat"
  assumes "\<And>i s. P i s \<Longrightarrow> i < limit \<Longrightarrow> \<exists>i' s'. body i s = Inr (i', s') \<and> P i' s' \<and> m i' < m i" "P i s"
  shows "\<exists>i' s'. run_loop body limit i s = Inr s' \<and> P i' s' \<and> limit \<le> i'"
  proof -
  have "\<exists>i' s'. for_loop body limit i s = Some (Inr s') \<and> P i' s' \<and> limit \<le> i'"
    by (rule for_loop_total [of P limit body m]) (fact assms(1), fact assms(2))
  then show ?thesis by (auto simp: run_loop_def)
qed

text \<open>A loop over the pages of a range, in steps of \<open>d\<close> that end at \<open>d * n\<close>.\<close>

lemma run_loop_pages:
  assumes "\<And>j s. j < n \<Longrightarrow> P j s \<Longrightarrow> \<exists>s'. body (d * j) s = Inr (sz_add (d * j) d, s') \<and> P (Suc j) s'"
    and "P 0 s" "0 < d" "d * n < size_limit"
  shows "\<exists>s'. run_loop body (d * n) 0 s = Inr s' \<and> P n s'"
proof -
  let ?P = "\<lambda>i s. \<exists>j \<le> n. i = d * j \<and> P j s"
  have step: "\<exists>i' s'. body i s = Inr (i', s') \<and> ?P i' s' \<and> d * n - i' < d * n - i" if iP: "?P i s" "i < d * n" for i s
  proof -
    obtain j where j: "i = d * j" "P j s" "j < n" using iP by auto
    have "d * Suc j \<le> d * n" using j(3) by (intro mult_le_mono2) simp
    then have "sz_add (d * j) d = d * Suc j" using assms(4) by (simp add: sz_simps)
    moreover have "d * n - d * Suc j < d * n - d * j" using j(3) assms(3) by (intro diff_less_mono2) auto
    ultimately show ?thesis using assms(1) [OF j(3,2)] j(3) unfolding j(1) by (metis Suc_leI)
  qed
  have start: "?P 0 s" using assms(2) by auto
  have "\<exists>i s'. run_loop body (d * n) 0 s = Inr s' \<and> ?P i s' \<and> d * n \<le> i"
    by (rule run_loop_total [of ?P "d * n" body "\<lambda>i. d * n - i"]) (fact step, fact start)
  then obtain s' j where r: "run_loop body (d * n) 0 s = Inr s'" and j: "j \<le> n" "P j s'" "d * n \<le> d * j" by fast
  have "j = n" using j(1,3) assms(3) by simp
  with r j(2) show ?thesis by blast
qed

subsection \<open>Pages and tables together\<close>

text \<open>
  The state of the machine as the drivers rely on it: the tables of the map are a tree, and the free pages are
  none of them, can be named in an entry and are mapped at \<open>hhdm\<close>.
\<close>

definition hat_inv :: "hat_cfg \<Rightarrow> hat_map \<Rightarrow> size_t \<Rightarrow> pmm hat_state \<Rightarrow> bool" where
  "hat_inv c hmap hhdm st \<longleftrightarrow> cfg_ok c \<and> hat_tree c (hs_mem st) (hm_root hmap) \<and>
     source_ok (pmm_mapped hhdm) free_pages c (hm_root hmap) st"

abbreviation hat_pages :: "pmm hat_state \<Rightarrow> size_t set" where
  "hat_pages st \<equiv> free_pages (hs_pmm st)"

abbreviation hat_avail :: "pmm hat_state \<Rightarrow> nat" where
  "hat_avail st \<equiv> pmm_avail (hs_pmm st)"

abbreviation hat_drawn :: "hat_cfg \<Rightarrow> hat_map \<Rightarrow> size_t \<Rightarrow> nat \<Rightarrow> pmm hat_state \<Rightarrow> pmm hat_state \<Rightarrow> bool" where
  "hat_drawn c hmap hhdm \<equiv> drawn (hat_inv c hmap hhdm) hat_pages hat_avail"

interpretation hat_supply: page_supply hat_alloc hat_pages "hat_inv c hmap hhdm" hat_avail hhdm for c hmap hhdm
proof
  fix st
  assume st: "hat_inv c hmap hhdm st" "0 < hat_avail st"
  then obtain p s' where p: "pmm_alloc (hs_pmm st) = Inr (p, s')" "p \<in> hat_pages st" "free_pages s' = hat_pages st - {p}"
    "pmm_mapped hhdm s'" "pmm_avail s' + 1 = hat_avail st"
    using pmm_supply.alloc_ok [of hhdm "hs_pmm st"] unfolding hat_inv_def source_ok_def by blast
  have "hat_inv c hmap hhdm (st\<lparr> hs_pmm := s' \<rparr>)"
    using st(1) p(3,4) by (auto simp: hat_inv_def source_ok_def inj_on_def)
  with p show "\<exists>p st'. hat_alloc st = Inr (p, st') \<and> p \<in> hat_pages st \<and> hat_pages st' = hat_pages st - {p} \<and>
      hat_inv c hmap hhdm st' \<and> hat_avail st' + 1 = hat_avail st"
    by (intro exI [of _ p] exI [of _ "st\<lparr> hs_pmm := s' \<rparr>"]) (simp add: hat_alloc_def)
next
  fix st p
  assume "hat_inv c hmap hhdm st" "p \<in> hat_pages st"
  then show "PageSize dvd p \<and> p + hhdm + PageSize \<le> size_limit" by (simp add: hat_inv_def source_ok_def pmm_mapped_def)
qed

context page_source
begin

lemma make_tables_draws:
  "make_tables alloc c ind target k pte st = Inr (pte', st') \<Longrightarrow> pinv (hs_pmm st) \<Longrightarrow> k \<le> avail (hs_pmm st) + 1 \<Longrightarrow> target \<le> k \<Longrightarrow> 1 \<le> target \<Longrightarrow>
   pages (hs_pmm st') \<subseteq> pages (hs_pmm st) \<and> avail (hs_pmm st) + target \<le> avail (hs_pmm st') + k"
proof (induction k arbitrary: pte st)
  case (Suc k)
  show ?case
  proof (cases "Suc k = target")
    case False
    obtain p s where p: "alloc (hs_pmm st) = Inr (p, s)" "pages s = pages (hs_pmm st) - {p}" "pinv s" "avail s + 1 = avail (hs_pmm st)"
      using alloc_ok [OF Suc.prems(2)] Suc.prems(3-5) False by fastforce
    obtain pte1 mem1 where r: "make_tables alloc c ind target k pte1 (st\<lparr> hs_mem := mem1, hs_pmm := s \<rparr>) = Inr (pte', st')"
      using Suc.prems(1) False p(1) by (auto simp: Let_def)
    have "k \<le> avail (hs_pmm (st\<lparr> hs_mem := mem1, hs_pmm := s \<rparr>)) + 1" "target \<le> k" using Suc.prems(3,4) p(4) False by simp_all
    from Suc.IH [OF r _ this Suc.prems(5)] p show ?thesis by auto
  next
    case True
    with Suc.prems(1) show ?thesis by auto
  qed
qed simp

end

lemma walk_level: "cfg_ok c \<Longrightarrow> 1 \<le> wr_level (WalkTables c mem root v) \<and> wr_level (WalkTables c mem root v) \<le> pagingLevels c"
  using walk_loop_end [OF _ refl, of "pagingLevels c" c mem "GetAddressIndices v" root] reaches_le
  unfolding WalkTables_def cfg_ok_def by (metis gr0I numeral_eq_iff zero_neq_numeral)

text \<open>Mapping a page of the smallest size always returns; it maps the page unless something is mapped there.\<close>

abbreviation hat_found :: "hat_cfg \<Rightarrow> hat_map \<Rightarrow> pmm hat_state \<Rightarrow> (nat \<Rightarrow> nat) \<Rightarrow> (u64 \<times> nat) option" where
  "hat_found c hmap st \<equiv> found c (hs_mem st) (hm_root hmap)"

abbreviation idx :: "size_t \<Rightarrow> nat \<Rightarrow> nat" where
  "idx a \<equiv> GetAddressIndices (of_nat a)"

lemma map_page_ok:
  assumes inv: "hat_inv c hmap hhdm st" and av: "pagingLevels c \<le> hat_avail st"
  shows "\<exists>st'. map_page c hmap va pa 0 flags st = Inr st' \<and> hat_drawn c hmap hhdm (pagingLevels c) st st' \<and>
    (\<forall>ind. hat_found c hmap st' ind =
      (if hat_found c hmap st (idx va) = None \<and> agree c 1 (idx va) ind then Some (final_pte c (of_nat pa) 1 flags, 1)
       else hat_found c hmap st ind))"
proof -
  let ?w = "WalkTables c (hs_mem st) (hm_root hmap) (of_nat va)"
  have c: "cfg_ok c" "hat_tree c (hs_mem st) (hm_root hmap)" "source_ok (pmm_mapped hhdm) free_pages c (hm_root hmap) st"
    "0 < modeCount c" using inv by (auto simp: hat_inv_def cfg_ok_def)
  have none: "hat_found c hmap st (idx va) = None \<longleftrightarrow> \<not> wr_complete ?w" by (simp add: found_def WalkTables_def Let_def)
  show ?thesis
  proof (cases "wr_complete ?w")
    case True
    then have "map_page c hmap va pa 0 flags st = Inr st" using c(4) by (simp add: map_page_def HatDoMap_def Let_def)
    then show ?thesis using none True inv by (auto simp: drawn_refl)
  next
    case False
    have lv: "0 + 1 \<le> wr_level ?w" "wr_level ?w \<le> pagingLevels c" using walk_level [OF c(1)] by auto
    obtain st' where m: "HatDoMap pmm_alloc c hmap (of_nat va) (of_nat pa) 0 flags st = Inr (True, st')"
      "hat_tree c (hs_mem st') (hm_root hmap)" "source_ok (pmm_mapped hhdm) free_pages c (hm_root hmap) st'"
      "\<forall>ind. hat_found c hmap st' ind = (if agree c (0 + 1) (idx va) ind then Some (final_pte c (of_nat pa) (0 + 1) flags, 0 + 1)
         else hat_found c hmap st ind)"
      using pmm_supply.HatDoMap_found [OF c(1-3) av c(4) False lv(1)] by blast
    obtain pte st1 where t: "make_tables pmm_alloc c (idx va) 1 (wr_level ?w) (wr_pte ?w) st = Inr (pte, st1)"
      "hs_pmm st' = hs_pmm st1"
      using m(1) False c(4) by (auto simp: HatDoMap_def Let_def res_bind_Inr bump_kernel_def)
    have "hat_pages st' \<subseteq> hat_pages st \<and> hat_avail st + 1 \<le> hat_avail st' + wr_level ?w"
      using pmm_supply.make_tables_draws [OF t(1)] t(2) c(3) lv av by (auto simp: source_ok_def)
    then have "hat_drawn c hmap hhdm (pagingLevels c) st st'" using m(2,3) c(1) lv(2) by (auto simp: drawn_def hat_inv_def)
    then show ?thesis using m(1,4) none False by (auto simp: map_page_def)
  qed
qed

subsection \<open>Pages of a range\<close>

text \<open>Two addresses are in the same page of the smallest size when the bits that the tables translate are equal.\<close>

lemma index_eq:
  "GetAddressIndices a j = GetAddressIndices b j \<longleftrightarrow> (\<forall>n < 9. bit a (12 + 9 * (j - 1) + n) = bit b (12 + 9 * (j - 1) + n))"
  if "1 \<le> j" "j \<le> 5"
proof -
  have s: "(if j = 5 then 48 else if j = 4 then 39 else if j = 3 then 30 else if j = 2 then 21 else 12) = 12 + 9 * (j - 1)"
    using that by (auto simp: numeral_eq_Suc le_Suc_eq)
  have small: "(\<forall>n < 64. (A n \<and> n < 9) = (B n \<and> n < 9)) \<longleftrightarrow> (\<forall>n < 9. A n = B n)" for A B :: "nat \<Rightarrow> bool"
  proof safe
    fix n :: nat
    assume "\<forall>n < 64. (A n \<and> n < 9) = (B n \<and> n < 9)" "n < 9"
    then have "(A n \<and> n < 9) = (B n \<and> n < 9)" by (elim allE [of _ n]) simp
    with \<open>n < 9\<close> show "A n \<Longrightarrow> B n" "B n \<Longrightarrow> A n" by auto
  qed auto
  have m: "(0x1FF :: u64) = mask 9" by (simp add: mask_eq_exp_minus_1)
  have "drop_bit (12 + 9 * (j - 1)) a AND mask 9 = drop_bit (12 + 9 * (j - 1)) b AND mask 9 \<longleftrightarrow>
      (\<forall>n < 9. bit a (12 + 9 * (j - 1) + n) = bit b (12 + 9 * (j - 1) + n))"
    by (simp add: bit_eq_iff bit_and_iff bit_mask_iff bit_drop_bit_eq small)
  then show ?thesis unfolding GetAddressIndices_def s m by (simp only: word_unat_eq_iff [symmetric])
qed

lemma agree_page:
  assumes "cfg_ok c"
  shows "agree c 1 (GetAddressIndices a) (GetAddressIndices b) \<longleftrightarrow>
    take_bit (9 * pagingLevels c) (drop_bit 12 a) = take_bit (9 * pagingLevels c) (drop_bit 12 b)"
proof -
  have L: "pagingLevels c \<le> 5" using assms by (auto simp: cfg_ok_def)
  have "agree c 1 (GetAddressIndices a) (GetAddressIndices b) \<longleftrightarrow>
      (\<forall>j. 1 \<le> j \<and> j \<le> pagingLevels c \<longrightarrow> (\<forall>n < 9. bit a (12 + 9 * (j - 1) + n) = bit b (12 + 9 * (j - 1) + n)))"
    using L by (auto simp: agree_def index_eq)
  also have "\<dots> \<longleftrightarrow> (\<forall>m < 9 * pagingLevels c. bit a (12 + m) = bit b (12 + m))"
  proof safe
    fix m
    assume all: "\<forall>j. 1 \<le> j \<and> j \<le> pagingLevels c \<longrightarrow> (\<forall>n < 9. bit a (12 + 9 * (j - 1) + n) = bit b (12 + 9 * (j - 1) + n))"
      and m: "m < 9 * pagingLevels c"
    have "m div 9 + 1 \<le> pagingLevels c" using m by linarith
    then have eq: "bit a (12 + 9 * (m div 9) + m mod 9) = bit b (12 + 9 * (m div 9) + m mod 9)"
      using all [rule_format, of "m div 9 + 1" "m mod 9"] by simp
    then show "bit a (12 + m) \<Longrightarrow> bit b (12 + m)" "bit b (12 + m) \<Longrightarrow> bit a (12 + m)"
      by (simp_all add: add.assoc)
  next
    fix j n
    assume "\<forall>m < 9 * pagingLevels c. bit a (12 + m) = bit b (12 + m)" "1 \<le> j" "j \<le> pagingLevels c" "n < (9 :: nat)"
    moreover from this have "9 * (j - 1) + n < 9 * pagingLevels c" by linarith
    ultimately show "bit a (12 + 9 * (j - 1) + n) \<Longrightarrow> bit b (12 + 9 * (j - 1) + n)"
      "bit b (12 + 9 * (j - 1) + n) \<Longrightarrow> bit a (12 + 9 * (j - 1) + n)"
      by (metis add.assoc)+
  qed
  also have "\<dots> \<longleftrightarrow> take_bit (9 * pagingLevels c) (drop_bit 12 a) = take_bit (9 * pagingLevels c) (drop_bit 12 b)"
  proof -
    have "n < 64" if "n < 9 * pagingLevels c" for n using that L by simp
    then show ?thesis by (auto simp: bit_eq_iff bit_take_bit_iff bit_drop_bit_eq)
  qed
  finally show ?thesis .
qed

text \<open>The number of pages that the tables can translate.\<close>

definition span :: "hat_cfg \<Rightarrow> nat" where
  "span c = 2 ^ (9 * pagingLevels c)"

lemma agree_nat:
  assumes "cfg_ok c" "a < size_limit" "b < size_limit"
  shows "agree c 1 (idx a) (idx b) \<longleftrightarrow> a div PageSize mod span c = b div PageSize mod span c"
proof -
  have L: "9 * pagingLevels c \<le> 64" using assms(1) by (auto simp: cfg_ok_def)
  have u: "unat (take_bit (9 * pagingLevels c) (drop_bit 12 (of_nat x :: u64))) = x div PageSize mod span c" if "x < size_limit" for x
  proof -
    have "unat (of_nat x :: u64) = x" using that by (simp add: size_limit_def unat_of_nat take_bit_nat_eq_self)
    then show ?thesis
      using that by (simp only: unsigned_take_bit_eq unsigned_drop_bit_eq) (simp add: span_def take_bit_eq_mod drop_bit_eq_div size_limit_def)
  qed
  show ?thesis using u [OF assms(2)] u [OF assms(3)] agree_page [OF assms(1)] by (metis word_unat_eq_iff)
qed

lemma agree_pages:
  assumes "cfg_ok c" "PageSize dvd b" "b + PageSize * n < size_limit" "n \<le> span c" "i < n" "j < n"
  shows "agree c 1 (idx (b + PageSize * i)) (idx (b + PageSize * j)) \<longleftrightarrow> i = j"
proof -
  have lt: "b + PageSize * i < size_limit" "b + PageSize * j < size_limit" using assms(3,5,6) by simp_all
  have "(b + PageSize * i) div PageSize = b div PageSize + i" for i using assms(2) by (simp add: div_plus_div_distrib_dvd_left)
  moreover have "(b div PageSize + i) mod span c = (b div PageSize + j) mod span c \<longleftrightarrow> i = j"
  proof -
    have "x = y" if "(b div PageSize + x) mod span c = (b div PageSize + y) mod span c" "x \<le> y" "y < span c" for x y
      using that mod_eq_dvd_iff_nat [of "b div PageSize + x" "b div PageSize + y" "span c"] by (auto dest!: dvd_imp_le)
    from this [of i j] this [of j i] show ?thesis using assms(4-6) by (cases i j rule: le_cases) auto
  qed
  ultimately show ?thesis using agree_nat [OF assms(1) lt] by (simp only:)
qed

text \<open>
  The translation of all addresses after the first \<open>n\<close> pages from \<open>b\<close> on have been set to \<open>entry\<close>.
\<close>

definition sets_pages ::
  "hat_cfg \<Rightarrow> hat_map \<Rightarrow> size_t \<Rightarrow> nat \<Rightarrow> (nat \<Rightarrow> (u64 \<times> nat) option) \<Rightarrow> pmm hat_state \<Rightarrow> pmm hat_state \<Rightarrow> bool" where
  "sets_pages c hmap b n entry st st' \<longleftrightarrow>
     (\<forall>ind. (\<forall>i < n. agree c 1 (idx (b + PageSize * i)) ind \<longrightarrow> hat_found c hmap st' ind = entry i) \<and>
            ((\<forall>i < n. \<not> agree c 1 (idx (b + PageSize * i)) ind) \<longrightarrow> hat_found c hmap st' ind = hat_found c hmap st ind))"

text \<open>A range of whole pages inside what the tables can tell apart.\<close>

definition page_run :: "hat_cfg \<Rightarrow> size_t \<Rightarrow> nat \<Rightarrow> bool" where
  "page_run c b n \<longleftrightarrow> PageSize dvd b \<and> b + PageSize * n < size_limit \<and> n \<le> span c"

lemma sets_pages_0 [simp]: "sets_pages c hmap b 0 entry st st"
  by (simp add: sets_pages_def)

lemma sets_pages_untouched:
  assumes "cfg_ok c" "page_run c b n" "j < n" "sets_pages c hmap b j entry st s"
  shows "hat_found c hmap s (idx (b + PageSize * j)) = hat_found c hmap st (idx (b + PageSize * j))"
proof -
  have "\<not> agree c 1 (idx (b + PageSize * i)) (idx (b + PageSize * j))" if "i < j" for i
    using agree_pages [of c b n i j] assms(1-3) that by (auto simp: page_run_def)
  then show ?thesis using assms(4) by (simp add: sets_pages_def)
qed

lemma sets_pages_Suc:
  assumes "cfg_ok c" "page_run c b n" "j < n" "sets_pages c hmap b j entry st s"
    and "\<forall>ind. hat_found c hmap s' ind = (if agree c 1 (idx (b + PageSize * j)) ind then entry j else hat_found c hmap s ind)"
  shows "sets_pages c hmap b (Suc j) entry st s'"
proof -
  have "\<not> agree c 1 (idx (b + PageSize * j)) ind" if "i < j" "agree c 1 (idx (b + PageSize * i)) ind" for i ind
  proof
    assume "agree c 1 (idx (b + PageSize * j)) ind"
    then have "agree c 1 (idx (b + PageSize * i)) (idx (b + PageSize * j))" using that(2) agree_sym agree_trans by blast
    then have "i = j" using agree_pages [of c b n i j] assms(1-3) that(1) by (auto simp: page_run_def)
    with that(1) show False by simp
  qed
  with assms(4,5) show ?thesis unfolding sets_pages_def by (auto simp: less_Suc_eq)
qed

subsection \<open>The kernel driver keeps its contract\<close>

lemma of_nat_sz_add: "(of_nat (sz_add x y) :: u64) = of_nat (x + y)"
  by (simp only: word_of_nat_eq_iff) (simp add: sz_add_def size_limit_def take_bit_eq_mod)

lemma granularity_0 [simp]: "granularity 0 = PageSize"
  by (simp add: granularity_def GetPageSize_def)

lemma AlignUp_dvd_any: "PageSize dvd AlignUp a PageSize"
proof -
  have "x div PageSize * PageSize < size_limit" if "x < size_limit" for x
    using that div_times_less_eq_dividend le_less_trans by blast
  then have "AlignUp a PageSize = sz_sub (sz_add a PageSize) 1 div PageSize * PageSize"
    unfolding AlignUp_def by (intro sz_mul_eq) simp
  then show ?thesis by simp
qed

lemma kernel_Query_facts:
  "qr_alignment (kernel_Query len flags arg) = PageSize" "qr_hatMode (kernel_Query len flags arg) = 0"
  "qr_success (kernel_Query len flags arg)" "PageSize dvd qr_length (kernel_Query len flags arg)"
  "qr_length (kernel_Query len flags arg) < size_limit"
proof -
  have "PageSize dvd size_limit" by (simp add: size_limit_def)
  moreover have "PageSize dvd sz_mul PageSize 2" by (simp add: sz_mul_def size_limit_def)
  ultimately show "PageSize dvd qr_length (kernel_Query len flags arg)"
    using AlignUp_dvd_any by (simp add: kernel_Query_def Let_def sz_add_def dvd_mod)
  show "qr_length (kernel_Query len flags arg) < size_limit" by (simp add: kernel_Query_def Let_def AlignUp_def)
qed (simp_all add: kernel_Query_def Let_def)

definition mmio_entry :: "hat_cfg \<Rightarrow> vm_flags \<Rightarrow> size_t \<Rightarrow> nat \<Rightarrow> (u64 \<times> nat) option" where
  "mmio_entry c flags arg i =
     Some (final_pte c (of_nat (AlignDown arg PageSize + PageSize * i)) 1
             (if Has flags VmWrite then HatFlags_Global OR HatFlags_Write else HatFlags_Global), 1)"

lemma kernel_Attach_ok:
  assumes inv: "hat_inv c hmap hhdm st" and q: "q = kernel_Query len flags arg" "rg_length r = qr_length q" "rg_length r = PageSize * n"
    and av: "pagingLevels c * n \<le> hat_avail st"
  shows "\<exists>st'. kernel_Attach c hmap r q arg stats st =
      Inr (\<lparr> ar_token = 0, ar_offset = arg mod PageSize, ar_success = True \<rparr>,
           stats\<lparr> st_mmioWorkingSize := sz_add (st_mmioWorkingSize stats) (rg_length r) \<rparr>, st') \<and>
    hat_drawn c hmap hhdm (pagingLevels c * n) st st' \<and>
    (page_run c (rg_base r) n \<and> (\<forall>i < n. hat_found c hmap st (idx (rg_base r + PageSize * i)) = None) \<longrightarrow>
       sets_pages c hmap (rg_base r) n (mmio_entry c (rg_flags r) arg) st st')"
proof -
  let ?L = "pagingLevels c" and ?b = "rg_base r"
  let ?free = "page_run c ?b n \<and> (\<forall>i < n. hat_found c hmap st (idx (?b + PageSize * i)) = None)"
  let ?flags = "if Has (rg_flags r) VmWrite then HatFlags_Global OR HatFlags_Write else HatFlags_Global"
  let ?body = "\<lambda>i st. res_bind (map_page c hmap (sz_add ?b i) (sz_add (AlignDown arg PageSize) i) 0 ?flags st)
    (\<lambda>st. Inr (sz_add i PageSize, st))"
  let ?P = "\<lambda>j s. hat_drawn c hmap hhdm (?L * j) st s \<and>
    (?free \<longrightarrow> sets_pages c hmap ?b j (mmio_entry c (rg_flags r) arg) st s)"
  have cf: "cfg_ok c" using inv by (simp add: hat_inv_def)
  have step: "\<exists>s'. ?body (PageSize * j) s = Inr (sz_add (PageSize * j) PageSize, s') \<and> ?P (Suc j) s'" if j: "j < n" and P: "?P j s" for j s
  proof -
    have "?L * Suc j \<le> ?L * n" using j by (intro mult_le_mono2) simp
    then have s: "hat_inv c hmap hhdm s" "?L \<le> hat_avail s" using P av by (auto simp: drawn_def)
    let ?e = "final_pte c (of_nat (sz_add (AlignDown arg PageSize) (PageSize * j))) 1 ?flags"
    obtain s' where s': "map_page c hmap (sz_add ?b (PageSize * j)) (sz_add (AlignDown arg PageSize) (PageSize * j)) 0 ?flags s = Inr s'"
      "hat_drawn c hmap hhdm ?L s s'"
      "\<forall>ind. hat_found c hmap s' ind =
        (if hat_found c hmap s (idx (sz_add ?b (PageSize * j))) = None \<and> agree c 1 (idx (sz_add ?b (PageSize * j))) ind
         then Some (?e, 1) else hat_found c hmap s ind)"
      using map_page_ok [OF s] by blast
    have "sets_pages c hmap ?b (Suc j) (mmio_entry c (rg_flags r) arg) st s'" if f: ?free
    proof (rule sets_pages_Suc [OF cf _ j])
      show "page_run c ?b n" using f by blast
      show sj: "sets_pages c hmap ?b j (mmio_entry c (rg_flags r) arg) st s" using P f by blast
      have "hat_found c hmap s (idx (?b + PageSize * j)) = None"
        using sets_pages_untouched [OF cf _ j sj] f j by auto
      then show "\<forall>ind. hat_found c hmap s' ind = (if agree c 1 (idx (?b + PageSize * j)) ind then mmio_entry c (rg_flags r) arg j
          else hat_found c hmap s ind)"
        using s'(3) unfolding of_nat_sz_add mmio_entry_def by simp
    qed
    moreover have "hat_drawn c hmap hhdm (?L * Suc j) st s'" using drawn_trans [OF conjunct1 [OF P] s'(2)] by (simp add: add.commute)
    ultimately show ?thesis using s'(1) by (intro exI [of _ s']) simp
  qed
  have n: "PageSize * n < size_limit" using kernel_Query_facts(5) q by metis
  have start: "?P 0 st" using inv by (simp add: drawn_refl)
  have "\<exists>s'. run_loop ?body (PageSize * n) 0 st = Inr s' \<and> ?P n s'"
    by (rule run_loop_pages [where P = ?P]) (fact step, fact start, simp, fact n)
  then obtain s' where "run_loop ?body (PageSize * n) 0 st = Inr s'" "?P n s'" by blast
  then show ?thesis
    using q(3) by (simp add: kernel_Attach_def Let_def kernel_Query_facts q(1))
qed

lemma walk_cong_index:
  "\<forall>j. 1 \<le> j \<and> j \<le> l \<longrightarrow> i1 j = i2 j \<Longrightarrow> walk_loop c mem i1 pt l = walk_loop c mem i2 pt l"
  by (induction l arbitrary: pt) (auto simp: walk_loop_Suc)

lemma found_cong: "agree c 1 i1 i2 \<Longrightarrow> found c mem root i1 = found c mem root i2"
  using walk_cong_index [of "pagingLevels c" i1 i2 c mem root] by (simp add: agree_def found_def)

lemma unmap_ok:
  assumes inv: "hat_inv c hmap hhdm st"
  shows "\<exists>res st'. HatDoUnmap c hmap (of_nat va) st = (res, st') \<and> hat_inv c hmap hhdm st' \<and> hs_pmm st' = hs_pmm st \<and>
    (case hat_found c hmap st (idx va) of None \<Rightarrow> res = None \<and> st' = st
     | Some (e, l) \<Rightarrow> res = Some (e AND addrMask c, l - 1) \<and> 1 \<le> l \<and> l \<le> 3 \<and>
         (\<forall>ind. hat_found c hmap st' ind = (if agree c l (idx va) ind then None else hat_found c hmap st ind)))"
proof -
  let ?w = "WalkTables c (hs_mem st) (hm_root hmap) (of_nat va)"
  have c: "cfg_ok c" "hat_tree c (hs_mem st) (hm_root hmap)" "source_ok (pmm_mapped hhdm) free_pages c (hm_root hmap) st"
    using inv by (auto simp: hat_inv_def)
  obtain t i where pte: "wr_pte ?w = (t, i)" by (metis surj_pair)
  have "0 < pagingLevels c" using c(1) by (auto simp: cfg_ok_def)
  then have e: "ends_at c (hs_mem st) (hm_root hmap) (idx va) (wr_level ?w) t i"
    using c(2) pte by (simp add: ends_at_def WalkTables_def)
  have fd: "hat_found c hmap st (idx va) = (if wr_complete ?w then Some (hs_mem st t i, wr_level ?w) else None)"
    using pte by (simp add: found_def WalkTables_def Let_def read_pte_def)
  show ?thesis
  proof (cases "wr_complete ?w")
    case False
    then have "HatDoUnmap c hmap (of_nat va) st = (None, st)" by (simp add: HatDoUnmap_def Let_def)
    with False fd inv show ?thesis by simp
  next
    case True
    let ?m = "write_pte (hs_mem st) (t, i) 0"
    let ?s1 = "st\<lparr> hs_mem := ?m \<rparr>"
    let ?st = "if wr_level ?w = pagingLevels c then bump_kernel hmap ?s1 else ?s1"
    have u: "HatDoUnmap c hmap (of_nat va) st = (Some (hs_mem st t i AND addrMask c, wr_level ?w - 1), ?st)"
      using True pte by (simp add: HatDoUnmap_def Let_def read_pte_def)
    have m: "hs_mem ?st = ?m" "hs_pmm ?st = hs_pmm st" by (simp_all add: bump_kernel_def)
    have nd: "\<not> descends c (wr_level ?w) 0" by (simp add: pt_defs)
    have "pt_present (hs_mem st t i)" using end_facts(4) [OF e] True by (simp add: WalkTables_def)
    then have l: "1 \<le> wr_level ?w" "wr_level ?w \<le> 3"
      using end_facts(3,5) [OF e] c(1) by (auto simp: descends_def pt_leaf_def cfg_ok_def)
    have "hat_inv c hmap hhdm ?st"
      using c write_end(3,4) [OF e nd] m by (simp add: hat_inv_def source_ok_def)
    moreover have "hat_found c hmap ?st ind = (if agree c (wr_level ?w) (idx va) ind then None else hat_found c hmap st ind)" for ind
      unfolding m using found_write [OF e nd, of ind] by (simp add: pt_present_def)
    ultimately show ?thesis using u m(2) True fd l by auto
  qed
qed

lemma granularity_bounds: "mode < 3 \<Longrightarrow> PageSize \<le> granularity mode \<and> granularity mode \<le> 2 ^ 30"
  by (auto simp: granularity_def GetPageSize_def less_Suc_eq numeral_3_eq_3)

text \<open>Where a range must end so that the index of \<open>Detach\<close> does not wrap around behind a page of 1 GiB.\<close>

definition detach_limit :: size_t where
  "detach_limit = size_limit - 2 ^ 30"

lemma kernel_Detach_ok:
  assumes inv: "hat_inv c hmap hhdm st" and top: "rg_base r + rg_length r \<le> detach_limit"
  shows "\<exists>stats' st'. kernel_Detach c hmap r stats st = Inr (True, stats', st') \<and> hat_inv c hmap hhdm st' \<and> hs_pmm st' = hs_pmm st \<and>
    (page_run c (rg_base r) n \<and> rg_length r = PageSize * n \<and>
       (\<forall>i < n. \<forall>e l. hat_found c hmap st (idx (rg_base r + PageSize * i)) = Some (e, l) \<longrightarrow> l = 1) \<longrightarrow>
     sets_pages c hmap (rg_base r) n (\<lambda>_. None) st st')"
proof -
  let ?b = "rg_base r" and ?top = "rg_base r + rg_length r"
  let ?flat = "page_run c ?b n \<and> rg_length r = PageSize * n \<and>
    (\<forall>i < n. \<forall>e l. hat_found c hmap st (idx (?b + PageSize * i)) = Some (e, l) \<longrightarrow> l = 1)"
  let ?body = "\<lambda>base (stats, st). case HatDoUnmap c hmap (of_nat base) st of
      (Some (_, mode), st) \<Rightarrow> Inr (sz_add base (granularity mode),
        stats\<lparr> st_mmioWorkingSize := sz_sub (st_mmioWorkingSize stats) (granularity mode) \<rparr>, st)
    | (None, st) \<Rightarrow> Inr (sz_add base (granularity 0), stats, st)"
  let ?P = "\<lambda>i (stats', s). hat_inv c hmap hhdm s \<and> hs_pmm s = hs_pmm st \<and>
    (?flat \<longrightarrow> (\<exists>j \<le> n. i = ?b + PageSize * j \<and> sets_pages c hmap ?b j (\<lambda>_. None) st s))"
  have cf: "cfg_ok c" using inv by (simp add: hat_inv_def)
  have lim: "i + 2 ^ 30 < size_limit" if "i < ?top" for i using that top by (simp add: detach_limit_def size_limit_def)
  have step: "\<exists>i' x'. ?body i x = Inr (i', x') \<and> ?P i' x' \<and> ?top - i' < ?top - i" if P: "?P i x" and i: "i < ?top" for i x
  proof -
    obtain stats' s where x: "x = (stats', s)" by (cases x)
    have s: "hat_inv c hmap hhdm s" "hs_pmm s = hs_pmm st" using P x by simp_all
    obtain res s' where u: "HatDoUnmap c hmap (of_nat i) s = (res, s')" "hat_inv c hmap hhdm s'" "hs_pmm s' = hs_pmm s"
      "case hat_found c hmap s (idx i) of None \<Rightarrow> res = None \<and> s' = s
       | Some (e, l) \<Rightarrow> res = Some (e AND addrMask c, l - 1) \<and> 1 \<le> l \<and> l \<le> 3 \<and>
           (\<forall>ind. hat_found c hmap s' ind = (if agree c l (idx i) ind then None else hat_found c hmap s ind))"
      using unmap_ok [OF s(1)] by blast
    define g where "g = (case res of None \<Rightarrow> PageSize | Some (_, mode) \<Rightarrow> granularity mode)"
    have g: "PageSize \<le> g" "g \<le> 2 ^ 30"
      using u(4) granularity_bounds by (auto simp: g_def split: option.splits)
    have add: "sz_add i g = i + g" using lim [OF i] g(2) by (simp add: sz_simps)
    have "\<exists>j \<le> n. i + g = ?b + PageSize * j \<and> sets_pages c hmap ?b j (\<lambda>_. None) st s'" if f: ?flat
    proof -
      obtain j where j: "j \<le> n" "i = ?b + PageSize * j" "sets_pages c hmap ?b j (\<lambda>_. None) st s" using P x f by auto
      have jn: "j < n" using i j(2) f by simp
      have same: "hat_found c hmap s (idx i) = hat_found c hmap st (idx i)"
        using sets_pages_untouched [OF cf _ jn j(3)] f j(2) by simp
      then have "g = PageSize \<and> (\<forall>ind. hat_found c hmap s' ind = (if agree c 1 (idx i) ind then None else hat_found c hmap s ind))"
      proof (cases "hat_found c hmap s (idx i)")
        case None
        have "hat_found c hmap s ind = None" if "agree c 1 (idx i) ind" for ind
          using None found_cong [OF that] by simp
        with None u(4) show ?thesis by (auto simp: g_def)
      next
        case (Some p)
        obtain e l where p: "p = (e, l)" by (cases p)
        have "l = 1" using f jn Some same p j(2) by metis
        then show ?thesis using u(4) Some p by (simp add: g_def)
      qed
      then have "g = PageSize" "sets_pages c hmap ?b (Suc j) (\<lambda>_. None) st s'"
        using sets_pages_Suc [OF cf _ jn j(3), of s'] f j(2) by simp_all
      then show ?thesis using j(2) jn by (intro exI [of _ "Suc j"]) simp
    qed
    then have "?P (i + g) (fst x, s')" "?P (i + g) (y, s')" for y using u(2,3) s(2) by simp_all
    moreover have "?top - (i + g) < ?top - i" using i g(1) by simp
    moreover have "\<exists>y. ?body i x = Inr (i + g, y, s')"
      using u(1) add by (auto simp: x g_def split: option.splits prod.splits)
    ultimately show ?thesis by blast
  qed
  have start: "?P ?b (stats, st)" using inv by auto
  have "\<exists>i x. run_loop ?body ?top ?b (stats, st) = Inr x \<and> ?P i x \<and> ?top \<le> i"
    by (rule run_loop_total [where P = ?P and m = "\<lambda>i. ?top - i"]) (fact step, fact start)
  then obtain i stats' s' where r: "run_loop ?body ?top ?b (stats, st) = Inr (stats', s')" "?P i (stats', s')" "?top \<le> i" by fast
  have "sets_pages c hmap ?b n (\<lambda>_. None) st s'" if f: ?flat
  proof -
    obtain j where j: "j \<le> n" "i = ?b + PageSize * j" "sets_pages c hmap ?b j (\<lambda>_. None) st s'" using r(2) f by auto
    moreover have "j = n" using j(1,2) r(3) f by simp
    ultimately show ?thesis by simp
  qed
  moreover have "sz_add ?b (rg_length r) = ?top" using top by (simp add: sz_simps detach_limit_def size_limit_def)
  ultimately show ?thesis
    using r(1,2) by (intro exI [of _ "stats'"] exI [of _ s']) (simp add: kernel_Detach_def)
qed

interpretation kernel_backing: vm_backing hat_alloc hat_pages "hat_inv c hmap hhdm" hat_avail hhdm "kernel_driver c hmap"
  "\<lambda>n. pagingLevels c * (n div PageSize)" detach_limit for c hmap hhdm
proof
  fix w len flags arg st and r :: vm_range and q :: query_result
  assume w: "hat_inv c hmap hhdm w" and q: "q = dr_Query (kernel_driver c hmap) len flags arg" and r: "rg_length r = qr_length q"
    and av: "pagingLevels c * (rg_length r div PageSize) \<le> hat_avail w"
  have q': "q = kernel_Query len flags arg" using q by (simp add: kernel_driver_def)
  have n: "rg_length r = PageSize * (rg_length r div PageSize)" using kernel_Query_facts(4) r q' by simp
  show "\<exists>result st' w'. dr_Attach (kernel_driver c hmap) r q arg st w = Inr (result, st', w') \<and>
      hat_drawn c hmap hhdm (pagingLevels c * (rg_length r div PageSize)) w w'"
    using kernel_Attach_ok [OF w q' r n av, of st] by (auto simp: kernel_driver_def)
next
  fix w st and r :: vm_range
  assume "hat_inv c hmap hhdm w" "rg_base r + rg_length r \<le> detach_limit"
  from kernel_Detach_ok [OF this, of st 0] show "\<exists>st' w'. dr_Detach (kernel_driver c hmap) r st w = Inr (True, st', w') \<and>
      hat_drawn c hmap hhdm 0 w w'"
    by (auto simp: kernel_driver_def drawn_def)
qed

end
