(* ===== verification/Vmm_Mmio.thy ===== *)
theory Vmm_Mmio
  imports Vm_Drivers
begin

text \<open>
  The virtual memory manager of \<open>Vmm\<close> with the kernel driver of \<open>Vm_Drivers\<close>, on the page tables of
  \<open>Hat_X86\<close> and the pages of \<open>Pmm\<close>: what the callers of \<open>Alloc\<close>, \<open>Free\<close> and \<open>FindRange\<close> see.
\<close>

subsection \<open>Lookup\<close>

lemma find_unique:
  "(\<And>x y. x \<in> set xs \<Longrightarrow> y \<in> set xs \<Longrightarrow> P x \<Longrightarrow> P y \<Longrightarrow> x = y) \<Longrightarrow> (find P xs = Some p) = (p \<in> set xs \<and> P p)"
  by (induction xs) auto

lemma FindRange_exact:
  assumes "vmm_ok hhdm pg v TR TH psR psH"
  shows "\<exists>found. FindRange v a = Inr found \<and>
    (\<forall>p. found = Some p \<longleftrightarrow> p \<in> set (inord TR) \<and> holds (range_ext (vm_ranges v)) a p)"
proof -
  have tr: "trees_ok v TR TH" using assms by (simp add: vmm_ok_def)
  then have rep: "zip_ok (vm_ranges v) TR []" "rb_root (vm_ranges v) = ptr TR" and sp: "spaced (range_ext (vm_ranges v)) (inord TR)"
    and wi: "within (vm_lower v) (vm_upper v) (range_ext (vm_ranges v)) (set (inord TR))" and up: "vm_upper v < size_limit"
    by (auto simp: trees_ok_def rb_rep_def zip_ok_def)
  let ?P = "holds (range_ext (vm_ranges v)) a"
  have unique: "x = y" if "x \<in> set (inord TR)" "y \<in> set (inord TR)" "?P x" "?P y" for x y
    using spaced_apart [OF sp that(1,2)] that(3,4) by (force simp: holds_def apart_def)
  have find: "(find ?P (inord TR) = Some p) = (p \<in> set (inord TR) \<and> ?P p)" for p
    using unique by (intro find_unique) blast
  show ?thesis
  proof (cases "a < vm_lower v \<or> a \<ge> vm_upper v")
    case True
    then have "\<not> ?P p" if "p \<in> set (inord TR)" for p using wi that by (force simp: holds_def within_def)
    with True show ?thesis by (intro exI [of _ None]) (auto simp: FindRange_def)
  next
    case False
    have "\<forall>x \<in> set (inord TR). fst (range_ext (vm_ranges v) x) + snd (range_ext (vm_ranges v) x) < size_limit"
      using wi up by (force simp: within_def)
    from find_range_loop_ok [OF rep(1) sp this] have "FindRange v a = Inr (find ?P (inord TR))"
      using False rep(2) by (simp add: FindRange_def returns_def)
    then show ?thesis using find by blast
  qed
qed

subsection \<open>The address space\<close>

text \<open>
  What a caller sees of a manager: the free addresses \<open>F\<close> and, for each address, the range \<open>M\<close> that holds it.
\<close>

definition vmm_abs :: "size_t \<Rightarrow> size_t set \<Rightarrow> vmm \<Rightarrow> size_t set \<Rightarrow> (size_t \<Rightarrow> size_t option) \<Rightarrow> bool" where
  "vmm_abs hhdm pg v F M \<longleftrightarrow>
     (\<exists>TR TH psR psH. vmm_ok hhdm pg v TR TH psR psH \<and> F = free_addrs v TH) \<and> (\<forall>a. FindRange v a = Inr (M a))"

lemma vmm_absI:
  "vmm_ok hhdm pg v TR TH psR psH \<Longrightarrow> F = free_addrs v TH \<Longrightarrow> (\<And>a. FindRange v a = Inr (M a)) \<Longrightarrow> vmm_abs hhdm pg v F M"
  unfolding vmm_abs_def by blast

text \<open>The lookups of two states whose trees hold the same ranges, except for one.\<close>

lemma FindRange_same:
  assumes ok: "vmm_ok hhdm pg v TR TH psR psH" "vmm_ok hhdm pg' v' TR' TH' psR' psH'"
    and same: "same_on (set (inord TR) \<inter> set (inord TR')) v v'" and M: "\<forall>a. FindRange v a = Inr (M a)"
  shows "set (inord TR') = set (inord TR) \<Longrightarrow> FindRange v' a = Inr (M a)"
    and "p \<notin> set (inord TR) \<Longrightarrow> set (inord TR') = insert p (set (inord TR)) \<Longrightarrow>
      FindRange v' a = Inr (if holds (range_ext (vm_ranges v')) a p then Some p else M a)"
    and "set (inord TR') = set (inord TR) - {p} \<Longrightarrow> p \<in> set (inord TR) \<Longrightarrow>
      FindRange v' a = Inr (if holds (range_ext (vm_ranges v)) a p then None else M a)"
proof -
  obtain f' where f': "FindRange v' a = Inr f'" "\<forall>p. f' = Some p \<longleftrightarrow> p \<in> set (inord TR') \<and> holds (range_ext (vm_ranges v')) a p"
    using FindRange_exact [OF ok(2)] by blast
  have m: "M a = Some p \<longleftrightarrow> p \<in> set (inord TR) \<and> holds (range_ext (vm_ranges v)) a p" for p
    using FindRange_exact [OF ok(1), of a] M by auto
  have h: "holds (range_ext (vm_ranges v')) a p = holds (range_ext (vm_ranges v)) a p" if "p \<in> set (inord TR)" "p \<in> set (inord TR')" for p
    using same that by (auto simp: holds_def same_on_def)
  have eq: "x = y" if "\<And>p. x = Some p \<longleftrightarrow> y = Some p" for x y :: "size_t option" using that by (cases x) (cases y; auto)+
  show "FindRange v' a = Inr (M a)" if "set (inord TR') = set (inord TR)"
  proof -
    have "f' = M a" by (rule eq) (use f'(2) m h that in auto)
    with f'(1) show ?thesis by simp
  qed
  show "FindRange v' a = Inr (if holds (range_ext (vm_ranges v')) a p then Some p else M a)"
    if p: "p \<notin> set (inord TR)" "set (inord TR') = insert p (set (inord TR))"
  proof (cases "holds (range_ext (vm_ranges v')) a p")
    case True
    then have "f' = Some p" using f'(2) p(2) by simp
    with True f'(1) show ?thesis by simp
  next
    case False
    have "f' = M a" by (rule eq) (use f'(2) m h p False in auto)
    with f'(1) False show ?thesis by simp
  qed
  show "FindRange v' a = Inr (if holds (range_ext (vm_ranges v)) a p then None else M a)"
    if p: "set (inord TR') = set (inord TR) - {p}" "p \<in> set (inord TR)"
  proof (cases "holds (range_ext (vm_ranges v)) a p")
    case True
    then have "M a = Some p" using m p(2) by simp
    then have "f' = None" using f'(2) m h p by (metis DiffD1 DiffD2 insertI1 not_None_eq option.inject)
    with f'(1) True show ?thesis by simp
  next
    case False
    have "f' = M a" by (rule eq) (use f'(2) m h p False in auto)
    with f'(1) False show ?thesis by simp
  qed
qed

text \<open>An address is not free and in a range.\<close>

lemma vmm_abs_disjoint: "vmm_abs hhdm pg v F M \<Longrightarrow> a \<in> F \<Longrightarrow> M a = None"
proof -
  assume abs: "vmm_abs hhdm pg v F M" and a: "a \<in> F"
  then obtain TR TH psR psH where ok: "vmm_ok hhdm pg v TR TH psR psH" "F = free_addrs v TH" "FindRange v a = Inr (M a)"
    by (auto simp: vmm_abs_def)
  obtain h where h: "h \<in> set (inord TH)" "holds (hole_ext (vm_holes v)) a h" using a ok(2) by (auto simp: free_of_image)
  have "\<not> holds (range_ext (vm_ranges v)) a p" if "p \<in> set (inord TR)" for p
  proof -
    have "apart (range_ext (vm_ranges v) p) (hole_ext (vm_holes v) h)" using ok(1) that h(1) by (simp add: vmm_ok_def trees_ok_def)
    with h(2) show ?thesis by (auto simp: holds_def apart_def)
  qed
  with FindRange_exact [OF ok(1), of a] ok(3) show "M a = None" by (metis Inr_inject not_None_eq)
qed

lemma empty_rep: "rb_root t = None \<Longrightarrow> rb_rep t Tip"
  by (simp add: rb_rep_def zip_ok_def rb_ok_def)

context page_supply
begin

lemma CommonInit_ok:
  assumes v: "rb_root (vm_ranges v) = None" "rb_root (vm_holes v) = None" "0 < vm_lower v" "vm_lower v < vm_upper v" "vm_upper v < size_limit"
    and w: "pinv w" "0 < avail w"
  shows "\<exists>v' w'. CommonInit alloc hhdm v w = Inr (v', w') \<and> vmm_abs hhdm (pages w') v' {vm_lower v..<vm_upper v} (\<lambda>_. None) \<and>
    drawn pinv pages avail 1 w w' \<and> vm_lower v' = vm_lower v \<and> vm_upper v' = vm_upper v"
proof -
  let ?v = "v\<lparr> vm_rangeSlabs := [], vm_holeSlabs := [] \<rparr>"
  let ?len = "vm_upper v - vm_lower v"
  let ?x = "\<lparr> ho_base = vm_lower v, ho_length = ?len, ho_largest = ?len \<rparr>"
  have "rb_rep (vm_ranges v) Tip" "rb_rep (vm_holes v) Tip" using v(1,2) by (simp_all add: empty_rep)
  then have ok: "vmm_ok hhdm (pages w) ?v Tip Tip [] []"
    using v(3-5) by (simp add: vmm_ok_def trees_ok_def slots_ok_def spaced_def within_def)
  have len: "sz_sub (vm_upper v) (vm_lower v) = ?len" using v(4,5) by (simp add: sz_simps)
  obtain v' w' TH ps where a: "res_bind (new_hole alloc hhdm ?x ?v w) (\<lambda>(p, v, w). res_bind (holes_Insert p v) (\<lambda>v. Inr (v, w))) = Inr (v', w')"
    "vmm_ok hhdm (pages w') v' Tip TH [] ps" "same_ranges ?v v'" "drawn pinv pages avail 1 w w'"
    "hole_ext (vm_holes v') ` set (inord TH) = {(vm_lower v, ?len)}"
    using opt_hole_step [OF ok w, of True ?x] v(3-5) by (auto simp: room_def)
  have "FindRange v' a = Inr None" for a using FindRange_exact [OF a(2), of a] by auto
  moreover have "free_addrs v' TH = {vm_lower v..<vm_upper v}" using a(5) v(4) by simp
  ultimately have "vmm_abs hhdm (pages w') v' {vm_lower v..<vm_upper v} (\<lambda>_. None)" using a(2) unfolding vmm_abs_def by blast
  with a show ?thesis by (auto simp: CommonInit_def Let_def len same_ranges_def)
qed

end

subsection \<open>Device memory\<close>

lemma kernel_alloc:
  assumes abs: "vmm_abs hhdm (hat_pages w) v F M" and w: "hat_inv c hmap hhdm w"
    and drv: "GetDriver ds flags = Some (kernel_driver c hmap)" "q = kernel_Query len flags arg"
    and av: "pagingLevels c * (qr_length q div PageSize) + 4 \<le> hat_avail w"
    and arg: "0 < len" "0 < qr_length q" "al \<le> 1 \<or> PageSize mod al = 0"
  shows "\<exists>res v' w' F' M'. vmm_Alloc hat_alloc hhdm ds len arg flags al v w = Inr (res, v', w') \<and>
    vmm_abs hhdm (hat_pages w') v' F' M' \<and> hat_inv c hmap hhdm w' \<and> vm_upper v' = vm_upper v \<and>
    (case res of None \<Rightarrow> F' = F \<and> M' = M
     | Some x \<Rightarrow> \<exists>p b. {b..<b + qr_length q} \<subseteq> F \<and> F' = F - {b..<b + qr_length q} \<and>
         M' = (\<lambda>a. if b \<le> a \<and> a < b + qr_length q then Some p else M a) \<and>
         (let r = rb_data (vm_ranges v') p
          in x = sz_add b (rg_offset r) \<and> rg_base r = b \<and> rg_length r = qr_length q \<and> rg_flags r = flags \<and> rg_mdlCount r = 0))"
proof -
  let ?n = "qr_length q"
  obtain TR TH psR psH where ok: "vmm_ok hhdm (hat_pages w) v TR TH psR psH" "F = free_addrs v TH" and M: "\<forall>a. FindRange v a = Inr (M a)"
    using abs by (auto simp: vmm_abs_def)
  have q: "q = dr_Query (kernel_driver c hmap) len flags arg" "qr_success q" "qr_alignment q = PageSize"
    using drv(2) kernel_Query_facts by (simp_all add: kernel_driver_def)
  from kernel_backing.vmm_Alloc_ok [OF ok(1) w av drv(1) q(1,2) arg(2,1)] arg(3) q(3)
  obtain res v' w' TR' TH' psR' psH' b where a: "vmm_Alloc hat_alloc hhdm ds len arg flags al v w = Inr (res, v', w')"
    "vmm_ok hhdm (hat_pages w') v' TR' TH' psR' psH'" "hat_drawn c hmap hhdm (pagingLevels c * (?n div PageSize) + 4) w w'"
    "alloc_post v TR flags b ?n res v' TR'"
    "if res = None then free_addrs v' TH' = free_addrs v TH
     else {b..<b + ?n} \<subseteq> free_addrs v TH \<and> free_addrs v' TH' = free_addrs v TH - {b..<b + ?n}"
    by metis
  have w': "hat_inv c hmap hhdm w'" and up: "vm_upper v' = vm_upper v" using a(3,4) by (auto simp: drawn_def alloc_post_def same_on_def)
  have same: "same_on (set (inord TR) \<inter> set (inord TR')) v v'" using a(4) by (auto simp: alloc_post_def same_on_def)
  show ?thesis
  proof (cases res)
    case None
    then have "set (inord TR') = set (inord TR)" using a(4) by (simp add: alloc_post_def)
    then have "\<forall>x. FindRange v' x = Inr (M x)" using FindRange_same(1) [OF ok(1) a(2) same M] by blast
    then have "vmm_abs hhdm (hat_pages w') v' F M" using a(2,5) None ok(2) unfolding vmm_abs_def by auto
    with a(1) w' up None show ?thesis by auto
  next
    case (Some x)
    obtain p where p: "p \<notin> set (inord TR)" "set (inord TR') = insert p (set (inord TR))"
      "let r = rb_data (vm_ranges v') p in rg_base r = b \<and> rg_length r = ?n \<and> rg_flags r = flags \<and> rg_mdlCount r = 0 \<and> x = sz_add b (rg_offset r)"
      using a(4) Some by (auto simp: alloc_post_def)
    let ?M = "\<lambda>a. if b \<le> a \<and> a < b + ?n then Some p else M a"
    have "FindRange v' y = Inr (?M y)" for y
      using FindRange_same(2) [OF ok(1) a(2) same M p(1,2), of y] p(3) by (simp add: holds_def Let_def)
    then have "vmm_abs hhdm (hat_pages w') v' (F - {b..<b + ?n}) ?M" using a(5) Some ok(2) by (intro vmm_absI [OF a(2)]) auto
    moreover have "\<exists>p' b'. {b'..<b' + ?n} \<subseteq> F \<and> F - {b..<b + ?n} = F - {b'..<b' + ?n} \<and>
         ?M = (\<lambda>a. if b' \<le> a \<and> a < b' + ?n then Some p' else M a) \<and>
         (let r = rb_data (vm_ranges v') p'
          in x = sz_add b' (rg_offset r) \<and> rg_base r = b' \<and> rg_length r = ?n \<and> rg_flags r = flags \<and> rg_mdlCount r = 0)"
    proof -
      have "{b..<b + ?n} \<subseteq> F" using a(5) Some ok(2) by simp
      then show ?thesis using p(3) by - (rule exI [of _ p], rule exI [of _ b], simp add: Let_def)
    qed
    ultimately show ?thesis using a(1) w' up Some
      by (intro exI [of _ res] exI [of _ v'] exI [of _ w'] exI [of _ "F - {b..<b + ?n}"] exI [of _ ?M]) simp
  qed
qed

lemma kernel_free:
  assumes abs: "vmm_abs hhdm (hat_pages w) v F M" and w: "hat_inv c hmap hhdm w" "1 \<le> hat_avail w"
    and r: "M base = Some p" "r = rb_data (vm_ranges v) p" "rg_mdlCount r = 0"
    and drv: "GetDriver ds (rg_flags r) = Some (kernel_driver c hmap)" and lim: "vm_upper v \<le> detach_limit"
  shows "\<exists>v' w'. vmm_Free hat_alloc hhdm ds base v w = Inr (True, v', w') \<and> hat_inv c hmap hhdm w' \<and>
    vmm_abs hhdm (hat_pages w') v' (F \<union> {rg_base r..<Top r}) (\<lambda>a. if rg_base r \<le> a \<and> a < Top r then None else M a)"
proof -
  obtain TR TH psR psH where ok: "vmm_ok hhdm (hat_pages w) v TR TH psR psH" "F = free_addrs v TH" and M: "\<forall>a. FindRange v a = Inr (M a)"
    using abs by (auto simp: vmm_abs_def)
  have fd: "FindRange v base = Inr (Some p)" using M r(1) by simp
  then have p: "p \<in> set (inord TR)" using FindRange_exact [OF ok(1), of base] by auto
  from kernel_backing.vmm_Free_ok [OF ok(1) w fd p _ r(3) drv lim] r(2)
  obtain v' w' TR' TH' psH' where a: "vmm_Free hat_alloc hhdm ds base v w = Inr (True, v', w')"
    "vmm_ok hhdm (hat_pages w') v' TR' TH' psR psH'" "hat_drawn c hmap hhdm 1 w w'" "set (inord TR') = set (inord TR) - {p}"
    "same_on (set (inord TR')) v v'" "free_addrs v' TH' = free_addrs v TH \<union> {rg_base r..<rg_base r + rg_length r}"
    by metis
  have same: "same_on (set (inord TR) \<inter> set (inord TR')) v v'" using a(5) by (auto simp: same_on_def)
  have top: "Top r = rg_base r + rg_length r"
    using ok(1) p r(2) by (auto simp: vmm_ok_def trees_ok_def within_def Top_def sz_simps)
  have "FindRange v' a = Inr (if rg_base r \<le> a \<and> a < Top r then None else M a)" for a
    using FindRange_same(3) [OF ok(1) a(2) same M a(4) p, of a] by (simp only: holds_def ext_simps r(2) [symmetric] top)
  then have "vmm_abs hhdm (hat_pages w') v' (F \<union> {rg_base r..<Top r}) (\<lambda>a. if rg_base r \<le> a \<and> a < Top r then None else M a)"
    using a(6) ok(2) by (intro vmm_absI [OF a(2)]) (auto simp: top)
  with a(1,3) show ?thesis by (auto simp: drawn_def)
qed

text \<open>C4: allocating device memory returns. Either nothing was found and the address space is as before, or
  the new range takes addresses that were all free, exactly these addresses now belong to it, every other address
  belongs to what it belonged to before, and the free addresses shrink by exactly this range; the invariants of the
  manager, of the page tables and of the physical memory manager hold again.\<close>

theorem vmm_alloc_refines:
  assumes "vmm_abs hhdm (hat_pages w) v F M" "hat_inv c hmap hhdm w"
    "GetDriver ds flags = Some (kernel_driver c hmap)" "q = kernel_Query len flags arg"
    "pagingLevels c * (qr_length q div PageSize) + 4 \<le> hat_avail w"
    "0 < len" "0 < qr_length q" "al \<le> 1 \<or> PageSize mod al = 0"
  shows "\<exists>res v' w' F' M'. vmm_Alloc hat_alloc hhdm ds len arg flags al v w = Inr (res, v', w') \<and>
    vmm_abs hhdm (hat_pages w') v' F' M' \<and> hat_inv c hmap hhdm w' \<and>
    (case res of None \<Rightarrow> F' = F \<and> M' = M
     | Some x \<Rightarrow> \<exists>p b. {b..<b + qr_length q} \<subseteq> F \<and> F' = F - {b..<b + qr_length q} \<and>
         M' = (\<lambda>a. if b \<le> a \<and> a < b + qr_length q then Some p else M a) \<and>
         x = sz_add b (rg_offset (rb_data (vm_ranges v') p)))"
  using kernel_alloc [OF assms]
  by (elim exE conjE) (intro exI conjI, assumption+, auto simp: Let_def split: option.splits)

text \<open>C5: freeing an address inside a range of device memory (a range of the kernel driver) that is not pinned, in an address
  space that ends below \<open>detach_limit\<close>, returns true; exactly the addresses of
  that range become free, no address belongs to it any more and every other address is as before.\<close>

theorem vmm_free_refines:
  assumes "vmm_abs hhdm (hat_pages w) v F M" "hat_inv c hmap hhdm w" "1 \<le> hat_avail w"
    "M base = Some p" "r = rb_data (vm_ranges v) p" "rg_mdlCount r = 0"
    "GetDriver ds (rg_flags r) = Some (kernel_driver c hmap)" "vm_upper v \<le> detach_limit"
  shows "\<exists>v' w'. vmm_Free hat_alloc hhdm ds base v w = Inr (True, v', w') \<and> hat_inv c hmap hhdm w' \<and>
    vmm_abs hhdm (hat_pages w') v' (F \<union> {rg_base r..<Top r}) (\<lambda>a. if rg_base r \<le> a \<and> a < Top r then None else M a)"
  using kernel_free [OF assms] .

subsection \<open>A small machine\<close>

definition small_hat :: "pmm hat_state" where
  "small_hat = \<lparr> hs_mem = (\<lambda>_ _. 0),
     hs_pmm = \<lparr> pm_zones = [], pm_segments = [], pm_freelist = [\<lparr> fe_base = 0x2000, runLength = 12 \<rparr>], trashAfterUse = False, pm_rng = (\<lambda>_. 0), pm_lost = False \<rparr>, hs_kernel_gen = 0 \<rparr>"

lemma small_pages: "hat_pages small_hat = {0x2000, 0x3000, 0x4000, 0x5000, 0x6000, 0x7000, 0x8000, 0x9000, 0xA000, 0xB000, 0xC000, 0xD000}"
proof -
  have "[0..<12] = [0, 1, 2, 3, 4, 5, 6, 7, 8, 9, 10, 11 :: nat]" by (simp add: upt_rec_numeral upt_0_rec)
  then have "run_pages \<lparr> fe_base = 0x2000, runLength = 12 \<rparr> =
      [0x2000, 0x3000, 0x4000, 0x5000, 0x6000, 0x7000, 0x8000, 0x9000, 0xA000, 0xB000, 0xC000, 0xD000]"
    by (simp add: run_pages_def)
  then show ?thesis by (simp add: small_hat_def free_pages_def)
qed

lemma small_ok: "hat_inv demo_cfg demo_map 0x100000 small_hat" "hat_avail small_hat = 12"
proof -
  have "hat_tables demo_cfg (hs_mem small_hat) (hm_root demo_map) = {0x1000}"
    by (auto simp: hat_tables_def demo_simps demo_reaches small_hat_def)
  moreover have "pmm_inv (hs_pmm small_hat)"
    by (auto simp: small_hat_def pmm_inv_def run_pages_def distinct_map inj_on_def)
  then have "pmm_mapped 0x100000 (hs_pmm small_hat)" by (simp add: pmm_mapped_def small_pages size_limit_def dvd_def)
  moreover have "hat_tree demo_cfg (hs_mem small_hat) (hm_root demo_map)"
    by (simp add: hat_tree_def demo_simps demo_reaches agree_def small_hat_def)
  ultimately show "hat_inv demo_cfg demo_map 0x100000 small_hat"
    using demo_ok(1) by (simp add: hat_inv_def source_ok_def small_pages demo_simps)
  show "hat_avail small_hat = 12" by (simp add: pmm_avail_def small_hat_def)
qed

definition lone_hook :: "size_t rb_hook" where
  "lone_hook = \<lparr> hk_parent = None, hk_left = None, hk_right = None, hk_predecessor = None, hk_successor = None, hk_color = Black \<rparr>"

definition small_range :: vm_range where
  "small_range = \<lparr> rg_base = 0x10000, rg_length = 0x2000, rg_flags = flags_of 25, rg_offset = 0, rg_token = 0, rg_mdlCount = 0 \<rparr>"

definition small_hole :: vm_hole where
  "small_hole = \<lparr> ho_base = 0x12000, ho_length = 0xE000, ho_largest = 0xE000 \<rparr>"

definition small_vmm :: vmm where
  "small_vmm = \<lparr> vm_ranges = \<lparr> rb_root = Some 0x10E060, rb_hooks = (\<lambda>_. lone_hook), rb_data = (\<lambda>_. small_range) \<rparr>,
     vm_holes = \<lparr> rb_root = Some 0x10F048, rb_hooks = (\<lambda>_. lone_hook), rb_data = (\<lambda>_. small_hole) \<rparr>,
     vm_rangeSlabs = [\<lparr> sb_bitmap = [1], sb_data = 0x10E060, sb_free = 1, sb_total = 2 \<rparr>],
     vm_holeSlabs = [\<lparr> sb_bitmap = [1], sb_data = 0x10F048, sb_free = 1, sb_total = 2 \<rparr>],
     vm_lower = 0x10000, vm_upper = 0x20000,
     vm_stats = \<lparr> st_faults = 0, st_anonRanges = 0, st_anonWorkingSize = 0, st_anonResidentSize = 0, st_fileRanges = 0,
       st_fileWorkingSize = 0, st_fileResidentSize = 0, st_mmioRanges = 1, st_mmioWorkingSize = 0x2000 \<rparr> \<rparr>"

definition small_drivers :: "pmm hat_state vm_drivers" where
  "small_drivers = \<lparr> anonDriver = kernel_driver demo_cfg demo_map, vfsDriver = kernel_driver demo_cfg demo_map,
     kernelDriver = kernel_driver demo_cfg demo_map \<rparr>"

lemma one_bit: "bits [1] ! 0" "\<not> bits [1] ! Suc 0" "length (bits [1]) = 8"
  by (simp_all add: bits_def bit_1_iff)

lemma small_abs:
  "vmm_abs 0x100000 (hat_pages small_hat) small_vmm {0x12000..<0x20000}
     (\<lambda>a. if 0x10000 \<le> a \<and> a < 0x12000 then Some 0x10E060 else None)"
proof -
  let ?TR = "Bin Black Tip 0x10E060 Tip" and ?TH = "Bin Black Tip 0x10F048 Tip"
  let ?v = small_vmm
  have rep: "rb_rep (vm_ranges ?v) ?TR" "rb_rep (vm_holes ?v) ?TH"
    by (simp_all add: small_vmm_def rb_rep_def zip_ok_def rb_ok_def lone_hook_def hd_or_def)
  have tr: "trees_ok ?v ?TR ?TH" using rep
    by (simp add: trees_ok_def spaced_def within_def apart_def) (simp add: small_vmm_def small_range_def small_hole_def size_limit_def)
  have t2: "take 2 (bits [1]) = [True, False]"
    using one_bit by (intro nth_equalityI) (auto simp: less_Suc_eq numeral_2_eq_2)
  have sl: "slab_ok 0x100000 96 0xE000 (hd (vm_rangeSlabs ?v))" "slab_ok 0x100000 72 0xF000 (hd (vm_holeSlabs ?v))"
    by (simp_all add: small_vmm_def slab_ok_def t2 size_limit_def dvd_def)
  have "slots_ok 0x100000 (hat_pages small_hat) [0xE000] [0xF000] {0x10E060} {0x10F048} ?v"
    using sl by (simp add: slots_ok_def small_vmm_def sizeof_VmRange_def sizeof_VmHole_def small_pages)
      (use one_bit(1) in \<open>force simp: slab_slots_def\<close>)
  with tr have ok: "vmm_ok 0x100000 (hat_pages small_hat) ?v ?TR ?TH [0xE000] [0xF000]" by (simp add: vmm_ok_def)
  show ?thesis
  proof (rule vmm_absI [OF ok])
    show "{0x12000..<0x20000} = free_addrs ?v ?TH" by (simp add: hole_ext_def small_vmm_def small_hole_def)
    fix a
    show "FindRange ?v a = Inr (if 0x10000 \<le> a \<and> a < 0x12000 then Some 0x10E060 else None)"
      using FindRange_exact [OF ok, of a] by (auto simp: holds_def) (auto simp: small_vmm_def small_range_def)
  qed
qed

lemma small_query: "qr_length (kernel_Query 0x800 (flags_of 25) 0xFEE00123) = 0x1000"
  by (simp add: kernel_Query_def Let_def flags_Has_def flags_of_def AlignUp_plain size_limit_def)

lemma small_driver: "GetDriver small_drivers (flags_of 25) = Some (kernel_driver demo_cfg demo_map)"
  by (simp add: GetDriver_def flags_Has_def flags_of_def small_drivers_def)

theorem vmm_alloc_refines_witness:
  "\<exists>res v' w' F' M'. vmm_Alloc hat_alloc 0x100000 small_drivers 0x800 0xFEE00123 (flags_of 25) 1 small_vmm small_hat = Inr (res, v', w') \<and>
     vmm_abs 0x100000 (hat_pages w') v' F' M' \<and>
     (case res of None \<Rightarrow> F' = {0x12000..<0x20000} | Some x \<Rightarrow> \<exists>b. {b..<b + 0x1000} \<subseteq> {0x12000..<0x20000} \<and> F' = {0x12000..<0x20000} - {b..<b + 0x1000})"
proof -
  have pre: "pagingLevels demo_cfg * (0x1000 div PageSize) + 4 \<le> hat_avail small_hat" "0 < (0x800 :: nat)" "0 < (0x1000 :: nat)"
    "(1 :: nat) \<le> 1 \<or> PageSize mod 1 = 0" by (simp_all add: small_ok(2) demo_simps)
  note t = vmm_alloc_refines [where len = "0x800" and arg = "0xFEE00123", OF small_abs small_ok(1) small_driver refl, unfolded small_query, OF pre]
  then obtain res v' w' F' M' where
    a: "vmm_Alloc hat_alloc 0x100000 small_drivers 0x800 0xFEE00123 (flags_of 25) 1 small_vmm small_hat = Inr (res, v', w')"
    "vmm_abs 0x100000 (hat_pages w') v' F' M'"
    and r: "case res of None \<Rightarrow> F' = {0x12000..<0x20000}
      | Some x \<Rightarrow> \<exists>b. {b..<b + 0x1000} \<subseteq> {0x12000..<0x20000} \<and> F' = {0x12000..<0x20000} - {b..<b + 0x1000}"
    by (elim exE conjE) (fastforce split: option.splits)
  then show ?thesis by (intro exI conjI)
qed

theorem vmm_free_refines_witness:
  "\<exists>v' w'. vmm_Free hat_alloc 0x100000 small_drivers 0x11000 small_vmm small_hat = Inr (True, v', w') \<and>
     FindRange v' 0x11000 = Inr None"
  using vmm_free_refines [where base = "0x11000" and p = "0x10E060" and r = small_range and ds = small_drivers, OF small_abs small_ok(1)] small_ok(2) small_driver
  by (auto simp: vmm_abs_def small_vmm_def small_range_def detach_limit_def size_limit_def Top_def sz_add_def)

subsection \<open>What device memory translates to\<close>

lemma low_bits: "(of_nat x :: u64) AND (GetPageSize 1 - 1) = of_nat (x mod PageSize)"
proof -
  have "(of_nat x :: u64) AND (GetPageSize 1 - 1) = take_bit 12 (of_nat x)"
    by (simp add: GetPageSize_def take_bit_eq_mask mask_eq_exp_minus_1)
  also have "\<dots> = of_nat (take_bit 12 x)" by (simp add: take_bit_of_nat)
  finally show ?thesis by (simp add: take_bit_eq_mod)
qed

lemma page_of:
  assumes "cfg_ok c" "page_run c b n" "x < PageSize * n"
  shows "x div PageSize < n" "agree c 1 (idx (b + PageSize * (x div PageSize))) (idx (b + x))"
proof -
  show "x div PageSize < n" using assms(3) by (simp add: div_less_iff_less_mult mult.commute)
  have lt: "b + PageSize * (x div PageSize) < size_limit" "b + x < size_limit" and d: "PageSize dvd b"
    using assms(2,3) mult_div_mod_eq [of PageSize x] by (auto simp: page_run_def)
  have "(b + PageSize * (x div PageSize)) div PageSize = (b + x) div PageSize"
    using d by (simp add: div_plus_div_distrib_dvd_left)
  then show "agree c 1 (idx (b + PageSize * (x div PageSize))) (idx (b + x))"
    using agree_nat [OF assms(1) lt] by (simp only:)
qed

text \<open>C14: attaching device memory to a range of pages that are not mapped returns, and every byte of the range
  then translates to the byte of the device at the same distance from the aligned address; every address outside
  the pages of the range translates as before.\<close>

theorem mmio_attach_translates:
  assumes "hat_inv c hmap hhdm st" "q = kernel_Query len flags arg" "rg_length r = qr_length q" "rg_length r = PageSize * n"
    "pagingLevels c * n \<le> hat_avail st" "page_run c (rg_base r) n"
    "\<forall>i < n. HatGetMap c (hs_mem st) (hm_root hmap) (of_nat (rg_base r + PageSize * i)) = None"
  shows "\<exists>result stats' st'. kernel_Attach c hmap r q arg stats st = Inr (result, stats', st') \<and>
    ar_success result \<and> ar_offset result = arg mod PageSize \<and> hat_inv c hmap hhdm st' \<and>
    (\<forall>x < rg_length r. HatGetMap c (hs_mem st') (hm_root hmap) (of_nat (rg_base r + x)) =
       Some ((of_nat (AlignDown arg PageSize + PageSize * (x div PageSize)) AND addrMask c) OR of_nat (x mod PageSize), 0)) \<and>
    (\<forall>a. (\<forall>i < n. \<not> agree c 1 (idx (rg_base r + PageSize * i)) (GetAddressIndices a)) \<longrightarrow>
       HatGetMap c (hs_mem st') (hm_root hmap) a = HatGetMap c (hs_mem st) (hm_root hmap) a)"
proof -
  let ?b = "rg_base r"
  have cf: "cfg_ok c" "1 \<le> modeCount c" using assms(1) by (auto simp: hat_inv_def cfg_ok_def)
  have free: "\<forall>i < n. hat_found c hmap st (idx (?b + PageSize * i)) = None" using assms(7) by (simp add: HatGetMap_found)
  obtain st' where a: "kernel_Attach c hmap r q arg stats st =
      Inr (\<lparr> ar_token = 0, ar_offset = arg mod PageSize, ar_success = True \<rparr>,
           stats\<lparr> st_mmioWorkingSize := sz_add (st_mmioWorkingSize stats) (rg_length r) \<rparr>, st')"
    "hat_drawn c hmap hhdm (pagingLevels c * n) st st'" "sets_pages c hmap ?b n (mmio_entry c (rg_flags r) arg) st st'"
    using kernel_Attach_ok [OF assms(1-5)] assms(6) free by blast
  have "HatGetMap c (hs_mem st') (hm_root hmap) (of_nat (?b + x)) =
      Some ((of_nat (AlignDown arg PageSize + PageSize * (x div PageSize)) AND addrMask c) OR of_nat (x mod PageSize), 0)"
    if "x < rg_length r" for x
  proof -
    have x: "x div PageSize < n" "agree c 1 (idx (?b + PageSize * (x div PageSize))) (idx (?b + x))"
      using page_of [OF cf(1) assms(6)] that assms(4) by simp_all
    have "(?b + x) mod PageSize = x mod PageSize" using assms(6) by (auto simp: page_run_def mod_add_eq [symmetric])
    moreover have "hat_found c hmap st' (idx (?b + x)) = mmio_entry c (rg_flags r) arg (x div PageSize)"
      using a(3) x by (simp only: sets_pages_def)
    ultimately show ?thesis
      by (simp only: HatGetMap_found mmio_entry_def option.map prod.case low_bits final_pte_facts(1) [OF cf(1) order_refl cf(2)]) simp
  qed
  moreover have "HatGetMap c (hs_mem st') (hm_root hmap) v = HatGetMap c (hs_mem st) (hm_root hmap) v"
    if "\<forall>i < n. \<not> agree c 1 (idx (?b + PageSize * i)) (GetAddressIndices v)" for v
    using a(3) that by (simp only: sets_pages_def HatGetMap_found)
  ultimately show ?thesis using a(1,2) unfolding drawn_def by auto
qed

text \<open>Attaching device memory to pages that are not mapped and detaching it again leaves the translation
  of every address as it was.\<close>

lemma mmio_attach_detach:
  assumes "hat_inv c hmap hhdm st" "q = kernel_Query len flags arg" "rg_length r = qr_length q" "rg_length r = PageSize * n"
    "pagingLevels c * n \<le> hat_avail st" "page_run c (rg_base r) n" "rg_base r + rg_length r \<le> detach_limit"
    "\<forall>i < n. HatGetMap c (hs_mem st) (hm_root hmap) (of_nat (rg_base r + PageSize * i)) = None"
  shows "\<exists>result stats1 st1 stats2 st2. kernel_Attach c hmap r q arg stats st = Inr (result, stats1, st1) \<and>
    kernel_Detach c hmap r stats1 st1 = Inr (True, stats2, st2) \<and> hat_inv c hmap hhdm st2 \<and>
    (\<forall>a. HatGetMap c (hs_mem st2) (hm_root hmap) a = HatGetMap c (hs_mem st) (hm_root hmap) a)"
proof -
  let ?b = "rg_base r"
  have free: "\<forall>i < n. hat_found c hmap st (idx (?b + PageSize * i)) = None" using assms(8) by (simp add: HatGetMap_found)
  have cf: "cfg_ok c" using assms(1) by (simp add: hat_inv_def)
  obtain result stats1 st1 where a: "kernel_Attach c hmap r q arg stats st = Inr (result, stats1, st1)"
    "hat_inv c hmap hhdm st1" "sets_pages c hmap ?b n (mmio_entry c (rg_flags r) arg) st st1"
    using kernel_Attach_ok [OF assms(1-5)] assms(6) free unfolding drawn_def by blast
  have one: "\<forall>i < n. \<forall>e l. hat_found c hmap st1 (idx (?b + PageSize * i)) = Some (e, l) \<longrightarrow> l = 1"
    using a(3) unfolding sets_pages_def mmio_entry_def by (auto simp: agree_def)
  obtain stats2 st2 where d: "kernel_Detach c hmap r stats1 st1 = Inr (True, stats2, st2)" "hat_inv c hmap hhdm st2"
    "sets_pages c hmap ?b n (\<lambda>_. None) st1 st2"
    using kernel_Detach_ok [OF a(2) assms(7), of stats1 n] assms(4,6) one by blast
  have "hat_found c hmap st2 ind = hat_found c hmap st ind" for ind
  proof (cases "\<exists>i < n. agree c 1 (idx (?b + PageSize * i)) ind")
    case True
    then obtain i where i: "i < n" "agree c 1 (idx (?b + PageSize * i)) ind" by blast
    then have "hat_found c hmap st2 ind = None" using d(3) by (simp only: sets_pages_def)
    also have "\<dots> = hat_found c hmap st ind" using free i found_cong [OF i(2)] by metis
    finally show ?thesis .
  next
    case False
    then show ?thesis using a(3) d(3) by (simp only: sets_pages_def) metis
  qed
  then show ?thesis using a(1) d(1,2) by (auto simp: HatGetMap_found)
qed

definition mmio_range :: vm_range where
  "mmio_range = \<lparr> rg_base = 0x400000, rg_length = 0x1000, rg_flags = flags_of 25, rg_offset = 0, rg_token = 0, rg_mdlCount = 0 \<rparr>"

lemma mmio_range_ok:
  "rg_length mmio_range = qr_length (kernel_Query 0x800 (flags_of 25) 0xFEE00123)" "rg_length mmio_range = PageSize * 1"
  "pagingLevels demo_cfg * 1 \<le> hat_avail small_hat" "page_run demo_cfg (rg_base mmio_range) 1"
  "\<forall>i < 1. HatGetMap demo_cfg (hs_mem small_hat) (hm_root demo_map) (of_nat (rg_base mmio_range + PageSize * i)) = None"
  "rg_base mmio_range + rg_length mmio_range \<le> detach_limit"
  by (simp_all only: small_query small_ok demo_simps)
    (simp_all add: mmio_range_def page_run_def span_def demo_simps size_limit_def dvd_def HatGetMap_def WalkTables_def demo_walk small_hat_def detach_limit_def)

theorem mmio_attach_translates_witness:
  "\<exists>result stats' st'. kernel_Attach demo_cfg demo_map mmio_range (kernel_Query 0x800 (flags_of 25) 0xFEE00123) 0xFEE00123 (vm_stats small_vmm) small_hat =
       Inr (result, stats', st') \<and> ar_offset result = 0x123 \<and>
     HatGetMap demo_cfg (hs_mem st') 0x1000 0x400123 = Some (0xFEE00123, 0)"
proof -
  have d: "AlignDown 0xFEE00123 PageSize = 0xFEE00000" by (simp add: AlignDown_plain size_limit_def)
  obtain result stats' st' where a: "kernel_Attach demo_cfg demo_map mmio_range (kernel_Query 0x800 (flags_of 25) 0xFEE00123) 0xFEE00123 (vm_stats small_vmm) small_hat =
       Inr (result, stats', st')" "ar_offset result = 0xFEE00123 mod PageSize"
    "\<forall>x < rg_length mmio_range. HatGetMap demo_cfg (hs_mem st') (hm_root demo_map) (of_nat (rg_base mmio_range + x)) =
       Some ((of_nat (AlignDown 0xFEE00123 PageSize + PageSize * (x div PageSize)) AND addrMask demo_cfg) OR of_nat (x mod PageSize), 0)"
    using mmio_attach_translates [OF small_ok(1) refl mmio_range_ok(1-5), of "vm_stats small_vmm"] by blast
  moreover from a(3) [rule_format, of "0x123"] have "HatGetMap demo_cfg (hs_mem st') 0x1000 0x400123 = Some (0xFEE00123, 0)"
    by (simp add: mmio_range_def demo_simps d)
  ultimately show ?thesis by auto
qed

lemma mmio_attach_detach_example:
  "\<exists>result stats1 st1 stats2 st2. kernel_Attach demo_cfg demo_map mmio_range (kernel_Query 0x800 (flags_of 25) 0xFEE00123) 0xFEE00123 (vm_stats small_vmm) small_hat =
       Inr (result, stats1, st1) \<and> kernel_Detach demo_cfg demo_map mmio_range stats1 st1 = Inr (True, stats2, st2) \<and>
     HatGetMap demo_cfg (hs_mem st2) 0x1000 0x400123 = None"
proof -
  have "HatGetMap demo_cfg (hs_mem small_hat) (hm_root demo_map) 0x400123 = None"
    by (simp add: HatGetMap_def WalkTables_def demo_simps demo_walk small_hat_def)
  with mmio_attach_detach [OF small_ok(1) refl mmio_range_ok(1-4,6,5), of "vm_stats small_vmm"] show ?thesis
    by (auto simp: demo_simps)
qed

subsection \<open>First fit\<close>

text \<open>C31: in a tree of holes whose nodes all pass \<open>VmHoleAggregator::CheckInvariant\<close>, the search of \<open>Alloc\<close>
  returns the first hole in the order of the addresses that is long enough, and nothing when there is none.\<close>

theorem hole_search_first_fit:
  assumes "rb_rep t T" "rb_root t = Some n" "\<forall>a \<in> set (inord T). hole_CheckInvariant t a" "0 < len"
  shows "hole_search t len n = Some (find (\<lambda>h. len \<le> ho_length (rb_data t h)) (inord T))"
proof -
  have z: "zip_ok t T []" using assms(1) by (simp add: rb_rep_def)
  then have "ptr T = Some n" using assms(2) by (simp add: zip_ok_def)
  then obtain c l r where T: "T = Bin c l n r" by (cases T) auto
  show ?thesis
    using hole_search_exact [of t c l n r "[]" len] check_augmented [OF z assms(3)] z assms(4) by (simp add: T)
qed

theorem hole_search_first_fit_witness:
  "hole_search (vm_holes small_vmm) 0x3000 0x10F048 = Some (Some 0x10F048)"
proof -
  have rep: "rb_rep (vm_holes small_vmm) (Bin Black Tip 0x10F048 Tip)"
    by (simp add: small_vmm_def rb_rep_def zip_ok_def rb_ok_def lone_hook_def hd_or_def)
  have "hole_CheckInvariant (vm_holes small_vmm) 0x10F048"
    by (simp add: hole_CheckInvariant_def small_vmm_def lone_hook_def subtree_hole_def small_hole_def)
  then show ?thesis
    using hole_search_first_fit [OF rep, of "0x10F048" "0x3000"] by (simp add: small_vmm_def small_hole_def)
qed

end
