(* ===== verification/Vmm_Object.thy ===== *)
theory Vmm_Object
  imports Vmm_Mmio
begin

text \<open>
  The rest of \<open>kernel/memory/Vmm.cpp\<close> and \<open>kernel/memory/VmObject.cpp\<close>: making and destroying a manager, copying
  between address spaces, pinned memory and the objects that own a range. A manager here is its state, its
  map of the page tables and its drivers. The contents of memory are not modelled: the functions that copy return
  the list of the copies they make, each with the offset in the local buffer, the physical address and the length.
\<close>

subsection \<open>Making a manager\<close>

definition vmm_user_init ::
  "u32 \<Rightarrow> size_t \<Rightarrow> vmm \<Rightarrow> pmm hat_state \<Rightarrow> (vmm \<times> hat_map \<times> pmm hat_state) res" where
  "vmm_user_init garbage hhdmBase v st =
     (let granuleSize = granularity 0;
          v = v\<lparr> vm_lower := granuleSize, vm_upper := sz_sub (size_limit - 1 - hhdmBase) granuleSize \<rparr>
      in res_bind (CommonInit hat_alloc hhdmBase v st) (\<lambda>(v, st).
           res_bind (HatCreateMap pmm_alloc garbage st) (\<lambda>(m, st). Inr (v, m, st))))"

text \<open>The ranges of the kernel image are static objects at the given addresses.\<close>

definition insert_kernel_range :: "size_t \<times> vm_range \<Rightarrow> vmm \<Rightarrow> vmm res" where
  "insert_kernel_range = (\<lambda>(p, r) v. ranges_Insert p (v\<lparr> vm_ranges := construct p r (vm_ranges v) \<rparr>))"

definition vmm_kernel_init ::
  "hat_map \<Rightarrow> kernel_image \<Rightarrow> size_t \<Rightarrow> size_t \<Rightarrow> (size_t \<times> vm_range) list \<Rightarrow> vmm \<Rightarrow> pmm hat_state \<Rightarrow>
   (vmm \<times> hat_map \<times> pmm hat_state) res" where
  "vmm_kernel_init kmap ki hhdmBase hhdmLength kernelRanges v st =
     (let v = v\<lparr> vm_lower := sz_add hhdmBase hhdmLength, vm_upper := AlignUp (ki_blobEnd ki) (granularity 0) \<rparr>
      in res_bind (CommonInit hat_alloc hhdmBase v st) (\<lambda>(v, st).
           let (m, st, _) = HatMakeActive kmap kmap st
           in res_bind (res_fold insert_kernel_range kernelRanges v) (\<lambda>v. Inr (v, m, st))))"

definition vmm_InitKernel ::
  "u64 \<Rightarrow> bool \<Rightarrow> bool \<Rightarrow> bool \<Rightarrow> kernel_image \<Rightarrow> size_t \<Rightarrow> size_t \<Rightarrow> size_t \<Rightarrow> size_t list \<Rightarrow> vmm \<Rightarrow> pmm hat_state \<Rightarrow>
   (hat_cfg \<times> anon_state \<times> vmm \<times> hat_map \<times> pmm hat_state) res" where
  "vmm_InitKernel cr4 pml3 nx globalPages ki hhdmBase hhdmLength old rangeAddrs v st =
     res_bind (HatInit pmm_alloc cr4 pml3 nx globalPages (of_nat hhdmBase) hhdmLength st) (\<lambda>(c, kmap, hhdmLength, st).
     res_bind (InitAll c kmap ki old st) (\<lambda>(d, rs, st).
     res_bind (vmm_kernel_init kmap ki hhdmBase hhdmLength (zip rangeAddrs rs) v st) (\<lambda>(v, m, st).
       Inr (c, d, v, m, st))))"

subsection \<open>Destroying a manager\<close>

partial_function (option) teardown_ranges ::
  "('s \<Rightarrow> (size_t \<times> 's) res) \<Rightarrow> size_t \<Rightarrow> 's vm_drivers \<Rightarrow> vmm \<Rightarrow> 's \<Rightarrow> (vmm \<times> 's) res option" where
  "teardown_ranges palloc hhdm ds v w =
     (case rb_root (vm_ranges v) of None \<Rightarrow> Some (Inr (v, w))
      | Some p \<Rightarrow>
          (case vmm_Free palloc hhdm ds (rg_base (rb_data (vm_ranges v) p)) v w of
             Inl e \<Rightarrow> Some (Inl e) | Inr (_, v, w) \<Rightarrow> teardown_ranges palloc hhdm ds v w))"

partial_function (option) teardown_holes :: "size_t \<Rightarrow> vmm \<Rightarrow> (size_t \<times> vmm) res option" where
  "teardown_holes holesFreed v =
     (case rb_root (vm_holes v) of None \<Rightarrow> Some (Inr (holesFreed, v))
      | Some h \<Rightarrow>
          (case holes_Remove h v of Inl e \<Rightarrow> Some (Inl e)
           | Inr v \<Rightarrow> (case free_hole h v of Inl e \<Rightarrow> Some (Inl e) | Inr v \<Rightarrow> teardown_holes (sz_add holesFreed 1) v)))"

definition ends :: "'a res option \<Rightarrow> 'a res" where
  "ends r = (case r of None \<Rightarrow> Inl Diverges | Some x \<Rightarrow> x)"

text \<open>
  The end of the destructor: the loops over the slabs call \<open>DestroyMetaSlab\<close> until it returns false, and then
  the tables are freed. The result is the list of the pages the tables hand back.
\<close>

definition vmm_destroy ::
  "hat_cfg \<Rightarrow> hat_map \<Rightarrow> size_t \<Rightarrow> pmm hat_state vm_drivers \<Rightarrow> vmm \<Rightarrow> pmm hat_state \<Rightarrow> (u64 list option \<times> pmm hat_state) res" where
  "vmm_destroy c m hhdm ds v w =
     (if hm_is_kernel m then Inl Assert_Failed
      else res_bind (ends (teardown_ranges hat_alloc hhdm ds v w)) (\<lambda>(v, w).
           res_bind (ends (teardown_holes 0 v)) (\<lambda>(_, v).
           res_bind (DestroyMetaSlab (vm_rangeSlabs v)) (\<lambda>more.
           if more then Inl Diverges
           else res_bind (DestroyMetaSlab (vm_holeSlabs v)) (\<lambda>more.
             if more then Inl Diverges
             else Inr (HatDestroyMap (Suc (pagingLevels c)) c (hs_mem w) (Some m), w))))))"

definition vmm_MakeActive :: "hat_map \<Rightarrow> hat_map \<Rightarrow> pmm hat_state \<Rightarrow> hat_map \<times> pmm hat_state \<times> u64" where
  "vmm_MakeActive kmap m st = HatMakeActive kmap m st"

subsection \<open>Copying\<close>

definition vmm_GetPhysical :: "hat_cfg \<Rightarrow> hat_map \<Rightarrow> size_t \<Rightarrow> 's hat_state \<Rightarrow> u64 option" where
  "vmm_GetPhysical c m vaddr st = map_option fst (HatGetMap c (hs_mem st) (hm_root m) (of_nat vaddr))"

text \<open>
  The loop of \<open>CopyIn\<close>. Reading an empty \<open>Opt\<close> is \<open>Null_Deref\<close>.
\<close>

type_synonym copies = "(size_t \<times> u64 \<times> size_t) list"

partial_function (option) copy_in_loop ::
  "hat_cfg \<Rightarrow> hat_map \<Rightarrow> 's hat_state vm_drivers \<Rightarrow> size_t \<Rightarrow> size_t \<Rightarrow> size_t \<Rightarrow> copies \<Rightarrow> vmm \<Rightarrow> 's hat_state \<Rightarrow>
   (size_t \<times> copies \<times> vmm \<times> 's hat_state) res option" where
  "copy_in_loop c m ds foreign len cnt cs v w =
     (if \<not> cnt < len then Some (Inr (cnt, cs, v, w))
      else
        let addr = sz_add foreign cnt;
            n = Min PageSize (sz_sub len cnt);
            copyLength = (if cnt = 0 then Min n (sz_sub PageSize (foreign mod PageSize)) else n)
        in case vmm_GetPhysical c m addr w of
             Some phys \<Rightarrow> copy_in_loop c m ds foreign len (sz_add cnt copyLength) (cs @ [(cnt, phys, copyLength)]) v w
           | None \<Rightarrow>
               (case vmm_HandleFault ds addr (flags_of (vm_fault_index FaultWrite)) v w of
                  Inl e \<Rightarrow> Some (Inl e)
                | Inr (good, v, w) \<Rightarrow>
                    if \<not> good then Some (Inr (cnt, cs, v, w))
                    else (case vmm_GetPhysical c m addr w of None \<Rightarrow> Some (Inl Null_Deref)
                          | Some phys \<Rightarrow> copy_in_loop c m ds foreign len (sz_add cnt copyLength)
                              (cs @ [(cnt, phys, copyLength)]) v w)))"

definition vmm_CopyIn ::
  "hat_cfg \<Rightarrow> hat_map \<Rightarrow> 's hat_state vm_drivers \<Rightarrow> size_t \<Rightarrow> size_t \<Rightarrow> vmm \<Rightarrow> 's hat_state \<Rightarrow>
   (size_t \<times> copies \<times> vmm \<times> 's hat_state) res" where
  "vmm_CopyIn c m ds foreign len v w =
     res_bind (vmm_MemoryExists foreign len None v) (\<lambda>exist.
       if \<not> exist then Inr (0, [], v, w) else ends (copy_in_loop c m ds foreign len 0 [] v w))"

text \<open>The loop of \<open>CopyOut\<close>: \<open>local\<close> moves on, \<open>count\<close> does not.\<close>

partial_function (option) copy_out_loop ::
  "hat_cfg \<Rightarrow> hat_map \<Rightarrow> 's hat_state \<Rightarrow> size_t \<Rightarrow> size_t \<Rightarrow> size_t \<Rightarrow> size_t \<Rightarrow> copies \<Rightarrow> (size_t \<times> copies) option" where
  "copy_out_loop c m w foreign len cnt loc cs =
     (if \<not> cnt < len then Some (cnt, cs)
      else case vmm_GetPhysical c m (sz_add foreign cnt) w of
             None \<Rightarrow> Some (cnt, cs)
           | Some phys \<Rightarrow>
               let copyLength = (if cnt = 0 then sz_sub (AlignUp foreign PageSize) foreign else Min PageSize (sz_sub len cnt))
               in copy_out_loop c m w foreign len cnt (sz_add loc copyLength) (cs @ [(loc, phys, copyLength)]))"

definition vmm_CopyOut :: "hat_cfg \<Rightarrow> hat_map \<Rightarrow> 's hat_state \<Rightarrow> size_t \<Rightarrow> size_t \<Rightarrow> (size_t \<times> copies) res" where
  "vmm_CopyOut c m w foreign len =
     (case copy_out_loop c m w foreign len 0 0 [] of None \<Rightarrow> Inl Diverges | Some r \<Rightarrow> Inr r)"

subsection \<open>Memory descriptor lists\<close>

record mdl_ptr =
  mp_length :: size_t
  mp_physAddr :: u64

record mdl =
  md_base :: size_t
  md_length :: size_t
  md_ptrs :: "mdl_ptr list"

partial_function (option) mdl_loop ::
  "hat_cfg \<Rightarrow> hat_map \<Rightarrow> 's hat_state vm_drivers \<Rightarrow> size_t \<Rightarrow> size_t \<Rightarrow> size_t \<Rightarrow> mdl_ptr list \<Rightarrow> vmm \<Rightarrow> 's hat_state \<Rightarrow>
   (mdl_ptr list \<times> vmm \<times> 's hat_state) res option" where
  "mdl_loop c m ds base len scan ptrs v w =
     (if \<not> scan < sz_add base len then Some (Inr (ptrs, v, w))
      else
        (case (case HatGetMap c (hs_mem w) (hm_root m) (of_nat scan) of
                 Some r \<Rightarrow> Inr (Some r, v, w)
               | None \<Rightarrow> (case vmm_HandleFault ds scan (flags_of (vm_fault_index FaultWrite)) v w of
                            Inl e \<Rightarrow> Inl e
                          | Inr (good, v, w) \<Rightarrow>
                              if \<not> good then Inl Assert_Failed
                              else Inr (HatGetMap c (hs_mem w) (hm_root m) (of_nat scan), v, w))) of
           Inl e \<Rightarrow> Some (Inl e)
         | Inr (None, v, w) \<Rightarrow> Some (Inl Assert_Failed)
         | Inr (Some (phys, mode), v, w) \<Rightarrow>
             let n = Min (granularity mode) (sz_sub (sz_add len base) scan)
             in mdl_loop c m ds base len (sz_add scan n) (ptrs @ [\<lparr> mp_length = n, mp_physAddr = phys \<rparr>]) v w))"

definition vmm_AcquireMdl ::
  "hat_cfg \<Rightarrow> hat_map \<Rightarrow> 's hat_state vm_drivers \<Rightarrow> size_t \<Rightarrow> size_t \<Rightarrow> vmm \<Rightarrow> 's hat_state \<Rightarrow>
   (mdl option \<times> vmm \<times> 's hat_state) res" where
  "vmm_AcquireMdl c m ds base len v w =
     res_bind (FindRange v base) (\<lambda>found.
       case found of None \<Rightarrow> Inr (None, v, w)
       | Some p \<Rightarrow>
         if len = 0 then Inr (None, v, w)
         else
           let r = rb_data (vm_ranges v) p;
               len = sz_sub (Min (sz_add base len) (sz_add (rg_base r) (rg_length r))) base;
               v = set_range p (r\<lparr> rg_mdlCount := sz_add (rg_mdlCount r) 1 \<rparr>) v
           in res_bind (ends (mdl_loop c m ds base len base [] v w)) (\<lambda>(ptrs, v, w).
                Inr (Some \<lparr> md_base = base, md_length = len, md_ptrs = ptrs \<rparr>, v, w)))"

subsection \<open>Virtual memory objects\<close>

record vm_object =
  vo_base :: size_t
  vo_size :: size_t

definition vmo_none :: vm_object where
  "vmo_none = \<lparr> vo_base = 0, vo_size = 0 \<rparr>"

definition vmo_new ::
  "('s \<Rightarrow> (size_t \<times> 's) res) \<Rightarrow> size_t \<Rightarrow> 's vm_drivers \<Rightarrow> size_t \<Rightarrow> size_t \<Rightarrow> vm_flags \<Rightarrow> size_t \<Rightarrow> vmm \<Rightarrow> 's \<Rightarrow>
   (vm_object \<times> vmm \<times> 's) res" where
  "vmo_new palloc hhdm ds len initArg flags alignment v w =
     res_bind (vmm_Alloc palloc hhdm ds len initArg flags alignment v w) (\<lambda>(maybeBase, v, w).
       case maybeBase of None \<Rightarrow> Inr (vmo_none, v, w) | Some b \<Rightarrow> Inr (\<lparr> vo_base = b, vo_size = len \<rparr>, v, w))"

text \<open>The move constructor starts from an empty object, the assignment from the target.\<close>

definition vmo_swap :: "vm_object \<Rightarrow> vm_object \<Rightarrow> vm_object \<times> vm_object" where
  "vmo_swap this from = (from, this)"

definition vmo_Release ::
  "('s \<Rightarrow> (size_t \<times> 's) res) \<Rightarrow> size_t \<Rightarrow> 's vm_drivers \<Rightarrow> vm_object \<Rightarrow> vmm \<Rightarrow> 's \<Rightarrow> (vm_object \<times> vmm \<times> 's) res" where
  "vmo_Release palloc hhdm ds this v w =
     res_bind (if vo_base this \<noteq> 0 then vmm_Free palloc hhdm ds (vo_base this) v w else Inr (True, v, w))
       (\<lambda>(_, v, w). Inr (vmo_none, v, w))"

definition vmo_Flags ::
  "'s vm_drivers \<Rightarrow> vm_object \<Rightarrow> vm_flags option \<Rightarrow> vmm \<Rightarrow> 's \<Rightarrow> (vm_flags \<times> vmm \<times> 's) res" where
  "vmo_Flags ds this flags v w =
     res_bind (case flags of None \<Rightarrow> Inr (True, v, w) | Some f \<Rightarrow> vmm_SetFlags ds (vo_base this) f v w) (\<lambda>(_, v, w).
     res_bind (vmm_GetFlags (vo_base this) (vo_size this) v) (\<lambda>maybeFlags.
       Inr ((case maybeFlags of None \<Rightarrow> 0 | Some f \<Rightarrow> f), v, w)))"

text \<open>The result is the new object, what is left of this one, and the state.\<close>

definition vmo_Subdivide ::
  "('s \<Rightarrow> (size_t \<times> 's) res) \<Rightarrow> size_t \<Rightarrow> 's vm_drivers \<Rightarrow> vm_object \<Rightarrow> size_t \<Rightarrow> bool \<Rightarrow> vmm \<Rightarrow> 's \<Rightarrow>
   (vm_object \<times> vm_object \<times> vmm \<times> 's) res" where
  "vmo_Subdivide palloc hhdm ds this len fromStart v w =
     (if len > vo_size this then Inr (vmo_none, this, v, w)
      else res_bind (vmm_Split palloc hhdm ds (vo_base this) (if fromStart then len else sz_sub (vo_size this) len) v w)
        (\<lambda>(maybeSplit, v, w).
          case maybeSplit of None \<Rightarrow> Inr (vmo_none, this, v, w)
          | Some split \<Rightarrow>
              let other = (if fromStart then \<lparr> vo_base = vo_base this, vo_size = split \<rparr>
                           else \<lparr> vo_base = sz_add (vo_base this) split, vo_size = split \<rparr>);
                  base = (if fromStart then sz_add (vo_base this) (vo_size other) else vo_base this);
                  size' = sz_sub (vo_size this) (vo_size other)
              in Inr (other, \<lparr> vo_base = (if size' = 0 then 0 else base), vo_size = size' \<rparr>, v, w)))"

subsection \<open>What goes wrong\<close>

text \<open>No manager can be destroyed: the destructor runs into the stub of \<open>DestroyMetaSlab\<close> unless something else stops it before.\<close>

lemma vmm_destroy_never_returns: "vmm_destroy c m hhdm ds v w \<noteq> Inr x"
  by (auto simp: vmm_destroy_def DestroyMetaSlab_def res_bind_Inr)

text \<open>\<open>CopyOut\<close> never returns when its first byte is mapped.\<close>

lemma copy_out_loop_stuck:
  "copy_out_loop c m w foreign len cnt loc cs = Some r \<Longrightarrow> cnt < len \<longrightarrow> vmm_GetPhysical c m (sz_add foreign cnt) w = None"
proof (rule copy_out_loop.raw_induct [of "\<lambda>c m w foreign len cnt loc cs r. cnt < len \<longrightarrow> vmm_GetPhysical c m (sz_add foreign cnt) w = None"])
  fix loop c m w foreign len cnt loc cs r
  assume IH: "\<And>c m w foreign len cnt loc cs r. loop c m w foreign len cnt loc cs = Some r \<Longrightarrow>
      cnt < len \<longrightarrow> vmm_GetPhysical c m (sz_add foreign cnt) w = None"
    and "(if \<not> cnt < len then Some (cnt, cs)
      else case vmm_GetPhysical c m (sz_add foreign cnt) w of
             None \<Rightarrow> Some (cnt, cs)
           | Some phys \<Rightarrow>
               let copyLength = (if cnt = 0 then sz_sub (AlignUp foreign PageSize) foreign else Min PageSize (sz_sub len cnt))
               in loop c m w foreign len cnt (sz_add loc copyLength) (cs @ [(loc, phys, copyLength)])) = Some r"
  then show "cnt < len \<longrightarrow> vmm_GetPhysical c m (sz_add foreign cnt) w = None"
    by (auto simp: Let_def split: if_splits option.splits)
qed

lemma CopyOut_diverges:
  "0 < len \<Longrightarrow> vmm_GetPhysical c m foreign w = Some phys \<Longrightarrow> foreign < size_limit \<Longrightarrow> vmm_CopyOut c m w foreign len = Inl Diverges"
  using copy_out_loop_stuck [of c m w foreign len 0 0 "[]"] by (fastforce simp: vmm_CopyOut_def sz_add_def split: option.split)

text \<open>The anonymous driver detaches only the first page of a range: for a range backed by the page of
  zeroes \<open>Detach\<close> reports success, the first page is unmapped and every other page translates as before.\<close>

lemma anon_detach_leaves_pages:
  assumes "hat_inv c hmap hhdm st" "page_run c (rg_base r) n" "rg_length r = PageSize * n" "0 < n"
    "HatGetMap c (hs_mem st) (hm_root hmap) (of_nat (rg_base r)) = Some (of_nat (an_zeroPage d), 0)" "an_zeroPage d < size_limit"
  shows "\<exists>stats' st'. anon_Detach c hmap d r stats st = Inr (True, stats', st') \<and>
    HatGetMap c (hs_mem st') (hm_root hmap) (of_nat (rg_base r)) = None \<and>
    (\<forall>i. 0 < i \<and> i < n \<longrightarrow> HatGetMap c (hs_mem st') (hm_root hmap) (of_nat (rg_base r + PageSize * i)) =
       HatGetMap c (hs_mem st) (hm_root hmap) (of_nat (rg_base r + PageSize * i)))"
proof -
  let ?b = "rg_base r"
  let ?P = "\<lambda>j (stats', s). if j = 0 then s = st else hat_inv c hmap hhdm s \<and>
    (\<forall>ind. hat_found c hmap s ind = (if agree c 1 (idx ?b) ind then None else hat_found c hmap st ind))"
  have cf: "cfg_ok c" using assms(1) by (simp add: hat_inv_def)
  have "?b mod PageSize = 0" using assms(2) by (auto simp: page_run_def)
  then have low: "(of_nat ?b :: u64) AND (GetPageSize 1 - 1) = 0" by (simp only: low_bits) simp
  obtain e where e: "hat_found c hmap st (idx ?b) = Some (e, 1)" "e AND addrMask c = of_nat (an_zeroPage d)"
  proof -
    obtain e l where f: "hat_found c hmap st (idx ?b) = Some (e, l)" "l - 1 = 0"
      "(e AND addrMask c) OR (of_nat ?b AND (GetPageSize l - 1)) = of_nat (an_zeroPage d)"
      using assms(5) by (auto simp: HatGetMap_found)
    moreover have "1 \<le> l" using unmap_ok [OF assms(1), of ?b] f(1) by auto
    ultimately have "l = 1" by simp
    with f low show ?thesis by (intro that [of e]) auto
  qed
  have zp: "unat (of_nat (an_zeroPage d) :: u64) = an_zeroPage d"
    using assms(6) by (simp add: size_limit_def unat_of_nat take_bit_nat_eq_self)
  have step: "\<exists>x'. anon_detach_step c hmap d r (PageSize * j) x = Inr (sz_add (PageSize * j) PageSize, x') \<and> ?P (Suc j) x'"
    if j: "j < n" and P: "?P j x" for j x
  proof -
    obtain stats' s where x: "x = (stats', s)" by (cases x)
    show ?thesis
    proof (cases "j = 0")
      case True
      then have s: "s = st" using P x by simp
      obtain s' where u: "HatDoUnmap c hmap (of_nat ?b) st = (Some (of_nat (an_zeroPage d), 0), s')" "hat_inv c hmap hhdm s'"
        "\<forall>ind. hat_found c hmap s' ind = (if agree c 1 (idx ?b) ind then None else hat_found c hmap st ind)"
        using unmap_ok [OF assms(1), of ?b] e by auto
      then show ?thesis by (simp add: anon_detach_step_def x s zp Let_def)
    next
      case False
      then have s: "hat_inv c hmap hhdm s" "hat_found c hmap s (idx ?b) = None"
        "\<forall>ind. hat_found c hmap s ind = (if agree c 1 (idx ?b) ind then None else hat_found c hmap st ind)"
        using P x by (simp_all add: agree_def)
      then have "HatDoUnmap c hmap (of_nat ?b) s = (None, s)" using unmap_ok [OF s(1), of ?b] by auto
      then show ?thesis using s by (simp add: anon_detach_step_def x)
    qed
  qed
  let ?stats = "stats\<lparr> st_anonWorkingSize := sz_sub (st_anonWorkingSize stats) (sz_sub (rg_length r) (rg_offset r)) \<rparr>"
  have start: "?P 0 (?stats, st)" by simp
  have lim: "PageSize * n < size_limit" using assms(2) by (simp add: page_run_def)
  have "\<exists>x. run_loop (anon_detach_step c hmap d r) (PageSize * n) 0 (?stats, st) = Inr x \<and> ?P n x"
    by (rule run_loop_pages [where P = ?P]) (fact step, fact start, simp, fact lim)
  then obtain stats' s where d: "run_loop (anon_detach_step c hmap d r) (PageSize * n) 0 (?stats, st) = Inr (stats', s)"
    "\<forall>ind. hat_found c hmap s ind = (if agree c 1 (idx ?b) ind then None else hat_found c hmap st ind)"
    using assms(4) by auto
  have "\<not> agree c 1 (idx ?b) (idx (?b + PageSize * i))" if "0 < i" "i < n" for i
    using agree_pages [OF cf, of ?b n 0 i] assms(2,4) that by (simp add: page_run_def)
  then have "hat_found c hmap s (idx (?b + PageSize * i)) = hat_found c hmap st (idx (?b + PageSize * i))" if "0 < i" "i < n" for i
    using d(2) that by metis
  moreover have "hat_found c hmap s (idx ?b) = None" using d(2) by (simp add: agree_def)
  ultimately show ?thesis using d(1) assms(3)
    by (intro exI [of _ stats'] exI [of _ s]) (simp add: anon_Detach_def Let_def HatGetMap_found del: of_nat_add of_nat_mult)
qed

definition zero_range :: vm_range where
  "zero_range = \<lparr> rg_base = 0x400000, rg_length = 0x2000, rg_flags = flags_of 24, rg_offset = 0, rg_token = 0, rg_mdlCount = 0 \<rparr>"

definition zero_anon :: anon_state where
  "zero_anon = \<lparr> an_zeroPage = 0xE000, an_faultHandler = True, an_useZeroPage = True \<rparr>"

lemma anon_detach_leaves_pages_example:
  "\<exists>st1 st2 stats st3. map_page demo_cfg demo_map 0x400000 0xE000 0 0 small_hat = Inr st1 \<and>
     map_page demo_cfg demo_map 0x401000 0xE000 0 0 st1 = Inr st2 \<and>
     anon_Detach demo_cfg demo_map zero_anon zero_range (vm_stats small_vmm) st2 = Inr (True, stats, st3) \<and>
     HatGetMap demo_cfg (hs_mem st3) 0x1000 0x400000 = None \<and> HatGetMap demo_cfg (hs_mem st3) 0x1000 0x401000 = Some (0xE000, 0)"
proof -
  let ?c = demo_cfg and ?m = demo_map
  have run: "page_run ?c 0x400000 2" by (simp add: page_run_def span_def demo_simps size_limit_def dvd_def)
  have ag: "agree ?c 1 (idx 0x400000) (idx 0x400000)" "agree ?c 1 (idx 0x401000) (idx 0x401000)"
    "\<not> agree ?c 1 (idx 0x400000) (idx 0x401000)" "\<not> agree ?c 1 (idx 0x401000) (idx 0x400000)"
    using agree_pages [OF demo_ok(1), of "0x400000" 2 0 1] agree_pages [OF demo_ok(1), of "0x400000" 2 1 0] run
    by (simp_all add: page_run_def agree_def)
  have none: "hat_found ?c ?m small_hat ind = None" for ind
    by (simp add: found_def demo_simps demo_walk small_hat_def)
  obtain st1 where s1: "map_page ?c ?m 0x400000 0xE000 0 0 small_hat = Inr st1" "hat_drawn ?c ?m 0x100000 4 small_hat st1"
    "\<forall>ind. hat_found ?c ?m st1 ind = (if agree ?c 1 (idx 0x400000) ind then Some (final_pte ?c (of_nat 0xE000) 1 0, 1) else None)"
    using map_page_ok [OF small_ok(1), of "0x400000" "0xE000" 0] small_ok(2) none unfolding demo_simps by auto
  have av: "pagingLevels ?c \<le> hat_avail st1" "hat_inv ?c ?m 0x100000 st1" using s1(2) small_ok(2) by (auto simp: drawn_def demo_simps)
  obtain st2 where s2: "map_page ?c ?m 0x401000 0xE000 0 0 st1 = Inr st2" "hat_inv ?c ?m 0x100000 st2"
    "\<forall>ind. hat_found ?c ?m st2 ind = (if agree ?c 1 (idx 0x401000) ind then Some (final_pte ?c (of_nat 0xE000) 1 0, 1) else hat_found ?c ?m st1 ind)"
    using map_page_ok [OF av(2,1), of "0x401000" "0xE000" 0] s1(3) ag(3) unfolding drawn_def by auto
  have pte: "final_pte ?c (of_nat 0xE000) 1 0 AND addrMask ?c = of_nat 0xE000 AND addrMask ?c"
    by (rule final_pte_facts(1) [OF demo_ok(1)]) (simp_all add: demo_simps)
  have g: "HatGetMap ?c (hs_mem st2) (hm_root ?m) (of_nat a) = Some (0xE000, 0)" if "a = 0x400000 \<or> a = 0x401000" for a
    using that s1(3) s2(3) ag pte by (auto simp: HatGetMap_found GetPageSize_def demo_simps)
  obtain stats st3 where d: "anon_Detach ?c ?m zero_anon zero_range (vm_stats small_vmm) st2 = Inr (True, stats, st3)"
    "HatGetMap ?c (hs_mem st3) (hm_root ?m) (of_nat (rg_base zero_range)) = None"
    "\<forall>i. 0 < i \<and> i < 2 \<longrightarrow> HatGetMap ?c (hs_mem st3) (hm_root ?m) (of_nat (rg_base zero_range + PageSize * i)) =
       HatGetMap ?c (hs_mem st2) (hm_root ?m) (of_nat (rg_base zero_range + PageSize * i))"
    using anon_detach_leaves_pages [where d = zero_anon and r = zero_range and n = 2, OF s2(2), of "vm_stats small_vmm"] run g [of "0x400000"]
    by (auto simp: zero_range_def zero_anon_def size_limit_def)
  moreover have "HatGetMap ?c (hs_mem st3) (hm_root ?m) (of_nat 0x401000) = Some (0xE000, 0)"
    using d(3) [rule_format, of 1] g [of "0x401000"] by (simp add: zero_range_def)
  ultimately show ?thesis using s1(1) s2(1) by (auto simp: zero_range_def demo_simps)
qed

end
