(* ===== verification/Syslib_Time.thy ===== *)
theory Syslib_Time
  imports Kernel_Prelude
begin

text \<open>
  \<open>libs/np-syslib/Time.cpp\<close>: durations as a number of units per second (the scale) and a count of
  units. Conversion to a finer scale is exact as long as it does not wrap; conversion to a coarser
  scale always gives zero, since the ratio of the scales is an integer division.
\<close>

abbreviation Millis :: size_t where
  "Millis \<equiv> 1000"

abbreviation Micros :: size_t where
  "Micros \<equiv> 1000000"

abbreviation Nanos :: size_t where
  "Nanos \<equiv> 1000000000"

record scaled_time =
  st_scale :: size_t
  st_units :: size_t

definition ToScale :: "size_t \<Rightarrow> scaled_time \<Rightarrow> scaled_time" where
  "ToScale newScale t = \<lparr> st_scale = newScale, st_units = sz_mul (st_units t) (newScale div st_scale t) \<rparr>"

definition ToMillis :: "scaled_time \<Rightarrow> size_t" where
  "ToMillis t = st_units (ToScale Millis t)"

definition ToMicros :: "scaled_time \<Rightarrow> size_t" where
  "ToMicros t = st_units (ToScale Micros t)"

definition ToNanos :: "scaled_time \<Rightarrow> size_t" where
  "ToNanos t = st_units (ToScale Nanos t)"

text \<open>\<open>FromFrequency\<close> of a frequency above zero; its loop may not end.\<close>

partial_function (option) frequency_loop :: "size_t \<Rightarrow> scaled_time \<Rightarrow> scaled_time option" where
  "frequency_loop hertz t =
     (if st_units t = 0 then
        let scale = sz_mul (st_scale t) 1000
        in frequency_loop hertz \<lparr> st_scale = scale, st_units = scale div hertz \<rparr>
      else Some t)"

definition FromFrequency :: "size_t \<Rightarrow> scaled_time option" where
  "FromFrequency hertz = frequency_loop hertz \<lparr> st_scale = Millis, st_units = Millis div hertz \<rparr>"

lemma ToScale_finer:
  assumes "st_scale t dvd newScale" and "0 < st_scale t" and "st_units t * newScale < size_limit"
  shows "st_units (ToScale newScale t) * st_scale t = st_units t * newScale"
proof -
  from assms(1) obtain k where k: "newScale = st_scale t * k" ..
  have "st_units t * k \<le> st_units t * newScale" using assms(2) k by simp
  with assms(3) have "st_units t * k < size_limit" by linarith
  then show ?thesis using assms(2) k by (simp add: ToScale_def sz_mul_eq)
qed

lemma ToScale_coarser: "newScale < st_scale t \<Longrightarrow> st_units (ToScale newScale t) = 0"
  by (simp add: ToScale_def sz_mul_def)

lemma frequency_loop_ends:
  assumes "0 < hertz" and "hertz \<le> 10 ^ 18" and "i \<le> 6" and "i \<ge> 1"
  shows "\<exists>k \<in> {i..6}. frequency_loop hertz \<lparr> st_scale = 1000 ^ i, st_units = 1000 ^ i div hertz \<rparr> =
      Some \<lparr> st_scale = 1000 ^ k, st_units = 1000 ^ k div hertz \<rparr> \<and> 0 < 1000 ^ k div hertz"
  using assms(3,4)
proof (induction "6 - i" arbitrary: i)
  case 0
  then have "i = 6" by simp
  moreover have "0 < 1000 ^ 6 div hertz" using assms(1,2) by (simp add: div_greater_zero_iff)
  ultimately show ?case by (subst frequency_loop.simps) auto
next
  case (Suc n)
  show ?case
  proof (cases "1000 ^ i div hertz = 0")
    case True
    have i: "i \<in> {1, 2, 3, 4, 5}" using Suc.hyps(2) Suc.prems by auto
    then have "sz_mul (1000 ^ i) 1000 = 1000 ^ Suc i" by (elim insertE emptyE) (simp_all add: sz_mul_def size_limit_def)
    then have "frequency_loop hertz \<lparr> st_scale = 1000 ^ i, st_units = 1000 ^ i div hertz \<rparr> =
        frequency_loop hertz \<lparr> st_scale = 1000 ^ Suc i, st_units = 1000 ^ Suc i div hertz \<rparr>"
      using True by (subst frequency_loop.simps) (simp add: Let_def)
    moreover have "\<exists>k \<in> {Suc i..6}. frequency_loop hertz \<lparr> st_scale = 1000 ^ Suc i, st_units = 1000 ^ Suc i div hertz \<rparr> =
        Some \<lparr> st_scale = 1000 ^ k, st_units = 1000 ^ k div hertz \<rparr> \<and> 0 < 1000 ^ k div hertz"
      using Suc.hyps(2) i by (intro Suc.hyps(1)) auto
    ultimately show ?thesis by force
  next
    case False
    with Suc.prems show ?thesis by (subst frequency_loop.simps) auto
  qed
qed

text \<open>The loop ends for every frequency up to \<open>10 ^ 18\<close> hertz, with a period that is not zero.\<close>

lemma FromFrequency_ends:
  assumes "0 < hertz" and "hertz \<le> 10 ^ 18"
  shows "\<exists>k \<in> {1..6}. FromFrequency hertz = Some \<lparr> st_scale = 1000 ^ k, st_units = 1000 ^ k div hertz \<rparr> \<and>
    0 < 1000 ^ k div hertz"
  using frequency_loop_ends [OF assms, of 1] by (simp add: FromFrequency_def)

end
