(* ===== verification/Sys_Clock.thy ===== *)
theory Sys_Clock
  imports Fwd_List Syslib_Maths Syslib_Time Run_Levels
begin

text \<open>
  \<open>kernel/tasking/Clock.cpp\<close>: the queue of clock events. Each event holds the time that passes
  between the event in front of it and its own deadline, so only the front changes as time goes
  by. Events are addresses, with their hooks as one function; what the queue calls in other
  components (queueing DPCs, arming the timer, mail to another core) is recorded as a list of
  actions. The timers are arguments: the reading of the polled timer, its conversion to
  nanoseconds and the largest span of the interrupt timer. The lock of the queue is left out. The list of
  the events (\<open>sl::IntrFwdList\<close>, which the repository does not declare) is taken to be the \<open>FwdList\<close> of \<open>Fwd_List\<close>.

  A tick is shown to be exact: it fires the events whose deadline has passed, in order, and moves
  the deadlines of the others. Queueing is shown to keep the deadlines at both ends of the queue;
  between two events it breaks the list.
\<close>

subsection \<open>State\<close>

record clock_event =
  ev_dpc :: "nat option"
  ev_duration :: scaled_time
  ev_core :: size_t

datatype clock_action =
    Queue_Dpc "nat option"
  | Queue_Remote_Dpc size_t "nat option"
  | Arm_Timer size_t
  | Mail_Queue size_t size_t
  | Mail_Dequeue size_t size_t

record clock_queue =
  cq_events :: "size_t \<Rightarrow> clock_event"
  cq_hooks :: "size_t hooks"
  cq_list :: "size_t fwd_list"
  cq_modified :: size_t
  cq_owner :: size_t
  cq_uptime :: size_t
  cq_actions :: "clock_action list"

record clock_env =
  ce_core :: size_t
  ce_level :: run_level
  ce_poll :: size_t
  ce_toNanos :: "size_t \<Rightarrow> size_t"
  ce_maxNanos :: size_t

abbreviation NoCoreAffinity :: size_t where
  "NoCoreAffinity \<equiv> 0xFFFFFFFFFFFFFFFF"

abbreviation sizeof_ClockEvent :: size_t where
  "sizeof_ClockEvent \<equiv> 48"

definition ev_units :: "clock_queue \<Rightarrow> size_t \<Rightarrow> size_t" where
  "ev_units q e = st_units (ev_duration (cq_events q e))"

definition set_units :: "size_t \<Rightarrow> size_t \<Rightarrow> clock_queue \<Rightarrow> clock_queue" where
  "set_units e u q =
     q\<lparr> cq_events := (cq_events q)(e := (cq_events q e)\<lparr> ev_duration := (ev_duration (cq_events q e))\<lparr> st_units := u \<rparr> \<rparr>) \<rparr>"

definition act :: "clock_action \<Rightarrow> clock_queue \<Rightarrow> clock_queue" where
  "act a q = q\<lparr> cq_actions := cq_actions q @ [a] \<rparr>"

definition set_fl :: "size_t fl_state \<Rightarrow> clock_queue \<Rightarrow> clock_queue" where
  "set_fl s q = q\<lparr> cq_hooks := fst s, cq_list := snd s \<rparr>"

subsection \<open>Passing of time\<close>

partial_function (option) update_scan ::
  "size_t option \<Rightarrow> size_t \<Rightarrow> clock_queue \<Rightarrow> (clock_queue res) option" where
  "update_scan scan listDelta q =
     (case scan of
        None \<Rightarrow> Some (Inr q)
      | Some e \<Rightarrow>
          if \<not> listDelta > 0 then Some (Inr q)
          else if cq_hooks q e = Some e then Some (Inl Assert_Failed)
          else if ev_units q e = 0 then update_scan (cq_hooks q e) listDelta q
          else if listDelta < ev_units q e then Some (Inr (set_units e (ev_units q e - listDelta) q))
          else update_scan (cq_hooks q e) (listDelta - ev_units q e) (set_units e 0 q))"

definition UpdateTimerQueue :: "clock_env \<Rightarrow> clock_queue \<Rightarrow> (clock_queue res) option" where
  "UpdateTimerQueue env q =
     (let listDelta = ce_toNanos env (sz_sub (ce_poll env) (cq_modified q))
      in update_scan (fl_head (cq_list q)) listDelta (q\<lparr> cq_modified := ce_poll env \<rparr>))"

partial_function (option) fire_events :: "clock_env \<Rightarrow> clock_queue \<Rightarrow> clock_queue option" where
  "fire_events env q =
     (case fl_head (cq_list q) of
        None \<Rightarrow> Some q
      | Some e \<Rightarrow>
          if ev_units q e \<noteq> 0 then Some q
          else
            let q1 = set_fl (snd (fl_PopFront (cq_hooks q, cq_list q))) q;
                ev = cq_events q e
            in fire_events env
                 (act (if ev_core ev = ce_core env then Queue_Dpc (ev_dpc ev)
                       else Queue_Remote_Dpc (ev_core ev) (ev_dpc ev)) q1))"

definition arm_front :: "clock_env \<Rightarrow> clock_queue \<Rightarrow> clock_queue" where
  "arm_front env q =
     (case fl_head (cq_list q) of
        None \<Rightarrow> q
      | Some e \<Rightarrow> act (Arm_Timer (Min (ce_maxNanos env) (ev_units q e))) q)"

definition ClockTickHandler :: "clock_env \<Rightarrow> clock_queue \<Rightarrow> (clock_queue res) option" where
  "ClockTickHandler env q =
     (if \<not> Clock \<le> ce_level env then Some (Inl Assert_Failed)
      else case UpdateTimerQueue env q of
             None \<Rightarrow> None
           | Some (Inl e) \<Rightarrow> Some (Inl e)
           | Some (Inr q1) \<Rightarrow>
               (case fire_events env q1 of
                  None \<Rightarrow> None
                | Some q2 \<Rightarrow> Some (Inr (arm_front env q2))))"

subsection \<open>Queueing\<close>

text \<open>
  The pointer in \<open>event->next\<close> is decreased by a number of events, since the code subtracts from
  the pointer and not from the duration of the event it points to.
\<close>

definition ptr_minus :: "size_t \<Rightarrow> size_t \<Rightarrow> size_t option" where
  "ptr_minus p n =
     (let a = sz_sub p (sz_mul n sizeof_ClockEvent) in if a = 0 then None else Some a)"

definition spoil_next :: "size_t \<Rightarrow> clock_queue \<Rightarrow> clock_queue" where
  "spoil_next e q =
     (case cq_hooks q e of
        None \<Rightarrow> q
      | Some n \<Rightarrow> q\<lparr> cq_hooks := (cq_hooks q)(e := ptr_minus n (ev_units q e)) \<rparr>)"

partial_function (option) queue_scan :: "size_t \<Rightarrow> size_t \<Rightarrow> clock_queue \<Rightarrow> (clock_queue res) option" where
  "queue_scan event scan q =
     (let q1 = set_units event (sz_sub (ev_units q event) (ev_units q scan)) q
      in case cq_hooks q1 scan of
           None \<Rightarrow> Some (res_bind (fl_PushBack (cq_hooks q1, cq_list q1) event) (\<lambda>s. Inr (set_fl s q1)))
         | Some n \<Rightarrow>
             if ev_units q1 n < ev_units q1 event then queue_scan event n q1
             else Some (res_bind (fl_InsertAfter (cq_hooks q1, cq_list q1) (Some scan) event) (\<lambda>s.
                    Inr (spoil_next event (set_fl s q1)))))"

definition queue_front :: "clock_env \<Rightarrow> size_t \<Rightarrow> clock_queue \<Rightarrow> clock_queue" where
  "queue_front env event q =
     (let q1 = (case fl_head (cq_list q) of
                  None \<Rightarrow> q
                | Some f \<Rightarrow> set_units f (sz_sub (ev_units q f) (ev_units q event)) q);
          q2 = set_fl (fl_PushFront (cq_hooks q1, cq_list q1) event) q1
      in act (Arm_Timer (Min (ce_maxNanos env) (ev_units q2 event))) q2)"

definition set_core :: "size_t \<Rightarrow> size_t \<Rightarrow> clock_queue \<Rightarrow> clock_queue" where
  "set_core e c q = q\<lparr> cq_events := (cq_events q)(e := (cq_events q e)\<lparr> ev_core := c \<rparr>) \<rparr>"

definition to_nanos :: "size_t \<Rightarrow> clock_queue \<Rightarrow> clock_queue" where
  "to_nanos e q =
     q\<lparr> cq_events := (cq_events q)(e := (cq_events q e)\<lparr> ev_duration := ToScale Nanos (ev_duration (cq_events q e)) \<rparr>) \<rparr>"

definition QueueClockEvent :: "clock_env \<Rightarrow> size_t option \<Rightarrow> clock_queue \<Rightarrow> (clock_queue res) option" where
  "QueueClockEvent env ev q =
     (case ev of
        None \<Rightarrow> Some (Inr q)
      | Some event \<Rightarrow>
          if ev_dpc (cq_events q event) = None then Some (Inr q)
          else
            let q1 = (if ev_core (cq_events q event) = NoCoreAffinity then set_core event (ce_core env) q else q)
            in if cq_owner q1 \<noteq> ce_core env then Some (Inr (act (Mail_Queue (cq_owner q1) event) q1))
               else case UpdateTimerQueue env q1 of
                      None \<Rightarrow> None
                    | Some (Inl e) \<Rightarrow> Some (Inl e)
                    | Some (Inr q2) \<Rightarrow>
                        let q3 = to_nanos event q2
                        in case fl_head (cq_list q3) of
                             None \<Rightarrow> Some (Inr (queue_front env event q3))
                           | Some f \<Rightarrow>
                               if ev_units q3 event < ev_units q3 f then Some (Inr (queue_front env event q3))
                               else queue_scan event f q3)"

definition DequeueClockEvent :: "clock_env \<Rightarrow> size_t option \<Rightarrow> clock_queue \<Rightarrow> (clock_queue res) option" where
  "DequeueClockEvent env ev q =
     (case ev of
        None \<Rightarrow> Some (Inr q)
      | Some event \<Rightarrow>
          if cq_owner q \<noteq> ce_core env then Some (Inr (act (Mail_Dequeue (cq_owner q) event) q))
          else case UpdateTimerQueue env q of
                 None \<Rightarrow> None
               | Some (Inl e) \<Rightarrow> Some (Inl e)
               | Some (Inr q1) \<Rightarrow>
                   if fl_head (cq_list q1) = Some event then
                     let q2 = set_fl (snd (fl_PopFront (cq_hooks q1, cq_list q1))) q1
                     in case fl_head (cq_list q2) of
                          None \<Rightarrow> Some (Inr q2)
                        | Some f \<Rightarrow>
                            Some (Inr (arm_front env (set_units f (sz_sub (ev_units q2 f) (ev_units q2 event)) q2)))
                   else case fl_Remove (cq_hooks q1, cq_list q1) (Some event) of
                          None \<Rightarrow> None
                        | Some r \<Rightarrow>
                            Some (res_bind r (\<lambda>(following, s).
                              let q2 = set_fl s q1
                              in case following of
                                   None \<Rightarrow> Inr q2
                                 | Some f \<Rightarrow> Inr (set_units f (sz_add (ev_units q2 f) (ev_units q2 event)) q2))))"

subsection \<open>Timekeeping\<close>

definition TimekeepingEventDuration :: scaled_time where
  "TimekeepingEventDuration = \<lparr> st_scale = Millis, st_units = 5 \<rparr>"

definition ClockUptimeDpc :: "clock_env \<Rightarrow> size_t \<Rightarrow> clock_queue \<Rightarrow> (clock_queue res) option" where
  "ClockUptimeDpc env timekeepingEvent q =
     QueueClockEvent env (Some timekeepingEvent)
       (q\<lparr> cq_uptime := sz_add (cq_uptime q) (ToMillis TimekeepingEventDuration),
           cq_events := (cq_events q)(timekeepingEvent :=
             (cq_events q timekeepingEvent)\<lparr> ev_duration := TimekeepingEventDuration \<rparr>) \<rparr>)"

definition StartSystemClock :: "clock_env \<Rightarrow> size_t \<Rightarrow> nat \<Rightarrow> clock_queue \<Rightarrow> (clock_queue res) option" where
  "StartSystemClock env timekeepingEvent timekeepingDpc q =
     QueueClockEvent env (Some timekeepingEvent)
       (q\<lparr> cq_owner := 0,
           cq_events := (cq_events q)(timekeepingEvent :=
             \<lparr> ev_dpc = Some timekeepingDpc, ev_duration = TimekeepingEventDuration, ev_core = ce_core env \<rparr>) \<rparr>)"

definition GetUptime :: "clock_queue \<Rightarrow> scaled_time" where
  "GetUptime q = \<lparr> st_scale = Millis, st_units = cq_uptime q \<rparr>"

subsection \<open>Deadlines\<close>

text \<open>The deadlines of events with the given deltas, as times after the last update.\<close>

fun deadlines_from :: "nat \<Rightarrow> nat list \<Rightarrow> nat list" where
  "deadlines_from c [] = []"
| "deadlines_from c (d # ds) = (c + d) # deadlines_from (c + d) ds"

abbreviation deadlines :: "nat list \<Rightarrow> nat list" where
  "deadlines ds \<equiv> deadlines_from 0 ds"

fun tick :: "nat \<Rightarrow> nat list \<Rightarrow> nat list" where
  "tick t [] = []"
| "tick t (d # ds) = (if t < d then (d - t) # ds else 0 # tick (t - d) ds)"

lemma deadlines_shift: "deadlines_from (k + c) ds = map ((+) k) (deadlines_from c ds)"
  by (induction ds arbitrary: c) (simp_all add: add.assoc)

lemma deadlines_ge: "a \<in> set (deadlines_from c ds) \<Longrightarrow> c \<le> a"
  by (induction ds arbitrary: c) fastforce+

lemma deadlines_length [simp]: "length (deadlines_from c ds) = length ds"
  by (induction ds arbitrary: c) auto

lemma tick_0 [simp]: "tick 0 ds = ds"
  by (induction ds) auto

text \<open>The queue of deltas implements a set of deadlines that all come closer by the time that passed.\<close>

lemma deadlines_tick: "deadlines (tick t ds) = map (\<lambda>a. a - t) (deadlines ds)"
proof (induction ds arbitrary: t)
  case (Cons d ds)
  show ?case
  proof (cases "t < d")
    case True
    have "deadlines_from d ds = map ((+) t) (deadlines_from (d - t) ds)"
      using deadlines_shift [of t "d - t" ds] True by simp
    with True show ?thesis by (simp add: comp_def)
  next
    case False
    have "deadlines_from d ds = map ((+) d) (deadlines ds)" using deadlines_shift [of d 0 ds] by simp
    with False Cons.IH [of "t - d"] show ?thesis by (simp add: comp_def add.commute)
  qed
qed simp

lemma ev_units_simps [simp]:
  "ev_units (set_units e u q) = (ev_units q)(e := u)"
  "ev_units (act a q) = ev_units q" "ev_units (set_fl s q) = ev_units q"
  "ev_units (q\<lparr> cq_modified := n \<rparr>) = ev_units q"
  by (auto simp: ev_units_def set_units_def act_def set_fl_def)

lemma set_units_simps [simp]:
  "cq_hooks (set_units e u q) = cq_hooks q" "cq_list (set_units e u q) = cq_list q"
  "cq_actions (set_units e u q) = cq_actions q" "cq_owner (set_units e u q) = cq_owner q"
  "cq_modified (set_units e u q) = cq_modified q"
  "ev_dpc (cq_events (set_units e u q) x) = ev_dpc (cq_events q x)"
  "ev_core (cq_events (set_units e u q) x) = ev_core (cq_events q x)"
  "x \<noteq> e \<Longrightarrow> cq_events (set_units e u q) x = cq_events q x"
  by (simp_all add: set_units_def)

text \<open>What an update of the times leaves as it is.\<close>

definition same_but_units :: "clock_queue \<Rightarrow> clock_queue \<Rightarrow> bool" where
  "same_but_units q q' \<longleftrightarrow>
     cq_hooks q' = cq_hooks q \<and> cq_list q' = cq_list q \<and> cq_actions q' = cq_actions q \<and> cq_owner q' = cq_owner q \<and>
     (\<forall>x. ev_dpc (cq_events q' x) = ev_dpc (cq_events q x) \<and> ev_core (cq_events q' x) = ev_core (cq_events q x))"

lemma same_but_units_refl [simp]: "same_but_units q q"
  by (simp add: same_but_units_def)

lemma same_but_units_set: "same_but_units (set_units e u q) q' \<Longrightarrow> same_but_units q q'"
  by (simp add: same_but_units_def)

lemma update_scan_ok:
  assumes "linked (cq_hooks q) scan xs"
  shows "\<exists>q'. update_scan scan t q = Some (Inr q') \<and> map (ev_units q') xs = tick t (map (ev_units q) xs) \<and>
    (\<forall>e. e \<notin> set xs \<longrightarrow> cq_events q' e = cq_events q e) \<and> same_but_units q q' \<and> cq_modified q' = cq_modified q"
  using assms linked_distinct [OF assms]
proof (induction xs arbitrary: scan t q)
  case Nil
  then show ?case by (subst update_scan.simps) simp
next
  case (Cons x xs)
  then have scan: "scan = Some x" and rest: "linked (cq_hooks q) (cq_hooks q x) xs" and x: "x \<notin> set xs" and d: "distinct xs"
    by simp_all
  have loop: "cq_hooks q x \<noteq> Some x" using rest x by (cases xs) auto
  show ?case
  proof (cases "t = 0")
    case True
    then show ?thesis using scan by (subst update_scan.simps) (simp add: same_but_units_def)
  next
    case t: False
    show ?thesis
    proof (cases "t < ev_units q x")
      case True
      have "map (ev_units (set_units x (ev_units q x - t) q)) xs = map (ev_units q) xs" using x by simp
      with True t loop scan show ?thesis
        by (subst update_scan.simps) (auto simp: same_but_units_def)
    next
      case False
      let ?q = "if ev_units q x = 0 then q else set_units x 0 q"
      have step: "update_scan scan t q = update_scan (cq_hooks q x) (t - ev_units q x) ?q"
        using False t loop scan by (subst update_scan.simps) simp
      have "linked (cq_hooks ?q) (cq_hooks q x) xs" using rest by simp
      from Cons.IH [OF this d, of "t - ev_units q x"] obtain q' where q':
        "update_scan (cq_hooks q x) (t - ev_units q x) ?q = Some (Inr q')"
        "map (ev_units q') xs = tick (t - ev_units q x) (map (ev_units ?q) xs)"
        "\<forall>e. e \<notin> set xs \<longrightarrow> cq_events q' e = cq_events ?q e" "same_but_units ?q q'" "cq_modified q' = cq_modified ?q"
        by blast
      have "map (ev_units ?q) xs = map (ev_units q) xs" using x by auto
      moreover have "ev_units q' x = 0" using q'(3) x by (simp add: ev_units_def set_units_def)
      moreover have "\<forall>e. e \<notin> set (x # xs) \<longrightarrow> cq_events q' e = cq_events q e"
        using q'(3) by (simp add: set_units_def)
      moreover have "same_but_units q q'" using q'(4) by (auto split: if_splits intro: same_but_units_set)
      ultimately show ?thesis using q' step False by (auto split: if_splits)
    qed
  qed
qed

definition clock_rel :: "clock_queue \<Rightarrow> size_t list \<Rightarrow> bool" where
  "clock_rel q xs \<longleftrightarrow> flist (cq_hooks q, cq_list q) xs"

lemma UpdateTimerQueue_ok:
  assumes "clock_rel q xs"
  shows "\<exists>q'. UpdateTimerQueue env q = Some (Inr q') \<and> clock_rel q' xs \<and>
    map (ev_units q') xs = tick (ce_toNanos env (sz_sub (ce_poll env) (cq_modified q))) (map (ev_units q) xs) \<and>
    (\<forall>e. e \<notin> set xs \<longrightarrow> cq_events q' e = cq_events q e) \<and> same_but_units q q' \<and> cq_modified q' = ce_poll env"
proof -
  let ?q = "q\<lparr> cq_modified := ce_poll env \<rparr>" and ?t = "ce_toNanos env (sz_sub (ce_poll env) (cq_modified q))"
  have "linked (cq_hooks ?q) (fl_head (cq_list q)) xs" using assms by (simp add: clock_rel_def flist_def)
  from update_scan_ok [OF this, of ?t] obtain q' where q': "update_scan (fl_head (cq_list q)) ?t ?q = Some (Inr q')"
      "map (ev_units q') xs = tick ?t (map (ev_units q) xs)" "\<forall>e. e \<notin> set xs \<longrightarrow> cq_events q' e = cq_events q e"
      "same_but_units ?q q'" "cq_modified q' = ce_poll env"
    by auto
  then show ?thesis using assms
    by (intro exI [of _ q']) (auto simp: UpdateTimerQueue_def same_but_units_def clock_rel_def)
qed

definition fire_action :: "clock_env \<Rightarrow> clock_event \<Rightarrow> clock_action" where
  "fire_action env ev =
     (if ev_core ev = ce_core env then Queue_Dpc (ev_dpc ev) else Queue_Remote_Dpc (ev_core ev) (ev_dpc ev))"

lemma fire_events_ok:
  assumes "clock_rel q xs"
  shows "\<exists>q'. fire_events env q = Some q' \<and> clock_rel q' (dropWhile (\<lambda>e. ev_units q e = 0) xs) \<and>
    cq_events q' = cq_events q \<and> cq_modified q' = cq_modified q \<and>
    cq_actions q' = cq_actions q @ map (fire_action env \<circ> cq_events q) (takeWhile (\<lambda>e. ev_units q e = 0) xs)"
  using assms
proof (induction xs arbitrary: q)
  case Nil
  then show ?case by (subst fire_events.simps) (simp add: clock_rel_def flist_def)
next
  case (Cons x xs)
  have head: "fl_head (cq_list q) = Some x" using Cons.prems by (simp add: clock_rel_def flist_def)
  show ?case
  proof (cases "ev_units q x = 0")
    case False
    with head Cons.prems show ?thesis by (subst fire_events.simps) simp
  next
    case True
    obtain l' where l': "fl_PopFront (cq_hooks q, cq_list q) = (Some x, cq_hooks q, l')" "flist (cq_hooks q, l') xs"
      using Cons.prems PopFront_cons unfolding clock_rel_def by metis
    let ?q = "act (fire_action env (cq_events q x)) (set_fl (cq_hooks q, l') q)"
    have same: "cq_events ?q = cq_events q" "ev_units ?q = ev_units q" "cq_modified ?q = cq_modified q"
        "cq_actions ?q = cq_actions q @ [fire_action env (cq_events q x)]"
      by (auto simp: act_def set_fl_def ev_units_def)
    have "clock_rel ?q xs" using l'(2) by (simp add: clock_rel_def act_def set_fl_def)
    from Cons.IH [OF this] obtain q' where "fire_events env ?q = Some q'"
        "clock_rel q' (dropWhile (\<lambda>e. ev_units q e = 0) xs)" "cq_events q' = cq_events q" "cq_modified q' = cq_modified q"
        "cq_actions q' = (cq_actions q @ [fire_action env (cq_events q x)]) @
           map (fire_action env \<circ> cq_events q) (takeWhile (\<lambda>e. ev_units q e = 0) xs)"
      unfolding same by blast
    moreover have "fire_events env q = fire_events env ?q"
      using head True l'(1) by (subst fire_events.simps) (simp add: fire_action_def Let_def)
    ultimately show ?thesis using True by simp
  qed
qed

lemma takeWhile_zero_deadlines:
  "length (takeWhile (\<lambda>d. d = 0) ds) = length (takeWhile (\<lambda>a. a = 0) (deadlines ds))"
proof (induction ds)
  case (Cons d ds)
  then show ?case by (cases "d = 0") simp_all
qed simp

lemma deadlines_dropWhile:
  "deadlines (dropWhile (\<lambda>d. d = 0) ds) = drop (length (takeWhile (\<lambda>d. d = 0) ds)) (deadlines ds)"
proof (induction ds)
  case (Cons d ds)
  then show ?case by (cases "d = 0") simp_all
qed simp

lemma takeWhile_length_map: "length (takeWhile P (map f xs)) = length (takeWhile (\<lambda>x. P (f x)) xs)"
  by (induction xs) simp_all

text \<open>C21: a clock tick is exact. With \<open>t\<close> the time since the last update, it queues the DPCs of exactly
  the events whose deadline is at most \<open>t\<close>, in the order of the queue and on the core each event
  asks for; the others stay queued with deadlines that are \<open>t\<close> closer, and the interrupt timer is
  armed for the first of them, or for its largest span.
\<close>

theorem clock_tick_exact:
  assumes "clock_rel q xs" and "Clock \<le> ce_level env"
    and "t = ce_toNanos env (sz_sub (ce_poll env) (cq_modified q))"
    and "ds = deadlines (map (ev_units q) xs)" and "n = length (takeWhile (\<lambda>a. a \<le> t) ds)"
  shows "\<exists>q'. ClockTickHandler env q = Some (Inr q') \<and> clock_rel q' (drop n xs) \<and>
    deadlines (map (ev_units q') (drop n xs)) = map (\<lambda>a. a - t) (drop n ds) \<and> cq_modified q' = ce_poll env \<and>
    cq_actions q' = cq_actions q @ map (fire_action env \<circ> cq_events q) (take n xs) @
      (case drop n ds of [] \<Rightarrow> [] | a # _ \<Rightarrow> [Arm_Timer (min (ce_maxNanos env) (a - t))])"
proof -
  obtain q1 where q1: "UpdateTimerQueue env q = Some (Inr q1)" "clock_rel q1 xs"
      "map (ev_units q1) xs = tick t (map (ev_units q) xs)" "same_but_units q q1" "cq_modified q1 = ce_poll env"
    using UpdateTimerQueue_ok [OF assms(1), of env] assms(3) by blast
  let ?z = "\<lambda>e. ev_units q1 e = 0"
  obtain q2 where q2: "fire_events env q1 = Some q2" "clock_rel q2 (dropWhile ?z xs)" "cq_events q2 = cq_events q1"
      "cq_modified q2 = cq_modified q1" "cq_actions q2 = cq_actions q1 @ map (fire_action env \<circ> cq_events q1) (takeWhile ?z xs)"
    using fire_events_ok [OF q1(2)] by blast
  have ds1: "deadlines (map (ev_units q1) xs) = map (\<lambda>a. a - t) ds"
    unfolding q1(3) assms(4) by (rule deadlines_tick)
  have n: "length (takeWhile ?z xs) = n"
    using takeWhile_zero_deadlines [of "map (ev_units q1) xs"] unfolding ds1 takeWhile_length_map assms(5) by simp
  then have take: "takeWhile ?z xs = take n xs" and drop: "dropWhile ?z xs = drop n xs"
    using takeWhile_eq_take [of ?z xs] dropWhile_eq_drop [of ?z xs] by simp_all
  have "dropWhile (\<lambda>d. d = 0) (map (ev_units q1) xs) = map (ev_units q1) (drop n xs)"
    using drop by (simp add: dropWhile_map comp_def)
  then have rest: "deadlines (map (ev_units q2) (drop n xs)) = map (\<lambda>a. a - t) (drop n ds)"
    using deadlines_dropWhile [of "map (ev_units q1) xs"] q2(3) n
    unfolding ds1 takeWhile_length_map by (simp add: drop_map ev_units_def [abs_def])
  have fire: "fire_action env (cq_events q1 e) = fire_action env (cq_events q e)" for e
    using q1(4) by (simp add: fire_action_def same_but_units_def)
  have acts: "cq_actions q2 = cq_actions q @ map (fire_action env \<circ> cq_events q) (take n xs)"
    using q2(5) q1(4) take by (simp add: same_but_units_def fire comp_def)
  have rel: "clock_rel q2 (drop n xs)" using q2(2) drop by simp
  have arm: "arm_front env q2 = (case drop n ds of [] \<Rightarrow> q2 | a # _ \<Rightarrow> act (Arm_Timer (min (ce_maxNanos env) (a - t))) q2)"
  proof (cases "drop n xs")
    case Nil
    with rel rest show ?thesis by (simp add: arm_front_def clock_rel_def flist_def split: list.split)
  next
    case (Cons e es)
    with rest obtain a as where a: "drop n ds = a # as" "ev_units q2 e = a - t" by (cases "drop n ds") auto
    with rel Cons show ?thesis by (simp add: arm_front_def clock_rel_def flist_def)
  qed
  have "ClockTickHandler env q = Some (Inr (arm_front env q2))"
    using assms(2) q1(1) q2(1) by (simp add: ClockTickHandler_def)
  moreover have "clock_rel (arm_front env q2) (drop n xs)" "ev_units (arm_front env q2) = ev_units q2"
      "cq_modified (arm_front env q2) = ce_poll env"
    using rel q2(4) q1(5) by (auto simp: arm_front_def act_def clock_rel_def ev_units_def split: option.split)
  moreover have "cq_actions (arm_front env q2) = cq_actions q @ map (fire_action env \<circ> cq_events q) (take n xs) @
      (case drop n ds of [] \<Rightarrow> [] | a # _ \<Rightarrow> [Arm_Timer (min (ce_maxNanos env) (a - t))])"
    unfolding arm using acts by (simp add: act_def split: list.split)
  ultimately show ?thesis using rest by auto
qed

definition demo_event :: "nat \<Rightarrow> size_t \<Rightarrow> clock_event" where
  "demo_event d u = \<lparr> ev_dpc = Some d, ev_duration = \<lparr> st_scale = Nanos, st_units = u \<rparr>, ev_core = 0 \<rparr>"

definition demo_queue :: clock_queue where
  "demo_queue = \<lparr> cq_events = (\<lambda>e. if e = 0x1000 then demo_event 1 30 else if e = 0x2000 then demo_event 2 40 else demo_event 3 35),
     cq_hooks = (\<lambda>_. None)(0x1000 := Some 0x2000), cq_list = \<lparr> fl_head = Some 0x1000, fl_tail = Some 0x2000 \<rparr>,
     cq_modified = 100, cq_owner = 0, cq_uptime = 0, cq_actions = [] \<rparr>"

definition demo_env :: "size_t \<Rightarrow> clock_env" where
  "demo_env now = \<lparr> ce_core = 0, ce_level = Clock, ce_poll = now, ce_toNanos = (\<lambda>n. n), ce_maxNanos = 1000 \<rparr>"

lemma demo_queue_rel: "clock_rel demo_queue [0x1000, 0x2000]"
  by (simp add: clock_rel_def demo_queue_def flist_def)

lemma demo_queue_units:
  "ev_units demo_queue 0x1000 = 30" "ev_units demo_queue 0x2000 = 40" "ev_units demo_queue 0x3000 = 35"
  by (simp_all add: ev_units_def demo_queue_def demo_event_def)

theorem clock_tick_exact_witness:
  "\<exists>q'. ClockTickHandler (demo_env 150) demo_queue = Some (Inr q') \<and> clock_rel q' [0x2000] \<and>
     deadlines (map (ev_units q') [0x2000]) = [20] \<and> cq_actions q' = [Queue_Dpc (Some 1), Arm_Timer 20]"
proof -
  have t: "50 = ce_toNanos (demo_env 150) (sz_sub (ce_poll (demo_env 150)) (cq_modified demo_queue))"
    by (simp add: demo_env_def demo_queue_def sz_sub_def size_limit_def)
  have ds: "[30, 70] = deadlines (map (ev_units demo_queue) [0x1000, 0x2000])" by (simp add: demo_queue_units)
  have "1 = length (takeWhile (\<lambda>a. a \<le> 50) [30, 70::nat])" by simp
  from clock_tick_exact [OF demo_queue_rel _ t ds this] show ?thesis
    by (auto simp: demo_env_def demo_queue_def demo_event_def fire_action_def)
qed

subsection \<open>Queueing an event\<close>

lemma deadlines_snoc: "deadlines_from c (ds @ [d]) = deadlines_from c ds @ [c + sum_list ds + d]"
  by (induction ds arbitrary: c) (simp_all add: ac_simps)

lemma map_units_cong: "e \<notin> set xs \<Longrightarrow> map ((ev_units q)(e := u)) xs = map (ev_units q) xs"
  by auto

text \<open>The scan of \<open>QueueClockEvent\<close> reaches the end if all deadlines behind its start are earlier.\<close>

lemma queue_scan_end:
  assumes "clock_rel q (ys @ x # xs)" and "e \<notin> set (ys @ x # xs)" and "ev_units q x \<le> ev_units q e"
    and "ev_units q e < size_limit" and "\<forall>a \<in> set (deadlines_from (ev_units q x) (map (ev_units q) xs)). a < ev_units q e"
  shows "\<exists>q'. queue_scan e x q = Some (Inr q') \<and> clock_rel q' (ys @ x # xs @ [e]) \<and> cq_actions q' = cq_actions q \<and>
    ev_units q' = (ev_units q)(e := ev_units q e - (ev_units q x + sum_list (map (ev_units q) xs)))"
  using assms
proof (induction xs arbitrary: q x ys)
  case Nil
  let ?q = "set_units e (sz_sub (ev_units q e) (ev_units q x)) q"
  have "linked (cq_hooks q) (fl_head (cq_list q)) (ys @ [x])" using Nil.prems(1) by (simp add: clock_rel_def flist_def)
  then have last: "cq_hooks q x = None" using linked_split_hook(1) [of "cq_hooks q" _ ys x "[]"] by simp
  obtain s where "fl_PushBack (cq_hooks ?q, cq_list ?q) e = Inr s" "flist s ((ys @ [x]) @ [e])"
    using flist_PushBack [of "(cq_hooks ?q, cq_list ?q)" "ys @ [x]" e] Nil.prems(1,2) by (auto simp: clock_rel_def)
  with last Nil.prems(3,4) show ?case
    by (subst queue_scan.simps) (auto simp: Let_def clock_rel_def set_fl_def act_def sz_sub_eq set_units_def ev_units_def)
next
  case (Cons y xs)
  let ?u = "ev_units q e - ev_units q x" and ?q = "set_units e (sz_sub (ev_units q e) (ev_units q x)) q"
  have sub: "sz_sub (ev_units q e) (ev_units q x) = ?u" using Cons.prems(3,4) by (simp add: sz_sub_eq)
  have ne: "e \<noteq> x" "e \<noteq> y" "e \<notin> set xs" using Cons.prems(2) by auto
  have "linked (cq_hooks q) (cq_hooks q x) (y # xs)"
    using Cons.prems(1) linked_split_hook(1) [of "cq_hooks q" "fl_head (cq_list q)" ys x "y # xs"]
    by (simp add: clock_rel_def flist_def)
  then have y: "cq_hooks ?q x = Some y" by simp
  have less: "ev_units q y < ?u" using Cons.prems(5) by auto
  have dl: "\<forall>a \<in> set (deadlines_from (ev_units q y) (map (ev_units q) xs)). a < ?u"
    using Cons.prems(3,5) by (auto simp: deadlines_shift)
  have m: "map (ev_units ?q) xs = map (ev_units q) xs" using ne by auto
  have "\<exists>q'. queue_scan e y ?q = Some (Inr q') \<and> clock_rel q' ((ys @ [x]) @ y # xs @ [e]) \<and> cq_actions q' = cq_actions ?q \<and>
      ev_units q' = (ev_units ?q)(e := ev_units ?q e - (ev_units ?q y + sum_list (map (ev_units ?q) xs)))"
  proof (rule Cons.IH)
    show "clock_rel ?q ((ys @ [x]) @ y # xs)" using Cons.prems(1) by (simp add: clock_rel_def)
    show "e \<notin> set ((ys @ [x]) @ y # xs)" using Cons.prems(2) by simp
    show "ev_units ?q y \<le> ev_units ?q e" using less ne sub by simp
    show "ev_units ?q e < size_limit" using Cons.prems(4) sub by simp
    show "\<forall>a \<in> set (deadlines_from (ev_units ?q y) (map (ev_units ?q) xs)). a < ev_units ?q e"
      using dl m ne sub by simp
  qed
  moreover have "queue_scan e x q = queue_scan e y ?q"
    using y less ne sub by (subst queue_scan.simps) (simp add: Let_def)
  ultimately show ?case using m ne sub by (auto simp: fun_eq_iff)
qed

text \<open>Up to the search for its place, queueing moves the deadlines on and converts the event to nanoseconds.\<close>

lemma QueueClockEvent_start:
  assumes "clock_rel q xs" and "e \<notin> set xs" and "ev_dpc (cq_events q e) = Some d" and "cq_owner q = ce_core env"
    and "t = ce_toNanos env (sz_sub (ce_poll env) (cq_modified q))"
  shows "\<exists>q3. clock_rel q3 xs \<and> map (ev_units q3) xs = tick t (map (ev_units q) xs) \<and>
    ev_units q3 e = ToNanos (ev_duration (cq_events q e)) \<and> cq_actions q3 = cq_actions q \<and>
    QueueClockEvent env (Some e) q =
      (case fl_head (cq_list q3) of
         None \<Rightarrow> Some (Inr (queue_front env e q3))
       | Some f \<Rightarrow> if ev_units q3 e < ev_units q3 f then Some (Inr (queue_front env e q3)) else queue_scan e f q3)"
proof -
  let ?q1 = "if ev_core (cq_events q e) = NoCoreAffinity then set_core e (ce_core env) q else q"
  have q1: "clock_rel ?q1 xs" "ev_units ?q1 = ev_units q" "cq_modified ?q1 = cq_modified q" "cq_owner ?q1 = cq_owner q"
      "cq_actions ?q1 = cq_actions q" "ev_duration (cq_events ?q1 e) = ev_duration (cq_events q e)"
    using assms(1) by (auto simp: set_core_def clock_rel_def ev_units_def)
  obtain q2 where q2: "UpdateTimerQueue env ?q1 = Some (Inr q2)" "clock_rel q2 xs"
      "map (ev_units q2) xs = tick t (map (ev_units q) xs)" "\<forall>x. x \<notin> set xs \<longrightarrow> cq_events q2 x = cq_events ?q1 x"
      "same_but_units ?q1 q2"
    using UpdateTimerQueue_ok [OF q1(1), of env] assms(5) q1(2,3) by auto
  let ?q3 = "to_nanos e q2"
  have u: "ev_units ?q3 = (ev_units q2)(e := ToNanos (ev_duration (cq_events q e)))"
    using q2(4) assms(2) q1(6) by (auto simp: ev_units_def to_nanos_def ToNanos_def)
  have "QueueClockEvent env (Some e) q =
      (case fl_head (cq_list ?q3) of
         None \<Rightarrow> Some (Inr (queue_front env e ?q3))
       | Some f \<Rightarrow> if ev_units ?q3 e < ev_units ?q3 f then Some (Inr (queue_front env e ?q3)) else queue_scan e f ?q3)"
    using assms(3,4) q1(4) q2(1) by (simp add: QueueClockEvent_def Let_def)
  moreover have "clock_rel ?q3 xs" "cq_actions ?q3 = cq_actions q"
    using q2(2,5) q1(5) by (simp_all add: to_nanos_def clock_rel_def same_but_units_def)
  moreover have "map (ev_units ?q3) xs = tick t (map (ev_units q) xs)" "ev_units ?q3 e = ToNanos (ev_duration (cq_events q e))"
    using q2(3) unfolding u by (simp_all add: map_units_cong assms(2))
  ultimately show ?thesis by blast
qed

lemma ToNanos_limit: "ToNanos t < size_limit"
  by (simp add: ToNanos_def ToScale_def)

lemma queue_front_ok:
  assumes "clock_rel q xs" and "e \<notin> set xs" and "\<forall>x \<in> set (take 1 xs). ev_units q e \<le> ev_units q x \<and> ev_units q x < size_limit"
  shows "clock_rel (queue_front env e q) (e # xs) \<and>
    deadlines (map (ev_units (queue_front env e q)) (e # xs)) = ev_units q e # deadlines (map (ev_units q) xs) \<and>
    cq_actions (queue_front env e q) = cq_actions q @ [Arm_Timer (min (ce_maxNanos env) (ev_units q e))]"
proof (cases xs)
  case Nil
  then have "fl_head (cq_list q) = None" using assms(1) by (simp add: clock_rel_def flist_def)
  with Nil assms flist_PushFront [of "(cq_hooks q, cq_list q)" xs e] show ?thesis
    by (simp add: queue_front_def clock_rel_def set_fl_def act_def ev_units_def)
next
  case (Cons x ys)
  then have head: "fl_head (cq_list q) = Some x" using assms(1) by (simp add: clock_rel_def flist_def)
  let ?q = "set_units x (sz_sub (ev_units q x) (ev_units q e)) q"
  have x: "x \<notin> set ys" "e \<noteq> x" "e \<notin> set ys" using flist_distinct assms(1,2) Cons unfolding clock_rel_def by fastforce+
  have sub: "sz_sub (ev_units q x) (ev_units q e) = ev_units q x - ev_units q e" "ev_units q e \<le> ev_units q x"
    using assms(3) Cons by (simp_all add: sz_sub_eq)
  have rel: "clock_rel (queue_front env e q) (e # xs)"
    using flist_PushFront [of "(cq_hooks ?q, cq_list ?q)" xs e] assms(1,2) head
    by (simp add: queue_front_def Let_def clock_rel_def set_fl_def act_def)
  have units: "ev_units (queue_front env e q) = (ev_units q)(x := ev_units q x - ev_units q e)"
    using head sub(1) by (simp add: queue_front_def Let_def)
  have "deadlines (map (ev_units (queue_front env e q)) (e # xs)) = ev_units q e # deadlines (map (ev_units q) xs)"
    unfolding units using x(1,2) sub(2) Cons by (simp add: map_units_cong)
  moreover have "cq_actions (queue_front env e q) = cq_actions q @ [Arm_Timer (min (ce_maxNanos env) (ev_units q e))]"
    using head x(2) by (simp add: queue_front_def Let_def act_def set_fl_def ev_units_def)
  ultimately show ?thesis using rel by blast
qed

text \<open>Queueing an event in front of the queue or behind it keeps all deadlines. With the deadlines moved
  on by the time that passed, an event that is due before the first one goes to the front and the
  interrupt timer is armed for it; an event that is due after all others goes to the back.
\<close>

lemma clock_queue_at_ends:
  assumes "clock_rel q xs" and "e \<notin> set xs" and "ev_dpc (cq_events q e) = Some d" and "cq_owner q = ce_core env"
    and "t = ce_toNanos env (sz_sub (ce_poll env) (cq_modified q))"
    and "ds = map (\<lambda>a. a - t) (deadlines (map (ev_units q) xs))" and "u = ToNanos (ev_duration (cq_events q e))"
    and "\<forall>a \<in> set ds. a < size_limit"
  shows "if ds = [] \<or> u < hd ds
    then \<exists>q'. QueueClockEvent env (Some e) q = Some (Inr q') \<and> clock_rel q' (e # xs) \<and>
      deadlines (map (ev_units q') (e # xs)) = u # ds \<and>
      cq_actions q' = cq_actions q @ [Arm_Timer (min (ce_maxNanos env) u)]
    else (\<forall>a \<in> set (tl ds). a < u) \<longrightarrow>
      (\<exists>q'. QueueClockEvent env (Some e) q = Some (Inr q') \<and> clock_rel q' (xs @ [e]) \<and>
        deadlines (map (ev_units q') (xs @ [e])) = ds @ [u] \<and> cq_actions q' = cq_actions q)"
proof -
  obtain q3 where q3: "clock_rel q3 xs" "map (ev_units q3) xs = tick t (map (ev_units q) xs)" "ev_units q3 e = u"
      "cq_actions q3 = cq_actions q" "QueueClockEvent env (Some e) q =
      (case fl_head (cq_list q3) of
         None \<Rightarrow> Some (Inr (queue_front env e q3))
       | Some f \<Rightarrow> if ev_units q3 e < ev_units q3 f then Some (Inr (queue_front env e q3)) else queue_scan e f q3)"
    using QueueClockEvent_start [OF assms(1-5)] assms(7) by blast
  have ds: "deadlines (map (ev_units q3) xs) = ds" unfolding q3(2) assms(6) by (rule deadlines_tick)
  show ?thesis
  proof (cases xs)
    case Nil
    then have "fl_head (cq_list q3) = None" using q3(1) by (simp add: clock_rel_def flist_def)
    with queue_front_ok [OF q3(1) assms(2), of env] q3(3-5) ds Nil show ?thesis by simp
  next
    case (Cons x ys)
    then have head: "fl_head (cq_list q3) = Some x" using q3(1) by (simp add: clock_rel_def flist_def)
    have hd: "hd ds = ev_units q3 x" "tl ds = deadlines_from (ev_units q3 x) (map (ev_units q3) ys)" "ds \<noteq> []"
      using ds Cons by auto
    show ?thesis
    proof (cases "u < hd ds")
      case True
      have "ev_units q3 x < size_limit" using assms(8) hd by (metis list.set_sel(1))
      then have pre: "\<forall>x \<in> set (take 1 xs). ev_units q3 e \<le> ev_units q3 x \<and> ev_units q3 x < size_limit"
        using True hd(1) q3(3) Cons by simp
      note front = queue_front_ok [OF q3(1) assms(2) pre, of env, unfolded ds q3(3,4)]
      have "QueueClockEvent env (Some e) q = Some (Inr (queue_front env e q3))" using True head hd q3(3,5) by simp
      with front have "\<exists>q'. QueueClockEvent env (Some e) q = Some (Inr q') \<and> clock_rel q' (e # xs) \<and>
          deadlines (map (ev_units q') (e # xs)) = u # ds \<and>
          cq_actions q' = cq_actions q @ [Arm_Timer (min (ce_maxNanos env) u)]" by blast
      then show ?thesis by (simp only: True simp_thms if_True)
    next
      case False
      have "\<exists>q'. queue_scan e x q3 = Some (Inr q') \<and> clock_rel q' (xs @ [e]) \<and>
          deadlines (map (ev_units q') (xs @ [e])) = ds @ [u] \<and> cq_actions q' = cq_actions q"
        if late: "\<forall>a \<in> set (tl ds). a < u"
      proof -
        have "u < size_limit" using ToNanos_limit assms(7) by simp
        then obtain q' where q': "queue_scan e x q3 = Some (Inr q')" "clock_rel q' ([] @ x # ys @ [e])" "cq_actions q' = cq_actions q3"
            "ev_units q' = (ev_units q3)(e := u - (ev_units q3 x + sum_list (map (ev_units q3) ys)))"
          using queue_scan_end [of q3 "[]" x ys e] q3(1,3) assms(2) Cons False late hd by auto
        have total: "ev_units q3 x + sum_list (map (ev_units q3) ys) \<le> u"
          using False late hd by (cases ys rule: rev_cases) (auto simp: deadlines_snoc add.assoc)
        have units: "map (ev_units q') (xs @ [e]) = map (ev_units q3) xs @ [u - sum_list (map (ev_units q3) xs)]"
          unfolding q'(4) using assms(2) Cons by (simp add: map_units_cong)
        have "deadlines (map (ev_units q') (xs @ [e])) = ds @ [u]"
          unfolding units deadlines_snoc ds using total Cons by simp
        then show ?thesis using q' q3(4) Cons by auto
      qed
      then show ?thesis using False hd head q3(3,5) by auto
    qed
  qed
qed

lemma clock_queue_at_ends_example:
  "\<exists>q'. QueueClockEvent (demo_env 110) (Some 0x3000) (set_units 0x3000 90 demo_queue) = Some (Inr q') \<and>
     clock_rel q' [0x1000, 0x2000, 0x3000] \<and> deadlines (map (ev_units q') [0x1000, 0x2000, 0x3000]) = [20, 60, 90]"
proof -
  let ?q = "set_units 0x3000 90 demo_queue"
  have rel: "clock_rel ?q [0x1000, 0x2000]" using demo_queue_rel by (simp add: clock_rel_def)
  have t: "10 = ce_toNanos (demo_env 110) (sz_sub (ce_poll (demo_env 110)) (cq_modified ?q))"
    by (simp add: demo_env_def demo_queue_def sz_sub_def size_limit_def)
  have ds: "[20, 60] = map (\<lambda>a. a - 10) (deadlines (map (ev_units ?q) [0x1000, 0x2000]))" by (simp add: demo_queue_units)
  have u: "90 = ToNanos (ev_duration (cq_events ?q 0x3000))"
    by (simp add: set_units_def demo_queue_def demo_event_def ToNanos_def ToScale_def sz_mul_def size_limit_def)
  have d: "ev_dpc (cq_events ?q 0x3000) = Some 3" "cq_owner ?q = ce_core (demo_env 110)"
    by (simp_all add: demo_queue_def demo_event_def demo_env_def)
  from clock_queue_at_ends [OF rel _ d t ds u] show ?thesis by (auto simp: size_limit_def)
qed

text \<open>Queueing an event between two others breaks the queue. The code means to shorten the delta of the
  event that follows, but subtracts from the pointer to it: the new event's \<open>next\<close> points
  elsewhere, and no list of the events starts with the first one, the new one and the following one.
\<close>

lemma clock_queue_between_breaks:
  assumes "clock_rel q (x # y # ys)" and "e \<notin> set (x # y # ys)" and "ev_dpc (cq_events q e) = Some d"
    and "cq_owner q = ce_core env" and "ce_toNanos env (sz_sub (ce_poll env) (cq_modified q)) = 0"
    and "u = ToNanos (ev_duration (cq_events q e))" and "ev_units q x < u" and "u \<le> ev_units q x + ev_units q y"
    and "u < 2 ^ 58" and "y < size_limit"
  shows "\<exists>q'. QueueClockEvent env (Some e) q = Some (Inr q') \<and> cq_hooks q' x = Some e \<and>
    cq_hooks q' e = ptr_minus y (u - ev_units q x) \<and> cq_hooks q' e \<noteq> Some y \<and> ev_units q' y = ev_units q y \<and>
    (\<forall>zs. \<not> clock_rel q' (x # e # y # zs))"
proof -
  obtain q3 where q3: "clock_rel q3 (x # y # ys)" "map (ev_units q3) (x # y # ys) = map (ev_units q) (x # y # ys)"
      "ev_units q3 e = u" "QueueClockEvent env (Some e) q =
      (case fl_head (cq_list q3) of
         None \<Rightarrow> Some (Inr (queue_front env e q3))
       | Some f \<Rightarrow> if ev_units q3 e < ev_units q3 f then Some (Inr (queue_front env e q3)) else queue_scan e f q3)"
    using QueueClockEvent_start [OF assms(1-4) refl, unfolded assms(5) tick_0] unfolding assms(6) by blast
  have xy: "fl_head (cq_list q3) = Some x" "cq_hooks q3 x = Some y" "e \<noteq> x" "e \<noteq> y" "x \<noteq> y"
    using q3(1) assms(2) flist_distinct [OF q3(1) [unfolded clock_rel_def]] by (auto simp: clock_rel_def flist_def)
  let ?n = "u - ev_units q x"
  have sub: "sz_sub u (ev_units q x) = ?n" using assms(7,9) by (simp add: sz_sub_eq size_limit_def)
  have units: "ev_units q3 x = ev_units q x" "ev_units q3 y = ev_units q y" using q3(2) by simp_all
  have stop: "\<not> ev_units q y < ?n" using assms(7,8) by linarith
  define q' where "q' = spoil_next e (set_fl ((cq_hooks q3)(e := Some y, x := Some e),
    if fl_tail (cq_list q3) = Some x then (cq_list q3)\<lparr> fl_tail := Some e \<rparr> else cq_list q3) (set_units e ?n q3))"
  have "queue_scan e x q3 = Some (Inr q')"
    using stop xy sub units q3(3) by (subst queue_scan.simps) (simp add: Let_def fl_InsertAfter_def q'_def)
  then have run: "QueueClockEvent env (Some e) q = Some (Inr q')"
    using q3(3,4) xy(1) units(1) assms(7) by simp
  have hooks: "cq_hooks q' = (cq_hooks q3)(x := Some e, e := ptr_minus y ?n)"
    using xy by (auto simp: q'_def spoil_next_def set_fl_def ev_units_def set_units_def fun_upd_twist)
  have "sz_mul ?n sizeof_ClockEvent = ?n * 48" using assms(9) by (intro sz_mul_eq) (simp add: size_limit_def)
  moreover have "0 < ?n * 48" "?n * 48 < size_limit" using assms(7,9) by (simp_all add: size_limit_def)
  ultimately have "sz_sub y (sz_mul ?n sizeof_ClockEvent) \<noteq> y"
    using assms(10) by (cases "?n * 48 \<le> y") (auto simp: sz_sub_eq sz_sub_wrap)
  then have off: "ptr_minus y ?n \<noteq> Some y" by (auto simp: ptr_minus_def Let_def)
  have "\<not> clock_rel q' (x # e # y # zs)" for zs
    using hooks xy(3) off by (auto simp: clock_rel_def flist_def)
  moreover have "ev_units q' y = ev_units q y"
    using units xy(4) by (simp add: q'_def spoil_next_def ev_units_def set_fl_def set_units_def split: option.split)
  ultimately show ?thesis using run hooks xy(3) off by auto
qed

lemma clock_queue_between_breaks_example:
  "\<exists>q'. QueueClockEvent (demo_env 100) (Some 0x3000) demo_queue = Some (Inr q') \<and> cq_hooks q' 0x3000 = Some 0x1F10"
proof -
  have u: "35 = ToNanos (ev_duration (cq_events demo_queue 0x3000))"
    by (simp add: demo_queue_def demo_event_def ToNanos_def ToScale_def sz_mul_def size_limit_def)
  have d: "ev_dpc (cq_events demo_queue 0x3000) = Some 3" "cq_owner demo_queue = ce_core (demo_env 100)"
      "ce_toNanos (demo_env 100) (sz_sub (ce_poll (demo_env 100)) (cq_modified demo_queue)) = 0"
    by (simp_all add: demo_queue_def demo_event_def demo_env_def sz_sub_def)
  have p: "ptr_minus 0x2000 5 = Some 0x1F10" by (simp add: ptr_minus_def sz_sub_def sz_mul_def size_limit_def)
  from clock_queue_between_breaks [OF demo_queue_rel _ d u] show ?thesis
    unfolding demo_queue_units by (auto simp: size_limit_def p)
qed

text \<open>Taking out the first event shortens the delta of the next one, which should grow.\<close>

lemma Dequeue_front_shifts:
  assumes "clock_rel q (x # y # ys)" and "cq_owner q = ce_core env"
    and "ce_toNanos env (sz_sub (ce_poll env) (cq_modified q)) = 0"
  shows "\<exists>q'. DequeueClockEvent env (Some x) q = Some (Inr q') \<and> clock_rel q' (y # ys) \<and>
    ev_units q' y = sz_sub (ev_units q y) (ev_units q x)"
proof -
  obtain q1 where q1: "UpdateTimerQueue env q = Some (Inr q1)" "clock_rel q1 (x # y # ys)"
      "map (ev_units q1) (x # y # ys) = map (ev_units q) (x # y # ys)"
    using UpdateTimerQueue_ok [OF assms(1), of env, unfolded assms(3) tick_0] by blast
  obtain l' where l': "fl_PopFront (cq_hooks q1, cq_list q1) = (Some x, cq_hooks q1, l')" "flist (cq_hooks q1, l') (y # ys)"
    using q1(2) PopFront_cons unfolding clock_rel_def by metis
  have "fl_head (cq_list q1) = Some x" "fl_head l' = Some y" using q1(2) l'(2) by (simp_all add: clock_rel_def flist_def)
  with q1 l' assms(2) show ?thesis
    by (auto simp: DequeueClockEvent_def set_fl_def arm_front_def clock_rel_def act_def ev_units_def set_units_def)
qed

end
