(* ===== verification/Wait_Manager.thy ===== *)
theory Wait_Manager
  imports Fwd_List Run_Levels
begin

text \<open>
  \<open>kernel/tasking/Waitable.cpp\<close>: waiting for events and signalling them. An event counts its
  signals and lists the entries of the threads that wait for it; a wait for several events is a
  cohort of entries, and it finishes when one of the events (or all of them) has a signal left,
  which it takes. Events and entries are addresses; the calls to the scheduler are recorded as
  actions. Taking a spin lock that is held does not return. The list of the waiting entries (\<open>sl::IntrFwdList\<close>,
  which the repository does not declare) is taken to be the \<open>FwdList\<close> of \<open>Fwd_List\<close>.

  \<open>TryFinish\<close> is characterised on all inputs. A signal of \<open>count\<close> wakes that many of the threads
  that wait for the event alone, in the order in which they started to wait, and leaves the
  signals nobody waited for. Waiting for the same event twice never returns.
\<close>

subsection \<open>State\<close>

record waitable =
  wa_locked :: bool
  wa_waiters :: "size_t fwd_list"
  wa_signals :: size_t

record wait_entry =
  we_event :: size_t
  we_thread :: nat
  we_cohort :: "size_t list"
  we_signalled :: bool
  we_waitAll :: bool

datatype sched_action = Sched_Enqueue nat | Sched_Dequeue nat | Sched_Yield

record wait_state =
  ws_events :: "size_t \<Rightarrow> waitable"
  ws_entries :: "size_t \<Rightarrow> wait_entry"
  ws_hooks :: "size_t hooks"
  ws_level :: run_level
  ws_sched :: "sched_action list"

definition upd_event :: "size_t \<Rightarrow> (waitable \<Rightarrow> waitable) \<Rightarrow> wait_state \<Rightarrow> wait_state" where
  "upd_event v f s = s\<lparr> ws_events := (ws_events s)(v := f (ws_events s v)) \<rparr>"

definition upd_entry :: "size_t \<Rightarrow> (wait_entry \<Rightarrow> wait_entry) \<Rightarrow> wait_state \<Rightarrow> wait_state" where
  "upd_entry e f s = s\<lparr> ws_entries := (ws_entries s)(e := f (ws_entries s e)) \<rparr>"

definition sched :: "sched_action \<Rightarrow> wait_state \<Rightarrow> wait_state" where
  "sched a s = s\<lparr> ws_sched := ws_sched s @ [a] \<rparr>"

definition event_of :: "wait_state \<Rightarrow> size_t \<Rightarrow> size_t" where
  "event_of s e = we_event (ws_entries s e)"

subsection \<open>Locks and run levels\<close>

definition event_Lock :: "size_t \<Rightarrow> wait_state \<Rightarrow> wait_state res" where
  "event_Lock v s =
     (if wa_locked (ws_events s v) then Inl Diverges else Inr (upd_event v (\<lambda>w. w\<lparr> wa_locked := True \<rparr>) s))"

definition event_Unlock :: "size_t \<Rightarrow> wait_state \<Rightarrow> wait_state" where
  "event_Unlock v s = upd_event v (\<lambda>w. w\<lparr> wa_locked := False \<rparr>) s"

definition LockAll :: "size_t list \<Rightarrow> wait_state \<Rightarrow> wait_state res" where
  "LockAll entries s = res_fold (\<lambda>e st. event_Lock (event_of st e) st) entries s"

definition UnlockAll :: "size_t list \<Rightarrow> wait_state \<Rightarrow> wait_state" where
  "UnlockAll entries s = fold (\<lambda>e st. event_Unlock (event_of st e) st) entries s"

definition ensure_dpc :: "wait_state \<Rightarrow> run_level option \<times> wait_state" where
  "ensure_dpc s = (if ws_level s < Dpc then (Some (ws_level s), s\<lparr> ws_level := Dpc \<rparr>) else (None, s))"

definition restore_level :: "run_level option \<Rightarrow> wait_state \<Rightarrow> wait_state" where
  "restore_level prev s = (case prev of None \<Rightarrow> s | Some l \<Rightarrow> s\<lparr> ws_level := l \<rparr>)"

subsection \<open>Finishing a wait\<close>

definition take_signal :: "size_t \<Rightarrow> wait_state \<Rightarrow> wait_state" where
  "take_signal e s =
     upd_entry e (\<lambda>x. x\<lparr> we_signalled := True \<rparr>)
       (upd_event (event_of s e) (\<lambda>w. w\<lparr> wa_signals := sz_sub (wa_signals w) 1 \<rparr>) s)"

definition signals_of :: "wait_state \<Rightarrow> size_t \<Rightarrow> size_t" where
  "signals_of s e = wa_signals (ws_events s (event_of s e))"

text \<open>The first loop of \<open>TryFinish\<close>: a result, or \<open>None\<close> when it falls through to the second one.\<close>

fun finish_scan :: "bool \<Rightarrow> size_t list \<Rightarrow> wait_state \<Rightarrow> (bool \<times> wait_state) option" where
  "finish_scan waitAll [] s = None"
| "finish_scan waitAll (e # es) s =
     (if signals_of s e = 0
      then if waitAll then Some (False, s) else finish_scan waitAll es s
      else if waitAll then finish_scan waitAll es s
      else Some (True, take_signal e s))"

definition TryFinish :: "size_t list \<Rightarrow> bool \<Rightarrow> wait_state \<Rightarrow> bool \<times> wait_state" where
  "TryFinish entries waitAll s =
     (case finish_scan waitAll entries s of
        Some r \<Rightarrow> r
      | None \<Rightarrow> if \<not> waitAll then (False, s) else (True, fold take_signal entries s))"

subsection \<open>Waiting\<close>

definition setup_entry :: "nat \<Rightarrow> size_t list \<Rightarrow> bool \<Rightarrow> size_t \<times> size_t \<Rightarrow> wait_state \<Rightarrow> wait_state" where
  "setup_entry thread entries waitAll p s =
     (case p of (v, e) \<Rightarrow>
       s\<lparr> ws_hooks := (ws_hooks s)(e := None),
          ws_entries := (ws_entries s)(e :=
            \<lparr> we_event = v, we_thread = thread, we_cohort = entries, we_signalled = False, we_waitAll = waitAll \<rparr>) \<rparr>)"

definition add_waiter :: "size_t \<times> size_t \<Rightarrow> wait_state \<Rightarrow> wait_state res" where
  "add_waiter p s =
     (case p of (v, e) \<Rightarrow>
       res_bind (fl_PushBack (ws_hooks s, wa_waiters (ws_events s v)) e) (\<lambda>(h, l).
         Inr (upd_event v (\<lambda>w. w\<lparr> wa_waiters := l \<rparr>) (s\<lparr> ws_hooks := h \<rparr>))))"

abbreviation no_timeout :: size_t where
  "no_timeout \<equiv> 0xFFFFFFFFFFFFFFFF"

definition WaitMany ::
  "nat \<Rightarrow> size_t list \<Rightarrow> size_t list \<Rightarrow> size_t \<Rightarrow> bool \<Rightarrow> wait_state \<Rightarrow> (nat \<times> wait_state) res" where
  "WaitMany thread events entries timeout waitAll s =
     (if length events \<noteq> length entries then Inr (0, s)
      else if timeout \<noteq> 0 \<and> timeout \<noteq> no_timeout then Inr (0, s)
      else
        let (prev, s1) = ensure_dpc s;
            s2 = fold (setup_entry thread entries waitAll) (zip events entries) s1
        in res_bind (LockAll entries s2) (\<lambda>s3.
             let (done, s4) = TryFinish entries waitAll s3
             in if done \<or> timeout = 0 then
                  let s5 = UnlockAll entries s4
                  in Inr (length (filter (\<lambda>e. we_signalled (ws_entries s5 e)) entries), restore_level prev s5)
                else
                  res_bind (res_fold add_waiter (zip events entries) s4) (\<lambda>s5.
                    let s6 = restore_level prev (UnlockAll entries (sched (Sched_Dequeue thread) s5))
                    in Inr (if waitAll then length entries else 1, sched Sched_Yield s6))))"

definition WaitOne :: "nat \<Rightarrow> size_t \<Rightarrow> size_t \<Rightarrow> size_t \<Rightarrow> wait_state \<Rightarrow> (bool \<times> wait_state) res" where
  "WaitOne thread event entry timeout s =
     res_bind (WaitMany thread [event] [entry] timeout False s) (\<lambda>(n, s1). Inr (n = 1, s1))"

definition CancelWait :: "nat \<Rightarrow> wait_state \<Rightarrow> wait_state res" where
  "CancelWait thread s = Inl Unreachable_Hit"

subsection \<open>Signalling\<close>

definition remove_waiter :: "size_t \<Rightarrow> wait_state \<Rightarrow> wait_state res" where
  "remove_waiter e s =
     (let v = event_of s e
      in case fl_Remove (ws_hooks s, wa_waiters (ws_events s v)) (Some e) of
           None \<Rightarrow> Inl Diverges
         | Some r \<Rightarrow>
             res_bind r (\<lambda>(_, h, l). Inr (upd_event v (\<lambda>w. w\<lparr> wa_waiters := l \<rparr>) (s\<lparr> ws_hooks := h \<rparr>))))"

partial_function (option) signal_loop ::
  "size_t \<Rightarrow> size_t option \<Rightarrow> nat \<Rightarrow> wait_state \<Rightarrow> ((nat \<times> wait_state) res) option" where
  "signal_loop event waiter wokeCount s =
     (case waiter of
        None \<Rightarrow> Some (Inr (wokeCount, s))
      | Some w \<Rightarrow>
          let entry = ws_entries s w
          in case res_bind (LockAll (we_cohort entry) s) (\<lambda>s1.
                    let (done, s2) = TryFinish (we_cohort entry) (we_waitAll entry) s1
                    in if done
                       then res_bind (res_fold remove_waiter (we_cohort entry) s2) (\<lambda>s3.
                              Inr (wokeCount + 1, UnlockAll (we_cohort entry) (sched (Sched_Enqueue (we_thread entry)) s3)))
                       else Inr (wokeCount, UnlockAll (we_cohort entry) s2)) of
               Inl e \<Rightarrow> Some (Inl e)
             | Inr (n, s4) \<Rightarrow>
                 (case event_Lock event s4 of
                    Inl e \<Rightarrow> Some (Inl e)
                  | Inr s5 \<Rightarrow>
                      let s6 = event_Unlock event s5
                      in if wa_signals (ws_events s5 event) = 0 then Some (Inr (n, s6))
                         else signal_loop event (ws_hooks s6 w) n s6))"

definition wait_Signal :: "size_t option \<Rightarrow> size_t \<Rightarrow> wait_state \<Rightarrow> ((nat \<times> wait_state) res) option" where
  "wait_Signal ev n s =
     (case ev of
        None \<Rightarrow> Some (Inl Assert_Failed)
      | Some event \<Rightarrow>
          let (prev, s1) = ensure_dpc s
          in case event_Lock event s1 of
               Inl e \<Rightarrow> Some (Inl e)
             | Inr s2 \<Rightarrow>
                 let s3 = event_Unlock event (upd_event event (\<lambda>w. w\<lparr> wa_signals := sz_add (wa_signals w) n \<rparr>) s2)
                 in (case signal_loop event (fl_head (wa_waiters (ws_events s3 event))) 0 s3 of
                       None \<Rightarrow> None
                     | Some r \<Rightarrow> Some (res_bind r (\<lambda>(k, s4). Inr (k, restore_level prev s4)))))"

subsection \<open>Finishing a wait\<close>

lemma finish_scan_any:
  "finish_scan False es s = map_option (\<lambda>e. (True, take_signal e s)) (find (\<lambda>e. signals_of s e \<noteq> 0) es)"
  by (induction es) simp_all

lemma finish_scan_all:
  "finish_scan True es s = (if \<forall>e \<in> set es. signals_of s e \<noteq> 0 then None else Some (False, s))"
  by (induction es) simp_all

lemma TryFinish_any:
  "TryFinish es False s =
     (case find (\<lambda>e. signals_of s e \<noteq> 0) es of None \<Rightarrow> (False, s) | Some e \<Rightarrow> (True, take_signal e s))"
  by (simp add: TryFinish_def finish_scan_any split: option.split)

lemma TryFinish_all:
  "TryFinish es True s =
     (if \<forall>e \<in> set es. signals_of s e \<noteq> 0 then (True, fold take_signal es s) else (False, s))"
  by (simp add: TryFinish_def finish_scan_all)

lemma upd_simps [simp]:
  "ws_events (upd_event v f s) = (ws_events s)(v := f (ws_events s v))" "ws_entries (upd_event v f s) = ws_entries s"
  "ws_hooks (upd_event v f s) = ws_hooks s" "ws_sched (upd_event v f s) = ws_sched s" "ws_level (upd_event v f s) = ws_level s"
  "ws_entries (upd_entry e g s) = (ws_entries s)(e := g (ws_entries s e))" "ws_events (upd_entry e g s) = ws_events s"
  "ws_hooks (upd_entry e g s) = ws_hooks s" "ws_sched (upd_entry e g s) = ws_sched s" "ws_level (upd_entry e g s) = ws_level s"
  "ws_events (sched a s) = ws_events s" "ws_entries (sched a s) = ws_entries s" "ws_hooks (sched a s) = ws_hooks s"
  "ws_sched (sched a s) = ws_sched s @ [a]" "ws_level (sched a s) = ws_level s"
  by (simp_all add: upd_event_def upd_entry_def sched_def)

text \<open>Taking one signal of each of several different events.\<close>

lemma fold_take_signals:
  assumes "distinct es" and "distinct (map (event_of s) es)" and "e \<in> set es"
    and "\<forall>e \<in> set es. 0 < signals_of s e \<and> signals_of s e < size_limit"
  shows "signals_of (fold take_signal es s) e = signals_of s e - 1" "we_signalled (ws_entries (fold take_signal es s) e)"
proof -
  have ev: "event_of (take_signal x t) y = event_of t y" for x t y
    by (simp add: take_signal_def event_of_def)
  have sig: "signals_of (take_signal x t) y =
      (if event_of t y = event_of t x then sz_sub (signals_of t y) 1 else signals_of t y)" for x t y
    by (simp add: signals_of_def ev) (simp add: take_signal_def event_of_def)
  have mono: "we_signalled (ws_entries t y) \<Longrightarrow> we_signalled (ws_entries (fold take_signal xs t) y)" for xs t y
    by (induction xs arbitrary: t) (auto simp: take_signal_def)
  have other: "event_of t y \<notin> event_of t ` set xs \<Longrightarrow> signals_of (fold take_signal xs t) y = signals_of t y" for xs t y
  proof (induction xs arbitrary: t)
    case (Cons x xs)
    then have "signals_of (fold take_signal xs (take_signal x t)) y = signals_of (take_signal x t) y"
      by (intro Cons.IH) (simp add: ev)
    with Cons.prems show ?case by (simp add: sig)
  qed simp
  have "signals_of (fold take_signal es s) e = signals_of s e - 1 \<and> we_signalled (ws_entries (fold take_signal es s) e)"
    using assms
  proof (induction es arbitrary: s)
    case (Cons x xs)
    show ?case
    proof (cases "e = x")
      case True
      with Cons.prems have "signals_of (fold take_signal xs (take_signal x s)) e = signals_of (take_signal x s) e"
        by (intro other) (auto simp: ev)
      moreover have "signals_of (take_signal x s) e = signals_of s e - 1"
        using Cons.prems(4) True by (simp add: sig sz_sub_eq)
      moreover have "we_signalled (ws_entries (fold take_signal xs (take_signal x s)) e)"
        using True by (intro mono) (simp add: take_signal_def)
      ultimately show ?thesis by simp
    next
      case False
      with Cons.prems have e: "e \<in> set xs" "event_of s e \<noteq> event_of s x" by (auto simp: image_iff)
      have "\<forall>y \<in> set xs. signals_of (take_signal x s) y = signals_of s y"
        using Cons.prems(2) by (auto simp: sig image_iff)
      moreover from this have "signals_of (fold take_signal xs (take_signal x s)) e = signals_of (take_signal x s) e - 1 \<and>
          we_signalled (ws_entries (fold take_signal xs (take_signal x s)) e)"
        using Cons.prems e(1) by (intro Cons.IH) (auto simp: ev)
      ultimately show ?thesis using e(1) by simp
    qed
  qed simp
  then show "signals_of (fold take_signal es s) e = signals_of s e - 1" "we_signalled (ws_entries (fold take_signal es s) e)"
    by blast+
qed

subsection \<open>Signals wake the waiters in order\<close>

text \<open>The threads \<open>xs\<close> wait for the event \<open>v\<close> and for nothing else, with \<open>c\<close> signals left.\<close>

definition waits_alone :: "wait_state \<Rightarrow> size_t \<Rightarrow> size_t list \<Rightarrow> nat \<Rightarrow> bool" where
  "waits_alone s v xs c \<longleftrightarrow>
     \<not> wa_locked (ws_events s v) \<and> flist (ws_hooks s, wa_waiters (ws_events s v)) xs \<and>
     wa_signals (ws_events s v) = c \<and> (\<forall>x \<in> set xs. event_of s x = v \<and> we_cohort (ws_entries s x) = [x])"

lemma TryFinish_single:
  "TryFinish [x] b s = (if signals_of s x = 0 then (False, s) else (True, take_signal x s))"
  by (cases b) (simp_all add: TryFinish_any TryFinish_all)

lemma remove_first_waiter:
  assumes "flist (ws_hooks s, wa_waiters (ws_events s v)) (x # xs)" and "event_of s x = v"
  shows "\<exists>l. remove_waiter x s = Inr (upd_event v (\<lambda>w. w\<lparr> wa_waiters := l \<rparr>) s) \<and> flist (ws_hooks s, l) xs"
proof -
  obtain l where l: "fl_PopFront (ws_hooks s, wa_waiters (ws_events s v)) = (Some x, ws_hooks s, l)" "flist (ws_hooks s, l) xs"
    using PopFront_cons [OF assms(1)] by blast
  have "fl_head (wa_waiters (ws_events s v)) = Some x" using assms(1) by (simp add: flist_def)
  with l(1) assms(2) have "remove_waiter x s = Inr (upd_event v (\<lambda>w. w\<lparr> wa_waiters := l \<rparr>) (s\<lparr> ws_hooks := ws_hooks s \<rparr>))"
    by (simp add: remove_waiter_def fl_Remove_def)
  with l(2) show ?thesis by auto
qed

lemma signal_step:
  assumes w: "waits_alone s v (x # xs) c" and c: "0 < c" "c < size_limit"
  shows "\<exists>s'. signal_loop v (Some x) n s =
      (if c = 1 then Some (Inr (n + 1, s')) else signal_loop v (fl_head (wa_waiters (ws_events s' v))) (n + 1) s') \<and>
    waits_alone s' v xs (c - 1) \<and> ws_level s' = ws_level s \<and>
    ws_sched s' = ws_sched s @ [Sched_Enqueue (we_thread (ws_entries s x))] \<and>
    (\<forall>y \<in> set xs. we_thread (ws_entries s' y) = we_thread (ws_entries s y))"
proof -
  have x: "event_of s x = v" "we_cohort (ws_entries s x) = [x]" "\<not> wa_locked (ws_events s v)"
      "flist (ws_hooks s, wa_waiters (ws_events s v)) (x # xs)" "wa_signals (ws_events s v) = c"
    using w by (simp_all add: waits_alone_def)
  have ne: "x \<notin> set xs" using flist_distinct [OF x(4)] by simp
  define s1 where "s1 = upd_event v (\<lambda>w. w\<lparr> wa_locked := True \<rparr>) s"
  have lock: "LockAll [x] s = Inr s1" using x by (simp add: LockAll_def event_Lock_def s1_def)
  have v1: "event_of s1 x = v" "signals_of s1 x = c" using x by (simp_all add: s1_def event_of_def signals_of_def)
  define s2 where "s2 = take_signal x s1"
  have fin: "TryFinish [x] b s1 = (True, s2)" for b using v1 c by (simp add: TryFinish_single s2_def)
  have v2: "ws_hooks s2 = ws_hooks s" "event_of s2 x = v" "wa_waiters (ws_events s2 v) = wa_waiters (ws_events s v)"
      "wa_signals (ws_events s2 v) = c - 1"
    using v1 x c by (simp_all add: s2_def take_signal_def s1_def event_of_def sz_sub_eq)
  then obtain l where l: "remove_waiter x s2 = Inr (upd_event v (\<lambda>w. w\<lparr> wa_waiters := l \<rparr>) s2)" "flist (ws_hooks s, l) xs"
    using remove_first_waiter [of s2 v x xs] x(4) by auto
  define s4 where "s4 = UnlockAll [x] (sched (Sched_Enqueue (we_thread (ws_entries s x)))
    (upd_event v (\<lambda>w. w\<lparr> wa_waiters := l \<rparr>) s2))"
  have f4: "ws_hooks s4 = ws_hooks s" "wa_waiters (ws_events s4 v) = l" "wa_signals (ws_events s4 v) = c - 1"
      "\<not> wa_locked (ws_events s4 v)" "ws_level s4 = ws_level s"
      "ws_sched s4 = ws_sched s @ [Sched_Enqueue (we_thread (ws_entries s x))]"
      "\<forall>y. y \<noteq> x \<longrightarrow> ws_entries s4 y = ws_entries s y"
    using v2 v1(1) x(1) by (auto simp: s4_def UnlockAll_def event_Unlock_def event_of_def s2_def take_signal_def s1_def)
  define s5 where "s5 = event_Unlock v (upd_event v (\<lambda>w. w\<lparr> wa_locked := True \<rparr>) s4)"
  have hx: "ws_hooks s5 x = fl_head l"
    using x(4) l(2) f4(1) linked_unique by (cases xs) (auto simp: s5_def event_Unlock_def flist_def)
  have "signal_loop v (Some x) n s = (if c - 1 = 0 then Some (Inr (n + 1, s5)) else signal_loop v (ws_hooks s5 x) (n + 1) s5)"
    by (subst signal_loop.simps)
      (simp add: Let_def x(2) lock fin l(1) s4_def [symmetric] event_Lock_def f4(3,4) s5_def [symmetric])
  moreover have "wa_waiters (ws_events s5 v) = l" using f4 by (simp add: s5_def event_Unlock_def)
  moreover have "waits_alone s5 v xs (c - 1)"
    using f4 l(2) w ne by (auto simp: waits_alone_def s5_def event_Unlock_def event_of_def)
  moreover have "ws_level s5 = ws_level s" "ws_sched s5 = ws_sched s @ [Sched_Enqueue (we_thread (ws_entries s x))]"
      "\<forall>y \<in> set xs. we_thread (ws_entries s5 y) = we_thread (ws_entries s y)"
    using f4 ne by (auto simp: s5_def event_Unlock_def)
  ultimately show ?thesis using hx c by (intro exI [of _ s5]) auto
qed

lemma signal_loop_idle:
  assumes "waits_alone s v (x # xs) 0"
  shows "\<exists>s'. signal_loop v (Some x) n s = Some (Inr (n, s')) \<and> waits_alone s' v (x # xs) 0 \<and>
    ws_level s' = ws_level s \<and> ws_sched s' = ws_sched s"
proof -
  have x: "event_of s x = v" "we_cohort (ws_entries s x) = [x]" "\<not> wa_locked (ws_events s v)" "wa_signals (ws_events s v) = 0"
    using assms by (simp_all add: waits_alone_def)
  define s1 where "s1 = upd_event v (\<lambda>w. w\<lparr> wa_locked := True \<rparr>) s"
  have lock: "LockAll [x] s = Inr s1" using x by (simp add: LockAll_def event_Lock_def s1_def)
  have fin: "TryFinish [x] b s1 = (False, s1)" for b
    using x by (simp add: TryFinish_single signals_of_def s1_def event_of_def)
  let ?s2 = "UnlockAll [x] s1"
  let ?s3 = "upd_event v (\<lambda>w. w\<lparr> wa_locked := True \<rparr>) ?s2"
  have s2: "\<not> wa_locked (ws_events ?s2 v)" "wa_signals (ws_events ?s2 v) = 0"
    using x by (simp_all add: UnlockAll_def event_Unlock_def s1_def event_of_def)
  have "signal_loop v (Some x) n s = Some (Inr (n, event_Unlock v ?s3))"
    by (subst signal_loop.simps) (simp add: Let_def x(2) lock fin event_Lock_def s2)
  moreover have "waits_alone (event_Unlock v ?s3) v (x # xs) 0"
    using assms x by (auto simp: waits_alone_def event_Unlock_def UnlockAll_def s1_def event_of_def)
  ultimately show ?thesis by (auto simp: event_Unlock_def UnlockAll_def s1_def)
qed

lemma signal_loop_ok:
  assumes "waits_alone s v xs c" and "c < size_limit"
  shows "\<exists>s'. signal_loop v (fl_head (wa_waiters (ws_events s v))) n s = Some (Inr (n + min c (length xs), s')) \<and>
    waits_alone s' v (drop c xs) (c - length xs) \<and> ws_level s' = ws_level s \<and>
    ws_sched s' = ws_sched s @ map (\<lambda>x. Sched_Enqueue (we_thread (ws_entries s x))) (take c xs)"
  using assms
proof (induction xs arbitrary: s c n)
  case Nil
  then have "fl_head (wa_waiters (ws_events s v)) = None" by (simp add: waits_alone_def flist_def)
  then show ?case using Nil.prems by (subst signal_loop.simps) simp
next
  case (Cons x xs)
  have head: "fl_head (wa_waiters (ws_events s v)) = Some x" using Cons.prems(1) by (simp add: waits_alone_def flist_def)
  show ?case
  proof (cases "c = 0")
    case True
    then show ?thesis using signal_loop_idle [of s v x xs n] Cons.prems(1) head by simp
  next
    case False
    then have c: "0 < c" "c < size_limit" using Cons.prems(2) by simp_all
    obtain s' where s': "signal_loop v (Some x) n s =
        (if c = 1 then Some (Inr (n + 1, s')) else signal_loop v (fl_head (wa_waiters (ws_events s' v))) (n + 1) s')"
      "waits_alone s' v xs (c - 1)" "ws_level s' = ws_level s"
      "ws_sched s' = ws_sched s @ [Sched_Enqueue (we_thread (ws_entries s x))]"
      "\<forall>y \<in> set xs. we_thread (ws_entries s' y) = we_thread (ws_entries s y)"
      using signal_step [OF Cons.prems(1) c] by blast
    show ?thesis
    proof (cases "c = 1")
      case True
      then show ?thesis using s' head by simp
    next
      case two: False
      have "c - 1 < size_limit" using c by simp
      from Cons.IH [OF s'(2) this, of "n + 1"] obtain s'' where
        "signal_loop v (fl_head (wa_waiters (ws_events s' v))) (n + 1) s' = Some (Inr (n + 1 + min (c - 1) (length xs), s''))"
        "waits_alone s'' v (drop (c - 1) xs) (c - 1 - length xs)" "ws_level s'' = ws_level s'"
        "ws_sched s'' = ws_sched s' @ map (\<lambda>x. Sched_Enqueue (we_thread (ws_entries s' x))) (take (c - 1) xs)"
        by blast
      moreover have "map (\<lambda>x. Sched_Enqueue (we_thread (ws_entries s' x))) (take (c - 1) xs) =
          map (\<lambda>x. Sched_Enqueue (we_thread (ws_entries s x))) (take (c - 1) xs)"
        using s'(5) by (auto dest: in_set_takeD)
      moreover obtain k where "c = Suc k" using False by (cases c) auto
      ultimately show ?thesis using s'(1,3,4) head two by auto
    qed
  qed
qed

text \<open>C29: signals wake the threads that wait for an event in the order in which they started to wait. If
  each of the waiters waits for this event alone, \<open>Signal\<close> returns, wakes as many of them from
  the front of the queue as there are signals, reports their number, keeps the signals nobody took, and leaves the
  run level and the lock as they were.
\<close>

theorem wait_signal_fifo:
  assumes "waits_alone s v xs c" and "c + n < size_limit"
  shows "\<exists>s'. wait_Signal (Some v) n s = Some (Inr (min (c + n) (length xs), s')) \<and>
    waits_alone s' v (drop (c + n) xs) (c + n - length xs) \<and> ws_level s' = ws_level s \<and>
    ws_sched s' = ws_sched s @ map (\<lambda>x. Sched_Enqueue (we_thread (ws_entries s x))) (take (c + n) xs)"
proof -
  obtain prev s1 where e: "ensure_dpc s = (prev, s1)" by (cases "ensure_dpc s")
  have s1: "ws_events s1 = ws_events s" "ws_entries s1 = ws_entries s" "ws_hooks s1 = ws_hooks s" "ws_sched s1 = ws_sched s"
    using e by (auto simp: ensure_dpc_def split: if_splits)
  have level: "ws_level (restore_level prev t) = ws_level s" if "ws_level t = ws_level s1" for t
    using e that by (auto simp: ensure_dpc_def restore_level_def split: if_splits)
  let ?s2 = "upd_event v (\<lambda>w. w\<lparr> wa_locked := True \<rparr>) s1"
  let ?s3 = "event_Unlock v (upd_event v (\<lambda>w. w\<lparr> wa_signals := sz_add (wa_signals w) n \<rparr>) ?s2)"
  have w: "waits_alone ?s3 v xs (c + n)"
    using assms s1 by (auto simp: waits_alone_def event_Unlock_def event_of_def sz_add_eq)
  from signal_loop_ok [OF w assms(2), of 0] obtain s' where s':
      "signal_loop v (fl_head (wa_waiters (ws_events ?s3 v))) 0 ?s3 = Some (Inr (min (c + n) (length xs), s'))"
      "waits_alone s' v (drop (c + n) xs) (c + n - length xs)" "ws_level s' = ws_level s1"
      "ws_sched s' = ws_sched s @ map (\<lambda>x. Sched_Enqueue (we_thread (ws_entries s x))) (take (c + n) xs)"
    using s1 by (auto simp: event_Unlock_def)
  have "\<not> wa_locked (ws_events s v)" using assms(1) by (simp add: waits_alone_def)
  then have "wait_Signal (Some v) n s = Some (Inr (min (c + n) (length xs), restore_level prev s'))"
    using s'(1) e s1(1) by (simp add: wait_Signal_def Let_def event_Lock_def)
  moreover have "ws_events (restore_level prev s') = ws_events s'" "ws_entries (restore_level prev s') = ws_entries s'"
      "ws_hooks (restore_level prev s') = ws_hooks s'" "ws_sched (restore_level prev s') = ws_sched s'"
    by (auto simp: restore_level_def split: option.split)
  ultimately show ?thesis using s'(2,4) level [OF s'(3)] by (auto simp: waits_alone_def event_of_def)
qed

definition demo_wait :: wait_state where
  "demo_wait = \<lparr> ws_events = (\<lambda>_. \<lparr> wa_locked = False, wa_waiters = \<lparr> fl_head = Some 10, fl_tail = Some 12 \<rparr>, wa_signals = 0 \<rparr>),
     ws_entries = (\<lambda>e. \<lparr> we_event = 1, we_thread = e, we_cohort = [e], we_signalled = False, we_waitAll = False \<rparr>),
     ws_hooks = (\<lambda>_. None)(10 := Some 11, 11 := Some 12), ws_level = Normal, ws_sched = [] \<rparr>"

theorem wait_signal_fifo_witness:
  "\<exists>s'. wait_Signal (Some 1) 2 demo_wait = Some (Inr (2, s')) \<and> waits_alone s' 1 [12] 0 \<and>
     ws_sched s' = [Sched_Enqueue 10, Sched_Enqueue 11]"
proof -
  have "waits_alone demo_wait 1 [10, 11, 12] 0"
    by (simp add: waits_alone_def demo_wait_def flist_def event_of_def)
  moreover have "0 + 2 < size_limit" by (simp add: size_limit_def)
  ultimately have "\<exists>s'. wait_Signal (Some 1) 2 demo_wait = Some (Inr (min (0 + 2) (length [10, 11, 12::nat]), s')) \<and>
      waits_alone s' 1 (drop (0 + 2) [10, 11, 12]) (0 + 2 - length [10, 11, 12::nat]) \<and> ws_level s' = ws_level demo_wait \<and>
      ws_sched s' = ws_sched demo_wait @ map (\<lambda>x. Sched_Enqueue (we_thread (ws_entries demo_wait x))) (take (0 + 2) [10, 11, 12])"
    by (rule wait_signal_fifo)
  then show ?thesis by (auto simp: demo_wait_def)
qed

subsection \<open>Waiting for one event twice\<close>

lemma fold_setup_events: "ws_events (fold (setup_entry t es b) ps s) = ws_events s"
  by (induction ps arbitrary: s) (simp_all add: setup_entry_def split: prod.split)

lemma LockAll_twice:
  assumes "event_of s e = v" and "event_of s f = v" and "\<not> wa_locked (ws_events s v)"
  shows "LockAll (e # f # es) s = Inl Diverges"
  using assms by (simp add: LockAll_def event_Lock_def event_of_def)

text \<open>A wait for two entries of the same event takes its lock twice and never returns.\<close>

lemma WaitMany_same_event:
  assumes "e \<noteq> f" and "\<not> wa_locked (ws_events s v)" and "timeout = 0 \<or> timeout = no_timeout"
  shows "WaitMany t [v, v] [e, f] timeout b s = Inl Diverges"
proof -
  obtain prev s1 where s1: "ensure_dpc s = (prev, s1)" "ws_events s1 = ws_events s"
    by (cases "ensure_dpc s") (auto simp: ensure_dpc_def split: if_splits)
  let ?s2 = "fold (setup_entry t [e, f] b) (zip [v, v] [e, f]) s1"
  have "LockAll [e, f] ?s2 = Inl Diverges"
    using assms(1,2) s1(2) by (intro LockAll_twice [of _ _ v]) (auto simp: event_of_def setup_entry_def)
  with assms(3) s1(1) show ?thesis by (auto simp: WaitMany_def Let_def)
qed

end
