(* ===== verification/File_Cache.thy ===== *)
theory File_Cache
  imports RB_Check RB_Data Syslib_Maths
begin

text \<open>
  \<open>kernel/filesystem/FileCache.cpp\<close>: the cached parts of files. A file cache keeps its units in a
  red-black tree; the tree is ordered by the physical address of a unit (\<open>FcuLess\<close>), while lookups
  descend by the offset in the file. Units are addresses, with their hooks and contents in the
  tree; the caches form a list and are referred to by index. New units and their memory are
  arguments: the address of the new object and what the physical memory manager returns
  (zero for nothing). The references that returned handles hold are not counted. The end of a unit is
  computed as a \<open>size_t\<close> and wraps. Loops along the tree return \<open>None\<close> when they do not end.

  A unit is found by its offset when the two orders agree. When they do not, a unit that was just
  created is missed by the next lookup. Cutting a file off below a cached unit never ends.
\<close>

subsection \<open>State\<close>

record vfs_id =
  vi_driver :: size_t
  vi_vnode :: size_t

record fcu =
  fu_refs :: size_t
  fu_owner :: "nat option"
  fu_physBase :: size_t
  fu_offset :: size_t
  fu_writable :: bool
  fu_dirty :: bool

type_synonym fcu_tree = "(size_t, fcu) rb_tree"

record file_cache =
  fc_refs :: size_t
  fc_id :: vfs_id
  fc_length :: size_t
  fc_units :: fcu_tree

record file_cache_info =
  fi_unitSize :: size_t
  fi_hatMode :: size_t
  fi_modeMultiple :: size_t

record mount_options =
  mo_writable :: bool
  mo_uncachable :: bool

record file_caches =
  fs_info :: file_cache_info
  fs_caches :: "file_cache list"
  fs_links :: "size_t \<Rightarrow> nat option"

abbreviation cache_PageSize :: size_t where
  "cache_PageSize \<equiv> 0x1000"

definition blank_unit :: fcu where
  "blank_unit = \<lparr> fu_refs = 0, fu_owner = None, fu_physBase = 0, fu_offset = 0, fu_writable = False, fu_dirty = False \<rparr>"

definition empty_units :: fcu_tree where
  "empty_units = \<lparr> rb_root = None, rb_hooks = (\<lambda>_. HookStruct), rb_data = (\<lambda>_. blank_unit) \<rparr>"

subsection \<open>Units of the cache\<close>

text \<open>What is given back: the first physical page and the number of pages.\<close>

definition CleanupFileCacheUnit :: "file_cache_info \<Rightarrow> fcu \<Rightarrow> (size_t \<times> size_t) res" where
  "CleanupFileCacheUnit info u =
     (if fu_owner u \<noteq> None \<or> fu_refs u \<noteq> 0 \<or> fu_dirty u then Inl Assert_Failed
      else Inr (fu_physBase u, fi_unitSize info div cache_PageSize))"

fun select_mode :: "size_t list \<Rightarrow> size_t \<Rightarrow> file_cache_info \<Rightarrow> file_cache_info" where
  "select_mode [] i info = info"
| "select_mode (g # gs) i info =
     select_mode gs (i + 1)
       (if g < fi_unitSize info
        then \<lparr> fi_unitSize = sz_mul g 4, fi_hatMode = i, fi_modeMultiple = 4 \<rparr>
        else info)"

definition InitFileCache :: "size_t list \<Rightarrow> file_caches \<Rightarrow> file_caches res" where
  "InitFileCache granularities s =
     (let info = select_mode granularities 0 ((fs_info s)\<lparr> fi_unitSize := size_limit - 1 \<rparr>)
      in if fi_unitSize info = size_limit - 1 \<or> \<not> IsPowerOfTwo (word_of_nat (fi_unitSize info)) then Inl Assert_Failed
         else Inr (s\<lparr> fs_info := info \<rparr>))"

definition GetFileCacheInfo :: "file_caches \<Rightarrow> file_cache_info" where
  "GetFileCacheInfo s = fs_info s"

fun find_cache :: "vfs_id \<Rightarrow> file_cache list \<Rightarrow> nat \<Rightarrow> nat option" where
  "find_cache vid [] i = None"
| "find_cache vid (c # cs) i =
     (if vi_driver (fc_id c) \<noteq> vi_driver vid then find_cache vid cs (i + 1)
      else if vi_vnode (fc_id c) \<noteq> vi_vnode vid then find_cache vid cs (i + 1)
      else Some i)"

text \<open>\<open>mountOpts\<close> is the result of \<open>VfsGetMountOptions\<close> for the driver of the file.\<close>

definition GetFileCache :: "mount_options option \<Rightarrow> vfs_id \<Rightarrow> file_caches \<Rightarrow> nat option \<times> file_caches" where
  "GetFileCache mountOpts vid s =
     (case mountOpts of
        None \<Rightarrow> (None, s)
      | Some opts \<Rightarrow>
          if mo_uncachable opts then (None, s)
          else case find_cache vid (fs_caches s) 0 of
                 Some i \<Rightarrow> (Some i, s)
               | None \<Rightarrow>
                   (Some (length (fs_caches s)),
                    s\<lparr> fs_caches := fs_caches s @
                         [\<lparr> fc_refs = 1, fc_id = vid, fc_length = 0, fc_units = empty_units \<rparr>] \<rparr>))"

definition release_unit :: "size_t \<Rightarrow> fcu_tree \<Rightarrow> fcu_tree" where
  "release_unit u t =
     t\<lparr> rb_data := (rb_data t)(u := (rb_data t u)\<lparr> fu_owner := None, fu_refs := sz_sub (fu_refs (rb_data t u)) 1 \<rparr>) \<rparr>"

partial_function (option) TrimFcuNode :: "size_t \<Rightarrow> fcu_tree \<Rightarrow> fcu_tree option" where
  "TrimFcuNode u t =
     Option.bind (case hk_left (rb_hooks t u) of None \<Rightarrow> Some t | Some l \<Rightarrow> TrimFcuNode l t) (\<lambda>t1.
     Option.bind (case hk_right (rb_hooks t1 u) of None \<Rightarrow> Some t1 | Some r \<Rightarrow> TrimFcuNode r t1) (\<lambda>t2.
       Some (release_unit u t2)))"

partial_function (option) trim_loop :: "size_t \<Rightarrow> size_t option \<Rightarrow> fcu_tree \<Rightarrow> fcu_tree option" where
  "trim_loop len scan t =
     (case scan of
        None \<Rightarrow> Some t
      | Some u \<Rightarrow>
          if fu_offset (rb_data t u) < len then trim_loop len (hk_right (rb_hooks t u)) t
          else Option.bind (TrimFcuNode u t) (\<lambda>t1. trim_loop len (rb_root t1) t1))"

definition set_cache :: "nat \<Rightarrow> (file_cache \<Rightarrow> file_cache) \<Rightarrow> file_caches \<Rightarrow> file_caches" where
  "set_cache i f s = s\<lparr> fs_caches := (fs_caches s)[i := f (fs_caches s ! i)] \<rparr>"

definition SetFileCacheLength :: "nat option \<Rightarrow> size_t \<Rightarrow> file_caches \<Rightarrow> (bool \<times> file_caches) option" where
  "SetFileCacheLength cache len s =
     (case cache of
        None \<Rightarrow> Some (False, s)
      | Some i \<Rightarrow>
          let old = fc_length (fs_caches s ! i);
              s1 = set_cache i (\<lambda>c. c\<lparr> fc_length := len \<rparr>) s
          in if old \<le> len then Some (True, s1)
             else Option.bind (trim_loop len (rb_root (fc_units (fs_caches s1 ! i))) (fc_units (fs_caches s1 ! i))) (\<lambda>t.
                    Some (True, set_cache i (\<lambda>c. c\<lparr> fc_units := t \<rparr>) s1)))"

partial_function (option) find_unit :: "size_t \<Rightarrow> size_t \<Rightarrow> size_t option \<Rightarrow> fcu_tree \<Rightarrow> (size_t option) option" where
  "find_unit unitSize off scan t =
     (case scan of
        None \<Rightarrow> Some None
      | Some u \<Rightarrow>
          if fu_offset (rb_data t u) \<le> off \<and> off < sz_add (fu_offset (rb_data t u)) unitSize then Some (Some u)
          else if off < fu_offset (rb_data t u) then find_unit unitSize off (hk_left (rb_hooks t u)) t
          else find_unit unitSize off (hk_right (rb_hooks t u)) t)"

definition FcuLess :: "fcu_tree \<Rightarrow> size_t \<Rightarrow> size_t \<Rightarrow> bool" where
  "FcuLess t a b = (fu_physBase (rb_data t a) < fu_physBase (rb_data t b))"

definition new_unit :: "nat \<Rightarrow> mount_options \<Rightarrow> size_t \<Rightarrow> size_t \<Rightarrow> size_t \<Rightarrow> fcu_tree \<Rightarrow> fcu_tree option" where
  "new_unit cache opts addr phys off t =
     (let u = \<lparr> fu_refs = 1, fu_owner = Some cache, fu_physBase = phys, fu_offset = off,
                fu_writable = mo_writable opts, fu_dirty = False \<rparr>;
          t1 = construct addr u t
      in rb_Insert NullAggregator (FcuLess t1) addr t1)"

definition GetFileCacheUnit ::
  "mount_options option \<Rightarrow> size_t \<Rightarrow> size_t \<Rightarrow> nat option \<Rightarrow> size_t \<Rightarrow> file_caches \<Rightarrow> (size_t option \<times> file_caches) option" where
  "GetFileCacheUnit mountOpts phys addr cache fileOffset s =
     (case cache of
        None \<Rightarrow> Some (None, s)
      | Some i \<Rightarrow>
          let off = AlignDown fileOffset (fi_unitSize (fs_info s));
              t = fc_units (fs_caches s ! i)
          in if \<not> off < fc_length (fs_caches s ! i) then Some (None, s)
             else Option.bind (find_unit (fi_unitSize (fs_info s)) off (rb_root t) t) (\<lambda>found.
               case found of
                 Some u \<Rightarrow> Some (Some u, s)
               | None \<Rightarrow>
                   (case mountOpts of
                      None \<Rightarrow> Some (None, s)
                    | Some opts \<Rightarrow>
                        if phys = 0 then Some (None, s)
                        else Option.bind (new_unit i opts addr phys off t) (\<lambda>t1.
                          Some (Some addr, (set_cache i (\<lambda>c. c\<lparr> fc_units := t1 \<rparr>) s)\<lparr>
                            fs_links := (fs_links s)(phys := Some i) \<rparr>)))))"

subsection \<open>Looking up a unit\<close>

definition unit_at :: "size_t \<Rightarrow> size_t \<Rightarrow> fcu_tree \<Rightarrow> size_t \<Rightarrow> bool" where
  "unit_at unitSize off t u \<longleftrightarrow> fu_offset (rb_data t u) \<le> off \<and> off < fu_offset (rb_data t u) + unitSize"

text \<open>The units in the order of the tree are in the order of their offsets and do not overlap, and the end of
  each of them is a value of \<open>size_t\<close>: the sum in the loop of the lookup does not wrap.\<close>

definition offset_order :: "size_t \<Rightarrow> fcu_tree \<Rightarrow> size_t list \<Rightarrow> bool" where
  "offset_order unitSize t us \<longleftrightarrow>
     sorted_wrt (\<lambda>a b. fu_offset (rb_data t a) + unitSize \<le> fu_offset (rb_data t b)) us \<and>
     (\<forall>u \<in> set us. fu_offset (rb_data t u) + unitSize < size_limit)"

lemma zip_hooks:
  assumes "zip_ok s (Bin c l n r) cs"
  shows "hk_left (rb_hooks s n) = ptr l" "hk_right (rb_hooks s n) = ptr r"
  using zip_read(2,3) [OF assms] by (simp_all add: GetLeft_def GetRight_def hk_def)

lemma find_unit_ok:
  assumes "zip_ok s t cs" and "offset_order unitSize s (inord t)"
  shows "find_unit unitSize off (ptr t) s = Some (find (unit_at unitSize off s) (inord t))"
  using assms
proof (induction t arbitrary: cs)
  case Tip
  then show ?case by (subst find_unit.simps) simp
next
  case (Bin c l n r)
  have z: "zip_ok s l (LF c n r # cs)" "zip_ok s r (RF c l n # cs)" using Bin.prems(1) by (simp_all add: zip_up)
  have o: "offset_order unitSize s (inord l)" "offset_order unitSize s (inord r)"
      "\<forall>a \<in> set (inord l). fu_offset (rb_data s a) + unitSize \<le> fu_offset (rb_data s n)"
      "\<forall>b \<in> set (inord r). fu_offset (rb_data s n) + unitSize \<le> fu_offset (rb_data s b)"
    using Bin.prems(2) by (auto simp: offset_order_def sorted_wrt_append)
  have end_n: "sz_add (fu_offset (rb_data s n)) unitSize = fu_offset (rb_data s n) + unitSize"
    using Bin.prems(2) by (simp add: offset_order_def sz_add_def)
  note hooks = zip_hooks [OF Bin.prems(1)]
  consider "unit_at unitSize off s n" | "off < fu_offset (rb_data s n)" | "fu_offset (rb_data s n) + unitSize \<le> off"
    unfolding unit_at_def by linarith
  then show ?case
  proof cases
    case 1
    have "find (unit_at unitSize off s) (inord l) = None"
      using o(3) 1 by (intro find_none) (fastforce simp: unit_at_def)
    with 1 show ?thesis by (subst find_unit.simps) (simp add: find_append unit_at_def end_n)
  next
    case 2
    have "find (unit_at unitSize off s) (n # inord r) = None"
      using o(4) 2 by (intro find_none) (fastforce simp: unit_at_def)
    then have "find (unit_at unitSize off s) (inord (Bin c l n r)) = find (unit_at unitSize off s) (inord l)"
      by (simp add: find_append split: option.split)
    with 2 Bin.IH(1) [OF z(1) o(1)] show ?thesis by (subst find_unit.simps) (simp add: hooks end_n)
  next
    case 3
    have "find (unit_at unitSize off s) (inord l @ [n]) = None"
      using o(3) 3 by (intro find_none) (fastforce simp: unit_at_def)
    then have "find (unit_at unitSize off s) (inord (Bin c l n r)) = find (unit_at unitSize off s) (inord r)"
      by (simp add: find_append split: option.splits if_splits)
    with 3 Bin.IH(2) [OF z(2) o(2)] show ?thesis by (subst find_unit.simps) (simp add: hooks end_n)
  qed
qed

subsection \<open>Cutting a file off\<close>

lemma TrimFcuNode_keeps:
  assumes "TrimFcuNode u t = Some t'"
  shows "rb_root t' = rb_root t \<and> rb_hooks t' = rb_hooks t \<and> (\<forall>a. fu_offset (rb_data t' a) = fu_offset (rb_data t a))"
proof (rule TrimFcuNode.raw_induct [of "\<lambda>u t t'. rb_root t' = rb_root t \<and> rb_hooks t' = rb_hooks t \<and>
    (\<forall>a. fu_offset (rb_data t' a) = fu_offset (rb_data t a))", OF _ assms])
  fix f u t t'
  assume IH: "\<And>u t t'. f u t = Some t' \<Longrightarrow> rb_root t' = rb_root t \<and> rb_hooks t' = rb_hooks t \<and>
      (\<forall>a. fu_offset (rb_data t' a) = fu_offset (rb_data t a))"
    and run: "Option.bind (case hk_left (rb_hooks t u) of None \<Rightarrow> Some t | Some l \<Rightarrow> f l t) (\<lambda>t1.
      Option.bind (case hk_right (rb_hooks t1 u) of None \<Rightarrow> Some t1 | Some r \<Rightarrow> f r t1) (\<lambda>t2.
        Some (release_unit u t2))) = Some t'"
  then obtain t1 t2 where t: "(case hk_left (rb_hooks t u) of None \<Rightarrow> Some t | Some l \<Rightarrow> f l t) = Some t1"
      "(case hk_right (rb_hooks t1 u) of None \<Rightarrow> Some t1 | Some r \<Rightarrow> f r t1) = Some t2" "t' = release_unit u t2"
    by (auto simp: Option.bind_eq_Some_conv)
  have "rb_root t1 = rb_root t \<and> rb_hooks t1 = rb_hooks t \<and> (\<forall>a. fu_offset (rb_data t1 a) = fu_offset (rb_data t a))"
    using t(1) IH by (cases "hk_left (rb_hooks t u)") auto
  moreover have "rb_root t2 = rb_root t1 \<and> rb_hooks t2 = rb_hooks t1 \<and> (\<forall>a. fu_offset (rb_data t2 a) = fu_offset (rb_data t1 a))"
    using t(2) IH by (cases "hk_right (rb_hooks t1 u)") auto
  ultimately show "rb_root t' = rb_root t \<and> rb_hooks t' = rb_hooks t \<and> (\<forall>a. fu_offset (rb_data t' a) = fu_offset (rb_data t a))"
    by (simp add: t(3) release_unit_def)
qed

lemma trim_loop_stuck:
  assumes "rb_root t = Some u" and "len \<le> fu_offset (rb_data t u)"
  shows "trim_loop len (rb_root t) t = None"
proof (rule ccontr)
  assume "trim_loop len (rb_root t) t \<noteq> None"
  then obtain t' where run: "trim_loop len (rb_root t) t = Some t'" by blast
  have "scan = rb_root t \<and> (\<exists>u. rb_root t = Some u \<and> len \<le> fu_offset (rb_data t u)) \<longrightarrow> False"
    if "trim_loop len scan t = Some t'" for len scan t t'
  proof (rule trim_loop.raw_induct [of "\<lambda>len scan t t'. scan = rb_root t \<and>
      (\<exists>u. rb_root t = Some u \<and> len \<le> fu_offset (rb_data t u)) \<longrightarrow> False", OF _ that], intro impI)
    fix f len scan t t'
    assume IH: "\<And>len scan t t'. f len scan t = Some t' \<Longrightarrow>
        scan = rb_root t \<and> (\<exists>u. rb_root t = Some u \<and> len \<le> fu_offset (rb_data t u)) \<longrightarrow> False"
      and run: "(case scan of None \<Rightarrow> Some t
        | Some u \<Rightarrow> if fu_offset (rb_data t u) < len then f len (hk_right (rb_hooks t u)) t
                    else Option.bind (TrimFcuNode u t) (\<lambda>t1. f len (rb_root t1) t1)) = Some t'"
      and at: "scan = rb_root t \<and> (\<exists>u. rb_root t = Some u \<and> len \<le> fu_offset (rb_data t u))"
    then obtain u t1 where u: "rb_root t = Some u" "len \<le> fu_offset (rb_data t u)" "TrimFcuNode u t = Some t1"
        "f len (rb_root t1) t1 = Some t'"
      by (auto simp: Option.bind_eq_Some_conv)
    from IH [OF u(4)] TrimFcuNode_keeps [OF u(3)] u(1,2) show False by auto
  qed
  with run assms show False by blast
qed

text \<open>Cutting a file off below a cached unit never returns. \<open>SetFileCacheLength\<close> drops the references of
  the units behind the new end but leaves them in the tree and starts over at the root. This is
  so whenever the unit at the root is behind the new end, in particular for every
  truncation to length zero.
\<close>

lemma file_cache_truncate_hangs:
  assumes "i < length (fs_caches s)" and "len < fc_length (fs_caches s ! i)"
    and "rb_root (fc_units (fs_caches s ! i)) = Some u" and "len \<le> fu_offset (rb_data (fc_units (fs_caches s ! i)) u)"
  shows "SetFileCacheLength (Some i) len s = None"
proof -
  have "fc_units (fs_caches (set_cache i (\<lambda>c. c\<lparr> fc_length := len \<rparr>) s) ! i) = fc_units (fs_caches s ! i)"
    using assms(1) by (simp add: set_cache_def)
  with trim_loop_stuck [OF assms(3,4)] assms(2) show ?thesis by (simp add: SetFileCacheLength_def Let_def)
qed

definition one_unit :: "size_t \<Rightarrow> size_t \<Rightarrow> size_t \<Rightarrow> fcu_tree" where
  "one_unit a phys off =
     \<lparr> rb_root = Some a, rb_hooks = (\<lambda>_. HookStruct)(a := HookStruct\<lparr> hk_color := Black \<rparr>),
       rb_data = (\<lambda>_. blank_unit)(a := blank_unit\<lparr> fu_physBase := phys, fu_offset := off \<rparr>) \<rparr>"

definition one_cache :: "size_t \<Rightarrow> file_caches" where
  "one_cache phys =
     \<lparr> fs_info = \<lparr> fi_unitSize = 0x4000, fi_hatMode = 0, fi_modeMultiple = 4 \<rparr>,
       fs_caches = [\<lparr> fc_refs = 1, fc_id = \<lparr> vi_driver = 1, vi_vnode = 2 \<rparr>, fc_length = 0x10000, fc_units = one_unit 0x100 phys 0 \<rparr>],
       fs_links = (\<lambda>_. None) \<rparr>"

lemma file_cache_truncate_hangs_example: "SetFileCacheLength (Some 0) 0 (one_cache 0x80000) = None"
  by (rule file_cache_truncate_hangs [of 0 "one_cache 0x80000" 0 "0x100"]) (simp_all add: one_cache_def one_unit_def)

subsection \<open>Units are found again\<close>

lemma aligned_apart:
  fixes a b :: nat
  assumes "U dvd a" and "U dvd b" and "a < b"
  shows "a + U \<le> b"
proof -
  from assms(1,2) obtain x y where xy: "a = U * x" "b = U * y" by (elim dvdE)
  with assms(3) have "x < y" by (metis mult_le_mono2 not_le)
  then have "U * Suc x \<le> U * y" by (intro mult_le_mono2) simp
  with xy show ?thesis by simp
qed

text \<open>C30: a unit of a file cache is found again. If the physical memory of the new unit lies where its offset
  puts it among the cached units, a lookup that misses creates a unit for the part of the file around
  the offset, and every later lookup of that part returns this unit without asking for memory. This
  is so for the units whose end is a value of \<open>size_t\<close>, which leaves out the one unit at the top of the offsets.
\<close>

theorem file_cache_unit_found:
  assumes i: "i < length (fs_caches s)" and t: "t = fc_units (fs_caches s ! i)" and U: "U = fi_unitSize (fs_info s)"
    and rep: "rb_rep t T" and order: "offset_order U t (inord T)" and aligned: "\<forall>u \<in> set (inord T). U dvd fu_offset (rb_data t u)"
    and sorted: "sorted (map (\<lambda>u. fu_physBase (rb_data t u)) (inord T))"
    and new: "addr \<notin> set (inord T)" "phys \<noteq> 0" "0 < U" "fileOffset < size_limit"
    and off: "off = AlignDown fileOffset U" "off < fc_length (fs_caches s ! i)" "off + U < size_limit"
    and miss: "\<forall>u \<in> set (inord T). \<not> unit_at U off t u"
    and agree: "\<forall>u \<in> set (inord T). fu_physBase (rb_data t u) \<le> phys \<longleftrightarrow> fu_offset (rb_data t u) < off"
  shows "\<exists>s'. GetFileCacheUnit (Some opts) phys addr (Some i) fileOffset s = Some (Some addr, s') \<and>
    (\<forall>m p a g. AlignDown g U = off \<longrightarrow> GetFileCacheUnit m p a (Some i) g s' = Some (Some addr, s')) \<and>
    fu_offset (rb_data (fc_units (fs_caches s' ! i)) addr) = off \<and> fu_physBase (rb_data (fc_units (fs_caches s' ! i)) addr) = phys"
proof -
  let ?u = "\<lparr> fu_refs = 1, fu_owner = Some i, fu_physBase = phys, fu_offset = off, fu_writable = mo_writable opts, fu_dirty = False \<rparr>"
  let ?t1 = "construct addr ?u t"
  let ?key = "\<lambda>u. fu_physBase (rb_data ?t1 u)"
  have old: "rb_data ?t1 u = rb_data t u" if "u \<in> set (inord T)" for u using that new(1) by auto
  have rep1: "rb_rep ?t1 T" using construct_rep [OF rep new(1)] .
  have "map ?key (inord T) = map (\<lambda>u. fu_physBase (rb_data t u)) (inord T)" using old by (intro map_cong) auto
  then have "sorted (map ?key (inord T))" using sorted by (simp only:)
  moreover have "FcuLess ?t1 = key_less ?key" by (simp add: FcuLess_def [abs_def] key_less_def [abs_def])
  ultimately obtain t2 T2 where ins: "rb_Insert NullAggregator (FcuLess ?t1) addr ?t1 = Some t2" "rb_rep t2 T2"
      "inord T2 = filter (\<lambda>a. ?key a \<le> ?key addr) (inord T) @ addr # filter (\<lambda>a. ?key addr < ?key a) (inord T)"
    using rb_insert_step [OF rep1 new(1) construct_fresh, of ?key NullAggregator] by auto
  have data: "rb_data t2 a = rb_data ?t1 a" for a using rb_Insert_data [OF views_null ins(1)] .
  have ne: "fu_offset (rb_data t u) \<noteq> off" if "u \<in> set (inord T)" for u using miss that new(3) by (auto simp: unit_at_def)
  have split: "inord T2 = filter (\<lambda>a. fu_offset (rb_data t a) < off) (inord T) @ addr # filter (\<lambda>a. off < fu_offset (rb_data t a)) (inord T)"
  proof -
    have side: "(?key u \<le> ?key addr) = (fu_offset (rb_data t u) < off)" "(?key addr < ?key u) = (off < fu_offset (rb_data t u))"
      if u: "u \<in> set (inord T)" for u
    proof -
      have k: "?key u = fu_physBase (rb_data t u)" "?key addr = phys" using old [OF u] by simp_all
      have "fu_physBase (rb_data t u) \<le> phys \<longleftrightarrow> fu_offset (rb_data t u) < off" using agree u by blast
      with ne [OF u] show "(?key u \<le> ?key addr) = (fu_offset (rb_data t u) < off)"
        "(?key addr < ?key u) = (off < fu_offset (rb_data t u))" unfolding k by linarith+
    qed
    show ?thesis unfolding ins(3) using side by (intro arg_cong2 [of _ _ _ _ append] arg_cong [of _ _ "Cons addr"] filter_cong refl)
  qed
  have dv: "U dvd off" unfolding off(1) using new(4) by (rule AlignDown_dvd)
  have offs: "fu_offset (rb_data t2 u) = (if u = addr then off else fu_offset (rb_data t u))" for u by (simp add: data)
  let ?A = "filter (\<lambda>a. fu_offset (rb_data t a) < off) (inord T)" and ?B = "filter (\<lambda>a. off < fu_offset (rb_data t a)) (inord T)"
  have part: "offset_order U t2 (filter P (inord T))" for P
  proof -
    have "offset_order U t (filter P (inord T))" using order unfolding offset_order_def by (auto intro: sorted_wrt_filter)
    then show ?thesis unfolding offset_order_def
      by (elim conjE, intro conjI, elim sorted_wrt_mono_rel [rotated]) (use new(1) offs in auto)
  qed
  have left: "fu_offset (rb_data t2 a) + U \<le> off" if "a \<in> set ?A" for a
    using that aligned dv new(1) by (auto simp: offs intro: aligned_apart)
  have right: "off + U \<le> fu_offset (rb_data t2 b)" if "b \<in> set ?B" for b
    using that aligned dv new(1) by (auto simp: offs intro: aligned_apart)
  have "fu_offset (rb_data t2 a) + U \<le> fu_offset (rb_data t2 b)" if "a \<in> set ?A" "b \<in> set ?B" for a b
    using left [OF that(1)] right [OF that(2)] by linarith
  then have order2: "offset_order U t2 (inord T2)"
    using part left right off(3) order unfolding split offset_order_def by (auto simp: sorted_wrt_append offs)
  have "unit_at U off t2 addr" using new(3) by (simp add: unit_at_def offs)
  moreover have "find (unit_at U off t2) ?A = None"
    using left by (intro find_none) (auto simp: unit_at_def not_less)
  ultimately have "find (unit_at U off t2) (inord T2) = Some addr" unfolding split by (simp add: find_append)
  moreover have "zip_ok t2 T2 []" "rb_root t2 = ptr T2" using ins(2) by (simp_all add: rb_rep_def zip_ok_def)
  ultimately have found: "find_unit U off (rb_root t2) t2 = Some (Some addr)"
    using find_unit_ok [of t2 T2 "[]" U off] order2 by simp
  have "find (unit_at U off t) (inord T) = None" using miss by (intro find_none) blast
  moreover have "zip_ok t T []" "rb_root t = ptr T" using rep by (simp_all add: rb_rep_def zip_ok_def)
  ultimately have missed: "find_unit U off (rb_root t) t = Some None"
    using find_unit_ok [of t T "[]" U off] order by simp
  define s' where "s' = (set_cache i (\<lambda>c. c\<lparr> fc_units := t2 \<rparr>) s)\<lparr> fs_links := (fs_links s)(phys := Some i) \<rparr>"
  have s': "fc_units (fs_caches s' ! i) = t2" "fi_unitSize (fs_info s') = U" "fc_length (fs_caches s' ! i) = fc_length (fs_caches s ! i)"
    using i U by (simp_all add: s'_def set_cache_def)
  have "new_unit i opts addr phys off t = Some t2" using ins(1) by (simp add: new_unit_def Let_def)
  then have "GetFileCacheUnit (Some opts) phys addr (Some i) fileOffset s = Some (Some addr, s')"
    using missed off new(2) by (simp add: GetFileCacheUnit_def Let_def t [symmetric] U [symmetric] s'_def)
  moreover have "GetFileCacheUnit m p a (Some i) g s' = Some (Some addr, s')" if "AlignDown g U = off" for m p a g
    using found off(2) that s' by (simp add: GetFileCacheUnit_def Let_def)
  moreover have "fu_offset (rb_data t2 addr) = off" "fu_physBase (rb_data t2 addr) = phys" by (simp_all add: data)
  ultimately show ?thesis using s'(1) by auto
qed

theorem file_cache_unit_found_witness:
  "\<exists>s'. GetFileCacheUnit (Some \<lparr> mo_writable = True, mo_uncachable = False \<rparr>) 0x90000 0x200 (Some 0) 0x4567 (one_cache 0x80000) = Some (Some 0x200, s') \<and>
     GetFileCacheUnit None 0 0 (Some 0) 0x7FFF s' = Some (Some 0x200, s')"
proof -
  let ?s = "one_cache 0x80000" and ?T = "Bin Black Tip 0x100 Tip :: nat rbt"
  let ?o = "\<lparr> mo_writable = True, mo_uncachable = False \<rparr>"
  have t: "one_unit 0x100 0x80000 0 = fc_units (fs_caches ?s ! 0)" and U: "0x4000 = fi_unitSize (fs_info ?s)"
    by (simp_all add: one_cache_def)
  have rep: "rb_rep (one_unit 0x100 0x80000 0) ?T"
    by (simp add: one_unit_def rb_rep_def zip_ok_def rb_ok_def HookStruct_def)
  have off: "0x4000 = AlignDown 0x4567 0x4000" "AlignDown 0x7FFF 0x4000 = 0x4000" "0x4000 < fc_length (fs_caches ?s ! 0)" "0x4000 + 0x4000 < size_limit"
    by (simp_all add: AlignDown_def one_cache_def sz_mul_def size_limit_def)
  have "\<exists>s'. GetFileCacheUnit (Some ?o) 0x90000 0x200 (Some 0) 0x4567 ?s = Some (Some 0x200, s') \<and>
      (\<forall>m p a g. AlignDown g 0x4000 = 0x4000 \<longrightarrow> GetFileCacheUnit m p a (Some 0) g s' = Some (Some 0x200, s')) \<and>
      fu_offset (rb_data (fc_units (fs_caches s' ! 0)) 0x200) = 0x4000 \<and>
      fu_physBase (rb_data (fc_units (fs_caches s' ! 0)) 0x200) = 0x90000"
    by (rule file_cache_unit_found [OF _ t U rep _ _ _ _ _ _ _ off(1,3) off(4)])
      (simp_all add: one_cache_def one_unit_def offset_order_def unit_at_def size_limit_def)
  with off(2) show ?thesis by blast
qed

subsection \<open>Units are missed when the orders differ\<close>

text \<open>A unit is skipped when its end, as a \<open>size_t\<close>, is not behind the offset. For the unit at the top of the
  offsets the end wraps to zero: it is never found.\<close>

lemma last_unit_missed:
  assumes "sz_add (fu_offset (rb_data t u)) U \<le> off" and "\<not> off < fu_offset (rb_data t u)" and "hk_right (rb_hooks t u) = None"
  shows "find_unit U off (Some u) t = Some None"
  using assms by (subst find_unit.simps) (simp add: find_unit.simps)

text \<open>A unit with a smaller physical address than the only unit of the tree becomes its left child.\<close>

lemma insert_left_of_one:
  assumes "rb_rep t (Bin Black Tip a Tip)" and "p1 < fu_physBase (rb_data t a)" and "z \<noteq> a"
  shows "\<exists>t2. new_unit i opts z p1 off t = Some t2 \<and> rb_root t2 = Some a \<and>
    hk_right (rb_hooks t2 a) = None \<and> rb_rep t2 (Bin Black (Bin Red Tip z Tip) a Tip)"
proof -
  have hooks: "rb_root t = Some a" "rb_hooks t a = HookStruct\<lparr> hk_color := Black \<rparr>"
    using assms(1) by (simp_all add: rb_rep_def zip_ok_def rb_ok_def HookStruct_def)
  have path: "AggregatePath NullAggregator (Some a) t = Some t" if "hk_parent (rb_hooks t a) = None" for t :: fcu_tree
    by (subst AggregatePath.simps) (simp add: AggregateNode_def NullAggregator_def hook_ops that)
  show ?thesis
    using assms(2,3)
    by (simp add: new_unit_def Let_def rb_Insert_def hooks construct_def insert_loop.simps FcuLess_def
        InsertLeft_def AggregateNode_def NullAggregator_def hook_ops path FixInsert.simps HookStruct_def
        rb_rep_def zip_ok_def rb_ok_def Predecessor_def)
qed

lemma new_unit_ends:
  assumes "rb_rep t T" and "z \<notin> set (inord T)" and "sorted (map (\<lambda>u. fu_physBase (rb_data t u)) (inord T))"
  shows "\<exists>t'. new_unit i opts z phys off t = Some t'"
proof -
  let ?u = "\<lparr> fu_refs = 1, fu_owner = Some i, fu_physBase = phys, fu_offset = off, fu_writable = mo_writable opts, fu_dirty = False \<rparr>"
  let ?key = "\<lambda>u. fu_physBase (rb_data (construct z ?u t) u)"
  have "map ?key (inord T) = map (\<lambda>u. fu_physBase (rb_data t u)) (inord T)" using assms(2) by (intro map_cong) auto
  then have "sorted (map ?key (inord T))" using assms(3) by (simp only:)
  moreover have "FcuLess (construct z ?u t) = key_less ?key" by (simp add: FcuLess_def [abs_def] key_less_def [abs_def])
  ultimately show ?thesis
    using rb_insert_step [OF construct_rep [OF assms(1,2)] assms(2) construct_fresh, of ?key NullAggregator]
    by (auto simp: new_unit_def Let_def)
qed

lemma new_unit_data:
  assumes "new_unit i opts z phys off t = Some t'"
  shows "rb_data t' z = \<lparr> fu_refs = 1, fu_owner = Some i, fu_physBase = phys, fu_offset = off, fu_writable = mo_writable opts, fu_dirty = False \<rparr>"
    and "u \<noteq> z \<Longrightarrow> rb_data t' u = rb_data t u"
  using rb_Insert_data [OF views_null assms [unfolded new_unit_def Let_def]] by simp_all

text \<open>C38: a cached part of a file may be missed and cached twice. The tree is ordered by physical addresses and
  searched by offsets: when a cache holds one unit, a lookup of a part of the file behind that unit makes a new one, and the
  memory the new unit gets lies below that of the first, the next lookup of the same part does not find it and makes
  another unit. The cache then holds two units for the same part of the file, with different memory, and the two
  lookups have returned one each.
\<close>

theorem file_cache_unit_missed:
  assumes "i < length (fs_caches s)" and "t = fc_units (fs_caches s ! i)" and "rb_rep t (Bin Black Tip a Tip)" and "U = fi_unitSize (fs_info s)"
    and "off = AlignDown fileOffset U" and "fu_offset (rb_data t a) + U \<le> off" and "off < size_limit" and "off < fc_length (fs_caches s ! i)"
    and "0 < U" and "0 < p1" and "p1 < fu_physBase (rb_data t a)" and "0 < p2" and "p2 \<noteq> p1" and "distinct [a, z, y]"
  shows "\<exists>s' s'' t''. GetFileCacheUnit (Some opts) p1 z (Some i) fileOffset s = Some (Some z, s') \<and>
    GetFileCacheUnit (Some opts) p2 y (Some i) fileOffset s' = Some (Some y, s'') \<and> t'' = fc_units (fs_caches s'' ! i) \<and>
    fu_offset (rb_data t'' z) = off \<and> fu_physBase (rb_data t'' z) = p1 \<and>
    fu_offset (rb_data t'' y) = off \<and> fu_physBase (rb_data t'' y) = p2 \<and> p2 \<noteq> p1"
proof -
  obtain t2 where t2: "new_unit i opts z p1 off t = Some t2" "rb_root t2 = Some a" "hk_right (rb_hooks t2 a) = None"
      "rb_rep t2 (Bin Black (Bin Red Tip z Tip) a Tip)"
    using insert_left_of_one [OF assms(3,11), of z i opts off] assms(14) by auto
  note data = new_unit_data [OF t2(1)]
  have one: "rb_root t = Some a" "hk_right (rb_hooks t a) = None"
    using assms(3) by (simp_all add: rb_rep_def zip_ok_def rb_ok_def HookStruct_def)
  have a: "rb_data t2 a = rb_data t a" using data(2) assms(14) by simp
  have behind: "sz_add (fu_offset (rb_data t a)) U \<le> off" "\<not> off < fu_offset (rb_data t a)"
    using assms(6,7,9) by (simp_all add: sz_add_def)
  have miss1: "find_unit U off (rb_root t) t = Some None" using last_unit_missed [OF behind one(2)] one(1) by simp
  have miss2: "find_unit U off (rb_root t2) t2 = Some None"
    using last_unit_missed [OF behind [folded a] t2(3)] t2(2) by simp
  have "sorted (map (\<lambda>u. fu_physBase (rb_data t2 u)) (inord (Bin Black (Bin Red Tip z Tip) a Tip)))"
    using assms(11) by (simp add: data(1) a)
  then obtain t3 where t3: "new_unit i opts y p2 off t2 = Some t3"
    using new_unit_ends [OF t2(4), of y i opts p2 off] assms(14) by auto
  note data3 = new_unit_data [OF t3]
  define s' where "s' = (set_cache i (\<lambda>c. c\<lparr> fc_units := t2 \<rparr>) s)\<lparr> fs_links := (fs_links s)(p1 := Some i) \<rparr>"
  define s'' where "s'' = (set_cache i (\<lambda>c. c\<lparr> fc_units := t3 \<rparr>) s')\<lparr> fs_links := (fs_links s')(p2 := Some i) \<rparr>"
  have s': "fc_units (fs_caches s' ! i) = t2" "fi_unitSize (fs_info s') = U" "fc_length (fs_caches s' ! i) = fc_length (fs_caches s ! i)"
      "fc_units (fs_caches s'' ! i) = t3"
    using assms(1,4) by (simp_all add: s'_def s''_def set_cache_def)
  have "GetFileCacheUnit (Some opts) p1 z (Some i) fileOffset s = Some (Some z, s')"
    using assms(8,10) miss1 t2(1)
    by (simp add: GetFileCacheUnit_def Let_def assms(2) [symmetric] assms(4) [symmetric] assms(5) [symmetric] s'_def)
  moreover have "GetFileCacheUnit (Some opts) p2 y (Some i) fileOffset s' = Some (Some y, s'')"
    using assms(8,12) miss2 t3 s' by (simp add: GetFileCacheUnit_def Let_def assms(5) [symmetric] s''_def)
  ultimately show ?thesis using data3(1) data3(2) [of z] data(1) s'(4) assms(13,14) by auto
qed

theorem file_cache_unit_missed_witness:
  "\<exists>s' s''. GetFileCacheUnit (Some \<lparr> mo_writable = True, mo_uncachable = False \<rparr>) 0x70000 0x200 (Some 0) 0x4567 (one_cache 0x80000) = Some (Some 0x200, s') \<and>
     GetFileCacheUnit (Some \<lparr> mo_writable = True, mo_uncachable = False \<rparr>) 0x60000 0x300 (Some 0) 0x4567 s' = Some (Some 0x300, s'')"
proof -
  let ?s = "one_cache 0x80000" and ?o = "\<lparr> mo_writable = True, mo_uncachable = False \<rparr>"
  have t: "one_unit 0x100 0x80000 0 = fc_units (fs_caches ?s ! 0)" and U: "0x4000 = fi_unitSize (fs_info ?s)"
    by (simp_all add: one_cache_def)
  have rep: "rb_rep (one_unit 0x100 0x80000 0) (Bin Black Tip 0x100 Tip)"
    by (simp add: one_unit_def rb_rep_def zip_ok_def rb_ok_def HookStruct_def)
  have off: "0x4000 = AlignDown 0x4567 0x4000" by (simp add: AlignDown_def sz_mul_def size_limit_def)
  have "\<exists>s' s'' t''. GetFileCacheUnit (Some ?o) 0x70000 0x200 (Some 0) 0x4567 ?s = Some (Some 0x200, s') \<and>
      GetFileCacheUnit (Some ?o) 0x60000 0x300 (Some 0) 0x4567 s' = Some (Some 0x300, s'') \<and> t'' = fc_units (fs_caches s'' ! 0) \<and>
      fu_offset (rb_data t'' 0x200) = 0x4000 \<and> fu_physBase (rb_data t'' 0x200) = 0x70000 \<and>
      fu_offset (rb_data t'' 0x300) = 0x4000 \<and> fu_physBase (rb_data t'' 0x300) = 0x60000 \<and> (0x60000 :: nat) \<noteq> 0x70000"
    by (rule file_cache_unit_missed [OF _ t rep U off]) (simp_all add: one_cache_def one_unit_def size_limit_def)
  then show ?thesis by blast
qed

end
