(* ===== verification/Syslib_Url.thy ===== *)
theory Syslib_Url
  imports Syslib_String
begin

text \<open>
  \<open>libs/np-syslib/formats/Url.cpp\<close>: splitting a URL into its parts. All parts are spans of one buffer,
  an offset and a size. The buffer may be longer than the input (a string has its terminator);
  reads outside of it are faults. For a path without the delimiters of the other
  parts, iterating over \<open>GetNextSeg\<close> gives the names between the slashes.
\<close>

subsection \<open>Spans of a buffer\<close>

record uspan =
  us_begin :: size_t
  us_size :: size_t

definition us_none :: uspan where
  "us_none = \<lparr> us_begin = 0, us_size = 0 \<rparr>"

definition us_Empty :: "uspan \<Rightarrow> bool" where
  "us_Empty s = (us_size s = 0)"

definition us_End :: "uspan \<Rightarrow> size_t" where
  "us_End s = us_begin s + us_size s"

definition us_text :: "char list \<Rightarrow> uspan \<Rightarrow> char list" where
  "us_text buf s = take (us_size s) (drop (us_begin s) buf)"

definition rd :: "char list \<Rightarrow> size_t \<Rightarrow> char res" where
  "rd buf i = (if i < length buf then Inr (buf ! i) else Inl Bad_Index)"

record url =
  u_source :: uspan
  u_scheme :: uspan
  u_user :: uspan
  u_host :: uspan
  u_port :: uspan
  u_path :: uspan
  u_query :: uspan
  u_fragment :: uspan

subsection \<open>Segments of the path\<close>

function seg_scan :: "char list \<Rightarrow> size_t \<Rightarrow> size_t \<Rightarrow> size_t \<Rightarrow> size_t res" where
  "seg_scan buf limit scan cnt =
     (if cnt < limit then
        res_bind (rd buf scan) (\<lambda>ch.
          if ch \<noteq> CHR ''/'' \<and> ch \<noteq> NUL then seg_scan buf limit (scan + 1) (cnt + 1) else Inr cnt)
      else Inr cnt)"
  by auto
termination
  by (relation "measure (\<lambda>(buf, limit, scan, cnt). limit - cnt)") auto

declare seg_scan.simps [simp del]

definition GetNextSeg :: "char list \<Rightarrow> url \<Rightarrow> uspan \<Rightarrow> uspan res" where
  "GetNextSeg buf u prev =
     (let path = u_path u;
          begin = (if us_Empty prev then us_begin path else us_End prev + 1)
      in if us_End path \<le> begin then Inr us_none
         else res_bind (rd buf begin) (\<lambda>ch.
           let begin1 = (if ch = CHR ''/'' then begin + 1 else begin)
           in res_bind (seg_scan buf (us_size path) begin1 0) (\<lambda>n. Inr \<lparr> us_begin = begin1, us_size = n \<rparr>)))"

subsection \<open>Parsing\<close>

fun trim_nul :: "char list \<Rightarrow> nat \<Rightarrow> nat res" where
  "trim_nul buf 0 = Inl Bad_Index"
| "trim_nul buf (Suc n) = res_bind (rd buf n) (\<lambda>ch. if ch = NUL then trim_nul buf n else Inr (Suc n))"

definition LengthUntil :: "char list \<Rightarrow> nat \<Rightarrow> size_t \<Rightarrow> char \<Rightarrow> size_t res" where
  "LengthUntil buf n start target =
     (let rest = sz_sub n start
      in res_bind (buf_first (drop start buf) 0 target rest) (\<lambda>foundAt.
           Inr (if foundAt = rest then 0 else foundAt)))"

definition skip :: "size_t \<Rightarrow> size_t \<Rightarrow> size_t" where
  "skip start n = start + n + (if n = 0 then 0 else 1)"

definition part :: "char list \<Rightarrow> nat \<Rightarrow> size_t \<Rightarrow> char \<Rightarrow> (uspan \<times> size_t) res" where
  "part buf n start target =
     res_bind (LengthUntil buf n start target) (\<lambda>len.
       Inr (\<lparr> us_begin = start, us_size = len \<rparr>, skip start len))"

definition parse_host :: "char list \<Rightarrow> nat \<Rightarrow> size_t \<Rightarrow> (uspan \<times> uspan \<times> uspan \<times> size_t) res" where
  "parse_host buf n start0 =
     res_bind (part buf n (start0 + 2) CHR ''@'') (\<lambda>(user, start1).
     res_bind (part buf n start1 CHR '':'') (\<lambda>(host, start2).
       if us_Empty host
       then res_bind (part buf n start2 CHR ''/'') (\<lambda>(host1, start3). Inr (user, host1, us_none, start3))
       else res_bind (part buf n start2 CHR ''/'') (\<lambda>(port, start3). Inr (user, host, port, start3))))"

text \<open>
  The end of \<open>Parse\<close>: \<open>next\<close> is a reference to the path if that is still empty and to the query
  otherwise, and stays bound to it; the second assignment to \<open>next\<close> copies an empty span.
\<close>

definition Parse :: "char list \<Rightarrow> nat \<Rightarrow> url res" where
  "Parse buf n0 =
     res_bind (trim_nul buf n0) (\<lambda>n.
     res_bind (part buf n 0 CHR '':'') (\<lambda>(scheme, start1).
     res_bind (rd buf start1) (\<lambda>c0.
     res_bind (if c0 = CHR ''/'' then res_bind (rd buf (start1 + 1)) (\<lambda>c1. Inr (c1 = CHR ''/'')) else Inr False) (\<lambda>slashes.
     res_bind (if slashes then parse_host buf n start1 else Inr (us_none, us_none, us_none, start1))
       (\<lambda>(user, host, port, start2).
     res_bind (LengthUntil buf n start2 CHR ''?'') (\<lambda>plen.
     res_bind (LengthUntil buf n start2 CHR ''#'') (\<lambda>nlen.
       let path = \<lparr> us_begin = start2, us_size = plen \<rparr>;
           start3 = skip start2 nlen;
           rest = \<lparr> us_begin = start3, us_size = sz_sub n start3 \<rparr>
       in Inr \<lparr> u_source = \<lparr> us_begin = 0, us_size = n \<rparr>, u_scheme = scheme, u_user = user, u_host = host,
                u_port = port, u_path = (if plen = 0 then rest else path),
                u_query = (if plen = 0 then us_none else rest), u_fragment = us_none \<rparr>)))))))"

subsection \<open>Plain paths\<close>

definition path_of :: "char list list \<Rightarrow> char list" where
  "path_of ns = concat (map (\<lambda>x. CHR ''/'' # x) ns)"

definition plain_name :: "char list \<Rightarrow> bool" where
  "plain_name x \<longleftrightarrow> x \<noteq> [] \<and> set x \<inter> {CHR ''/'', NUL, CHR '':'', CHR ''?'', CHR ''#''} = {}"

definition path_span :: "char list list \<Rightarrow> nat \<Rightarrow> uspan" where
  "path_span ns k =
     (if k < length ns then \<lparr> us_begin = length (path_of (take k ns)) + 1, us_size = length (ns ! k) \<rparr> else us_none)"

lemma path_of_simps [simp]:
  "path_of [] = []" "path_of (x # ns) = CHR ''/'' # x @ path_of ns" "path_of (ms @ ns) = path_of ms @ path_of ns"
  by (simp_all add: path_of_def)

lemma seg_scan_ok:
  assumes "buf = pre @ x @ d # post" and "length pre = scan" and "d = CHR ''/'' \<or> d = NUL"
    and "set x \<inter> {CHR ''/'', NUL} = {}" and "cnt + length x \<le> limit"
  shows "seg_scan buf limit scan cnt = Inr (cnt + length x)"
  using assms
proof (induction x arbitrary: pre scan cnt)
  case Nil
  then show ?case by (subst seg_scan.simps) (auto simp: rd_def nth_append)
next
  case (Cons c x)
  have "seg_scan buf limit (scan + 1) (cnt + 1) = Inr (cnt + 1 + length x)"
    using Cons.prems by (intro Cons.IH [of "pre @ [c]"]) auto
  moreover have "rd buf scan = Inr c" using Cons.prems(1,2) by (simp add: rd_def nth_append)
  moreover have "c \<noteq> CHR ''/''" "c \<noteq> NUL" "cnt < limit" using Cons.prems(4,5) by auto
  ultimately show ?case by (subst seg_scan.simps) simp
qed

lemma path_split: "k < length ns \<Longrightarrow> path_of ns = path_of (take k ns) @ CHR ''/'' # ns ! k @ path_of (drop (Suc k) ns)"
  by (metis append_Cons id_take_nth_drop path_of_simps(2,3))

text \<open>The character behind a name of the path: the next slash, or the terminator.\<close>

lemma path_after:
  assumes "k < length ns"
  shows "\<exists>d post. path_of ns @ [NUL] = (path_of (take k ns) @ [CHR ''/'']) @ ns ! k @ d # post \<and> (d = CHR ''/'' \<or> d = NUL)"
proof (cases "drop (Suc k) ns")
  case Nil
  with path_split [OF assms] show ?thesis by simp
next
  case (Cons y ys)
  with path_split [OF assms] show ?thesis by simp
qed

lemma path_span_End: "k < length ns \<Longrightarrow> us_End (path_span ns k) = length (path_of (take (Suc k) ns))"
  by (simp add: us_End_def path_span_def take_Suc_conv_app_nth)

lemma path_take_length: "length (path_of (take k ns)) \<le> length (path_of ns)"
  by (metis append_take_drop_id length_append le_add1 path_of_simps(3))

lemma next_seg:
  assumes names: "\<forall>x \<in> set ns. plain_name x" and u: "u_path u = \<lparr> us_begin = 0, us_size = length (path_of ns) \<rparr>"
    and prev: "if k = 0 then us_Empty prev else prev = path_span ns (k - 1) \<and> k \<le> length ns"
  shows "GetNextSeg (path_of ns @ [NUL]) u prev = Inr (path_span ns k)"
proof -
  let ?n = "length (path_of ns)" and ?b = "if us_Empty prev then 0 else us_End prev + 1"
  have pre: "us_Empty prev \<longleftrightarrow> k = 0"
    using prev names by (auto simp: us_Empty_def path_span_def plain_name_def split: if_splits)
  have b: "?b = (if k = 0 then 0 else length (path_of (take k ns)) + 1)"
    using prev pre path_span_End [of "k - 1" ns] by (cases k) auto
  show ?thesis
  proof (cases "k < length ns")
    case False
    then have "us_none = path_span ns k" by (simp add: path_span_def)
    moreover have "?n \<le> ?b" using b False prev by (cases ns) (auto split: if_splits)
    ultimately show ?thesis using u by (simp add: GetNextSeg_def Let_def us_End_def split: if_splits)
  next
    case True
    obtain d post where d: "path_of ns @ [NUL] = (path_of (take k ns) @ [CHR ''/'']) @ ns ! k @ d # post" "d = CHR ''/'' \<or> d = NUL"
      using path_after [OF True] by blast
    have plain: "plain_name (ns ! k)" using names True by simp
    then obtain c x where cx: "ns ! k = c # x" "c \<noteq> CHR ''/''" by (cases "ns ! k") (auto simp: plain_name_def)
    have n: "length (path_of (take k ns)) + 1 + length (ns ! k) \<le> ?n"
      using arg_cong [OF path_split [OF True], of length] by simp
    have lt: "?b < ?n" using b n cx by (cases "path_of ns = []") (simp_all split: if_splits)
    have ch: "rd (path_of ns @ [NUL]) ?b = Inr (if k = 0 then CHR ''/'' else c)"
      unfolding b using n cx by (auto simp: rd_def) (auto simp: d(1) nth_append cx)
    have "seg_scan (path_of ns @ [NUL]) ?n (length (path_of (take k ns)) + 1) 0 = Inr (0 + length (ns ! k))"
      using d plain n by (intro seg_scan_ok [OF d(1)]) (auto simp: plain_name_def)
    then have "GetNextSeg (path_of ns @ [NUL]) u prev = Inr \<lparr> us_begin = length (path_of (take k ns)) + 1, us_size = length (ns ! k) \<rparr>"
      using lt ch cx(2) b u by (cases "k = 0") (simp_all add: GetNextSeg_def Let_def us_End_def pre)
    with True show ?thesis by (simp add: path_span_def)
  qed
qed

lemma path_span_text: "k < length ns \<Longrightarrow> us_text (path_of ns @ [NUL]) (path_span ns k) = ns ! k"
  using path_split [of k ns] by (simp add: us_text_def path_span_def)

subsection \<open>Parsing plain paths\<close>

lemma path_no_delims: "\<forall>x \<in> set ns. plain_name x \<Longrightarrow> set (path_of ns) \<inter> {NUL, CHR '':'', CHR ''?'', CHR ''#''} = {}"
  by (induction ns) (auto simp: plain_name_def)

lemma LengthUntil_none:
  assumes "t \<notin> set xs" and "length xs < size_limit" and "xs \<noteq> []"
  shows "LengthUntil (xs @ ys) (length xs) 0 t = Inr 0"
proof -
  have "buf_first (xs @ ys) 0 t (length xs) = Inr (length xs)"
    using assms by (intro buf_first_miss) (auto simp: nth_append)
  then show ?thesis using assms(2) by (simp add: LengthUntil_def Let_def sz_sub_eq)
qed

text \<open>A path of plain names is parsed to a URL whose path is the whole input.\<close>

lemma Parse_path:
  assumes "\<forall>x \<in> set ns. plain_name x" and "ns \<noteq> []" and "length (path_of ns) < size_limit"
  shows "\<exists>u. Parse (path_of ns @ [NUL]) (length (path_of ns)) = Inr u \<and>
    u_path u = \<lparr> us_begin = 0, us_size = length (path_of ns) \<rparr>"
proof -
  obtain x ms where ns: "ns = x # ms" using assms(2) by (cases ns) auto
  then obtain c y where x: "x = c # y" "c \<noteq> CHR ''/''" using assms(1) by (cases x) (auto simp: plain_name_def)
  let ?p = "path_of ns"
  have p: "?p = CHR ''/'' # c # y @ path_of ms" using ns x by simp
  have ne: "?p \<noteq> []" using p by simp
  have nd: "NUL \<notin> set ?p" "CHR '':'' \<notin> set ?p" "CHR ''?'' \<notin> set ?p" "CHR ''#'' \<notin> set ?p"
    using path_no_delims [OF assms(1)] by blast+
  have "?p ! (length ?p - 1) \<noteq> NUL" using nd(1) ne by (metis diff_less length_greater_0_conv nth_mem zero_less_one)
  then have trim: "trim_nul (?p @ [NUL]) (length ?p) = Inr (length ?p)"
    using ne by (cases "length ?p") (auto simp: rd_def nth_append)
  have len: "LengthUntil (?p @ [NUL]) (length ?p) 0 t = Inr 0" if "t \<in> {CHR '':'', CHR ''?'', CHR ''#''}" for t
    using that nd assms(3) ne by (intro LengthUntil_none) auto
  have rds: "rd (?p @ [NUL]) 0 = Inr CHR ''/''" "rd (?p @ [NUL]) 1 = Inr c" by (simp_all add: p rd_def)
  have "sz_sub (length ?p) 0 = length ?p" using assms(3) by (simp add: sz_sub_eq)
  then show ?thesis
    using trim len rds x(2) by (simp add: Parse_def part_def skip_def Let_def)
qed

end
