(* ===== verification/Vfs.thy ===== *)
theory Vfs
  imports File_Cache Syslib_Url Temp_Fs
begin

text \<open>
  \<open>kernel/filesystem/Filesystem.cpp\<close> and \<open>TreeCache.cpp\<close>: the virtual filesystem. Its nodes live in
  a cache of a fixed number of slots; a handle to a node is the index of its slot, and it counts as
  a reference of the slot until it is released. Filesystem drivers are reached
  through a record of functions on the state of a driver (\<open>fs_api\<close>); the driver manager is the map from driver ids to
  these states. The opaque data a driver attaches to a cached node is not
  modelled (the temporary filesystem has none), nor are the locks of the nodes.
\<close>

subsection \<open>State\<close>

record 'f fs_api =
  fa_get_root :: "'f \<Rightarrow> size_t"
  fa_enter_cache :: "size_t \<Rightarrow> 'f \<Rightarrow> node_type res"
  fa_exit_cache :: "size_t \<Rightarrow> 'f \<Rightarrow> bool"
  fa_mount :: "'f \<Rightarrow> bool"
  fa_create :: "size_t \<Rightarrow> node_type \<Rightarrow> char list \<Rightarrow> 'f \<Rightarrow> (size_t \<times> 'f) res"
  fa_find_child :: "size_t \<Rightarrow> char list \<Rightarrow> 'f \<Rightarrow> size_t res"
  fa_get_attribs :: "size_t \<Rightarrow> 'f \<Rightarrow> ((size_t \<times> char list) option) res"
  fa_set_attribs :: "size_t \<Rightarrow> size_t \<times> char list \<Rightarrow> bool \<Rightarrow> bool \<Rightarrow> 'f \<Rightarrow> (bool \<times> 'f) res"
  fa_read_dir :: "size_t \<Rightarrow> bool \<Rightarrow> 'f \<Rightarrow> ((size_t \<times> size_t list) option) res"

record vfs_node =
  vn_refs :: nat
  vn_type :: node_type
  vn_cache :: "nat option"
  vn_vid :: vfs_id
  vn_bond :: vfs_id
  vn_busy :: bool

record mount_info =
  mi_occluded :: vfs_id
  mi_driver :: size_t
  mi_opts :: mount_options

record 'f vfs =
  vf_drivers :: "size_t \<Rightarrow> 'f option"
  vf_is_fs :: "size_t \<Rightarrow> bool"
  vf_nodes :: "vfs_node list"
  vf_mounts :: "mount_info list"
  vf_root :: vfs_id
  vf_files :: file_caches

abbreviation TreeCacheInitialSize :: nat where
  "TreeCacheInitialSize \<equiv> 128"

definition no_id :: vfs_id where
  "no_id = \<lparr> vi_driver = 0, vi_vnode = 0 \<rparr>"

definition blank_node :: vfs_node where
  "blank_node = \<lparr> vn_refs = 0, vn_type = N_File, vn_cache = None, vn_vid = no_id, vn_bond = no_id, vn_busy = False \<rparr>"

definition InitTreeCache :: "'f vfs \<Rightarrow> 'f vfs" where
  "InitTreeCache s = s\<lparr> vf_nodes := replicate TreeCacheInitialSize blank_node \<rparr>"

definition upd_node :: "nat \<Rightarrow> (vfs_node \<Rightarrow> vfs_node) \<Rightarrow> 'f vfs \<Rightarrow> 'f vfs" where
  "upd_node i f s = s\<lparr> vf_nodes := (vf_nodes s)[i := f (vf_nodes s ! i)] \<rparr>"

definition acquire :: "nat \<Rightarrow> 'f vfs \<Rightarrow> 'f vfs" where
  "acquire i s = upd_node i (\<lambda>n. n\<lparr> vn_refs := vn_refs n + 1 \<rparr>) s"

definition release :: "nat \<Rightarrow> 'f vfs \<Rightarrow> 'f vfs" where
  "release i s = upd_node i (\<lambda>n. n\<lparr> vn_refs := vn_refs n - 1 \<rparr>) s"

subsection \<open>Mount points\<close>

fun find_mount :: "size_t \<Rightarrow> mount_info list \<Rightarrow> mount_info option" where
  "find_mount driver [] = None"
| "find_mount driver (m # ms) = (if mi_driver m \<noteq> driver then find_mount driver ms else Some m)"

definition VfsGetMountOptions :: "size_t \<Rightarrow> 'f vfs \<Rightarrow> mount_options option" where
  "VfsGetMountOptions driver s = map_option mi_opts (find_mount driver (vf_mounts s))"

text \<open>The directory a filesystem is mounted over.\<close>

definition occluded_dir :: "size_t \<Rightarrow> 'f vfs \<Rightarrow> vfs_id option" where
  "occluded_dir driver s =
     (case find_mount driver (vf_mounts s) of
        None \<Rightarrow> None
      | Some m \<Rightarrow> if vi_driver (mi_occluded m) \<noteq> 0 then Some (mi_occluded m) else None)"

subsection \<open>The cache of nodes\<close>

fun find_slot :: "vfs_id \<Rightarrow> vfs_node list \<Rightarrow> nat \<Rightarrow> nat option" where
  "find_slot v [] i = None"
| "find_slot v (n # ns) i =
     (if vi_driver (vn_vid n) \<noteq> vi_driver v \<or> vi_vnode (vn_vid n) \<noteq> vi_vnode v then find_slot v ns (i + 1) else Some i)"

definition set_busy :: "nat \<Rightarrow> bool \<Rightarrow> vfs_node list \<Rightarrow> vfs_node list" where
  "set_busy i b ns = ns[i := (ns ! i)\<lparr> vn_busy := b \<rparr>]"

text \<open>The search for a slot to use: an unused one, or one whose node has no references.\<close>

definition slot_step :: "nat \<Rightarrow> nat option \<Rightarrow> vfs_node list \<Rightarrow> nat option \<times> vfs_node list" where
  "slot_step i alloc ns =
     (case alloc of
        None \<Rightarrow> if \<not> vn_busy (ns ! i) then (Some i, set_busy i True ns) else (None, ns)
      | Some a \<Rightarrow>
          if vi_vnode (vn_vid (ns ! a)) \<noteq> 0 \<and> vi_vnode (vn_vid (ns ! i)) = 0 \<and> \<not> vn_busy (ns ! i)
          then (Some i, set_busy a False (set_busy i True ns)) else (Some a, ns))"

fun slot_scan :: "nat list \<Rightarrow> nat option \<Rightarrow> vfs_node list \<Rightarrow> nat option \<times> vfs_node list" where
  "slot_scan [] alloc ns = (alloc, ns)"
| "slot_scan (i # is) alloc ns =
     (if vn_refs (ns ! i) \<noteq> 0 then slot_scan is alloc ns
      else case slot_step i alloc ns of
             (alloc1, ns1) \<Rightarrow>
               if (case alloc1 of None \<Rightarrow> False | Some a \<Rightarrow> vi_vnode (vn_vid (ns1 ! a)) = 0)
               then (alloc1, ns1) else slot_scan is alloc1 ns1)"

text \<open>
  Writing back the node in a slot passes the id of its driver where the driver expects the id of
  the node. A slot stays busy when a driver is missing.
\<close>

definition evict :: "'f fs_api \<Rightarrow> nat \<Rightarrow> 'f vfs \<Rightarrow> bool res" where
  "evict api i s =
     (let old = vn_vid (vf_nodes s ! i)
      in if vi_driver old \<noteq> 0
         then case vf_drivers s (vi_driver old) of
                None \<Rightarrow> Inr False
              | Some f \<Rightarrow> if fa_exit_cache api (vi_driver old) f then Inr True else Inl Assert_Failed
         else Inr True)"

definition fill_slot :: "'f fs_api \<Rightarrow> vfs_id \<Rightarrow> nat \<Rightarrow> 'f vfs \<Rightarrow> (nat option \<times> 'f vfs) res" where
  "fill_slot api v i s =
     (case vf_drivers s (vi_driver v) of
        None \<Rightarrow> Inr (None, s)
      | Some f \<Rightarrow>
          res_bind (fa_enter_cache api (vi_vnode v) f) (\<lambda>ty.
            let (cache, files) = (if ty = N_File then GetFileCache (VfsGetMountOptions (vi_driver v) s) v (vf_files s)
                                  else (None, vf_files s))
            in Inr (Some i, s\<lparr> vf_files := files,
                 vf_nodes := (vf_nodes s)[i :=
                   \<lparr> vn_refs = 1, vn_type = ty, vn_cache = cache, vn_vid = v, vn_bond = no_id, vn_busy = False \<rparr>] \<rparr>)))"

definition GetVfsNodeInternal :: "'f fs_api \<Rightarrow> vfs_id \<Rightarrow> 'f vfs \<Rightarrow> (nat option \<times> 'f vfs) res" where
  "GetVfsNodeInternal api v s =
     (if vi_driver v = 0 \<or> vi_vnode v = 0 then Inr (None, s)
      else case find_slot v (vf_nodes s) 0 of
             Some i \<Rightarrow> Inr (Some i, acquire i s)
           | None \<Rightarrow>
               (case slot_scan [0..<length (vf_nodes s)] None (vf_nodes s) of
                  (None, ns) \<Rightarrow> Inr (None, s\<lparr> vf_nodes := ns \<rparr>)
                | (Some i, ns) \<Rightarrow>
                    let s1 = s\<lparr> vf_nodes := ns \<rparr>
                    in res_bind (evict api i s1) (\<lambda>ok. if \<not> ok then Inr (None, s1) else fill_slot api v i s1)))"

definition GetVfsNode :: "'f fs_api \<Rightarrow> vfs_id \<Rightarrow> bool \<Rightarrow> 'f vfs \<Rightarrow> (nat option \<times> 'f vfs) res" where
  "GetVfsNode api v traverseLinks s =
     res_bind (GetVfsNodeInternal api v s) (\<lambda>(h, s1).
       case h of
         None \<Rightarrow> Inr (None, s1)
       | Some i \<Rightarrow>
           if traverseLinks \<and> vn_type (vf_nodes s1 ! i) = N_Link
           then res_bind (GetVfsNodeInternal api (vn_bond (vf_nodes s1 ! i)) s1) (\<lambda>(g, s2). Inr (g, release i s2))
           else Inr (Some i, s1))"

text \<open>An operation on a node: take a handle, run the body, release the handle.\<close>

definition with_node ::
  "'f fs_api \<Rightarrow> vfs_id \<Rightarrow> bool \<Rightarrow> 'r \<Rightarrow> (nat \<Rightarrow> 'f vfs \<Rightarrow> ('r \<times> 'f vfs) res) \<Rightarrow> 'f vfs \<Rightarrow> ('r \<times> 'f vfs) res" where
  "with_node api v traverse bad body s =
     res_bind (GetVfsNode api v traverse s) (\<lambda>(h, s1).
       case h of
         None \<Rightarrow> Inr (bad, s1)
       | Some i \<Rightarrow> res_bind (body i s1) (\<lambda>(r, s2). Inr (r, release i s2)))"

text \<open>The same with the driver of the node.\<close>

definition with_driver ::
  "'f fs_api \<Rightarrow> vfs_id \<Rightarrow> bool \<Rightarrow> 'r \<Rightarrow> (nat \<Rightarrow> vfs_id \<Rightarrow> 'f \<Rightarrow> 'f vfs \<Rightarrow> ('r \<times> 'f vfs) res) \<Rightarrow> 'f vfs \<Rightarrow>
     ('r \<times> 'f vfs) res" where
  "with_driver api v traverse bad body s =
     with_node api v traverse bad (\<lambda>i s1.
       let n = vn_vid (vf_nodes s1 ! i)
       in case vf_drivers s1 (vi_driver n) of None \<Rightarrow> Inr (bad, s1) | Some f \<Rightarrow> body i n f s1) s"

subsection \<open>Operations\<close>

definition trim_name :: "char list \<Rightarrow> char list" where
  "trim_name name = rev (dropWhile (\<lambda>c. c = NUL) (rev name))"

definition dotdot :: "char list" where
  "dotdot = ''..''"

definition ask_child :: "'f fs_api \<Rightarrow> char list \<Rightarrow> vfs_id \<Rightarrow> 'f \<Rightarrow> 'f vfs \<Rightarrow> (vfs_id option \<times> 'f vfs) res" where
  "ask_child api name n f s =
     res_bind (fa_find_child api (vi_vnode n) name f) (\<lambda>found.
       Inr (if found = NPK_INVALID_HANDLE then None else Some \<lparr> vi_driver = vi_driver n, vi_vnode = found \<rparr>, s))"

definition VfsFindChild :: "'f fs_api \<Rightarrow> vfs_id \<Rightarrow> char list \<Rightarrow> 'f vfs \<Rightarrow> (vfs_id option \<times> 'f vfs) res" where
  "VfsFindChild api dir name0 s =
     (let name = trim_name name0
      in if name = [] then Inr (None, s)
         else with_driver api dir True None (\<lambda>i n f s1.
           if name = dotdot \<and> vi_vnode dir = fa_get_root api f
           then case occluded_dir (vi_driver n) s1 of
                  None \<Rightarrow> Inr (None, s1)
                | Some parent \<Rightarrow> with_driver api parent False None (\<lambda>j m g s2. ask_child api name m g s2) s1
           else ask_child api name n f s1) s)"

definition VfsGetAttribs ::
  "'f fs_api \<Rightarrow> vfs_id \<Rightarrow> 'f vfs \<Rightarrow> ((node_type \<times> size_t \<times> char list) option \<times> 'f vfs) res" where
  "VfsGetAttribs api node s =
     (let ask = (\<lambda>i n f s1.
            res_bind (fa_get_attribs api (vi_vnode n) f) (\<lambda>a.
              case a of
                None \<Rightarrow> Inr (None, s1)
              | Some (sz, nm) \<Rightarrow>
                  res_bind (String_span nm) (\<lambda>name. Inr (Some (vn_type (vf_nodes s1 ! i), sz, str_text name), s1))))
      in with_driver api node False None (\<lambda>i n f s1.
           if vi_vnode node = fa_get_root api f
           then case occluded_dir (vi_driver n) s1 of
                  None \<Rightarrow> Inr (None, s1)
                | Some occ \<Rightarrow> with_driver api occ False None ask s1
           else ask i n f s1) s)"

definition VfsSetAttribs ::
  "'f fs_api \<Rightarrow> vfs_id \<Rightarrow> size_t \<times> char list \<Rightarrow> bool \<Rightarrow> bool \<Rightarrow> 'f vfs \<Rightarrow> (bool \<times> 'f vfs) res" where
  "VfsSetAttribs api node attribs flag_size flag_name s =
     with_driver api node True False (\<lambda>i n f s1.
       res_bind (fa_set_attribs api (vi_vnode n) attribs flag_size flag_name f) (\<lambda>(ok, g).
         let s2 = s1\<lparr> vf_drivers := (vf_drivers s1)(vi_driver n := Some g) \<rparr>
         in if \<not> ok then Inr (False, s2)
            else if vn_type (vf_nodes s2 ! i) = N_File \<and> flag_size
            then case SetFileCacheLength (vn_cache (vf_nodes s2 ! i)) (fst attribs) (vf_files s2) of
                   None \<Rightarrow> Inl Diverges
                 | Some (_, files) \<Rightarrow> Inr (True, s2\<lparr> vf_files := files \<rparr>)
            else Inr (True, s2))) s"

definition VfsReadDir :: "'f fs_api \<Rightarrow> vfs_id \<Rightarrow> 'f vfs \<Rightarrow> (vfs_id list option \<times> 'f vfs) res" where
  "VfsReadDir api dir s =
     with_driver api dir True None (\<lambda>i n f s1.
       if vn_type (vf_nodes s1 ! i) \<noteq> N_Directory then Inr (None, s1)
       else res_bind (fa_read_dir api (vi_vnode n) True f) (\<lambda>r.
         Inr (map_option (\<lambda>(cnt, hs). map (\<lambda>h. \<lparr> vi_driver = vi_driver n, vi_vnode = h \<rparr>) hs) r, s1))) s"

definition VfsCreate ::
  "'f fs_api \<Rightarrow> vfs_id \<Rightarrow> node_type \<Rightarrow> char list \<Rightarrow> 'f vfs \<Rightarrow> (vfs_id option \<times> 'f vfs) res" where
  "VfsCreate api dir ty name0 s =
     (let name = trim_name name0
      in with_driver api dir True None (\<lambda>i n f s1.
           if vn_type (vf_nodes s1 ! i) \<noteq> N_Directory then Inr (None, s1)
           else res_bind (fa_create api (vi_vnode n) ty name f) (\<lambda>(h, g).
             Inr (if h = NPK_INVALID_HANDLE then None else Some \<lparr> vi_driver = vi_driver n, vi_vnode = h \<rparr>,
                  s1\<lparr> vf_drivers := (vf_drivers s1)(vi_driver n := Some g) \<rparr>))) s)"

definition VfsRemove :: "'f fs_api \<Rightarrow> vfs_id \<Rightarrow> vfs_id \<Rightarrow> 'f vfs \<Rightarrow> (bool \<times> 'f vfs) res" where
  "VfsRemove api dir node s = with_node api dir True False (\<lambda>i s1. Inl Unreachable_Hit) s"

subsection \<open>Paths\<close>

text \<open>
  The loop of \<open>VfsLookup\<close> holds a handle to the node found so far; an assignment to it releases the
  old node after the new one was taken. The last node is dereferenced without a check.
\<close>

lemma next_seg_end:
  assumes "GetNextSeg buf u prev = Inr seg" and "\<not> us_Empty prev" and "\<not> us_Empty seg"
  shows "us_End prev < us_End (u_path u)" and "us_End prev < us_End seg"
  using assms by (auto simp: GetNextSeg_def Let_def us_Empty_def us_none_def us_End_def res_bind_Inr split: if_splits)

function lookup_loop ::
  "'f fs_api \<Rightarrow> char list \<Rightarrow> url \<Rightarrow> nat option \<Rightarrow> uspan \<Rightarrow> 'f vfs \<Rightarrow> (vfs_id option \<times> 'f vfs) res" where
  "lookup_loop api buf u selectedNode seg s =
     (if us_Empty seg
      then case selectedNode of
             None \<Rightarrow> Inl Null_Deref
           | Some i \<Rightarrow> Inr (Some (vn_vid (vf_nodes s ! i)), release i s)
      else case selectedNode of
             None \<Rightarrow> Inr (None, s)
           | Some i \<Rightarrow>
               (case VfsFindChild api (vn_vid (vf_nodes s ! i)) (us_text buf seg) s of
                  Inl e \<Rightarrow> Inl e
                | Inr (None, s1) \<Rightarrow> Inr (None, release i s1)
                | Inr (Some childId, s1) \<Rightarrow>
                    (case GetVfsNode api childId True s1 of
                       Inl e \<Rightarrow> Inl e
                     | Inr (h, s2) \<Rightarrow>
                         (case GetNextSeg buf u seg of
                            Inl e \<Rightarrow> Inl e
                          | Inr seg1 \<Rightarrow> lookup_loop api buf u h seg1 (release i s2)))))"
  by pat_completeness auto
termination
  by (relation "measure (\<lambda>(api, buf, u, h, seg, s). if us_Empty seg then 0 else Suc (us_End (u_path u) - us_End seg))")
    (use next_seg_end in \<open>auto intro: diff_less_mono2\<close>)

declare lookup_loop.simps [simp del]

definition VfsLookup :: "'f fs_api \<Rightarrow> char list \<Rightarrow> nat \<Rightarrow> 'f vfs \<Rightarrow> (vfs_id option \<times> 'f vfs) res" where
  "VfsLookup api buf n s =
     (if n = 0 then Inr (None, s)
      else res_bind (rd buf 0) (\<lambda>c.
        if c \<noteq> CHR ''/'' then Inr (None, s)
        else res_bind (Parse buf n) (\<lambda>u.
             res_bind (GetNextSeg buf u us_none) (\<lambda>seg.
             res_bind (GetVfsNode api (vf_root s) True s) (\<lambda>(h, s1). lookup_loop api buf u h seg s1)))))"

text \<open>Following \<open>..\<close> upwards need not end: the drivers decide what the parent of a node is.\<close>

partial_function (option) ancestor_names ::
  "'f fs_api \<Rightarrow> vfs_id \<Rightarrow> char list list \<Rightarrow> 'f vfs \<Rightarrow> ((char list list option \<times> 'f vfs) res) option" where
  "ancestor_names api v names s =
     (case VfsGetAttribs api v s of
        Inl e \<Rightarrow> Some (Inl e)
      | Inr (None, s1) \<Rightarrow> Some (Inr (Some names, s1))
      | Inr (Some (ty, sz, name), s1) \<Rightarrow>
          (case VfsFindChild api v dotdot s1 of
             Inl e \<Rightarrow> Some (Inl e)
           | Inr (None, s2) \<Rightarrow> Some (Inr (Some (names @ [name]), s2))
           | Inr (Some parent, s2) \<Rightarrow>
               if vi_driver v = vi_driver parent \<and> vi_vnode v = vi_vnode parent then Some (Inr (None, s2))
               else ancestor_names api parent (names @ [name]) s2))"

text \<open>The names are copied into the buffer from its end, each behind a slash.\<close>

fun copy_names :: "char list list \<Rightarrow> nat \<Rightarrow> char list \<Rightarrow> nat \<times> char list" where
  "copy_names [] at buffer = (at, buffer)"
| "copy_names (x # xs) at buffer =
     (let b1 = buffer[at - 1 := CHR ''/''];
          at1 = at - 1 - length x
      in copy_names xs at1 (take at1 b1 @ x @ drop (at1 + length x) b1))"

definition build_path :: "char list list \<Rightarrow> char list res" where
  "build_path names =
     (let pathLength = 1 + sum_list (map (\<lambda>x. 1 + length x) names);
          (at, b1) = copy_names names pathLength (replicate pathLength NUL);
          b2 = b1[at - 1 := CHR ''/''];
          b3 = b2[pathLength - 1 := NUL]
      in if at - 1 \<noteq> 0 then Inl Assert_Failed else Inr b3)"

definition VfsGetPath :: "'f fs_api \<Rightarrow> vfs_id \<Rightarrow> 'f vfs \<Rightarrow> (sl_string \<times> 'f vfs) res" where
  "VfsGetPath api v s =
     (case ancestor_names api v [] s of
        None \<Rightarrow> Inl Diverges
      | Some r \<Rightarrow> res_bind r (\<lambda>(names, s1).
          case names of
            None \<Rightarrow> Inr (String_empty, s1)
          | Some ns \<Rightarrow> res_bind (build_path ns) (\<lambda>buffer.
              res_bind (String_buf buffer True) (\<lambda>path. Inr (path, s1)))))"

subsection \<open>Mounting\<close>

definition MountingConditionsMet :: "'f fs_api \<Rightarrow> nat \<Rightarrow> size_t \<Rightarrow> 'f vfs \<Rightarrow> bool res" where
  "MountingConditionsMet api i fsDriverId s =
     (let node = vf_nodes s ! i
      in if vn_type node \<noteq> N_Directory then Inr False
         else if \<not> (vi_driver (vn_bond node) = 0 \<and> vi_vnode (vn_bond node) = 0) then Inr False
         else case vf_drivers s (vi_driver (vn_vid node)) of
                None \<Rightarrow> Inl Null_Deref
              | Some f \<Rightarrow>
                  res_bind (fa_read_dir api (vi_vnode (vn_vid node)) False f) (\<lambda>r.
                    case r of
                      None \<Rightarrow> Inr False
                    | Some (childCount, _) \<Rightarrow> Inr (childCount = 0 \<and> vf_is_fs s fsDriverId)))"

text \<open>The options are not used. Their record in the list of mounts has its default values.\<close>

definition VfsMount :: "'f fs_api \<Rightarrow> vfs_id \<Rightarrow> size_t \<Rightarrow> mount_options \<Rightarrow> 'f vfs \<Rightarrow> (bool \<times> 'f vfs) res" where
  "VfsMount api mountpoint fsDriverId options s =
     with_node api mountpoint True False (\<lambda>i s1.
       case vf_drivers s1 fsDriverId of
         None \<Rightarrow> Inr (False, s1)
       | Some f \<Rightarrow>
           res_bind (MountingConditionsMet api i fsDriverId s1) (\<lambda>met.
             if \<not> met \<or> \<not> fa_mount api f then Inr (False, s1)
             else let target = vn_vid (vf_nodes s1 ! i);
                      s2 = upd_node i (\<lambda>n. n\<lparr> vn_type := N_Link,
                             vn_bond := \<lparr> vi_driver = fsDriverId, vi_vnode = fa_get_root api f \<rparr> \<rparr>) s1;
                      s3 = s2\<lparr> vf_mounts := vf_mounts s2 @ [\<lparr> mi_occluded = target, mi_driver = fsDriverId,
                             mi_opts = \<lparr> mo_writable = False, mo_uncachable = False \<rparr> \<rparr>] \<rparr>
                  in res_bind (VfsGetPath api target s3) (\<lambda>(name, s4). Inr (True, s4)))) s"

subsection \<open>The temporary filesystem as a driver\<close>

definition tempfs_api :: "tfs_data fs_api" where
  "tempfs_api = \<lparr> fa_get_root = TempFsGetRoot, fa_enter_cache = TempFsEnterCache, fa_exit_cache = TempFsExitCache,
     fa_mount = TempFsMount, fa_create = TempFsCreate, fa_find_child = TempFsFindChild,
     fa_get_attribs = (\<lambda>h d. res_bind (TempFsGetAttribs h d) (\<lambda>a. Inr (Some a))),
     fa_set_attribs = TempFsSetAttribs,
     fa_read_dir = (\<lambda>h b d. res_bind (TempFsReadDir h b d) (\<lambda>r. Inr (Some r))) \<rparr>"

end
