(* ===== verification/Vfs_Cache.thy ===== *)
theory Vfs_Cache
  imports Vfs
begin

text \<open>
  What the cache of the virtual filesystem promises to its users, for every driver that keeps the
  contract \<open>fs_driver\<close>: \<open>GetVfsNode\<close> returns a handle to a slot with the
  node asked for, and neither the use of slots nor the handles taken and released on the way change what any
  node looks like (\<open>vface\<close>). A mount point exists only in its slot, and \<open>VfsMount\<close> keeps no reference to it, so it is lost when the slot is
  reused. That happens only when no slot is unused: the statements hold as long as there are unused slots, and, if every mount
  point is referenced (\<open>pin\<close>; the list \<open>b\<close> has the references that others hold), also when nodes have to be evicted.
\<close>

subsection \<open>Drivers\<close>

locale fs_driver =
  fixes api :: "'f fs_api" and fs_wf :: "'f \<Rightarrow> bool" and valid :: "'f \<Rightarrow> size_t \<Rightarrow> bool"
  assumes valid_handle: "valid f h \<Longrightarrow> h \<noteq> NPK_INVALID_HANDLE"
    and root_valid: "fs_wf f \<Longrightarrow> valid f (fa_get_root api f)"
    and enter_total: "fs_wf f \<Longrightarrow> valid f h \<Longrightarrow> \<exists>t. fa_enter_cache api h f = Inr t"
    and exit_ok: "fa_exit_cache api h f"
    and find_valid: "fs_wf f \<Longrightarrow> valid f h \<Longrightarrow>
      \<exists>r. fa_find_child api h x f = Inr r \<and> (r = NPK_INVALID_HANDLE \<or> valid f r)"

subsection \<open>Consistent caches\<close>

definition valid_id :: "('f \<Rightarrow> size_t \<Rightarrow> bool) \<Rightarrow> 'f vfs \<Rightarrow> vfs_id \<Rightarrow> bool" where
  "valid_id valid s v \<longleftrightarrow> vi_driver v \<noteq> 0 \<and> (\<exists>f. vf_drivers s (vi_driver v) = Some f \<and> valid f (vi_vnode v))"

definition null_id :: "vfs_id \<Rightarrow> bool" where
  "null_id v \<longleftrightarrow> vi_driver v = 0 \<or> vi_vnode v = 0"

definition id_ok :: "('f \<Rightarrow> size_t \<Rightarrow> bool) \<Rightarrow> 'f vfs \<Rightarrow> vfs_id \<Rightarrow> bool" where
  "id_ok valid s v \<longleftrightarrow> null_id v \<or> valid_id valid s v"

text \<open>What a node looks like when it enters the cache.\<close>

definition entered :: "'f fs_api \<Rightarrow> 'f vfs \<Rightarrow> vfs_id \<Rightarrow> node_type" where
  "entered api s v =
     (case vf_drivers s (vi_driver v) of
        None \<Rightarrow> N_File
      | Some f \<Rightarrow> (case fa_enter_cache api (vi_vnode v) f of Inl e \<Rightarrow> N_File | Inr t \<Rightarrow> t))"

text \<open>
  A slot, when others hold \<open>base\<close> references to its node. With \<open>pin\<close>, a node without such references looks as if it had just been
  entered, so that nothing is lost when it is evicted.
\<close>

definition slot_ok :: "'f fs_api \<Rightarrow> ('f \<Rightarrow> size_t \<Rightarrow> bool) \<Rightarrow> bool \<Rightarrow> 'f vfs \<Rightarrow> nat \<Rightarrow> vfs_node \<Rightarrow> bool" where
  "slot_ok api valid pin s base n \<longleftrightarrow>
     \<not> vn_busy n \<and> base \<le> vn_refs n \<and> (null_id (vn_vid n) \<longrightarrow> vn_vid n = no_id \<and> vn_refs n = 0) \<and>
     (\<not> null_id (vn_vid n) \<longrightarrow> valid_id valid s (vn_vid n) \<and> id_ok valid s (vn_bond n) \<and>
        (pin \<and> base = 0 \<longrightarrow> vn_type n = entered api s (vn_vid n) \<and> vn_bond n = no_id))"

definition cache_ok :: "'f fs_api \<Rightarrow> ('f \<Rightarrow> size_t \<Rightarrow> bool) \<Rightarrow> bool \<Rightarrow> nat list \<Rightarrow> 'f vfs \<Rightarrow> bool" where
  "cache_ok api valid pin b s \<longleftrightarrow>
     length b = length (vf_nodes s) \<and>
     (\<forall>i < length b. slot_ok api valid pin s (b ! i) (vf_nodes s ! i)) \<and>
     (\<forall>i < length b. \<forall>j < length b. i \<noteq> j \<and> vn_vid (vf_nodes s ! i) = vn_vid (vf_nodes s ! j) \<longrightarrow>
        null_id (vn_vid (vf_nodes s ! i)))"

abbreviation refs_of :: "'f vfs \<Rightarrow> nat list" where
  "refs_of s \<equiv> map vn_refs (vf_nodes s)"

text \<open>The type of a node and where it links to, whether it is cached or not.\<close>

definition vface :: "'f fs_api \<Rightarrow> 'f vfs \<Rightarrow> vfs_id \<Rightarrow> node_type \<times> vfs_id" where
  "vface api s v =
     (case find_slot v (vf_nodes s) 0 of
        Some i \<Rightarrow> (vn_type (vf_nodes s ! i), vn_bond (vf_nodes s ! i))
      | None \<Rightarrow> (entered api s v, no_id))"

text \<open>The states an operation may lead to that does not change the filesystems.\<close>

definition kept :: "'f fs_api \<Rightarrow> 'f vfs \<Rightarrow> 'f vfs \<Rightarrow> bool" where
  "kept api s s1 \<longleftrightarrow>
     vf_drivers s1 = vf_drivers s \<and> vf_is_fs s1 = vf_is_fs s \<and> vf_mounts s1 = vf_mounts s \<and> vf_root s1 = vf_root s \<and>
     (\<forall>v. \<not> null_id v \<longrightarrow> vface api s1 v = vface api s v)"

lemma kept_refl [simp]: "kept api s s"
  by (simp add: kept_def)

lemma kept_trans: "kept api s s1 \<Longrightarrow> kept api s1 s2 \<Longrightarrow> kept api s s2"
  by (simp add: kept_def)

lemma vid_eq: "(v :: vfs_id) = w \<longleftrightarrow> vi_driver v = vi_driver w \<and> vi_vnode v = vi_vnode w"
  by (cases v; cases w) simp

lemma no_id_null [simp]: "null_id no_id"
  by (simp add: null_id_def no_id_def)

lemma find_slot_Some: "find_slot v ns k = Some i \<Longrightarrow> k \<le> i \<and> i - k < length ns \<and> vn_vid (ns ! (i - k)) = v"
proof (induction v ns k rule: find_slot.induct)
  case (2 v n ns k)
  then show ?case by (cases "i = k") (fastforce simp: vid_eq nth_Cons' split: if_splits)+
qed simp

lemma find_slot_None: "find_slot v ns k = None \<longleftrightarrow> (\<forall>n \<in> set ns. vn_vid n \<noteq> v)"
  by (induction v ns k rule: find_slot.induct) (auto simp: vid_eq)

lemma cache_okD:
  assumes "cache_ok api valid pin b s" and "i < length (vf_nodes s)"
  shows "slot_ok api valid pin s (b ! i) (vf_nodes s ! i)"
    "j < length (vf_nodes s) \<Longrightarrow> vn_vid (vf_nodes s ! i) = vn_vid (vf_nodes s ! j) \<Longrightarrow>
     \<not> null_id (vn_vid (vf_nodes s ! i)) \<Longrightarrow> i = j"
  using assms unfolding cache_ok_def by (simp, metis)

lemma vface_slot:
  assumes "cache_ok api valid pin b s" and "i < length (vf_nodes s)" and "\<not> null_id (vn_vid (vf_nodes s ! i))"
  shows "find_slot (vn_vid (vf_nodes s ! i)) (vf_nodes s) 0 = Some i"
    "vface api s (vn_vid (vf_nodes s ! i)) = (vn_type (vf_nodes s ! i), vn_bond (vf_nodes s ! i))"
proof -
  have "find_slot (vn_vid (vf_nodes s ! i)) (vf_nodes s) 0 \<noteq> None"
    using assms(2) by (auto simp: find_slot_None)
  then obtain j where j: "find_slot (vn_vid (vf_nodes s ! i)) (vf_nodes s) 0 = Some j" by blast
  have "i = j" using cache_okD(2) [OF assms(1,2)] find_slot_Some [OF j] assms(3) by simp
  with j show "find_slot (vn_vid (vf_nodes s ! i)) (vf_nodes s) 0 = Some i"
    "vface api s (vn_vid (vf_nodes s ! i)) = (vn_type (vf_nodes s ! i), vn_bond (vf_nodes s ! i))"
    by (simp_all add: vface_def)
qed

lemma vface_miss: "\<forall>n \<in> set (vf_nodes s). vn_vid n \<noteq> v \<Longrightarrow> vface api s v = (entered api s v, no_id)"
  by (simp add: vface_def flip: find_slot_None [of _ _ 0])

subsection \<open>The search for a slot\<close>

lemma set_busy_nth [simp]:
  "vn_refs (set_busy a x ns ! i) = vn_refs (ns ! i)" "vn_vid (set_busy a x ns ! i) = vn_vid (ns ! i)"
  by (cases "a < length ns"; simp add: set_busy_def nth_list_update list_update_beyond)+

lemma set_busy_length [simp]: "length (set_busy a x ns) = length ns"
  by (simp add: set_busy_def)

lemma set_busy_move:
  assumes "i \<noteq> a" and "a < length ns" and "\<not> vn_busy (ns ! a)"
  shows "set_busy a False (set_busy i True (set_busy a True ns)) = set_busy i True ns"
proof -
  have "(ns ! a)\<lparr> vn_busy := False \<rparr> = ns ! a" using assms(3) by (cases "ns ! a") simp
  then show ?thesis using assms(1,2) by (auto simp: set_busy_def list_update_swap [of i a] nth_list_update)
qed

definition unused :: "vfs_node \<Rightarrow> bool" where
  "unused n \<longleftrightarrow> vn_refs n = 0 \<and> vi_vnode (vn_vid n) = 0"

lemma slot_scan_Some:
  assumes "\<forall>n \<in> set ns. \<not> vn_busy n" and "a < length ns" and "\<forall>i \<in> set is. i < length ns"
    and "vn_refs (ns ! a) = 0"
  shows "\<exists>c. slot_scan is (Some a) (set_busy a True ns) = (Some c, set_busy c True ns) \<and>
    c < length ns \<and> vn_refs (ns ! c) = 0 \<and> ((\<exists>i \<in> insert a (set is). unused (ns ! i)) \<longrightarrow> unused (ns ! c))"
  using assms(2-4)
proof (induction "is" arbitrary: a)
  case (Cons i xs)
  let ?ns = "set_busy a True ns"
  have busy: "vn_busy (?ns ! i) \<longleftrightarrow> i = a"
    using Cons.prems assms(1) by (auto simp: set_busy_def nth_list_update)
  show ?case
  proof (cases "vn_refs (ns ! i) = 0 \<and> vi_vnode (vn_vid (ns ! a)) \<noteq> 0 \<and> vi_vnode (vn_vid (ns ! i)) = 0 \<and> i \<noteq> a")
    case True
    moreover have "set_busy a False (set_busy i True ?ns) = set_busy i True ns"
      using True Cons.prems assms(1) by (intro set_busy_move) auto
    ultimately show ?thesis using Cons.prems by (simp add: slot_step_def busy unused_def)
  next
    case False
    then have "vn_refs (ns ! i) = 0 \<Longrightarrow> slot_step i (Some a) ?ns = (Some a, ?ns)"
      by (auto simp: slot_step_def busy)
    moreover have "unused (ns ! i) \<Longrightarrow> unused (ns ! a)" using False Cons.prems by (auto simp: unused_def)
    ultimately show ?thesis using Cons.prems Cons.IH [of a] by (auto simp: unused_def)
  qed
qed simp

text \<open>The slot found is a slot without references, and an unused one if there is any. It is marked busy.\<close>

lemma slot_scan_None:
  assumes "\<forall>n \<in> set ns. \<not> vn_busy n" and "\<forall>i \<in> set is. i < length ns" and "\<exists>i \<in> set is. vn_refs (ns ! i) = 0"
  shows "\<exists>c. slot_scan is None ns = (Some c, set_busy c True ns) \<and> c < length ns \<and> vn_refs (ns ! c) = 0 \<and>
    ((\<exists>i \<in> set is. unused (ns ! i)) \<longrightarrow> unused (ns ! c))"
  using assms(2,3)
proof (induction "is")
  case (Cons i xs)
  show ?case
  proof (cases "vn_refs (ns ! i) = 0")
    case True
    moreover have "slot_step i None ns = (Some i, set_busy i True ns)"
      using assms(1) Cons.prems(1) by (simp add: slot_step_def)
    ultimately show ?thesis
      using slot_scan_Some [OF assms(1), of i xs] Cons.prems(1) by (auto simp: unused_def)
  next
    case False
    then show ?thesis using Cons by (simp add: unused_def)
  qed
qed simp

subsection \<open>Handles\<close>

lemma drivers_cong:
  assumes "vf_drivers s1 = vf_drivers s"
  shows "slot_ok api valid pin s1 = slot_ok api valid pin s" "valid_id valid s1 = valid_id valid s"
    "id_ok valid s1 = id_ok valid s" "entered api s1 = entered api s"
  using assms by (auto simp: slot_ok_def valid_id_def id_ok_def entered_def fun_eq_iff)

lemma cache_ok_refs:
  assumes "cache_ok api valid pin b s" and "i < length (vf_nodes s)" and "b ! i \<le> r" and "\<not> null_id (vn_vid (vf_nodes s ! i))"
  shows "cache_ok api valid pin b (upd_node i (\<lambda>n. n\<lparr> vn_refs := r \<rparr>) s)"
    and "kept api s (upd_node i (\<lambda>n. n\<lparr> vn_refs := r \<rparr>) s)"
proof -
  let ?s = "upd_node i (\<lambda>n. n\<lparr> vn_refs := r \<rparr>) s"
  have d: "vf_drivers ?s = vf_drivers s" by (simp add: upd_node_def)
  have vids: "map vn_vid (vf_nodes ?s) = map vn_vid (vf_nodes s)"
    using assms(2) by (auto simp: upd_node_def map_update intro!: nth_equalityI simp: nth_list_update)
  then have vid: "j < length (vf_nodes s) \<Longrightarrow> vn_vid (vf_nodes ?s ! j) = vn_vid (vf_nodes s ! j)" for j
    by (metis length_map nth_map)
  have "slot_ok api valid pin s (b ! j) (vf_nodes ?s ! j)" if "j < length (vf_nodes s)" for j
    using cache_okD(1) [OF assms(1) that] assms(2-4) that by (auto simp: upd_node_def nth_list_update slot_ok_def)
  moreover have "length (vf_nodes ?s) = length (vf_nodes s)" by (simp add: upd_node_def)
  ultimately show ok: "cache_ok api valid pin b ?s"
    using assms(1) vid by (auto simp: cache_ok_def drivers_cong [OF d])
  have face: "vface api ?s v = vface api s v" if "\<not> null_id v" for v
  proof (cases "find_slot v (vf_nodes s) 0")
    case None
    then have "v \<notin> vn_vid ` set (vf_nodes s)" by (auto simp: find_slot_None)
    then have "v \<notin> vn_vid ` set (vf_nodes ?s)" by (metis vids list.set_map)
    with None show ?thesis
      by (subst (1 2) vface_miss) (auto simp: find_slot_None drivers_cong [OF d])
  next
    case (Some j)
    then have j: "j < length (vf_nodes s)" "vn_vid (vf_nodes s ! j) = v" using find_slot_Some by fastforce+
    then have "vface api ?s v = (vn_type (vf_nodes ?s ! j), vn_bond (vf_nodes ?s ! j))"
      using vface_slot(2) [OF ok, of j] vid that by (simp add: upd_node_def)
    with Some assms(2) j show ?thesis by (auto simp: vface_def upd_node_def nth_list_update)
  qed
  then show "kept api s ?s" by (auto simp: kept_def upd_node_def)
qed

lemma refs_upd: "refs_of (upd_node i (\<lambda>n. n\<lparr> vn_refs := r \<rparr>) s) = (refs_of s)[i := r]"
  by (simp add: upd_node_def map_update)

lemma acquire_alt: "acquire i s = upd_node i (\<lambda>n. n\<lparr> vn_refs := Suc (vn_refs (vf_nodes s ! i)) \<rparr>) s"
  by (simp add: acquire_def upd_node_def)

lemma release_alt: "release i s = upd_node i (\<lambda>n. n\<lparr> vn_refs := vn_refs (vf_nodes s ! i) - 1 \<rparr>) s"
  by (simp add: release_def upd_node_def)

definition bump :: "nat \<Rightarrow> nat list \<Rightarrow> nat list" where
  "bump i rs = rs[i := Suc (rs ! i)]"

definition unbump :: "nat \<Rightarrow> nat list \<Rightarrow> nat list" where
  "unbump i rs = rs[i := rs ! i - 1]"

lemma bump_simps [simp]:
  "length (bump i rs) = length rs"
  "i < length rs \<Longrightarrow> unbump i (bump i rs) = rs"
  "i < length rs \<Longrightarrow> j < length rs \<Longrightarrow> unbump i (bump j (bump i rs)) = bump j rs"
  by (auto simp: bump_def unbump_def nth_list_update list_update_swap [of j i] intro: nth_equalityI)

lemma bump_free: "length (filter (\<lambda>r. r = 0) rs) \<le> Suc (length (filter (\<lambda>r. r = 0) (bump i rs)))"
  unfolding bump_def by (induction rs arbitrary: i) (auto split: nat.split)

text \<open>A handle to slot \<open>i\<close> was taken: the cache is consistent and only the reference count of the slot changed.\<close>

definition taken :: "'f fs_api \<Rightarrow> ('f \<Rightarrow> size_t \<Rightarrow> bool) \<Rightarrow> bool \<Rightarrow> nat list \<Rightarrow> 'f vfs \<Rightarrow> vfs_id \<Rightarrow> nat \<Rightarrow> 'f vfs \<Rightarrow> bool" where
  "taken api valid pin b s v i s1 \<longleftrightarrow>
     cache_ok api valid pin b s1 \<and> kept api s s1 \<and> i < length (vf_nodes s1) \<and> vn_vid (vf_nodes s1 ! i) = v \<and>
     (vn_type (vf_nodes s1 ! i), vn_bond (vf_nodes s1 ! i)) = vface api s v \<and>
     length (vf_nodes s1) = length (vf_nodes s) \<and> refs_of s1 = bump i (refs_of s)"

lemma release_ok:
  assumes "cache_ok api valid pin b s" and "i < length (vf_nodes s)" and "b ! i < refs_of s ! i"
  shows "cache_ok api valid pin b (release i s)" "kept api s (release i s)" "refs_of (release i s) = unbump i (refs_of s)"
proof -
  have nn: "\<not> null_id (vn_vid (vf_nodes s ! i))" using cache_okD(1) [OF assms(1,2)] assms(2,3) by (auto simp: slot_ok_def)
  show "cache_ok api valid pin b (release i s)" "kept api s (release i s)"
    using cache_ok_refs [OF assms(1,2) _ nn] assms(2,3) by (simp_all add: release_alt)
  show "refs_of (release i s) = unbump i (refs_of s)"
    using assms(2) unfolding release_alt refs_upd by (simp add: unbump_def)
qed

lemma acquire_taken:
  assumes "cache_ok api valid pin b s" and "find_slot v (vf_nodes s) 0 = Some i" and "\<not> null_id v"
  shows "taken api valid pin b s v i (acquire i s)"
proof -
  have i: "i < length (vf_nodes s)" "vn_vid (vf_nodes s ! i) = v" using find_slot_Some [OF assms(2)] by simp_all
  have "b ! i \<le> Suc (vn_refs (vf_nodes s ! i))"
    using cache_okD(1) [OF assms(1) i(1)] by (simp add: slot_ok_def)
  note k = cache_ok_refs [OF assms(1) i(1) this, unfolded i(2), OF assms(3)]
  show ?thesis
    using k i vface_slot(2) [OF assms(1) i(1)] assms(3) refs_upd [of i "Suc (vn_refs (vf_nodes s ! i))" s]
    by (simp add: taken_def bump_def acquire_alt upd_node_def)
qed

text \<open>Filling a slot with a node that is not cached. What the slot had is lost.\<close>

lemma fill_taken:
  assumes ok: "cache_ok api valid pin b s" and i: "i < length (vf_nodes s)" "vn_refs (vf_nodes s ! i) = 0" "pin \<or> unused (vf_nodes s ! i)"
    and v: "valid_id valid s v" "\<not> null_id v" "\<forall>n \<in> set (vf_nodes s). vn_vid n \<noteq> v"
    and n: "n = \<lparr> vn_refs = 1, vn_type = entered api s v, vn_cache = c, vn_vid = v, vn_bond = no_id, vn_busy = False \<rparr>"
    and s1: "s1 = s\<lparr> vf_files := files, vf_nodes := (vf_nodes s)[i := n] \<rparr>"
  shows "taken api valid pin b s v i s1"
proof -
  have d: "vf_drivers s1 = vf_drivers s" by (simp add: s1)
  have b0: "b ! i = 0" and old: "\<not> null_id (vn_vid (vf_nodes s ! i)) \<Longrightarrow>
      vn_type (vf_nodes s ! i) = entered api s (vn_vid (vf_nodes s ! i)) \<and> vn_bond (vf_nodes s ! i) = no_id"
    using cache_okD(1) [OF ok i(1)] i(2,3) by (auto simp: slot_ok_def unused_def null_id_def)
  have fresh: "j < length (vf_nodes s) \<Longrightarrow> vn_vid (vf_nodes s ! j) \<noteq> v" for j using v(3) by simp
  have "slot_ok api valid pin s (b ! j) (vf_nodes s1 ! j)" if "j < length (vf_nodes s)" for j
    using cache_okD(1) [OF ok that] that b0 v(1,2) by (cases "j = i") (auto simp: s1 n slot_ok_def id_ok_def)
  moreover have "null_id (vn_vid (vf_nodes s1 ! j))"
    if "j < length (vf_nodes s)" "k < length (vf_nodes s)" "j \<noteq> k" "vn_vid (vf_nodes s1 ! j) = vn_vid (vf_nodes s1 ! k)" for j k
    using that fresh cache_okD(2) [OF ok that(1,2)] by (cases "j = i"; cases "k = i") (auto simp: s1 n)
  ultimately have ok1: "cache_ok api valid pin b s1"
    using ok by (simp add: cache_ok_def drivers_cong [OF d]) (simp add: s1)
  have "vface api s1 w = vface api s w" if w: "\<not> null_id w" for w
  proof (cases "find_slot w (vf_nodes s1) 0")
    case None
    then have miss: "vface api s1 w = (entered api s w, no_id)" by (simp add: vface_def drivers_cong [OF d])
    from None have out: "\<forall>m \<in> set (vf_nodes s1). vn_vid m \<noteq> w" by (simp add: find_slot_None)
    show ?thesis
    proof (cases "vn_vid (vf_nodes s ! i) = w")
      case True
      then show ?thesis using vface_slot(2) [OF ok i(1)] old w miss by simp
    next
      case False
      have "vn_vid (vf_nodes s ! j) \<noteq> w" if "j < length (vf_nodes s)" for j
      proof (cases "j = i")
        case False
        then have "vf_nodes s ! j = vf_nodes s1 ! j" "j < length (vf_nodes s1)" using that by (simp_all add: s1)
        then show ?thesis using out by simp
      qed (use False in simp)
      then have "\<forall>m \<in> set (vf_nodes s). vn_vid m \<noteq> w" by (metis in_set_conv_nth)
      from miss vface_miss [OF this] show ?thesis by simp
    qed
  next
    case (Some j)
    then have j: "j < length (vf_nodes s)" "vn_vid (vf_nodes s1 ! j) = w" using find_slot_Some [OF Some] by (simp_all add: s1)
    show ?thesis
    proof (cases "j = i")
      case True
      with j Some have "w = v" "vface api s1 w = (entered api s v, no_id)" by (simp_all add: vface_def s1 n)
      with vface_miss [OF v(3)] show ?thesis by simp
    next
      case False
      with j Some show ?thesis using vface_slot(2) [OF ok j(1)] w by (simp add: vface_def s1)
    qed
  qed
  then have "kept api s s1" by (simp add: kept_def) (simp add: s1)
  with ok1 i vface_miss [OF v(3)] show ?thesis by (simp add: taken_def bump_def s1 n map_update)
qed

subsection \<open>Clients of a driver\<close>

definition drivers_ok :: "('f \<Rightarrow> bool) \<Rightarrow> 'f vfs \<Rightarrow> bool" where
  "drivers_ok fs_wf s \<longleftrightarrow> (\<forall>d f. vf_drivers s d = Some f \<longrightarrow> fs_wf f)"

text \<open>
  Room for an operation that takes up to \<open>k\<close> nodes into the cache and holds up to \<open>m\<close> handles at a time: \<open>m\<close> slots without references
  if slots may be reused, \<open>k\<close> unused slots otherwise.
\<close>

definition free_slots :: "'f vfs \<Rightarrow> nat" where
  "free_slots s = length (filter (\<lambda>r. r = 0) (refs_of s))"

definition spare :: "'f vfs \<Rightarrow> nat" where
  "spare s = length (filter (\<lambda>v. vi_vnode v = 0) (map vn_vid (vf_nodes s)))"

definition enough :: "bool \<Rightarrow> nat \<Rightarrow> nat \<Rightarrow> 'f vfs \<Rightarrow> bool" where
  "enough pin k m s \<longleftrightarrow> (if pin then m \<le> free_slots s else k \<le> spare s)"

definition spends :: "nat \<Rightarrow> 'f vfs \<Rightarrow> 'f vfs \<Rightarrow> bool" where
  "spends k s s1 \<longleftrightarrow> spare s \<le> k + spare s1"

lemma filter_one_less: "length (filter P xs) \<le> Suc (length (filter P (xs[i := x])))"
  by (induction xs arbitrary: i) (auto split: nat.split)

lemma spends_refl: "spends k s s"
  by (simp add: spends_def)

lemma spends_trans: "spends k s s1 \<Longrightarrow> spends j s1 s2 \<Longrightarrow> spends (k + j) s s2"
  by (simp add: spends_def)

lemma spends_mono: "spends k s s1 \<Longrightarrow> k \<le> j \<Longrightarrow> spends j s s1"
  by (simp add: spends_def)

lemma spends_fill: "vf_nodes s1 = (vf_nodes s)[i := n] \<Longrightarrow> spends 1 s s1"
  using filter_one_less [of "\<lambda>v. vi_vnode v = 0" "map vn_vid (vf_nodes s)" i "vn_vid n"] by (simp add: spends_def spare_def map_update)

lemma spare_refs: "spare (upd_node i (\<lambda>n. n\<lparr> vn_refs := f n \<rparr>) s) = spare s"
proof -
  have "map vn_vid (vf_nodes (upd_node i (\<lambda>n. n\<lparr> vn_refs := f n \<rparr>) s)) = map vn_vid (vf_nodes s)"
    by (cases "i < length (vf_nodes s)") (auto simp: upd_node_def map_update list_update_beyond intro!: nth_equalityI simp: nth_list_update)
  then show ?thesis by (simp only: spare_def)
qed

lemma spends_acquire: "spends k s (acquire i s)"
  by (simp add: spends_def acquire_def spare_refs)

lemma spends_release [simp]: "spends k s (release i s1) \<longleftrightarrow> spends k s s1"
  by (simp add: spends_def release_def spare_refs)

lemma enough_slot:
  assumes "cache_ok api valid pin b s" and "enough pin 1 1 s"
  shows "\<exists>i < length (vf_nodes s). vn_refs (vf_nodes s ! i) = 0 \<and> (pin \<or> unused (vf_nodes s ! i))"
proof (cases pin)
  case True
  then have "0 < length (filter (\<lambda>r. r = 0) (refs_of s))" using assms(2) by (simp only: enough_def free_slots_def if_True)
  then show ?thesis using True unfolding length_greater_0_conv by (auto simp: filter_empty_conv in_set_conv_nth)
next
  case False
  then have "0 < length (filter (\<lambda>v. vi_vnode v = 0) (map vn_vid (vf_nodes s)))" using assms(2) by (simp only: enough_def spare_def if_False)
  then obtain i where i: "i < length (vf_nodes s)" "vi_vnode (vn_vid (vf_nodes s ! i)) = 0"
    unfolding length_greater_0_conv by (auto simp: filter_empty_conv in_set_conv_nth)
  then have "vn_refs (vf_nodes s ! i) = 0" using cache_okD(1) [OF assms(1) i(1)] by (simp add: slot_ok_def null_id_def)
  with i show ?thesis by (auto simp: unused_def)
qed

lemma enough_mono: "enough pin k m s \<Longrightarrow> j \<le> k \<Longrightarrow> l \<le> m \<Longrightarrow> enough pin j l s"
  by (auto simp: enough_def)

lemma enough_refs: "enough pin (k + j) m s \<Longrightarrow> spends k s s1 \<Longrightarrow> refs_of s1 = refs_of s \<Longrightarrow> enough pin j m s1"
  by (auto simp: enough_def spends_def free_slots_def)

lemma enough_taken: "enough pin (k + j) (Suc m) s \<Longrightarrow> spends k s s1 \<Longrightarrow> taken api valid pin b s v i s1 \<Longrightarrow> enough pin j m s1"
  using bump_free [of "refs_of s" i] by (auto simp: enough_def spends_def free_slots_def taken_def)

context fs_driver
begin

lemma valid_not_null: "valid_id valid s v \<Longrightarrow> \<not> null_id v"
  using valid_handle by (auto simp: valid_id_def null_id_def NPK_INVALID_HANDLE_def)

lemma get_node:
  assumes ok: "cache_ok api valid pin b s" "drivers_ok fs_wf s" and v: "valid_id valid s v" and free: "enough pin 1 1 s"
  shows "\<exists>i s1. GetVfsNodeInternal api v s = Inr (Some i, s1) \<and> taken api valid pin b s v i s1 \<and> spends 1 s s1"
proof (cases "find_slot v (vf_nodes s) 0")
  case (Some i)
  then show ?thesis
    using acquire_taken [OF ok(1) Some valid_not_null [OF v]] valid_not_null [OF v]
    by (auto simp: GetVfsNodeInternal_def null_id_def spends_acquire)
next
  case None
  let ?ns = "vf_nodes s"
  have nb: "\<forall>n \<in> set ?ns. \<not> vn_busy n" using cache_okD(1) [OF ok(1)] by (auto simp: in_set_conv_nth slot_ok_def)
  moreover have "\<exists>i \<in> set [0..<length ?ns]. vn_refs (?ns ! i) = 0 \<and> (pin \<or> unused (?ns ! i))" using enough_slot [OF ok(1) free] by (auto simp: Bex_def)
  ultimately obtain c where c: "slot_scan [0..<length ?ns] None ?ns = (Some c, set_busy c True ?ns)"
      "c < length ?ns" "vn_refs (?ns ! c) = 0" "pin \<or> unused (?ns ! c)"
    using slot_scan_None [of ?ns "[0..<length ?ns]"] by auto
  let ?s = "s\<lparr> vf_nodes := set_busy c True ?ns \<rparr>"
  have "null_id (vn_vid (?ns ! c)) \<longrightarrow> vn_vid (?ns ! c) = no_id" "\<not> null_id (vn_vid (?ns ! c)) \<longrightarrow> valid_id valid s (vn_vid (?ns ! c))"
    using cache_okD(1) [OF ok(1) c(2)] by (simp_all add: slot_ok_def)
  then have ev: "evict api c ?s = Inr True"
    using exit_ok by (auto simp: evict_def Let_def valid_id_def null_id_def no_id_def split: option.splits)
  obtain f where f: "vf_drivers s (vi_driver v) = Some f" "valid f (vi_vnode v)" using v by (auto simp: valid_id_def)
  then obtain t where t: "fa_enter_cache api (vi_vnode v) f = Inr t"
    using enter_total ok(2) by (meson drivers_ok_def)
  then have e: "entered api s v = t" using f by (simp add: entered_def)
  obtain cache files where cf: "(if t = N_File then GetFileCache (VfsGetMountOptions (vi_driver v) ?s) v (vf_files s) else (None, vf_files s))
      = (cache, files)" by (meson surj_pair)
  let ?n = "\<lparr> vn_refs = 1, vn_type = t, vn_cache = cache, vn_vid = v, vn_bond = no_id, vn_busy = False \<rparr>"
  let ?s1 = "s\<lparr> vf_files := files, vf_nodes := ?ns[c := ?n] \<rparr>"
  have fill: "fill_slot api v c ?s = Inr (Some c, ?s1)"
    using f t cf by (auto simp: fill_slot_def set_busy_def VfsGetMountOptions_def split: if_splits)
  have "taken api valid pin b s v c ?s1"
    using None e by (intro fill_taken [OF ok(1) c(2-4) v valid_not_null [OF v], where c = cache and files = files])
      (auto simp: find_slot_None)
  moreover have "spends 1 s ?s1" by (rule spends_fill) simp
  ultimately show ?thesis
    using None c(1) ev fill valid_not_null [OF v] by (auto simp: GetVfsNodeInternal_def Let_def null_id_def)
qed

lemma taken_refs:
  assumes "taken api valid pin b s v i s1" and "cache_ok api valid pin b s"
  shows "b ! i < refs_of s1 ! i" "i < length (refs_of s)" "refs_of s1 = bump i (refs_of s)"
  using assms cache_okD(1) [of api valid pin b s i] by (auto simp: taken_def slot_ok_def bump_def)

lemma kept_ids: "kept api s s1 \<Longrightarrow> valid_id valid s1 = valid_id valid s \<and> id_ok valid s1 = id_ok valid s \<and> drivers_ok fs_wf s1 = drivers_ok fs_wf s"
  using drivers_cong [of s1 s] by (auto simp: kept_def drivers_ok_def)

lemma face_bond: "cache_ok api valid pin b s \<Longrightarrow> \<not> null_id v \<Longrightarrow> id_ok valid s (snd (vface api s v))"
  using find_slot_Some [of v "vf_nodes s" 0] cache_okD(1) [of api valid pin b s]
  by (fastforce simp: vface_def id_ok_def slot_ok_def split: option.splits)

text \<open>A handle taken for some steps that restore the counts, and then released.\<close>

lemma release_restores:
  assumes t: "taken api valid pin b s v i s1" "cache_ok api valid pin b s"
    and s2: "cache_ok api valid pin b s2" "kept api s1 s2" "refs_of s2 = refs_of s1"
  shows "cache_ok api valid pin b (release i s2) \<and> kept api s (release i s2) \<and> refs_of (release i s2) = refs_of s"
proof -
  have "length (vf_nodes s2) = length (vf_nodes s1)" by (metis s2(3) length_map)
  then have i: "i < length (vf_nodes s2)" using t(1) by (simp add: taken_def)
  have "b ! i < refs_of s2 ! i" using taken_refs(1) [OF t] s2(3) by simp
  note r = release_ok [OF s2(1) i this]
  have "kept api s s1" using t(1) by (simp add: taken_def)
  then have "kept api s (release i s2)" using s2(2) r(2) kept_trans by blast
  then show ?thesis using r(1,3) s2(3) taken_refs(2,3) [OF t] by simp
qed

text \<open>A handle that is replaced by a second one.\<close>

lemma release_replaced:
  assumes t: "taken api valid pin b s v i s1" "cache_ok api valid pin b s" and u: "taken api valid pin b s1 w j s2" "\<not> null_id w"
  shows "taken api valid pin b s w j (release i s2)"
proof -
  have len: "length (vf_nodes s2) = length (vf_nodes s)" "length (vf_nodes s1) = length (vf_nodes s)"
    using t(1) u(1) by (simp_all add: taken_def)
  have ok1: "cache_ok api valid pin b s1" using t(1) by (simp add: taken_def)
  have ij: "i < length (refs_of s)" "j < length (refs_of s)" using taken_refs(2) [OF t] taken_refs(2) [OF u(1) ok1] len by simp_all
  have r2: "refs_of s2 = bump j (bump i (refs_of s))" using taken_refs(3) [OF t] taken_refs(3) [OF u(1) ok1] by simp
  have "refs_of s1 ! i \<le> refs_of s2 ! i"
    unfolding taken_refs(3) [OF u(1) ok1] using ij len by (auto simp: bump_def nth_list_update)
  then have b: "b ! i < refs_of s2 ! i" using taken_refs(1) [OF t] by simp
  have ok2: "cache_ok api valid pin b s2" using u(1) by (simp add: taken_def)
  have i2: "i < length (vf_nodes s2)" using ij len by simp
  note r = release_ok [OF ok2 i2 b]
  have refs: "refs_of (release i s2) = bump j (refs_of s)" using r(3) r2 ij by simp
  have "vn_vid (vf_nodes (release i s2) ! j) = w" "vn_type (vf_nodes (release i s2) ! j) = vn_type (vf_nodes s2 ! j)"
    "vn_bond (vf_nodes (release i s2) ! j) = vn_bond (vf_nodes s2 ! j)" "length (vf_nodes (release i s2)) = length (vf_nodes s2)"
    using u(1) i2 by (auto simp: release_def upd_node_def nth_list_update taken_def)
  moreover have k: "kept api s s1" "kept api s1 s2" using t(1) u(1) by (simp_all add: taken_def)
  moreover have "kept api s (release i s2)" using k r(2) kept_trans by blast
  moreover have "vface api s1 w = vface api s w" using k(1) u(2) by (simp add: kept_def)
  ultimately show ?thesis using r(1) refs u(1) len by (simp add: taken_def)
qed

end

end
