(* ===== verification/Vfs_Lookup.thy ===== *)
theory Vfs_Lookup
  imports Vfs_Cache
begin

text \<open>
  Path lookup over the cache of nodes. \<open>VfsFindChild\<close> and \<open>VfsLookup\<close> compute what the drivers say about the
  nodes (\<open>child_of\<close>, \<open>walk\<close>), whatever is cached, and release every handle they take.
\<close>

subsection \<open>The abstract tree\<close>

text \<open>The node behind an id: one link or mount point is followed.\<close>

definition resolve :: "'f fs_api \<Rightarrow> 'f vfs \<Rightarrow> vfs_id \<Rightarrow> vfs_id option" where
  "resolve api s v =
     (if fst (vface api s v) = N_Link then if null_id (snd (vface api s v)) then None else Some (snd (vface api s v))
      else Some v)"

definition ask :: "'f fs_api \<Rightarrow> 'f vfs \<Rightarrow> vfs_id \<Rightarrow> char list \<Rightarrow> vfs_id option" where
  "ask api s v x =
     (case fa_find_child api (vi_vnode v) x (the (vf_drivers s (vi_driver v))) of
        Inl e \<Rightarrow> None
      | Inr h \<Rightarrow> if h = NPK_INVALID_HANDLE then None else Some \<lparr> vi_driver = vi_driver v, vi_vnode = h \<rparr>)"

definition child_of :: "'f fs_api \<Rightarrow> 'f vfs \<Rightarrow> vfs_id \<Rightarrow> char list \<Rightarrow> vfs_id option" where
  "child_of api s v x =
     (case resolve api s v of
        None \<Rightarrow> None
      | Some w \<Rightarrow>
          if x = dotdot \<and> vi_vnode v = fa_get_root api (the (vf_drivers s (vi_driver w)))
          then case occluded_dir (vi_driver w) s of
                 None \<Rightarrow> None
               | Some p \<Rightarrow> if null_id p then None else ask api s p x
          else ask api s w x)"

fun walk :: "'f fs_api \<Rightarrow> 'f vfs \<Rightarrow> vfs_id option \<Rightarrow> char list list \<Rightarrow> vfs_id option res" where
  "walk api s None [] = Inl Null_Deref"
| "walk api s (Some v) [] = Inr (Some v)"
| "walk api s None (x # xs) = Inr None"
| "walk api s (Some v) (x # xs) =
     (case child_of api s v x of None \<Rightarrow> Inr None | Some c \<Rightarrow> walk api s (resolve api s c) xs)"

lemma kept_resolve:
  assumes "kept api s s1"
  shows "\<not> null_id v \<Longrightarrow> resolve api s1 v = resolve api s v" "ask api s1 = ask api s"
    "\<not> null_id v \<Longrightarrow> child_of api s1 v x = child_of api s v x"
  using assms by (auto simp: kept_def resolve_def ask_def child_of_def occluded_dir_def fun_eq_iff split: option.splits)

subsection \<open>Consistent states\<close>

definition mounts_ok :: "('f \<Rightarrow> size_t \<Rightarrow> bool) \<Rightarrow> 'f vfs \<Rightarrow> bool" where
  "mounts_ok valid s \<longleftrightarrow> (\<forall>m \<in> set (vf_mounts s). id_ok valid s (mi_occluded m))"

definition vfs_ok :: "'f fs_api \<Rightarrow> ('f \<Rightarrow> bool) \<Rightarrow> ('f \<Rightarrow> size_t \<Rightarrow> bool) \<Rightarrow> bool \<Rightarrow> nat list \<Rightarrow> 'f vfs \<Rightarrow> bool" where
  "vfs_ok api fs_wf valid pin b s \<longleftrightarrow> cache_ok api valid pin b s \<and> drivers_ok fs_wf s \<and> mounts_ok valid s"

text \<open>An operation that only looks: it leaves what there was and holds no handles.\<close>

definition quiet :: "'f fs_api \<Rightarrow> ('f \<Rightarrow> bool) \<Rightarrow> ('f \<Rightarrow> size_t \<Rightarrow> bool) \<Rightarrow> bool \<Rightarrow> nat list \<Rightarrow> 'f vfs \<Rightarrow> 'f vfs \<Rightarrow> bool" where
  "quiet api fs_wf valid pin b s s1 \<longleftrightarrow> vfs_ok api fs_wf valid pin b s1 \<and> kept api s s1 \<and> refs_of s1 = refs_of s"

lemma enough_quiet: "enough pin (k + j) m s \<Longrightarrow> spends k s s1 \<Longrightarrow> quiet api fs_wf valid pin b s s1 \<Longrightarrow> enough pin j m s1"
  using enough_refs by (auto simp: quiet_def)

lemma quiet_trans: "quiet api fs_wf valid pin b s s1 \<Longrightarrow> quiet api fs_wf valid pin b s1 s2 \<Longrightarrow> quiet api fs_wf valid pin b s s2"
  using kept_trans by (auto simp: quiet_def)

lemma plain_last: "plain_name x \<Longrightarrow> last x \<noteq> NUL"
  unfolding plain_name_def by (metis disjoint_iff insert_iff last_in_set)

lemma span_Empty: "\<forall>x \<in> set ns. plain_name x \<Longrightarrow> us_Empty (path_span ns k) \<longleftrightarrow> drop k ns = []"
  by (auto simp: path_span_def us_Empty_def us_none_def plain_name_def)

lemma find_mount_set: "find_mount d ms = Some m \<Longrightarrow> m \<in> set ms"
  by (induction d ms rule: find_mount.induct) (auto split: if_splits)

text \<open>The text of a path, \<open>/\<close> for the root.\<close>

definition path_text :: "char list list \<Rightarrow> char list" where
  "path_text ns = (if ns = [] then ''/'' else path_of ns)"

lemma parse_path_text:
  assumes "\<forall>x \<in> set ns. plain_name x" and "length (path_text ns) < size_limit"
  shows "\<exists>u seg. Parse (path_text ns @ [NUL]) (length (path_text ns)) = Inr u \<and>
    GetNextSeg (path_text ns @ [NUL]) u us_none = Inr seg \<and>
    (if ns = [] then us_Empty seg
     else seg = path_span ns 0 \<and> u_path u = \<lparr> us_begin = 0, us_size = length (path_of ns) \<rparr>)"
proof (cases "ns = []")
  case True
  have len: "LengthUntil [CHR ''/'', NUL] (Suc 0) 0 t = Inr 0" if "t \<noteq> CHR ''/''" for t
    using that LengthUntil_none [of t "''/''" "[NUL]"] by (simp add: size_limit_def)
  have "sz_sub (Suc 0) 0 = 1" by (simp add: sz_sub_eq size_limit_def)
  then obtain u where u: "Parse [CHR ''/'', NUL] (Suc 0) = Inr u" "u_path u = \<lparr> us_begin = 0, us_size = 1 \<rparr>"
    by (simp add: Parse_def part_def skip_def rd_def Let_def len)
  have "seg_scan [CHR ''/'', NUL] 1 1 0 = Inr 0" by (subst seg_scan.simps) (simp add: rd_def)
  then have "GetNextSeg [CHR ''/'', NUL] u us_none = Inr \<lparr> us_begin = 1, us_size = 0 \<rparr>"
    using u(2) by (simp add: GetNextSeg_def us_none_def us_Empty_def us_End_def rd_def)
  with u(1) True show ?thesis by (simp add: path_text_def us_Empty_def)
next
  case False
  then obtain u where u: "Parse (path_of ns @ [NUL]) (length (path_of ns)) = Inr u"
      "u_path u = \<lparr> us_begin = 0, us_size = length (path_of ns) \<rparr>"
    using Parse_path [OF assms(1)] assms(2) by (auto simp: path_text_def)
  have "GetNextSeg (path_of ns @ [NUL]) u us_none = Inr (path_span ns 0)"
    using next_seg [OF assms(1) u(2), of 0 us_none] by (simp add: us_Empty_def us_none_def)
  with u False show ?thesis by (simp add: path_text_def)
qed

context fs_driver
begin

lemma kept_vfs_ok: "kept api s s1 \<Longrightarrow> cache_ok api valid pin b s1 \<Longrightarrow> vfs_ok api fs_wf valid pin b s \<Longrightarrow> vfs_ok api fs_wf valid pin b s1"
  using kept_ids [of s s1] by (auto simp: vfs_ok_def mounts_ok_def kept_def)

lemma taken_vfs_ok: "taken api valid pin b s v i s1 \<Longrightarrow> vfs_ok api fs_wf valid pin b s \<Longrightarrow> vfs_ok api fs_wf valid pin b s1"
  using kept_vfs_ok unfolding taken_def by blast

lemma release_quiet:
  assumes "taken api valid pin b s v i s1" and "vfs_ok api fs_wf valid pin b s" and "quiet api fs_wf valid pin b s1 s2"
  shows "quiet api fs_wf valid pin b s (release i s2)"
  using release_restores [OF assms(1), of s2] assms kept_vfs_ok [of s "release i s2" pin b] by (simp add: quiet_def vfs_ok_def)

lemma quiet_refl: "vfs_ok api fs_wf valid pin b s \<Longrightarrow> quiet api fs_wf valid pin b s s"
  by (simp add: quiet_def)

lemma resolve_valid:
  assumes "cache_ok api valid pin b s" and "valid_id valid s v" and "resolve api s v = Some w"
  shows "valid_id valid s w"
  using assms face_bond [OF assms(1) valid_not_null [OF assms(2)]] by (auto simp: resolve_def id_ok_def split: if_splits)

lemma get_handle:
  assumes ok: "vfs_ok api fs_wf valid pin b s" and v: "valid_id valid s v" and free: "enough pin 2 2 s"
  shows "case resolve api s v of
      None \<Rightarrow> \<exists>s1. GetVfsNode api v True s = Inr (None, s1) \<and> quiet api fs_wf valid pin b s s1 \<and> spends 2 s s1
    | Some w \<Rightarrow> \<exists>i s1. GetVfsNode api v True s = Inr (Some i, s1) \<and> taken api valid pin b s w i s1 \<and> spends 2 s s1"
proof -
  have ok': "cache_ok api valid pin b s" "drivers_ok fs_wf s" using ok by (simp_all add: vfs_ok_def)
  obtain i s1 where i: "GetVfsNodeInternal api v s = Inr (Some i, s1)" "taken api valid pin b s v i s1" and p1: "spends 1 s s1"
    using get_node [OF ok' v] enough_mono [OF free, of 1 1] by auto
  have p2: "spends 2 s s1" by (rule spends_mono [OF p1]) simp
  have face: "vface api s v = (vn_type (vf_nodes s1 ! i), vn_bond (vf_nodes s1 ! i))"
    and k: "kept api s s1" using i(2) by (simp_all add: taken_def)
  note ok1 = taken_vfs_ok [OF i(2) ok]
  show ?thesis
  proof (cases "fst (vface api s v) = N_Link")
    case False
    then show ?thesis using i face p2 by (auto simp: GetVfsNode_def resolve_def)
  next
    case link: True
    let ?w = "snd (vface api s v)"
    show ?thesis
    proof (cases "null_id ?w")
      case True
      then have "GetVfsNode api v True s = Inr (None, release i s1)"
        using link i(1) face by (auto simp: GetVfsNode_def GetVfsNodeInternal_def null_id_def)
      then show ?thesis using True link release_quiet [OF i(2) ok quiet_refl [OF ok1]] p2 by (simp add: resolve_def)
    next
      case False
      then have w: "resolve api s v = Some ?w" using link by (simp add: resolve_def)
      then have "valid_id valid s1 ?w" using resolve_valid [OF ok'(1) v] kept_ids [OF k] by simp
      moreover have "enough pin 1 1 s1" using enough_taken [OF _ p1 i(2), of 1 1] free by (simp add: numeral_2_eq_2)
      ultimately obtain j s2 where j: "GetVfsNodeInternal api ?w s1 = Inr (Some j, s2)" "taken api valid pin b s1 ?w j s2" and "spends 1 s1 s2"
        using get_node ok1 unfolding vfs_ok_def by blast
      then have "spends 2 s s2" using p1 by (simp add: spends_def)
      moreover have "GetVfsNode api v True s = Inr (Some j, release i s2)"
        using j(1) link i(1) face by (simp add: GetVfsNode_def)
      ultimately show ?thesis using w release_replaced [OF i(2) ok'(1) j(2) False] by simp
    qed
  qed
qed

lemma ask_ok:
  assumes "drivers_ok fs_wf s" and "valid_id valid s v"
  shows "\<exists>f. vf_drivers s (vi_driver v) = Some f \<and> (\<forall>s1. ask_child api x v f s1 = Inr (ask api s v x, s1))"
    "ask api s v x = Some c \<Longrightarrow> valid_id valid s c"
proof -
  obtain f where f: "vf_drivers s (vi_driver v) = Some f" "valid f (vi_vnode v)" "fs_wf f" "vi_driver v \<noteq> 0"
    using assms by (auto simp: valid_id_def drivers_ok_def)
  obtain h where h: "fa_find_child api (vi_vnode v) x f = Inr h" "h = NPK_INVALID_HANDLE \<or> valid f h"
    using find_valid [OF f(3,2)] by blast
  show "\<exists>f. vf_drivers s (vi_driver v) = Some f \<and> (\<forall>s1. ask_child api x v f s1 = Inr (ask api s v x, s1))"
    using f(1) h(1) by (simp add: ask_child_def ask_def)
  show "ask api s v x = Some c \<Longrightarrow> valid_id valid s c"
    using f h by (auto simp: ask_def valid_id_def split: if_splits)
qed

lemma occluded_ok: "mounts_ok valid s \<Longrightarrow> occluded_dir d s = Some p \<Longrightarrow> null_id p \<or> valid_id valid s p"
  using find_mount_set [of d "vf_mounts s"] by (auto simp: mounts_ok_def occluded_dir_def id_ok_def split: option.splits if_splits)

lemma child_valid:
  assumes "vfs_ok api fs_wf valid pin b s" and "valid_id valid s v" and "child_of api s v x = Some c"
  shows "valid_id valid s c"
proof -
  have ok: "cache_ok api valid pin b s" "drivers_ok fs_wf s" "mounts_ok valid s" using assms(1) by (simp_all add: vfs_ok_def)
  from assms(3) obtain w where w: "resolve api s v = Some w" by (auto simp: child_of_def split: option.splits)
  note resolve_valid [OF ok(1) assms(2) w]
  with w assms(3) show ?thesis
    using ask_ok(2) [OF ok(2)] occluded_ok [OF ok(3)] by (fastforce simp: child_of_def split: option.splits if_splits)
qed

text \<open>The body of \<open>VfsFindChild\<close> behind the handle of the directory.\<close>

lemma ask_parent:
  assumes ok: "vfs_ok api fs_wf valid pin b s" and free: "enough pin 1 1 s" and p: "null_id p \<or> valid_id valid s p"
  shows "\<exists>s1. with_driver api p False None (\<lambda>j m g s2. ask_child api x m g s2) s =
      Inr (if null_id p then None else ask api s p x, s1) \<and> quiet api fs_wf valid pin b s s1 \<and> spends 1 s s1"
proof (cases "null_id p")
  case True
  then show ?thesis
    using spends_refl quiet_refl [OF ok] by (simp add: with_driver_def with_node_def GetVfsNode_def GetVfsNodeInternal_def null_id_def)
next
  case False
  then have "valid_id valid s p" using p by simp
  then obtain i s1 where i: "GetVfsNodeInternal api p s = Inr (Some i, s1)" "taken api valid pin b s p i s1" and p1: "spends 1 s s1"
    using get_node free ok unfolding vfs_ok_def by blast
  note ok1 = taken_vfs_ok [OF i(2) ok]
  have k: "kept api s s1" and vid: "vn_vid (vf_nodes s1 ! i) = p" using i(2) by (simp_all add: taken_def)
  then have "valid_id valid s1 p" using \<open>valid_id valid s p\<close> kept_ids by simp
  then obtain f where "vf_drivers s1 (vi_driver p) = Some f" "\<forall>s2. ask_child api x p f s2 = Inr (ask api s1 p x, s2)"
    using ask_ok(1) ok1 unfolding vfs_ok_def by blast
  then show ?thesis
    using False i(1) vid p1 release_quiet [OF i(2) ok quiet_refl [OF ok1]] kept_resolve(2) [OF k]
    by (simp add: with_driver_def with_node_def GetVfsNode_def)
qed

lemma find_child:
  assumes ok: "vfs_ok api fs_wf valid pin b s" and v: "valid_id valid s v" and free: "enough pin 3 2 s"
    and x: "x \<noteq> []" "last x \<noteq> NUL"
  shows "\<exists>s1. VfsFindChild api v x s = Inr (child_of api s v x, s1) \<and> quiet api fs_wf valid pin b s s1 \<and> spends 3 s s1"
proof -
  have ok': "cache_ok api valid pin b s" "drivers_ok fs_wf s" "mounts_ok valid s" using ok by (simp_all add: vfs_ok_def)
  have "enough pin 2 2 s" by (rule enough_mono [OF free]) simp_all
  note h = get_handle [OF ok v this]
  have trim: "trim_name x = x" using x by (cases x rule: rev_cases) (auto simp: trim_name_def)
  show ?thesis
  proof (cases "resolve api s v")
    case None
    then obtain s1 where "GetVfsNode api v True s = Inr (None, s1)" "quiet api fs_wf valid pin b s s1" "spends 2 s s1" using h by auto
    moreover from this(3) have "spends 3 s s1" by (rule spends_mono) simp
    ultimately show ?thesis
      using None x by (auto simp: VfsFindChild_def trim Let_def with_driver_def with_node_def child_of_def)
  next
    case (Some w)
    then obtain i s1 where i: "GetVfsNode api v True s = Inr (Some i, s1)" "taken api valid pin b s w i s1" and p2: "spends 2 s s1"
      using h by auto
    have p3: "spends 3 s s1" by (rule spends_mono [OF p2]) simp
    note ok1 = taken_vfs_ok [OF i(2) ok]
    have k: "kept api s s1" and vid: "vn_vid (vf_nodes s1 ! i) = w" using i(2) by (simp_all add: taken_def)
    have w: "valid_id valid s w" by (rule resolve_valid [OF ok'(1) v Some])
    obtain f where f: "vf_drivers s (vi_driver w) = Some f" "\<forall>s2. ask_child api x w f s2 = Inr (ask api s w x, s2)"
      using ask_ok(1) [OF ok'(2) w] by blast
    have f1: "vf_drivers s1 (vi_driver w) = Some f" and occ: "occluded_dir d s1 = occluded_dir d s" for d
      using f(1) k by (simp_all add: kept_def occluded_dir_def)
    have free1: "enough pin 1 1 s1" using enough_taken [OF _ p2 i(2), of 1 1] free by (simp add: numeral_2_eq_2 numeral_3_eq_3)
    have quiet1: "quiet api fs_wf valid pin b s (release i s1)" by (rule release_quiet [OF i(2) ok quiet_refl [OF ok1]])
    show ?thesis
    proof (cases "x = dotdot \<and> vi_vnode v = fa_get_root api f")
      case False
      then have "VfsFindChild api v x s = Inr (ask api s w x, release i s1)"
        using i(1) f f1 vid x by (auto simp: VfsFindChild_def trim Let_def with_driver_def with_node_def)
      then show ?thesis using False quiet1 p3 Some f(1) by (auto simp: child_of_def)
    next
      case True
      show ?thesis
      proof (cases "occluded_dir (vi_driver w) s")
        case None
        then have "VfsFindChild api v x s = Inr (None, release i s1)"
          using True i(1) f1 vid x occ trim by (simp add: VfsFindChild_def Let_def with_driver_def with_node_def)
        then show ?thesis using True quiet1 p3 Some f(1) None by (auto simp: child_of_def)
      next
        case (Some p)
        then have "null_id p \<or> valid_id valid s1 p" using occluded_ok [OF ok'(3) Some] kept_ids [OF k] by simp
        from ask_parent [OF ok1 free1 this, of x] obtain s2 where
          s2: "with_driver api p False None (\<lambda>j m g s2. ask_child api x m g s2) s1 = Inr (if null_id p then None else ask api s1 p x, s2)"
            "quiet api fs_wf valid pin b s1 s2" and "spends 1 s1 s2" by blast
        then have "spends 3 s (release i s2)" using p2 by (simp only: spends_release) (simp add: spends_def)
        moreover have "VfsFindChild api v x s = Inr (if null_id p then None else ask api s p x, release i s2)"
          using True i(1) f1 vid x occ Some s2(1) kept_resolve(2) [OF k] trim
          by (simp add: VfsFindChild_def Let_def with_driver_def [of _ v] with_node_def [of _ v])
        ultimately show ?thesis
          using True release_quiet [OF i(2) ok s2(2)] \<open>resolve api s v = Some w\<close> f(1) Some by (auto simp: child_of_def)
      qed
    qed
  qed
qed

lemma taken_after_quiet:
  assumes "quiet api fs_wf valid pin b s s1" and "taken api valid pin b s1 w j s2" and "\<not> null_id w"
  shows "taken api valid pin b s w j s2"
proof -
  have "length (vf_nodes s1) = length (vf_nodes s)" using assms(1) by (metis quiet_def length_map)
  moreover have "vface api s1 w = vface api s w" "kept api s s2"
    using assms kept_trans by (auto simp: quiet_def taken_def kept_def)
  ultimately show ?thesis using assms(1,2) by (simp add: quiet_def taken_def)
qed

lemma lookup_names:
  assumes names: "\<forall>x \<in> set ns. plain_name x" and u: "u_path u = \<lparr> us_begin = 0, us_size = length (path_of ns) \<rparr>"
    and ok: "vfs_ok api fs_wf valid pin b s" and v: "valid_id valid s v" and free: "pin \<longrightarrow> 3 \<le> free_slots s" "pin \<or> 5 * (length ns - k) \<le> spare s1"
    and k: "k \<le> length ns" and i: "taken api valid pin b s v i s1"
  shows "\<exists>s2. lookup_loop api (path_of ns @ [NUL]) u (Some i) (path_span ns k) s1 =
      res_bind (walk api s (Some v) (drop k ns)) (\<lambda>r. Inr (r, s2)) \<and> quiet api fs_wf valid pin b s s2"
  using v k i free(2)
proof (induction "length ns - k" arbitrary: k v i s1)
  case 0
  then have "path_span ns k = us_none" "drop k ns = []" by (simp_all add: path_span_def)
  moreover have "vn_vid (vf_nodes s1 ! i) = v" using "0.prems" by (simp add: taken_def)
  ultimately show ?case
    using release_quiet [OF "0.prems"(3) ok quiet_refl [OF taken_vfs_ok [OF "0.prems"(3) ok]]]
    by (subst lookup_loop.simps) (auto simp: us_Empty_def us_none_def)
next
  case (Suc m)
  let ?buf = "path_of ns @ [NUL]" and ?x = "ns ! k"
  have k: "k < length ns" using Suc.hyps(2) by simp
  have plain: "plain_name ?x" using names k by simp
  have x: "?x \<noteq> []" "last ?x \<noteq> NUL" using plain plain_last by (simp_all add: plain_name_def)
  have seg: "\<not> us_Empty (path_span ns k)" using k x by (simp add: path_span_def us_Empty_def)
  have tx: "us_text ?buf (path_span ns k) = ?x" by (rule path_span_text [OF k])
  have nxt: "GetNextSeg ?buf u (path_span ns k) = Inr (path_span ns (Suc k))"
    using next_seg [OF names u, of "Suc k"] k by simp
  have drop: "drop k ns = ?x # drop (Suc k) ns" using k by (simp add: Cons_nth_drop_Suc)
  note ok1 = taken_vfs_ok [OF Suc.prems(3) ok]
  have k1: "kept api s s1" and vid: "vn_vid (vf_nodes s1 ! i) = v" using Suc.prems(3) by (simp_all add: taken_def)
  have nn: "\<not> null_id v" by (rule valid_not_null [OF Suc.prems(1)])
  have e1: "enough pin (5 + 5 * m) 2 s1"
    using bump_free [of "refs_of s" i] free(1) Suc.prems(3,4) Suc.hyps(2) [symmetric] by (auto simp: enough_def free_slots_def taken_def)
  have "valid_id valid s1 v" "enough pin 3 2 s1" using Suc.prems(1) kept_ids [OF k1] enough_mono [OF e1] by simp_all
  from find_child [OF ok1 this x] obtain s2 where
    s2: "VfsFindChild api v ?x s1 = Inr (child_of api s v ?x, s2)" "quiet api fs_wf valid pin b s1 s2" and p3: "spends 3 s1 s2"
    using kept_resolve(3) [OF k1 nn] by auto
  have e2: "enough pin (2 + 5 * m) 2 s2" using enough_quiet [OF _ p3 s2(2), of "2 + 5 * m" 2] e1 by (simp add: add.assoc [symmetric])
  show ?case
  proof (cases "child_of api s v ?x")
    case None
    then show ?thesis
      using s2 seg tx vid drop release_quiet [OF Suc.prems(3) ok s2(2)] by (subst lookup_loop.simps) auto
  next
    case (Some c)
    have c: "valid_id valid s c" by (rule child_valid [OF ok Suc.prems(1) Some])
    have k2: "kept api s s2" using k1 s2(2) kept_trans by (auto simp: quiet_def)
    have c2: "valid_id valid s2 c" "enough pin 2 2 s2" "resolve api s2 c = resolve api s c"
      using c kept_ids [OF k2] enough_mono [OF e2] kept_resolve(1) [OF k2 valid_not_null [OF c]] by simp_all
    have ok2: "vfs_ok api fs_wf valid pin b s2" using s2(2) by (simp add: quiet_def)
    note h = get_handle [OF ok2 c2(1,2)]
    show ?thesis
    proof (cases "resolve api s c")
      case None
      then obtain s3 where s3: "GetVfsNode api c True s2 = Inr (None, s3)" "quiet api fs_wf valid pin b s2 s3" using h c2(3) by auto
      have "lookup_loop api ?buf u None (path_span ns (Suc k)) (release i s3) =
          res_bind (walk api s None (drop (Suc k) ns)) (\<lambda>r. Inr (r, release i s3))"
        using span_Empty [OF names, of "Suc k"] by (cases "drop (Suc k) ns"; subst lookup_loop.simps) auto
      then show ?thesis
        using release_quiet [OF Suc.prems(3) ok quiet_trans [OF s2(2) s3(2)]] s2(1) s3(1) seg tx vid drop Some None nxt
        by (subst lookup_loop.simps) auto
    next
      case w: (Some w)
      then obtain j s3 where j: "GetVfsNode api c True s2 = Inr (Some j, s3)" "taken api valid pin b s2 w j s3" and "spends 2 s2 s3" using h c2(3) by auto
      then have e3: "pin \<or> 5 * m \<le> spare (release i s3)" using e2 by (auto simp: enough_def spends_def release_def spare_refs split: if_splits)
      have wv: "valid_id valid s w" using resolve_valid [OF _ c w] ok unfolding vfs_ok_def by blast
      note nw = valid_not_null [OF wv]
      have "taken api valid pin b s w j (release i s3)"
        using release_replaced [OF Suc.prems(3) _ taken_after_quiet [OF s2(2) j(2) nw] nw] ok by (simp add: vfs_ok_def)
      moreover have "m = length ns - Suc k" "Suc k \<le> length ns" using Suc.hyps(2) k by simp_all
      ultimately obtain s4 where
        "lookup_loop api ?buf u (Some j) (path_span ns (Suc k)) (release i s3) =
          res_bind (walk api s (Some w) (drop (Suc k) ns)) (\<lambda>r. Inr (r, s4))" "quiet api fs_wf valid pin b s s4"
        using Suc.hyps(1) [of "Suc k" w j "release i s3"] wv e3 by blast
      then show ?thesis
        using s2(1) j(1) seg tx vid drop Some w nxt by (subst lookup_loop.simps) auto
    qed
  qed
qed

lemma lookup_path:
  assumes names: "\<forall>x \<in> set ns. plain_name x" and len: "length (path_text ns) < size_limit"
    and ok: "vfs_ok api fs_wf valid pin b s" and root: "valid_id valid s (vf_root s)" and free: "enough pin (2 + 5 * length ns) 3 s"
  shows "\<exists>s1. VfsLookup api (path_text ns @ [NUL]) (length (path_text ns)) s =
      res_bind (walk api s (resolve api s (vf_root s)) ns) (\<lambda>r. Inr (r, s1)) \<and> quiet api fs_wf valid pin b s s1"
proof -
  obtain u seg where u: "Parse (path_text ns @ [NUL]) (length (path_text ns)) = Inr u"
    "GetNextSeg (path_text ns @ [NUL]) u us_none = Inr seg"
    "if ns = [] then us_Empty seg
     else seg = path_span ns 0 \<and> u_path u = \<lparr> us_begin = 0, us_size = length (path_of ns) \<rparr>"
    using parse_path_text [OF names len] by blast
  have slash: "rd (path_text ns @ [NUL]) 0 = Inr CHR ''/''" "path_text ns \<noteq> []"
    by (cases ns; simp add: path_text_def rd_def)+
  have seg: "us_Empty seg \<longleftrightarrow> ns = []"
    using u(3) span_Empty [OF names, of 0] by auto
  have VfsLookup: "VfsLookup api (path_text ns @ [NUL]) (length (path_text ns)) s =
      res_bind (GetVfsNode api (vf_root s) True s) (\<lambda>(h, s1). lookup_loop api (path_text ns @ [NUL]) u h seg s1)"
    using u(1,2) slash by (simp add: VfsLookup_def)
  note h = get_handle [OF ok root enough_mono [OF free]]
  show ?thesis
  proof (cases "resolve api s (vf_root s)")
    case None
    then obtain s1 where s1: "GetVfsNode api (vf_root s) True s = Inr (None, s1)" "quiet api fs_wf valid pin b s s1"
      using h by auto
    have "lookup_loop api (path_text ns @ [NUL]) u None seg s1 = res_bind (walk api s None ns) (\<lambda>r. Inr (r, s1))"
      using seg by (cases ns; subst lookup_loop.simps) simp_all
    then show ?thesis using VfsLookup None s1 by auto
  next
    case (Some w)
    then obtain i s1 where i: "GetVfsNode api (vf_root s) True s = Inr (Some i, s1)" "taken api valid pin b s w i s1" and p2: "spends 2 s s1"
      using h by auto
    have e: "pin \<longrightarrow> 3 \<le> free_slots s" "pin \<or> 5 * (length ns - 0) \<le> spare s1"
      using free p2 by (auto simp: enough_def spends_def split: if_splits)
    have "cache_ok api valid pin b s" using ok by (simp add: vfs_ok_def)
    then have w: "valid_id valid s w" using resolve_valid [OF _ root Some] by blast
    show ?thesis
    proof (cases "ns = []")
      case True
      have "lookup_loop api (path_text ns @ [NUL]) u (Some i) seg s1 = Inr (Some w, release i s1)"
        using seg True i(2) by (subst lookup_loop.simps) (simp add: taken_def)
      then show ?thesis
        using True VfsLookup Some i(1) release_quiet [OF i(2) ok quiet_refl [OF taken_vfs_ok [OF i(2) ok]]] by auto
    next
      case False
      then show ?thesis
        using lookup_names [OF names _ ok w e _ i(2), of u] u(3) VfsLookup Some i(1) by (simp add: path_text_def)
    qed
  qed
qed

end

subsection \<open>The temporary filesystem keeps the contract\<close>

interpretation tempfs: fs_driver tempfs_api tfs_wf tfs_valid
proof
  show "tfs_valid f h \<Longrightarrow> h \<noteq> NPK_INVALID_HANDLE" for f h by (simp add: tfs_valid_def NPK_INVALID_HANDLE_def)
  show "tfs_wf f \<Longrightarrow> tfs_valid f (fa_get_root tempfs_api f)" for f
    by (auto simp: tempfs_api_def TempFsGetRoot_def tfs_valid_def tfs_wf_def Suc_le_eq)
  show "tfs_wf f \<Longrightarrow> tfs_valid f h \<Longrightarrow> \<exists>t. fa_enter_cache tempfs_api h f = Inr t" for f h
    using GetAttribs_valid [of f h] by (simp add: tempfs_api_def)
  show "fa_exit_cache tempfs_api h f" for f h by (simp add: tempfs_api_def TempFsExitCache_def)
  show "tfs_wf f \<Longrightarrow> tfs_valid f h \<Longrightarrow>
      \<exists>r. fa_find_child tempfs_api h x f = Inr r \<and> (r = NPK_INVALID_HANDLE \<or> tfs_valid f r)" for f h x
    using FindChild_total [of f h x] by (simp add: tempfs_api_def)
qed

subsection \<open>The state at boot\<close>

text \<open>
  \<open>InitVfs\<close> up to the initial disk: the caches and the temporary filesystem at the root. \<open>addApi\<close> is the
  driver manager, which enters the filesystem into its table under the id it gives out.
\<close>

definition InitVfs_root :: "(tfs_data \<Rightarrow> size_t option) \<Rightarrow> size_t list \<Rightarrow> tfs_data vfs \<Rightarrow> tfs_data vfs res" where
  "InitVfs_root addApi granularities s =
     res_bind (InitFileCache granularities (vf_files s)) (\<lambda>files.
     res_bind (CreateTempFs addApi ''root tempfs'') (\<lambda>(rootFsId, d).
       Inr ((InitTreeCache s)\<lparr> vf_files := files, vf_drivers := (vf_drivers s)(rootFsId \<mapsto> d),
              vf_is_fs := (vf_is_fs s)(rootFsId := True),
              vf_root := \<lparr> vi_driver = rootFsId, vi_vnode = fa_get_root tempfs_api d \<rparr>,
              vf_mounts := vf_mounts s @ [\<lparr> mi_occluded = no_id, mi_driver = rootFsId,
                             mi_opts = \<lparr> mo_writable = False, mo_uncachable = False \<rparr> \<rparr>] \<rparr>)))"

lemma CreateTempFs_root:
  assumes "CreateTempFs addApi tag = Inr (i, d)"
  shows "tfs_wf d" "tfs_valid d 1" "addApi d = Some i"
proof -
  show "tfs_wf d" using tfs_reach_wf tfs_init assms by blast
  then show "tfs_valid d 1" by (auto simp: tfs_valid_def tfs_wf_def Suc_le_eq)
  show "addApi d = Some i"
    using assms by (auto simp: CreateTempFs_def Let_def res_bind_Inr split: option.splits)
qed

lemma one_fs_ok:
  assumes s: "vf_nodes s = replicate TreeCacheInitialSize blank_node" "vf_drivers s i = Some d" "drivers_ok tfs_wf s"
      "vf_root s = \<lparr> vi_driver = i, vi_vnode = 1 \<rparr>" "map mi_occluded (vf_mounts s) = [no_id]"
    and d: "i \<noteq> 0" "tfs_valid d 1"
  shows "vfs_ok tempfs_api tfs_wf tfs_valid pin (replicate TreeCacheInitialSize 0) s" "valid_id tfs_valid s (vf_root s)"
    "free_slots s = TreeCacheInitialSize" "spare s = TreeCacheInitialSize"
proof -
  show "valid_id tfs_valid s (vf_root s)" using s d by (simp add: valid_id_def)
  have "\<forall>m \<in> set (vf_mounts s). mi_occluded m = no_id" using s(5) by auto
  then show "vfs_ok tempfs_api tfs_wf tfs_valid pin (replicate TreeCacheInitialSize 0) s"
    using s d by (auto simp: vfs_ok_def cache_ok_def slot_ok_def blank_node_def mounts_ok_def id_ok_def split: if_splits)
  show "free_slots s = TreeCacheInitialSize" "spare s = TreeCacheInitialSize"
    by (simp_all add: free_slots_def spare_def s blank_node_def no_id_def)
qed

text \<open>The state it leaves is consistent and all slots are unused.\<close>

lemma init_vfs_ok:
  assumes init: "InitVfs_root addApi granularities s = Inr s1" and ids: "\<And>d. addApi d \<noteq> Some 0"
    and empty: "vf_drivers s = (\<lambda>_. None)" "vf_mounts s = []"
  shows "vfs_ok tempfs_api tfs_wf tfs_valid pin (replicate TreeCacheInitialSize 0) s1" "valid_id tfs_valid s1 (vf_root s1)"
    "free_slots s1 = TreeCacheInitialSize" "spare s1 = TreeCacheInitialSize"
proof -
  from init obtain i d where d: "CreateTempFs addApi ''root tempfs'' = Inr (i, d)" and
    s1: "vf_nodes s1 = replicate TreeCacheInitialSize blank_node" "vf_drivers s1 = [i \<mapsto> d]" "vf_root s1 = \<lparr> vi_driver = i, vi_vnode = 1 \<rparr>"
      "map mi_occluded (vf_mounts s1) = [no_id]"
    by (auto simp: InitVfs_root_def res_bind_Inr InitTreeCache_def empty tempfs_api_def TempFsGetRoot_def)
  note root = CreateTempFs_root [OF d]
  have "i \<noteq> 0" using root(3) ids [of d] by (cases "i = 0") simp_all
  moreover have "vf_drivers s1 i = Some d" "drivers_ok tfs_wf s1" using s1(2) root(1) by (auto simp: drivers_ok_def split: if_splits)
  ultimately show "vfs_ok tempfs_api tfs_wf tfs_valid pin (replicate TreeCacheInitialSize 0) s1" "valid_id tfs_valid s1 (vf_root s1)"
    "free_slots s1 = TreeCacheInitialSize" "spare s1 = TreeCacheInitialSize"
    using one_fs_ok [OF s1(1) _ _ s1(3,4)] root(2) by blast+
qed

subsection \<open>Mounting\<close>

text \<open>What \<open>VfsMount\<close> does to the cache keeps it consistent, but leaves a mount point without a reference.\<close>

lemma mount_keeps_ok:
  assumes ok: "vfs_ok api fs_wf valid False b s" and i: "i < length (vf_nodes s)" "\<not> null_id (vn_vid (vf_nodes s ! i))"
    and root: "id_ok valid s r" and m: "mi_occluded m = vn_vid (vf_nodes s ! i)"
  shows "vfs_ok api fs_wf valid False b
    ((upd_node i (\<lambda>n. n\<lparr> vn_type := N_Link, vn_bond := r \<rparr>) s)\<lparr> vf_mounts := vf_mounts s @ [m] \<rparr>)"
proof -
  let ?s = "(upd_node i (\<lambda>n. n\<lparr> vn_type := N_Link, vn_bond := r \<rparr>) s)\<lparr> vf_mounts := vf_mounts s @ [m] \<rparr>"
  have d: "vf_drivers ?s = vf_drivers s" by (simp add: upd_node_def)
  have c: "cache_ok api valid False b s" using ok by (simp add: vfs_ok_def)
  note si = cache_okD(1) [OF c i(1)]
  have "slot_ok api valid False s (b ! j) (vf_nodes ?s ! j)" if "j < length (vf_nodes s)" for j
    using cache_okD(1) [OF c that] si i root that by (auto simp: upd_node_def nth_list_update slot_ok_def)
  moreover have "vn_vid (vf_nodes ?s ! j) = vn_vid (vf_nodes s ! j)" if "j < length (vf_nodes s)" for j
    using that i(1) by (auto simp: upd_node_def nth_list_update)
  moreover have "length (vf_nodes ?s) = length (vf_nodes s)" by (simp add: upd_node_def)
  ultimately have "cache_ok api valid False b ?s" using c by (auto simp: cache_ok_def drivers_cong [OF d])
  moreover have "mounts_ok valid ?s"
    using ok si i(2) m by (auto simp: vfs_ok_def mounts_ok_def slot_ok_def drivers_cong [OF d] id_ok_def)
  ultimately show ?thesis using ok d by (simp add: vfs_ok_def drivers_ok_def)
qed

subsection \<open>Lookup\<close>

text \<open>C24: on a consistent virtual filesystem of temporary filesystems, \<open>VfsLookup\<close> of a path returns the node that following the
  names from the root through the drivers gives, over mount points and with \<open>..\<close>; it keeps the cache consistent, releases every handle it
  takes and changes no node. This needs unused slots in the node cache, two for the root and five for each name of the path; if
  others hold a reference to every mount point (\<open>pin\<close>), three slots without references are enough, and nodes
  are evicted. (When no slot is unused, a mount point without references may be evicted, and the mount is lost.)\<close>

theorem vfs_lookup_walk:
  assumes "vfs_ok tempfs_api tfs_wf tfs_valid pin b s" and "valid_id tfs_valid s (vf_root s)"
    and "if pin then 3 \<le> free_slots s else 2 + 5 * length ns \<le> spare s"
    and "\<forall>x \<in> set ns. plain_name x" and "length (path_text ns) < size_limit"
  shows "\<exists>s1. VfsLookup tempfs_api (path_text ns @ [NUL]) (length (path_text ns)) s =
      res_bind (walk tempfs_api s (resolve tempfs_api s (vf_root s)) ns) (\<lambda>r. Inr (r, s1)) \<and>
    vfs_ok tempfs_api tfs_wf tfs_valid pin b s1 \<and> refs_of s1 = refs_of s \<and>
    vf_drivers s1 = vf_drivers s \<and> vf_mounts s1 = vf_mounts s \<and>
    (\<forall>v. \<not> null_id v \<longrightarrow> vface tempfs_api s1 v = vface tempfs_api s v)"
proof -
  have "enough pin (2 + 5 * length ns) 3 s" using assms(3) by (simp only: enough_def)
  from tempfs.lookup_path [OF assms(4,5,1,2) this] show ?thesis by (auto simp: quiet_def kept_def)
qed

text \<open>A filesystem with one directory at the root, and nothing cached; a second one with nothing but its root.\<close>

definition tfs_home :: tfs_data where
  "tfs_home = \<lparr> td_store = [0 \<mapsto> \<lparr> tn_parent = None, tn_children = [1], tn_type = N_Directory, tn_id = 0, tn_name = [], tn_size = 0 \<rparr>,
      1 \<mapsto> \<lparr> tn_parent = Some 0, tn_children = [], tn_type = N_Directory, tn_id = 1, tn_name = ''home'', tn_size = 0 \<rparr>],
     td_fresh = 2, td_nodes = [Some 0, Some 1], td_tag = ''root'' \<rparr>"

definition tfs_disk :: tfs_data where
  "tfs_disk = \<lparr> td_store = [0 \<mapsto> \<lparr> tn_parent = None, tn_children = [], tn_type = N_Directory, tn_id = 0, tn_name = [], tn_size = 0 \<rparr>],
     td_fresh = 1, td_nodes = [Some 0], td_tag = ''disk'' \<rparr>"

definition vfs_home :: "tfs_data vfs" where
  "vfs_home = \<lparr> vf_drivers = [3 \<mapsto> tfs_home, 4 \<mapsto> tfs_disk], vf_is_fs = (\<lambda>i. i = 3 \<or> i = 4), vf_nodes = replicate TreeCacheInitialSize blank_node,
     vf_mounts = [\<lparr> mi_occluded = no_id, mi_driver = 3, mi_opts = \<lparr> mo_writable = False, mo_uncachable = False \<rparr> \<rparr>],
     vf_root = \<lparr> vi_driver = 3, vi_vnode = 1 \<rparr>,
     vf_files = \<lparr> fs_info = \<lparr> fi_unitSize = 16384, fi_hatMode = 0, fi_modeMultiple = 4 \<rparr>, fs_caches = [], fs_links = (\<lambda>_. None) \<rparr> \<rparr>"

lemma disks_ok: "tfs_wf tfs_home" "tfs_wf tfs_disk" "tfs_valid tfs_home 1" "tfs_valid tfs_home 2" "tfs_valid tfs_disk 1"
  by (auto simp: tfs_wf_def tfs_home_def tfs_disk_def tfs_valid_def size_limit_def nth_Cons' split: if_splits)

lemma vfs_home_ok:
  "vfs_ok tempfs_api tfs_wf tfs_valid pin (replicate TreeCacheInitialSize 0) vfs_home" "valid_id tfs_valid vfs_home (vf_root vfs_home)"
  "free_slots vfs_home = TreeCacheInitialSize" "spare vfs_home = TreeCacheInitialSize"
proof -
  have "drivers_ok tfs_wf vfs_home" using disks_ok by (auto simp: drivers_ok_def vfs_home_def split: if_splits)
  then show "vfs_ok tempfs_api tfs_wf tfs_valid pin (replicate TreeCacheInitialSize 0) vfs_home" "valid_id tfs_valid vfs_home (vf_root vfs_home)"
    "free_slots vfs_home = TreeCacheInitialSize" "spare vfs_home = TreeCacheInitialSize"
    using one_fs_ok [of vfs_home 3 tfs_home] disks_ok(3) by (simp_all add: vfs_home_def)
qed

text \<open>\<open>VfsMount\<close> of the second on the directory of the first: the mount point is in the first slot, without references.\<close>

definition home_id :: vfs_id where
  "home_id = \<lparr> vi_driver = 3, vi_vnode = 2 \<rparr>"

definition disk_id :: vfs_id where
  "disk_id = \<lparr> vi_driver = 4, vi_vnode = 1 \<rparr>"

definition vfs_mounted :: "tfs_data vfs" where
  "vfs_mounted = vfs_home\<lparr>
     vf_nodes := \<lparr> vn_refs = 0, vn_type = N_Link, vn_cache = None, vn_vid = home_id, vn_bond = disk_id, vn_busy = False \<rparr> #
       \<lparr> vn_refs = 0, vn_type = N_Directory, vn_cache = None, vn_vid = disk_id, vn_bond = no_id, vn_busy = False \<rparr> # replicate 126 blank_node,
     vf_mounts := vf_mounts vfs_home @ [\<lparr> mi_occluded = home_id, mi_driver = 4, mi_opts = \<lparr> mo_writable = False, mo_uncachable = False \<rparr> \<rparr>] \<rparr>"

lemma find_slot_blank: "vi_driver v \<noteq> 0 \<Longrightarrow> find_slot v (replicate n blank_node) k = None"
  by (simp add: find_slot_None blank_node_def no_id_def) (auto simp: vid_eq)

lemma blank_simps [simp]: "vn_refs blank_node = 0" "vn_vid blank_node = no_id" "vn_busy blank_node = False" "vi_driver no_id = 0" "vi_vnode no_id = 0"
  by (simp_all add: blank_node_def no_id_def)

lemmas cache_eval = GetVfsNodeInternal_def GetVfsNode_def acquire_def release_def upd_node_def slot_step_def set_busy_def
  evict_def fill_slot_def find_slot_blank

lemmas disk_eval = tempfs_api_def TempFsEnterCache_def TempFsExitCache_def TempFsGetRoot_def TempFsMount_def TempFsFindChild_def TempFsGetAttribs_def
  TempFsReadDir_def node_at_def deref_def sz_sub_def sz_add_def size_limit_def tfs_home_def tfs_disk_def NPK_INVALID_HANDLE_def

text \<open>States with one or two nodes cached.\<close>

definition vfs_st :: "vfs_node list \<Rightarrow> mount_info list \<Rightarrow> tfs_data vfs" where
  "vfs_st ns ms = vfs_home\<lparr> vf_nodes := ns @ replicate 126 blank_node, vf_mounts := vf_mounts vfs_home @ ms \<rparr>"

lemma vfs_st_simps [simp]:
  "vf_nodes (vfs_st ns ms) = ns @ replicate 126 blank_node" "vf_mounts (vfs_st ns ms) = vf_mounts vfs_home @ ms"
  "vf_drivers (vfs_st ns ms) = [3 \<mapsto> tfs_home, 4 \<mapsto> tfs_disk]"
  "(vfs_st ns ms)\<lparr> vf_nodes := ks @ replicate 126 blank_node \<rparr> = vfs_st ks ms"
  "(vfs_st ns ms)\<lparr> vf_files := vf_files vfs_home, vf_nodes := ks @ replicate 126 blank_node \<rparr> = vfs_st ks ms"
  "(vfs_st ns ms)\<lparr> vf_nodes := k # l # replicate 126 blank_node \<rparr> = vfs_st [k, l] ms"
  "(vfs_st ns ms)\<lparr> vf_files := vf_files vfs_home, vf_nodes := k # l # replicate 126 blank_node \<rparr> = vfs_st [k, l] ms"
  "vf_files (vfs_st ns ms) = vf_files vfs_home" "vf_is_fs (vfs_st ns ms) = vf_is_fs vfs_home"
  by (simp_all add: vfs_st_def vfs_home_def)

lemma two_of_128: "[0..<128] = 0 # 1 # [2..<128::nat]" "vfs_home = vfs_st [blank_node, blank_node] []"
proof -
  show "[0..<128] = 0 # 1 # [2..<128::nat]" by (simp add: upt_rec numeral_2_eq_2)
  have "replicate 128 blank_node = blank_node # blank_node # replicate 126 blank_node" by (simp flip: replicate_Suc)
  then show "vfs_home = vfs_st [blank_node, blank_node] []" by (simp add: vfs_st_def vfs_home_def)
qed

definition home_slot :: "nat \<Rightarrow> node_type \<Rightarrow> vfs_id \<Rightarrow> vfs_node" where
  "home_slot r ty bond = \<lparr> vn_refs = r, vn_type = ty, vn_cache = None, vn_vid = home_id, vn_bond = bond, vn_busy = False \<rparr>"

definition disk_slot :: "nat \<Rightarrow> vfs_node" where
  "disk_slot r = \<lparr> vn_refs = r, vn_type = N_Directory, vn_cache = None, vn_vid = disk_id, vn_bond = no_id, vn_busy = False \<rparr>"

lemma slot_simps [simp]:
  "vn_refs (home_slot r ty b) = r" "vn_type (home_slot r ty b) = ty" "vn_vid (home_slot r ty b) = home_id" "vn_bond (home_slot r ty b) = b"
  "vn_busy (home_slot r ty b) = False" "(home_slot r ty b)\<lparr> vn_refs := r1 \<rparr> = home_slot r1 ty b"
  "(home_slot r ty b)\<lparr> vn_type := ty1, vn_bond := b1 \<rparr> = home_slot r ty1 b1"
  "vn_refs (disk_slot r) = r" "vn_type (disk_slot r) = N_Directory" "vn_vid (disk_slot r) = disk_id" "(disk_slot r)\<lparr> vn_refs := r1 \<rparr> = disk_slot r1"
  "vi_driver home_id = 3" "vi_vnode home_id = 2" "vi_driver disk_id = 4" "vi_vnode disk_id = 1"
  by (simp_all add: home_slot_def disk_slot_def home_id_def disk_id_def)

lemma get_home: "GetVfsNodeInternal tempfs_api home_id (vfs_st [blank_node, blank_node] ms) =
    Inr (Some 0, vfs_st [home_slot 1 N_Directory no_id, blank_node] ms)"
  by (simp add: cache_eval disk_eval two_of_128(1) find_slot_blank home_slot_def [symmetric])

lemma get_home_again: "GetVfsNodeInternal tempfs_api home_id (vfs_st [home_slot r ty b, n] ms) = Inr (Some 0, vfs_st [home_slot (Suc r) ty b, n] ms)"
  by (simp add: cache_eval)

lemma get_disk: "GetVfsNodeInternal tempfs_api disk_id (vfs_st [home_slot (Suc r) ty b, blank_node] ms) =
    Inr (Some 1, vfs_st [home_slot (Suc r) ty b, disk_slot 1] ms)"
  by (simp add: cache_eval disk_eval two_of_128(1) disk_slot_def [symmetric])

lemma release_two: "release 0 (vfs_st [home_slot r ty b, n] ms) = vfs_st [home_slot (r - 1) ty b, n] ms"
    "release 1 (vfs_st [m, disk_slot r] ms) = vfs_st [m, disk_slot (r - 1)] ms"
  by (simp_all add: release_def upd_node_def)

lemma disk_facts:
  "fa_get_root tempfs_api f = 1" "fa_mount tempfs_api f"
  "fa_get_attribs tempfs_api 2 tfs_home = Inr (Some (0, ''home''))" "fa_read_dir tempfs_api 2 False tfs_home = Inr (Some (0, []))"
  "fa_find_child tempfs_api 1 ''..'' tfs_disk = Inr NPK_INVALID_HANDLE" "fa_find_child tempfs_api 2 ''..'' tfs_home = Inr 1"
  "fa_find_child tempfs_api 1 ''home'' tfs_home = Inr 2" "fa_find_child tempfs_api 1 ''log'' tfs_disk = Inr NPK_INVALID_HANDLE"
  "fa_enter_cache tempfs_api 1 tfs_home = Inr N_Directory" "fa_enter_cache tempfs_api 2 tfs_home = Inr N_Directory"
  "fa_enter_cache tempfs_api 1 tfs_disk = Inr N_Directory"
  by (simp_all add: disk_eval)

lemma home_attribs: "VfsGetAttribs tempfs_api home_id (vfs_st [home_slot r N_Link disk_id, blank_node] ms) =
    Inr (Some (N_Link, 0, ''home''), vfs_st [home_slot r N_Link disk_id, blank_node] ms)"
proof -
  obtain t where "String_span ''home'' = Inr t" "str_text t = ''home''" using String_span_text [of "''home''"] by auto
  then show ?thesis
    by (simp add: VfsGetAttribs_def with_driver_def with_node_def GetVfsNode_def get_home_again release_two disk_facts)
qed

lemma home_parent: "VfsFindChild tempfs_api home_id dotdot (vfs_st [home_slot r N_Link disk_id, blank_node] ms) =
    Inr (None, vfs_st [home_slot r N_Link disk_id, disk_slot 0] ms)"
  by (simp add: VfsFindChild_def trim_name_def dotdot_def with_driver_def with_node_def GetVfsNode_def get_home_again get_disk release_two
      disk_facts ask_child_def del: One_nat_def)

lemma home_path: "\<exists>p. VfsGetPath tempfs_api home_id (vfs_st [home_slot r N_Link disk_id, blank_node] ms) =
    Inr (p, vfs_st [home_slot r N_Link disk_id, disk_slot 0] ms)"
proof -
  have "ancestor_names tempfs_api home_id [] (vfs_st [home_slot r N_Link disk_id, blank_node] ms) =
      Some (Inr (Some [''home''], vfs_st [home_slot r N_Link disk_id, disk_slot 0] ms))"
    by (subst ancestor_names.simps) (simp add: home_attribs home_parent)
  moreover have "build_path [''home''] = Inr (''/home'' @ [NUL])" by (simp add: build_path_def Let_def eval_nat_numeral)
  ultimately show ?thesis using String_buf_terminated [of "''/home''"] by (simp add: VfsGetPath_def)
qed

lemma home_mounted: "VfsMount tempfs_api home_id 4 opts vfs_home = Inr (True, vfs_mounted)"
proof -
  let ?ms = "[\<lparr> mi_occluded = home_id, mi_driver = 4, mi_opts = \<lparr> mo_writable = False, mo_uncachable = False \<rparr> \<rparr>]"
  obtain p where p: "VfsGetPath tempfs_api home_id (vfs_st [home_slot 1 N_Link disk_id, blank_node] ?ms) =
      Inr (p, vfs_st [home_slot 1 N_Link disk_id, disk_slot 0] ?ms)" using home_path by blast
  have m: "MountingConditionsMet tempfs_api 0 4 (vfs_st [home_slot 1 N_Directory no_id, blank_node] []) = Inr True"
    by (simp add: MountingConditionsMet_def disk_facts) (simp add: vfs_home_def)
  have u: "(upd_node 0 (\<lambda>n. n\<lparr> vn_type := N_Link, vn_bond := disk_id \<rparr>) (vfs_st [home_slot 1 N_Directory no_id, blank_node] []))
      \<lparr> vf_mounts := vf_mounts vfs_home @ ?ms \<rparr> = vfs_st [home_slot 1 N_Link disk_id, blank_node] ?ms"
    by (simp add: upd_node_def) (simp add: vfs_st_def)
  have "vfs_mounted = vfs_st [home_slot 0 N_Link disk_id, disk_slot 0] ?ms"
    by (simp add: vfs_mounted_def vfs_st_def home_slot_def disk_slot_def)
  moreover have "VfsMount tempfs_api home_id 4 opts (vfs_st [blank_node, blank_node] []) = Inr (True, vfs_st [home_slot 0 N_Link disk_id, disk_slot 0] ?ms)"
    using p m u by (simp add: VfsMount_def with_node_def GetVfsNode_def get_home disk_facts release_two disk_id_def [symmetric] Let_def upd_node_def del: One_nat_def)
  ultimately show ?thesis using two_of_128(2) by simp
qed

lemma vfs_mounted_ok:
  "vfs_ok tempfs_api tfs_wf tfs_valid False (replicate TreeCacheInitialSize 0) vfs_mounted" "valid_id tfs_valid vfs_mounted (vf_root vfs_mounted)"
  "spare vfs_mounted = 126"
proof -
  have d: "vf_drivers vfs_mounted = [3 \<mapsto> tfs_home, 4 \<mapsto> tfs_disk]" by (simp add: vfs_mounted_def vfs_home_def)
  have v: "valid_id tfs_valid vfs_mounted home_id" "valid_id tfs_valid vfs_mounted disk_id" using disks_ok by (auto simp: valid_id_def d)
  then have nn: "\<not> null_id home_id" "\<not> null_id disk_id" by (simp_all add: null_id_def)
  have ne: "home_id \<noteq> disk_id" "no_id \<noteq> home_id" "no_id \<noteq> disk_id" by (simp_all add: vid_eq)
  have nodes: "vf_nodes vfs_mounted = home_slot 0 N_Link disk_id # disk_slot 0 # replicate 126 blank_node"
    by (simp add: vfs_mounted_def home_slot_def disk_slot_def)
  have len: "length (vf_nodes vfs_mounted) = 128" by (simp add: nodes)
  have slots: "slot_ok tempfs_api tfs_valid False vfs_mounted 0 n" if "n \<in> set (vf_nodes vfs_mounted)" for n
    using that v nn by (auto simp: nodes slot_ok_def id_ok_def) (simp_all add: home_slot_def disk_slot_def blank_node_def)
  have "slot_ok tempfs_api tfs_valid False vfs_mounted 0 (vf_nodes vfs_mounted ! i)" if "i < 128" for i using slots that len by simp
  moreover have "null_id (vn_vid (vf_nodes vfs_mounted ! i))"
    if "i < 128" "j < 128" "i \<noteq> j" "vn_vid (vf_nodes vfs_mounted ! i) = vn_vid (vf_nodes vfs_mounted ! j)" for i j
    using that ne nn by (auto simp: nodes nth_Cons' split: if_splits)
  moreover have "drivers_ok tfs_wf vfs_mounted" using disks_ok by (auto simp: drivers_ok_def d split: if_splits)
  moreover have "mounts_ok tfs_valid vfs_mounted" using v by (auto simp: mounts_ok_def id_ok_def vfs_mounted_def vfs_home_def)
  ultimately show "vfs_ok tempfs_api tfs_wf tfs_valid False (replicate TreeCacheInitialSize 0) vfs_mounted"
    by (simp add: vfs_ok_def cache_ok_def len)
  show "valid_id tfs_valid vfs_mounted (vf_root vfs_mounted)" using disks_ok by (simp add: valid_id_def d) (simp add: vfs_mounted_def vfs_home_def)
  show "spare vfs_mounted = 126" by (simp add: spare_def nodes filter_replicate)
qed

lemma mounted_faces:
  "vface tempfs_api vfs_mounted \<lparr> vi_driver = 3, vi_vnode = 1 \<rparr> = (N_Directory, no_id)" "vface tempfs_api vfs_mounted home_id = (N_Link, disk_id)"
  "vface tempfs_api vfs_mounted disk_id = (N_Directory, no_id)"
  by (simp_all add: vface_def vfs_mounted_def find_slot_blank entered_def disk_facts vfs_home_def del: One_nat_def)

lemma mounted_walk: "walk tempfs_api vfs_mounted (resolve tempfs_api vfs_mounted (vf_root vfs_mounted)) [''home''] = Inr (Some disk_id)"
proof -
  let ?r = "\<lparr> vi_driver = 3, vi_vnode = 1 \<rparr>"
  have r: "resolve tempfs_api vfs_mounted ?r = Some ?r" "resolve tempfs_api vfs_mounted home_id = Some disk_id"
    by (simp_all add: resolve_def mounted_faces null_id_def del: One_nat_def)
  have "vf_drivers vfs_mounted 3 = Some tfs_home" by (simp add: vfs_mounted_def vfs_home_def)
  then have "ask tempfs_api vfs_mounted ?r ''home'' = Some home_id"
    by (simp add: ask_def disk_facts home_id_def NPK_INVALID_HANDLE_def del: One_nat_def)
  then have "child_of tempfs_api vfs_mounted ?r ''home'' = Some home_id" by (simp add: child_of_def r dotdot_def del: One_nat_def)
  moreover have "vf_root vfs_mounted = ?r" by (simp add: vfs_mounted_def vfs_home_def)
  ultimately show ?thesis using r by simp
qed

theorem vfs_lookup_walk_witness:
  "\<exists>s s1. VfsMount tempfs_api home_id 4 \<lparr> mo_writable = True, mo_uncachable = False \<rparr> vfs_home = Inr (True, s) \<and>
     VfsLookup tempfs_api (''/home'' @ [NUL]) (length ''/home'') s = Inr (Some disk_id, s1) \<and> refs_of s1 = refs_of s"
  using vfs_lookup_walk [OF vfs_mounted_ok(1,2), of "[''home'']"] vfs_mounted_ok(3) mounted_walk home_mounted [of "\<lparr> mo_writable = True, mo_uncachable = False \<rparr>"]
  by (auto simp: path_text_def plain_name_def size_limit_def)

end
