(* ===== verification/Vfs_Create.thy ===== *)
theory Vfs_Create
  imports Vfs_Lookup
begin

text \<open>
  Creating nodes through the virtual filesystem. A driver that can create nodes promises (\<open>fs_tree\<close>) that a new node
  is found under its name and that nothing else changes; then \<open>VfsCreate\<close> adds exactly one path.
\<close>

subsection \<open>Drivers that create nodes\<close>

text \<open>What a filesystem keeps when a child \<open>x\<close> of \<open>h\<close> is created.\<close>

definition grows :: "'f fs_api \<Rightarrow> ('f \<Rightarrow> size_t \<Rightarrow> bool) \<Rightarrow> size_t \<Rightarrow> char list \<Rightarrow> 'f \<Rightarrow> 'f \<Rightarrow> bool" where
  "grows api valid h x f g \<longleftrightarrow>
     fa_get_root api g = fa_get_root api f \<and>
     (\<forall>k. valid f k \<longrightarrow> valid g k \<and> fa_enter_cache api k g = fa_enter_cache api k f) \<and>
     (\<forall>k y. valid f k \<and> (k, y) \<noteq> (h, x) \<longrightarrow> fa_find_child api k y g = fa_find_child api k y f)"

locale fs_tree = fs_driver +
  fixes room :: "'a \<Rightarrow> bool"
  assumes create_finds: "fs_wf f \<Longrightarrow> valid f h \<Longrightarrow> room f \<Longrightarrow> plain_name x \<Longrightarrow> \<not> dot_name x \<Longrightarrow>
      fa_find_child api h x f = Inr NPK_INVALID_HANDLE \<Longrightarrow>
      \<exists>c g. fa_create api h ty x f = Inr (c, g) \<and> fs_wf g \<and> grows api valid h x f g \<and> \<not> valid f c \<and> valid g c \<and>
        fa_find_child api h x g = Inr c \<and> fa_enter_cache api c g = Inr ty"

text \<open>The state with a filesystem replaced.\<close>

definition with_fs :: "size_t \<Rightarrow> 'f \<Rightarrow> 'f vfs \<Rightarrow> 'f vfs" where
  "with_fs d g s = s\<lparr> vf_drivers := (vf_drivers s)(d \<mapsto> g) \<rparr>"

lemma with_fs_simps [simp]:
  "vf_drivers (with_fs d g s) = (vf_drivers s)(d \<mapsto> g)" "vf_nodes (with_fs d g s) = vf_nodes s"
  "vf_mounts (with_fs d g s) = vf_mounts s" "vf_root (with_fs d g s) = vf_root s"
  by (simp_all add: with_fs_def)

lemma release_with_fs: "release i (with_fs d g s) = with_fs d g (release i s)"
  by (simp add: release_def upd_node_def with_fs_def)

lemma spends_with [simp]: "spends k s (with_fs d g s1) \<longleftrightarrow> spends k s s1"
  by (simp add: spends_def spare_def)

lemma grown_ids:
  assumes "grows api valid h x f g" and "vf_drivers s d = Some f"
  shows "valid_id valid s v \<Longrightarrow> valid_id valid (with_fs d g s) v" "id_ok valid s v \<Longrightarrow> id_ok valid (with_fs d g s) v"
    "valid_id valid s v \<Longrightarrow> entered api (with_fs d g s) v = entered api s v"
  using assms by (auto simp: grows_def valid_id_def id_ok_def entered_def)

lemma grown_cache:
  assumes "grows api valid h x f g" and "vf_drivers s d = Some f" and "cache_ok api valid pin b s"
  shows "cache_ok api valid pin b (with_fs d g s)"
  using assms(3) grown_ids [OF assms(1,2)] by (auto simp: cache_ok_def slot_ok_def)

lemma cached_valid:
  assumes "cache_ok api valid pin b s" and "n \<in> set (vf_nodes s)" and "\<not> null_id (vn_vid n)"
  shows "valid_id valid s (vn_vid n)"
  using assms cache_okD(1) [OF assms(1)] by (auto simp: in_set_conv_nth slot_ok_def)

lemma grown_face:
  assumes "grows api valid h x f g" and "vf_drivers s d = Some f" and "valid_id valid s v"
  shows "vface api (with_fs d g s) v = vface api s v" "resolve api (with_fs d g s) v = resolve api s v"
  using grown_ids(3) [OF assms] by (simp_all add: vface_def resolve_def split: option.split)

context fs_tree
begin

lemma grown_vfs:
  assumes "grows api valid h x f g" and "vf_drivers s d = Some f" and "vfs_ok api fs_wf valid pin b s" and "fs_wf g"
  shows "vfs_ok api fs_wf valid pin b (with_fs d g s)"
  using assms grown_cache [OF assms(1,2)] grown_ids(2) [OF assms(1,2)]
  by (auto simp: vfs_ok_def drivers_ok_def mounts_ok_def)

text \<open>A child that was there is still there.\<close>

lemma grown_child:
  assumes g: "grows api valid (vi_vnode p) x f g" "vf_drivers s (vi_driver p) = Some f"
    and new: "fa_find_child api (vi_vnode p) x f = Inr NPK_INVALID_HANDLE"
    and ok: "vfs_ok api fs_wf valid pin b s" and v: "valid_id valid s v" and c: "child_of api s v y = Some c"
  shows "child_of api (with_fs (vi_driver p) g s) v y = Some c"
proof -
  have ok': "cache_ok api valid pin b s" "mounts_ok valid s" using ok by (simp_all add: vfs_ok_def)
  from c obtain w where w: "resolve api s v = Some w" by (auto simp: child_of_def split: option.splits)
  have wv: "valid_id valid s w" by (rule resolve_valid [OF ok'(1) v w])
  have ask: "ask api (with_fs (vi_driver p) g s) u y = Some c" if "valid_id valid s u" "ask api s u y = Some c" for u
  proof (cases "vi_driver u = vi_driver p")
    case True
    with that g new have "(vi_vnode u, y) \<noteq> (vi_vnode p, x)" by (auto simp: ask_def split: if_splits)
    with that True g show ?thesis by (auto simp: ask_def valid_id_def grows_def)
  next
    case False
    with that show ?thesis by (simp add: ask_def)
  qed
  have root: "fa_get_root api (the (vf_drivers (with_fs (vi_driver p) g s) u)) = fa_get_root api (the (vf_drivers s u))" for u
    using g by (simp add: grows_def)
  show ?thesis
    using c w wv ask grown_face(2) [OF g v] root occluded_ok [OF ok'(2)]
    by (fastforce simp: child_of_def occluded_dir_def split: option.splits if_splits)
qed

lemma grown_walk:
  assumes g: "grows api valid (vi_vnode p) x f g" "vf_drivers s (vi_driver p) = Some f"
    and new: "fa_find_child api (vi_vnode p) x f = Inr NPK_INVALID_HANDLE"
    and ok: "vfs_ok api fs_wf valid pin b s" and v: "\<And>u. at = Some u \<Longrightarrow> valid_id valid s u"
    and w: "walk api s at ns = Inr (Some c)"
  shows "walk api (with_fs (vi_driver p) g s) at ns = Inr (Some c) \<and> valid_id valid s c"
  using v w
proof (induction ns arbitrary: at)
  case Nil
  then show ?case by (cases at) auto
next
  case (Cons y ns)
  then obtain u where u: "at = Some u" "valid_id valid s u" by (cases at) auto
  with Cons.prems obtain k where k: "child_of api s u y = Some k" "walk api s (resolve api s k) ns = Inr (Some c)"
    by (auto split: option.splits)
  have kv: "valid_id valid s k" by (rule child_valid [OF ok u(2) k(1)])
  have "cache_ok api valid pin b s" using ok by (simp add: vfs_ok_def)
  then have "resolve api s k = Some u' \<Longrightarrow> valid_id valid s u'" for u' using resolve_valid kv by blast
  from Cons.IH [OF this k(2)] show ?case
    using u(1) grown_child [OF g new ok u(2) k(1)] grown_face(2) [OF g kv] by simp
qed

lemma walk_append: "walk api s at (ns @ ms) = Inr (Some c) \<longleftrightarrow>
    (\<exists>u. walk api s at ns = Inr (Some u) \<and> walk api s (Some u) ms = Inr (Some c))"
  by (induction api s at ns rule: walk.induct) (auto split: option.splits, (cases ms; simp)+)

lemma walk_valid:
  assumes "vfs_ok api fs_wf valid pin b s" and "\<And>u. at = Some u \<Longrightarrow> valid_id valid s u" and "walk api s at ns = Inr (Some c)"
  shows "valid_id valid s c"
  using assms(2,3)
proof (induction ns arbitrary: at)
  case Nil
  then show ?case by (cases at) auto
next
  case (Cons y ns)
  then obtain u k where u: "at = Some u" "valid_id valid s u" "child_of api s u y = Some k" "walk api s (resolve api s k) ns = Inr (Some c)"
    by (cases at) (auto split: option.splits)
  have "cache_ok api valid pin b s" using assms(1) by (simp add: vfs_ok_def)
  then show ?case using Cons.IH [OF _ u(4)] resolve_valid child_valid [OF assms(1) u(2,3)] by blast
qed

lemma kept_walk:
  assumes k: "kept api s s1" and ok: "vfs_ok api fs_wf valid pin b s" and "\<And>u. at = Some u \<Longrightarrow> valid_id valid s u"
  shows "walk api s1 at ns = walk api s at ns"
  using assms(3)
proof (induction ns arbitrary: at)
  case Nil
  then show ?case by (cases at) simp_all
next
  case (Cons y ns)
  have "cache_ok api valid pin b s" using ok by (simp add: vfs_ok_def)
  note rv = resolve_valid [OF this]
  show ?case
  proof (cases at)
    case (Some u)
    then have u: "valid_id valid s u" using Cons.prems by simp
    have eq: "child_of api s1 u y = child_of api s u y" by (rule kept_resolve(3) [OF k valid_not_null [OF u]])
    show ?thesis
    proof (cases "child_of api s u y")
      case (Some c)
      note c = child_valid [OF ok u Some]
      show ?thesis
        using \<open>at = Some u\<close> eq Some Cons.IH [of "resolve api s c"] rv [OF c] kept_resolve(1) [OF k valid_not_null [OF c]] by simp
    qed (use \<open>at = Some u\<close> eq in simp)
  qed simp
qed

lemma create_path:
  assumes ok: "vfs_ok api fs_wf valid pin b s" and root: "valid_id valid s (vf_root s)" and free: "enough pin 2 2 s"
    and found: "walk api s (resolve api s (vf_root s)) ns = Inr (Some p)" "fst (vface api s p) = N_Directory"
    and x: "plain_name x" "\<not> dot_name x" "child_of api s p x = None" and ty: "ty \<noteq> N_Link"
    and room: "\<And>f. vf_drivers s (vi_driver p) = Some f \<Longrightarrow> room f"
  shows "\<exists>c s1. VfsCreate api p ty x s = Inr (Some c, s1) \<and> vfs_ok api fs_wf valid pin b s1 \<and> refs_of s1 = refs_of s \<and> spends 2 s s1 \<and>
    valid_id valid s1 (vf_root s1) \<and>
    walk api s1 (resolve api s1 (vf_root s1)) (ns @ [x]) = Inr (Some c) \<and> vface api s1 c = (ty, no_id) \<and> \<not> valid_id valid s c \<and>
    (\<forall>ms u. walk api s (resolve api s (vf_root s)) ms = Inr (Some u) \<longrightarrow>
       walk api s1 (resolve api s1 (vf_root s1)) ms = Inr (Some u) \<and> vface api s1 u = vface api s u)"
proof -
  have ok': "cache_ok api valid pin b s" "drivers_ok fs_wf s" using ok by (simp_all add: vfs_ok_def)
  have rv: "resolve api s (vf_root s) = Some u \<Longrightarrow> valid_id valid s u" for u using resolve_valid [OF ok'(1) root] .
  have pv: "valid_id valid s p" by (rule walk_valid [OF ok rv found(1)])
  have p: "resolve api s p = Some p" using found(2) by (simp add: resolve_def)
  obtain f where f: "vf_drivers s (vi_driver p) = Some f" "valid f (vi_vnode p)" "fs_wf f" "vi_driver p \<noteq> 0"
    using pv ok'(2) by (auto simp: valid_id_def drivers_ok_def)
  have nd: "x \<noteq> dotdot" using x(2) by (auto simp: dot_name_def dotdot_def)
  obtain r where r: "fa_find_child api (vi_vnode p) x f = Inr r" using find_valid [OF f(3,2)] by blast
  with x(3) p nd f(1) have none: "fa_find_child api (vi_vnode p) x f = Inr NPK_INVALID_HANDLE"
    by (simp add: child_of_def ask_def split: if_splits)
  obtain c g where g: "fa_create api (vi_vnode p) ty x f = Inr (c, g)" "fs_wf g" "grows api valid (vi_vnode p) x f g"
    "\<not> valid f c" "valid g c" "fa_find_child api (vi_vnode p) x g = Inr c" "fa_enter_cache api c g = Inr ty"
    using create_finds [OF f(3,2) room [OF f(1)] x(1,2) none, of ty] by blast
  obtain i s1 where i: "GetVfsNode api p True s = Inr (Some i, s1)" "taken api valid pin b s p i s1" and p2: "spends 2 s s1"
    using get_handle [OF ok pv free] p by auto
  have k: "kept api s s1" and slot: "vn_vid (vf_nodes s1 ! i) = p" "vn_type (vf_nodes s1 ! i) = N_Directory"
    using i(2) found(2) unfolding taken_def by (simp, metis, metis fst_conv)
  have q: "quiet api fs_wf valid pin b s (release i s1)" by (rule release_quiet [OF i(2) ok quiet_refl [OF taken_vfs_ok [OF i(2) ok]]])
  let ?s = "release i s1" and ?c = "\<lparr> vi_driver = vi_driver p, vi_vnode = c \<rparr>"
  let ?s2 = "with_fs (vi_driver p) g ?s"
  have trim: "trim_name x = x"
    using x(1) plain_last [OF x(1)] by (cases x rule: rev_cases) (auto simp: trim_name_def plain_name_def)
  have nh: "c \<noteq> NPK_INVALID_HANDLE" using valid_handle g(5) by blast
  have f1: "vf_drivers s1 (vi_driver p) = Some f" using k f(1) by (simp add: kept_def)
  have create: "VfsCreate api p ty x s = Inr (Some ?c, ?s2)"
    using i(1) f1 slot g(1) nh trim
    by (simp add: VfsCreate_def with_driver_def with_node_def Let_def release_with_fs flip: with_fs_def)
  have kq: "kept api s ?s" and okq: "vfs_ok api fs_wf valid pin b ?s" and refs: "refs_of ?s = refs_of s" using q by (simp_all add: quiet_def)
  have fq: "vf_drivers ?s (vi_driver p) = Some f" using kq f(1) by (simp add: kept_def)
  have rq: "vf_root ?s = vf_root s" "valid_id valid ?s = valid_id valid s" using kq kept_ids [OF kq] by (simp_all add: kept_def)
  have walks: "walk api ?s2 (resolve api ?s2 (vf_root ?s2)) ms = Inr (Some u) \<and> vface api ?s2 u = vface api s u"
    if "walk api s (resolve api s (vf_root s)) ms = Inr (Some u)" for ms u
  proof -
    have w: "walk api ?s (resolve api s (vf_root s)) ms = Inr (Some u)" using kept_walk [OF kq ok rv] that by simp
    note gw = grown_walk [OF g(3) fq none okq _ w]
    have "resolve api ?s2 (vf_root ?s2) = resolve api s (vf_root s)"
      using grown_face(2) [OF g(3) fq] root rq kept_resolve(1) [OF kq valid_not_null [OF root]] by simp
    then show ?thesis
      using gw rv rq grown_face(1) [OF g(3) fq] kq valid_not_null by (auto simp: kept_def)
  qed
  have cv: "\<not> valid_id valid s ?c" using f(1) g(4) by (simp add: valid_id_def)
  have c2: "valid_id valid ?s2 ?c" using g(5) f(4) by (simp add: valid_id_def)
  have ok2: "vfs_ok api fs_wf valid pin b ?s2" by (rule grown_vfs [OF g(3) fq okq g(2)])
  have "\<forall>n \<in> set (vf_nodes ?s). vn_vid n \<noteq> ?c"
    using okq cv valid_not_null [OF c2] rq(2) cached_valid unfolding vfs_ok_def by metis
  then have face: "vface api ?s2 ?c = (ty, no_id)"
    using vface_miss [of ?s2 ?c api] g(7) by (simp add: entered_def)
  have rp: "resolve api ?s2 p = Some p" using walks [OF found(1)] found(2) by (simp add: resolve_def)
  have "child_of api ?s2 p x = Some ?c"
    using rp nd g(6) nh by (simp add: child_of_def ask_def)
  moreover have "resolve api ?s2 ?c = Some ?c" using face ty by (simp add: resolve_def)
  ultimately have "walk api ?s2 (resolve api ?s2 (vf_root ?s2)) (ns @ [x]) = Inr (Some ?c)"
    using walks [OF found(1)] by (simp add: walk_append)
  then show ?thesis
    using create ok2 refs face cv walks grown_ids(1) [OF g(3) fq] root rq spends_with p2 by auto
qed

end

subsection \<open>The temporary filesystem\<close>

lemma tempfs_grows:
  assumes "tfs_wf d" and "tfs_valid d h" and "length (td_nodes d) + 2 < size_limit" and x: "plain_name x" "\<not> dot_name x"
    and "TempFsFindChild h x d = Inr NPK_INVALID_HANDLE"
  shows "\<exists>c d'. TempFsCreate h ty x d = Inr (c, d') \<and> tfs_wf d' \<and> grows tempfs_api tfs_valid h x d d' \<and> \<not> tfs_valid d c \<and>
    tfs_valid d' c \<and> TempFsFindChild h x d' = Inr c \<and> TempFsEnterCache c d' = Inr ty"
proof -
  have ne: "x \<noteq> []" "last x \<noteq> NUL" using x(1) plain_last by (auto simp: plain_name_def)
  obtain c d' where F: "TempFsCreate h ty x d = Inr (c, d')" "tfs_wf d'" "\<not> tfs_valid d c" "tfs_valid d' c"
      "TempFsFindChild h x d' = Inr c" "TempFsEnterCache c d' = Inr ty"
      "\<forall>g y. tfs_valid d g \<and> (g, y) \<noteq> (h, x) \<longrightarrow> TempFsFindChild g y d' = TempFsFindChild g y d"
      "\<forall>g. tfs_valid d g \<longrightarrow> TempFsEnterCache g d' = TempFsEnterCache g d"
    using tempfs_create_find [OF assms(1-3) ne x(2) assms(6), of ty] by blast
  have "length (td_nodes d) \<le> length (td_nodes d')"
    using TempFsCreate_created [OF assms(1,2) String_span_text [OF ne], of ty] F(1) by (auto simp: created_def)
  then have "tfs_valid d k \<Longrightarrow> tfs_valid d' k" for k by (simp add: tfs_valid_def)
  then have "grows tempfs_api tfs_valid h x d d'"
    using F(7,8) by (auto simp: grows_def tempfs_api_def TempFsGetRoot_def)
  with F show ?thesis by blast
qed

interpretation tempfs_tree: fs_tree tempfs_api tfs_wf tfs_valid "\<lambda>d. length (td_nodes d) + 2 < size_limit"
proof
  show "\<exists>c g. fa_create tempfs_api h ty x f = Inr (c, g) \<and> tfs_wf g \<and> grows tempfs_api tfs_valid h x f g \<and> \<not> tfs_valid f c \<and>
      tfs_valid g c \<and> fa_find_child tempfs_api h x g = Inr c \<and> fa_enter_cache tempfs_api c g = Inr ty"
    if "tfs_wf f" "tfs_valid f h" "length (td_nodes f) + 2 < size_limit" "plain_name x" "\<not> dot_name x"
      "fa_find_child tempfs_api h x f = Inr NPK_INVALID_HANDLE" for f h x ty
    using tempfs_grows [OF that(1-5), of ty] that(6) by (simp add: tempfs_api_def)
qed

text \<open>C26: creating a node with a new plain name in a directory that a path leads to (over mount points, too) succeeds with an id that was not in
  use; afterwards the longer path is looked up to the new node, every path that led to a node leads to the same node, no reference is
  held and the cache stays consistent. The node cache has to have unused slots, four and five for each name of the longer path, so that
  no mount point is evicted, and for the lookup of another path again as many as the path needs; if others hold a reference to every mount
  point (\<open>pin\<close>), three slots without references are enough for all.\<close>

theorem vfs_create_lookup:
  assumes "vfs_ok tempfs_api tfs_wf tfs_valid pin b s" and "valid_id tfs_valid s (vf_root s)"
    and "if pin then 3 \<le> free_slots s else 4 + 5 * length (ns @ [x]) \<le> spare s"
    and "walk tempfs_api s (resolve tempfs_api s (vf_root s)) ns = Inr (Some p)" and "fst (vface tempfs_api s p) = N_Directory"
    and "\<forall>y \<in> set (ns @ [x]). plain_name y" and "\<not> dot_name x" and "child_of tempfs_api s p x = None" and "ty \<noteq> N_Link"
    and "length (td_nodes (the (vf_drivers s (vi_driver p)))) + 2 < size_limit" and "length (path_text (ns @ [x])) < size_limit"
  shows "\<exists>c s1 s2. VfsCreate tempfs_api p ty x s = Inr (Some c, s1) \<and> \<not> valid_id tfs_valid s c \<and>
    vfs_ok tempfs_api tfs_wf tfs_valid pin b s1 \<and> refs_of s1 = refs_of s \<and> fst (vface tempfs_api s1 c) = ty \<and>
    VfsLookup tempfs_api (path_text (ns @ [x]) @ [NUL]) (length (path_text (ns @ [x]))) s1 = Inr (Some c, s2) \<and>
    (\<forall>ms u. walk tempfs_api s (resolve tempfs_api s (vf_root s)) ms = Inr (Some u) \<longrightarrow>
      walk tempfs_api s1 (resolve tempfs_api s1 (vf_root s1)) ms = Inr (Some u) \<and>
      ((\<forall>y \<in> set ms. plain_name y) \<and> length (path_text ms) < size_limit \<and> (pin \<or> 4 + 5 * length ms \<le> spare s) \<longrightarrow>
        (\<exists>s3. VfsLookup tempfs_api (path_text ms @ [NUL]) (length (path_text ms)) s1 = Inr (Some u, s3))))"
proof -
  have px: "plain_name x" and nx: "\<forall>y \<in> set (ns @ [x]). plain_name y" using assms(6) by simp_all
  have "enough pin 2 2 s" using assms(3) by (auto simp: enough_def split: if_splits)
  moreover have "length (td_nodes f) + 2 < size_limit" if "vf_drivers s (vi_driver p) = Some f" for f using that assms(10) by simp
  ultimately obtain c s1 where c: "VfsCreate tempfs_api p ty x s = Inr (Some c, s1)" "vfs_ok tempfs_api tfs_wf tfs_valid pin b s1" "refs_of s1 = refs_of s"
      "valid_id tfs_valid s1 (vf_root s1)" "walk tempfs_api s1 (resolve tempfs_api s1 (vf_root s1)) (ns @ [x]) = Inr (Some c)"
      "vface tempfs_api s1 c = (ty, no_id)" "\<not> valid_id tfs_valid s c"
      "\<forall>ms u. walk tempfs_api s (resolve tempfs_api s (vf_root s)) ms = Inr (Some u) \<longrightarrow>
        walk tempfs_api s1 (resolve tempfs_api s1 (vf_root s1)) ms = Inr (Some u) \<and> vface tempfs_api s1 u = vface tempfs_api s u"
      and p2: "spends 2 s s1"
    using tempfs_tree.create_path [OF assms(1,2) _ assms(4,5) px assms(7,8,9)] by blast
  have free: "enough pin (2 + 5 * length ms) 3 s1" if "pin \<or> 4 + 5 * length ms \<le> spare s" for ms :: "char list list"
    using that assms(3) c(3) p2 by (auto simp: enough_def free_slots_def spends_def split: if_splits)
  have look: "\<exists>s3. VfsLookup tempfs_api (path_text ms @ [NUL]) (length (path_text ms)) s1 = Inr (Some u, s3)"
    if "\<forall>y \<in> set ms. plain_name y" "length (path_text ms) < size_limit" "pin \<or> 4 + 5 * length ms \<le> spare s"
      "walk tempfs_api s1 (resolve tempfs_api s1 (vf_root s1)) ms = Inr (Some u)" for ms u
    using tempfs.lookup_path [OF that(1,2) c(2,4) free [OF that(3)]] that(4) by auto
  obtain s2 where "VfsLookup tempfs_api (path_text (ns @ [x]) @ [NUL]) (length (path_text (ns @ [x]))) s1 = Inr (Some c, s2)"
    using look [OF nx assms(11) _ c(5)] assms(3) by (auto split: if_splits)
  then show ?thesis using c look by auto
qed

text \<open>A file in the filesystem that was mounted on a directory.\<close>

theorem vfs_create_lookup_witness:
  "\<exists>s c s1 s2. VfsMount tempfs_api home_id 4 \<lparr> mo_writable = True, mo_uncachable = False \<rparr> vfs_home = Inr (True, s) \<and>
     VfsCreate tempfs_api disk_id N_File ''log'' s = Inr (Some c, s1) \<and>
     VfsLookup tempfs_api (''/home/log'' @ [NUL]) (length ''/home/log'') s1 = Inr (Some c, s2)"
proof -
  have d: "vf_drivers vfs_mounted 4 = Some tfs_disk" by (simp add: vfs_mounted_def vfs_home_def)
  then have "ask tempfs_api vfs_mounted disk_id ''log'' = None" by (simp add: ask_def disk_facts del: One_nat_def)
  then have child: "child_of tempfs_api vfs_mounted disk_id ''log'' = None"
    by (simp add: child_of_def resolve_def mounted_faces dotdot_def)
  have "length (td_nodes (the (vf_drivers vfs_mounted (vi_driver disk_id)))) + 2 < size_limit" by (simp add: d tfs_disk_def size_limit_def)
  then have "\<exists>c s1 s2. VfsCreate tempfs_api disk_id N_File ''log'' vfs_mounted = Inr (Some c, s1) \<and>
      VfsLookup tempfs_api (path_text [''home'', ''log''] @ [NUL]) (length (path_text [''home'', ''log''])) s1 = Inr (Some c, s2)"
    using vfs_create_lookup [OF vfs_mounted_ok(1,2) _ mounted_walk, of "''log''" N_File] mounted_faces(3) child vfs_mounted_ok(3)
    by (fastforce simp: path_text_def plain_name_def dot_name_def size_limit_def)
  then show ?thesis using home_mounted by (simp add: path_text_def)
qed

end
