(* ===== verification/Vfs_Vm_Driver.thy ===== *)
theory Vfs_Vm_Driver
  imports Vmm_Mmio Vfs
begin

text \<open>
  \<open>kernel/memory/virtual/VfsVmDriver.cpp\<close>: ranges of an address space that show a file. The driver
  finds the file through the virtual filesystem, takes units of its contents from the file cache and maps their pages. It works
  on the page tables of \<open>Hat_X86\<close>, the pages of \<open>Pmm\<close>, the nodes of \<open>Vfs\<close> and the units of \<open>File_Cache\<close>
  together. The token of a range is the address of a \<open>VfsVmLink\<close>; new links and new cache units get
  addresses that were not used before. The node of a file is released when an operation returns.
\<close>

unbundle bit_operations_syntax

subsection \<open>State\<close>

record vfs_link =
  vl_node :: vfs_id
  vl_fileOffset :: size_t
  vl_isReadonly :: bool
  vl_isPrivate :: bool

record vm_file_arg =
  va_filepath :: "char list"
  va_id :: vfs_id
  va_offset :: size_t
  va_noDeferBacking :: bool

record 'f file_world =
  fw_hat :: "pmm hat_state"
  fw_vfs :: "'f vfs"
  fw_links :: "size_t \<Rightarrow> vfs_link option"
  fw_fresh :: size_t

definition vfs_FaultMaxMapAhead :: size_t where
  "vfs_FaultMaxMapAhead = 2 * 0x1000"

definition VfsFeature_FaultHandler :: u64 where
  "VfsFeature_FaultHandler = push_bit 0 1"

definition vfsdrv_Init :: "u64 \<Rightarrow> bool" where
  "vfsdrv_Init enableFeatures = (enableFeatures AND VfsFeature_FaultHandler \<noteq> 0)"

subsection \<open>Files and their units\<close>

text \<open>An operation on the node of a file, which is released at its end.\<close>

definition with_file ::
  "'f fs_api \<Rightarrow> vfs_id \<Rightarrow> 'r \<Rightarrow> (vfs_node \<Rightarrow> 'f file_world \<Rightarrow> ('r \<times> 'f file_world) res) \<Rightarrow> 'f file_world \<Rightarrow> ('r \<times> 'f file_world) res" where
  "with_file api v bad body w =
     res_bind (GetVfsNode api v True (fw_vfs w)) (\<lambda>(h, s).
       let w = w\<lparr> fw_vfs := s \<rparr>
       in case h of
            None \<Rightarrow> Inr (bad, w)
          | Some i \<Rightarrow> res_bind (body (vf_nodes s ! i) w) (\<lambda>(r, w). Inr (r, w\<lparr> fw_vfs := release i (fw_vfs w) \<rparr>)))"

text \<open>Whether \<open>GetFileCacheUnit\<close> makes a new unit; only then does it ask for physical memory.\<close>

definition unit_missing :: "mount_options option \<Rightarrow> nat option \<Rightarrow> size_t \<Rightarrow> file_caches \<Rightarrow> bool" where
  "unit_missing opts cache fileOffset s =
     (case cache of
        None \<Rightarrow> False
      | Some i \<Rightarrow>
          let U = fi_unitSize (fs_info s); off = AlignDown fileOffset U; t = fc_units (fs_caches s ! i)
          in off < fc_length (fs_caches s ! i) \<and> opts \<noteq> None \<and> find_unit U off (rb_root t) t = Some None)"

definition cache_unit :: "nat option \<Rightarrow> size_t \<Rightarrow> 'f file_world \<Rightarrow> (fcu option \<times> 'f file_world) res" where
  "cache_unit cache fileOffset w =
     (let s = vf_files (fw_vfs w);
          opts = (case cache of None \<Rightarrow> None | Some i \<Rightarrow> VfsGetMountOptions (vi_driver (fc_id (fs_caches s ! i))) (fw_vfs w))
      in res_bind (if unit_missing opts cache fileOffset s then Alloc (hs_pmm (fw_hat w)) (fi_unitSize (fs_info s) div PageSize)
                   else Inr (0, hs_pmm (fw_hat w))) (\<lambda>(phys, pm).
         case GetFileCacheUnit opts phys (fw_fresh w) cache fileOffset s of
           None \<Rightarrow> Inl Diverges
         | Some (hit, s') \<Rightarrow>
             Inr (map_option (\<lambda>u. rb_data (fc_units (fs_caches s' ! the cache)) u) hit,
                  w\<lparr> fw_hat := (fw_hat w)\<lparr> hs_pmm := pm \<rparr>, fw_vfs := (fw_vfs w)\<lparr> vf_files := s' \<rparr>, fw_fresh := fw_fresh w + 1 \<rparr>)))"

text \<open>\<open>HatDoMap\<close> of one page, whose result is ignored, and the count of what is resident.\<close>

definition map_file_page ::
  "hat_cfg \<Rightarrow> hat_map \<Rightarrow> size_t \<Rightarrow> size_t \<Rightarrow> nat \<Rightarrow> u64 \<Rightarrow> size_t \<Rightarrow> vmm_stats \<times> 'f file_world \<Rightarrow> (vmm_stats \<times> 'f file_world) res" where
  "map_file_page c hmap vaddr paddr mode flags granuleSize = (\<lambda>(stats, w).
     res_bind (map_page c hmap vaddr paddr mode flags (fw_hat w)) (\<lambda>h.
       Inr (stats\<lparr> st_fileResidentSize := sz_add (st_fileResidentSize stats) granuleSize \<rparr>, w\<lparr> fw_hat := h \<rparr>)))"

subsection \<open>Operations\<close>

text \<open>
  One round of the loop of \<open>HandleFault\<close>. The state holds the unit in use and, once a unit cannot be had, that the
  fault was not handled; the loop then ends.
\<close>

definition fault_step ::
  "hat_cfg \<Rightarrow> hat_map \<Rightarrow> vm_range \<Rightarrow> nat option \<Rightarrow> file_cache_info \<Rightarrow> size_t \<Rightarrow> size_t \<Rightarrow> size_t \<Rightarrow> nat \<Rightarrow>
   (bool \<times> fcu) \<times> vmm_stats \<times> 'f file_world \<Rightarrow> (nat \<times> (bool \<times> fcu) \<times> vmm_stats \<times> 'f file_world) res" where
  "fault_step c hmap r cache info mappingOffset fileOffset mapLength i = (\<lambda>((good, chunk), stats, w).
     let granuleSize = granularity (fi_hatMode info);
         pos = sz_add (sz_add mappingOffset i) fileOffset
     in res_bind (if pos mod fi_unitSize info = 0
                  then res_bind (cache_unit cache pos w) (\<lambda>(u, w). Inr (u, w))
                  else Inr (Some chunk, w)) (\<lambda>(u, w).
          case u of
            None \<Rightarrow> Inr (mapLength, (False, chunk), stats, w)
          | Some chunk \<Rightarrow>
              res_bind (map_file_page c hmap (sz_add (sz_add (rg_base r) mappingOffset) i)
                          (sz_add (fu_physBase chunk) (sz_add (sz_add i mappingOffset) fileOffset mod fi_unitSize info))
                          (fi_hatMode info) (ConvertFlags (rg_flags r)) granuleSize (stats, w)) (\<lambda>(stats, w).
                Inr (sz_add i granuleSize, (good, chunk), stats, w))))"

definition vfsdrv_HandleFault ::
  "'f fs_api \<Rightarrow> hat_cfg \<Rightarrow> hat_map \<Rightarrow> vm_range \<Rightarrow> size_t \<Rightarrow> vmm_stats \<Rightarrow> 'f file_world \<Rightarrow> (bool \<times> vmm_stats \<times> 'f file_world) res" where
  "vfsdrv_HandleFault api c hmap r addr stats w =
     (case fw_links w (rg_token r) of
        None \<Rightarrow> Inl Assert_Failed
      | Some link \<Rightarrow>
          res_bind (with_file api (vl_node link) (False, stats) (\<lambda>node w.
            case vn_cache node of
              None \<Rightarrow> Inr ((False, stats), w)
            | Some ci \<Rightarrow>
                let info = GetFileCacheInfo (vf_files (fw_vfs w));
                    granuleSize = granularity (fi_hatMode info);
                    addr = AlignDown addr granuleSize;
                    mapLength = Min vfs_FaultMaxMapAhead (sz_sub (Top r) addr);
                    mappingOffset = sz_sub addr (rg_base r)
                in res_bind (cache_unit (Some ci) (sz_add mappingOffset (vl_fileOffset link)) w) (\<lambda>(u, w).
                     case u of
                       None \<Rightarrow> Inr ((False, stats), w)
                     | Some chunk \<Rightarrow>
                         res_bind (run_loop (fault_step c hmap r (Some ci) info mappingOffset (vl_fileOffset link) mapLength) mapLength 0
                                     ((True, chunk), stats, w)) (\<lambda>((good, _), stats, w). Inr ((good, stats), w)))) w)
            (\<lambda>((good, stats), w). Inr (good, stats, w)))"

definition arg_file :: "'f fs_api \<Rightarrow> vm_file_arg \<Rightarrow> 'f file_world \<Rightarrow> (vfs_id \<times> 'f file_world) res" where
  "arg_file api arg w =
     (if vi_driver (va_id arg) \<noteq> 0 then Inr (va_id arg, w)
      else if va_filepath arg \<noteq> []
      then res_bind (VfsLookup api (va_filepath arg) (length (va_filepath arg)) (fw_vfs w)) (\<lambda>(hit, s).
             Inr (case hit of None \<Rightarrow> no_id | Some v \<Rightarrow> v, w\<lparr> fw_vfs := s \<rparr>))
      else Inr (no_id, w))"

definition query_failed :: query_result where
  "query_failed = \<lparr> qr_alignment = 0, qr_length = 0, qr_hatMode = 0, qr_success = False \<rparr>"

definition vfsdrv_Query ::
  "'f fs_api \<Rightarrow> size_t \<Rightarrow> vm_flags \<Rightarrow> vm_file_arg \<Rightarrow> 'f file_world \<Rightarrow> (query_result \<times> 'f file_world) res" where
  "vfsdrv_Query api len flags arg w =
     res_bind (arg_file api arg w) (\<lambda>(fileId, w).
       if vi_driver fileId = 0 then Inr (query_failed, w)
       else res_bind (VfsGetAttribs api fileId (fw_vfs w)) (\<lambda>(attribs, s).
         let w = w\<lparr> fw_vfs := s \<rparr>
         in case attribs of
              None \<Rightarrow> Inr (query_failed, w)
            | Some (ty, sz, name) \<Rightarrow>
                if ty \<noteq> N_File then Inr (query_failed, w)
                else
                  let mode = fi_hatMode (GetFileCacheInfo (vf_files (fw_vfs w)));
                      alignment = granularity mode;
                      aligned = AlignUp len alignment
                  in Inr (\<lparr> qr_alignment = alignment,
                            qr_length = (if Has flags VmGuarded then sz_add aligned (sz_mul 2 alignment) else aligned),
                            qr_hatMode = mode, qr_success = True \<rparr>, w)))"

definition vfsdrv_ModifyRange :: "vm_range \<Rightarrow> modify_args \<Rightarrow> vmm_stats \<Rightarrow> 's \<Rightarrow> (bool \<times> vmm_stats \<times> 's) res" where
  "vfsdrv_ModifyRange r args stats w = Inl Unreachable_Hit"

definition vfsdrv_Split :: "vm_range \<Rightarrow> size_t \<Rightarrow> split_result res" where
  "vfsdrv_Split r offset = Inl Unreachable_Hit"

definition attach_failed :: attach_result where
  "attach_failed = \<lparr> ar_token = 0, ar_offset = 0, ar_success = False \<rparr>"

text \<open>One round of the loop of \<open>Attach\<close>, which ends when a unit cannot be had.\<close>

definition attach_step ::
  "hat_cfg \<Rightarrow> hat_map \<Rightarrow> vm_range \<Rightarrow> nat option \<Rightarrow> file_cache_info \<Rightarrow> query_result \<Rightarrow> size_t \<Rightarrow> nat \<Rightarrow> vmm_stats \<times> 'f file_world \<Rightarrow>
   (nat \<times> vmm_stats \<times> 'f file_world) res" where
  "attach_step c hmap r cache info query offset i = (\<lambda>(stats, w).
     let granuleSize = granularity (qr_hatMode query)
     in res_bind (cache_unit cache (sz_add offset i) w) (\<lambda>(u, w).
          case u of
            None \<Rightarrow> Inr (rg_length r, stats, w)
          | Some chunk \<Rightarrow>
              res_bind (map_file_page c hmap (sz_add (rg_base r) i) (sz_add (fu_physBase chunk) (i mod fi_unitSize info))
                          (qr_hatMode query) (ConvertFlags (rg_flags r)) granuleSize (stats, w)) (\<lambda>(stats, w).
                Inr (sz_add i granuleSize, stats, w))))"

definition vfsdrv_Attach ::
  "'f fs_api \<Rightarrow> hat_cfg \<Rightarrow> hat_map \<Rightarrow> bool \<Rightarrow> vm_range \<Rightarrow> query_result \<Rightarrow> vm_file_arg \<Rightarrow> vmm_stats \<Rightarrow> 'f file_world \<Rightarrow>
   (attach_result \<times> vmm_stats \<times> 'f file_world) res" where
  "vfsdrv_Attach api c hmap faultHandler r query arg stats w =
     res_bind (arg_file api arg w) (\<lambda>(fileId, w).
       if vi_driver fileId = 0 then Inr (attach_failed, stats, w)
       else res_bind (with_file api fileId (attach_failed, stats) (\<lambda>node w.
         if vn_type node \<noteq> N_File then Inr ((attach_failed, stats), w)
         else
           let link = \<lparr> vl_node = fileId, vl_fileOffset = va_offset arg, vl_isReadonly = \<not> Has (rg_flags r) VmWrite, vl_isPrivate = False \<rparr>;
               token = fw_fresh w;
               w = w\<lparr> fw_links := (fw_links w)(token := Some link), fw_fresh := token + 1 \<rparr>;
               info = GetFileCacheInfo (vf_files (fw_vfs w));
               granuleSize = granularity (qr_hatMode query);
               result = \<lparr> ar_token = token, ar_offset = va_offset arg mod granuleSize, ar_success = True \<rparr>;
               stats = stats\<lparr> st_fileWorkingSize := sz_add (st_fileWorkingSize stats) (sz_sub (rg_length r) (ar_offset result)) \<rparr>
           in if faultHandler \<and> \<not> va_noDeferBacking arg then Inr ((result, stats), w)
              else res_bind (run_loop (attach_step c hmap r (vn_cache node) info query (va_offset arg)) (rg_length r) 0 (stats, w))
                     (\<lambda>(stats, w). Inr ((result, stats), w))) w)
         (\<lambda>((result, stats), w). Inr (result, stats, w)))"

definition vfsdrv_Detach ::
  "hat_cfg \<Rightarrow> hat_map \<Rightarrow> vm_range \<Rightarrow> vmm_stats \<Rightarrow> 'f file_world \<Rightarrow> (bool \<times> vmm_stats \<times> 'f file_world) res" where
  "vfsdrv_Detach c hmap r stats w =
     (let stats = stats\<lparr> st_fileWorkingSize := sz_sub (st_fileWorkingSize stats) (sz_sub (rg_length r) (rg_offset r)) \<rparr>;
          granuleSize = granularity (fi_hatMode (GetFileCacheInfo (vf_files (fw_vfs w))))
      in res_bind (run_loop (\<lambda>i (stats, h).
             case HatDoUnmap c hmap (of_nat (sz_add (rg_base r) i)) h of
               (Some _, h) \<Rightarrow> Inr (sz_add i granuleSize, stats\<lparr> st_fileResidentSize := sz_sub (st_fileResidentSize stats) granuleSize \<rparr>, h)
             | (None, h) \<Rightarrow> Inr (sz_add i granuleSize, stats, h)) (rg_length r) 0 (stats, fw_hat w))
           (\<lambda>(stats, h). Inr (True, stats, w\<lparr> fw_hat := h, fw_links := (fw_links w)(rg_token r := None) \<rparr>)))"

subsection \<open>Mapping page after page\<close>

text \<open>A page that is mapped already keeps its entry: \<open>HatDoMap\<close> refuses it, which the driver ignores.\<close>

definition kept_entry :: "hat_cfg \<Rightarrow> hat_map \<Rightarrow> pmm hat_state \<Rightarrow> size_t \<Rightarrow> (nat \<Rightarrow> (u64 \<times> nat) option) \<Rightarrow> nat \<Rightarrow> (u64 \<times> nat) option" where
  "kept_entry c hmap h0 b entry i =
     (if hat_found c hmap h0 (idx (b + PageSize * i)) = None then entry i else hat_found c hmap h0 (idx (b + PageSize * i)))"

lemma page_step:
  assumes inv: "hat_inv c hmap hhdm h0" and run: "page_run c b n" "j < n" and av: "pagingLevels c * n \<le> hat_avail h0"
    and h: "hat_drawn c hmap hhdm (pagingLevels c * j) h0 h" "sets_pages c hmap b j (kept_entry c hmap h0 b entry) h0 h"
    and at: "(of_nat va :: u64) = of_nat (b + PageSize * j)" "entry j = Some (final_pte c (of_nat pa) 1 fl, 1)"
  shows "\<exists>h'. map_page c hmap va pa 0 fl h = Inr h' \<and> hat_drawn c hmap hhdm (pagingLevels c * Suc j) h0 h' \<and>
    sets_pages c hmap b (Suc j) (kept_entry c hmap h0 b entry) h0 h'"
proof -
  let ?L = "pagingLevels c"
  have cf: "cfg_ok c" using inv by (simp add: hat_inv_def)
  have "?L * Suc j \<le> ?L * n" using run(2) by (intro mult_le_mono2) simp
  then have s: "hat_inv c hmap hhdm h" "?L \<le> hat_avail h" using h(1) av by (auto simp: drawn_def)
  obtain h' where h': "map_page c hmap va pa 0 fl h = Inr h'" "hat_drawn c hmap hhdm ?L h h'"
    "\<forall>ind. hat_found c hmap h' ind = (if hat_found c hmap h (idx va) = None \<and> agree c 1 (idx va) ind then Some (final_pte c (of_nat pa) 1 fl, 1)
       else hat_found c hmap h ind)"
    using map_page_ok [OF s] by blast
  have same: "hat_found c hmap h (idx (b + PageSize * j)) = hat_found c hmap h0 (idx (b + PageSize * j))" using sets_pages_untouched [OF cf run h(2)] .
  have "hat_found c hmap h' ind = (if agree c 1 (idx (b + PageSize * j)) ind then kept_entry c hmap h0 b entry j else hat_found c hmap h ind)" for ind
    using h'(3) at same found_cong [of c "idx (b + PageSize * j)" ind "hs_mem h"] by (auto simp: kept_entry_def)
  then have "sets_pages c hmap b (Suc j) (kept_entry c hmap h0 b entry) h0 h'" by (intro sets_pages_Suc [OF cf run h(2)]) blast
  moreover have "hat_drawn c hmap hhdm (?L * Suc j) h0 h'" using drawn_trans [OF h(1) h'(2)] by (simp add: add.commute)
  ultimately show ?thesis using h'(1) by blast
qed

text \<open>What a byte of the pages translates to.\<close>

lemma pages_translate:
  assumes inv: "hat_inv c hmap hhdm h0" and run: "page_run c b n" and pages: "sets_pages c hmap b n entry h0 h"
    and x: "x < PageSize * n" and e: "entry (x div PageSize) = Some (final_pte c (of_nat pa) 1 fl, 1)"
  shows "HatGetMap c (hs_mem h) (hm_root hmap) (of_nat (b + x)) = Some ((of_nat pa AND addrMask c) OR of_nat (x mod PageSize), 0)"
proof -
  have cf: "cfg_ok c" "1 \<le> modeCount c" using inv by (auto simp: hat_inv_def cfg_ok_def)
  have p: "x div PageSize < n" "agree c 1 (idx (b + PageSize * (x div PageSize))) (idx (b + x))" using page_of [OF cf(1) run x] .
  have "(b + x) mod PageSize = x mod PageSize" using run by (auto simp: page_run_def mod_add_eq [symmetric])
  moreover have "hat_found c hmap h (idx (b + x)) = Some (final_pte c (of_nat pa) 1 fl, 1)" using pages p e by (simp only: sets_pages_def)
  ultimately show ?thesis
    by (simp only: HatGetMap_found option.map prod.case low_bits final_pte_facts(1) [OF cf(1) order_refl cf(2)]) simp
qed

subsection \<open>Files that are in the cache\<close>

text \<open>The positions from \<open>lo\<close> to \<open>hi\<close> of a file are in the units of its cache, which are in the order of their offsets.\<close>

definition in_cache :: "file_caches \<Rightarrow> nat \<Rightarrow> size_t rbt \<Rightarrow> size_t \<Rightarrow> size_t \<Rightarrow> bool" where
  "in_cache s ci T lo hi \<longleftrightarrow>
     (let U = fi_unitSize (fs_info s); t = fc_units (fs_caches s ! ci)
      in rb_rep t T \<and> offset_order U t (inord T) \<and> hi \<le> fc_length (fs_caches s ! ci) \<and> hi < size_limit \<and> PageSize dvd U \<and> 0 < U \<and> fi_hatMode (fs_info s) = 0 \<and>
         (\<forall>pos. lo \<le> pos \<and> pos < hi \<longrightarrow> (\<exists>u \<in> set (inord T). fu_offset (rb_data t u) = pos div U * U)))"

definition unit_for :: "file_caches \<Rightarrow> nat \<Rightarrow> size_t rbt \<Rightarrow> size_t \<Rightarrow> fcu" where
  "unit_for s ci T pos =
     (let U = fi_unitSize (fs_info s); t = fc_units (fs_caches s ! ci)
      in rb_data t (the (find (unit_at U (pos div U * U) t) (inord T))))"

text \<open>Where a position of the file is in physical memory.\<close>

definition file_phys :: "file_caches \<Rightarrow> nat \<Rightarrow> size_t rbt \<Rightarrow> size_t \<Rightarrow> size_t" where
  "file_phys s ci T pos = fu_physBase (unit_for s ci T pos) + pos mod fi_unitSize (fs_info s)"

lemma sorted_wrt_pair: "sorted_wrt P xs \<Longrightarrow> x \<in> set xs \<Longrightarrow> y \<in> set xs \<Longrightarrow> x \<noteq> y \<Longrightarrow> P x y \<or> P y x"
  by (induction xs) auto

lemma unit_for_ok:
  assumes c: "in_cache s ci T lo hi" and pos: "lo \<le> pos" "pos < hi"
  shows "fu_offset (unit_for s ci T pos) = pos div fi_unitSize (fs_info s) * fi_unitSize (fs_info s)"
    "GetFileCacheUnit opts phys addr (Some ci) pos s = Some (Some (the (find (unit_at (fi_unitSize (fs_info s)) (pos div fi_unitSize (fs_info s) * fi_unitSize (fs_info s)) (fc_units (fs_caches s ! ci))) (inord T))), s)"
    "\<not> unit_missing opts (Some ci) pos s"
proof -
  let ?U = "fi_unitSize (fs_info s)" and ?t = "fc_units (fs_caches s ! ci)"
  let ?off = "pos div ?U * ?U"
  have c': "rb_rep ?t T" "offset_order ?U ?t (inord T)" "hi \<le> fc_length (fs_caches s ! ci)" "hi < size_limit" "0 < ?U"
    using c by (simp_all add: in_cache_def Let_def)
  obtain u where u: "u \<in> set (inord T)" "fu_offset (rb_data ?t u) = ?off" using c pos by (auto simp: in_cache_def Let_def)
  have at: "unit_at ?U ?off ?t u" using u c'(5) by (simp add: unit_at_def)
  then obtain v where v: "find (unit_at ?U ?off ?t) (inord T) = Some v" using u(1) by (cases "find (unit_at ?U ?off ?t) (inord T)") (auto simp: find_None_iff)
  then have v': "v \<in> set (inord T)" "unit_at ?U ?off ?t v" by (auto simp: find_Some_iff)
  have "v = u"
  proof (rule ccontr)
    assume "v \<noteq> u"
    then have "fu_offset (rb_data ?t v) + ?U \<le> fu_offset (rb_data ?t u) \<or> fu_offset (rb_data ?t u) + ?U \<le> fu_offset (rb_data ?t v)"
      using sorted_wrt_pair [OF c'(2) [unfolded offset_order_def, THEN conjunct1] v'(1) u(1)] by blast
    then show False using at v'(2) by (auto simp: unit_at_def)
  qed
  then show "fu_offset (unit_for s ci T pos) = ?off" using v u(2) by (simp add: unit_for_def Let_def)
  have "?off \<le> pos" by simp
  then have small: "?off < fc_length (fs_caches s ! ci)" "AlignDown pos ?U = ?off"
    using pos(2) c'(3,4) AlignDown_plain [of pos ?U] by linarith+
  have root: "rb_root ?t = ptr T" using c'(1) by (simp add: rb_rep_def zip_ok_def)
  have "find_unit ?U ?off (rb_root ?t) ?t = Some (Some v)"
    using find_unit_ok [of ?t T "[]" ?U ?off] c'(1,2) v by (simp add: rb_rep_def root)
  then show "GetFileCacheUnit opts phys addr (Some ci) pos s = Some (Some (the (find (unit_at ?U ?off ?t) (inord T))), s)"
    "\<not> unit_missing opts (Some ci) pos s"
    using small v by (simp_all add: GetFileCacheUnit_def unit_missing_def Let_def)
qed

lemma cache_unit_hit:
  assumes "in_cache (vf_files (fw_vfs w)) ci T lo hi" and "lo \<le> pos" and "pos < hi"
  shows "cache_unit (Some ci) pos w = Inr (Some (unit_for (vf_files (fw_vfs w)) ci T pos), w\<lparr> fw_fresh := fw_fresh w + 1 \<rparr>)"
  using unit_for_ok [OF assms] by (simp add: cache_unit_def Let_def unit_for_def)

subsection \<open>Attaching a file\<close>

definition attach_entry :: "hat_cfg \<Rightarrow> vm_flags \<Rightarrow> file_caches \<Rightarrow> nat \<Rightarrow> size_t rbt \<Rightarrow> size_t \<Rightarrow> nat \<Rightarrow> (u64 \<times> nat) option" where
  "attach_entry c flags s ci T off k =
     Some (final_pte c (of_nat (fu_physBase (unit_for s ci T (off + PageSize * k)) + PageSize * k mod fi_unitSize (fs_info s))) 1 (ConvertFlags flags), 1)"

lemma attach_loop_maps:
  assumes inv: "hat_inv c hmap hhdm (fw_hat w)" and run: "page_run c (rg_base r) n" "rg_length r = PageSize * n" and q: "qr_hatMode q = 0"
    and av: "pagingLevels c * n \<le> hat_avail (fw_hat w)"
    and cached: "in_cache (vf_files (fw_vfs w)) ci T off (off + PageSize * n)"
  shows "\<exists>stats' w'. run_loop (attach_step c hmap r (Some ci) (fs_info (vf_files (fw_vfs w))) q off) (rg_length r) 0 (stats, w) = Inr (stats', w') \<and>
    hat_drawn c hmap hhdm (pagingLevels c * n) (fw_hat w) (fw_hat w') \<and> fw_vfs w' = fw_vfs w \<and> fw_links w' = fw_links w \<and>
    sets_pages c hmap (rg_base r) n (kept_entry c hmap (fw_hat w) (rg_base r) (attach_entry c (rg_flags r) (vf_files (fw_vfs w)) ci T off)) (fw_hat w) (fw_hat w')"
proof -
  let ?s = "vf_files (fw_vfs w)" and ?b = "rg_base r"
  let ?U = "fi_unitSize (fs_info ?s)" and ?e = "attach_entry c (rg_flags r) ?s ci T off"
  let ?k = "kept_entry c hmap (fw_hat w) ?b ?e"
  let ?body = "attach_step c hmap r (Some ci) (fs_info ?s) q off"
  let ?P = "\<lambda>j (stats', w'). hat_drawn c hmap hhdm (pagingLevels c * j) (fw_hat w) (fw_hat w') \<and> fw_vfs w' = fw_vfs w \<and> fw_links w' = fw_links w \<and>
    sets_pages c hmap ?b j ?k (fw_hat w) (fw_hat w')"
  have small: "PageSize * n < size_limit" "off + PageSize * n < size_limit" using run(1) cached by (auto simp: page_run_def in_cache_def Let_def)
  have step: "\<exists>x'. ?body (PageSize * j) x = Inr (sz_add (PageSize * j) PageSize, x') \<and> ?P (Suc j) x'" if j: "j < n" and P: "?P j x" for j x
  proof -
    obtain st1 w1 where x: "x = (st1, w1)" by (cases x)
    have w1: "hat_drawn c hmap hhdm (pagingLevels c * j) (fw_hat w) (fw_hat w1)" "fw_vfs w1 = fw_vfs w" "fw_links w1 = fw_links w"
        "sets_pages c hmap ?b j ?k (fw_hat w) (fw_hat w1)" using P x by simp_all
    have "PageSize * j < PageSize * n" using j by simp
    then have pos: "off \<le> off + PageSize * j" "off + PageSize * j < off + PageSize * n" "sz_add off (PageSize * j) = off + PageSize * j"
      using small by (simp_all add: sz_add_def)
    define pa where "pa = fu_physBase (unit_for ?s ci T (off + PageSize * j)) + PageSize * j mod ?U"
    have unit: "cache_unit (Some ci) (off + PageSize * j) w1 = Inr (Some (unit_for ?s ci T (off + PageSize * j)), w1\<lparr> fw_fresh := fw_fresh w1 + 1 \<rparr>)"
      using cache_unit_hit [of w1 ci T] cached pos w1(2) by simp
    have e: "?e j = Some (final_pte c (of_nat (sz_add (fu_physBase (unit_for ?s ci T (off + PageSize * j))) (PageSize * j mod ?U))) 1 (ConvertFlags (rg_flags r)), 1)"
      by (simp only: attach_entry_def of_nat_sz_add)
    obtain h' where h': "map_page c hmap (sz_add ?b (PageSize * j)) (sz_add (fu_physBase (unit_for ?s ci T (off + PageSize * j))) (PageSize * j mod ?U)) 0
          (ConvertFlags (rg_flags r)) (fw_hat w1) = Inr h'"
        "hat_drawn c hmap hhdm (pagingLevels c * Suc j) (fw_hat w) h'" "sets_pages c hmap ?b (Suc j) ?k (fw_hat w) h'"
      using page_step [OF inv run(1) j av w1(1,4) of_nat_sz_add e] by blast
    show ?thesis
      using unit pos(3) h' w1(2,3) q by (simp add: x attach_step_def map_file_page_def Let_def)
  qed
  have start: "?P 0 (stats, w)" using inv by (simp add: drawn_refl)
  have "\<exists>x'. run_loop ?body (PageSize * n) 0 (stats, w) = Inr x' \<and> ?P n x'"
    by (rule run_loop_pages [where P = ?P]) (fact step, fact start, simp, fact small(1))
  then show ?thesis unfolding run(2) by auto
qed

text \<open>With another offset the pages are taken from the beginning of the unit and not from where the offset lies in it.\<close>

lemma attach_misplaced:
  assumes "PageSize dvd off" and "off mod fi_unitSize (fs_info s) \<noteq> 0"
  shows "attach_entry c flags s ci T off 0 = Some (final_pte c (of_nat (fu_physBase (unit_for s ci T off))) 1 (ConvertFlags flags), 1)"
    "file_phys s ci T off \<noteq> fu_physBase (unit_for s ci T off)"
  using assms by (simp_all add: attach_entry_def file_phys_def)

subsection \<open>A small machine\<close>

definition small_file :: vfs_id where
  "small_file = \<lparr> vi_driver = 1, vi_vnode = 2 \<rparr>"

definition small_units :: fcu_tree where
  "small_units = \<lparr> rb_root = Some 0x500, rb_hooks = (\<lambda>_. lone_hook),
     rb_data = (\<lambda>_. \<lparr> fu_refs = 1, fu_owner = Some 0, fu_physBase = 0x20000, fu_offset = 0, fu_writable = True, fu_dirty = False \<rparr>) \<rparr>"

definition small_files :: file_caches where
  "small_files = \<lparr> fs_info = \<lparr> fi_unitSize = 0x4000, fi_hatMode = 0, fi_modeMultiple = 4 \<rparr>,
     fs_caches = [\<lparr> fc_refs = 1, fc_id = small_file, fc_length = 0x4000, fc_units = small_units \<rparr>], fs_links = (\<lambda>_. None) \<rparr>"

definition small_vfs :: "tfs_data vfs" where
  "small_vfs = \<lparr> vf_drivers = (\<lambda>_. None), vf_is_fs = (\<lambda>_. False),
     vf_nodes = [\<lparr> vn_refs = 1, vn_type = N_File, vn_cache = Some 0, vn_vid = small_file, vn_bond = no_id, vn_busy = False \<rparr>],
     vf_mounts = [], vf_root = no_id, vf_files = small_files \<rparr>"

definition small_world :: "tfs_data file_world" where
  "small_world = \<lparr> fw_hat = small_hat, fw_vfs = small_vfs,
     fw_links = (\<lambda>t. if t = 7 then Some \<lparr> vl_node = small_file, vl_fileOffset = 0x1000, vl_isReadonly = False, vl_isPrivate = False \<rparr> else None), fw_fresh = 9 \<rparr>"

definition file_range :: vm_range where
  "file_range = \<lparr> rg_base = 0x400000, rg_length = 0x2000, rg_flags = flags_of 26, rg_offset = 0, rg_token = 7, rg_mdlCount = 0 \<rparr>"

lemma small_node: "GetVfsNode tempfs_api small_file True small_vfs = Inr (Some 0, acquire 0 small_vfs)"
  by (simp add: GetVfsNode_def GetVfsNodeInternal_def small_vfs_def small_file_def acquire_def Vfs.upd_node_def)

lemma small_cached: "in_cache small_files 0 (Bin Black Tip 0x500 Tip) lo (lo + 0x2000)" if "lo \<le> 0x2000"
proof -
  have rep: "rb_rep small_units (Bin Black Tip 0x500 Tip)"
    by (simp add: small_units_def rb_rep_def zip_ok_def rb_ok_def lone_hook_def hd_or_def)
  have "pos div 0x4000 * 0x4000 = 0" if "pos < lo + 0x2000" for pos :: nat using that \<open>lo \<le> 0x2000\<close> by simp
  then show ?thesis using rep that unfolding in_cache_def Let_def by (auto simp: small_files_def offset_order_def size_limit_def small_units_def dvd_def)
qed

lemma file_range_ok:
  "page_run demo_cfg (rg_base file_range) 2" "rg_length file_range = PageSize * 2"
  "pagingLevels demo_cfg * 2 \<le> hat_avail (fw_hat small_world)"
  "\<forall>i < 2. HatGetMap demo_cfg (hs_mem (fw_hat small_world)) (hm_root demo_map) (of_nat (rg_base file_range + PageSize * i)) = None"
  by (simp_all add: small_world_def small_ok demo_simps)
    (simp_all add: file_range_def page_run_def span_def demo_simps size_limit_def dvd_def HatGetMap_def WalkTables_def demo_walk small_hat_def)

text \<open>C15: Attaching a file at once, which \<open>Attach\<close> does when the driver runs without its fault handler or the caller asks for
  it with \<open>noDeferBacking\<close> (else \<open>Attach\<close> maps nothing and the faults do, see \<open>vfs_fault_translates\<close>), to pages that are not mapped
  succeeds if that part of the file is in the cache and the offset is a multiple of the size of a cache unit: every byte of the range
  then translates to the byte of the physical memory that holds the byte of the file at the same distance from the offset.\<close>

theorem vfs_attach_translates:
  assumes "hat_inv c hmap hhdm (fw_hat w)" "page_run c (rg_base r) n" "rg_length r = PageSize * n" "qr_hatMode q = 0"
    "pagingLevels c * n \<le> hat_avail (fw_hat w)"
    "\<forall>i < n. HatGetMap c (hs_mem (fw_hat w)) (hm_root hmap) (of_nat (rg_base r + PageSize * i)) = None"
    "vi_driver (va_id arg) \<noteq> 0" "GetVfsNode api (va_id arg) True (fw_vfs w) = Inr (Some h, s)"
    "vn_type (vf_nodes s ! h) = N_File" "vn_cache (vf_nodes s ! h) = Some ci"
    "in_cache (vf_files s) ci T (va_offset arg) (va_offset arg + PageSize * n)"
    "\<not> faultHandler \<or> va_noDeferBacking arg" "fi_unitSize (fs_info (vf_files s)) dvd va_offset arg"
  shows "\<exists>result stats' w'. vfsdrv_Attach api c hmap faultHandler r q arg stats w = Inr (result, stats', w') \<and> ar_success result \<and>
    hat_inv c hmap hhdm (fw_hat w') \<and> fw_vfs w' = release h s \<and>
    fw_links w' (ar_token result) = Some \<lparr> vl_node = va_id arg, vl_fileOffset = va_offset arg, vl_isReadonly = \<not> Has (rg_flags r) VmWrite, vl_isPrivate = False \<rparr> \<and>
    (\<forall>x < rg_length r. HatGetMap c (hs_mem (fw_hat w')) (hm_root hmap) (of_nat (rg_base r + x)) =
       Some ((of_nat (file_phys (vf_files s) ci T (va_offset arg + PageSize * (x div PageSize))) AND addrMask c) OR of_nat (x mod PageSize), 0))"
proof -
  let ?off = "va_offset arg" and ?f = "vf_files s" and ?t = "fw_fresh w"
  let ?link = "\<lparr> vl_node = va_id arg, vl_fileOffset = ?off, vl_isReadonly = \<not> Has (rg_flags r) VmWrite, vl_isPrivate = False \<rparr>"
  define w2 where "w2 = w\<lparr> fw_vfs := s, fw_links := (fw_links w)(?t := Some ?link), fw_fresh := ?t + 1 \<rparr>"
  define stats2 where "stats2 = stats\<lparr> st_fileWorkingSize := sz_add (st_fileWorkingSize stats) (sz_sub (rg_length r) (?off mod PageSize)) \<rparr>"
  have w2: "fw_hat w2 = fw_hat w" "fw_vfs w2 = s" "fw_links w2 ?t = Some ?link" by (simp_all add: w2_def)
  have free: "\<forall>i < n. hat_found c hmap (fw_hat w) (idx (rg_base r + PageSize * i)) = None" using assms(6) by (simp add: HatGetMap_found)
  obtain stats' w' where l: "run_loop (attach_step c hmap r (Some ci) (fs_info ?f) q ?off) (rg_length r) 0 (stats2, w2) = Inr (stats', w')"
      "hat_drawn c hmap hhdm (pagingLevels c * n) (fw_hat w) (fw_hat w')" "fw_vfs w' = s" "fw_links w' = fw_links w2"
      "sets_pages c hmap (rg_base r) n (kept_entry c hmap (fw_hat w) (rg_base r) (attach_entry c (rg_flags r) ?f ci T ?off)) (fw_hat w) (fw_hat w')"
    using attach_loop_maps [of c hmap hhdm w2 r n q ci T ?off stats2] assms(1-5,11) w2 by auto
  have "vfsdrv_Attach api c hmap faultHandler r q arg stats w =
      Inr (\<lparr> ar_token = ?t, ar_offset = ?off mod PageSize, ar_success = True \<rparr>, stats', w'\<lparr> fw_vfs := release h s \<rparr>)"
    using assms(4,7-10,12) l(1,3) [unfolded w2_def stats2_def]
    by (auto simp: vfsdrv_Attach_def arg_file_def with_file_def Let_def GetFileCacheInfo_def)
  moreover have "HatGetMap c (hs_mem (fw_hat w')) (hm_root hmap) (of_nat (rg_base r + x)) =
      Some ((of_nat (file_phys ?f ci T (?off + PageSize * (x div PageSize))) AND addrMask c) OR of_nat (x mod PageSize), 0)"
    if x: "x < rg_length r" for x
  proof -
    have "(?off + PageSize * (x div PageSize)) mod fi_unitSize (fs_info ?f) = PageSize * (x div PageSize) mod fi_unitSize (fs_info ?f)"
      using assms(13) by (metis dvd_imp_mod_0 mod_add_left_eq add_0)
    then have "attach_entry c (rg_flags r) ?f ci T ?off (x div PageSize) =
        Some (final_pte c (of_nat (file_phys ?f ci T (?off + PageSize * (x div PageSize)))) 1 (ConvertFlags (rg_flags r)), 1)"
      by (simp only: attach_entry_def file_phys_def)
    moreover have "x div PageSize < n" using x assms(3) by (simp add: div_less_iff_less_mult mult.commute)
    ultimately have "kept_entry c hmap (fw_hat w) (rg_base r) (attach_entry c (rg_flags r) ?f ci T ?off) (x div PageSize) =
        Some (final_pte c (of_nat (file_phys ?f ci T (?off + PageSize * (x div PageSize)))) 1 (ConvertFlags (rg_flags r)), 1)"
      using free by (simp add: kept_entry_def)
    from pages_translate [OF assms(1,2) l(5) _ this] x assms(3) show ?thesis by simp
  qed
  ultimately show ?thesis using l(2,4) w2(3) by (auto simp: drawn_def)
qed

theorem vfs_attach_translates_witness:
  "\<exists>result stats' w'. vfsdrv_Attach tempfs_api demo_cfg demo_map True file_range \<lparr> qr_alignment = PageSize, qr_length = 0x2000, qr_hatMode = 0, qr_success = True \<rparr>
       \<lparr> va_filepath = [], va_id = small_file, va_offset = 0, va_noDeferBacking = True \<rparr> (vm_stats small_vmm) small_world = Inr (result, stats', w') \<and>
     HatGetMap demo_cfg (hs_mem (fw_hat w')) 0x1000 0x401123 = Some (0x21123, 0)"
proof -
  let ?q = "\<lparr> qr_alignment = PageSize, qr_length = 0x2000, qr_hatMode = 0, qr_success = True \<rparr>"
  let ?arg = "\<lparr> va_filepath = [], va_id = small_file, va_offset = 0, va_noDeferBacking = True \<rparr>"
  have inv: "hat_inv demo_cfg demo_map 0x100000 (fw_hat small_world)" using small_ok(1) by (simp add: small_world_def)
  have node: "GetVfsNode tempfs_api (va_id ?arg) True (fw_vfs small_world) = Inr (Some 0, acquire 0 small_vfs)" "vi_driver (va_id ?arg) \<noteq> 0"
    using small_node by (simp_all add: small_world_def small_file_def)
  have nd: "vn_type (vf_nodes (acquire 0 small_vfs) ! 0) = N_File" "vn_cache (vf_nodes (acquire 0 small_vfs) ! 0) = Some 0" "vf_files (acquire 0 small_vfs) = small_files"
    by (simp_all add: acquire_def Vfs.upd_node_def small_vfs_def)
  have cached: "in_cache (vf_files (acquire 0 small_vfs)) 0 (Bin Black Tip 0x500 Tip) (va_offset ?arg) (va_offset ?arg + PageSize * 2)"
    using small_cached [of 0] nd(3) by simp
  obtain result stats' w' where a: "vfsdrv_Attach tempfs_api demo_cfg demo_map True file_range ?q ?arg (vm_stats small_vmm) small_world = Inr (result, stats', w')"
    "\<forall>x < rg_length file_range. HatGetMap demo_cfg (hs_mem (fw_hat w')) (hm_root demo_map) (of_nat (rg_base file_range + x)) =
       Some ((of_nat (file_phys small_files 0 (Bin Black Tip 0x500 Tip) (va_offset ?arg + PageSize * (x div PageSize))) AND addrMask demo_cfg) OR of_nat (x mod PageSize), 0)"
    using vfs_attach_translates [OF inv file_range_ok(1,2) _ file_range_ok(3,4) node(2,1) nd(1,2) cached, of ?q True "vm_stats small_vmm"] nd(3) by auto
  have "file_phys small_files 0 (Bin Black Tip 0x500 Tip) 0x1000 = 0x21000"
    by (simp add: file_phys_def unit_for_def small_files_def small_units_def)
  with a(2) [rule_format, of "0x1123"] have "HatGetMap demo_cfg (hs_mem (fw_hat w')) 0x1000 0x401123 = Some (0x21123, 0)"
    by (simp add: file_range_def demo_simps)
  with a(1) show ?thesis by blast
qed

subsection \<open>Faults\<close>

text \<open>The unit in use also holds the next page, unless that page starts a unit.\<close>

lemma same_block:
  fixes p d U :: nat
  assumes "d dvd p" and "d dvd U" and "p mod U \<noteq> 0"
  shows "(p - d) div U = p div U"
proof (cases "U = 0")
  case False
  have "d dvd p mod U" using assms(1,2) by (simp add: dvd_mod)
  then have d: "d \<le> p mod U" using assms(3) by (simp add: dvd_imp_le)
  have "p - d = (p mod U - d) + U * (p div U)" using d div_mult_mod_eq [of p U] by (simp add: mult.commute)
  moreover have "p mod U < U" using False by simp
  then have "p mod U - d < U" by linarith
  ultimately show ?thesis using False by simp
qed simp

definition fault_entry :: "hat_cfg \<Rightarrow> vm_flags \<Rightarrow> file_caches \<Rightarrow> nat \<Rightarrow> size_t rbt \<Rightarrow> size_t \<Rightarrow> nat \<Rightarrow> (u64 \<times> nat) option" where
  "fault_entry c flags s ci T pos k = Some (final_pte c (of_nat (file_phys s ci T (pos + PageSize * k))) 1 (ConvertFlags flags), 1)"

lemma fault_loop_maps:
  assumes inv: "hat_inv c hmap hhdm (fw_hat w)" and run: "page_run c (rg_base r + mo) n"
    and av: "pagingLevels c * n \<le> hat_avail (fw_hat w)"
    and cached: "in_cache (vf_files (fw_vfs w)) ci T (mo + fo) (mo + fo + PageSize * n)" and pages: "PageSize dvd mo" "PageSize dvd fo"
  shows "\<exists>u stats' w'. run_loop (fault_step c hmap r (Some ci) (fs_info (vf_files (fw_vfs w))) mo fo (PageSize * n)) (PageSize * n) 0
      ((True, unit_for (vf_files (fw_vfs w)) ci T (mo + fo)), stats, w) = Inr ((True, u), stats', w') \<and>
    hat_drawn c hmap hhdm (pagingLevels c * n) (fw_hat w) (fw_hat w') \<and> fw_vfs w' = fw_vfs w \<and> fw_links w' = fw_links w \<and>
    sets_pages c hmap (rg_base r + mo) n (kept_entry c hmap (fw_hat w) (rg_base r + mo) (fault_entry c (rg_flags r) (vf_files (fw_vfs w)) ci T (mo + fo))) (fw_hat w) (fw_hat w')"
proof -
  let ?s = "vf_files (fw_vfs w)" and ?b = "rg_base r + mo"
  let ?U = "fi_unitSize (fs_info ?s)" and ?e = "fault_entry c (rg_flags r) ?s ci T (mo + fo)" and ?u = "unit_for ?s ci T"
  let ?k = "kept_entry c hmap (fw_hat w) ?b ?e"
  let ?body = "fault_step c hmap r (Some ci) (fs_info ?s) mo fo (PageSize * n)"
  let ?P = "\<lambda>j ((good, u), stats', w'). good \<and> u = ?u (mo + fo + PageSize * (j - 1)) \<and>
    hat_drawn c hmap hhdm (pagingLevels c * j) (fw_hat w) (fw_hat w') \<and> fw_vfs w' = fw_vfs w \<and> fw_links w' = fw_links w \<and>
    sets_pages c hmap ?b j ?k (fw_hat w) (fw_hat w')"
  have small: "PageSize * n < size_limit" "mo + fo + PageSize * n < size_limit" "PageSize dvd ?U" "fi_hatMode (fs_info ?s) = 0" "rg_base r + mo + PageSize * n < size_limit"
    using run(1) cached by (auto simp: page_run_def in_cache_def Let_def)
  have step: "\<exists>x'. ?body (PageSize * j) x = Inr (sz_add (PageSize * j) PageSize, x') \<and> ?P (Suc j) x'" if j: "j < n" and P: "?P j x" for j x
  proof -
    obtain u1 st1 w1 where x: "x = ((True, u1), st1, w1)" using P by (cases x) auto
    have w1: "u1 = ?u (mo + fo + PageSize * (j - 1))" "hat_drawn c hmap hhdm (pagingLevels c * j) (fw_hat w) (fw_hat w1)" "fw_vfs w1 = fw_vfs w"
        "fw_links w1 = fw_links w" "sets_pages c hmap ?b j ?k (fw_hat w) (fw_hat w1)" using P x by simp_all
    let ?pos = "mo + fo + PageSize * j"
    have "PageSize * j < PageSize * n" using j by simp
    then have pos: "mo + fo \<le> ?pos" "?pos < mo + fo + PageSize * n" "sz_add (sz_add mo (PageSize * j)) fo = ?pos" "sz_add (sz_add (PageSize * j) mo) fo = ?pos"
        "sz_add (sz_add (rg_base r) mo) (PageSize * j) = ?b + PageSize * j"
      using small by (simp_all add: sz_add_def)
    have unit: "cache_unit (Some ci) ?pos w1 = Inr (Some (?u ?pos), w1\<lparr> fw_fresh := fw_fresh w1 + 1 \<rparr>)"
      using cache_unit_hit [of w1 ci T] cached pos w1(3) by simp
    have keep: "u1 = ?u ?pos" if "?pos mod ?U \<noteq> 0"
    proof (cases j)
      case 0
      then show ?thesis using w1(1) by simp
    next
      case (Suc k)
      have "(?pos - PageSize) div ?U = ?pos div ?U" using same_block [OF _ small(3) that] pages by simp
      moreover have "?pos - PageSize = mo + fo + PageSize * (j - 1)" using Suc by simp
      ultimately show ?thesis using w1(1) by (simp add: unit_for_def Let_def)
    qed
    define pa where "pa = sz_add (fu_physBase (?u ?pos)) (?pos mod ?U)"
    have e: "?e j = Some (final_pte c (of_nat pa) 1 (ConvertFlags (rg_flags r)), 1)"
      by (simp only: fault_entry_def file_phys_def of_nat_sz_add pa_def)
    obtain h' where h': "map_page c hmap (?b + PageSize * j) pa 0 (ConvertFlags (rg_flags r)) (fw_hat w1) = Inr h'"
        "hat_drawn c hmap hhdm (pagingLevels c * Suc j) (fw_hat w) h'" "sets_pages c hmap ?b (Suc j) ?k (fw_hat w) h'"
      using page_step [OF inv run(1) j av w1(2,5) refl e] by blast
    show ?thesis
      using unit pos(3-5) h' w1(3,4) small(4) keep by (cases "?pos mod ?U = 0") (simp_all add: x fault_step_def map_file_page_def Let_def pa_def)
  qed
  have start: "?P 0 ((True, ?u (mo + fo)), stats, w)" using inv by (simp add: drawn_refl)
  have "\<exists>x'. run_loop ?body (PageSize * n) 0 ((True, ?u (mo + fo)), stats, w) = Inr x' \<and> ?P n x'"
    by (rule run_loop_pages [where P = ?P]) (fact step, fact start, simp, fact small(1))
  then show ?thesis by fastforce
qed

text \<open>Pages that were mapped before still translate as they did.\<close>

lemma kept_translations:
  assumes "sets_pages c hmap b n (kept_entry c hmap h0 b entry) h0 h" and "hat_found c hmap h0 ind \<noteq> None"
  shows "hat_found c hmap h ind = hat_found c hmap h0 ind"
proof (cases "\<exists>i < n. agree c 1 (idx (b + PageSize * i)) ind")
  case True
  then obtain i where i: "i < n" "agree c 1 (idx (b + PageSize * i)) ind" by blast
  have "hat_found c hmap h0 (idx (b + PageSize * i)) = hat_found c hmap h0 ind" by (rule found_cong [OF i(2)])
  then have "kept_entry c hmap h0 b entry i = hat_found c hmap h0 ind" unfolding kept_entry_def using assms(2) by presburger
  moreover have "hat_found c hmap h ind = kept_entry c hmap h0 b entry i" using assms(1) i unfolding sets_pages_def by blast
  ultimately show ?thesis by (rule trans [rotated])
qed (use assms(1) in \<open>auto simp: sets_pages_def\<close>)

text \<open>C16: A fault at a page that is not mapped, in a range that shows a file whose contents are in the cache, is handled: the
  byte at which the access happened then translates to the byte of the file, at whatever page of the file the range begins, and
  all addresses that were mapped before, in this range or elsewhere, translate as they did.\<close>

theorem vfs_fault_translates:
  assumes "hat_inv c hmap hhdm (fw_hat w)" "page_run c (rg_base r) N" "rg_length r = PageSize * N" "2 * pagingLevels c \<le> hat_avail (fw_hat w)"
    "rg_base r \<le> addr" "addr < rg_base r + rg_length r" "fw_links w (rg_token r) = Some link"
    "HatGetMap c (hs_mem (fw_hat w)) (hm_root hmap) (of_nat addr) = None"
    "GetVfsNode api (vl_node link) True (fw_vfs w) = Inr (Some h, s)" "vn_cache (vf_nodes s ! h) = Some ci"
    "in_cache (vf_files s) ci T (vl_fileOffset link) (vl_fileOffset link + rg_length r)" "PageSize dvd vl_fileOffset link"
  shows "\<exists>stats' w'. vfsdrv_HandleFault api c hmap r addr stats w = Inr (True, stats', w') \<and> hat_inv c hmap hhdm (fw_hat w') \<and>
    HatGetMap c (hs_mem (fw_hat w')) (hm_root hmap) (of_nat addr) =
      Some ((of_nat (file_phys (vf_files s) ci T (vl_fileOffset link + PageSize * ((addr - rg_base r) div PageSize))) AND addrMask c)
        OR of_nat (addr mod PageSize), 0) \<and>
    (\<forall>x. HatGetMap c (hs_mem (fw_hat w)) (hm_root hmap) (of_nat x) \<noteq> None \<longrightarrow>
      HatGetMap c (hs_mem (fw_hat w')) (hm_root hmap) (of_nat x) = HatGetMap c (hs_mem (fw_hat w)) (hm_root hmap) (of_nat x))"
proof -
  let ?b = "rg_base r" and ?fo = "vl_fileOffset link" and ?f = "vf_files s"
  define k where "k = (addr - ?b) div PageSize"
  define n where "n = min 2 (N - k)"
  have b: "PageSize dvd ?b" "?b + PageSize * N < size_limit" "N \<le> span c" using assms(2) by (auto simp: page_run_def)
  have k: "k < N" using assms(3,5,6) by (simp add: k_def div_less_iff_less_mult mult.commute less_diff_conv2)
  then have n: "0 < n" "n \<le> 2" "k + n \<le> N" by (auto simp: n_def)
  have addr: "addr = ?b + PageSize * k + addr mod PageSize" "addr < size_limit"
  proof -
    have "(?b + (addr - ?b)) mod PageSize = (addr - ?b) mod PageSize" using b(1) by (elim dvdE) simp
    then have "addr mod PageSize = (addr - ?b) mod PageSize" using assms(5) by simp
    then show "addr = ?b + PageSize * k + addr mod PageSize" using assms(5) mult_div_mod_eq [of PageSize "addr - ?b"] by (simp only: k_def) linarith
    show "addr < size_limit" using assms(3,6) b(2) by simp
  qed
  have down: "AlignDown addr PageSize = ?b + PageSize * k"
  proof -
    have "addr div PageSize * PageSize = addr - addr mod PageSize" by (simp add: minus_mod_eq_div_mult)
    then show ?thesis using AlignDown_plain [OF addr(2), of PageSize] addr(1) by linarith
  qed
  have kN: "PageSize * k < PageSize * N" using k by simp
  have mo: "sz_sub (?b + PageSize * k) ?b = PageSize * k" using b(2) kN by (simp add: sz_simps)
  have len: "min vfs_FaultMaxMapAhead (sz_sub (Top r) (?b + PageSize * k)) = PageSize * n"
  proof -
    have "Top r = ?b + PageSize * N" using b(2) assms(3) by (simp add: Top_def sz_simps)
    then have "sz_sub (Top r) (?b + PageSize * k) = PageSize * (N - k)" using b(2) kN by (simp add: sz_simps diff_mult_distrib2)
    then show ?thesis by (auto simp: vfs_FaultMaxMapAhead_def n_def min_def)
  qed
  have run: "page_run c (?b + PageSize * k) n" using b n by (auto simp: page_run_def)
  define w1 where "w1 = w\<lparr> fw_vfs := s \<rparr>"
  have "PageSize * k + ?fo + PageSize * n \<le> ?fo + rg_length r" using mult_le_mono2 [OF n(3), of PageSize] assms(3) by (simp add: distrib_left)
  then have cache: "in_cache ?f ci T (PageSize * k + ?fo) (PageSize * k + ?fo + PageSize * n)" using assms(11) unfolding in_cache_def Let_def by auto
  have pos: "PageSize * k + ?fo \<le> PageSize * k + ?fo" "PageSize * k + ?fo < PageSize * k + ?fo + PageSize * n" using n(1) by simp_all
  have "fi_hatMode (fs_info ?f) = 0" "sz_add (PageSize * k) ?fo = PageSize * k + ?fo" using cache by (auto simp: in_cache_def Let_def sz_add_def)
  note facts = this
  define w2 where "w2 = w1\<lparr> fw_fresh := fw_fresh w1 + 1 \<rparr>"
  have hit: "cache_unit (Some ci) (PageSize * k + ?fo) w1 = Inr (Some (unit_for ?f ci T (PageSize * k + ?fo)), w2)"
    using cache_unit_hit [of w1 ci T, OF _ pos] cache by (simp add: w1_def w2_def)
  have w2: "fw_hat w2 = fw_hat w" "fw_vfs w2 = s" by (simp_all add: w1_def w2_def)
  have free: "hat_found c hmap (fw_hat w) (idx (?b + PageSize * k)) = None"
  proof -
    have "addr mod PageSize < PageSize * n" using n(1) by (intro less_le_trans [OF mod_less_divisor]) simp_all
    then have "agree c 1 (idx (?b + PageSize * k + PageSize * (addr mod PageSize div PageSize))) (idx (?b + PageSize * k + addr mod PageSize))"
      using page_of(2) [OF _ run] assms(1) unfolding hat_inv_def by blast
    moreover have "?b + PageSize * k + PageSize * (addr mod PageSize div PageSize) = ?b + PageSize * k" by simp
    ultimately have "agree c 1 (idx (?b + PageSize * k)) (idx addr)" using addr(1) by metis
    from found_cong [OF this] assms(8) show ?thesis by (simp add: HatGetMap_found)
  qed
  have av: "pagingLevels c * n \<le> hat_avail (fw_hat w)" by (rule order_trans [OF mult_le_mono2 [OF n(2)]]) (use assms(4) in \<open>simp add: mult.commute\<close>)
  obtain u stats' w' where l: "run_loop (fault_step c hmap r (Some ci) (fs_info ?f) (PageSize * k) ?fo (PageSize * n)) (PageSize * n) 0
      ((True, unit_for ?f ci T (PageSize * k + ?fo)), stats, w2) = Inr ((True, u), stats', w')" "hat_drawn c hmap hhdm (pagingLevels c * n) (fw_hat w) (fw_hat w')"
      "sets_pages c hmap (?b + PageSize * k) n (kept_entry c hmap (fw_hat w) (?b + PageSize * k) (fault_entry c (rg_flags r) ?f ci T (PageSize * k + ?fo))) (fw_hat w) (fw_hat w')"
    using fault_loop_maps [of c hmap hhdm w2 r "PageSize * k" n ci T ?fo stats] assms(1,12) run av cache w2 by auto
  have "vfsdrv_HandleFault api c hmap r addr stats w = Inr (True, stats', w'\<lparr> fw_vfs := release h (fw_vfs w') \<rparr>)"
    using assms(7,9,10) hit [unfolded w1_def] l(1) facts
    by (simp add: vfsdrv_HandleFault_def with_file_def Let_def GetFileCacheInfo_def down mo len)
  moreover have g: "HatGetMap c (hs_mem (fw_hat w')) (hm_root hmap) (of_nat (?b + PageSize * k + addr mod PageSize)) =
      Some ((of_nat (file_phys ?f ci T (PageSize * k + ?fo)) AND addrMask c) OR of_nat (addr mod PageSize mod PageSize), 0)"
  proof (rule pages_translate [OF assms(1) run l(3)])
    show "addr mod PageSize < PageSize * n" using n(1) by (intro less_le_trans [OF mod_less_divisor]) simp_all
    show "kept_entry c hmap (fw_hat w) (?b + PageSize * k) (fault_entry c (rg_flags r) ?f ci T (PageSize * k + ?fo)) (addr mod PageSize div PageSize) =
        Some (final_pte c (of_nat (file_phys ?f ci T (PageSize * k + ?fo))) 1 (ConvertFlags (rg_flags r)), 1)"
      using free by (simp add: fault_entry_def kept_entry_def)
  qed
  have "HatGetMap c (hs_mem (fw_hat w')) (hm_root hmap) (of_nat addr) =
      Some ((of_nat (file_phys ?f ci T (?fo + PageSize * k)) AND addrMask c) OR of_nat (addr mod PageSize), 0)"
    using g [folded addr(1)] by (simp only: mod_mod_trivial add.commute)
  moreover have "HatGetMap c (hs_mem (fw_hat w')) (hm_root hmap) (of_nat x) = HatGetMap c (hs_mem (fw_hat w)) (hm_root hmap) (of_nat x)"
    if "HatGetMap c (hs_mem (fw_hat w)) (hm_root hmap) (of_nat x) \<noteq> None" for x
  proof -
    have "hat_found c hmap (fw_hat w) (idx x) \<noteq> None" using that by (auto simp: HatGetMap_found)
    from kept_translations [OF l(3) this] show ?thesis by (simp only: HatGetMap_found)
  qed
  ultimately show ?thesis using l(2) by (auto simp: drawn_def k_def)
qed

theorem vfs_fault_translates_witness:
  "\<exists>stats' w'. vfsdrv_HandleFault tempfs_api demo_cfg demo_map file_range 0x401123 (vm_stats small_vmm) small_world = Inr (True, stats', w') \<and>
     HatGetMap demo_cfg (hs_mem (fw_hat w')) 0x1000 0x401123 = Some (0x22123, 0)"
proof -
  let ?link = "\<lparr> vl_node = small_file, vl_fileOffset = 0x1000, vl_isReadonly = False, vl_isPrivate = False \<rparr>"
  have inv: "hat_inv demo_cfg demo_map 0x100000 (fw_hat small_world)" using small_ok(1) by (simp add: small_world_def)
  have link: "fw_links small_world (rg_token file_range) = Some ?link" "rg_base file_range \<le> 0x401123" "0x401123 < rg_base file_range + rg_length file_range"
    "2 * pagingLevels demo_cfg \<le> hat_avail (fw_hat small_world)" "PageSize dvd vl_fileOffset ?link"
    using small_ok(2) by (simp_all add: small_world_def file_range_def demo_simps)
  have node: "GetVfsNode tempfs_api (vl_node ?link) True (fw_vfs small_world) = Inr (Some 0, acquire 0 small_vfs)"
    using small_node by (simp add: small_world_def)
  have unmapped: "HatGetMap demo_cfg (hs_mem (fw_hat small_world)) (hm_root demo_map) (of_nat 0x401123) = None"
    by (simp add: small_world_def page_run_def span_def demo_simps HatGetMap_def WalkTables_def demo_walk small_hat_def)
  have nd: "vn_cache (vf_nodes (acquire 0 small_vfs) ! 0) = Some 0" "vf_files (acquire 0 small_vfs) = small_files"
    by (simp_all add: acquire_def Vfs.upd_node_def small_vfs_def)
  have cached: "in_cache (vf_files (acquire 0 small_vfs)) 0 (Bin Black Tip 0x500 Tip) (vl_fileOffset ?link) (vl_fileOffset ?link + rg_length file_range)"
    using small_cached [of "0x1000"] nd(2) by (simp add: file_range_def)
  obtain stats' w' where a: "vfsdrv_HandleFault tempfs_api demo_cfg demo_map file_range 0x401123 (vm_stats small_vmm) small_world = Inr (True, stats', w')"
    "HatGetMap demo_cfg (hs_mem (fw_hat w')) (hm_root demo_map) (of_nat 0x401123) =
       Some ((of_nat (file_phys small_files 0 (Bin Black Tip 0x500 Tip) (vl_fileOffset ?link + PageSize * ((0x401123 - rg_base file_range) div PageSize)))
         AND addrMask demo_cfg) OR of_nat (0x401123 mod PageSize), 0)"
    using vfs_fault_translates [OF inv file_range_ok(1,2) link(4,2,3,1) unmapped node nd(1) cached link(5), of "vm_stats small_vmm"] nd(2) by auto
  have "file_phys small_files 0 (Bin Black Tip 0x500 Tip) 0x2000 = 0x22000"
    by (simp add: file_phys_def unit_for_def small_files_def small_units_def)
  with a(2) have "HatGetMap demo_cfg (hs_mem (fw_hat w')) 0x1000 0x401123 = Some (0x22123, 0)"
    by (simp add: file_range_def demo_simps)
  with a(1) show ?thesis by blast
qed

end
