(* ===== verification/Tar.thy ===== *)
theory Tar
  imports Syslib_Maths Syslib_Memory
begin

text \<open>
  \<open>libs/np-syslib/formats/Tar.cpp\<close>, and the walk over an archive in \<open>kernel/filesystem/InitDisk.cpp\<close>. A header is the
  address of its 512 bytes in memory. The walk calls \<open>load\<close> for every file; it is partial, as a
  size that wraps around could send it back.
\<close>

unbundle bit_operations_syntax

subsection \<open>Headers\<close>

definition TarBlockSize :: size_t where
  "TarBlockSize = 512"

datatype TarEntryType = Tar_Unknown | Tar_File | Tar_Directory

fun read_number :: "memory \<Rightarrow> size_t \<Rightarrow> nat \<Rightarrow> nat \<Rightarrow> u64 \<Rightarrow> u64" where
  "read_number m src i 0 res = res"
| "read_number m src i (Suc n) res =
     (if m (src + i) \<noteq> 0 then read_number m src (i + 1) n (push_bit 3 res OR word_of_int (uint (m (src + i)) - 48)) else res)"

definition ReadNumber :: "memory \<Rightarrow> size_t \<Rightarrow> size_t \<Rightarrow> size_t" where
  "ReadNumber m src maxLength = unat (read_number m src 0 maxLength 0)"

text \<open>The text of the span that starts at \<open>field\<close> and ends at a zero byte, or after \<open>limit\<close> bytes.\<close>

definition field_text :: "memory \<Rightarrow> size_t \<Rightarrow> size_t \<Rightarrow> u8 list option" where
  "field_text m field limit =
     map_option (\<lambda>len. map (\<lambda>i. m (field + i)) [0..<min len limit]) (memfirst m field 0 0 limit)"

definition Filename :: "memory \<Rightarrow> size_t \<Rightarrow> u8 list option" where
  "Filename m h = field_text m h 100"

definition OwnerName :: "memory \<Rightarrow> size_t \<Rightarrow> u8 list option" where
  "OwnerName m h = field_text m (h + 265) 32"

definition GroupName :: "memory \<Rightarrow> size_t \<Rightarrow> u8 list option" where
  "GroupName m h = field_text m (h + 297) 32"

definition OwnerId :: "memory \<Rightarrow> size_t \<Rightarrow> size_t" where
  "OwnerId m h = ReadNumber m (h + 108) 8"

definition GroupId :: "memory \<Rightarrow> size_t \<Rightarrow> size_t" where
  "GroupId m h = ReadNumber m (h + 116) 8"

definition SizeBytes :: "memory \<Rightarrow> size_t \<Rightarrow> size_t" where
  "SizeBytes m h = ReadNumber m (h + 124) 12"

definition tar_Type :: "memory \<Rightarrow> size_t \<Rightarrow> TarEntryType" where
  "tar_Type m h =
     (if m (h + 156) = 0 \<or> m (h + 156) = 48 then Tar_File
      else if m (h + 156) = 53 then Tar_Directory
      else Tar_Unknown)"

definition IsZero :: "memory \<Rightarrow> size_t \<Rightarrow> bool" where
  "IsZero m h = list_all (\<lambda>i. m (h + i) = 0) [0..<TarBlockSize]"

definition tar_Next :: "memory \<Rightarrow> size_t \<Rightarrow> size_t" where
  "tar_Next m h =
     (let blocks = AlignUp (SizeBytes m h) TarBlockSize div TarBlockSize
      in sz_add (sz_add h (sz_mul blocks TarBlockSize)) TarBlockSize)"

definition tar_Data :: "size_t \<Rightarrow> size_t" where
  "tar_Data h = sz_add h TarBlockSize"

subsection \<open>The walk over the archive\<close>

partial_function (option) initdisk_loop ::
  "memory \<Rightarrow> size_t \<Rightarrow> (size_t \<Rightarrow> 's \<Rightarrow> 's) \<Rightarrow> size_t \<Rightarrow> 's \<Rightarrow> 's option" where
  "initdisk_loop m limit load scan s =
     (if scan < limit
      then if IsZero m scan \<and> IsZero m (tar_Next m scan) then Some s
           else if tar_Type m scan \<noteq> Tar_File then initdisk_loop m limit load (tar_Next m scan) s
           else if sz_add scan (SizeBytes m scan) > limit then Some s
           else initdisk_loop m limit load (tar_Next m scan) (load scan s)
      else Some s)"

subsection \<open>Numbers\<close>

text \<open>The digits that an archiver writes: octal, with leading zeroes.\<close>

definition octal_digit :: "nat \<Rightarrow> u8" where
  "octal_digit d = word_of_nat (48 + d)"

fun octal :: "nat \<Rightarrow> nat \<Rightarrow> u8 list" where
  "octal 0 n = []"
| "octal (Suc k) n = octal k (n div 8) @ [octal_digit (n mod 8)]"

definition holds_bytes :: "memory \<Rightarrow> size_t \<Rightarrow> u8 list \<Rightarrow> bool" where
  "holds_bytes m a bs \<longleftrightarrow> (\<forall>i < length bs. m (a + i) = bs ! i)"

lemma holds_append: "holds_bytes m a (xs @ ys) \<longleftrightarrow> holds_bytes m a xs \<and> holds_bytes m (a + length xs) ys"
proof -
  have "holds_bytes m a (xs @ ys) \<longleftrightarrow> (\<forall>i < length xs. m (a + i) = xs ! i) \<and> (\<forall>i < length ys. m (a + (length xs + i)) = ys ! i)"
    unfolding holds_bytes_def
    by (auto simp: nth_append) (metis add_diff_inverse_nat nat_add_left_cancel_less)
  then show ?thesis by (simp add: holds_bytes_def add.assoc)
qed

lemma holds_replicate: "holds_bytes m a (replicate n v) \<longleftrightarrow> (\<forall>i < n. m (a + i) = v)"
  by (auto simp: holds_bytes_def)

definition number_step :: "u64 \<Rightarrow> u8 \<Rightarrow> u64" where
  "number_step res d = push_bit 3 res OR word_of_int (uint d - 48)"

lemma read_number_list:
  assumes "holds_bytes m (src + i) ds" and "\<forall>d \<in> set ds. d \<noteq> 0" and "m (src + i + length ds) = 0 \<or> n = 0"
  shows "read_number m src i (length ds + n) res = foldl number_step res ds"
  using assms
proof (induction ds arbitrary: i res)
  case Nil
  then show ?case by (cases n) simp_all
next
  case (Cons d ds)
  have "holds_bytes m (src + i) ([d] @ ds)" using Cons.prems(1) by simp
  then have d: "m (src + i) = d" and rest: "holds_bytes m (src + (i + 1)) ds"
    unfolding holds_append by (simp_all add: holds_bytes_def)
  have "read_number m src (i + 1) (length ds + n) (number_step res d) = foldl number_step (number_step res d) ds"
    using Cons.prems by (intro Cons.IH [OF rest]) auto
  then show ?case using d Cons.prems(2) unfolding number_step_def by (simp only: list.size read_number.simps foldl_Cons add_Suc) simp
qed

lemma octal_digit_unat: "d < 8 \<Longrightarrow> unat (octal_digit d) = 48 + d"
  by (simp only: octal_digit_def unat_of_nat) simp

lemma octal_step:
  assumes "d < 8"
  shows "number_step (word_of_nat a) (octal_digit d) = word_of_nat (8 * a + d)"
proof -
  have "uint (octal_digit d) - 48 = int d" unfolding uint_nat octal_digit_unat [OF assms] by simp
  then have "number_step (word_of_nat a) (octal_digit d) = push_bit 3 (word_of_nat a) OR word_of_nat d"
    unfolding number_step_def by (simp only: of_int_of_nat_eq)
  also have "\<dots> = push_bit 3 (word_of_nat a) + word_of_nat d"
  proof (rule disjunctive_add [symmetric])
    fix n
    have "\<not> bit d n" if "3 \<le> n"
    proof -
      have "d < 2 ^ n" using assms power_increasing [OF that, of "2 :: nat"] by simp
      then show ?thesis by (simp add: bit_iff_odd)
    qed
    then show "\<not> bit (push_bit 3 (word_of_nat a) :: u64) n \<or> \<not> bit (word_of_nat d :: u64) n"
      by (cases "3 \<le> n") (auto simp: bit_simps)
  qed
  also have "\<dots> = word_of_nat (8 * a + d)" by (simp add: push_bit_eq_mult)
  finally show ?thesis .
qed

lemma octal_length [simp]: "length (octal k n) = k"
  by (induction k n rule: octal.induct) simp_all

lemma octal_value: "foldl number_step 0 (octal k n) = word_of_nat (n mod 8 ^ k)"
proof (induction k n rule: octal.induct)
  case (2 k n)
  have "foldl number_step 0 (octal (Suc k) n) = word_of_nat (8 * (n div 8 mod 8 ^ k) + n mod 8)"
    using 2 by (simp add: octal_step)
  then show ?case by (simp add: mod_mult2_eq)
qed simp

lemma octal_nonzero: "\<forall>d \<in> set (octal k n). d \<noteq> 0"
proof (induction k n rule: octal.induct)
  case (2 k n)
  have "unat (octal_digit (n mod 8)) \<noteq> 0" by (simp add: octal_digit_unat)
  then have "octal_digit (n mod 8) \<noteq> 0" by auto
  with 2 show ?case by simp
qed simp

lemma ReadNumber_octal:
  assumes "holds_bytes m src (octal k n @ [0])" and "n < 8 ^ k" and "k \<le> 21"
  shows "ReadNumber m src (k + 1) = n"
proof -
  have "holds_bytes m (src + 0) (octal k n)" "m (src + 0 + length (octal k n)) = 0"
    using assms(1) unfolding holds_append by (simp_all add: holds_bytes_def)
  from read_number_list [OF this(1) octal_nonzero, of 1 0] this(2)
  have "read_number m src 0 (k + 1) 0 = word_of_nat n" using octal_value [of k n] assms(2) by simp
  moreover have "(8 :: nat) ^ k \<le> 8 ^ 21" using assms(3) by (rule power_increasing) simp
  then have "n < 2 ^ 64" using assms(2) by simp
  ultimately show ?thesis by (simp add: ReadNumber_def unat_of_nat)
qed

subsection \<open>Archives\<close>

text \<open>What an archiver writes for an entry: a header with the name, the size in eleven octal digits, the
  type and further fields, then the data, filled up to whole blocks. The end is marked by two empty blocks, after which
  anything may follow (archivers fill up to a whole record). The further fields hold what they may: \<open>te_owner\<close> is mode, user and
  group, \<open>te_stamp\<close> the time and the checksum, \<open>te_rest\<close> all that follows the type, from the name of a link to the end of the header.\<close>

record tar_entry =
  te_name :: "u8 list"
  te_owner :: "u8 list"
  te_stamp :: "u8 list"
  te_type :: u8
  te_rest :: "u8 list"
  te_data :: "u8 list"

definition padding :: "nat \<Rightarrow> nat" where
  "padding n = (n + 511) div 512 * 512 - n"

definition tar_header :: "tar_entry \<Rightarrow> u8 list" where
  "tar_header e = te_name e @ replicate (100 - length (te_name e)) 0 @ te_owner e @ octal 11 (length (te_data e)) @ [0] @
     te_stamp e @ [te_type e] @ te_rest e"

definition tar_file :: "tar_entry \<Rightarrow> u8 list" where
  "tar_file e = tar_header e @ te_data e @ replicate (padding (length (te_data e))) 0"

definition tar_archive :: "tar_entry list \<Rightarrow> u8 list \<Rightarrow> u8 list" where
  "tar_archive es fill = concat (map tar_file es) @ replicate 1024 0 @ fill"

definition entry_ok :: "tar_entry \<Rightarrow> bool" where
  "entry_ok e \<longleftrightarrow> te_name e \<noteq> [] \<and> length (te_name e) \<le> 100 \<and> 0 \<notin> set (te_name e) \<and> length (te_data e) < 8 ^ 11 \<and>
     length (te_owner e) = 24 \<and> length (te_stamp e) = 20 \<and> length (te_rest e) = 355"

lemma tar_header_length [simp]: "entry_ok e \<Longrightarrow> length (tar_header e) = 512"
  by (simp add: tar_header_def entry_ok_def)

lemma tar_file_length: "entry_ok e \<Longrightarrow> length (tar_file e) = 512 + (length (te_data e) + 511) div 512 * 512"
proof -
  have "length (te_data e) \<le> (length (te_data e) + 511) div 512 * 512"
    using div_mult_mod_eq [of "length (te_data e) + 511" 512] by (simp add: algebra_simps)
  then show "entry_ok e \<Longrightarrow> ?thesis" by (simp add: tar_file_def padding_def)
qed

lemma header_fields:
  assumes "holds_bytes m h (tar_header e)" and "entry_ok e"
  shows "SizeBytes m h = length (te_data e)" "Filename m h = Some (te_name e)" "m (h + 156) = te_type e" "\<not> IsZero m h"
proof -
  let ?n = "length (te_name e)"
  have n: "?n \<le> 100" "0 < ?n" using assms(2) by (simp_all add: entry_ok_def)
  have parts: "holds_bytes m h (te_name e)" "holds_bytes m (h + ?n) (replicate (100 - ?n) 0)"
      "holds_bytes m (h + 124) (octal 11 (length (te_data e)) @ [0])" "holds_bytes m (h + 156) [te_type e]"
    using assms n(1) unfolding tar_header_def holds_append by (simp_all add: entry_ok_def ac_simps)
  show "SizeBytes m h = length (te_data e)"
    using ReadNumber_octal [OF parts(3)] assms(2) by (simp add: SizeBytes_def entry_ok_def)
  show "m (h + 156) = te_type e" using parts(4) by (simp add: holds_bytes_def)
  have "0 \<notin> set (te_name e)" using assms(2) by (simp add: entry_ok_def)
  then have name: "m (h + j) = te_name e ! j" "te_name e ! j \<noteq> 0" if "j < ?n" for j
    using parts(1) that by (auto simp: holds_bytes_def dest: nth_mem)
  have first: "m h \<noteq> 0" using name [OF n(2)] by simp
  then show "\<not> IsZero m h" by (auto simp: IsZero_def TarBlockSize_def list_all_iff intro!: bexI [of _ 0])
  have "memfirst m h 0 0 100 = Some ?n"
  proof (cases "?n = 100")
    case True
    then show ?thesis using name unfolding memfirst_def by (subst memfirst_from_miss) auto
  next
    case False
    then have "m (h + ?n) = 0" using parts(2) n(1) by (simp add: holds_replicate) (metis add_0_right diff_is_0_eq le_neq_implies_less not_le zero_less_diff)
    then show ?thesis using name False n(1) unfolding memfirst_def by (intro memfirst_from_hit) auto
  qed
  moreover have "map (\<lambda>i. m (h + i)) [0..<?n] = te_name e" using name(1) by (intro nth_equalityI) simp_all
  ultimately show "Filename m h = Some (te_name e)" using n(1) by (simp add: Filename_def field_text_def min_absorb1)
qed

text \<open>The headers of the files of an archive, and what they say.\<close>

definition is_file :: "tar_entry \<Rightarrow> bool" where
  "is_file e \<longleftrightarrow> te_type e = 0 \<or> te_type e = 48"

fun file_headers :: "size_t \<Rightarrow> tar_entry list \<Rightarrow> size_t list" where
  "file_headers h [] = []"
| "file_headers h (e # es) = (if is_file e then [h] else []) @ file_headers (h + length (tar_file e)) es"

lemma tar_Next_ok:
  assumes "holds_bytes m h (tar_file e)" and "entry_ok e" and "h + length (tar_file e) < size_limit"
  shows "tar_Next m h = h + length (tar_file e)"
proof -
  let ?n = "length (te_data e)"
  have "SizeBytes m h = ?n" using assms(1,2) header_fields(1) by (simp add: tar_file_def holds_append)
  moreover have len: "length (tar_file e) = 512 + (?n + 511) div 512 * 512" using assms(2) by (rule tar_file_length)
  have "?n + 512 \<le> size_limit" using assms(2) by (simp add: entry_ok_def size_limit_def)
  then have "AlignUp ?n TarBlockSize = (?n + 511) div 512 * 512" by (simp add: AlignUp_plain TarBlockSize_def)
  ultimately show ?thesis using assms(3) len by (simp add: tar_Next_def Let_def TarBlockSize_def sz_mul_def sz_add_def)
qed

lemma zero_block_next: "IsZero m h \<Longrightarrow> h + 512 < size_limit \<Longrightarrow> tar_Next m h = h + 512"
proof -
  assume z: "IsZero m h" and h: "h + 512 < size_limit"
  have "m (h + 124) = 0" using z by (simp add: IsZero_def TarBlockSize_def list_all_iff)
  then have "SizeBytes m h = 0" by (simp add: SizeBytes_def ReadNumber_def numeral_eq_Suc)
  then show ?thesis using h by (simp add: tar_Next_def Let_def TarBlockSize_def AlignUp_plain sz_mul_def sz_add_def size_limit_def)
qed

lemma initdisk_walk:
  assumes "holds_bytes m h (tar_archive es fill)" and "\<forall>e \<in> set es. entry_ok e" and "limit = h + length (tar_archive es fill)" and "limit < size_limit"
  shows "initdisk_loop m limit load h s = Some (fold load (file_headers h es) s)"
  using assms
proof (induction es arbitrary: h s)
  case Nil
  then have z: "\<forall>i < 1024. m (h + i) = 0" and limit: "h + 1024 \<le> limit" by (simp_all add: tar_archive_def holds_append holds_replicate)
  then have zero: "IsZero m h" "IsZero m (h + 512)"
    by (auto simp: IsZero_def TarBlockSize_def list_all_iff add.assoc)
  moreover have "tar_Next m h = h + 512" using zero(1) Nil.prems(4) limit by (intro zero_block_next) simp_all
  ultimately show ?case using limit by (subst initdisk_loop.simps) simp
next
  case (Cons e es)
  let ?next = "h + length (tar_file e)"
  have split: "tar_archive (e # es) fill = tar_file e @ tar_archive es fill" by (simp add: tar_archive_def)
  have e: "entry_ok e" "holds_bytes m h (tar_file e)" and rest: "holds_bytes m ?next (tar_archive es fill)" "limit = ?next + length (tar_archive es fill)"
    using Cons.prems unfolding split holds_append by simp_all
  have head: "holds_bytes m h (tar_header e)" using e(2) by (simp add: tar_file_def holds_append)
  note fields = header_fields [OF head e(1)]
  have small: "?next < size_limit" "h < limit" using rest(2) Cons.prems(4) tar_file_length [OF e(1)] by simp_all
  have nxt: "tar_Next m h = ?next" by (rule tar_Next_ok [OF e(2,1) small(1)])
  have IH: "initdisk_loop m limit load ?next t = Some (fold load (file_headers ?next es) t)" for t
    using Cons.prems rest by (intro Cons.IH) simp_all
  have fits: "sz_add h (SizeBytes m h) \<le> limit"
    using fields(1) rest(2) small e(1) Cons.prems(4) by (simp add: tar_file_def sz_add_def)
  show ?case
  proof (cases "is_file e")
    case True
    then have "tar_Type m h = Tar_File" using fields(3) by (auto simp: tar_Type_def is_file_def)
    with True IH fits small(2) fields(4) nxt show ?thesis by (subst initdisk_loop.simps) simp
  next
    case False
    then have "tar_Type m h \<noteq> Tar_File" using fields(3) by (auto simp: tar_Type_def is_file_def)
    with False IH small(2) fields(4) nxt show ?thesis by (subst initdisk_loop.simps) simp
  qed
qed

text \<open>The name and the contents that loading a file would read.\<close>

definition file_at :: "memory \<Rightarrow> size_t \<Rightarrow> u8 list option \<times> u8 list" where
  "file_at m h = (Filename m h, map (\<lambda>i. m (tar_Data h + i)) [0..<SizeBytes m h])"

lemma files_read:
  assumes "holds_bytes m h (tar_archive es fill)" and "\<forall>e \<in> set es. entry_ok e" and "h + length (tar_archive es fill) < size_limit"
  shows "map (file_at m) (file_headers h es) = map (\<lambda>e. (Some (te_name e), te_data e)) (filter is_file es)"
  using assms
proof (induction es arbitrary: h)
  case (Cons e es)
  let ?next = "h + length (tar_file e)"
  have split: "tar_archive (e # es) fill = tar_file e @ tar_archive es fill" by (simp add: tar_archive_def)
  have e: "entry_ok e" "holds_bytes m h (tar_file e)" and rest: "holds_bytes m ?next (tar_archive es fill)"
    using Cons.prems unfolding split holds_append by simp_all
  have head: "holds_bytes m h (tar_header e)" and dat: "holds_bytes m (h + 512) (te_data e)"
    using e by (simp_all add: tar_file_def holds_append)
  note fields = header_fields [OF head e(1)]
  have "tar_Data h = h + 512" using Cons.prems(3) tar_file_length [OF e(1)] by (simp add: split tar_Data_def TarBlockSize_def sz_add_def)
  moreover have "map (\<lambda>i. m (h + 512 + i)) [0..<length (te_data e)] = te_data e"
    using dat by (intro nth_equalityI) (simp_all add: holds_bytes_def)
  ultimately have "file_at m h = (Some (te_name e), te_data e)" using fields(1,2) by (simp add: file_at_def)
  moreover have "map (file_at m) (file_headers ?next es) = map (\<lambda>e. (Some (te_name e), te_data e)) (filter is_file es)"
    using Cons.prems rest by (intro Cons.IH) (simp_all add: split)
  ultimately show ?case by simp
qed simp

text \<open>C36: reading an archive gives back the files it was made from. For every list of entries with names of up to 100 bytes and data below
  eight gigabytes, whatever the other fields of their headers hold, the walk over the archive of these entries ends and calls \<open>LoadInitdiskFile\<close>
  exactly for the headers of the entries that are files, in order; the accessors of these headers give the name and the bytes each file was archived with.
\<close>

theorem tar_roundtrip:
  assumes "holds_bytes m base (tar_archive es fill)" and "\<forall>e \<in> set es. entry_ok e" and "base + length (tar_archive es fill) < size_limit"
  shows "\<exists>hs. (\<forall>load s. initdisk_loop m (base + length (tar_archive es fill)) load base s = Some (fold load hs (s :: 's))) \<and>
    map (file_at m) hs = map (\<lambda>e. (Some (te_name e), te_data e)) (filter is_file es)"
proof (intro exI conjI allI)
  show "initdisk_loop m (base + length (tar_archive es fill)) load base s = Some (fold load (file_headers base es) s)" for load and s :: 's
    by (rule initdisk_walk [OF assms(1,2) refl assms(3)])
  show "map (file_at m) (file_headers base es) = map (\<lambda>e. (Some (te_name e), te_data e)) (filter is_file es)"
    by (rule files_read [OF assms])
qed

definition loaded_at :: "size_t \<Rightarrow> u8 list \<Rightarrow> memory" where
  "loaded_at base bs = (\<lambda>a. if base \<le> a \<and> a < base + length bs then bs ! (a - base) else 0)"

lemma loaded_holds: "holds_bytes (loaded_at base bs) base bs"
  by (simp add: holds_bytes_def loaded_at_def)

text \<open>A directory and a file in it, with the fields that GNU tar fills in: modes 755 and 644, user and group 1000, a time and
  a checksum, and the magic \<open>ustar\<close>.\<close>

definition sample_rest :: "u8 list" where
  "sample_rest = replicate 100 0 @ [117, 115, 116, 97, 114, 32, 32, 0] @ replicate 247 0"

definition sample_stamp :: "u8 list" where
  "sample_stamp = octal 11 1610612736 @ [0] @ octal 6 5349 @ [0, 32]"

definition sample_owner :: "nat \<Rightarrow> u8 list" where
  "sample_owner mode = octal 7 mode @ [0] @ octal 7 1000 @ [0] @ octal 7 1000 @ [0]"

definition sample_entries :: "tar_entry list" where
  "sample_entries =
     [\<lparr> te_name = [100, 47], te_owner = sample_owner 493, te_stamp = sample_stamp, te_type = 53, te_rest = sample_rest, te_data = [] \<rparr>,
      \<lparr> te_name = [100, 47, 97], te_owner = sample_owner 420, te_stamp = sample_stamp, te_type = 48, te_rest = sample_rest, te_data = [1, 2, 3] \<rparr>]"

theorem tar_roundtrip_witness:
  "\<exists>h. initdisk_loop (loaded_at 0x1000 (tar_archive sample_entries (replicate 7168 0))) (0x1000 + length (tar_archive sample_entries (replicate 7168 0)))
     (\<lambda>h hs. hs @ [h]) 0x1000 [] = Some [h] \<and> file_at (loaded_at 0x1000 (tar_archive sample_entries (replicate 7168 0))) h = (Some [100, 47, 97], [1, 2, 3])"
proof -
  let ?bs = "tar_archive sample_entries (replicate 7168 0)"
  let ?m = "loaded_at 0x1000 ?bs"
  have ok: "\<forall>e \<in> set sample_entries. entry_ok e"
    by (simp add: sample_entries_def entry_ok_def sample_owner_def sample_stamp_def sample_rest_def)
  have "length ?bs < 0x10000" using ok by (simp add: tar_archive_def sample_entries_def tar_file_length)
  then have "0x1000 + length ?bs < size_limit" by (simp add: size_limit_def)
  from tar_roundtrip [OF loaded_holds ok this, where 's = "size_t list"] obtain hs
    where hs: "\<And>load (s :: size_t list). initdisk_loop ?m (0x1000 + length ?bs) load 0x1000 s = Some (fold load hs s)"
      "map (file_at ?m) hs = map (\<lambda>e. (Some (te_name e), te_data e)) (filter is_file sample_entries)"
    by blast
  moreover have "map (\<lambda>e. (Some (te_name e), te_data e)) (filter is_file sample_entries) = [(Some [100, 47, 97], [1, 2, 3])]"
    by (simp add: sample_entries_def is_file_def)
  ultimately obtain h where "hs = [h]" "file_at ?m h = (Some [100, 47, 97], [1, 2, 3])" by (cases hs) auto
  with hs(1) [of "\<lambda>h hs. hs @ [h]" "[]"] show ?thesis by auto
qed

end
