(* ===== verification/Driver_Manager.thy ===== *)
theory Driver_Manager
  imports RB_Check RB_Data RB_Search
begin

text \<open>
  \<open>kernel/drivers/DriverManager.cpp\<close> and \<open>DriverHelpers.cpp\<close>: the drivers of the machine, the devices they describe and the interfaces
  they offer. Driver instances, descriptors and interfaces are nodes of one red-black tree, ordered by their ids; a
  node is an address, and new nodes get addresses that were not used before. Manifests are numbered.
  The loader of native code and the code of the drivers are arguments (\<open>dm_env\<close>): what loading a driver
  finds, and what a driver answers to an event and does to the manager meanwhile.
  Of the locks, the one of a manifest is modelled, which \<open>EnsureRunning\<close> holds while the driver handles its first event: to take it again
  never returns. The other locks are held over no call of a driver and are left out, as are the reference counts; the 64-bit counter of ids
  is taken not to run out. An operation returns \<open>None\<close> if it does not return or reads an object that is gone.

  Describing a device is shown to return, with the device in the tree, for drivers that describe devices for drivers of a lower rank only; a
  driver that describes a device for itself while it is initialized hangs, as does adding a manifest that a device waits for.
\<close>

subsection \<open>State\<close>

record load_name =
  ln_type :: nat
  ln_str :: "u8 list"

record driver_manifest =
  mf_sourcePath :: "char list"
  mf_friendlyName :: "char list"
  mf_loadNames :: "load_name list"
  mf_runtimeImage :: bool
  mf_ProcessEvent :: bool
  mf_locked :: bool

record npk_api =
  ap_type :: nat
  ap_has :: "char list \<Rightarrow> bool"

record driver_instance =
  di_manifest :: "nat option"
  di_consumedDevice :: "size_t option"
  di_transportDevice :: "size_t option"
  di_providedDevices :: "size_t list"
  di_apis :: "size_t list"

record device_descriptor =
  dd_load_names :: "load_name list"
  dd_sourceDriver :: "size_t option"
  dd_attachedDriver :: "size_t option"

record device_api =
  da_driver :: size_t
  da_api :: npk_api

datatype node_body = Driver_Instance driver_instance | Descriptor device_descriptor | Api device_api

record device_node =
  nd_id :: size_t
  nd_body :: node_body

record driver_stats =
  st_manifestCount :: size_t
  st_loadedCount :: size_t
  st_unclaimedDescriptors :: size_t
  st_totalDescriptors :: size_t
  st_apiCount :: size_t

record driver_manager =
  dm_nodes :: "(size_t, device_node) rb_tree"
  dm_unclaimedDevs :: "size_t list"
  dm_manifests :: "nat list"
  dm_manifest :: "nat \<Rightarrow> driver_manifest"
  dm_kernelInstance :: size_t
  dm_stats :: driver_stats
  dm_idAlloc :: size_t
  dm_shadow :: "size_t option"
  dm_fresh :: size_t
  dm_ended :: "size_t list"

datatype driver_event = Ev_Init | Ev_AddDevice size_t

record dm_env =
  en_LoadElf :: "nat \<Rightarrow> bool \<times> bool"
  en_ProcessEvent :: "nat \<Rightarrow> driver_event \<Rightarrow> driver_manager \<Rightarrow> (bool \<times> driver_manager) option"

definition node :: "driver_manager \<Rightarrow> size_t \<Rightarrow> device_node" where
  "node d a = rb_data (dm_nodes d) a"

definition blank_instance :: driver_instance where
  "blank_instance = \<lparr> di_manifest = None, di_consumedDevice = None, di_transportDevice = None, di_providedDevices = [], di_apis = [] \<rparr>"

subsection \<open>Helpers\<close>

definition VerifyIoApi :: "npk_api \<Rightarrow> bool" where
  "VerifyIoApi api = (ap_has api ''begin_op'' \<and> ap_has api ''end_op'')"

definition VerifyFramebufferApi :: "npk_api \<Rightarrow> bool" where
  "VerifyFramebufferApi api = ap_has api ''get_mode''"

definition VerifyGpuApi :: "npk_api \<Rightarrow> bool" where
  "VerifyGpuApi api = (ap_has api ''create_framebuffer'' \<and> ap_has api ''destroy_framebuffer'' \<and>
     ap_has api ''set_scanout_framebuffer'' \<and> ap_has api ''get_scanout_info'')"

definition VerifyFilesystemApi :: "npk_api \<Rightarrow> bool" where
  "VerifyFilesystemApi api = list_all (ap_has api)
     [''enter_cache'', ''exit_cache'', ''get_root'', ''mount'', ''unmount'', ''create'', ''remove'', ''find_child'',
      ''get_attribs'', ''set_attribs'', ''read_dir'']"

definition VerifySysPowerApi :: "npk_api \<Rightarrow> bool" where
  "VerifySysPowerApi api = True"

definition VerifyDeviceApi :: "npk_api \<Rightarrow> bool" where
  "VerifyDeviceApi api =
     (if ap_type api = 0 then VerifyIoApi api
      else if ap_type api = 1 then VerifyFramebufferApi api
      else if ap_type api = 2 then VerifyGpuApi api
      else if ap_type api = 3 then VerifyFilesystemApi api
      else if ap_type api = 4 then VerifySysPowerApi api
      else False)"

text \<open>The nested loops over two lists of names.\<close>

definition names_match :: "load_name list \<Rightarrow> load_name list \<Rightarrow> bool" where
  "names_match owned tested =
     list_ex (\<lambda>a. list_ex (\<lambda>b. ln_type b = ln_type a \<and> length (ln_str b) = length (ln_str a) \<and> ln_str b = ln_str a) tested) owned"

definition LocateDriver :: "load_name list \<Rightarrow> driver_manager \<Rightarrow> nat option" where
  "LocateDriver names d = find (\<lambda>m. names_match (mf_loadNames (dm_manifest d m)) names) (dm_manifests d)"

definition load_names_of :: "driver_manager \<Rightarrow> size_t \<Rightarrow> load_name list" where
  "load_names_of d a = (case nd_body (node d a) of Descriptor x \<Rightarrow> dd_load_names x | _ \<Rightarrow> [])"

definition LocateDevice :: "load_name list \<Rightarrow> driver_manager \<Rightarrow> size_t option" where
  "LocateDevice names d = find (\<lambda>a. names_match (load_names_of d a) names) (dm_unclaimedDevs d)"

definition upd_body :: "size_t \<Rightarrow> (node_body \<Rightarrow> node_body) \<Rightarrow> driver_manager \<Rightarrow> driver_manager" where
  "upd_body a f d = d\<lparr> dm_nodes := (dm_nodes d)\<lparr> rb_data := (rb_data (dm_nodes d))(a := (node d a)\<lparr> nd_body := f (nd_body (node d a)) \<rparr>) \<rparr> \<rparr>"

definition upd_instance :: "(driver_instance \<Rightarrow> driver_instance) \<Rightarrow> node_body \<Rightarrow> node_body" where
  "upd_instance f b = (case b of Driver_Instance x \<Rightarrow> Driver_Instance (f x) | _ \<Rightarrow> b)"

definition upd_descriptor :: "(device_descriptor \<Rightarrow> device_descriptor) \<Rightarrow> node_body \<Rightarrow> node_body" where
  "upd_descriptor f b = (case b of Descriptor x \<Rightarrow> Descriptor (f x) | _ \<Rightarrow> b)"

text \<open>\<open>new\<close>, with the id of the node.\<close>

definition new_node :: "size_t \<Rightarrow> node_body \<Rightarrow> driver_manager \<Rightarrow> size_t \<times> driver_manager" where
  "new_node ident body d =
     (dm_fresh d, d\<lparr> dm_nodes := construct (dm_fresh d) \<lparr> nd_id = ident, nd_body = body \<rparr> (dm_nodes d), dm_fresh := dm_fresh d + 1 \<rparr>)"

definition DeviceNodeLess :: "driver_manager \<Rightarrow> size_t \<Rightarrow> size_t \<Rightarrow> bool" where
  "DeviceNodeLess d a b = (nd_id (node d a) < nd_id (node d b))"

definition nodeTree_Insert :: "size_t \<Rightarrow> driver_manager \<Rightarrow> driver_manager option" where
  "nodeTree_Insert a d = map_option (\<lambda>t. d\<lparr> dm_nodes := t \<rparr>) (rb_Insert NullAggregator (DeviceNodeLess d) a (dm_nodes d))"

definition nodeTree_Remove :: "size_t \<Rightarrow> driver_manager \<Rightarrow> driver_manager option" where
  "nodeTree_Remove a d = map_option (\<lambda>t. d\<lparr> dm_nodes := t \<rparr>) (rb_Remove NullAggregator (Some a) (dm_nodes d))"

definition upd_stats :: "(driver_stats \<Rightarrow> driver_stats) \<Rightarrow> driver_manager \<Rightarrow> driver_manager" where
  "upd_stats f d = d\<lparr> dm_stats := f (dm_stats d) \<rparr>"

definition upd_manifest :: "nat \<Rightarrow> (driver_manifest \<Rightarrow> driver_manifest) \<Rightarrow> driver_manager \<Rightarrow> driver_manager" where
  "upd_manifest m f d = d\<lparr> dm_manifest := (dm_manifest d)(m := f (dm_manifest d m)) \<rparr>"

definition lock_manifest :: "nat \<Rightarrow> bool \<Rightarrow> driver_manager \<Rightarrow> driver_manager" where
  "lock_manifest m b d = upd_manifest m (\<lambda>x. x\<lparr> mf_locked := b \<rparr>) d"

text \<open>An object on the stack of a function is gone when the function returns.\<close>

definition end_object :: "size_t \<Rightarrow> driver_manager \<Rightarrow> driver_manager" where
  "end_object a d = d\<lparr> dm_ended := a # dm_ended d \<rparr>"

definition take_id :: "driver_manager \<Rightarrow> size_t \<times> driver_manager" where
  "take_id d = (dm_idAlloc d, d\<lparr> dm_idAlloc := dm_idAlloc d + 1 \<rparr>)"

definition GetShadow :: "driver_manager \<Rightarrow> size_t option" where
  "GetShadow d = dm_shadow d"

definition SetShadow :: "size_t option \<Rightarrow> driver_manager \<Rightarrow> driver_manager" where
  "SetShadow shadow d = d\<lparr> dm_shadow := shadow \<rparr>"

subsection \<open>Drivers and devices\<close>

text \<open>The part of \<open>EnsureRunning\<close> behind the lock. The instance of the first event is an object on the stack.\<close>

definition load_driver :: "dm_env \<Rightarrow> nat \<Rightarrow> driver_manager \<Rightarrow> (bool \<times> driver_manager) option" where
  "load_driver env m d =
     (if mf_runtimeImage (dm_manifest d m) then Some (True, d)
      else
        let (image, found) = en_LoadElf env m;
            d = upd_manifest m (\<lambda>x. x\<lparr> mf_runtimeImage := image \<rparr>) d
        in if \<not> image then Some (False, d)
           else if \<not> found then Some (False, d)
           else
             let d = upd_manifest m (\<lambda>x. x\<lparr> mf_ProcessEvent := True \<rparr>) d;
                 d = upd_stats (\<lambda>x. x\<lparr> st_loadedCount := sz_add (st_loadedCount x) 1 \<rparr>) d;
                 (initInstance, d) = new_node 0 (Driver_Instance (blank_instance\<lparr> di_manifest := Some m \<rparr>)) d;
                 prevShadow = GetShadow d
             in do { (ok, d) \<leftarrow> en_ProcessEvent env m Ev_Init (SetShadow (Some initInstance) d);
                     let d = end_object initInstance (SetShadow prevShadow d)
                     in if \<not> ok then Some (False, upd_stats (\<lambda>x. x\<lparr> st_loadedCount := sz_sub (st_loadedCount x) 1 \<rparr>) d)
                        else Some (True, d) })"

definition EnsureRunning :: "dm_env \<Rightarrow> nat option \<Rightarrow> driver_manager \<Rightarrow> (bool \<times> driver_manager) option" where
  "EnsureRunning env manifest d =
     (case manifest of
        None \<Rightarrow> Some (False, d)
      | Some m \<Rightarrow>
          if mf_locked (dm_manifest d m) then None
          else do { (running, d) \<leftarrow> load_driver env m (lock_manifest m True d);
                    Some (running, lock_manifest m False d) })"

definition AttachDevice ::
  "dm_env \<Rightarrow> nat option \<Rightarrow> size_t option \<Rightarrow> driver_manager \<Rightarrow> (bool \<times> driver_manager) option" where
  "AttachDevice env driver device d =
     (case (driver, device) of
        (Some m, Some dev) \<Rightarrow>
          do { (running, d) \<leftarrow> EnsureRunning env driver d;
               if \<not> running then Some (False, d)
               else
                 let (ident, d) = take_id d;
                     (inst, d) = new_node ident (Driver_Instance (blank_instance\<lparr> di_manifest := Some m, di_consumedDevice := Some dev \<rparr>)) d;
                     d = upd_body dev (upd_descriptor (\<lambda>x. x\<lparr> dd_attachedDriver := Some inst \<rparr>)) d
                 in do { d \<leftarrow> nodeTree_Insert inst d;
                         let prevShadow = GetShadow d
                         in do { (ok, d) \<leftarrow> en_ProcessEvent env m (Ev_AddDevice (nd_id (node d dev))) (SetShadow (Some inst) d);
                                 let d = SetShadow prevShadow d
                                 in if \<not> ok
                                    then do { d \<leftarrow> nodeTree_Remove inst d;
                                              Some (False, upd_body dev (upd_descriptor (\<lambda>x. x\<lparr> dd_attachedDriver := None \<rparr>)) d) }
                                    else Some (True, upd_stats (\<lambda>x. x\<lparr> st_unclaimedDescriptors := sz_sub (st_unclaimedDescriptors x) 1 \<rparr>) d) } } }
      | _ \<Rightarrow> Some (False, d))"

definition dm_Init :: "driver_manager \<Rightarrow> driver_manager option" where
  "dm_Init d =
     (let d = d\<lparr> dm_stats := \<lparr> st_manifestCount = 0, st_loadedCount = 0, st_unclaimedDescriptors = 0, st_totalDescriptors = 0, st_apiCount = 0 \<rparr>,
                 dm_idAlloc := 1 \<rparr>;
          (ident, d) = take_id d;
          (k, d) = new_node ident (Driver_Instance blank_instance) d
      in nodeTree_Insert k (d\<lparr> dm_kernelInstance := k \<rparr>))"

fun manifest_conflict :: "driver_manager \<Rightarrow> driver_manifest \<Rightarrow> nat list \<Rightarrow> bool" where
  "manifest_conflict d mf [] = False"
| "manifest_conflict d mf (scan # ms) =
     (if mf_friendlyName (dm_manifest d scan) = mf_friendlyName mf then True
      else if LocateDriver (mf_loadNames mf) d \<noteq> None then True
      else manifest_conflict d mf ms)"

text \<open>The check of the existing devices, which are left in the list they are found in.\<close>

partial_function (option) attach_loop :: "dm_env \<Rightarrow> nat \<Rightarrow> driver_manager \<Rightarrow> driver_manager option" where
  "attach_loop env m d =
     (case LocateDevice (mf_loadNames (dm_manifest d m)) d of
        None \<Rightarrow> Some d
      | Some dev \<Rightarrow>
          do { r \<leftarrow> AttachDevice env (Some m) (Some dev) d;
               attach_loop env m (if fst r then snd r else (snd r)\<lparr> dm_unclaimedDevs := dm_unclaimedDevs (snd r) @ [dev] \<rparr>) })"

definition AddManifest :: "dm_env \<Rightarrow> nat \<Rightarrow> bool \<Rightarrow> driver_manager \<Rightarrow> (bool \<times> driver_manager) option" where
  "AddManifest env m loadNow d =
     (if manifest_conflict d (dm_manifest d m) (dm_manifests d) then Some (False, d)
      else
        let d = upd_stats (\<lambda>x. x\<lparr> st_manifestCount := sz_add (st_manifestCount x) 1 \<rparr>) d;
            d = d\<lparr> dm_manifests := dm_manifests d @ [m] \<rparr>
        in do { d \<leftarrow> if loadNow then map_option snd (EnsureRunning env (Some m) d) else Some d;
                d \<leftarrow> attach_loop env m d;
                Some (True, d) })"

definition AddDescriptor :: "dm_env \<Rightarrow> load_name list option \<Rightarrow> driver_manager \<Rightarrow> (size_t \<times> driver_manager) option" where
  "AddDescriptor env descriptor d =
     (case descriptor of
        None \<Rightarrow> Some (0, d)
      | Some names \<Rightarrow>
          let source = (case GetShadow d of None \<Rightarrow> dm_kernelInstance d | Some s \<Rightarrow> s);
              (ident, d) = take_id d;
              (desc, d) = new_node ident (Descriptor \<lparr> dd_load_names = names, dd_sourceDriver = Some source, dd_attachedDriver = None \<rparr>) d;
              d = upd_body source (upd_instance (\<lambda>x. x\<lparr> di_providedDevices := di_providedDevices x @ [desc] \<rparr>)) d;
              d = upd_stats (\<lambda>x. x\<lparr> st_totalDescriptors := sz_add (st_totalDescriptors x) 1,
                                   st_unclaimedDescriptors := sz_add (st_unclaimedDescriptors x) 1 \<rparr>) d
          in do { d \<leftarrow> nodeTree_Insert desc d;
                  case LocateDriver names d of
                    None \<Rightarrow> Some (ident, d\<lparr> dm_unclaimedDevs := dm_unclaimedDevs d @ [desc] \<rparr>)
                  | Some m \<Rightarrow>
                      do { (ok, d) \<leftarrow> AttachDevice env (Some m) (Some desc) d;
                           if ok then Some (ident, d)
                           else Some (ident, d\<lparr> dm_unclaimedDevs := dm_unclaimedDevs d @ [desc] \<rparr>) } })"

definition AddApi :: "npk_api option \<Rightarrow> size_t option \<Rightarrow> driver_manager \<Rightarrow> (bool \<times> driver_manager) option" where
  "AddApi api owner d =
     (case api of
        None \<Rightarrow> Some (False, d)
      | Some x \<Rightarrow>
          if \<not> VerifyDeviceApi x then Some (False, d)
          else
            let own = (case owner of None \<Rightarrow> dm_kernelInstance d | Some a \<Rightarrow> a);
                (ident, d) = take_id d;
                (device, d) = new_node ident (Api \<lparr> da_driver = own, da_api = x \<rparr>) d
            in do { d \<leftarrow> nodeTree_Insert device d;
                    let d = upd_body own (upd_instance (\<lambda>i. i\<lparr> di_apis := di_apis i @ [device] \<rparr>)) d
                    in Some (True, upd_stats (\<lambda>s. s\<lparr> st_apiCount := sz_add (st_apiCount s) 1 \<rparr>) d) })"

subsection \<open>Lookups\<close>

text \<open>\<open>NPK_INVALID_HANDLE\<close> is zero.\<close>

definition GetById :: "size_t \<Rightarrow> driver_manager \<Rightarrow> size_t option option" where
  "GetById ident d =
     (if ident = 0 then Some None else key_search nd_id ident (rb_root (dm_nodes d)) (dm_nodes d))"

text \<open>The node below a node in its stack.\<close>

definition below_node :: "driver_manager \<Rightarrow> size_t \<Rightarrow> size_t option" where
  "below_node d a =
     (case nd_body (node d a) of
        Driver_Instance i \<Rightarrow> di_consumedDevice i
      | Descriptor x \<Rightarrow> dd_sourceDriver x
      | Api x \<Rightarrow> Some (da_driver x))"

partial_function (option) stack_loop :: "driver_manager \<Rightarrow> size_t option \<Rightarrow> size_t list \<Rightarrow> size_t list option" where
  "stack_loop d scan stack =
     (case scan of
        None \<Rightarrow> Some stack
      | Some a \<Rightarrow> if a \<in> set (dm_ended d) then None else stack_loop d (below_node d a) (stack @ [a]))"

definition GetStackFromId :: "size_t \<Rightarrow> driver_manager \<Rightarrow> size_t list option" where
  "GetStackFromId ident d = do { found \<leftarrow> GetById ident d; stack_loop d found [] }"

definition GetInstance :: "size_t \<Rightarrow> driver_manager \<Rightarrow> size_t option option" where
  "GetInstance ident d =
     map_option (\<lambda>found. case found of None \<Rightarrow> None
       | Some a \<Rightarrow> (case nd_body (node d a) of Driver_Instance _ \<Rightarrow> Some a | _ \<Rightarrow> None)) (GetById ident d)"

definition GetDescriptor :: "size_t \<Rightarrow> driver_manager \<Rightarrow> size_t option option" where
  "GetDescriptor ident d =
     map_option (\<lambda>found. case found of None \<Rightarrow> None
       | Some a \<Rightarrow> (case nd_body (node d a) of Descriptor _ \<Rightarrow> Some a | _ \<Rightarrow> None)) (GetById ident d)"

definition GetApi :: "size_t \<Rightarrow> driver_manager \<Rightarrow> size_t option option" where
  "GetApi ident d =
     map_option (\<lambda>found. case found of None \<Rightarrow> None
       | Some a \<Rightarrow> (case nd_body (node d a) of Api _ \<Rightarrow> Some a | _ \<Rightarrow> None)) (GetById ident d)"

definition SetTransportApi :: "size_t option \<Rightarrow> size_t \<Rightarrow> driver_manager \<Rightarrow> (bool \<times> driver_manager) option" where
  "SetTransportApi driver api d =
     (case driver of
        None \<Rightarrow> Some (False, d)
      | Some i \<Rightarrow>
          do { found \<leftarrow> GetApi api d;
               case found of
                 None \<Rightarrow> Some (False, d)
               | Some a \<Rightarrow> Some (True, upd_body i (upd_instance (\<lambda>x. x\<lparr> di_transportDevice := Some a \<rparr>)) d) })"

text \<open>\<open>DetachDevice\<close>, \<open>RemoveManifest\<close>, \<open>RemoveDescriptor\<close> and \<open>RemoveApi\<close> are not implemented.\<close>

definition dm_unimplemented :: "driver_manager \<Rightarrow> driver_manager res" where
  "dm_unimplemented d = Inl Unreachable_Hit"

subsection \<open>The calls of a driver\<close>

definition npk_add_device_api :: "npk_api option \<Rightarrow> driver_manager \<Rightarrow> (bool \<times> driver_manager) option" where
  "npk_add_device_api api d = (case GetShadow d of None \<Rightarrow> Some (False, d) | Some shadow \<Rightarrow> AddApi api (Some shadow) d)"

definition npk_set_transport_api :: "size_t \<Rightarrow> driver_manager \<Rightarrow> (bool \<times> driver_manager) option" where
  "npk_set_transport_api api_id d = (case GetShadow d of None \<Rightarrow> Some (False, d) | Some shadow \<Rightarrow> SetTransportApi (Some shadow) api_id d)"

definition npk_add_device_desc :: "dm_env \<Rightarrow> load_name list option \<Rightarrow> driver_manager \<Rightarrow> (size_t \<times> driver_manager) option" where
  "npk_add_device_desc env descriptor d = (case descriptor of None \<Rightarrow> Some (0, d) | Some names \<Rightarrow> AddDescriptor env (Some names) d)"

text \<open>
  What a driver does with an event, as far as the manager can tell: calls, each chosen by the answers so far, and an answer.
  The events that follow from the calls of a driver go to other drivers; \<open>n\<close> bounds how deep they nest, and there is no result when
  they nest deeper.
\<close>

datatype driver_prog =
    Answer bool
  | Add_Api "npk_api option" "bool \<Rightarrow> driver_prog"
  | Set_Transport size_t "bool \<Rightarrow> driver_prog"
  | Add_Desc "load_name list option" "size_t \<Rightarrow> driver_prog"

primrec run_prog :: "dm_env \<Rightarrow> driver_prog \<Rightarrow> driver_manager \<Rightarrow> (bool \<times> driver_manager) option" where
  "run_prog env (Answer b) d = Some (b, d)"
| "run_prog env (Add_Api api k) d = do { (r, d) \<leftarrow> npk_add_device_api api d; run_prog env (k r) d }"
| "run_prog env (Set_Transport i k) d = do { (r, d) \<leftarrow> npk_set_transport_api i d; run_prog env (k r) d }"
| "run_prog env (Add_Desc x k) d = do { (r, d) \<leftarrow> npk_add_device_desc env x d; run_prog env (k r) d }"

primrec driver_env :: "(nat \<Rightarrow> bool \<times> bool) \<Rightarrow> (nat \<Rightarrow> driver_event \<Rightarrow> driver_prog) \<Rightarrow> nat \<Rightarrow> dm_env" where
  "driver_env load prog 0 = \<lparr> en_LoadElf = load, en_ProcessEvent = (\<lambda>m e d. None) \<rparr>"
| "driver_env load prog (Suc n) =
     \<lparr> en_LoadElf = load, en_ProcessEvent = (\<lambda>m e d. run_prog (driver_env load prog n) (prog m e) d) \<rparr>"

subsection \<open>Invariant\<close>

text \<open>What the tree and the stacks depend on: the id of a node, the node below it and the names of a descriptor.\<close>

definition view :: "driver_manager \<Rightarrow> size_t \<Rightarrow> size_t \<times> size_t option \<times> load_name list" where
  "view d a = (nd_id (node d a), below_node d a, load_names_of d a)"

definition ident :: "driver_manager \<Rightarrow> size_t \<Rightarrow> size_t" where
  "ident d a = nd_id (node d a)"

text \<open>
  The nodes of the tree have increasing ids. Every object that exists has an id that was given out, or zero, and the node below
  it exists and has a smaller id.
\<close>

definition objects_ok :: "driver_manager \<Rightarrow> bool" where
  "objects_ok d \<longleftrightarrow> (\<forall>a < dm_fresh d. ident d a < dm_idAlloc d \<and>
     (\<forall>p. below_node d a = Some p \<longrightarrow> p < dm_fresh d \<and> ident d p < ident d a)) \<and>
     dm_kernelInstance d < dm_fresh d \<and> (\<forall>x. dm_shadow d = Some x \<longrightarrow> x < dm_fresh d) \<and> (\<forall>x \<in> set (dm_unclaimedDevs d). x < dm_fresh d)"

definition dm_inv :: "size_t rbt \<Rightarrow> driver_manager \<Rightarrow> bool" where
  "dm_inv T d \<longleftrightarrow> rb_rep (dm_nodes d) T \<and> sorted_wrt (<) (map (ident d) (inord T)) \<and>
     (\<forall>a \<in> set (inord T). a < dm_fresh d \<and> 0 < ident d a) \<and> objects_ok d"

text \<open>What the operations of the manager, and hence the drivers that use them, do to it: nothing goes away.\<close>

definition dm_grows :: "size_t rbt \<Rightarrow> driver_manager \<Rightarrow> size_t rbt \<Rightarrow> driver_manager \<Rightarrow> bool" where
  "dm_grows T d T' d' \<longleftrightarrow> dm_inv T' d' \<and> set (inord T) \<subseteq> set (inord T') \<and> dm_fresh d \<le> dm_fresh d' \<and>
     (\<forall>a < dm_fresh d. view d' a = view d a) \<and> (\<exists>xs. dm_unclaimedDevs d' = dm_unclaimedDevs d @ xs) \<and>
     (\<forall>m. mf_loadNames (dm_manifest d' m) = mf_loadNames (dm_manifest d m) \<and> mf_locked (dm_manifest d' m) = mf_locked (dm_manifest d m))"

lemma dm_grows_refl: "dm_inv T d \<Longrightarrow> dm_grows T d T d"
  by (simp add: dm_grows_def)

lemma dm_grows_inv: "dm_grows T d T' d' \<Longrightarrow> dm_inv T' d'"
  by (simp add: dm_grows_def)

lemma dm_grows_trans: "dm_grows T d T1 d1 \<Longrightarrow> dm_grows T1 d1 T2 d2 \<Longrightarrow> dm_grows T d T2 d2"
  unfolding dm_grows_def by (auto intro: subset_trans)

lemma view_eq:
  "view d' a = view d b \<Longrightarrow> ident d' a = ident d b \<and> below_node d' a = below_node d b \<and> load_names_of d' a = load_names_of d b"
  by (simp add: view_def ident_def)

text \<open>The invariant does not depend on anything else.\<close>

lemma dm_inv_cong:
  assumes "dm_inv T d" and "rb_root (dm_nodes d') = rb_root (dm_nodes d)" and "rb_hooks (dm_nodes d') = rb_hooks (dm_nodes d)"
    and "\<And>a. view d' a = view d a" and "dm_idAlloc d' = dm_idAlloc d" and "dm_fresh d' = dm_fresh d"
    and "dm_kernelInstance d' = dm_kernelInstance d" and "\<And>x. dm_shadow d' = Some x \<Longrightarrow> x < dm_fresh d"
    and "\<And>x. x \<in> set (dm_unclaimedDevs d') \<Longrightarrow> x < dm_fresh d"
  shows "dm_inv T d'"
proof -
  have v: "ident d' a = ident d a" "below_node d' a = below_node d a" for a using view_eq [OF assms(4) [of a]] by simp_all
  have "ident d' = ident d" by (rule ext) (rule v)
  moreover have "rb_rep (dm_nodes d') T = rb_rep (dm_nodes d) T"
    using assms(2,3) by (simp add: rb_rep_def zip_ok_def)
  ultimately show ?thesis using assms(1,5-9) by (simp add: dm_inv_def objects_ok_def v)
qed

lemma dm_grows_cong:
  assumes "dm_inv T d" and "rb_root (dm_nodes d') = rb_root (dm_nodes d)" and "rb_hooks (dm_nodes d') = rb_hooks (dm_nodes d)"
    and "\<And>a. view d' a = view d a" and "dm_idAlloc d' = dm_idAlloc d" and "dm_fresh d' = dm_fresh d"
    and "dm_kernelInstance d' = dm_kernelInstance d" and "\<And>x. dm_shadow d' = Some x \<Longrightarrow> x < dm_fresh d"
    and "dm_unclaimedDevs d' = dm_unclaimedDevs d @ xs" and "\<And>x. x \<in> set xs \<Longrightarrow> x < dm_fresh d"
    and "\<And>m. mf_loadNames (dm_manifest d' m) = mf_loadNames (dm_manifest d m) \<and> mf_locked (dm_manifest d' m) = mf_locked (dm_manifest d m)"
  shows "dm_grows T d T d'"
proof -
  have "dm_inv T d'" by (rule dm_inv_cong [OF assms(1-8)]) (use assms(1,9,10) in \<open>auto simp: dm_inv_def objects_ok_def\<close>)
  then show ?thesis using assms(4,6,9,11) by (simp add: dm_grows_def)
qed

text \<open>Writing a node in a way that keeps its type and what lies below it.\<close>

definition keeps_body :: "(node_body \<Rightarrow> node_body) \<Rightarrow> bool" where
  "keeps_body f \<longleftrightarrow> (\<forall>b.
     (case f b of Driver_Instance i \<Rightarrow> di_consumedDevice i | Descriptor x \<Rightarrow> dd_sourceDriver x | Api x \<Rightarrow> Some (da_driver x)) =
     (case b of Driver_Instance i \<Rightarrow> di_consumedDevice i | Descriptor x \<Rightarrow> dd_sourceDriver x | Api x \<Rightarrow> Some (da_driver x)) \<and>
     (case f b of Descriptor x \<Rightarrow> dd_load_names x | _ \<Rightarrow> []) = (case b of Descriptor x \<Rightarrow> dd_load_names x | _ \<Rightarrow> []))"

lemma keeps_body_rules:
  "(\<And>x. di_consumedDevice (f x) = di_consumedDevice x) \<Longrightarrow> keeps_body (upd_instance f)"
  "(\<And>x. dd_sourceDriver (g x) = dd_sourceDriver x \<and> dd_load_names (g x) = dd_load_names x) \<Longrightarrow> keeps_body (upd_descriptor g)"
  by (auto simp: keeps_body_def upd_instance_def upd_descriptor_def split: node_body.splits)

lemma upd_body_simps [simp]:
  "rb_root (dm_nodes (upd_body a f d)) = rb_root (dm_nodes d)" "rb_hooks (dm_nodes (upd_body a f d)) = rb_hooks (dm_nodes d)"
  "dm_idAlloc (upd_body a f d) = dm_idAlloc d" "dm_fresh (upd_body a f d) = dm_fresh d" "dm_kernelInstance (upd_body a f d) = dm_kernelInstance d"
  "dm_shadow (upd_body a f d) = dm_shadow d" "dm_unclaimedDevs (upd_body a f d) = dm_unclaimedDevs d" "dm_manifests (upd_body a f d) = dm_manifests d"
  "dm_manifest (upd_body a f d) = dm_manifest d"
  by (simp_all add: upd_body_def)

lemma upd_body_view: "keeps_body f \<Longrightarrow> view (upd_body a f d) b = view d b"
  by (auto simp: view_def node_def below_node_def load_names_of_def upd_body_def keeps_body_def)

lemma shadow_fresh: "dm_inv T d \<Longrightarrow> dm_shadow d = Some x \<Longrightarrow> x < dm_fresh d"
  by (simp add: dm_inv_def objects_ok_def)

lemma upd_body_grows: "dm_inv T d \<Longrightarrow> keeps_body f \<Longrightarrow> dm_grows T d T (upd_body a f d)"
  by (rule dm_grows_cong [where xs = "[]"]) (auto simp: upd_body_view intro: shadow_fresh)

lemma quiet_views [simp]:
  "view (upd_stats f d) a = view d a" "view (upd_manifest m g d) a = view d a" "view (SetShadow s d) a = view d a"
  "view (d\<lparr> dm_manifests := ms \<rparr>) a = view d a" "view (d\<lparr> dm_unclaimedDevs := us \<rparr>) a = view d a"
  by (simp_all add: view_def node_def below_node_def load_names_of_def upd_stats_def upd_manifest_def SetShadow_def)

lemma stats_grows: "dm_inv T d \<Longrightarrow> dm_grows T d T (upd_stats f d)"
  by (rule dm_grows_cong [where xs = "[]"]) (auto simp: upd_stats_def [of _ d] intro: shadow_fresh quiet_views [unfolded upd_stats_def])

lemma manifest_grows: "dm_inv T d \<Longrightarrow> (\<And>x. mf_loadNames (f x) = mf_loadNames x \<and> mf_locked (f x) = mf_locked x) \<Longrightarrow> dm_grows T d T (upd_manifest m f d)"
  by (rule dm_grows_cong [where xs = "[]"]) (auto simp: upd_manifest_def [of _ _ d] intro: shadow_fresh quiet_views [unfolded upd_manifest_def])

lemma manifests_grows: "dm_inv T d \<Longrightarrow> dm_grows T d T (d\<lparr> dm_manifests := ms \<rparr>)"
  by (rule dm_grows_cong [where xs = "[]"]) (auto intro: shadow_fresh)

lemma shadow_grows: "dm_inv T d \<Longrightarrow> (\<And>x. s = Some x \<Longrightarrow> x < dm_fresh d) \<Longrightarrow> dm_grows T d T (SetShadow s d)"
  by (rule dm_grows_cong [where xs = "[]"]) (auto simp: SetShadow_def [of _ d] intro: quiet_views [unfolded SetShadow_def])

lemma end_grows: "dm_inv T d \<Longrightarrow> dm_grows T d T (end_object a d)"
proof -
  have "view (end_object a d) x = view d x" for x by (simp add: end_object_def view_def node_def below_node_def load_names_of_def)
  then show "dm_inv T d \<Longrightarrow> dm_grows T d T (end_object a d)"
    by (intro dm_grows_cong [where xs = "[]"]) (auto simp: end_object_def [of _ d] intro: shadow_fresh)
qed

lemma lock_simps [simp]:
  "mf_loadNames (dm_manifest (lock_manifest m b d) x) = mf_loadNames (dm_manifest d x)"
  "mf_locked (dm_manifest (lock_manifest m b d) x) = (if x = m then b else mf_locked (dm_manifest d x))"
  "view (lock_manifest m b d) a = view d a" "dm_fresh (lock_manifest m b d) = dm_fresh d" "dm_unclaimedDevs (lock_manifest m b d) = dm_unclaimedDevs d"
  "dm_manifests (lock_manifest m b d) = dm_manifests d"
  by (simp_all add: lock_manifest_def) (simp_all add: upd_manifest_def)

lemma lock_inv:
  assumes "dm_inv T d"
  shows "dm_inv T (lock_manifest m b d)"
proof -
  have "dm_nodes (lock_manifest m b d) = dm_nodes d" "dm_idAlloc (lock_manifest m b d) = dm_idAlloc d"
    "dm_kernelInstance (lock_manifest m b d) = dm_kernelInstance d" "dm_shadow (lock_manifest m b d) = dm_shadow d"
    by (simp_all add: lock_manifest_def upd_manifest_def)
  then show ?thesis
    using shadow_fresh [OF assms] assms by (intro dm_inv_cong [OF assms]) (simp_all add: dm_inv_def objects_ok_def)
qed

text \<open>Steps between taking and releasing the lock of a manifest.\<close>

lemma unlock_grows:
  assumes "dm_grows T (lock_manifest m True d) T' d'" and "\<not> mf_locked (dm_manifest d m)"
  shows "dm_grows T d T' (lock_manifest m False d')"
  using assms lock_inv [of T' d'] by (auto simp: dm_grows_def)

lemma unclaimed_grows: "dm_inv T d \<Longrightarrow> x < dm_fresh d \<Longrightarrow> dm_grows T d T (d\<lparr> dm_unclaimedDevs := dm_unclaimedDevs d @ [x] \<rparr>)"
  by (rule dm_grows_cong [where xs = "[x]"]) (auto intro: shadow_fresh)

subsection \<open>New nodes\<close>

definition body_below :: "node_body \<Rightarrow> size_t option" where
  "body_below b = (case b of Driver_Instance i \<Rightarrow> di_consumedDevice i | Descriptor x \<Rightarrow> dd_sourceDriver x | Api x \<Rightarrow> Some (da_driver x))"

lemma new_node_view:
  "new_node i b d = (a, d1) \<Longrightarrow> view d1 x = (if x = a then (i, body_below b, case b of Descriptor y \<Rightarrow> dd_load_names y | _ \<Rightarrow> []) else view d x)"
  by (auto simp: new_node_def view_def node_def below_node_def load_names_of_def body_below_def)

text \<open>An object that is not in the tree yet.\<close>

definition loose :: "size_t rbt \<Rightarrow> driver_manager \<Rightarrow> size_t \<Rightarrow> bool" where
  "loose T d a \<longleftrightarrow> a \<notin> set (inord T) \<and> unhooked (rb_hooks (dm_nodes d) a) \<and> a < dm_fresh d"

lemma new_node_ok:
  assumes inv: "dm_inv T d" and new: "new_node i b d = (a, d1)" and i: "i < dm_idAlloc d"
    and below: "\<And>p. body_below b = Some p \<Longrightarrow> p < dm_fresh d \<and> ident d p < i"
  shows "dm_grows T d T d1" "loose T d1 a" "a = dm_fresh d" "view d1 a = (i, body_below b, case b of Descriptor y \<Rightarrow> dd_load_names y | _ \<Rightarrow> [])"
    "dm_idAlloc d1 = dm_idAlloc d" "dm_shadow d1 = dm_shadow d"
proof -
  have d1: "d1 = d\<lparr> dm_nodes := construct a \<lparr> nd_id = i, nd_body = b \<rparr> (dm_nodes d), dm_fresh := dm_fresh d + 1 \<rparr>" and a: "a = dm_fresh d"
    using new by (auto simp: new_node_def)
  note v = new_node_view [OF new]
  have f: "dm_idAlloc d1 = dm_idAlloc d" "dm_fresh d1 = dm_fresh d + 1" "dm_kernelInstance d1 = dm_kernelInstance d"
      "dm_shadow d1 = dm_shadow d" "dm_unclaimedDevs d1 = dm_unclaimedDevs d" "dm_manifest d1 = dm_manifest d" by (simp_all add: d1)
  have na: "a \<notin> set (inord T)" using inv a by (auto simp: dm_inv_def)
  have idn: "ident d1 x = (if x = a then i else ident d x)" "below_node d1 x = (if x = a then body_below b else below_node d x)" for x
    using v [of x] by (simp_all add: view_def ident_def split: if_splits)
  have "map (ident d1) (inord T) = map (ident d) (inord T)" using na by (auto simp: idn)
  then have "sorted_wrt (<) (map (ident d1) (inord T))" using inv by (simp only: dm_inv_def)
  moreover have "rb_rep (dm_nodes d1) T" using construct_rep [of "dm_nodes d" T a] inv na by (simp add: d1 dm_inv_def)
  moreover have "objects_ok d1"
  proof -
    have old: "ident d x < dm_idAlloc d \<and> (\<forall>p. below_node d x = Some p \<longrightarrow> p < dm_fresh d \<and> ident d p < ident d x)" if "x < dm_fresh d" for x
      using inv that by (simp add: dm_inv_def objects_ok_def)
    have "ident d1 x < dm_idAlloc d1 \<and> (\<forall>p. below_node d1 x = Some p \<longrightarrow> p < dm_fresh d1 \<and> ident d1 p < ident d1 x)" if "x < dm_fresh d1" for x
    proof (cases "x = a")
      case True
      then show ?thesis using i below by (auto simp: idn f a dest: below)
    next
      case False
      with that have "x < dm_fresh d" by (simp add: f a)
      from old [OF this] False show ?thesis by (auto simp: idn f a)
    qed
    then show ?thesis using inv by (auto simp: dm_inv_def objects_ok_def f)
  qed
  ultimately have "dm_inv T d1" using inv na unfolding dm_inv_def by (auto simp: idn f)
  then show "dm_grows T d T d1" using v a by (auto simp: dm_grows_def f)
  show "loose T d1 a" using na construct_fresh [of a] a by (simp add: loose_def d1)
  show "a = dm_fresh d" by (rule a)
  show "view d1 a = (i, body_below b, case b of Descriptor y \<Rightarrow> dd_load_names y | _ \<Rightarrow> [])" using v [of a] by simp
  show "dm_idAlloc d1 = dm_idAlloc d" "dm_shadow d1 = dm_shadow d" by (simp_all add: f)
qed

lemma take_id_inv: "dm_inv T d \<Longrightarrow> dm_grows T d T (snd (take_id d)) \<and> ident (snd (take_id d)) = ident d"
proof -
  assume inv: "dm_inv T d"
  have n: "node (snd (take_id d)) = node d" by (simp add: take_id_def node_def fun_eq_iff)
  then have v: "view (snd (take_id d)) = view d" "ident (snd (take_id d)) = ident d" "below_node (snd (take_id d)) = below_node d"
    by (simp_all add: view_def ident_def below_node_def load_names_of_def fun_eq_iff)
  then have "objects_ok (snd (take_id d))" using inv by (force simp: dm_inv_def objects_ok_def take_id_def)
  then show ?thesis using inv v by (auto simp: dm_grows_def dm_inv_def take_id_def)
qed

lemma nodeTree_Insert_ok:
  assumes inv: "dm_inv T d" and a: "loose T d a" and pos: "0 < ident d a" and top: "\<And>x. x \<in> set (inord T) \<Longrightarrow> ident d x < ident d a"
  shows "\<exists>d' T'. nodeTree_Insert a d = Some d' \<and> dm_grows T d T' d' \<and> inord T' = inord T @ [a] \<and> (\<forall>x. node d' x = node d x) \<and>
    dm_shadow d' = dm_shadow d \<and> dm_idAlloc d' = dm_idAlloc d \<and> dm_manifests d' = dm_manifests d \<and> dm_manifest d' = dm_manifest d \<and>
    dm_unclaimedDevs d' = dm_unclaimedDevs d \<and> dm_fresh d' = dm_fresh d"
proof -
  have rep: "rb_rep (dm_nodes d) T" and sorted: "sorted_wrt (<) (map (ident d) (inord T))" using inv by (simp_all add: dm_inv_def)
  have "DeviceNodeLess d = key_less (ident d)" by (simp add: DeviceNodeLess_def [abs_def] key_less_def [abs_def] ident_def)
  moreover have "filter (\<lambda>x. ident d x \<le> ident d a) (inord T) = inord T" "filter (\<lambda>x. ident d a < ident d x) (inord T) = []"
    using top by (fastforce simp: filter_id_conv filter_empty_conv)+
  ultimately obtain t T' where t: "rb_Insert NullAggregator (DeviceNodeLess d) a (dm_nodes d) = Some t" "rb_rep t T'" "inord T' = inord T @ [a]"
    using rb_insert_step [OF rep, of a "ident d" NullAggregator] a sorted by (auto simp: loose_def strict_sorted)
  let ?d = "d\<lparr> dm_nodes := t \<rparr>"
  have data: "rb_data t x = rb_data (dm_nodes d) x" for x by (rule rb_Insert_data [OF views_null t(1)])
  then have node: "node ?d x = node d x" for x by (simp add: node_def)
  then have v: "view ?d x = view d x" "ident ?d x = ident d x" "below_node ?d x = below_node d x" for x
    by (simp_all add: view_def ident_def below_node_def load_names_of_def)
  have "sorted_wrt (<) (map (ident d) (inord T'))" using sorted top by (auto simp: t(3) sorted_wrt_append)
  moreover have "ident ?d = ident d" by (rule ext) (rule v)
  ultimately have "dm_inv T' ?d" using inv t(2) a pos by (auto simp: dm_inv_def objects_ok_def v t(3) loose_def)
  then have "dm_grows T d T' ?d" using v by (simp add: dm_grows_def t(3) subset_insertI)
  then show ?thesis using t(1,3) node by (auto simp: nodeTree_Insert_def)
qed

lemma nodeTree_Remove_ok:
  assumes inv: "dm_inv T d" and a: "a \<in> set (inord T)"
  shows "\<exists>d' T'. nodeTree_Remove a d = Some d' \<and> dm_inv T' d' \<and> set (inord T') = set (inord T) - {a} \<and> (\<forall>x. view d' x = view d x) \<and>
    dm_shadow d' = dm_shadow d \<and> dm_unclaimedDevs d' = dm_unclaimedDevs d \<and> dm_fresh d' = dm_fresh d \<and> dm_manifest d' = dm_manifest d"
proof -
  have rep: "rb_rep (dm_nodes d) T" and sorted: "sorted_wrt (<) (map (ident d) (inord T))" using inv by (simp_all add: dm_inv_def)
  obtain t T' where t: "rb_Remove NullAggregator (Some a) (dm_nodes d) = Some t" "rb_rep t T'" "inord T' = filter (\<lambda>x. x \<noteq> a) (inord T)"
    using rb_remove_step [OF rep a, of NullAggregator] by blast
  let ?d = "d\<lparr> dm_nodes := t \<rparr>"
  have "rb_data t x = rb_data (dm_nodes d) x" for x by (rule rb_Remove_data [OF views_null t(1)])
  then have v: "view ?d x = view d x" "ident ?d x = ident d x" "below_node ?d x = below_node d x" for x
    by (simp_all add: view_def ident_def below_node_def load_names_of_def node_def)
  have "sorted_wrt (<) (map (ident d) (inord T'))" using sorted unfolding t(3) sorted_wrt_map by (simp add: sorted_wrt_filter)
  moreover have "ident ?d = ident d" by (rule ext) (rule v)
  ultimately have "dm_inv T' ?d" using inv t(2) by (auto simp: dm_inv_def objects_ok_def v t(3))
  moreover have "set (inord T') = set (inord T) - {a}" unfolding t(3) by auto
  ultimately show ?thesis using t(1) v by (auto simp: nodeTree_Remove_def)
qed

subsection \<open>Operations\<close>

lemma grows_ident: "dm_grows T d T' d' \<Longrightarrow> a < dm_fresh d \<Longrightarrow> ident d' a = ident d a \<and> a < dm_fresh d'"
  using view_eq [of d' a d a] by (simp add: dm_grows_def)

text \<open>An object with a new id enters the tree, after changes that keep what the tree depends on.\<close>

lemma enter_node:
  assumes inv: "dm_inv T d" and new: "new_node (fst (take_id d)) b (snd (take_id d)) = (a, d1)" and below: "\<And>p. body_below b = Some p \<Longrightarrow> p < dm_fresh d"
    and keeps: "dm_inv T d1 \<Longrightarrow> dm_grows T d1 T d2" "rb_hooks (dm_nodes d2) = rb_hooks (dm_nodes d1)"
  shows "\<exists>d3 T'. nodeTree_Insert a d2 = Some d3 \<and> dm_grows T d T' d3 \<and> a \<in> set (inord T') \<and> a < dm_fresh d3 \<and> (\<forall>x. node d3 x = node d2 x) \<and>
    view d3 a = (dm_idAlloc d, body_below b, case b of Descriptor y \<Rightarrow> dd_load_names y | _ \<Rightarrow> []) \<and> a = dm_fresh d \<and>
    dm_shadow d3 = dm_shadow d2 \<and> dm_manifests d3 = dm_manifests d2 \<and> dm_manifest d3 = dm_manifest d2 \<and> dm_unclaimedDevs d3 = dm_unclaimedDevs d2"
proof -
  let ?d0 = "snd (take_id d)"
  have g0: "dm_grows T d T ?d0" "ident ?d0 = ident d" using take_id_inv [OF inv] by simp_all
  have f0: "fst (take_id d) = dm_idAlloc d" "dm_idAlloc ?d0 = dm_idAlloc d + 1" "dm_fresh ?d0 = dm_fresh d" by (simp_all add: take_id_def)
  have small: "ident d x < dm_idAlloc d" if "x < dm_fresh d" for x using inv that by (simp add: dm_inv_def objects_ok_def)
  have "p < dm_fresh ?d0 \<and> ident ?d0 p < fst (take_id d)" if "body_below b = Some p" for p
    using below [OF that] small g0(2) f0 by simp
  note n = new_node_ok [OF dm_grows_inv [OF g0(1)] new _ this, unfolded f0, simplified]
  have d2: "dm_grows T d1 T d2" "rb_hooks (dm_nodes d2) = rb_hooks (dm_nodes d1)" using keeps(1) [OF dm_grows_inv [OF n(1)]] keeps(2) by simp_all
  have va: "view d2 a = (dm_idAlloc d, body_below b, case b of Descriptor y \<Rightarrow> dd_load_names y | _ \<Rightarrow> [])"
    using d2(1) n(2,4) by (simp add: dm_grows_def loose_def)
  have l2: "loose T d2 a" using n(2) d2 by (auto simp: loose_def dm_grows_def)
  have "0 < dm_idAlloc d" using inv by (auto simp: dm_inv_def objects_ok_def)
  moreover have "ident d2 a = dm_idAlloc d" using va by (simp add: view_def ident_def)
  moreover have "ident d2 x < dm_idAlloc d" if "x \<in> set (inord T)" for x
  proof -
    have x: "x < dm_fresh d" using inv that by (simp add: dm_inv_def)
    have "ident d2 x = ident d x" using grows_ident [OF dm_grows_trans [OF dm_grows_trans [OF g0(1) n(1)] d2(1)] x] by simp
    with small [OF x] show ?thesis by simp
  qed
  ultimately obtain d3 T' where d3: "nodeTree_Insert a d2 = Some d3" "dm_grows T d2 T' d3" "inord T' = inord T @ [a]" "\<forall>x. node d3 x = node d2 x"
      "dm_shadow d3 = dm_shadow d2" "dm_manifests d3 = dm_manifests d2" "dm_manifest d3 = dm_manifest d2" "dm_unclaimedDevs d3 = dm_unclaimedDevs d2"
      "dm_fresh d3 = dm_fresh d2"
    using nodeTree_Insert_ok [OF dm_grows_inv [OF d2(1)] l2] by auto
  have "dm_grows T d T' d3" using dm_grows_trans [OF dm_grows_trans [OF dm_grows_trans [OF g0(1) n(1)] d2(1)] d3(2)] .
  moreover have "view d3 a = view d2 a" using d3(2) l2 by (simp add: dm_grows_def loose_def)
  moreover have "a < dm_fresh d3" using l2 d3(9) by (simp add: loose_def)
  ultimately show ?thesis using d3 va n(3) f0(3) by auto
qed

lemma enter_instance:
  assumes "dm_inv T d" and "new_node (fst (take_id d)) (Driver_Instance i) (snd (take_id d)) = (a, d1)" and "dev < dm_fresh d"
    and "d2 = upd_body dev (upd_descriptor (\<lambda>x. x\<lparr> dd_attachedDriver := at \<rparr>)) d1" and "di_consumedDevice i = Some dev"
  shows "\<exists>d3 T'. nodeTree_Insert a d2 = Some d3 \<and> dm_grows T d T' d3 \<and> a \<in> set (inord T') \<and> a = dm_fresh d \<and> a < dm_fresh d3"
proof -
  have "dm_grows T d1 T d2" if "dm_inv T d1"
    unfolding assms(4) by (rule upd_body_grows [OF that]) (rule keeps_body_rules, simp)
  then obtain d3 T' where "nodeTree_Insert a d2 = Some d3" "dm_grows T d T' d3" "a \<in> set (inord T')" "a < dm_fresh d3" "a = dm_fresh d"
    using enter_node [OF assms(1,2), of d2] assms(3,5) by (auto simp: body_below_def assms(4))
  then show ?thesis by blast
qed

lemma remove_grows:
  assumes "dm_grows T d T1 d1" and "a \<in> set (inord T1)" and "a \<notin> set (inord T)"
  shows "\<exists>d2 T2. nodeTree_Remove a d1 = Some d2 \<and> dm_grows T d T2 d2"
proof -
  obtain d2 T2 where r: "nodeTree_Remove a d1 = Some d2" "dm_inv T2 d2" "set (inord T2) = set (inord T1) - {a}" "\<forall>x. view d2 x = view d1 x"
      "dm_unclaimedDevs d2 = dm_unclaimedDevs d1" "dm_fresh d2 = dm_fresh d1" "dm_manifest d2 = dm_manifest d1"
    using nodeTree_Remove_ok [OF dm_grows_inv [OF assms(1)] assms(2)] by auto
  then have "dm_grows T d T2 d2" using assms(1,3) unfolding dm_grows_def by auto
  with r(1) show ?thesis by blast
qed

text \<open>An interface enters the tree.\<close>

lemma api_grows:
  assumes inv: "dm_inv T d" and owner: "\<And>a. owner = Some a \<Longrightarrow> a < dm_fresh d"
  shows "\<exists>d' T'. AddApi api owner d = Some (case api of None \<Rightarrow> False | Some x \<Rightarrow> VerifyDeviceApi x, d') \<and> dm_grows T d T' d' \<and>
    (\<forall>x. api = Some x \<and> VerifyDeviceApi x \<longrightarrow> (\<exists>a \<in> set (inord T'). ident d' a = dm_idAlloc d))"
proof (cases "case api of None \<Rightarrow> False | Some x \<Rightarrow> VerifyDeviceApi x")
  case False
  then show ?thesis using dm_grows_refl [OF inv] by (auto simp: AddApi_def split: option.splits)
next
  case True
  then obtain x where x: "api = Some x" "VerifyDeviceApi x" by (auto split: option.splits)
  define own where "own = (case owner of None \<Rightarrow> dm_kernelInstance d | Some a \<Rightarrow> a)"
  have own: "own < dm_fresh d" using inv owner by (auto simp: own_def dm_inv_def objects_ok_def split: option.splits)
  obtain a d1 where n: "new_node (fst (take_id d)) (Api \<lparr> da_driver = own, da_api = x \<rparr>) (snd (take_id d)) = (a, d1)" by fastforce
  obtain d3 T' where d3: "nodeTree_Insert a d1 = Some d3" "dm_grows T d T' d3" "a \<in> set (inord T')" "view d3 a = (dm_idAlloc d, Some own, [])"
    using enter_node [OF inv n, of d1] own by (auto simp: body_below_def dm_grows_refl)
  let ?d4 = "upd_body own (upd_instance (\<lambda>i. i\<lparr> di_apis := di_apis i @ [a] \<rparr>)) d3"
  let ?d5 = "upd_stats (\<lambda>s. s\<lparr> st_apiCount := sz_add (st_apiCount s) 1 \<rparr>) ?d4"
  have g4: "dm_grows T' d3 T' ?d4" by (rule upd_body_grows [OF dm_grows_inv [OF d3(2)]]) (rule keeps_body_rules, simp)
  have g5: "dm_grows T' d3 T' ?d5" by (rule dm_grows_trans [OF g4 stats_grows [OF dm_grows_inv [OF g4]]])
  have a: "a < dm_fresh d3" using d3(2,3) by (simp add: dm_grows_def dm_inv_def)
  have "view ?d5 a = view d3 a" using g5 a by (simp only: dm_grows_def)
  then have "ident ?d5 a = dm_idAlloc d" using d3(4) by (simp add: view_def ident_def)
  moreover have "AddApi api owner d = Some (True, ?d5)"
    using x n d3(1) by (simp add: AddApi_def own_def [symmetric] case_prod_beta Let_def)
  ultimately show ?thesis using dm_grows_trans [OF d3(2) g5] d3(3) x by auto
qed

text \<open>Lookups find the nodes of the tree.\<close>

lemma GetById_ok:
  assumes "dm_inv T d"
  shows "\<exists>found. GetById i d = Some found \<and> (\<forall>a. found = Some a \<longleftrightarrow> a \<in> set (inord T) \<and> ident d a = i)"
proof (cases "i = 0")
  case True
  then show ?thesis using assms by (auto simp: GetById_def dm_inv_def)
next
  case False
  then show ?thesis using key_search_ok [of "dm_nodes d" T nd_id i] assms by (simp add: GetById_def dm_inv_def ident_def [abs_def] node_def)
qed

lemma transport_grows: "dm_inv T d \<Longrightarrow> \<exists>ok d'. SetTransportApi driver api d = Some (ok, d') \<and> dm_grows T d T d'"
proof -
  assume inv: "dm_inv T d"
  obtain found where "GetById api d = Some found" using GetById_ok [OF inv] by blast
  then obtain r where "GetApi api d = Some r" by (simp add: GetApi_def)
  moreover have "dm_grows T d T (upd_body i (upd_instance (\<lambda>x. x\<lparr> di_transportDevice := a \<rparr>)) d)" for i a
    by (rule upd_body_grows [OF inv]) (rule keeps_body_rules, simp)
  ultimately show ?thesis using dm_grows_refl [OF inv] by (auto simp: SetTransportApi_def split: option.split)
qed

lemma npk_api_grows: "dm_inv T d \<Longrightarrow> \<exists>ok d' T'. npk_add_device_api api d = Some (ok, d') \<and> dm_grows T d T' d'"
proof (cases "dm_shadow d")
  case None
  moreover assume "dm_inv T d"
  ultimately show ?thesis using dm_grows_refl by (auto simp: npk_add_device_api_def GetShadow_def)
next
  case (Some x)
  assume inv: "dm_inv T d"
  from api_grows [OF inv, of "Some x" api] shadow_fresh [OF inv Some] Some
  show ?thesis by (auto simp: npk_add_device_api_def GetShadow_def)
qed

lemma npk_transport_grows: "dm_inv T d \<Longrightarrow> \<exists>ok d'. npk_set_transport_api i d = Some (ok, d') \<and> dm_grows T d T d'"
  using transport_grows [of T d "dm_shadow d" i] dm_grows_refl [of T d]
  by (cases "dm_shadow d") (auto simp: npk_set_transport_api_def GetShadow_def)

text \<open>A device that is found once is found again: nothing takes it off the list.\<close>

lemma still_located:
  assumes inv: "dm_inv T d" and g: "dm_grows T d T' d'" and dev: "LocateDevice names d = Some dev"
  shows "LocateDevice names d' = Some dev"
proof -
  obtain xs where xs: "dm_unclaimedDevs d' = dm_unclaimedDevs d @ xs" using g by (auto simp: dm_grows_def)
  have "load_names_of d' a = load_names_of d a" if "a \<in> set (dm_unclaimedDevs d)" for a
    using g inv that view_eq [of d' a d a] by (simp add: dm_grows_def dm_inv_def objects_ok_def)
  then have "find (\<lambda>a. names_match (load_names_of d' a) names) (dm_unclaimedDevs d) = find (\<lambda>a. names_match (load_names_of d a) names) (dm_unclaimedDevs d)"
    by (intro find_cong) simp_all
  then show ?thesis using dev by (simp add: LocateDevice_def xs find_append)
qed

text \<open>
  The rest of \<open>AddDescriptor\<close> after the descriptor has entered the tree.
\<close>

definition claim :: "dm_env \<Rightarrow> load_name list \<Rightarrow> size_t \<Rightarrow> size_t \<Rightarrow> driver_manager \<Rightarrow> (size_t \<times> driver_manager) option" where
  "claim env names i desc d =
     (case LocateDriver names d of
        None \<Rightarrow> Some (i, d\<lparr> dm_unclaimedDevs := dm_unclaimedDevs d @ [desc] \<rparr>)
      | Some m \<Rightarrow> map_option (\<lambda>(ok, d). (i, if ok then d else d\<lparr> dm_unclaimedDevs := dm_unclaimedDevs d @ [desc] \<rparr>)) (AttachDevice env (Some m) (Some desc) d))"

lemma descriptor_enters:
  assumes inv: "dm_inv T d"
  shows "\<exists>a d1 T1. AddDescriptor env (Some names) d = claim env names (dm_idAlloc d) a d1 \<and> dm_grows T d T1 d1 \<and> a \<in> set (inord T1) \<and> a < dm_fresh d1 \<and>
    ident d1 a = dm_idAlloc d \<and> load_names_of d1 a = names \<and> dm_manifests d1 = dm_manifests d \<and> dm_manifest d1 = dm_manifest d"
proof -
  define source where "source = (case GetShadow d of None \<Rightarrow> dm_kernelInstance d | Some s \<Rightarrow> s)"
  have source: "source < dm_fresh d" using inv by (auto simp: source_def GetShadow_def dm_inv_def objects_ok_def split: option.splits)
  let ?b = "Descriptor \<lparr> dd_load_names = names, dd_sourceDriver = Some source, dd_attachedDriver = None \<rparr>"
  obtain a d1 where n: "new_node (fst (take_id d)) ?b (snd (take_id d)) = (a, d1)" by fastforce
  define d2 where "d2 = upd_stats (\<lambda>x. x\<lparr> st_totalDescriptors := sz_add (st_totalDescriptors x) 1, st_unclaimedDescriptors := sz_add (st_unclaimedDescriptors x) 1 \<rparr>)
    (upd_body source (upd_instance (\<lambda>x. x\<lparr> di_providedDevices := di_providedDevices x @ [a] \<rparr>)) d1)"
  have "dm_grows T d1 T d2" if "dm_inv T d1"
  proof -
    have g: "dm_grows T d1 T (upd_body source (upd_instance (\<lambda>x. x\<lparr> di_providedDevices := di_providedDevices x @ [a] \<rparr>)) d1)"
      by (rule upd_body_grows [OF that]) (rule keeps_body_rules, simp)
    show ?thesis unfolding d2_def by (rule dm_grows_trans [OF g stats_grows [OF dm_grows_inv [OF g]]])
  qed
  then obtain d3 T3 where d3: "nodeTree_Insert a d2 = Some d3" "dm_grows T d T3 d3" "a \<in> set (inord T3)" "a < dm_fresh d3"
      "view d3 a = (dm_idAlloc d, Some source, names)" "dm_manifests d3 = dm_manifests d1" "dm_manifest d3 = dm_manifest d1"
    using enter_node [OF inv n, of d2] source by (auto simp: body_below_def d2_def upd_stats_def)
  have ms: "dm_manifests d1 = dm_manifests d" "dm_manifest d1 = dm_manifest d" using n by (auto simp: new_node_def take_id_def)
  have "AddDescriptor env (Some names) d = claim env names (dm_idAlloc d) a d3"
    using n d3(1) [unfolded d2_def]
    by (simp add: AddDescriptor_def claim_def source_def [symmetric] case_prod_beta Let_def take_id_def map_option_case if_distrib split: option.split)
  then show ?thesis using d3 ms by (auto simp: view_def ident_def)
qed

text \<open>The driver of a manifest answers every event, in every state with these names and locks of the manifests.\<close>

definition answers :: "dm_env \<Rightarrow> nat \<Rightarrow> driver_manager \<Rightarrow> bool" where
  "answers env m d \<longleftrightarrow> (\<forall>e T1 d1. dm_inv T1 d1 \<and> (\<forall>x. mf_loadNames (dm_manifest d1 x) = mf_loadNames (dm_manifest d x) \<and>
     mf_locked (dm_manifest d1 x) = mf_locked (dm_manifest d x)) \<longrightarrow> en_ProcessEvent env m e d1 \<noteq> None)"

text \<open>The code of the drivers changes the manager through its operations only.\<close>

text \<open>What follows an event of a driver in \<open>load_driver\<close> and in \<open>AttachDevice\<close>.\<close>

definition init_done :: "size_t \<Rightarrow> size_t option \<Rightarrow> bool \<times> driver_manager \<Rightarrow> bool \<times> driver_manager" where
  "init_done x shadow r =
     (let d = end_object x (SetShadow shadow (snd r))
      in (fst r, if fst r then d else upd_stats (\<lambda>x. x\<lparr> st_loadedCount := sz_sub (st_loadedCount x) 1 \<rparr>) d))"

definition attach_done :: "size_t \<Rightarrow> size_t \<Rightarrow> size_t option \<Rightarrow> bool \<times> driver_manager \<Rightarrow> (bool \<times> driver_manager) option" where
  "attach_done a dev shadow r =
     (let d = SetShadow shadow (snd r)
      in if fst r then Some (True, upd_stats (\<lambda>x. x\<lparr> st_unclaimedDescriptors := sz_sub (st_unclaimedDescriptors x) 1 \<rparr>) d)
         else map_option (\<lambda>d. (False, upd_body dev (upd_descriptor (\<lambda>x. x\<lparr> dd_attachedDriver := None \<rparr>)) d)) (nodeTree_Remove a d))"

locale driver_code =
  fixes env :: dm_env
  assumes process_grows: "dm_inv T d \<Longrightarrow> en_ProcessEvent env m e d = Some (r, d') \<Longrightarrow> \<exists>T'. dm_grows T d T' d'"
begin

lemma shadowed_process:
  assumes inv: "dm_inv T d" and s: "x < dm_fresh d" and run: "en_ProcessEvent env m e (SetShadow (Some x) d) = Some (ok, d')"
  shows "\<exists>T'. dm_grows T d T' (SetShadow (dm_shadow d) d')"
proof -
  have g: "dm_grows T d T (SetShadow (Some x) d)" using inv s by (intro shadow_grows) simp_all
  obtain T' where T': "dm_grows T (SetShadow (Some x) d) T' d'" using process_grows [OF dm_grows_inv [OF g] run] by auto
  have gt: "dm_grows T d T' d'" by (rule dm_grows_trans [OF g T'])
  then have "dm_grows T' d' T' (SetShadow (dm_shadow d) d')"
    using shadow_fresh [OF inv] by (intro shadow_grows) (auto simp: dm_grows_def intro: less_le_trans)
  with gt show ?thesis using dm_grows_trans by blast
qed

lemma answers_after: "answers env m d \<Longrightarrow> dm_grows T d T1 d1 \<Longrightarrow> answers env m d1"
  by (simp add: answers_def dm_grows_def)

lemma answers_shadow:
  assumes "answers env m d" and "dm_grows T d T1 d1" and "x < dm_fresh d1"
  shows "\<exists>ok d2. en_ProcessEvent env m e (SetShadow (Some x) d1) = Some (ok, d2)"
proof -
  have "dm_grows T1 d1 T1 (SetShadow (Some x) d1)" using assms(3) dm_grows_inv [OF assms(2)] by (intro shadow_grows) simp_all
  then have "dm_grows T d T1 (SetShadow (Some x) d1)" by (rule dm_grows_trans [OF assms(2)])
  then show ?thesis using assms(1) unfolding answers_def dm_grows_def by fastforce
qed

lemma load_steps:
  assumes inv: "dm_inv T d" and "\<not> mf_runtimeImage (dm_manifest d k)" and load: "en_LoadElf env k = (True, True)"
  shows "\<exists>x d4. dm_grows T d T d4 \<and> x < dm_fresh d4 \<and> dm_manifests d4 = dm_manifests d \<and> load_driver env k d = map_option (init_done x (dm_shadow d4)) (en_ProcessEvent env k Ev_Init (SetShadow (Some x) d4))"
proof -
  define d1 where "d1 = upd_manifest k (\<lambda>x. x\<lparr> mf_runtimeImage := True \<rparr>) d"
  define d2 where "d2 = upd_manifest k (\<lambda>x. x\<lparr> mf_ProcessEvent := True \<rparr>) d1"
  define d3 where "d3 = upd_stats (\<lambda>x. x\<lparr> st_loadedCount := sz_add (st_loadedCount x) 1 \<rparr>) d2"
  have g1: "dm_grows T d T d1" unfolding d1_def by (rule manifest_grows [OF inv]) simp
  have g2: "dm_grows T d1 T d2" unfolding d2_def by (rule manifest_grows [OF dm_grows_inv [OF g1]]) simp
  have g3: "dm_grows T d2 T d3" unfolding d3_def by (rule stats_grows [OF dm_grows_inv [OF g2]])
  obtain x d4 where n: "new_node 0 (Driver_Instance (blank_instance\<lparr> di_manifest := Some k \<rparr>)) d3 = (x, d4)" by fastforce
  have "0 < dm_idAlloc d3" using dm_grows_inv [OF g3] by (auto simp: dm_inv_def objects_ok_def)
  note g4 = new_node_ok [OF dm_grows_inv [OF g3] n this, simplified body_below_def blank_instance_def, simplified]
  have "dm_grows T d T d4" using g1 g2 g3 g4(1) dm_grows_trans by blast
  moreover have "x < dm_fresh d4" using g4(2) by (simp add: loose_def)
  moreover have "dm_manifests d4 = dm_manifests d"
    using n by (auto simp: new_node_def d3_def d2_def d1_def upd_stats_def upd_manifest_def)
  moreover have "load_driver env k d = map_option (init_done x (dm_shadow d4)) (en_ProcessEvent env k Ev_Init (SetShadow (Some x) d4))"
    using assms(2,3) n [unfolded d3_def d2_def d1_def]
    by (cases "en_ProcessEvent env k Ev_Init (SetShadow (Some x) d4)") (auto simp: load_driver_def Let_def GetShadow_def init_done_def)
  ultimately show ?thesis by blast
qed

lemma load_early:
  assumes "mf_runtimeImage (dm_manifest d k) \<or> en_LoadElf env k \<noteq> (True, True)" and inv: "dm_inv T d"
  shows "\<exists>ok d'. load_driver env k d = Some (ok, d') \<and> dm_grows T d T d'"
  using assms(1) dm_grows_refl [OF inv] manifest_grows [OF inv, of "\<lambda>x. x\<lparr> mf_runtimeImage := i \<rparr>" k for i]
  by (cases "en_LoadElf env k") (auto simp: load_driver_def Let_def)

lemma load_grows:
  assumes inv: "dm_inv T d" and run: "load_driver env k d = Some (ok, d')"
  shows "\<exists>T'. dm_grows T d T' d'"
proof (cases "mf_runtimeImage (dm_manifest d k) \<or> en_LoadElf env k \<noteq> (True, True)")
  case True
  from load_early [OF this inv] run show ?thesis by auto
next
  case False
  then obtain x d4 where d4: "dm_grows T d T d4" "x < dm_fresh d4" "load_driver env k d = map_option (init_done x (dm_shadow d4)) (en_ProcessEvent env k Ev_Init (SetShadow (Some x) d4))"
    using load_steps [OF inv] by blast
  from d4(3) run have "map_option (init_done x (dm_shadow d4)) (en_ProcessEvent env k Ev_Init (SetShadow (Some x) d4)) = Some (ok, d')" by simp
  then obtain d5 where p: "en_ProcessEvent env k Ev_Init (SetShadow (Some x) d4) = Some (ok, d5)" "d' = snd (init_done x (dm_shadow d4) (ok, d5))"
    by (auto simp: init_done_def Let_def)
  obtain T' where g5: "dm_grows T d4 T' (SetShadow (dm_shadow d4) d5)" using shadowed_process [OF dm_grows_inv [OF d4(1)] d4(2) p(1)] by blast
  note g6 = dm_grows_trans [OF d4(1) dm_grows_trans [OF g5 end_grows [OF dm_grows_inv [OF g5], of x]]]
  have "dm_grows T d T' (upd_stats f (end_object x (SetShadow (dm_shadow d4) d5)))" for f
    by (rule dm_grows_trans [OF g6 stats_grows [OF dm_grows_inv [OF g6]]])
  then show ?thesis using g6 p(2) by (auto simp: init_done_def Let_def)
qed

lemma load_returns:
  assumes inv: "dm_inv T d" and "answers env k d"
  shows "load_driver env k d \<noteq> None"
proof (cases "mf_runtimeImage (dm_manifest d k) \<or> en_LoadElf env k \<noteq> (True, True)")
  case True
  from load_early [OF this inv] show ?thesis by auto
next
  case False
  then obtain x d4 where d4: "dm_grows T d T d4" "x < dm_fresh d4" "load_driver env k d = map_option (init_done x (dm_shadow d4)) (en_ProcessEvent env k Ev_Init (SetShadow (Some x) d4))"
    using load_steps [OF inv] by blast
  then show ?thesis using answers_shadow [OF assms(2) d4(1,2), of Ev_Init] by auto
qed

lemma ensure_grows:
  assumes inv: "dm_inv T d" and run: "EnsureRunning env m d = Some (ok, d')"
  shows "\<exists>T'. dm_grows T d T' d'"
proof (cases m)
  case None
  then show ?thesis using run dm_grows_refl [OF inv] by (auto simp: EnsureRunning_def)
next
  case (Some k)
  then obtain d1 where r: "\<not> mf_locked (dm_manifest d k)" "load_driver env k (lock_manifest k True d) = Some (ok, d1)" "d' = lock_manifest k False d1"
    using run by (auto simp: EnsureRunning_def bind_eq_Some_conv split: if_splits)
  then show ?thesis using load_grows [OF lock_inv [OF inv] r(2)] unlock_grows by blast
qed

lemma ensure_returns:
  assumes "dm_inv T d" and "\<not> mf_locked (dm_manifest d k)" and "answers env k (lock_manifest k True d)"
  shows "\<exists>ok d'. EnsureRunning env (Some k) d = Some (ok, d')"
  using load_returns [OF lock_inv [OF assms(1)] assms(3)] assms(2) by (auto simp: EnsureRunning_def)

lemma attach_steps:
  assumes inv: "dm_inv T d" and dev: "dev < dm_fresh d" and run: "EnsureRunning env (Some m) d = Some (True, d0)"
  shows "\<exists>a d3 T3. dm_grows T d T3 d3 \<and> a \<in> set (inord T3) \<and> a \<notin> set (inord T) \<and> a < dm_fresh d3 \<and> AttachDevice env (Some m) (Some dev) d =
      Option.bind (en_ProcessEvent env m (Ev_AddDevice (nd_id (node d3 dev))) (SetShadow (Some a) d3)) (attach_done a dev (dm_shadow d3))"
proof -
  obtain T0 where g0: "dm_grows T d T0 d0" using ensure_grows [OF inv run] by blast
  let ?b = "Driver_Instance (blank_instance\<lparr> di_manifest := Some m, di_consumedDevice := Some dev \<rparr>)"
  obtain a d1 where n: "new_node (fst (take_id d0)) ?b (snd (take_id d0)) = (a, d1)" by fastforce
  define d2 where "d2 = upd_body dev (upd_descriptor (\<lambda>x. x\<lparr> dd_attachedDriver := Some a \<rparr>)) d1"
  have dev0: "dev < dm_fresh d0" using g0 dev by (simp add: dm_grows_def)
  obtain d3 T3 where d3: "nodeTree_Insert a d2 = Some d3" "dm_grows T0 d0 T3 d3" "a \<in> set (inord T3)" "a = dm_fresh d0" "a < dm_fresh d3"
    using enter_instance [OF dm_grows_inv [OF g0] n dev0 d2_def] by auto
  have "a \<notin> set (inord T)" using d3(4) inv g0 by (auto simp: dm_grows_def dm_inv_def)
  moreover have "AttachDevice env (Some m) (Some dev) d =
      Option.bind (en_ProcessEvent env m (Ev_AddDevice (nd_id (node d3 dev))) (SetShadow (Some a) d3)) (attach_done a dev (dm_shadow d3))"
    using run n d3(1) [unfolded d2_def]
    by (cases "en_ProcessEvent env m (Ev_AddDevice (nd_id (node d3 dev))) (SetShadow (Some a) d3)")
      (auto simp: AttachDevice_def attach_done_def Let_def case_prod_beta GetShadow_def map_option_case split: option.split)
  ultimately show ?thesis using d3 dm_grows_trans [OF g0 d3(2)] by blast
qed

lemma attach_grows:
  assumes inv: "dm_inv T d" and dev: "dev < dm_fresh d" and att: "AttachDevice env (Some m) (Some dev) d = Some (ok, d')"
  shows "\<exists>T'. dm_grows T d T' d'"
proof -
  obtain running d0 where run: "EnsureRunning env (Some m) d = Some (running, d0)"
    using att by (auto simp: AttachDevice_def bind_eq_Some_conv)
  show ?thesis
  proof (cases running)
    case False
    then show ?thesis using run att ensure_grows [OF inv run] by (auto simp: AttachDevice_def)
  next
    case True
    then obtain a d3 T3 where d3: "dm_grows T d T3 d3" "a \<in> set (inord T3)" "a \<notin> set (inord T)" "a < dm_fresh d3" "AttachDevice env (Some m) (Some dev) d =
      Option.bind (en_ProcessEvent env m (Ev_AddDevice (nd_id (node d3 dev))) (SetShadow (Some a) d3)) (attach_done a dev (dm_shadow d3))"
      using attach_steps [OF inv dev, of m d0] run by auto
    from d3(5) att have "Option.bind (en_ProcessEvent env m (Ev_AddDevice (nd_id (node d3 dev))) (SetShadow (Some a) d3)) (attach_done a dev (dm_shadow d3)) = Some (ok, d')"
      by simp
    then obtain d4 where p: "en_ProcessEvent env m (Ev_AddDevice (nd_id (node d3 dev))) (SetShadow (Some a) d3) = Some (ok, d4)"
        "attach_done a dev (dm_shadow d3) (ok, d4) = Some (ok, d')"
      by (auto simp: bind_eq_Some_conv attach_done_def Let_def split: if_splits)
    obtain T5 where g5: "dm_grows T3 d3 T5 (SetShadow (dm_shadow d3) d4)" using shadowed_process [OF dm_grows_inv [OF d3(1)] d3(4) p(1)] by blast
    note all = dm_grows_trans [OF d3(1) g5]
    have a: "a \<in> set (inord T5)" using g5 d3(2) by (auto simp: dm_grows_def)
    obtain d6 T6 where r: "nodeTree_Remove a (SetShadow (dm_shadow d3) d4) = Some d6" "dm_grows T d T6 d6" using remove_grows [OF all a d3(3)] by blast
    have "dm_grows T d T6 (upd_body dev (upd_descriptor (\<lambda>x. x\<lparr> dd_attachedDriver := None \<rparr>)) d6)"
      by (rule dm_grows_trans [OF r(2) upd_body_grows [OF dm_grows_inv [OF r(2)]]]) (rule keeps_body_rules, simp)
    moreover have "dm_grows T d T5 (upd_stats f (SetShadow (dm_shadow d3) d4))" for f
      by (rule dm_grows_trans [OF all stats_grows [OF dm_grows_inv [OF all]]])
    ultimately show ?thesis using p(2) r(1) by (cases ok) (auto simp: attach_done_def Let_def)
  qed
qed

lemma attach_returns:
  assumes inv: "dm_inv T d" and dev: "dev < dm_fresh d" and free: "\<not> mf_locked (dm_manifest d m)"
    and ans: "answers env m (lock_manifest m True d)" "answers env m d"
  shows "\<exists>ok d'. AttachDevice env (Some m) (Some dev) d = Some (ok, d')"
proof -
  obtain running d0 where run: "EnsureRunning env (Some m) d = Some (running, d0)" using ensure_returns [OF inv free ans(1)] by blast
  show ?thesis
  proof (cases running)
    case False
    then show ?thesis using run by (auto simp: AttachDevice_def)
  next
    case True
    then obtain a d3 T3 where d3: "dm_grows T d T3 d3" "a \<in> set (inord T3)" "a \<notin> set (inord T)" "a < dm_fresh d3" "AttachDevice env (Some m) (Some dev) d =
      Option.bind (en_ProcessEvent env m (Ev_AddDevice (nd_id (node d3 dev))) (SetShadow (Some a) d3)) (attach_done a dev (dm_shadow d3))"
      using attach_steps [OF inv dev, of m d0] run by auto
    obtain ok d4 where p: "en_ProcessEvent env m (Ev_AddDevice (nd_id (node d3 dev))) (SetShadow (Some a) d3) = Some (ok, d4)"
      using answers_shadow [OF ans(2) d3(1,4)] by blast
    obtain T5 where g5: "dm_grows T3 d3 T5 (SetShadow (dm_shadow d3) d4)" using shadowed_process [OF dm_grows_inv [OF d3(1)] d3(4) p] by blast
    have "a \<in> set (inord T5)" using g5 d3(2) by (auto simp: dm_grows_def)
    then obtain d6 where "nodeTree_Remove a (SetShadow (dm_shadow d3) d4) = Some d6"
      using remove_grows [OF dm_grows_trans [OF d3(1) g5] _ d3(3)] by blast
    then show ?thesis using p d3(5) by (cases ok) (auto simp: attach_done_def Let_def)
  qed
qed

lemma claim_grows:
  assumes inv: "dm_inv T d" and a: "a < dm_fresh d" and run: "claim env names i a d = Some (j, d')"
  shows "\<exists>T'. dm_grows T d T' d' \<and> j = i"
proof (cases "LocateDriver names d")
  case None
  then show ?thesis using run unclaimed_grows [OF inv a] by (auto simp: claim_def)
next
  case (Some m)
  then obtain ok d1 where r: "AttachDevice env (Some m) (Some a) d = Some (ok, d1)" "j = i" "d' = (if ok then d1 else d1\<lparr> dm_unclaimedDevs := dm_unclaimedDevs d1 @ [a] \<rparr>)"
    using run by (auto simp: claim_def)
  obtain T1 where g: "dm_grows T d T1 d1" using attach_grows [OF inv a r(1)] by blast
  have "a < dm_fresh d1" using g a by (simp add: dm_grows_def)
  then have "dm_grows T d T1 (d1\<lparr> dm_unclaimedDevs := dm_unclaimedDevs d1 @ [a] \<rparr>)"
    using unclaimed_grows [OF dm_grows_inv [OF g]] dm_grows_trans [OF g] by blast
  then show ?thesis using g r(2,3) by auto
qed

text \<open>The device is in the tree, and stays on the list if there are no drivers.\<close>

lemma descriptor_grows:
  assumes inv: "dm_inv T d" and run: "AddDescriptor env (Some names) d = Some (i, d')"
  shows "\<exists>T' a. i = dm_idAlloc d \<and> dm_grows T d T' d' \<and> a \<in> set (inord T') \<and> ident d' a = dm_idAlloc d \<and> load_names_of d' a = names"
proof -
  obtain a d1 T1 where e: "AddDescriptor env (Some names) d = claim env names (dm_idAlloc d) a d1" "dm_grows T d T1 d1" "a \<in> set (inord T1)" "a < dm_fresh d1"
      "ident d1 a = dm_idAlloc d" "load_names_of d1 a = names"
    using descriptor_enters [OF inv] by blast
  have "claim env names (dm_idAlloc d) a d1 = Some (i, d')" using run e(1) by simp
  from claim_grows [OF dm_grows_inv [OF e(2)] e(4) this] obtain T' where g: "dm_grows T1 d1 T' d'" "i = dm_idAlloc d" by blast
  then have "a \<in> set (inord T')" "view d' a = view d1 a" using e(3,4) by (auto simp: dm_grows_def)
  then show ?thesis using g e dm_grows_trans [OF e(2) g(1)] view_eq [of d' a d1 a] by auto
qed

lemma descriptor_returns:
  assumes inv: "dm_inv T d"
    and ok: "\<And>m. names_match (mf_loadNames (dm_manifest d m)) names \<Longrightarrow>
      \<not> mf_locked (dm_manifest d m) \<and> answers env m d \<and> answers env m (lock_manifest m True d)"
  shows "\<exists>i d'. AddDescriptor env (Some names) d = Some (i, d')"
proof -
  obtain a d1 T1 where e: "AddDescriptor env (Some names) d = claim env names (dm_idAlloc d) a d1" "dm_grows T d T1 d1" "a < dm_fresh d1"
      "dm_manifest d1 = dm_manifest d"
    using descriptor_enters [OF inv] by blast
  show ?thesis
  proof (cases "LocateDriver names d1")
    case None
    then show ?thesis using e(1) by (simp add: claim_def)
  next
    case (Some m)
    then have "names_match (mf_loadNames (dm_manifest d m)) names" using e(4) by (auto simp: LocateDriver_def find_Some_iff)
    note m = ok [OF this]
    have "answers env m (lock_manifest m True d1)" using m unfolding answers_def lock_simps e(4) by blast
    then obtain r where "AttachDevice env (Some m) (Some a) d1 = Some r"
      using attach_returns [OF dm_grows_inv [OF e(2)] e(3)] m answers_after [OF _ e(2)] e(4) by (metis surj_pair)
    then show ?thesis using Some e(1) by (cases r) (simp add: claim_def)
  qed
qed

lemma attach_loop_stuck:
  assumes "dm_inv T d" and "LocateDevice (mf_loadNames (dm_manifest d m)) d = Some dev"
  shows "attach_loop env m d = None"
proof (rule ccontr)
  assume "attach_loop env m d \<noteq> None"
  then obtain r where run: "attach_loop env m d = Some r" by blast
  let ?P = "\<lambda>env' m' d'. env' = env \<and> m' = m \<and> (\<exists>T. dm_inv T d') \<and> LocateDevice (mf_loadNames (dm_manifest d' m)) d' = Some dev"
  have "?P env' m' d' \<longrightarrow> False" if "attach_loop env' m' d' = Some r'" for env' m' d' r'
  proof (rule attach_loop.raw_induct [of "\<lambda>env' m' d' r'. ?P env' m' d' \<longrightarrow> False", OF _ that], intro impI, goal_cases)
    case (1 f env' m' d' r')
    then obtain T where e: "env' = env" "m' = m" and T: "dm_inv T d'" and dev: "LocateDevice (mf_loadNames (dm_manifest d' m)) d' = Some dev" by blast
    have fresh: "dev < dm_fresh d'" using T dev by (auto simp: LocateDevice_def find_Some_iff dm_inv_def objects_ok_def)
    obtain ok d1 where r: "AttachDevice env (Some m) (Some dev) d' = Some (ok, d1)" using 1(2) e dev by (auto simp: bind_eq_Some_conv)
    then obtain T1 where r2: "dm_grows T d' T1 d1" using attach_grows [OF T fresh] by blast
    let ?d2 = "if ok then d1 else d1\<lparr> dm_unclaimedDevs := dm_unclaimedDevs d1 @ [dev] \<rparr>"
    have "dm_grows T1 d1 T1 ?d2"
      using dm_grows_refl [OF dm_grows_inv [OF r2]] unclaimed_grows [OF dm_grows_inv [OF r2], of dev] r2 fresh by (auto simp: dm_grows_def)
    then have g: "dm_grows T d' T1 ?d2" by (rule dm_grows_trans [OF r2])
    have "LocateDevice (mf_loadNames (dm_manifest ?d2 m)) ?d2 = Some dev"
      using still_located [OF T g dev] g by (simp add: dm_grows_def)
    then have "?P env m ?d2" using dm_grows_inv [OF g] by blast
    moreover have "f env m ?d2 = Some r'" using 1(2) e dev r by (simp split: if_splits)
    ultimately show ?case using 1(1) by blast
  qed
  with run assms show False by blast
qed

lemma npk_desc_grows: "dm_inv T d \<Longrightarrow> npk_add_device_desc env x d = Some (i, d') \<Longrightarrow> \<exists>T'. dm_grows T d T' d'"
  using descriptor_grows [of T d "the x"] dm_grows_refl [of T d] by (cases x) (auto simp: npk_add_device_desc_def)

lemma prog_grows: "dm_inv T d \<Longrightarrow> run_prog env p d = Some (ok, d') \<Longrightarrow> \<exists>T'. dm_grows T d T' d'"
proof (induction p arbitrary: T d)
  case (Answer b)
  then show ?case using dm_grows_refl by auto
next
  case (Add_Api api k)
  obtain r d1 T1 where r: "npk_add_device_api api d = Some (r, d1)" "dm_grows T d T1 d1" using npk_api_grows [OF Add_Api.prems(1)] by blast
  then show ?case using Add_Api.IH [OF rangeI dm_grows_inv [OF r(2)]] Add_Api.prems(2) dm_grows_trans [OF r(2)] by fastforce
next
  case (Set_Transport i k)
  obtain r d1 where r: "npk_set_transport_api i d = Some (r, d1)" "dm_grows T d T d1"
    using npk_transport_grows [OF Set_Transport.prems(1)] by blast
  then show ?case using Set_Transport.IH [OF rangeI dm_grows_inv [OF r(2)]] Set_Transport.prems(2) dm_grows_trans [OF r(2)] by fastforce
next
  case (Add_Desc x k)
  obtain i d1 where r: "npk_add_device_desc env x d = Some (i, d1)" "run_prog env (k i) d1 = Some (ok, d')"
    using Add_Desc.prems(2) by (auto simp: bind_eq_Some_conv)
  obtain T1 where g: "dm_grows T d T1 d1" using npk_desc_grows [OF Add_Desc.prems(1) r(1)] by blast
  show ?case using Add_Desc.IH [OF rangeI dm_grows_inv [OF g] r(2)] dm_grows_trans [OF g] by blast
qed

end

text \<open>Drivers that reach the manager through its calls have the contract, however deep their events nest.\<close>

lemma driver_env_code: "driver_code (driver_env load prog n)"
proof (induction n)
  case 0
  show ?case by (rule driver_code.intro) simp
next
  case (Suc n)
  show ?case by (rule driver_code.intro) (simp add: driver_code.prog_grows [OF Suc])
qed

interpretation drivers: driver_code "driver_env load prog n" for load prog n
  by (rule driver_env_code)

subsection \<open>Drivers in layers\<close>

text \<open>A program that describes devices for drivers of a rank below \<open>r\<close> only; \<open>L\<close> has the names of the manifests.\<close>

primrec prog_below :: "(nat \<Rightarrow> nat) \<Rightarrow> (nat \<Rightarrow> load_name list) \<Rightarrow> nat \<Rightarrow> driver_prog \<Rightarrow> bool" where
  "prog_below rank L r (Answer b) = True"
| "prog_below rank L r (Add_Api api k) = (\<forall>x. prog_below rank L r (k x))"
| "prog_below rank L r (Set_Transport i k) = (\<forall>x. prog_below rank L r (k x))"
| "prog_below rank L r (Add_Desc x k) =
     ((\<forall>names m. x = Some names \<and> names_match (L m) names \<longrightarrow> rank m < r) \<and> (\<forall>i. prog_below rank L r (k i)))"

definition open_below :: "(nat \<Rightarrow> nat) \<Rightarrow> (nat \<Rightarrow> load_name list) \<Rightarrow> nat \<Rightarrow> driver_manager \<Rightarrow> bool" where
  "open_below rank L r d \<longleftrightarrow> (\<forall>m. mf_loadNames (dm_manifest d m) = L m \<and> (rank m < r \<longrightarrow> \<not> mf_locked (dm_manifest d m)))"

lemma open_after: "open_below rank L r d \<Longrightarrow> dm_grows T d T1 d1 \<Longrightarrow> open_below rank L r d1"
  by (simp add: open_below_def dm_grows_def)

lemma open_lower: "open_below rank L r d \<Longrightarrow> r1 \<le> r \<Longrightarrow> open_below rank L r1 d"
  by (auto simp: open_below_def)

context driver_code
begin

lemma layer_returns:
  assumes inv: "dm_inv T d" and d: "open_below rank L r d" and names: "\<And>m. names_match (L m) names \<Longrightarrow> rank m < r"
    and below: "\<And>m d. rank m < r \<Longrightarrow> open_below rank L (rank m) d \<Longrightarrow> answers env m d"
  shows "\<exists>i d'. AddDescriptor env (Some names) d = Some (i, d')"
proof (rule descriptor_returns [OF inv])
  fix m assume "names_match (mf_loadNames (dm_manifest d m)) names"
  then have m: "rank m < r" using names d by (simp add: open_below_def)
  then have low: "open_below rank L (rank m) d" using open_lower [OF d] by simp
  then have "open_below rank L (rank m) (lock_manifest m True d)" by (auto simp: open_below_def)
  then show "\<not> mf_locked (dm_manifest d m) \<and> answers env m d \<and> answers env m (lock_manifest m True d)"
    using below [OF m] low d m by (simp add: open_below_def)
qed

lemma prog_returns:
  assumes "dm_inv T d" and "open_below rank L r d" and "prog_below rank L r p"
    and below: "\<And>m d. rank m < r \<Longrightarrow> open_below rank L (rank m) d \<Longrightarrow> answers env m d"
  shows "run_prog env p d \<noteq> None"
  using assms(1-3)
proof (induction p arbitrary: T d)
  case (Add_Api api k)
  obtain x d1 T1 where r: "npk_add_device_api api d = Some (x, d1)" "dm_grows T d T1 d1" using npk_api_grows [OF Add_Api.prems(1)] by blast
  show ?case
    using Add_Api.IH [OF rangeI dm_grows_inv [OF r(2)] open_after [OF Add_Api.prems(2) r(2)]] Add_Api.prems(3) r(1) by simp
next
  case (Set_Transport i k)
  obtain x d1 where r: "npk_set_transport_api i d = Some (x, d1)" "dm_grows T d T d1" using npk_transport_grows [OF Set_Transport.prems(1)] by blast
  show ?case
    using Set_Transport.IH [OF rangeI dm_grows_inv [OF r(2)] open_after [OF Set_Transport.prems(2) r(2)]] Set_Transport.prems(3) r(1) by simp
next
  case (Add_Desc x k)
  have "\<exists>i d1. npk_add_device_desc env x d = Some (i, d1)"
  proof (cases x)
    case (Some names)
    have "names_match (L m) names \<Longrightarrow> rank m < r" for m using Add_Desc.prems(3) Some by simp
    from layer_returns [OF Add_Desc.prems(1,2) this below] Some show ?thesis by (simp add: npk_add_device_desc_def)
  qed (simp add: npk_add_device_desc_def)
  then obtain i d1 where r: "npk_add_device_desc env x d = Some (i, d1)" by blast
  then obtain T1 where g: "dm_grows T d T1 d1" using npk_desc_grows [OF Add_Desc.prems(1)] by blast
  show ?case using Add_Desc.IH [OF rangeI dm_grows_inv [OF g] open_after [OF Add_Desc.prems(2) g]] Add_Desc.prems(3) r by simp
qed simp

end


text \<open>A driver that describes a device with a name of its own while it is initialized waits for the lock its initialization holds.\<close>

lemma dm_init_deadlock:
  assumes inv: "dm_inv T d" and "\<not> mf_runtimeImage (dm_manifest d m)" and "load m = (True, True)"
    and p: "prog m Ev_Init = Add_Desc (Some names) k" and m: "LocateDriver names d = Some m"
  shows "EnsureRunning (driver_env load prog n) (Some m) d = None"
proof (cases "mf_locked (dm_manifest d m)")
  case True
  then show ?thesis by (simp add: EnsureRunning_def)
next
  case False
  let ?d = "lock_manifest m True d"
  have image: "\<not> mf_runtimeImage (dm_manifest ?d m)" "en_LoadElf (driver_env load prog n) m = (True, True)"
    using assms(2,3) by (simp_all add: lock_manifest_def upd_manifest_def) (cases n; simp)
  obtain x d4 where d4: "dm_grows T ?d T d4" "x < dm_fresh d4" "dm_manifests d4 = dm_manifests d"
      "load_driver (driver_env load prog n) m ?d =
        map_option (init_done x (dm_shadow d4)) (en_ProcessEvent (driver_env load prog n) m Ev_Init (SetShadow (Some x) d4))"
    using drivers.load_steps [OF lock_inv [OF inv] image] by auto
  let ?d4 = "SetShadow (Some x) d4"
  have g: "dm_grows T ?d T ?d4"
    by (rule dm_grows_trans [OF d4(1) shadow_grows [OF dm_grows_inv [OF d4(1)]]]) (use d4(2) in simp)
  have "run_prog env (Add_Desc (Some names) k) ?d4 = None" for env
  proof -
    obtain a d5 where d5: "AddDescriptor env (Some names) ?d4 = claim env names (dm_idAlloc ?d4) a d5" "dm_manifests d5 = dm_manifests ?d4"
        "dm_manifest d5 = dm_manifest ?d4"
      using descriptor_enters [OF dm_grows_inv [OF g]] by blast
    have "mf_loadNames (dm_manifest d5 y) = mf_loadNames (dm_manifest d y)" "mf_locked (dm_manifest d5 m)" for y
      using g d5(3) by (simp_all add: dm_grows_def)
    then have "LocateDriver names d5 = Some m" "mf_locked (dm_manifest d5 m)" using m d5(2) d4(3) by (simp_all add: LocateDriver_def SetShadow_def)
    then show ?thesis using d5(1) by (simp add: npk_add_device_desc_def claim_def AttachDevice_def EnsureRunning_def)
  qed
  then have "en_ProcessEvent (driver_env load prog n) m Ev_Init ?d4 = None" using p by (cases n) simp_all
  then show ?thesis using d4(4) False by (simp add: EnsureRunning_def)
qed

subsection \<open>Start\<close>

definition blank_manifest :: driver_manifest where
  "blank_manifest = \<lparr> mf_sourcePath = [], mf_friendlyName = [], mf_loadNames = [], mf_runtimeImage = False, mf_ProcessEvent = False, mf_locked = False \<rparr>"

text \<open>The static object, before \<open>Init\<close>, in a kernel whose manifests are \<open>mfs\<close>.\<close>

definition dm_static :: "(nat \<Rightarrow> driver_manifest) \<Rightarrow> driver_manager" where
  "dm_static mfs =
     \<lparr> dm_nodes = \<lparr> rb_root = None, rb_hooks = (\<lambda>_. HookStruct), rb_data = (\<lambda>_. \<lparr> nd_id = 0, nd_body = Driver_Instance blank_instance \<rparr>) \<rparr>,
       dm_unclaimedDevs = [], dm_manifests = [], dm_manifest = mfs, dm_kernelInstance = 0,
       dm_stats = \<lparr> st_manifestCount = 0, st_loadedCount = 0, st_unclaimedDescriptors = 0, st_totalDescriptors = 0, st_apiCount = 0 \<rparr>,
       dm_idAlloc = 0, dm_shadow = None, dm_fresh = 0, dm_ended = [] \<rparr>"

lemma dm_Init_ok: "\<exists>d T. dm_Init (dm_static mfs) = Some d \<and> dm_inv T d \<and> inord T = [0] \<and> dm_manifest d = mfs \<and> dm_manifests d = [] \<and> dm_idAlloc d = 2 \<and>
  dm_unclaimedDevs d = []"
proof -
  define d0 where "d0 = (snd (new_node 1 (Driver_Instance blank_instance) ((dm_static mfs)\<lparr> dm_idAlloc := 2 \<rparr>)))\<lparr> dm_kernelInstance := 0 \<rparr>"
  have v: "ident d0 x = (if x = 0 then 1 else 0)" "below_node d0 x = None" for x
    by (simp_all add: d0_def ident_def below_node_def node_def new_node_def dm_static_def blank_instance_def)
  have root: "rb_root (dm_nodes d0) = None" by (simp add: d0_def new_node_def dm_static_def construct_def)
  then have "rb_rep (dm_nodes d0) Tip" by (simp add: rb_rep_def zip_ok_def rb_ok_def)
  then have inv: "dm_inv Tip d0"
    by (simp add: dm_inv_def objects_ok_def v) (simp add: d0_def new_node_def dm_static_def)
  have "unhooked (rb_hooks (construct 0 y t) 0)" for y :: device_node and t by (rule construct_fresh)
  then have "loose Tip d0 0" by (simp add: loose_def) (simp add: d0_def new_node_def dm_static_def)
  then obtain d T where d: "nodeTree_Insert 0 d0 = Some d" "dm_grows Tip d0 T d" "inord T = [0]" "dm_manifests d = dm_manifests d0" "dm_manifest d = dm_manifest d0"
      "dm_idAlloc d = dm_idAlloc d0" "dm_unclaimedDevs d = dm_unclaimedDevs d0"
    using nodeTree_Insert_ok [OF inv, of 0] v by auto
  have "dm_Init (dm_static mfs) = nodeTree_Insert 0 d0"
    by (simp add: dm_Init_def d0_def take_id_def new_node_def dm_static_def numeral_2_eq_2)
  then show ?thesis using d dm_grows_inv [OF d(2)] by (auto simp: d0_def new_node_def dm_static_def)
qed

subsection \<open>Stacks\<close>

lemma stack_loop_ok:
  assumes inv: "dm_inv T d" and "a < dm_fresh d" and "a \<notin> set (dm_ended d)"
    and live: "\<forall>x p. below_node d x = Some p \<longrightarrow> p \<notin> set (dm_ended d)"
  shows "\<exists>xs. stack_loop d (Some a) acc = Some (acc @ a # xs) \<and> sorted_wrt (>) (map (ident d) (a # xs)) \<and> (\<forall>x \<in> set xs. x < dm_fresh d) \<and>
    successively (\<lambda>x y. below_node d x = Some y) (a # xs) \<and> below_node d (last (a # xs)) = None"
  using assms(2,3)
proof (induction "ident d a" arbitrary: a acc rule: less_induct)
  case less
  show ?case
  proof (cases "below_node d a")
    case None
    then show ?thesis using less.prems by (simp add: stack_loop.simps)
  next
    case (Some p)
    then have p: "p < dm_fresh d" "ident d p < ident d a" using inv less.prems by (simp_all add: dm_inv_def objects_ok_def)
    from less.hyps [OF p(2,1) live [rule_format, OF Some], of "acc @ [a]"] obtain xs where
      "stack_loop d (Some p) (acc @ [a]) = Some (acc @ a # p # xs)" "sorted_wrt (>) (map (ident d) (p # xs))" "\<forall>x \<in> set xs. x < dm_fresh d"
      "successively (\<lambda>x y. below_node d x = Some y) (p # xs)" "below_node d (last (p # xs)) = None" by auto
    moreover have "stack_loop d (Some a) acc = stack_loop d (Some p) (acc @ [a])" using Some less.prems by (subst stack_loop.simps) simp
    ultimately show ?thesis using Some p by (intro exI [of _ "p # xs"]) (auto intro: less_trans)
  qed
qed

text \<open>The stack of a node ends if no node lies on an object that is gone: it starts at the node with the id, every node is followed by the one
  below it, the ids fall, and the last node has none below it. For an id that no node has it is empty.\<close>

lemma dm_stack_ends:
  assumes "dm_inv T d" and "\<forall>x p. below_node d x = Some p \<longrightarrow> p \<notin> set (dm_ended d)" and "set (inord T) \<inter> set (dm_ended d) = {}"
  shows "\<exists>stack. GetStackFromId i d = Some stack \<and> sorted_wrt (>) (map (ident d) stack) \<and> successively (\<lambda>x y. below_node d x = Some y) stack \<and>
    GetById i d = Some (if stack = [] then None else Some (hd stack)) \<and> (stack \<noteq> [] \<longrightarrow> below_node d (last stack) = None)"
proof -
  obtain found where f: "GetById i d = Some found" "\<forall>a. found = Some a \<longleftrightarrow> a \<in> set (inord T) \<and> ident d a = i" using GetById_ok [OF assms(1)] by blast
  show ?thesis
  proof (cases found)
    case None
    then show ?thesis using f by (simp add: GetStackFromId_def stack_loop.simps)
  next
    case (Some a)
    then have "a < dm_fresh d" "a \<notin> set (dm_ended d)" using f assms(1,3) by (auto simp: dm_inv_def)
    from stack_loop_ok [OF assms(1) this assms(2), where acc = "[]"] obtain xs where "stack_loop d (Some a) [] = Some (a # xs)" "sorted_wrt (>) (map (ident d) (a # xs))"
      "successively (\<lambda>x y. below_node d x = Some y) (a # xs)" "below_node d (last (a # xs)) = None" by auto
    with f Some show ?thesis by (intro exI [of _ "a # xs"]) (simp add: GetStackFromId_def)
  qed
qed

text \<open>A device that was described while its driver was initialized lies on an object that is gone.\<close>

lemma dm_stack_gone:
  assumes "GetById i d = Some (Some a)" and "below_node d a = Some p" and "p \<in> set (dm_ended d)"
  shows "GetStackFromId i d = None"
  using assms by (simp add: GetStackFromId_def stack_loop.simps [of d "Some a"] stack_loop.simps [of d "Some p"])

subsection \<open>Properties\<close>

text \<open>An example: the driver of a bus, which describes a display adapter for the bus it is given, and the driver of the adapter, which
  offers a framebuffer.\<close>

definition bus_names :: "load_name list" where
  "bus_names = [\<lparr> ln_type = 0, ln_str = [1, 2] \<rparr>]"

definition sample_names :: "load_name list" where
  "sample_names = [\<lparr> ln_type = 1, ln_str = [3, 0, 0] \<rparr>]"

definition sample_prog :: "nat \<Rightarrow> driver_event \<Rightarrow> driver_prog" where
  "sample_prog m e =
     (case e of
        Ev_Init \<Rightarrow> Answer True
      | Ev_AddDevice i \<Rightarrow>
          if m = 0 then Add_Desc (Some sample_names) (\<lambda>_. Answer True)
          else Add_Api (Some \<lparr> ap_type = 1, ap_has = (\<lambda>f. f = ''get_mode'') \<rparr>) Answer)"

definition sample_env :: dm_env where
  "sample_env = driver_env (\<lambda>_. (True, True)) sample_prog 2"

definition sample_manifests :: "nat \<Rightarrow> driver_manifest" where
  "sample_manifests m =
     (if m = 0 then blank_manifest\<lparr> mf_friendlyName := ''pci'', mf_loadNames := bus_names \<rparr>
      else if m = 1 then blank_manifest\<lparr> mf_friendlyName := ''vga'', mf_loadNames := sample_names \<rparr>
      else blank_manifest)"




text \<open>C39: A manifest that is added while a device waits for it makes the kernel hang: the device is attached, or refused, over and over,
  since finding it does not take it off the list of unclaimed devices.\<close>

theorem dm_manifest_hangs:
  assumes "dm_inv T d" and "\<not> manifest_conflict d (dm_manifest d m) (dm_manifests d)" and "LocateDevice (mf_loadNames (dm_manifest d m)) d \<noteq> None"
  shows "AddManifest (driver_env load prog n) m loadNow d = None"
proof -
  let ?env = "driver_env load prog n"
  define d1 where "d1 = upd_stats (\<lambda>x. x\<lparr> st_manifestCount := sz_add (st_manifestCount x) 1 \<rparr>) d"
  define d2 where "d2 = d1\<lparr> dm_manifests := dm_manifests d1 @ [m] \<rparr>"
  have g1: "dm_grows T d T d1" unfolding d1_def by (rule stats_grows [OF assms(1)])
  have g2: "dm_grows T d T d2" unfolding d2_def by (rule dm_grows_trans [OF g1 manifests_grows [OF dm_grows_inv [OF g1]]])
  obtain dev where dev: "LocateDevice (mf_loadNames (dm_manifest d m)) d = Some dev" using assms(3) by blast
  have stuck: "attach_loop ?env m d3 = None" if g3: "dm_grows T d T3 d3" for T3 d3
  proof -
    have "LocateDevice (mf_loadNames (dm_manifest d3 m)) d3 = Some dev"
      using still_located [OF assms(1) g3 dev] g3 by (simp add: dm_grows_def)
    then show ?thesis by (rule drivers.attach_loop_stuck [OF dm_grows_inv [OF g3]])
  qed
  have "attach_loop ?env m d3 = None" if run: "EnsureRunning ?env (Some m) d2 = Some (ok, d3)" for ok d3
    using drivers.ensure_grows [OF dm_grows_inv [OF g2] run] dm_grows_trans [OF g2] stuck by blast
  then have "do { d3 \<leftarrow> if loadNow then map_option snd (EnsureRunning ?env (Some m) d2) else Some d2; d4 \<leftarrow> attach_loop ?env m d3; Some (True, d4) } = None"
    using stuck [OF g2] by (cases "EnsureRunning ?env (Some m) d2") auto
  then show ?thesis using assms(2) unfolding AddManifest_def Let_def d2_def d1_def by (simp only: if_False)
qed

theorem dm_manifest_hangs_witness:
  "\<exists>d d'. dm_Init (dm_static sample_manifests) = Some d \<and> AddDescriptor sample_env (Some sample_names) d = Some (2, d') \<and>
    AddManifest sample_env 1 True d' = None"
proof -
  obtain d T where d: "dm_Init (dm_static sample_manifests) = Some d" "dm_inv T d" "dm_idAlloc d = 2" "dm_manifests d = []" "dm_manifest d = sample_manifests"
    using dm_Init_ok [of sample_manifests] by blast
  obtain a d1 T1 where e: "AddDescriptor sample_env (Some sample_names) d = claim sample_env sample_names 2 a d1" "dm_grows T d T1 d1" "a < dm_fresh d1"
      "load_names_of d1 a = sample_names" "dm_manifests d1 = []" "dm_manifest d1 = sample_manifests"
    using descriptor_enters [OF d(2), of sample_env sample_names] d(3-5) by auto
  define d' where "d' = d1\<lparr> dm_unclaimedDevs := dm_unclaimedDevs d1 @ [a] \<rparr>"
  have run: "AddDescriptor sample_env (Some sample_names) d = Some (2, d')" using e(1,5) by (simp add: claim_def LocateDriver_def d'_def)
  have inv: "dm_inv T1 d'" unfolding d'_def using dm_grows_inv [OF unclaimed_grows [OF dm_grows_inv [OF e(2)] e(3)]] .
  have "load_names_of d' a = sample_names" using e(4) by (simp add: d'_def load_names_of_def node_def)
  moreover have "mf_loadNames (dm_manifest d' 1) = sample_names" using e(6) by (simp add: d'_def sample_manifests_def)
  moreover have "names_match sample_names sample_names" by code_simp
  ultimately have "LocateDevice (mf_loadNames (dm_manifest d' 1)) d' \<noteq> None" by (auto simp: LocateDevice_def find_None_iff d'_def)
  then have "AddManifest sample_env 1 True d' = None"
    unfolding sample_env_def by (intro dm_manifest_hangs [OF inv]) (simp_all add: d'_def e(5))
  with d run show ?thesis by blast
qed

end
