(* ===== verification/Spec2Isabelle.thy ===== *)
theory Spec2Isabelle
  imports
    Syslib_Maths
    Intr_Router
    Ipi_Mail
    Syslib_Bitmap
    Syslib_Memory
    Fwd_List
    Linked_List
    Syslib_Vector
    Mpsc_Queue
    Syslib_Locks
    Pmm
    Pool
    Slab_Alloc
    Kernel_Heap
    Io_Manager
    Run_Levels
    Syslib_String
    Temp_Fs
    Hat_X86
    Config_Store
    RB_Check
    Vmm_Object
    Sys_Clock
    Wait_Manager
    Vfs_Create
    Scheduler
    Vfs_Vm_Driver
    Tar
    Driver_Manager
begin

text \<open>
  Northport is an operating system for x86\_64, riscv64 and m68k: a kernel (\<open>src/kernel\<close>), a static library of
  containers, locks and helpers (\<open>src/libs/np-syslib\<close>), drivers (\<open>src/drivers\<close>) and a library for them
  (\<open>src/libs/np-driverlib\<close>). This development models the parts that are logic rather than register access and
  proves what their callers rely on. Definitions keep the names of the functions they translate.

  \<^bold>\<open>Conventions\<close> (\<open>Kernel_Prelude\<close>). \<open>size_t\<close> is a natural number with the wrap-around of the 64-bit targets
  written out where the code can reach it; bit work is on words. A failed assertion, a null pointer and an access outside a
  buffer are values of \<open>fault\<close>, and fallible code returns \<open>'a res\<close>. Pointers are
  addresses in an explicit heap or store, \<open>None\<close> for null. A loop that the code cannot leave by itself is a
  \<open>partial_function\<close> into \<open>option\<close>; every theorem about such a loop says that it returns.

  \<^bold>\<open>The syslib.\<close>
  \<^item> \<open>Syslib_Maths\<close> (\<open>Maths.h\<close>, \<open>Endian.h\<close>): alignment, square root, byte order.
  \<^item> \<open>Syslib_Bitmap\<close> (\<open>Bitmap.h\<close>): a bitmap is a list of bits; the search finds the first clear one.
  \<^item> \<open>Syslib_Memory\<close> (\<open>Memory.cpp\<close>): the memory primitives, and where \<open>memmove\<close> goes wrong.
  \<^item> \<open>Syslib_String\<close> (\<open>Span.h\<close>, \<open>String.cpp\<close>), \<open>Syslib_Url\<close> (\<open>formats/Url.cpp\<close>), \<open>Syslib_Time\<close>
    (\<open>Time.cpp\<close>), \<open>Syslib_Random\<close> (\<open>Random.cpp\<close>).
  \<^item> \<open>Fwd_List\<close>, \<open>Linked_List\<close>, \<open>Syslib_Vector\<close> (\<open>containers/List.h\<close>, \<open>LinkedList.h\<close>,
    \<open>Vector.h\<close>): pointer structures that implement HOL lists. The kernel names its forward lists \<open>sl::IntrFwdList\<close>, which no file of the
    repository declares; the scheduler, the clock, the events and the slabs are modelled with \<open>FwdList\<close> in its place.
  \<^item> \<open>RB_Tree\<close>, \<open>RB_Remove\<close>, \<open>RB_Check\<close>, \<open>RB_Data\<close> (\<open>containers/RBTree.h\<close>): the intrusive red-black tree with its
    threaded order and its augmentation. Insertion and removal terminate, keep the balance and change the ordered sequence by
    exactly one element; the run-time check accepts exactly the valid trees. \<open>RB_Frame\<close>: the operations write only the hooks of
    the nodes of their tree, so that several trees live in one store; \<open>RB_Search\<close>: the descent by a key finds the node that has it.
  \<^item> \<open>Tar\<close> (\<open>formats/Tar.cpp\<close>, and the walk of \<open>filesystem/InitDisk.cpp\<close>): reading an archive is the inverse of writing one, whatever
    the fields of the headers are that the code does not read.
  \<^item> \<open>Mpsc_Queue\<close> (\<open>containers/Queue.h\<close>) and \<open>Syslib_Locks\<close> (\<open>Locks.h\<close>): step relations over the atomic
    accesses, with invariants by rule induction: the queue is first-in-first-out and makes progress, the locks exclude.

  \<^bold>\<open>Memory.\<close>
  \<^item> \<open>Pmm\<close> (\<open>memory/Pmm.cpp\<close>): physical pages, singly and in runs. The option that overwrites freed pages is part of the model, and destroys the list of
    the free pages.
  \<^item> \<open>Pool\<close>, \<open>Slab_Alloc\<close>, \<open>Kernel_Heap\<close> (\<open>memory/Pool.cpp\<close>, \<open>Slab.cpp\<close>, \<open>Heap.cpp\<close>): blocks handed
    out are apart from each other, for every virtual memory manager that answers with memory of the size asked for which is not in use. The locale \<open>block_source\<close> states the contract of an allocator once and is interpreted for slabs and
    for the heap that is built on them.
  \<^item> \<open>Hat_X86\<close> (\<open>arch/x86_64/Hat.cpp\<close>): page tables as memory of 512-entry tables.
  \<^item> \<open>Vmm_Meta\<close>, \<open>Vmm\<close>, \<open>Vmm_Alloc\<close>, \<open>Vm_Drivers\<close>, \<open>Vmm_Mmio\<close>, \<open>Vmm_Object\<close> (\<open>memory/Vmm.cpp\<close>,
    \<open>memory/virtual\<close>, \<open>VmObject.cpp\<close>): address spaces as two red-black trees of holes and ranges whose nodes come from slabs
    of their own. Allocating and freeing refine operations on sets of free addresses and of ranges; together with
    the page tables, memory-mapped ranges translate to their frames.

  \<^bold>\<open>Tasking and I/O.\<close>
  \<^item> \<open>Run_Levels\<close> (\<open>tasking/RunLevels.cpp\<close>): deferred calls run once, in order, on lowering the level.
  \<^item> \<open>Sys_Clock\<close> (\<open>tasking/Clock.cpp\<close>): the queue of relative times against absolute deadlines.
  \<^item> \<open>Scheduler\<close> (\<open>tasking/Scheduler.cpp\<close>, \<open>Threads.cpp\<close>): a step relation over the operations of the scheduler. The queues stay intact in
    whatever order and on whatever core the operations run; what more holds when the callers are careful, and what happens when a thread is woken too early.
  \<^item> \<open>Wait_Manager\<close> (\<open>tasking/Waitable.cpp\<close>): events and waiting threads.
  \<^item> \<open>Io_Manager\<close> (\<open>io/IoManager.cpp\<close>): packets through a chain of devices. \<open>Config_Store\<close> (\<open>config/ConfigStore.cpp\<close>).

  \<^bold>\<open>Interrupts and drivers.\<close>
  \<^item> \<open>Io_Apic\<close> (\<open>arch/x86_64/Apic.cpp\<close>): the redirection registers as memory of the device, the overrides of the firmware.
  \<^item> \<open>Intr_Router\<close> (\<open>io/IntrRouter.cpp\<close>): routes in a tree per core over one store; a vector that was claimed leads to its route,
    and a pin that was routed arrives at it.
  \<^item> \<open>Ipi_Mail\<close> (\<open>interrupts/Ipi.cpp\<close>): mailboxes of the cores, a step relation over all interleavings of senders and receivers.
  \<^item> \<open>Driver_Manager\<close> (\<open>drivers/DriverManager.cpp\<close>, \<open>DriverHelpers.cpp\<close>, \<open>interfaces/driver/Drivers.cpp\<close>, \<open>Devices.cpp\<close>): drivers, devices and
    interfaces in a tree by their ids. The locale \<open>driver_code\<close> says what the manager relies on when it calls a driver; it is
    interpreted for every driver that acts through the calls of the kernel, with calls nested to any depth. That the calls return is shown for drivers
    in layers, and that they do not for a driver that describes a device for itself while it is initialized.

  \<^bold>\<open>Filesystems.\<close>
  \<^item> \<open>Temp_Fs\<close> (\<open>filesystem/TempFs.cpp\<close>): the in-memory filesystem on a store of nodes; what was created is found.
  \<^item> \<open>File_Cache\<close> (\<open>filesystem/FileCache.cpp\<close>): units of file contents in trees of their own.
  \<^item> \<open>Vfs\<close> (\<open>filesystem/Filesystem.cpp\<close>, \<open>TreeCache.cpp\<close>): nodes, mounts and paths over a record of driver functions.
  \<^item> \<open>Vfs_Cache\<close>, \<open>Vfs_Lookup\<close>, \<open>Vfs_Create\<close>: the locale \<open>fs_driver\<close> is the contract between the virtual filesystem and a driver, interpreted for
    the temporary filesystem; under it the node cache is transparent as long as it has unused slots (or as every mount point is referenced, which \<open>VfsMount\<close> does not
    see to), a lookup follows the tree of the drivers, and creating a node (\<open>fs_tree\<close>) adds one path.
  \<^item> \<open>Vfs_Vm_Driver\<close> (\<open>memory/virtual/VfsVmDriver.cpp\<close>): ranges that show files, over page tables, page allocator, virtual filesystem and file cache together.

  \<^bold>\<open>Bounds.\<close> Hypotheses such as \<open>length xs < size_limit\<close> say that an object fits into the address space. A lookup
  takes at most two nodes into the node cache for the root and five for each name (the directory and the node it links to, the directory a root is mounted
  on, the child and the node it links to), and holds at most three at a time: the node reached, the child and the target of a link.
  Fuel appears in one definition, \<open>driver_env\<close>, where it bounds how deep the events of drivers nest; there is no result when it runs out. It is enough
  when it exceeds the ranks of the drivers that are called.

  \<^bold>\<open>Not modelled.\<close> Code that consists of accesses to registers and device memory (drivers, local interrupt controllers, timers, the
  entry code of each platform), the switching of contexts, the loading of native code, text output, the interfaces of the bootloaders and the
  tables of the firmware, and vendored code. Where modelled code calls such code, the callee is an argument (the
  code of drivers, physical memory for new tables, the scheduler as the list of calls made to it). Locks are modelled by themselves, and where
  one is held while other code is called that may take it again (the events of threads, the manifests of drivers, the caches of the heap);
  elsewhere the critical sections are steps that are not interrupted.
\<close>

end
